(* ===== verification/Prelude.thy ===== *)
theory Prelude
  imports Main "HOL-Library.Word"
begin

text \<open>
  Prelude of the OpenFHE development: the machine types, the exceptions the C++ code
  throws, the loop combinators the component theories share, and the generic lemmas on
  words, residues and lists that carry the component proofs.

  \<^item> \<open>NativeInt\<close>, \<open>DNativeInt\<close> and \<open>usint\<close> are the C++ types \<open>uint64_t\<close>,
    \<open>unsigned __int128\<close> and \<open>uint32_t\<close>; arithmetic on them wraps as it does in C++.
  \<^item> A function that may throw returns \<open>ofhe_error + 'a\<close>, with \<open>Inl\<close> for the exception.
  \<^item> Where C++ leaves the behaviour undefined (a shift by the width or more, a remainder by
    zero) the HOL function has some value, and the theorems carry the guard as a hypothesis.
    Where such an operation is reachable from an ordinary input it is written into
    the model as \<open>Inl div_by_zero\<close> or \<open>Inl out_of_bounds\<close>, which no C++ handler catches.
    A signed overflow of that kind is \<open>Inl int_overflow\<close>.
\<close>

unbundle bit_operations_syntax

section \<open>Machine types and exceptions\<close>

type_synonym uschar = "8 word"
type_synonym usint = "32 word"
type_synonym NativeInt = "64 word"
type_synonym DNativeInt = "128 word"

datatype ofhe_error =
    math_error | type_error | not_available_error | config_error
  | not_implemented_error | deserialize_error | openfhe_error | invalid_argument | length_error | div_by_zero | out_of_bounds | null_pointer | int_overflow

type_synonym 'a result = "ofhe_error + 'a"

fun res_bind :: "'a result \<Rightarrow> ('a \<Rightarrow> 'b result) \<Rightarrow> 'b result" where
  "res_bind (Inl e) f = Inl e"
| "res_bind (Inr x) f = f x"

fun res_map :: "('a \<Rightarrow> 'b result) \<Rightarrow> 'a list \<Rightarrow> 'b list result" where
  "res_map f [] = Inr []"
| "res_map f (x # xs) = res_bind (f x) (\<lambda>y. res_bind (res_map f xs) (\<lambda>ys. Inr (y # ys)))"

lemma res_bind_eq_Inr [simp]:
  "res_bind r f = Inr y \<longleftrightarrow> (\<exists>x. r = Inr x \<and> f x = Inr y)"
  by (cases r) auto

lemma res_map_Inr_iff:
  "res_map f xs = Inr ys \<longleftrightarrow> length ys = length xs \<and> (\<forall>i<length xs. f (xs ! i) = Inr (ys ! i))"
proof (induction xs arbitrary: ys)
  case Nil
  then show ?case by auto
next
  case (Cons x xs)
  show ?case
  proof (cases ys)
    case Nil
    then show ?thesis by auto
  next
    case ys: (Cons y ys')
    have "res_map f (x # xs) = Inr ys \<longleftrightarrow> f x = Inr y \<and> res_map f xs = Inr ys'"
      by (auto simp: ys)
    then show ?thesis
      by (auto simp: Cons.IH ys less_Suc_eq_0_disj)
  qed
qed

text \<open>Reading an element of a \<open>std::vector\<close>, and writing one.\<close>

definition elem_at :: "'a list \<Rightarrow> nat \<Rightarrow> 'a result" where
  "elem_at xs i = (if i < length xs then Inr (xs ! i) else Inl out_of_bounds)"

definition elem_set :: "'a list \<Rightarrow> nat \<Rightarrow> 'a \<Rightarrow> 'a list result" where
  "elem_set xs i y = (if i < length xs then Inr (xs[i := y]) else Inl out_of_bounds)"

lemma elem_at_nth: "i < length xs \<Longrightarrow> elem_at xs i = Inr (xs ! i)"
  by (simp add: elem_at_def)

lemma elem_set_update: "i < length xs \<Longrightarrow> elem_set xs i y = Inr (xs[i := y])"
  by (simp add: elem_set_def)

section \<open>Loops\<close>

text \<open>The C loop \<open>for (i = lo; i < hi; i++) s = f i s\<close>.\<close>

definition for_range :: "nat \<Rightarrow> nat \<Rightarrow> (nat \<Rightarrow> 's \<Rightarrow> 's) \<Rightarrow> 's \<Rightarrow> 's" where
  "for_range lo hi f s = fold f [lo..<hi] s"

lemma for_range_empty [simp]: "hi \<le> lo \<Longrightarrow> for_range lo hi f s = s"
  by (simp add: for_range_def)

lemma for_range_Suc: "lo \<le> hi \<Longrightarrow> for_range lo (Suc hi) f s = f hi (for_range lo hi f s)"
  by (simp add: for_range_def)

lemma for_range_rec:
  "lo < hi \<Longrightarrow> for_range lo hi f s = for_range (Suc lo) hi f (f lo s)"
  by (simp add: for_range_def upt_rec)

lemma for_range_invariant:
  assumes "lo \<le> hi" and "P lo s"
    and step: "\<And>i t. lo \<le> i \<Longrightarrow> i < hi \<Longrightarrow> P i t \<Longrightarrow> P (Suc i) (f i t)"
  shows "P hi (for_range lo hi f s)"
proof -
  have "P (lo + k) (for_range lo (lo + k) f s)" if "lo + k \<le> hi" for k
    using that
  proof (induction k)
    case 0
    then show ?case using assms(2) by simp
  next
    case (Suc k)
    then have "P (Suc (lo + k)) (f (lo + k) (for_range lo (lo + k) f s))"
      by (intro step) auto
    then show ?case by (simp add: for_range_Suc)
  qed
  from this [of "hi - lo"] assms(1) show ?thesis by simp
qed

lemma for_range_cong:
  assumes "\<And>i s. lo \<le> i \<Longrightarrow> i < hi \<Longrightarrow> f i s = g i s"
  shows "for_range lo hi f s = for_range lo hi g s"
  unfolding for_range_def by (rule fold_cong) (auto simp: assms)

text \<open>The same loop when the body may throw.\<close>

definition res_range :: "nat \<Rightarrow> nat \<Rightarrow> (nat \<Rightarrow> 's \<Rightarrow> 's result) \<Rightarrow> 's \<Rightarrow> 's result" where
  "res_range lo hi f s = fold (\<lambda>i r. res_bind r (f i)) [lo..<hi] (Inr s)"

text \<open>A loop that overwrites entry \<open>i\<close> in step \<open>i\<close> is a map.\<close>

lemma for_range_update:
  "for_range 0 (length xs) (\<lambda>i ys. ys[i := f i (ys ! i)]) xs = map (\<lambda>i. f i (xs ! i)) [0..<length xs]"
proof -
  let ?P = "\<lambda>k ys. length ys = length xs \<and> (\<forall>i<length xs. ys ! i = (if i < k then f i (xs ! i) else xs ! i))"
  have "?P (length xs) (for_range 0 (length xs) (\<lambda>i ys. ys[i := f i (ys ! i)]) xs)"
    by (rule for_range_invariant) (auto simp: nth_list_update)
  then show ?thesis by (intro nth_equalityI) auto
qed

lemma res_range_update:
  fixes f :: "nat \<Rightarrow> 'a \<Rightarrow> 'a result"
  shows "res_range 0 (length xs) (\<lambda>i ys. res_bind (f i (ys ! i)) (\<lambda>y. Inr (ys[i := y]))) xs
    = res_map (\<lambda>i. f i (xs ! i)) [0..<length xs]"
proof -
  let ?g = "\<lambda>i ys. res_bind (f i (ys ! i)) (\<lambda>y. Inr (ys[i := y]))"
  have inl: "fold (\<lambda>i r. res_bind r (?g i)) is (Inl e) = Inl e" for "is" e by (induction "is") auto
  have "fold (\<lambda>i r. res_bind r (?g i)) [length us..<length us + length vs] (Inr (us @ vs))
      = res_bind (res_map (\<lambda>i. f i ((us @ vs) ! i)) [length us..<length us + length vs]) (\<lambda>zs. Inr (us @ zs))" for us vs
  proof (induction vs arbitrary: us)
    case Nil
    then show ?case by simp
  next
    case (Cons v vs)
    have up: "[length us..<length us + length (v # vs)] = length us # [Suc (length us)..<Suc (length us) + length vs]"
      by (subst upt_rec) simp
    show ?case
    proof (cases "f (length us) v")
      case (Inl e)
      then show ?thesis by (simp only: up) (simp add: inl)
    next
      case (Inr y)
      have same: "res_map (\<lambda>i. f i (((us @ [y]) @ vs) ! i)) is = res_map (\<lambda>i. f i ((us @ v # vs) ! i)) is"
        if "\<forall>i\<in>set is. length us < i" for "is"
        using that by (induction "is") (auto simp: nth_append nth_Cons')
      have same': "res_map (\<lambda>i. f i (((us @ [y]) @ vs) ! i)) [Suc (length us)..<Suc (length us) + length vs]
          = res_map (\<lambda>i. f i ((us @ v # vs) ! i)) [Suc (length us)..<Suc (length us) + length vs]"
        by (rule same) auto
      have "fold (\<lambda>i r. res_bind r (?g i)) [Suc (length us)..<Suc (length us) + length vs] (Inr ((us @ [y]) @ vs))
        = res_bind (res_map (\<lambda>i. f i ((us @ v # vs) ! i)) [Suc (length us)..<Suc (length us) + length vs])
            (\<lambda>zs. Inr ((us @ [y]) @ zs))"
        using Cons [of "us @ [y]"] same' by (simp only: length_append_singleton)
      then show ?thesis using Inr
        by (simp only: up) (cases "res_map (\<lambda>i. f i ((us @ v # vs) ! i)) [Suc (length us)..<Suc (length us) + length vs]"; simp)
    qed
  qed
  from this [of "[]" xs] show ?thesis
    by (cases "res_map (\<lambda>i. f i (xs ! i)) [0..<length xs]") (simp_all add: res_range_def)
qed

lemma res_range_rec: "lo < hi \<Longrightarrow> res_range lo hi f s = res_bind (f lo s) (res_range (Suc lo) hi f)"
proof -
  assume "lo < hi"
  have inl: "fold (\<lambda>i r. res_bind r (f i)) is (Inl e) = Inl e" for "is" e by (induction "is") auto
  show ?thesis using \<open>lo < hi\<close> by (cases "f lo s") (simp_all add: res_range_def upt_rec inl)
qed

lemma res_range_invariant:
  assumes "lo \<le> hi" "P lo s" and step: "\<And>i t. lo \<le> i \<Longrightarrow> i < hi \<Longrightarrow> P i t \<Longrightarrow> \<exists>t'. f i t = Inr t' \<and> P (Suc i) t'"
  shows "\<exists>s'. res_range lo hi f s = Inr s' \<and> P hi s'"
  using assms
proof (induction "hi - lo" arbitrary: lo s)
  case 0
  then show ?case by (simp add: res_range_def)
next
  case (Suc d)
  then obtain t' where t: "f lo s = Inr t'" "P (Suc lo) t'" by (metis le_refl zero_less_Suc zero_less_diff)
  have "\<exists>s'. res_range (Suc lo) hi f t' = Inr s' \<and> P hi s'"
    using Suc.hyps(2) Suc.prems(3) t(2) by (intro Suc.hyps(1)) auto
  then show ?case using Suc.hyps(2) t(1) by (simp add: res_range_rec)
qed

section \<open>Words read as natural numbers\<close>

named_theorems unat_values \<comment> \<open>the natural number an operation on words stands for\<close>
named_theorems mod_values \<comment> \<open>the residue a modular operation of the code returns\<close>

lemma unat_lt_64: "unat (x :: 64 word) < 18446744073709551616"
  using unsigned_less [of x] by simp

lemma unat_lt_128: "unat (x :: 128 word) < 2 ^ 128"
  using unsigned_less [of x] by simp

lemma unat_lt_32: "unat (x :: 32 word) < 4294967296"
  using unsigned_less [of x] by simp

lemma unat_add_nowrap:
  "unat (x :: 'a::len word) + unat y < 2 ^ LENGTH('a) \<Longrightarrow> unat (x + y) = unat x + unat y"
  by (simp add: unat_word_ariths)

lemma unat_mult_nowrap:
  "unat (x :: 'a::len word) * unat y < 2 ^ LENGTH('a) \<Longrightarrow> unat (x * y) = unat x * unat y"
  by (simp add: unat_word_ariths)

lemma unat_sub_nowrap:
  "y \<le> x \<Longrightarrow> unat (x - y :: 'a::len word) = unat x - unat y"
  by (rule unat_sub)

lemma unat_ucast_64_128 [simp]: "unat (ucast (x :: 64 word) :: 128 word) = unat x"
proof -
  have "unat x < 2 ^ 128"
    by (rule less_trans [OF unat_lt_64]) simp
  then show ?thesis
    by (simp add: unsigned_ucast_eq take_bit_eq_mod)
qed

lemma unat_ucast_128_64: "unat (ucast (x :: 128 word) :: 64 word) = unat x mod 2 ^ 64"
  by (simp add: unsigned_ucast_eq take_bit_eq_mod)

lemma unat_ucast_128_64_small:
  "unat (x :: 128 word) < 2 ^ 64 \<Longrightarrow> unat (ucast x :: 64 word) = unat x"
  by (simp add: unsigned_ucast_eq take_bit_eq_mod)

lemma unat_drop_bit: "unat (drop_bit n (w :: 'a::len word)) = unat w div 2 ^ n"
  by (subst unsigned_drop_bit_eq) (simp add: drop_bit_eq_div take_bit_nat_eq_self)

lemma word_ge_0_nat: "(x :: 'a::len word) \<noteq> 0 \<longleftrightarrow> 0 < unat x"
  by (simp add: unat_gt_0)

section \<open>Residues\<close>

lemma mod_sub_once:
  "(a :: nat) < 2 * q \<Longrightarrow> a mod q = (if q \<le> a then a - q else a)"
  by (simp add: le_mod_geq)

lemma nat_mod_eq_sub_mult:
  assumes "k * q \<le> (u :: nat)"
  shows "(u - k * q) mod q = u mod q"
proof -
  obtain d where "u = k * q + d" using assms le_iff_add by blast
  then show ?thesis by simp
qed

lemma mod_of_unique:
  "(r :: nat) < q \<Longrightarrow> r mod q = u mod q \<Longrightarrow> r = u mod q"
  by simp

lemma uint_eq_modI: "unat x = u mod unat q \<Longrightarrow> uint (x :: 'a::len word) = int u mod uint (q :: 'b::len word)"
  by (simp only: uint_nat zmod_int)

lemma uint_pos: "(q :: 'a::len word) \<noteq> 0 \<Longrightarrow> 0 < uint q"
  by (simp only: uint_nat of_nat_0_less_iff unat_gt_0 not_False_eq_True)

text \<open>Congruence of integers, for the calculations that mix residues and their representatives.\<close>

definition rcong :: "int \<Rightarrow> int \<Rightarrow> int \<Rightarrow> bool" where
  "rcong q a b \<longleftrightarrow> a mod q = b mod q"

lemma rcong_refl [simp, intro]: "rcong q a a"
  by (simp add: rcong_def)

lemma rcong_sym: "rcong q a b \<Longrightarrow> rcong q b a"
  by (simp add: rcong_def)

lemma rcong_trans [trans]: "rcong q a b \<Longrightarrow> rcong q b c \<Longrightarrow> rcong q a c"
  by (simp add: rcong_def)

lemma rcong_add: "rcong q a b \<Longrightarrow> rcong q c d \<Longrightarrow> rcong q (a + c) (b + d)"
  unfolding rcong_def by (rule mod_add_cong)

lemma rcong_diff: "rcong q a b \<Longrightarrow> rcong q c d \<Longrightarrow> rcong q (a - c) (b - d)"
  unfolding rcong_def by (rule mod_diff_cong)

lemma rcong_mult: "rcong q a b \<Longrightarrow> rcong q c d \<Longrightarrow> rcong q (a * c) (b * d)"
  unfolding rcong_def by (rule mod_mult_cong)

lemma rcong_power: "rcong q a b \<Longrightarrow> rcong q (a ^ n) (b ^ n)"
  by (induction n) (simp_all add: rcong_mult)

lemma rcong_sum: "(\<And>i. i \<in> A \<Longrightarrow> rcong q (f i) (g i)) \<Longrightarrow> rcong q (sum f A) (sum g A)"
  by (induction A rule: infinite_finite_induct) (simp_all add: rcong_add)

lemma rcong_mod [simp]: "rcong q (a mod q) b \<longleftrightarrow> rcong q a b" "rcong q a (b mod q) \<longleftrightarrow> rcong q a b"
  by (simp_all add: rcong_def)

lemma rcong_iff_dvd: "rcong q a b \<longleftrightarrow> q dvd a - b"
  unfolding rcong_def by (rule mod_eq_dvd_iff)

lemma rcong_small: "rcong q a b \<Longrightarrow> 0 \<le> a \<Longrightarrow> a < q \<Longrightarrow> 0 \<le> b \<Longrightarrow> b < q \<Longrightarrow> a = b"
  by (simp add: rcong_def)

lemma rcong_word_eq: "rcong (uint q) (uint x) (uint y) \<Longrightarrow> x < q \<Longrightarrow> y < q \<Longrightarrow> x = (y :: 'a::len word)"
  by (simp add: rcong_def word_less_def word_uint_eq_iff)

section \<open>Prime numbers\<close>

definition prime_nat :: "nat \<Rightarrow> bool" where
  "prime_nat p \<longleftrightarrow> 1 < p \<and> (\<forall>d. d dvd p \<longrightarrow> d = 1 \<or> d = p)"

lemma prime_nat_iff: "prime_nat p \<longleftrightarrow> 1 < p \<and> list_all (\<lambda>d. \<not> d dvd p) [2..<p]"
proof -
  have "d = 1 \<or> d = p" if p: "1 < p" "\<forall>d\<in>{2..<p}. \<not> d dvd p" "d dvd p" for d
  proof -
    have "d \<noteq> 0" using p(1,3) by (intro notI) simp
    moreover have "d \<le> p" using p(1,3) by (intro dvd_imp_le) auto
    moreover have "d \<notin> {2..<p}" using p(2,3) by blast
    ultimately show ?thesis by auto
  qed
  then show ?thesis by (auto simp: prime_nat_def list_all_iff)
qed

lemma prime_nat_coprime:
  assumes "prime_nat p" "\<not> p dvd a"
  shows "coprime p a"
proof -
  have "gcd p a = 1 \<or> gcd p a = p" using assms(1) by (simp add: prime_nat_def)
  then have "gcd p a = 1" using assms(2) by (metis gcd_dvd2)
  then show ?thesis by (simp add: coprime_iff_gcd_eq_1)
qed

lemma prime_nat_dvd_mult: "prime_nat p \<Longrightarrow> p dvd a * b \<longleftrightarrow> p dvd a \<or> p dvd b"
  by (cases "p dvd a") (auto simp: coprime_dvd_mult_right_iff prime_nat_coprime)

end
