(* ===== verification/NbBits.thy ===== *)
theory NbBits
  imports Prelude "HOL-Library.Log_Nat"
begin

text \<open>
  The bit-level helpers of \<open>src/core/include/math/nbtheory.h\<close> and
  \<open>src/core/include/utils/utilities.h\<close>: the position of the most significant bit
  (\<open>GetMSB\<close>, on top of the compiler's count-leading-zeros builtin), the table-driven bit
  reversal \<open>ReverseBits\<close> that orders the number theoretic transform, the digit
  decomposition \<open>GetDigits\<close> and the carry helpers of the lazy reduction.
\<close>

section \<open>Most significant bit\<close>

text \<open>GCC's \<open>__builtin_clzll\<close>: the number of leading zero bits (undefined at 0).\<close>

definition builtin_clzll :: "NativeInt \<Rightarrow> nat" where
  "builtin_clzll x = length (takeWhile (\<lambda>i. \<not> bit x i) (rev [0..<64]))"

definition GetMSB :: "NativeInt \<Rightarrow> nat" where
  "GetMSB x = (if x = 0 then 0 else 64 - builtin_clzll x)"

definition GetMSB_u32 :: "usint \<Rightarrow> nat" where
  "GetMSB_u32 x = GetMSB (ucast x)"

definition GetMSB64 :: "NativeInt \<Rightarrow> nat" where
  "GetMSB64 x = GetMSB x"

definition clz_u128 :: "DNativeInt \<Rightarrow> nat" where
  "clz_u128 u =
     (let hi = (ucast (drop_bit 64 u) :: NativeInt);
          lo = (ucast u :: NativeInt);
          retval = [builtin_clzll hi, builtin_clzll lo + 64, 128];
          idx = (if hi = 0 then 1 else 0) + (if lo = 0 \<and> hi = 0 then 1 else 0)
      in retval ! idx)"

definition GetMSB_u128 :: "DNativeInt \<Rightarrow> nat" where
  "GetMSB_u128 x = (if x = 0 then 0 else 128 - clz_u128 x)"

section \<open>Bit reversal\<close>

definition reverse_byte_table :: "nat list" where
  "reverse_byte_table =
    [
     0, 128, 64, 192, 32, 160, 96, 224, 16, 144, 80, 208, 48, 176, 112, 240,
     8, 136, 72, 200, 40, 168, 104, 232, 24, 152, 88, 216, 56, 184, 120, 248,
     4, 132, 68, 196, 36, 164, 100, 228, 20, 148, 84, 212, 52, 180, 116, 244,
     12, 140, 76, 204, 44, 172, 108, 236, 28, 156, 92, 220, 60, 188, 124, 252,
     2, 130, 66, 194, 34, 162, 98, 226, 18, 146, 82, 210, 50, 178, 114, 242,
     10, 138, 74, 202, 42, 170, 106, 234, 26, 154, 90, 218, 58, 186, 122, 250,
     6, 134, 70, 198, 38, 166, 102, 230, 22, 150, 86, 214, 54, 182, 118, 246,
     14, 142, 78, 206, 46, 174, 110, 238, 30, 158, 94, 222, 62, 190, 126, 254,
     1, 129, 65, 193, 33, 161, 97, 225, 17, 145, 81, 209, 49, 177, 113, 241,
     9, 137, 73, 201, 41, 169, 105, 233, 25, 153, 89, 217, 57, 185, 121, 249,
     5, 133, 69, 197, 37, 165, 101, 229, 21, 149, 85, 213, 53, 181, 117, 245,
     13, 141, 77, 205, 45, 173, 109, 237, 29, 157, 93, 221, 61, 189, 125, 253,
     3, 131, 67, 195, 35, 163, 99, 227, 19, 147, 83, 211, 51, 179, 115, 243,
     11, 139, 75, 203, 43, 171, 107, 235, 27, 155, 91, 219, 59, 187, 123, 251,
     7, 135, 71, 199, 39, 167, 103, 231, 23, 151, 87, 215, 55, 183, 119, 247,
     15, 143, 79, 207, 47, 175, 111, 239, 31, 159, 95, 223, 63, 191, 127, 255]"

definition reverse_byte :: "uschar \<Rightarrow> uschar" where
  "reverse_byte x = of_nat (reverse_byte_table ! unat x)"

definition shift_trick :: "nat list" where
  "shift_trick = [0, 7, 6, 5, 4, 3, 2, 1]"

text \<open>
  \<open>byte_of num k\<close> is the source's \<open>(num >> k) & 0xff\<close> passed as an \<open>unsigned char\<close>, and
  \<open>rev_at num k\<close> the reversed byte promoted to \<open>int\<close>. The shifts of the source act on
  \<open>int\<close>, so the right shift is the arithmetic one.
\<close>

definition byte_of :: "usint \<Rightarrow> nat \<Rightarrow> uschar" where
  "byte_of num k = ucast (drop_bit k num AND 255)"

definition rev_at :: "usint \<Rightarrow> nat \<Rightarrow> usint" where
  "rev_at num k = ucast (reverse_byte (byte_of num k))"

definition ReverseBits :: "usint \<Rightarrow> nat \<Rightarrow> usint" where
  "ReverseBits num msb =
     (let msbb = msb div 8 + (if msb mod 8 \<noteq> 0 then 1 else 0);
          s = shift_trick ! (msb mod 8)
      in if msbb = 1 then signed_drop_bit s (rev_at num 0)
         else if msbb = 2 then signed_drop_bit s (push_bit 8 (rev_at num 0) OR rev_at num 8)
         else if msbb = 3 then
           signed_drop_bit s (push_bit 16 (rev_at num 0) OR push_bit 8 (rev_at num 8) OR rev_at num 16)
         else if msbb = 4 then
           signed_drop_bit s (push_bit 24 (rev_at num 0) OR push_bit 16 (rev_at num 8)
             OR push_bit 8 (rev_at num 16) OR rev_at num 24)
         else - 1)"

section \<open>Digits, powers of two and carries\<close>

text \<open>
  \<open>std::round(log2(b))\<close>: the nearest integer to the binary logarithm, on the exact value
  (a double holds every power of two and every \<open>b\<close> below \<open>2 ^ 53\<close> exactly).
\<close>

definition round_log2 :: "nat \<Rightarrow> nat" where
  "round_log2 b = (let f = floorlog 2 b - 1 in if b ^ 2 < 2 ^ (2 * f + 1) then f else f + 1)"

fun GetDigits_loop :: "nat \<Rightarrow> nat \<Rightarrow> NativeInt \<Rightarrow> int list" where
  "GetDigits_loop 0 baseDigits uu = []"
| "GetDigits_loop (Suc k) baseDigits uu =
     (let uTemp = drop_bit baseDigits uu
      in sint (uu - push_bit baseDigits uTemp) # GetDigits_loop k baseDigits uTemp)"

definition GetDigits :: "NativeInt \<Rightarrow> nat \<Rightarrow> nat \<Rightarrow> int list" where
  "GetDigits u base k = GetDigits_loop k (round_log2 base) u"

definition IsPowerOfTwo :: "usint \<Rightarrow> bool" where
  "IsPowerOfTwo Input = (Input \<noteq> 0 \<and> Input AND (Input - 1) = 0)"

definition IsAdditionOverflow :: "NativeInt \<Rightarrow> NativeInt \<Rightarrow> usint" where
  "IsAdditionOverflow a b = (let a = a + b in if a < b then 1 else 0)"

definition AdditionWithCarryOut :: "NativeInt \<Rightarrow> NativeInt \<Rightarrow> usint \<times> NativeInt" where
  "AdditionWithCarryOut a b = (let a = a + b in (if a < b then 1 else 0, a))"

section \<open>Most significant bit: correctness\<close>

lemma takeWhile_rev_upt:
  fixes P :: "nat \<Rightarrow> bool"
  defines "c n \<equiv> length (takeWhile (\<lambda>i. \<not> P i) (rev [0..<n]))"
  shows "c n \<le> n \<and> (\<forall>i<n. n - c n \<le> i \<longrightarrow> \<not> P i) \<and> (c n < n \<longrightarrow> P (n - c n - 1))"
proof (induction n)
  case 0
  then show ?case by (simp add: c_def)
next
  case (Suc n)
  have rec: "c (Suc n) = (if P n then 0 else Suc (c n))"
    by (simp add: c_def)
  show ?case
  proof (cases "P n")
    case True
    then show ?thesis by (simp add: rec)
  next
    case False
    then show ?thesis using Suc.IH
      by (auto simp: rec less_Suc_eq)
  qed
qed

lemma nat_lt_exp_iff_bits: "(n :: nat) < 2 ^ m \<longleftrightarrow> (\<forall>i\<ge>m. \<not> bit n i)"
proof
  assume "n < 2 ^ m"
  then have "take_bit m n = n" by (simp add: take_bit_nat_eq_self_iff)
  then show "\<forall>i\<ge>m. \<not> bit n i" by (metis bit_take_bit_iff not_le)
next
  assume "\<forall>i\<ge>m. \<not> bit n i"
  then have "take_bit m n = n"
    by (intro bit_eqI) (metis bit_take_bit_iff not_le)
  then show "n < 2 ^ m" by (simp add: take_bit_nat_eq_self_iff)
qed

lemma bit_imp_ge_exp: "bit (n :: nat) i \<Longrightarrow> 2 ^ i \<le> n"
  by (meson nat_lt_exp_iff_bits not_le order_refl)

lemma GetMSB_bounds:
  assumes "x \<noteq> 0"
  shows "0 < GetMSB x" and "2 ^ (GetMSB x - 1) \<le> unat x" and "unat x < 2 ^ GetMSB x"
    and "GetMSB x \<le> 64"
proof -
  let ?c = "builtin_clzll x"
  note tw = takeWhile_rev_upt [of "bit x" 64, folded builtin_clzll_def]
  have hi: "\<not> bit x i" if "64 - ?c \<le> i" for i
    using tw that by (cases "i < 64") (auto simp: bit_word.rep_eq dest: bit_imp_le_length)
  have "?c < 64"
  proof (rule ccontr)
    assume "\<not> ?c < 64"
    then have "x = 0" using hi by (intro bit_word_eqI) auto
    with assms show False by simp
  qed
  with tw have lo: "bit x (64 - ?c - 1)" by blast
  have m: "GetMSB x = 64 - ?c" using assms by (simp add: GetMSB_def)
  show "0 < GetMSB x" using \<open>?c < 64\<close> m by simp
  show "2 ^ (GetMSB x - 1) \<le> unat x"
    using lo m by (intro bit_imp_ge_exp) (simp add: bit_unsigned_iff)
  show "unat x < 2 ^ GetMSB x"
    using hi m by (simp add: nat_lt_exp_iff_bits bit_unsigned_iff)
  show "GetMSB x \<le> 64" using m by simp
qed

lemma msb_unique:
  assumes "2 ^ (m - 1) \<le> (n :: nat)" "n < 2 ^ m" "0 < m"
    and "2 ^ (k - 1) \<le> n" "n < 2 ^ k" "0 < k"
  shows "m = k"
proof -
  have "(2 :: nat) ^ (m - 1) < 2 ^ k" "(2 :: nat) ^ (k - 1) < 2 ^ m"
    using assms by linarith+
  then have "m - 1 < k" "k - 1 < m" by simp_all
  with assms(3,6) show ?thesis by linarith
qed

lemma GetMSB_eqI:
  assumes "2 ^ (m - 1) \<le> unat x" "unat x < 2 ^ m" "0 < m"
  shows "GetMSB x = m"
proof -
  have "x \<noteq> 0" using assms(1) by (auto simp: word_ge_0_nat intro: order.strict_trans2 [rotated])
  then show ?thesis using assms GetMSB_bounds [of x] by (intro msb_unique) auto
qed

section \<open>Bit reversal: correctness\<close>

text \<open>The table of reversed \<open>k\<close>-bit numbers, built by doubling: the reference for the byte table.\<close>

fun bitrev_table :: "nat \<Rightarrow> nat list" where
  "bitrev_table 0 = [0]"
| "bitrev_table (Suc k) = map (\<lambda>r. 2 * r) (bitrev_table k) @ map (\<lambda>r. 2 * r + 1) (bitrev_table k)"

lemma length_bitrev_table [simp]: "length (bitrev_table k) = 2 ^ k"
  by (induction k) simp_all

lemma bit_bitrev_table:
  "x < 2 ^ k \<Longrightarrow> bit (bitrev_table k ! x) i \<longleftrightarrow> i < k \<and> bit x (k - 1 - i)"
proof (induction k arbitrary: x i)
  case 0
  then show ?case by simp
next
  case (Suc k)
  show ?case
  proof (cases "x < 2 ^ k")
    case True
    then have "\<not> bit x k" by (simp add: nat_lt_exp_iff_bits)
    then show ?thesis using True Suc.IH [OF True]
      by (cases i) (auto simp: nth_append bit_double_iff)
  next
    case False
    define y where "y = x - 2 ^ k"
    have y: "x = y + 2 ^ k" "y < 2 ^ k" using False Suc.prems by (auto simp: y_def)
    have x_or: "x = y OR 2 ^ k"
      unfolding y(1) by (rule disjunctive_add) (use y(2) in \<open>auto simp: nat_lt_exp_iff_bits bit_exp_iff\<close>)
    have "bit x j \<longleftrightarrow> bit y j \<or> j = k" for j
      by (auto simp: x_or bit_or_iff bit_exp_iff)
    moreover have "\<not> bit y k" using y(2) by (simp add: nat_lt_exp_iff_bits)
    ultimately show ?thesis using False Suc.IH [OF y(2)] y
      by (cases i) (auto simp: nth_append bit_double_iff even_bit_succ_iff bit_Suc bit_0)
  qed
qed

lemma reverse_byte_table_eq: "reverse_byte_table = bitrev_table 8"
  by code_simp

lemma bit_reverse_byte: "bit (reverse_byte x) i \<longleftrightarrow> i < 8 \<and> bit x (7 - i)"
proof -
  have "unat x < 2 ^ 8" using unsigned_less [of x] by simp
  then show ?thesis
    by (auto simp: reverse_byte_def reverse_byte_table_eq bit_of_nat_iff bit_bitrev_table
        bit_unsigned_iff simp del: bitrev_table.simps)
qed

lemma bit_255_int: "bit (255 :: int) i \<longleftrightarrow> i < 8"
proof -
  have "bit (mask 8 :: int) i \<longleftrightarrow> i < 8" by (auto simp: bit_mask_iff)
  then show ?thesis by (simp add: mask_eq_exp_minus_1)
qed

lemma bit_byte_of: "bit (byte_of num k) i \<longleftrightarrow> i < 8 \<and> bit num (k + i)"
  unfolding byte_of_def by (subst bit_unsigned_iff) (auto simp: bit_and_iff bit_drop_bit_eq bit_255_int)

lemma bit_rev_at: "bit (rev_at num k) i \<longleftrightarrow> i < 8 \<and> bit num (k + (7 - i))"
  by (auto simp: rev_at_def bit_unsigned_iff bit_reverse_byte bit_byte_of)

lemma bit_signed_drop_bit_clear:
  assumes "\<not> bit (w :: usint) 31"
  shows "bit (signed_drop_bit s w) i \<longleftrightarrow> bit w (s + i)"
proof -
  have n: "\<not> bit w (LENGTH(32) - 1)" using assms by simp
  have "bit w (s + i) \<longleftrightarrow> False" if "LENGTH(32) - s \<le> i"
  proof (cases "s + i = 31")
    case False
    with that have "32 \<le> s + i" by simp
    then show ?thesis by (auto dest: bit_imp_le_length)
  qed (use assms in simp)
  then show ?thesis
    unfolding bit_signed_drop_bit_iff using n by (simp only: if_split) blast
qed

text \<open>
  The concatenated reversed bytes, before the final shift: bit \<open>i\<close> is bit \<open>8 b - 1 - i\<close> of
  the input.
\<close>

lemma bit_rev_concat2:
  "bit (push_bit 8 (rev_at num 0) OR rev_at num 8) i \<longleftrightarrow> i < 16 \<and> bit num (15 - i)"
proof -
  consider "i < 8" | "8 \<le> i" "i < 16" | "16 \<le> i" by linarith
  then show ?thesis
    by cases (auto simp: bit_or_iff bit_push_bit_iff bit_rev_at)
qed

lemma bit_rev_concat3:
  "bit (push_bit 16 (rev_at num 0) OR push_bit 8 (rev_at num 8) OR rev_at num 16) i
     \<longleftrightarrow> i < 24 \<and> bit num (23 - i)"
proof -
  consider "i < 8" | "8 \<le> i" "i < 16" | "16 \<le> i" "i < 24" | "24 \<le> i" by linarith
  then show ?thesis
    by cases (auto simp: bit_or_iff bit_push_bit_iff bit_rev_at)
qed

lemma shift_trick_nth: "s < 8 \<Longrightarrow> shift_trick ! s = (if s = 0 then 0 else 8 - s)"
  by (auto simp: shift_trick_def less_Suc_eq numeral_eq_Suc)

lemma ReverseBits_shift:
  assumes "8 * (b - 1) < msb" "msb \<le> 8 * b" "0 < b"
  shows "msb div 8 + (if msb mod 8 \<noteq> 0 then 1 else 0) = b"
    and "shift_trick ! (msb mod 8) = 8 * b - msb"
proof -
  obtain c where b: "b = Suc c" using assms(3) by (cases b) auto
  obtain d m where dm: "d = msb div 8" "m = msb mod 8" by simp
  have msb: "msb = 8 * d + m" and m: "m < 8" by (simp_all add: dm)
  have cases: "m = 0 \<and> d = Suc c \<or> m \<noteq> 0 \<and> d = c"
    using assms m unfolding msb b by (cases "m = 0") arith+
  then show "msb div 8 + (if msb mod 8 \<noteq> 0 then 1 else 0) = b"
    by (auto simp: b simp flip: dm)
  from cases show "shift_trick ! (msb mod 8) = 8 * b - msb"
    unfolding dm(2) [symmetric] msb by (auto simp: shift_trick_nth m b)
qed

lemma bit_ReverseBits:
  assumes "0 < msb" "msb \<le> 24"
  shows "bit (ReverseBits num msb) i \<longleftrightarrow> i < msb \<and> bit num (msb - 1 - i)"
proof -
  consider (1) "8 * (1 - 1) < msb" "msb \<le> 8 * 1" | (2) "8 * (2 - 1) < msb" "msb \<le> 8 * 2"
    | (3) "8 * (3 - 1) < msb" "msb \<le> 8 * 3"
    using assms by linarith
  then show ?thesis
  proof cases
    case 1
    have "7 - (8 - msb + i) = msb - 1 - i" using 1 by linarith
    then show ?thesis using ReverseBits_shift [OF 1] 1
      by (auto simp: ReverseBits_def Let_def bit_signed_drop_bit_clear bit_rev_at)
  next
    case 2
    have "15 - (16 - msb + i) = msb - 1 - i" using 2 by linarith
    then show ?thesis using ReverseBits_shift [OF 2] 2
      by (auto simp: ReverseBits_def Let_def bit_signed_drop_bit_clear bit_rev_concat2)
  next
    case 3
    have "23 - (24 - msb + i) = msb - 1 - i" using 3 by linarith
    then show ?thesis using ReverseBits_shift [OF 3] 3
      by (auto simp: ReverseBits_def Let_def bit_signed_drop_bit_clear bit_rev_concat3)
  qed
qed

section \<open>Properties\<close>

text \<open>
  On values of at most 24 bits \<open>ReverseBits\<close> reverses the low \<open>msb\<close> bits and clears the
  others; reversing twice gives back a number of \<open>msb\<close> bits.
\<close>

theorem ReverseBits_correct:
  assumes "0 < msb" "msb \<le> 24"
  shows "(bit (ReverseBits num msb) i \<longleftrightarrow> i < msb \<and> bit num (msb - 1 - i))
    \<and> ReverseBits (ReverseBits num msb) msb = take_bit msb num"
proof
  show "bit (ReverseBits num msb) i \<longleftrightarrow> i < msb \<and> bit num (msb - 1 - i)" by (rule bit_ReverseBits [OF assms])
  show "ReverseBits (ReverseBits num msb) msb = take_bit msb num"
    using assms by (intro bit_word_eqI) (auto simp: bit_ReverseBits bit_take_bit_iff)
qed

theorem ReverseBits_correct_witness:
  "ReverseBits (ReverseBits 6 4) 4 = 6"
  using ReverseBits_correct [of 4 6 0] by (simp add: take_bit_eq_mod)

text \<open>
  From 25 bits on the sign of the intermediate \<open>int\<close> is shifted in, and the default branch
  turns \<open>msb = 0\<close> into \<open>-1\<close>, so the result is not the reversal.
\<close>

theorem ReverseBits_wide:
  "ReverseBits 1 25 = 0xFF000000 \<and> ReverseBits 0 0 = - 1"
  by code_simp

text \<open>
  C0: \<open>GetMSB\<close> is the position of the most significant bit, counted from 1, and 0 for 0.
\<close>

theorem GetMSB_correct:
  "(GetMSB 0 = 0) \<and> (0 < GetMSB x \<longleftrightarrow> x \<noteq> 0) \<and> unat x < 2 ^ GetMSB x \<and> 2 ^ GetMSB x \<le> 2 * max 1 (unat x) \<and> GetMSB x \<le> 64"
proof (cases "x = 0")
  case True
  then show ?thesis by (simp add: GetMSB_def)
next
  case False
  note b = GetMSB_bounds [OF False]
  have "2 ^ GetMSB x = 2 * (2 :: nat) ^ (GetMSB x - 1)" using b(1) by (cases "GetMSB x") simp_all
  then show ?thesis using b False by (simp add: GetMSB_def [of 0])
qed

end
