(* ===== verification/NatInt.thy ===== *)
theory NatInt
  imports NbBits
begin

text \<open>
  \<open>NativeIntegerT<uint64_t>\<close> of \<open>src/core/include/math/hal/intnat/ubintnat.h\<close>, the scalar every
  other layer computes with: plain, checked and rounded arithmetic, shifts, bits and digits,
  and the decimal and binary strings. The class has one field, \<open>m_value\<close>, so a value is a
  64-bit word. An in-place method \<open>fEq\<close> returns the new \<open>m_value\<close>.
\<close>

section \<open>Addition, subtraction, multiplication\<close>

text \<open>The compile-time switch between the checked and the unchecked bodies.\<close>

definition NATIVEINT_DO_CHECKS :: bool where
  "NATIVEINT_DO_CHECKS = False"

definition AddCheck :: "NativeInt \<Rightarrow> NativeInt \<Rightarrow> NativeInt result" where
  "AddCheck a b = (let newv = a + b in if newv < a \<or> newv < b then Inl math_error else Inr newv)"

definition AddFast :: "NativeInt \<Rightarrow> NativeInt \<Rightarrow> NativeInt" where
  "AddFast a b = a + b"

definition Add :: "NativeInt \<Rightarrow> NativeInt \<Rightarrow> NativeInt result" where
  "Add a b = (if NATIVEINT_DO_CHECKS then AddCheck a b else Inr (AddFast a b))"

definition AddEqCheck :: "NativeInt \<Rightarrow> NativeInt \<Rightarrow> NativeInt result" where
  "AddEqCheck a b = (let oldv = a; m_value = a + b
     in if m_value < oldv then Inl math_error else Inr m_value)"

definition AddEqFast :: "NativeInt \<Rightarrow> NativeInt \<Rightarrow> NativeInt" where
  "AddEqFast a b = a + b"

definition AddEq :: "NativeInt \<Rightarrow> NativeInt \<Rightarrow> NativeInt result" where
  "AddEq a b = (if NATIVEINT_DO_CHECKS then AddEqCheck a b else Inr (AddEqFast a b))"

definition SubCheck :: "NativeInt \<Rightarrow> NativeInt \<Rightarrow> NativeInt" where
  "SubCheck a b = (if a \<le> b then 0 else a - b)"

definition SubFast :: "NativeInt \<Rightarrow> NativeInt \<Rightarrow> NativeInt" where
  "SubFast a b = a - b"

definition Sub :: "NativeInt \<Rightarrow> NativeInt \<Rightarrow> NativeInt" where
  "Sub a b = (if NATIVEINT_DO_CHECKS then SubCheck a b else SubFast a b)"

definition SubEqCheck :: "NativeInt \<Rightarrow> NativeInt \<Rightarrow> NativeInt" where
  "SubEqCheck a b = (if a \<le> b then 0 else a - b)"

definition SubEqFast :: "NativeInt \<Rightarrow> NativeInt \<Rightarrow> NativeInt" where
  "SubEqFast a b = a - b"

definition SubEq :: "NativeInt \<Rightarrow> NativeInt \<Rightarrow> NativeInt" where
  "SubEq a b = (if NATIVEINT_DO_CHECKS then SubEqCheck a b else SubEqFast a b)"

text \<open>The unary \<open>operator-\<close>.\<close>

definition Neg :: "NativeInt \<Rightarrow> NativeInt" where
  "Neg a = Sub 0 a"

definition MulCheck :: "NativeInt \<Rightarrow> NativeInt \<Rightarrow> NativeInt result" where
  "MulCheck a b = (let prod = a * b
     in if prod > 0 \<and> (prod < a \<or> prod < b) then Inl math_error else Inr prod)"

definition MulFast :: "NativeInt \<Rightarrow> NativeInt \<Rightarrow> NativeInt" where
  "MulFast a b = a * b"

definition Mul :: "NativeInt \<Rightarrow> NativeInt \<Rightarrow> NativeInt result" where
  "Mul a b = (if NATIVEINT_DO_CHECKS then MulCheck a b else Inr (MulFast a b))"

definition MulEqCheck :: "NativeInt \<Rightarrow> NativeInt \<Rightarrow> NativeInt result" where
  "MulEqCheck a b = (let oldval = a; m_value = a * b
     in if m_value < oldval then Inl math_error else Inr m_value)"

definition MulEqFast :: "NativeInt \<Rightarrow> NativeInt \<Rightarrow> NativeInt" where
  "MulEqFast a b = a * b"

definition MulEq :: "NativeInt \<Rightarrow> NativeInt \<Rightarrow> NativeInt result" where
  "MulEq a b = (if NATIVEINT_DO_CHECKS then MulEqCheck a b else Inr (MulEqFast a b))"

section \<open>Division, exponentiation, rounding\<close>

definition DividedBy :: "NativeInt \<Rightarrow> NativeInt \<Rightarrow> NativeInt result" where
  "DividedBy a b = (if b = 0 then Inl math_error else Inr (a div b))"

definition DividedByEq :: "NativeInt \<Rightarrow> NativeInt \<Rightarrow> NativeInt result" where
  "DividedByEq a b = (if b = 0 then Inl math_error else let m_value = a div b in Inr m_value)"

fun Exp :: "NativeInt \<Rightarrow> nat \<Rightarrow> NativeInt" where
  "Exp m p =
     (if p = 0 then 1
      else if p = 1 then m
      else let tmp = Exp m (p div 2)
           in if p mod 2 = 0 then tmp * tmp else tmp * tmp * m)"

declare Exp.simps [simp del]

definition ExpEq :: "NativeInt \<Rightarrow> nat \<Rightarrow> NativeInt" where
  "ExpEq m p =
     (if p = 0 then 1
      else if p = 1 then m
      else let tmp = Exp m (p div 2)
           in if p mod 2 = 0 then tmp * tmp else m * (tmp * tmp))"

definition DivideAndRound :: "NativeInt \<Rightarrow> NativeInt \<Rightarrow> NativeInt result" where
  "DivideAndRound a q =
     (if q = 0 then Inl math_error
      else let ans = a div q; rem = a mod q; halfQ = drop_bit 1 q
           in Inr (if \<not> rem \<le> halfQ then ans + 1 else ans))"

definition DivideAndRoundEq :: "NativeInt \<Rightarrow> NativeInt \<Rightarrow> NativeInt result" where
  "DivideAndRoundEq a q = DivideAndRound a q"

definition MultiplyAndRound :: "NativeInt \<Rightarrow> NativeInt \<Rightarrow> NativeInt \<Rightarrow> NativeInt result" where
  "MultiplyAndRound a p q = (let ans = a * p in DivideAndRound ans q)"

definition MultiplyAndRoundEq :: "NativeInt \<Rightarrow> NativeInt \<Rightarrow> NativeInt \<Rightarrow> NativeInt result" where
  "MultiplyAndRoundEq a p q = res_bind (MulEq a p) (\<lambda>m_value. DivideAndRoundEq m_value q)"

definition MultiplyAndDivideQuotient :: "NativeInt \<Rightarrow> NativeInt \<Rightarrow> NativeInt \<Rightarrow> NativeInt" where
  "MultiplyAndDivideQuotient a p q =
     (let xD = (ucast a :: DNativeInt); pD = ucast p; qD = ucast q in ucast (xD * pD div qD))"

definition MultiplyAndDivideRemainder :: "NativeInt \<Rightarrow> NativeInt \<Rightarrow> NativeInt \<Rightarrow> NativeInt" where
  "MultiplyAndDivideRemainder a p q =
     (let xD = (ucast a :: DNativeInt); pD = ucast p; qD = ucast q in ucast ((xD * pD) mod qD))"

section \<open>Shifts, comparison, bits and digits\<close>

definition LShift :: "NativeInt \<Rightarrow> nat \<Rightarrow> NativeInt" where
  "LShift a shift = push_bit shift a"

definition LShiftEq :: "NativeInt \<Rightarrow> nat \<Rightarrow> NativeInt" where
  "LShiftEq a shift = push_bit shift a"

definition RShift :: "NativeInt \<Rightarrow> nat \<Rightarrow> NativeInt" where
  "RShift a shift = drop_bit shift a"

definition RShiftEq :: "NativeInt \<Rightarrow> nat \<Rightarrow> NativeInt" where
  "RShiftEq a shift = drop_bit shift a"

definition Compare :: "NativeInt \<Rightarrow> NativeInt \<Rightarrow> int" where
  "Compare x a = (if x < a then -1 else if x > a then 1 else 0)"

text \<open>\<open>ConvertToInt<OutputType>\<close>: the output type is given by its size in bytes.\<close>

definition ConvertToInt :: "nat \<Rightarrow> NativeInt \<Rightarrow> nat result" where
  "ConvertToInt outSize a =
     (if outSize < 8 then Inl type_error else Inr (unat a mod 2 ^ (8 * outSize)))"

definition GetLengthForBase :: "NativeInt \<Rightarrow> usint \<Rightarrow> nat" where
  "GetLengthForBase a base = GetMSB a"

definition GetBitAtIndex :: "NativeInt \<Rightarrow> usint \<Rightarrow> uschar result" where
  "GetBitAtIndex a index =
     (if index = 0 then Inl math_error
      else Inr (ucast (drop_bit (unat (index - 1)) a AND 1)))"

text \<open>
  The loop \<open>for (i = 1; i < base; i = i * 2)\<close> of \<open>GetDigitAtIndexForBase\<close>. The counter is a
  32-bit word that wraps to 0 after 32 doublings, and then never reaches a base above \<open>2 ^ 31\<close>;
  the fuel counts the iterations, and \<open>None\<close> is the loop that does not end.
\<close>

fun digit_loop :: "nat \<Rightarrow> NativeInt \<Rightarrow> usint \<Rightarrow> usint \<Rightarrow> usint \<Rightarrow> usint \<Rightarrow> usint result option" where
  "digit_loop 0 a base i newIndex digit = None"
| "digit_loop (Suc fuel) a base i newIndex digit =
     (if i < base then
        (case GetBitAtIndex a newIndex of
           Inl e \<Rightarrow> Some (Inl e)
         | Inr bt \<Rightarrow> digit_loop fuel a base (i * 2) (newIndex + 1) (digit + ucast bt * i))
      else Some (Inr digit))"

text \<open>\<open>ceil(log2(b))\<close> on the exact value.\<close>

definition ceil_log2 :: "nat \<Rightarrow> nat" where
  "ceil_log2 b = (if b \<le> 1 then 0 else floorlog 2 (b - 1))"

definition GetDigitAtIndexForBase :: "NativeInt \<Rightarrow> usint \<Rightarrow> usint \<Rightarrow> usint result option" where
  "GetDigitAtIndexForBase a index base =
     (let DigitLen = (of_nat (ceil_log2 (unat base)) :: usint);
          newIndex = 1 + (index - 1) * DigitLen
      in digit_loop 33 a base 1 newIndex 0)"

section \<open>Strings\<close>

text \<open>
  \<open>str[i] - '0'\<close> on a \<open>char\<close> (signed on the supported targets): the difference as an \<open>int\<close>.
\<close>

definition char_digit :: "char \<Rightarrow> int" where
  "char_digit c = (let v = int (of_char c) in if v < 128 then v - 48 else v - 256 - 48)"

fun AssignVal_loop :: "NativeInt \<Rightarrow> NativeInt \<Rightarrow> string \<Rightarrow> NativeInt result" where
  "AssignVal_loop m_value test_value [] = Inr m_value"
| "AssignVal_loop m_value test_value (c # str) =
     (let v = char_digit c
      in if v < 0 \<or> v > 9 then Inl type_error
         else let m_value = m_value * 10 + of_int v
              in if m_value < test_value then Inl math_error
                 else AssignVal_loop m_value m_value str)"

definition AssignVal :: "string \<Rightarrow> NativeInt result" where
  "AssignVal str = AssignVal_loop 0 0 str"

fun FromBinaryString_loop :: "NativeInt \<Rightarrow> string \<Rightarrow> NativeInt result" where
  "FromBinaryString_loop v [] = Inr v"
| "FromBinaryString_loop v (c # str) =
     (let n = char_digit c
      in if n < 0 \<or> n > 1 then Inl math_error
         else FromBinaryString_loop (push_bit 1 v OR of_int n) str)"

definition FromBinaryString :: "string \<Rightarrow> NativeInt result" where
  "FromBinaryString bitString =
     (if length bitString > 64 then Inl math_error else FromBinaryString_loop 0 bitString)"

text \<open>\<open>std::to_string\<close> on an unsigned value: its decimal digits.\<close>

fun decimal :: "nat \<Rightarrow> string" where
  "decimal n = (if n < 10 then [char_of (48 + n)] else decimal (n div 10) @ [char_of (48 + n mod 10)])"

declare decimal.simps [simp del]

definition toString :: "NativeInt \<Rightarrow> string" where
  "toString value = decimal (unat value)"

text \<open>\<open>toString(unsigned __int128)\<close>: three parts of fifteen digits each.\<close>

definition toString_u128 :: "DNativeInt \<Rightarrow> string" where
  "toString_u128 value =
     (let maxChars = 15; divisor = 10 ^ maxChars;
          part3 = value mod divisor; value = value div divisor;
          part2 = value mod divisor; value = value div divisor;
          part1 = value mod divisor;
          ret = []; appendNextPart = False;
          (ret, appendNextPart) =
            (if part1 \<noteq> 0 then (decimal (unat part1), True) else (ret, appendNextPart));
          (ret, appendNextPart) =
            (if part2 \<noteq> 0 then
               (let part2str = decimal (unat part2)
                in if appendNextPart
                   then (ret @ replicate (maxChars - length part2str) (CHR ''0'') @ part2str, appendNextPart)
                   else (part2str, True))
             else if appendNextPart then (ret @ replicate maxChars (CHR ''0''), appendNextPart)
             else (ret, appendNextPart))
      in if part3 \<noteq> 0 then
           (let part3str = decimal (unat part3)
            in if appendNextPart
               then ret @ replicate (maxChars - length part3str) (CHR ''0'') @ part3str
               else part3str)
         else if appendNextPart then ret @ replicate maxChars (CHR ''0'')
         else ''0'')"

section \<open>Checked arithmetic\<close>

lemma add_wraps_iff: "(a :: NativeInt) + b < a \<longleftrightarrow> 2 ^ 64 \<le> unat a + unat b"
proof -
  have "unat (a + b) = (if unat a + unat b < 2 ^ 64 then unat a + unat b else unat a + unat b - 2 ^ 64)"
    by (simp add: unat_plus_if_size word_size)
  then show ?thesis
    using unat_lt_64 [of b] by (auto simp: word_less_nat_alt split: if_splits)
qed

lemma AddCheck_iff:
  "AddCheck a b = (if unat a + unat b < 2 ^ 64 then Inr (a + b) else Inl math_error)"
  using add_wraps_iff [of a b] add_wraps_iff [of b a]
  by (auto simp: AddCheck_def Let_def add.commute)

lemma AddEqCheck_iff: "AddEqCheck a b = AddCheck a b"
  using add_wraps_iff [of a b] by (auto simp: AddEqCheck_def AddCheck_iff Let_def)

lemma Exp_power: "Exp m p = m ^ p"
proof (induction m p rule: Exp.induct)
  case (1 m p)
  show ?case
  proof (cases "p \<le> 1")
    case True
    then have "p = 0 \<or> p = 1" by linarith
    then show ?thesis by (auto simp: Exp.simps [of m p])
  next
    case False
    then have IH: "Exp m (p div 2) = m ^ (p div 2)" using 1 by simp
    have "p = p div 2 + p div 2 + p mod 2" by presburger
    then have "m ^ p = m ^ (p div 2) * m ^ (p div 2) * m ^ (p mod 2)"
      by (metis power_add)
    then show ?thesis using False
      by (auto simp: Exp.simps [of m p] IH Let_def mod_2_eq_odd)
  qed
qed

lemma ExpEq_power: "ExpEq m p = m ^ p"
  by (simp add: ExpEq_def Exp_power [symmetric] Exp.simps [of m p] Let_def mult.commute)

section \<open>Rounding division\<close>

lemma unat_DivideAndRound:
  assumes "q \<noteq> 0"
  obtains r where "DivideAndRound a q = Inr r"
    and "unat r = unat a div unat q + (if unat q div 2 < unat a mod unat q then 1 else 0)"
proof -
  have half: "drop_bit 1 q < a mod q \<longleftrightarrow> unat q div 2 < unat a mod unat q"
    by (simp add: word_less_nat_alt unat_div unat_mod drop_bit_Suc)
  have "unat a div unat q + 1 < 2 ^ 64" if "unat q div 2 < unat a mod unat q"
  proof -
    have "unat q \<noteq> 1" using that by auto
    then have "2 \<le> unat q" using assms by (simp add: word_ge_0_nat)
    then have "unat a div unat q \<le> unat a div 2" by (intro div_le_mono2) auto
    then show ?thesis using unat_lt_64 [of a] by simp
  qed
  then have "unat (a div q + 1) = unat a div unat q + 1" if "unat q div 2 < unat a mod unat q"
    using that by (subst unat_add_nowrap) (auto simp: unat_div)
  with half show ?thesis
    by (intro that) (auto simp: DivideAndRound_def assms Let_def not_le unat_div)
qed

section \<open>Strings: correctness\<close>

lemma char_of_48 [simp]: "char_of (48 :: nat) = CHR ''0''"
  by code_simp

lemma char_digit_decimal: "d < 10 \<Longrightarrow> char_digit (char_of (48 + d)) = int d"
  by (simp add: char_digit_def Let_def)

lemma AssignVal_loop_append:
  "AssignVal_loop m t (xs @ ys) =
     res_bind (AssignVal_loop m t xs) (\<lambda>m'. AssignVal_loop m' (if xs = [] then t else m') ys)"
proof (induction xs arbitrary: m t)
  case Nil
  then show ?case by simp
next
  case (Cons c xs)
  then show ?case by (cases xs) (auto simp: Let_def)
qed

lemma decimal_nonempty: "decimal n \<noteq> []"
  by (simp add: decimal.simps [of n])

lemma unat_of_nat_64: "n < 2 ^ 64 \<Longrightarrow> unat (of_nat n :: NativeInt) = n"
  by (simp add: unat_of_nat)

lemma AssignVal_decimal: "n < 2 ^ 64 \<Longrightarrow> AssignVal (decimal n) = Inr (of_nat n)"
proof (induction n rule: decimal.induct)
  case (1 n)
  show ?case
  proof (cases "n < 10")
    case True
    then show ?thesis
      by (simp add: AssignVal_def decimal.simps [of n] char_digit_decimal Let_def)
  next
    case False
    have IH: "AssignVal_loop 0 0 (decimal (n div 10)) = Inr (of_nat (n div 10))"
      using 1 False by (auto simp: AssignVal_def)
    have n: "of_nat (n div 10) * 10 + of_nat (n mod 10) = (of_nat n :: NativeInt)"
      by (metis div_mult_mod_eq of_nat_add of_nat_mult of_nat_numeral)
    have "\<not> (of_nat n :: NativeInt) < of_nat (n div 10)"
      using 1(2) by (simp add: word_less_nat_alt unat_of_nat_64)
    then show ?thesis using False n
      by (simp add: AssignVal_def decimal.simps [of n] AssignVal_loop_append IH decimal_nonempty
          char_digit_decimal Let_def)
  qed
qed

lemma length_decimal: "n < 10 ^ k \<Longrightarrow> 0 < k \<Longrightarrow> length (decimal n) \<le> k"
proof (induction n arbitrary: k rule: decimal.induct)
  case (1 n)
  show ?case
  proof (cases "n < 10")
    case True
    then show ?thesis using 1 by (simp add: decimal.simps [of n])
  next
    case False
    obtain j where j: "k = Suc j" using 1(3) by (cases k) auto
    with False 1(2) have "0 < j" by (cases j) auto
    note k = j this
    then have "n div 10 < 10 ^ j" using 1(2) by (simp add: less_mult_imp_div_less mult.commute)
    then show ?thesis using 1(1) False k by (simp add: decimal.simps [of n])
  qed
qed

text \<open>Zero-padded decimals: a high part followed by a fixed-width low part.\<close>

definition decimal_pad :: "nat \<Rightarrow> nat \<Rightarrow> string" where
  "decimal_pad k n = replicate (k - length (decimal n)) (CHR ''0'') @ decimal n"

lemma decimal_split:
  assumes "0 < h" "l < 10 ^ k" "0 < k"
  shows "decimal (h * 10 ^ k + l) = decimal h @ decimal_pad k l"
  using assms
proof (induction k arbitrary: l)
  case 0
  then show ?case by simp
next
  case (Suc k)
  let ?n = "h * 10 ^ Suc k + l"
  have dm: "?n div 10 = h * 10 ^ k + l div 10" "?n mod 10 = l mod 10"
    by (simp_all add: mod_add_eq mult.left_commute [of h])
  have "1 \<le> h * 10 ^ k" using Suc.prems(1) by (simp add: Suc_le_eq)
  then have "10 \<le> 10 * (h * 10 ^ k)" by (simp only: mult_le_cancel1)
  then have ge: "\<not> ?n < 10" by (simp only: power_Suc mult.left_commute [of h 10])
  have step: "decimal ?n = decimal (h * 10 ^ k + l div 10) @ [char_of (48 + l mod 10)]"
    using ge by (subst decimal.simps) (simp only: dm if_False)
  show ?case
  proof (cases k)
    case 0
    then show ?thesis using Suc.prems step
      by (simp add: decimal_pad_def decimal.simps [of l])
  next
    case (Suc k')
    have "l div 10 < 10 ^ k" using Suc.prems(2) by (simp add: less_mult_imp_div_less mult.commute)
    then have "decimal (h * 10 ^ k + l div 10) = decimal h @ decimal_pad k (l div 10)"
      using Suc.IH Suc.prems(1) Suc by blast
    moreover have "decimal_pad k (l div 10) @ [char_of (48 + l mod 10)] = decimal_pad (Suc k) l"
      using Suc by (cases "l < 10") (auto simp: decimal_pad_def decimal.simps [of l] decimal.simps [of 0]
          replicate_append_same [symmetric])
    ultimately show ?thesis using step by simp
  qed
qed

lemma toString_u128_decimal: "toString_u128 w = decimal (unat w)"
proof -
  let ?D = "10 ^ 15 :: nat"
  define v where "v = unat w"
  have D: "unat (10 ^ 15 :: DNativeInt) = ?D" by simp
  have p: "unat (w mod 10 ^ 15) = v mod ?D" "unat (w div 10 ^ 15 mod 10 ^ 15) = v div ?D mod ?D"
    "unat (w div 10 ^ 15 div 10 ^ 15 mod 10 ^ 15) = v div ?D div ?D mod ?D"
    by (simp_all only: unat_div unat_mod D v_def)
  define a where a: "a = v div ?D div ?D mod ?D"
  define b where b: "b = v div ?D mod ?D"
  define c where c: "c = v mod ?D"
  have lt: "b < ?D" "c < ?D" by (simp_all add: b c)
  have "v < 2 ^ 128" using unat_lt_128 [of w] by (simp add: v_def)
  then have "v div ?D div ?D < ?D" by (simp add: div_mult2_eq [symmetric] less_mult_imp_div_less)
  then have v: "v = (a * ?D + b) * ?D + c" by (simp add: a b c)
  have pad: "replicate (15 - length (decimal x)) (CHR ''0'') @ decimal x = decimal_pad 15 x" for x
    by (simp add: decimal_pad_def)
  have pad0: "replicate 15 (CHR ''0'') = decimal_pad 15 0"
  proof -
    have "replicate 15 c = replicate 14 c @ [c]" for c :: char by (simp add: numeral_eq_Suc)
    then show ?thesis by (simp add: decimal_pad_def decimal.simps [of 0])
  qed
  have nz: "x \<noteq> 0 \<longleftrightarrow> 0 < unat x" for x :: DNativeInt by (simp add: unat_gt_0)
  have A: "decimal ((a * ?D + b) * ?D + c) = decimal a @ decimal_pad 15 b @ decimal_pad 15 c" if "0 < a"
    using decimal_split [of "a * ?D + b" c 15] decimal_split [of a b 15] that lt by simp
  have B: "decimal (b * ?D + c) = decimal b @ decimal_pad 15 c" if "0 < b"
    using decimal_split [of b c 15] that lt by simp
  have dv: "decimal v = (if 0 < a then decimal a @ decimal_pad 15 b @ decimal_pad 15 c
      else if 0 < b then decimal b @ decimal_pad 15 c else decimal c)"
  proof (cases "0 < a")
    case True
    then show ?thesis using A by (simp only: v if_True)
  next
    case False
    then have "v = b * ?D + c" using v by simp
    then show ?thesis using False B by auto
  qed
  show ?thesis
    unfolding toString_u128_def Let_def nz p a [symmetric] b [symmetric] c [symmetric]
      v_def [symmetric]
    by (auto simp: dv pad pad0 decimal.simps [of 0])
qed

section \<open>Properties\<close>

text \<open>
  The checked addition throws exactly when the sum does not fit in 64 bits, and otherwise
  returns it; the in-place form agrees.
\<close>

theorem AddCheck_correct:
  "AddCheck a b = (if unat a + unat b < 2 ^ 64 then Inr (a + b) else Inl math_error)
   \<and> AddEqCheck a b = AddCheck a b"
  by (simp add: AddCheck_iff AddEqCheck_iff)

text \<open>
  The checked multiplication compares the wrapped product with the operands only, so it
  accepts some products that overflow; its in-place form rejects a product with 0.
\<close>

theorem MulCheck_incomplete:
  "MulCheck (2 ^ 33) (2 ^ 31 + 1) = Inr (2 ^ 33) \<and> 2 ^ 64 \<le> unat (2 ^ 33 :: NativeInt) * unat (2 ^ 31 + 1 :: NativeInt)
   \<and> MulEqCheck 5 0 = Inl math_error"
  by (simp add: MulCheck_def MulEqCheck_def Let_def)

text \<open>
  A value printed in decimal parses back to itself, for 64-bit words and, through the three
  part printer, for the digits of a 128-bit word.
\<close>

theorem decimal_roundtrip:
  "AssignVal (toString x) = Inr x \<and> toString_u128 w = decimal (unat w)"
  using AssignVal_decimal [of "unat x"] unat_lt_64 [of x]
  by (simp add: toString_def toString_u128_decimal)

text \<open>
  The overflow test of the parser compares successive values only, so a string above
  \<open>2 ^ 64 - 1\<close> can be accepted with a wrapped value.
\<close>

theorem AssignVal_overflow:
  "AssignVal ''30000000000000000000'' = Inr 11553255926290448384"
  by code_simp

text \<open>
  C0: \<open>DivideAndRound\<close> returns the quotient rounded to the nearest integer, halves down, and
  throws for a zero divisor.
\<close>

theorem DivideAndRound_correct:
  "DivideAndRound a q = (if q = 0 then Inl math_error
     else Inr (of_nat (unat a div unat q + (if unat q div 2 < unat a mod unat q then 1 else 0))))"
proof (cases "q = 0")
  case False
  then obtain r where "DivideAndRound a q = Inr r"
    and "unat r = unat a div unat q + (if unat q div 2 < unat a mod unat q then 1 else 0)"
    by (rule unat_DivideAndRound)
  moreover from this have "r = of_nat (unat a div unat q + (if unat q div 2 < unat a mod unat q then 1 else 0))"
    by (metis word_nat_cases unat_of_nat_64 of_nat_unat ucast_id)
  ultimately show ?thesis using False by simp
qed (simp add: DivideAndRound_def)

text \<open>
  Exponentiation by repeated squaring is the power, modulo \<open>2 ^ 64\<close>, in both forms.
\<close>

theorem Exp_correct: "Exp m p = m ^ p \<and> ExpEq m p = m ^ p"
  by (simp add: Exp_power ExpEq_power)

end
