(* ===== verification/NatMod.thy ===== *)
theory NatMod
  imports NatInt
begin

text \<open>
  The modular arithmetic of \<open>NativeIntegerT<uint64_t>\<close>
  (\<open>src/core/include/math/hal/intnat/ubintnat.h\<close>): the double-word helpers, Barrett reduction with
  the precomputed \<open>mu\<close>, Shoup's multiplication by a precomputed constant, exponentiation and
  inversion. A suffix \<open>_mu\<close> marks the overload that takes the Barrett value.
\<close>

section \<open>Double words\<close>

record typeD =
  hi :: NativeInt
  lo :: NativeInt

text \<open>\<open>res -= a\<close> on two words; \<open>m_uintMax + 1\<close> is \<open>0\<close>.\<close>

definition SubtractD :: "typeD \<Rightarrow> typeD \<Rightarrow> typeD" where
  "SubtractD res a =
     (let res = (if lo res < lo a
                 then res\<lparr>lo := lo res + (0 - lo a), hi := hi res - 1\<rparr>
                 else res\<lparr>lo := lo res - lo a\<rparr>)
      in res\<lparr>hi := hi res - hi a\<rparr>)"

definition RShiftD :: "typeD \<Rightarrow> int \<Rightarrow> NativeInt" where
  "RShiftD x shift = (drop_bit (nat shift) (lo x) OR push_bit (nat (64 - shift)) (hi x))"

text \<open>The x86-64 \<open>mulq\<close>: the two words of the full product.\<close>

definition MultD :: "NativeInt \<Rightarrow> NativeInt \<Rightarrow> typeD" where
  "MultD a b =
     (let wres = (ucast a :: DNativeInt) * ucast b
      in \<lparr>hi = ucast (drop_bit 64 wres), lo = ucast wres\<rparr>)"

text \<open>The web-assembly variant: schoolbook multiplication on half words.\<close>

definition MultD_emscripten :: "NativeInt \<Rightarrow> NativeInt \<Rightarrow> typeD" where
  "MultD_emscripten a b =
     (let a1 = drop_bit 32 a; a2 = take_bit 32 a;
          b1 = drop_bit 32 b; b2 = take_bit 32 b;
          res_hi = a1 * b1; res_lo = a2 * b2; lowBefore = res_lo;
          p1 = a2 * b1; p2 = a1 * b2; temp = p1 + p2;
          res_hi = res_hi + drop_bit 32 temp;
          res_lo = res_lo + push_bit 32 (take_bit 32 temp);
          res_hi = (if lowBefore > res_lo then res_hi + 1 else res_hi);
          res_hi = (if temp < p1 \<or> temp < p2 then res_hi + push_bit 32 1 else res_hi)
      in \<lparr>hi = res_hi, lo = res_lo\<rparr>)"

definition MultDHi :: "NativeInt \<Rightarrow> NativeInt \<Rightarrow> NativeInt" where
  "MultDHi a b = (let x = MultD a b in hi x)"

definition GetD :: "typeD \<Rightarrow> DNativeInt" where
  "GetD x = (push_bit 64 (ucast (hi x)) OR ucast (lo x))"

section \<open>Remainders and Barrett reduction\<close>

definition Mod :: "NativeInt \<Rightarrow> NativeInt \<Rightarrow> NativeInt" where
  "Mod a modulus = a mod modulus"

definition ModEq :: "NativeInt \<Rightarrow> NativeInt \<Rightarrow> NativeInt" where
  "ModEq a modulus = a mod modulus"

definition ComputeMu :: "NativeInt \<Rightarrow> NativeInt" where
  "ComputeMu q = (let temp = push_bit (2 * GetMSB q + 3) (1 :: DNativeInt) in ucast (temp div ucast q))"

text \<open>
  The block every Barrett method shares: from the double word \<open>prod1\<close> and its value \<open>prodD\<close> to
  the corrected remainder. The correction subtracts the modulus only when the value is strictly
  above it.
\<close>

definition barrett_block :: "typeD \<Rightarrow> DNativeInt \<Rightarrow> NativeInt \<Rightarrow> NativeInt \<Rightarrow> NativeInt" where
  "barrett_block prod1 prodD modulus mu =
     (let n = int (GetMSB modulus); alpha = n + 3; beta = -2;
          ql = RShiftD prod1 (n + beta);
          q = GetD (MultD ql mu);
          q = drop_bit (nat (alpha - beta)) q;
          prodD = prodD - q * ucast modulus;
          ans = (ucast prodD :: NativeInt)
      in if ans > modulus then ans - modulus else ans)"

definition Mod_mu :: "NativeInt \<Rightarrow> NativeInt \<Rightarrow> NativeInt \<Rightarrow> NativeInt" where
  "Mod_mu a modulus mu = barrett_block \<lparr>hi = 0, lo = a\<rparr> (ucast a) modulus mu"

definition ModEq_mu :: "NativeInt \<Rightarrow> NativeInt \<Rightarrow> NativeInt \<Rightarrow> NativeInt" where
  "ModEq_mu a modulus mu = barrett_block \<lparr>hi = 0, lo = a\<rparr> (ucast a) modulus mu"

section \<open>Modular addition and subtraction\<close>

definition ModAdd :: "NativeInt \<Rightarrow> NativeInt \<Rightarrow> NativeInt \<Rightarrow> NativeInt" where
  "ModAdd a b modulus =
     (let op1 = (if a \<ge> modulus then a mod modulus else a);
          op2 = (if b \<ge> modulus then b mod modulus else b);
          op1 = op1 + op2
      in if op1 \<ge> modulus then op1 - modulus else op1)"

definition ModAddEq :: "NativeInt \<Rightarrow> NativeInt \<Rightarrow> NativeInt \<Rightarrow> NativeInt" where
  "ModAddEq m_value b modulus =
     (let op2 = b;
          m_value = (if m_value \<ge> modulus then m_value mod modulus else m_value);
          op2 = (if op2 \<ge> modulus then op2 mod modulus else op2);
          m_value = m_value + op2
      in if m_value \<ge> modulus then m_value - modulus else m_value)"

definition ModAddFast :: "NativeInt \<Rightarrow> NativeInt \<Rightarrow> NativeInt \<Rightarrow> NativeInt" where
  "ModAddFast a b modulus = (let r = a + b in if r \<ge> modulus then r - modulus else r)"

definition ModAddFastEq :: "NativeInt \<Rightarrow> NativeInt \<Rightarrow> NativeInt \<Rightarrow> NativeInt" where
  "ModAddFastEq m_value b modulus =
     (let m_value = m_value + b in if m_value \<ge> modulus then m_value - modulus else m_value)"

definition ModAdd_mu :: "NativeInt \<Rightarrow> NativeInt \<Rightarrow> NativeInt \<Rightarrow> NativeInt \<Rightarrow> NativeInt" where
  "ModAdd_mu a b modulus mu =
     (let av = (if a \<ge> modulus then ModEq_mu a modulus mu else a);
          bv = (if b \<ge> modulus then ModEq_mu b modulus mu else b);
          av = av + bv
      in if av \<ge> modulus then av - modulus else av)"

definition ModAddEq_mu :: "NativeInt \<Rightarrow> NativeInt \<Rightarrow> NativeInt \<Rightarrow> NativeInt \<Rightarrow> NativeInt" where
  "ModAddEq_mu m_value b modulus mu =
     (let bv = b;
          m_value = (if m_value \<ge> modulus then ModEq_mu m_value modulus mu else m_value);
          bv = (if bv \<ge> modulus then ModEq_mu bv modulus mu else bv);
          m_value = m_value + bv
      in if m_value \<ge> modulus then m_value - modulus else m_value)"

definition ModSub :: "NativeInt \<Rightarrow> NativeInt \<Rightarrow> NativeInt \<Rightarrow> NativeInt" where
  "ModSub a b modulus =
     (let av = (if a \<ge> modulus then a mod modulus else a);
          bv = (if b \<ge> modulus then b mod modulus else b)
      in if av \<ge> bv then av - bv else av + (modulus - bv))"

definition ModSubEq :: "NativeInt \<Rightarrow> NativeInt \<Rightarrow> NativeInt \<Rightarrow> NativeInt" where
  "ModSubEq m_value b modulus =
     (let bv = b;
          m_value = (if m_value \<ge> modulus then m_value mod modulus else m_value);
          bv = (if bv \<ge> modulus then bv mod modulus else bv)
      in if m_value \<ge> bv then m_value - bv else m_value + (modulus - bv))"

definition ModSubFast :: "NativeInt \<Rightarrow> NativeInt \<Rightarrow> NativeInt \<Rightarrow> NativeInt" where
  "ModSubFast a b modulus = (if a \<ge> b then a - b else a + (modulus - b))"

definition ModSubFastEq :: "NativeInt \<Rightarrow> NativeInt \<Rightarrow> NativeInt \<Rightarrow> NativeInt" where
  "ModSubFastEq m_value b modulus =
     (if m_value \<ge> b then m_value - b else m_value + (modulus - b))"

definition ModSub_mu :: "NativeInt \<Rightarrow> NativeInt \<Rightarrow> NativeInt \<Rightarrow> NativeInt \<Rightarrow> NativeInt" where
  "ModSub_mu a b modulus mu =
     (let av = (if a \<ge> modulus then ModEq_mu a modulus mu else a);
          bv = (if b \<ge> modulus then ModEq_mu b modulus mu else b)
      in if av \<ge> bv then av - bv else av + (modulus - bv))"

definition ModSubEq_mu :: "NativeInt \<Rightarrow> NativeInt \<Rightarrow> NativeInt \<Rightarrow> NativeInt \<Rightarrow> NativeInt" where
  "ModSubEq_mu m_value b modulus mu =
     (let bv = b;
          m_value = (if m_value \<ge> modulus then ModEq_mu m_value modulus mu else m_value);
          bv = (if bv \<ge> modulus then ModEq_mu bv modulus mu else bv)
      in if m_value \<ge> bv then m_value - bv else m_value + (modulus - bv))"

section \<open>Modular multiplication\<close>

definition ModMul :: "NativeInt \<Rightarrow> NativeInt \<Rightarrow> NativeInt \<Rightarrow> NativeInt" where
  "ModMul a b modulus =
     (let aval = (if a > modulus then a mod modulus else a);
          bval = (if b > modulus then b mod modulus else b);
          result = (ucast aval :: DNativeInt) * ucast bval; dmod = ucast modulus
      in ucast (if result \<ge> dmod then result mod dmod else result))"

definition ModMulEq :: "NativeInt \<Rightarrow> NativeInt \<Rightarrow> NativeInt \<Rightarrow> NativeInt" where
  "ModMulEq m_value b modulus =
     (let m_value = (if m_value > modulus then m_value mod modulus else m_value);
          bval = (if b > modulus then b mod modulus else b);
          result = (ucast m_value :: DNativeInt) * ucast bval; dmod = ucast modulus
      in ucast (if result \<ge> dmod then result mod dmod else result))"

text \<open>
  The Barrett overload reduces a copy \<open>bb\<close> of \<open>b\<close> and then multiplies by \<open>b\<close> itself, as the
  source does.
\<close>

definition ModMulEq_mu :: "NativeInt \<Rightarrow> NativeInt \<Rightarrow> NativeInt \<Rightarrow> NativeInt \<Rightarrow> NativeInt" where
  "ModMulEq_mu m_value b modulus mu =
     (let bb = b;
          m_value = (if m_value > modulus then ModEq_mu m_value modulus mu else m_value);
          bb = (if bb > modulus then ModEq_mu bb modulus mu else bb);
          prod1 = MultD m_value b
      in barrett_block prod1 (GetD prod1) modulus mu)"

definition ModMul_mu :: "NativeInt \<Rightarrow> NativeInt \<Rightarrow> NativeInt \<Rightarrow> NativeInt \<Rightarrow> NativeInt" where
  "ModMul_mu a b modulus mu = (let ans = a in ModMulEq_mu ans b modulus mu)"

definition ModMulFast :: "NativeInt \<Rightarrow> NativeInt \<Rightarrow> NativeInt \<Rightarrow> NativeInt" where
  "ModMulFast a b modulus =
     (let result = (ucast a :: DNativeInt) * ucast b; md = ucast modulus
      in ucast (if result \<ge> md then result mod md else result))"

definition ModMulFastEq :: "NativeInt \<Rightarrow> NativeInt \<Rightarrow> NativeInt \<Rightarrow> NativeInt" where
  "ModMulFastEq m_value b modulus = ModMulFast m_value b modulus"

definition ModMulFast_mu :: "NativeInt \<Rightarrow> NativeInt \<Rightarrow> NativeInt \<Rightarrow> NativeInt \<Rightarrow> NativeInt" where
  "ModMulFast_mu a b modulus mu =
     (let prod1 = MultD a b; q0 = prod1 in barrett_block q0 (GetD prod1) modulus mu)"

definition ModMulFastEq_mu :: "NativeInt \<Rightarrow> NativeInt \<Rightarrow> NativeInt \<Rightarrow> NativeInt \<Rightarrow> NativeInt" where
  "ModMulFastEq_mu m_value b modulus mu =
     (let prod1 = MultD m_value b; q0 = prod1 in barrett_block q0 (GetD prod1) modulus mu)"

definition PrepModMulConst :: "NativeInt \<Rightarrow> NativeInt \<Rightarrow> NativeInt" where
  "PrepModMulConst b modulus =
     (let w = push_bit 64 (ucast b :: DNativeInt) in ucast (w div ucast modulus))"

text \<open>
  \<open>SignedNativeInt(yprime) - SignedNativeInt(modulus) >= 0\<close> on values whose difference fits in a
  signed word.
\<close>

definition ModMulFastConst :: "NativeInt \<Rightarrow> NativeInt \<Rightarrow> NativeInt \<Rightarrow> NativeInt \<Rightarrow> NativeInt" where
  "ModMulFastConst a b modulus bInv =
     (let q = MultDHi a bInv;
          yprime = a * b - q * modulus
      in if sint yprime - sint modulus \<ge> 0 then yprime - modulus else yprime)"

definition ModMulFastConstEq :: "NativeInt \<Rightarrow> NativeInt \<Rightarrow> NativeInt \<Rightarrow> NativeInt \<Rightarrow> NativeInt" where
  "ModMulFastConstEq m_value b modulus bInv =
     (let q = MultDHi m_value bInv;
          yprime = m_value * b - q * modulus
      in if sint yprime - sint modulus \<ge> 0 then yprime - modulus else yprime)"

section \<open>Exponentiation and inversion\<close>

function ModExp_loop :: "DNativeInt \<Rightarrow> DNativeInt \<Rightarrow> DNativeInt \<Rightarrow> DNativeInt \<Rightarrow> DNativeInt" where
  "ModExp_loop ex product mid modulus =
     (let product = (if ex mod 2 = 1 then product * mid else product);
          product = (if product \<ge> modulus then product mod modulus else product);
          ex' = drop_bit 1 ex
      in if ex' = 0 then product
         else ModExp_loop ex' product (mid * mid mod modulus) modulus)"
  by pat_completeness auto
termination
  by (relation "measure (\<lambda>(ex, _). unat ex)")
    (auto simp: unat_div drop_bit_Suc word_ge_0_nat)

declare ModExp_loop.simps [simp del]

definition ModExp :: "NativeInt \<Rightarrow> NativeInt \<Rightarrow> NativeInt \<Rightarrow> NativeInt" where
  "ModExp a b md =
     (let ex = (ucast b :: DNativeInt); product = 1; modulus = ucast md; mid = ucast (a mod md)
      in ucast (ModExp_loop ex product mid modulus))"

definition ModExpEq :: "NativeInt \<Rightarrow> NativeInt \<Rightarrow> NativeInt \<Rightarrow> NativeInt" where
  "ModExpEq m_value b md = ModExp m_value b md"

text \<open>
  The loop of \<open>ModInverse\<close>. \<open>q\<close>, \<open>x\<close>, \<open>y\<close> and \<open>t\<close> are signed words of the same width, so the
  bits are those of the word operations. The division \<open>a / modulus\<close> traps when the modulus has
  reached 0.
\<close>

function ModInverse_loop :: "NativeInt \<Rightarrow> NativeInt \<Rightarrow> NativeInt \<Rightarrow> NativeInt \<Rightarrow> NativeInt result" where
  "ModInverse_loop a modulus x y =
     (if a > 1 then
        (if modulus = 0 then Inl div_by_zero
         else let q = a div modulus
              in ModInverse_loop modulus (a mod modulus) y (x - q * y))
      else Inr x)"
  by pat_completeness auto
termination
  by (relation "measure (\<lambda>(a, modulus, x, y). unat modulus)")
    (auto simp: unat_mod word_ge_0_nat)

declare ModInverse_loop.simps [simp del]

definition ModInverse :: "NativeInt \<Rightarrow> NativeInt \<Rightarrow> NativeInt result" where
  "ModInverse m_value md =
     (if md = 0 then Inl div_by_zero
      else let modulus = md; a = m_value mod modulus
           in if a = 0 then Inl math_error
              else if modulus = 1 then Inr 0
              else let m0 = modulus; y = 0; x = 1
                   in res_bind (ModInverse_loop a modulus x y)
                        (\<lambda>x. Inr (if sint x < 0 then x + m0 else x)))"

definition ModInverseEq :: "NativeInt \<Rightarrow> NativeInt \<Rightarrow> NativeInt result" where
  "ModInverseEq m_value md = ModInverse m_value md"

section \<open>Double words: correctness\<close>

lemma GetD_value: "unat (GetD x) = unat (hi x) * 2 ^ 64 + unat (lo x)"
proof -
  have "GetD x = push_bit 64 (ucast (hi x)) + ucast (lo x)"
    unfolding GetD_def
    by (rule disjunctive_add [symmetric])
      (auto simp: bit_push_bit_iff bit_unsigned_iff dest: bit_imp_le_length)
  moreover have "unat (push_bit 64 (ucast (hi x)) :: DNativeInt) = unat (hi x) * 2 ^ 64"
    using unat_lt_64 [of "hi x"]
    by (simp add: push_bit_eq_mult unat_word_ariths)
  ultimately show ?thesis
    using unat_lt_64 [of "hi x"] unat_lt_64 [of "lo x"]
    by (simp add: unat_word_ariths)
qed

lemma mult_64_lt: "unat (a :: NativeInt) * unat (b :: NativeInt) < 2 ^ 128"
proof -
  have "unat a * unat b < 2 ^ 64 * 2 ^ 64"
    using unat_lt_64 [of a] unat_lt_64 [of b] by (intro mult_strict_mono) auto
  then show ?thesis by simp
qed

lemma unat_ucast_mult: "unat (ucast (a :: NativeInt) * ucast (b :: NativeInt) :: DNativeInt) = unat a * unat b"
  using mult_64_lt [of a b] by (subst unat_mult_nowrap) simp_all

lemma GetD_MultD: "GetD (MultD a b) = ucast a * ucast b"
proof -
  let ?w = "ucast a * ucast b :: DNativeInt"
  have "unat (ucast (drop_bit 64 ?w) :: NativeInt) = unat ?w div 2 ^ 64"
    using unat_lt_128 [of ?w]
    by (subst unat_ucast_128_64_small) (simp_all only: unat_drop_bit, simp_all add: less_mult_imp_div_less)
  then have "unat (GetD (MultD a b)) = unat ?w"
    by (simp add: GetD_value MultD_def Let_def unat_ucast_128_64)
  then show ?thesis by (simp add: word_unat_eq_iff)
qed

lemma unat_GetD_MultD: "unat (GetD (MultD a b)) = unat a * unat b"
  by (simp add: GetD_MultD unat_ucast_mult)

lemma unat_MultDHi: "unat (MultDHi a b) = unat a * unat b div 2 ^ 64"
proof -
  have "unat a * unat b = unat (hi (MultD a b)) * 2 ^ 64 + unat (lo (MultD a b))"
    by (metis unat_GetD_MultD GetD_value)
  then show ?thesis
    using unat_lt_64 [of "lo (MultD a b)"] by (simp add: MultDHi_def Let_def)
qed

lemma RShiftD_drop_bit:
  assumes "0 \<le> s" "s \<le> 64"
  shows "RShiftD x s = ucast (drop_bit (nat s) (GetD x))"
proof (rule bit_word_eqI)
  fix i :: nat
  assume "i < LENGTH(64)"
  then have i: "i < 64" by simp
  define t where "t = nat s"
  have t: "s = int t" "t \<le> 64" "nat (64 - int t) = 64 - t" using assms by (auto simp: t_def)
  show "bit (RShiftD x s) i = bit (ucast (drop_bit (nat s) (GetD x)) :: NativeInt) i"
  proof (cases "t + i < 64")
    case True
    then show ?thesis using i t
      by (auto simp: RShiftD_def GetD_def bit_or_iff bit_drop_bit_eq bit_push_bit_iff bit_unsigned_iff)
  next
    case False
    then have "t + i - 64 = i - (64 - t)" "\<not> bit (lo x) (t + i)"
      using t by (auto dest: bit_imp_le_length)
    then show ?thesis using i t False
      by (auto simp: RShiftD_def GetD_def bit_or_iff bit_drop_bit_eq bit_push_bit_iff bit_unsigned_iff)
  qed
qed

lemma unat_RShiftD:
  assumes "0 \<le> s" "s \<le> 64" "unat (GetD x) < 2 ^ (64 + nat s)"
  shows "unat (RShiftD x s) = unat (GetD x) div 2 ^ nat s"
proof -
  have "unat (GetD x) div 2 ^ nat s < 2 ^ 64"
    using assms(3) by (simp add: power_add less_mult_imp_div_less)
  then show ?thesis
    using assms(1,2)
    by (simp add: RShiftD_drop_bit unat_ucast_128_64_small unat_drop_bit)
qed

section \<open>Barrett reduction: correctness\<close>

text \<open>
  The quotient estimate on natural numbers: below \<open>2 ^ (2 n + 2)\<close> it is the true quotient or one
  less.
\<close>

lemma barrett_estimate:
  fixes U q n :: nat
  assumes q: "2 ^ (n - 1) \<le> q" "q < 2 ^ n" and n: "2 \<le> n" and U: "U < 2 ^ (2 * n + 2)"
  defines "mu \<equiv> 2 ^ (2 * n + 3) div q"
  defines "qh \<equiv> (U div 2 ^ (n - 2)) * mu div 2 ^ (n + 5)"
  shows "qh * q \<le> U" and "U < qh * q + 2 * q"
proof -
  define A where "A = (2 :: nat) ^ (n - 2)"
  have pn: "(2 :: nat) ^ n = 4 * A" "(2 :: nat) ^ (n - 1) = 2 * A"
  proof -
    obtain c where "n = c + 2" using n by (metis le_add_diff_inverse2)
    then show "(2 :: nat) ^ n = 4 * A" "(2 :: nat) ^ (n - 1) = 2 * A" by (simp_all add: A_def)
  qed
  have pow: "(2 :: nat) ^ (n + 5) = 128 * A" "(2 :: nat) ^ (2 * n + 3) = 128 * A * A"
    "(2 :: nat) ^ (2 * n + 2) = 64 * A * A"
  proof -
    have "(2 :: nat) ^ (2 * n) = 2 ^ n * 2 ^ n" by (simp add: mult_2 power_add)
    then have p2: "(2 :: nat) ^ (2 * n) = 16 * A * A" by (simp add: pn)
    show "(2 :: nat) ^ (n + 5) = 128 * A" "(2 :: nat) ^ (2 * n + 3) = 128 * A * A"
      "(2 :: nat) ^ (2 * n + 2) = 64 * A * A"
      by (simp_all only: power_add p2 pn) simp_all
  qed
  define u1 where "u1 = U div A"
  have u1: "U = u1 * A + U mod A" "U mod A < A"
    by (simp_all add: u1_def) (simp add: A_def)
  have "0 < q" using q(1) by (rule less_le_trans [rotated]) simp
  then have r2: "128 * A * A = mu * q + (128 * A * A) mod q" "(128 * A * A) mod q < q"
    by (simp_all add: mu_def pow)
  have r3: "u1 * mu = qh * (128 * A) + (u1 * mu) mod (128 * A)" "(u1 * mu) mod (128 * A) < 128 * A"
  proof -
    have "qh = u1 * mu div (128 * A)" by (simp only: qh_def u1_def A_def pow(1))
    then show "u1 * mu = qh * (128 * A) + (u1 * mu) mod (128 * A)" by (simp only: div_mult_mod_eq)
    show "(u1 * mu) mod (128 * A) < 128 * A" by (rule mod_less_divisor) (simp add: A_def)
  qed
  have "qh * q * (128 * A) \<le> u1 * mu * q" using r3(1) by simp
  also have "\<dots> \<le> u1 * (128 * A * A)" using r2(1) by (metis le_add1 mult.assoc mult_le_mono2)
  finally have "qh * q \<le> u1 * A" by (simp add: A_def)
  then show "qh * q \<le> U" using u1(1) by linarith
  have "u1 * A < 64 * A * A" using U u1(1) unfolding pow(3) by linarith
  then have u1_lt: "u1 < 64 * A" by simp
  have "U * (128 * A) = u1 * (128 * A * A) + (U mod A) * (128 * A)"
    by (subst u1(1)) (simp add: algebra_simps)
  also have "u1 * (128 * A * A) = u1 * mu * q + u1 * ((128 * A * A) mod q)"
    by (subst r2(1)) (simp add: algebra_simps)
  also have "u1 * mu * q = qh * q * (128 * A) + (u1 * mu) mod (128 * A) * q"
    by (subst r3(1)) (simp add: algebra_simps)
  finally have eq: "U * (128 * A) = qh * q * (128 * A) + (u1 * mu) mod (128 * A) * q
      + u1 * ((128 * A * A) mod q) + (U mod A) * (128 * A)" .
  have a: "(u1 * mu) mod (128 * A) * q < 128 * A * q" using r3(2) \<open>0 < q\<close> by simp
  have b: "u1 * ((128 * A * A) mod q) \<le> 64 * A * q"
    using u1_lt r2(2) by (intro mult_le_mono) auto
  have c: "(U mod A) * (128 * A) \<le> 64 * A * q"
  proof -
    have "(U mod A) * (128 * A) \<le> A * (128 * A)" using u1(2) by simp
    also have "\<dots> = 64 * A * (2 * A)" by simp
    also have "\<dots> \<le> 64 * A * q" using q(1) pn(2) by (intro mult_le_mono) auto
    finally show ?thesis .
  qed
  have "(qh * q + 2 * q) * (128 * A) = qh * q * (128 * A) + 128 * A * q + 64 * A * q + 64 * A * q"
    by (simp add: algebra_simps)
  then have "U * (128 * A) < (qh * q + 2 * q) * (128 * A)"
    using eq a b c by linarith
  then show "U < qh * q + 2 * q" by simp
qed

lemma barrett_estimate_pow2:
  fixes U n :: nat
  assumes n: "2 \<le> n"
  shows "(U div 2 ^ (n - 2)) * (2 ^ (2 * n + 3) div 2 ^ (n - 1)) div 2 ^ (n + 5) = U div 2 ^ (n - 1)"
proof -
  have "(2 :: nat) ^ (2 * n + 3) = 2 ^ (n + 4) * 2 ^ (n - 1)"
    using n by (simp flip: power_add)
  then have mu: "(2 :: nat) ^ (2 * n + 3) div 2 ^ (n - 1) = 2 ^ (n + 4)" by simp
  have "(2 :: nat) ^ (n + 5) = 2 * 2 ^ (n + 4)" by (simp flip: power_Suc)
  then have "(U div 2 ^ (n - 2)) * 2 ^ (n + 4) div 2 ^ (n + 5) = U div 2 ^ (n - 2) div 2"
    by simp
  also have "\<dots> = U div 2 ^ Suc (n - 2)"
    by (simp add: div_mult2_eq [symmetric] mult.commute)
  also have "Suc (n - 2) = n - 1" using n by simp
  finally show ?thesis by (simp only: mu)
qed

text \<open>The moduli for which \<open>mu\<close> fits in a word and the shifts are defined.\<close>

definition barrett_modulus :: "NativeInt \<Rightarrow> bool" where
  "barrett_modulus q \<longleftrightarrow> 4 \<le> q \<and> GetMSB q \<le> 60 \<and> q \<noteq> 2 ^ 59"

lemma barrett_modulus_bounds:
  assumes "barrett_modulus q"
  shows "q \<noteq> 0" "3 \<le> GetMSB q" "GetMSB q \<le> 60" "2 ^ (GetMSB q - 1) \<le> unat q"
    "unat q < 2 ^ GetMSB q" "unat q < 2 ^ 60" "4 \<le> unat q"
proof -
  have q4: "4 \<le> unat q" using assms by (simp add: barrett_modulus_def word_le_nat_alt)
  then show nz: "q \<noteq> 0" by auto
  show "GetMSB q \<le> 60" using assms by (simp add: barrett_modulus_def)
  then have "(2 :: nat) ^ GetMSB q \<le> 2 ^ 60" by (intro power_increasing) auto
  then show "unat q < 2 ^ 60" using GetMSB_bounds(3) [OF nz] by linarith
  show "4 \<le> unat q" by (rule q4)
  show "2 ^ (GetMSB q - 1) \<le> unat q" "unat q < 2 ^ GetMSB q" using GetMSB_bounds [OF nz] by auto
  show "3 \<le> GetMSB q"
  proof (rule ccontr)
    assume "\<not> 3 \<le> GetMSB q"
    then have "(2 :: nat) ^ GetMSB q \<le> 2 ^ 2" by (intro power_increasing) auto
    then show False using GetMSB_bounds(3) [OF nz] q4 by simp
  qed
qed

lemma barrett_mu_lt:
  assumes "barrett_modulus q"
  shows "2 ^ (2 * GetMSB q + 3) div unat q < 2 ^ 64"
proof -
  note b = barrett_modulus_bounds [OF assms]
  let ?n = "GetMSB q"
  have "2 ^ (2 * ?n + 3) < 2 ^ 64 * unat q"
  proof (cases "?n = 60")
    case True
    have "unat q \<noteq> 2 ^ 59"
    proof
      assume "unat q = 2 ^ 59"
      then have "q = 2 ^ 59" by (simp add: word_unat_eq_iff)
      with assms show False by (simp add: barrett_modulus_def)
    qed
    with b(4) True have "2 ^ 59 < unat q" by simp
    then show ?thesis using True by simp
  next
    case False
    then have "2 * ?n + 3 < 64 + (?n - 1)" using b(2,3) by linarith
    then have "(2 :: nat) ^ (2 * ?n + 3) < 2 ^ (64 + (?n - 1))" by (intro power_strict_increasing) auto
    also have "\<dots> \<le> 2 ^ 64 * unat q" using b(4) by (simp add: power_add)
    finally show ?thesis .
  qed
  then show ?thesis using b(7) by (simp add: less_mult_imp_div_less mult.commute)
qed

lemma unat_push_bit_one_128: "k < 128 \<Longrightarrow> unat (push_bit k 1 :: DNativeInt) = 2 ^ k"
proof -
  assume "k < 128"
  then have "(2 :: nat) ^ k < 2 ^ 128" by (intro power_strict_increasing) auto
  moreover have "push_bit k 1 = (of_nat (2 ^ k) :: DNativeInt)" by (simp add: push_bit_eq_mult)
  ultimately show ?thesis by (simp only: unat_of_nat) simp
qed

lemma unat_ComputeMu:
  assumes "barrett_modulus q"
  shows "unat (ComputeMu q) = 2 ^ (2 * GetMSB q + 3) div unat q"
proof -
  note b = barrett_modulus_bounds [OF assms]
  have "unat (push_bit (2 * GetMSB q + 3) 1 :: DNativeInt) = 2 ^ (2 * GetMSB q + 3)"
    using b(3) unat_push_bit_one_128 by simp
  then show ?thesis
    using barrett_mu_lt [OF assms]
    by (simp add: ComputeMu_def Let_def unat_ucast_128_64_small unat_div)
qed

text \<open>
  The shared block, on any double word below \<open>2 ^ (2 n + 2)\<close>: it subtracts a multiple of the
  modulus and leaves a value of at most the modulus.
\<close>

lemma barrett_block_value:
  assumes "barrett_modulus q" and U: "unat (GetD x) < 2 ^ (2 * GetMSB q + 2)"
  defines "qh \<equiv> (unat (GetD x) div 2 ^ (GetMSB q - 2)) * (2 ^ (2 * GetMSB q + 3) div unat q)
      div 2 ^ (GetMSB q + 5)"
  shows "unat (barrett_block x (GetD x) q (ComputeMu q)) =
    (let d = unat (GetD x) - qh * unat q in if unat q < d then d - unat q else d)"
    and "qh * unat q \<le> unat (GetD x)" and "unat (GetD x) < qh * unat q + 2 * unat q"
proof -
  note b = barrett_modulus_bounds [OF assms(1)]
  let ?n = "GetMSB q" and ?U = "unat (GetD x)"
  show le: "qh * unat q \<le> ?U" and lt: "?U < qh * unat q + 2 * unat q"
    using barrett_estimate [OF b(4,5) _ U] b(2) by (simp_all add: qh_def)
  have "(2 :: nat) ^ (2 * ?n + 2) \<le> 2 ^ (64 + nat (int ?n + -2))"
    using b(2,3) by (intro power_increasing) auto
  then have ql: "unat (RShiftD x (int ?n + -2)) = ?U div 2 ^ (?n - 2)"
    using U b(2,3) by (subst unat_RShiftD) (auto simp: nat_diff_distrib')
  define qq where "qq = drop_bit (nat (int ?n + 3 - -2)) (GetD (MultD (RShiftD x (int ?n + -2)) (ComputeMu q)))"
  have sh: "nat (int ?n + 3 - -2) = ?n + 5" by simp
  have qq: "unat qq = qh"
    unfolding qq_def unat_drop_bit unat_GetD_MultD ql unat_ComputeMu [OF assms(1)] qh_def sh ..
  have qqm: "unat (qq * ucast q :: DNativeInt) = qh * unat q"
    using le unat_lt_128 [of "GetD x"] by (subst unat_mult_nowrap) (auto simp: qq)
  have d: "unat (GetD x - qq * ucast q) = ?U - qh * unat q"
    using le by (subst unat_sub_nowrap) (simp_all add: word_le_nat_alt qqm)
  have "?U - qh * unat q < 2 ^ 64" using lt b(6) by simp
  then have ans: "unat (ucast (GetD x - qq * ucast q) :: NativeInt) = ?U - qh * unat q"
    by (subst unat_ucast_128_64_small) (simp_all add: d)
  show "unat (barrett_block x (GetD x) q (ComputeMu q)) =
    (let d = ?U - qh * unat q in if unat q < d then d - unat q else d)"
    unfolding barrett_block_def Let_def qq_def [symmetric]
    by (auto simp: word_less_nat_alt ans unat_sub_nowrap word_le_nat_alt)
qed

lemma barrett_block_mod:
  assumes "barrett_modulus q" and "unat (GetD x) < 2 ^ (2 * GetMSB q + 2)"
  shows "unat (barrett_block x (GetD x) q (ComputeMu q)) \<le> unat q"
    and "unat (barrett_block x (GetD x) q (ComputeMu q)) mod unat q = unat (GetD x) mod unat q"
    and "unat (GetD x) mod unat q \<noteq> 0 \<or> GetD x = 0 \<Longrightarrow>
      unat (barrett_block x (GetD x) q (ComputeMu q)) = unat (GetD x) mod unat q"
proof -
  note v = barrett_block_value [OF assms]
  let ?r = "unat (barrett_block x (GetD x) q (ComputeMu q))"
  obtain k where k: "k * unat q \<le> unat (GetD x)" "unat (GetD x) < k * unat q + 2 * unat q"
    and r: "?r = (let d = unat (GetD x) - k * unat q in if unat q < d then d - unat q else d)"
    using v by blast
  define d where "d = unat (GetD x) - k * unat q"
  have d: "d < 2 * unat q" "d mod unat q = unat (GetD x) mod unat q"
    using k nat_mod_eq_sub_mult [OF k(1)] by (auto simp: d_def)
  have rd: "?r = (if unat q < d then d - unat q else d)" using r by (simp add: d_def Let_def)
  then show le: "?r \<le> unat q" using d by auto
  show eq: "?r mod unat q = unat (GetD x) mod unat q"
    using rd d(2) by (auto simp: le_mod_geq)
  assume "unat (GetD x) mod unat q \<noteq> 0 \<or> GetD x = 0"
  then show "?r = unat (GetD x) mod unat q"
  proof
    assume "unat (GetD x) mod unat q \<noteq> 0"
    then have "?r \<noteq> unat q" using eq by auto
    then show ?thesis using le eq by (simp add: mod_of_unique)
  next
    assume "GetD x = 0"
    then show ?thesis using v(1) by (simp add: Let_def)
  qed
qed

text \<open>For a power of two the estimate is exact, so the result is reduced in every case.\<close>

lemma barrett_block_pow2:
  assumes "barrett_modulus q" and "unat (GetD x) < 2 ^ (2 * GetMSB q + 2)"
    and "unat q = 2 ^ (GetMSB q - 1)"
  shows "unat (barrett_block x (GetD x) q (ComputeMu q)) = unat (GetD x) mod unat q"
proof -
  have "unat (GetD x) div 2 ^ (GetMSB q - 2) * (2 ^ (2 * GetMSB q + 3) div unat q) div 2 ^ (GetMSB q + 5)
      = unat (GetD x) div unat q"
    using barrett_estimate_pow2 [of "GetMSB q"] barrett_modulus_bounds(2) [OF assms(1)]
    by (simp add: assms(3))
  then have "unat (barrett_block x (GetD x) q (ComputeMu q)) =
      (let d = unat (GetD x) mod unat q in if unat q < d then d - unat q else d)"
    using barrett_block_value(1) [OF assms(1,2)] by (simp add: minus_div_mult_eq_mod)
  moreover have "unat (GetD x) mod unat q < unat q" by (simp add: assms(3))
  ultimately show ?thesis by (simp add: Let_def)
qed

section \<open>Values of the modular operations\<close>

lemma ModAddFast_value [mod_values]:
  assumes "q \<le> 2 ^ 63" "a < q" "b < q"
  shows "uint (ModAddFast a b q) = (uint a + uint b) mod uint q"
proof -
  have q: "unat q \<le> 2 ^ 63" "unat a < unat q" "unat b < unat q"
    using assms by (simp_all add: word_le_nat_alt word_less_nat_alt)
  then have s: "unat (a + b) = unat a + unat b" by (subst unat_add_nowrap) auto
  have "unat (ModAddFast a b q) = (unat a + unat b) mod unat q"
    using q by (auto simp: ModAddFast_def Let_def word_le_nat_alt s unat_sub_nowrap mod_sub_once)
  then show ?thesis using uint_eq_modI [of "ModAddFast a b q" "unat a + unat b" q] by simp
qed

lemma ModSubFast_value [mod_values]:
  assumes "q \<le> 2 ^ 63" "a < q" "b < q"
  shows "uint (ModSubFast a b q) = (uint a - uint b) mod uint q"
proof (cases "b \<le> a")
  case True
  then have "uint (a - b) = uint a - uint b" by (simp add: uint_minus_simple_alt word_le_def)
  moreover have "0 \<le> uint a - uint b" "uint a - uint b < uint q"
    using True assms(2) uint_ge_0 [of b] unfolding word_le_def word_less_def by linarith+
  ultimately show ?thesis using True by (simp add: ModSubFast_def)
next
  case False
  have qb: "unat q \<le> 2 ^ 63" "unat a < unat q" "unat b < unat q" "unat a < unat b"
    using assms False by (simp_all add: word_le_nat_alt word_less_nat_alt)
  then have "unat (q - b) = unat q - unat b" by (simp add: unat_sub_nowrap word_le_nat_alt)
  then have "unat (a + (q - b)) = unat a + (unat q - unat b)"
    using qb by (subst unat_add_nowrap) auto
  then have "uint (a + (q - b)) = uint a - uint b + uint q"
    using qb by (simp only: uint_nat)
  moreover have "(uint a - uint b + uint q) mod uint q = uint a - uint b + uint q"
    using qb by (intro mod_pos_pos_trivial) (simp_all only: uint_nat)
  ultimately have "uint (a + (q - b)) = (uint a - uint b) mod uint q" by (simp only: mod_add_self2)
  then show ?thesis using False by (simp only: ModSubFast_def if_False)
qed

lemma reduce_value:
  assumes "q \<noteq> 0"
  shows "(if q \<le> a then a mod q else a) < (q :: NativeInt)"
    and "uint (if q \<le> a then a mod q else a) = uint a mod uint q"
  using assms by (auto simp: not_le uint_mod word_less_def uint_pos)

lemma ModAdd_value:
  assumes "q \<noteq> 0" "q \<le> 2 ^ 63"
  shows "uint (ModAdd a b q) = (uint a + uint b) mod uint q"
proof -
  let ?r = "\<lambda>x. if q \<le> x then x mod q else x"
  have "ModAdd a b q = ModAddFast (?r a) (?r b) q" by (simp add: ModAdd_def ModAddFast_def Let_def)
  then show ?thesis
    using ModAddFast_value [OF assms(2) reduce_value(1) reduce_value(1), OF assms(1,1), of a b]
    by (simp only: reduce_value(2) [OF assms(1)] mod_add_eq)
qed

lemma ModSub_value:
  assumes "q \<noteq> 0" "q \<le> 2 ^ 63"
  shows "uint (ModSub a b q) = (uint a - uint b) mod uint q"
proof -
  let ?r = "\<lambda>x. if q \<le> x then x mod q else x"
  have "ModSub a b q = ModSubFast (?r a) (?r b) q" by (simp add: ModSub_def ModSubFast_def Let_def)
  then show ?thesis
    using ModSubFast_value [OF assms(2) reduce_value(1) reduce_value(1), OF assms(1,1), of a b]
    by (simp only: reduce_value(2) [OF assms(1)] mod_diff_eq)
qed

lemma ModMulFast_value [mod_values]:
  assumes "q \<noteq> 0"
  shows "uint (ModMulFast a b q) = (uint a * uint b) mod uint q"
proof -
  have q: "0 < unat q" using assms by (simp add: word_ge_0_nat)
  let ?p = "ucast a * ucast b :: DNativeInt"
  have r: "unat (if ucast q \<le> ?p then ?p mod ucast q else ?p) = (unat a * unat b) mod unat q"
    by (auto simp: word_le_nat_alt unat_mod unat_ucast_mult)
  have "unat a * unat b mod unat q < 2 ^ 64"
    using mod_less_divisor [OF q, of "unat a * unat b"] unat_lt_64 [of q] by simp
  then have "unat (ModMulFast a b q) = (unat a * unat b) mod unat q"
    unfolding ModMulFast_def Let_def by (subst unat_ucast_128_64_small) (simp_all only: r)
  then show ?thesis using uint_eq_modI [of "ModMulFast a b q" "unat a * unat b" q] by simp
qed

lemma ModMul_value:
  assumes "q \<noteq> 0"
  shows "uint (ModMul a b q) = (uint a * uint b) mod uint q"
proof -
  let ?r = "\<lambda>x. if x > q then x mod q else x"
  have r: "uint (?r x) mod uint q = uint x mod uint q" for x by (auto simp: uint_mod)
  have "uint (ModMul a b q) = uint (ModMulFast (?r a) (?r b) q)"
    by (simp add: ModMul_def ModMulFast_def Let_def)
  also have "\<dots> = (uint (?r a) mod uint q) * (uint (?r b) mod uint q) mod uint q"
    by (simp only: ModMulFast_value [OF assms] mod_mult_eq)
  also have "\<dots> = (uint a * uint b) mod uint q" by (simp only: r mod_mult_eq)
  finally show ?thesis .
qed

section \<open>The contract of a modular ring\<close>

text \<open>
  What the vector, transform and encryption layers rely on: addition, subtraction and
  multiplication of reduced operands return the reduced residue. \<open>ok\<close> is the set of
  moduli the provider supports.
\<close>

locale modular_ring =
  fixes ok :: "NativeInt \<Rightarrow> bool"
    and add sub mul :: "NativeInt \<Rightarrow> NativeInt \<Rightarrow> NativeInt \<Rightarrow> NativeInt"
  assumes ok_nonzero: "ok q \<Longrightarrow> q \<noteq> 0"
    and add_value: "ok q \<Longrightarrow> a < q \<Longrightarrow> b < q \<Longrightarrow> uint (add a b q) = (uint a + uint b) mod uint q"
    and sub_value: "ok q \<Longrightarrow> a < q \<Longrightarrow> b < q \<Longrightarrow> uint (sub a b q) = (uint a - uint b) mod uint q"
    and mul_value: "ok q \<Longrightarrow> a < q \<Longrightarrow> b < q \<Longrightarrow> uint (mul a b q) = (uint a * uint b) mod uint q"
begin

lemmas ring_values = add_value sub_value mul_value

lemma mod_lt_modulus: "ok q \<Longrightarrow> z mod uint q < uint q"
  by (simp add: ok_nonzero uint_pos)

lemma closed:
  assumes "ok q" "a < q" "b < q"
  shows "add a b q < q" and "sub a b q < q" and "mul a b q < q"
  using assms mod_lt_modulus by (simp_all add: word_less_def ring_values)

lemma uint_reduced: "a < q \<Longrightarrow> uint a mod uint q = uint a"
  by (simp add: word_less_def)

lemma add_commute: "ok q \<Longrightarrow> a < q \<Longrightarrow> b < q \<Longrightarrow> add a b q = add b a q"
  by (simp add: word_uint_eq_iff ring_values add.commute)

lemma mul_commute: "ok q \<Longrightarrow> a < q \<Longrightarrow> b < q \<Longrightarrow> mul a b q = mul b a q"
  by (simp add: word_uint_eq_iff ring_values mult.commute)

lemma add_sub_cancel:
  assumes "ok q" "a < q" "b < q"
  shows "sub (add a b q) b q = a" and "add (sub a b q) b q = a"
  using assms closed [OF assms]
  by (simp_all add: word_uint_eq_iff ring_values mod_simps uint_reduced)

lemma mul_add_distrib:
  assumes "ok q" "a < q" "b < q" "c < q"
  shows "mul a (add b c q) q = add (mul a b q) (mul a c q) q"
  using assms closed
  by (simp add: word_uint_eq_iff ring_values mod_simps distrib_left)

text \<open>A running sum of products, as the inner products of the code accumulate it.\<close>

lemma inner_product_value:
  assumes "ok q" "acc < q" "list_all (\<lambda>(x, y). x < q \<and> y < q) xys"
  shows "uint (fold (\<lambda>(x, y) acc. add acc (mul x y q) q) xys acc)
      = (uint acc + (\<Sum>(x, y)\<leftarrow>xys. uint x * uint y)) mod uint q"
    and "fold (\<lambda>(x, y) acc. add acc (mul x y q) q) xys acc < q"
  using assms(2,3)
proof (induction xys arbitrary: acc)
  case Nil
  case 1
  then show ?case by (simp add: uint_reduced)
next
  case Nil
  case 2
  then show ?case by simp
next
  case (Cons p xys)
  case 1
  obtain x y where p: "p = (x, y)" by (cases p)
  with 1 have "x < q" "y < q" "list_all (\<lambda>(x, y). x < q \<and> y < q) xys" by auto
  with Cons(1) [of "add acc (mul x y q) q"] show ?case
    using 1(1) assms(1) closed by (simp add: p ring_values mod_simps add.assoc)
next
  case (Cons p xys)
  case 2
  then show ?case using assms(1) closed Cons(2) by (cases p) auto
qed

end

interpretation fast_ring: modular_ring "\<lambda>q. q \<noteq> 0 \<and> q \<le> 2 ^ 63" ModAddFast ModSubFast ModMulFast
  by unfold_locales (auto simp: mod_values)

interpretation full_ring: modular_ring "\<lambda>q. q \<noteq> 0 \<and> q \<le> 2 ^ 63" ModAdd ModSub ModMul
  by unfold_locales (auto simp: ModAdd_value ModSub_value ModMul_value)

section \<open>Barrett multiplication\<close>

lemma square_lt_barrett:
  assumes "barrett_modulus q" "unat a \<le> unat q" "unat b \<le> unat q"
  shows "unat a * unat b < 2 ^ (2 * GetMSB q + 2)"
proof -
  note b = barrett_modulus_bounds [OF assms(1)]
  have "unat a * unat b \<le> unat q * unat q" using assms(2,3) by (intro mult_le_mono)
  also have "\<dots> < 2 ^ GetMSB q * 2 ^ GetMSB q" using b(5,7) by (intro mult_strict_mono) auto
  also have "\<dots> \<le> 2 ^ (2 * GetMSB q + 2)" by (simp add: power_add [symmetric] mult_2)
  finally show ?thesis .
qed

lemma ModMulFast_mu_block:
  "ModMulFast_mu a b q mu = barrett_block (MultD a b) (GetD (MultD a b)) q mu"
  by (simp add: ModMulFast_mu_def Let_def)

lemma ModMulFast_mu_range:
  assumes "barrett_modulus q" "a \<le> q" "b \<le> q"
  shows "ModMulFast_mu a b q (ComputeMu q) \<le> q"
    and "uint (ModMulFast_mu a b q (ComputeMu q)) mod uint q = (uint a * uint b) mod uint q"
proof -
  have U: "unat (GetD (MultD a b)) < 2 ^ (2 * GetMSB q + 2)"
    unfolding unat_GetD_MultD using assms by (intro square_lt_barrett) (simp_all add: word_le_nat_alt)
  note bb = barrett_block_mod [OF assms(1) U]
  show "ModMulFast_mu a b q (ComputeMu q) \<le> q"
    using bb(1) by (simp add: ModMulFast_mu_block word_le_nat_alt)
  have "unat (ModMulFast_mu a b q (ComputeMu q)) mod unat q = unat a * unat b mod unat q"
    using bb(2) by (simp only: ModMulFast_mu_block unat_GetD_MultD)
  then show "uint (ModMulFast_mu a b q (ComputeMu q)) mod uint q = (uint a * uint b) mod uint q"
    by (simp only: uint_nat of_nat_mult [symmetric] zmod_int [symmetric])
qed

text \<open>
  The moduli for which the result is always reduced: a prime (a product of reduced operands is
  a multiple of it only when it is 0) or a power of two (the estimate is exact).
\<close>

definition barrett_exact :: "NativeInt \<Rightarrow> bool" where
  "barrett_exact q \<longleftrightarrow> barrett_modulus q \<and> (prime_nat (unat q) \<or> unat q = 2 ^ (GetMSB q - 1))"

lemma barrett_exact_bounds: "barrett_exact q \<Longrightarrow> q \<noteq> 0 \<and> q \<le> 2 ^ 63"
  using barrett_modulus_bounds(1,6) [of q] by (simp add: barrett_exact_def word_le_nat_alt)

lemma ModMulFast_mu_value:
  assumes "barrett_exact q" "a < q" "b < q"
  shows "uint (ModMulFast_mu a b q (ComputeMu q)) = (uint a * uint b) mod uint q"
proof -
  have m: "barrett_modulus q" using assms(1) by (simp add: barrett_exact_def)
  have lt: "unat a < unat q" "unat b < unat q" using assms by (simp_all add: word_less_nat_alt)
  have U: "unat (GetD (MultD a b)) < 2 ^ (2 * GetMSB q + 2)"
    unfolding unat_GetD_MultD using lt by (intro square_lt_barrett [OF m]) simp_all
  have "unat (ModMulFast_mu a b q (ComputeMu q)) = unat a * unat b mod unat q"
  proof (cases "unat q = 2 ^ (GetMSB q - 1)")
    case True
    then show ?thesis
      using barrett_block_pow2 [OF m U] by (simp only: ModMulFast_mu_block unat_GetD_MultD)
  next
    case False
    then have p: "prime_nat (unat q)" using assms(1) by (simp add: barrett_exact_def)
    have "unat a * unat b mod unat q \<noteq> 0 \<or> unat a * unat b = 0"
      using lt prime_nat_dvd_mult [OF p, of "unat a" "unat b"]
      by (auto simp: dvd_eq_mod_eq_0 [symmetric] dest: dvd_imp_le)
    then have "unat (GetD (MultD a b)) mod unat q \<noteq> 0 \<or> GetD (MultD a b) = 0"
      by (simp add: word_unat_eq_iff unat_GetD_MultD)
    then show ?thesis
      using barrett_block_mod(3) [OF m U] by (simp only: ModMulFast_mu_block unat_GetD_MultD)
  qed
  then show ?thesis by (simp only: uint_nat of_nat_mult [symmetric] zmod_int [symmetric])
qed

lemma ModAdd_mu_reduced: "a < q \<Longrightarrow> b < q \<Longrightarrow> ModAdd_mu a b q mu = ModAddFast a b q"
  by (simp add: ModAdd_mu_def ModAddFast_def Let_def not_le [symmetric])

lemma ModSub_mu_reduced: "a < q \<Longrightarrow> b < q \<Longrightarrow> ModSub_mu a b q mu = ModSubFast a b q"
  by (simp add: ModSub_mu_def ModSubFast_def Let_def not_le [symmetric])

lemma ModMul_mu_reduced: "a \<le> q \<Longrightarrow> ModMul_mu a b q mu = ModMulFast_mu a b q mu"
  by (auto simp: ModMul_mu_def ModMulEq_mu_def ModMulFast_mu_def Let_def)

interpretation barrett_ring: modular_ring barrett_exact
  "\<lambda>a b q. ModAdd_mu a b q (ComputeMu q)" "\<lambda>a b q. ModSub_mu a b q (ComputeMu q)"
  "\<lambda>a b q. ModMulFast_mu a b q (ComputeMu q)"
  by unfold_locales
    (use barrett_exact_bounds in \<open>auto simp: ModAdd_mu_reduced ModSub_mu_reduced ModMulFast_mu_value mod_values\<close>)

section \<open>Shoup multiplication by a constant\<close>

lemma shoup_estimate:
  fixes a b q W :: nat
  assumes "0 < q" "a < W"
  defines "t \<equiv> a * (b * W div q) div W"
  shows "t * q \<le> a * b" and "a * b < t * q + 2 * q"
proof -
  define c where "c = b * W div q"
  have bW: "b * W = c * q + (b * W) mod q" by (simp only: c_def div_mult_mod_eq)
  have ac: "a * c = t * W + (a * c) mod W" by (simp only: t_def c_def div_mult_mod_eq)
  have "a * b * W = a * (b * W)" by (simp only: mult.assoc)
  also have "\<dots> = a * c * q + a * ((b * W) mod q)" by (subst bW) (simp add: algebra_simps)
  also have "a * c * q = t * q * W + (a * c) mod W * q" by (subst ac) (simp add: algebra_simps)
  finally have eq: "a * b * W = t * q * W + (a * c) mod W * q + a * ((b * W) mod q)" .
  have W: "0 < W" using assms(2) by linarith
  have "t * q * W \<le> a * b * W" using eq by linarith
  then show "t * q \<le> a * b" using W by simp
  have "(a * c) mod W * q < W * q" using W assms(1) by simp
  moreover have "a * ((b * W) mod q) \<le> W * q" using assms by (intro mult_le_mono) (simp_all add: less_imp_le)
  moreover have "(t * q + 2 * q) * W = t * q * W + W * q + W * q" by (simp add: algebra_simps)
  ultimately have "a * b * W < (t * q + 2 * q) * W" using eq by linarith
  then show "a * b < t * q + 2 * q" by simp
qed

lemma sint_eq_unat: "unat (x :: NativeInt) < 2 ^ 63 \<Longrightarrow> sint x = int (unat x)"
proof -
  assume "unat x < 2 ^ 63"
  then have "uint x < int (2 ^ 63)" by (simp only: uint_nat of_nat_less_iff)
  then have "signed_take_bit 63 (uint x) = uint x"
    by (simp add: signed_take_bit_int_eq_self_iff order_trans [OF _ uint_ge_0])
  then show ?thesis by (simp add: sint_uint)
qed

lemma unat_PrepModMulConst:
  assumes "b < q"
  shows "unat (PrepModMulConst b q) = unat b * 2 ^ 64 div unat q"
proof -
  have lt: "unat b < unat q" using assms by (simp add: word_less_nat_alt)
  have p: "unat (push_bit 64 (ucast b) :: DNativeInt) = unat b * 2 ^ 64"
    using unat_lt_64 [of b] by (simp add: push_bit_eq_mult unat_word_ariths)
  have "unat b * 2 ^ 64 div unat q < 2 ^ 64"
    using lt by (simp add: less_mult_imp_div_less)
  then show ?thesis
    unfolding PrepModMulConst_def Let_def
    by (subst unat_ucast_128_64_small) (simp_all only: unat_div p unat_ucast_64_128)
qed

lemma ModMulFastConst_value [mod_values]:
  assumes "b < q" "q \<le> 2 ^ 62"
  shows "uint (ModMulFastConst a b q (PrepModMulConst b q)) = (uint a * uint b) mod uint q"
proof -
  have q: "unat b < unat q" "unat q \<le> 2 ^ 62" using assms by (simp_all add: word_less_nat_alt word_le_nat_alt)
  define t where "t = MultDHi a (PrepModMulConst b q)"
  have t: "unat t = unat a * (unat b * 2 ^ 64 div unat q) div 2 ^ 64"
    by (simp only: t_def unat_MultDHi unat_PrepModMulConst [OF assms(1)])
  have est: "unat t * unat q \<le> unat a * unat b" "unat a * unat b < unat t * unat q + 2 * unat q"
    using shoup_estimate [of "unat q" "unat a" "2 ^ 64" "unat b"] q(1) unat_lt_64 [of a] by (simp_all add: t)
  define d where "d = unat a * unat b - unat t * unat q"
  have d: "d < 2 * unat q" "d mod unat q = unat a * unat b mod unat q"
    using est nat_mod_eq_sub_mult [OF est(1)] by (auto simp: d_def)
  have "a * b - t * q = of_nat d"
    using est(1) by (simp add: d_def of_nat_diff)
  moreover have "d < 2 ^ 63" using d(1) q(2) by simp
  ultimately have y: "unat (a * b - t * q) = d" by (simp add: unat_of_nat)
  then have sy: "sint (a * b - t * q) = int d" using \<open>d < 2 ^ 63\<close> by (simp add: sint_eq_unat)
  have sq: "sint q = int (unat q)" using q(2) by (intro sint_eq_unat) simp
  have "unat (ModMulFastConst a b q (PrepModMulConst b q)) = unat a * unat b mod unat q"
    unfolding ModMulFastConst_def Let_def t_def [symmetric] sy sq
  proof (cases "unat q \<le> d")
    case True
    then have "0 \<le> int d - int (unat q)" "q \<le> a * b - t * q"
      unfolding word_le_nat_alt y by linarith+
    then show "unat (if 0 \<le> int d - int (unat q) then a * b - t * q - q else a * b - t * q)
        = unat a * unat b mod unat q"
      using mod_sub_once [OF d(1)] d(2) True by (simp only: if_True unat_sub_nowrap y)
  next
    case False
    then have "\<not> 0 \<le> int d - int (unat q)" by linarith
    then show "unat (if 0 \<le> int d - int (unat q) then a * b - t * q - q else a * b - t * q)
        = unat a * unat b mod unat q"
      using mod_sub_once [OF d(1)] d(2) False by (simp only: if_False y)
  qed
  then show ?thesis by (simp only: uint_nat of_nat_mult [symmetric] zmod_int [symmetric])
qed

section \<open>Exponentiation\<close>

lemma unat_mult_128:
  "unat (x :: DNativeInt) < 2 ^ 64 \<Longrightarrow> unat y < 2 ^ 64 \<Longrightarrow> unat (x * y) = unat x * unat y"
proof -
  assume "unat x < 2 ^ 64" "unat y < 2 ^ 64"
  then have "unat x * unat y < 2 ^ 64 * 2 ^ 64" by (intro mult_strict_mono) auto
  then show ?thesis by (subst unat_mult_nowrap) simp_all
qed

lemma power_div_2: "(x :: nat) ^ e = (if odd e then x else 1) * (x * x) ^ (e div 2)"
proof -
  have "x ^ e = x ^ (e mod 2 + 2 * (e div 2))" by simp
  also have "\<dots> = x ^ (e mod 2) * (x * x) ^ (e div 2)"
    by (simp only: power_add power_mult power2_eq_square)
  finally show ?thesis by (auto simp: mod_2_eq_odd)
qed

lemma mod_mult_power_mod: "(a mod m) * (x mod m) ^ k mod m = (a * x ^ k) mod (m :: nat)"
  using mod_mult_right_eq [of "a mod m" "(x mod m) ^ k" m] mod_mult_eq [of a m "x ^ k"]
  by (simp only: power_mod)

lemma ModExp_loop_value:
  assumes "0 < unat modulus" "unat modulus < 2 ^ 64" "unat mid < unat modulus" "unat product < 2 ^ 64"
  shows "unat (ModExp_loop ex product mid modulus) = unat product * unat mid ^ unat ex mod unat modulus"
  using assms
proof (induction ex product mid modulus rule: ModExp_loop.induct)
  case (1 ex product mid modulus)
  let ?m = "unat modulus" and ?x = "unat mid" and ?e = "unat ex"
  define p1 where "p1 = (if ex mod 2 = 1 then product * mid else product)"
  define p2 where "p2 = (if p1 \<ge> modulus then p1 mod modulus else p1)"
  have odd_iff: "ex mod 2 = 1 \<longleftrightarrow> odd ?e"
    by (simp add: word_unat_eq_iff unat_mod odd_iff_mod_2_eq_one)
  have x64: "?x < 2 ^ 64" using 1(3,4) by linarith
  have p1: "unat p1 = unat product * (if odd ?e then ?x else 1)"
    using unat_mult_128 [OF 1(5) x64] by (simp add: p1_def odd_iff)
  have p2: "unat p2 = unat p1 mod ?m" by (auto simp: p2_def word_le_nat_alt unat_mod)
  then have p2_lt: "unat p2 < ?m" using 1(2) by simp
  have half: "unat (drop_bit 1 ex) = ?e div 2" by (simp only: unat_drop_bit power_one_right)
  have split: "unat product * ?x ^ ?e = unat p1 * (?x * ?x) ^ (?e div 2)"
    unfolding p1 by (subst power_div_2 [of ?x]) (simp only: mult.assoc)
  have unf: "ModExp_loop ex product mid modulus =
      (if drop_bit 1 ex = 0 then p2 else ModExp_loop (drop_bit 1 ex) p2 (mid * mid mod modulus) modulus)"
    by (subst ModExp_loop.simps) (simp only: Let_def p1_def p2_def)
  show ?case
  proof (cases "drop_bit 1 ex = 0")
    case True
    then have "?e div 2 = 0" using half by simp
    then show ?thesis using True split p2 by (simp only: unf if_True) simp
  next
    case False
    have mm: "unat (mid * mid mod modulus) = ?x * ?x mod ?m"
      by (simp only: unat_mod unat_mult_128 [OF x64 x64])
    have "unat (ModExp_loop (drop_bit 1 ex) p2 (mid * mid mod modulus) modulus)
        = unat p2 * (?x * ?x mod ?m) ^ (?e div 2) mod ?m"
    proof -
      have "unat (mid * mid mod modulus) < ?m" "unat p2 < 2 ^ 64"
        using p2_lt 1(2,3) by (simp_all only: mm mod_less_divisor)
      from 1(1) [OF p1_def p2_def refl False 1(2,3) this] show ?thesis by (simp only: mm half)
    qed
    also have "\<dots> = unat p1 * (?x * ?x) ^ (?e div 2) mod ?m"
      unfolding p2 by (rule mod_mult_power_mod)
    finally show ?thesis using False split by (simp only: unf if_False)
  qed
qed

lemma ModExp_value:
  assumes "q \<noteq> 0"
  shows "unat (ModExp a b q) = unat a ^ unat b mod unat q"
proof -
  have q: "0 < unat q" "unat q < 2 ^ 64" using assms unat_lt_64 [of q] by (simp_all add: word_ge_0_nat)
  have "unat (ModExp_loop (ucast b) 1 (ucast (a mod q)) (ucast q))
      = 1 * (unat a mod unat q) ^ unat b mod unat q"
    using q by (subst ModExp_loop_value) (simp_all add: unat_mod)
  moreover have "\<dots> < 2 ^ 64" using q by (simp add: less_trans [OF mod_less_divisor])
  ultimately show ?thesis
    unfolding ModExp_def Let_def by (subst unat_ucast_128_64_small) (simp_all add: power_mod)
qed

section \<open>Inversion\<close>

lemma ModInverse_loop_step:
  "1 < a \<Longrightarrow> m \<noteq> 0 \<Longrightarrow>
   ModInverse_loop a m x y = ModInverse_loop m (a mod m) y (x - a div m * y)"
  by (subst ModInverse_loop.simps) (simp add: Let_def)

lemma coprime_mod_step: "coprime (a :: nat) m \<longleftrightarrow> coprime m (a mod m)"
  by (simp only: coprime_iff_gcd_eq_1 gcd_red_nat [of a m])

lemma ModInverse_loop_not_coprime:
  "a \<noteq> 0 \<Longrightarrow> \<not> coprime (unat a) (unat m) \<Longrightarrow> ModInverse_loop a m x y = Inl div_by_zero"
proof (induction a m x y rule: ModInverse_loop.induct)
  case (1 a m x y)
  have "unat a \<noteq> 1" using 1(3) by auto
  moreover have "unat a \<noteq> 0" using 1(2) by (simp add: unat_eq_0)
  ultimately have a: "1 < a" by (simp add: word_less_nat_alt)
  show ?case
  proof (cases "m = 0")
    case True
    then show ?thesis using a by (subst ModInverse_loop.simps) simp
  next
    case False
    have "\<not> coprime (unat m) (unat (a mod m))"
      using 1(3) by (simp only: unat_mod coprime_mod_step [symmetric] not_False_eq_True)
    from 1(1) [OF a False refl False this] show ?thesis
      by (simp only: ModInverse_loop_step [OF a False])
  qed
qed

text \<open>
  The invariant of the extended Euclidean loop, on integers: \<open>x\<close> and \<open>y\<close> are the cofactors of
  the two remainders, of opposite sign, and bounded by the modulus.
\<close>

definition euclid_inv :: "int \<Rightarrow> int \<Rightarrow> int \<Rightarrow> int \<Rightarrow> int \<Rightarrow> int \<Rightarrow> bool" where
  "euclid_inv A M a m x y \<longleftrightarrow>
     M dvd x * A - a \<and> M dvd y * A - m \<and> \<bar>x\<bar> * m + \<bar>y\<bar> * a = M \<and> x * y \<le> 0 \<and> \<bar>x\<bar> < M"

lemma euclid_inv_step:
  assumes "euclid_inv A M a m x y" "1 < a" "0 < m"
  shows "euclid_inv A M m (a mod m) y (x - a div m * y)"
proof -
  let ?q = "a div m"
  note inv = assms(1) [unfolded euclid_inv_def]
  have q: "0 \<le> ?q" using assms(2,3) by (simp add: pos_imp_zdiv_nonneg_iff)
  have a: "a = ?q * m + a mod m" by simp
  have opp: "x \<le> 0 \<and> 0 \<le> y \<or> 0 \<le> x \<and> y \<le> 0" using inv by (auto simp: mult_le_0_iff)
  then have abs: "\<bar>x - ?q * y\<bar> = \<bar>x\<bar> + ?q * \<bar>y\<bar>"
  proof
    assume s: "x \<le> 0 \<and> 0 \<le> y"
    then have "0 \<le> ?q * y" using q by simp
    then show ?thesis using s by simp
  next
    assume s: "0 \<le> x \<and> y \<le> 0"
    then have "?q * y \<le> 0" using q by (simp add: mult_nonneg_nonpos)
    then show ?thesis using s by simp
  qed
  have "M dvd (x * A - a) - ?q * (y * A - m)" using inv by simp
  moreover have "(x * A - a) - ?q * (y * A - m) = (x - ?q * y) * A - a mod m"
    by (subst (2) a) (simp add: algebra_simps)
  ultimately have d: "M dvd (x - ?q * y) * A - a mod m" by simp
  have "\<bar>y\<bar> * (a mod m) + (\<bar>x\<bar> + ?q * \<bar>y\<bar>) * m = \<bar>x\<bar> * m + \<bar>y\<bar> * (?q * m + a mod m)"
    by (simp only: algebra_simps)
  also have "\<dots> = M" using inv by (simp only: a [symmetric])
  finally have sum: "\<bar>y\<bar> * (a mod m) + \<bar>x - ?q * y\<bar> * m = M" by (simp only: abs)
  have sign: "y * (x - ?q * y) \<le> 0"
  proof -
    have "y * (x - ?q * y) = x * y - ?q * (y * y)" by (simp add: algebra_simps)
    moreover have "0 \<le> ?q * (y * y)" using q by simp
    ultimately show ?thesis using inv by linarith
  qed
  have "\<bar>y\<bar> < M"
  proof (cases "y = 0")
    case True
    then show ?thesis using inv by linarith
  next
    case False
    then have "\<bar>y\<bar> * 1 < \<bar>y\<bar> * a" using assms(2) by (intro mult_strict_left_mono) simp_all
    moreover have "0 \<le> \<bar>x\<bar> * m" using assms(3) by simp
    ultimately show ?thesis using inv by linarith
  qed
  with d sum sign inv show ?thesis by (simp only: euclid_inv_def simp_thms)
qed

lemma ModInverse_loop_value:
  assumes "a \<noteq> 0" "coprime (unat a) (unat m)" "x = word_of_int xi" "y = word_of_int yi"
    "euclid_inv A M (uint a) (uint m) xi yi"
  shows "\<exists>r. ModInverse_loop a m x y = Inr (word_of_int r) \<and> \<bar>r\<bar> < M \<and> M dvd r * A - 1"
  using assms
proof (induction a m x y arbitrary: xi yi rule: ModInverse_loop.induct)
  case (1 a m x y)
  show ?case
  proof (cases "1 < a")
    case False
    then have "a = 1" using 1(2) by (auto simp: not_less word_le_nat_alt word_unat_eq_iff)
    then show ?thesis
      using 1(4,6) False by (subst ModInverse_loop.simps) (auto simp: euclid_inv_def)
  next
    case True
    then have "m \<noteq> 0" using 1(3) by (auto simp: word_less_nat_alt)
    have cop: "coprime (unat m) (unat (a mod m))" using 1(3) by (simp only: unat_mod coprime_mod_step [symmetric])
    have y': "x - a div m * y = word_of_int (xi - uint a div uint m * yi)"
      by (simp add: 1(4,5) word_div_def wi_hom_syms)
    have inv: "euclid_inv A M (uint m) (uint (a mod m)) yi (xi - uint a div uint m * yi)"
      unfolding uint_mod using True \<open>m \<noteq> 0\<close>
      by (intro euclid_inv_step 1(6)) (simp_all add: word_less_def uint_pos)
    from 1(1) [OF True \<open>m \<noteq> 0\<close> refl \<open>m \<noteq> 0\<close> cop 1(5) y' inv]
    show ?thesis by (simp only: ModInverse_loop_step [OF True \<open>m \<noteq> 0\<close>])
  qed
qed

lemma sint_word_of_int_64: "\<bar>r\<bar> < 2 ^ 63 \<Longrightarrow> sint (word_of_int r :: NativeInt) = r"
  by (simp add: signed_take_bit_int_eq_self_iff sint_sbintrunc' abs_less_iff)

lemma ModInverse_cases:
  assumes "1 < q"
  shows "ModInverse a q = (if unat a mod unat q = 0 then Inl math_error
      else res_bind (ModInverse_loop (a mod q) q 1 0) (\<lambda>x. Inr (if sint x < 0 then x + q else x)))"
proof -
  have "q \<noteq> 0" "q \<noteq> 1" using assms by (auto simp: word_less_nat_alt)
  then show ?thesis
    by (simp add: ModInverse_def Let_def word_unat_eq_iff unat_mod)
qed

lemma ModInverse_value:
  assumes "1 < q" "q \<le> 2 ^ 63" "coprime (unat a) (unat q)"
  shows "\<exists>r. ModInverse a q = Inr r \<and> r < q \<and> (uint a * uint r) mod uint q = 1"
proof -
  let ?A = "uint (a mod q)" and ?M = "uint q"
  have M: "1 < ?M" "?M \<le> 2 ^ 63" using assms(1,2) by (simp_all add: word_less_def word_le_def)
  have cop: "coprime (unat (a mod q)) (unat q)"
    using assms(3) coprime_mod_step [of "unat a" "unat q"] by (simp add: unat_mod coprime_commute)
  have nz: "a mod q \<noteq> 0" "unat a mod unat q \<noteq> 0"
  proof -
    show "unat a mod unat q \<noteq> 0"
    proof
      assume "unat a mod unat q = 0"
      with cop have "coprime 0 (unat q)" by (simp only: unat_mod)
      then show False using assms(1) by (simp add: word_less_nat_alt)
    qed
    then show "a mod q \<noteq> 0" by (auto simp: word_unat_eq_iff unat_mod)
  qed
  have "euclid_inv ?A ?M ?A ?M 1 0" using M(1) by (simp add: euclid_inv_def)
  then obtain r where r: "ModInverse_loop (a mod q) q 1 0 = Inr (word_of_int r)" "\<bar>r\<bar> < ?M" "?M dvd r * ?A - 1"
    using ModInverse_loop_value [OF nz(1) cop, of 1 1 0 0 ?A ?M] by auto
  define s where "s = (if r < 0 then r + ?M else r)"
  have s: "0 \<le> s" "s < ?M" using r(2) by (auto simp: s_def)
  have "(if sint (word_of_int r :: NativeInt) < 0 then word_of_int r + q else word_of_int r) = word_of_int s"
    using r(2) M(2) by (simp add: sint_word_of_int_64 s_def wi_hom_syms)
  then have eq: "ModInverse a q = Inr (word_of_int s)"
    by (simp add: ModInverse_cases [OF assms(1)] nz r(1))
  have us: "uint (word_of_int s :: NativeInt) = s"
    using s M(2) by (simp add: word_of_int_inverse uint_word_of_int_eq take_bit_int_eq_self_iff)
  have "?M dvd s * ?A - 1"
  proof -
    have "s * ?A - 1 = (r * ?A - 1) + (if r < 0 then ?M * ?A else 0)" by (simp add: s_def algebra_simps)
    moreover have "?M dvd (r * ?A - 1) + (if r < 0 then ?M * ?A else 0)"
      using r(3) by (intro dvd_add) auto
    ultimately show ?thesis by (simp only:)
  qed
  then have "(s * ?A) mod ?M = 1 mod ?M" by (simp only: mod_eq_dvd_iff)
  then have "(uint a * s) mod ?M = 1"
    using M(1) by (simp add: uint_mod mod_mult_right_eq mult.commute)
  then show ?thesis using eq us s by (auto simp: word_less_def)
qed

lemma ModInverse_error:
  assumes "1 < q" "\<not> coprime (unat a) (unat q)"
  shows "ModInverse a q = Inl (if unat a mod unat q = 0 then math_error else div_by_zero)"
proof (cases "unat a mod unat q = 0")
  case True
  then show ?thesis by (simp add: ModInverse_cases [OF assms(1)])
next
  case False
  have nc: "\<not> coprime (unat (a mod q)) (unat q)"
    using assms(2) coprime_mod_step [of "unat a" "unat q"] by (simp add: unat_mod coprime_commute)
  have "a mod q \<noteq> 0" using False by (auto simp: word_unat_eq_iff unat_mod)
  from ModInverse_loop_not_coprime [OF this nc] False show ?thesis
    by (simp add: ModInverse_cases [OF assms(1)])
qed

section \<open>Half-word multiplication\<close>

lemma add_carry_iff:
  fixes x y :: NativeInt
  shows "x + y < x \<or> x + y < y \<longleftrightarrow> 2 ^ 64 \<le> unat x + unat y"
    and "unat x + unat y = unat (x + y) + (if 2 ^ 64 \<le> unat x + unat y then 2 ^ 64 else 0)"
proof -
  have v: "unat (x + y) = (if 2 ^ 64 \<le> unat x + unat y then unat x + unat y - 2 ^ 64 else unat x + unat y)"
    using unat_lt_64 [of x] unat_lt_64 [of y] by (simp add: unat_word_ariths mod_sub_once)
  show "x + y < x \<or> x + y < y \<longleftrightarrow> 2 ^ 64 \<le> unat x + unat y"
    using unat_lt_64 [of x] unat_lt_64 [of y] by (auto simp: word_less_nat_alt v)
  show "unat x + unat y = unat (x + y) + (if 2 ^ 64 \<le> unat x + unat y then 2 ^ 64 else 0)"
    by (simp add: v)
qed

lemma half_words:
  fixes a :: NativeInt
  shows "unat a = unat (drop_bit 32 a) * 2 ^ 32 + unat (take_bit 32 a)"
    and "unat (drop_bit 32 a) < 2 ^ 32" and "unat (take_bit 32 a) < 2 ^ 32"
    and "unat (drop_bit 32 a) = unat a div 2 ^ 32" and "unat (take_bit 32 a) = unat a mod 2 ^ 32"
proof -
  show t: "unat (take_bit 32 a) = unat a mod 2 ^ 32" by (subst unsigned_take_bit_eq) (rule take_bit_eq_mod)
  show d: "unat (drop_bit 32 a) = unat a div 2 ^ 32" by (rule unat_drop_bit)
  show "unat a = unat (drop_bit 32 a) * 2 ^ 32 + unat (take_bit 32 a)" by (simp only: t d div_mult_mod_eq)
  show "unat (drop_bit 32 a) < 2 ^ 32" using unat_lt_64 [of a] by (simp add: d less_mult_imp_div_less)
  show "unat (take_bit 32 a) < 2 ^ 32" by (simp add: t)
qed

lemma unat_mult_half:
  fixes x y :: NativeInt
  assumes "unat x < 2 ^ 32" "unat y < 2 ^ 32"
  shows "unat (x * y) = unat x * unat y"
proof -
  have "unat x * unat y < 2 ^ 32 * 2 ^ 32" using assms by (intro mult_strict_mono) auto
  then show ?thesis by (intro unat_mult_nowrap) simp
qed

lemma schoolbook_identity:
  fixes a1 a2 b1 b2 u v c :: nat
  assumes "a2 * b1 + a1 * b2 = (u * 2 ^ 32 + v) + c * 2 ^ 64"
  shows "(a1 * 2 ^ 32 + a2) * (b1 * 2 ^ 32 + b2)
      = (a1 * b1 + u + c * 2 ^ 32) * 2 ^ 64 + (a2 * b2 + v * 2 ^ 32)"
proof -
  have "(a1 * 2 ^ 32 + a2) * (b1 * 2 ^ 32 + b2) = a1 * b1 * 2 ^ 64 + (a2 * b1 + a1 * b2) * 2 ^ 32 + a2 * b2"
    by (simp add: algebra_simps)
  then show ?thesis unfolding assms by (simp add: algebra_simps)
qed

lemma MultD_emscripten_value:
  "unat (hi (MultD_emscripten a b)) * 2 ^ 64 + unat (lo (MultD_emscripten a b)) = unat a * unat b"
proof -
  define a1 a2 b1 b2 where d: "a1 = drop_bit 32 a" "a2 = take_bit 32 a" "b1 = drop_bit 32 b" "b2 = take_bit 32 b"
  note lt = half_words(2,3) [of a, folded d] half_words(2,3) [of b, folded d]
  define temp where "temp = a2 * b1 + a1 * b2"
  define c where "c = (if temp < a2 * b1 \<or> temp < a1 * b2 then 1 else 0 :: nat)"
  define mid where "mid = push_bit 32 (take_bit 32 temp)"
  define res_lo where "res_lo = a2 * b2 + mid"
  define k where "k = (if a2 * b2 > res_lo then 1 else 0 :: nat)"
  have prods: "unat (a2 * b1) = unat a2 * unat b1" "unat (a1 * b2) = unat a1 * unat b2"
    "unat (a2 * b2) = unat a2 * unat b2" "unat (a1 * b1) = unat a1 * unat b1"
    using lt by (simp_all only: unat_mult_half)
  have t: "unat a2 * unat b1 + unat a1 * unat b2 =
      (unat temp div 2 ^ 32 * 2 ^ 32 + unat temp mod 2 ^ 32) + c * 2 ^ 64"
    unfolding div_mult_mod_eq
    using add_carry_iff [of "a2 * b1" "a1 * b2"] by (auto simp: prods temp_def [symmetric] c_def)
  have mid: "unat mid = unat temp mod 2 ^ 32 * 2 ^ 32"
  proof -
    have "unat temp mod 2 ^ 32 < 2 ^ 32" by simp
    then have "unat temp mod 2 ^ 32 * 2 ^ 32 < 2 ^ 64" by simp
    then show ?thesis
      by (simp add: mid_def push_bit_eq_mult unat_word_ariths half_words(5))
  qed
  have l: "unat a2 * unat b2 + unat mid = unat res_lo + k * 2 ^ 64"
  proof -
    have "res_lo < a2 * b2 \<longleftrightarrow> 2 ^ 64 \<le> unat (a2 * b2) + unat mid"
      using add_carry_iff [of "a2 * b2" mid] unat_lt_64 [of "a2 * b2"] unat_lt_64 [of mid]
      by (auto simp: res_lo_def word_less_nat_alt split: if_splits)
    then show ?thesis
      using add_carry_iff(2) [of "a2 * b2" mid] by (auto simp: prods(3) res_lo_def [symmetric] k_def)
  qed
  define H where "H = unat a1 * unat b1 + unat temp div 2 ^ 32 + c * 2 ^ 32 + k"
  have total: "unat a * unat b = H * 2 ^ 64 + unat res_lo"
    using schoolbook_identity [OF t] l
    unfolding half_words(1) [of a] half_words(1) [of b] d [symmetric] H_def mid by (simp add: algebra_simps)
  have "unat a * unat b < 2 ^ 64 * 2 ^ 64"
    using unat_lt_64 [of a] unat_lt_64 [of b] by (intro mult_strict_mono) auto
  then have H: "H < 2 ^ 64" using total by simp
  have "of_nat (unat temp div 2 ^ 32) = drop_bit 32 temp"
    by (simp only: unat_drop_bit [symmetric] of_nat_unat ucast_id)
  then have "hi (MultD_emscripten a b) = of_nat H"
    by (simp add: MultD_emscripten_def Let_def d [symmetric] temp_def [symmetric] mid_def [symmetric]
        res_lo_def [symmetric] H_def c_def k_def)
  then have "unat (hi (MultD_emscripten a b)) = H" using H by (simp add: unat_of_nat)
  moreover have "lo (MultD_emscripten a b) = res_lo"
    by (simp add: MultD_emscripten_def Let_def d [symmetric] temp_def [symmetric] mid_def [symmetric] res_lo_def)
  ultimately show ?thesis using total by simp
qed

section \<open>Properties\<close>

lemma GetMSB_97: "GetMSB 97 = 7"
  by code_simp

lemma barrett_exact_97: "barrett_exact 97"
  by (simp add: barrett_exact_def barrett_modulus_def GetMSB_97 prime_nat_iff upt_rec)

text \<open>
  C21: Barrett multiplication of reduced operands returns the reduced product, for every modulus of at
  least 4 and at most 60 bits that is a prime or a power of two other than \<open>2 ^ 59\<close>.
\<close>

theorem ModMulFast_mu_correct:
  assumes "barrett_exact q" "a < q" "b < q"
  shows "uint (ModMulFast_mu a b q (ComputeMu q)) = (uint a * uint b) mod uint q
    \<and> ModMulFastEq_mu a b q (ComputeMu q) = ModMulFast_mu a b q (ComputeMu q)
    \<and> ModMul_mu a b q (ComputeMu q) = ModMulFast_mu a b q (ComputeMu q)"
  using ModMulFast_mu_value [OF assms] ModMul_mu_reduced [of a q b "ComputeMu q"] assms(2)
  by (simp add: ModMulFastEq_mu_def ModMulFast_mu_def)

theorem ModMulFast_mu_correct_witness: "uint (ModMulFast_mu 50 60 97 (ComputeMu 97)) = 90"
  using ModMulFast_mu_correct [OF barrett_exact_97, of 50 60] by simp

text \<open>
  C40: Barrett multiplication for a modulus that need not be prime. For every modulus of at least 4 and at
  most 60 bits (other than \<open>2 ^ 59\<close>) and operands up to the modulus, the result is the residue of the
  product, with one exception: when the product is a multiple of the modulus the result may be the modulus itself
  and not 0, because the final correction subtracts the modulus only from values strictly above it.
\<close>

theorem ModMulFast_mu_congruent:
  assumes "barrett_modulus q" "a \<le> q" "b \<le> q"
  shows "ModMulFast_mu a b q (ComputeMu q) \<le> q
    \<and> uint (ModMulFast_mu a b q (ComputeMu q)) mod uint q = (uint a * uint b) mod uint q
    \<and> (\<not> uint q dvd uint a * uint b \<longrightarrow> uint (ModMulFast_mu a b q (ComputeMu q)) = (uint a * uint b) mod uint q)
    \<and> (uint q dvd uint a * uint b \<longrightarrow> ModMulFast_mu a b q (ComputeMu q) \<in> {0, q})"
proof -
  let ?r = "ModMulFast_mu a b q (ComputeMu q)"
  have r: "?r \<le> q" "uint ?r mod uint q = (uint a * uint b) mod uint q" using ModMulFast_mu_range [OF assms] by simp_all
  have small: "uint ?r = uint ?r mod uint q" if "?r \<noteq> q"
    using r(1) that by (intro mod_pos_pos_trivial [symmetric]) (auto simp: word_le_def word_uint_eq_iff less_le)
  show ?thesis
  proof (cases "?r = q")
    case True
    then show ?thesis using r by (simp add: dvd_eq_mod_eq_0)
  next
    case False
    then have "uint ?r = (uint a * uint b) mod uint q" using small r(2) by simp
    then show ?thesis using r by (auto simp: dvd_eq_mod_eq_0 word_uint_eq_iff)
  qed
qed

theorem ModMulFast_mu_congruent_witness:
  "uint (ModMulFast_mu 4 7 15 (ComputeMu 15)) = 13 \<and> ModMulFast_mu 3 5 15 (ComputeMu 15) \<in> {0, 15}"
proof -
  have "GetMSB 15 = 4" by code_simp
  then have "barrett_modulus 15" by (simp add: barrett_modulus_def)
  from ModMulFast_mu_congruent [OF this, of 4 7] ModMulFast_mu_congruent [OF this, of 3 5] show ?thesis by simp
qed

text \<open>
  Both restrictions are needed: for the modulus 15 the product of 3 and 5 comes out as 15, and for \<open>2 ^ 59\<close>,
  which the size check of the vectors accepts, the precomputed value overflows to 0 and a product is wrong.
\<close>

lemma barrett_limits:
  "ModMulFast_mu 3 5 15 (ComputeMu 15) = 15 \<and> ComputeMu (2 ^ 59) = 0
   \<and> ModMulFast_mu 5 (2 ^ 58) (2 ^ 59) (ComputeMu (2 ^ 59)) \<noteq> 2 ^ 58 \<and> (5 * 2 ^ 58) mod 2 ^ 59 = (2 ^ 58 :: int)"
proof -
  have "ModMulFast_mu 3 5 15 (ComputeMu 15) = 15" by code_simp
  moreover have "ComputeMu 576460752303423488 = 0" by code_simp
  moreover have "ModMulFast_mu 5 288230376151711744 576460752303423488 0 = 864691128455135232" by code_simp
  ultimately show ?thesis by simp
qed

text \<open>
  Shoup's multiplication by a reduced constant with its precomputed quotient returns the
  reduced product for any 64-bit operand and any modulus up to \<open>2 ^ 62\<close>.
\<close>

theorem ModMulFastConst_correct:
  assumes "b < q" "q \<le> 2 ^ 62"
  shows "uint (ModMulFastConst a b q (PrepModMulConst b q)) = (uint a * uint b) mod uint q
    \<and> ModMulFastConstEq a b q (PrepModMulConst b q) = ModMulFastConst a b q (PrepModMulConst b q)"
  using ModMulFastConst_value [OF assms] by (simp add: ModMulFastConstEq_def ModMulFastConst_def)

theorem ModMulFastConst_correct_witness: "uint (ModMulFastConst (2 ^ 63) 5 97 (PrepModMulConst 5 97)) = (2 ^ 63 * 5) mod 97"
  using ModMulFastConst_correct [of 5 97 "2 ^ 63"] by simp

text \<open>
  The full-range methods reduce their operands first, so modular addition, subtraction and
  multiplication of any two words are exact for every nonzero modulus up to \<open>2 ^ 63\<close>.
\<close>

theorem ModOps_correct:
  assumes "q \<noteq> 0" "q \<le> 2 ^ 63"
  shows "uint (ModAdd a b q) = (uint a + uint b) mod uint q \<and> uint (ModSub a b q) = (uint a - uint b) mod uint q
    \<and> uint (ModMul a b q) = (uint a * uint b) mod uint q"
  using ModAdd_value [OF assms] ModSub_value [OF assms] ModMul_value [OF assms(1)] by simp

theorem ModOps_correct_witness: "uint (ModSub 3 200 97) = (3 - 200) mod 97"
  using ModOps_correct [of 97 3 200] by simp

text \<open>
  Modular exponentiation terminates and returns the reduced power, for any base, exponent and
  nonzero modulus of 64 bits.
\<close>

theorem ModExp_correct:
  assumes "q \<noteq> 0"
  shows "unat (ModExp a b q) = unat a ^ unat b mod unat q \<and> ModExpEq a b q = ModExp a b q"
  using ModExp_value [OF assms] by (simp add: ModExpEq_def)

theorem ModExp_correct_witness: "unat (ModExp 3 5 7) = 5"
  using ModExp_correct [of 7 3 5] by simp

text \<open>
  C32: modular inversion of a unit returns its inverse in the range of the modulus.
\<close>

theorem ModInverse_correct:
  assumes "1 < q" "q \<le> 2 ^ 63" "coprime (unat a) (unat q)"
  shows "\<exists>r. ModInverse a q = Inr r \<and> r < q \<and> (uint a * uint r) mod uint q = 1"
  using assms by (rule ModInverse_value)

theorem ModInverse_correct_witness: "\<exists>r. ModInverse 3 7 = Inr r \<and> r < 7 \<and> (3 * uint r) mod 7 = 1"
proof -
  have "coprime (3 :: nat) 7" by (simp add: coprime_iff_gcd_eq_1 gcd_non_0_nat)
  then show ?thesis using ModInverse_correct [of 7 3] by simp
qed

text \<open>
  On an operand that is not a unit the method throws when the operand is a multiple of the
  modulus, and otherwise runs into a division by zero instead of throwing.
\<close>

theorem ModInverse_not_unit:
  assumes "1 < q" "\<not> coprime (unat a) (unat q)"
  shows "ModInverse a q = Inl (if unat a mod unat q = 0 then math_error else div_by_zero)"
  using assms by (rule ModInverse_error)

theorem ModInverse_not_unit_witness: "ModInverse 2 4 = Inl div_by_zero"
proof -
  have "\<not> coprime (2 :: nat) 4" by simp
  then show ?thesis using ModInverse_not_unit [of 4 2] by simp
qed

text \<open>
  The web-assembly multiplication by half words computes the same double word as the
  hardware multiplication.
\<close>

theorem MultD_emscripten_correct: "MultD_emscripten a b = MultD a b"
proof -
  have v: "unat (hi (MultD_emscripten a b)) * 2 ^ 64 + unat (lo (MultD_emscripten a b))
      = unat (hi (MultD a b)) * 2 ^ 64 + unat (lo (MultD a b))"
    using MultD_emscripten_value [of a b] unat_GetD_MultD [of a b] GetD_value [of "MultD a b"] by simp
  have "h = h' \<and> l = l'" if "h * 2 ^ 64 + l = h' * 2 ^ 64 + l'" "l < 2 ^ 64" "l' < 2 ^ 64" for h l h' l' :: nat
  proof -
    have "(h * 2 ^ 64 + l) div 2 ^ 64 = h" "(h' * 2 ^ 64 + l') div 2 ^ 64 = h'" using that(2,3) by simp_all
    with that(1) show ?thesis by simp
  qed
  from this [OF v] have "hi (MultD_emscripten a b) = hi (MultD a b) \<and> lo (MultD_emscripten a b) = lo (MultD a b)"
    using unat_lt_64 by (simp add: word_unat_eq_iff)
  then show ?thesis by (intro typeD.equality) auto
qed

end
