(* ===== verification/NatVec.thy ===== *)
theory NatVec
  imports NatMod
begin

text \<open>
  \<open>NativeVectorT<NativeInteger>\<close> of \<open>src/core/lib/math/hal/intnat/mubintvecnat.cpp\<close>: a vector of
  residues with its modulus. The prefix \<open>NV_\<close> marks a method of the class, the suffix \<open>_s\<close> the
  overload with a scalar operand; an in-place method \<open>fEq\<close> returns the new object. Every loop
  of the source is a \<open>for_range\<close> (or \<open>res_range\<close>, where the body may throw) over the index.
\<close>

section \<open>State and construction\<close>

record NativeVector =
  m_data :: "NativeInt list"
  m_modulus :: NativeInt

definition MAX_MODULUS_SIZE :: nat where
  "MAX_MODULUS_SIZE = 60"

definition NV_empty :: NativeVector where
  "NV_empty = \<lparr>m_data = [], m_modulus = 0\<rparr>"

definition NV_length :: "nat \<Rightarrow> NativeVector" where
  "NV_length len = \<lparr>m_data = replicate len 0, m_modulus = 0\<rparr>"

definition NV_SetModulus :: "NativeVector \<Rightarrow> NativeInt \<Rightarrow> NativeVector result" where
  "NV_SetModulus v val =
     (if GetMSB val > MAX_MODULUS_SIZE then Inl not_available_error
      else Inr (v\<lparr>m_modulus := val\<rparr>))"

definition NV_new :: "nat \<Rightarrow> NativeInt \<Rightarrow> NativeVector result" where
  "NV_new len modulus =
     (if GetMSB modulus > MAX_MODULUS_SIZE then Inl not_available_error
      else res_bind (NV_SetModulus NV_empty modulus)
        (\<lambda>v. Inr (v\<lparr>m_data := replicate len 0\<rparr>)))"

text \<open>The constructors from an initializer list, of strings and of integers.\<close>

definition NV_of_strings :: "nat \<Rightarrow> NativeInt \<Rightarrow> string list \<Rightarrow> NativeVector result" where
  "NV_of_strings len0 modulus rhs =
     res_bind (NV_SetModulus NV_empty modulus) (\<lambda>v.
     let v = v\<lparr>m_data := replicate len0 0\<rparr>; len = length rhs
     in res_bind
          (res_range 0 (length (m_data v))
            (\<lambda>i xs. res_bind (if i < len then res_bind (AssignVal (rhs ! i)) (\<lambda>x. Inr (Mod x (m_modulus v)))
                              else Inr 0)
                     (\<lambda>y. Inr (xs[i := y])))
            (m_data v))
          (\<lambda>xs. Inr (v\<lparr>m_data := xs\<rparr>)))"

definition NV_of_ints :: "nat \<Rightarrow> NativeInt \<Rightarrow> NativeInt list \<Rightarrow> NativeVector result" where
  "NV_of_ints len0 modulus rhs =
     res_bind (NV_SetModulus NV_empty modulus) (\<lambda>v.
     let v = v\<lparr>m_data := replicate len0 0\<rparr>; len = length rhs
     in Inr (v\<lparr>m_data := for_range 0 (length (m_data v))
          (\<lambda>i xs. xs[i := (if i < len then Mod (rhs ! i) (m_modulus v) else 0)]) (m_data v)\<rparr>))"

definition NV_assign :: "NativeVector \<Rightarrow> NativeVector \<Rightarrow> NativeVector" where
  "NV_assign v rhs =
     (let v = (if length (m_data v) = length (m_data rhs)
               then v\<lparr>m_data := for_range 0 (length (m_data v)) (\<lambda>i xs. xs[i := m_data rhs ! i]) (m_data v)\<rparr>
               else v\<lparr>m_data := m_data rhs\<rparr>)
      in v\<lparr>m_modulus := m_modulus rhs\<rparr>)"

definition NV_assign_strings :: "NativeVector \<Rightarrow> string list \<Rightarrow> NativeVector result" where
  "NV_assign_strings v rhs =
     (let len = length rhs
      in res_bind
           (res_range 0 (length (m_data v))
             (\<lambda>i xs. res_bind (if i < len then
                                 if m_modulus v \<noteq> 0
                                 then res_bind (AssignVal (rhs ! i)) (\<lambda>x. Inr (Mod x (m_modulus v)))
                                 else AssignVal (rhs ! i)
                               else Inr 0)
                      (\<lambda>y. Inr (xs[i := y])))
             (m_data v))
           (\<lambda>xs. Inr (v\<lparr>m_data := xs\<rparr>)))"

definition NV_assign_ints :: "NativeVector \<Rightarrow> NativeInt list \<Rightarrow> NativeVector" where
  "NV_assign_ints v rhs =
     (let len = length rhs
      in v\<lparr>m_data := for_range 0 (length (m_data v))
           (\<lambda>i xs. xs[i := (if i < len then
                              if m_modulus v \<noteq> 0 then Mod (rhs ! i) (m_modulus v) else rhs ! i
                            else 0)]) (m_data v)\<rparr>)"

text \<open>\<open>operator=(uint64_t)\<close>: the value at index 0 and zeros after it.\<close>

definition NV_assign_val :: "NativeVector \<Rightarrow> NativeInt \<Rightarrow> NativeVector result" where
  "NV_assign_val v val =
     (if m_data v = [] then Inl out_of_bounds
      else let xs = (m_data v)[0 := val]
           in Inr (v\<lparr>m_data := for_range 1 (length xs) (\<lambda>i xs. xs[i := 0]) xs\<rparr>))"

definition NV_IndexCheck :: "NativeVector \<Rightarrow> nat \<Rightarrow> bool" where
  "NV_IndexCheck v len = (if len > length (m_data v) then False else True)"

definition NV_at :: "NativeVector \<Rightarrow> nat \<Rightarrow> NativeInt result" where
  "NV_at v i =
     (if \<not> NV_IndexCheck v i then Inl math_error
      else if i < length (m_data v) then Inr (m_data v ! i) else Inl out_of_bounds)"

definition NV_GetModulus :: "NativeVector \<Rightarrow> NativeInt" where
  "NV_GetModulus v = m_modulus v"

definition NV_GetLength :: "NativeVector \<Rightarrow> nat" where
  "NV_GetLength v = length (m_data v)"

section \<open>Change of modulus\<close>

definition NV_SwitchModulus :: "NativeVector \<Rightarrow> NativeInt \<Rightarrow> NativeVector result" where
  "NV_SwitchModulus v newModulus =
     (let oldModulus = m_modulus v;
          oldModulusByTwo = RShift oldModulus 1;
          diff = (if oldModulus > newModulus then Sub oldModulus newModulus else Sub newModulus oldModulus)
      in res_bind
           (if newModulus > oldModulus then
              res_range 0 (length (m_data v))
                (\<lambda>i xs. let n = xs ! i
                        in res_bind (if n > oldModulusByTwo then AddEq n diff else Inr n)
                             (\<lambda>y. Inr (xs[i := y])))
                (m_data v)
            else
              Inr (for_range 0 (length (m_data v))
                (\<lambda>i xs. let n = xs ! i; sub_diff = (if n > oldModulusByTwo then diff else 0)
                        in xs[i := ModSub n sub_diff newModulus])
                (m_data v)))
           (\<lambda>xs. NV_SetModulus (v\<lparr>m_data := xs\<rparr>) newModulus))"

definition NV_ModByTwoEq :: "NativeVector \<Rightarrow> NativeVector" where
  "NV_ModByTwoEq v =
     (let halfQ = RShift (NV_GetModulus v) 1
      in v\<lparr>m_data := for_range 0 (NV_GetLength v)
           (\<lambda>i xs. xs[i := (if xs ! i > halfQ
                            then (if Mod (xs ! i) 2 = 1 then 0 else 1)
                            else (if Mod (xs ! i) 2 = 1 then 1 else 0))])
           (m_data v)\<rparr>)"

definition NV_ModByTwo :: "NativeVector \<Rightarrow> NativeVector" where
  "NV_ModByTwo v = (let ans = v in NV_ModByTwoEq ans)"

definition NV_Mod :: "NativeVector \<Rightarrow> NativeInt \<Rightarrow> NativeVector result" where
  "NV_Mod v modulus =
     (if modulus = 2 then Inr (NV_ModByTwo v)
      else res_bind (NV_new (NV_GetLength v) (NV_GetModulus v)) (\<lambda>ans.
        let halfQ = RShift (NV_GetModulus v) 1
        in Inr (ans\<lparr>m_data := for_range 0 (NV_GetLength ans)
             (\<lambda>i xs. if m_data v ! i > halfQ
                     then xs[i := ModSub (m_data v ! i) (NV_GetModulus v) modulus]
                     else xs[i := Mod (m_data v ! i) modulus])
             (m_data ans)\<rparr>)))"

definition NV_ModEq :: "NativeVector \<Rightarrow> NativeInt \<Rightarrow> NativeVector" where
  "NV_ModEq v modulus =
     (if modulus = 2 then NV_ModByTwoEq v
      else let halfQ = RShift (NV_GetModulus v) 1
           in v\<lparr>m_data := for_range 0 (NV_GetLength v)
                (\<lambda>i xs. if xs ! i > halfQ
                        then xs[i := ModSubEq (xs ! i) (NV_GetModulus v) modulus]
                        else xs[i := ModEq (xs ! i) modulus])
                (m_data v)\<rparr>)"

section \<open>Scalar operands\<close>

definition NV_ModAdd_s :: "NativeVector \<Rightarrow> NativeInt \<Rightarrow> NativeVector" where
  "NV_ModAdd_s v b =
     (let modulus = m_modulus v; bLocal = b; ans = v;
          bLocal = (if bLocal > m_modulus v then ModEq bLocal modulus else bLocal)
      in ans\<lparr>m_data := for_range 0 (length (m_data v))
           (\<lambda>i xs. xs[i := ModAddFastEq (xs ! i) bLocal modulus]) (m_data ans)\<rparr>)"

definition NV_ModAddEq_s :: "NativeVector \<Rightarrow> NativeInt \<Rightarrow> NativeVector" where
  "NV_ModAddEq_s v b =
     (let modulus = m_modulus v; bLocal = b;
          bLocal = (if bLocal > m_modulus v then ModEq bLocal modulus else bLocal)
      in v\<lparr>m_data := for_range 0 (length (m_data v))
           (\<lambda>i xs. xs[i := ModAddFastEq (xs ! i) bLocal modulus]) (m_data v)\<rparr>)"

text \<open>
  \<open>GetLength() - 1\<close> is computed in \<open>size_t\<close>, so on an empty vector the guard accepts every index.
\<close>

definition NV_ModAddAtIndexEq :: "NativeVector \<Rightarrow> usint \<Rightarrow> NativeInt \<Rightarrow> NativeVector result" where
  "NV_ModAddAtIndexEq v i b =
     (if (ucast i :: NativeInt) > of_nat (NV_GetLength v) - 1 then Inl math_error
      else if NV_GetLength v \<le> unat i then Inl out_of_bounds
      else Inr (v\<lparr>m_data := (m_data v)[unat i := ModAddEq (m_data v ! unat i) b (m_modulus v)]\<rparr>))"

definition NV_ModAddAtIndex :: "NativeVector \<Rightarrow> usint \<Rightarrow> NativeInt \<Rightarrow> NativeVector result" where
  "NV_ModAddAtIndex v i b =
     (if (ucast i :: NativeInt) > of_nat (NV_GetLength v) - 1 then Inl math_error
      else if NV_GetLength v \<le> unat i then Inl out_of_bounds
      else let ans = v
           in Inr (ans\<lparr>m_data := (m_data ans)[unat i := ModAddEq (m_data ans ! unat i) b (m_modulus v)]\<rparr>))"

definition NV_ModSub_s :: "NativeVector \<Rightarrow> NativeInt \<Rightarrow> NativeVector" where
  "NV_ModSub_s v b =
     (let ans = v
      in ans\<lparr>m_data := for_range 0 (length (m_data v))
           (\<lambda>i xs. xs[i := ModSubEq (xs ! i) b (m_modulus v)]) (m_data ans)\<rparr>)"

definition NV_ModSubEq_s :: "NativeVector \<Rightarrow> NativeInt \<Rightarrow> NativeVector" where
  "NV_ModSubEq_s v b =
     v\<lparr>m_data := for_range 0 (length (m_data v))
         (\<lambda>i xs. xs[i := ModSubEq (xs ! i) b (m_modulus v)]) (m_data v)\<rparr>"

definition NV_ModMul_s :: "NativeVector \<Rightarrow> NativeInt \<Rightarrow> NativeVector" where
  "NV_ModMul_s v b =
     (let ans = v; modulus = m_modulus v; bLocal = b;
          bLocal = (if bLocal \<ge> modulus then ModEq bLocal modulus else bLocal);
          bPrec = PrepModMulConst bLocal modulus
      in ans\<lparr>m_data := for_range 0 (length (m_data v))
           (\<lambda>i xs. xs[i := ModMulFastConstEq (xs ! i) bLocal modulus bPrec]) (m_data ans)\<rparr>)"

definition NV_ModMulEq_s :: "NativeVector \<Rightarrow> NativeInt \<Rightarrow> NativeVector" where
  "NV_ModMulEq_s v b =
     (let modulus = m_modulus v; bLocal = b;
          bLocal = (if bLocal \<ge> modulus then ModEq bLocal modulus else bLocal);
          bPrec = PrepModMulConst bLocal modulus
      in v\<lparr>m_data := for_range 0 (length (m_data v))
           (\<lambda>i xs. xs[i := ModMulFastConstEq (xs ! i) bLocal modulus bPrec]) (m_data v)\<rparr>)"

definition NV_ModExp :: "NativeVector \<Rightarrow> NativeInt \<Rightarrow> NativeVector" where
  "NV_ModExp v b =
     (let ans = v
      in ans\<lparr>m_data := for_range 0 (length (m_data v))
           (\<lambda>i xs. xs[i := ModExpEq (xs ! i) b (m_modulus v)]) (m_data ans)\<rparr>)"

definition NV_ModExpEq :: "NativeVector \<Rightarrow> NativeInt \<Rightarrow> NativeVector" where
  "NV_ModExpEq v b =
     v\<lparr>m_data := for_range 0 (length (m_data v))
         (\<lambda>i xs. xs[i := ModExpEq (xs ! i) b (m_modulus v)]) (m_data v)\<rparr>"

section \<open>Vector operands\<close>

definition NV_ModAdd :: "NativeVector \<Rightarrow> NativeVector \<Rightarrow> NativeVector result" where
  "NV_ModAdd v b =
     (if length (m_data v) \<noteq> length (m_data b) \<or> m_modulus v \<noteq> m_modulus b then Inl math_error
      else let ans = v; modulus = m_modulus v
           in Inr (ans\<lparr>m_data := for_range 0 (length (m_data ans))
                (\<lambda>i xs. xs[i := ModAddFastEq (xs ! i) (m_data b ! i) modulus]) (m_data ans)\<rparr>))"

definition NV_ModAddEq :: "NativeVector \<Rightarrow> NativeVector \<Rightarrow> NativeVector result" where
  "NV_ModAddEq v b =
     (if length (m_data v) \<noteq> length (m_data b) \<or> m_modulus v \<noteq> m_modulus b then Inl math_error
      else let modulus = m_modulus v
           in Inr (v\<lparr>m_data := for_range 0 (length (m_data v))
                (\<lambda>i xs. xs[i := ModAddFastEq (xs ! i) (m_data b ! i) modulus]) (m_data v)\<rparr>))"

definition NV_ModSub :: "NativeVector \<Rightarrow> NativeVector \<Rightarrow> NativeVector result" where
  "NV_ModSub v b =
     (if length (m_data v) \<noteq> length (m_data b) \<or> m_modulus v \<noteq> m_modulus b then Inl math_error
      else let ans = v
           in Inr (ans\<lparr>m_data := for_range 0 (length (m_data ans))
                (\<lambda>i xs. xs[i := ModSubFastEq (xs ! i) (m_data b ! i) (m_modulus v)]) (m_data ans)\<rparr>))"

definition NV_ModSubEq :: "NativeVector \<Rightarrow> NativeVector \<Rightarrow> NativeVector result" where
  "NV_ModSubEq v b =
     (if length (m_data v) \<noteq> length (m_data b) \<or> m_modulus v \<noteq> m_modulus b then Inl math_error
      else Inr (v\<lparr>m_data := for_range 0 (length (m_data v))
             (\<lambda>i xs. xs[i := ModSubFastEq (xs ! i) (m_data b ! i) (m_modulus v)]) (m_data v)\<rparr>))"

definition NV_ModMul :: "NativeVector \<Rightarrow> NativeVector \<Rightarrow> NativeVector result" where
  "NV_ModMul v b =
     (if length (m_data v) \<noteq> length (m_data b) \<or> m_modulus v \<noteq> m_modulus b then Inl math_error
      else let ans = v; modulus = m_modulus v; mu = ComputeMu modulus
           in Inr (ans\<lparr>m_data := for_range 0 (length (m_data v))
                (\<lambda>i xs. xs[i := ModMulFastEq_mu (xs ! i) (m_data b ! i) modulus mu]) (m_data ans)\<rparr>))"

definition NV_ModMulEq :: "NativeVector \<Rightarrow> NativeVector \<Rightarrow> NativeVector result" where
  "NV_ModMulEq v b =
     (if length (m_data v) \<noteq> length (m_data b) \<or> m_modulus v \<noteq> m_modulus b then Inl math_error
      else let modulus = m_modulus v; mu = ComputeMu modulus
           in Inr (v\<lparr>m_data := for_range 0 (length (m_data v))
                (\<lambda>i xs. xs[i := ModMulFastEq_mu (xs ! i) (m_data b ! i) modulus mu]) (m_data v)\<rparr>))"

definition NV_MultWithOutMod :: "NativeVector \<Rightarrow> NativeVector \<Rightarrow> NativeVector result" where
  "NV_MultWithOutMod v b =
     (if length (m_data v) \<noteq> length (m_data b) \<or> m_modulus v \<noteq> m_modulus b then Inl math_error
      else let ans = v
           in res_bind
                (res_range 0 (length (m_data ans))
                  (\<lambda>i xs. res_bind (MulEq (xs ! i) (m_data b ! i)) (\<lambda>y. Inr (xs[i := y]))) (m_data ans))
                (\<lambda>xs. Inr (ans\<lparr>m_data := xs\<rparr>)))"

definition NV_ModInverse :: "NativeVector \<Rightarrow> NativeVector result" where
  "NV_ModInverse v =
     (let ans = v
      in res_bind
           (res_range 0 (length (m_data v))
             (\<lambda>i xs. res_bind (ModInverseEq (xs ! i) (m_modulus v)) (\<lambda>y. Inr (xs[i := y]))) (m_data ans))
           (\<lambda>xs. Inr (ans\<lparr>m_data := xs\<rparr>)))"

definition NV_ModInverseEq :: "NativeVector \<Rightarrow> NativeVector result" where
  "NV_ModInverseEq v =
     res_bind
       (res_range 0 (length (m_data v))
         (\<lambda>i xs. res_bind (ModInverseEq (xs ! i) (m_modulus v)) (\<lambda>y. Inr (xs[i := y]))) (m_data v))
       (\<lambda>xs. Inr (v\<lparr>m_data := xs\<rparr>))"

section \<open>Rounding\<close>

definition NV_MultiplyAndRound :: "NativeVector \<Rightarrow> NativeInt \<Rightarrow> NativeInt \<Rightarrow> NativeVector result" where
  "NV_MultiplyAndRound v p q =
     (let ans = v; halfQ = RShift (m_modulus v) 1
      in res_bind
           (res_range 0 (length (m_data v))
             (\<lambda>i xs.
                if xs ! i > halfQ then
                  (let temp = Sub (m_modulus v) (xs ! i)
                   in res_bind (MultiplyAndRound temp p q) (\<lambda>r. Inr (xs[i := Sub (m_modulus v) r])))
                else
                  res_bind (MultiplyAndRoundEq (xs ! i) p q) (\<lambda>r. Inr (xs[i := ModEq r (m_modulus v)])))
             (m_data ans))
           (\<lambda>xs. Inr (ans\<lparr>m_data := xs\<rparr>)))"

text \<open>The in-place body reduces the whole vector, not the entry, in the second branch.\<close>

definition NV_MultiplyAndRoundEq :: "NativeVector \<Rightarrow> NativeInt \<Rightarrow> NativeInt \<Rightarrow> NativeVector result" where
  "NV_MultiplyAndRoundEq v p q =
     (let halfQ = RShift (m_modulus v) 1
      in res_range 0 (length (m_data v))
           (\<lambda>i v.
              if m_data v ! i > halfQ then
                (let temp = Sub (m_modulus v) (m_data v ! i)
                 in res_bind (MultiplyAndRound temp p q)
                      (\<lambda>r. Inr (v\<lparr>m_data := (m_data v)[i := Sub (m_modulus v) r]\<rparr>)))
              else
                res_bind (MultiplyAndRoundEq (m_data v ! i) p q)
                  (\<lambda>r. let v = v\<lparr>m_data := (m_data v)[i := r]\<rparr> in Inr (NV_ModEq v (m_modulus v))))
           v)"

definition NV_DivideAndRound :: "NativeVector \<Rightarrow> NativeInt \<Rightarrow> NativeVector result" where
  "NV_DivideAndRound v q =
     (let ans = v; halfQ = RShift (m_modulus v) 1
      in res_bind
           (res_range 0 (length (m_data v))
             (\<lambda>i xs. res_bind
                (if xs ! i > halfQ then
                   (let temp = Sub (m_modulus v) (xs ! i)
                    in res_bind (DivideAndRound temp q) (\<lambda>r. Inr (Sub (m_modulus v) r)))
                 else DivideAndRoundEq (xs ! i) q)
                (\<lambda>y. Inr (xs[i := y])))
             (m_data ans))
           (\<lambda>xs. Inr (ans\<lparr>m_data := xs\<rparr>)))"

definition NV_DivideAndRoundEq :: "NativeVector \<Rightarrow> NativeInt \<Rightarrow> NativeVector result" where
  "NV_DivideAndRoundEq v q =
     (let halfQ = RShift (m_modulus v) 1
      in res_bind
           (res_range 0 (length (m_data v))
             (\<lambda>i xs. res_bind
                (if xs ! i > halfQ then
                   (let temp = Sub (m_modulus v) (xs ! i)
                    in res_bind (DivideAndRound temp q) (\<lambda>r. Inr (Sub (m_modulus v) r)))
                 else DivideAndRoundEq (xs ! i) q)
                (\<lambda>y. Inr (xs[i := y])))
             (m_data v))
           (\<lambda>xs. Inr (v\<lparr>m_data := xs\<rparr>)))"

text \<open>\<open>None\<close> is the digit loop that does not end (see \<open>digit_loop\<close>).\<close>

definition NV_GetDigitAtIndexForBase :: "NativeVector \<Rightarrow> usint \<Rightarrow> usint \<Rightarrow> NativeVector result option" where
  "NV_GetDigitAtIndexForBase v index base =
     (let ans = v
      in if list_ex (\<lambda>x. GetDigitAtIndexForBase x index base = None) (m_data ans) then None
         else Some (res_bind
           (res_range 0 (length (m_data v))
             (\<lambda>i xs. res_bind (the (GetDigitAtIndexForBase (xs ! i) index base))
                        (\<lambda>d. Inr (xs[i := ucast d])))
             (m_data ans))
           (\<lambda>xs. Inr (ans\<lparr>m_data := xs\<rparr>))))"

section \<open>In-place scalar methods\<close>

lemma inplace_eqs:
  "ModEq = Mod" "ModAddEq = ModAdd" "ModAddFastEq = ModAddFast" "ModSubEq = ModSub"
  "ModSubFastEq = ModSubFast" "ModMulFastEq_mu = ModMulFast_mu" "ModMulFastConstEq = ModMulFastConst"
  "ModExpEq = ModExp" "ModInverseEq = ModInverse" "DivideAndRoundEq = DivideAndRound"
  by (intro ext; simp add: ModEq_def Mod_def ModAddEq_def ModAdd_def ModAddFastEq_def ModAddFast_def
      ModSubEq_def ModSub_def ModSubFastEq_def ModSubFast_def ModMulFastEq_mu_def ModMulFast_mu_def
      ModMulFastConstEq_def ModMulFastConst_def ModExpEq_def ModInverseEq_def DivideAndRoundEq_def Let_def)+

section \<open>Well-formed vectors and their residues\<close>

definition nv_wf :: "NativeVector \<Rightarrow> bool" where
  "nv_wf v \<longleftrightarrow> m_modulus v \<noteq> 0 \<and> GetMSB (m_modulus v) \<le> MAX_MODULUS_SIZE
     \<and> list_all (\<lambda>x. x < m_modulus v) (m_data v)"

definition nv_abs :: "NativeVector \<Rightarrow> int list" where
  "nv_abs v = map uint (m_data v)"

definition nv_compatible :: "NativeVector \<Rightarrow> NativeVector \<Rightarrow> bool" where
  "nv_compatible v b \<longleftrightarrow> length (m_data v) = length (m_data b) \<and> m_modulus v = m_modulus b"

text \<open>The representative of a residue in the interval around 0.\<close>

definition centered :: "NativeInt \<Rightarrow> NativeInt \<Rightarrow> int" where
  "centered q x = (if uint x > uint q div 2 then uint x - uint q else uint x)"

lemma modulus_size_bound:
  assumes "GetMSB q \<le> MAX_MODULUS_SIZE"
  shows "unat q < 2 ^ 60" and "q \<le> 2 ^ 62" and "q \<le> 2 ^ 63"
proof -
  show *: "unat q < 2 ^ 60"
  proof (cases "q = 0")
    case False
    have "(2 :: nat) ^ GetMSB q \<le> 2 ^ 60" using assms by (intro power_increasing) (auto simp: MAX_MODULUS_SIZE_def)
    then show ?thesis using GetMSB_bounds(3) [OF False] by linarith
  qed simp
  show "q \<le> 2 ^ 62" "q \<le> 2 ^ 63" using * by (simp_all add: word_le_nat_alt)
qed

lemma nv_wf_modulus:
  "nv_wf v \<Longrightarrow> m_modulus v \<noteq> 0 \<and> m_modulus v \<le> 2 ^ 63"
  "nv_wf v \<Longrightarrow> m_modulus v \<le> 2 ^ 62"
  using modulus_size_bound by (auto simp: nv_wf_def)

lemma half_gt_iff: "x > RShift q 1 \<longleftrightarrow> uint x > uint q div 2"
  by (simp add: RShift_def word_less_def uint_div drop_bit_Suc)

lemma centered_mod: "centered q x mod uint q = uint x mod uint q"
  by (simp add: centered_def)

lemma map_index_as_map2:
  "length xs = length ys \<Longrightarrow> map (\<lambda>i. f (xs ! i) (ys ! i)) [0..<length xs] = map2 f xs ys"
  by (rule nth_equalityI) auto

lemma map_index_as_map: "map (\<lambda>i. f (xs ! i)) [0..<length xs] = map f xs"
  by (rule nth_equalityI) auto

lemma res_map_index: "res_map (\<lambda>i. f (xs ! i)) [0..<length xs] = res_map f xs"
proof -
  have "res_map (\<lambda>i. f (xs ! i)) is = res_map f (map (nth xs) is)" for "is" by (induction "is") auto
  then show ?thesis by (simp add: map_nth)
qed

section \<open>Pointwise operations on two vectors\<close>

text \<open>
  The contract of a binary vector method: it throws on mismatched operands and otherwise applies
  a scalar operation, exact on reduced operands, entry by entry.
\<close>

locale pointwise_op =
  fixes ok :: "NativeInt \<Rightarrow> bool"
    and vop :: "NativeVector \<Rightarrow> NativeVector \<Rightarrow> NativeVector result"
    and sop :: "NativeInt \<Rightarrow> NativeInt \<Rightarrow> NativeInt \<Rightarrow> NativeInt"
    and sem :: "int \<Rightarrow> int \<Rightarrow> int"
  assumes vop_eq: "vop v b = (if nv_compatible v b
      then Inr (v\<lparr>m_data := map2 (\<lambda>x y. sop x y (m_modulus v)) (m_data v) (m_data b)\<rparr>) else Inl math_error)"
    and sop_value: "ok q \<Longrightarrow> q \<noteq> 0 \<Longrightarrow> q \<le> 2 ^ 62 \<Longrightarrow> x < q \<Longrightarrow> y < q \<Longrightarrow>
      uint (sop x y q) = sem (uint x) (uint y) mod uint q"
begin

lemma vop_error: "vop v b = Inl e \<longleftrightarrow> \<not> nv_compatible v b \<and> e = math_error"
  by (auto simp: vop_eq)

lemma vop_correct:
  assumes "nv_wf v" "nv_wf b" "nv_compatible v b" "ok (m_modulus v)"
  obtains c where "vop v b = Inr c" and "nv_wf c" and "nv_compatible c v"
    and "nv_abs c = map2 (\<lambda>x y. sem x y mod uint (m_modulus v)) (nv_abs v) (nv_abs b)"
proof -
  let ?q = "m_modulus v"
  let ?c = "v\<lparr>m_data := map2 (\<lambda>x y. sop x y ?q) (m_data v) (m_data b)\<rparr>"
  have q: "?q \<noteq> 0" "?q \<le> 2 ^ 62" using nv_wf_modulus [OF assms(1)] by auto
  have lt: "x < ?q \<and> y < ?q" if "(x, y) \<in> set (zip (m_data v) (m_data b))" for x y
    using that assms(1-3) by (auto simp: nv_wf_def nv_compatible_def list_all_iff dest: set_zip_leftD set_zip_rightD)
  then have val: "uint (sop x y ?q) = sem (uint x) (uint y) mod uint ?q"
    if "(x, y) \<in> set (zip (m_data v) (m_data b))" for x y
    using that q assms(4) by (intro sop_value) auto
  have "vop v b = Inr ?c" using assms(3) by (simp add: vop_eq)
  moreover have "nv_wf ?c"
    using assms(1) q val by (auto simp: nv_wf_def list_all_iff word_less_def uint_pos)
  moreover have "nv_compatible ?c v" using assms(3) by (simp add: nv_compatible_def)
  moreover have "nv_abs ?c = map2 (\<lambda>x y. sem x y mod uint ?q) (nv_abs v) (nv_abs b)"
    using val by (auto simp: nv_abs_def zip_map_map)
  ultimately show ?thesis by (rule that)
qed

lemma vop_total:
  assumes "nv_wf v" "nv_wf b" "nv_compatible v b" "ok (m_modulus v)"
  shows "\<exists>c. vop v b = Inr c \<and> nv_wf c \<and> nv_compatible c v
    \<and> nv_abs c = map2 (\<lambda>x y. sem x y mod uint (m_modulus v)) (nv_abs v) (nv_abs b)"
  by (rule vop_correct [OF assms]) blast

end

lemma NV_update_map2:
  assumes "length (m_data v) = length (m_data b)" "n = length (m_data b)"
    and F: "\<And>i zs. F i zs = zs[i := f (zs ! i) (m_data b ! i)]"
  shows "v\<lparr>m_data := for_range 0 n F (m_data v)\<rparr> = v\<lparr>m_data := map2 f (m_data v) (m_data b)\<rparr>"
proof -
  have "F = (\<lambda>i zs. zs[i := f (zs ! i) (m_data b ! i)])" by (intro ext) (rule F)
  then show ?thesis
    using for_range_update [of "m_data v" "\<lambda>i x. f x (m_data b ! i)"] assms(1,2)
      map_index_as_map2 [of "m_data v" "m_data b" f] by simp
qed

lemma NV_update_map:
  assumes "n = length (m_data v)" and F: "\<And>i zs. F i zs = zs[i := f (zs ! i)]"
  shows "v\<lparr>m_data := for_range 0 n F (m_data v)\<rparr> = v\<lparr>m_data := map f (m_data v)\<rparr>"
proof -
  have "F = (\<lambda>i zs. zs[i := f (zs ! i)])" by (intro ext) (rule F)
  then show ?thesis
    using for_range_update [of "m_data v" "\<lambda>i x. f x"] assms(1) map_index_as_map [of f "m_data v"] by simp
qed

interpretation NV_add: pointwise_op "\<lambda>_. True" NV_ModAdd ModAddFast "(+)"
  by unfold_locales (auto simp: NV_ModAdd_def nv_compatible_def Let_def inplace_eqs
      intro!: NV_update_map2 ModAddFast_value elim: order.trans)

interpretation NV_addEq: pointwise_op "\<lambda>_. True" NV_ModAddEq ModAddFast "(+)"
  by unfold_locales (auto simp: NV_ModAddEq_def nv_compatible_def Let_def inplace_eqs
      intro!: NV_update_map2 ModAddFast_value elim: order.trans)

interpretation NV_sub: pointwise_op "\<lambda>_. True" NV_ModSub ModSubFast "(-)"
  by unfold_locales (auto simp: NV_ModSub_def nv_compatible_def Let_def inplace_eqs
      intro!: NV_update_map2 ModSubFast_value elim: order.trans)

interpretation NV_subEq: pointwise_op "\<lambda>_. True" NV_ModSubEq ModSubFast "(-)"
  by unfold_locales (auto simp: NV_ModSubEq_def nv_compatible_def Let_def inplace_eqs
      intro!: NV_update_map2 ModSubFast_value elim: order.trans)

interpretation NV_mul: pointwise_op barrett_exact NV_ModMul "\<lambda>x y q. ModMulFast_mu x y q (ComputeMu q)" "(*)"
  by unfold_locales (auto simp: NV_ModMul_def nv_compatible_def Let_def inplace_eqs
      intro!: NV_update_map2 ModMulFast_mu_value)

interpretation NV_mulEq: pointwise_op barrett_exact NV_ModMulEq "\<lambda>x y q. ModMulFast_mu x y q (ComputeMu q)" "(*)"
  by unfold_locales (auto simp: NV_ModMulEq_def nv_compatible_def Let_def inplace_eqs
      intro!: NV_update_map2 ModMulFast_mu_value)

section \<open>Pointwise operations with a scalar\<close>

locale scalar_op =
  fixes vop :: "NativeVector \<Rightarrow> NativeInt \<Rightarrow> NativeVector"
    and sop :: "NativeInt \<Rightarrow> NativeInt \<Rightarrow> NativeInt \<Rightarrow> NativeInt"
    and sem :: "int \<Rightarrow> int \<Rightarrow> int"
  assumes vop_eq: "vop v b = v\<lparr>m_data := map (\<lambda>x. sop x b (m_modulus v)) (m_data v)\<rparr>"
    and sop_value: "q \<noteq> 0 \<Longrightarrow> q \<le> 2 ^ 62 \<Longrightarrow> x < q \<Longrightarrow> uint (sop x b q) = sem (uint x) (uint b) mod uint q"
begin

lemma vop_correct:
  assumes "nv_wf v"
  shows "nv_wf (vop v b)" and "nv_compatible (vop v b) v"
    and "nv_abs (vop v b) = map (\<lambda>x. sem x (uint b) mod uint (m_modulus v)) (nv_abs v)"
proof -
  let ?q = "m_modulus v"
  have q: "?q \<noteq> 0" "?q \<le> 2 ^ 62" using nv_wf_modulus [OF assms] by auto
  have val: "uint (sop x b ?q) = sem (uint x) (uint b) mod uint ?q" if "x \<in> set (m_data v)" for x
    using that assms by (intro sop_value q) (auto simp: nv_wf_def list_all_iff)
  show "nv_wf (vop v b)"
    using assms q val by (auto simp: vop_eq nv_wf_def list_all_iff word_less_def uint_pos)
  show "nv_compatible (vop v b) v" by (simp add: vop_eq nv_compatible_def)
  show "nv_abs (vop v b) = map (\<lambda>x. sem x (uint b) mod uint ?q) (nv_abs v)"
    using val by (simp add: vop_eq nv_abs_def)
qed

end

lemma ModAddFast_scalar_value:
  assumes "q \<noteq> 0" "q \<le> 2 ^ 62" "x < q"
  shows "uint (ModAddFast x (if b > q then Mod b q else b) q) = (uint x + uint b) mod uint q"
proof (cases "b = q")
  case True
  have "unat x + unat q < 2 ^ 64" using assms(2,3) by (simp add: word_le_nat_alt word_less_nat_alt)
  then have "unat (x + q) = unat x + unat q" by (intro unat_add_nowrap) simp
  then have "q \<le> x + q" by (simp add: word_le_nat_alt)
  then show ?thesis using True assms(3) by (simp add: ModAddFast_def Let_def word_less_def)
next
  case False
  then have "(if b > q then Mod b q else b) = (if q \<le> b then b mod q else b)"
    by (auto simp: Mod_def)
  moreover have "q \<le> 2 ^ 63" using assms(2) by (rule order.trans) simp
  ultimately show ?thesis
    using ModAddFast_value [OF _ assms(3) reduce_value(1) [OF assms(1)], of b]
    by (simp only: reduce_value(2) [OF assms(1)] mod_add_right_eq)
qed

lemma ModMulFastConst_scalar_value:
  assumes "q \<noteq> 0" "q \<le> 2 ^ 62"
  shows "uint (let b' = (if b \<ge> q then Mod b q else b)
      in ModMulFastConst x b' q (PrepModMulConst b' q)) = (uint x * uint b) mod uint q"
  unfolding Let_def Mod_def
  by (subst ModMulFastConst_value [OF reduce_value(1) [OF assms(1)] assms(2)])
    (simp only: reduce_value(2) [OF assms(1)] mod_mult_right_eq)

lemma ModExp_uint: "q \<noteq> 0 \<Longrightarrow> uint (ModExp a b q) = uint a ^ nat (uint b) mod uint q"
  using uint_eq_modI [OF ModExp_value] by (simp only: uint_nat of_nat_power nat_int simp_thms)

interpretation NV_add_s: scalar_op NV_ModAdd_s "\<lambda>x b q. ModAddFast x (if b > q then Mod b q else b) q" "(+)"
  by unfold_locales (simp only: NV_ModAdd_s_def Let_def inplace_eqs, intro NV_update_map refl,
      rule ModAddFast_scalar_value)

interpretation NV_addEq_s: scalar_op NV_ModAddEq_s "\<lambda>x b q. ModAddFast x (if b > q then Mod b q else b) q" "(+)"
  by unfold_locales (simp only: NV_ModAddEq_s_def Let_def inplace_eqs, intro NV_update_map refl,
      rule ModAddFast_scalar_value)

interpretation NV_sub_s: scalar_op NV_ModSub_s ModSub "(-)"
  by unfold_locales (auto simp: NV_ModSub_s_def Let_def inplace_eqs intro!: NV_update_map ModSub_value
      elim: order.trans)

interpretation NV_subEq_s: scalar_op NV_ModSubEq_s ModSub "(-)"
  by unfold_locales (auto simp: NV_ModSubEq_s_def Let_def inplace_eqs intro!: NV_update_map ModSub_value
      elim: order.trans)

interpretation NV_mul_s: scalar_op NV_ModMul_s "\<lambda>x b q. let b' = (if b \<ge> q then Mod b q else b)
      in ModMulFastConst x b' q (PrepModMulConst b' q)" "(*)"
proof
  show "uint (let b' = (if b \<ge> q then Mod b q else b) in ModMulFastConst x b' q (PrepModMulConst b' q))
      = uint x * uint b mod uint q" if "q \<noteq> 0" "q \<le> 2 ^ 62" "x < q" for q x b :: NativeInt
    using that(1,2) by (rule ModMulFastConst_scalar_value)
qed (auto simp: NV_ModMul_s_def Let_def inplace_eqs intro!: NV_update_map simp del: if_split)

interpretation NV_mulEq_s: scalar_op NV_ModMulEq_s "\<lambda>x b q. let b' = (if b \<ge> q then Mod b q else b)
      in ModMulFastConst x b' q (PrepModMulConst b' q)" "(*)"
proof
  show "uint (let b' = (if b \<ge> q then Mod b q else b) in ModMulFastConst x b' q (PrepModMulConst b' q))
      = uint x * uint b mod uint q" if "q \<noteq> 0" "q \<le> 2 ^ 62" "x < q" for q x b :: NativeInt
    using that(1,2) by (rule ModMulFastConst_scalar_value)
qed (auto simp: NV_ModMulEq_s_def Let_def inplace_eqs intro!: NV_update_map simp del: if_split)

interpretation NV_exp_s: scalar_op NV_ModExp ModExp "\<lambda>x b. x ^ nat b"
  by unfold_locales (simp only: NV_ModExp_def Let_def inplace_eqs, intro NV_update_map refl, rule ModExp_uint)

interpretation NV_expEq_s: scalar_op NV_ModExpEq ModExp "\<lambda>x b. x ^ nat b"
  by unfold_locales (simp only: NV_ModExpEq_def Let_def inplace_eqs, intro NV_update_map refl, rule ModExp_uint)

section \<open>Change of modulus\<close>

lemma checks_off [simp]: "NATIVEINT_DO_CHECKS = False"
  by (simp add: NATIVEINT_DO_CHECKS_def)

lemma AddEq_Inr [simp]: "AddEq a b = Inr (a + b)"
  by (simp add: AddEq_def AddEqFast_def)

lemma Sub_minus [simp]: "Sub a b = a - b"
  by (simp add: Sub_def SubFast_def)

lemma MulEq_Inr [simp]: "MulEq a b = Inr (a * b)"
  by (simp add: MulEq_def MulEqFast_def)

text \<open>What \<open>SwitchModulus\<close> does to one entry.\<close>

definition switch_entry :: "NativeInt \<Rightarrow> NativeInt \<Rightarrow> NativeInt \<Rightarrow> NativeInt" where
  "switch_entry old new x =
     (if new > old then (if x > RShift old 1 then x + (new - old) else x)
      else ModSub x (if x > RShift old 1 then old - new else 0) new)"

lemma res_map_Inr: "res_map (\<lambda>x. Inr (f x)) xs = Inr (map f xs)"
  by (induction xs) auto

lemma NV_SwitchModulus_eq:
  assumes "GetMSB new \<le> MAX_MODULUS_SIZE"
  shows "NV_SwitchModulus v new =
    Inr \<lparr>m_data = map (switch_entry (m_modulus v) new) (m_data v), m_modulus = new, \<dots> = NativeVector.more v\<rparr>"
proof -
  let ?old = "m_modulus v"
  let ?f = "\<lambda>x. if x > RShift ?old 1 then AddEq x (new - ?old) else Inr x"
  have set: "NV_SetModulus (v\<lparr>m_data := xs\<rparr>) new = Inr \<lparr>m_data = xs, m_modulus = new, \<dots> = NativeVector.more v\<rparr>" for xs
    using assms by (cases v) (simp add: NV_SetModulus_def)
  show ?thesis
  proof (cases "new > ?old")
    case True
    have f: "?f = (\<lambda>x. Inr (switch_entry ?old new x))" using True by (intro ext) (simp add: switch_entry_def)
    have "res_range 0 (length (m_data v)) (\<lambda>i xs. res_bind (?f (xs ! i)) (\<lambda>y. Inr (xs[i := y]))) (m_data v)
        = Inr (map (switch_entry ?old new) (m_data v))"
      by (subst res_range_update) (simp only: res_map_index [of ?f] f res_map_Inr)
    moreover have "(if ?old > new then Sub ?old new else Sub new ?old) = new - ?old"
      using True by auto
    ultimately show ?thesis using True
      by (simp only: NV_SwitchModulus_def Let_def if_True res_bind.simps set)
  next
    case False
    have eq: "(if ?old > new then Sub ?old new else Sub new ?old) = ?old - new"
      using False by (cases "?old = new") auto
    have "for_range 0 (length (m_data v))
        (\<lambda>i xs. xs[i := ModSub (xs ! i) (if xs ! i > RShift ?old 1 then ?old - new else 0) new]) (m_data v)
        = map (switch_entry ?old new) (m_data v)"
      using for_range_update [of "m_data v" "\<lambda>_. switch_entry ?old new"] False
        map_index_as_map [of "switch_entry ?old new" "m_data v"]
      by (simp add: switch_entry_def)
    then show ?thesis using False eq
      by (simp only: NV_SwitchModulus_def Let_def if_False res_bind.simps set)
  qed
qed

lemma switch_entry_value:
  assumes "old \<noteq> 0" "new \<noteq> 0" "old \<le> 2 ^ 63" "new \<le> 2 ^ 63" "x < old"
  shows "uint (switch_entry old new x) = centered old x mod uint new"
proof (cases "new > old")
  case True
  have lt: "uint x < uint old" "uint old < uint new" "uint new \<le> 2 ^ 63"
    using assms True by (simp_all add: word_less_def word_le_def)
  have d: "uint (new - old) = uint new - uint old" using lt by (simp add: uint_sub_if')
  have s: "uint (x + (new - old)) = uint x + (uint new - uint old)"
    using lt by (subst uint_add_lem [THEN iffD1]) (simp_all add: d)
  have "(uint x - uint old) mod uint new = (uint x - uint old + uint new) mod uint new" by simp
  also have "\<dots> = uint x + (uint new - uint old)" using lt uint_ge_0 [of x] by (subst mod_pos_pos_trivial) linarith+
  finally have "(uint x - uint old) mod uint new = uint x + (uint new - uint old)" .
  then show ?thesis
    using lt True by (simp add: switch_entry_def half_gt_iff [simplified] centered_def s)
next
  case False
  have "uint (old - new) = uint old - uint new"
    using False by (simp add: uint_sub_lem [symmetric] word_less_def not_less)
  then have "uint x - uint (old - new) = uint x - uint old + uint new" by linarith
  then have "(uint x - uint (old - new)) mod uint new = (uint x - uint old + uint new) mod uint new"
    by (simp only:)
  also have "\<dots> = (uint x - uint old) mod uint new" by (rule mod_add_self2)
  finally show ?thesis
    using False ModSub_value [OF assms(2,4)]
    by (simp add: switch_entry_def half_gt_iff [simplified] centered_def)
qed

lemma nv_wf_entry: "nv_wf v \<Longrightarrow> x \<in> set (m_data v) \<Longrightarrow> x < m_modulus v"
  by (simp add: nv_wf_def list_all_iff)

lemma switch_entry_correct:
  assumes "nv_wf v" "new \<noteq> 0" "GetMSB new \<le> MAX_MODULUS_SIZE" "x \<in> set (m_data v)"
  shows "uint (switch_entry (m_modulus v) new x) = centered (m_modulus v) x mod uint new"
  using nv_wf_modulus(1) [OF assms(1)] modulus_size_bound(3) [OF assms(3)] nv_wf_entry [OF assms(1,4)] assms(2)
  by (intro switch_entry_value) auto

text \<open>
  C39: switching a well-formed vector to another supported modulus succeeds, keeps it well formed,
  and maps every entry to the residue, modulo the new modulus, of its representative around 0.
\<close>

theorem NV_SwitchModulus_correct:
  assumes "nv_wf v" "new \<noteq> 0" "GetMSB new \<le> MAX_MODULUS_SIZE"
  shows "\<exists>w. NV_SwitchModulus v new = Inr w \<and> nv_wf w \<and> m_modulus w = new
    \<and> nv_abs w = map (\<lambda>x. centered (m_modulus v) x mod uint new) (m_data v)"
  using switch_entry_correct [OF assms] assms(2,3)
  by (auto simp: NV_SwitchModulus_eq [OF assms(3)] nv_wf_def nv_abs_def list_all_iff word_less_def uint_pos)

lemma centered_switch_up:
  assumes "x < old" "old \<le> new" "old \<noteq> 0" "new \<le> 2 ^ 63"
  shows "centered new (switch_entry old new x) mod uint old = uint x"
proof -
  have le: "uint x < uint old" "uint old \<le> uint new" "0 \<le> uint x"
    using assms by (simp_all add: word_less_def word_le_def)
  have v: "uint (switch_entry old new x) = centered old x mod uint new"
    using assms order.trans [OF assms(2,4)] by (intro switch_entry_value) auto
  have "centered old x mod uint new = (if uint x > uint old div 2 then uint x - uint old + uint new else uint x)"
  proof (cases "uint x > uint old div 2")
    case True
    have "(uint x - uint old) mod uint new = (uint x - uint old + uint new) mod uint new" by simp
    also have "\<dots> = uint x - uint old + uint new" using le by (intro mod_pos_pos_trivial) linarith+
    finally show ?thesis using True by (simp add: centered_def)
  next
    case False
    then show ?thesis using le by (simp add: centered_def mod_pos_pos_trivial)
  qed
  then have "centered new (switch_entry old new x) = centered old x"
    using le unfolding centered_def [of new] v by (auto simp: centered_def; linarith?)
  then show ?thesis using le by (simp add: centered_mod)
qed

lemma switch_entry_roundtrip:
  assumes "x < old" "old \<le> new" "old \<noteq> 0" "new \<le> 2 ^ 63"
  shows "switch_entry new old (switch_entry old new x) = x"
proof -
  have o: "old \<le> 2 ^ 63" using assms(2,4) by (rule order.trans)
  have n: "new \<noteq> 0" using assms(2,3) by auto
  have "uint (switch_entry old new x) < uint new"
    using switch_entry_value [OF assms(3) n o assms(4,1)] n by (simp add: uint_pos)
  then have "switch_entry old new x < new" by (simp add: word_less_def)
  from switch_entry_value [OF n assms(3,4) o this] centered_switch_up [OF assms]
  show ?thesis by (simp add: word_uint_eq_iff)
qed

text \<open>
  Switching to a larger modulus and back is the identity.
\<close>

theorem NV_SwitchModulus_roundtrip:
  assumes "nv_wf v" "m_modulus v \<le> new" "GetMSB new \<le> MAX_MODULUS_SIZE"
  shows "\<exists>w. NV_SwitchModulus v new = Inr w \<and> NV_SwitchModulus w (m_modulus v) = Inr v"
proof -
  have "GetMSB (m_modulus v) \<le> MAX_MODULUS_SIZE" using assms(1) by (simp add: nv_wf_def)
  moreover have "switch_entry new (m_modulus v) (switch_entry (m_modulus v) new x) = x" if "x \<in> set (m_data v)" for x
    using nv_wf_modulus [OF assms(1)] modulus_size_bound [OF assms(3)] nv_wf_entry [OF assms(1) that] assms(2)
    by (intro switch_entry_roundtrip) auto
  ultimately show ?thesis
    using assms(3) by (auto simp: NV_SwitchModulus_eq o_def map_idI)
qed

text \<open>
  Addition, subtraction and multiplication of vectors throw exactly when the lengths or the
  moduli differ, in both the value and the in-place form.
\<close>

theorem NV_binary_error:
  "(NV_ModAdd v b = Inl e \<longleftrightarrow> \<not> nv_compatible v b \<and> e = math_error)
   \<and> (NV_ModSub v b = Inl e \<longleftrightarrow> \<not> nv_compatible v b \<and> e = math_error)
   \<and> (NV_ModMul v b = Inl e \<longleftrightarrow> \<not> nv_compatible v b \<and> e = math_error)
   \<and> NV_ModAddEq v b = NV_ModAdd v b \<and> NV_ModSubEq v b = NV_ModSub v b \<and> NV_ModMulEq v b = NV_ModMul v b"
  by (auto simp: NV_add.vop_error NV_sub.vop_error NV_mul.vop_error NV_add.vop_eq NV_addEq.vop_eq
      NV_sub.vop_eq NV_subEq.vop_eq NV_mul.vop_eq NV_mulEq.vop_eq)

text \<open>
  On well-formed compatible vectors the pointwise sum and difference are the residues
  of the sums and differences, and on a modulus that Barrett reduction handles exactly the
  pointwise product is the residue of the products; the results are well formed.
\<close>

theorem NV_binary_correct:
  assumes "nv_wf v" "nv_wf b" "nv_compatible v b" "barrett_exact (m_modulus v)"
  shows "\<exists>s d p. NV_ModAdd v b = Inr s \<and> NV_ModSub v b = Inr d \<and> NV_ModMul v b = Inr p
    \<and> nv_wf s \<and> nv_wf d \<and> nv_wf p
    \<and> nv_abs s = map2 (\<lambda>x y. (x + y) mod uint (m_modulus v)) (nv_abs v) (nv_abs b)
    \<and> nv_abs d = map2 (\<lambda>x y. (x - y) mod uint (m_modulus v)) (nv_abs v) (nv_abs b)
    \<and> nv_abs p = map2 (\<lambda>x y. (x * y) mod uint (m_modulus v)) (nv_abs v) (nv_abs b)"
proof -
  obtain s where "NV_ModAdd v b = Inr s" "nv_wf s"
    "nv_abs s = map2 (\<lambda>x y. (x + y) mod uint (m_modulus v)) (nv_abs v) (nv_abs b)"
    using NV_add.vop_correct [OF assms(1-3) TrueI] by metis
  moreover obtain d where "NV_ModSub v b = Inr d" "nv_wf d"
    "nv_abs d = map2 (\<lambda>x y. (x - y) mod uint (m_modulus v)) (nv_abs v) (nv_abs b)"
    using NV_sub.vop_correct [OF assms(1-3) TrueI] by metis
  moreover obtain p where "NV_ModMul v b = Inr p" "nv_wf p"
    "nv_abs p = map2 (\<lambda>x y. (x * y) mod uint (m_modulus v)) (nv_abs v) (nv_abs b)"
    using NV_mul.vop_correct [OF assms] by metis
  ultimately show ?thesis by blast
qed

text \<open>
  Addition, subtraction, multiplication and exponentiation by any scalar, reduced or not,
  keep a vector well formed and act on every residue.
\<close>

theorem NV_scalar_correct:
  assumes "nv_wf v"
  shows "nv_wf (NV_ModAdd_s v b) \<and> nv_wf (NV_ModSub_s v b) \<and> nv_wf (NV_ModMul_s v b) \<and> nv_wf (NV_ModExp v b)
    \<and> nv_abs (NV_ModAdd_s v b) = map (\<lambda>x. (x + uint b) mod uint (m_modulus v)) (nv_abs v)
    \<and> nv_abs (NV_ModSub_s v b) = map (\<lambda>x. (x - uint b) mod uint (m_modulus v)) (nv_abs v)
    \<and> nv_abs (NV_ModMul_s v b) = map (\<lambda>x. (x * uint b) mod uint (m_modulus v)) (nv_abs v)
    \<and> nv_abs (NV_ModExp v b) = map (\<lambda>x. x ^ unat b mod uint (m_modulus v)) (nv_abs v)"
  using NV_add_s.vop_correct [OF assms, of b] NV_sub_s.vop_correct [OF assms, of b]
    NV_mul_s.vop_correct [OF assms, of b] NV_exp_s.vop_correct [OF assms, of b]
  by simp

text \<open>Concrete vectors on which the hypotheses of the properties hold.\<close>

definition sample_v :: NativeVector where
  "sample_v = \<lparr>m_data = [1, 16, 9], m_modulus = 17\<rparr>"

definition sample_b :: NativeVector where
  "sample_b = \<lparr>m_data = [5, 0, 12], m_modulus = 17\<rparr>"

lemma GetMSB_17: "GetMSB 17 = 5"
  by code_simp

lemma barrett_exact_17: "barrett_exact 17"
  by (simp add: barrett_exact_def barrett_modulus_def GetMSB_17 prime_nat_iff upt_rec)

lemma sample_wf: "nv_wf sample_v" "nv_wf sample_b" "nv_compatible sample_v sample_b"
  by (simp_all add: nv_wf_def sample_v_def sample_b_def nv_compatible_def GetMSB_17 MAX_MODULUS_SIZE_def)

theorem NV_SwitchModulus_correct_witness:
  "\<exists>w. NV_SwitchModulus sample_v 97 = Inr w \<and> nv_abs w = [1, 96, 89]"
proof -
  have "GetMSB 97 \<le> MAX_MODULUS_SIZE" by code_simp
  from NV_SwitchModulus_correct [OF sample_wf(1) _ this] show ?thesis
    by (auto simp: sample_v_def centered_def)
qed

theorem NV_SwitchModulus_roundtrip_witness:
  "\<exists>w. NV_SwitchModulus sample_v 97 = Inr w \<and> NV_SwitchModulus w 17 = Inr sample_v"
proof -
  have "GetMSB 97 \<le> MAX_MODULUS_SIZE" by code_simp
  from NV_SwitchModulus_roundtrip [OF sample_wf(1) _ this] show ?thesis
    by (simp add: sample_v_def)
qed

theorem NV_binary_correct_witness:
  "\<exists>s d p. NV_ModAdd sample_v sample_b = Inr s \<and> NV_ModSub sample_v sample_b = Inr d
    \<and> NV_ModMul sample_v sample_b = Inr p \<and> nv_abs s = [6, 16, 4] \<and> nv_abs d = [13, 16, 14]
    \<and> nv_abs p = [5, 0, 6]"
proof -
  have "barrett_exact (m_modulus sample_v)" using barrett_exact_17 by (simp add: sample_v_def)
  from NV_binary_correct [OF sample_wf this] show ?thesis
    by (auto simp: sample_v_def sample_b_def nv_abs_def)
qed

theorem NV_scalar_correct_witness:
  "nv_abs (NV_ModAdd_s sample_v 17) = [1, 16, 9] \<and> nv_abs (NV_ModMul_s sample_v 20) = [3, 14, 10]"
  using NV_scalar_correct [OF sample_wf(1), of 17] NV_scalar_correct [OF sample_wf(1), of 20]
  by (simp add: sample_v_def nv_abs_def)

section \<open>Reduction by another modulus, parity, rounding\<close>

lemma uint_mod2: "uint x mod 2 = (if Mod x 2 = 1 then 1 else 0)"
proof -
  have "Mod x 2 = 1 \<longleftrightarrow> uint x mod 2 = 1" by (simp add: Mod_def word_uint_eq_iff uint_mod)
  then show ?thesis by auto
qed

lemma ModByTwo_entry:
  assumes "odd (uint q)"
  shows "uint (if x > RShift q 1 then (if Mod x 2 = 1 then 0 else 1) else (if Mod x 2 = 1 then 1 else 0 :: NativeInt))
    = centered q x mod 2"
proof -
  have "(uint x - uint q) mod 2 = 1 - uint x mod 2" using assms by presburger
  then show ?thesis by (simp add: centered_def half_gt_iff [simplified] uint_mod2)
qed

lemma Mod_entry:
  assumes "modulus \<noteq> 0" "modulus \<le> 2 ^ 63"
  shows "uint (if x > RShift q 1 then ModSub x q modulus else Mod x modulus) = centered q x mod uint modulus"
  using ModSub_value [OF assms] by (simp add: centered_def half_gt_iff [simplified] Mod_def uint_mod)

definition mod_entry :: "NativeInt \<Rightarrow> NativeInt \<Rightarrow> NativeInt \<Rightarrow> NativeInt" where
  "mod_entry q modulus x =
     (if modulus = 2
      then (if x > RShift q 1 then (if Mod x 2 = 1 then 0 else 1) else (if Mod x 2 = 1 then 1 else 0))
      else (if x > RShift q 1 then ModSub x q modulus else Mod x modulus))"

lemma mod_entry_value:
  assumes "odd (uint q)" "modulus \<noteq> 0" "modulus \<le> 2 ^ 63"
  shows "uint (mod_entry q modulus x) = centered q x mod uint modulus"
  using ModByTwo_entry [OF assms(1), of x] Mod_entry [OF assms(2,3), of q x] by (simp add: mod_entry_def)

lemma NV_ModByTwoEq_eq: "NV_ModByTwoEq v = v\<lparr>m_data := map (mod_entry (m_modulus v) 2) (m_data v)\<rparr>"
  unfolding NV_ModByTwoEq_def Let_def NV_GetLength_def NV_GetModulus_def
  by (intro NV_update_map refl) (simp add: mod_entry_def)

lemma NV_ModEq_eq: "NV_ModEq v modulus = v\<lparr>m_data := map (mod_entry (m_modulus v) modulus) (m_data v)\<rparr>"
proof (cases "modulus = 2")
  case True
  then show ?thesis by (simp add: NV_ModEq_def NV_ModByTwoEq_eq)
next
  case False
  have "v\<lparr>m_data := for_range 0 (length (m_data v))
      (\<lambda>i xs. if xs ! i > RShift (m_modulus v) 1 then xs[i := ModSubEq (xs ! i) (m_modulus v) modulus]
        else xs[i := ModEq (xs ! i) modulus]) (m_data v)\<rparr> = v\<lparr>m_data := map (mod_entry (m_modulus v) modulus) (m_data v)\<rparr>"
    by (intro NV_update_map refl) (simp add: mod_entry_def False inplace_eqs)
  then show ?thesis unfolding NV_ModEq_def Let_def NV_GetLength_def NV_GetModulus_def using False by simp
qed

lemma NV_Mod_eq:
  assumes "nv_wf v"
  shows "NV_Mod v modulus = Inr \<lparr>m_data = map (mod_entry (m_modulus v) modulus) (m_data v), m_modulus = m_modulus v\<rparr>"
proof (cases "modulus = 2")
  case True
  then show ?thesis by (cases v) (simp add: NV_Mod_def NV_ModByTwo_def NV_ModByTwoEq_eq)
next
  case False
  let ?q = "m_modulus v" and ?n = "length (m_data v)"
  have new: "NV_new ?n ?q = Inr \<lparr>m_data = replicate ?n 0, m_modulus = ?q\<rparr>"
    using assms by (simp add: NV_new_def NV_SetModulus_def NV_empty_def nv_wf_def)
  have "for_range 0 ?n (\<lambda>i xs. if m_data v ! i > RShift ?q 1
        then xs[i := ModSub (m_data v ! i) ?q modulus] else xs[i := Mod (m_data v ! i) modulus]) (replicate ?n 0)
      = for_range 0 ?n (\<lambda>i xs. xs[i := mod_entry ?q modulus (m_data v ! i)]) (replicate ?n 0)"
    by (rule for_range_cong) (simp add: mod_entry_def False)
  also have "\<dots> = map (mod_entry ?q modulus) (m_data v)"
    using for_range_update [of "replicate ?n 0" "\<lambda>i _. mod_entry ?q modulus (m_data v ! i)"]
      map_index_as_map [of "mod_entry ?q modulus" "m_data v"] by simp
  finally show ?thesis
    unfolding NV_Mod_def NV_GetLength_def NV_GetModulus_def new Let_def using False by simp
qed

text \<open>
  Reducing a well-formed vector of odd modulus by another modulus (2 included, which the code
  treats apart) takes every entry to the residue of its representative around 0, and
  the in-place form computes the same entries.
\<close>

theorem NV_Mod_correct:
  assumes "nv_wf v" "odd (uint (m_modulus v))" "modulus \<noteq> 0" "modulus \<le> 2 ^ 63"
  shows "\<exists>w. NV_Mod v modulus = Inr w \<and> m_data w = m_data (NV_ModEq v modulus)
    \<and> nv_abs w = map (\<lambda>x. centered (m_modulus v) x mod uint modulus) (m_data v)"
  using mod_entry_value [OF assms(2-4)] by (simp add: NV_Mod_eq [OF assms(1)] NV_ModEq_eq nv_abs_def)

theorem NV_Mod_correct_witness:
  "\<exists>w. NV_Mod sample_v 2 = Inr w \<and> nv_abs w = [1, 1, 0]"
  using NV_Mod_correct [OF sample_wf(1), of 2] by (auto simp: sample_v_def centered_def)

text \<open>
  With an even modulus the special case for 2 returns the wrong parity: \<open>15\<close> modulo \<open>16\<close>
  stands for \<open>-1\<close>, whose residue modulo 2 is 1, and the code returns 0.
\<close>

theorem NV_ModByTwo_even_modulus:
  "NV_ModByTwo \<lparr>m_data = [15], m_modulus = 16\<rparr> = \<lparr>m_data = [0], m_modulus = 16\<rparr>
   \<and> centered 16 15 mod 2 = 1"
  by (simp add: NV_ModByTwo_def NV_ModByTwoEq_eq mod_entry_def RShift_def Mod_def centered_def drop_bit_Suc)

text \<open>The rounding division the scalar code performs: a half rounds down.\<close>

definition round_half_down :: "nat \<Rightarrow> nat \<Rightarrow> nat" where
  "round_half_down a q = a div q + (if q div 2 < a mod q then 1 else 0)"

lemma DivideAndRound_round:
  assumes "q \<noteq> 0"
  shows "\<exists>r. DivideAndRound a q = Inr r \<and> unat r = round_half_down (unat a) (unat q)"
  using unat_DivideAndRound [OF assms, of a] unfolding round_half_down_def by metis

lemma round_half_down_le: "0 < q \<Longrightarrow> round_half_down a q \<le> a"
proof -
  assume q: "0 < q"
  show ?thesis
  proof (cases "q div 2 < a mod q")
    case True
    then have "0 < a mod q" by simp
    then have "a div q + 1 \<le> a div q * q + a mod q" using q by (intro add_mono) (simp_all add: Suc_leI)
    then show ?thesis using True by (simp add: round_half_down_def)
  next
    case False
    then show ?thesis by (simp add: round_half_down_def)
  qed
qed

definition round_entry :: "NativeInt \<Rightarrow> NativeInt \<Rightarrow> NativeInt \<Rightarrow> NativeInt result" where
  "round_entry modulus q x =
     (if x > RShift modulus 1
      then res_bind (DivideAndRound (modulus - x) q) (\<lambda>r. Inr (modulus - r))
      else DivideAndRound x q)"

lemma round_entry_value:
  assumes "q \<noteq> 0" "x < m"
  shows "\<exists>y. round_entry m q x = Inr y \<and>
    int (unat y) = (if centered m x < 0
      then int (unat m) - int (round_half_down (nat (- centered m x)) (unat q))
      else int (round_half_down (nat (centered m x)) (unat q)))"
proof (cases "x > RShift m 1")
  case True
  have lt: "uint x < uint m" using assms(2) by (simp add: word_less_def)
  have c: "centered m x = uint x - uint m" using True by (simp add: centered_def half_gt_iff [simplified])
  obtain r where r: "DivideAndRound (m - x) q = Inr r" "unat r = round_half_down (unat (m - x)) (unat q)"
    using DivideAndRound_round [OF assms(1)] by blast
  have mx: "unat (m - x) = unat m - unat x" using assms(2) by (intro unat_sub_nowrap) simp
  have "unat r \<le> unat m - unat x"
    unfolding r(2) mx by (rule round_half_down_le) (use assms(1) in \<open>simp add: word_ge_0_nat\<close>)
  then have le: "r \<le> m" by (simp add: word_le_nat_alt)
  have xm: "unat x \<le> unat m" using assms(2) by (simp add: word_less_nat_alt)
  have n: "nat (- centered m x) = unat m - unat x" by (simp only: c minus_diff_eq uint_nat of_nat_diff [OF xm, symmetric] nat_int)
  have "int (unat (m - r)) = int (unat m) - int (unat r)"
    using le by (simp only: unat_sub_nowrap [OF le] of_nat_diff word_le_nat_alt)
  then have "int (unat (m - r)) = int (unat m) - int (round_half_down (nat (- centered m x)) (unat q))"
    by (simp only: r(2) mx n)
  moreover have "centered m x < 0" using lt c by simp
  ultimately show ?thesis
    by (intro exI [of _ "m - r"] conjI) (simp_all only: round_entry_def True r(1) if_True res_bind.simps)
next
  case False
  have c: "centered m x = uint x" using False by (simp add: centered_def half_gt_iff [simplified])
  obtain r where r: "DivideAndRound x q = Inr r" "unat r = round_half_down (unat x) (unat q)"
    using DivideAndRound_round [OF assms(1)] by blast
  have "nat (centered m x) = unat x" "\<not> centered m x < 0" by (simp_all add: c)
  then show ?thesis
    by (intro exI [of _ r] conjI) (simp_all only: round_entry_def False r if_False)
qed

lemma NV_DivideAndRound_eq:
  "NV_DivideAndRound v q = res_bind (res_map (round_entry (m_modulus v) q) (m_data v)) (\<lambda>xs. Inr (v\<lparr>m_data := xs\<rparr>))"
  "NV_DivideAndRoundEq v q = NV_DivideAndRound v q"
proof -
  show "NV_DivideAndRound v q = res_bind (res_map (round_entry (m_modulus v) q) (m_data v)) (\<lambda>xs. Inr (v\<lparr>m_data := xs\<rparr>))"
    unfolding NV_DivideAndRound_def Let_def Sub_minus inplace_eqs round_entry_def [symmetric]
    by (subst res_range_update) (simp only: res_map_index)
  show "NV_DivideAndRoundEq v q = NV_DivideAndRound v q"
    by (simp only: NV_DivideAndRoundEq_def NV_DivideAndRound_def Let_def)
qed

lemma res_map_total:
  "(\<And>x. x \<in> set xs \<Longrightarrow> \<exists>y. f x = Inr y \<and> P x y) \<Longrightarrow> \<exists>ys. res_map f xs = Inr ys \<and> list_all2 P xs ys"
proof (induction xs)
  case (Cons x xs)
  then obtain y where "f x = Inr y" "P x y" by auto
  moreover obtain ys where "res_map f xs = Inr ys" "list_all2 P xs ys" using Cons by auto
  ultimately show ?case by simp
qed simp

definition rounded :: "NativeInt \<Rightarrow> NativeInt \<Rightarrow> NativeInt \<Rightarrow> int" where
  "rounded modulus q x =
     (if centered modulus x < 0
      then int (unat modulus) - int (round_half_down (nat (- centered modulus x)) (unat q))
      else int (round_half_down (nat (centered modulus x)) (unat q)))"

text \<open>
  C0: \<open>DivideAndRound\<close> of a well-formed vector divides the representative of every entry around 0
  by \<open>q\<close>, rounding its magnitude to the nearest integer with halves towards 0, and stores a
  negative quotient \<open>-k\<close> as \<open>modulus - k\<close> (so a negative entry that rounds to 0 is stored as the modulus itself).
\<close>

theorem NV_DivideAndRound_correct:
  assumes "nv_wf v" "q \<noteq> 0"
  shows "\<exists>w. NV_DivideAndRound v q = Inr w \<and> m_modulus w = m_modulus v
    \<and> nv_abs w = map (rounded (m_modulus v) q) (m_data v)"
proof -
  have "\<exists>y. round_entry (m_modulus v) q x = Inr y \<and> rounded (m_modulus v) q x = uint y" if "x \<in> set (m_data v)" for x
    using round_entry_value [OF assms(2) nv_wf_entry [OF assms(1) that]]
    by (auto simp only: rounded_def uint_nat)
  then obtain ys where "res_map (round_entry (m_modulus v) q) (m_data v) = Inr ys"
    "list_all2 (\<lambda>x y. rounded (m_modulus v) q x = uint y) (m_data v) ys"
    using res_map_total [where P = "\<lambda>x y. rounded (m_modulus v) q x = uint y"] by blast
  then show ?thesis
    by (auto simp: NV_DivideAndRound_eq nv_abs_def list_all2_conv_all_nth intro!: nth_equalityI)
qed

theorem NV_DivideAndRound_correct_witness:
  "\<exists>w. NV_DivideAndRound sample_v 4 = Inr w \<and> nv_abs w = [0, 17, 15]"
  using NV_DivideAndRound_correct [OF sample_wf(1), of 4]
  by (auto simp: sample_v_def rounded_def centered_def round_half_down_def)

text \<open>
  The stored value of the previous property is not reduced: the modulus 17 itself appears as
  an entry, so the result is not well formed.
\<close>

theorem NV_DivideAndRound_unreduced:
  "\<exists>w. NV_DivideAndRound \<lparr>m_data = [16], m_modulus = 17\<rparr> 4 = Inr w \<and> m_data w = [17] \<and> \<not> nv_wf w"
proof -
  have "NV_DivideAndRound \<lparr>m_data = [16], m_modulus = 17\<rparr> 4 = Inr \<lparr>m_data = [17], m_modulus = 17\<rparr>" by code_simp
  then show ?thesis by (simp add: nv_wf_def)
qed

text \<open>
  The checked accessor rejects every index beyond the length but lets the length itself
  through to the unchecked access.
\<close>

theorem NV_at_bounds:
  "NV_at v i = (if i < length (m_data v) then Inr (m_data v ! i)
     else if i = length (m_data v) then Inl out_of_bounds else Inl math_error)"
  by (simp add: NV_at_def NV_IndexCheck_def)

text \<open>
  On a vector whose entries are all invertible, \<open>ModInverse\<close> returns a well-formed vector of
  inverses.
\<close>

theorem NV_ModInverse_correct:
  assumes "nv_wf v" "1 < m_modulus v" "list_all (\<lambda>x. coprime (unat x) (unat (m_modulus v))) (m_data v)"
  shows "\<exists>w. NV_ModInverse v = Inr w \<and> nv_wf w \<and>
    list_all2 (\<lambda>x y. (uint x * uint y) mod uint (m_modulus v) = 1) (m_data v) (m_data w)"
proof -
  let ?q = "m_modulus v"
  have "\<exists>ys. res_map (\<lambda>x. ModInverse x ?q) (m_data v) = Inr ys \<and>
      list_all2 (\<lambda>x y. y < ?q \<and> (uint x * uint y) mod uint ?q = 1) (m_data v) ys"
    using nv_wf_modulus(1) [OF assms(1)] assms(2,3)
    by (intro res_map_total ModInverse_value) (auto simp: list_all_iff)
  then obtain ys where ys: "res_map (\<lambda>x. ModInverse x ?q) (m_data v) = Inr ys"
    "list_all2 (\<lambda>x y. y < ?q \<and> (uint x * uint y) mod uint ?q = 1) (m_data v) ys" by blast
  have "NV_ModInverse v = Inr (v\<lparr>m_data := ys\<rparr>)"
    unfolding NV_ModInverse_def Let_def inplace_eqs
    by (subst res_range_update) (simp only: res_map_index [of "\<lambda>x. ModInverse x ?q"] ys res_bind.simps)
  moreover have "list_all (\<lambda>y. y < ?q) ys"
    using ys(2) by (auto simp: list_all_iff list_all2_conv_all_nth in_set_conv_nth)
  ultimately show ?thesis
    using assms(1) ys(2) by (auto simp: nv_wf_def elim: list_all2_mono)
qed

theorem NV_ModInverse_correct_witness:
  "\<exists>w. NV_ModInverse sample_v = Inr w \<and> nv_wf w \<and>
    list_all2 (\<lambda>x y. (uint x * uint y) mod 17 = 1) [1 :: NativeInt, 16, 9] (m_data w)"
proof -
  have "coprime (16 :: nat) 17" "coprime (9 :: nat) 17" by (simp_all add: coprime_iff_gcd_eq_1 gcd_non_0_nat)
  then show ?thesis using NV_ModInverse_correct [OF sample_wf(1)] by (auto simp: sample_v_def)
qed

end
