(* ===== verification/NTT.thy ===== *)
theory NTT
  imports NatVec
begin

text \<open>
  The number theoretic transform of \<open>src/core/include/math/hal/intnat/transformnat-impl.h\<close>:
  \<open>NumberTheoreticTransformNat\<close> (the butterfly loops, with Barrett or with Shoup multiplication)
  and \<open>ChineseRemainderTransformFTTNat\<close> (the transform modulo \<open>x ^ n + 1\<close> with its tables, cached
  per modulus).

  The index variables of the source are \<open>usint\<close>; they stay below the ring dimension, which is
  at most \<open>2 ^ 24\<close> here, so they are natural numbers in the model. \<open>+\<close>, \<open>-\<close> and the comparisons on
  coefficients are the word operations of the unchecked build.
\<close>

section \<open>Butterflies and stages\<close>

text \<open>
  The innermost body of the forward transforms: \<open>mulw\<close> multiplies by the root of the block, which
  is the only point where the Barrett and the Shoup variant differ.
\<close>

definition fwd_butterfly :: "NativeInt \<Rightarrow> (NativeInt \<Rightarrow> NativeInt) \<Rightarrow> nat \<Rightarrow> nat \<Rightarrow> NativeInt list \<Rightarrow> NativeInt list" where
  "fwd_butterfly modulus mulw t indexLo xs =
     (let indexHi = indexLo + t;
          loVal = xs ! indexLo;
          omegaFactor = mulw (xs ! indexHi);
          hiVal = loVal + omegaFactor;
          hiVal = (if hiVal \<ge> modulus then hiVal - modulus else hiVal);
          loVal = (if loVal < omegaFactor then loVal + modulus else loVal);
          loVal = loVal - omegaFactor
      in xs[indexLo := hiVal, indexHi := loVal])"

text \<open>The out-of-place transforms skip the multiplication when the upper value is zero.\<close>

definition fwd_butterfly_z :: "NativeInt \<Rightarrow> (NativeInt \<Rightarrow> NativeInt) \<Rightarrow> nat \<Rightarrow> nat \<Rightarrow> NativeInt list \<Rightarrow> NativeInt list" where
  "fwd_butterfly_z modulus mulw t indexLo xs =
     (let indexHi = indexLo + t;
          loVal = xs ! indexLo;
          omegaFactor = xs ! indexHi
      in if omegaFactor \<noteq> 0 then
           (let omegaFactor = mulw omegaFactor;
                hiVal = loVal + omegaFactor;
                hiVal = (if hiVal \<ge> modulus then hiVal - modulus else hiVal);
                loVal = (if loVal < omegaFactor then loVal + modulus else loVal);
                loVal = loVal - omegaFactor
            in xs[indexLo := hiVal, indexHi := loVal])
         else xs[indexHi := loVal])"

definition inv_butterfly :: "NativeInt \<Rightarrow> (NativeInt \<Rightarrow> NativeInt) \<Rightarrow> nat \<Rightarrow> nat \<Rightarrow> NativeInt list \<Rightarrow> NativeInt list" where
  "inv_butterfly modulus mulw t indexLo xs =
     (let indexHi = indexLo + t;
          hiVal = xs ! indexHi;
          loVal = xs ! indexLo;
          omegaFactor = loVal;
          omegaFactor = (if omegaFactor < hiVal then omegaFactor + modulus else omegaFactor);
          omegaFactor = omegaFactor - hiVal;
          loVal = loVal + hiVal;
          loVal = (if loVal \<ge> modulus then loVal - modulus else loVal);
          omegaFactor = mulw omegaFactor
      in xs[indexLo := loVal, indexHi := omegaFactor])"

text \<open>
  One pass over the vector: block \<open>i\<close> starts at \<open>j1 = i << logt1\<close>, pairs entries at distance \<open>t\<close>
  and uses the root at index \<open>m + i\<close>.
\<close>

definition ntt_stage :: "((NativeInt \<Rightarrow> NativeInt) \<Rightarrow> nat \<Rightarrow> nat \<Rightarrow> NativeInt list \<Rightarrow> NativeInt list)
    \<Rightarrow> (nat \<Rightarrow> NativeInt \<Rightarrow> NativeInt) \<Rightarrow> nat \<Rightarrow> nat \<Rightarrow> nat \<Rightarrow> NativeInt list \<Rightarrow> NativeInt list" where
  "ntt_stage butterfly mulw m t logt1 xs =
     for_range 0 m
       (\<lambda>i xs. let j1 = push_bit logt1 i; j2 = j1 + t; indexOmega = m + i
               in for_range j1 j2 (\<lambda>indexLo. butterfly (mulw indexOmega) t indexLo) xs)
       xs"

text \<open>\<open>for (m = 1; m < n; m <<= 1, t >>= 1, --logt1)\<close>; \<open>m\<close> starts at 1, so it is never 0.\<close>

function fwd_loop :: "((NativeInt \<Rightarrow> NativeInt) \<Rightarrow> nat \<Rightarrow> nat \<Rightarrow> NativeInt list \<Rightarrow> NativeInt list)
    \<Rightarrow> (nat \<Rightarrow> NativeInt \<Rightarrow> NativeInt) \<Rightarrow> nat \<Rightarrow> nat \<Rightarrow> nat \<Rightarrow> nat \<Rightarrow> NativeInt list \<Rightarrow> NativeInt list" where
  "fwd_loop butterfly mulw n m t logt1 xs =
     (if 0 < m \<and> m < n
      then fwd_loop butterfly mulw n (2 * m) (t div 2) (logt1 - 1) (ntt_stage butterfly mulw m t logt1 xs)
      else xs)"
  by pat_completeness auto
termination
  by (relation "measure (\<lambda>(butterfly, mulw, n, m, t, logt1, xs). n - m)") auto

declare fwd_loop.simps [simp del]

text \<open>\<open>for (m = (n >> 1); m >= 1; m >>= 1) { ...; t <<= 1; logt1++; }\<close>\<close>

function inv_loop :: "((NativeInt \<Rightarrow> NativeInt) \<Rightarrow> nat \<Rightarrow> nat \<Rightarrow> NativeInt list \<Rightarrow> NativeInt list)
    \<Rightarrow> (nat \<Rightarrow> NativeInt \<Rightarrow> NativeInt) \<Rightarrow> nat \<Rightarrow> nat \<Rightarrow> nat \<Rightarrow> NativeInt list \<Rightarrow> NativeInt list" where
  "inv_loop butterfly mulw m t logt1 xs =
     (if m \<ge> 1
      then inv_loop butterfly mulw (m div 2) (2 * t) (logt1 + 1) (ntt_stage butterfly mulw m t logt1 xs)
      else xs)"
  by pat_completeness auto
termination
  by (relation "measure (\<lambda>(butterfly, mulw, m, t, logt1, xs). m)") auto

declare inv_loop.simps [simp del]

section \<open>Transforms with given tables\<close>

definition ForwardTransformToBitReverseInPlace :: "NativeVector \<Rightarrow> NativeVector \<Rightarrow> NativeVector" where
  "ForwardTransformToBitReverseInPlace rootOfUnityTable element =
     (let n = NV_GetLength element; modulus = NV_GetModulus element; mu = ComputeMu modulus;
          t = n div 2; logt1 = GetMSB64 (of_nat t)
      in element\<lparr>m_data := fwd_loop (fwd_butterfly modulus)
           (\<lambda>indexOmega x. ModMulFastEq_mu x (m_data rootOfUnityTable ! indexOmega) modulus mu)
           n 1 t logt1 (m_data element)\<rparr>)"

definition ForwardTransformToBitReverse :: "NativeVector \<Rightarrow> NativeVector \<Rightarrow> NativeVector \<Rightarrow> NativeVector result" where
  "ForwardTransformToBitReverse element rootOfUnityTable result =
     (let n = NV_GetLength element
      in if NV_GetLength result \<noteq> n then Inl math_error
         else let modulus = NV_GetModulus element; mu = ComputeMu modulus
              in res_bind (NV_SetModulus result modulus) (\<lambda>result.
                   let xs = for_range 0 n (\<lambda>i xs. xs[i := m_data element ! i]) (m_data result);
                       t = n div 2; logt1 = GetMSB64 (of_nat t)
                   in Inr (result\<lparr>m_data := fwd_loop (fwd_butterfly_z modulus)
                        (\<lambda>indexOmega x. ModMulFastEq_mu x (m_data rootOfUnityTable ! indexOmega) modulus mu)
                        n 1 t logt1 xs\<rparr>)))"

text \<open>The overloads with precomputed Shoup quotients.\<close>

definition ForwardTransformToBitReverseInPlace_pre :: "NativeVector \<Rightarrow> NativeVector \<Rightarrow> NativeVector \<Rightarrow> NativeVector" where
  "ForwardTransformToBitReverseInPlace_pre rootOfUnityTable preconRootOfUnityTable element =
     (let n = NV_GetLength element; modulus = NV_GetModulus element;
          t = n div 2; logt1 = GetMSB64 (of_nat t)
      in element\<lparr>m_data := fwd_loop (fwd_butterfly modulus)
           (\<lambda>indexOmega x. ModMulFastConstEq x (m_data rootOfUnityTable ! indexOmega) modulus
              (m_data preconRootOfUnityTable ! indexOmega))
           n 1 t logt1 (m_data element)\<rparr>)"

definition ForwardTransformToBitReverse_pre :: "NativeVector \<Rightarrow> NativeVector \<Rightarrow> NativeVector \<Rightarrow> NativeVector \<Rightarrow> NativeVector result" where
  "ForwardTransformToBitReverse_pre element rootOfUnityTable preconRootOfUnityTable result =
     (let n = NV_GetLength element
      in if NV_GetLength result \<noteq> n then Inl math_error
         else let modulus = NV_GetModulus element
              in res_bind (NV_SetModulus result modulus) (\<lambda>result.
                   let xs = for_range 0 n (\<lambda>i xs. xs[i := m_data element ! i]) (m_data result);
                       t = n div 2; logt1 = GetMSB64 (of_nat t)
                   in Inr (result\<lparr>m_data := fwd_loop (fwd_butterfly_z modulus)
                        (\<lambda>indexOmega x. ModMulFastConstEq x (m_data rootOfUnityTable ! indexOmega) modulus
                           (m_data preconRootOfUnityTable ! indexOmega))
                        n 1 t logt1 xs\<rparr>)))"

definition InverseTransformFromBitReverseInPlace :: "NativeVector \<Rightarrow> NativeInt \<Rightarrow> NativeVector \<Rightarrow> NativeVector" where
  "InverseTransformFromBitReverseInPlace rootOfUnityInverseTable cycloOrderInv element =
     (let n = NV_GetLength element; modulus = NV_GetModulus element; mu = ComputeMu modulus;
          t = 1; logt1 = 1;
          xs = inv_loop (inv_butterfly modulus)
            (\<lambda>indexOmega x. ModMulFastEq_mu x (m_data rootOfUnityInverseTable ! indexOmega) modulus mu)
            (n div 2) t logt1 (m_data element)
      in element\<lparr>m_data := for_range 0 n (\<lambda>i xs. xs[i := ModMulFastEq_mu (xs ! i) cycloOrderInv modulus mu]) xs\<rparr>)"

definition InverseTransformFromBitReverse :: "NativeVector \<Rightarrow> NativeVector \<Rightarrow> NativeInt \<Rightarrow> NativeVector \<Rightarrow> NativeVector result" where
  "InverseTransformFromBitReverse element rootOfUnityInverseTable cycloOrderInv result =
     (let n = NV_GetLength element
      in if NV_GetLength result \<noteq> n then Inl math_error
         else res_bind (NV_SetModulus result (NV_GetModulus element)) (\<lambda>result.
                let result = result\<lparr>m_data := for_range 0 n (\<lambda>i xs. xs[i := m_data element ! i]) (m_data result)\<rparr>
                in Inr (InverseTransformFromBitReverseInPlace rootOfUnityInverseTable cycloOrderInv result)))"

definition InverseTransformFromBitReverseInPlace_pre :: "NativeVector \<Rightarrow> NativeVector \<Rightarrow> NativeInt \<Rightarrow> NativeInt \<Rightarrow> NativeVector \<Rightarrow> NativeVector" where
  "InverseTransformFromBitReverseInPlace_pre rootOfUnityInverseTable preconRootOfUnityInverseTable cycloOrderInv
       preconCycloOrderInv element =
     (let n = NV_GetLength element; modulus = NV_GetModulus element;
          t = 1; logt1 = 1;
          xs = inv_loop (inv_butterfly modulus)
            (\<lambda>indexOmega x. ModMulFastConstEq x (m_data rootOfUnityInverseTable ! indexOmega) modulus
               (m_data preconRootOfUnityInverseTable ! indexOmega))
            (n div 2) t logt1 (m_data element)
      in element\<lparr>m_data := for_range 0 n
           (\<lambda>i xs. xs[i := ModMulFastConstEq (xs ! i) cycloOrderInv modulus preconCycloOrderInv]) xs\<rparr>)"

definition InverseTransformFromBitReverse_pre :: "NativeVector \<Rightarrow> NativeVector \<Rightarrow> NativeVector \<Rightarrow> NativeInt \<Rightarrow> NativeInt \<Rightarrow> NativeVector \<Rightarrow> NativeVector result" where
  "InverseTransformFromBitReverse_pre element rootOfUnityInverseTable preconRootOfUnityInverseTable cycloOrderInv
       preconCycloOrderInv result =
     (let n = NV_GetLength element
      in if NV_GetLength result \<noteq> n then Inl math_error
         else res_bind (NV_SetModulus result (NV_GetModulus element)) (\<lambda>result.
                let result = result\<lparr>m_data := for_range 0 n (\<lambda>i xs. xs[i := m_data element ! i]) (m_data result)\<rparr>
                in Inr (InverseTransformFromBitReverseInPlace_pre rootOfUnityInverseTable
                     preconRootOfUnityInverseTable cycloOrderInv preconCycloOrderInv result)))"

section \<open>The cyclic transform in natural order\<close>

text \<open>\<open>for (j = 0; j < n; j = j + step)\<close>\<close>

definition for_step :: "nat \<Rightarrow> nat \<Rightarrow> (nat \<Rightarrow> 's \<Rightarrow> 's) \<Rightarrow> 's \<Rightarrow> 's" where
  "for_step n step f s = for_range 0 ((n + step - 1) div step) (\<lambda>k. f (k * step)) s"

definition ForwardTransformIterative :: "NativeVector \<Rightarrow> NativeVector \<Rightarrow> NativeVector \<Rightarrow> NativeVector result" where
  "ForwardTransformIterative element rootOfUnityTable result =
     (let n = NV_GetLength element
      in if NV_GetLength result \<noteq> n then Inl math_error
         else let modulus = NV_GetModulus element; mu = ComputeMu modulus
              in res_bind (NV_SetModulus result modulus) (\<lambda>result.
                   let msb = GetMSB64 (ucast (of_nat n - 1 :: usint))
                   in if list_ex (\<lambda>i. unat (ReverseBits (of_nat i) msb) \<ge> n) [0..<n] then Inl out_of_bounds
                      else let xs = for_range 0 n
                                 (\<lambda>i xs. xs[i := m_data element ! unat (ReverseBits (of_nat i) msb)]) (m_data result);
                               logn = GetMSB64 (ucast (of_nat n - 1 :: usint));
                               xs = for_range 1 (logn + 1)
                                 (\<lambda>logm xs.
                                    let indexes = map (\<lambda>i. push_bit (logn - logm) i) [0..<2 ^ (logm - 1)]
                                    in for_step n (2 ^ logm)
                                         (\<lambda>j. for_range 0 (2 ^ (logm - 1))
                                            (\<lambda>i xs.
                                               let omega = m_data rootOfUnityTable ! (indexes ! i);
                                                   indexEven = j + i;
                                                   indexOdd = indexEven + 2 ^ (logm - 1);
                                                   oddVal = xs ! indexOdd;
                                                   omegaFactor = ModMul_mu omega oddVal modulus mu;
                                                   evenVal = xs ! indexEven;
                                                   oddVal = evenVal;
                                                   oddVal = oddVal + omegaFactor;
                                                   oddVal = (if oddVal \<ge> modulus then oddVal - modulus else oddVal);
                                                   evenVal = (if evenVal < omegaFactor then evenVal + modulus else evenVal);
                                                   evenVal = evenVal - omegaFactor
                                               in xs[indexEven := oddVal, indexOdd := evenVal]))
                                         xs)
                                 xs
                           in Inr (result\<lparr>m_data := xs\<rparr>)))"

definition InverseTransformIterative :: "NativeVector \<Rightarrow> NativeVector \<Rightarrow> NativeVector \<Rightarrow> NativeVector result" where
  "InverseTransformIterative element rootOfUnityInverseTable result =
     (let n = NV_GetLength element; modulus = NV_GetModulus element; mu = ComputeMu modulus
      in res_bind (ForwardTransformIterative element rootOfUnityInverseTable result) (\<lambda>result.
         res_bind (ModInverse (of_nat n) modulus) (\<lambda>cycloOrderInv.
         Inr (result\<lparr>m_data := for_range 0 n
           (\<lambda>i xs. xs[i := ModMulEq_mu (xs ! i) cycloOrderInv modulus mu]) (m_data result)\<rparr>))))"

section \<open>The transform modulo a power-of-two cyclotomic polynomial\<close>

text \<open>The static tables of \<open>ChineseRemainderTransformFTTNat\<close>, all keyed by the modulus.\<close>

record FTTTables =
  m_cycloOrderInverseTableByModulus :: "NativeInt \<rightharpoonup> NativeVector"
  m_cycloOrderInversePreconTableByModulus :: "NativeInt \<rightharpoonup> NativeVector"
  m_rootOfUnityReverseTableByModulus :: "NativeInt \<rightharpoonup> NativeVector"
  m_rootOfUnityInverseReverseTableByModulus :: "NativeInt \<rightharpoonup> NativeVector"
  m_rootOfUnityPreconReverseTableByModulus :: "NativeInt \<rightharpoonup> NativeVector"
  m_rootOfUnityInversePreconReverseTableByModulus :: "NativeInt \<rightharpoonup> NativeVector"

definition FTT_empty :: FTTTables where
  "FTT_empty = \<lparr>m_cycloOrderInverseTableByModulus = Map.empty,
     m_cycloOrderInversePreconTableByModulus = Map.empty,
     m_rootOfUnityReverseTableByModulus = Map.empty,
     m_rootOfUnityInverseReverseTableByModulus = Map.empty,
     m_rootOfUnityPreconReverseTableByModulus = Map.empty,
     m_rootOfUnityInversePreconReverseTableByModulus = Map.empty\<rparr>"

definition FTT_Reset :: "FTTTables \<Rightarrow> FTTTables" where
  "FTT_Reset T = T\<lparr>m_cycloOrderInverseTableByModulus := Map.empty,
     m_cycloOrderInversePreconTableByModulus := Map.empty,
     m_rootOfUnityReverseTableByModulus := Map.empty,
     m_rootOfUnityInverseReverseTableByModulus := Map.empty,
     m_rootOfUnityPreconReverseTableByModulus := Map.empty,
     m_rootOfUnityInversePreconReverseTableByModulus := Map.empty\<rparr>"

text \<open>\<open>map::operator[]\<close>, which yields an empty vector for a missing key.\<close>

definition table_at :: "(NativeInt \<rightharpoonup> NativeVector) \<Rightarrow> NativeInt \<Rightarrow> NativeVector" where
  "table_at M k = (case M k of None \<Rightarrow> NV_empty | Some v \<Rightarrow> v)"

text \<open>The guard that decides whether the tables of a modulus have to be (re)computed.\<close>

definition FTT_missing :: "FTTTables \<Rightarrow> NativeInt \<Rightarrow> nat \<Rightarrow> bool" where
  "FTT_missing T modulus CycloOrderHf =
     (case m_rootOfUnityReverseTableByModulus T modulus of
        None \<Rightarrow> True
      | Some v \<Rightarrow> NV_GetLength v \<noteq> CycloOrderHf)"

text \<open>The loop that fills the two root tables in bit-reversed order.\<close>

definition FTT_root_loop :: "NativeInt \<Rightarrow> NativeInt \<Rightarrow> NativeInt \<Rightarrow> nat \<Rightarrow> nat \<Rightarrow>
    NativeInt \<times> NativeInt \<times> NativeInt list \<times> NativeInt list \<Rightarrow>
    (NativeInt \<times> NativeInt \<times> NativeInt list \<times> NativeInt list) result" where
  "FTT_root_loop rootOfUnity rootOfUnityInverse modulus CycloOrderHf msb st =
     (let mu = ComputeMu modulus
      in res_range 0 CycloOrderHf
           (\<lambda>i (x, xinv, Table, TableI).
              let iinv = unat (ReverseBits (of_nat i) msb)
              in if iinv \<ge> CycloOrderHf then Inl out_of_bounds
                 else Inr (ModMulEq_mu x rootOfUnity modulus mu, ModMulEq_mu xinv rootOfUnityInverse modulus mu,
                           Table[iinv := x], TableI[iinv := xinv]))
           st)"

definition FTT_PreCompute :: "NativeInt \<Rightarrow> usint \<Rightarrow> NativeInt \<Rightarrow> FTTTables \<Rightarrow> FTTTables result" where
  "FTT_PreCompute rootOfUnity CycloOrder modulus T =
     (let CycloOrderHf = unat (drop_bit 1 CycloOrder)
      in if FTT_missing T modulus CycloOrderHf then
           (let x = 1; xinv = 1; msb = GetMSB64 (ucast (of_nat CycloOrderHf - 1 :: usint))
            in res_bind (NV_new CycloOrderHf modulus) (\<lambda>Table.
               res_bind (NV_new CycloOrderHf modulus) (\<lambda>TableI.
               res_bind (ModInverse rootOfUnity modulus) (\<lambda>rootOfUnityInverse.
               res_bind (FTT_root_loop rootOfUnity rootOfUnityInverse modulus CycloOrderHf msb
                           (x, xinv, m_data Table, m_data TableI)) (\<lambda>(x, xinv, tab, tabI).
               let Table = Table\<lparr>m_data := tab\<rparr>; TableI = TableI\<lparr>m_data := tabI\<rparr>;
                   T = T\<lparr>m_rootOfUnityReverseTableByModulus := (m_rootOfUnityReverseTableByModulus T)(modulus \<mapsto> Table),
                         m_rootOfUnityInverseReverseTableByModulus :=
                           (m_rootOfUnityInverseReverseTableByModulus T)(modulus \<mapsto> TableI)\<rparr>
               in res_bind (NV_new (msb + 1) modulus) (\<lambda>TableCOI.
                  res_bind (res_range 0 (msb + 1)
                    (\<lambda>i xs. res_bind (ModInverse (push_bit i 1) modulus) (\<lambda>coInv. Inr (xs[i := coInv])))
                    (m_data TableCOI)) (\<lambda>coi.
                  let TableCOI = TableCOI\<lparr>m_data := coi\<rparr>;
                      T = T\<lparr>m_cycloOrderInverseTableByModulus :=
                              (m_cycloOrderInverseTableByModulus T)(modulus \<mapsto> TableCOI)\<rparr>;
                      nativeModulus = modulus
                  in res_bind (NV_new CycloOrderHf nativeModulus) (\<lambda>preconTable.
                     res_bind (NV_new CycloOrderHf nativeModulus) (\<lambda>preconTableI.
                     let preconTable = preconTable\<lparr>m_data := for_range 0 CycloOrderHf
                           (\<lambda>i xs. xs[i := PrepModMulConst
                              (m_data (table_at (m_rootOfUnityReverseTableByModulus T) modulus) ! i) nativeModulus])
                           (m_data preconTable)\<rparr>;
                         preconTableI = preconTableI\<lparr>m_data := for_range 0 CycloOrderHf
                           (\<lambda>i xs. xs[i := PrepModMulConst
                              (m_data (table_at (m_rootOfUnityInverseReverseTableByModulus T) modulus) ! i) nativeModulus])
                           (m_data preconTableI)\<rparr>
                     in res_bind (NV_new (msb + 1) nativeModulus) (\<lambda>preconTableCOI.
                        let preconTableCOI = preconTableCOI\<lparr>m_data := for_range 0 (msb + 1)
                              (\<lambda>i xs. xs[i := PrepModMulConst
                                 (m_data (table_at (m_cycloOrderInverseTableByModulus T) modulus) ! i) nativeModulus])
                              (m_data preconTableCOI)\<rparr>
                        in Inr (T\<lparr>m_rootOfUnityPreconReverseTableByModulus :=
                                    (m_rootOfUnityPreconReverseTableByModulus T)(modulus \<mapsto> preconTable),
                                  m_rootOfUnityInversePreconReverseTableByModulus :=
                                    (m_rootOfUnityInversePreconReverseTableByModulus T)(modulus \<mapsto> preconTableI),
                                  m_cycloOrderInversePreconTableByModulus :=
                                    (m_cycloOrderInversePreconTableByModulus T)(modulus \<mapsto> preconTableCOI)\<rparr>)))))))))))
         else Inr T)"

definition FTT_PreCompute_chain :: "NativeInt list \<Rightarrow> usint \<Rightarrow> NativeInt list \<Rightarrow> FTTTables \<Rightarrow> FTTTables result" where
  "FTT_PreCompute_chain rootOfUnity CycloOrder moduliiChain T =
     (let numOfRootU = length rootOfUnity; numModulii = length moduliiChain
      in if numOfRootU \<noteq> numModulii then Inl math_error
         else res_range 0 numOfRootU
                (\<lambda>i T. let currentRoot = rootOfUnity ! i; currentMod = moduliiChain ! i
                       in FTT_PreCompute currentRoot CycloOrder currentMod T) T)"

definition FTT_ForwardTransformToBitReverseInPlace :: "NativeInt \<Rightarrow> usint \<Rightarrow> NativeVector \<Rightarrow> FTTTables \<Rightarrow> (NativeVector \<times> FTTTables) result" where
  "FTT_ForwardTransformToBitReverseInPlace rootOfUnity CycloOrder element T =
     (if rootOfUnity = 1 \<or> rootOfUnity = 0 then Inr (element, T)
      else if \<not> IsPowerOfTwo CycloOrder then Inl math_error
      else let CycloOrderHf = unat (drop_bit 1 CycloOrder)
           in if NV_GetLength element \<noteq> CycloOrderHf then Inl math_error
              else let modulus = NV_GetModulus element
                   in res_bind (if FTT_missing T modulus CycloOrderHf
                                then FTT_PreCompute rootOfUnity CycloOrder modulus T else Inr T) (\<lambda>T.
                      Inr (ForwardTransformToBitReverseInPlace_pre
                             (table_at (m_rootOfUnityReverseTableByModulus T) modulus)
                             (table_at (m_rootOfUnityPreconReverseTableByModulus T) modulus) element, T)))"

definition FTT_ForwardTransformToBitReverse :: "NativeVector \<Rightarrow> NativeInt \<Rightarrow> usint \<Rightarrow> NativeVector \<Rightarrow> FTTTables \<Rightarrow> (NativeVector \<times> FTTTables) result" where
  "FTT_ForwardTransformToBitReverse element rootOfUnity CycloOrder result T =
     (if rootOfUnity = 1 \<or> rootOfUnity = 0 then Inr (NV_assign result element, T)
      else if \<not> IsPowerOfTwo CycloOrder then Inl math_error
      else let CycloOrderHf = unat (drop_bit 1 CycloOrder)
           in if NV_GetLength result \<noteq> CycloOrderHf then Inl math_error
              else let modulus = NV_GetModulus element
                   in res_bind (if FTT_missing T modulus CycloOrderHf
                                then FTT_PreCompute rootOfUnity CycloOrder modulus T else Inr T) (\<lambda>T.
                      res_bind (ForwardTransformToBitReverse_pre element
                             (table_at (m_rootOfUnityReverseTableByModulus T) modulus)
                             (table_at (m_rootOfUnityPreconReverseTableByModulus T) modulus) result) (\<lambda>result.
                      Inr (result, T))))"

definition FTT_InverseTransformFromBitReverseInPlace :: "NativeInt \<Rightarrow> usint \<Rightarrow> NativeVector \<Rightarrow> FTTTables \<Rightarrow> (NativeVector \<times> FTTTables) result" where
  "FTT_InverseTransformFromBitReverseInPlace rootOfUnity CycloOrder element T =
     (if rootOfUnity = 1 \<or> rootOfUnity = 0 then Inr (element, T)
      else if \<not> IsPowerOfTwo CycloOrder then Inl math_error
      else let CycloOrderHf = unat (drop_bit 1 CycloOrder)
           in if NV_GetLength element \<noteq> CycloOrderHf then Inl math_error
              else let modulus = NV_GetModulus element
                   in res_bind (if FTT_missing T modulus CycloOrderHf
                                then FTT_PreCompute rootOfUnity CycloOrder modulus T else Inr T) (\<lambda>T.
                      let msb = GetMSB64 (ucast (of_nat CycloOrderHf - 1 :: usint))
                      in Inr (InverseTransformFromBitReverseInPlace_pre
                             (table_at (m_rootOfUnityInverseReverseTableByModulus T) modulus)
                             (table_at (m_rootOfUnityInversePreconReverseTableByModulus T) modulus)
                             (m_data (table_at (m_cycloOrderInverseTableByModulus T) modulus) ! msb)
                             (m_data (table_at (m_cycloOrderInversePreconTableByModulus T) modulus) ! msb) element, T)))"

text \<open>
  The copy \<open>(*result)[i] = element[i]\<close> runs over the length of \<open>element\<close>, which the code
  does not compare with the length of \<open>result\<close>.
\<close>

definition FTT_InverseTransformFromBitReverse :: "NativeVector \<Rightarrow> NativeInt \<Rightarrow> usint \<Rightarrow> NativeVector \<Rightarrow> FTTTables \<Rightarrow> (NativeVector \<times> FTTTables) result" where
  "FTT_InverseTransformFromBitReverse element rootOfUnity CycloOrder result T =
     (if rootOfUnity = 1 \<or> rootOfUnity = 0 then Inr (NV_assign result element, T)
      else if \<not> IsPowerOfTwo CycloOrder then Inl math_error
      else let CycloOrderHf = unat (drop_bit 1 CycloOrder)
           in if NV_GetLength result \<noteq> CycloOrderHf then Inl math_error
              else let modulus = NV_GetModulus element
                   in res_bind (if FTT_missing T modulus CycloOrderHf
                                then FTT_PreCompute rootOfUnity CycloOrder modulus T else Inr T) (\<lambda>T.
                      let n = NV_GetLength element
                      in res_bind (NV_SetModulus result (NV_GetModulus element)) (\<lambda>result.
                         if n > NV_GetLength result then Inl out_of_bounds
                         else let result = result\<lparr>m_data := for_range 0 n (\<lambda>i xs. xs[i := m_data element ! i]) (m_data result)\<rparr>;
                                  msb = GetMSB64 (ucast (of_nat CycloOrderHf - 1 :: usint))
                              in Inr (InverseTransformFromBitReverseInPlace_pre
                                (table_at (m_rootOfUnityInverseReverseTableByModulus T) modulus)
                                (table_at (m_rootOfUnityInversePreconReverseTableByModulus T) modulus)
                                (m_data (table_at (m_cycloOrderInverseTableByModulus T) modulus) ! msb)
                                (m_data (table_at (m_cycloOrderInversePreconTableByModulus T) modulus) ! msb) result, T))))"

section \<open>Passes over disjoint pairs\<close>

text \<open>A fold whose steps update disjoint pairs of entries acts on every pair independently.\<close>

lemma fold_pairs:
  fixes lo hi :: "'p \<Rightarrow> nat" and g :: "'p \<Rightarrow> 'a list \<Rightarrow> 'a list" and F G :: "'p \<Rightarrow> 'a \<Rightarrow> 'a \<Rightarrow> 'a"
  assumes g: "\<And>p xs. lo p < length xs \<Longrightarrow> hi p < length xs \<Longrightarrow>
      g p xs = xs[lo p := F p (xs ! lo p) (xs ! hi p), hi p := G p (xs ! lo p) (xs ! hi p)]"
    and "distinct ps"
    and "\<And>p. p \<in> set ps \<Longrightarrow> lo p \<noteq> hi p \<and> lo p < n \<and> hi p < n"
    and "\<And>p p'. p \<in> set ps \<Longrightarrow> p' \<in> set ps \<Longrightarrow> p \<noteq> p' \<Longrightarrow> {lo p, hi p} \<inter> {lo p', hi p'} = {}"
    and "length xs = n"
  shows "length (fold g ps xs) = n
    \<and> (\<forall>p\<in>set ps. fold g ps xs ! lo p = F p (xs ! lo p) (xs ! hi p) \<and> fold g ps xs ! hi p = G p (xs ! lo p) (xs ! hi p))
    \<and> (\<forall>j. (\<forall>p\<in>set ps. j \<noteq> lo p \<and> j \<noteq> hi p) \<longrightarrow> fold g ps xs ! j = xs ! j)"
  using assms(2-5)
proof (induction ps arbitrary: xs)
  case Nil
  then show ?case by simp
next
  case (Cons p ps)
  let ?ys = "xs[lo p := F p (xs ! lo p) (xs ! hi p), hi p := G p (xs ! lo p) (xs ! hi p)]"
  have p: "lo p \<noteq> hi p" "lo p < n" "hi p < n" using Cons.prems(2) by auto
  have gp: "g p xs = ?ys" using p Cons.prems(4) by (intro g) auto
  have IH: "length (fold g ps ?ys) = n
    \<and> (\<forall>p\<in>set ps. fold g ps ?ys ! lo p = F p (?ys ! lo p) (?ys ! hi p) \<and> fold g ps ?ys ! hi p = G p (?ys ! lo p) (?ys ! hi p))
    \<and> (\<forall>j. (\<forall>p\<in>set ps. j \<noteq> lo p \<and> j \<noteq> hi p) \<longrightarrow> fold g ps ?ys ! j = ?ys ! j)"
    using Cons.prems by (intro Cons.IH) auto
  have dis: "{lo p, hi p} \<inter> {lo p', hi p'} = {}" if "p' \<in> set ps" for p'
    using Cons.prems(1) that by (intro Cons.prems(3)) auto
  have rest: "?ys ! lo p' = xs ! lo p' \<and> ?ys ! hi p' = xs ! hi p'" if "p' \<in> set ps" for p'
    using dis [OF that] by auto
  have new: "?ys ! lo p = F p (xs ! lo p) (xs ! hi p)" "?ys ! hi p = G p (xs ! lo p) (xs ! hi p)"
    using p Cons.prems(4) by auto
  have out: "fold g ps ?ys ! lo p = ?ys ! lo p" "fold g ps ?ys ! hi p = ?ys ! hi p"
    using IH dis by blast+
  show ?case
    unfolding fold_simps(2) gp using IH rest new out by (auto simp: nth_list_update)
qed

lemma block_div_mod:
  assumes "(r :: nat) < t"
  shows "(i * (2 * t) + r) div (2 * t) = i" "(i * (2 * t) + r) mod (2 * t) = r"
    "(i * (2 * t) + r + t) div (2 * t) = i" "(i * (2 * t) + r + t) mod (2 * t) = r + t"
proof -
  show "(i * (2 * t) + r) div (2 * t) = i" "(i * (2 * t) + r) mod (2 * t) = r" using assms by simp_all
  have "r + t < 2 * t" using assms by simp
  then have "(i * (2 * t) + (r + t)) div (2 * t) = i" "(i * (2 * t) + (r + t)) mod (2 * t) = r + t"
    using assms by simp_all
  then show "(i * (2 * t) + r + t) div (2 * t) = i" "(i * (2 * t) + r + t) mod (2 * t) = r + t"
    by (simp_all only: add.assoc)
qed

lemma block_bound:
  assumes "i < m" "(r :: nat) < t"
  shows "i * (2 * t) + r + t < 2 * m * t"
proof -
  have "i * (2 * t) + r + t < (i + 1) * (2 * t)" using assms(2) by simp
  also have "\<dots> \<le> m * (2 * t)" using assms(1) by (intro mult_le_mono) auto
  finally show ?thesis by (simp add: ac_simps)
qed

lemma fold_nested:
  "for_range 0 m (\<lambda>i. for_range (b i) (b i + t) (g i)) s
    = fold (\<lambda>(i, lo). g i lo) (concat (map (\<lambda>i. map (Pair i) [b i..<b i + t]) [0..<m])) s"
proof -
  have inner: "fold (\<lambda>(i, lo). g i lo) (map (Pair i) los) = fold (g i) los" for i los
    by (simp add: fold_map o_def)
  have "fold (\<lambda>(i, lo). g i lo) (concat (map (\<lambda>i. map (Pair i) [b i..<b i + t]) is)) s
      = fold (\<lambda>i. for_range (b i) (b i + t) (g i)) is s" for "is"
    by (induction "is" arbitrary: s) (simp_all add: inner for_range_def)
  then show ?thesis by (simp add: for_range_def)
qed

text \<open>One pass, entry by entry.\<close>

lemma ntt_stage_nth:
  assumes len: "length xs = 2 * m * t" and t: "0 < t" and log: "2 ^ logt1 = 2 * t"
    and B: "\<And>mw lo xs. lo + t < length xs \<Longrightarrow>
      B mw t lo xs = xs[lo := F mw (xs ! lo) (xs ! (lo + t)), lo + t := G mw (xs ! lo) (xs ! (lo + t))]"
  shows "length (ntt_stage B mulw m t logt1 xs) = length xs"
    and "i < m \<Longrightarrow> r < t \<Longrightarrow> ntt_stage B mulw m t logt1 xs ! (i * (2 * t) + r)
      = F (mulw (m + i)) (xs ! (i * (2 * t) + r)) (xs ! (i * (2 * t) + r + t))"
    and "i < m \<Longrightarrow> r < t \<Longrightarrow> ntt_stage B mulw m t logt1 xs ! (i * (2 * t) + r + t)
      = G (mulw (m + i)) (xs ! (i * (2 * t) + r)) (xs ! (i * (2 * t) + r + t))"
proof -
  let ?b = "\<lambda>i. i * (2 * t)"
  let ?ps = "concat (map (\<lambda>i. map (Pair i) [?b i..<?b i + t]) [0..<m])"
  let ?g = "\<lambda>p. B (mulw (m + fst p)) t (snd p)"
  have st: "ntt_stage B mulw m t logt1 xs = fold ?g ?ps xs"
    by (simp add: ntt_stage_def Let_def push_bit_eq_mult log fold_nested case_prod_beta' del: upt_Suc)
  have mem: "p \<in> set ?ps \<longleftrightarrow> (\<exists>i<m. \<exists>r<t. p = (i, ?b i + r))" for p
    by (auto simp: image_iff) (metis add_diff_inverse_nat add_less_cancel_left not_le)+
  have heads: "i = i'" if "map (Pair i) [?b i..<?b i + t] = map (Pair i') [?b i'..<?b i' + t]" for i i'
    using arg_cong [OF that, of "\<lambda>zs. fst (hd zs)"] t by (simp add: hd_map)
  have dist: "distinct ?ps"
    by (rule distinct_concat) (auto simp: distinct_map inj_on_def dest: heads)
  have bound: "snd p \<noteq> snd p + t \<and> snd p < length xs \<and> snd p + t < length xs" if p: "p \<in> set ?ps" for p
  proof -
    obtain i r where "i < m" "r < t" "p = (i, ?b i + r)" using p [unfolded mem] by blast
    with block_bound [OF this(1,2)] t len show ?thesis by simp
  qed
  have disj: "{snd p, snd p + t} \<inter> {snd p', snd p' + t} = {}" if p: "p \<in> set ?ps" "p' \<in> set ?ps" "p \<noteq> p'" for p p'
  proof -
    obtain i r i' r' where ir: "p = (i, ?b i + r)" "r < t" "p' = (i', ?b i' + r')" "r' < t"
      using p(1,2) [unfolded mem] by blast
    show ?thesis
    proof (rule ccontr)
      assume "\<not> ?thesis"
      then consider "snd p = snd p'" | "snd p = snd p' + t" | "snd p + t = snd p'" | "snd p + t = snd p' + t" by auto
      then show False
      proof cases
        case 1
        then show ?thesis using p(3) ir block_div_mod [OF ir(2), of i] block_div_mod [OF ir(4), of i'] by auto
      next
        case 2
        then show ?thesis using ir block_div_mod(2) [OF ir(2), of i] block_div_mod(4) [OF ir(4), of i'] by auto
      next
        case 3
        then show ?thesis using ir block_div_mod(4) [OF ir(2), of i] block_div_mod(2) [OF ir(4), of i'] by auto
      next
        case 4
        then show ?thesis using p(3) ir block_div_mod [OF ir(2), of i] block_div_mod [OF ir(4), of i'] by auto
      qed
    qed
  qed
  have fp: "length (fold ?g ?ps xs) = length xs
    \<and> (\<forall>p\<in>set ?ps. fold ?g ?ps xs ! snd p = F (mulw (m + fst p)) (xs ! snd p) (xs ! (snd p + t))
        \<and> fold ?g ?ps xs ! (snd p + t) = G (mulw (m + fst p)) (xs ! snd p) (xs ! (snd p + t)))
    \<and> (\<forall>j. (\<forall>p\<in>set ?ps. j \<noteq> snd p \<and> j \<noteq> snd p + t) \<longrightarrow> fold ?g ?ps xs ! j = xs ! j)"
    by (rule fold_pairs [where lo = snd and hi = "\<lambda>p. snd p + t" and g = ?g
          and F = "\<lambda>p. F (mulw (m + fst p))" and G = "\<lambda>p. G (mulw (m + fst p))"])
      (rule B, assumption, rule dist, erule bound, rule disj, assumption+, rule refl)
  show "length (ntt_stage B mulw m t logt1 xs) = length xs" unfolding st by (rule conjunct1 [OF fp])
  assume "i < m" "r < t"
  then have "(i, ?b i + r) \<in> set ?ps" unfolding mem by blast
  note pr = bspec [OF conjunct1 [OF conjunct2 [OF fp]], OF this]
  show "ntt_stage B mulw m t logt1 xs ! (?b i + r) = F (mulw (m + i)) (xs ! (?b i + r)) (xs ! (?b i + r + t))"
    "ntt_stage B mulw m t logt1 xs ! (?b i + r + t) = G (mulw (m + i)) (xs ! (?b i + r)) (xs ! (?b i + r + t))"
    unfolding st using pr by (simp_all only: fst_conv snd_conv)
qed

lemma index_cases:
  assumes "j < 2 * m * t" "0 < (t :: nat)"
  obtains i r where "i < m" "r < t" "j = i * (2 * t) + r" | i r where "i < m" "r < t" "j = i * (2 * t) + r + t"
proof -
  let ?i = "j div (2 * t)" and ?r = "j mod (2 * t)"
  have j: "j = ?i * (2 * t) + ?r" by (simp only: div_mult_mod_eq)
  have i: "?i < m" using assms by (simp add: less_mult_imp_div_less mult.commute mult.left_commute)
  have r: "?r < 2 * t" using assms(2) by simp
  show thesis
  proof (cases "?r < t")
    case True
    from that(1) [OF i True j] show thesis .
  next
    case False
    have "j = ?i * (2 * t) + (?r - t) + t" using j False by linarith
    from that(2) [OF i _ this] show thesis using r False by linarith
  qed
qed

lemma butterfly_arith:
  "(if a < w then a + q else a) - w = ModSubFast a w q" "(if a + w \<ge> q then a + w - q else a + w) = ModAddFast a w q"
  by (auto simp: ModSubFast_def ModAddFast_def Let_def not_less algebra_simps)

lemma butterfly_eqs:
  assumes "k + t < length xs"
  shows "fwd_butterfly q mw t k xs = xs[k := ModAddFast (xs ! k) (mw (xs ! (k + t))) q,
      k + t := ModSubFast (xs ! k) (mw (xs ! (k + t))) q]"
    and "fwd_butterfly_z q mw t k xs =
      xs[k := (if xs ! (k + t) = 0 then xs ! k else ModAddFast (xs ! k) (mw (xs ! (k + t))) q),
         k + t := (if xs ! (k + t) = 0 then xs ! k else ModSubFast (xs ! k) (mw (xs ! (k + t))) q)]"
    and "inv_butterfly q mw t k xs = xs[k := ModAddFast (xs ! k) (xs ! (k + t)) q,
      k + t := mw (ModSubFast (xs ! k) (xs ! (k + t)) q)]"
  using assms unfolding fwd_butterfly_def fwd_butterfly_z_def inv_butterfly_def Let_def butterfly_arith
  by (simp_all add: list_update_id)

section \<open>Passes on residues\<close>

definition reduced :: "NativeInt \<Rightarrow> NativeInt list \<Rightarrow> bool" where
  "reduced q xs \<longleftrightarrow> list_all (\<lambda>x. x < q) xs"

lemma reduced_nth: "reduced q xs \<Longrightarrow> j < length xs \<Longrightarrow> xs ! j < q"
  by (simp add: reduced_def list_all_length)

text \<open>
  What the transforms need of the multiplication by a table entry: \<open>ok\<close> says which moduli and
  tables it supports. The Barrett and the Shoup form both provide it.
\<close>

locale twiddle =
  fixes ok :: "NativeInt \<Rightarrow> NativeInt list \<Rightarrow> bool"
    and mul :: "NativeInt \<Rightarrow> NativeInt list \<Rightarrow> nat \<Rightarrow> NativeInt \<Rightarrow> NativeInt"
  assumes ok_modulus: "ok q tab \<Longrightarrow> q \<noteq> 0 \<and> q \<le> 2 ^ 62"
    and mul_value: "ok q tab \<Longrightarrow> i < length tab \<Longrightarrow> x < q \<Longrightarrow>
      uint (mul q tab i x) = (uint x * uint (tab ! i)) mod uint q"
begin

lemma modulus: "ok q tab \<Longrightarrow> q \<noteq> 0" "ok q tab \<Longrightarrow> q \<le> 2 ^ 63" "ok q tab \<Longrightarrow> 0 < uint q"
  using ok_modulus [of q tab] uint_pos by (auto elim: order.trans)

lemma mul_lt: "ok q tab \<Longrightarrow> i < length tab \<Longrightarrow> x < q \<Longrightarrow> mul q tab i x < q"
  by (simp add: word_less_def mul_value modulus)

lemma pair_values:
  assumes "ok q tab" "a < q" "b < q"
  shows "uint (ModAddFast a b q) = (uint a + uint b) mod uint q" "uint (ModSubFast a b q) = (uint a - uint b) mod uint q"
    "ModAddFast a b q < q" "ModSubFast a b q < q"
proof -
  have q: "q \<le> 2 ^ 63" using modulus(2) [OF assms(1)] .
  show "uint (ModAddFast a b q) = (uint a + uint b) mod uint q" "uint (ModSubFast a b q) = (uint a - uint b) mod uint q"
    using ModAddFast_value [OF q assms(2,3)] ModSubFast_value [OF q assms(2,3)] by auto
  then show "ModAddFast a b q < q" "ModSubFast a b q < q" using modulus(3) [OF assms(1)] by (simp_all add: word_less_def)
qed

lemma fwd_stage:
  assumes ok: "ok q tab" and len: "length xs = 2 * m * t" and t: "0 < t" "2 ^ l = 2 * t"
    and red: "reduced q xs" and tab: "2 * m \<le> length tab"
  defines "ys \<equiv> ntt_stage (fwd_butterfly q) (mul q tab) m t l xs"
  shows "length ys = length xs" and "reduced q ys"
    and "i < m \<Longrightarrow> r < t \<Longrightarrow> rcong (uint q) (uint (ys ! (i * (2 * t) + r)))
      (uint (xs ! (i * (2 * t) + r)) + uint (tab ! (m + i)) * uint (xs ! (i * (2 * t) + r + t)))"
    and "i < m \<Longrightarrow> r < t \<Longrightarrow> rcong (uint q) (uint (ys ! (i * (2 * t) + r + t)))
      (uint (xs ! (i * (2 * t) + r)) - uint (tab ! (m + i)) * uint (xs ! (i * (2 * t) + r + t)))"
proof -
  note st = ntt_stage_nth [where B = "fwd_butterfly q" and mulw = "mul q tab", OF len t butterfly_eqs(1), folded ys_def]
  show l: "length ys = length xs" using st(1) by blast
  have lt: "xs ! (i * (2 * t) + r) < q" "xs ! (i * (2 * t) + r + t) < q"
    "mul q tab (m + i) (xs ! (i * (2 * t) + r + t)) < q"
    "uint (mul q tab (m + i) (xs ! (i * (2 * t) + r + t))) = uint (xs ! (i * (2 * t) + r + t)) * uint (tab ! (m + i)) mod uint q"
    if "i < m" "r < t" for i r
    using reduced_nth [OF red] block_bound [OF that] that tab ok by (auto simp: len intro!: mul_lt mul_value)
  show "rcong (uint q) (uint (ys ! (i * (2 * t) + r)))
      (uint (xs ! (i * (2 * t) + r)) + uint (tab ! (m + i)) * uint (xs ! (i * (2 * t) + r + t)))"
    if "i < m" "r < t" for i r
    using st(2) [OF _ that] lt [OF that] pair_values(1) [OF ok]
    by (simp add: rcong_def mod_simps mult.commute)
  show "rcong (uint q) (uint (ys ! (i * (2 * t) + r + t)))
      (uint (xs ! (i * (2 * t) + r)) - uint (tab ! (m + i)) * uint (xs ! (i * (2 * t) + r + t)))"
    if "i < m" "r < t" for i r
    using st(3) [OF _ that] lt [OF that] pair_values(2) [OF ok]
    by (simp add: rcong_def mod_simps mult.commute)
  have "ys ! j < q" if j: "j < length xs" for j
    using j [unfolded len] t(1)
  proof (rule index_cases)
    fix i r assume "i < m" "r < t" "j = i * (2 * t) + r"
    then show ?thesis using st(2) lt pair_values(3) [OF ok] by simp
  next
    fix i r assume "i < m" "r < t" "j = i * (2 * t) + r + t"
    then show ?thesis using st(3) lt pair_values(4) [OF ok] by simp
  qed
  then show "reduced q ys" using l by (simp add: reduced_def list_all_length)
qed

end

context twiddle
begin

lemma inv_stage:
  assumes ok: "ok q tab" and len: "length xs = 2 * m * t" and t: "0 < t" "2 ^ l = 2 * t"
    and red: "reduced q xs" and tab: "2 * m \<le> length tab"
  defines "ys \<equiv> ntt_stage (inv_butterfly q) (mul q tab) m t l xs"
  shows "length ys = length xs" and "reduced q ys"
    and "i < m \<Longrightarrow> r < t \<Longrightarrow> rcong (uint q) (uint (ys ! (i * (2 * t) + r)))
      (uint (xs ! (i * (2 * t) + r)) + uint (xs ! (i * (2 * t) + r + t)))"
    and "i < m \<Longrightarrow> r < t \<Longrightarrow> rcong (uint q) (uint (ys ! (i * (2 * t) + r + t)))
      ((uint (xs ! (i * (2 * t) + r)) - uint (xs ! (i * (2 * t) + r + t))) * uint (tab ! (m + i)))"
proof -
  note st = ntt_stage_nth [where B = "inv_butterfly q" and mulw = "mul q tab", OF len t butterfly_eqs(3), folded ys_def]
  show l: "length ys = length xs" using st(1) by blast
  have lt: "xs ! (i * (2 * t) + r) < q" "xs ! (i * (2 * t) + r + t) < q" "m + i < length tab"
    if "i < m" "r < t" for i r
    using reduced_nth [OF red] block_bound [OF that] that tab by (auto simp: len)
  show "rcong (uint q) (uint (ys ! (i * (2 * t) + r)))
      (uint (xs ! (i * (2 * t) + r)) + uint (xs ! (i * (2 * t) + r + t)))"
    if "i < m" "r < t" for i r
    using st(2) [OF _ that] lt [OF that] pair_values(1) [OF ok] by (simp add: rcong_def)
  show "rcong (uint q) (uint (ys ! (i * (2 * t) + r + t)))
      ((uint (xs ! (i * (2 * t) + r)) - uint (xs ! (i * (2 * t) + r + t))) * uint (tab ! (m + i)))"
    if "i < m" "r < t" for i r
    using st(3) [OF _ that] lt [OF that] pair_values(2,4) [OF ok] mul_value [OF ok]
    by (simp add: rcong_def mod_simps)
  have "ys ! j < q" if j: "j < length xs" for j
    using j [unfolded len] t(1)
  proof (rule index_cases)
    fix i r assume "i < m" "r < t" "j = i * (2 * t) + r"
    then show ?thesis using st(2) lt pair_values(3) [OF ok] by simp
  next
    fix i r assume "i < m" "r < t" "j = i * (2 * t) + r + t"
    then show ?thesis using st(3) lt pair_values(4) [OF ok] mul_lt [OF ok] by simp
  qed
  then show "reduced q ys" using l by (simp add: reduced_def list_all_length)
qed

text \<open>A forward pass followed by the inverse pass of the same block structure doubles every entry.\<close>

lemma inv_fwd_stage:
  assumes ok: "ok q tab" "ok q itab" and len: "length xs = 2 * m * t" and t: "0 < t" "2 ^ l = 2 * t"
    and red: "reduced q xs" "reduced q zs" and tab: "2 * m \<le> length tab" "2 * m \<le> length itab"
    and inv: "\<And>i. i < m \<Longrightarrow> rcong (uint q) (uint (tab ! (m + i)) * uint (itab ! (m + i))) 1"
    and zs: "length zs = length xs"
      "\<And>j. j < length xs \<Longrightarrow> rcong (uint q) (uint (zs ! j)) (c * uint (ntt_stage (fwd_butterfly q) (mul q tab) m t l xs ! j))"
  shows "j < length xs \<Longrightarrow> rcong (uint q) (uint (ntt_stage (inv_butterfly q) (mul q itab) m t l zs ! j)) (2 * c * uint (xs ! j))"
proof -
  let ?Q = "uint q"
  note f = fwd_stage [OF ok(1) len t red(1) tab(1)]
  note v = inv_stage [OF ok(2) zs(1) [unfolded len] t red(2) tab(2)]
  have pair: "rcong ?Q (uint (ntt_stage (inv_butterfly q) (mul q itab) m t l zs ! (i * (2 * t) + r))) (2 * c * uint (xs ! (i * (2 * t) + r)))
    \<and> rcong ?Q (uint (ntt_stage (inv_butterfly q) (mul q itab) m t l zs ! (i * (2 * t) + r + t))) (2 * c * uint (xs ! (i * (2 * t) + r + t)))"
    if ir: "i < m" "r < t" for i r
  proof
    define a b where ab: "a = uint (xs ! (i * (2 * t) + r))" "b = uint (xs ! (i * (2 * t) + r + t))"
    define w w' where w: "w = uint (tab ! (m + i))" "w' = uint (itab ! (m + i))"
    define za zb where z: "za = uint (zs ! (i * (2 * t) + r))" "zb = uint (zs ! (i * (2 * t) + r + t))"
    have lt: "i * (2 * t) + r < length xs" "i * (2 * t) + r + t < length xs" using block_bound [OF ir] len by simp_all
    have za: "rcong ?Q za (c * (a + w * b))" and zb: "rcong ?Q zb (c * (a - w * b))"
      unfolding z ab w
      using rcong_trans [OF zs(2) [OF lt(1)] rcong_mult [OF rcong_refl f(3) [OF ir]]]
        rcong_trans [OF zs(2) [OF lt(2)] rcong_mult [OF rcong_refl f(4) [OF ir]]] by auto
    have "rcong ?Q (za + zb) (c * (a + w * b) + c * (a - w * b))" using za zb by (rule rcong_add)
    also have "c * (a + w * b) + c * (a - w * b) = 2 * c * a" by (simp add: algebra_simps)
    finally have lo: "rcong ?Q (za + zb) (2 * c * a)" .
    have "rcong ?Q ((za - zb) * w') ((c * (a + w * b) - c * (a - w * b)) * w')"
      using za zb by (intro rcong_mult rcong_diff) auto
    also have "(c * (a + w * b) - c * (a - w * b)) * w' = 2 * c * b * (w * w')" by (simp add: algebra_simps)
    also have "rcong ?Q \<dots> (2 * c * b * 1)" using inv [OF ir(1)] unfolding w by (intro rcong_mult) auto
    finally have hi: "rcong ?Q ((za - zb) * w') (2 * c * b)" by simp
    show "rcong ?Q (uint (ntt_stage (inv_butterfly q) (mul q itab) m t l zs ! (i * (2 * t) + r))) (2 * c * uint (xs ! (i * (2 * t) + r)))"
      using rcong_trans [OF v(3) [OF ir] lo [unfolded z]] by (simp only: ab)
    show "rcong ?Q (uint (ntt_stage (inv_butterfly q) (mul q itab) m t l zs ! (i * (2 * t) + r + t))) (2 * c * uint (xs ! (i * (2 * t) + r + t)))"
      using rcong_trans [OF v(4) [OF ir] hi [unfolded z w]] by (simp only: ab)
  qed
  assume "j < length xs"
  then have "j < 2 * m * t" by (simp only: len)
  then show ?thesis using t(1) by (rule index_cases) (use pair in blast)+
qed

end

section \<open>Loops as sequences of passes\<close>

lemma fwd_loop_fold:
  "k \<le> K \<Longrightarrow> (k < K \<Longrightarrow> t = 2 ^ (K - 1 - k)) \<Longrightarrow> (k < K \<Longrightarrow> l = K - k) \<Longrightarrow>
   fwd_loop B mw (2 ^ K) (2 ^ k) t l xs = fold (\<lambda>j. ntt_stage B mw (2 ^ j) (2 ^ (K - 1 - j)) (K - j)) [k..<K] xs"
proof (induction "K - k" arbitrary: k t l xs)
  case 0
  then show ?case by (subst fwd_loop.simps) simp
next
  case (Suc d)
  then have k: "k < K" by simp
  have half: "t div 2 = 2 ^ (K - 1 - Suc k)" "l - 1 = K - Suc k" if "Suc k < K"
  proof -
    have "K - 1 - k = Suc (K - 1 - Suc k)" using that by simp
    then show "t div 2 = 2 ^ (K - 1 - Suc k)" "l - 1 = K - Suc k" using Suc.prems(2,3) [OF k] by simp_all
  qed
  have "fwd_loop B mw (2 ^ K) (2 ^ k) t l xs = fwd_loop B mw (2 ^ K) (2 ^ Suc k) (t div 2) (l - 1) (ntt_stage B mw (2 ^ k) t l xs)"
    using k by (subst fwd_loop.simps) simp
  also have "\<dots> = fold (\<lambda>j. ntt_stage B mw (2 ^ j) (2 ^ (K - 1 - j)) (K - j)) [Suc k..<K] (ntt_stage B mw (2 ^ k) t l xs)"
    using Suc.hyps(2) k by (intro Suc.hyps(1) half) auto
  finally show ?case using k Suc.prems(2,3) by (simp add: upt_conv_Cons)
qed

lemma inv_loop_fold:
  "k < K \<Longrightarrow> inv_loop B mw (2 ^ k) (2 ^ (K - 1 - k)) (K - k) xs
    = fold (\<lambda>j. ntt_stage B mw (2 ^ j) (2 ^ (K - 1 - j)) (K - j)) (rev [0..<Suc k]) xs"
proof (induction k arbitrary: xs)
  case 0
  then show ?case by (subst inv_loop.simps, subst inv_loop.simps) simp
next
  case (Suc k)
  have e: "2 * 2 ^ (K - 1 - Suc k) = (2 :: nat) ^ (K - 1 - k)" "K - Suc k + 1 = K - k"
    using Suc.prems by (simp_all add: Suc_diff_Suc flip: power_Suc)
  have "inv_loop B mw (2 ^ Suc k) (2 ^ (K - 1 - Suc k)) (K - Suc k) xs
      = inv_loop B mw (2 ^ k) (2 * 2 ^ (K - 1 - Suc k)) (K - Suc k + 1) (ntt_stage B mw (2 ^ Suc k) (2 ^ (K - 1 - Suc k)) (K - Suc k) xs)"
    by (subst inv_loop.simps) simp
  also have "\<dots> = fold (\<lambda>j. ntt_stage B mw (2 ^ j) (2 ^ (K - 1 - j)) (K - j)) (rev [0..<Suc k])
      (ntt_stage B mw (2 ^ Suc k) (2 ^ (K - 1 - Suc k)) (K - Suc k) xs)"
    unfolding e using Suc by simp
  finally show ?case by simp
qed

text \<open>Pass \<open>j\<close> of a transform of length \<open>2 ^ K\<close>.\<close>

definition ntt_pass :: "((NativeInt \<Rightarrow> NativeInt) \<Rightarrow> nat \<Rightarrow> nat \<Rightarrow> NativeInt list \<Rightarrow> NativeInt list)
    \<Rightarrow> (nat \<Rightarrow> NativeInt \<Rightarrow> NativeInt) \<Rightarrow> nat \<Rightarrow> nat \<Rightarrow> NativeInt list \<Rightarrow> NativeInt list" where
  "ntt_pass B mw K j = ntt_stage B mw (2 ^ j) (2 ^ (K - 1 - j)) (K - j)"

text \<open>
  The roots of the factors of \<open>x ^ n + 1\<close> that the passes split off, numbered as in a heap: node 1
  stands for \<open>x ^ n + 1\<close>, and node \<open>i\<close> splits into \<open>2 * i\<close> and \<open>2 * i + 1\<close> with the two square roots
  \<open>tab ! i\<close> and \<open>- tab ! i\<close> of its constant.
\<close>

definition node_root :: "NativeInt list \<Rightarrow> nat \<Rightarrow> int" where
  "node_root tab i = (if i \<le> 1 then - 1 else if even i then uint (tab ! (i div 2)) else - uint (tab ! (i div 2)))"

definition root_tree :: "NativeInt \<Rightarrow> nat \<Rightarrow> NativeInt list \<Rightarrow> bool" where
  "root_tree q n tab \<longleftrightarrow> n \<le> length tab \<and>
     (\<forall>i\<in>{1..<n}. (uint (tab ! i)) ^ 2 mod uint q = node_root tab i mod uint q)"

definition inverse_tables :: "NativeInt \<Rightarrow> nat \<Rightarrow> NativeInt list \<Rightarrow> NativeInt list \<Rightarrow> bool" where
  "inverse_tables q n tab itab \<longleftrightarrow> n \<le> length tab \<and> n \<le> length itab \<and>
     (\<forall>i\<in>{1..<n}. (uint (tab ! i) * uint (itab ! i)) mod uint q = 1 mod uint q)"

lemma pass_dims:
  assumes "j < K"
  shows "2 * 2 ^ j * 2 ^ (K - 1 - j) = (2 :: nat) ^ K" "(2 :: nat) ^ (K - j) = 2 * 2 ^ (K - 1 - j)"
    "2 * 2 ^ j \<le> (2 :: nat) ^ K"
proof -
  have e: "K - j = Suc (K - 1 - j)" "K = Suc j + (K - 1 - j)" using assms by simp_all
  show "(2 :: nat) ^ (K - j) = 2 * 2 ^ (K - 1 - j)" by (simp only: e(1) power_Suc)
  show d: "2 * 2 ^ j * 2 ^ (K - 1 - j) = (2 :: nat) ^ K" by (subst (2) e(2)) (simp only: power_add power_Suc)
  show "2 * 2 ^ j \<le> (2 :: nat) ^ K" unfolding d [symmetric] by simp
qed

lemma sum_split_half:
  fixes f :: "nat \<Rightarrow> int"
  shows "(\<Sum>r<2 * t. f (b + r) * x ^ r) = (\<Sum>r<t. (f (b + r) + x ^ t * f (b + r + t)) * x ^ r)"
proof -
  have "(\<Sum>r<2 * t. f (b + r) * x ^ r) = (\<Sum>r<t. f (b + r) * x ^ r) + (\<Sum>r=t..<t + t. f (b + r) * x ^ r)"
    by (simp add: mult_2 sum.atLeastLessThan_concat flip: atLeast0LessThan)
  also have "(\<Sum>r=t..<t + t. f (b + r) * x ^ r) = (\<Sum>r<t. f (b + r + t) * x ^ (r + t))"
    using sum.shift_bounds_nat_ivl [of "\<lambda>r. f (b + r) * x ^ r" 0 t t] by (simp add: ac_simps flip: atLeast0LessThan)
  also have "(\<Sum>r<t. f (b + r) * x ^ r) + \<dots> = (\<Sum>r<t. (f (b + r) + x ^ t * f (b + r + t)) * x ^ r)"
    by (simp add: sum.distrib [symmetric] algebra_simps power_add)
  finally show ?thesis .
qed

context twiddle
begin

lemma fwd_passes:
  assumes "ok q tab" "length xs = 2 ^ K" "reduced q xs" "2 ^ K \<le> length tab" "k \<le> K"
  shows "length (fold (ntt_pass (fwd_butterfly q) (mul q tab) K) [0..<k] xs) = 2 ^ K
    \<and> reduced q (fold (ntt_pass (fwd_butterfly q) (mul q tab) K) [0..<k] xs)"
  using assms(5)
proof (induction k)
  case 0
  then show ?case using assms by simp
next
  case (Suc k)
  then have k: "k < K" by simp
  let ?A = "fold (ntt_pass (fwd_butterfly q) (mul q tab) K) [0..<k] xs"
  have "length ?A = 2 * 2 ^ k * 2 ^ (K - 1 - k)" "reduced q ?A" using Suc pass_dims(1) [OF k] by simp_all
  with fwd_stage(1,2) [OF assms(1) this(1) _ pass_dims(2) [OF k] this(2)] pass_dims(3) [OF k] assms(4)
  show ?case by (simp add: ntt_pass_def [of _ _ K k] pass_dims(1) [OF k, simplified])
qed

lemma inv_passes:
  assumes ok: "ok q tab" "ok q itab" and len: "length xs = 2 ^ K" and red: "reduced q xs"
    and inv: "inverse_tables q (2 ^ K) tab itab" and "k \<le> K"
    and "length zs = 2 ^ K" "reduced q zs"
    and "\<And>j. j < 2 ^ K \<Longrightarrow> rcong (uint q) (uint (zs ! j))
      (c * uint (fold (ntt_pass (fwd_butterfly q) (mul q tab) K) [0..<k] xs ! j))"
  shows "length (fold (ntt_pass (inv_butterfly q) (mul q itab) K) (rev [0..<k]) zs) = 2 ^ K
    \<and> reduced q (fold (ntt_pass (inv_butterfly q) (mul q itab) K) (rev [0..<k]) zs)
    \<and> (\<forall>j<2 ^ K. rcong (uint q) (uint (fold (ntt_pass (inv_butterfly q) (mul q itab) K) (rev [0..<k]) zs ! j))
        (c * 2 ^ k * uint (xs ! j)))"
  using assms(6-)
proof (induction k arbitrary: zs c)
  case 0
  then show ?case by simp
next
  case (Suc k)
  then have k: "k < K" by simp
  let ?A = "fold (ntt_pass (fwd_butterfly q) (mul q tab) K) [0..<k] xs"
  let ?zs = "ntt_pass (inv_butterfly q) (mul q itab) K k zs"
  have tabs: "2 ^ K \<le> length tab" "2 ^ K \<le> length itab" using inv by (simp_all add: inverse_tables_def)
  have A: "length ?A = 2 * 2 ^ k * 2 ^ (K - 1 - k)" "reduced q ?A"
    using fwd_passes [OF ok(1) len red tabs(1), of k] k pass_dims(1) [OF k] by simp_all
  have t: "0 < (2 :: nat) ^ (K - 1 - k)" by simp
  have small: "2 * 2 ^ k \<le> length tab" "2 * 2 ^ k \<le> length itab"
    using order.trans [OF pass_dims(3) [OF k]] tabs by blast+
  have zlen: "length zs = 2 * 2 ^ k * 2 ^ (K - 1 - k)" using Suc.prems(2) pass_dims(1) [OF k] by simp
  note v = inv_stage(1,2) [OF ok(2) zlen t pass_dims(2) [OF k] Suc.prems(3) small(2)]
  have z': "length ?zs = 2 ^ K" "reduced q ?zs" using v Suc.prems(2) by (simp_all add: ntt_pass_def [of _ _ K k])
  have step: "rcong (uint q) (uint (?zs ! j)) (2 * c * uint (?A ! j))" if j: "j < 2 ^ K" for j
    unfolding ntt_pass_def [of _ _ K k]
  proof (rule inv_fwd_stage [OF ok A(1) t pass_dims(2) [OF k] A(2) Suc.prems(3) small])
    show "rcong (uint q) (uint (tab ! (2 ^ k + i)) * uint (itab ! (2 ^ k + i))) 1" if "i < 2 ^ k" for i
      using inv that pass_dims(3) [OF k] by (simp add: inverse_tables_def rcong_def)
    show "length zs = length ?A" using zlen A(1) by simp
    show "j < length ?A" using j A(1) pass_dims(1) [OF k] by simp
    show "rcong (uint q) (uint (zs ! j))
        (c * uint (ntt_stage (fwd_butterfly q) (mul q tab) (2 ^ k) (2 ^ (K - 1 - k)) (K - k) ?A ! j))" if "j < length ?A" for j
      using Suc.prems(4) [of j] that A(1) pass_dims(1) [OF k] by (simp add: ntt_pass_def [of _ _ K k])
  qed
  from Suc.IH [OF _ z' step] k show ?case by (simp add: ac_simps)
qed

lemma fwd_evaluates:
  assumes ok: "ok q tab" and len: "length xs = 2 ^ K" and red: "reduced q xs"
    and tree: "root_tree q (2 ^ K) tab" and "k \<le> K" "i < 2 ^ k"
    and "rcong (uint q) (x ^ 2 ^ (K - k)) (node_root tab (2 ^ k + i))"
  shows "rcong (uint q)
    (\<Sum>r<2 ^ (K - k). uint (fold (ntt_pass (fwd_butterfly q) (mul q tab) K) [0..<k] xs ! (i * 2 ^ (K - k) + r)) * x ^ r)
    (\<Sum>j<2 ^ K. uint (xs ! j) * x ^ j)"
  using assms(5-)
proof (induction k arbitrary: i)
  case 0
  then show ?case by simp
next
  case (Suc k)
  then have k: "k < K" by simp
  let ?Q = "uint q" and ?A = "fold (ntt_pass (fwd_butterfly q) (mul q tab) K) [0..<k] xs"
  define t where "t = (2 :: nat) ^ (K - 1 - k)"
  define b where "b = i div 2"
  define w where "w = uint (tab ! (2 ^ k + b))"
  have b: "b < 2 ^ k" using Suc.prems(2) by (simp add: b_def)
  have t: "2 ^ (K - Suc k) = t" "2 ^ (K - k) = 2 * t" "2 * 2 ^ k * t = 2 ^ K" "0 < t"
    using pass_dims [OF k] by (simp_all add: t_def)
  have tabs: "2 ^ K \<le> length tab" using tree by (simp add: root_tree_def)
  have A: "length ?A = 2 * 2 ^ k * t" "reduced q ?A"
    using fwd_passes [OF ok len red tabs, of k] k t(3) by simp_all
  have small: "2 * 2 ^ k \<le> length tab" using pass_dims(3) [OF k] tabs by simp
  note f = fwd_stage [OF ok A(1) t(4) t(2) A(2) small]
  define e where "e = (if even i then 1 else - 1 :: int)"
  have node: "node_root tab (2 ^ Suc k + i) = e * w"
  proof -
    have "(2 ^ Suc k + i) div 2 = 2 ^ k + b" by (simp add: b_def)
    moreover have "1 \<le> (2 :: nat) ^ k" by simp
    then have "\<not> 2 ^ Suc k + i \<le> (1 :: nat)" unfolding power_Suc by linarith
    ultimately show ?thesis by (simp add: node_root_def e_def w_def)
  qed
  have xt: "rcong ?Q (x ^ t) (e * w)" using Suc.prems(3) by (simp only: t node)
  have "rcong ?Q (x ^ (2 * t)) ((e * w) ^ 2)"
    using rcong_power [OF xt, of 2] by (simp add: power_mult [symmetric] mult.commute)
  moreover have "(e * w) ^ 2 = w ^ 2" by (simp add: e_def power_mult_distrib)
  moreover have "rcong ?Q (w ^ 2) (node_root tab (2 ^ k + b))"
  proof -
    have "2 ^ k + b \<in> {1..<2 ^ K}" using b pass_dims(3) [OF k] by (simp add: Suc_leI)
    then show ?thesis using tree unfolding root_tree_def rcong_def w_def by blast
  qed
  ultimately have "rcong ?Q (x ^ 2 ^ (K - k)) (node_root tab (2 ^ k + b))"
    unfolding t(2) by (metis rcong_trans)
  from Suc.IH [OF _ b this] k
  have IH: "rcong ?Q (\<Sum>r<2 * t. uint (?A ! (b * (2 * t) + r)) * x ^ r) (\<Sum>j<2 ^ K. uint (xs ! j) * x ^ j)"
    by (simp only: t(2) less_imp_le)
  have pass: "ntt_pass (fwd_butterfly q) (mul q tab) K k ?A = ntt_stage (fwd_butterfly q) (mul q tab) (2 ^ k) t (K - k) ?A"
    by (simp only: ntt_pass_def t_def)
  have entry: "rcong ?Q (uint (ntt_pass (fwd_butterfly q) (mul q tab) K k ?A ! (i * t + r)))
      (uint (?A ! (b * (2 * t) + r)) + e * w * uint (?A ! (b * (2 * t) + r + t)))" if r: "r < t" for r
  proof (cases "even i")
    case True
    then have ix: "i * t = b * (2 * t)" by (auto simp: b_def)
    show ?thesis unfolding pass ix using f(3) [OF b r] True by (simp add: e_def w_def)
  next
    case False
    then have ix: "i * t + r = b * (2 * t) + r + t" by (auto simp: b_def elim!: oddE)
    show ?thesis unfolding pass ix using f(4) [OF b r] False by (simp add: e_def w_def)
  qed
  have "rcong ?Q (\<Sum>r<t. uint (ntt_pass (fwd_butterfly q) (mul q tab) K k ?A ! (i * t + r)) * x ^ r)
      (\<Sum>r<t. (uint (?A ! (b * (2 * t) + r)) + e * w * uint (?A ! (b * (2 * t) + r + t))) * x ^ r)"
    by (intro rcong_sum rcong_mult entry) auto
  also have "rcong ?Q \<dots> (\<Sum>r<t. (uint (?A ! (b * (2 * t) + r)) + x ^ t * uint (?A ! (b * (2 * t) + r + t))) * x ^ r)"
    by (intro rcong_sum rcong_mult rcong_add rcong_sym [OF xt]) auto
  also have "\<dots> = (\<Sum>r<2 * t. uint (?A ! (b * (2 * t) + r)) * x ^ r)"
    by (rule sum_split_half [symmetric])
  also note IH
  finally show ?case by (simp add: t(1))
qed

end

context twiddle
begin

text \<open>Skipping the multiplication of a zero does not change the result on reduced entries.\<close>

lemma fwd_stage_z:
  assumes ok: "ok q tab" and len: "length xs = 2 * m * t" and t: "0 < t" "2 ^ l = 2 * t"
    and red: "reduced q xs" and tab: "2 * m \<le> length tab"
  shows "ntt_stage (fwd_butterfly_z q) (mul q tab) m t l xs = ntt_stage (fwd_butterfly q) (mul q tab) m t l xs"
proof (rule nth_equalityI)
  note z = ntt_stage_nth [where B = "fwd_butterfly_z q" and mulw = "mul q tab", OF len t butterfly_eqs(2)]
  note f = ntt_stage_nth [where B = "fwd_butterfly q" and mulw = "mul q tab", OF len t butterfly_eqs(1)]
  show "length (ntt_stage (fwd_butterfly_z q) (mul q tab) m t l xs) = length (ntt_stage (fwd_butterfly q) (mul q tab) m t l xs)"
    using z(1) f(1) by simp
  have q: "0 < q" using modulus(1) [OF ok] by (simp add: word_gt_0)
  have zero: "mul q tab (m + i) 0 = 0" if "i < m" for i
    using mul_value [OF ok, of "m + i" 0] that tab q by (simp add: word_uint_eq_iff)
  have small: "xs ! (i * (2 * t) + r) < q" if "i < m" "r < t" for i r
    using reduced_nth [OF red] block_bound [OF that] by (simp add: len)
  fix j
  assume "j < length (ntt_stage (fwd_butterfly_z q) (mul q tab) m t l xs)"
  then have "j < 2 * m * t" using z(1) len by simp
  then show "ntt_stage (fwd_butterfly_z q) (mul q tab) m t l xs ! j = ntt_stage (fwd_butterfly q) (mul q tab) m t l xs ! j"
    using t(1)
  proof (rule index_cases)
    fix i r assume ir: "i < m" "r < t" and j: "j = i * (2 * t) + r"
    show ?thesis
      using z(2) [OF _ ir] f(2) [OF _ ir] zero [OF ir(1)] small [OF ir]
      by (simp add: j ModAddFast_def Let_def not_le [symmetric])
  next
    fix i r assume ir: "i < m" "r < t" and j: "j = i * (2 * t) + r + t"
    show ?thesis
      using z(3) [OF _ ir] f(3) [OF _ ir] zero [OF ir(1)] by (simp add: j ModSubFast_def)
  qed
qed

lemma fwd_passes_z:
  assumes "ok q tab" "length xs = 2 ^ K" "reduced q xs" "2 ^ K \<le> length tab" "k \<le> K"
  shows "fold (ntt_pass (fwd_butterfly_z q) (mul q tab) K) [0..<k] xs = fold (ntt_pass (fwd_butterfly q) (mul q tab) K) [0..<k] xs"
  using assms(5)
proof (induction k)
  case 0
  then show ?case by simp
next
  case (Suc k)
  then have k: "k < K" by simp
  let ?A = "fold (ntt_pass (fwd_butterfly q) (mul q tab) K) [0..<k] xs"
  have A: "length ?A = 2 * 2 ^ k * 2 ^ (K - 1 - k)" "reduced q ?A"
    using fwd_passes [OF assms(1-4), of k] k pass_dims(1) [OF k] by simp_all
  have "2 * 2 ^ k \<le> length tab" using pass_dims(3) [OF k] assms(4) by simp
  with fwd_stage_z [OF assms(1) A(1) _ pass_dims(2) [OF k] A(2)] Suc
  show ?case by (simp add: ntt_pass_def [of _ _ K k])
qed

text \<open>The whole forward loop evaluates; the whole inverse loop undoes it up to the factor \<open>n\<close>.\<close>

lemma fwd_correct:
  assumes ok: "ok q tab" and len: "length xs = 2 ^ K" and red: "reduced q xs" and tree: "root_tree q (2 ^ K) tab"
  defines "ys \<equiv> fold (ntt_pass (fwd_butterfly q) (mul q tab) K) [0..<K] xs"
  shows "length ys = 2 ^ K" "reduced q ys"
    and "i < 2 ^ K \<Longrightarrow> uint (ys ! i) = (\<Sum>j<2 ^ K. uint (xs ! j) * node_root tab (2 ^ K + i) ^ j) mod uint q"
proof -
  have tabs: "2 ^ K \<le> length tab" using tree by (simp add: root_tree_def)
  show l: "length ys = 2 ^ K" and r: "reduced q ys" using fwd_passes [OF ok len red tabs, of K] by (simp_all add: ys_def)
  assume i: "i < 2 ^ K"
  have "uint (ys ! i) < uint q" using reduced_nth [OF r, of i] l i by (simp add: word_less_def)
  moreover have "rcong (uint q) (uint (ys ! i)) (\<Sum>j<2 ^ K. uint (xs ! j) * node_root tab (2 ^ K + i) ^ j)"
    using fwd_evaluates [OF ok len red tree order.refl i, of "node_root tab (2 ^ K + i)"] by (simp add: ys_def)
  ultimately show "uint (ys ! i) = (\<Sum>j<2 ^ K. uint (xs ! j) * node_root tab (2 ^ K + i) ^ j) mod uint q"
    by (simp add: rcong_def)
qed

lemma inv_fwd_correct:
  assumes ok: "ok q tab" "ok q itab" "ok q [coi]" and len: "length xs = 2 ^ K" and red: "reduced q xs"
    and inv: "inverse_tables q (2 ^ K) tab itab" and coi: "(2 ^ K * uint coi) mod uint q = 1 mod uint q"
  shows "map (mul q [coi] 0) (fold (ntt_pass (inv_butterfly q) (mul q itab) K) (rev [0..<K])
      (fold (ntt_pass (fwd_butterfly q) (mul q tab) K) [0..<K] xs)) = xs"
proof -
  let ?F = "fold (ntt_pass (fwd_butterfly q) (mul q tab) K) [0..<K] xs"
  let ?I = "fold (ntt_pass (inv_butterfly q) (mul q itab) K) (rev [0..<K]) ?F"
  have tabs: "2 ^ K \<le> length tab" using inv by (simp add: inverse_tables_def)
  have F: "length ?F = 2 ^ K" "reduced q ?F" using fwd_passes [OF ok(1) len red tabs, of K] by simp_all
  have I: "length ?I = 2 ^ K" "reduced q ?I"
    "\<And>j. j < 2 ^ K \<Longrightarrow> rcong (uint q) (uint (?I ! j)) (1 * 2 ^ K * uint (xs ! j))"
    using inv_passes [OF ok(1,2) len red inv order.refl F, of 1] by simp_all
  show ?thesis
  proof (rule nth_equalityI)
    show "length (map (mul q [coi] 0) ?I) = length xs" using I(1) len by simp
    fix j assume "j < length (map (mul q [coi] 0) ?I)"
    then have j: "j < 2 ^ K" using I(1) by simp
    have lt: "?I ! j < q" "xs ! j < q" using reduced_nth [OF I(2)] reduced_nth [OF red] j I(1) len by simp_all
    have "rcong (uint q) (uint (?I ! j) * uint coi) (1 * 2 ^ K * uint (xs ! j) * uint coi)"
      using I(3) [OF j] by (intro rcong_mult) auto
    also have "1 * 2 ^ K * uint (xs ! j) * uint coi = uint (xs ! j) * (2 ^ K * uint coi)" by simp
    also have "rcong (uint q) \<dots> (uint (xs ! j) * 1)" using coi by (intro rcong_mult) (auto simp: rcong_def)
    finally have "rcong (uint q) (uint (mul q [coi] 0 (?I ! j))) (uint (xs ! j))"
      using mul_value [OF ok(3), of 0] lt by simp
    then show "map (mul q [coi] 0) ?I ! j = xs ! j"
      using rcong_word_eq [OF _ mul_lt [OF ok(3)] lt(2)] lt(1) j I(1) by simp
  qed
qed

end

section \<open>The two multiplications\<close>

definition barrett_twiddle :: "NativeInt \<Rightarrow> NativeInt list \<Rightarrow> bool" where
  "barrett_twiddle q tab \<longleftrightarrow> barrett_exact q \<and> reduced q tab"

definition shoup_twiddle :: "NativeInt \<Rightarrow> NativeInt list \<Rightarrow> bool" where
  "shoup_twiddle q tab \<longleftrightarrow> q \<noteq> 0 \<and> q \<le> 2 ^ 62 \<and> reduced q tab"

interpretation barrett: twiddle barrett_twiddle "\<lambda>q tab i x. ModMulFast_mu x (tab ! i) q (ComputeMu q)"
proof
  show "q \<noteq> 0 \<and> q \<le> 2 ^ 62" if "barrett_twiddle q tab" for q tab
    using that barrett_modulus_bounds(1,6) [of q]
    by (simp add: barrett_twiddle_def barrett_exact_def word_le_nat_alt)
qed (simp add: barrett_twiddle_def ModMulFast_mu_value reduced_nth)

interpretation shoup: twiddle shoup_twiddle "\<lambda>q tab i x. ModMulFastConst x (tab ! i) q (PrepModMulConst (tab ! i) q)"
  by unfold_locales (simp_all add: shoup_twiddle_def ModMulFastConst_value reduced_nth)

section \<open>Transforms with given tables: correctness\<close>

lemma GetMSB64_half:
  assumes "K < 64"
  shows "GetMSB64 (of_nat (2 ^ K div 2)) = K"
proof (cases K)
  case 0
  then show ?thesis by (simp add: GetMSB64_def GetMSB_def)
next
  case (Suc k)
  have "(2 :: nat) ^ k < 2 ^ 64" using assms Suc by (intro power_strict_increasing) auto
  then have u: "unat (of_nat (2 ^ k) :: NativeInt) = 2 ^ k" by (rule unat_of_nat_64)
  have "GetMSB (of_nat (2 ^ k)) = Suc k" by (rule GetMSB_eqI) (simp_all only: u, simp_all)
  then show ?thesis using Suc by (simp add: GetMSB64_def)
qed

lemma fwd_start:
  assumes "K < 64"
  shows "fwd_loop B mw (2 ^ K) 1 (2 ^ K div 2) (GetMSB64 (of_nat (2 ^ K div 2))) xs = fold (ntt_pass B mw K) [0..<K] xs"
proof -
  have "2 ^ K div 2 = (2 :: nat) ^ (K - 1 - 0)" if "0 < K" using that by (cases K) simp_all
  then show ?thesis
    using fwd_loop_fold [of 0 K "2 ^ K div 2" K B mw xs]
    by (simp add: GetMSB64_half [OF assms, simplified] ntt_pass_def [abs_def])
qed

lemma inv_start: "inv_loop B mw (2 ^ K div 2) 1 1 xs = fold (ntt_pass B mw K) (rev [0..<K]) xs"
proof (cases K)
  case 0
  then show ?thesis by (subst inv_loop.simps) simp
next
  case (Suc k)
  then show ?thesis
    using inv_loop_fold [of k K B mw xs] by (simp add: ntt_pass_def [abs_def])
qed

lemma ntt_pass_cong:
  assumes "\<And>i. i < 2 ^ K \<Longrightarrow> mw i = mw' i" "j < K"
  shows "ntt_pass B mw K j = ntt_pass B mw' K j"
proof
  fix xs
  have "mw (2 ^ j + i) = mw' (2 ^ j + i)" if "i < 2 ^ j" for i
    using that pass_dims(3) [OF assms(2)] by (intro assms(1)) simp
  then show "ntt_pass B mw K j xs = ntt_pass B mw' K j xs"
    unfolding ntt_pass_def ntt_stage_def Let_def by (intro for_range_cong) simp
qed

lemma ntt_passes_cong:
  assumes "\<And>i. i < 2 ^ K \<Longrightarrow> mw i = mw' i" "\<forall>j\<in>set js. j < K"
  shows "fold (ntt_pass B mw K) js xs = fold (ntt_pass B mw' K) js xs"
  using ntt_pass_cong [OF assms(1)] assms(2) by (intro fold_cong) auto

lemma length_for_range: "(\<And>i ys. length (f i ys) = length ys) \<Longrightarrow> length (for_range a b f xs) = length xs"
proof -
  assume f: "\<And>i ys. length (f i ys) = length ys"
  have "length (fold f is xs) = length xs" for "is" by (induction "is" arbitrary: xs) (simp_all add: f)
  then show ?thesis by (simp add: for_range_def)
qed

lemma length_inv_passes: "length (fold (ntt_pass (inv_butterfly q) mw K) js xs) = length xs"
proof (induction js arbitrary: xs)
  case (Cons j js)
  have "length (ntt_pass (inv_butterfly q) mw K j xs) = length xs"
    by (simp add: ntt_pass_def ntt_stage_def Let_def length_for_range inv_butterfly_def)
  then show ?case using Cons by simp
qed simp

text \<open>Tables of Shoup quotients.\<close>

definition precon_of :: "NativeInt \<Rightarrow> nat \<Rightarrow> NativeInt list \<Rightarrow> NativeInt list \<Rightarrow> bool" where
  "precon_of q n tab pre \<longleftrightarrow> (\<forall>i\<in>{..<n}. pre ! i = PrepModMulConst (tab ! i) q)"

lemma fwd_pre_data:
  assumes "NV_GetLength v = 2 ^ K" "K < 64" "precon_of (m_modulus v) (2 ^ K) (m_data tab) (m_data pre)"
  shows "ForwardTransformToBitReverseInPlace_pre tab pre v = v\<lparr>m_data :=
    fold (ntt_pass (fwd_butterfly (m_modulus v)) (\<lambda>i x. ModMulFastConst x (m_data tab ! i) (m_modulus v)
      (PrepModMulConst (m_data tab ! i) (m_modulus v))) K) [0..<K] (m_data v)\<rparr>"
proof -
  have "fold (ntt_pass (fwd_butterfly (m_modulus v)) (\<lambda>i x. ModMulFastConst x (m_data tab ! i) (m_modulus v) (m_data pre ! i)) K) [0..<K] (m_data v)
      = fold (ntt_pass (fwd_butterfly (m_modulus v)) (\<lambda>i x. ModMulFastConst x (m_data tab ! i) (m_modulus v)
      (PrepModMulConst (m_data tab ! i) (m_modulus v))) K) [0..<K] (m_data v)"
    using assms(3) by (intro ntt_passes_cong) (auto simp: precon_of_def)
  then show ?thesis
    unfolding ForwardTransformToBitReverseInPlace_pre_def Let_def assms(1) fwd_start [OF assms(2)] inplace_eqs NV_GetModulus_def
    by (simp only:)
qed

lemma inv_pre_data:
  assumes "NV_GetLength v = 2 ^ K" "K < 64" "precon_of (m_modulus v) (2 ^ K) (m_data itab) (m_data ipre)"
    and "cpre = PrepModMulConst coi (m_modulus v)"
  shows "InverseTransformFromBitReverseInPlace_pre itab ipre coi cpre v = v\<lparr>m_data :=
    map (\<lambda>x. ModMulFastConst x coi (m_modulus v) (PrepModMulConst coi (m_modulus v)))
      (fold (ntt_pass (inv_butterfly (m_modulus v)) (\<lambda>i x. ModMulFastConst x (m_data itab ! i) (m_modulus v)
      (PrepModMulConst (m_data itab ! i) (m_modulus v))) K) (rev [0..<K]) (m_data v))\<rparr>"
proof -
  let ?q = "m_modulus v"
  let ?I = "fold (ntt_pass (inv_butterfly ?q) (\<lambda>i x. ModMulFastConst x (m_data itab ! i) ?q (PrepModMulConst (m_data itab ! i) ?q)) K) (rev [0..<K]) (m_data v)"
  have I: "fold (ntt_pass (inv_butterfly ?q) (\<lambda>i x. ModMulFastConst x (m_data itab ! i) ?q (m_data ipre ! i)) K) (rev [0..<K]) (m_data v) = ?I"
    using assms(3) by (intro ntt_passes_cong) (auto simp: precon_of_def)
  have "length ?I = 2 ^ K" using assms(1) by (simp add: NV_GetLength_def length_inv_passes)
  then have "for_range 0 (2 ^ K) (\<lambda>i xs. xs[i := ModMulFastConst (xs ! i) coi ?q cpre]) ?I = map (\<lambda>x. ModMulFastConst x coi ?q cpre) ?I"
    using for_range_update [of ?I "\<lambda>_ x. ModMulFastConst x coi ?q cpre"] map_index_as_map [of "\<lambda>x. ModMulFastConst x coi ?q cpre" ?I]
    by (simp only:)
  then show ?thesis
    unfolding InverseTransformFromBitReverseInPlace_pre_def Let_def assms(1) inv_start inplace_eqs NV_GetModulus_def I assms(4)
    by (simp only:)
qed

text \<open>What a pair of tables and a scaling constant must satisfy.\<close>

definition ntt_tables :: "NativeInt \<Rightarrow> nat \<Rightarrow> NativeInt list \<Rightarrow> NativeInt list \<Rightarrow> NativeInt \<Rightarrow> bool" where
  "ntt_tables q n tab itab coi \<longleftrightarrow> reduced q tab \<and> reduced q itab \<and> coi < q \<and> root_tree q n tab
     \<and> inverse_tables q n tab itab \<and> (int n * uint coi) mod uint q = 1 mod uint q"

lemma nv_wf_reduced: "nv_wf v \<Longrightarrow> reduced (m_modulus v) (m_data v)"
  by (simp add: nv_wf_def reduced_def)

lemma shoup_ok:
  assumes "nv_wf v" "ntt_tables (m_modulus v) n tab itab coi"
  shows "shoup_twiddle (m_modulus v) tab" "shoup_twiddle (m_modulus v) itab" "shoup_twiddle (m_modulus v) [coi]"
  using assms nv_wf_modulus [OF assms(1)] by (simp_all add: shoup_twiddle_def ntt_tables_def reduced_def)

lemma ForwardTransformToBitReverseInPlace_pre_evaluates_aux:
  assumes "nv_wf v" "NV_GetLength v = 2 ^ K" "K < 64"
    and "ntt_tables (m_modulus v) (2 ^ K) (m_data tab) itab coi"
    and "precon_of (m_modulus v) (2 ^ K) (m_data tab) (m_data pre)"
  shows "nv_wf (ForwardTransformToBitReverseInPlace_pre tab pre v)
    \<and> nv_abs (ForwardTransformToBitReverseInPlace_pre tab pre v)
      = map (\<lambda>i. (\<Sum>j<2 ^ K. uint (m_data v ! j) * node_root (m_data tab) (2 ^ K + i) ^ j) mod uint (m_modulus v)) [0..<2 ^ K]"
proof -
  have len: "length (m_data v) = 2 ^ K" using assms(2) by (simp add: NV_GetLength_def)
  have tree: "root_tree (m_modulus v) (2 ^ K) (m_data tab)" using assms(4) by (simp add: ntt_tables_def)
  note f = shoup.fwd_correct [OF shoup_ok(1) [OF assms(1,4)] len nv_wf_reduced [OF assms(1)] tree]
  show ?thesis
    unfolding fwd_pre_data [OF assms(2,3,5)] using f assms(1)
    by (auto simp: nv_wf_def nv_abs_def reduced_def intro!: nth_equalityI)
qed

text \<open>
  The forward transform with precomputed quotients evaluates the polynomial of the vector at
  the leaves of the root tree, modulo \<open>q\<close>, and returns a well-formed vector.
\<close>

theorem ForwardTransformToBitReverseInPlace_pre_evaluates:
  assumes "nv_wf v" "NV_GetLength v = 2 ^ K" "K < 64"
    and "ntt_tables (m_modulus v) (2 ^ K) (m_data tab) itab coi"
    and "precon_of (m_modulus v) (2 ^ K) (m_data tab) (m_data pre)"
  shows "nv_wf (ForwardTransformToBitReverseInPlace_pre tab pre v)
    \<and> nv_abs (ForwardTransformToBitReverseInPlace_pre tab pre v)
      = map (\<lambda>i. (\<Sum>j<2 ^ K. uint (m_data v ! j) * node_root (m_data tab) (2 ^ K + i) ^ j) mod uint (m_modulus v)) [0..<2 ^ K]"
  using assms by (rule ForwardTransformToBitReverseInPlace_pre_evaluates_aux)

lemma InverseTransformFromBitReverseInPlace_pre_inverts_aux:
  assumes "nv_wf v" "NV_GetLength v = 2 ^ K" "K < 64"
    and "ntt_tables (m_modulus v) (2 ^ K) (m_data tab) (m_data itab) coi"
    and "precon_of (m_modulus v) (2 ^ K) (m_data tab) (m_data pre)" "precon_of (m_modulus v) (2 ^ K) (m_data itab) (m_data ipre)"
  shows "InverseTransformFromBitReverseInPlace_pre itab ipre coi (PrepModMulConst coi (m_modulus v))
    (ForwardTransformToBitReverseInPlace_pre tab pre v) = v"
proof -
  let ?w = "ForwardTransformToBitReverseInPlace_pre tab pre v"
  have len: "length (m_data v) = 2 ^ K" using assms(2) by (simp add: NV_GetLength_def)
  have tabs: "inverse_tables (m_modulus v) (2 ^ K) (m_data tab) (m_data itab)"
    "(2 ^ K * uint coi) mod uint (m_modulus v) = 1 mod uint (m_modulus v)"
    "2 ^ K \<le> length (m_data tab)"
    using assms(4) by (simp_all add: ntt_tables_def inverse_tables_def)
  note ok = shoup_ok [OF assms(1,4)]
  have w: "NV_GetLength ?w = 2 ^ K" "m_modulus ?w = m_modulus v"
    unfolding fwd_pre_data [OF assms(2,3,5)]
    using shoup.fwd_passes [OF ok(1) len nv_wf_reduced [OF assms(1)] tabs(3), of K] by (simp_all add: NV_GetLength_def)
  show ?thesis
    using shoup.inv_fwd_correct [OF ok len nv_wf_reduced [OF assms(1)] tabs(1,2)]
      inv_pre_data [OF w(1) assms(3), unfolded w(2), OF assms(6) refl, of coi]
    by (simp add: fwd_pre_data [OF assms(2,3,5)])
qed

text \<open>
  C34: the inverse transform with precomputed quotients undoes the forward transform.
\<close>

theorem InverseTransformFromBitReverseInPlace_pre_inverts:
  assumes "nv_wf v" "NV_GetLength v = 2 ^ K" "K < 64"
    and "ntt_tables (m_modulus v) (2 ^ K) (m_data tab) (m_data itab) coi"
    and "precon_of (m_modulus v) (2 ^ K) (m_data tab) (m_data pre)" "precon_of (m_modulus v) (2 ^ K) (m_data itab) (m_data ipre)"
  shows "InverseTransformFromBitReverseInPlace_pre itab ipre coi (PrepModMulConst coi (m_modulus v))
    (ForwardTransformToBitReverseInPlace_pre tab pre v) = v"
  using assms by (rule InverseTransformFromBitReverseInPlace_pre_inverts_aux)

section \<open>Equality of the variants\<close>

lemma copy_loop: "length rs = length xs \<Longrightarrow> for_range 0 (length xs) (\<lambda>i ys. ys[i := xs ! i]) rs = xs"
  using for_range_update [of rs "\<lambda>i _. xs ! i"] by (simp add: map_nth)

lemma SetModulus_wf:
  "nv_wf v \<Longrightarrow> NV_SetModulus r (m_modulus v) = Inr (r\<lparr>m_modulus := m_modulus v\<rparr>)"
  by (simp add: NV_SetModulus_def nv_wf_def)

lemma out_of_place_copy:
  assumes "nv_wf v" "NV_GetLength r = NV_GetLength v"
  shows "for_range 0 (NV_GetLength v) (\<lambda>i xs. xs[i := m_data v ! i]) (m_data (r\<lparr>m_modulus := m_modulus v\<rparr>)) = m_data v"
  using assms copy_loop [of "m_data r" "m_data v"] by (simp add: NV_GetLength_def)

text \<open>
  The four forward transforms, in place or not, with Barrett or with Shoup multiplication,
  compute the same vector; the out-of-place ones throw exactly when the result has another
  length.
\<close>

theorem ForwardTransform_variants_agree:
  assumes "nv_wf v" "NV_GetLength v = 2 ^ K" "K < 64" "barrett_exact (m_modulus v)"
    and "ntt_tables (m_modulus v) (2 ^ K) (m_data tab) itab coi"
    and "precon_of (m_modulus v) (2 ^ K) (m_data tab) (m_data pre)"
  shows "ForwardTransformToBitReverseInPlace tab v = ForwardTransformToBitReverseInPlace_pre tab pre v
    \<and> ForwardTransformToBitReverse v tab r = (if NV_GetLength r = 2 ^ K
        then Inr (ForwardTransformToBitReverseInPlace_pre tab pre v) else Inl math_error)
    \<and> ForwardTransformToBitReverse_pre v tab pre r = (if NV_GetLength r = 2 ^ K
        then Inr (ForwardTransformToBitReverseInPlace_pre tab pre v) else Inl math_error)"
proof -
  let ?q = "m_modulus v" and ?xs = "m_data v"
  let ?mB = "\<lambda>i x. ModMulFast_mu x (m_data tab ! i) ?q (ComputeMu ?q)"
  let ?mS = "\<lambda>i x. ModMulFastConst x (m_data tab ! i) ?q (PrepModMulConst (m_data tab ! i) ?q)"
  have len: "length ?xs = 2 ^ K" using assms(2) by (simp add: NV_GetLength_def)
  have tree: "root_tree ?q (2 ^ K) (m_data tab)" "2 ^ K \<le> length (m_data tab)" and redt: "reduced ?q (m_data tab)"
    using assms(5) by (simp_all add: ntt_tables_def root_tree_def)
  note red = nv_wf_reduced [OF assms(1)] and okS = shoup_ok(1) [OF assms(1,5)]
  have okB: "barrett_twiddle ?q (m_data tab)" using assms(4) redt by (simp add: barrett_twiddle_def)
  note B = barrett.fwd_correct [OF okB len red tree(1)] and S = shoup.fwd_correct [OF okS len red tree(1)]
  have eq: "fold (ntt_pass (fwd_butterfly ?q) ?mB K) [0..<K] ?xs = fold (ntt_pass (fwd_butterfly ?q) ?mS K) [0..<K] ?xs"
    using B S by (intro nth_equalityI) (simp_all add: word_uint_eq_iff)
  have zB: "fold (ntt_pass (fwd_butterfly_z ?q) ?mB K) [0..<K] ?xs = fold (ntt_pass (fwd_butterfly ?q) ?mB K) [0..<K] ?xs"
    by (rule barrett.fwd_passes_z [OF okB len red tree(2) order.refl])
  have zS: "fold (ntt_pass (fwd_butterfly_z ?q) (\<lambda>i x. ModMulFastConst x (m_data tab ! i) ?q (m_data pre ! i)) K) [0..<K] ?xs
      = fold (ntt_pass (fwd_butterfly ?q) ?mS K) [0..<K] ?xs"
    using assms(6) shoup.fwd_passes_z [OF okS len red tree(2) order.refl]
      ntt_passes_cong [of K "\<lambda>i x. ModMulFastConst x (m_data tab ! i) ?q (m_data pre ! i)" ?mS "[0..<K]" "fwd_butterfly_z ?q" ?xs]
    by (simp add: precon_of_def)
  have in_place: "ForwardTransformToBitReverseInPlace tab v = ForwardTransformToBitReverseInPlace_pre tab pre v"
    unfolding fwd_pre_data [OF assms(2,3,6)] eq [symmetric]
    unfolding ForwardTransformToBitReverseInPlace_def Let_def assms(2) fwd_start [OF assms(3)] inplace_eqs NV_GetModulus_def ..
  have out: "ForwardTransformToBitReverse v tab r = Inr (ForwardTransformToBitReverseInPlace_pre tab pre v)
      \<and> ForwardTransformToBitReverse_pre v tab pre r = Inr (ForwardTransformToBitReverseInPlace_pre tab pre v)"
    if r: "NV_GetLength r = 2 ^ K"
  proof -
    note copy = out_of_place_copy [OF assms(1), of r, unfolded assms(2), OF r]
    show ?thesis
      unfolding fwd_pre_data [OF assms(2,3,6)]
      unfolding ForwardTransformToBitReverse_def ForwardTransformToBitReverse_pre_def Let_def assms(2) NV_GetModulus_def
        SetModulus_wf [OF assms(1)] res_bind.simps copy fwd_start [OF assms(3)] inplace_eqs zB zS eq
      using r by (cases v) simp
  qed
  show ?thesis
    using in_place out by (auto simp: ForwardTransformToBitReverse_def ForwardTransformToBitReverse_pre_def assms(2))
qed

section \<open>Bit reversal of indices\<close>

definition brv :: "nat \<Rightarrow> nat \<Rightarrow> nat" where
  "brv K i = unat (ReverseBits (of_nat i) K)"

lemma bit_brv:
  assumes "0 < K" "K \<le> 24" "i < 2 ^ K"
  shows "bit (brv K i) j \<longleftrightarrow> j < K \<and> bit i (K - 1 - j)"
proof -
  have "bit (of_nat i :: usint) (K - 1 - j) \<longleftrightarrow> bit i (K - 1 - j)"
    using assms(2) by (auto simp: bit_of_nat_iff)
  then show ?thesis
    using assms by (auto simp: brv_def bit_unsigned_iff bit_ReverseBits)
qed

lemma nat_lt_of_bits: "(\<And>j. bit (n :: nat) j \<Longrightarrow> j < K) \<Longrightarrow> n < 2 ^ K"
proof -
  assume "\<And>j. bit n j \<Longrightarrow> j < K"
  then have "take_bit K n = n" by (intro bit_eqI) (auto simp: bit_take_bit_iff)
  then show ?thesis by (simp add: take_bit_nat_eq_self_iff)
qed

lemma brv_lt: "0 < K \<Longrightarrow> K \<le> 24 \<Longrightarrow> i < 2 ^ K \<Longrightarrow> brv K i < 2 ^ K"
  by (rule nat_lt_of_bits) (simp add: bit_brv)

lemma bit_imp_lt: "i < 2 ^ K \<Longrightarrow> bit (i :: nat) j \<Longrightarrow> j < K"
  using bit_imp_ge_exp [of i j] by (metis le_less_trans nat_power_less_imp_less pos2)

lemma brv_brv:
  assumes "0 < K" "K \<le> 24" "i < 2 ^ K"
  shows "brv K (brv K i) = i"
proof (rule bit_eqI)
  fix j
  show "bit (brv K (brv K i)) j \<longleftrightarrow> bit i j"
    using bit_brv [OF assms(1,2) brv_lt [OF assms], of j] bit_brv [OF assms, of "K - 1 - j"] bit_imp_lt [OF assms(3), of j]
    by auto
qed

lemma brv_even:
  assumes "0 < K" "K \<le> 24" "2 * i < 2 ^ K"
  shows "2 * brv K (2 * i) = brv K i"
proof (rule bit_eqI)
  fix j
  have i: "i < 2 ^ K" "i < 2 ^ (K - 1)" using assms by (cases K; simp)+
  have z: "\<not> bit i (K - 1)" using bit_imp_lt [OF i(2)] by blast
  show "bit (2 * brv K (2 * i)) j \<longleftrightarrow> bit (brv K i) j"
  proof (cases j)
    case 0
    then show ?thesis using bit_brv [OF assms(1,2) i(1), of 0] z by (simp add: bit_double_iff)
  next
    case (Suc k)
    have "bit (2 * i) (K - 1 - k) \<longleftrightarrow> K - 1 - k \<noteq> 0 \<and> bit i (K - 1 - k - 1)" by (simp add: bit_double_iff)
    then show ?thesis using bit_brv [OF assms, of k] bit_brv [OF assms(1,2) i(1), of j] Suc
      by (auto simp: bit_double_iff)
  qed
qed

lemma brv_odd:
  assumes "0 < K" "K \<le> 24" "2 * i + 1 < 2 ^ K"
  shows "brv K (2 * i + 1) = brv K (2 * i) + 2 ^ (K - 1)"
proof -
  have i: "2 * i < 2 ^ K" using assms(3) by simp
  have b: "bit (2 * i + 1) j \<longleftrightarrow> j = 0 \<or> bit (2 * i) j" for j
    by (cases j) (simp_all add: bit_0 bit_Suc)
  have "brv K (2 * i) + 2 ^ (K - 1) = brv K (2 * i) OR 2 ^ (K - 1)"
  proof (rule disjunctive_add_eq_or, rule bit_eqI)
    fix j
    have "\<not> bit (brv K (2 * i)) (K - 1)" using bit_brv [OF assms(1,2) i, of "K - 1"] by (simp add: bit_0)
    then show "bit (brv K (2 * i) AND 2 ^ (K - 1)) j \<longleftrightarrow> bit (0 :: nat) j" by (auto simp: bit_and_iff bit_exp_iff)
  qed
  moreover have "brv K (2 * i + 1) = brv K (2 * i) OR 2 ^ (K - 1)"
  proof (rule bit_eqI)
    fix j
    have "K - 1 - j = 0 \<longleftrightarrow> j = K - 1" if "j < K" using that by linarith
    then show "bit (brv K (2 * i + 1)) j \<longleftrightarrow> bit (brv K (2 * i) OR 2 ^ (K - 1)) j"
      unfolding bit_or_iff bit_brv [OF assms] bit_brv [OF assms(1,2) i] b using assms(1) by (auto simp: bit_exp_iff)
  qed
  ultimately show ?thesis by simp
qed

lemma brv_one: "0 < K \<Longrightarrow> K \<le> 24 \<Longrightarrow> brv K 1 = 2 ^ (K - 1)"
proof -
  assume K: "0 < K" "K \<le> 24"
  have one: "1 < (2 :: nat) ^ K" using K(1) by (intro one_less_power) auto
  have "2 * brv K 0 = brv K 0" using brv_even [OF K, of 0] by simp
  then show ?thesis using brv_odd [OF K, of 0] one by simp
qed

lemma brv_leaf:
  assumes "0 < K" "K \<le> 24" "i < 2 ^ (K - 1)"
  shows "brv K (2 ^ (K - 1) + i) = brv K i + 1"
proof -
  have lt: "2 ^ (K - 1) + i < 2 ^ K" "i < 2 ^ K" using assms by (cases K; simp)+
  have a: "brv K (2 ^ (K - 1) + i) = brv K i OR 1"
  proof (rule bit_eqI)
    fix j
    have "2 ^ (K - 1) + i = 2 ^ (K - 1) OR i"
      using bit_imp_lt [OF assms(3)] by (intro disjunctive_add_eq_or bit_eqI) (auto simp: bit_and_iff bit_exp_iff)
    then have sum: "bit (2 ^ (K - 1) + i) k \<longleftrightarrow> k = K - 1 \<or> bit i k" for k by (auto simp: bit_or_iff bit_exp_iff)
    show "bit (brv K (2 ^ (K - 1) + i)) j \<longleftrightarrow> bit (brv K i OR 1) j"
      unfolding bit_or_iff bit_brv [OF assms(1,2) lt(1)] bit_brv [OF assms(1,2) lt(2)] sum bit_1_iff using assms(1) by auto
  qed
  have "\<not> bit (brv K i) 0" using bit_brv [OF assms(1,2) lt(2), of 0] bit_imp_lt [OF assms(3), of "K - 1"] by auto
  then have "brv K i + 1 = brv K i OR 1"
    by (intro disjunctive_add_eq_or bit_eqI) (auto simp: bit_and_iff bit_1_iff bit_0)
  with a show ?thesis by simp
qed

section \<open>The tables of a modulus\<close>

lemma ModMulEq_mu_value:
  assumes "barrett_exact q" "a < q" "b < q"
  shows "uint (ModMulEq_mu a b q (ComputeMu q)) = (uint a * uint b) mod uint q" "ModMulEq_mu a b q (ComputeMu q) < q"
proof -
  have "ModMulEq_mu a b q (ComputeMu q) = ModMulFast_mu a b q (ComputeMu q)"
    using ModMul_mu_reduced [of a q b] assms(2) by (simp add: ModMul_mu_def)
  then show v: "uint (ModMulEq_mu a b q (ComputeMu q)) = (uint a * uint b) mod uint q"
    using ModMulFast_mu_value [OF assms] by simp
  then show "ModMulEq_mu a b q (ComputeMu q) < q"
    using assms(1) barrett_exact_bounds by (simp add: word_less_def uint_pos)
qed

lemma barrett_exact_gt_1:
  assumes "barrett_exact q"
  shows "1 < uint q"
proof -
  have "4 \<le> unat q" using assms barrett_modulus_bounds(7) [of q] by (simp add: barrett_exact_def)
  then have "1 < int (unat q)" by linarith
  then show ?thesis by (simp only: uint_nat)
qed

text \<open>Entry \<open>brv K i\<close> of a table holds \<open>w ^ i\<close>, for the indices below \<open>k\<close>.\<close>

definition power_table :: "NativeInt \<Rightarrow> nat \<Rightarrow> nat \<Rightarrow> NativeInt \<Rightarrow> NativeInt list \<Rightarrow> bool" where
  "power_table q K k w tab \<longleftrightarrow> length tab = 2 ^ K \<and> (\<forall>i<k. uint (tab ! brv K i) = uint w ^ i mod uint q)"

lemma power_table_step:
  assumes "0 < K" "K \<le> 24" "k < 2 ^ K" "power_table q K k w tab" "uint x = uint w ^ k mod uint q"
  shows "power_table q K (Suc k) w (tab[brv K k := x])"
proof -
  have "brv K k \<noteq> brv K i" if "i < k" for i
    using that brv_brv [OF assms(1,2), of i] brv_brv [OF assms(1,2,3)] assms(3) by (metis less_trans nat_neq_iff)
  then show ?thesis
    using assms(4,5) brv_lt [OF assms(1-3)] by (auto simp: power_table_def less_Suc_eq)
qed

lemma FTT_root_loop_correct:
  assumes "barrett_exact q" "psi < q" "psiI < q" "0 < K" "K \<le> 24" "length tab = 2 ^ K" "length tabI = 2 ^ K"
  shows "\<exists>x xinv tab' tabI'. FTT_root_loop psi psiI q (2 ^ K) K (1, 1, tab, tabI) = Inr (x, xinv, tab', tabI')
    \<and> power_table q K (2 ^ K) psi tab' \<and> power_table q K (2 ^ K) psiI tabI'"
proof -
  let ?P = "\<lambda>k (x, xinv, tab, tabI). x < q \<and> xinv < q \<and> uint x = uint psi ^ k mod uint q \<and> uint xinv = uint psiI ^ k mod uint q
      \<and> power_table q K k psi tab \<and> power_table q K k psiI tabI"
  let ?f = "\<lambda>i (x, xinv, Table, TableI). let iinv = unat (ReverseBits (of_nat i) K)
      in if iinv \<ge> 2 ^ K then Inl out_of_bounds
         else Inr (ModMulEq_mu x psi q (ComputeMu q), ModMulEq_mu xinv psiI q (ComputeMu q), Table[iinv := x], TableI[iinv := xinv])"
  have q: "1 < uint q" by (rule barrett_exact_gt_1 [OF assms(1)])
  then have one: "(1 :: NativeInt) < q" by (simp add: word_less_def)
  have "\<exists>s'. res_range 0 (2 ^ K) ?f (1, 1, tab, tabI) = Inr s' \<and> ?P (2 ^ K) s'"
  proof (rule res_range_invariant [where P = ?P])
    show "?P 0 (1, 1, tab, tabI)" using one q assms(6,7) by (simp add: power_table_def)
    fix k st assume k: "k < (2 :: nat) ^ K" and P: "?P k st"
    obtain x xinv T TI where st: "st = (x, xinv, T, TI)" by (metis prod_cases4)
    have "brv K k < 2 ^ K" using assms(4,5) k by (rule brv_lt)
    then have f: "?f k st = Inr (ModMulEq_mu x psi q (ComputeMu q), ModMulEq_mu xinv psiI q (ComputeMu q), T[brv K k := x], TI[brv K k := xinv])"
      by (simp add: st brv_def Let_def)
    have "?P (Suc k) (ModMulEq_mu x psi q (ComputeMu q), ModMulEq_mu xinv psiI q (ComputeMu q), T[brv K k := x], TI[brv K k := xinv])"
      using P st ModMulEq_mu_value [OF assms(1)] assms(2,3) power_table_step [OF assms(4,5) k]
      by (simp add: mod_simps mult.commute)
    with f show "\<exists>t'. ?f k st = Inr t' \<and> ?P (Suc k) t'" by blast
  qed simp
  then show ?thesis unfolding FTT_root_loop_def Let_def [of "ComputeMu q"] by auto
qed

lemma power_table_nth:
  assumes "0 < K" "K \<le> 24" "power_table q K (2 ^ K) w tab" "i < 2 ^ K"
  shows "uint (tab ! i) = uint w ^ brv K i mod uint q"
proof -
  have "uint (tab ! brv K (brv K i)) = uint w ^ brv K i mod uint q"
    using assms(3) brv_lt [OF assms(1,2,4)] by (simp add: power_table_def)
  then show ?thesis by (simp only: brv_brv [OF assms(1,2,4)])
qed

lemma power_table_reduced:
  assumes "0 < K" "K \<le> 24" "power_table q K (2 ^ K) w tab" "0 < uint q"
  shows "reduced q tab"
  using power_table_nth [OF assms(1-3)] assms(3,4) by (simp add: reduced_def list_all_length power_table_def word_less_def)

text \<open>A primitive root of unity of order \<open>2 ^ (K + 1)\<close>: its power \<open>2 ^ K\<close> is \<open>-1\<close>.\<close>

definition primitive_root :: "NativeInt \<Rightarrow> nat \<Rightarrow> NativeInt \<Rightarrow> bool" where
  "primitive_root q K psi \<longleftrightarrow> psi < q \<and> (uint psi ^ 2 ^ K + 1) mod uint q = 0"

lemma primitive_root_cong: "primitive_root q K psi \<Longrightarrow> rcong (uint q) (uint psi ^ 2 ^ K) (- 1)"
  by (simp add: primitive_root_def rcong_iff_dvd dvd_eq_mod_eq_0)

lemma square_brv:
  assumes "0 < K" "K \<le> 24" "primitive_root q K psi" "1 \<le> i" "i < 2 ^ K"
  shows "rcong (uint q) ((uint psi ^ brv K i) ^ 2) (if i = 1 then - 1 else if even i then uint psi ^ brv K (i div 2) else - (uint psi ^ brv K (i div 2)))"
proof -
  have half: "2 * 2 ^ (K - 1) = (2 :: nat) ^ K" using assms(1) by (cases K) simp_all
  have sq: "(uint psi ^ b) ^ 2 = uint psi ^ (2 * b)" for b by (simp add: power_mult [symmetric] mult.commute)
  consider "i = 1" | "1 < i" "even i" | "1 < i" "odd i" using assms(4) by linarith
  then show ?thesis
  proof cases
    case 1
    then show ?thesis using primitive_root_cong [OF assms(3)] brv_one [OF assms(1,2)] by (simp only: sq half simp_thms if_True)
  next
    case 2
    then have "2 * brv K i = brv K (i div 2)" using brv_even [OF assms(1,2), of "i div 2"] assms(5) by simp
    then show ?thesis using 2 by (simp add: sq)
  next
    case 3
    then have i: "i = 2 * (i div 2) + 1" by presburger
    have "2 * brv K i = brv K (i div 2) + 2 ^ K"
      using brv_odd [OF assms(1,2), of "i div 2"] brv_even [OF assms(1,2), of "i div 2"] assms(5) i half by simp
    then have "(uint psi ^ brv K i) ^ 2 = uint psi ^ brv K (i div 2) * uint psi ^ 2 ^ K" by (simp add: sq power_add)
    moreover have "rcong (uint q) (uint psi ^ brv K (i div 2) * uint psi ^ 2 ^ K) (uint psi ^ brv K (i div 2) * - 1)"
      using primitive_root_cong [OF assms(3)] by (intro rcong_mult) auto
    ultimately show ?thesis using 3 by simp
  qed
qed

lemma rcong_minus: "rcong q a b \<Longrightarrow> rcong q (- a) (- b)"
  using rcong_diff [of q 0 0 a b] by simp

lemma root_tree_power:
  assumes "0 < K" "K \<le> 24" "primitive_root q K psi" "power_table q K (2 ^ K) psi tab"
  shows "root_tree q (2 ^ K) tab"
  unfolding root_tree_def
proof (intro conjI ballI)
  show "2 ^ K \<le> length tab" using assms(4) by (simp add: power_table_def)
  fix i :: nat assume "i \<in> {1..<2 ^ K}"
  then have i: "1 \<le> i" "i < 2 ^ K" "i div 2 < 2 ^ K" by auto
  have e: "rcong (uint q) (uint (tab ! i)) (uint psi ^ brv K i)" "rcong (uint q) (uint psi ^ brv K (i div 2)) (uint (tab ! (i div 2)))"
    using power_table_nth [OF assms(1,2,4)] i by (simp_all add: rcong_def)
  have "rcong (uint q) (uint (tab ! i) ^ 2) ((uint psi ^ brv K i) ^ 2)" using e(1) by (rule rcong_power)
  also note square_brv [OF assms(1-3) i(1,2)]
  also have "rcong (uint q) (if i = 1 then - 1 else if even i then uint psi ^ brv K (i div 2) else - (uint psi ^ brv K (i div 2))) (node_root tab i)"
    using e(2) rcong_minus [OF e(2)] i(1) by (auto simp: node_root_def)
  finally show "uint (tab ! i) ^ 2 mod uint q = node_root tab i mod uint q" by (simp add: rcong_def)
qed

lemma inverse_tables_power:
  assumes "0 < K" "K \<le> 24" "power_table q K (2 ^ K) psi tab" "power_table q K (2 ^ K) psiI tabI"
    and "(uint psi * uint psiI) mod uint q = 1 mod uint q"
  shows "inverse_tables q (2 ^ K) tab tabI"
proof -
  have "(uint (tab ! i) * uint (tabI ! i)) mod uint q = 1 mod uint q" if "i < 2 ^ K" for i
  proof -
    have "rcong (uint q) (uint (tab ! i) * uint (tabI ! i)) (uint psi ^ brv K i * uint psiI ^ brv K i)"
      using power_table_nth [OF assms(1,2,3) that] power_table_nth [OF assms(1,2,4) that]
      by (intro rcong_mult) (simp_all add: rcong_def)
    also have "uint psi ^ brv K i * uint psiI ^ brv K i = (uint psi * uint psiI) ^ brv K i" by (simp add: power_mult_distrib)
    also have "rcong (uint q) \<dots> (1 ^ brv K i)" using assms(5) by (intro rcong_power) (simp add: rcong_def)
    finally show ?thesis by (simp add: rcong_def)
  qed
  then show ?thesis using assms(3,4) by (simp add: inverse_tables_def power_table_def)
qed

lemma primitive_root_coprime:
  assumes "primitive_root q K psi"
  shows "coprime (unat psi) (unat q)"
proof -
  have "coprime (int (unat psi)) (int (unat q))"
  proof (rule coprimeI)
    fix d :: int
    assume d: "d dvd int (unat psi)" "d dvd int (unat q)"
    have "uint q dvd uint psi ^ 2 ^ K + 1" using assms by (simp add: primitive_root_def dvd_eq_mod_eq_0)
    then have "d dvd int (unat psi) ^ 2 ^ K + 1" using dvd_trans [OF d(2)] by (simp only: uint_nat)
    moreover have "d dvd int (unat psi) ^ 2 ^ K" using d(1) by (rule dvd_trans) (rule dvd_power, simp)
    ultimately show "is_unit d" by (simp only: dvd_add_right_iff)
  qed
  then show ?thesis by (simp only: coprime_int_iff)
qed

section \<open>Precomputation\<close>

definition FTT_ready :: "FTTTables \<Rightarrow> NativeInt \<Rightarrow> nat \<Rightarrow> NativeInt \<Rightarrow> bool" where
  "FTT_ready T q K psi \<longleftrightarrow>
     (let tab = m_data (table_at (m_rootOfUnityReverseTableByModulus T) q);
          itab = m_data (table_at (m_rootOfUnityInverseReverseTableByModulus T) q);
          coi = m_data (table_at (m_cycloOrderInverseTableByModulus T) q) ! K
      in \<not> FTT_missing T q (2 ^ K) \<and> power_table q K (2 ^ K) psi tab \<and> ntt_tables q (2 ^ K) tab itab coi
         \<and> precon_of q (2 ^ K) tab (m_data (table_at (m_rootOfUnityPreconReverseTableByModulus T) q))
         \<and> precon_of q (2 ^ K) itab (m_data (table_at (m_rootOfUnityInversePreconReverseTableByModulus T) q))
         \<and> m_data (table_at (m_cycloOrderInversePreconTableByModulus T) q) ! K = PrepModMulConst coi q)"

text \<open>The moduli, orders and roots the transform is used with.\<close>

definition ntt_params :: "NativeInt \<Rightarrow> nat \<Rightarrow> NativeInt \<Rightarrow> bool" where
  "ntt_params q K psi \<longleftrightarrow> barrett_exact q \<and> odd (unat q) \<and> 0 < K \<and> K \<le> 24 \<and> primitive_root q K psi"

lemma unat_of_nat_32: "n < 2 ^ 32 \<Longrightarrow> unat (of_nat n :: usint) = n"
  by (simp add: unat_of_nat)

lemma unat_cyclo_half:
  assumes "K \<le> 24"
  shows "unat (drop_bit 1 (of_nat (2 ^ Suc K) :: usint)) = 2 ^ K"
proof -
  have "(2 :: nat) ^ Suc K \<le> 2 ^ 25" using assms by (intro power_increasing) auto
  then have "unat (of_nat (2 ^ Suc K) :: usint) = 2 ^ Suc K" by (intro unat_of_nat_32) simp
  then show ?thesis by (simp only: unat_drop_bit) simp
qed

lemma GetMSB64_pred:
  assumes "0 < K" "K \<le> 24"
  shows "GetMSB64 (ucast (of_nat (2 ^ K) - 1 :: usint)) = K"
proof -
  have lt: "(2 :: nat) ^ K \<le> 2 ^ 24" using assms(2) by (intro power_increasing) auto
  have "unat (of_nat (2 ^ K - 1) :: usint) = 2 ^ K - 1" using lt by (intro unat_of_nat_32) simp
  moreover have "unat (ucast x :: NativeInt) = unat x" for x :: usint
    using unat_lt_32 [of x] by (simp add: unsigned_ucast_eq take_bit_nat_eq_self)
  moreover have "(of_nat (2 ^ K) - 1 :: usint) = of_nat (2 ^ K - 1)" by (simp add: of_nat_diff)
  ultimately have u: "unat (ucast (of_nat (2 ^ K) - 1 :: usint) :: NativeInt) = 2 ^ K - 1" by (simp only:)
  have "(2 :: nat) ^ (K - 1) \<le> 2 ^ K - 1"
    using assms(1) by (cases K) (simp_all add: Suc_le_eq)
  then show ?thesis
    unfolding GetMSB64_def using assms(1) by (intro GetMSB_eqI) (simp_all only: u, simp_all)
qed

lemma NV_new_ok: "GetMSB q \<le> MAX_MODULUS_SIZE \<Longrightarrow> NV_new n q = Inr \<lparr>m_data = replicate n 0, m_modulus = q\<rparr>"
  by (simp add: NV_new_def NV_SetModulus_def NV_empty_def)

lemma precon_loop:
  "for_range 0 n (\<lambda>i xs. xs[i := f (tab ! i)]) (replicate n 0) = map (\<lambda>i. f (tab ! i)) [0..<n]"
  using for_range_update [of "replicate n 0" "\<lambda>i _. f (tab ! i)"] by simp

lemma inverse_powers_of_two:
  assumes "ntt_params q K psi"
  shows "\<exists>ys. res_range 0 (K + 1) (\<lambda>i xs. res_bind (ModInverse (push_bit i 1) q) (\<lambda>coInv. Inr (xs[i := coInv]))) (replicate (K + 1) 0) = Inr ys
    \<and> length ys = K + 1 \<and> ys ! K < q \<and> (2 ^ K * uint (ys ! K)) mod uint q = 1"
proof -
  have q: "1 < q" "q \<le> 2 ^ 63" "odd (unat q)" "K \<le> 24"
    using assms barrett_exact_gt_1 [of q] barrett_exact_bounds [of q] by (simp_all add: ntt_params_def word_less_def)
  have inv: "\<exists>y. ModInverse (push_bit i 1) q = Inr y \<and> (y < q \<and> (2 ^ i * uint y) mod uint q = 1)" if "i \<in> set [0..<K + 1]" for i
  proof -
    have "i \<le> 24" using that q(4) by auto
    then have "(2 :: nat) ^ i \<le> 2 ^ 24" by (intro power_increasing) auto
    then have "unat (of_nat (2 ^ i) :: NativeInt) = 2 ^ i" by (intro unat_of_nat_64) simp
    then have u: "unat (push_bit i 1 :: NativeInt) = 2 ^ i" by (simp add: push_bit_eq_mult)
    then have "coprime (unat (push_bit i 1 :: NativeInt)) (unat q)" using q(3) by simp
    from ModInverse_value [OF q(1,2) this] show ?thesis by (simp only: uint_nat [of "push_bit i 1"] u of_nat_power of_nat_numeral)
  qed
  obtain ys where ys: "res_map (\<lambda>i. ModInverse (push_bit i 1) q) [0..<K + 1] = Inr ys"
    "list_all2 (\<lambda>i y. y < q \<and> (2 ^ i * uint y) mod uint q = 1) [0..<K + 1] ys"
    using res_map_total [of "[0..<K + 1]" "\<lambda>i. ModInverse (push_bit i 1) q" "\<lambda>i y. y < q \<and> (2 ^ i * uint y) mod uint q = 1"] inv
    by blast
  have "res_range 0 (length (replicate (K + 1) (0 :: NativeInt))) (\<lambda>i xs. res_bind (ModInverse (push_bit i 1) q) (\<lambda>coInv. Inr (xs[i := coInv]))) (replicate (K + 1) 0) = Inr ys"
    using ys(1) by (subst res_range_update) (simp only: length_replicate)
  moreover have "ys ! K < q \<and> (2 ^ K * uint (ys ! K)) mod uint q = 1" "length ys = K + 1"
    using list_all2_nthD [OF ys(2), of K] list_all2_lengthD [OF ys(2)] by (simp_all del: upt_Suc)
  ultimately show ?thesis by (simp only: length_replicate) blast
qed

lemma ntt_params_modulus:
  assumes "ntt_params q K psi"
  shows "1 < q" "q \<le> 2 ^ 63" "q \<noteq> 0" "GetMSB q \<le> MAX_MODULUS_SIZE" "0 < uint q"
proof -
  have b: "barrett_exact q" using assms by (simp add: ntt_params_def)
  show "1 < q" "q \<le> 2 ^ 63" "q \<noteq> 0" "0 < uint q"
    using barrett_exact_gt_1 [OF b] barrett_exact_bounds [OF b] by (simp_all add: word_less_def)
  show "GetMSB q \<le> MAX_MODULUS_SIZE"
    using b by (simp add: barrett_exact_def barrett_modulus_def MAX_MODULUS_SIZE_def)
qed

lemma FTT_PreCompute_ready_aux:
  assumes "ntt_params q K psi" "FTT_missing T q (2 ^ K)"
  shows "\<exists>T'. FTT_PreCompute psi (of_nat (2 ^ Suc K)) q T = Inr T' \<and> FTT_ready T' q K psi"
proof -
  note p = assms(1) [unfolded ntt_params_def] and m = ntt_params_modulus [OF assms(1)]
  have K: "0 < K" "K \<le> 24" and root: "primitive_root q K psi" "psi < q" using p by (simp_all add: primitive_root_def)
  obtain psiI where inv: "ModInverse psi q = Inr psiI" "psiI < q" "(uint psi * uint psiI) mod uint q = 1"
    using ModInverse_value [OF m(1,2) primitive_root_coprime [OF root(1)]] by blast
  obtain x xinv tab itab where loop: "FTT_root_loop psi psiI q (2 ^ K) K (1, 1, replicate (2 ^ K) 0, replicate (2 ^ K) 0) = Inr (x, xinv, tab, itab)"
    and tabs: "power_table q K (2 ^ K) psi tab" "power_table q K (2 ^ K) psiI itab"
    using FTT_root_loop_correct [OF _ root(2) inv(2) K, of "replicate (2 ^ K) 0" "replicate (2 ^ K) 0"] p by auto
  obtain coi where coi: "res_range 0 (K + 1) (\<lambda>i xs. res_bind (ModInverse (push_bit i 1) q) (\<lambda>coInv. Inr (xs[i := coInv]))) (replicate (K + 1) 0) = Inr coi"
    "length coi = K + 1" "coi ! K < q" "(2 ^ K * uint (coi ! K)) mod uint q = 1"
    using inverse_powers_of_two [OF assms(1)] by blast
  have coi': "res_range 0 (Suc K) (\<lambda>i xs. res_bind (ModInverse (2 ^ i) q) (\<lambda>coInv. Inr (xs[i := coInv]))) (replicate (Suc K) 0) = Inr coi"
    using coi(1) by (simp del: replicate_Suc)
  have one: "1 mod uint q = 1" using m(1) by (simp add: word_less_def)
  have nt: "ntt_tables q (2 ^ K) tab itab (coi ! K)"
    using power_table_reduced [OF K tabs(1) m(5)] power_table_reduced [OF K tabs(2) m(5)] coi(3,4)
      root_tree_power [OF K root(1) tabs(1)] inverse_tables_power [OF K tabs] inv(3)
    by (simp add: ntt_tables_def one)
  have len: "length tab = 2 ^ K" using tabs(1) by (simp add: power_table_def)
  let ?p = "\<lambda>n t. map (\<lambda>i. PrepModMulConst (t ! i) q) [0..<n]"
  define T' where "T' = T\<lparr>
      m_rootOfUnityReverseTableByModulus := (m_rootOfUnityReverseTableByModulus T)(q \<mapsto> \<lparr>m_data = tab, m_modulus = q\<rparr>),
      m_rootOfUnityInverseReverseTableByModulus := (m_rootOfUnityInverseReverseTableByModulus T)(q \<mapsto> \<lparr>m_data = itab, m_modulus = q\<rparr>),
      m_cycloOrderInverseTableByModulus := (m_cycloOrderInverseTableByModulus T)(q \<mapsto> \<lparr>m_data = coi, m_modulus = q\<rparr>),
      m_rootOfUnityPreconReverseTableByModulus := (m_rootOfUnityPreconReverseTableByModulus T)(q \<mapsto> \<lparr>m_data = ?p (2 ^ K) tab, m_modulus = q\<rparr>),
      m_rootOfUnityInversePreconReverseTableByModulus := (m_rootOfUnityInversePreconReverseTableByModulus T)(q \<mapsto> \<lparr>m_data = ?p (2 ^ K) itab, m_modulus = q\<rparr>),
      m_cycloOrderInversePreconTableByModulus := (m_cycloOrderInversePreconTableByModulus T)(q \<mapsto> \<lparr>m_data = ?p (K + 1) coi, m_modulus = q\<rparr>)\<rparr>"
  have "FTT_PreCompute psi (of_nat (2 ^ Suc K)) q T = Inr T'"
    unfolding FTT_PreCompute_def unat_cyclo_half [OF K(2)] GetMSB64_pred [OF K] NV_new_ok [OF m(4)] inv(1) Let_def T'_def
    by (simp add: assms(2) loop coi' table_at_def precon_loop [where f = "\<lambda>x. PrepModMulConst x q"] del: replicate_Suc upt_Suc)
  moreover have "FTT_ready T' q K psi"
    using nt tabs(1) len
    by (simp add: T'_def FTT_ready_def FTT_missing_def table_at_def NV_GetLength_def precon_of_def nth_append)
  ultimately show ?thesis by blast
qed

text \<open>
  C35: for a prime modulus and a primitive root, and when the cache holds no tables of this length for the modulus, the
  precomputation succeeds and leaves tables with the powers of the root in bit-reversed order, their inverses, the inverse of the
  dimension, and the Shoup quotients of all of them. When the cache holds tables of this length for the modulus, they are kept
  as they are, whatever root they were computed for.
\<close>

theorem FTT_PreCompute_ready:
  assumes "ntt_params q K psi"
  shows "if FTT_missing T q (2 ^ K)
    then \<exists>T'. FTT_PreCompute psi (of_nat (2 ^ Suc K)) q T = Inr T' \<and> FTT_ready T' q K psi
    else FTT_PreCompute psi (of_nat (2 ^ Suc K)) q T = Inr T"
proof (cases "FTT_missing T q (2 ^ K)")
  case True
  then show ?thesis using FTT_PreCompute_ready_aux [OF assms True] by simp
next
  case False
  have "K \<le> 24" using assms by (simp add: ntt_params_def)
  then have "unat (drop_bit 1 (of_nat (2 ^ Suc K) :: usint)) = 2 ^ K" by (rule unat_cyclo_half)
  then show ?thesis using False by (simp only: FTT_PreCompute_def Let_def if_False)
qed

section \<open>The cached transform\<close>

lemma IsPowerOfTwo_exp: "n < 32 \<Longrightarrow> IsPowerOfTwo (of_nat (2 ^ n))"
proof -
  assume n: "n < 32"
  have "(2 ^ n :: usint) AND (2 ^ n - 1) = 0"
    by (rule bit_eqI) (auto simp: bit_and_iff bit_exp_iff bit_mask_iff mask_eq_exp_minus_1 [symmetric])
  moreover have "(2 ^ n :: usint) \<noteq> 0" using n by simp
  ultimately show ?thesis by (simp add: IsPowerOfTwo_def)
qed

lemma primitive_root_proper:
  assumes "ntt_params q K psi"
  shows "psi \<noteq> 0" "psi \<noteq> 1"
proof -
  have q: "4 \<le> unat q" using assms barrett_modulus_bounds(7) [of q] by (simp add: ntt_params_def barrett_exact_def)
  then have "2 < int (unat q)" by linarith
  then have q: "2 < uint q" by (simp only: uint_nat)
  have z: "(uint psi ^ 2 ^ K + 1) mod uint q = 0" using assms by (simp add: ntt_params_def primitive_root_def)
  show "psi \<noteq> 0" using z q by (intro notI) (simp add: power_0_left)
  show "psi \<noteq> 1" using z q by (intro notI) simp
qed

text \<open>The tables after the guard of a transform: kept when present, computed when missing.\<close>

lemma FTT_guard:
  assumes "ntt_params q K psi" "FTT_missing T q (2 ^ K) \<or> FTT_ready T q K psi"
  obtains T' where "(if FTT_missing T q (2 ^ K) then FTT_PreCompute psi (of_nat (2 ^ Suc K)) q T else Inr T) = Inr T'"
    "FTT_ready T' q K psi"
proof (cases "FTT_missing T q (2 ^ K)")
  case True
  then show ?thesis using FTT_PreCompute_ready_aux [OF assms(1) True] that by auto
next
  case False
  then show ?thesis using assms(2) that by auto
qed

lemma FTT_fwd_eq:
  assumes "ntt_params q K psi" "FTT_ready T q K psi" "m_modulus v = q" "NV_GetLength v = 2 ^ K"
  shows "FTT_ForwardTransformToBitReverseInPlace psi (of_nat (2 ^ Suc K)) v T
    = Inr (ForwardTransformToBitReverseInPlace_pre (table_at (m_rootOfUnityReverseTableByModulus T) q)
        (table_at (m_rootOfUnityPreconReverseTableByModulus T) q) v, T)"
proof -
  have K: "K \<le> 24" using assms(1) by (simp add: ntt_params_def)
  have "\<not> FTT_missing T q (2 ^ K)" using assms(2) by (simp add: FTT_ready_def Let_def)
  then show ?thesis
    unfolding FTT_ForwardTransformToBitReverseInPlace_def Let_def unat_cyclo_half [OF K] assms(4) NV_GetModulus_def assms(3)
    using primitive_root_proper [OF assms(1)] IsPowerOfTwo_exp [of "Suc K"] K by simp
qed

lemma FTT_fwd_tables:
  assumes "ntt_params q K psi"
    and "(if FTT_missing T q (2 ^ K) then FTT_PreCompute psi (of_nat (2 ^ Suc K)) q T else Inr T) = Inr T'" "FTT_ready T' q K psi"
    and "m_modulus v = q" "NV_GetLength v = 2 ^ K"
  shows "FTT_ForwardTransformToBitReverseInPlace psi (of_nat (2 ^ Suc K)) v T
      = FTT_ForwardTransformToBitReverseInPlace psi (of_nat (2 ^ Suc K)) v T'"
proof -
  have K: "K \<le> 24" using assms(1) by (simp add: ntt_params_def)
  have "FTT_ForwardTransformToBitReverseInPlace psi (of_nat (2 ^ Suc K)) v T
    = Inr (ForwardTransformToBitReverseInPlace_pre (table_at (m_rootOfUnityReverseTableByModulus T') q)
        (table_at (m_rootOfUnityPreconReverseTableByModulus T') q) v, T')"
    unfolding FTT_ForwardTransformToBitReverseInPlace_def Let_def unat_cyclo_half [OF K] assms(5) NV_GetModulus_def assms(4) assms(2)
    using primitive_root_proper [OF assms(1)] IsPowerOfTwo_exp [of "Suc K"] K by simp
  then show ?thesis by (simp only: FTT_fwd_eq [OF assms(1,3-5)])
qed

lemma FTT_inv_eq:
  assumes "ntt_params q K psi" "FTT_ready T q K psi" "m_modulus v = q" "NV_GetLength v = 2 ^ K"
  shows "FTT_InverseTransformFromBitReverseInPlace psi (of_nat (2 ^ Suc K)) v T
    = Inr (InverseTransformFromBitReverseInPlace_pre (table_at (m_rootOfUnityInverseReverseTableByModulus T) q)
        (table_at (m_rootOfUnityInversePreconReverseTableByModulus T) q)
        (m_data (table_at (m_cycloOrderInverseTableByModulus T) q) ! K)
        (PrepModMulConst (m_data (table_at (m_cycloOrderInverseTableByModulus T) q) ! K) q) v, T)"
proof -
  have K: "0 < K" "K \<le> 24" using assms(1) by (simp_all add: ntt_params_def)
  have "\<not> FTT_missing T q (2 ^ K)" "m_data (table_at (m_cycloOrderInversePreconTableByModulus T) q) ! K
      = PrepModMulConst (m_data (table_at (m_cycloOrderInverseTableByModulus T) q) ! K) q"
    using assms(2) by (simp_all add: FTT_ready_def Let_def)
  then show ?thesis
    unfolding FTT_InverseTransformFromBitReverseInPlace_def Let_def unat_cyclo_half [OF K(2)] assms(4) NV_GetModulus_def assms(3)
      GetMSB64_pred [OF K]
    using primitive_root_proper [OF assms(1)] IsPowerOfTwo_exp [of "Suc K"] K by simp
qed

lemma leaf_root:
  assumes "0 < K" "K \<le> 24" "primitive_root q K psi" "power_table q K (2 ^ K) psi tab" "i < 2 ^ K"
  shows "rcong (uint q) (node_root tab (2 ^ K + i)) (uint psi ^ (2 * brv K i + 1))"
proof -
  define b where "b = i div 2"
  have half: "2 * 2 ^ (K - 1) = (2 :: nat) ^ K" using assms(1) by (cases K) simp_all
  have b: "b < 2 ^ (K - 1)" using assms(5) half by (simp add: b_def)
  have ix: "(2 ^ K + i) div 2 = 2 ^ (K - 1) + b" "2 ^ (K - 1) + b < 2 ^ K" using half b by (simp_all add: b_def)
  have "uint (tab ! (2 ^ (K - 1) + b)) = uint psi ^ (brv K b + 1) mod uint q"
    using power_table_nth [OF assms(1,2,4) ix(2)] brv_leaf [OF assms(1,2) b] by simp
  then have t: "rcong (uint q) (uint (tab ! (2 ^ (K - 1) + b))) (uint psi ^ (brv K b + 1))" by (simp add: rcong_def)
  have big: "\<not> 2 ^ K + i \<le> 1" using assms(1) one_less_power [of "2 :: nat" K] by simp
  have ev: "2 * brv K (2 * b) = brv K b" using brv_even [OF assms(1,2), of b] b half by simp
  show ?thesis
  proof (cases "even i")
    case True
    then have "2 * brv K i = brv K b" using ev by (simp add: b_def)
    then show ?thesis using t True big ix(1) assms(1) by (simp add: node_root_def)
  next
    case False
    then have i: "i = 2 * b + 1" by (simp add: b_def)
    have "2 * brv K i + 1 = (brv K b + 1) + 2 ^ K" using brv_odd [OF assms(1,2), of b] ev assms(5) half i by simp
    then have "uint psi ^ (2 * brv K i + 1) = uint psi ^ (brv K b + 1) * uint psi ^ 2 ^ K" by (simp only: power_add)
    moreover have "rcong (uint q) (uint psi ^ (brv K b + 1) * uint psi ^ 2 ^ K) (uint psi ^ (brv K b + 1) * - 1)"
      using primitive_root_cong [OF assms(3)] by (intro rcong_mult) auto
    ultimately have "rcong (uint q) (- (uint psi ^ (brv K b + 1))) (uint psi ^ (2 * brv K i + 1))"
      by (simp only: mult_minus1_right rcong_sym)
    from rcong_trans [OF rcong_minus [OF t] this] show ?thesis using False big ix(1) assms(1) by (simp add: node_root_def)
  qed
qed

lemma FTT_ready_fields:
  assumes "FTT_ready T q K psi"
  shows "power_table q K (2 ^ K) psi (m_data (table_at (m_rootOfUnityReverseTableByModulus T) q))"
    "ntt_tables q (2 ^ K) (m_data (table_at (m_rootOfUnityReverseTableByModulus T) q))
       (m_data (table_at (m_rootOfUnityInverseReverseTableByModulus T) q)) (m_data (table_at (m_cycloOrderInverseTableByModulus T) q) ! K)"
    "precon_of q (2 ^ K) (m_data (table_at (m_rootOfUnityReverseTableByModulus T) q)) (m_data (table_at (m_rootOfUnityPreconReverseTableByModulus T) q))"
    "precon_of q (2 ^ K) (m_data (table_at (m_rootOfUnityInverseReverseTableByModulus T) q)) (m_data (table_at (m_rootOfUnityInversePreconReverseTableByModulus T) q))"
  using assms by (simp_all add: FTT_ready_def Let_def)

text \<open>The polynomial of a vector, evaluated.\<close>

definition poly_eval :: "int list \<Rightarrow> int \<Rightarrow> int" where
  "poly_eval a x = (\<Sum>j<length a. a ! j * x ^ j)"

lemma poly_eval_cong: "rcong q x y \<Longrightarrow> rcong q (poly_eval a x) (poly_eval a y)"
  unfolding poly_eval_def by (intro rcong_sum rcong_mult rcong_power) auto

lemma FTT_forward_aux:
  assumes "ntt_params q K psi" "FTT_ready T q K psi" "nv_wf v" "m_modulus v = q" "NV_GetLength v = 2 ^ K"
  obtains w where "FTT_ForwardTransformToBitReverseInPlace psi (of_nat (2 ^ Suc K)) v T = Inr (w, T)"
    "nv_wf w" "m_modulus w = q" "NV_GetLength w = 2 ^ K"
    "nv_abs w = map (\<lambda>i. poly_eval (nv_abs v) (uint psi ^ (2 * brv K i + 1)) mod uint q) [0..<2 ^ K]"
    "FTT_InverseTransformFromBitReverseInPlace psi (of_nat (2 ^ Suc K)) w T = Inr (v, T)"
proof -
  have K: "0 < K" "K \<le> 24" "K < 64" "primitive_root q K psi" using assms(1) by (simp_all add: ntt_params_def)
  note r = FTT_ready_fields [OF assms(2)]
  let ?tab = "table_at (m_rootOfUnityReverseTableByModulus T) q" and ?pre = "table_at (m_rootOfUnityPreconReverseTableByModulus T) q"
  let ?w = "ForwardTransformToBitReverseInPlace_pre ?tab ?pre v"
  have ev: "nv_wf ?w" "nv_abs ?w = map (\<lambda>i. (\<Sum>j<2 ^ K. uint (m_data v ! j) * node_root (m_data ?tab) (2 ^ K + i) ^ j) mod uint q) [0..<2 ^ K]"
    using ForwardTransformToBitReverseInPlace_pre_evaluates_aux [OF assms(3,5) K(3), of ?tab] r(2,3) assms(4) by simp_all
  have len: "length (nv_abs v) = 2 ^ K" using assms(5) by (simp add: nv_abs_def NV_GetLength_def)
  have "(\<Sum>j<2 ^ K. uint (m_data v ! j) * node_root (m_data ?tab) (2 ^ K + i) ^ j) mod uint q
      = poly_eval (nv_abs v) (uint psi ^ (2 * brv K i + 1)) mod uint q" if "i < 2 ^ K" for i
  proof -
    have "(\<Sum>j<2 ^ K. uint (m_data v ! j) * node_root (m_data ?tab) (2 ^ K + i) ^ j) = poly_eval (nv_abs v) (node_root (m_data ?tab) (2 ^ K + i))"
      using assms(5) by (simp add: poly_eval_def len) (simp add: nv_abs_def NV_GetLength_def)
    with poly_eval_cong [OF leaf_root [OF K(1,2,4) r(1) that], of "nv_abs v"] show ?thesis by (simp add: rcong_def)
  qed
  then have abs: "nv_abs ?w = map (\<lambda>i. poly_eval (nv_abs v) (uint psi ^ (2 * brv K i + 1)) mod uint q) [0..<2 ^ K]"
    using ev(2) by simp
  have w: "m_modulus ?w = q" "NV_GetLength ?w = 2 ^ K"
    using assms(4) arg_cong [OF abs, of length] by (simp_all add: ForwardTransformToBitReverseInPlace_pre_def Let_def nv_abs_def NV_GetLength_def)
  show thesis
  proof (rule that)
    show "FTT_ForwardTransformToBitReverseInPlace psi (of_nat (2 ^ Suc K)) v T = Inr (?w, T)"
      by (rule FTT_fwd_eq [OF assms(1,2,4,5)])
    show "FTT_InverseTransformFromBitReverseInPlace psi (of_nat (2 ^ Suc K)) ?w T = Inr (v, T)"
      unfolding FTT_inv_eq [OF assms(1,2) w]
      using InverseTransformFromBitReverseInPlace_pre_inverts_aux [OF assms(3,5) K(3), unfolded assms(4), OF r(2-4)] by simp
  qed (use ev abs w in auto)
qed

text \<open>
  C20: the cached transform of a well-formed vector of dimension \<open>n = 2 ^ K\<close>, for a prime modulus and a
  primitive root \<open>psi\<close>, fills the tables when they are missing, evaluates the polynomial of the
  vector at the odd powers \<open>psi ^ (2 * brv i + 1)\<close>, the roots of \<open>x ^ n + 1\<close>, and the inverse transform
  with the tables it leaves returns the vector.
\<close>

theorem FTT_transform_correct:
  assumes "ntt_params q K psi" "FTT_missing T q (2 ^ K) \<or> FTT_ready T q K psi"
    and "nv_wf v" "m_modulus v = q" "NV_GetLength v = 2 ^ K"
  shows "\<exists>w T'. FTT_ForwardTransformToBitReverseInPlace psi (of_nat (2 ^ Suc K)) v T = Inr (w, T')
    \<and> FTT_ready T' q K psi \<and> nv_wf w
    \<and> nv_abs w = map (\<lambda>i. poly_eval (nv_abs v) (uint psi ^ (2 * brv K i + 1)) mod uint q) [0..<2 ^ K]
    \<and> FTT_InverseTransformFromBitReverseInPlace psi (of_nat (2 ^ Suc K)) w T' = Inr (v, T')"
proof -
  obtain T' where T: "(if FTT_missing T q (2 ^ K) then FTT_PreCompute psi (of_nat (2 ^ Suc K)) q T else Inr T) = Inr T'"
    "FTT_ready T' q K psi" using FTT_guard [OF assms(1,2)] .
  obtain w where w: "FTT_ForwardTransformToBitReverseInPlace psi (of_nat (2 ^ Suc K)) v T' = Inr (w, T')" "nv_wf w"
    "nv_abs w = map (\<lambda>i. poly_eval (nv_abs v) (uint psi ^ (2 * brv K i + 1)) mod uint q) [0..<2 ^ K]"
    "FTT_InverseTransformFromBitReverseInPlace psi (of_nat (2 ^ Suc K)) w T' = Inr (v, T')"
    using FTT_forward_aux [OF assms(1) T(2) assms(3-5)] by blast
  have "FTT_ForwardTransformToBitReverseInPlace psi (of_nat (2 ^ Suc K)) v T
      = FTT_ForwardTransformToBitReverseInPlace psi (of_nat (2 ^ Suc K)) v T'"
    by (rule FTT_fwd_tables [OF assms(1) T assms(4,5)])
  with w T(2) show ?thesis by auto
qed

section \<open>Multiplication modulo the cyclotomic polynomial\<close>

text \<open>Coefficient \<open>k\<close> of the product of two polynomials modulo \<open>x ^ n + 1\<close>.\<close>

definition negacyclic :: "nat \<Rightarrow> int list \<Rightarrow> int list \<Rightarrow> nat \<Rightarrow> int" where
  "negacyclic n a b k = (\<Sum>i<n. if i \<le> k then a ! i * b ! (k - i) else - (a ! i * b ! (n + k - i)))"

lemma negacyclic_eval:
  assumes "length a = n" "length b = n" "rcong q (x ^ n) (- 1)"
  shows "rcong q (\<Sum>k<n. negacyclic n a b k * x ^ k) (poly_eval a x * poly_eval b x)"
proof -
  let ?c = "\<lambda>i k. if i \<le> k then a ! i * b ! (k - i) else - (a ! i * b ! (n + k - i))"
  let ?s = "\<lambda>i k. if i \<le> k then k - i else n + k - i"
  have row: "rcong q (\<Sum>k<n. ?c i k * x ^ k) (a ! i * x ^ i * poly_eval b x)" if i: "i < n" for i
  proof -
    have bij: "bij_betw (?s i) {..<n} {..<n}"
      by (rule bij_betw_byWitness [where f' = "\<lambda>j. if i + j < n then i + j else i + j - n"]) (use i in \<open>auto split: if_splits\<close>)
    have "rcong q (?c i k * x ^ k) (a ! i * x ^ i * (b ! ?s i k * x ^ ?s i k))" if k: "k < n" for k
    proof (cases "i \<le> k")
      case True
      then have "x ^ i * x ^ (k - i) = x ^ k" by (simp add: power_add [symmetric])
      then have "?c i k * x ^ k = a ! i * x ^ i * (b ! ?s i k * x ^ ?s i k)" using True by (simp add: mult.assoc mult.left_commute)
      then show ?thesis by simp
    next
      case False
      have "i + (n + k - i) = n + k" using i by simp
      then have "x ^ i * x ^ (n + k - i) = x ^ n * x ^ k" by (simp only: power_add [symmetric])
      then have e: "a ! i * x ^ i * (b ! ?s i k * x ^ ?s i k) = x ^ n * (a ! i * b ! ?s i k * x ^ k)"
        using False by (simp add: mult.assoc mult.left_commute)
      have "rcong q (x ^ n * (a ! i * b ! ?s i k * x ^ k)) (- 1 * (a ! i * b ! ?s i k * x ^ k))"
        using assms(3) by (intro rcong_mult) auto
      then show ?thesis using False unfolding e by (simp add: rcong_sym)
    qed
    then have "rcong q (\<Sum>k<n. ?c i k * x ^ k) (\<Sum>k<n. a ! i * x ^ i * (b ! ?s i k * x ^ ?s i k))"
      by (intro rcong_sum) auto
    also have "\<dots> = a ! i * x ^ i * (\<Sum>k<n. b ! ?s i k * x ^ ?s i k)" by (simp add: sum_distrib_left)
    also have "(\<Sum>k<n. b ! ?s i k * x ^ ?s i k) = poly_eval b x"
      unfolding poly_eval_def assms(2) by (rule sum.reindex_bij_betw [OF bij, of "\<lambda>j. b ! j * x ^ j"])
    finally show ?thesis .
  qed
  have "(\<Sum>k<n. negacyclic n a b k * x ^ k) = (\<Sum>k<n. \<Sum>i<n. ?c i k * x ^ k)"
    by (simp add: negacyclic_def sum_distrib_right)
  also have "\<dots> = (\<Sum>i<n. \<Sum>k<n. ?c i k * x ^ k)" by (rule sum.swap)
  also have "rcong q \<dots> (\<Sum>i<n. a ! i * x ^ i * poly_eval b x)" using row by (intro rcong_sum) auto
  also have "\<dots> = poly_eval a x * poly_eval b x" by (simp add: poly_eval_def assms(1) sum_distrib_right)
  finally show ?thesis .
qed

lemma odd_power_root:
  assumes "primitive_root q K psi"
  shows "rcong (uint q) ((uint psi ^ (2 * b + 1)) ^ 2 ^ K) (- 1)"
proof -
  have "(uint psi ^ (2 * b + 1)) ^ 2 ^ K = (uint psi ^ 2 ^ K) ^ (2 * b + 1)" by (simp only: power_mult [symmetric] mult.commute)
  also have "rcong (uint q) \<dots> ((- 1) ^ (2 * b + 1))" using primitive_root_cong [OF assms] by (rule rcong_power)
  finally show ?thesis by simp
qed

lemma nv_eqI: "nv_abs v = nv_abs w \<Longrightarrow> m_modulus v = m_modulus w \<Longrightarrow> v = (w :: NativeVector)"
proof -
  have "inj (uint :: NativeInt \<Rightarrow> int)" by (rule injI) (simp add: word_uint_eq_iff)
  then show "nv_abs v = nv_abs w \<Longrightarrow> m_modulus v = m_modulus w \<Longrightarrow> v = w"
    by (cases v; cases w) (simp add: nv_abs_def inj_map_eq_map)
qed

text \<open>
  C6: multiplying two transformed vectors entry by entry and transforming back multiplies the two
  polynomials modulo \<open>x ^ n + 1\<close> and \<open>q\<close>.
\<close>

theorem FTT_multiplies_polynomials:
  assumes "ntt_params q K psi" "FTT_ready T q K psi"
    and "nv_wf a" "m_modulus a = q" "NV_GetLength a = 2 ^ K" "nv_wf b" "m_modulus b = q" "NV_GetLength b = 2 ^ K"
  shows "\<exists>wa wb p c. FTT_ForwardTransformToBitReverseInPlace psi (of_nat (2 ^ Suc K)) a T = Inr (wa, T)
    \<and> FTT_ForwardTransformToBitReverseInPlace psi (of_nat (2 ^ Suc K)) b T = Inr (wb, T)
    \<and> NV_ModMul wa wb = Inr p
    \<and> FTT_InverseTransformFromBitReverseInPlace psi (of_nat (2 ^ Suc K)) p T = Inr (c, T)
    \<and> nv_wf c \<and> nv_abs c = map (\<lambda>k. negacyclic (2 ^ K) (nv_abs a) (nv_abs b) k mod uint q) [0..<2 ^ K]"
proof -
  let ?n = "2 ^ K" and ?x = "\<lambda>i. uint psi ^ (2 * brv K i + 1)"
  note root = assms(1) [unfolded ntt_params_def]
  define c where "c = \<lparr>m_data = map (\<lambda>k. word_of_int (negacyclic ?n (nv_abs a) (nv_abs b) k mod uint q)) [0..<?n], m_modulus = q\<rparr>"
  have q: "0 < uint q" using ntt_params_modulus(5) [OF assms(1)] .
  have "uint (word_of_int (z mod uint q) :: NativeInt) = z mod uint q" for z
    using q uint_bounded [of q] by (simp add: uint_word_of_int_eq take_bit_int_eq_self_iff order.strict_trans [OF pos_mod_bound])
  then have absc: "nv_abs c = map (\<lambda>k. negacyclic ?n (nv_abs a) (nv_abs b) k mod uint q) [0..<?n]"
    and "list_all (\<lambda>x. x < q) (m_data c)"
    using q by (simp_all add: c_def nv_abs_def list_all_iff word_less_def)
  then have c: "nv_wf c" "m_modulus c = q" "NV_GetLength c = ?n"
    using ntt_params_modulus [OF assms(1)] by (simp_all add: nv_wf_def c_def NV_GetLength_def)
  obtain wa where wa: "FTT_ForwardTransformToBitReverseInPlace psi (of_nat (2 ^ Suc K)) a T = Inr (wa, T)" "nv_wf wa" "m_modulus wa = q"
    "NV_GetLength wa = ?n" "nv_abs wa = map (\<lambda>i. poly_eval (nv_abs a) (?x i) mod uint q) [0..<?n]"
    using FTT_forward_aux [OF assms(1,2,3-5)] by blast
  obtain wb where wb: "FTT_ForwardTransformToBitReverseInPlace psi (of_nat (2 ^ Suc K)) b T = Inr (wb, T)" "nv_wf wb" "m_modulus wb = q"
    "NV_GetLength wb = ?n" "nv_abs wb = map (\<lambda>i. poly_eval (nv_abs b) (?x i) mod uint q) [0..<?n]"
    using FTT_forward_aux [OF assms(1,2,6-8)] by blast
  obtain wc where wc: "m_modulus wc = q" "nv_abs wc = map (\<lambda>i. poly_eval (nv_abs c) (?x i) mod uint q) [0..<?n]"
    "FTT_InverseTransformFromBitReverseInPlace psi (of_nat (2 ^ Suc K)) wc T = Inr (c, T)"
    using FTT_forward_aux [OF assms(1,2) c] by blast
  have "nv_compatible wa wb" "barrett_exact (m_modulus wa)" using wa wb root by (simp_all add: nv_compatible_def NV_GetLength_def)
  then obtain p where p: "NV_ModMul wa wb = Inr p" "nv_compatible p wa" "nv_abs p = map2 (\<lambda>x y. x * y mod uint q) (nv_abs wa) (nv_abs wb)"
    using NV_mul.vop_correct [OF wa(2) wb(2)] wa(3) by metis
  have len: "length (nv_abs a) = ?n" "length (nv_abs b) = ?n" using assms(5,8) by (simp_all add: nv_abs_def NV_GetLength_def)
  have "poly_eval (nv_abs c) x mod uint q = poly_eval (nv_abs a) x * poly_eval (nv_abs b) x mod uint q"
    if "rcong (uint q) (x ^ ?n) (- 1)" for x
  proof -
    have "rcong (uint q) (poly_eval (nv_abs c) x) (\<Sum>k<?n. negacyclic ?n (nv_abs a) (nv_abs b) k * x ^ k)"
      by (simp add: poly_eval_def absc) (intro rcong_sum rcong_mult, auto)
    from rcong_trans [OF this negacyclic_eval [OF len that]] show ?thesis by (simp add: rcong_def)
  qed
  then have "nv_abs wc = nv_abs p"
    using odd_power_root [of q K psi] root by (auto simp: wc(2) p(3) wa(5) wb(5) mod_mult_eq intro!: nth_equalityI)
  then have "wc = p" using p(2) wa(3) wc(1) by (intro nv_eqI) (simp_all add: nv_compatible_def)
  then show ?thesis using wa(1) wb(1) p(1) wc(3) c(1) absc by blast
qed

section \<open>Sample parameters\<close>

text \<open>Dimension 4 modulo 17, where 2 is a primitive root: \<open>2 ^ 4 = -1\<close>.\<close>

lemma sample_params: "ntt_params 17 2 2"
  using barrett_exact_17 by (simp add: ntt_params_def primitive_root_def)

definition sample_ring :: NativeVector where
  "sample_ring = \<lparr>m_data = [1, 2, 3, 4], m_modulus = 17\<rparr>"

lemma sample_ring_wf: "nv_wf sample_ring" "m_modulus sample_ring = 17" "NV_GetLength sample_ring = 2 ^ 2"
  by (simp_all add: nv_wf_def sample_ring_def GetMSB_17 MAX_MODULUS_SIZE_def NV_GetLength_def)

lemma sample_missing: "FTT_missing FTT_empty 17 (2 ^ 2)"
  by (simp add: FTT_missing_def FTT_empty_def)

lemma sample_tables: "\<exists>T. FTT_ready T 17 2 2"
  using FTT_PreCompute_ready_aux [OF sample_params sample_missing] by blast

theorem FTT_PreCompute_ready_witness:
  "\<exists>T'. FTT_PreCompute 2 (of_nat (2 ^ Suc 2)) 17 FTT_empty = Inr T' \<and> FTT_ready T' 17 2 2"
  using FTT_PreCompute_ready [OF sample_params, of FTT_empty] sample_missing by (simp only: if_True)

theorem FTT_transform_correct_witness:
  "\<exists>w T'. FTT_ForwardTransformToBitReverseInPlace 2 (of_nat (2 ^ Suc 2)) sample_ring FTT_empty = Inr (w, T')
    \<and> FTT_InverseTransformFromBitReverseInPlace 2 (of_nat (2 ^ Suc 2)) w T' = Inr (sample_ring, T')"
  using FTT_transform_correct [OF sample_params disjI1 [OF sample_missing] sample_ring_wf] by blast

theorem FTT_multiplies_polynomials_witness:
  "\<exists>T wa wb p c. FTT_ForwardTransformToBitReverseInPlace 2 (of_nat (2 ^ Suc 2)) sample_ring T = Inr (wa, T)
    \<and> NV_ModMul wa wb = Inr p \<and> FTT_InverseTransformFromBitReverseInPlace 2 (of_nat (2 ^ Suc 2)) p T = Inr (c, T)
    \<and> nv_abs c = [10, 14, 11, 3]"
proof -
  obtain T where T: "FTT_ready T 17 2 2" using sample_tables by blast
  have e: "map (\<lambda>k. negacyclic (2 ^ 2) (nv_abs sample_ring) (nv_abs sample_ring) k mod uint (17 :: NativeInt)) [0..<2 ^ 2] = [10, 14, 11, 3]"
    by code_simp
  from FTT_multiplies_polynomials [OF sample_params T sample_ring_wf sample_ring_wf, unfolded e] show ?thesis by blast
qed

theorem ForwardTransformToBitReverseInPlace_pre_evaluates_witness:
  "\<exists>tab pre. nv_wf (ForwardTransformToBitReverseInPlace_pre tab pre sample_ring)
    \<and> length (nv_abs (ForwardTransformToBitReverseInPlace_pre tab pre sample_ring)) = 4"
proof -
  obtain T where T: "FTT_ready T 17 2 2" using sample_tables by blast
  have "m_modulus sample_ring = 17" by (simp add: sample_ring_def)
  with ForwardTransformToBitReverseInPlace_pre_evaluates [OF sample_ring_wf(1,3)] FTT_ready_fields(2,3) [OF T]
  show ?thesis by fastforce
qed

theorem InverseTransformFromBitReverseInPlace_pre_inverts_witness:
  "\<exists>tab pre itab ipre coi. InverseTransformFromBitReverseInPlace_pre itab ipre coi (PrepModMulConst coi 17)
    (ForwardTransformToBitReverseInPlace_pre tab pre sample_ring) = sample_ring"
proof -
  obtain T where T: "FTT_ready T 17 2 2" using sample_tables by blast
  have "(2 :: nat) < 64" by simp
  from InverseTransformFromBitReverseInPlace_pre_inverts [OF sample_ring_wf(1,3) this, unfolded sample_ring_wf(2), OF FTT_ready_fields(2-4) [OF T]]
  show ?thesis by blast
qed

theorem ForwardTransform_variants_agree_witness:
  "\<exists>tab pre. ForwardTransformToBitReverseInPlace tab sample_ring = ForwardTransformToBitReverseInPlace_pre tab pre sample_ring
    \<and> ForwardTransformToBitReverse sample_ring tab NV_empty = Inl math_error"
proof -
  obtain T where T: "FTT_ready T 17 2 2" using sample_tables by blast
  from ForwardTransform_variants_agree [OF sample_ring_wf(1,3), unfolded sample_ring_wf(2), OF _ barrett_exact_17 FTT_ready_fields(2,3) [OF T], of NV_empty]
  show ?thesis by (auto simp: NV_empty_def NV_GetLength_def)
qed

end
