(* ===== verification/NbTheory.thy ===== *)
theory NbTheory
  imports NTT
begin

text \<open>
  The number theory of \<open>src/core/lib/math/nbtheory.cpp\<close> and \<open>nbtheory2.cpp\<close> for
  \<open>NativeInteger\<close>: random numbers below a bound, greatest common divisors, the Miller-Rabin test,
  Pollard's rho, prime factors, the searches for primes, generators and roots of unity.

  \<open>std::uniform_int_distribution\<close> and the engine behind it are a parameter \<open>unif\<close>: given the upper
  bound of the distribution and the engine's state \<open>g\<close> it returns the sample and the next state.
  The standard promises only that a sample is at most the bound (\<open>uniform_source\<close>). The loops that
  repeat until a random candidate is accepted take \<open>fuel\<close>, the number of rounds each may make;
  \<open>None\<close> is a search that has not ended by then.
\<close>

section \<open>Random numbers\<close>

text \<open>One round of the \<open>do\<close> loop of \<open>RNG\<close>.\<close>

definition RNG_round :: "(usint \<Rightarrow> 'g \<Rightarrow> usint \<times> 'g) \<Rightarrow> NativeInt \<Rightarrow> 'g \<Rightarrow> NativeInt \<times> 'g" where
  "RNG_round unif modulus g =
     (let modulusWidth = (of_nat (GetMSB modulus) :: usint);
          chunksPerValue = (modulusWidth - 1) div 32;
          (result, g) = for_range 0 (unat chunksPerValue)
             (\<lambda>i (result, g). let (val, g) = unif 0xFFFFFFFF g;
                                  temp = LShiftEq (ucast val) (i * 32)
                              in (AddEqFast result temp, g))
             (0, g);
          temp = RShift modulus (unat (chunksPerValue * 32))
      in if GetMSB temp \<noteq> 1 then
           (let bound = ucast temp;
                (val, g) = unif bound g;
                temp = LShiftEq (ucast val) (unat (chunksPerValue * 32))
            in (AddEqFast result temp, g))
         else (result, g))"

fun RNG :: "(usint \<Rightarrow> 'g \<Rightarrow> usint \<times> 'g) \<Rightarrow> nat \<Rightarrow> NativeInt \<Rightarrow> 'g \<Rightarrow> (NativeInt \<times> 'g) option" where
  "RNG unif 0 modulus g = None"
| "RNG unif (Suc fuel) modulus g =
     (let (result, g) = RNG_round unif modulus g
      in if result > modulus then RNG unif fuel modulus g else Some (result, g))"

section \<open>Greatest common divisor\<close>

text \<open>The function is a template; it is used with \<open>NativeInteger\<close> and with \<open>usint\<close>.\<close>

function GreatestCommonDivisor :: "'a::len word \<Rightarrow> 'a word \<Rightarrow> 'a word" where
  "GreatestCommonDivisor m_a m_b =
     (if m_b \<noteq> 0 then GreatestCommonDivisor m_b (m_a mod m_b) else m_a)"
  by pat_completeness auto
termination
  by (relation "measure (\<lambda>(a, b). unat b)") (auto simp: unat_mod word_ge_0_nat)

declare GreatestCommonDivisor.simps [simp del]

definition GetTotientList :: "'a::len word \<Rightarrow> 'a word list" where
  "GetTotientList n = filter (\<lambda>i. GreatestCommonDivisor i n = 1) (map of_nat [1..<unat n])"

section \<open>The Miller-Rabin test\<close>

text \<open>The loop of \<open>WitnessFunction\<close> over \<open>i = 1, ..., s\<close>, with \<open>k\<close> rounds left.\<close>

fun WitnessFunction_loop :: "nat \<Rightarrow> NativeInt \<Rightarrow> NativeInt \<Rightarrow> bool" where
  "WitnessFunction_loop 0 md p = (md \<noteq> 1)"
| "WitnessFunction_loop (Suc k) md p =
     (let prevMod = (md \<noteq> 1 \<and> md \<noteq> SubFast p 1);
          md = ModMulFastEq md md p
      in if md = 1 \<and> prevMod then True else WitnessFunction_loop k md p)"

definition WitnessFunction :: "NativeInt \<Rightarrow> NativeInt \<Rightarrow> nat \<Rightarrow> NativeInt \<Rightarrow> bool" where
  "WitnessFunction a d s p = WitnessFunction_loop s (ModExp a d p) p"

text \<open>
  The loop that splits \<open>p - 1\<close> into \<open>2 ^ s * d\<close>. It is only entered with \<open>d > 0\<close>: at 0 the source
  would not end, and the model stops there.
\<close>

function odd_part :: "NativeInt \<Rightarrow> nat \<Rightarrow> NativeInt \<times> nat" where
  "odd_part d s = (if d \<noteq> 0 \<and> Mod d 2 = 0 then odd_part (d div 2) (Suc s) else (d, s))"
  by pat_completeness auto
termination
  by (relation "measure (\<lambda>(d, s). unat d)") (auto simp: unat_div word_ge_0_nat)

declare odd_part.simps [simp del]

fun MillerRabin_loop :: "(usint \<Rightarrow> 'g \<Rightarrow> usint \<times> 'g) \<Rightarrow> nat \<Rightarrow> nat \<Rightarrow> NativeInt \<Rightarrow> NativeInt \<Rightarrow> nat \<Rightarrow> bool \<Rightarrow> 'g \<Rightarrow> (bool \<times> 'g) option" where
  "MillerRabin_loop unif fuel 0 p d s composite g = Some (\<not> composite, g)"
| "MillerRabin_loop unif fuel (Suc k) p d s composite g =
     (case RNG unif fuel (SubFast p 3) g of
        None \<Rightarrow> None
      | Some (r, g) \<Rightarrow>
          (let a = ModAdd r 2 p; composite = WitnessFunction a d s p
           in if composite then Some (\<not> composite, g)
              else MillerRabin_loop unif fuel k p d s composite g))"

definition MillerRabinPrimalityTest :: "(usint \<Rightarrow> 'g \<Rightarrow> usint \<times> 'g) \<Rightarrow> nat \<Rightarrow> NativeInt \<Rightarrow> nat \<Rightarrow> 'g \<Rightarrow> (bool \<times> 'g) option" where
  "MillerRabinPrimalityTest unif fuel p niter g =
     (if p < 2 \<or> p \<noteq> 2 \<and> Mod p 2 = 0 then Some (False, g)
      else if p = 2 \<or> p = 3 \<or> p = 5 then Some (True, g)
      else let (d, s) = odd_part (SubFast p 1) 0
           in MillerRabin_loop unif fuel niter p d s True g)"

section \<open>Factors\<close>

fun PollardRho_loop :: "nat \<Rightarrow> NativeInt \<Rightarrow> NativeInt \<Rightarrow> NativeInt \<Rightarrow> NativeInt \<Rightarrow> NativeInt \<Rightarrow> NativeInt option" where
  "PollardRho_loop 0 n mu c x xx = None"
| "PollardRho_loop (Suc fuel) n mu c x xx =
     (let x = ModAdd_mu (ModMul_mu x x n mu) c n mu;
          xx = ModAdd_mu (ModMul_mu xx xx n mu) c n mu;
          xx = ModAdd_mu (ModMul_mu xx xx n mu) c n mu;
          divisor = GreatestCommonDivisor (if x > xx then SubFast x xx else SubFast xx x) n
      in if divisor = 1 then PollardRho_loop fuel n mu c x xx else Some divisor)"

definition PollardRhoFactorization :: "(usint \<Rightarrow> 'g \<Rightarrow> usint \<times> 'g) \<Rightarrow> nat \<Rightarrow> NativeInt \<Rightarrow> 'g \<Rightarrow> (NativeInt \<times> 'g) option" where
  "PollardRhoFactorization unif fuel n g =
     (case RNG unif fuel n g of None \<Rightarrow> None
      | Some (c, g) \<Rightarrow>
     (case RNG unif fuel n g of None \<Rightarrow> None
      | Some (x, g) \<Rightarrow>
        if Mod n 2 = 0 then Some (2, g)
        else let mu = ComputeMu n
             in (case PollardRho_loop fuel n mu c x x of None \<Rightarrow> None
                 | Some divisor \<Rightarrow> Some (divisor, g))))"

text \<open>
  \<open>PrimeFactorize\<close> with the set of factors in ascending order, as \<open>std::set\<close> iterates over it. The
  default number of Miller-Rabin rounds is 100. The first argument bounds the depth of the recursion.
\<close>

fun PrimeFactorize :: "nat \<Rightarrow> (usint \<Rightarrow> 'g \<Rightarrow> usint \<times> 'g) \<Rightarrow> nat \<Rightarrow> NativeInt \<Rightarrow> NativeInt list \<Rightarrow> 'g \<Rightarrow> (NativeInt list \<times> 'g) option" where
  "PrimeFactorize 0 unif fuel n primeFactors g = None"
| "PrimeFactorize (Suc depth) unif fuel n primeFactors g =
     (if n = 0 \<or> n = 1 then Some (primeFactors, g)
      else case MillerRabinPrimalityTest unif fuel n 100 g of None \<Rightarrow> None
      | Some (True, g) \<Rightarrow> Some (insort_insert n primeFactors, g)
      | Some (False, g) \<Rightarrow>
     (case PollardRhoFactorization unif fuel n g of None \<Rightarrow> None
      | Some (divisor, g) \<Rightarrow>
     (case PrimeFactorize depth unif fuel divisor primeFactors g of None \<Rightarrow> None
      | Some (primeFactors, g) \<Rightarrow> PrimeFactorize depth unif fuel (n div divisor) primeFactors g)))"

definition GetTotient :: "(usint \<Rightarrow> 'g \<Rightarrow> usint \<times> 'g) \<Rightarrow> nat \<Rightarrow> NativeInt \<Rightarrow> 'g \<Rightarrow> (NativeInt \<times> 'g) option" where
  "GetTotient unif fuel enn g =
     (case PrimeFactorize fuel unif fuel enn [] g of None \<Rightarrow> None
      | Some (factors, g) \<Rightarrow>
          (let (numerator, primeProd) =
                 fold (\<lambda>r (numerator, primeProd). (MulFast numerator (SubFast r 1), MulFast primeProd r)) factors (1, 1)
           in Some (MulFast (enn div primeProd) numerator, g)))"

section \<open>Generators and roots of unity\<close>

text \<open>
  The \<open>for\<close> loop over the prime factors: it stops at the first factor whose power is 1, and the
  candidate is a generator when the loop has counted all the factors.
\<close>

fun count_factors :: "NativeInt \<Rightarrow> NativeInt \<Rightarrow> NativeInt \<Rightarrow> NativeInt list \<Rightarrow> nat" where
  "count_factors gen order q [] = 0"
| "count_factors gen order q (f # fs) =
     (if ModExp gen (order div f) q = 1 then 0 else Suc (count_factors gen order q fs))"

fun FindGenerator_loop :: "nat \<Rightarrow> (usint \<Rightarrow> 'g \<Rightarrow> usint \<times> 'g) \<Rightarrow> nat \<Rightarrow> NativeInt \<Rightarrow> NativeInt list \<Rightarrow> 'g \<Rightarrow> (NativeInt \<times> 'g) option" where
  "FindGenerator_loop 0 unif fuel q primeFactors g = None"
| "FindGenerator_loop (Suc rounds) unif fuel q primeFactors g =
     (let qm1 = SubFast q 1; qm2 = SubFast q 2
      in case RNG unif fuel qm2 g of None \<Rightarrow> None
         | Some (r, g) \<Rightarrow>
             (let gen = AddFast r 1
              in if count_factors gen qm1 q primeFactors = length primeFactors then Some (gen, g)
                 else FindGenerator_loop rounds unif fuel q primeFactors g))"

definition FindGenerator :: "(usint \<Rightarrow> 'g \<Rightarrow> usint \<times> 'g) \<Rightarrow> nat \<Rightarrow> NativeInt \<Rightarrow> 'g \<Rightarrow> (NativeInt \<times> 'g) option" where
  "FindGenerator unif fuel q g =
     (case PrimeFactorize fuel unif fuel (SubFast q 1) [] g of None \<Rightarrow> None
      | Some (primeFactors, g) \<Rightarrow> FindGenerator_loop fuel unif fuel q primeFactors g)"

fun FindGeneratorCyclic_loop :: "nat \<Rightarrow> (usint \<Rightarrow> 'g \<Rightarrow> usint \<times> 'g) \<Rightarrow> nat \<Rightarrow> NativeInt \<Rightarrow> NativeInt \<Rightarrow> NativeInt list \<Rightarrow> 'g \<Rightarrow> (NativeInt \<times> 'g) option" where
  "FindGeneratorCyclic_loop 0 unif fuel q phi_q primeFactors g = None"
| "FindGeneratorCyclic_loop (Suc rounds) unif fuel q phi_q primeFactors g =
     (case RNG unif fuel phi_q g of None \<Rightarrow> None
      | Some (r, g) \<Rightarrow>
          (let gen = AddFast r 1
           in if GreatestCommonDivisor gen q \<noteq> 1 then
                FindGeneratorCyclic_loop rounds unif fuel q phi_q primeFactors g
              else if count_factors gen phi_q q primeFactors = length primeFactors then Some (gen, g)
              else FindGeneratorCyclic_loop rounds unif fuel q phi_q primeFactors g))"

text \<open>\<open>GetTotient\<close> is called twice with the same argument, for \<open>phi_q\<close> and \<open>phi_q_m1\<close>.\<close>

definition FindGeneratorCyclic :: "(usint \<Rightarrow> 'g \<Rightarrow> usint \<times> 'g) \<Rightarrow> nat \<Rightarrow> NativeInt \<Rightarrow> 'g \<Rightarrow> (NativeInt \<times> 'g) option" where
  "FindGeneratorCyclic unif fuel q g =
     (case GetTotient unif fuel q g of None \<Rightarrow> None
      | Some (phi_q, g) \<Rightarrow>
     (case GetTotient unif fuel q g of None \<Rightarrow> None
      | Some (phi_q_m1, g) \<Rightarrow>
     (case PrimeFactorize fuel unif fuel phi_q [] g of None \<Rightarrow> None
      | Some (primeFactors, g) \<Rightarrow> FindGeneratorCyclic_loop fuel unif fuel q phi_q primeFactors g)))"

definition IsGenerator :: "(usint \<Rightarrow> 'g \<Rightarrow> usint \<times> 'g) \<Rightarrow> nat \<Rightarrow> NativeInt \<Rightarrow> NativeInt \<Rightarrow> 'g \<Rightarrow> (bool \<times> 'g) option" where
  "IsGenerator unif fuel gen q g =
     (case GetTotient unif fuel q g of None \<Rightarrow> None
      | Some (qm1, g) \<Rightarrow>
     (case PrimeFactorize fuel unif fuel qm1 [] g of None \<Rightarrow> None
      | Some (primeFactors, g) \<Rightarrow>
          Some (count_factors gen qm1 q primeFactors = length primeFactors, g)))"

text \<open>
  The end of \<open>RootOfUnity\<close>: \<open>x\<close> runs through the powers of \<open>result\<close> whose exponents are the coprimes,
  and the smallest of them other than 1 is kept.
\<close>

fun min_root_loop :: "NativeInt \<Rightarrow> NativeInt \<Rightarrow> NativeInt \<Rightarrow> NativeInt list \<Rightarrow> NativeInt \<Rightarrow> NativeInt \<Rightarrow> NativeInt \<Rightarrow> NativeInt" where
  "min_root_loop result modulus mu [] x minRU curPowIdx = minRU"
| "min_root_loop result modulus mu (nextPowIdx # coprimes) x minRU curPowIdx =
     (let diffPow = SubFast nextPowIdx curPowIdx;
          x = for_range 0 (unat diffPow) (\<lambda>j x. ModMulEq_mu x result modulus mu) x;
          minRU = (if x < minRU \<and> x \<noteq> 1 then x else minRU)
      in min_root_loop result modulus mu coprimes x minRU nextPowIdx)"

definition min_root :: "usint \<Rightarrow> NativeInt \<Rightarrow> NativeInt \<Rightarrow> NativeInt" where
  "min_root m modulus result =
     (let mu = ComputeMu modulus; x = ModMulEq_mu 1 result modulus mu
      in min_root_loop result modulus mu (GetTotientList (ucast m)) x x 1)"

fun RootOfUnity :: "nat \<Rightarrow> (usint \<Rightarrow> 'g \<Rightarrow> usint \<times> 'g) \<Rightarrow> nat \<Rightarrow> usint \<Rightarrow> NativeInt \<Rightarrow> 'g \<Rightarrow> (NativeInt \<times> 'g) result option" where
  "RootOfUnity 0 unif fuel m modulus g = None"
| "RootOfUnity (Suc depth) unif fuel m modulus g =
     (let M = ucast m
      in if Mod (SubFast modulus 1) M \<noteq> 0 then Some (Inl math_error)
         else case FindGenerator unif fuel modulus g of None \<Rightarrow> None
         | Some (gen, g) \<Rightarrow>
             (let result = ModExp gen (SubFast modulus 1 div M) modulus
              in if result = 1 then
                   (case RootOfUnity depth unif fuel m modulus g of None \<Rightarrow> None
                    | Some (Inl e) \<Rightarrow> Some (Inl e)
                    | Some (Inr (result, g)) \<Rightarrow> Some (Inr (min_root m modulus result, g)))
                 else Some (Inr (min_root m modulus result, g))))"

fun RootsOfUnity :: "(usint \<Rightarrow> 'g \<Rightarrow> usint \<times> 'g) \<Rightarrow> nat \<Rightarrow> usint \<Rightarrow> NativeInt list \<Rightarrow> 'g \<Rightarrow> (NativeInt list \<times> 'g) result option" where
  "RootsOfUnity unif fuel m [] g = Some (Inr ([], g))"
| "RootsOfUnity unif fuel m (modulus # moduli) g =
     (case RootOfUnity fuel unif fuel m modulus g of None \<Rightarrow> None
      | Some (Inl e) \<Rightarrow> Some (Inl e)
      | Some (Inr (result, g)) \<Rightarrow>
     (case RootsOfUnity unif fuel m moduli g of None \<Rightarrow> None
      | Some (Inl e) \<Rightarrow> Some (Inl e)
      | Some (Inr (roots, g)) \<Rightarrow> Some (Inr (result # roots, g))))"

section \<open>Searching for primes\<close>

fun FirstPrime_loop :: "nat \<Rightarrow> (usint \<Rightarrow> 'g \<Rightarrow> usint \<times> 'g) \<Rightarrow> nat \<Rightarrow> NativeInt \<Rightarrow> NativeInt \<Rightarrow> 'g \<Rightarrow> (NativeInt \<times> 'g) result option" where
  "FirstPrime_loop 0 unif fuel qNew m g = None"
| "FirstPrime_loop (Suc rounds) unif fuel qNew m g =
     (case MillerRabinPrimalityTest unif fuel qNew 100 g of None \<Rightarrow> None
      | Some (True, g) \<Rightarrow> Some (Inr (qNew, g))
      | Some (False, g) \<Rightarrow>
          (let qNew2 = AddFast qNew m
           in if qNew2 < qNew then Some (Inl math_error)
              else FirstPrime_loop rounds unif fuel qNew2 m g))"

text \<open>
  \<open>FirstPrime\<close>. The test by logarithms compares \<open>nBits\<close> with the exponent of the power of two \<open>qNew\<close>,
  which is \<open>GetMSB qNew - 1\<close>. Every exception inside the \<open>try\<close> leaves as \<open>math_error\<close>.
\<close>

definition FirstPrime :: "(usint \<Rightarrow> 'g \<Rightarrow> usint \<times> 'g) \<Rightarrow> nat \<Rightarrow> NativeInt \<Rightarrow> NativeInt \<Rightarrow> 'g \<Rightarrow> (NativeInt \<times> 'g) result option" where
  "FirstPrime unif fuel nBits m g =
     (if m = 0 then Some (Inl div_by_zero)
      else
      let r = ModExp 2 nBits m;
          qNew = LShift 1 (unat nBits)
      in if qNew = 0 \<or> GetMSB qNew - 1 < unat nBits then Some (Inl math_error)
         else let qNew2 = (if r > 0 then AddFast (AddFast qNew (SubFast m r)) 1 else AddFast qNew 1)
              in if qNew2 < qNew then Some (Inl math_error)
                 else FirstPrime_loop fuel unif fuel qNew2 m g)"

fun NextPrime_loop :: "nat \<Rightarrow> (usint \<Rightarrow> 'g \<Rightarrow> usint \<times> 'g) \<Rightarrow> nat \<Rightarrow> NativeInt \<Rightarrow> NativeInt \<Rightarrow> NativeInt \<Rightarrow> 'g \<Rightarrow> (NativeInt \<times> 'g) result option" where
  "NextPrime_loop 0 unif fuel qOld qNew M g = None"
| "NextPrime_loop (Suc rounds) unif fuel qOld qNew M g =
     (let qNew = AddEqFast qNew M
      in if qNew < qOld then Some (Inl math_error)
         else case MillerRabinPrimalityTest unif fuel qNew 100 g of None \<Rightarrow> None
         | Some (True, g) \<Rightarrow> Some (Inr (qNew, g))
         | Some (False, g) \<Rightarrow> NextPrime_loop rounds unif fuel qOld qNew M g)"

definition NextPrime :: "(usint \<Rightarrow> 'g \<Rightarrow> usint \<times> 'g) \<Rightarrow> nat \<Rightarrow> NativeInt \<Rightarrow> NativeInt \<Rightarrow> 'g \<Rightarrow> (NativeInt \<times> 'g) result option" where
  "NextPrime unif fuel q m g = NextPrime_loop fuel unif fuel q q m g"

fun PreviousPrime_loop :: "nat \<Rightarrow> (usint \<Rightarrow> 'g \<Rightarrow> usint \<times> 'g) \<Rightarrow> nat \<Rightarrow> NativeInt \<Rightarrow> NativeInt \<Rightarrow> NativeInt \<Rightarrow> 'g \<Rightarrow> (NativeInt \<times> 'g) result option" where
  "PreviousPrime_loop 0 unif fuel q qNew M g = None"
| "PreviousPrime_loop (Suc rounds) unif fuel q qNew M g =
     (case MillerRabinPrimalityTest unif fuel qNew 100 g of None \<Rightarrow> None
      | Some (True, g) \<Rightarrow> Some (Inr (qNew, g))
      | Some (False, g) \<Rightarrow>
          (let qNew = SubEqFast qNew M
           in if qNew > q then Some (Inl config_error)
              else PreviousPrime_loop rounds unif fuel q qNew M g))"

definition PreviousPrime :: "(usint \<Rightarrow> 'g \<Rightarrow> usint \<times> 'g) \<Rightarrow> nat \<Rightarrow> NativeInt \<Rightarrow> NativeInt \<Rightarrow> 'g \<Rightarrow> (NativeInt \<times> 'g) result option" where
  "PreviousPrime unif fuel q m g = PreviousPrime_loop fuel unif fuel q (SubFast q m) m g"

text \<open>\<open>ceil(log2(n))\<close>, read back as an integer.\<close>

definition NextPowerOfTwo :: "NativeInt \<Rightarrow> nat" where
  "NextPowerOfTwo n = ceil_log2 (unat n)"

section \<open>Correctness of the greatest common divisor\<close>

lemma GreatestCommonDivisor_gcd: "unat (GreatestCommonDivisor a b) = gcd (unat a) (unat b)"
proof (induction a b rule: GreatestCommonDivisor.induct)
  case (1 a b)
  show ?case
  proof (cases "b = 0")
    case True
    then show ?thesis by (simp add: GreatestCommonDivisor.simps)
  next
    case False
    then have "unat (GreatestCommonDivisor a b) = gcd (unat b) (unat a mod unat b)"
      using 1 by (subst GreatestCommonDivisor.simps) (simp add: unat_mod)
    then show ?thesis by (metis gcd_red_nat)
  qed
qed

section \<open>Fermat's little theorem\<close>

lemma prime_dvd_choose:
  assumes "prime_nat p" "0 < k" "k < p"
  shows "p dvd (p choose k)"
proof -
  obtain p' k' where p: "p = Suc p'" and k: "k = Suc k'" using assms by (cases p; cases k) auto
  have "k * (p choose k) = p * (p' choose k')"
    unfolding p k using Suc_times_binomial_eq [of p' k'] by (simp add: mult.commute)
  then have "p dvd k * (p choose k)" by simp
  moreover have "\<not> p dvd k" using assms(2,3) by (simp add: nat_dvd_not_less)
  ultimately show ?thesis using prime_nat_dvd_mult [OF assms(1)] by blast
qed

lemma fermat_power:
  assumes "prime_nat p"
  shows "a ^ p mod p = a mod p"
proof (induction a)
  case 0
  then show ?case using assms by (simp add: prime_nat_def zero_power)
next
  case (Suc a)
  have p: "0 < p" using assms by (simp add: prime_nat_def)
  have "(Suc a) ^ p = (\<Sum>k\<le>p. (p choose k) * a ^ k)"
    using binomial [of a 1 p] by simp
  also have "\<dots> = (\<Sum>k\<in>{0<..<p}. (p choose k) * a ^ k) + (1 + a ^ p)"
  proof -
    have "{..p} = {0<..<p} \<union> {0, p}" using p by auto
    then show ?thesis using p by (simp add: sum.union_disjoint)
  qed
  finally have eq: "(Suc a) ^ p = (\<Sum>k\<in>{0<..<p}. (p choose k) * a ^ k) + (1 + a ^ p)" .
  have "p dvd (\<Sum>k\<in>{0<..<p}. (p choose k) * a ^ k)"
    by (rule dvd_sum) (simp add: prime_dvd_choose [OF assms])
  then have "(Suc a) ^ p mod p = (1 + a ^ p) mod p" unfolding eq by auto
  also have "\<dots> = (1 + a) mod p" using Suc by (metis mod_add_right_eq)
  finally show ?case by simp
qed

lemma fermat_little:
  assumes "prime_nat p" "\<not> p dvd a"
  shows "a ^ (p - 1) mod p = 1"
proof -
  obtain p' where p: "p = Suc p'" using assms(1) by (cases p) (auto simp: prime_nat_def)
  have "int p dvd int (a ^ p) - int a"
    using fermat_power [OF assms(1), of a] by (metis mod_eq_dvd_iff of_nat_mod)
  moreover have "int (a ^ p) - int a = int a * (int (a ^ p') - 1)" by (simp add: p algebra_simps)
  moreover have "coprime (int p) (int a)" using prime_nat_coprime [OF assms] by simp
  ultimately have "int p dvd int (a ^ p') - 1" by (metis coprime_dvd_mult_right_iff)
  then have "int (a ^ p') mod int p = 1 mod int p" by (simp add: mod_eq_dvd_iff)
  then have "int (a ^ p' mod p) = int (1 mod p)" by (simp only: zmod_int of_nat_1)
  then have "a ^ p' mod p = 1 mod p" by (simp only: of_nat_eq_iff)
  then show ?thesis using assms(1) by (simp add: p prime_nat_def)
qed

text \<open>Modulo a prime, 1 has no square roots but 1 and \<open>-1\<close>.\<close>

lemma prime_square_root_of_one:
  assumes "prime_nat p" "x < p" "x * x mod p = 1"
  shows "x = 1 \<or> x = p - 1"
proof -
  have p1: "1 < p" using assms(1) by (simp add: prime_nat_def)
  have x: "0 < x" using assms(3) by (cases x) auto
  have "int p dvd int (x * x) - 1"
    using assms(3) p1 by (metis mod_eq_dvd_iff mod_less of_nat_1 of_nat_mod)
  moreover have "int (x * x) - 1 = int ((x - 1) * (x + 1))"
    using x by (simp add: of_nat_diff algebra_simps)
  ultimately have "p dvd (x - 1) * (x + 1)" by (metis of_nat_dvd_iff)
  then have "p dvd x - 1 \<or> p dvd x + 1" using prime_nat_dvd_mult [OF assms(1)] by blast
  then show ?thesis
  proof
    assume "p dvd x - 1"
    then show ?thesis using assms(2) x by (auto dest: dvd_imp_le)
  next
    assume "p dvd x + 1"
    then have "p \<le> x + 1" by (rule dvd_imp_le) simp
    then show ?thesis using assms(2) by linarith
  qed
qed

section \<open>Primes pass the Miller-Rabin test\<close>

lemma RNG_le: "RNG unif fuel modulus g = Some (r, g') \<Longrightarrow> r \<le> modulus"
  by (induction fuel arbitrary: g) (auto simp: Let_def not_less split: prod.splits if_splits)

lemma unat_ModMulFastEq: "q \<noteq> 0 \<Longrightarrow> unat (ModMulFastEq a b q) = unat a * unat b mod unat q"
  by (drule ModMulFast_value [of q a b])
    (simp only: ModMulFastEq_def uint_nat of_nat_mult [symmetric] zmod_int [symmetric] of_nat_eq_iff)

lemma unat_pred: "p \<noteq> 0 \<Longrightarrow> unat (p - 1 :: 'a::len word) = unat p - 1"
  by (rule unat_minus_one)

lemma WitnessFunction_loop_prime:
  assumes "prime_nat (unat p)" "unat md < unat p" "unat md ^ 2 ^ k mod unat p = 1"
  shows "\<not> WitnessFunction_loop k md p"
  using assms(2,3)
proof (induction k arbitrary: md)
  case 0
  then have "unat md = unat (1 :: NativeInt)" by simp
  then have "md = 1" by (rule unsigned_word_eqI)
  then show ?case by simp
next
  case (Suc k)
  have p: "p \<noteq> 0" "1 < unat p" using assms(1) by (auto simp: prime_nat_def)
  let ?md = "ModMulFastEq md md p"
  have sq: "unat ?md = unat md * unat md mod unat p" by (rule unat_ModMulFastEq [OF p(1)])
  have lt: "unat ?md < unat p" using p(2) by (simp add: sq)
  have "(unat md * unat md) ^ 2 ^ k mod unat p = 1"
    using Suc.prems(2) by (simp add: power_mult_distrib power_add [symmetric] mult_2)
  then have "unat ?md ^ 2 ^ k mod unat p = 1" unfolding sq by (simp add: power_mod)
  note IH = Suc.IH [OF lt this]
  have "md = 1 \<or> md = p - 1" if "?md = 1"
  proof -
    have "unat md * unat md mod unat p = 1" using that sq by simp
    then have "unat md = 1 \<or> unat md = unat p - 1"
      by (rule prime_square_root_of_one [OF assms(1) Suc.prems(1)])
    then show ?thesis using p(1) by (auto simp: word_unat_eq_iff unat_pred)
  qed
  then show ?case using IH by (auto simp: Let_def SubFast_def)
qed

lemma odd_part_value:
  "d \<noteq> 0 \<Longrightarrow> odd_part d s = (d', s') \<Longrightarrow> s \<le> s' \<and> unat d = unat d' * 2 ^ (s' - s)"
proof (induction d s rule: odd_part.induct)
  case (1 d s)
  show ?case
  proof (cases "Mod d 2 = 0")
    case True
    then have even: "unat d mod 2 = 0" by (simp add: Mod_def word_unat_eq_iff unat_mod)
    then have nz: "d div 2 \<noteq> 0"
      using 1(2) by (auto simp: word_unat_eq_iff unat_div)
    have "odd_part (d div 2) (Suc s) = (d', s')" using 1(2,3) True by (subst (asm) odd_part.simps) simp
    then have ih: "Suc s \<le> s' \<and> unat (d div 2) = unat d' * 2 ^ (s' - Suc s)"
      using 1(1) 1(2) True nz by blast
    then have "s' - s = Suc (s' - Suc s)" by linarith
    moreover have "unat d = 2 * unat (d div 2)" using even by (simp add: unat_div) presburger
    ultimately show ?thesis using ih by simp
  next
    case False
    then show ?thesis using 1(3) by (subst (asm) odd_part.simps) auto
  qed
qed

lemma WitnessFunction_prime:
  assumes "prime_nat (unat p)" "\<not> unat p dvd unat a" "unat p - 1 = unat d * 2 ^ s"
  shows "\<not> WitnessFunction a d s p"
proof -
  have p: "p \<noteq> 0" "1 < unat p" using assms(1) by (auto simp: prime_nat_def)
  have md: "unat (ModExp a d p) = unat a ^ unat d mod unat p" by (rule ModExp_value [OF p(1)])
  have "unat (ModExp a d p) ^ 2 ^ s mod unat p = unat a ^ (unat p - 1) mod unat p"
    unfolding md assms(3) by (simp add: power_mod power_mult)
  also have "\<dots> = 1" by (rule fermat_little [OF assms(1,2)])
  finally show ?thesis unfolding WitnessFunction_def using p(2)
    by (intro WitnessFunction_loop_prime [OF assms(1)]) (simp_all add: md)
qed

lemma candidate_not_dvd:
  assumes "r \<le> SubFast p 3" "7 \<le> unat p" "p \<le> 2 ^ 63"
  shows "\<not> unat p dvd unat (ModAdd r 2 p)"
proof -
  have p: "p \<noteq> 0" using assms(2) by auto
  have "unat (p - 3) = unat p - 3" using assms(2) by (subst unat_sub_nowrap) (simp_all add: word_le_nat_alt)
  then have r: "unat r \<le> unat p - 3" using assms(1) by (simp add: SubFast_def word_le_nat_alt)
  have "uint (ModAdd r 2 p) = (uint r + uint (2 :: NativeInt)) mod uint p" by (rule ModAdd_value [OF p assms(3)])
  then have "int (unat (ModAdd r 2 p)) = int (unat r + 2) mod int (unat p)"
    by (simp only: uint_nat) (simp add: add.commute)
  then have "int (unat (ModAdd r 2 p)) = int ((unat r + 2) mod unat p)" by (simp only: zmod_int)
  then have "unat (ModAdd r 2 p) = unat r + 2" using r assms(2) by (simp only: of_nat_eq_iff) simp
  then show ?thesis using r assms(2) by (auto dest: dvd_imp_le)
qed

lemma MillerRabin_loop_prime:
  assumes "prime_nat (unat p)" "7 \<le> unat p" "p \<le> 2 ^ 63" "unat p - 1 = unat d * 2 ^ s"
    and "\<forall>g. RNG unif fuel (SubFast p 3) g \<noteq> None"
  shows "\<exists>g'. MillerRabin_loop unif fuel k p d s composite g = Some (\<not> (composite \<and> k = 0), g')"
proof (induction k arbitrary: g composite)
  case 0
  then show ?case by simp
next
  case (Suc k)
  obtain r g1 where r: "RNG unif fuel (SubFast p 3) g = Some (r, g1)" using assms(5) by fastforce
  have "\<not> WitnessFunction (ModAdd r 2 p) d s p"
    using candidate_not_dvd [OF RNG_le [OF r] assms(2,3)] by (rule WitnessFunction_prime [OF assms(1) _ assms(4)])
  then show ?case using r Suc [of False g1] by simp
qed

lemma prime_nat_even: "prime_nat p \<Longrightarrow> even p \<Longrightarrow> p = 2"
  by (auto simp: prime_nat_def)

lemma MillerRabin_prime:
  assumes "prime_nat (unat p)" "p \<le> 2 ^ 63" "0 < niter" "\<forall>g. RNG unif fuel (SubFast p 3) g \<noteq> None"
  shows "\<exists>g'. MillerRabinPrimalityTest unif fuel p niter g = Some (True, g')"
proof (cases "unat p = 2 \<or> unat p = 3 \<or> unat p = 5")
  case True
  then have "p = 2 \<or> p = 3 \<or> p = 5" by (auto simp: word_unat_eq_iff)
  then show ?thesis by (auto simp: MillerRabinPrimalityTest_def Mod_def)
next
  case False
  have gt: "1 < unat p" using assms(1) by (simp add: prime_nat_def)
  have odd: "odd (unat p)" using prime_nat_even [OF assms(1)] False by blast
  have "unat p \<noteq> 4" "unat p \<noteq> 6" using odd by auto
  then have p7: "7 \<le> unat p" using gt False by linarith
  obtain d s where ds: "odd_part (SubFast p 1) 0 = (d, s)" by fastforce
  have pz: "p \<noteq> 0" using gt by auto
  have "SubFast p 1 \<noteq> 0" using p7 pz unat_pred [of p] by (auto simp: SubFast_def)
  from odd_part_value [OF this ds] have eq: "unat p - 1 = unat d * 2 ^ s"
    using pz by (simp add: SubFast_def unat_pred)
  have "\<not> (p < 2 \<or> p \<noteq> 2 \<and> Mod p 2 = 0)"
    using p7 odd by (simp add: Mod_def word_less_nat_alt word_unat_eq_iff unat_mod odd_iff_mod_2_eq_one)
  moreover have "\<not> (p = 2 \<or> p = 3 \<or> p = 5)" using False by auto
  ultimately show ?thesis
    using MillerRabin_loop_prime [OF assms(1) p7 assms(2) eq assms(4), of niter True g] assms(3) ds
    by (simp add: MillerRabinPrimalityTest_def)
qed

section \<open>Searching for primes: correctness\<close>

text \<open>What \<open>std::uniform_int_distribution\<close> promises, and a source for which every search for a random number ends.\<close>

definition uniform_source :: "(usint \<Rightarrow> 'g \<Rightarrow> usint \<times> 'g) \<Rightarrow> bool" where
  "uniform_source unif \<longleftrightarrow> (\<forall>b g. fst (unif b g) \<le> b)"

definition rng_total :: "(usint \<Rightarrow> 'g \<Rightarrow> usint \<times> 'g) \<Rightarrow> nat \<Rightarrow> bool" where
  "rng_total unif fuel \<longleftrightarrow> (\<forall>n g. RNG unif fuel n g \<noteq> None)"

text \<open>Up to 32 bits a single sample is enough: the first round of \<open>RNG\<close> already returns.\<close>

lemma GetMSB_le_32: "n \<noteq> 0 \<Longrightarrow> unat n < 2 ^ 32 \<Longrightarrow> 1 \<le> GetMSB n \<and> GetMSB n \<le> 32"
proof -
  assume n: "n \<noteq> 0" "unat n < 2 ^ 32"
  have "\<not> 32 < GetMSB n"
  proof
    assume "32 < GetMSB n"
    then have "(2 :: nat) ^ 32 \<le> 2 ^ (GetMSB n - 1)" by (intro power_increasing) auto
    then show False using GetMSB_bounds(2) [OF n(1)] n(2) by linarith
  qed
  then show ?thesis using GetMSB_bounds(1) [OF n(1)] by auto
qed

lemma RNG_small:
  assumes "uniform_source unif" "n \<noteq> 0" "unat n < 2 ^ 32" "0 < fuel"
  shows "\<exists>r g'. RNG unif fuel n g = Some (r, g') \<and> r \<le> n"
proof -
  have m: "1 \<le> GetMSB n" "GetMSB n \<le> 32" using GetMSB_le_32 [OF assms(2,3)] by auto
  then have "unat (of_nat (GetMSB n) - 1 :: usint) = GetMSB n - 1"
    by (subst unat_sub_nowrap) (simp_all add: word_le_nat_alt unat_of_nat)
  then have ch: "(of_nat (GetMSB n) - 1 :: usint) div 32 = 0"
    using m by (simp add: word_unat_eq_iff unat_div)
  obtain r g' where u: "unif (ucast n) g = (r, g')" by fastforce
  have "r \<le> ucast n" using assms(1) u by (metis fst_conv uniform_source_def)
  moreover have "unat (ucast n :: usint) = unat n" using assms(3) by (simp add: unsigned_ucast_eq take_bit_eq_mod)
  moreover have "unat (ucast r :: NativeInt) = unat r"
    using unat_lt_32 [of r] by (simp add: unsigned_ucast_eq take_bit_eq_mod)
  ultimately have le: "ucast r \<le> n" by (simp add: word_le_nat_alt)
  obtain f where f: "fuel = Suc f" using assms(4) by (cases fuel) auto
  have "fst (RNG_round unif n g) \<le> n"
    using le u by (simp add: RNG_round_def ch RShift_def LShiftEq_def AddEqFast_def word_le_nat_alt)
  then show ?thesis by (auto simp: f Let_def not_less [symmetric] split: prod.splits)
qed

lemma MillerRabin_total:
  assumes "rng_total unif fuel"
  shows "\<exists>b g'. MillerRabinPrimalityTest unif fuel p niter g = Some (b, g')"
proof -
  have "\<exists>b g'. MillerRabin_loop unif fuel k p d s c g = Some (b, g')" for k d s c g
  proof (induction k arbitrary: c g)
    case (Suc k)
    obtain r g1 where "RNG unif fuel (SubFast p 3) g = Some (r, g1)" using assms by (fastforce simp: rng_total_def)
    then show ?case using Suc by (cases "WitnessFunction (ModAdd r 2 p) d s p") (simp_all add: ex_bool_eq)
  qed simp
  then show ?thesis by (auto simp: MillerRabinPrimalityTest_def split: prod.splits)
qed

lemma MillerRabin_cases:
  assumes "rng_total unif fuel" "p \<le> 2 ^ 63"
  obtains g' where "MillerRabinPrimalityTest unif fuel p 100 g = Some (True, g')"
  | g' where "MillerRabinPrimalityTest unif fuel p 100 g = Some (False, g')" "\<not> prime_nat (unat p)"
proof -
  obtain b g' where "MillerRabinPrimalityTest unif fuel p 100 g = Some (b, g')"
    using MillerRabin_total [OF assms(1)] by blast
  moreover have "b" if "prime_nat (unat p)"
    using MillerRabin_prime [OF that assms(2), of 100 unif fuel g] assms(1) calculation by (auto simp: rng_total_def)
  ultimately show thesis using that by (cases b) auto
qed

text \<open>The first number of the progression \<open>f\<close> that is accepted, with no prime passed over.\<close>

definition first_accepted :: "(nat \<Rightarrow> nat) \<Rightarrow> nat \<Rightarrow> nat \<Rightarrow> bool" where
  "first_accepted f k j \<longleftrightarrow> j \<le> k \<and> (\<forall>i<j. \<not> prime_nat (f i))"

lemma first_accepted_0: "first_accepted f k 0"
  by (simp add: first_accepted_def)

lemma first_accepted_Suc:
  "first_accepted (\<lambda>i. f (Suc i)) k j \<Longrightarrow> \<not> prime_nat (f 0) \<Longrightarrow> first_accepted f (Suc k) (Suc j)"
  by (auto simp: first_accepted_def less_Suc_eq_0_disj)

lemma NextPrime_loop_correct:
  assumes "rng_total unif fuel" "m \<le> qOld" "qOld \<le> qNew" "k < rounds"
    and "prime_nat (unat qNew + Suc k * unat m)" "unat qNew + Suc k * unat m \<le> 2 ^ 63"
  shows "\<exists>r g' j. NextPrime_loop rounds unif fuel qOld qNew m g = Some (Inr (r, g'))
    \<and> first_accepted (\<lambda>i. unat qNew + Suc i * unat m) k j \<and> unat r = unat qNew + Suc j * unat m"
  using assms(3-6)
proof (induction k arbitrary: rounds qNew g)
  case 0
  obtain rd where rd: "rounds = Suc rd" using 0(2) by (cases rounds) auto
  have v: "unat (qNew + m) = unat qNew + unat m" using 0(4) by (subst unat_add_nowrap) auto
  then have "\<not> qNew + m < qOld" "qNew + m \<le> 2 ^ 63" "prime_nat (unat (qNew + m))"
    using 0 by (simp_all add: word_less_nat_alt word_le_nat_alt)
  then obtain g' where "MillerRabinPrimalityTest unif fuel (qNew + m) 100 g = Some (True, g')"
    using MillerRabin_cases [OF assms(1)] by metis
  then show ?case using \<open>\<not> qNew + m < qOld\<close> v
    by (intro exI [of _ "qNew + m"] exI [of _ g'] exI [of _ 0]) (simp add: rd AddEqFast_def Let_def first_accepted_0)
next
  case (Suc k)
  obtain rd where rd: "rounds = Suc rd" using Suc(3) by (cases rounds) auto
  have v: "unat (qNew + m) = unat qNew + unat m" using Suc(5) by (subst unat_add_nowrap) auto
  then have le: "\<not> qNew + m < qOld" "qNew + m \<le> 2 ^ 63" "qOld \<le> qNew + m"
    using Suc(2,5) by (simp_all add: word_less_nat_alt word_le_nat_alt)
  show ?case
  proof (rule MillerRabin_cases [OF assms(1) le(2), of g])
    fix g' assume "MillerRabinPrimalityTest unif fuel (qNew + m) 100 g = Some (True, g')"
    then show ?thesis using le(1) v
      by (intro exI [of _ "qNew + m"] exI [of _ g'] exI [of _ 0]) (simp add: rd AddEqFast_def Let_def first_accepted_0)
  next
    fix g' assume mr: "MillerRabinPrimalityTest unif fuel (qNew + m) 100 g = Some (False, g')"
      and np: "\<not> prime_nat (unat (qNew + m))"
    have "\<exists>r g'' j. NextPrime_loop rd unif fuel qOld (qNew + m) m g' = Some (Inr (r, g''))
      \<and> first_accepted (\<lambda>i. unat (qNew + m) + Suc i * unat m) k j \<and> unat r = unat (qNew + m) + Suc j * unat m"
      using Suc.prems(2-4) le(3) by (intro Suc.IH) (simp_all add: rd v add.assoc)
    then obtain r g'' j where r: "NextPrime_loop rd unif fuel qOld (qNew + m) m g' = Some (Inr (r, g''))"
      "first_accepted (\<lambda>i. unat (qNew + m) + Suc i * unat m) k j" "unat r = unat (qNew + m) + Suc j * unat m"
      by blast
    have "first_accepted (\<lambda>i. unat qNew + Suc i * unat m) (Suc k) (Suc j)"
      using r(2) np by (intro first_accepted_Suc) (simp_all add: v add.assoc)
    then show ?thesis using r(1,3) mr le(1)
      by (intro exI [of _ r] exI [of _ g''] exI [of _ "Suc j"]) (simp add: rd AddEqFast_def Let_def v)
  qed
qed

lemma PreviousPrime_loop_correct:
  assumes "rng_total unif fuel" "q \<le> 2 ^ 63" "qNew \<le> q" "k < rounds"
    and "k * unat m \<le> unat qNew" "prime_nat (unat qNew - k * unat m)"
  shows "\<exists>r g' j. PreviousPrime_loop rounds unif fuel q qNew m g = Some (Inr (r, g'))
    \<and> first_accepted (\<lambda>i. unat qNew - i * unat m) k j \<and> unat r = unat qNew - j * unat m"
  using assms(3-6)
proof (induction k arbitrary: rounds qNew g)
  case 0
  obtain rd where rd: "rounds = Suc rd" using 0(2) by (cases rounds) auto
  have "qNew \<le> 2 ^ 63" using 0(1) assms(2) by (rule order_trans)
  then obtain g' where "MillerRabinPrimalityTest unif fuel qNew 100 g = Some (True, g')"
    using MillerRabin_cases [OF assms(1)] 0(4) by (metis diff_zero mult_0)
  then show ?case
    by (intro exI [of _ qNew] exI [of _ g'] exI [of _ 0]) (simp add: rd first_accepted_0)
next
  case (Suc k)
  obtain rd where rd: "rounds = Suc rd" using Suc(3) by (cases rounds) auto
  have le: "qNew \<le> 2 ^ 63" using Suc(2) assms(2) by (rule order_trans)
  show ?case
  proof (rule MillerRabin_cases [OF assms(1) le, of g])
    fix g' assume "MillerRabinPrimalityTest unif fuel qNew 100 g = Some (True, g')"
    then show ?thesis
      by (intro exI [of _ qNew] exI [of _ g'] exI [of _ 0]) (simp add: rd first_accepted_0)
  next
    fix g' assume mr: "MillerRabinPrimalityTest unif fuel qNew 100 g = Some (False, g')"
      and np: "\<not> prime_nat (unat qNew)"
    have v: "unat (qNew - m) = unat qNew - unat m"
      using Suc(4) by (intro unat_sub_nowrap) (simp add: word_le_nat_alt)
    then have nw: "qNew - m \<le> q" using Suc(2) by (simp add: word_le_nat_alt)
    have "\<exists>r g'' j. PreviousPrime_loop rd unif fuel q (qNew - m) m g' = Some (Inr (r, g''))
      \<and> first_accepted (\<lambda>i. unat (qNew - m) - i * unat m) k j \<and> unat r = unat (qNew - m) - j * unat m"
      using Suc.prems(2-4) nw by (intro Suc.IH) (simp_all add: rd v diff_diff_eq)
    then obtain r g'' j where r: "PreviousPrime_loop rd unif fuel q (qNew - m) m g' = Some (Inr (r, g''))"
      "first_accepted (\<lambda>i. unat (qNew - m) - i * unat m) k j" "unat r = unat (qNew - m) - j * unat m"
      by blast
    have "first_accepted (\<lambda>i. unat qNew - i * unat m) (Suc k) (Suc j)"
      using r(2) np by (intro first_accepted_Suc) (simp_all add: v diff_diff_eq)
    then show ?thesis using r(1,3) mr nw
      by (intro exI [of _ r] exI [of _ g''] exI [of _ "Suc j"]) (simp add: rd SubEqFast_def Let_def v not_less diff_diff_eq)
  qed
qed

lemma FirstPrime_loop_correct:
  assumes "rng_total unif fuel" "k < rounds"
    and "prime_nat (unat qNew + k * unat m)" "unat qNew + k * unat m \<le> 2 ^ 63"
  shows "\<exists>r g' j. FirstPrime_loop rounds unif fuel qNew m g = Some (Inr (r, g'))
    \<and> first_accepted (\<lambda>i. unat qNew + i * unat m) k j \<and> unat r = unat qNew + j * unat m"
  using assms(2-4)
proof (induction k arbitrary: rounds qNew g)
  case 0
  obtain rd where rd: "rounds = Suc rd" using 0(1) by (cases rounds) auto
  have "qNew \<le> 2 ^ 63" using 0(3) by (simp add: word_le_nat_alt)
  then obtain g' where "MillerRabinPrimalityTest unif fuel qNew 100 g = Some (True, g')"
    using MillerRabin_cases [OF assms(1)] 0(2) by (metis add_0_right mult_0)
  then show ?case
    by (intro exI [of _ qNew] exI [of _ g'] exI [of _ 0]) (simp add: rd first_accepted_0)
next
  case (Suc k)
  obtain rd where rd: "rounds = Suc rd" using Suc(2) by (cases rounds) auto
  have le: "qNew \<le> 2 ^ 63" using Suc(4) by (simp add: word_le_nat_alt)
  show ?case
  proof (rule MillerRabin_cases [OF assms(1) le, of g])
    fix g' assume "MillerRabinPrimalityTest unif fuel qNew 100 g = Some (True, g')"
    then show ?thesis
      by (intro exI [of _ qNew] exI [of _ g'] exI [of _ 0]) (simp add: rd first_accepted_0)
  next
    fix g' assume mr: "MillerRabinPrimalityTest unif fuel qNew 100 g = Some (False, g')"
      and np: "\<not> prime_nat (unat qNew)"
    have v: "unat (qNew + m) = unat qNew + unat m" using Suc(4) by (subst unat_add_nowrap) auto
    then have nw: "\<not> qNew + m < qNew" by (simp add: word_less_nat_alt)
    have "\<exists>r g'' j. FirstPrime_loop rd unif fuel (qNew + m) m g' = Some (Inr (r, g''))
      \<and> first_accepted (\<lambda>i. unat (qNew + m) + i * unat m) k j \<and> unat r = unat (qNew + m) + j * unat m"
      using Suc.prems by (intro Suc.IH) (simp_all add: rd v add.assoc)
    then obtain r g'' j where r: "FirstPrime_loop rd unif fuel (qNew + m) m g' = Some (Inr (r, g''))"
      "first_accepted (\<lambda>i. unat (qNew + m) + i * unat m) k j" "unat r = unat (qNew + m) + j * unat m"
      by blast
    have "first_accepted (\<lambda>i. unat qNew + i * unat m) (Suc k) (Suc j)"
      using r(2) np by (intro first_accepted_Suc) (simp_all add: v add.assoc)
    then show ?thesis using r(1,3) mr nw
      by (intro exI [of _ r] exI [of _ g''] exI [of _ "Suc j"]) (simp add: rd AddFast_def Let_def v)
  qed
qed

lemma progression_member: "p mod m = a mod m \<Longrightarrow> a \<le> p \<Longrightarrow> \<exists>i. p = a + i * (m :: nat)"
  by (metis mod_eq_nat2E mult.commute)

lemma progression_below:
  assumes "first_accepted (\<lambda>i. a + i * m) k j" "prime_nat p" "p mod m = a mod m" "a \<le> p"
  shows "a + j * m \<le> p"
proof -
  obtain i where i: "p = a + i * m" using progression_member [OF assms(3,4)] by blast
  then have "\<not> i < j" using assms(1,2) by (auto simp: first_accepted_def)
  then show ?thesis by (simp add: i)
qed

lemma FirstPrime_start:
  assumes "unat nBits \<le> 62" "m \<noteq> 0" "unat m \<le> 2 ^ 62"
  shows "FirstPrime unif fuel nBits m g
    = FirstPrime_loop fuel unif fuel (of_nat (2 ^ unat nBits + (if 2 ^ unat nBits mod unat m = 0 then 0 else unat m - 2 ^ unat nBits mod unat m) + 1)) m g"
proof -
  let ?n = "unat nBits" and ?m = "unat m"
  have m: "0 < ?m" using assms(2) by (simp add: word_ge_0_nat)
  have pw: "(2 :: nat) ^ ?n \<le> 2 ^ 62" using assms(1) by (intro power_increasing) auto
  have q: "LShift 1 ?n = of_nat (2 ^ ?n)" by (simp add: LShift_def push_bit_eq_mult)
  have uq: "unat (of_nat (2 ^ ?n) :: NativeInt) = 2 ^ ?n" using pw by (intro unat_of_nat_64) simp
  have msb: "GetMSB (of_nat (2 ^ ?n)) = Suc ?n" by (rule GetMSB_eqI) (simp_all del: of_nat_power add: uq)
  have "0 < (2 :: nat) ^ ?n" by simp
  then have nz: "(of_nat (2 ^ ?n) :: NativeInt) \<noteq> 0" unfolding word_ge_0_nat uq .
  have r: "unat (ModExp 2 nBits m) = 2 ^ ?n mod ?m" using ModExp_value [OF assms(2), of 2 nBits] by simp
  have rl: "2 ^ ?n mod ?m < ?m" using m by simp
  let ?start = "if ModExp 2 nBits m > 0 then AddFast (AddFast (of_nat (2 ^ ?n)) (SubFast m (ModExp 2 nBits m))) 1 else AddFast (of_nat (2 ^ ?n)) 1"
  have "unat (m - ModExp 2 nBits m) = ?m - 2 ^ ?n mod ?m"
  proof -
    have "ModExp 2 nBits m \<le> m" unfolding word_le_nat_alt r using rl by simp
    then show ?thesis by (simp only: unat_sub_nowrap r)
  qed
  then have sub: "SubFast m (ModExp 2 nBits m) = of_nat (?m - 2 ^ ?n mod ?m)"
    unfolding SubFast_def by (metis of_nat_unat ucast_id)
  have st: "?start = of_nat (2 ^ ?n + (if 2 ^ ?n mod ?m = 0 then 0 else ?m - 2 ^ ?n mod ?m) + 1)"
    using r by (simp add: word_less_nat_alt sub AddFast_def)
  have us: "unat ?start = 2 ^ ?n + (if 2 ^ ?n mod ?m = 0 then 0 else ?m - 2 ^ ?n mod ?m) + 1"
    unfolding st by (rule unat_of_nat_64) (use pw assms(3) in auto)
  then have "\<not> ?start < of_nat (2 ^ ?n)" unfolding word_less_nat_alt uq by simp
  then show ?thesis using assms(2) nz
    by (simp only: FirstPrime_def Let_def q msb if_False simp_thms diff_Suc_1 less_irrefl st [symmetric])
qed

lemma progression_above:
  assumes "first_accepted (\<lambda>i. a - i * m) k j" "prime_nat p" "p mod m = a mod m" "p \<le> a"
  shows "p \<le> a - j * m"
proof -
  obtain i where i: "a = p + i * m" using progression_member [OF assms(3) [symmetric] assms(4)] by blast
  then have "\<not> i < j" using assms(1,2) by (auto simp: first_accepted_def)
  then have "j * m \<le> i * m" by simp
  then show ?thesis unfolding i by linarith
qed

lemma least_one_mod_above:
  assumes "0 < m" "p mod m = 1 mod m" "(b :: nat) < p"
  shows "b + (if b mod m = 0 then 0 else m - b mod m) + 1 \<le> p"
    and "(b + (if b mod m = 0 then 0 else m - b mod m) + 1) mod m = 1 mod m"
proof -
  have split: "b = m * (b div m) + b mod m" by simp
  let ?c = "b + (if b mod m = 0 then 0 else m - b mod m)"
  have c: "?c = m * (b div m + (if b mod m = 0 then 0 else 1))"
  proof (cases "b mod m = 0")
    case False
    have "b + (m - b mod m) = m * (b div m) + m" using split mod_less_divisor [OF assms(1), of b] by linarith
    then show ?thesis using False by simp
  qed (use split in simp)
  then have "?c mod m = 0" by simp
  then show "(?c + 1) mod m = 1 mod m" by (metis add.commute mod_add_right_eq add_0_right)
  have "p = (p - 1) + 1" using assms(3) by simp
  then have "m dvd p - 1" using assms(2,3) by (metis add_diff_cancel_right' add.commute less_imp_le_nat mod_eq_dvd_iff_nat gr_implies_not0 less_one not_le)
  then obtain t where t: "p - 1 = m * t" by blast
  have "b \<le> m * t" using assms(3) t by linarith
  have "b div m + (if b mod m = 0 then 0 else 1) \<le> t"
  proof (cases "b mod m = 0")
    case True
    then have "m * (b div m) \<le> m * t" using split \<open>b \<le> m * t\<close> by linarith
    then show ?thesis using True assms(1) by simp
  next
    case False
    then have "m * (b div m) < m * t" using split \<open>b \<le> m * t\<close> by linarith
    then show ?thesis using False by simp
  qed
  then have "?c \<le> m * t" unfolding c by (rule mult_le_mono2)
  then show "?c + 1 \<le> p" using t assms(3) by linarith
qed

section \<open>Pollard's rho ends with a divisor\<close>

text \<open>Floyd's observation: two runners on a finite set, one twice as fast, meet.\<close>

lemma floyd_meets:
  assumes "finite A" "x \<in> A" and f: "\<And>y. y \<in> A \<Longrightarrow> f y \<in> A"
  shows "\<exists>t. 0 < t \<and> t \<le> card A \<and> (f ^^ t) x = (f ^^ (2 * t)) x"
proof -
  have "(f ^^ i) x \<in> A" for i by (induction i) (simp_all add: assms)
  then have "(\<lambda>i. (f ^^ i) x) ` {..card A} \<subseteq> A" by auto
  then have "card ((\<lambda>i. (f ^^ i) x) ` {..card A}) < card {..card A}"
    using card_mono [OF assms(1)] by (simp add: less_Suc_eq_le)
  then obtain i0 j0 where ij: "i0 \<le> card A" "j0 \<le> card A" "i0 \<noteq> j0" "(f ^^ i0) x = (f ^^ j0) x"
    using pigeonhole [of "\<lambda>i. (f ^^ i) x" "{..card A}"] by (auto simp: inj_on_def)
  define i where "i = min i0 j0"
  define d where "d = max i0 j0 - i"
  have d: "0 < d" "i + d \<le> card A" using ij by (auto simp: i_def d_def)
  have "i = i0 \<and> i + d = j0 \<or> i = j0 \<and> i + d = i0" by (auto simp: i_def d_def)
  then have eq: "(f ^^ i) x = (f ^^ (i + d)) x" using ij(4) by metis
  have shift: "(f ^^ k) x = (f ^^ (k + d)) x" if "i \<le> k" for k
  proof -
    define e where "e = k - i"
    have "k = e + i" using that by (simp add: e_def)
    then have "(f ^^ k) x = (f ^^ e) ((f ^^ i) x)" "(f ^^ (k + d)) x = (f ^^ e) ((f ^^ (i + d)) x)"
      by (simp_all only: add.assoc funpow_add o_apply)
    then show ?thesis by (simp only: eq)
  qed
  have period: "(f ^^ k) x = (f ^^ (k + c * d)) x" if "i \<le> k" for k c
  proof (induction c)
    case (Suc c)
    then show ?case using shift [of "k + c * d"] that by (simp add: add.assoc add.commute [of d])
  qed simp
  define c where "c = (if i = 0 then 1 else (i + d - 1) div d)"
  define t where "t = c * d"
  have t: "i \<le> t" "0 < t" "t \<le> i + d"
  proof -
    have split: "(i + d - 1) div d * d + (i + d - 1) mod d = i + d - 1" by simp
    have "(i + d - 1) mod d < d" using d(1) by simp
    then have "i \<le> (i + d - 1) div d * d" "(i + d - 1) div d * d \<le> i + d" using split d(1) by linarith+
    then show "i \<le> t" "t \<le> i + d" using d(1) by (auto simp: t_def c_def)
    then show "0 < t" using d(1) by (cases "i = 0") (simp add: t_def c_def, linarith)
  qed
  have "(f ^^ t) x = (f ^^ (t + c * d)) x" by (rule period [OF t(1)])
  then have "(f ^^ t) x = (f ^^ (2 * t)) x" by (simp add: t_def mult_2)
  then show ?thesis using t d(2) by (intro exI [of _ t]) simp
qed

definition rho_step :: "NativeInt \<Rightarrow> NativeInt \<Rightarrow> NativeInt \<Rightarrow> NativeInt" where
  "rho_step n c x = ModAdd_mu (ModMul_mu x x n (ComputeMu n)) c n (ComputeMu n)"

lemma ModEq_mu_le:
  assumes "barrett_modulus n" "a \<le> n"
  shows "ModEq_mu a n (ComputeMu n) \<le> n"
proof -
  have "unat a < 2 ^ (2 * GetMSB n + 2)"
  proof -
    have "unat a < 2 ^ GetMSB n" using assms(2) barrett_modulus_bounds(5) [OF assms(1)] by (simp add: word_le_nat_alt)
    also have "\<dots> \<le> (2 :: nat) ^ (2 * GetMSB n + 2)" by (intro power_increasing) auto
    finally show ?thesis .
  qed
  moreover have "GetD \<lparr>hi = 0, lo = a\<rparr> = ucast a" by (simp add: word_unat_eq_iff GetD_value)
  ultimately have "unat (barrett_block \<lparr>hi = 0, lo = a\<rparr> (ucast a) n (ComputeMu n)) \<le> unat n"
    using barrett_block_mod(1) [OF assms(1), of "\<lparr>hi = 0, lo = a\<rparr>"] by simp
  then show ?thesis by (simp add: ModEq_mu_def Mod_mu_def word_le_nat_alt)
qed

lemma rho_step_le:
  assumes "barrett_modulus n" "x \<le> n" "c \<le> n"
  shows "rho_step n c x \<le> n"
proof -
  define y where "y = ModMul_mu x x n (ComputeMu n)"
  define r where "r a = (if a \<ge> n then ModEq_mu a n (ComputeMu n) else a)" for a
  have y: "y \<le> n" using ModMulFast_mu_range(1) [OF assms(1,2,2)] assms(2) by (simp add: y_def ModMul_mu_reduced)
  have r: "unat (r a) \<le> unat n" if "a \<le> n" for a
    using ModEq_mu_le [OF assms(1) that] that by (simp add: r_def word_le_nat_alt)
  have "unat (r y) + unat (r c) < 2 ^ 64"
    using r [OF y] r [OF assms(3)] barrett_modulus_bounds(6) [OF assms(1)] by simp
  then have s: "unat (r y + r c) = unat (r y) + unat (r c)" by (intro unat_add_nowrap) simp
  have "rho_step n c x = (if r y + r c \<ge> n then r y + r c - n else r y + r c)"
    by (simp only: rho_step_def ModAdd_mu_def Let_def r_def y_def)
  then show ?thesis using r [OF y] r [OF assms(3)] s
    by (cases "n \<le> r y + r c") (simp_all add: word_le_nat_alt unat_sub_nowrap)
qed

lemma PollardRho_loop_ends:
  assumes "1 < unat n" "(rho_step n c ^^ t) x = (rho_step n c ^^ (2 * t)) xx" "0 < t" "t \<le> fuel"
  shows "\<exists>d. PollardRho_loop fuel n (ComputeMu n) c x xx = Some d \<and> unat d dvd unat n \<and> 1 < unat d"
  using assms(2-4)
proof (induction t arbitrary: fuel x xx)
  case 0
  then show ?case by simp
next
  case (Suc t)
  obtain fl where fl: "fuel = Suc fl" using Suc.prems(3) by (cases fuel) auto
  define y where "y = rho_step n c x"
  define yy where "yy = rho_step n c (rho_step n c xx)"
  let ?g = "GreatestCommonDivisor (if y > yy then SubFast y yy else SubFast yy y) n"
  have loop: "PollardRho_loop fuel n (ComputeMu n) c x xx
      = (if ?g = 1 then PollardRho_loop fl n (ComputeMu n) c y yy else Some ?g)"
    by (simp only: fl PollardRho_loop.simps Let_def rho_step_def [symmetric] y_def yy_def)
  have meet: "(rho_step n c ^^ t) y = (rho_step n c ^^ (2 * t)) yy"
    using Suc.prems(1) by (simp add: y_def yy_def funpow_swap1)
  show ?case
  proof (cases "?g = 1")
    case True
    have "t \<noteq> 0"
    proof
      assume "t = 0"
      then have "y = yy" using meet by simp
      then have "unat ?g = unat n" by (simp add: GreatestCommonDivisor_gcd SubFast_def)
      then show False using True assms(1) by simp
    qed
    then show ?thesis using Suc.IH [OF meet, of fl] Suc.prems(3) True loop by (simp add: fl)
  next
    case False
    have "unat ?g dvd unat n" by (simp only: GreatestCommonDivisor_gcd gcd_dvd2)
    moreover have "unat ?g \<noteq> 0" unfolding GreatestCommonDivisor_gcd using assms(1) by simp
    moreover have "unat ?g \<noteq> 1" using False by (metis unat_1 word_unat_eq_iff)
    ultimately show ?thesis using loop False by auto
  qed
qed

lemma PollardRho_divisor:
  assumes "barrett_modulus n" "rng_total unif fuel" "unat n < fuel"
  shows "\<exists>d g'. PollardRhoFactorization unif fuel n g = Some (d, g') \<and> unat d dvd unat n \<and> 1 < unat d"
proof -
  obtain c g1 where c: "RNG unif fuel n g = Some (c, g1)" using assms(2) by (fastforce simp: rng_total_def)
  obtain x g2 where x: "RNG unif fuel n g1 = Some (x, g2)" using assms(2) by (fastforce simp: rng_total_def)
  have le: "c \<le> n" "x \<le> n" using RNG_le [OF c] RNG_le [OF x] .
  show ?thesis
  proof (cases "Mod n 2 = 0")
    case True
    then have "2 dvd unat n" by (simp add: Mod_def word_unat_eq_iff unat_mod dvd_eq_mod_eq_0)
    then show ?thesis using True c x by (simp add: PollardRhoFactorization_def)
  next
    case False
    have "card {..n} \<le> fuel"
    proof -
      have "unat ` {..n} \<subseteq> {..unat n}" by (auto simp: word_le_nat_alt)
      then have "card (unat ` {..n}) \<le> Suc (unat n)" using card_mono [of "{..unat n}"] by fastforce
      moreover have "inj_on unat {..n}" by (simp add: inj_on_def word_unat_eq_iff)
      ultimately show ?thesis using assms(3) by (simp add: card_image)
    qed
    moreover obtain t where "0 < t" "t \<le> card {..n}" "(rho_step n c ^^ t) x = (rho_step n c ^^ (2 * t)) x"
      using floyd_meets [of "{..n}" x "rho_step n c"] rho_step_le [OF assms(1) _ le(1)] le(2) by auto
    moreover have "1 < unat n" using barrett_modulus_bounds(7) [OF assms(1)] by simp
    ultimately obtain d where "PollardRho_loop fuel n (ComputeMu n) c x x = Some d" "unat d dvd unat n" "1 < unat d"
      using PollardRho_loop_ends [of n t c x x fuel] by auto
    then show ?thesis using c x False by (simp add: PollardRhoFactorization_def)
  qed
qed

section \<open>Roots of unity: correctness\<close>

lemma set_insort_insert [simp]: "set (insort_insert (x :: 'a::linorder) xs) = insert x (set xs)"
  by (auto simp: insort_insert_key_def set_insort_key)

lemma PrimeFactorize_mono:
  "PrimeFactorize depth unif fuel n fs g = Some (fs', g') \<Longrightarrow> set fs \<subseteq> set fs'"
proof (induction depth arbitrary: n fs g fs' g')
  case 0
  then show ?case by simp
next
  case (Suc depth)
  show ?case
  proof (cases "n = 0 \<or> n = 1")
    case True
    then show ?thesis using Suc.prems by auto
  next
    case False
    from Suc.prems False show ?thesis
      by (auto split: option.splits prod.splits bool.splits dest: Suc.IH)
  qed
qed

lemma PrimeFactorize_even:
  assumes "PrimeFactorize depth unif fuel n fs g = Some (fs', g')" "n \<noteq> 0" "even (unat n)"
  shows "2 \<in> set fs'"
proof -
  obtain dp where dp: "depth = Suc dp" using assms(1) by (cases depth) auto
  have n1: "n \<noteq> 1" using assms(3) by auto
  have md: "Mod n 2 = 0" using assms(3) by (simp add: Mod_def word_unat_eq_iff unat_mod even_iff_mod_2_eq_zero)
  show ?thesis
  proof (cases "n = 2")
    case True
    then show ?thesis using assms(1) n1 by (auto simp: dp MillerRabinPrimalityTest_def Mod_def)
  next
    case False
    have mr: "MillerRabinPrimalityTest unif fuel n 100 g = Some (False, g)"
      using md False by (simp add: MillerRabinPrimalityTest_def)
    obtain g1 where "PollardRhoFactorization unif fuel n g = Some (2, g1)"
      using assms(1) md mr n1 assms(2)
      by (auto simp: dp PollardRhoFactorization_def split: option.splits)
    then obtain fs1 g2 where pf: "PrimeFactorize dp unif fuel 2 fs g1 = Some (fs1, g2)"
        "PrimeFactorize dp unif fuel (n div 2) fs1 g2 = Some (fs', g')"
      using assms(1,2) mr n1 by (auto simp: dp split: option.splits)
    obtain d2 where "dp = Suc d2" using pf(1) by (cases dp) auto
    then have "2 \<in> set fs1" using pf(1) by (auto simp: MillerRabinPrimalityTest_def Mod_def)
    then show ?thesis using PrimeFactorize_mono [OF pf(2)] by blast
  qed
qed

lemma count_factors_le: "count_factors gen order q fs \<le> length fs"
  by (induction fs) auto

lemma count_factors_all:
  "count_factors gen order q fs = length fs \<longleftrightarrow> (\<forall>f\<in>set fs. ModExp gen (order div f) q \<noteq> 1)"
proof (induction fs)
  case (Cons f fs)
  then show ?case using count_factors_le [of gen order q fs] by auto
qed simp

text \<open>What the search for a generator looks for, on the prime factors it was given.\<close>

definition generator_for :: "NativeInt \<Rightarrow> NativeInt list \<Rightarrow> NativeInt \<Rightarrow> bool" where
  "generator_for q fs gen \<longleftrightarrow> (\<forall>f\<in>set fs. ModExp gen (SubFast q 1 div f) q \<noteq> 1)"

text \<open>The first \<open>k\<close> numbers the source yields below \<open>n\<close>.\<close>

fun draws :: "(usint \<Rightarrow> 'g \<Rightarrow> usint \<times> 'g) \<Rightarrow> nat \<Rightarrow> NativeInt \<Rightarrow> nat \<Rightarrow> 'g \<Rightarrow> NativeInt list" where
  "draws unif fuel n 0 g = []"
| "draws unif fuel n (Suc k) g =
     (case RNG unif fuel n g of None \<Rightarrow> [] | Some (r, g) \<Rightarrow> r # draws unif fuel n k g)"

lemma FindGenerator_loop_step:
  "RNG unif fuel (SubFast q 2) g = Some (r, g1) \<Longrightarrow> FindGenerator_loop (Suc rounds) unif fuel q fs g
    = (if generator_for q fs (r + 1) then Some (r + 1, g1) else FindGenerator_loop rounds unif fuel q fs g1)"
  by (simp add: Let_def AddFast_def generator_for_def count_factors_all)

lemma FindGenerator_loop_result:
  assumes "FindGenerator_loop rounds unif fuel q fs g = Some (gen, g')"
  shows "generator_for q fs gen \<and> (\<exists>r. gen = r + 1 \<and> r \<le> SubFast q 2)"
  using assms
proof (induction rounds arbitrary: g)
  case (Suc rounds)
  obtain r g1 where r: "RNG unif fuel (SubFast q 2) g = Some (r, g1)"
    using Suc.prems by (cases "RNG unif fuel (SubFast q 2) g") auto
  show ?case
    using Suc RNG_le [OF r] unfolding FindGenerator_loop_step [OF r] by (auto split: if_splits)
qed simp

lemma FindGenerator_loop_returns:
  assumes "\<exists>r\<in>set (draws unif fuel (SubFast q 2) rounds g). generator_for q fs (r + 1)"
  shows "\<exists>gen g'. FindGenerator_loop rounds unif fuel q fs g = Some (gen, g')"
  using assms
proof (induction rounds arbitrary: g)
  case (Suc rounds)
  obtain r g1 where r: "RNG unif fuel (SubFast q 2) g = Some (r, g1)"
    using Suc.prems by (cases "RNG unif fuel (SubFast q 2) g") auto
  show ?case using Suc unfolding FindGenerator_loop_step [OF r] by (auto simp: r)
qed simp

text \<open>A number that passes the test for the factor 2 has \<open>-1\<close> as its power \<open>(q - 1) / 2\<close>.\<close>

lemma generator_half_power:
  assumes "prime_nat (unat q)" "2 < unat q" "2 \<in> set fs" "generator_for q fs gen" "gen = r + 1" "r \<le> SubFast q 2"
  shows "unat gen ^ ((unat q - 1) div 2) mod unat q = unat q - 1" "\<not> unat q dvd unat gen"
proof -
  have q: "q \<noteq> 0" using assms(2) by auto
  have ur: "unat r \<le> unat q - 2"
    using assms(2,6) by (simp add: SubFast_def word_le_nat_alt unat_sub_nowrap)
  then have ug: "unat gen = unat r + 1"
    unfolding assms(5) using assms(2) unat_lt_64 [of q] by (subst unat_add_nowrap) auto
  then show nd: "\<not> unat q dvd unat gen" using ur assms(2) by (auto dest: dvd_imp_le)
  let ?h = "unat gen ^ ((unat q - 1) div 2) mod unat q"
  have odd: "odd (unat q)" using prime_nat_even [OF assms(1)] assms(2) by auto
  have "unat (SubFast q 1 div 2) = (unat q - 1) div 2" by (simp add: SubFast_def unat_div unat_pred [OF q])
  then have me: "unat (ModExp gen (SubFast q 1 div 2) q) = ?h" by (simp add: ModExp_value [OF q])
  have "ModExp gen (SubFast q 1 div 2) q \<noteq> 1" using assms(3,4) by (simp add: generator_for_def)
  then have "?h \<noteq> 1" using me by (metis unat_1 word_unat_eq_iff)
  moreover have "?h * ?h mod unat q = 1"
  proof -
    have "?h * ?h mod unat q = unat gen ^ ((unat q - 1) div 2 + (unat q - 1) div 2) mod unat q"
      by (simp add: mod_mult_eq power_add)
    also have "(unat q - 1) div 2 + (unat q - 1) div 2 = unat q - 1" using odd by presburger
    finally show ?thesis using fermat_little [OF assms(1) nd] by simp
  qed
  ultimately show "?h = unat q - 1"
    using prime_square_root_of_one [OF assms(1), of ?h] assms(2) by auto
qed

text \<open>The residue \<open>x\<close> is an odd power of \<open>w\<close>.\<close>

definition odd_power :: "NativeInt \<Rightarrow> NativeInt \<Rightarrow> NativeInt \<Rightarrow> bool" where
  "odd_power q w x \<longleftrightarrow> (\<exists>c. odd c \<and> uint x = uint w ^ c mod uint q)"

lemma ModMulEq_mu_power:
  assumes "barrett_exact q" "w < q" "uint x = uint w ^ c mod uint q"
  shows "uint (ModMulEq_mu x w q (ComputeMu q)) = uint w ^ Suc c mod uint q"
proof -
  have "0 < uint q" using barrett_exact_bounds [OF assms(1)] uint_pos by blast
  then have x: "x < q" using assms(3) by (simp add: word_less_def)
  have "ModMulEq_mu x w q (ComputeMu q) = ModMulFast_mu x w q (ComputeMu q)"
    using ModMul_mu_reduced [of x q w] x by (simp add: ModMul_mu_def)
  then have "uint (ModMulEq_mu x w q (ComputeMu q)) = uint x * uint w mod uint q"
    by (simp only: ModMulFast_mu_value [OF assms(1) x assms(2)])
  also have "\<dots> = uint w ^ Suc c mod uint q" unfolding assms(3) by (simp add: mod_mult_left_eq mod_mult_right_eq mult.commute)
  finally show ?thesis .
qed

lemma ModMulEq_mu_powers:
  assumes "barrett_exact q" "w < q" "uint x = uint w ^ c mod uint q"
  shows "uint (for_range 0 k (\<lambda>j x. ModMulEq_mu x w q (ComputeMu q)) x) = uint w ^ (c + k) mod uint q"
  using ModMulEq_mu_power [OF assms(1,2)] assms(3)
  by (induction k) (simp_all add: for_range_Suc)

lemma min_root_loop_odd:
  assumes "barrett_exact q" "w < q"
    and "uint x = uint w ^ unat cur mod uint q" "odd_power q w minRU"
    and "sorted (map unat (cur # cs))" "list_all (\<lambda>c. odd (unat c)) cs"
  shows "odd_power q w (min_root_loop w q (ComputeMu q) cs x minRU cur)"
  using assms(3-6)
proof (induction cs arbitrary: x minRU cur)
  case (Cons c cs)
  let ?x = "for_range 0 (unat (SubFast c cur)) (\<lambda>j x. ModMulEq_mu x w q (ComputeMu q)) x"
  have "unat cur \<le> unat c" using Cons.prems(3) by simp
  then have "unat (SubFast c cur) = unat c - unat cur" "unat cur + (unat c - unat cur) = unat c"
    by (simp_all add: SubFast_def unat_sub_nowrap word_le_nat_alt)
  then have x: "uint ?x = uint w ^ unat c mod uint q"
    using ModMulEq_mu_powers [OF assms(1,2) Cons.prems(1), of "unat (SubFast c cur)"] by simp
  then have "odd_power q w ?x" using Cons.prems(4) by (auto simp: odd_power_def)
  then have m: "odd_power q w (if ?x < minRU \<and> ?x \<noteq> 1 then ?x else minRU)" using Cons.prems(2) by simp
  have "sorted (map unat (c # cs))" "list_all (\<lambda>c. odd (unat c)) cs" using Cons.prems(3,4) by simp_all
  from Cons.IH [OF x m this] show ?case by (simp only: min_root_loop.simps Let_def)
qed simp

lemma GetTotientList_pow2:
  fixes n :: "'a::len word"
  assumes "unat n = 2 ^ Suc K"
  shows "sorted (map unat (GetTotientList n))" "list_all (\<lambda>c. odd (unat c) \<and> 1 \<le> unat c) (GetTotientList n)"
proof -
  have u: "unat (of_nat i :: 'a word) = i" if "i < unat n" for i
    using less_trans [OF that unsigned_less [of n]] by (simp add: unat_of_nat)
  have "map unat (map of_nat [1..<unat n] :: 'a word list) = [1..<unat n]"
    by (rule nth_equalityI) (simp_all add: u del: of_nat_Suc of_nat_add)
  then have "sorted_wrt (\<lambda>x y. unat x \<le> unat y) (map of_nat [1..<unat n] :: 'a word list)"
    by (metis sorted_upt sorted_wrt_map)
  then have "sorted_wrt (\<lambda>x y. unat x \<le> unat y) (GetTotientList n)"
    unfolding GetTotientList_def by (rule sorted_wrt_filter)
  then show "sorted (map unat (GetTotientList n))" by (simp only: sorted_wrt_map)
  have "odd i" if "unat (GreatestCommonDivisor (of_nat i) n) = 1" "i < unat n" for i
  proof
    assume "even i"
    then have "2 dvd gcd i (2 ^ Suc K)" by simp
    moreover have "gcd i (2 ^ Suc K) = 1" using that by (simp add: GreatestCommonDivisor_gcd u assms)
    ultimately have "2 dvd (1 :: nat)" by (simp only:)
    then show False by simp
  qed
  then show "list_all (\<lambda>c. odd (unat c) \<and> 1 \<le> unat c) (GetTotientList n)"
    by (auto simp: GetTotientList_def list_all_iff u)
qed

lemma min_root_odd:
  assumes "barrett_exact q" "w < q" "unat m = 2 ^ Suc K"
  shows "odd_power q w (min_root m q w)"
proof -
  let ?n = "ucast m :: NativeInt"
  have n: "unat ?n = 2 ^ Suc K"
    using assms(3) unat_lt_32 [of m] by (simp add: unsigned_ucast_eq take_bit_eq_mod)
  have "1 < unat q" using barrett_modulus_bounds(7) [of q] assms(1) by (simp add: barrett_exact_def)
  then have "1 < uint q" by (simp only: uint_nat)
  then have "uint (1 :: NativeInt) = uint w ^ 0 mod uint q" by simp
  from ModMulEq_mu_power [OF assms(1,2) this]
  have x: "uint (ModMulEq_mu 1 w q (ComputeMu q)) = uint w ^ unat (1 :: NativeInt) mod uint q" by simp
  then have "odd_power q w (ModMulEq_mu 1 w q (ComputeMu q))" unfolding odd_power_def by (intro exI [of _ 1]) simp
  from min_root_loop_odd [OF assms(1,2) x this] show ?thesis
    using GetTotientList_pow2 [OF n] by (auto simp: min_root_def Let_def list_all_iff)
qed

lemma odd_power_primitive:
  assumes "q \<noteq> 0" "odd_power q w x" "rcong (uint q) (uint w ^ 2 ^ K) (- 1)"
  shows "primitive_root q K x"
proof -
  obtain c where c: "odd c" "uint x = uint w ^ c mod uint q" using assms(2) by (auto simp: odd_power_def)
  have "rcong (uint q) (uint x ^ 2 ^ K) ((uint w ^ c) ^ 2 ^ K)" by (intro rcong_power) (simp add: c(2))
  also have "(uint w ^ c) ^ 2 ^ K = (uint w ^ 2 ^ K) ^ c" by (simp add: power_mult [symmetric] mult.commute)
  also have "rcong (uint q) \<dots> ((- 1) ^ c)" by (rule rcong_power [OF assms(3)])
  finally have "rcong (uint q) (uint x ^ 2 ^ K) (- 1)" using c(1) by simp
  moreover have "x < q" using c(2) uint_pos [OF assms(1)] by (simp add: word_less_def)
  ultimately show ?thesis by (simp add: primitive_root_def rcong_iff_dvd dvd_eq_mod_eq_0)
qed

lemma RootOfUnity_generator:
  assumes q: "barrett_exact q" "prime_nat (unat q)" and m: "unat (m :: usint) = 2 ^ Suc K" "2 ^ Suc K dvd unat q - 1"
    and gen: "2 \<in> set fs" "generator_for q fs gen" "gen = r + 1" "r \<le> SubFast q 2"
  defines "w \<equiv> ModExp gen (SubFast q 1 div ucast m) q"
  shows "rcong (uint q) (uint w ^ 2 ^ K) (- 1)" "w < q" "w \<noteq> 1"
proof -
  have q4: "4 \<le> unat q" "q \<noteq> 0" using barrett_modulus_bounds(1,7) [of q] q(1) by (simp_all add: barrett_exact_def)
  have mq: "unat (ucast m :: NativeInt) = 2 ^ Suc K"
    using m(1) unat_lt_32 [of m] by (simp add: unsigned_ucast_eq take_bit_eq_mod)
  obtain e where e: "unat q - 1 = 2 ^ Suc K * e" using m(2) by blast
  have "unat (SubFast q 1 div ucast m) = e"
    by (simp only: SubFast_def unat_div unat_pred [OF q4(2)] mq e) simp
  then have w: "unat w = unat gen ^ e mod unat q" by (simp add: w_def ModExp_value [OF q4(2)])
  then show "w < q" using q4 by (simp add: word_less_nat_alt)
  have half: "(unat q - 1) div 2 = e * 2 ^ K" unfolding e by simp
  have "unat w ^ 2 ^ K mod unat q = unat gen ^ (e * 2 ^ K) mod unat q"
    by (simp add: w power_mod power_mult)
  also have "\<dots> = unat q - 1"
    using generator_half_power(1) [OF q(2) _ gen] q4 unfolding half by simp
  finally have pw: "unat w ^ 2 ^ K mod unat q = unat q - 1" .
  then show "w \<noteq> 1" using q4 by auto
  have "int (unat w ^ 2 ^ K) mod int (unat q) = (- 1) mod int (unat q)"
  proof -
    have "int (unat w ^ 2 ^ K) mod int (unat q) = int (unat q - 1)"
      using pw by (simp only: zmod_int [symmetric])
    also have "\<dots> = int (unat q) - 1" using q4 by (subst of_nat_diff) simp_all
    also have "\<dots> = (- 1) mod int (unat q)" using uint_pos [OF q4(2)] by (intro zmod_minus1 [symmetric]) (simp only: uint_nat)
    finally show ?thesis .
  qed
  then show "rcong (uint q) (uint w ^ 2 ^ K) (- 1)" by (simp only: rcong_def uint_nat of_nat_power)
qed

text \<open>A source that always returns 0, used in the examples: every \<open>RNG\<close> ends at once.\<close>

definition zero_source :: "usint \<Rightarrow> unit \<Rightarrow> usint \<times> unit" where
  "zero_source b g = (0, g)"

lemma RNG_round_zero: "RNG_round zero_source n g = (0, ())"
proof -
  have "for_range 0 k (\<lambda>i (result, g). let (val, g) = zero_source 0xFFFFFFFF g; temp = LShiftEq (ucast val) (i * 32)
      in (AddEqFast result temp, g)) (0, g) = (0, ())" for k
    by (rule for_range_invariant [where P = "\<lambda>_ s. s = (0, ())"])
      (auto simp: zero_source_def LShiftEq_def AddEqFast_def)
  then show ?thesis by (simp add: RNG_round_def Let_def zero_source_def LShiftEq_def AddEqFast_def)
qed

lemma rng_total_zero: "0 < fuel \<Longrightarrow> rng_total zero_source fuel"
  by (cases fuel) (simp_all add: rng_total_def RNG_round_zero)

section \<open>Properties\<close>

text \<open>
  Euclid's loop ends and returns the greatest common divisor, for every pair of words.
\<close>

theorem GreatestCommonDivisor_correct: "unat (GreatestCommonDivisor a b) = gcd (unat a) (unat b)"
  by (rule GreatestCommonDivisor_gcd)

text \<open>
  C36: the Miller-Rabin test never rejects a prime: for a prime up to \<open>2 ^ 63\<close>, any source of random
  numbers for which \<open>RNG\<close> returns, and at least one round, the answer is true.
\<close>

theorem MillerRabin_accepts_primes:
  assumes "prime_nat (unat p)" "p \<le> 2 ^ 63" "0 < niter" "\<forall>g. RNG unif fuel (SubFast p 3) g \<noteq> None"
  shows "\<exists>g'. MillerRabinPrimalityTest unif fuel p niter g = Some (True, g')"
  by (rule MillerRabin_prime [OF assms])

theorem MillerRabin_accepts_primes_witness:
  "\<exists>g'. MillerRabinPrimalityTest zero_source 1 97 100 () = Some (True, g')"
proof (rule MillerRabin_accepts_primes)
  show "prime_nat (unat (97 :: NativeInt))" by (simp add: prime_nat_iff)
  show "\<forall>g. RNG zero_source 1 (SubFast 97 3) g \<noteq> None" using rng_total_zero [of 1] by (simp add: rng_total_def)
qed simp_all



text \<open>
  If some prime congruent to \<open>q\<close> modulo \<open>m\<close> lies above \<open>q\<close>, within \<open>fuel\<close> steps, then \<open>NextPrime\<close>
  returns a number above \<open>q\<close> of the same residue, and no prime of that residue above \<open>q\<close> is smaller.
  The step must not exceed \<open>q\<close>: only then is a wrap-around of the candidate noticed.
\<close>

theorem NextPrime_correct:
  assumes "rng_total unif fuel" "m \<noteq> 0" "m \<le> q"
    and p: "prime_nat p" "p mod unat m = unat q mod unat m" "unat q < p" "p \<le> 2 ^ 63" "p \<le> unat q + fuel * unat m"
  shows "\<exists>r g'. NextPrime unif fuel q m g = Some (Inr (r, g')) \<and> unat q < unat r \<and> unat r \<le> p
    \<and> unat r mod unat m = unat q mod unat m
    \<and> (\<forall>p'. prime_nat p' \<and> p' mod unat m = unat q mod unat m \<and> unat q < p' \<longrightarrow> unat r \<le> p')"
proof -
  have m: "0 < unat m" using assms(2) by (simp add: word_ge_0_nat)
  have above: "unat q + unat m \<le> p'" if "p' mod unat m = unat q mod unat m" "unat q < p'" for p'
  proof -
    obtain i where i: "p' = unat q + i * unat m" using progression_member [of p' "unat m" "unat q"] \<open>unat q < p'\<close> \<open>p' mod unat m = unat q mod unat m\<close> by auto
    then show ?thesis using \<open>unat q < p'\<close> by (cases i) auto
  qed
  have sm: "(unat q + unat m) mod unat m = unat q mod unat m" by simp
  obtain i where i: "p = unat q + Suc i * unat m"
    using progression_member [of p "unat m" "unat q + unat m"] above [OF p(2,3)] p(2) by (auto simp: add.assoc)
  have "Suc i * unat m \<le> fuel * unat m" using p(5) i by linarith
  then have "i < fuel" using m by (simp only: mult_le_cancel2 simp_thms Suc_le_eq)
  then obtain r g' j where r: "NextPrime_loop fuel unif fuel q q m g = Some (Inr (r, g'))"
      "first_accepted (\<lambda>i. unat q + Suc i * unat m) i j" "unat r = unat q + Suc j * unat m"
    using NextPrime_loop_correct [OF assms(1,3) order_refl, of i fuel g] p(1,4) unfolding i by blast
  have fa: "first_accepted (\<lambda>i. (unat q + unat m) + i * unat m) i j" using r(2) by (simp add: add.assoc)
  have "unat r \<le> p'" if "prime_nat p'" "p' mod unat m = unat q mod unat m" "unat q < p'" for p'
    using progression_below [OF fa that(1)] above [OF that(2,3)] that(2) by (simp add: r(3))
  moreover have "unat q < unat r" "unat r mod unat m = unat q mod unat m"
    using m mod_mult_self1 [of "unat q" "Suc j" "unat m"] by (simp_all add: r(3) del: mod_mult_self1)
  ultimately show ?thesis using r(1) p(1-3) unfolding NextPrime_def by blast
qed

theorem NextPrime_correct_witness:
  "\<exists>r g'. NextPrime zero_source 8 13 4 () = Some (Inr (r, g')) \<and> 13 < unat r \<and> unat r \<le> 17 \<and> unat r mod 4 = 1"
proof -
  have p: "prime_nat 17" by (simp add: prime_nat_iff)
  show ?thesis using NextPrime_correct [OF rng_total_zero [of 8], of 4 13 17 "()"] p by auto
qed

text \<open>
  If some prime congruent to \<open>q\<close> modulo \<open>m\<close> lies below \<open>q\<close>, within \<open>fuel\<close> steps, then \<open>PreviousPrime\<close>
  returns a number below \<open>q\<close> of the same residue, and no prime of that residue below \<open>q\<close> is larger.
\<close>

theorem PreviousPrime_correct:
  assumes "rng_total unif fuel" "m \<noteq> 0" "q \<le> 2 ^ 63"
    and p: "prime_nat p" "p mod unat m = unat q mod unat m" "p < unat q" "unat q \<le> p + fuel * unat m"
  shows "\<exists>r g'. PreviousPrime unif fuel q m g = Some (Inr (r, g')) \<and> unat r < unat q \<and> p \<le> unat r
    \<and> unat r mod unat m = unat q mod unat m
    \<and> (\<forall>p'. prime_nat p' \<and> p' mod unat m = unat q mod unat m \<and> p' < unat q \<longrightarrow> p' \<le> unat r)"
proof -
  have m: "0 < unat m" using assms(2) by (simp add: word_ge_0_nat)
  have below: "\<exists>i. unat q = p' + Suc i * unat m" if q': "p' mod unat m = unat q mod unat m" "p' < unat q" for p'
  proof -
    obtain i where i: "unat q = p' + i * unat m" using progression_member [of "unat q" "unat m" p'] q' by auto
    then show ?thesis using q'(2) by (cases i) auto
  qed
  obtain i where i: "unat q = p + Suc i * unat m" using below [OF p(2,3)] by blast
  have le: "m \<le> q" using i by (simp add: word_le_nat_alt)
  have uq: "unat (q - m) = unat q - unat m" by (rule unat_sub_nowrap [OF le])
  have nm: "(unat q - unat m) mod unat m = unat q mod unat m" using le by (metis le_mod_geq word_le_nat_alt)
  have "Suc i * unat m \<le> fuel * unat m" using p(4) i by linarith
  then have "i < fuel" using m by (simp only: mult_le_cancel2 simp_thms Suc_le_eq)
  moreover have "q - m \<le> q" using uq by (simp add: word_le_nat_alt)
  moreover have "i * unat m \<le> unat (q - m)" "unat (q - m) - i * unat m = p" using i by (simp_all add: uq)
  ultimately obtain r g' j where r: "PreviousPrime_loop fuel unif fuel q (q - m) m g = Some (Inr (r, g'))"
      "first_accepted (\<lambda>i. (unat q - unat m) - i * unat m) i j" "unat r = (unat q - unat m) - j * unat m"
    using PreviousPrime_loop_correct [OF assms(1,3), of "q - m" i fuel m g] p(1) unfolding uq by auto
  have max: "p' \<le> unat r" if p': "prime_nat p'" "p' mod unat m = unat q mod unat m" "p' < unat q" for p'
  proof -
    have "p' \<le> unat q - unat m" using below [OF p'(2,3)] by auto
    then show ?thesis using progression_above [OF r(2) p'(1)] p'(2) nm by (simp add: r(3))
  qed
  have "unat r < unat q" using m r(3) i by (simp add: less_le_trans)
  moreover have "unat r mod unat m = unat q mod unat m"
  proof -
    have "j \<le> i" using r(2) by (simp add: first_accepted_def)
    then have "j * unat m \<le> i * unat m" by simp
    then have "j * unat m \<le> unat q - unat m" using i by (simp only: mult_Suc)
    then show ?thesis unfolding r(3) using nat_mod_eq_sub_mult [of j "unat m" "unat q - unat m"] nm by simp
  qed
  ultimately show ?thesis using r(1) p(1-3) max unfolding PreviousPrime_def SubFast_def by blast
qed

theorem PreviousPrime_correct_witness:
  "\<exists>r g'. PreviousPrime zero_source 8 17 4 () = Some (Inr (r, g')) \<and> unat r < 17 \<and> 13 \<le> unat r \<and> unat r mod 4 = 1"
proof -
  have p: "prime_nat 13" by (simp add: prime_nat_iff)
  show ?thesis using PreviousPrime_correct [OF rng_total_zero [of 8], of 4 17 13 "()"] p by auto
qed


text \<open>
  C38: Pollard's rho always ends: for a modulus within the Barrett limits, any source for which \<open>RNG\<close>
  returns and \<open>n + 1\<close> rounds, it returns a divisor of \<open>n\<close> other than 1. When no proper factor is found, for instance for a prime, the
  result is \<open>n\<close> itself and not 1, which the documentation names for that case.
\<close>

theorem PollardRho_terminates:
  assumes "barrett_modulus n" "rng_total unif fuel" "unat n < fuel"
  shows "\<exists>d g'. PollardRhoFactorization unif fuel n g = Some (d, g') \<and> unat d dvd unat n \<and> 1 < unat d"
  by (rule PollardRho_divisor [OF assms])

theorem PollardRho_terminates_witness:
  "\<exists>d g'. PollardRhoFactorization zero_source 16 15 () = Some (d, g') \<and> unat d dvd 15 \<and> 1 < unat d"
proof -
  have "GetMSB 15 = 4" by code_simp
  then have "barrett_modulus 15" by (simp add: barrett_modulus_def)
  from PollardRho_terminates [OF this rng_total_zero [of 16], of "()"] show ?thesis by simp
qed

text \<open>
  C33: for a prime modulus within the Barrett limits and a power of two \<open>m = 2 ^ (K + 1)\<close> that divides \<open>q - 1\<close>,
  if the factorisation of \<open>q - 1\<close> returns and the source draws a generator within \<open>fuel\<close> rounds, then
  \<open>RootOfUnity\<close> returns a primitive root of unity of order \<open>m\<close>, with which the transforms can be set up; if \<open>m\<close> does
  not divide \<open>q - 1\<close> it throws.
\<close>

theorem RootOfUnity_correct:
  assumes q: "barrett_exact q" "prime_nat (unat q)" and m: "unat m = 2 ^ Suc K"
    and pf: "PrimeFactorize fuel unif fuel (SubFast q 1) [] g = Some (fs, g1)"
    and draw: "\<exists>r\<in>set (draws unif fuel (SubFast q 2) fuel g1). generator_for q fs (r + 1)"
  shows "if 2 ^ Suc K dvd unat q - 1
    then \<exists>r g'. RootOfUnity (Suc depth) unif fuel m q g = Some (Inr (r, g')) \<and> primitive_root q K r
    else RootOfUnity (Suc depth) unif fuel m q g = Some (Inl math_error)"
proof -
  have qm: "q \<noteq> 0" "4 \<le> unat q" using barrett_modulus_bounds(1,7) [of q] q(1) by (simp_all add: barrett_exact_def)
  have mq: "unat (ucast m :: NativeInt) = 2 ^ Suc K"
    using m unat_lt_32 [of m] by (simp add: unsigned_ucast_eq take_bit_eq_mod)
  have up: "unat (SubFast q 1) = unat q - 1" by (simp add: SubFast_def unat_pred [OF qm(1)])
  have dv: "Mod (SubFast q 1) (ucast m) = 0 \<longleftrightarrow> 2 ^ Suc K dvd unat q - 1"
    by (simp only: Mod_def word_unat_eq_iff unat_mod up mq dvd_eq_mod_eq_0 unat_0)
  show ?thesis
  proof (cases "2 ^ Suc K dvd unat q - 1")
    case False
    then show ?thesis using dv by (simp add: Let_def)
  next
    case True
    obtain gen g2 where gl: "FindGenerator_loop fuel unif fuel q fs g1 = Some (gen, g2)"
      using FindGenerator_loop_returns [OF draw] by blast
    then have fg: "FindGenerator unif fuel q g = Some (gen, g2)" by (simp add: FindGenerator_def pf)
    obtain r where gen: "generator_for q fs gen" "gen = r + 1" "r \<le> SubFast q 2"
      using FindGenerator_loop_result [OF gl] by blast
    have "even (unat (SubFast q 1))" "SubFast q 1 \<noteq> 0"
      using True qm(2) dvd_trans [of 2 "2 ^ Suc K" "unat q - 1"] by (auto simp: up word_unat_eq_iff)
    then have two: "2 \<in> set fs" using PrimeFactorize_even [OF pf] by blast
    note w = RootOfUnity_generator [OF q m True two gen]
    have "RootOfUnity (Suc depth) unif fuel m q g
        = Some (Inr (min_root m q (ModExp gen (SubFast q 1 div ucast m) q), g2))"
      using True dv w(3) by (simp add: fg Let_def)
    then show ?thesis using True odd_power_primitive [OF qm(1) min_root_odd [OF q(1) w(2) m] w(1)] by simp
  qed
qed

text \<open>A source that always returns 2 (or the bound, when that is smaller), for the example below.\<close>

definition two_source :: "usint \<Rightarrow> unit \<Rightarrow> usint \<times> unit" where
  "two_source b g = (if b < 2 then b else 2, g)"

theorem RootOfUnity_correct_witness:
  "\<exists>r g'. RootOfUnity 1 two_source 8 8 17 () = Some (Inr (r, g')) \<and> primitive_root 17 2 r"
proof -
  have pr: "prime_nat (unat (17 :: NativeInt))" by (simp add: prime_nat_iff)
  have "PrimeFactorize 8 two_source 8 (SubFast 17 1) [] () = Some ([2], ())" by code_simp
  moreover have "\<exists>r\<in>set (draws two_source 8 (SubFast 17 2) 8 ()). generator_for 17 [2] (r + 1)"
    by code_simp
  ultimately show ?thesis
    using RootOfUnity_correct [OF barrett_exact_17 pr, of 8 2 8 two_source "()" "[2]" "()" 0] by simp
qed

end
