(* ===== verification/NbPoly.thy ===== *)
theory NbPoly
  imports NbTheory "HOL-Library.Signed_Division"
begin

text \<open>
  The polynomial arithmetic of \<open>src/core/lib/math/nbtheory.cpp\<close> over \<open>NativeVector\<close>, and the cyclotomic
  polynomials and automorphism indices of \<open>nbtheory2.cpp\<close>.

  \<open>at\<close> is the checked access of the vector class. Lengths and loop bounds are 32-bit words in the source, so
  \<open>a - b + 1\<close> on them wraps; the model keeps them as words and counts the iterations with \<open>unat\<close>.
\<close>

section \<open>Polynomials with coefficients modulo \<open>q\<close>\<close>

text \<open>The assignment \<open>v.at(i) = x\<close>.\<close>

definition NV_put :: "NativeVector \<Rightarrow> nat \<Rightarrow> NativeInt \<Rightarrow> NativeVector result" where
  "NV_put v i x = res_bind (NV_at v i) (\<lambda>_. Inr (v\<lparr>m_data := (m_data v)[i := x]\<rparr>))"

definition usize :: "NativeVector \<Rightarrow> usint" where
  "usize v = of_nat (NV_GetLength v)"

text \<open>One pass of \<open>PolyMod\<close>: subtract the multiple of the divisor and move the dividend up by one place.\<close>

definition PolyMod_shift :: "NativeVector \<Rightarrow> NativeInt \<Rightarrow> NativeInt \<Rightarrow> usint \<Rightarrow> usint \<Rightarrow> nat \<Rightarrow> NativeVector \<Rightarrow> NativeVector result" where
  "PolyMod_shift divisor modulus mu divisorLength dividendLength i runningDividend =
     res_bind (NV_at runningDividend (unat (dividendLength - 1))) (\<lambda>divConst.
       let divisorPtr = divisorLength - 1
       in res_range 0 (unat (dividendLength - of_nat i - 1))
            (\<lambda>j rd. res_bind (NV_at rd (unat (dividendLength - 2 - of_nat j))) (\<lambda>z.
               if divisorPtr > of_nat j then
                 res_bind (NV_at divisor (unat (divisorPtr - 1 - of_nat j))) (\<lambda>x.
                   NV_put rd (unat (dividendLength - 1 - of_nat j)) (ModSub_mu z (MulFast x divConst) modulus mu))
               else NV_put rd (unat (dividendLength - 1 - of_nat j)) z))
            runningDividend)"

definition PolyMod :: "NativeVector \<Rightarrow> NativeVector \<Rightarrow> NativeInt \<Rightarrow> NativeVector result" where
  "PolyMod dividend divisor modulus =
     (let divisorLength = usize divisor;
          dividendLength = usize dividend;
          runs = dividendLength - divisorLength + 1;
          mu = ComputeMu modulus
      in res_bind (NV_new (unat (divisorLength - 1)) modulus) (\<lambda>result.
         res_bind (res_range 0 (unat runs)
                     (\<lambda>i rd. PolyMod_shift divisor modulus mu divisorLength dividendLength i rd) dividend) (\<lambda>rd.
         res_range 0 (unat (divisorLength - 1))
           (\<lambda>i result. res_bind (NV_at rd (unat (runs + of_nat i))) (\<lambda>x. NV_put result i x)) result)))"

definition PolynomialMultiplication :: "NativeVector \<Rightarrow> NativeVector \<Rightarrow> NativeVector result" where
  "PolynomialMultiplication a b =
     (let degreeA = usize a - 1;
          degreeB = usize b - 1;
          degreeResultant = degreeA + degreeB;
          modulus = NV_GetModulus a
      in res_bind (NV_new (unat (degreeResultant + 1)) modulus) (\<lambda>result.
         res_range 0 (NV_GetLength a)
           (\<lambda>i. res_range 0 (NV_GetLength b)
              (\<lambda>j result. res_bind (NV_at result (i + j)) (\<lambda>valResult.
                 res_bind (NV_at a i) (\<lambda>x. res_bind (NV_at b j) (\<lambda>y.
                   NV_put result (i + j) (Mod (AddFast (MulFast x y) valResult) modulus))))))
           result))"

text \<open>The loop counter of \<open>SyntheticRemainder\<close> runs down from \<open>n - 2\<close> to 0.\<close>

definition SyntheticRemainder :: "NativeVector \<Rightarrow> NativeInt \<Rightarrow> NativeInt \<Rightarrow> NativeInt result" where
  "SyntheticRemainder dividend a modulus =
     res_bind (NV_at dividend (unat (usize dividend - 1))) (\<lambda>val.
       let mu = ComputeMu modulus
       in res_range 0 (NV_GetLength dividend - 1)
            (\<lambda>k val. res_bind (NV_at dividend (NV_GetLength dividend - 2 - k)) (\<lambda>x.
               Inr (Mod_mu (AddFast x (MulFast a val)) modulus mu)))
            val)"

definition SyntheticPolyRemainder :: "NativeVector \<Rightarrow> NativeVector \<Rightarrow> NativeInt \<Rightarrow> NativeVector result" where
  "SyntheticPolyRemainder dividend aList modulus =
     res_bind (NV_new (NV_GetLength aList) modulus) (\<lambda>result.
       res_range 0 (NV_GetLength aList)
         (\<lambda>i result. res_bind (NV_at aList i) (\<lambda>a.
            res_bind (SyntheticRemainder dividend a modulus) (\<lambda>r. NV_put result i r)))
         result)"

definition PolynomialPower :: "NativeVector \<Rightarrow> usint \<Rightarrow> NativeVector result" where
  "PolynomialPower input pow =
     (let finalDegree = (usize input - 1) * pow
      in res_bind (NV_new (unat (finalDegree + 1)) (NV_GetModulus input)) (\<lambda>finalPoly.
         res_bind (NV_at input 0) (\<lambda>x.
         res_bind (NV_put finalPoly 0 x) (\<lambda>finalPoly.
         res_range 1 (NV_GetLength input)
           (\<lambda>i finalPoly. res_bind (NV_at input i) (\<lambda>x. NV_put finalPoly (unat (of_nat i * pow)) x))
           finalPoly))))"

text \<open>The loop counter of \<open>SyntheticPolynomialDivision\<close> runs down from \<open>n - 1\<close> to 1.\<close>

definition SyntheticPolynomialDivision :: "NativeVector \<Rightarrow> NativeInt \<Rightarrow> NativeInt \<Rightarrow> NativeVector result" where
  "SyntheticPolynomialDivision dividend a modulus =
     (let n = usize dividend - 1; mu = ComputeMu modulus
      in res_bind (NV_new (unat n) modulus) (\<lambda>result.
         res_bind (NV_at dividend (unat n)) (\<lambda>val.
         res_bind (NV_put result (unat (n - 1)) val) (\<lambda>result.
         res_bind (res_range 0 (unat n - 1)
           (\<lambda>k (val, result).
              let i = unat n - 1 - k
              in res_bind (NV_at dividend i) (\<lambda>x.
                 let val = Mod_mu (AddFast (MulFast val a) x) modulus mu
                 in res_bind (NV_put result (i - 1) val) (\<lambda>result. Inr (val, result))))
           (val, result)) (\<lambda>(val, result). Inr result)))))"

section \<open>Cyclotomic polynomials\<close>

text \<open>
  The coefficients are C++ \<open>int\<close>s, on which an overflow would be undefined; they are integers here. The lambdas
  of \<open>GetCyclotomicPolynomialRecursive\<close> are definitions of their own.
\<close>

definition IsPrime :: "nat \<Rightarrow> bool" where
  "IsPrime val \<longleftrightarrow> \<not> list_ex (\<lambda>i. val mod i = 0) [2..<val]"

definition GetDivisibleNumbers :: "nat \<Rightarrow> nat list" where
  "GetDivisibleNumbers val = filter (\<lambda>i. val mod i = 0) [1..<val]"

definition PolyMult :: "int list \<Rightarrow> int list \<Rightarrow> int list" where
  "PolyMult a b =
     for_range 0 (length a)
       (\<lambda>i. for_range 0 (length b) (\<lambda>j product. product[i + j := a ! i * b ! j + product ! (i + j)]))
       (replicate (length a - 1 + (length b - 1) + 1) 0)"

definition PolyQuotient :: "int list \<Rightarrow> int list \<Rightarrow> int list" where
  "PolyQuotient dividend divisor =
     (let divisorLength = length divisor;
          dividendLength = length dividend;
          runs = dividendLength - divisorLength + 1;
          quotient = replicate (runs + 1) 0;
          (rd, quotient) = for_range 0 runs
            (\<lambda>i (rd, quotient).
               let divConst = rd ! (dividendLength - 1);
                   divisorPtr = divisorLength - 1;
                   rd = for_range 0 (dividendLength - i - 1)
                     (\<lambda>j rd. if divisorPtr > j
                              then rd[dividendLength - 1 - j := rd ! (dividendLength - 2 - j) - divisor ! (divisorPtr - 1 - j) * divConst]
                              else rd[dividendLength - 1 - j := rd ! (dividendLength - 2 - j)])
                     rd
               in (rd, quotient[i + 1 := rd ! (dividendLength - 1)]))
            (dividend, quotient)
      in butlast (quotient[0 := 1]))"

lemma GetDivisibleNumbers_less: "i \<in> set (GetDivisibleNumbers m) \<Longrightarrow> i < m"
  by (simp add: GetDivisibleNumbers_def)

function GetCyclotomicPolynomialRecursive :: "nat \<Rightarrow> int list" where
  "GetCyclotomicPolynomialRecursive m =
     (if m = 1 then [-1, 1]
      else if m = 2 then [1, 1]
      else if IsPrime m then replicate m 1
      else let product = foldl PolyMult [1] (map GetCyclotomicPolynomialRecursive (GetDivisibleNumbers m));
               bigPoly = (replicate (m + 1) 0)[0 := -1, m := 1]
           in PolyQuotient bigPoly product)"
  by pat_completeness auto
termination
  by (relation "measure id") (auto dest: GetDivisibleNumbers_less)

declare GetCyclotomicPolynomialRecursive.simps [simp del]

definition GetCyclotomicPolynomial :: "nat \<Rightarrow> NativeInt \<Rightarrow> NativeVector result" where
  "GetCyclotomicPolynomial m modulus =
     (let intCP = GetCyclotomicPolynomialRecursive m
      in res_bind (NV_new (length intCP) modulus) (\<lambda>result.
         res_range 0 (length intCP)
           (\<lambda>i result. let val = intCP ! i
                        in NV_put result i (if val > -1 then word_of_int val else SubFast modulus (word_of_int (val * -1))))
           result))"

section \<open>Automorphism indices\<close>

text \<open>\<open>ModInverse(usint, usint)\<close> of \<open>nbtheory2.cpp\<close>; the division traps when \<open>b\<close> has reached 0.\<close>

function ModInverse_usint_loop :: "usint \<Rightarrow> usint \<Rightarrow> usint \<Rightarrow> usint \<Rightarrow> usint result" where
  "ModInverse_usint_loop a b x0 x1 =
     (if a > 1 then
        (if b = 0 then Inl div_by_zero
         else let q = a div b in ModInverse_usint_loop b (a mod b) (x1 - q * x0) x0)
      else Inr x1)"
  by pat_completeness auto
termination
  by (relation "measure (\<lambda>(a, b, x0, x1). unat b)") (auto simp: unat_mod word_ge_0_nat)

declare ModInverse_usint_loop.simps [simp del]

definition ModInverse_usint :: "usint \<Rightarrow> usint \<Rightarrow> usint result" where
  "ModInverse_usint a b = (if b = 1 then Inr 1 else ModInverse_usint_loop a b 0 1)"

text \<open>The repeated product \<open>g = (g * g0) % m\<close> in 32 bits, for \<open>j = lo, ..., hi - 1\<close>.\<close>

definition index_power :: "nat \<Rightarrow> nat \<Rightarrow> usint \<Rightarrow> usint \<Rightarrow> usint \<Rightarrow> usint" where
  "index_power start stop g g0 m = for_range start stop (\<lambda>j g. (g * g0) mod m) g"

definition FindAutomorphismIndex2n :: "(usint \<Rightarrow> 'g \<Rightarrow> usint \<times> 'g) \<Rightarrow> nat \<Rightarrow> int \<Rightarrow> usint \<Rightarrow> 'g \<Rightarrow> (usint \<times> 'g) result option" where
  "FindAutomorphismIndex2n unif fuel i m s =
     (if i = 0 then Some (Inr (1, s))
      else if m = 0 then Some (Inl div_by_zero)
      else case GetTotient unif fuel (ucast m) s of None \<Rightarrow> None
      | Some (tot, s) \<Rightarrow>
          let n = (ucast tot :: usint)
          in Some (res_bind
               (if i < 0 then
                  res_bind (ModInverse 5 (ucast m)) (\<lambda>f1.
                  res_bind (ModInverse (ucast (m - 1)) (ucast m)) (\<lambda>f2. Inr (ucast f1, ucast f2)))
                else Inr (5, m - 1))
               (\<lambda>(f1, f2).
                  let i_unsigned = nat \<bar>i\<bar>; g0 = f1
                  in Inr (if i_unsigned < unat (n div 2) then index_power 1 i_unsigned f1 g0 m
                          else index_power (unat (n div 2)) i_unsigned f2 g0 m, s))))"

definition FindAutomorphismIndexCyclic :: "(usint \<Rightarrow> 'g \<Rightarrow> usint \<times> 'g) \<Rightarrow> nat \<Rightarrow> int \<Rightarrow> usint \<Rightarrow> usint \<Rightarrow> 'g \<Rightarrow> (usint \<times> 'g) result option" where
  "FindAutomorphismIndexCyclic unif fuel i m g s =
     (if i = 0 then Some (Inr (1, s))
      else case GetTotient unif fuel (ucast m) s of None \<Rightarrow> None
      | Some (tot, s) \<Rightarrow>
          let n = sint (ucast tot :: usint)
          in if n = 0 then Some (Inl div_by_zero)
             else let i_signed = i smod n;
                      i_signed = (if i_signed \<le> 0 then i_signed + n else i_signed);
                      i_unsigned = unat (word_of_int i_signed :: usint)
                  in Some (Inr (index_power 2 i_unsigned g g m, s)))"

definition FindAutomorphismIndex2nComplex :: "int \<Rightarrow> usint \<Rightarrow> usint result" where
  "FindAutomorphismIndex2nComplex i m =
     (if i = 0 then Inr 1
      else if i = sint (m - 1) then Inr (word_of_int i)
      else if m = 0 then Inl div_by_zero
      else res_bind (if i < 0 then res_bind (ModInverse 5 (ucast m)) (\<lambda>f. Inr (ucast f)) else Inr 5)
             (\<lambda>g0. let i_unsigned = nat \<bar>i\<bar> in Inr (index_power 1 i_unsigned g0 g0 m)))"

text \<open>
  \<open>PrecomputeAutoMap\<close> writes into the vector \<open>precomp\<close> of the caller; a write past its end is out of bounds.
\<close>

definition PrecomputeAutoMap :: "usint \<Rightarrow> usint \<Rightarrow> usint list \<Rightarrow> usint list result" where
  "PrecomputeAutoMap n k precomp =
     (let m = push_bit 1 n;
          logm = round_log2 (unat m);
          logn = round_log2 (unat n)
      in res_range 0 (unat n)
           (\<lambda>j precomp.
              let jTmp = push_bit 1 (of_nat j) + 1;
                  idx = drop_bit 1 (jTmp * k - push_bit logm (drop_bit logm (jTmp * k)));
                  jrev = ReverseBits (of_nat j) logn;
                  idxrev = ReverseBits idx logn
              in if unat jrev < length precomp then Inr (precomp[unat jrev := idxrev]) else Inl out_of_bounds)
           precomp)"

section \<open>The automorphism map\<close>

text \<open>The place of the root \<open>2 * j + 1\<close> after multiplication of the exponents by the odd index \<open>k\<close>.\<close>

definition auto_index :: "nat \<Rightarrow> nat \<Rightarrow> nat \<Rightarrow> nat" where
  "auto_index K k j = (2 * j + 1) * k mod 2 ^ Suc K div 2"

lemma round_log2_pow2: "round_log2 (2 ^ K) = K"
proof -
  have "floorlog 2 (2 ^ K) = Suc K" by (simp add: floorlog_def)
  then show ?thesis by (simp add: round_log2_def power_mult [symmetric] mult.commute)
qed

lemma auto_index_lt: "auto_index K k j < 2 ^ K"
proof -
  have "(2 * j + 1) * k mod 2 ^ Suc K < 2 ^ Suc K" by (rule mod_less_divisor) simp
  then show ?thesis unfolding auto_index_def by (simp only: power_Suc less_mult_imp_div_less mult.commute)
qed

lemma auto_index_odd:
  assumes "odd k"
  shows "2 * auto_index K k j + 1 = (2 * j + 1) * k mod 2 ^ Suc K"
proof -
  have "odd ((2 * j + 1) * k)" using assms by simp
  then have "odd ((2 * j + 1) * k mod 2 ^ Suc K)" by (simp add: even_iff_mod_2_eq_zero mod_mod_cancel)
  then show ?thesis unfolding auto_index_def by (rule odd_two_times_div_two_succ)
qed

lemma auto_index_inj:
  assumes "odd k" "i < 2 ^ K" "j < 2 ^ K" "auto_index K k i = auto_index K k j"
  shows "i = j"
proof -
  have "(2 * i + 1) * k mod 2 ^ Suc K = (2 * j + 1) * k mod 2 ^ Suc K"
    using auto_index_odd [OF assms(1)] assms(4) by metis
  then have "int (2 ^ Suc K) dvd int ((2 * i + 1) * k) - int ((2 * j + 1) * k)"
    by (metis mod_eq_dvd_iff of_nat_mod)
  also have "int ((2 * i + 1) * k) - int ((2 * j + 1) * k) = (2 * (int i - int j)) * int k"
    by (simp add: algebra_simps)
  finally have "int (2 ^ Suc K) dvd (2 * (int i - int j)) * int k" .
  moreover have "coprime (int (2 ^ Suc K)) (int k)" using assms(1) by simp
  ultimately have "int (2 ^ Suc K) dvd 2 * (int i - int j)" by (metis coprime_dvd_mult_left_iff)
  then have "2 * 2 ^ K dvd 2 * (int i - int j)" by simp
  then have "2 ^ K dvd int i - int j" by (simp only: dvd_mult_cancel_left) simp
  then have "int i mod 2 ^ K = int j mod 2 ^ K" by (simp only: mod_eq_dvd_iff)
  moreover have "int i < 2 ^ K" "int j < 2 ^ K"
    using assms(2,3) by (simp_all only: of_nat_less_numeral_power_cancel_iff)
  ultimately show ?thesis by simp
qed

lemma auto_index_bij:
  assumes "odd k"
  shows "bij_betw (auto_index K k) {..<2 ^ K} {..<2 ^ K}"
proof -
  have inj: "inj_on (auto_index K k) {..<2 ^ K}" using auto_index_inj [OF assms] by (auto simp: inj_on_def)
  moreover have "auto_index K k ` {..<2 ^ K} \<subseteq> {..<2 ^ K}" using auto_index_lt by auto
  ultimately show ?thesis by (simp add: bij_betw_def endo_inj_surj)
qed

text \<open>The masked product of the source is the remainder, also when the 32-bit product wraps.\<close>

lemma unat_masked:
  fixes x :: usint
  assumes "l \<le> 32"
  shows "unat (x - push_bit l (drop_bit l x)) = unat x mod 2 ^ l"
proof -
  have "unat (push_bit l (drop_bit l x)) = unat x div 2 ^ l * 2 ^ l mod 2 ^ 32"
    by (subst unsigned_push_bit_eq) (simp add: take_bit_eq_mod push_bit_eq_mult unat_drop_bit)
  also have "\<dots> = unat x div 2 ^ l * 2 ^ l"
    using unat_lt_32 [of x] le_less_trans [OF div_times_less_eq_dividend [of "unat x" "2 ^ l"]] by simp
  finally have u: "unat (push_bit l (drop_bit l x)) = unat x div 2 ^ l * 2 ^ l" .
  then have "push_bit l (drop_bit l x) \<le> x" by (simp add: word_le_nat_alt div_times_less_eq_dividend)
  then show ?thesis by (simp add: unat_sub_nowrap u minus_div_mult_eq_mod)
qed

lemma unat_auto_index:
  assumes "K \<le> 24" "j < 2 ^ K" "jTmp = push_bit 1 (of_nat j) + 1"
  shows "drop_bit 1 (jTmp * k - push_bit (Suc K) (drop_bit (Suc K) (jTmp * k))) = (of_nat (auto_index K (unat k) j) :: usint)"
proof -
  have j: "2 * j + 1 < 2 ^ 32"
  proof -
    have "j < 2 ^ 24" using assms(1,2) by (metis less_le_trans one_le_numeral power_increasing)
    then show ?thesis by simp
  qed
  have jt: "jTmp = of_nat (2 * j + 1)" by (simp add: assms(3) push_bit_eq_mult)
  have uj: "unat jTmp = 2 * j + 1" unfolding jt using j by (rule unat_of_nat_32)
  have "unat (drop_bit 1 (jTmp * k - push_bit (Suc K) (drop_bit (Suc K) (jTmp * k)))) = unat (jTmp * k) mod 2 ^ Suc K div 2"
    using assms(1) by (simp only: unat_drop_bit unat_masked) simp
  also have "unat (jTmp * k) mod 2 ^ Suc K = (2 * j + 1) * unat k mod 2 ^ Suc K"
  proof -
    have "(2 :: nat) ^ Suc K dvd 2 ^ 32" using assms(1) by (intro le_imp_power_dvd) simp
    then show ?thesis using mod_mod_cancel [of "2 ^ Suc K" "2 ^ 32" "(2 * j + 1) * unat k"]
      by (simp only: unat_word_ariths uj) simp
  qed
  finally have "unat (drop_bit 1 (jTmp * k - push_bit (Suc K) (drop_bit (Suc K) (jTmp * k)))) = auto_index K (unat k) j"
    by (simp only: auto_index_def)
  then show ?thesis by (metis of_nat_unat ucast_id)
qed

lemma brv_inj:
  assumes "0 < K" "K \<le> 24" "i < 2 ^ K" "j < 2 ^ K" "brv K i = brv K j"
  shows "i = j"
  using arg_cong [OF assms(5), of "brv K"] unfolding brv_brv [OF assms(1-3)] brv_brv [OF assms(1,2,4)] .

lemma PrecomputeAutoMap_entries:
  assumes "0 < K" "K \<le> 24" "length precomp = 2 ^ K"
  shows "\<exists>pm. PrecomputeAutoMap (of_nat (2 ^ K)) k precomp = Inr pm \<and> length pm = 2 ^ K
    \<and> (\<forall>j<2 ^ K. unat (pm ! brv K j) = brv K (auto_index K (unat k) j))"
proof -
  have pw: "(2 :: nat) ^ Suc K \<le> 2 ^ 25" using assms(2) by (intro power_increasing) auto
  have n: "unat (of_nat (2 ^ K) :: usint) = 2 ^ K" using pw by (intro unat_of_nat_32) simp
  have "push_bit 1 (of_nat (2 ^ K)) = (of_nat (2 ^ Suc K) :: usint)" by (simp add: push_bit_eq_mult)
  then have m: "unat (push_bit 1 (of_nat (2 ^ K)) :: usint) = 2 ^ Suc K" using pw by (simp only:) (intro unat_of_nat_32, simp)
  let ?P = "\<lambda>i (pm :: usint list). length pm = 2 ^ K \<and> (\<forall>j<i. unat (pm ! brv K j) = brv K (auto_index K (unat k) j))"
  let ?body = "\<lambda>j pm. let jTmp = push_bit 1 (of_nat j) + 1;
      idx = drop_bit 1 (jTmp * k - push_bit (Suc K) (drop_bit (Suc K) (jTmp * k)));
      jrev = ReverseBits (of_nat j) K; idxrev = ReverseBits idx K
    in if unat jrev < length pm then Inr (pm[unat jrev := idxrev]) else Inl out_of_bounds"
  have "\<exists>pm. res_range 0 (2 ^ K) ?body precomp = Inr pm \<and> ?P (2 ^ K) pm"
  proof (rule res_range_invariant [where P = ?P])
    fix i :: nat and pm :: "usint list"
    assume i: "0 \<le> i" "i < 2 ^ K" and P: "?P i pm"
    let ?pm = "pm[brv K i := ReverseBits (of_nat (auto_index K (unat k) i)) K]"
    have lt: "brv K i < 2 ^ K" by (rule brv_lt [OF assms(1,2) i(2)])
    have b: "?body i pm = Inr ?pm"
      unfolding Let_def unat_auto_index [OF assms(2) i(2) refl] using lt P by (simp add: brv_def [symmetric])
    have "unat (?pm ! brv K j) = brv K (auto_index K (unat k) j)" if "j < Suc i" for j
    proof (cases "j = i")
      case True
      then show ?thesis using P lt by (simp add: brv_def [symmetric])
    next
      case False
      then have "j < i" "brv K j \<noteq> brv K i" using that i(2) brv_inj [OF assms(1,2), of j i] by auto
      then show ?thesis using P by simp
    qed
    then show "\<exists>t'. ?body i pm = Inr t' \<and> ?P (Suc i) t'" unfolding b using P by simp
  qed (use assms(3) in auto)
  then show ?thesis unfolding PrecomputeAutoMap_def Let_def m n round_log2_pow2 by (simp only:)
qed

end
