(* ===== verification/Poly.thy ===== *)
theory Poly
  imports NbPoly
begin

text \<open>
  \<open>PolyImpl<NativeVector>\<close> of \<open>src/core/lib/lattice/poly.cpp\<close>: an element of the ring of integers modulo \<open>q\<close> and the
  cyclotomic polynomial, in coefficient or in evaluation format, with the parameters of
  \<open>elemparams.h\<close> and \<open>ilparams.h\<close>. The prefix \<open>Poly_\<close> marks a method of the class, the suffix \<open>_s\<close> the overload with
  an integer operand and \<open>Eq\<close> the compound assignment.

  The values sit behind a \<open>unique_ptr\<close>: \<open>None\<close> is the null pointer. A method that changes the
  format also takes and returns the table cache of the transform. For cyclotomic orders that are not powers of two the
  format is switched by \<open>ChineseRemainderTransformArb\<close>, which is a parameter \<open>arb\<close> of the model (\<open>True\<close> selects the
  forward transform). The random vectors of the generator constructors are arguments.
\<close>

section \<open>Parameters\<close>

datatype Format = EVALUATION | COEFFICIENT

record ILParams =
  cyclotomicOrder :: usint
  ringDimension :: usint
  isPowerOfTwo :: bool
  ciphertextModulus :: NativeInt
  rootOfUnity :: NativeInt
  bigCiphertextModulus :: NativeInt
  bigRootOfUnity :: NativeInt

text \<open>The constructor of \<open>ElemParams\<close>; \<open>tot\<close> is the value of \<open>GetTotient(order)\<close>.\<close>

definition ElemParams_of :: "NativeInt \<Rightarrow> usint \<Rightarrow> NativeInt \<Rightarrow> NativeInt \<Rightarrow> NativeInt \<Rightarrow> NativeInt \<Rightarrow> ILParams" where
  "ElemParams_of tot order ctModulus rUnity bigCtModulus bigRUnity =
     \<lparr>cyclotomicOrder = order, ringDimension = ucast tot, isPowerOfTwo = (ucast tot = order div 2),
      ciphertextModulus = ctModulus, rootOfUnity = rUnity,
      bigCiphertextModulus = bigCtModulus, bigRootOfUnity = bigRUnity\<rparr>"

definition ElemParams_new :: "(usint \<Rightarrow> 'g \<Rightarrow> usint \<times> 'g) \<Rightarrow> nat \<Rightarrow> usint \<Rightarrow> NativeInt \<Rightarrow> NativeInt \<Rightarrow> NativeInt \<Rightarrow> NativeInt \<Rightarrow> 'g \<Rightarrow> (ILParams \<times> 'g) option" where
  "ElemParams_new unif fuel order ctModulus rUnity bigCtModulus bigRUnity g =
     (case GetTotient unif fuel (ucast order) g of None \<Rightarrow> None
      | Some (tot, g) \<Rightarrow> Some (ElemParams_of tot order ctModulus rUnity bigCtModulus bigRUnity, g))"

text \<open>The constructor of \<open>ILParamsImpl\<close> that searches for the root of unity.\<close>

definition ILParams_search :: "(usint \<Rightarrow> 'g \<Rightarrow> usint \<times> 'g) \<Rightarrow> nat \<Rightarrow> usint \<Rightarrow> NativeInt \<Rightarrow> 'g \<Rightarrow> (ILParams \<times> 'g) result option" where
  "ILParams_search unif fuel order modulus g =
     (case ElemParams_new unif fuel order modulus 0 0 0 g of None \<Rightarrow> None
      | Some (params, g) \<Rightarrow>
     (case RootOfUnity fuel unif fuel order modulus g of None \<Rightarrow> None
      | Some (Inl e) \<Rightarrow> Some (Inl e)
      | Some (Inr (r, g)) \<Rightarrow> Some (Inr (params\<lparr>rootOfUnity := r\<rparr>, g))))"

definition ElemParams_eq :: "ILParams \<Rightarrow> ILParams \<Rightarrow> bool" where
  "ElemParams_eq p other \<longleftrightarrow>
     cyclotomicOrder p = cyclotomicOrder other \<and> ringDimension p = ringDimension other \<and>
     ciphertextModulus p = ciphertextModulus other \<and> rootOfUnity p = rootOfUnity other \<and>
     bigCiphertextModulus p = bigCiphertextModulus other \<and> bigRootOfUnity p = bigRootOfUnity other"

section \<open>State and access\<close>

record Poly =
  m_values :: "NativeVector option"
  m_format :: Format
  m_params :: ILParams

type_synonym arb_transform = "bool \<Rightarrow> NativeVector \<Rightarrow> NativeInt \<Rightarrow> NativeInt \<Rightarrow> NativeInt \<Rightarrow> usint \<Rightarrow> NativeVector result"

text \<open>Dereferencing \<open>m_values\<close>, and the unchecked element access of the vector.\<close>

definition deref :: "'a option \<Rightarrow> 'a result" where
  "deref p = (case p of None \<Rightarrow> Inl null_pointer | Some x \<Rightarrow> Inr x)"

definition vec_get :: "NativeVector \<Rightarrow> nat \<Rightarrow> NativeInt result" where
  "vec_get v i = (if i < NV_GetLength v then Inr (m_data v ! i) else Inl out_of_bounds)"

definition vec_set :: "NativeVector \<Rightarrow> nat \<Rightarrow> NativeInt \<Rightarrow> NativeVector result" where
  "vec_set v i x = (if i < NV_GetLength v then Inr (v\<lparr>m_data := (m_data v)[i := x]\<rparr>) else Inl out_of_bounds)"

definition Poly_GetValues :: "Poly \<Rightarrow> NativeVector result" where
  "Poly_GetValues p = (case m_values p of None \<Rightarrow> Inl not_available_error | Some v \<Rightarrow> Inr v)"

definition Poly_GetFormat :: "Poly \<Rightarrow> Format" where
  "Poly_GetFormat p = m_format p"

definition Poly_at :: "Poly \<Rightarrow> nat \<Rightarrow> NativeInt result" where
  "Poly_at p i = (case m_values p of None \<Rightarrow> Inl not_available_error | Some v \<Rightarrow> NV_at v i)"

definition Poly_GetLength :: "Poly \<Rightarrow> nat result" where
  "Poly_GetLength p = (case m_values p of None \<Rightarrow> Inl not_available_error | Some v \<Rightarrow> Inr (NV_GetLength v))"

definition Poly_IsEmpty :: "Poly \<Rightarrow> bool" where
  "Poly_IsEmpty p = (case m_values p of None \<Rightarrow> True | Some _ \<Rightarrow> False)"

definition Poly_SetValues :: "Poly \<Rightarrow> NativeVector \<Rightarrow> Format \<Rightarrow> Poly result" where
  "Poly_SetValues p vals format =
     (if rootOfUnity (m_params p) = 0 then Inl type_error
      else if unat (ringDimension (m_params p)) \<noteq> NV_GetLength vals \<or> ciphertextModulus (m_params p) \<noteq> NV_GetModulus vals
      then Inl type_error
      else Inr (p\<lparr>m_values := Some vals, m_format := format\<rparr>))"

definition Poly_SetValuesToZero :: "Poly \<Rightarrow> Poly result" where
  "Poly_SetValuesToZero p =
     res_bind (NV_new (unat (ringDimension (m_params p))) (ciphertextModulus (m_params p)))
       (\<lambda>v. Inr (p\<lparr>m_values := Some v\<rparr>))"

definition Poly_SetValuesToMax :: "Poly \<Rightarrow> Poly result" where
  "Poly_SetValuesToMax p =
     (let max = SubFast (ciphertextModulus (m_params p)) 1;
          sz = unat (ringDimension (m_params p))
      in res_bind (NV_new (unat (ringDimension (m_params p))) (ciphertextModulus (m_params p)))
         (\<lambda>v. res_bind (res_range 0 sz (\<lambda>i v. vec_set v i max) v) (\<lambda>v. Inr (p\<lparr>m_values := Some v\<rparr>))))"

section \<open>Change of format\<close>

definition Poly_ArbitrarySwitchFormat :: "arb_transform \<Rightarrow> Poly \<Rightarrow> Poly result" where
  "Poly_ArbitrarySwitchFormat arb p =
     (let params = m_params p
      in case m_values p of None \<Rightarrow> Inl not_available_error
      | Some v \<Rightarrow>
          (case m_format p of
             COEFFICIENT \<Rightarrow>
               res_bind (arb True v (rootOfUnity params) (bigCiphertextModulus params) (bigRootOfUnity params) (cyclotomicOrder params))
                 (\<lambda>v. Inr (p\<lparr>m_format := EVALUATION, m_values := Some v\<rparr>))
           | EVALUATION \<Rightarrow>
               res_bind (arb False v (rootOfUnity params) (bigCiphertextModulus params) (bigRootOfUnity params) (cyclotomicOrder params))
                 (\<lambda>v. Inr (p\<lparr>m_format := COEFFICIENT, m_values := Some v\<rparr>))))"

definition Poly_SwitchFormat :: "arb_transform \<Rightarrow> Poly \<Rightarrow> FTTTables \<Rightarrow> (Poly \<times> FTTTables) result" where
  "Poly_SwitchFormat arb p T =
     (case m_values p of None \<Rightarrow> Inl not_available_error
      | Some v \<Rightarrow>
          if isPowerOfTwo (m_params p) = False then
            res_bind (Poly_ArbitrarySwitchFormat arb p) (\<lambda>p. Inr (p, T))
          else (case m_format p of
            COEFFICIENT \<Rightarrow>
              res_bind (FTT_ForwardTransformToBitReverseInPlace (rootOfUnity (m_params p)) (cyclotomicOrder (m_params p)) v T)
                (\<lambda>(v, T). Inr (p\<lparr>m_format := EVALUATION, m_values := Some v\<rparr>, T))
          | EVALUATION \<Rightarrow>
              res_bind (FTT_InverseTransformFromBitReverseInPlace (rootOfUnity (m_params p)) (cyclotomicOrder (m_params p)) v T)
                (\<lambda>(v, T). Inr (p\<lparr>m_format := COEFFICIENT, m_values := Some v\<rparr>, T))))"

definition Poly_SetFormat :: "arb_transform \<Rightarrow> Poly \<Rightarrow> Format \<Rightarrow> FTTTables \<Rightarrow> (Poly \<times> FTTTables) result" where
  "Poly_SetFormat arb p format T =
     (if Poly_GetFormat p \<noteq> format then Poly_SwitchFormat arb p T else Inr (p, T))"

section \<open>Constructors and assignments\<close>

definition Poly_new :: "ILParams \<Rightarrow> Format \<Rightarrow> bool \<Rightarrow> Poly result" where
  "Poly_new params format initializeElementToZero =
     (let p = \<lparr>m_values = None, m_format = format, m_params = params\<rparr>
      in if initializeElementToZero then Poly_SetValuesToZero p else Inr p)"

definition Poly_new_max :: "bool \<Rightarrow> ILParams \<Rightarrow> Format \<Rightarrow> Poly result" where
  "Poly_new_max initializeElementToMax params format =
     (let p = \<lparr>m_values = None, m_format = format, m_params = params\<rparr>
      in if initializeElementToMax then Poly_SetValuesToMax p else Inr p)"

text \<open>
  The constructors from the Gaussian, the uniform and the ternary generator, which set the modulus of the
  vector they get, and the one from the binary generator, which does not.
\<close>

definition Poly_of_generator :: "arb_transform \<Rightarrow> NativeVector \<Rightarrow> ILParams \<Rightarrow> Format \<Rightarrow> FTTTables \<Rightarrow> (Poly \<times> FTTTables) result" where
  "Poly_of_generator arb generated params format T =
     res_bind (NV_SetModulus generated (ciphertextModulus params)) (\<lambda>v.
       Poly_SetFormat arb \<lparr>m_values = Some v, m_format = COEFFICIENT, m_params = params\<rparr> format T)"

definition Poly_of_bug :: "arb_transform \<Rightarrow> NativeVector \<Rightarrow> ILParams \<Rightarrow> Format \<Rightarrow> FTTTables \<Rightarrow> (Poly \<times> FTTTables) result" where
  "Poly_of_bug arb generated params format T =
     Poly_SetFormat arb \<lparr>m_values = Some generated, m_format = COEFFICIENT, m_params = params\<rparr> format T"

definition Poly_CloneParametersOnly :: "Poly \<Rightarrow> Poly" where
  "Poly_CloneParametersOnly p = \<lparr>m_values = None, m_format = m_format p, m_params = m_params p\<rparr>"

text \<open>The copy assignment keeps the old values when the right-hand side has none.\<close>

definition Poly_assign :: "Poly \<Rightarrow> Poly \<Rightarrow> Poly" where
  "Poly_assign p rhs =
     p\<lparr>m_values := (case m_values rhs of None \<Rightarrow> m_values p
                    | Some w \<Rightarrow> (case m_values p of None \<Rightarrow> Some w | Some v \<Rightarrow> Some (NV_assign v w))),
       m_params := m_params rhs, m_format := m_format rhs\<rparr>"

definition Poly_assign_uints :: "Poly \<Rightarrow> NativeInt list \<Rightarrow> Poly result" where
  "Poly_assign_uints p rhs =
     (case m_values p of
        Some v \<Rightarrow>
          res_bind (res_range 0 (NV_GetLength v) (\<lambda>j v. vec_set v j (if j < length rhs then rhs ! j else 0)) v)
            (\<lambda>v. Inr (p\<lparr>m_values := Some v\<rparr>))
      | None \<Rightarrow>
          res_bind (NV_SetModulus (NV_length (unat (cyclotomicOrder (m_params p) div 2))) (ciphertextModulus (m_params p)))
            (\<lambda>temp. Poly_SetValues p (NV_assign_ints temp rhs) (m_format p)))"

text \<open>A signed coefficient \<open>x\<close>: the negative ones are stored as \<open>q - (-x)\<close>, without a reduction.\<close>

definition signed_entry :: "NativeInt \<Rightarrow> int \<Rightarrow> NativeInt" where
  "signed_entry q x =
     (if x < 0 then let tempInteger = word_of_int (- x) in SubFast q tempInteger
      else let tempInteger = word_of_int x in tempInteger)"

definition Poly_assign_int64s :: "Poly \<Rightarrow> int list \<Rightarrow> Poly result" where
  "Poly_assign_int64s p rhs =
     (let q = ciphertextModulus (m_params p);
          entry = (\<lambda>j. if j < length rhs then signed_entry q (rhs ! j) else 0)
      in res_bind
           (case m_values p of
              Some v \<Rightarrow>
                res_bind (res_range 0 (NV_GetLength v) (\<lambda>j v. vec_set v j (entry j)) v)
                  (\<lambda>v. Inr (p\<lparr>m_values := Some v\<rparr>))
            | None \<Rightarrow>
                let vectorLength = unat (cyclotomicOrder (m_params p) div 2)
                in res_bind (NV_SetModulus (NV_length vectorLength) q) (\<lambda>temp.
                   res_bind (res_range 0 vectorLength (\<lambda>j v. vec_set v j (entry j)) temp) (\<lambda>temp.
                   Poly_SetValues p temp (m_format p))))
           (\<lambda>p. Inr (p\<lparr>m_format := COEFFICIENT\<rparr>)))"

definition Poly_assign_int32s :: "Poly \<Rightarrow> int list \<Rightarrow> Poly result" where
  "Poly_assign_int32s p rhs =
     (let q = ciphertextModulus (m_params p);
          entry = (\<lambda>j. if j < length rhs then signed_entry q (rhs ! j) else 0)
      in res_bind
           (case m_values p of
              Some v \<Rightarrow>
                res_bind (res_range 0 (NV_GetLength v) (\<lambda>j v. vec_set v j (entry j)) v)
                  (\<lambda>v. Inr (p\<lparr>m_values := Some v\<rparr>))
            | None \<Rightarrow>
                let vectorLength = unat (cyclotomicOrder (m_params p) div 2)
                in res_bind (NV_SetModulus (NV_length vectorLength) q) (\<lambda>temp.
                   res_bind (res_range 0 vectorLength (\<lambda>j v. vec_set v j (entry j)) temp) (\<lambda>temp.
                   Poly_SetValues p temp (m_format p))))
           (\<lambda>p. Inr (p\<lparr>m_format := COEFFICIENT\<rparr>)))"

definition Poly_assign_strings :: "Poly \<Rightarrow> string list \<Rightarrow> Poly result" where
  "Poly_assign_strings p rhs =
     (case m_values p of
        Some v \<Rightarrow>
          res_bind (res_range 0 (NV_GetLength v)
              (\<lambda>j v. if j < length rhs then res_bind (AssignVal (rhs ! j)) (\<lambda>x. vec_set v j x) else vec_set v j 0) v)
            (\<lambda>v. Inr (p\<lparr>m_values := Some v\<rparr>))
      | None \<Rightarrow>
          res_bind (NV_SetModulus (NV_length (unat (ringDimension (m_params p)))) (ciphertextModulus (m_params p))) (\<lambda>temp.
          res_bind (NV_assign_strings temp rhs) (\<lambda>temp. Poly_SetValues p temp (m_format p))))"

definition Poly_assign_val :: "Poly \<Rightarrow> NativeInt \<Rightarrow> Poly result" where
  "Poly_assign_val p val =
     (let p = p\<lparr>m_format := EVALUATION\<rparr>
      in res_bind (case m_values p of
                     None \<Rightarrow> NV_new (unat (ringDimension (m_params p))) (ciphertextModulus (m_params p))
                   | Some v \<Rightarrow> Inr v) (\<lambda>v.
         res_bind (res_range 0 (NV_GetLength v) (\<lambda>i v. vec_set v i val) v) (\<lambda>v.
         Inr (p\<lparr>m_values := Some v\<rparr>))))"

section \<open>Operations with an integer\<close>

definition Poly_Plus_s :: "Poly \<Rightarrow> NativeInt \<Rightarrow> Poly result" where
  "Poly_Plus_s p element =
     (let tmp = Poly_CloneParametersOnly p
      in res_bind (Poly_GetValues p) (\<lambda>v.
         if m_format p = COEFFICIENT then
           res_bind (NV_ModAddAtIndex v 0 element) (\<lambda>v. Poly_SetValues tmp v (m_format p))
         else Poly_SetValues tmp (NV_ModAdd_s v element) (m_format p)))"

definition Poly_Minus_s :: "Poly \<Rightarrow> NativeInt \<Rightarrow> Poly result" where
  "Poly_Minus_s p element =
     res_bind (Poly_GetValues p) (\<lambda>v. Poly_SetValues (Poly_CloneParametersOnly p) (NV_ModSub_s v element) (m_format p))"

definition Poly_Times_s :: "Poly \<Rightarrow> NativeInt \<Rightarrow> Poly result" where
  "Poly_Times_s p element =
     res_bind (Poly_GetValues p) (\<lambda>v. Poly_SetValues (Poly_CloneParametersOnly p) (NV_ModMul_s v element) (m_format p))"

definition Poly_Times_signed :: "Poly \<Rightarrow> int \<Rightarrow> Poly result" where
  "Poly_Times_signed p element =
     (let tmp = Poly_CloneParametersOnly p; q = ciphertextModulus (m_params p)
      in if element < 0 then
           (let elementReduced = word_of_int (- element);
                elementReduced = (if elementReduced > q then ModEq elementReduced q else elementReduced)
            in res_bind (Poly_GetValues p) (\<lambda>v. Poly_SetValues tmp (NV_ModMul_s v (SubFast q elementReduced)) (m_format p)))
         else
           (let elementReduced = word_of_int element;
                elementReduced = (if elementReduced > q then ModEq elementReduced q else elementReduced)
            in res_bind (Poly_GetValues p) (\<lambda>v. Poly_SetValues tmp (NV_ModMul_s v elementReduced) (m_format p))))"

definition Poly_PlusEq_s :: "Poly \<Rightarrow> NativeInt \<Rightarrow> Poly result" where
  "Poly_PlusEq_s p element = res_bind (Poly_Plus_s p element) (\<lambda>r. Inr (Poly_assign p r))"

definition Poly_MinusEq_s :: "Poly \<Rightarrow> NativeInt \<Rightarrow> Poly result" where
  "Poly_MinusEq_s p element =
     res_bind (deref (m_values p)) (\<lambda>v. Inr (p\<lparr>m_values := Some (NV_ModSubEq_s v element)\<rparr>))"

definition Poly_TimesEq_s :: "Poly \<Rightarrow> NativeInt \<Rightarrow> Poly result" where
  "Poly_TimesEq_s p element =
     res_bind (deref (m_values p)) (\<lambda>v. Inr (p\<lparr>m_values := Some (NV_ModMulEq_s v element)\<rparr>))"

definition Poly_MultiplyAndRound :: "Poly \<Rightarrow> NativeInt \<Rightarrow> NativeInt \<Rightarrow> Poly result" where
  "Poly_MultiplyAndRound p pn q =
     res_bind (Poly_GetValues p) (\<lambda>v. res_bind (NV_MultiplyAndRound v pn q)
       (\<lambda>v. Poly_SetValues (Poly_CloneParametersOnly p) v (m_format p)))"

definition Poly_DivideAndRound :: "Poly \<Rightarrow> NativeInt \<Rightarrow> Poly result" where
  "Poly_DivideAndRound p q =
     res_bind (Poly_GetValues p) (\<lambda>v. res_bind (NV_DivideAndRound v q)
       (\<lambda>v. Poly_SetValues (Poly_CloneParametersOnly p) v (m_format p)))"

definition Poly_Negate :: "Poly \<Rightarrow> Poly result" where
  "Poly_Negate p =
     res_bind (deref (m_values p)) (\<lambda>v.
       Inr (p\<lparr>m_values := Some (NV_ModMulEq_s v (SubFast (ciphertextModulus (m_params p)) 1))\<rparr>))"

definition Poly_ModByTwo :: "Poly \<Rightarrow> Poly result" where
  "Poly_ModByTwo p =
     res_bind (Poly_GetValues p) (\<lambda>v. Poly_SetValues (Poly_CloneParametersOnly p) (NV_ModByTwo v) (m_format p))"

definition Poly_Mod :: "Poly \<Rightarrow> NativeInt \<Rightarrow> Poly result" where
  "Poly_Mod p modulus =
     res_bind (Poly_GetValues p) (\<lambda>v. res_bind (NV_Mod v modulus)
       (\<lambda>v. Poly_SetValues (Poly_CloneParametersOnly p) v (m_format p)))"

definition Poly_SwitchModulus :: "NativeInt \<Rightarrow> Poly \<Rightarrow> NativeInt \<Rightarrow> NativeInt \<Rightarrow> NativeInt \<Rightarrow> NativeInt \<Rightarrow> Poly result" where
  "Poly_SwitchModulus tot p modulus rUnity modulusArb rootOfUnityArb =
     (case m_values p of None \<Rightarrow> Inr p
      | Some v \<Rightarrow> res_bind (NV_SwitchModulus v modulus) (\<lambda>v.
          Inr (p\<lparr>m_values := Some v,
                 m_params := ElemParams_of tot (cyclotomicOrder (m_params p)) modulus rUnity modulusArb rootOfUnityArb\<rparr>)))"

section \<open>Operations with another element\<close>

definition Poly_Plus :: "Poly \<Rightarrow> Poly \<Rightarrow> Poly result" where
  "Poly_Plus p element =
     res_bind (deref (m_values p)) (\<lambda>v. res_bind (deref (m_values element)) (\<lambda>w.
       res_bind (NV_ModAddEq v w) (\<lambda>v. Inr (p\<lparr>m_values := Some v\<rparr>))))"

definition Poly_Minus :: "Poly \<Rightarrow> Poly \<Rightarrow> Poly result" where
  "Poly_Minus p element =
     res_bind (deref (m_values p)) (\<lambda>v. res_bind (deref (m_values element)) (\<lambda>w.
       res_bind (NV_ModSubEq v w) (\<lambda>v. Inr (p\<lparr>m_values := Some v\<rparr>))))"

definition Poly_Times :: "Poly \<Rightarrow> Poly \<Rightarrow> Poly result" where
  "Poly_Times p element =
     (if m_format p \<noteq> EVALUATION \<or> m_format element \<noteq> EVALUATION then Inl not_implemented_error
      else if \<not> ElemParams_eq (m_params p) (m_params element) then Inl type_error
      else res_bind (deref (m_values p)) (\<lambda>v. res_bind (deref (m_values element)) (\<lambda>w.
             res_bind (NV_ModMulEq v w) (\<lambda>v. Inr (p\<lparr>m_values := Some v\<rparr>)))))"

definition Poly_PlusEq :: "Poly \<Rightarrow> Poly \<Rightarrow> Poly result" where
  "Poly_PlusEq p element =
     (if \<not> ElemParams_eq (m_params p) (m_params element) then Inl type_error
      else case m_values p of
        None \<Rightarrow> res_bind (deref (m_values element)) (\<lambda>w. Inr (p\<lparr>m_values := Some w\<rparr>))
      | Some v \<Rightarrow> res_bind (deref (m_values element)) (\<lambda>w.
          res_bind (NV_ModAddEq v w) (\<lambda>v. Inr (p\<lparr>m_values := Some v\<rparr>))))"

definition Poly_MinusEq :: "Poly \<Rightarrow> Poly \<Rightarrow> Poly result" where
  "Poly_MinusEq p element =
     (if \<not> ElemParams_eq (m_params p) (m_params element) then Inl type_error
      else res_bind (case m_values p of
                       None \<Rightarrow> NV_new (unat (ringDimension (m_params p))) (ciphertextModulus (m_params p))
                     | Some v \<Rightarrow> Inr v) (\<lambda>v.
           res_bind (deref (m_values element)) (\<lambda>w.
           res_bind (NV_ModSubEq v w) (\<lambda>v. Inr (p\<lparr>m_values := Some v\<rparr>)))))"

definition Poly_TimesEq :: "Poly \<Rightarrow> Poly \<Rightarrow> Poly result" where
  "Poly_TimesEq p element =
     (if m_format p \<noteq> EVALUATION \<or> m_format element \<noteq> EVALUATION then Inl not_implemented_error
      else if \<not> ElemParams_eq (m_params p) (m_params element) then Inl type_error
      else case m_values p of
        None \<Rightarrow> res_bind (NV_new (unat (ringDimension (m_params p))) (ciphertextModulus (m_params p)))
                  (\<lambda>v. Inr (p\<lparr>m_values := Some v\<rparr>))
      | Some v \<Rightarrow> res_bind (deref (m_values element)) (\<lambda>w.
          res_bind (NV_ModMulEq v w) (\<lambda>v. Inr (p\<lparr>m_values := Some v\<rparr>))))"

text \<open>The unary minus of \<open>poly.h\<close>.\<close>

definition Poly_neg :: "Poly \<Rightarrow> Poly result" where
  "Poly_neg p = res_bind (Poly_new (m_params p) (Poly_GetFormat p) True) (\<lambda>all0. Poly_Minus all0 p)"

definition Poly_eq :: "Poly \<Rightarrow> Poly \<Rightarrow> bool result" where
  "Poly_eq p rhs =
     (if Poly_GetFormat p \<noteq> Poly_GetFormat rhs then Inr False
      else if rootOfUnity (m_params p) \<noteq> rootOfUnity (m_params rhs) then Inr False
      else res_bind (Poly_GetValues p) (\<lambda>v. res_bind (Poly_GetValues rhs) (\<lambda>w. Inr (v = w))))"

section \<open>Automorphisms and the remaining operations\<close>

definition Poly_AddILElementOne :: "Poly \<Rightarrow> Poly result" where
  "Poly_AddILElementOne p =
     res_range 0 (unat (ringDimension (m_params p)))
       (\<lambda>i p. res_bind (Poly_GetValues p) (\<lambda>v.
          res_bind (vec_get v i) (\<lambda>x.
            let tempValue = Mod (AddFast x 1) (ciphertextModulus (m_params p))
            in res_bind (vec_set v i tempValue) (\<lambda>v. Inr (p\<lparr>m_values := Some v\<rparr>)))))
       p"

text \<open>
  The branches of \<open>AutomorphismTransform\<close> on the vector of values: evaluation format for an order that is not a
  power of two, evaluation format for a power of two (the loop variable is \<open>j = 1, 3, 5, ...\<close>), coefficient format.
\<close>

definition auto_eval_arb :: "usint \<Rightarrow> usint \<Rightarrow> usint \<Rightarrow> NativeInt \<Rightarrow> NativeVector \<Rightarrow> NativeVector result" where
  "auto_eval_arb m n k modulus v =
     (let totientList = GetTotientList m
      in res_bind (NV_new (unat m) modulus) (\<lambda>expanded.
         res_bind (res_range 0 (unat n)
           (\<lambda>i expanded. if i < length totientList
              then res_bind (vec_get v i) (\<lambda>x. vec_set expanded (unat (totientList ! i)) x)
              else Inl out_of_bounds) expanded) (\<lambda>expanded.
         res_range 0 (unat n)
           (\<lambda>i result. if i < length totientList
              then let idx = totientList ! i * k mod m
                   in res_bind (vec_get expanded (unat idx)) (\<lambda>x. vec_set result i x)
              else Inl out_of_bounds) v)))"

definition auto_eval_pow2 :: "usint \<Rightarrow> usint \<Rightarrow> usint \<Rightarrow> NativeVector \<Rightarrow> NativeVector result" where
  "auto_eval_pow2 m n k v =
     (let logm = round_log2 (unat m); logn = round_log2 (unat n)
      in res_range 0 (unat m div 2)
           (\<lambda>t result.
              let j = push_bit 1 (of_nat t) + 1;
                  idx = j * k - push_bit logm (drop_bit logm (j * k));
                  jrev = ReverseBits (j div 2) logn;
                  idxrev = ReverseBits (idx div 2) logn
              in res_bind (vec_get v (unat idxrev)) (\<lambda>x. vec_set result (unat jrev) x))
           v)"

definition auto_coef :: "usint \<Rightarrow> usint \<Rightarrow> NativeInt \<Rightarrow> NativeVector \<Rightarrow> NativeVector result" where
  "auto_coef n k modulus v =
     res_range 1 (unat n)
       (\<lambda>j result.
          let temp = of_nat j * k; newIndex = temp mod n
          in res_bind (vec_get v j) (\<lambda>x.
             if (temp div n) mod 2 = 1 then vec_set result (unat newIndex) (SubFast modulus x)
             else vec_set result (unat newIndex) x))
       v"

definition Poly_AutomorphismTransform :: "Poly \<Rightarrow> usint \<Rightarrow> Poly result" where
  "Poly_AutomorphismTransform p k =
     (let m = cyclotomicOrder (m_params p); n = ringDimension (m_params p); modulus = ciphertextModulus (m_params p)
      in if m_format p = EVALUATION then
           (if \<not> isPowerOfTwo (m_params p) then
              res_bind (deref (m_values p)) (\<lambda>v. res_bind (auto_eval_arb m n k modulus v) (\<lambda>v. Inr (p\<lparr>m_values := Some v\<rparr>)))
            else if k mod 2 = 0 then Inl math_error
            else res_bind (Poly_GetValues p) (\<lambda>v. res_bind (auto_eval_pow2 m n k v) (\<lambda>v. Inr (p\<lparr>m_values := Some v\<rparr>))))
         else
           (if \<not> isPowerOfTwo (m_params p) then Inl not_implemented_error
            else if k mod 2 = 0 then Inl math_error
            else res_bind (deref (m_values p)) (\<lambda>v. res_bind (auto_coef n k modulus v) (\<lambda>v. Inr (p\<lparr>m_values := Some v\<rparr>)))))"

definition Poly_AutomorphismTransform_precomp :: "Poly \<Rightarrow> usint \<Rightarrow> usint list \<Rightarrow> Poly result" where
  "Poly_AutomorphismTransform_precomp p k precomp =
     (if m_format p = EVALUATION \<and> isPowerOfTwo (m_params p) then
        (if k mod 2 = 0 then Inl math_error
         else let n = ringDimension (m_params p)
              in res_bind (deref (m_values p)) (\<lambda>v.
                 res_bind (res_range 0 (unat n)
                   (\<lambda>j result. if j < length precomp
                      then res_bind (vec_get v (unat (precomp ! j))) (\<lambda>x. vec_set result j x)
                      else Inl out_of_bounds) v) (\<lambda>v.
                 Inr (p\<lparr>m_values := Some v\<rparr>))))
      else Inl not_implemented_error)"

definition Poly_Transpose :: "Poly \<Rightarrow> Poly result" where
  "Poly_Transpose p =
     (if m_format p = COEFFICIENT then Inl not_implemented_error
      else let m = cyclotomicOrder (m_params p) in Poly_AutomorphismTransform p (m - 1))"

definition Poly_InverseExists :: "Poly \<Rightarrow> bool result" where
  "Poly_InverseExists p =
     res_bind (Poly_GetValues p) (\<lambda>v. Inr (\<not> list_ex (\<lambda>x. x = 0) (m_data v)))"

definition Poly_MultiplicativeInverse :: "Poly \<Rightarrow> Poly result" where
  "Poly_MultiplicativeInverse p =
     (let tmp = Poly_CloneParametersOnly p
      in res_bind (Poly_InverseExists p) (\<lambda>b.
         if b then res_bind (Poly_GetValues p) (\<lambda>v. res_bind (NV_ModInverse v) (\<lambda>v. Poly_SetValues tmp v (m_format p)))
         else Inl math_error))"

definition Poly_MakeSparse :: "Poly \<Rightarrow> usint \<Rightarrow> Poly result" where
  "Poly_MakeSparse p wFactor =
     (case m_values p of None \<Rightarrow> Inr p
      | Some v \<Rightarrow>
          if wFactor = 0 \<and> ringDimension (m_params p) \<noteq> 0 then Inl div_by_zero
          else res_bind (res_range 0 (unat (ringDimension (m_params p)))
                 (\<lambda>i v. if i mod unat wFactor \<noteq> 0 then vec_set v i 0 else Inr v) v)
               (\<lambda>v. Inr (p\<lparr>m_values := Some v\<rparr>)))"

text \<open>The infinity norm, before its conversion to a floating-point number.\<close>

definition Poly_Norm :: "Poly \<Rightarrow> NativeInt result" where
  "Poly_Norm p =
     (let q = ciphertextModulus (m_params p); half = RShift (ciphertextModulus (m_params p)) 1
      in res_bind (Poly_GetValues p) (\<lambda>v.
         Inr (fold (\<lambda>x retVal. let locVal = (if x > half then SubFast q x else x)
                                in if locVal > retVal then locVal else retVal) (m_data v) 0)))"

text \<open>
  \<open>BaseDecompose\<close>: the digits of the coefficients to the base \<open>2 ^ baseBits\<close>. \<open>None\<close> comes from
  \<open>GetDigitAtIndexForBase\<close>, whose loop does not end for bases above \<open>2 ^ 31\<close>.
\<close>

definition nWindows :: "NativeInt \<Rightarrow> nat \<Rightarrow> nat" where
  "nWindows modulus baseBits =
     (let nBits = GetLengthForBase modulus 2;
          n = nBits div baseBits
      in if nBits mod baseBits > 0 then n + 1 else n)"

fun BaseDecompose_loop :: "arb_transform \<Rightarrow> nat \<Rightarrow> nat \<Rightarrow> nat \<Rightarrow> bool \<Rightarrow> Poly \<Rightarrow> Poly \<Rightarrow> FTTTables \<Rightarrow> (Poly list \<times> FTTTables) result option" where
  "BaseDecompose_loop arb 0 i baseBits evalModeAnswer x xDigit T = Some (Inr ([], T))"
| "BaseDecompose_loop arb (Suc k) i baseBits evalModeAnswer x xDigit T =
     (case Poly_GetValues x of Inl e \<Rightarrow> Some (Inl e)
      | Inr v \<Rightarrow>
     (case NV_GetDigitAtIndexForBase v (of_nat (i + 1)) (push_bit baseBits 1) of None \<Rightarrow> None
      | Some (Inl e) \<Rightarrow> Some (Inl e)
      | Some (Inr d) \<Rightarrow>
     (case res_bind (Poly_SetValues xDigit d (m_format x))
             (\<lambda>xDigit. if evalModeAnswer then Poly_SwitchFormat arb xDigit T else Inr (xDigit, T)) of
        Inl e \<Rightarrow> Some (Inl e)
      | Inr (xDigit, T) \<Rightarrow>
     (case BaseDecompose_loop arb k (i + 1) baseBits evalModeAnswer x xDigit T of None \<Rightarrow> None
      | Some (Inl e) \<Rightarrow> Some (Inl e)
      | Some (Inr (rest, T)) \<Rightarrow> Some (Inr (xDigit # rest, T))))))"

definition Poly_BaseDecompose :: "arb_transform \<Rightarrow> Poly \<Rightarrow> nat \<Rightarrow> bool \<Rightarrow> FTTTables \<Rightarrow> (Poly list \<times> FTTTables) result option" where
  "Poly_BaseDecompose arb p baseBits evalModeAnswer T =
     (if baseBits = 0 then Some (Inl div_by_zero)
      else let n = nWindows (ciphertextModulus (m_params p)) baseBits;
               xDigit = \<lparr>m_values = None, m_format = EVALUATION, m_params = m_params p\<rparr>
           in case Poly_SetFormat arb p COEFFICIENT T of Inl e \<Rightarrow> Some (Inl e)
              | Inr (x, T) \<Rightarrow> BaseDecompose_loop arb n 0 baseBits evalModeAnswer x xDigit T)"

definition Poly_PowersOfBase :: "Poly \<Rightarrow> nat \<Rightarrow> Poly list result" where
  "Poly_PowersOfBase p baseBits =
     (if baseBits = 0 then Inl div_by_zero
      else res_map (\<lambda>i. Poly_Times_s p (ModExp 2 (of_nat (i * baseBits)) (ciphertextModulus (m_params p))))
             [0..<nWindows (ciphertextModulus (m_params p)) baseBits])"

definition Poly_DecryptionCRTInterpolate :: "NativeInt \<Rightarrow> Poly \<Rightarrow> NativeInt \<Rightarrow> Poly result" where
  "Poly_DecryptionCRTInterpolate tot p ptm =
     res_bind (Poly_Mod p ptm) (\<lambda>smaller.
     res_bind (Poly_new (ElemParams_of tot (cyclotomicOrder (m_params p)) ptm 1 0 0) (Poly_GetFormat p) True) (\<lambda>interp.
     res_bind (Poly_GetValues smaller) (\<lambda>sv.
     res_bind (deref (m_values interp)) (\<lambda>iv.
     res_bind (res_range 0 (NV_GetLength sv) (\<lambda>i iv. res_bind (vec_get sv i) (\<lambda>x. vec_set iv i x)) iv) (\<lambda>iv.
     Inr (interp\<lparr>m_values := Some iv\<rparr>))))))"

definition Poly_ToNativePoly :: "Poly \<Rightarrow> Poly" where
  "Poly_ToNativePoly p = p"

section \<open>The ring an element stands for\<close>

text \<open>
  The ring elements are lists of \<open>2 ^ K\<close> residues, the coefficients of a polynomial modulo \<open>x ^ 2 ^ K + 1\<close>. An object in
  evaluation format holds the values of that polynomial at the odd powers of the root of unity, in bit-reversed order.
\<close>

definition residues :: "NativeInt \<Rightarrow> nat \<Rightarrow> int list \<Rightarrow> bool" where
  "residues q K c \<longleftrightarrow> length c = 2 ^ K \<and> list_all (\<lambda>x. 0 \<le> x \<and> x < uint q) c"

definition evals :: "NativeInt \<Rightarrow> nat \<Rightarrow> NativeInt \<Rightarrow> int list \<Rightarrow> int list" where
  "evals q K psi c = map (\<lambda>i. poly_eval c (uint psi ^ (2 * brv K i + 1)) mod uint q) [0..<2 ^ K]"

definition ring_params :: "NativeInt \<Rightarrow> nat \<Rightarrow> NativeInt \<Rightarrow> ILParams \<Rightarrow> bool" where
  "ring_params q K psi prm \<longleftrightarrow> cyclotomicOrder prm = of_nat (2 ^ Suc K) \<and> ringDimension prm = of_nat (2 ^ K)
     \<and> isPowerOfTwo prm \<and> ciphertextModulus prm = q \<and> rootOfUnity prm = psi"

definition format_values :: "NativeInt \<Rightarrow> nat \<Rightarrow> NativeInt \<Rightarrow> Format \<Rightarrow> int list \<Rightarrow> int list" where
  "format_values q K psi format c = (case format of COEFFICIENT \<Rightarrow> c | EVALUATION \<Rightarrow> evals q K psi c)"

definition holds_vector :: "NativeInt \<Rightarrow> nat \<Rightarrow> NativeVector \<Rightarrow> bool" where
  "holds_vector q K v \<longleftrightarrow> nv_wf v \<and> m_modulus v = q \<and> NV_GetLength v = 2 ^ K"

definition represents :: "NativeInt \<Rightarrow> nat \<Rightarrow> NativeInt \<Rightarrow> Poly \<Rightarrow> int list \<Rightarrow> bool" where
  "represents q K psi p c \<longleftrightarrow> ntt_params q K psi \<and> ring_params q K psi (m_params p) \<and> residues q K c
     \<and> (\<exists>v. m_values p = Some v \<and> holds_vector q K v \<and> nv_abs v = format_values q K psi (m_format p) c)"

lemma representsE:
  assumes "represents q K psi p c"
  obtains v where "m_values p = Some v" "holds_vector q K v" "nv_abs v = format_values q K psi (m_format p) c"
    "ntt_params q K psi" "ring_params q K psi (m_params p)" "residues q K c"
  using assms by (auto simp: represents_def)

lemma residues_evals: "ntt_params q K psi \<Longrightarrow> residues q K (evals q K psi c)"
  using ntt_params_modulus(5) [of q K psi] by (simp add: residues_def evals_def list_all_iff)

lemma residues_map2:
  assumes "q \<noteq> 0" "residues q K c" "residues q K d"
  shows "residues q K (map2 (\<lambda>x y. f x y mod uint q) c d)"
  using assms uint_pos [OF assms(1)] by (auto simp: residues_def list_all_iff)

definition vec_of :: "NativeInt \<Rightarrow> int list \<Rightarrow> NativeVector" where
  "vec_of q c = \<lparr>m_data = map word_of_int c, m_modulus = q\<rparr>"

lemma vec_of_holds:
  assumes "ntt_params q K psi" "residues q K c"
  shows "holds_vector q K (vec_of q c)" "nv_abs (vec_of q c) = c"
proof -
  have u: "uint (word_of_int x :: NativeInt) = x" if "x \<in> set c" for x
    using assms(2) that uint_bounded [of q] by (auto simp: residues_def list_all_iff uint_word_of_int_eq take_bit_int_eq_self_iff)
  then show "nv_abs (vec_of q c) = c" by (auto simp: vec_of_def nv_abs_def intro: map_idI)
  show "holds_vector q K (vec_of q c)"
    using assms(2) u ntt_params_modulus [OF assms(1)]
    by (auto simp: holds_vector_def nv_wf_def vec_of_def NV_GetLength_def residues_def list_all_iff word_less_def)
qed

lemma FTT_inv_tables:
  assumes "ntt_params q K psi"
    and "(if FTT_missing T q (2 ^ K) then FTT_PreCompute psi (of_nat (2 ^ Suc K)) q T else Inr T) = Inr T'" "FTT_ready T' q K psi"
    and "m_modulus v = q" "NV_GetLength v = 2 ^ K"
  shows "FTT_InverseTransformFromBitReverseInPlace psi (of_nat (2 ^ Suc K)) v T
      = FTT_InverseTransformFromBitReverseInPlace psi (of_nat (2 ^ Suc K)) v T'"
proof -
  have K: "K \<le> 24" using assms(1) by (simp add: ntt_params_def)
  have "\<not> FTT_missing T' q (2 ^ K)" using assms(3) by (simp add: FTT_ready_def Let_def)
  then have T': "(if FTT_missing T' q (2 ^ K) then FTT_PreCompute psi (of_nat (2 ^ Suc K)) q T' else Inr T') = Inr T'" by simp
  have nt: "psi \<noteq> 1 \<and> psi \<noteq> 0" using primitive_root_proper [OF assms(1)] by simp
  show ?thesis
    unfolding FTT_InverseTransformFromBitReverseInPlace_def Let_def unat_cyclo_half [OF K] assms(5) NV_GetModulus_def assms(4) assms(2) T'
    using nt by simp
qed

lemma FTT_switch:
  assumes "ntt_params q K psi" "FTT_missing T q (2 ^ K) \<or> FTT_ready T q K psi" "residues q K c"
  obtains v w T' where "nv_abs v = c" "nv_abs w = evals q K psi c" "holds_vector q K v" "holds_vector q K w"
    "FTT_ForwardTransformToBitReverseInPlace psi (of_nat (2 ^ Suc K)) v T = Inr (w, T')"
    "FTT_InverseTransformFromBitReverseInPlace psi (of_nat (2 ^ Suc K)) w T = Inr (v, T')" "FTT_ready T' q K psi"
proof -
  define v where "v = vec_of q c"
  have v: "holds_vector q K v" "nv_abs v = c" unfolding v_def by (rule vec_of_holds [OF assms(1,3)])+
  obtain T' where T: "(if FTT_missing T q (2 ^ K) then FTT_PreCompute psi (of_nat (2 ^ Suc K)) q T else Inr T) = Inr T'"
    "FTT_ready T' q K psi" using FTT_guard [OF assms(1,2)] .
  obtain w where w: "FTT_ForwardTransformToBitReverseInPlace psi (of_nat (2 ^ Suc K)) v T' = Inr (w, T')"
    "nv_wf w" "m_modulus w = q" "NV_GetLength w = 2 ^ K"
    "nv_abs w = map (\<lambda>i. poly_eval (nv_abs v) (uint psi ^ (2 * brv K i + 1)) mod uint q) [0..<2 ^ K]"
    "FTT_InverseTransformFromBitReverseInPlace psi (of_nat (2 ^ Suc K)) w T' = Inr (v, T')"
    using FTT_forward_aux [OF assms(1) T(2), of v] v(1) by (auto simp: holds_vector_def)
  have vm: "m_modulus v = q" "NV_GetLength v = 2 ^ K" using v(1) by (simp_all add: holds_vector_def)
  show thesis
  proof (rule that [of v w T'])
    show "FTT_ForwardTransformToBitReverseInPlace psi (of_nat (2 ^ Suc K)) v T = Inr (w, T')"
      by (simp only: FTT_fwd_tables [OF assms(1) T vm] w(1))
    show "FTT_InverseTransformFromBitReverseInPlace psi (of_nat (2 ^ Suc K)) w T = Inr (v, T')"
      by (simp only: FTT_inv_tables [OF assms(1) T w(3,4)] w(6))
  qed (use v w T in \<open>simp_all add: holds_vector_def evals_def\<close>)
qed

lemma holds_unique: "holds_vector q K v \<Longrightarrow> holds_vector q K w \<Longrightarrow> nv_abs v = nv_abs w \<Longrightarrow> v = w"
  by (rule nv_eqI) (simp_all add: holds_vector_def)

definition other_format :: "Format \<Rightarrow> Format" where
  "other_format f = (case f of COEFFICIENT \<Rightarrow> EVALUATION | EVALUATION \<Rightarrow> COEFFICIENT)"

lemma SwitchFormat_represents:
  assumes "represents q K psi p c" "FTT_missing T q (2 ^ K) \<or> FTT_ready T q K psi"
  shows "\<exists>p' T'. Poly_SwitchFormat arb p T = Inr (p', T') \<and> FTT_ready T' q K psi \<and> represents q K psi p' c
    \<and> m_format p' = other_format (m_format p) \<and> m_params p' = m_params p"
proof -
  obtain u where u: "m_values p = Some u" "holds_vector q K u" "nv_abs u = format_values q K psi (m_format p) c"
    "ntt_params q K psi" "ring_params q K psi (m_params p)" "residues q K c" using representsE [OF assms(1)] .
  obtain v w T' where s: "nv_abs v = c" "nv_abs w = evals q K psi c" "holds_vector q K v" "holds_vector q K w"
    "FTT_ForwardTransformToBitReverseInPlace psi (of_nat (2 ^ Suc K)) v T = Inr (w, T')"
    "FTT_InverseTransformFromBitReverseInPlace psi (of_nat (2 ^ Suc K)) w T = Inr (v, T')" "FTT_ready T' q K psi"
    using FTT_switch [OF u(4) assms(2) u(6)] .
  have prm: "isPowerOfTwo (m_params p)" "rootOfUnity (m_params p) = psi" "cyclotomicOrder (m_params p) = of_nat (2 ^ Suc K)"
    using u(5) by (simp_all add: ring_params_def)
  show ?thesis
  proof (cases "m_format p")
    case COEFFICIENT
    then have "u = v" using u(2,3) s(1,3) by (intro holds_unique) (simp_all add: format_values_def)
    then have "Poly_SwitchFormat arb p T = Inr (p\<lparr>m_format := EVALUATION, m_values := Some w\<rparr>, T')"
      using u(1) prm COEFFICIENT s(5) by (simp add: Poly_SwitchFormat_def)
    then show ?thesis using s u(4-6) COEFFICIENT by (simp add: represents_def format_values_def other_format_def)
  next
    case EVALUATION
    then have "u = w" using u(2,3) s(2,4) by (intro holds_unique) (simp_all add: format_values_def)
    then have "Poly_SwitchFormat arb p T = Inr (p\<lparr>m_format := COEFFICIENT, m_values := Some v\<rparr>, T')"
      using u(1) prm EVALUATION s(6) by (simp add: Poly_SwitchFormat_def)
    then show ?thesis using s u(4-6) EVALUATION by (simp add: represents_def format_values_def other_format_def)
  qed
qed

section \<open>Addition and subtraction\<close>

text \<open>
  The interface of the operations that act on the values entry by entry and are linear, so that they do the same in both
  formats: \<open>oper\<close> is the method of \<open>PolyImpl\<close>, \<open>vop\<close> the vector operation it calls and \<open>sem\<close> the operation on integers.
\<close>

locale linear_op =
  fixes oper :: "Poly \<Rightarrow> Poly \<Rightarrow> Poly result"
    and vop :: "NativeVector \<Rightarrow> NativeVector \<Rightarrow> NativeVector result"
    and sem :: "int \<Rightarrow> int \<Rightarrow> int"
  assumes oper_eq: "m_values p = Some v \<Longrightarrow> m_values r = Some w \<Longrightarrow> ElemParams_eq (m_params p) (m_params r) \<Longrightarrow>
      oper p r = res_bind (vop v w) (\<lambda>u. Inr (p\<lparr>m_values := Some u\<rparr>))"
    and vop_value: "nv_wf v \<Longrightarrow> nv_wf w \<Longrightarrow> nv_compatible v w \<Longrightarrow> \<exists>u. vop v w = Inr u \<and> nv_wf u \<and> nv_compatible u v
      \<and> nv_abs u = map2 (\<lambda>x y. sem x y mod uint (m_modulus v)) (nv_abs v) (nv_abs w)"
    and sem_add: "sem (a + c) (b + d) = sem a b + sem c d"
    and sem_mult: "sem (a * z) (b * z) = sem a b * z"
    and sem_cong: "rcong q a a' \<Longrightarrow> rcong q b b' \<Longrightarrow> rcong q (sem a b) (sem a' b')"
begin

lemma sem_sum: "sem (sum f A) (sum g A) = (\<Sum>i\<in>A. sem (f i) (g i))"
proof (induction A rule: infinite_finite_induct)
  case (infinite A)
  then show ?case using sem_mult [of 0 0 0] by simp
next
  case empty
  then show ?case using sem_mult [of 0 0 0] by simp
next
  case (insert x A)
  then show ?case by (simp add: sem_add)
qed

lemma eval_sem:
  assumes "length c = length d"
  shows "rcong q (poly_eval (map2 (\<lambda>x y. sem x y mod q) c d) z) (sem (poly_eval c z) (poly_eval d z))"
proof -
  have "sem (poly_eval c z) (poly_eval d z) = (\<Sum>j<length c. sem (c ! j) (d ! j) * z ^ j)"
    using assms by (simp add: poly_eval_def sem_sum sem_mult)
  moreover have "rcong q (\<Sum>j<length c. sem (c ! j) (d ! j) mod q * z ^ j) (\<Sum>j<length c. sem (c ! j) (d ! j) * z ^ j)"
    by (intro rcong_sum rcong_mult) auto
  ultimately show ?thesis using assms by (simp add: poly_eval_def)
qed

lemma format_values_sem:
  assumes "residues q K c" "residues q K d"
  shows "format_values q K psi f (map2 (\<lambda>x y. sem x y mod uint q) c d)
    = map2 (\<lambda>x y. sem x y mod uint q) (format_values q K psi f c) (format_values q K psi f d)"
proof (cases f)
  case EVALUATION
  have len: "length c = length d" using assms by (simp add: residues_def)
  have "poly_eval (map2 (\<lambda>x y. sem x y mod uint q) c d) z mod uint q
      = sem (poly_eval c z mod uint q) (poly_eval d z mod uint q) mod uint q" for z
    using rcong_trans [OF eval_sem [OF len] sem_cong, of "uint q" z "poly_eval c z mod uint q" "poly_eval d z mod uint q"]
    by (simp add: rcong_def)
  then show ?thesis
    using EVALUATION by (auto simp: format_values_def evals_def intro!: nth_equalityI)
qed (simp add: format_values_def)

lemma represents_oper:
  assumes "represents q K psi p c" "represents q K psi r d" "m_format p = m_format r" "ElemParams_eq (m_params p) (m_params r)"
  shows "\<exists>s. oper p r = Inr s \<and> represents q K psi s (map2 (\<lambda>x y. sem x y mod uint q) c d)
    \<and> m_format s = m_format p \<and> m_params s = m_params p"
proof -
  obtain v where v: "m_values p = Some v" "holds_vector q K v" "nv_abs v = format_values q K psi (m_format p) c"
    "ntt_params q K psi" "ring_params q K psi (m_params p)" "residues q K c" using representsE [OF assms(1)] .
  obtain w where w: "m_values r = Some w" "holds_vector q K w" "nv_abs w = format_values q K psi (m_format r) d"
    "residues q K d" using representsE [OF assms(2)] .
  have "nv_wf v" "nv_wf w" "nv_compatible v w" "m_modulus v = q"
    using v(2) w(2) by (simp_all add: holds_vector_def nv_compatible_def NV_GetLength_def)
  then obtain u where u: "vop v w = Inr u" "nv_wf u" "nv_compatible u v"
      "nv_abs u = map2 (\<lambda>x y. sem x y mod uint q) (nv_abs v) (nv_abs w)"
    using vop_value [of v w] by auto
  have "holds_vector q K u" using u(2,3) v(2) by (simp add: holds_vector_def nv_compatible_def NV_GetLength_def)
  moreover have "nv_abs u = format_values q K psi (m_format p) (map2 (\<lambda>x y. sem x y mod uint q) c d)"
    by (simp only: u(4) v(3) w(3) assms(3) format_values_sem [OF v(6) w(4)])
  moreover have "residues q K (map2 (\<lambda>x y. sem x y mod uint q) c d)"
    using ntt_params_modulus(3) [OF v(4)] by (intro residues_map2 v(6) w(4))
  ultimately show ?thesis
    using oper_eq [OF v(1) w(1) assms(4)] u(1) v(4,5) by (simp add: represents_def)
qed

end

lemma NV_addEq_value:
  assumes "nv_wf v" "nv_wf w" "nv_compatible v w"
  shows "\<exists>u. NV_ModAddEq v w = Inr u \<and> nv_wf u \<and> nv_compatible u v
    \<and> nv_abs u = map2 (\<lambda>x y. (x + y) mod uint (m_modulus v)) (nv_abs v) (nv_abs w)"
  using NV_addEq.vop_correct [OF assms] by metis

lemma NV_subEq_value:
  assumes "nv_wf v" "nv_wf w" "nv_compatible v w"
  shows "\<exists>u. NV_ModSubEq v w = Inr u \<and> nv_wf u \<and> nv_compatible u v
    \<and> nv_abs u = map2 (\<lambda>x y. (x - y) mod uint (m_modulus v)) (nv_abs v) (nv_abs w)"
  using NV_subEq.vop_correct [OF assms] by metis

interpretation Plus: linear_op Poly_Plus NV_ModAddEq "(+)"
  by unfold_locales (auto simp: Poly_Plus_def deref_def algebra_simps intro: NV_addEq_value rcong_add)

interpretation PlusEq: linear_op Poly_PlusEq NV_ModAddEq "(+)"
  by unfold_locales (auto simp: Poly_PlusEq_def deref_def algebra_simps intro: NV_addEq_value rcong_add)

interpretation Minus: linear_op Poly_Minus NV_ModSubEq "(-)"
  by unfold_locales (auto simp: Poly_Minus_def deref_def algebra_simps intro: NV_subEq_value rcong_diff)

interpretation MinusEq: linear_op Poly_MinusEq NV_ModSubEq "(-)"
  by unfold_locales (auto simp: Poly_MinusEq_def deref_def algebra_simps intro: NV_subEq_value rcong_diff)

section \<open>Multiplication\<close>

definition negacyclic_mult :: "NativeInt \<Rightarrow> nat \<Rightarrow> int list \<Rightarrow> int list \<Rightarrow> int list" where
  "negacyclic_mult q K c d = map (\<lambda>k. negacyclic (2 ^ K) c d k mod uint q) [0..<2 ^ K]"

lemma evals_mult:
  assumes "ntt_params q K psi" "residues q K c" "residues q K d"
  shows "evals q K psi (negacyclic_mult q K c d) = map2 (\<lambda>x y. x * y mod uint q) (evals q K psi c) (evals q K psi d)"
proof -
  have root: "primitive_root q K psi" using assms(1) by (simp add: ntt_params_def)
  have len: "length c = 2 ^ K" "length d = 2 ^ K" using assms(2,3) by (simp_all add: residues_def)
  have "poly_eval (negacyclic_mult q K c d) z mod uint q = poly_eval c z * poly_eval d z mod uint q"
    if "rcong (uint q) (z ^ 2 ^ K) (- 1)" for z
  proof -
    have "rcong (uint q) (poly_eval (negacyclic_mult q K c d) z) (\<Sum>k<2 ^ K. negacyclic (2 ^ K) c d k * z ^ k)"
      by (simp add: poly_eval_def negacyclic_mult_def) (intro rcong_sum rcong_mult, auto)
    from rcong_trans [OF this negacyclic_eval [OF len that]] show ?thesis by (simp add: rcong_def)
  qed
  then show ?thesis using odd_power_root [OF root]
    by (auto simp: evals_def mod_mult_eq intro!: nth_equalityI)
qed

lemma residues_negacyclic: "q \<noteq> 0 \<Longrightarrow> residues q K (negacyclic_mult q K c d)"
  using uint_pos [of q] by (auto simp: residues_def negacyclic_mult_def list_all_iff)

lemma Times_represents:
  assumes "represents q K psi p c" "represents q K psi r d" "m_format p = EVALUATION" "m_format r = EVALUATION"
    and "ElemParams_eq (m_params p) (m_params r)"
  shows "\<exists>s. Poly_Times p r = Inr s \<and> Poly_TimesEq p r = Inr s \<and> represents q K psi s (negacyclic_mult q K c d)
    \<and> m_format s = EVALUATION \<and> m_params s = m_params p"
proof -
  obtain v where v: "m_values p = Some v" "holds_vector q K v" "nv_abs v = format_values q K psi (m_format p) c"
    "ntt_params q K psi" "ring_params q K psi (m_params p)" "residues q K c" using representsE [OF assms(1)] .
  obtain w where w: "m_values r = Some w" "holds_vector q K w" "nv_abs w = format_values q K psi (m_format r) d"
    "residues q K d" using representsE [OF assms(2)] .
  have "nv_wf v" "nv_wf w" "nv_compatible v w" and m: "m_modulus v = q"
    using v(2) w(2) by (simp_all add: holds_vector_def nv_compatible_def NV_GetLength_def)
  moreover have "barrett_exact (m_modulus v)" using v(4) m by (simp add: ntt_params_def)
  ultimately obtain u where u: "NV_ModMulEq v w = Inr u" "nv_wf u" "nv_compatible u v"
      "nv_abs u = map2 (\<lambda>x y. x * y mod uint q) (nv_abs v) (nv_abs w)"
    using NV_mulEq.vop_correct [of v w] by metis
  have "holds_vector q K u" using u(2,3) v(2) by (simp add: holds_vector_def nv_compatible_def NV_GetLength_def)
  moreover have "nv_abs u = evals q K psi (negacyclic_mult q K c d)"
    using u(4) v(3) w(3) assms(3,4) by (simp add: format_values_def evals_mult [OF v(4,6) w(4)])
  ultimately show ?thesis
    using v w assms(3-5) u(1) residues_negacyclic [OF ntt_params_modulus(3) [OF v(4)]]
    by (simp add: Poly_Times_def Poly_TimesEq_def deref_def represents_def format_values_def)
qed

section \<open>Automorphisms\<close>

text \<open>A loop that writes each place at most once.\<close>

lemma res_range_scatter:
  assumes body: "\<And>j r. lw \<le> j \<Longrightarrow> j < up \<Longrightarrow> NV_GetLength r = NV_GetLength v \<Longrightarrow> body j r = vec_set r (f j) (g j)"
    and inj: "inj_on f {lw..<up}" and bound: "\<And>j. lw \<le> j \<Longrightarrow> j < up \<Longrightarrow> f j < NV_GetLength v" and "lw \<le> up"
  shows "\<exists>r. res_range lw up body v = Inr r \<and> m_modulus r = m_modulus v \<and> NV_GetLength r = NV_GetLength v
    \<and> (\<forall>j. lw \<le> j \<and> j < up \<longrightarrow> m_data r ! f j = g j) \<and> (\<forall>i. i \<notin> f ` {lw..<up} \<longrightarrow> m_data r ! i = m_data v ! i)"
proof -
  let ?P = "\<lambda>k r. m_modulus r = m_modulus v \<and> NV_GetLength r = NV_GetLength v
    \<and> (\<forall>j. lw \<le> j \<and> j < k \<longrightarrow> m_data r ! f j = g j) \<and> (\<forall>i. i \<notin> f ` {lw..<k} \<longrightarrow> m_data r ! i = m_data v ! i)"
  have "\<exists>r. res_range lw up body v = Inr r \<and> ?P up r"
  proof (rule res_range_invariant [where P = ?P])
    fix k r assume k: "lw \<le> k" "k < up" and P: "?P k r"
    let ?r = "r\<lparr>m_data := (m_data r)[f k := g k]\<rparr>"
    have len: "f k < length (m_data r)" using bound [OF k] P by (simp add: NV_GetLength_def)
    have "m_data ?r ! f j = g j" if "lw \<le> j" "j < Suc k" for j
    proof (cases "j = k")
      case False
      then have "f j \<noteq> f k" using inj that k by (auto simp: inj_on_def)
      then show ?thesis using P that False by simp
    qed (use len in simp)
    moreover have "m_data ?r ! i = m_data v ! i" if "i \<notin> f ` {lw..<Suc k}" for i
    proof -
      have "i \<noteq> f k" "i \<notin> f ` {lw..<k}" using that k(1) by auto
      then show ?thesis using P by simp
    qed
    moreover have "body k r = Inr ?r" using body [OF k] P len by (simp add: vec_set_def NV_GetLength_def)
    ultimately show "\<exists>t'. body k r = Inr t' \<and> ?P (Suc k) t'" using P by (auto simp: NV_GetLength_def)
  qed (use assms(4) in auto)
  then show ?thesis by blast
qed

text \<open>The polynomial \<open>c (x ^ k)\<close> modulo \<open>x ^ 2 ^ K + 1\<close>: coefficient \<open>j\<close> moves to \<open>j * k\<close> and changes its sign with every wrap.\<close>

definition auto_term :: "nat \<Rightarrow> nat \<Rightarrow> int list \<Rightarrow> nat \<Rightarrow> int" where
  "auto_term K k c j = (if odd (j * k div 2 ^ K) then - (c ! j) else c ! j)"

definition auto_poly :: "NativeInt \<Rightarrow> nat \<Rightarrow> nat \<Rightarrow> int list \<Rightarrow> int list" where
  "auto_poly q K k c = map (\<lambda>t. (\<Sum>j<2 ^ K. if j * k mod 2 ^ K = t then auto_term K k c j else 0) mod uint q) [0..<2 ^ K]"

lemma residues_auto_poly: "q \<noteq> 0 \<Longrightarrow> residues q K (auto_poly q K k c)"
  using uint_pos [of q] by (auto simp: residues_def auto_poly_def list_all_iff)

lemma auto_poly_eval:
  assumes "length c = 2 ^ K" "rcong (uint q) (z ^ 2 ^ K) (- 1)"
  shows "rcong (uint q) (poly_eval (auto_poly q K k c) z) (poly_eval c (z ^ k))"
proof -
  let ?n = "2 ^ K :: nat"
  have trm: "rcong (uint q) (auto_term K k c j * z ^ (j * k mod ?n)) (c ! j * (z ^ k) ^ j)" for j
  proof -
    have "(z ^ k) ^ j = z ^ (?n * (j * k div ?n) + j * k mod ?n)" by (simp add: power_mult [symmetric] mult.commute)
    also have "\<dots> = (z ^ ?n) ^ (j * k div ?n) * z ^ (j * k mod ?n)" by (simp only: power_add power_mult)
    finally have e: "(z ^ k) ^ j = (z ^ ?n) ^ (j * k div ?n) * z ^ (j * k mod ?n)" .
    have "rcong (uint q) ((z ^ ?n) ^ (j * k div ?n)) ((- 1) ^ (j * k div ?n))" by (rule rcong_power [OF assms(2)])
    then have "rcong (uint q) (c ! j * (z ^ k) ^ j) (c ! j * ((- 1) ^ (j * k div ?n) * z ^ (j * k mod ?n)))"
      unfolding e by (intro rcong_mult) auto
    moreover have "c ! j * ((- 1) ^ (j * k div ?n) * z ^ (j * k mod ?n)) = auto_term K k c j * z ^ (j * k mod ?n)"
      by (simp add: auto_term_def)
    ultimately show ?thesis by (simp only: rcong_sym)
  qed
  have "rcong (uint q) (poly_eval (auto_poly q K k c) z)
      (\<Sum>t<?n. (\<Sum>j<?n. if j * k mod ?n = t then auto_term K k c j else 0) * z ^ t)"
    by (simp add: poly_eval_def auto_poly_def) (intro rcong_sum rcong_mult, auto)
  also have "(\<Sum>t<?n. (\<Sum>j<?n. if j * k mod ?n = t then auto_term K k c j else 0) * z ^ t)
      = (\<Sum>j<?n. \<Sum>t<?n. if j * k mod ?n = t then auto_term K k c j * z ^ t else 0)"
    by (subst sum.swap) (simp add: sum_distrib_right if_distrib [of "\<lambda>y. y * _"] cong: if_cong)
  also have "\<dots> = (\<Sum>j<?n. auto_term K k c j * z ^ (j * k mod ?n))" by (simp add: sum.delta)
  also have "rcong (uint q) \<dots> (\<Sum>j<?n. c ! j * (z ^ k) ^ j)" by (intro rcong_sum trm)
  finally show ?thesis by (simp add: poly_eval_def assms(1))
qed

lemma primitive_root_period:
  assumes "primitive_root q K psi"
  shows "rcong (uint q) (uint psi ^ (e mod 2 ^ Suc K)) (uint psi ^ e)"
proof -
  have "rcong (uint q) ((uint psi ^ 2 ^ K) ^ 2) ((- 1) ^ 2)" by (rule rcong_power [OF primitive_root_cong [OF assms]])
  then have one: "rcong (uint q) (uint psi ^ 2 ^ Suc K) 1" by (simp add: power_mult [symmetric] mult.commute)
  have "uint psi ^ e = uint psi ^ (2 ^ Suc K * (e div 2 ^ Suc K) + e mod 2 ^ Suc K)" by (simp only: mult_div_mod_eq)
  also have "\<dots> = (uint psi ^ 2 ^ Suc K) ^ (e div 2 ^ Suc K) * uint psi ^ (e mod 2 ^ Suc K)" by (simp only: power_add power_mult)
  also have "rcong (uint q) \<dots> (1 ^ (e div 2 ^ Suc K) * uint psi ^ (e mod 2 ^ Suc K))" by (intro rcong_mult rcong_power one) auto
  finally show ?thesis by (simp add: rcong_sym)
qed

lemma evals_auto:
  assumes "ntt_params q K psi" "length c = 2 ^ K" "odd k" "j < 2 ^ K"
  shows "evals q K psi (auto_poly q K k c) ! brv K j = evals q K psi c ! brv K (auto_index K k j)"
proof -
  have K: "0 < K" "K \<le> 24" and root: "primitive_root q K psi" using assms(1) by (simp_all add: ntt_params_def)
  let ?s = "auto_index K k j"
  have "rcong (uint q) (poly_eval (auto_poly q K k c) (uint psi ^ (2 * j + 1))) (poly_eval c ((uint psi ^ (2 * j + 1)) ^ k))"
    by (rule auto_poly_eval [OF assms(2) odd_power_root [OF root]])
  moreover have "rcong (uint q) (poly_eval c (uint psi ^ (2 * ?s + 1))) (poly_eval c ((uint psi ^ (2 * j + 1)) ^ k))"
    unfolding auto_index_odd [OF assms(3)] power_mult [symmetric] by (intro poly_eval_cong primitive_root_period root)
  ultimately have "poly_eval (auto_poly q K k c) (uint psi ^ (2 * j + 1)) mod uint q = poly_eval c (uint psi ^ (2 * ?s + 1)) mod uint q"
    by (simp add: rcong_def)
  then show ?thesis
    using brv_lt [OF K assms(4)] brv_lt [OF K auto_index_lt, of k j] brv_brv [OF K assms(4)] brv_brv [OF K auto_index_lt, of k j]
    by (simp add: evals_def)
qed

lemma ring_dims:
  assumes "K \<le> 24"
  shows "unat (of_nat (2 ^ K) :: usint) = 2 ^ K" "unat (of_nat (2 ^ Suc K) :: usint) = 2 ^ Suc K"
proof -
  have "(2 :: nat) ^ Suc K \<le> 2 ^ 25" using assms by (intro power_increasing) auto
  then show "unat (of_nat (2 ^ K) :: usint) = 2 ^ K" "unat (of_nat (2 ^ Suc K) :: usint) = 2 ^ Suc K"
    by (intro unat_of_nat_32; simp)+
qed

lemma odd_word: "k mod 2 \<noteq> 0 \<longleftrightarrow> odd (unat (k :: usint))"
  by (simp add: word_unat_eq_iff unat_mod even_iff_mod_2_eq_zero)

lemma drop_bit_odd_number:
  assumes "K \<le> 24" "t < 2 ^ K"
  shows "(push_bit 1 (of_nat t) + 1 :: usint) div 2 = of_nat t"
proof -
  have t: "2 * t + 1 < 2 ^ 32"
    using less_le_trans [OF assms(2) power_increasing [OF assms(1), of "2 :: nat"]] by simp
  have "push_bit 1 (of_nat t) + 1 = (of_nat (2 * t + 1) :: usint)" by (simp add: push_bit_eq_mult)
  then have "unat ((push_bit 1 (of_nat t) + 1 :: usint) div 2) = t"
    using unat_of_nat_32 [OF t] by (simp only: unat_div) simp
  then show ?thesis by (metis of_nat_unat ucast_id)
qed

lemma auto_eval_pow2_places:
  assumes "0 < K" "K \<le> 24" "NV_GetLength v = 2 ^ K"
  shows "\<exists>r. auto_eval_pow2 (of_nat (2 ^ Suc K)) (of_nat (2 ^ K)) k v = Inr r \<and> m_modulus r = m_modulus v
    \<and> NV_GetLength r = 2 ^ K \<and> (\<forall>j<2 ^ K. m_data r ! brv K j = m_data v ! brv K (auto_index K (unat k) j))"
proof -
  let ?body = "\<lambda>t result. let j = push_bit 1 (of_nat t) + 1;
      idx = j * k - push_bit (Suc K) (drop_bit (Suc K) (j * k));
      jrev = ReverseBits (j div 2) K; idxrev = ReverseBits (idx div 2) K
    in res_bind (vec_get v (unat idxrev)) (\<lambda>x. vec_set result (unat jrev) x)"
  have b: "?body t r = vec_set r (brv K t) (m_data v ! brv K (auto_index K (unat k) t))"
    if "t < 2 ^ K" "NV_GetLength r = NV_GetLength v" for t r
  proof -
    have d: "x div 2 = drop_bit 1 x" for x :: usint by (simp add: drop_bit_eq_div)
    have ix: "drop_bit 1 ((push_bit 1 (of_nat t) + 1) * k - push_bit (Suc K) (drop_bit (Suc K) ((push_bit 1 (of_nat t) + 1) * k)))
        = (of_nat (auto_index K (unat k) t) :: usint)" by (rule unat_auto_index [OF assms(2) that(1) refl])
    have jx: "drop_bit 1 (push_bit 1 (of_nat t) + 1 :: usint) = of_nat t"
      using drop_bit_odd_number [OF assms(2) that(1)] by (simp only: d)
    have "brv K (auto_index K (unat k) t) < 2 ^ K" by (rule brv_lt [OF assms(1,2) auto_index_lt])
    then show ?thesis
      unfolding Let_def d ix jx brv_def [symmetric] using assms(3) by (simp add: vec_get_def)
  qed
  have "\<exists>r. res_range 0 (2 ^ K) ?body v = Inr r \<and> m_modulus r = m_modulus v \<and> NV_GetLength r = NV_GetLength v
    \<and> (\<forall>j. 0 \<le> j \<and> j < 2 ^ K \<longrightarrow> m_data r ! brv K j = m_data v ! brv K (auto_index K (unat k) j))
    \<and> (\<forall>i. i \<notin> brv K ` {0..<2 ^ K} \<longrightarrow> m_data r ! i = m_data v ! i)"
    by (rule res_range_scatter)
      (use b assms(3) brv_lt [OF assms(1,2)] brv_inj [OF assms(1,2)] in \<open>auto simp: inj_on_def\<close>)
  moreover have "auto_eval_pow2 (of_nat (2 ^ Suc K)) (of_nat (2 ^ K)) k v = res_range 0 (2 ^ K) ?body v"
    unfolding auto_eval_pow2_def ring_dims [OF assms(2)] round_log2_pow2 Let_def by simp
  ultimately show ?thesis using assms(3) by auto
qed

lemma Automorphism_eval_represents:
  assumes "represents q K psi p c" "m_format p = EVALUATION" "odd (unat k)"
  shows "\<exists>s. Poly_AutomorphismTransform p k = Inr s \<and> represents q K psi s (auto_poly q K (unat k) c) \<and> m_format s = EVALUATION"
proof -
  obtain v where v: "m_values p = Some v" "holds_vector q K v" "nv_abs v = format_values q K psi (m_format p) c"
    "ntt_params q K psi" "ring_params q K psi (m_params p)" "residues q K c" using representsE [OF assms(1)] .
  have K: "0 < K" "K \<le> 24" using v(4) by (simp_all add: ntt_params_def)
  have len: "NV_GetLength v = 2 ^ K" using v(2) by (simp add: holds_vector_def)
  obtain r where r: "auto_eval_pow2 (of_nat (2 ^ Suc K)) (of_nat (2 ^ K)) k v = Inr r" "m_modulus r = m_modulus v"
      "NV_GetLength r = 2 ^ K" "\<And>j. j < 2 ^ K \<Longrightarrow> m_data r ! brv K j = m_data v ! brv K (auto_index K (unat k) j)"
    using auto_eval_pow2_places [OF K len, of k] by blast
  have entry: "m_data r ! i \<in> set (m_data v) \<and> nv_abs r ! i = evals q K psi (auto_poly q K (unat k) c) ! i" if "i < 2 ^ K" for i
  proof -
    define j where "j = brv K i"
    have j: "j < 2 ^ K" "i = brv K j" using brv_lt [OF K that] brv_brv [OF K that] by (simp_all add: j_def)
    have s: "brv K (auto_index K (unat k) j) < 2 ^ K" by (rule brv_lt [OF K auto_index_lt])
    have "nv_abs r ! i = nv_abs v ! brv K (auto_index K (unat k) j)"
      using r(3,4) j(1) len s that unfolding j(2) by (simp add: nv_abs_def NV_GetLength_def)
    also have "\<dots> = evals q K psi (auto_poly q K (unat k) c) ! i"
      using evals_auto [OF v(4) _ assms(3) j(1), of c] v(3,6) assms(2) j(2) by (simp add: format_values_def residues_def)
    finally show ?thesis using r(4) [OF j(1)] s len j(2) by (simp add: NV_GetLength_def)
  qed
  have "nv_abs r = evals q K psi (auto_poly q K (unat k) c)"
    using entry r(3) by (intro nth_equalityI) (simp_all add: nv_abs_def NV_GetLength_def evals_def)
  moreover have "set (m_data r) \<subseteq> set (m_data v)"
    using entry r(3) by (auto simp: set_conv_nth [of "m_data r"] NV_GetLength_def)
  then have "holds_vector q K r"
    using v(2) r(2,3) by (auto simp: holds_vector_def nv_wf_def list_all_iff)
  moreover have "Poly_AutomorphismTransform p k = Inr (p\<lparr>m_values := Some r\<rparr>)"
    using v(1,5) assms(2,3) r(1) odd_word [of k] by (simp add: Poly_AutomorphismTransform_def Poly_GetValues_def ring_params_def Let_def)
  ultimately show ?thesis
    using v(4,5) assms(2) residues_auto_poly [OF ntt_params_modulus(3) [OF v(4)]]
    by (simp add: represents_def format_values_def)
qed

text \<open>With a table from \<open>PrecomputeAutoMap\<close> the transform gathers instead of scattering, to the same result.\<close>

lemma Automorphism_precomp_eq:
  assumes "represents q K psi p c" "m_format p = EVALUATION" "odd (unat k)" "length precomp = 2 ^ K"
  shows "\<exists>pm. PrecomputeAutoMap (of_nat (2 ^ K)) k precomp = Inr pm
    \<and> Poly_AutomorphismTransform_precomp p k pm = Poly_AutomorphismTransform p k"
proof -
  obtain v where v: "m_values p = Some v" "holds_vector q K v" "ntt_params q K psi" "ring_params q K psi (m_params p)"
    using representsE [OF assms(1)] .
  have K: "0 < K" "K \<le> 24" using v(3) by (simp_all add: ntt_params_def)
  have len: "NV_GetLength v = 2 ^ K" using v(2) by (simp add: holds_vector_def)
  obtain pm where pm: "PrecomputeAutoMap (of_nat (2 ^ K)) k precomp = Inr pm" "length pm = 2 ^ K"
      "\<And>j. j < 2 ^ K \<Longrightarrow> unat (pm ! brv K j) = brv K (auto_index K (unat k) j)"
    using PrecomputeAutoMap_entries [OF K assms(4)] by blast
  obtain r where r: "auto_eval_pow2 (of_nat (2 ^ Suc K)) (of_nat (2 ^ K)) k v = Inr r" "m_modulus r = m_modulus v"
      "NV_GetLength r = 2 ^ K" "\<And>j. j < 2 ^ K \<Longrightarrow> m_data r ! brv K j = m_data v ! brv K (auto_index K (unat k) j)"
    using auto_eval_pow2_places [OF K len, of k] by blast
  have ix: "unat (pm ! i) < 2 ^ K \<and> m_data r ! i = m_data v ! unat (pm ! i)" if "i < 2 ^ K" for i
    using r(4) [OF brv_lt [OF K that]] pm(3) [OF brv_lt [OF K that]] brv_lt [OF K auto_index_lt, of "unat k" "brv K i"]
    unfolding brv_brv [OF K that] by simp
  let ?body = "\<lambda>j result. if j < length pm then res_bind (vec_get v (unat (pm ! j))) (\<lambda>x. vec_set result j x) else Inl out_of_bounds"
  have "\<exists>r'. res_range 0 (2 ^ K) ?body v = Inr r' \<and> m_modulus r' = m_modulus v \<and> NV_GetLength r' = NV_GetLength v
    \<and> (\<forall>j. 0 \<le> j \<and> j < 2 ^ K \<longrightarrow> m_data r' ! j = m_data v ! unat (pm ! j))
    \<and> (\<forall>i. i \<notin> (\<lambda>j. j) ` {0..<2 ^ K} \<longrightarrow> m_data r' ! i = m_data v ! i)"
    by (rule res_range_scatter) (use ix pm(2) len in \<open>auto simp: vec_get_def\<close>)
  then obtain r' where r': "res_range 0 (2 ^ K) ?body v = Inr r'" "m_modulus r' = m_modulus v" "NV_GetLength r' = 2 ^ K"
      "\<And>j. j < 2 ^ K \<Longrightarrow> m_data r' ! j = m_data v ! unat (pm ! j)" using len by auto
  have "m_data r' = m_data r" using r'(3,4) r(3) ix by (intro nth_equalityI) (simp_all add: NV_GetLength_def)
  then have "r' = r" using r(2) r'(2) by (cases r; cases r') simp
  then show ?thesis
    using pm(1) r(1) r'(1) v(1,4) assms(2,3) odd_word [of k] ring_dims(1) [OF K(2)]
    by (simp add: Poly_AutomorphismTransform_def Poly_AutomorphismTransform_precomp_def Poly_GetValues_def deref_def ring_params_def Let_def)
qed

lemma mult_odd_inj:
  assumes "odd k" "i < 2 ^ K" "j < 2 ^ K" "i * k mod 2 ^ K = j * k mod (2 :: nat) ^ K"
  shows "i = j"
proof -
  have "int (2 ^ K) dvd int (i * k) - int (j * k)" using assms(4) by (metis mod_eq_dvd_iff of_nat_mod)
  also have "int (i * k) - int (j * k) = (int i - int j) * int k" by (simp add: algebra_simps)
  finally have "int (2 ^ K) dvd (int i - int j) * int k" .
  moreover have "coprime (int (2 ^ K)) (int k)" using assms(1) by simp
  ultimately have "int (2 ^ K) dvd int i - int j" by (metis coprime_dvd_mult_left_iff)
  then have "int i mod int (2 ^ K) = int j mod int (2 ^ K)" by (simp only: mod_eq_dvd_iff)
  then show ?thesis using assms(2,3) by (simp only: zmod_int [symmetric] of_nat_eq_iff mod_less)
qed

lemma mult_odd_surj:
  assumes "odd k" "t < (2 :: nat) ^ K"
  obtains j where "j < 2 ^ K" "j * k mod 2 ^ K = t"
proof -
  have "inj_on (\<lambda>j. j * k mod 2 ^ K) {..<2 ^ K}" using mult_odd_inj [OF assms(1)] by (auto simp: inj_on_def)
  moreover have "(\<lambda>j. j * k mod 2 ^ K) ` {..<2 ^ K} \<subseteq> {..<2 ^ K}" by auto
  ultimately have "(\<lambda>j. j * k mod 2 ^ K) ` {..<2 ^ K} = {..<2 ^ K}" by (simp add: endo_inj_surj)
  then have "t \<in> (\<lambda>j. j * k mod 2 ^ K) ` {..<2 ^ K}" using assms(2) by simp
  then show thesis using that by auto
qed

lemma auto_poly_place:
  assumes "odd k" "j < 2 ^ K"
  shows "auto_poly q K k c ! (j * k mod 2 ^ K) = auto_term K k c j mod uint q"
proof -
  have "(\<Sum>i<2 ^ K. if i * k mod 2 ^ K = j * k mod 2 ^ K then auto_term K k c i else 0)
      = (\<Sum>i<2 ^ K. if i = j then auto_term K k c i else 0)"
    using mult_odd_inj [OF assms(1) _ assms(2)] by (intro sum.cong) auto
  then show ?thesis using assms(2) by (simp add: auto_poly_def sum.delta)
qed

lemma unat_index_product:
  assumes "K \<le> 24" "j < 2 ^ K"
  shows "unat (of_nat j * k mod of_nat (2 ^ K) :: usint) = j * unat k mod 2 ^ K"
    and "(of_nat j * k div of_nat (2 ^ K)) mod 2 = (1 :: usint) \<longleftrightarrow> odd (j * unat k div 2 ^ K)"
proof -
  have j: "unat (of_nat j :: usint) = j"
    using less_le_trans [OF assms(2) power_increasing [OF assms(1), of "2 :: nat"]] by (intro unat_of_nat_32) simp
  have u: "unat (of_nat j * k :: usint) = j * unat k mod 2 ^ 32" by (simp add: unat_word_ariths j)
  have dv: "(2 :: nat) ^ K dvd 2 ^ 32" using assms(1) by (intro le_imp_power_dvd) simp
  show "unat (of_nat j * k mod of_nat (2 ^ K) :: usint) = j * unat k mod 2 ^ K"
    by (simp only: unat_mod u ring_dims(1) [OF assms(1)] mod_mod_cancel [OF dv])
  have "unat ((of_nat j * k div of_nat (2 ^ K)) mod 2 :: usint) = (j * unat k mod 2 ^ 32) div 2 ^ K mod 2"
    by (simp only: unat_mod unat_div u ring_dims(1) [OF assms(1)]) simp
  also have "odd ((j * unat k mod 2 ^ 32) div 2 ^ K) \<longleftrightarrow> odd (j * unat k div 2 ^ K)"
    using assms(1) by (simp only: take_bit_eq_mod [symmetric] bit_iff_odd [symmetric]) (simp add: bit_take_bit_iff)
  ultimately show "(of_nat j * k div of_nat (2 ^ K)) mod 2 = (1 :: usint) \<longleftrightarrow> odd (j * unat k div 2 ^ K)"
    by (simp add: word_unat_eq_iff odd_iff_mod_2_eq_one)
qed

lemma auto_coef_places:
  assumes "K \<le> 24" "NV_GetLength v = 2 ^ K" "odd (unat k)"
  shows "\<exists>r. auto_coef (of_nat (2 ^ K)) k q v = Inr r \<and> m_modulus r = m_modulus v \<and> NV_GetLength r = 2 ^ K
    \<and> (\<forall>j<2 ^ K. m_data r ! (j * unat k mod 2 ^ K) = (if odd (j * unat k div 2 ^ K) then SubFast q (m_data v ! j) else m_data v ! j))"
proof -
  let ?n = "2 ^ K :: nat" and ?f = "\<lambda>j. j * unat k mod 2 ^ K"
  let ?g = "\<lambda>j. if odd (j * unat k div 2 ^ K) then SubFast q (m_data v ! j) else m_data v ! j"
  let ?body = "\<lambda>j result. let temp = of_nat j * k; newIndex = temp mod of_nat (2 ^ K)
    in res_bind (vec_get v j) (\<lambda>x. if (temp div of_nat (2 ^ K)) mod 2 = 1 then vec_set result (unat newIndex) (SubFast q x)
         else vec_set result (unat newIndex) x)"
  have b: "?body j r = vec_set r (?f j) (?g j)" if "j < ?n" for j r
    unfolding Let_def unat_index_product [OF assms(1) that] using that assms(2) by (simp add: vec_get_def)
  have "\<exists>r. res_range 1 ?n ?body v = Inr r \<and> m_modulus r = m_modulus v \<and> NV_GetLength r = NV_GetLength v
    \<and> (\<forall>j. 1 \<le> j \<and> j < ?n \<longrightarrow> m_data r ! ?f j = ?g j) \<and> (\<forall>i. i \<notin> ?f ` {1..<?n} \<longrightarrow> m_data r ! i = m_data v ! i)"
  proof (rule res_range_scatter)
    show "inj_on ?f {1..<?n}" by (rule inj_onI) (rule mult_odd_inj [OF assms(3)], simp_all)
    show "?f j < NV_GetLength v" for j by (simp add: assms(2))
    show "?body j r = vec_set r (?f j) (?g j)" if "j < ?n" for j r using that by (rule b)
  qed simp
  then obtain r where r: "res_range 1 ?n ?body v = Inr r" "m_modulus r = m_modulus v" "NV_GetLength r = 2 ^ K"
    "\<And>j. 1 \<le> j \<Longrightarrow> j < ?n \<Longrightarrow> m_data r ! ?f j = ?g j" "\<And>i. i \<notin> ?f ` {1..<?n} \<Longrightarrow> m_data r ! i = m_data v ! i"
    using assms(2) by auto
  have "0 \<notin> ?f ` {1..<?n}"
  proof
    assume "0 \<in> ?f ` {1..<?n}"
    then obtain j where "1 \<le> j" "j < ?n" "j * unat k mod 2 ^ K = 0 * unat k mod 2 ^ K" by auto
    then show False using mult_odd_inj [OF assms(3), of j K 0] by simp
  qed
  then have "m_data r ! ?f j = ?g j" if "j < ?n" for j using r(4) [of j] r(5) [of 0] that by (cases "j = 0") auto
  moreover have "auto_coef (of_nat (2 ^ K)) k q v = res_range 1 ?n ?body v"
    unfolding auto_coef_def ring_dims(1) [OF assms(1)] ..
  ultimately show ?thesis using r(1-3) by auto
qed

lemma Automorphism_coef_represents:
  assumes "represents q K psi p c" "m_format p = COEFFICIENT" "odd (unat k)"
  shows "\<exists>s r. Poly_AutomorphismTransform p k = Inr s \<and> m_values s = Some r \<and> m_format s = COEFFICIENT
    \<and> map (\<lambda>x. x mod uint q) (nv_abs r) = auto_poly q K (unat k) c
    \<and> (0 \<notin> set c \<longrightarrow> represents q K psi s (auto_poly q K (unat k) c))"
proof -
  obtain v where v: "m_values p = Some v" "holds_vector q K v" "nv_abs v = format_values q K psi (m_format p) c"
    "ntt_params q K psi" "ring_params q K psi (m_params p)" "residues q K c" using representsE [OF assms(1)] .
  have K: "K \<le> 24" using v(4) by (simp add: ntt_params_def)
  have len: "NV_GetLength v = 2 ^ K" and md: "m_modulus v = q" using v(2) by (simp_all add: holds_vector_def)
  have c: "uint (m_data v ! j) = c ! j" "0 \<le> c ! j" "c ! j < uint q" if "j < 2 ^ K" for j
  proof -
    show "uint (m_data v ! j) = c ! j" using v(3) assms(2) len that by (auto simp: format_values_def nv_abs_def NV_GetLength_def)
    show "0 \<le> c ! j" "c ! j < uint q" using v(6) that by (simp_all add: residues_def list_all_length)
  qed
  obtain r where r: "auto_coef (of_nat (2 ^ K)) k q v = Inr r" "m_modulus r = m_modulus v" "NV_GetLength r = 2 ^ K"
      "\<And>j. j < 2 ^ K \<Longrightarrow> m_data r ! (j * unat k mod 2 ^ K) = (if odd (j * unat k div 2 ^ K) then SubFast q (m_data v ! j) else m_data v ! j)"
    using auto_coef_places [OF K len assms(3), of q] by blast
  have entry: "uint (m_data r ! t) mod uint q = auto_poly q K (unat k) c ! t \<and> (0 \<notin> set c \<longrightarrow> uint (m_data r ! t) < uint q)"
    if t: "t < 2 ^ K" for t
  proof -
    obtain j where j: "j < 2 ^ K" "j * unat k mod 2 ^ K = t" using mult_odd_surj [OF assms(3) t] .
    have "m_data v ! j \<le> q" using c [OF j(1)] by (simp add: word_le_def)
    then have "uint (SubFast q (m_data v ! j)) = uint q - c ! j"
      using c(1) [OF j(1)] by (simp add: SubFast_def uint_minus_simple_alt word_le_def)
    then have u: "uint (m_data r ! t) = (if odd (j * unat k div 2 ^ K) then uint q - c ! j else c ! j)"
      using r(4) [OF j(1)] c(1) [OF j(1)] j(2) by simp
    have "c ! j \<in> set c" using v(6) j(1) by (simp add: residues_def)
    then have "c ! j \<noteq> 0" if "0 \<notin> set c" using that by metis
    moreover have "(uint q - c ! j) mod uint q = (- (c ! j)) mod uint q"
      using mod_add_self1 [of "uint q" "- (c ! j)"] by simp
    ultimately show ?thesis
      using auto_poly_place [OF assms(3) j(1), of q c] c(2,3) [OF j(1)] unfolding j(2) u auto_term_def
      by (cases "odd (j * unat k div 2 ^ K)") auto
  qed
  have lr: "length (nv_abs r) = 2 ^ K" using r(3) by (simp add: nv_abs_def NV_GetLength_def)
  have maps: "map (\<lambda>x. x mod uint q) (nv_abs r) = auto_poly q K (unat k) c"
    using entry lr by (intro nth_equalityI) (simp_all add: nv_abs_def auto_poly_def)
  moreover have "Poly_AutomorphismTransform p k = Inr (p\<lparr>m_values := Some r\<rparr>)"
    using v(1,5) assms(2,3) r(1) odd_word [of k] by (simp add: Poly_AutomorphismTransform_def deref_def ring_params_def Let_def)
  moreover have "represents q K psi (p\<lparr>m_values := Some r\<rparr>) (auto_poly q K (unat k) c)" if "0 \<notin> set c"
  proof -
    have "\<And>t. t < 2 ^ K \<Longrightarrow> uint (m_data r ! t) < uint q" using entry that by blast
    then have hv: "holds_vector q K r"
      using v(2) r(2,3) by (auto simp: holds_vector_def nv_wf_def list_all_length word_less_def NV_GetLength_def)
    then have "map (\<lambda>x. x mod uint q) (nv_abs r) = nv_abs r"
      by (auto simp: holds_vector_def nv_wf_def list_all_iff word_less_def nv_abs_def)
    then have "nv_abs r = auto_poly q K (unat k) c" using maps by simp
    then show ?thesis using hv v(4,5) assms(2) residues_auto_poly [OF ntt_params_modulus(3) [OF v(4)]]
      by (simp add: represents_def format_values_def)
  qed
  ultimately show ?thesis using assms(2) by auto
qed

section \<open>Properties\<close>

lemma represents_unique:
  assumes "represents q K psi p c" "represents q K psi r c" "m_format p = m_format r" "m_params p = m_params r"
  shows "p = r"
proof -
  obtain v where v: "m_values p = Some v" "holds_vector q K v" "nv_abs v = format_values q K psi (m_format p) c"
    using representsE [OF assms(1)] .
  obtain w where w: "m_values r = Some w" "holds_vector q K w" "nv_abs w = format_values q K psi (m_format r) c"
    using representsE [OF assms(2)] .
  have "v = w" using v w assms(3) by (intro holds_unique) simp_all
  then show ?thesis using v(1) w(1) assms(3,4) by (cases p; cases r) simp
qed

lemma other_format_twice [simp]: "other_format (other_format f) = f"
  by (cases f) (simp_all add: other_format_def)

text \<open>
  C0: \<open>SwitchFormat\<close> changes the format of an element and not the polynomial it stands for, whether the tables of the
  transform are there or have to be computed first, and a second switch gives back the first object.
\<close>

theorem Poly_SwitchFormat_correct:
  assumes "represents q K psi p c" "FTT_missing T q (2 ^ K) \<or> FTT_ready T q K psi"
  shows "\<exists>p' T'. Poly_SwitchFormat arb p T = Inr (p', T') \<and> FTT_ready T' q K psi \<and> represents q K psi p' c
    \<and> m_format p' = other_format (m_format p) \<and> Poly_SwitchFormat arb p' T' = Inr (p, T')"
proof -
  obtain p' T' where p': "Poly_SwitchFormat arb p T = Inr (p', T')" "FTT_ready T' q K psi" "represents q K psi p' c"
    "m_format p' = other_format (m_format p)" "m_params p' = m_params p"
    using SwitchFormat_represents [OF assms] by blast
  obtain v where v: "ntt_params q K psi" "residues q K c" using representsE [OF p'(3)] by metis
  obtain p'' T'' where p'': "Poly_SwitchFormat arb p' T' = Inr (p'', T'')" "represents q K psi p'' c"
    "m_format p'' = other_format (m_format p')" "m_params p'' = m_params p'"
    using SwitchFormat_represents [OF p'(3) disjI2 [OF p'(2)]] by blast
  have "p'' = p" using p'' p'(4,5) by (intro represents_unique [OF p''(2) assms(1)]) simp_all
  moreover have "T'' = T'"
  proof -
    obtain u where u: "m_values p' = Some u" "holds_vector q K u" "ring_params q K psi (m_params p')"
      using representsE [OF p'(3)] .
    have "m_modulus u = q" "NV_GetLength u = 2 ^ K" using u(2) by (simp_all add: holds_vector_def)
    then show ?thesis
      using p''(1) u(1,3) FTT_fwd_eq [OF v(1) p'(2), of u] FTT_inv_eq [OF v(1) p'(2), of u]
      by (cases "m_format p'") (simp_all add: Poly_SwitchFormat_def ring_params_def)
  qed
  ultimately show ?thesis using p' p''(1) by auto
qed

text \<open>
  C30: in either format \<open>Plus\<close> and \<open>Minus\<close> (and \<open>+=\<close>, \<open>-=\<close>) add and subtract the polynomials, and in
  evaluation format \<open>Times\<close> (and \<open>*=\<close>) multiplies them modulo \<open>x ^ n + 1\<close> and \<open>q\<close>: the class implements the ring.
\<close>

theorem Poly_ring_operations:
  assumes "represents q K psi p c" "represents q K psi r d" "m_format p = m_format r" "ElemParams_eq (m_params p) (m_params r)"
  shows "(\<exists>s. Poly_Plus p r = Inr s \<and> represents q K psi s (map2 (\<lambda>x y. (x + y) mod uint q) c d))
    \<and> (\<exists>s. Poly_PlusEq p r = Inr s \<and> represents q K psi s (map2 (\<lambda>x y. (x + y) mod uint q) c d))
    \<and> (\<exists>s. Poly_Minus p r = Inr s \<and> represents q K psi s (map2 (\<lambda>x y. (x - y) mod uint q) c d))
    \<and> (\<exists>s. Poly_MinusEq p r = Inr s \<and> represents q K psi s (map2 (\<lambda>x y. (x - y) mod uint q) c d))
    \<and> (if m_format p = EVALUATION
       then \<exists>s. Poly_Times p r = Inr s \<and> Poly_TimesEq p r = Inr s \<and> represents q K psi s (negacyclic_mult q K c d)
       else Poly_Times p r = Inl not_implemented_error \<and> Poly_TimesEq p r = Inl not_implemented_error)"
  using Plus.represents_oper [OF assms] PlusEq.represents_oper [OF assms] Minus.represents_oper [OF assms]
    MinusEq.represents_oper [OF assms] Times_represents [OF assms(1,2) _ _ assms(4)] assms(3)
  by (auto simp: Poly_Times_def Poly_TimesEq_def)

text \<open>
  C7: multiplication of two elements in coefficient format through the transform: switching both to evaluation format,
  multiplying and switching back gives the product of the polynomials modulo \<open>x ^ n + 1\<close>, with the tables shared.
\<close>

theorem Poly_multiplication_pipeline:
  assumes "represents q K psi p c" "represents q K psi r d" "m_format p = COEFFICIENT" "m_format r = COEFFICIENT"
    and "ElemParams_eq (m_params p) (m_params r)" "FTT_missing T q (2 ^ K) \<or> FTT_ready T q K psi"
  shows "\<exists>p' r' s s' v T' T2 T3. Poly_SwitchFormat arb p T = Inr (p', T') \<and> Poly_SwitchFormat arb r T' = Inr (r', T2)
    \<and> Poly_Times p' r' = Inr s \<and> Poly_SwitchFormat arb s T2 = Inr (s', T3)
    \<and> m_format s' = COEFFICIENT \<and> m_values s' = Some v \<and> nv_abs v = negacyclic_mult q K c d"
proof -
  obtain p' T' where p': "Poly_SwitchFormat arb p T = Inr (p', T')" "FTT_ready T' q K psi" "represents q K psi p' c"
    "m_format p' = EVALUATION" "m_params p' = m_params p"
    using SwitchFormat_represents [OF assms(1,6), of arb] assms(3) by (auto simp: other_format_def)
  obtain r' T2 where r': "Poly_SwitchFormat arb r T' = Inr (r', T2)" "FTT_ready T2 q K psi" "represents q K psi r' d"
    "m_format r' = EVALUATION" "m_params r' = m_params r"
    using SwitchFormat_represents [OF assms(2) disjI2 [OF p'(2)], of arb] assms(4) by (auto simp: other_format_def)
  obtain s where s: "Poly_Times p' r' = Inr s" "represents q K psi s (negacyclic_mult q K c d)" "m_format s = EVALUATION"
    using Times_represents [OF p'(3) r'(3) p'(4) r'(4)] assms(5) p'(5) r'(5) by auto
  obtain s' T3 where s': "Poly_SwitchFormat arb s T2 = Inr (s', T3)" "represents q K psi s' (negacyclic_mult q K c d)" "m_format s' = COEFFICIENT"
    using SwitchFormat_represents [OF s(2) disjI2 [OF r'(2)], of arb] s(3) by (auto simp: other_format_def)
  obtain v where "m_values s' = Some v" "nv_abs v = negacyclic_mult q K c d"
    using representsE [OF s'(2)] s'(3) by (metis Format.simps(4) format_values_def)
  then show ?thesis using p'(1) r'(1) s(1) s'(1,3) by blast
qed

text \<open>
  C31: for an odd index \<open>k\<close>, \<open>AutomorphismTransform\<close> maps the polynomial \<open>c (x)\<close> to \<open>c (x ^ k)\<close> in evaluation format, and also
  with the positions taken from \<open>PrecomputeAutoMap\<close>; in coefficient format it computes the same coefficients
  modulo \<open>q\<close>, and the reduced ones when no coefficient is 0. An even index is rejected.
\<close>

theorem Poly_Automorphism_correct:
  assumes "represents q K psi p c" "length precomp = 2 ^ K"
  shows "if even (unat k) then Poly_AutomorphismTransform p k = Inl math_error
    else if m_format p = EVALUATION
    then \<exists>s pm. Poly_AutomorphismTransform p k = Inr s \<and> represents q K psi s (auto_poly q K (unat k) c)
      \<and> PrecomputeAutoMap (of_nat (2 ^ K)) k precomp = Inr pm \<and> Poly_AutomorphismTransform_precomp p k pm = Inr s
    else \<exists>s r. Poly_AutomorphismTransform p k = Inr s \<and> m_values s = Some r
      \<and> map (\<lambda>x. x mod uint q) (nv_abs r) = auto_poly q K (unat k) c
      \<and> (0 \<notin> set c \<longrightarrow> represents q K psi s (auto_poly q K (unat k) c))"
proof -
  have "ring_params q K psi (m_params p)" using representsE [OF assms(1)] .
  then have pw: "isPowerOfTwo (m_params p)" by (simp add: ring_params_def)
  consider "even (unat k)" | "odd (unat k)" "m_format p = EVALUATION" | "odd (unat k)" "m_format p = COEFFICIENT"
    by (cases "m_format p") auto
  then show ?thesis
  proof cases
    case 1
    then show ?thesis using pw odd_word [of k] by (simp add: Poly_AutomorphismTransform_def Let_def)
  next
    case 2
    show ?thesis using Automorphism_eval_represents [OF assms(1) 2(2,1)] Automorphism_precomp_eq [OF assms(1) 2(2,1) assms(2)] 2 by auto
  next
    case 3
    then show ?thesis using Automorphism_coef_represents [OF assms(1) 3(2,1)] by auto
  qed
qed

section \<open>Sample elements\<close>

definition sample_il :: ILParams where
  "sample_il = ElemParams_of 4 8 17 2 0 0"

definition sample_poly :: Poly where
  "sample_poly = \<lparr>m_values = Some sample_ring, m_format = COEFFICIENT, m_params = sample_il\<rparr>"

text \<open>The order of the sample is a power of two, so the other transform is never called.\<close>

definition sample_arb :: arb_transform where
  "sample_arb forward v root_of_unity bigModulus bigRoot order = Inl not_implemented_error"

lemma sample_represents: "represents 17 2 2 sample_poly [1, 2, 3, 4]"
  using sample_params sample_ring_wf
  by (simp add: represents_def ring_params_def sample_poly_def sample_il_def ElemParams_of_def residues_def
      holds_vector_def format_values_def nv_abs_def sample_ring_def)

lemma ElemParams_eq_refl: "ElemParams_eq p p"
  by (simp add: ElemParams_eq_def)

theorem Poly_SwitchFormat_correct_witness:
  "\<exists>p' T'. Poly_SwitchFormat sample_arb sample_poly FTT_empty = Inr (p', T')
    \<and> Poly_SwitchFormat sample_arb p' T' = Inr (sample_poly, T')"
  using Poly_SwitchFormat_correct [OF sample_represents disjI1 [OF sample_missing]] by blast

theorem Poly_ring_operations_witness:
  "(\<exists>s. Poly_Plus sample_poly sample_poly = Inr s \<and> represents 17 2 2 s [2, 4, 6, 8])
   \<and> Poly_Times sample_poly sample_poly = Inl not_implemented_error"
proof -
  have "map2 (\<lambda>x y. (x + y) mod uint (17 :: NativeInt)) [1, 2, 3, 4] [1, 2, 3, 4] = [2, 4, 6, 8]" by simp
  then show ?thesis
    using Poly_ring_operations [OF sample_represents sample_represents refl ElemParams_eq_refl] by (simp add: sample_poly_def)
qed

theorem Poly_multiplication_pipeline_witness:
  "\<exists>p' r' s s' v T' T2 T3. Poly_SwitchFormat sample_arb sample_poly FTT_empty = Inr (p', T')
    \<and> Poly_SwitchFormat sample_arb sample_poly T' = Inr (r', T2) \<and> Poly_Times p' r' = Inr s
    \<and> Poly_SwitchFormat sample_arb s T2 = Inr (s', T3) \<and> m_values s' = Some v \<and> nv_abs v = [10, 14, 11, 3]"
proof -
  have e: "negacyclic_mult 17 2 [1, 2, 3, 4] [1, 2, 3, 4] = [10, 14, 11, 3]" by code_simp
  have f: "m_format sample_poly = COEFFICIENT" by (simp add: sample_poly_def)
  from Poly_multiplication_pipeline [OF sample_represents sample_represents f f ElemParams_eq_refl disjI1 [OF sample_missing], of sample_arb, unfolded e]
  show ?thesis by blast
qed

theorem Poly_Automorphism_correct_witness:
  "\<exists>s r. Poly_AutomorphismTransform sample_poly 3 = Inr s \<and> m_values s = Some r \<and> represents 17 2 2 s [1, 4, 14, 2]"
proof -
  have e: "auto_poly 17 2 (unat (3 :: usint)) [1, 2, 3, 4] = [1, 4, 14, 2]" by code_simp
  have o: "\<not> even (unat (3 :: usint))" "m_format sample_poly \<noteq> EVALUATION" by (simp_all add: sample_poly_def)
  have "length [0, 0, 0, 0 :: usint] = 2 ^ 2" by simp
  from Poly_Automorphism_correct [OF sample_represents this, of 3] o show ?thesis unfolding e by auto
qed

end
