(* ===== verification/Ring.thy ===== *)
theory Ring
  imports Poly
begin

text \<open>
  The ring of integer polynomials modulo \<open>x ^ 2 ^ K + 1\<close>, as coefficient lists that are not reduced modulo \<open>q\<close>: the
  accumulators of \<open>src/binfhe\<close> are described by such lists, because the size of the noise is the size of integer
  coefficients. \<open>ring_cong\<close> is equality modulo \<open>q\<close>; it is decided by the values at the roots of \<open>x ^ 2 ^ K + 1\<close>, so that an identity of the ring
  is an identity of integers modulo \<open>q\<close>. \<open>poly_is\<close> relates an object of \<open>PolyImpl\<close> to the integer polynomial it holds modulo \<open>q\<close>.
\<close>

section \<open>Integer polynomials\<close>

definition radd :: "int list \<Rightarrow> int list \<Rightarrow> int list" where
  "radd c d = map2 (+) c d"

definition rsub :: "int list \<Rightarrow> int list \<Rightarrow> int list" where
  "rsub c d = map2 (-) c d"

definition rmul :: "nat \<Rightarrow> int list \<Rightarrow> int list \<Rightarrow> int list" where
  "rmul K c d = map (negacyclic (2 ^ K) c d) [0..<2 ^ K]"

definition rzero :: "nat \<Rightarrow> int list" where
  "rzero K = replicate (2 ^ K) 0"

definition xpow :: "nat \<Rightarrow> nat \<Rightarrow> int list" where
  "xpow K e = (rzero K)[e mod 2 ^ K := (- 1) ^ (e div 2 ^ K)]"

definition rsum :: "nat \<Rightarrow> (nat \<Rightarrow> int list) \<Rightarrow> nat \<Rightarrow> int list" where
  "rsum K f n = map (\<lambda>k. \<Sum>i<n. f i ! k) [0..<2 ^ K]"

lemma length_ring [simp]:
  "length (radd c d) = min (length c) (length d)" "length (rsub c d) = min (length c) (length d)"
  "length (rmul K c d) = 2 ^ K" "length (rzero K) = 2 ^ K" "length (xpow K e) = 2 ^ K" "length (rsum K f n) = 2 ^ K"
  by (simp_all add: radd_def rsub_def rmul_def rzero_def xpow_def rsum_def)

lemma nth_ring [simp]:
  "k < length c \<Longrightarrow> k < length d \<Longrightarrow> radd c d ! k = c ! k + d ! k"
  "k < length c \<Longrightarrow> k < length d \<Longrightarrow> rsub c d ! k = c ! k - d ! k"
  "k < 2 ^ K \<Longrightarrow> rmul K c d ! k = negacyclic (2 ^ K) c d k"
  "k < 2 ^ K \<Longrightarrow> rzero K ! k = 0"
  "k < 2 ^ K \<Longrightarrow> rsum K f n ! k = (\<Sum>i<n. f i ! k)"
  by (simp_all add: radd_def rsub_def rmul_def rzero_def rsum_def)

lemma nth_xpow: "k < 2 ^ K \<Longrightarrow> xpow K e ! k = (if k = e mod 2 ^ K then (- 1) ^ (e div 2 ^ K) else 0)"
  by (simp add: xpow_def nth_list_update)

section \<open>Equality modulo the modulus\<close>

definition ring_cong :: "NativeInt \<Rightarrow> nat \<Rightarrow> int list \<Rightarrow> int list \<Rightarrow> bool" where
  "ring_cong q K c d \<longleftrightarrow> length c = 2 ^ K \<and> length d = 2 ^ K \<and> list_all2 (rcong (uint q)) c d"

definition rmod :: "NativeInt \<Rightarrow> int list \<Rightarrow> int list" where
  "rmod q c = map (\<lambda>x. x mod uint q) c"

lemma length_rmod [simp]: "length (rmod q c) = length c"
  by (simp add: rmod_def)

lemma nth_rmod [simp]: "k < length c \<Longrightarrow> rmod q c ! k = c ! k mod uint q"
  by (simp add: rmod_def)

lemma ring_cong_nth: "ring_cong q K c d \<longleftrightarrow> length c = 2 ^ K \<and> length d = 2 ^ K \<and> (\<forall>k<2 ^ K. rcong (uint q) (c ! k) (d ! k))"
  by (auto simp: ring_cong_def list_all2_conv_all_nth)

lemma ring_cong_rmod: "ring_cong q K c d \<longleftrightarrow> length c = 2 ^ K \<and> rmod q c = rmod q d"
  by (auto simp: ring_cong_nth rcong_def list_eq_iff_nth_eq)

lemma ring_cong_refl: "length c = 2 ^ K \<Longrightarrow> ring_cong q K c c"
  by (simp add: ring_cong_rmod)

lemma ring_cong_sym: "ring_cong q K c d \<Longrightarrow> ring_cong q K d c"
  by (simp add: ring_cong_rmod) (metis length_rmod)

lemma ring_cong_trans [trans]: "ring_cong q K c d \<Longrightarrow> ring_cong q K d e \<Longrightarrow> ring_cong q K c e"
  by (simp add: ring_cong_rmod)

lemma residues_rmod: "q \<noteq> 0 \<Longrightarrow> length c = 2 ^ K \<Longrightarrow> residues q K (rmod q c)"
  using uint_pos [of q] by (simp add: residues_def rmod_def list_all_iff)

lemma rmod_residues: "residues q K c \<Longrightarrow> rmod q c = c"
  by (auto simp: residues_def rmod_def list_all_iff intro!: map_idI)

lemma eval_rmod: "rcong (uint q) (poly_eval (rmod q c) z) (poly_eval c z)"
  unfolding poly_eval_def by (simp, intro rcong_sum rcong_mult) auto

lemma ring_cong_eval:
  assumes "ring_cong q K c d"
  shows "rcong (uint q) (poly_eval c z) (poly_eval d z)"
proof -
  have "rcong (uint q) (poly_eval c z) (poly_eval (rmod q c) z)" by (rule rcong_sym [OF eval_rmod])
  also have "rmod q c = rmod q d" using assms by (simp add: ring_cong_rmod)
  also have "rcong (uint q) (poly_eval (rmod q d) z) (poly_eval d z)" by (rule eval_rmod)
  finally show ?thesis .
qed

lemma evals_inject:
  assumes "ntt_params q K psi" "residues q K c" "residues q K d" "evals q K psi c = evals q K psi d"
  shows "c = d"
proof -
  obtain T where T: "FTT_missing T q (2 ^ K)" by (rule that [of FTT_empty]) (simp add: FTT_missing_def FTT_empty_def)
  obtain v w T' where v: "nv_abs v = c" "nv_abs w = evals q K psi c" "holds_vector q K w"
    "FTT_InverseTransformFromBitReverseInPlace psi (of_nat (2 ^ Suc K)) w T = Inr (v, T')"
    using FTT_switch [OF assms(1) disjI1 [OF T] assms(2)] by metis
  obtain v' w' T'' where v': "nv_abs v' = d" "nv_abs w' = evals q K psi d" "holds_vector q K w'"
    "FTT_InverseTransformFromBitReverseInPlace psi (of_nat (2 ^ Suc K)) w' T = Inr (v', T'')"
    using FTT_switch [OF assms(1) disjI1 [OF T] assms(3)] by metis
  have "w = w'" using v v' assms(4) by (intro holds_unique) simp_all
  then show ?thesis using v v' by simp
qed

text \<open>An identity of the ring holds when it holds at the roots of \<open>x ^ 2 ^ K + 1\<close> modulo \<open>q\<close>.\<close>

lemma ring_congI:
  assumes "ntt_params q K psi" "length c = 2 ^ K" "length d = 2 ^ K"
    and "\<And>z. rcong (uint q) (z ^ 2 ^ K) (- 1) \<Longrightarrow> rcong (uint q) (poly_eval c z) (poly_eval d z)"
  shows "ring_cong q K c d"
proof -
  have root: "primitive_root q K psi" using assms(1) by (simp add: ntt_params_def)
  have q: "q \<noteq> 0" using ntt_params_modulus(3) [OF assms(1)] .
  have "rcong (uint q) (poly_eval (rmod q c) z) (poly_eval (rmod q d) z)" if "rcong (uint q) (z ^ 2 ^ K) (- 1)" for z
    using rcong_trans [OF rcong_trans [OF eval_rmod assms(4) [OF that]] rcong_sym [OF eval_rmod]] .
  from this [OF odd_power_root [OF root]] have "evals q K psi (rmod q c) = evals q K psi (rmod q d)"
    unfolding evals_def rcong_def by (intro map_cong refl)
  then have "rmod q c = rmod q d" by (rule evals_inject [OF assms(1) residues_rmod [OF q assms(2)] residues_rmod [OF q assms(3)]])
  then show ?thesis using assms(2) by (simp add: ring_cong_rmod)
qed

named_theorems eval_simps "values of the polynomials of the ring"

lemma eval_radd [eval_simps]: "length c = length d \<Longrightarrow> poly_eval (radd c d) z = poly_eval c z + poly_eval d z"
  by (simp add: poly_eval_def sum.distrib [symmetric] distrib_right)

lemma eval_rsub [eval_simps]: "length c = length d \<Longrightarrow> poly_eval (rsub c d) z = poly_eval c z - poly_eval d z"
  by (simp add: poly_eval_def sum_subtractf [symmetric] left_diff_distrib)

lemma eval_rzero [eval_simps]: "poly_eval (rzero K) z = 0"
  by (simp add: poly_eval_def)

lemma eval_rsum [eval_simps]:
  assumes "\<And>i. i < n \<Longrightarrow> length (f i) = 2 ^ K"
  shows "poly_eval (rsum K f n) z = (\<Sum>i<n. poly_eval (f i) z)"
proof -
  have "poly_eval (rsum K f n) z = (\<Sum>k<2 ^ K. \<Sum>i<n. f i ! k * z ^ k)" by (simp add: poly_eval_def sum_distrib_right)
  also have "\<dots> = (\<Sum>i<n. \<Sum>k<2 ^ K. f i ! k * z ^ k)" by (rule sum.swap)
  finally show ?thesis using assms by (simp add: poly_eval_def)
qed

lemma eval_rmul:
  assumes "length c = 2 ^ K" "length d = 2 ^ K" "rcong q (z ^ 2 ^ K) (- 1)"
  shows "rcong q (poly_eval (rmul K c d) z) (poly_eval c z * poly_eval d z)"
  using negacyclic_eval [OF assms] by (simp add: poly_eval_def)

lemma eval_xpow:
  assumes "rcong q (z ^ 2 ^ K) (- 1)"
  shows "rcong q (poly_eval (xpow K e) z) (z ^ e)"
proof -
  have "poly_eval (xpow K e) z = (\<Sum>k<2 ^ K. if k = e mod 2 ^ K then (- 1) ^ (e div 2 ^ K) * z ^ k else 0)"
    unfolding poly_eval_def length_ring by (rule sum.cong) (simp_all add: nth_xpow)
  also have "\<dots> = (- 1) ^ (e div 2 ^ K) * z ^ (e mod 2 ^ K)" by (simp add: sum.delta)
  also have "rcong q \<dots> ((z ^ 2 ^ K) ^ (e div 2 ^ K) * z ^ (e mod 2 ^ K))"
    by (intro rcong_mult rcong_power rcong_sym [OF assms]) auto
  also have "(z ^ 2 ^ K) ^ (e div 2 ^ K) * z ^ (e mod 2 ^ K) = z ^ (2 ^ K * (e div 2 ^ K) + e mod 2 ^ K)" by (simp only: power_add power_mult)
  finally show ?thesis by simp
qed

section \<open>Sizes\<close>

definition rbound :: "int \<Rightarrow> int list \<Rightarrow> bool" where
  "rbound b c \<longleftrightarrow> list_all (\<lambda>x. \<bar>x\<bar> \<le> b) c"

lemma rbound_nth: "rbound b c \<longleftrightarrow> (\<forall>k<length c. \<bar>c ! k\<bar> \<le> b)"
  by (simp add: rbound_def list_all_length)

lemma rbound_mono: "rbound a c \<Longrightarrow> a \<le> b \<Longrightarrow> rbound b c"
  by (auto simp: rbound_nth intro: order_trans)

lemma rbound_add: "rbound a c \<Longrightarrow> rbound b d \<Longrightarrow> rbound (a + b) (radd c d)"
  by (auto simp: rbound_nth intro: order_trans [OF abs_triangle_ineq] add_mono)

lemma rbound_sub: "rbound a c \<Longrightarrow> rbound b d \<Longrightarrow> rbound (a + b) (rsub c d)"
  by (auto simp: rbound_nth intro: order_trans [OF abs_triangle_ineq4] add_mono)

lemma rbound_zero: "0 \<le> b \<Longrightarrow> rbound b (rzero K)"
  by (simp add: rbound_nth)

lemma rbound_sum:
  assumes "\<And>i. i < n \<Longrightarrow> rbound b (f i) \<and> length (f i) = 2 ^ K"
  shows "rbound (int n * b) (rsum K f n)"
proof -
  have "\<bar>\<Sum>i<n. f i ! k\<bar> \<le> int n * b" if "k < 2 ^ K" for k
  proof -
    have "\<bar>\<Sum>i<n. f i ! k\<bar> \<le> (\<Sum>i<n. \<bar>f i ! k\<bar>)" by (rule sum_abs)
    also have "\<dots> \<le> (\<Sum>i<n. b)" using assms that by (intro sum_mono) (auto simp: rbound_nth)
    finally show ?thesis by simp
  qed
  then show ?thesis by (simp add: rbound_nth)
qed

lemma rbound_mul:
  assumes "rbound a c" "rbound b d" "length c = 2 ^ K" "length d = 2 ^ K" "0 \<le> a"
  shows "rbound (2 ^ K * (a * b)) (rmul K c d)"
proof -
  have "\<bar>negacyclic (2 ^ K) c d k\<bar> \<le> 2 ^ K * (a * b)" if k: "k < 2 ^ K" for k
  proof -
    have "\<bar>if i \<le> k then c ! i * d ! (k - i) else - (c ! i * d ! (2 ^ K + k - i))\<bar> \<le> a * b" if "i < 2 ^ K" for i
      using assms k that by (auto simp: rbound_nth abs_mult intro!: mult_mono)
    then have "(\<Sum>i<2 ^ K. \<bar>if i \<le> k then c ! i * d ! (k - i) else - (c ! i * d ! (2 ^ K + k - i))\<bar>) \<le> (\<Sum>i<(2 :: nat) ^ K. a * b)"
      by (intro sum_mono) auto
    moreover have "\<bar>negacyclic (2 ^ K) c d k\<bar> \<le> (\<Sum>i<2 ^ K. \<bar>if i \<le> k then c ! i * d ! (k - i) else - (c ! i * d ! (2 ^ K + k - i))\<bar>)"
      unfolding negacyclic_def by (rule sum_abs)
    ultimately show ?thesis by simp
  qed
  then show ?thesis by (simp add: rbound_nth)
qed

text \<open>Multiplication by a power of \<open>x\<close> rotates the coefficients and changes signs.\<close>

lemma nth_rmul_xpow:
  assumes "k < 2 ^ K"
  shows "rmul K (xpow K e) c ! k = (- 1) ^ (e div 2 ^ K)
    * (if e mod 2 ^ K \<le> k then c ! (k - e mod 2 ^ K) else - (c ! (2 ^ K + k - e mod 2 ^ K)))"
proof -
  let ?i = "e mod 2 ^ K"
  have "rmul K (xpow K e) c ! k = (\<Sum>i<2 ^ K. if i = ?i then (- 1) ^ (e div 2 ^ K)
      * (if i \<le> k then c ! (k - i) else - (c ! (2 ^ K + k - i))) else 0)"
    using assms by (simp only: nth_ring negacyclic_def) (intro sum.cong, auto simp: nth_xpow)
  then show ?thesis by (simp add: sum.delta)
qed

lemma rbound_xpow:
  assumes "rbound b c" "length c = 2 ^ K"
  shows "rbound b (rmul K (xpow K e) c)"
  using assms by (auto simp: rbound_nth nth_rmul_xpow abs_mult power_abs simp del: nth_ring(3))

section \<open>The polynomial of an object\<close>

definition poly_is :: "NativeInt \<Rightarrow> nat \<Rightarrow> NativeInt \<Rightarrow> ILParams \<Rightarrow> Format \<Rightarrow> Poly \<Rightarrow> int list \<Rightarrow> bool" where
  "poly_is q K psi prm f p c \<longleftrightarrow> represents q K psi p (rmod q c) \<and> length c = 2 ^ K \<and> m_format p = f \<and> m_params p = prm"

definition ring_ok :: "NativeInt \<Rightarrow> nat \<Rightarrow> NativeInt \<Rightarrow> ILParams \<Rightarrow> bool" where
  "ring_ok q K psi prm \<longleftrightarrow> ntt_params q K psi \<and> ring_params q K psi prm"

lemma ring_ok_dest:
  assumes "ring_ok q K psi prm"
  shows "ntt_params q K psi" "q \<noteq> 0" "q \<le> 2 ^ 63" "0 < uint q" "ciphertextModulus prm = q" "unat (ringDimension prm) = 2 ^ K"
    "GetMSB q \<le> MAX_MODULUS_SIZE"
proof -
  show n: "ntt_params q K psi" using assms by (simp add: ring_ok_def)
  then have K: "K \<le> 24" by (simp add: ntt_params_def)
  show "q \<noteq> 0" "q \<le> 2 ^ 63" "0 < uint q" "GetMSB q \<le> MAX_MODULUS_SIZE" using ntt_params_modulus [OF n] by simp_all
  show "ciphertextModulus prm = q" using assms by (simp add: ring_ok_def ring_params_def)
  have "ringDimension prm = of_nat (2 ^ K)" using assms by (simp add: ring_ok_def ring_params_def)
  then show "unat (ringDimension prm) = 2 ^ K" by (simp only: ring_dims(1) [OF K])
qed

lemma poly_is_ok: "poly_is q K psi prm f p c \<Longrightarrow> ring_ok q K psi prm"
  by (auto simp: poly_is_def ring_ok_def represents_def)

lemma poly_is_len: "poly_is q K psi prm f p c \<Longrightarrow> length c = 2 ^ K"
  by (simp add: poly_is_def)

lemma poly_is_cong: "poly_is q K psi prm f p c \<Longrightarrow> ring_cong q K c d \<Longrightarrow> poly_is q K psi prm f p d"
  by (auto simp: poly_is_def ring_cong_rmod dest: arg_cong [of _ _ length])

lemma poly_is_unique:
  assumes "poly_is q K psi prm f p c" "poly_is q K psi prm f p d"
  shows "ring_cong q K c d"
proof -
  have r: "represents q K psi p (rmod q c)" "represents q K psi p (rmod q d)" "length c = 2 ^ K"
    using assms by (simp_all add: poly_is_def)
  obtain v where v: "m_values p = Some v" "nv_abs v = format_values q K psi (m_format p) (rmod q c)" "ntt_params q K psi"
    "residues q K (rmod q c)" using representsE [OF r(1)] .
  obtain w where w: "m_values p = Some w" "nv_abs w = format_values q K psi (m_format p) (rmod q d)"
    "residues q K (rmod q d)" using representsE [OF r(2)] .
  have e: "format_values q K psi (m_format p) (rmod q c) = format_values q K psi (m_format p) (rmod q d)" using v w by simp
  have "rmod q c = rmod q d"
  proof (cases "m_format p")
    case EVALUATION
    then show ?thesis using e evals_inject [OF v(3,4) w(3)] by (simp add: format_values_def)
  qed (use e in \<open>simp add: format_values_def\<close>)
  then show ?thesis using r(3) by (simp add: ring_cong_rmod)
qed

lemma rmod_radd: "length c = length d \<Longrightarrow> map2 (\<lambda>x y. (x + y) mod uint q) (rmod q c) (rmod q d) = rmod q (radd c d)"
  by (intro nth_equalityI) (simp_all add: mod_add_eq)

lemma rmod_rmul:
  assumes "length c = 2 ^ K" "length d = 2 ^ K"
  shows "negacyclic_mult q K (rmod q c) (rmod q d) = rmod q (rmul K c d)"
proof -
  have "rcong (uint q) (negacyclic (2 ^ K) (rmod q c) (rmod q d) k) (negacyclic (2 ^ K) c d k)" if "k < 2 ^ K" for k
    unfolding negacyclic_def
  proof (rule rcong_sum)
    fix i :: nat assume i: "i \<in> {..<2 ^ K}"
    have m: "rcong (uint q) (rmod q c ! i) (c ! i)" "rcong (uint q) (rmod q d ! j) (d ! j)" if "j < 2 ^ K" for j
      using i that assms by simp_all
    show "rcong (uint q) (if i \<le> k then rmod q c ! i * rmod q d ! (k - i) else - (rmod q c ! i * rmod q d ! (2 ^ K + k - i)))
        (if i \<le> k then c ! i * d ! (k - i) else - (c ! i * d ! (2 ^ K + k - i)))"
      using i that by (simp only: split: if_split) (intro conjI impI rcong_minus rcong_mult m, auto)
  qed
  then show ?thesis by (intro nth_equalityI) (simp_all add: negacyclic_mult_def rcong_def)
qed

lemma poly_is_PlusEq:
  assumes "poly_is q K psi prm f p c" "poly_is q K psi prm f r d"
  shows "\<exists>s. Poly_PlusEq p r = Inr s \<and> poly_is q K psi prm f s (radd c d)"
proof -
  have p: "represents q K psi p (rmod q c)" "represents q K psi r (rmod q d)" "m_format p = m_format r" "m_format p = f"
      "m_params p = m_params r" "m_params p = prm" "length c = 2 ^ K" "length d = 2 ^ K"
    using assms by (simp_all add: poly_is_def)
  have "ElemParams_eq (m_params p) (m_params r)" unfolding p(5) by (rule ElemParams_eq_refl)
  from PlusEq.represents_oper [OF p(1-3) this] show ?thesis
    using p(4,6-8) by (auto simp: rmod_radd poly_is_def)
qed

lemma poly_is_Times:
  assumes "poly_is q K psi prm EVALUATION p c" "poly_is q K psi prm EVALUATION r d"
  shows "\<exists>s. Poly_Times p r = Inr s \<and> Poly_TimesEq p r = Inr s \<and> poly_is q K psi prm EVALUATION s (rmul K c d)"
proof -
  have p: "represents q K psi p (rmod q c)" "represents q K psi r (rmod q d)" "m_format p = EVALUATION" "m_format r = EVALUATION"
      "m_params p = m_params r" "m_params p = prm" "length c = 2 ^ K" "length d = 2 ^ K"
    using assms by (simp_all add: poly_is_def)
  have "ElemParams_eq (m_params p) (m_params r)" unfolding p(5) by (rule ElemParams_eq_refl)
  from Times_represents [OF p(1-4) this] show ?thesis
    using p(6-8) by (auto simp: rmod_rmul poly_is_def)
qed

definition tables_ok :: "NativeInt \<Rightarrow> nat \<Rightarrow> NativeInt \<Rightarrow> FTTTables \<Rightarrow> bool" where
  "tables_ok q K psi T \<longleftrightarrow> FTT_missing T q (2 ^ K) \<or> FTT_ready T q K psi"

lemma poly_is_SetFormat:
  assumes "poly_is q K psi prm f p c" "tables_ok q K psi T"
  shows "\<exists>p' T'. Poly_SetFormat arb p f' T = Inr (p', T') \<and> tables_ok q K psi T' \<and> poly_is q K psi prm f' p' c"
proof (cases "f = f'")
  case True
  then show ?thesis using assms by (auto simp: Poly_SetFormat_def Poly_GetFormat_def poly_is_def)
next
  case False
  then have o: "other_format f = f'" by (cases f; cases f') (simp_all add: other_format_def)
  have p: "represents q K psi p (rmod q c)" "length c = 2 ^ K" "m_format p = f" "m_params p = prm" using assms(1) by (simp_all add: poly_is_def)
  obtain p' T' where "Poly_SwitchFormat arb p T = Inr (p', T')" "FTT_ready T' q K psi" "represents q K psi p' (rmod q c)"
      "m_format p' = other_format (m_format p)" "m_params p' = m_params p"
    using SwitchFormat_represents [OF p(1) assms(2) [unfolded tables_ok_def]] by blast
  then show ?thesis using p o False by (simp add: Poly_SetFormat_def Poly_GetFormat_def poly_is_def tables_ok_def)
qed

lemma evals_rzero: "evals q K psi (rzero K) = rzero K"
  by (intro nth_equalityI) (simp_all add: evals_def eval_rzero)

lemma zero_vector_holds:
  assumes "ring_ok q K psi prm"
  shows "holds_vector q K \<lparr>m_data = replicate (2 ^ K) 0, m_modulus = q\<rparr>"
  using ring_ok_dest [OF assms] by (simp add: holds_vector_def nv_wf_def NV_GetLength_def list_all_length word_greater_zero_iff)

lemma poly_is_zero:
  assumes "ring_ok q K psi prm" "m_params p = prm"
  shows "\<exists>p'. Poly_SetValuesToZero p = Inr p' \<and> poly_is q K psi prm (m_format p) p' (rzero K)"
proof -
  note r = ring_ok_dest [OF assms(1)]
  have z: "rmod q (rzero K) = rzero K" by (intro nth_equalityI) simp_all
  have "residues q K (rzero K)" using residues_rmod [OF r(2), of "rzero K" K] by (simp add: z)
  then show ?thesis using assms zero_vector_holds [OF assms(1)] NV_new_ok [OF r(7)]
    by (simp add: Poly_SetValuesToZero_def r(5,6) poly_is_def z represents_def ring_ok_def format_values_def evals_rzero nv_abs_def
        split: Format.split) (simp add: rzero_def)
qed

lemma poly_is_new:
  assumes "ring_ok q K psi prm"
  shows "\<exists>p. Poly_new prm f True = Inr p \<and> poly_is q K psi prm f p (rzero K)"
  using poly_is_zero [OF assms, of "\<lparr>m_values = None, m_format = f, m_params = prm\<rparr>"] by (simp add: Poly_new_def)

lemma poly_is_coef:
  assumes "poly_is q K psi prm COEFFICIENT p c"
  obtains v where "m_values p = Some v" "holds_vector q K v" "nv_abs v = rmod q c"
proof -
  have r: "represents q K psi p (rmod q c)" "m_format p = COEFFICIENT" using assms by (simp_all add: poly_is_def)
  then show ?thesis using representsE [OF r(1)] that by (metis Format.simps(4) format_values_def)
qed

lemma poly_isI_coef:
  assumes "ring_ok q K psi prm" "holds_vector q K v" "nv_abs v = rmod q c" "length c = 2 ^ K"
  shows "poly_is q K psi prm COEFFICIENT \<lparr>m_values = Some v, m_format = COEFFICIENT, m_params = prm\<rparr> c"
  using assms residues_rmod [OF ring_ok_dest(2) [OF assms(1)] assms(4)]
  by (simp add: poly_is_def represents_def ring_ok_def format_values_def)

text \<open>A sampled vector, which the constructor of a polynomial takes over with the modulus of its parameters.\<close>

definition sampled :: "NativeInt \<Rightarrow> nat \<Rightarrow> NativeVector \<Rightarrow> int list \<Rightarrow> bool" where
  "sampled q K v c \<longleftrightarrow> length c = 2 ^ K \<and> nv_abs v = rmod q c"

lemma poly_is_generator:
  assumes "ring_ok q K psi prm" "sampled q K v c" "tables_ok q K psi T"
  shows "\<exists>p. Poly_of_generator arb v prm COEFFICIENT T = Inr (p, T) \<and> poly_is q K psi prm COEFFICIENT p c"
proof -
  note r = ring_ok_dest [OF assms(1)]
  have v: "length c = 2 ^ K" "nv_abs v = rmod q c" using assms(2) by (simp_all add: sampled_def)
  have len: "length (m_data v) = 2 ^ K" using arg_cong [OF v(2), of length] v(1) by (simp add: nv_abs_def)
  have "uint (m_data v ! k) = c ! k mod uint q" if "k < 2 ^ K" for k
    using arg_cong [OF v(2), of "\<lambda>xs. xs ! k"] v(1) len that by (simp add: nv_abs_def)
  then have "holds_vector q K (v\<lparr>m_modulus := q\<rparr>)"
    using r len by (simp add: holds_vector_def nv_wf_def NV_GetLength_def list_all_length word_less_def)
  moreover have "nv_abs (v\<lparr>m_modulus := q\<rparr>) = rmod q c" using v(2) by (simp add: nv_abs_def)
  ultimately show ?thesis using r(5,7) poly_isI_coef [OF assms(1) _ _ v(1)]
    by (simp add: Poly_of_generator_def NV_SetModulus_def Poly_SetFormat_def Poly_GetFormat_def)
qed

lemma poly_is_exists:
  assumes "ring_ok q K psi prm" "length c = 2 ^ K"
  shows "\<exists>p. poly_is q K psi prm f p c"
proof -
  note n = ring_ok_dest [OF assms(1)]
  have "residues q K (rmod q c)" by (rule residues_rmod [OF n(2) assms(2)])
  from vec_of_holds [OF n(1) this] have p: "poly_is q K psi prm COEFFICIENT \<lparr>m_values = Some (vec_of q (rmod q c)), m_format = COEFFICIENT, m_params = prm\<rparr> c"
    by (intro poly_isI_coef assms)
  have "tables_ok q K psi FTT_empty" by (simp add: tables_ok_def FTT_missing_def FTT_empty_def)
  from poly_is_SetFormat [OF p this] show ?thesis by blast
qed

end
