(* ===== verification/Double.thy ===== *)
theory Double
  imports NbBits
begin

text \<open>
  The floating-point arithmetic the sources compute with: the C++ type \<open>double\<close> is the IEEE 754 binary64 format
  in the rounding mode to nearest, ties to even. A finite non-negative double is a rational number here, and each
  arithmetic operation is the exact one on rationals followed by \<open>to_double\<close>. The numbers of the sources that use it are 0 or
  between \<open>2 ^ -64\<close> and \<open>2 ^ 128\<close>, far from overflow and from the subnormal numbers, which are not modelled.
\<close>

section \<open>Rounding to 53 bits\<close>

text \<open>The position of the leading bit of a positive number.\<close>

definition double_exp :: "rat \<Rightarrow> int" where
  "double_exp x =
     (let (n, d) = quotient_of x; e = bitlen n - bitlen d - 1
      in if x < 2 powi (e + 1) then e else e + 1)"

definition round_even :: "rat \<Rightarrow> int" where
  "round_even y =
     (let n = \<lfloor>y\<rfloor>; r = y - of_int n
      in if r < 1 / 2 then n else if r > 1 / 2 then n + 1 else if even n then n else n + 1)"

definition to_double :: "rat \<Rightarrow> rat" where
  "to_double x =
     (if x = 0 then 0
      else let e = double_exp x - 52 in of_int (round_even (x / 2 powi e)) * 2 powi e)"

definition d_mult :: "rat \<Rightarrow> rat \<Rightarrow> rat" where
  "d_mult x y = to_double (x * y)"

definition d_div :: "rat \<Rightarrow> rat \<Rightarrow> rat" where
  "d_div x y = to_double (x / y)"

definition d_add :: "rat \<Rightarrow> rat \<Rightarrow> rat" where
  "d_add x y = to_double (x + y)"

section \<open>Rounding keeps the order to the points of the grid\<close>

lemma round_even_mono: "of_int k \<le> y \<Longrightarrow> k \<le> round_even y" "y \<le> of_int k \<Longrightarrow> round_even y \<le> k"
proof -
  assume "of_int k \<le> y"
  then have "k \<le> \<lfloor>y\<rfloor>" by (simp add: le_floor_iff)
  then show "k \<le> round_even y" by (simp add: round_even_def Let_def)
next
  assume y: "y \<le> of_int k"
  show "round_even y \<le> k"
  proof (cases "y = of_int k")
    case True
    then show ?thesis by (simp add: round_even_def)
  next
    case False
    then have "\<lfloor>y\<rfloor> < k" using y by (simp add: floor_less_iff)
    then show ?thesis by (simp add: round_even_def Let_def)
  qed
qed

lemma round_even_of_int [simp]: "round_even (of_int k) = k"
  by (simp add: round_even_def)

lemma round_even_error: "\<bar>of_int (round_even y) - y\<bar> \<le> 1 / 2"
proof -
  have "of_int \<lfloor>y\<rfloor> \<le> y" "y < of_int \<lfloor>y\<rfloor> + 1" using floor_correct [of y] by auto
  then show ?thesis by (auto simp: round_even_def Let_def)
qed

lemma double_exp_bounds:
  assumes "0 < x"
  shows "2 powi double_exp x \<le> x" "x < 2 powi (double_exp x + 1)"
proof -
  obtain n d where nd: "quotient_of x = (n, d)" by fastforce
  have d: "0 < d" using quotient_of_denom_pos [OF nd] .
  have x: "x = of_int n / of_int d" using quotient_of_div [OF nd] .
  have n: "0 < n" using assms d by (simp add: x zero_less_divide_iff)
  define bn bd where "bn = bitlen n" and "bd = bitlen d"
  have pos: "1 \<le> bn" "1 \<le> bd" using n d by (simp_all add: bn_def bd_def bitlen_alt_def)
  have pw: "(2 :: rat) powi k = 2 ^ nat k" if "0 \<le> k" for k using that by (simp add: power_int_def)
  have "of_int (2 ^ nat (bn - 1)) \<le> (of_int n :: rat)" "(of_int n :: rat) < of_int (2 ^ nat bn)"
    using bitlen_bounds [OF n] unfolding of_int_le_iff of_int_less_iff bn_def by auto
  then have bn: "2 powi (bn - 1) \<le> (of_int n :: rat)" "(of_int n :: rat) < 2 powi bn"
    using pos by (simp_all add: pw)
  have "of_int (2 ^ nat (bd - 1)) \<le> (of_int d :: rat)" "(of_int d :: rat) < of_int (2 ^ nat bd)"
    using bitlen_bounds [OF d] unfolding of_int_le_iff of_int_less_iff bd_def by auto
  then have bd: "2 powi (bd - 1) \<le> (of_int d :: rat)" "(of_int d :: rat) < 2 powi bd"
    using pos by (simp_all add: pw)
  have low: "2 powi (bn - bd - 1) \<le> x"
  proof -
    have "2 powi (bn - bd - 1) * of_int d \<le> 2 powi (bn - bd - 1) * (2 powi bd :: rat)"
      using bd(2) by (intro mult_left_mono) auto
    also have "\<dots> = 2 powi (bn - 1)" by (simp flip: power_int_add)
    finally show ?thesis using bn(1) d by (simp add: x pos_le_divide_eq)
  qed
  have high: "x < 2 powi (bn - bd + 1)"
  proof -
    have "(2 powi bn :: rat) = 2 powi (bn - bd + 1) * 2 powi (bd - 1)" by (simp flip: power_int_add)
    also have "\<dots> \<le> 2 powi (bn - bd + 1) * of_int d" using bd(1) by (intro mult_left_mono) auto
    finally show ?thesis using bn(2) d by (simp add: x pos_divide_less_eq)
  qed
  have e: "double_exp x = (if x < 2 powi (bn - bd) then bn - bd - 1 else bn - bd)"
    by (simp add: double_exp_def nd Let_def bn_def bd_def)
  show "2 powi double_exp x \<le> x" "x < 2 powi (double_exp x + 1)"
    using low high by (simp_all add: e not_less)
qed

lemma to_double_grid:
  assumes "0 < x" "x < 2 powi (g + 53)"
  shows "of_int k * 2 powi g \<le> x \<Longrightarrow> of_int k * 2 powi g \<le> to_double x"
    and "x \<le> of_int k * 2 powi g \<Longrightarrow> to_double x \<le> of_int k * 2 powi g"
proof -
  define e where "e = double_exp x - 52"
  have "(2 :: rat) powi double_exp x < 2 powi (g + 53)"
    using double_exp_bounds(1) [OF assms(1)] assms(2) by (rule le_less_trans)
  then have "double_exp x < g + 53" using power_int_increasing [of "g + 53" "double_exp x" "2 :: rat"] by (intro not_le_imp_less) auto
  then have "e \<le> g" by (simp add: e_def)
  then have g: "(2 :: rat) powi g = of_int (2 ^ nat (g - e)) * 2 powi e"
    using power_int_add [of "2 :: rat" "g - e" e] by (simp add: power_int_def [of _ "g - e"])
  have grid: "of_int k * (2 :: rat) powi g = of_int (k * 2 ^ nat (g - e)) * 2 powi e"
    by (simp only: g of_int_mult mult.assoc)
  have fl: "to_double x = of_int (round_even (x / 2 powi e)) * 2 powi e"
    using assms(1) by (simp add: to_double_def e_def Let_def)
  have pos: "(0 :: rat) < 2 powi e" by simp
  show "of_int k * 2 powi g \<le> to_double x" if "of_int k * 2 powi g \<le> x"
  proof -
    have "of_int (k * 2 ^ nat (g - e)) \<le> x / 2 powi e" using that pos by (simp only: grid pos_le_divide_eq)
    then have "k * 2 ^ nat (g - e) \<le> round_even (x / 2 powi e)" by (rule round_even_mono)
    then show ?thesis unfolding grid fl using pos by (intro mult_right_mono) (simp_all only: of_int_le_iff less_imp_le)
  qed
  show "to_double x \<le> of_int k * 2 powi g" if "x \<le> of_int k * 2 powi g"
  proof -
    have "x / 2 powi e \<le> of_int (k * 2 ^ nat (g - e))" using that pos by (simp only: grid pos_divide_le_eq)
    then have "round_even (x / 2 powi e) \<le> k * 2 ^ nat (g - e)" by (rule round_even_mono)
    then show ?thesis unfolding grid fl using pos by (intro mult_right_mono) (simp_all only: of_int_le_iff less_imp_le)
  qed
qed

lemma to_double_of_int:
  assumes "0 \<le> k" "k < 2 ^ 53"
  shows "to_double (of_int k) = of_int k"
proof (cases "k = 0")
  case False
  have "(of_int k :: rat) < of_int (2 ^ 53)" using assms(2) by (simp only: of_int_less_iff)
  then have "(of_int k :: rat) < 2 powi (0 + 53)" by simp
  moreover have "(0 :: rat) < of_int k" using False assms(1) by simp
  ultimately show ?thesis using to_double_grid [of "of_int k" 0 k] by (intro antisym) simp_all
qed (simp add: to_double_def)

text \<open>The relative error of one rounding.\<close>

lemma to_double_error:
  assumes "0 \<le> x"
  shows "\<bar>to_double x - x\<bar> \<le> x / 2 ^ 53"
proof (cases "x = 0")
  case False
  then have x: "0 < x" using assms by simp
  define e where "e = double_exp x - 52"
  have p: "(0 :: rat) < 2 powi e" by simp
  have "to_double x - x = (of_int (round_even (x / 2 powi e)) - x / 2 powi e) * 2 powi e"
    using False by (simp add: to_double_def e_def Let_def left_diff_distrib)
  then have "\<bar>to_double x - x\<bar> = \<bar>of_int (round_even (x / 2 powi e)) - x / 2 powi e\<bar> * 2 powi e"
    by (simp only: abs_mult abs_of_pos [OF p])
  also have "\<dots> \<le> 1 / 2 * 2 powi e" using round_even_error p by (intro mult_right_mono) auto
  also have "\<dots> = 2 powi double_exp x / 2 ^ 53" by (simp add: e_def power_int_diff)
  also have "\<dots> \<le> x / 2 ^ 53" using double_exp_bounds(1) [OF x] by (intro divide_right_mono) auto
  finally show ?thesis .
qed (simp add: to_double_def)

lemma to_double_bounds:
  assumes "0 \<le> x"
  shows "0 \<le> to_double x" "to_double x \<le> x + x / 2 ^ 53"
proof -
  define t where "t = x / 2 ^ 53"
  have "t \<le> x" using assms by (simp add: t_def divide_le_eq)
  moreover have "\<bar>to_double x - x\<bar> \<le> t" using to_double_error [OF assms] by (simp only: t_def)
  ultimately show "0 \<le> to_double x" "to_double x \<le> x + x / 2 ^ 53" unfolding t_def [symmetric] by linarith+
qed

lemma two_roundings:
  fixes x y d k q :: rat
  assumes "y \<le> x + x / 2 ^ 53" "x \<le> k + 1 / 2 - d" "x < q" "q \<le> 2 ^ 50"
  shows "1 / 2 + y + (1 / 2 + y) / 2 ^ 53 < k + 1 - d + (2 * q + 2) / 2 ^ 53"
proof -
  have "y * 2 ^ 53 \<le> x * (2 ^ 53 + 1)" using assms(1) by (simp add: field_simps)
  then have "y * 2 ^ 53 * (2 ^ 53 + 1) \<le> x * (2 ^ 53 + 1) * (2 ^ 53 + 1)" by (intro mult_right_mono) auto
  then have "1 / 2 * (2 ^ 53 + 1) * 2 ^ 53 + y * 2 ^ 53 * (2 ^ 53 + 1) < (k + 1 - d) * 2 ^ 53 * 2 ^ 53 + (2 * q + 2) * 2 ^ 53"
    using assms(2-4) by simp
  then show ?thesis by (simp add: field_simps)
qed

text \<open>
  Scaling and rounding to the nearest integer, \<open>floor (0.5 + v * q / Q)\<close>, is exact in doubles when the product of the
  moduli has at most 50 bits: the quotient is then too far from the next half for the roundings to reach it.
\<close>

definition d_scale :: "int \<Rightarrow> int \<Rightarrow> int \<Rightarrow> int" where
  "d_scale v q Q =
     \<lfloor>d_add (1 / 2) (d_div (d_mult (to_double (of_int v)) (to_double (of_int q))) (to_double (of_int Q)))\<rfloor>"

lemma d_scale_exact:
  assumes "0 \<le> v" "v < Q" "0 < q" "q * Q \<le> 2 ^ 50"
  shows "d_scale v q Q = (2 * v * q + Q) div (2 * Q)"
proof -
  define x :: rat where "x = of_int (v * q) / of_int Q"
  define y where "y = to_double x"
  define k where "k = (2 * v * q + Q) div (2 * Q)"
  have Q: "0 < Q" using assms by simp
  have "1 * Q \<le> q * Q" "q * 1 \<le> q * Q" using assms Q by (intro mult_mono; simp)+
  then have small: "Q \<le> 2 ^ 50" "q \<le> 2 ^ 50" using assms(4) by linarith+
  have vq: "0 \<le> v * q" "v * q < 2 ^ 50"
  proof -
    have "v * q < Q * q" using assms by (intro mult_strict_right_mono)
    then show "v * q < 2 ^ 50" using assms(4) by (simp add: mult.commute)
  qed (use assms in simp)
  have ints: "to_double (of_int v) = of_int v" "to_double (of_int q) = of_int q" "to_double (of_int Q) = of_int Q"
    "to_double (of_int v * of_int q) = of_int v * of_int q"
    using to_double_of_int [of v] to_double_of_int [of q] to_double_of_int [of Q] to_double_of_int [of "v * q"] assms small vq
    by simp_all
  have sc: "d_scale v q Q = \<lfloor>to_double (1 / 2 + y)\<rfloor>"
    by (simp add: d_scale_def d_add_def d_div_def d_mult_def ints y_def x_def)
  have x0: "0 \<le> x" "x < of_int q"
  proof -
    show "0 \<le> x" unfolding x_def using vq(1) Q by (intro divide_nonneg_pos) (simp_all only: of_int_0_le_iff of_int_0_less_iff)
    have "of_int (v * q) < (of_int (q * Q) :: rat)" using assms by (simp only: of_int_less_iff mult.commute [of q]) simp
    then show "x < of_int q" using Q by (simp add: x_def pos_divide_less_eq)
  qed
  have q50: "(of_int q :: rat) \<le> 2 ^ 50"
    using small(2) by (metis of_int_le_iff of_int_numeral of_int_power)
  have k: "of_int (2 * k - 1) * of_int Q \<le> (of_int (2 * v * q) :: rat)" "(of_int (2 * v * q) :: rat) \<le> of_int ((2 * k + 1) * Q - 1)"
  proof -
    define r where "r = (2 * v * q + Q) mod (2 * Q)"
    have "2 * v * q + Q = k * (2 * Q) + r" by (simp only: k_def r_def div_mult_mod_eq)
    moreover have "0 \<le> r" "r < 2 * Q" using Q by (simp_all add: r_def)
    ultimately show "of_int (2 * k - 1) * of_int Q \<le> (of_int (2 * v * q) :: rat)" "(of_int (2 * v * q) :: rat) \<le> of_int ((2 * k + 1) * Q - 1)"
      unfolding of_int_mult [symmetric] of_int_le_iff by (simp_all add: algebra_simps)
  qed
  have lower: "of_int k \<le> to_double (1 / 2 + y)"
  proof -
    have "of_int (2 * k - 1) * 2 powi (- 1) \<le> x" using k(1) Q by (simp add: x_def power_int_minus field_simps)
    then have "of_int (2 * k - 1) * 2 powi (- 1) \<le> y"
      using to_double_grid(1) [of x "- 1" "2 * k - 1"] x0 q50 by (cases "x = 0") (auto simp: y_def to_double_def)
    then have "of_int k * 2 powi 0 \<le> 1 / 2 + y" by (simp add: power_int_minus algebra_simps)
    moreover have "0 \<le> y" "y \<le> 2 * 2 ^ 50" using to_double_bounds [OF x0(1)] x0 q50 by (simp_all add: y_def)
    ultimately show ?thesis using to_double_grid(1) [of "1 / 2 + y" 0 k] by simp
  qed
  have upper: "to_double (1 / 2 + y) < of_int k + 1"
  proof -
    have x: "x \<le> of_int k + 1 / 2 - 1 / of_int (2 * Q)"
      using k(2) Q by (simp add: x_def field_simps)
    have y: "0 \<le> y" "y \<le> x + x / 2 ^ 53" using to_double_bounds [OF x0(1)] by (simp_all only: y_def)
    have s: "to_double (1 / 2 + y) \<le> 1 / 2 + y + (1 / 2 + y) / 2 ^ 53" using to_double_bounds(2) [of "1 / 2 + y"] y(1) by simp
    have "1 / 2 + y + (1 / 2 + y) / 2 ^ 53 < of_int k + 1 - 1 / of_int (2 * Q) + (2 * of_int q + 2) / 2 ^ 53"
      by (rule two_roundings [OF y(2) x x0(2) q50])
    moreover have "(2 * of_int q + 2) / 2 ^ 53 \<le> (1 / of_int (2 * Q) :: rat)"
    proof -
      have "(2 * q + 2) * (2 * Q) \<le> 2 ^ 53" using assms(3,4) \<open>1 * Q \<le> q * Q\<close> by (simp add: algebra_simps)
      then have "of_int ((2 * q + 2) * (2 * Q)) \<le> (of_int (2 ^ 53) :: rat)" by (simp only: of_int_le_iff)
      then show ?thesis using Q by (simp add: field_simps)
    qed
    ultimately show ?thesis using s by linarith
  qed
  show ?thesis unfolding sc k_def [symmetric] using lower upper by (intro floor_unique) auto
qed

end
