(* ===== verification/LWE.thy ===== *)
theory LWE
  imports Poly Double
begin

text \<open>
  The additive LWE scheme of \<open>src/binfhe/lib/lwe-pke.cpp\<close> with the classes of \<open>lwe-ciphertext.h\<close>,
  \<open>lwe-privatekey.h\<close>, \<open>lwe-keyswitchkey.h\<close> and \<open>lwe-cryptoparameters.h\<close>: encryption and decryption, the homomorphic operations,
  modulus switching (in doubles) and key switching. The prefix \<open>LWE_\<close> marks a method.

  The samples of the Gaussian and the uniform generator are arguments, in the place where the code draws them. The number
  of digits to the base \<open>baseKS\<close> is computed in the source by the C library's logarithm, whose last bits are not
  specified: it is the parameter \<open>dcount\<close>, and key switching relies on \<open>qKS \<le> baseKS ^ dcount qKS baseKS\<close>.
\<close>

section \<open>Keys, ciphertexts and parameters\<close>

record LWEPrivateKey =
  m_s :: NativeVector

record LWECiphertext =
  m_a :: NativeVector
  m_b :: NativeInt

record LWESwitchingKey =
  m_keyA :: "NativeVector list list list"
  m_keyB :: "NativeInt list list list"

record LWECryptoParams =
  m_n :: usint
  m_N :: usint
  m_q :: NativeInt
  m_Q :: NativeInt
  m_qKS :: NativeInt
  m_baseKS :: usint

definition LWECryptoParams_new :: "usint \<Rightarrow> usint \<Rightarrow> NativeInt \<Rightarrow> NativeInt \<Rightarrow> NativeInt \<Rightarrow> usint \<Rightarrow> LWECryptoParams result" where
  "LWECryptoParams_new n N q Q q_KS baseKS =
     (if GetMSB Q > MAX_MODULUS_SIZE then Inl config_error
      else Inr \<lparr>m_n = n, m_N = N, m_q = q, m_Q = Q, m_qKS = q_KS, m_baseKS = baseKS\<rparr>)"

definition LWE_GetModulus :: "LWECiphertext \<Rightarrow> NativeInt" where
  "LWE_GetModulus ct = NV_GetModulus (m_a ct)"

definition LWE_GetLength :: "LWECiphertext \<Rightarrow> nat" where
  "LWE_GetLength ct = NV_GetLength (m_a ct)"

definition LWE_SetModulus :: "LWECiphertext \<Rightarrow> NativeInt \<Rightarrow> LWECiphertext result" where
  "LWE_SetModulus ct md =
     res_bind (NV_SetModulus (NV_ModEq (m_a ct) md) md) (\<lambda>a. Inr (ct\<lparr>m_a := a, m_b := ModEq (m_b ct) md\<rparr>))"

section \<open>Encryption and decryption\<close>

text \<open>The loop \<open>b += a[i].ModMulFast(s[i], mod, mu)\<close> that encryption, decryption and key generation share.\<close>

definition add_products :: "nat \<Rightarrow> NativeVector \<Rightarrow> NativeVector \<Rightarrow> NativeInt \<Rightarrow> NativeInt \<Rightarrow> NativeInt result" where
  "add_products n a s md b =
     (let mu = ComputeMu md
      in res_range 0 n
           (\<lambda>i b. res_bind (vec_get a i) (\<lambda>x. res_bind (vec_get s i) (\<lambda>y.
              Inr (AddEqFast b (ModMulFast_mu x y md mu))))) b)"

text \<open>
  \<open>noise\<close> is the integer of the Gaussian generator, \<open>a\<close> the vector of the uniform one. The condition of the guard is
  written as the source has it: \<open>mod & (1 == 0)\<close>.
\<close>

definition LWE_Encrypt :: "NativeInt \<Rightarrow> NativeVector \<Rightarrow> LWEPrivateKey \<Rightarrow> int \<Rightarrow> NativeInt \<Rightarrow> NativeInt \<Rightarrow> LWECiphertext result" where
  "LWE_Encrypt noise a sk m p md =
     (if p = 0 then Inl div_by_zero
      else if Mod md p \<noteq> 0 \<and> md AND (if (1 :: int) = 0 then 1 else 0) \<noteq> 0 then Inl not_implemented_error
      else res_bind (NV_SwitchModulus (m_s sk) md) (\<lambda>s.
           res_bind (DividedBy md p) (\<lambda>delta.
           let n = NV_GetLength s;
               b = AddFast (MulFast (word_of_int m mod p) delta) noise
           in res_bind (add_products n a s md b) (\<lambda>b.
              Inr \<lparr>m_a = a, m_b = ModEq b md\<rparr>))))"

definition LWE_Decrypt :: "LWEPrivateKey \<Rightarrow> LWECiphertext \<Rightarrow> NativeInt \<Rightarrow> int result" where
  "LWE_Decrypt sk ct p =
     (let md = LWE_GetModulus ct
      in if p * 2 = 0 then Inl div_by_zero
         else if Mod md (p * 2) \<noteq> 0 \<and> md AND (if (1 :: int) = 0 then 1 else 0) \<noteq> 0 then Inl not_implemented_error
         else let a = m_a ct; s = m_s sk; n = NV_GetLength s
              in res_bind (NV_SwitchModulus s md) (\<lambda>s.
                 res_bind (add_products n a s md 0) (\<lambda>inner.
                 let inner = ModEq inner md;
                     r = ModSubFastEq (m_b ct) inner md
                 in res_bind (DividedBy md (p * 2)) (\<lambda>half.
                    let r = ModAddFastEq r half md
                    in res_bind (DividedBy (MulFast p r) md) (\<lambda>x. Inr (sint x))))))"

definition LWE_NoiselessEmbedding :: "LWECryptoParams \<Rightarrow> int \<Rightarrow> LWECiphertext result" where
  "LWE_NoiselessEmbedding params m =
     (let q = m_q params; n = unat (m_n params)
      in res_bind (NV_new n q) (\<lambda>a.
         res_bind (res_range 0 n (\<lambda>i a. vec_set a i 0) a) (\<lambda>a.
         let b = MulFast (word_of_int m) (RShift q 2)
         in Inr \<lparr>m_a = a, m_b = b\<rparr>)))"

section \<open>Homomorphic operations\<close>

definition LWE_EvalAddEq :: "LWECiphertext \<Rightarrow> LWECiphertext \<Rightarrow> LWECiphertext result" where
  "LWE_EvalAddEq ct1 ct2 =
     res_bind (NV_ModAddEq (m_a ct1) (m_a ct2)) (\<lambda>a.
       let ct1 = ct1\<lparr>m_a := a\<rparr> in Inr (ct1\<lparr>m_b := ModAddFastEq (m_b ct1) (m_b ct2) (LWE_GetModulus ct1)\<rparr>))"

definition LWE_EvalAddConstEq :: "LWECiphertext \<Rightarrow> NativeInt \<Rightarrow> LWECiphertext" where
  "LWE_EvalAddConstEq ct cnst = ct\<lparr>m_b := ModAddFastEq (m_b ct) cnst (LWE_GetModulus ct)\<rparr>"

definition LWE_EvalSubEq :: "LWECiphertext \<Rightarrow> LWECiphertext \<Rightarrow> LWECiphertext result" where
  "LWE_EvalSubEq ct1 ct2 =
     res_bind (NV_ModSubEq (m_a ct1) (m_a ct2)) (\<lambda>a.
       let ct1 = ct1\<lparr>m_a := a\<rparr> in Inr (ct1\<lparr>m_b := ModSubFastEq (m_b ct1) (m_b ct2) (LWE_GetModulus ct1)\<rparr>))"

text \<open>The result goes to the second operand.\<close>

definition LWE_EvalSubEq2 :: "LWECiphertext \<Rightarrow> LWECiphertext \<Rightarrow> LWECiphertext result" where
  "LWE_EvalSubEq2 ct1 ct2 =
     res_bind (NV_ModSub (m_a ct1) (m_a ct2)) (\<lambda>a.
       let ct2 = ct2\<lparr>m_a := a\<rparr> in Inr (ct2\<lparr>m_b := ModSubFast (m_b ct1) (m_b ct2) (LWE_GetModulus ct1)\<rparr>))"

definition LWE_EvalSubConstEq :: "LWECiphertext \<Rightarrow> NativeInt \<Rightarrow> LWECiphertext" where
  "LWE_EvalSubConstEq ct cnst = ct\<lparr>m_b := ModSubFastEq (m_b ct) cnst (LWE_GetModulus ct)\<rparr>"

definition LWE_EvalMultConstEq :: "LWECiphertext \<Rightarrow> NativeInt \<Rightarrow> LWECiphertext" where
  "LWE_EvalMultConstEq ct1 cnst =
     (let ct1 = ct1\<lparr>m_a := NV_ModMulEq_s (m_a ct1) cnst\<rparr>
      in ct1\<lparr>m_b := ModMulFastEq (m_b ct1) cnst (LWE_GetModulus ct1)\<rparr>)"

section \<open>Modulus switching\<close>

definition LWE_RoundqQ :: "NativeInt \<Rightarrow> NativeInt \<Rightarrow> NativeInt \<Rightarrow> NativeInt" where
  "LWE_RoundqQ v q Q = Mod (word_of_int (d_scale (uint v) (uint q) (uint Q))) q"

definition LWE_ModSwitch :: "NativeInt \<Rightarrow> LWECiphertext \<Rightarrow> LWECiphertext result" where
  "LWE_ModSwitch q ctQ =
     (let n = LWE_GetLength ctQ; Q = LWE_GetModulus ctQ
      in res_bind (NV_new n q) (\<lambda>a.
         res_bind (res_range 0 n (\<lambda>i a. res_bind (vec_get (m_a ctQ) i) (\<lambda>x. vec_set a i (LWE_RoundqQ x q Q))) a) (\<lambda>a.
         let b = LWE_RoundqQ (m_b ctQ) q Q
         in Inr \<lparr>m_a = a, m_b = b\<rparr>)))"

section \<open>Key switching\<close>

definition digitsKS :: "usint \<Rightarrow> nat \<Rightarrow> NativeInt list" where
  "digitsKS baseKS digitCount =
     fst (for_range 0 digitCount (\<lambda>i (digits, val). (digits @ [val], MulEqFast val (ucast baseKS))) ([], 1))"

text \<open>
  One entry of the switching key: an encryption of \<open>svN[i] * j * baseKS ^ k\<close> under \<open>sv\<close>, from the samples \<open>noise\<close> and \<open>a\<close>.
\<close>

definition KeySwitchGen_entry :: "NativeInt \<Rightarrow> NativeInt list \<Rightarrow> NativeVector \<Rightarrow> NativeVector \<Rightarrow> nat \<Rightarrow>
    (nat \<Rightarrow> nat \<Rightarrow> nat \<Rightarrow> NativeInt) \<Rightarrow> (nat \<Rightarrow> nat \<Rightarrow> nat \<Rightarrow> NativeVector) \<Rightarrow> nat \<Rightarrow> nat \<Rightarrow> nat \<Rightarrow> (NativeVector \<times> NativeInt) result" where
  "KeySwitchGen_entry qKS digits sv svN n noise unif i j k =
     res_bind (vec_get svN i) (\<lambda>sN. res_bind (elem_at digits k) (\<lambda>d.
     let b = ModAdd (noise i j k) (ModMul sN (MulFast (of_nat j) d) qKS) qKS;
         a = unif i j k
     in res_bind (add_products n a sv qKS b) (\<lambda>b. Inr (a, ModEq b qKS))))"

definition LWE_KeySwitchGen :: "(NativeInt \<Rightarrow> usint \<Rightarrow> nat) \<Rightarrow> (nat \<Rightarrow> nat \<Rightarrow> nat \<Rightarrow> NativeInt) \<Rightarrow> (nat \<Rightarrow> nat \<Rightarrow> nat \<Rightarrow> NativeVector) \<Rightarrow>
    LWECryptoParams \<Rightarrow> LWEPrivateKey \<Rightarrow> LWEPrivateKey \<Rightarrow> LWESwitchingKey result" where
  "LWE_KeySwitchGen dcount noise unif params sk skN =
     (let n = unat (m_n params); N = unat (m_N params); qKS = m_qKS params; baseKS = m_baseKS params;
          digitCount = dcount qKS baseKS; digits = digitsKS baseKS digitCount
      in res_bind (NV_SwitchModulus (m_s sk) qKS) (\<lambda>sv.
         res_bind (NV_SwitchModulus (m_s skN) qKS) (\<lambda>svN.
         res_bind (res_map (\<lambda>i. res_map (\<lambda>j. res_map (\<lambda>k. KeySwitchGen_entry qKS digits sv svN n noise unif i j k)
                     [0..<digitCount]) [0..<unat baseKS]) [0..<N]) (\<lambda>entries.
         Inr \<lparr>m_keyA = map (map (map fst)) entries, m_keyB = map (map (map snd)) entries\<rparr>))))"

text \<open>The loops over the digits of one entry of the ciphertext; the state is \<open>atmp\<close>, \<open>a\<close>, \<open>b\<close>.\<close>

definition KeySwitch_digit :: "LWESwitchingKey \<Rightarrow> NativeInt \<Rightarrow> usint \<Rightarrow> nat \<Rightarrow> nat \<Rightarrow> nat \<Rightarrow>
    NativeInt \<times> NativeVector \<times> NativeInt \<Rightarrow> (NativeInt \<times> NativeVector \<times> NativeInt) result" where
  "KeySwitch_digit K Q baseKS n i j st =
     (case st of (atmp, a, b) \<Rightarrow>
        let a0 = Mod atmp (ucast baseKS)
        in res_bind (elem_at (m_keyA K) i) (\<lambda>A1. res_bind (elem_at A1 (unat a0)) (\<lambda>A2. res_bind (elem_at A2 j) (\<lambda>A3.
           res_bind (elem_at (m_keyB K) i) (\<lambda>B1. res_bind (elem_at B1 (unat a0)) (\<lambda>B2. res_bind (elem_at B2 j) (\<lambda>B3.
           res_bind (res_range 0 n (\<lambda>k a. res_bind (vec_get a k) (\<lambda>x. res_bind (vec_get A3 k) (\<lambda>y.
              vec_set a k (ModSubFastEq x y Q)))) a) (\<lambda>a.
           let b = ModSubFastEq b B3 Q
           in res_bind (DividedByEq atmp (ucast baseKS)) (\<lambda>atmp. Inr (atmp, a, b))))))))))"

definition LWE_KeySwitch :: "(NativeInt \<Rightarrow> usint \<Rightarrow> nat) \<Rightarrow> LWECryptoParams \<Rightarrow> LWESwitchingKey \<Rightarrow> LWECiphertext \<Rightarrow> LWECiphertext result" where
  "LWE_KeySwitch dcount params K ctQN =
     (let n = unat (m_n params); N = unat (m_N params); Q = m_qKS params; baseKS = m_baseKS params;
          digitCount = dcount Q baseKS
      in if baseKS = 0 \<and> 0 < N \<and> 0 < digitCount then Inl div_by_zero
         else res_bind (NV_new n Q) (\<lambda>a.
         res_bind (res_range 0 N (\<lambda>i (a, b).
             res_bind (vec_get (m_a ctQN) i) (\<lambda>atmp.
             res_bind (res_range 0 digitCount (\<lambda>j st. KeySwitch_digit K Q baseKS n i j st) (atmp, a, b)) (\<lambda>(atmp, a, b).
             Inr (a, b)))) (a, m_b ctQN)) (\<lambda>(a, b).
         Inr \<lparr>m_a = a, m_b = b\<rparr>)))"

section \<open>The phase of a ciphertext\<close>

text \<open>
  The integer key is the list of centred entries of the key vector; the modulus under which it is stored is immaterial.
  The phase of a ciphertext is \<open>b - <a, s>\<close>: the encoded message plus the noise.
\<close>

definition int_key :: "LWEPrivateKey \<Rightarrow> int list" where
  "int_key sk = map (centered (m_modulus (m_s sk))) (m_data (m_s sk))"

definition dot :: "int list \<Rightarrow> int list \<Rightarrow> int" where
  "dot xs ys = (\<Sum>i<length ys. xs ! i * ys ! i)"

definition lwe_phase :: "int list \<Rightarrow> LWECiphertext \<Rightarrow> int" where
  "lwe_phase key ct = (uint (m_b ct) - dot (nv_abs (m_a ct)) key) mod uint (LWE_GetModulus ct)"

definition lwe_wf :: "nat \<Rightarrow> LWECiphertext \<Rightarrow> bool" where
  "lwe_wf n ct \<longleftrightarrow> nv_wf (m_a ct) \<and> length (m_data (m_a ct)) = n \<and> m_b ct < LWE_GetModulus ct"

text \<open>The moduli an inner product of \<open>n\<close> terms can be summed up for in one word.\<close>

definition lwe_modulus :: "nat \<Rightarrow> NativeInt \<Rightarrow> bool" where
  "lwe_modulus n q \<longleftrightarrow> barrett_modulus q \<and> (n + 2) * unat q < 2 ^ 64"

lemma lwe_modulus_size: "lwe_modulus n q \<Longrightarrow> q \<noteq> 0 \<and> GetMSB q \<le> MAX_MODULUS_SIZE \<and> q \<le> 2 ^ 63"
  using modulus_size_bound(3) by (auto simp: lwe_modulus_def barrett_modulus_def MAX_MODULUS_SIZE_def)

lemma vec_get_nth: "i < length (m_data v) \<Longrightarrow> vec_get v i = Inr (m_data v ! i)"
  by (simp add: vec_get_def NV_GetLength_def)

lemma nv_wf_nth: "nv_wf v \<Longrightarrow> i < length (m_data v) \<Longrightarrow> m_data v ! i < m_modulus v"
  by (simp add: nv_wf_def list_all_length)

lemma add_products_value:
  assumes q: "barrett_modulus q" and a: "nv_wf a" "m_modulus a = q" and s: "nv_wf s" "m_modulus s = q"
    and n: "n \<le> length (m_data a)" "n \<le> length (m_data s)" and b: "unat b + n * unat q < 2 ^ 64"
  shows "\<exists>r. add_products n a s q b = Inr r
    \<and> rcong (uint q) (uint r) (uint b + (\<Sum>i<n. uint (m_data a ! i) * uint (m_data s ! i)))"
proof -
  let ?x = "\<lambda>i. ModMulFast_mu (m_data a ! i) (m_data s ! i) q (ComputeMu q)"
  let ?P = "\<lambda>k (r :: NativeInt). unat r \<le> unat b + k * unat q
    \<and> rcong (uint q) (uint r) (uint b + (\<Sum>i<k. uint (m_data a ! i) * uint (m_data s ! i)))"
  have x: "unat (?x i) \<le> unat q" "rcong (uint q) (uint (?x i)) (uint (m_data a ! i) * uint (m_data s ! i))" if "i < n" for i
  proof -
    have "m_data a ! i \<le> q" "m_data s ! i \<le> q" using nv_wf_nth [OF a(1), of i] nv_wf_nth [OF s(1), of i] a(2) s(2) n that by auto
    then show "unat (?x i) \<le> unat q" "rcong (uint q) (uint (?x i)) (uint (m_data a ! i) * uint (m_data s ! i))"
      using ModMulFast_mu_range [OF q] by (simp_all add: word_le_nat_alt rcong_def)
  qed
  have "\<exists>r. add_products n a s q b = Inr r \<and> ?P n r"
    unfolding add_products_def Let_def
  proof (rule res_range_invariant [where P = ?P])
    fix i and t :: NativeInt assume i: "i < n" and P: "?P i t"
    have "i * unat q + unat q \<le> n * unat q" using i by (metis Suc_leI add.commute mult_Suc mult_le_mono1)
    then have lt: "unat t + unat (?x i) < 2 ^ 64" using P x(1) [OF i] b by linarith
    have u: "unat (t + ?x i) = unat t + unat (?x i)" using lt by (intro unat_add_nowrap) simp
    then have "uint (t + ?x i) = uint t + uint (?x i)" by (simp only: uint_nat of_nat_add)
    then have "?P (Suc i) (t + ?x i)" using P x [OF i] u by (simp add: add.assoc [symmetric] rcong_add)
    then show "\<exists>t'. res_bind (vec_get a i) (\<lambda>x. res_bind (vec_get s i) (\<lambda>y. Inr (AddEqFast t (ModMulFast_mu x y q (ComputeMu q))))) = Inr t' \<and> ?P (Suc i) t'"
      using i n by (simp add: vec_get_nth AddEqFast_def)
  qed auto
  then show ?thesis by blast
qed

lemma SwitchModulus_key:
  assumes "nv_wf (m_s sk)" "lwe_modulus n q"
  obtains s where "NV_SwitchModulus (m_s sk) q = Inr s" "nv_wf s" "m_modulus s = q"
    "length (m_data s) = length (int_key sk)" "\<And>i. i < length (int_key sk) \<Longrightarrow> uint (m_data s ! i) = int_key sk ! i mod uint q"
proof -
  obtain s where s: "NV_SwitchModulus (m_s sk) q = Inr s" "nv_wf s" "m_modulus s = q"
    "map uint (m_data s) = map (\<lambda>x. centered (m_modulus (m_s sk)) x mod uint q) (m_data (m_s sk))"
    using NV_SwitchModulus_eq [OF conjunct1 [OF conjunct2 [OF lwe_modulus_size [OF assms(2)]]], of "m_s sk"]
      switch_entry_correct [OF assms(1), of q] lwe_modulus_size [OF assms(2)] assms(1)
    by (auto simp: nv_wf_def list_all_iff word_less_def uint_pos)
  have len: "length (m_data s) = length (m_data (m_s sk))" using arg_cong [OF s(4), of length] by simp
  have "uint (m_data s ! i) = int_key sk ! i mod uint q" if "i < length (int_key sk)" for i
    using arg_cong [OF s(4), of "\<lambda>xs. xs ! i"] that len by (simp add: int_key_def)
  then show thesis using s(1-3) len by (intro that [of s]) (simp_all add: int_key_def)
qed

lemma dot_mod: "(\<And>i. i < length ys \<Longrightarrow> rcong q (zs i) (ys ! i)) \<Longrightarrow> rcong q (\<Sum>i<length ys. xs ! i * zs i) (dot xs ys)"
  unfolding dot_def by (intro rcong_sum rcong_mult) auto

text \<open>The sum of products over the key, in the terms of the integer key.\<close>

lemma add_products_dot:
  assumes q: "lwe_modulus (length (int_key sk)) q" and a: "nv_wf a" "m_modulus a = q" "length (m_data a) = length (int_key sk)"
    and s: "nv_wf s" "m_modulus s = q" "length (m_data s) = length (int_key sk)"
      "\<And>i. i < length (int_key sk) \<Longrightarrow> uint (m_data s ! i) = int_key sk ! i mod uint q"
    and b: "unat b < 2 * unat q"
  shows "\<exists>r. add_products (length (int_key sk)) a s q b = Inr r \<and> rcong (uint q) (uint r) (uint b + dot (nv_abs a) (int_key sk))"
proof -
  let ?n = "length (int_key sk)"
  have m: "barrett_modulus q" and lt: "unat b + ?n * unat q < 2 ^ 64"
    using q b by (auto simp: lwe_modulus_def algebra_simps)
  obtain r where r: "add_products ?n a s q b = Inr r"
    "rcong (uint q) (uint r) (uint b + (\<Sum>i<?n. uint (m_data a ! i) * uint (m_data s ! i)))"
    using add_products_value [OF m a(1,2) s(1,2), of ?n b] a(3) s(3) lt by auto
  have "(\<Sum>i<?n. uint (m_data a ! i) * uint (m_data s ! i)) = (\<Sum>i<?n. nv_abs a ! i * uint (m_data s ! i))"
    using a(3) by (intro sum.cong) (simp_all add: nv_abs_def)
  then have "rcong (uint q) (\<Sum>i<?n. uint (m_data a ! i) * uint (m_data s ! i)) (dot (nv_abs a) (int_key sk))"
    using dot_mod [of "int_key sk" "uint q" "\<lambda>i. uint (m_data s ! i)" "nv_abs a"] s(4) by simp
  then show ?thesis using r rcong_trans [OF r(2) rcong_add [OF rcong_refl]] by blast
qed

lemma uint_ModEq: "q \<noteq> 0 \<Longrightarrow> uint (ModEq x q) = uint x mod uint q" "q \<noteq> 0 \<Longrightarrow> ModEq x q < q"
  by (simp_all add: ModEq_def uint_mod word_less_def uint_pos)

lemma guard_off: "(md :: NativeInt) AND (if (1 :: int) = 0 then 1 else 0) = 0"
  by simp

lemma LWE_Encrypt_phase:
  assumes key: "nv_wf (m_s sk)" and q: "lwe_modulus (length (int_key sk)) q" and p: "p \<noteq> 0" "p \<le> q"
    and a: "nv_wf a" "m_modulus a = q" "length (m_data a) = length (int_key sk)" and e: "noise < q"
  shows "\<exists>ct. LWE_Encrypt noise a sk m p q = Inr ct \<and> lwe_wf (length (int_key sk)) ct \<and> LWE_GetModulus ct = q
    \<and> lwe_phase (int_key sk) ct = (uint (word_of_int m mod p) * (uint q div uint p) + uint noise) mod uint q"
proof -
  let ?n = "length (int_key sk)" and ?m = "word_of_int m mod p"
  define b where "b = ?m * (q div p) + noise"
  have q0: "q \<noteq> 0" "q \<le> 2 ^ 63" using lwe_modulus_size [OF q] by auto
  obtain s where s: "NV_SwitchModulus (m_s sk) q = Inr s" "nv_wf s" "m_modulus s = q" "length (m_data s) = ?n"
    "\<And>i. i < ?n \<Longrightarrow> uint (m_data s ! i) = int_key sk ! i mod uint q"
    using SwitchModulus_key [OF key q] by blast
  have m: "unat ?m < unat p" using p(1) by (simp add: unat_mod word_ge_0_nat)
  have "unat ?m * (unat q div unat p) < unat q"
  proof -
    have "0 < unat q div unat p" using p by (simp add: div_greater_zero_iff word_le_nat_alt word_ge_0_nat)
    then have "unat ?m * (unat q div unat p) < unat p * (unat q div unat p)" using m by simp
    also have "\<dots> \<le> unat q" by simp
    finally show ?thesis .
  qed
  then have u: "unat (?m * (q div p)) = unat ?m * (unat q div unat p)" "unat (?m * (q div p)) < unat q"
    using unat_lt_64 [of q] by (simp_all add: unat_mult_nowrap unat_div)
  have "unat noise < unat q" "unat q \<le> 2 ^ 63" using e q0 by (simp_all add: word_less_nat_alt word_le_nat_alt)
  then have b: "unat b = unat ?m * (unat q div unat p) + unat noise" "unat b < 2 * unat q"
    using u by (simp_all add: b_def unat_add_nowrap)
  have ub: "uint b = uint ?m * (uint q div uint p) + uint noise" using b(1) by (simp only: uint_nat of_nat_add of_nat_mult zdiv_int)
  obtain r where r: "add_products ?n a s q b = Inr r" "rcong (uint q) (uint r) (uint b + dot (nv_abs a) (int_key sk))"
    using add_products_dot [OF q a s(2-5) b(2)] by blast
  have "LWE_Encrypt noise a sk m p q = Inr \<lparr>m_a = a, m_b = ModEq r q\<rparr>"
    using r(1) s(1,4) p(1) by (simp add: LWE_Encrypt_def guard_off DividedBy_def NV_GetLength_def AddFast_def MulFast_def b_def Let_def)
  moreover have "(uint (ModEq r q) - dot (nv_abs a) (int_key sk)) mod uint q = uint b mod uint q"
    using rcong_diff [OF r(2) rcong_refl, of "dot (nv_abs a) (int_key sk)"] by (simp add: rcong_def uint_ModEq(1) [OF q0(1)] mod_diff_left_eq)
  ultimately show ?thesis using a uint_ModEq(2) [OF q0(1)] ub
    by (simp add: lwe_wf_def lwe_phase_def LWE_GetModulus_def NV_GetModulus_def)
qed

lemma LWE_Decrypt_phase:
  assumes key: "nv_wf (m_s sk)" and q: "lwe_modulus (length (int_key sk)) (LWE_GetModulus ct)" and ct: "lwe_wf (length (int_key sk)) ct"
    and p: "p \<noteq> 0" "p < 2 ^ 63" "unat p * unat (LWE_GetModulus ct) \<le> 2 ^ 64"
  shows "LWE_Decrypt sk ct p = Inr (uint p * ((lwe_phase (int_key sk) ct + uint (LWE_GetModulus ct) div (2 * uint p)) mod uint (LWE_GetModulus ct))
    div uint (LWE_GetModulus ct))"
proof -
  define q where "q = LWE_GetModulus ct"
  let ?n = "length (int_key sk)" and ?f = "lwe_phase (int_key sk) ct"
  have q': "lwe_modulus ?n q" "m_modulus (m_a ct) = q" using q by (simp_all add: q_def LWE_GetModulus_def NV_GetModulus_def)
  have q0: "q \<noteq> 0" "q \<le> 2 ^ 63" "0 < uint q" using lwe_modulus_size [OF q'(1)] uint_pos by auto
  have p0: "0 < unat p" "unat p < 2 ^ 63" using p(1,2) by (simp_all add: word_ge_0_nat word_less_nat_alt)
  have p2: "unat (p * 2) = 2 * unat p" using p0 by (simp add: unat_mult_nowrap)
  obtain s where s: "NV_SwitchModulus (m_s sk) q = Inr s" "nv_wf s" "m_modulus s = q" "length (m_data s) = ?n"
    "\<And>i. i < ?n \<Longrightarrow> uint (m_data s ! i) = int_key sk ! i mod uint q"
    using SwitchModulus_key [OF key q'(1)] by blast
  have c: "nv_wf (m_a ct)" "length (m_data (m_a ct)) = ?n" "m_b ct < q" using ct by (simp_all add: lwe_wf_def q_def)
  obtain r where r: "add_products ?n (m_a ct) s q 0 = Inr r" "rcong (uint q) (uint r) (uint (0 :: NativeInt) + dot (nv_abs (m_a ct)) (int_key sk))"
    using add_products_dot [OF q'(1) c(1) q'(2) c(2) s(2-5), of 0] q0(1) by (auto simp: word_ge_0_nat)
  define d where "d = ModSubFastEq (m_b ct) (ModEq r q) q"
  have "uint d = (uint (m_b ct) - uint r mod uint q) mod uint q"
    using ModSubFast_value [OF q0(2) c(3) uint_ModEq(2) [OF q0(1)], of r] by (simp only: d_def inplace_eqs(5) uint_ModEq(1) [OF q0(1)])
  also have "\<dots> = (uint (m_b ct) - dot (nv_abs (m_a ct)) (int_key sk)) mod uint q"
    using rcong_diff [OF rcong_refl r(2), of "uint (m_b ct)"] by (simp add: rcong_def mod_diff_right_eq)
  finally have d: "uint d = ?f" "d < q" using q0(3) by (simp_all add: lwe_phase_def q_def word_less_def)
  define h where "h = q div (p * 2)"
  have "uint (p * 2) = 2 * uint p" using p2 by (simp only: uint_nat of_nat_mult of_nat_numeral)
  then have h: "uint h = uint q div (2 * uint p)" by (simp only: h_def uint_div)
  have "h < q"
  proof -
    have "unat h \<le> unat q div 2" using p0(1) unfolding h_def unat_div p2 by (intro div_le_mono2) auto
    then show ?thesis using q0(1) by (simp add: word_less_nat_alt word_ge_0_nat)
  qed
  define t where "t = ModAddFastEq d h q"
  have t: "uint t = (?f + uint q div (2 * uint p)) mod uint q"
    using ModAddFast_value [OF q0(2) d(2) \<open>h < q\<close>] by (simp add: t_def inplace_eqs d(1) h)
  have tq: "unat t < unat q" using t q0(3) by (metis pos_mod_bound word_less_def word_less_nat_alt)
  have "unat p * unat t < unat p * unat q" using tq p0(1) by simp
  then have "unat p * unat t < 2 ^ 64" using p(3) unfolding q_def by (rule less_le_trans)
  then have pt: "unat (p * t) = unat p * unat t" by (simp add: unat_mult_nowrap)
  have "unat p * unat t div unat q < unat p" using tq p0(1) by (simp add: less_mult_imp_div_less)
  then have x: "unat (p * t div q) = unat p * unat t div unat q" "unat (p * t div q) < 2 ^ 63" using p0(2) by (simp_all add: unat_div pt)
  then have "sint (p * t div q) = uint p * uint t div uint q"
    by (simp only: sint_eq_unat uint_nat zdiv_int of_nat_mult)
  moreover have "p * 2 \<noteq> 0" using p2 p0(1) by (simp add: word_ge_0_nat)
  ultimately show ?thesis
    using r(1) s(1) q0(1) c(2) t
    by (simp add: LWE_Decrypt_def q_def [symmetric] guard_off NV_GetLength_def int_key_def [of sk] DividedBy_def MulFast_def
        h_def [symmetric] d_def [symmetric] t_def [symmetric] Let_def)
qed

section \<open>Decoding a phase\<close>

text \<open>
  The noise that decryption tolerates: half the distance of two messages when \<open>2 p\<close> divides \<open>q\<close>; otherwise \<open>q / p\<close> is rounded down
  and \<open>p\<close> units of the margin are lost.
\<close>

definition noise_ok :: "int \<Rightarrow> int \<Rightarrow> int \<Rightarrow> bool" where
  "noise_ok p q e \<longleftrightarrow> 2 * p dvd q \<and> - (q div (2 * p)) \<le> e \<and> e < q div (2 * p) \<or> \<bar>e\<bar> + p \<le> q div (2 * p)"

lemma decode_phase:
  fixes m p q e :: int
  assumes m: "0 \<le> m" "m < p" and q: "0 < q" and e: "noise_ok p q e"
  shows "p * ((m * (q div p) + e + q div (2 * p)) mod q) div q = m"
proof -
  define h where "h = q div (2 * p)"
  define x where "x = m * (q div p) + e + h"
  have p: "0 < p" using m by simp
  have px: "p * x = m * q - m * (q mod p) + p * (e + h)"
    unfolding x_def by (simp add: algebra_simps minus_mod_eq_mult_div [symmetric])
  have r: "0 \<le> m * (q mod p)" "m * (q mod p) \<le> p * p" using m p by (auto intro!: mult_mono simp: less_imp_le)
  have h2: "p * (2 * h) \<le> q"
  proof -
    have "2 * p * (q div (2 * p)) \<le> q" using mult_div_mod_eq [of "2 * p" q] pos_mod_sign [of "2 * p" q] p by linarith
    then show ?thesis by (simp add: h_def mult.assoc mult.commute)
  qed
  consider "2 * p dvd q" "- h \<le> e" "e < h" | "\<bar>e\<bar> + p \<le> h" using e by (auto simp: noise_ok_def h_def)
  then have "m * q \<le> p * x \<and> p * x < (m + 1) * q"
  proof cases
    case 1
    have "p dvd q" using 1(1) by (metis dvd_mult_right)
    then have z: "q mod p = 0" by simp
    have "p * 0 \<le> p * (e + h)" "p * (e + h) < p * (2 * h)" using 1 p by (intro mult_left_mono mult_strict_left_mono; simp)+
    then show ?thesis using h2 by (simp add: px z algebra_simps)
  next
    case 2
    have "p * p \<le> p * (e + h)" "p * (e + h) \<le> p * (2 * h - p)" using 2 p by (intro mult_left_mono; simp)+
    moreover have "p * (2 * h - p) = p * (2 * h) - p * p" by (rule right_diff_distrib)
    moreover have "0 < p * p" using p by simp
    ultimately have "m * q \<le> m * q - m * (q mod p) + p * (e + h)" "m * q - m * (q mod p) + p * (e + h) < m * q + q"
      using r h2 by linarith+
    then show ?thesis by (simp add: px distrib_right)
  qed
  then have b: "m * q \<le> p * x" "p * x < (m + 1) * q" by auto
  have "0 \<le> p * x" using b(1) m(1) q by (meson mult_nonneg_nonneg less_imp_le order_trans)
  then have "0 \<le> x" using p by (simp add: zero_le_mult_iff)
  moreover have "x < q"
  proof -
    have "(m + 1) * q \<le> p * q" using m q by (intro mult_right_mono) auto
    then have "p * x < p * q" using b(2) by simp
    then show ?thesis using p by simp
  qed
  ultimately have "p * (x mod q) div q = m" using b q by (simp add: int_div_pos_eq [of "p * x" q m "p * x - m * q"] algebra_simps)
  then show ?thesis by (simp only: x_def h_def)
qed

text \<open>Decryption of a ciphertext whose phase is a message with tolerable noise.\<close>

lemma LWE_Decrypt_message:
  assumes key: "nv_wf (m_s sk)" and q: "lwe_modulus (length (int_key sk)) (LWE_GetModulus ct)" and ct: "lwe_wf (length (int_key sk)) ct"
    and p: "p < 2 ^ 63" "unat p * unat (LWE_GetModulus ct) \<le> 2 ^ 64" and m: "0 \<le> m" "m < uint p"
    and f: "rcong (uint (LWE_GetModulus ct)) (lwe_phase (int_key sk) ct) (m * (uint (LWE_GetModulus ct) div uint p) + e)"
    and e: "noise_ok (uint p) (uint (LWE_GetModulus ct)) e"
  shows "LWE_Decrypt sk ct p = Inr m"
proof -
  have p0: "p \<noteq> 0" using m by auto
  have q0: "0 < uint (LWE_GetModulus ct)" using lwe_modulus_size [OF q] uint_pos by blast
  show ?thesis
    using rcong_add [OF f rcong_refl] decode_phase [OF m q0 e] LWE_Decrypt_phase [OF key q ct p0 p] by (simp add: rcong_def)
qed

section \<open>Linear operations on ciphertexts\<close>

lemma dot_linear:
  assumes "length key \<le> length xs" "length key \<le> length ys"
  shows "rcong q (dot (map2 (\<lambda>x y. (x + c * y) mod q) xs ys) key) (dot xs key + c * dot ys key)"
proof -
  have "dot xs key + c * dot ys key = (\<Sum>i<length key. (xs ! i + c * ys ! i) * key ! i)"
    by (simp add: dot_def sum_distrib_left sum.distrib algebra_simps)
  moreover have "rcong q (dot (map2 (\<lambda>x y. (x + c * y) mod q) xs ys) key) (\<Sum>i<length key. (xs ! i + c * ys ! i) * key ! i)"
    unfolding dot_def using assms by (intro rcong_sum rcong_mult) auto
  ultimately show ?thesis by simp
qed

text \<open>
  The contract of an operation on two ciphertexts: a vector operation on the masks and a scalar one on the bodies, both \<open>x + c y\<close>
  modulo \<open>q\<close>. Then the phases are combined in the same way, for every key.
\<close>

locale lwe_linear =
  fixes op2 :: "LWECiphertext \<Rightarrow> LWECiphertext \<Rightarrow> LWECiphertext result"
    and vop :: "NativeVector \<Rightarrow> NativeVector \<Rightarrow> NativeVector result"
    and sop :: "NativeInt \<Rightarrow> NativeInt \<Rightarrow> NativeInt \<Rightarrow> NativeInt"
    and c :: int
  assumes op_eq: "vop (m_a ct1) (m_a ct2) = Inr a \<Longrightarrow> m_modulus a = m_modulus (m_a ct1) \<Longrightarrow>
      op2 ct1 ct2 = Inr \<lparr>m_a = a, m_b = sop (m_b ct1) (m_b ct2) (m_modulus a)\<rparr>"
    and vop_value: "nv_wf v \<Longrightarrow> nv_wf w \<Longrightarrow> nv_compatible v w \<Longrightarrow>
      \<exists>u. vop v w = Inr u \<and> nv_wf u \<and> nv_compatible u v \<and> nv_abs u = map2 (\<lambda>x y. (x + c * y) mod uint (m_modulus v)) (nv_abs v) (nv_abs w)"
    and sop_value: "q \<noteq> 0 \<Longrightarrow> q \<le> 2 ^ 63 \<Longrightarrow> x < q \<Longrightarrow> y < q \<Longrightarrow> uint (sop x y q) = (uint x + c * uint y) mod uint q"
begin

lemma op2_phase:
  assumes "lwe_wf n ct1" "lwe_wf n ct2" "LWE_GetModulus ct1 = LWE_GetModulus ct2"
  shows "\<exists>ct. op2 ct1 ct2 = Inr ct \<and> lwe_wf n ct \<and> LWE_GetModulus ct = LWE_GetModulus ct1
    \<and> (\<forall>key. length key = n \<longrightarrow> lwe_phase key ct = (lwe_phase key ct1 + c * lwe_phase key ct2) mod uint (LWE_GetModulus ct1))"
proof -
  let ?q = "m_modulus (m_a ct1)"
  have wf: "nv_wf (m_a ct1)" "nv_wf (m_a ct2)" "nv_compatible (m_a ct1) (m_a ct2)" "m_b ct1 < ?q" "m_b ct2 < ?q"
    "length (m_data (m_a ct1)) = n" "length (m_data (m_a ct2)) = n"
    using assms by (simp_all add: lwe_wf_def nv_compatible_def LWE_GetModulus_def NV_GetModulus_def)
  have q: "?q \<noteq> 0" "?q \<le> 2 ^ 63" using nv_wf_modulus(1) [OF wf(1)] by auto
  obtain a where a: "vop (m_a ct1) (m_a ct2) = Inr a" "nv_wf a" "nv_compatible a (m_a ct1)"
    "nv_abs a = map2 (\<lambda>x y. (x + c * y) mod uint ?q) (nv_abs (m_a ct1)) (nv_abs (m_a ct2))"
    using vop_value [OF wf(1-3)] by blast
  have aq: "m_modulus a = ?q" "length (m_data a) = n" using a(3) wf(6) by (simp_all add: nv_compatible_def)
  let ?b = "sop (m_b ct1) (m_b ct2) ?q"
  have b: "uint ?b = (uint (m_b ct1) + c * uint (m_b ct2)) mod uint ?q" by (rule sop_value [OF q wf(4,5)])
  have "lwe_phase key \<lparr>m_a = a, m_b = ?b\<rparr> = (lwe_phase key ct1 + c * lwe_phase key ct2) mod uint ?q" if "length key = n" for key
  proof -
    have "rcong (uint ?q) (dot (nv_abs a) key) (dot (nv_abs (m_a ct1)) key + c * dot (nv_abs (m_a ct2)) key)"
      unfolding a(4) using that wf(6,7) by (intro dot_linear) (simp_all add: nv_abs_def)
    then have "rcong (uint ?q) (uint ?b - dot (nv_abs a) key)
        (uint (m_b ct1) - dot (nv_abs (m_a ct1)) key + c * (uint (m_b ct2) - dot (nv_abs (m_a ct2)) key))"
      using rcong_diff [of "uint ?q" "uint ?b" "uint (m_b ct1) + c * uint (m_b ct2)"] by (simp add: b algebra_simps)
    moreover have "rcong (uint ?q) (lwe_phase key ct1 + c * lwe_phase key ct2)
        (uint (m_b ct1) - dot (nv_abs (m_a ct1)) key + c * (uint (m_b ct2) - dot (nv_abs (m_a ct2)) key))"
      using assms(3) by (intro rcong_add rcong_mult) (simp_all add: lwe_phase_def LWE_GetModulus_def NV_GetModulus_def)
    ultimately show ?thesis by (simp add: lwe_phase_def LWE_GetModulus_def NV_GetModulus_def aq(1) rcong_def)
  qed
  moreover have "?b < ?q" using b q(1) by (simp add: word_less_def uint_pos)
  moreover have "op2 ct1 ct2 = Inr \<lparr>m_a = a, m_b = ?b\<rparr>" using op_eq [OF a(1) aq(1)] aq(1) by simp
  ultimately show ?thesis using a(2) aq by (simp add: lwe_wf_def LWE_GetModulus_def NV_GetModulus_def)
qed

end

interpretation EvalAdd: lwe_linear LWE_EvalAddEq NV_ModAddEq ModAddFast 1
  by unfold_locales
    (simp_all add: LWE_EvalAddEq_def LWE_GetModulus_def NV_GetModulus_def inplace_eqs(3) NV_addEq.vop_total ModAddFast_value)

interpretation EvalSub: lwe_linear LWE_EvalSubEq NV_ModSubEq ModSubFast "- 1"
  by unfold_locales
    (simp_all add: LWE_EvalSubEq_def LWE_GetModulus_def NV_GetModulus_def inplace_eqs(5) NV_subEq.vop_total ModSubFast_value)

interpretation EvalSub2: lwe_linear LWE_EvalSubEq2 NV_ModSub ModSubFast "- 1"
  by unfold_locales
    (simp_all add: LWE_EvalSubEq2_def LWE_GetModulus_def NV_GetModulus_def NV_sub.vop_total ModSubFast_value)

lemma dot_scale: "length key \<le> length xs \<Longrightarrow> rcong q (dot (map (\<lambda>x. x * k mod q) xs) key) (dot xs key * k)"
proof -
  assume len: "length key \<le> length xs"
  have "dot xs key * k = (\<Sum>i<length key. xs ! i * k * key ! i)" by (simp add: dot_def sum_distrib_left algebra_simps)
  moreover have "rcong q (dot (map (\<lambda>x. x * k mod q) xs) key) (\<Sum>i<length key. xs ! i * k * key ! i)"
    unfolding dot_def using len by (intro rcong_sum rcong_mult) auto
  ultimately show ?thesis by simp
qed

lemma EvalConst_phase:
  assumes ct: "lwe_wf n ct" and key: "length key = n"
  shows "cnst < LWE_GetModulus ct \<Longrightarrow> lwe_wf n (LWE_EvalAddConstEq ct cnst) \<and> LWE_GetModulus (LWE_EvalAddConstEq ct cnst) = LWE_GetModulus ct
      \<and> lwe_phase key (LWE_EvalAddConstEq ct cnst) = (lwe_phase key ct + uint cnst) mod uint (LWE_GetModulus ct)"
    and "cnst < LWE_GetModulus ct \<Longrightarrow> lwe_wf n (LWE_EvalSubConstEq ct cnst) \<and> LWE_GetModulus (LWE_EvalSubConstEq ct cnst) = LWE_GetModulus ct
      \<and> lwe_phase key (LWE_EvalSubConstEq ct cnst) = (lwe_phase key ct - uint cnst) mod uint (LWE_GetModulus ct)"
    and "lwe_wf n (LWE_EvalMultConstEq ct cnst) \<and> LWE_GetModulus (LWE_EvalMultConstEq ct cnst) = LWE_GetModulus ct
      \<and> lwe_phase key (LWE_EvalMultConstEq ct cnst) = lwe_phase key ct * uint cnst mod uint (LWE_GetModulus ct)"
proof -
  define q where "q = LWE_GetModulus ct"
  define d where "d = dot (nv_abs (m_a ct)) key"
  have q: "q \<noteq> 0" "q \<le> 2 ^ 63" "m_modulus (m_a ct) = q" and b: "m_b ct < q" and wf: "nv_wf (m_a ct)" "length (m_data (m_a ct)) = n"
    using ct nv_wf_modulus(1) [of "m_a ct"] by (simp_all add: lwe_wf_def q_def LWE_GetModulus_def NV_GetModulus_def)
  have f: "lwe_phase key ct = (uint (m_b ct) - d) mod uint q" by (simp add: lwe_phase_def q_def d_def)
  have lt: "uint x = z mod uint q \<Longrightarrow> x < q" for x z using q(1) by (simp add: word_less_def uint_pos)
  note gm = LWE_GetModulus_def NV_GetModulus_def
  show "lwe_wf n (LWE_EvalAddConstEq ct cnst) \<and> LWE_GetModulus (LWE_EvalAddConstEq ct cnst) = q
      \<and> lwe_phase key (LWE_EvalAddConstEq ct cnst) = (lwe_phase key ct + uint cnst) mod uint q" if "cnst < q"
  proof -
    have v: "uint (ModAddFast (m_b ct) cnst q) = (uint (m_b ct) + uint cnst) mod uint q" using that by (rule ModAddFast_value [OF q(2) b])
    show ?thesis using lt [OF v] wf unfolding f
      by (simp add: LWE_EvalAddConstEq_def inplace_eqs(3) lwe_wf_def lwe_phase_def gm q(3) v d_def [symmetric] mod_simps algebra_simps)
  qed
  show "lwe_wf n (LWE_EvalSubConstEq ct cnst) \<and> LWE_GetModulus (LWE_EvalSubConstEq ct cnst) = q
      \<and> lwe_phase key (LWE_EvalSubConstEq ct cnst) = (lwe_phase key ct - uint cnst) mod uint q" if "cnst < q"
  proof -
    have v: "uint (ModSubFast (m_b ct) cnst q) = (uint (m_b ct) - uint cnst) mod uint q" using that by (rule ModSubFast_value [OF q(2) b])
    show ?thesis using lt [OF v] wf unfolding f
      by (simp add: LWE_EvalSubConstEq_def inplace_eqs(5) lwe_wf_def lwe_phase_def gm q(3) v d_def [symmetric] mod_simps algebra_simps)
  qed
  show "lwe_wf n (LWE_EvalMultConstEq ct cnst) \<and> LWE_GetModulus (LWE_EvalMultConstEq ct cnst) = q
      \<and> lwe_phase key (LWE_EvalMultConstEq ct cnst) = lwe_phase key ct * uint cnst mod uint q"
  proof -
    let ?a = "NV_ModMulEq_s (m_a ct) cnst"
    have a: "nv_wf ?a" "m_modulus ?a = q" "length (m_data ?a) = n" "nv_abs ?a = map (\<lambda>x. x * uint cnst mod uint q) (nv_abs (m_a ct))"
      using NV_mulEq_s.vop_correct [OF wf(1), of cnst] wf(2) q(3) by (simp_all add: nv_compatible_def)
    have v: "uint (ModMulFast (m_b ct) cnst q) = uint (m_b ct) * uint cnst mod uint q" by (rule ModMulFast_value [OF q(1)])
    have "rcong (uint q) (dot (nv_abs ?a) key) (d * uint cnst)"
      unfolding a(4) d_def using key wf(2) by (intro dot_scale) (simp add: nv_abs_def)
    then have "rcong (uint q) (uint (ModMulFast (m_b ct) cnst q) - dot (nv_abs ?a) key) ((uint (m_b ct) - d) * uint cnst)"
      using rcong_diff [of "uint q" "uint (ModMulFast (m_b ct) cnst q)" "uint (m_b ct) * uint cnst"] by (simp add: v left_diff_distrib)
    moreover have "ModMulFastEq (m_b ct) cnst q = ModMulFast (m_b ct) cnst q" by (simp add: ModMulFastEq_def ModMulFast_def Let_def)
    ultimately show ?thesis using lt [OF v] a(1-3) unfolding f
      by (simp add: LWE_EvalMultConstEq_def lwe_wf_def lwe_phase_def gm rcong_def mod_mult_left_eq)
  qed
qed

section \<open>Properties of the scheme\<close>

text \<open>A ciphertext that encrypts the message \<open>m\<close> with noise \<open>e\<close> under the key, for the plaintext modulus \<open>p\<close>.\<close>

definition lwe_encrypts :: "LWEPrivateKey \<Rightarrow> NativeInt \<Rightarrow> LWECiphertext \<Rightarrow> int \<Rightarrow> int \<Rightarrow> bool" where
  "lwe_encrypts sk p ct m e \<longleftrightarrow> lwe_wf (length (int_key sk)) ct
     \<and> rcong (uint (LWE_GetModulus ct)) (lwe_phase (int_key sk) ct) (m * (uint (LWE_GetModulus ct) div uint p) + e)"

text \<open>The sizes under which decryption does not overflow.\<close>

definition decrypt_ok :: "LWEPrivateKey \<Rightarrow> NativeInt \<Rightarrow> NativeInt \<Rightarrow> bool" where
  "decrypt_ok sk p q \<longleftrightarrow> nv_wf (m_s sk) \<and> lwe_modulus (length (int_key sk)) q \<and> p < 2 ^ 63 \<and> unat p * unat q \<le> 2 ^ 64"

lemma noise_ok_p_le: "0 < p \<Longrightarrow> noise_ok p q e \<Longrightarrow> p \<le> q"
proof -
  assume p: "0 < p" and e: "noise_ok p q e"
  have "1 \<le> q div (2 * p)" using e p by (auto simp: noise_ok_def)
  then have "2 * p * 1 \<le> 2 * p * (q div (2 * p))" using p by (intro mult_left_mono) auto
  also have "\<dots> \<le> q" using mult_div_mod_eq [of "2 * p" q] pos_mod_sign [of "2 * p" q] p by linarith
  finally show ?thesis using p by simp
qed

lemma lwe_encrypts_decrypts:
  assumes ok: "decrypt_ok sk p (LWE_GetModulus ct)" "p \<noteq> 0" and ct: "lwe_encrypts sk p ct m e"
    and e: "noise_ok (uint p) (uint (LWE_GetModulus ct)) e" and m: "0 \<le> m \<and> m < uint p \<or> uint p dvd uint (LWE_GetModulus ct)"
  shows "LWE_Decrypt sk ct p = Inr (m mod uint p)"
proof -
  let ?q = "LWE_GetModulus ct"
  have p: "0 < uint p" using ok(2) by (rule uint_pos)
  have "rcong (uint ?q) (m * (uint ?q div uint p) + e) (m mod uint p * (uint ?q div uint p) + e)"
  proof (cases "uint p dvd uint ?q")
    case True
    then have "uint p * (uint ?q div uint p) = uint ?q" by simp
    moreover have "m * (uint ?q div uint p) = m div uint p * (uint p * (uint ?q div uint p)) + m mod uint p * (uint ?q div uint p)"
      using arg_cong [OF div_mult_mod_eq [of m "uint p"], of "\<lambda>z. z * (uint ?q div uint p)"] by (simp only: distrib_right mult.assoc)
    ultimately have "m * (uint ?q div uint p) + e - (m mod uint p * (uint ?q div uint p) + e) = m div uint p * uint ?q" by simp
    then show ?thesis by (simp only: rcong_iff_dvd dvd_triv_right)
  qed (use m in auto)
  then have "rcong (uint ?q) (lwe_phase (int_key sk) ct) (m mod uint p * (uint ?q div uint p) + e)"
    using ct unfolding lwe_encrypts_def by (blast intro: rcong_trans)
  then show ?thesis using ok(1) ct p e
    by (intro LWE_Decrypt_message [where e = e]) (simp_all add: decrypt_ok_def lwe_encrypts_def)
qed

lemma EvalSubEq2_eq: "LWE_EvalSubEq2 ct1 ct2 = LWE_EvalSubEq ct1 ct2"
  by (simp add: LWE_EvalSubEq2_def LWE_EvalSubEq_def LWE_GetModulus_def NV_GetModulus_def NV_sub.vop_eq NV_subEq.vop_eq inplace_eqs(5) Let_def)

lemma centered_lt: "x < q \<Longrightarrow> rcong (uint q) (uint x) (centered q x)"
  by (simp add: rcong_def centered_mod)

text \<open>
  C13: \<open>Decrypt\<close> inverts \<open>Encrypt\<close>: for every message, mask and key, if the centred noise is within half the distance of
  two messages (and within that minus \<open>p\<close> when \<open>2 p\<close> does not divide the modulus), encryption succeeds, the ciphertext holds
  the message reduced modulo \<open>p\<close> with that noise, and decryption returns the message. No sum wraps around as long as
  \<open>(n + 2) q\<close> and \<open>p q\<close> fit in 64 bits.
\<close>

theorem LWE_Encrypt_Decrypt:
  assumes ok: "decrypt_ok sk p q" "p \<noteq> 0"
    and a: "nv_wf a" "m_modulus a = q" "length (m_data a) = length (int_key sk)" and e: "noise < q" "noise_ok (uint p) (uint q) (centered q noise)"
  shows "\<exists>ct. LWE_Encrypt noise a sk m p q = Inr ct \<and> LWE_GetModulus ct = q
    \<and> lwe_encrypts sk p ct (m mod 2 ^ 64 mod uint p) (centered q noise) \<and> LWE_Decrypt sk ct p = Inr (m mod 2 ^ 64 mod uint p)"
proof -
  have p: "0 < uint p" "p \<le> q" using uint_pos [OF ok(2)] noise_ok_p_le [OF _ e(2)] by (simp_all add: word_le_def)
  have m: "uint (word_of_int m mod p) = m mod 2 ^ 64 mod uint p" by (simp add: uint_mod uint_word_of_int)
  obtain ct where ct: "LWE_Encrypt noise a sk m p q = Inr ct" "lwe_wf (length (int_key sk)) ct" "LWE_GetModulus ct = q"
    "lwe_phase (int_key sk) ct = (m mod 2 ^ 64 mod uint p * (uint q div uint p) + uint noise) mod uint q"
    using LWE_Encrypt_phase [of sk q p a noise m] ok p(2) a e(1) unfolding decrypt_ok_def m by auto
  have enc: "lwe_encrypts sk p ct (m mod 2 ^ 64 mod uint p) (centered q noise)"
    using ct centered_lt [OF e(1)] by (simp add: lwe_encrypts_def rcong_add)
  have "LWE_Decrypt sk ct p = Inr (m mod 2 ^ 64 mod uint p mod uint p)"
    using ok e(2) ct(3) p(1) by (intro lwe_encrypts_decrypts [OF _ _ enc]) auto
  then show ?thesis using ct(1,3) enc by simp
qed

text \<open>
  C22: the scheme is additively homomorphic: adding and subtracting ciphertexts adds and subtracts the messages and the
  noises, multiplication by a constant multiplies both, adding a constant to the body moves the phase by it; and when the plaintext
  modulus divides the modulus and the accumulated noise is tolerable, the sum and the difference decrypt to the sum and the
  difference of the messages modulo \<open>p\<close>.
\<close>

theorem LWE_homomorphic:
  assumes ok: "decrypt_ok sk p (LWE_GetModulus ct1)" "p \<noteq> 0" "uint p dvd uint (LWE_GetModulus ct1)"
    and ct: "lwe_encrypts sk p ct1 m1 e1" "lwe_encrypts sk p ct2 m2 e2" "LWE_GetModulus ct1 = LWE_GetModulus ct2"
    and e: "noise_ok (uint p) (uint (LWE_GetModulus ct1)) (e1 + e2)" "noise_ok (uint p) (uint (LWE_GetModulus ct1)) (e1 - e2)"
    and k: "k < LWE_GetModulus ct1"
  shows "(\<exists>ct. LWE_EvalAddEq ct1 ct2 = Inr ct \<and> lwe_encrypts sk p ct (m1 + m2) (e1 + e2) \<and> LWE_Decrypt sk ct p = Inr ((m1 + m2) mod uint p))
    \<and> (\<exists>ct. LWE_EvalSubEq ct1 ct2 = Inr ct \<and> LWE_EvalSubEq2 ct1 ct2 = Inr ct \<and> lwe_encrypts sk p ct (m1 - m2) (e1 - e2)
        \<and> LWE_Decrypt sk ct p = Inr ((m1 - m2) mod uint p))
    \<and> lwe_encrypts sk p (LWE_EvalMultConstEq ct1 k) (m1 * uint k) (e1 * uint k)
    \<and> lwe_encrypts sk p (LWE_EvalAddConstEq ct1 k) m1 (e1 + uint k)
    \<and> lwe_encrypts sk p (LWE_EvalSubConstEq ct1 k) m1 (e1 - uint k)"
proof -
  let ?n = "length (int_key sk)" and ?q = "LWE_GetModulus ct1" and ?f = "lwe_phase (int_key sk)"
  define D where "D = uint ?q div uint p"
  have f: "lwe_wf ?n ct1" "lwe_wf ?n ct2" "rcong (uint ?q) (?f ct1) (m1 * D + e1)" "rcong (uint ?q) (?f ct2) (m2 * D + e2)"
    using ct by (simp_all add: lwe_encrypts_def D_def)
  have enc: "lwe_encrypts sk p ct m e \<longleftrightarrow> rcong (uint ?q) (?f ct) (m * D + e)" if "lwe_wf ?n ct" "LWE_GetModulus ct = ?q" for ct m e
    using that by (simp add: lwe_encrypts_def D_def)
  obtain s where s: "LWE_EvalAddEq ct1 ct2 = Inr s" "lwe_wf ?n s" "LWE_GetModulus s = ?q" "?f s = (?f ct1 + ?f ct2) mod uint ?q"
    using EvalAdd.op2_phase [OF f(1,2) ct(3)] by auto
  have "lwe_encrypts sk p s (m1 + m2) (e1 + e2)"
    using rcong_add [OF f(3,4)] by (simp add: enc s algebra_simps)
  then have add: "lwe_encrypts sk p s (m1 + m2) (e1 + e2)" "LWE_Decrypt sk s p = Inr ((m1 + m2) mod uint p)"
    using ok e(1) s(3) lwe_encrypts_decrypts by auto
  obtain d where d: "LWE_EvalSubEq ct1 ct2 = Inr d" "lwe_wf ?n d" "LWE_GetModulus d = ?q" "?f d = (?f ct1 - ?f ct2) mod uint ?q"
    using EvalSub.op2_phase [OF f(1,2) ct(3)] by auto
  then have d2: "LWE_EvalSubEq2 ct1 ct2 = Inr d" by (simp only: EvalSubEq2_eq)
  have "lwe_encrypts sk p d (m1 - m2) (e1 - e2)"
    using rcong_diff [OF f(3,4)] by (simp add: enc d algebra_simps)
  then have sub: "lwe_encrypts sk p d (m1 - m2) (e1 - e2)" "LWE_Decrypt sk d p = Inr ((m1 - m2) mod uint p)"
    using ok e(2) d(3) lwe_encrypts_decrypts by auto
  note cst = EvalConst_phase [OF f(1) refl, of k]
  have "lwe_encrypts sk p (LWE_EvalMultConstEq ct1 k) (m1 * uint k) (e1 * uint k)"
    using cst(3) rcong_mult [OF f(3) rcong_refl, of "uint k"] by (simp add: enc algebra_simps)
  moreover have "lwe_encrypts sk p (LWE_EvalAddConstEq ct1 k) m1 (e1 + uint k)"
    using cst(1) [OF k] rcong_add [OF f(3) rcong_refl, of "uint k"] by (simp add: enc algebra_simps)
  moreover have "lwe_encrypts sk p (LWE_EvalSubConstEq ct1 k) m1 (e1 - uint k)"
    using cst(2) [OF k] rcong_diff [OF f(3) rcong_refl, of "uint k"] by (simp add: enc algebra_simps)
  ultimately show ?thesis using s(1) add d(1) d2 sub by blast
qed

section \<open>Modulus switching\<close>

lemma vec_set_nth: "i < length (m_data v) \<Longrightarrow> vec_set v i x = Inr (v\<lparr>m_data := (m_data v)[i := x]\<rparr>)"
  by (simp add: vec_set_def NV_GetLength_def)

lemma RoundqQ_value:
  assumes "v < Q" "q \<noteq> 0" "uint q * uint Q \<le> 2 ^ 50"
  shows "uint (LWE_RoundqQ v q Q) = (2 * uint v * uint q + uint Q) div (2 * uint Q) mod uint q"
proof -
  have v: "uint v < uint Q" "0 < uint q" using assms(1,2) uint_pos by (simp_all add: word_less_def)
  let ?r = "(2 * uint v * uint q + uint Q) div (2 * uint Q)"
  have "?r \<le> uint q"
  proof -
    have "0 < uint Q" using v(1) uint_ge_0 [of v] by linarith
    moreover have "2 * uint v * uint q + uint Q < (uint q + 1) * (2 * uint Q)"
    proof -
      have "uint v * uint q \<le> uint Q * uint q" using v by (intro mult_right_mono) auto
      then show ?thesis using \<open>0 < uint Q\<close> by (simp add: algebra_simps)
    qed
    moreover have "?r * (2 * uint Q) \<le> 2 * uint v * uint q + uint Q"
      using div_mult_mod_eq [of "2 * uint v * uint q + uint Q" "2 * uint Q"] pos_mod_sign [of "2 * uint Q" "2 * uint v * uint q + uint Q"] \<open>0 < uint Q\<close> by linarith
    ultimately have "?r * (2 * uint Q) < (uint q + 1) * (2 * uint Q)" by linarith
    then show ?thesis using \<open>0 < uint Q\<close> by simp
  qed
  moreover have "0 \<le> ?r" by (simp add: div_int_pos_iff)
  ultimately have "uint (word_of_int ?r :: NativeInt) = ?r" using uint_lt2p [of q] by (simp add: uint_word_of_int)
  moreover have "d_scale (uint v) (uint q) (uint Q) = ?r" using v assms(3) by (intro d_scale_exact) auto
  ultimately show ?thesis by (simp only: LWE_RoundqQ_def Mod_def uint_mod)
qed

text \<open>The error of one rounding, scaled by the old modulus.\<close>

lemma round_error:
  fixes v q Q :: int
  assumes "0 < Q"
  obtains d where "Q * ((2 * v * q + Q) div (2 * Q)) = q * v + d" "2 * \<bar>d\<bar> \<le> Q"
proof -
  define k where "k = (2 * v * q + Q) div (2 * Q)"
  define r where "r = (2 * v * q + Q) mod (2 * Q)"
  have "2 * v * q + Q = k * (2 * Q) + r" by (simp only: k_def r_def div_mult_mod_eq)
  then have "2 * (Q * k - q * v) = Q - r" by (simp add: algebra_simps)
  moreover have "0 \<le> r" "r < 2 * Q" using assms by (simp_all add: r_def)
  ultimately have "2 * \<bar>Q * k - q * v\<bar> \<le> Q" by linarith
  then show thesis by (intro that [of "Q * k - q * v"]) (simp_all add: k_def)
qed

lemma rcong_scale: "rcong q x y \<Longrightarrow> rcong (q * c) (c * x) (c * y)"
  by (simp add: rcong_iff_dvd mult.commute [of q] right_diff_distrib [symmetric])

lemma ModSwitch_value:
  assumes ct: "lwe_wf n ct" and q: "q \<noteq> 0" "GetMSB q \<le> MAX_MODULUS_SIZE"
  shows "LWE_ModSwitch q ct = Inr \<lparr>m_a = \<lparr>m_data = map (\<lambda>x. LWE_RoundqQ x q (LWE_GetModulus ct)) (m_data (m_a ct)), m_modulus = q\<rparr>,
    m_b = LWE_RoundqQ (m_b ct) q (LWE_GetModulus ct)\<rparr>"
proof -
  let ?Q = "LWE_GetModulus ct" and ?xs = "m_data (m_a ct)"
  let ?P = "\<lambda>k v. m_modulus v = q \<and> length (m_data v) = n \<and> (\<forall>i<k. m_data v ! i = LWE_RoundqQ (?xs ! i) q ?Q)"
  have len: "length ?xs = n" using ct by (simp add: lwe_wf_def)
  have new: "NV_new n q = Inr \<lparr>m_data = replicate n 0, m_modulus = q\<rparr>"
    using q(2) by (simp add: NV_new_def NV_SetModulus_def NV_empty_def)
  have "\<exists>v. res_range 0 n (\<lambda>i a. res_bind (vec_get (m_a ct) i) (\<lambda>x. vec_set a i (LWE_RoundqQ x q ?Q)))
      \<lparr>m_data = replicate n 0, m_modulus = q\<rparr> = Inr v \<and> ?P n v"
    by (rule res_range_invariant [where P = ?P]) (auto simp: vec_get_nth vec_set_nth len nth_list_update)
  then obtain v where v: "res_range 0 n (\<lambda>i a. res_bind (vec_get (m_a ct) i) (\<lambda>x. vec_set a i (LWE_RoundqQ x q ?Q)))
      \<lparr>m_data = replicate n 0, m_modulus = q\<rparr> = Inr v" "?P n v" by blast
  have "m_data v = map (\<lambda>x. LWE_RoundqQ x q ?Q) ?xs" using v(2) len by (intro nth_equalityI) auto
  then have "v = \<lparr>m_data = map (\<lambda>x. LWE_RoundqQ x q ?Q) ?xs, m_modulus = q\<rparr>" using v(2) by (cases v) simp
  then show ?thesis using v(1) new len by (simp add: LWE_ModSwitch_def LWE_GetLength_def NV_GetLength_def Let_def)
qed

lemma abs_diff_bound:
  assumes "2 * \<bar>a\<bar> \<le> (A :: int)" "2 * \<bar>b\<bar> \<le> B"
  shows "2 * \<bar>a - b\<bar> \<le> A + B"
proof -
  have "2 * \<bar>a - b\<bar> \<le> 2 * (\<bar>a\<bar> + \<bar>b\<bar>)" by (intro mult_left_mono abs_triangle_ineq4) simp
  also have "\<dots> \<le> A + B" unfolding distrib_left by (rule add_mono [OF assms])
  finally show ?thesis .
qed

lemma ModSwitch_noise:
  assumes ct: "lwe_wf (length key) ct" and q: "q \<noteq> 0" "GetMSB q \<le> MAX_MODULUS_SIZE" "uint q * uint (LWE_GetModulus ct) \<le> 2 ^ 50"
  shows "\<exists>ct' d. LWE_ModSwitch q ct = Inr ct' \<and> lwe_wf (length key) ct' \<and> LWE_GetModulus ct' = q
    \<and> rcong (uint q * uint (LWE_GetModulus ct)) (uint (LWE_GetModulus ct) * lwe_phase key ct') (uint q * lwe_phase key ct + d)
    \<and> 2 * \<bar>d\<bar> \<le> uint (LWE_GetModulus ct) * (1 + (\<Sum>s\<leftarrow>key. \<bar>s\<bar>))"
proof -
  define Q where "Q = LWE_GetModulus ct"
  define R where "R x = (2 * x * uint q + uint Q) div (2 * uint Q)" for x
  let ?n = "length key" and ?as = "nv_abs (m_a ct)" and ?b = "uint (m_b ct)"
  let ?ct = "\<lparr>m_a = \<lparr>m_data = map (\<lambda>x. LWE_RoundqQ x q Q) (m_data (m_a ct)), m_modulus = q\<rparr>, m_b = LWE_RoundqQ (m_b ct) q Q\<rparr>"
  have wf: "nv_wf (m_a ct)" "length (m_data (m_a ct)) = ?n" "m_b ct < Q" "m_modulus (m_a ct) = Q"
    using ct by (simp_all add: lwe_wf_def Q_def LWE_GetModulus_def NV_GetModulus_def)
  have Q: "0 < uint Q" "uint q * uint Q \<le> 2 ^ 50" using wf(1,4) q(3) uint_pos by (auto simp: nv_wf_def Q_def)
  have lt: "x < Q" if "x \<in> set (m_data (m_a ct))" for x using nv_wf_entry [OF wf(1) that] wf(4) by simp
  have val: "uint (LWE_RoundqQ x q Q) = R (uint x) mod uint q" if "x < Q" for x
    unfolding R_def by (rule RoundqQ_value [OF that q(1) Q(2)])
  have red: "LWE_RoundqQ x q Q < q" if "x < Q" for x
    using val [OF that] uint_pos [OF q(1)] by (simp add: word_less_def)
  have "\<exists>d. \<forall>x. uint Q * R x = uint q * x + d x \<and> 2 * \<bar>d x\<bar> \<le> uint Q"
    unfolding R_def by (intro choice allI) (metis round_error [OF Q(1)])
  then obtain d where d: "uint Q * R x = uint q * x + d x" "2 * \<bar>d x\<bar> \<le> uint Q" for x by blast
  define e where "e = d ?b - (\<Sum>i<?n. d (?as ! i) * key ! i)"
  have dt: "rcong (uint q) (dot (nv_abs (m_a ?ct)) key) (\<Sum>i<?n. R (?as ! i) * key ! i)"
    unfolding dot_def using wf(2) val lt by (intro rcong_sum rcong_mult) (simp_all add: nv_abs_def)
  have "rcong (uint q) (uint (m_b ?ct) - dot (nv_abs (m_a ?ct)) key) (R ?b - (\<Sum>i<?n. R (?as ! i) * key ! i))"
    using rcong_diff [OF _ dt, of "uint (m_b ?ct)" "R ?b"] val [OF wf(3)] by simp
  then have "rcong (uint q * uint Q) (uint Q * lwe_phase key ?ct) (uint Q * (R ?b - (\<Sum>i<?n. R (?as ! i) * key ! i)))"
    by (intro rcong_scale) (simp add: lwe_phase_def LWE_GetModulus_def NV_GetModulus_def)
  also have "uint Q * (R ?b - (\<Sum>i<?n. R (?as ! i) * key ! i)) = uint Q * R ?b - (\<Sum>i<?n. uint Q * R (?as ! i) * key ! i)"
    by (simp add: right_diff_distrib sum_distrib_left mult.assoc)
  also have "\<dots> = uint q * (?b - dot ?as key) + e"
    by (simp add: d(1) e_def dot_def sum_distrib_left sum.distrib algebra_simps)
  also have "rcong (uint q * uint Q) \<dots> (uint q * lwe_phase key ct + e)"
    using rcong_scale [of "uint Q" "?b - dot ?as key" "lwe_phase key ct" "uint q"]
    by (intro rcong_add) (simp_all add: lwe_phase_def Q_def mult.commute)
  finally have "rcong (uint q * uint Q) (uint Q * lwe_phase key ?ct) (uint q * lwe_phase key ct + e)" .
  moreover have "2 * \<bar>e\<bar> \<le> uint Q * (1 + (\<Sum>s\<leftarrow>key. \<bar>s\<bar>))"
  proof -
    have "\<bar>\<Sum>i<?n. d (?as ! i) * key ! i\<bar> \<le> (\<Sum>i<?n. \<bar>d (?as ! i) * key ! i\<bar>)" by (rule sum_abs)
    then have "2 * \<bar>\<Sum>i<?n. d (?as ! i) * key ! i\<bar> \<le> (\<Sum>i<?n. 2 * \<bar>d (?as ! i)\<bar> * \<bar>key ! i\<bar>)"
      by (simp add: abs_mult mult.assoc flip: sum_distrib_left)
    also have "\<dots> \<le> (\<Sum>i<?n. uint Q * \<bar>key ! i\<bar>)" using d(2) by (intro sum_mono mult_right_mono) auto
    also have "\<dots> = uint Q * (\<Sum>s\<leftarrow>key. \<bar>s\<bar>)" by (simp add: sum_distrib_left sum_list_sum_nth atLeast0LessThan)
    finally show ?thesis using abs_diff_bound [OF d(2) [of ?b]] unfolding e_def distrib_left mult_1_right by blast
  qed
  moreover have "lwe_wf ?n ?ct" using wf(2) red lt wf(3) q by (auto simp: lwe_wf_def nv_wf_def list_all_iff LWE_GetModulus_def NV_GetModulus_def)
  ultimately show ?thesis using ModSwitch_value [OF ct q(1,2)]
    by (intro exI [of _ ?ct] exI [of _ e]) (simp add: Q_def LWE_GetModulus_def NV_GetModulus_def)
qed

section \<open>Key switching\<close>

text \<open>Digit \<open>j\<close> of \<open>x\<close> to the base \<open>B\<close>, and the number its digits stand for.\<close>

definition base_digit :: "nat \<Rightarrow> nat \<Rightarrow> nat \<Rightarrow> nat" where
  "base_digit B x j = x div B ^ j mod B"

lemma digits_sum: "(\<Sum>j<D. base_digit B x j * B ^ j) = x mod B ^ D"
proof (induction D)
  case (Suc D)
  have "x mod (B ^ D * B) = B ^ D * (x div B ^ D mod B) + x mod B ^ D" by (rule mod_mult2_eq)
  then show ?case using Suc by (simp add: base_digit_def mult.commute)
qed simp

lemma digitsKS_eq: "digitsKS base D = map (\<lambda>k. of_nat (unat base ^ k)) [0..<D]"
proof -
  have c: "(ucast base :: NativeInt) = of_nat (unat base)" by simp
  let ?P = "\<lambda>i st. st = (map (\<lambda>k. of_nat (unat base ^ k)) [0..<i], of_nat (unat base ^ i) :: NativeInt)"
  have "?P D (for_range 0 D (\<lambda>i (digits, val). (digits @ [val], MulEqFast val (ucast base))) ([], 1))"
    by (rule for_range_invariant) (auto simp: MulEqFast_def c simp del: of_nat_unat)
  then show ?thesis by (simp add: digitsKS_def)
qed

lemma res_map_all: "(\<And>x. x \<in> set xs \<Longrightarrow> f x = Inr (g x)) \<Longrightarrow> res_map f xs = Inr (map g xs)"
  by (induction xs) auto

text \<open>What an entry of the switching key promises: an encryption of \<open>keyN ! i * j * B ^ k\<close> with noise \<open>e\<close>.\<close>

definition ks_entry :: "NativeInt \<Rightarrow> int list \<Rightarrow> int \<Rightarrow> NativeVector \<Rightarrow> NativeInt \<Rightarrow> bool" where
  "ks_entry Q key x A b \<longleftrightarrow> nv_wf A \<and> m_modulus A = Q \<and> length (m_data A) = length key \<and> b < Q
     \<and> rcong (uint Q) (uint b - dot (nv_abs A) key) x"

lemma KeySwitchGen_entry_correct:
  assumes Q: "lwe_modulus (length (int_key sk)) Q"
    and sv: "nv_wf sv" "m_modulus sv = Q" "length (m_data sv) = length (int_key sk)"
      "\<And>l. l < length (int_key sk) \<Longrightarrow> uint (m_data sv ! l) = int_key sk ! l mod uint Q"
    and svN: "i < length (m_data svN)" "uint (m_data svN ! i) = s mod uint Q"
    and A: "nv_wf (unif i j k)" "m_modulus (unif i j k) = Q" "length (m_data (unif i j k)) = length (int_key sk)"
    and j: "j < unat base" "k < D" "unat base ^ D < 2 ^ 64"
  shows "\<exists>b. KeySwitchGen_entry Q (digitsKS base D) sv svN (length (int_key sk)) noise unif i j k = Inr (unif i j k, b)
    \<and> ks_entry Q (int_key sk) (s * int (j * unat base ^ k) + uint (noise i j k)) (unif i j k) b"
proof -
  have q0: "Q \<noteq> 0" "Q \<le> 2 ^ 63" using lwe_modulus_size [OF Q] by auto
  have B: "1 \<le> unat base" using j(1) by simp
  have "unat base ^ Suc k \<le> unat base ^ D" using j(2) B by (intro power_increasing) auto
  moreover have "j * unat base ^ k \<le> unat base ^ Suc k" using j(1) by simp
  moreover have "1 * unat base ^ k \<le> unat base ^ Suc k" unfolding power_Suc using B by (intro mult_right_mono) auto
  ultimately have lt: "j * unat base ^ k < 2 ^ 64" using j(3) by linarith
  have w: "of_nat j * of_nat (unat base ^ k) = (of_nat (j * unat base ^ k) :: NativeInt)" by (simp only: of_nat_mult)
  have u: "uint (of_nat (j * unat base ^ k) :: NativeInt) = int (j * unat base ^ k)"
    using lt by (simp only: uint_nat unat_of_nat_64)
  let ?b = "ModAdd (noise i j k) (ModMul (m_data svN ! i) (of_nat (j * unat base ^ k)) Q) Q"
  have b: "uint ?b = (uint (noise i j k) + uint (m_data svN ! i) * int (j * unat base ^ k) mod uint Q) mod uint Q"
    by (simp only: ModAdd_value [OF q0] ModMul_value [OF q0(1)] u)
  then have bc: "rcong (uint Q) (uint ?b) (s * int (j * unat base ^ k) + uint (noise i j k))"
    using svN(2) rcong_mult [of "uint Q" "uint (m_data svN ! i)" s] by (simp add: add.commute rcong_add)
  have "?b < Q" using b uint_pos [OF q0(1)] by (simp add: word_less_def)
  then have "unat ?b < 2 * unat Q" by (simp add: word_less_nat_alt)
  then obtain r where r: "add_products (length (int_key sk)) (unif i j k) sv Q ?b = Inr r"
    "rcong (uint Q) (uint r) (uint ?b + dot (nv_abs (unif i j k)) (int_key sk))"
    using add_products_dot [OF Q A sv] by blast
  have "KeySwitchGen_entry Q (digitsKS base D) sv svN (length (int_key sk)) noise unif i j k = Inr (unif i j k, ModEq r Q)"
    using r(1) svN(1) j(2) w by (simp add: KeySwitchGen_entry_def elem_at_def digitsKS_eq vec_get_nth MulFast_def Let_def)
  moreover have "rcong (uint Q) (uint (ModEq r Q) - dot (nv_abs (unif i j k)) (int_key sk)) (s * int (j * unat base ^ k) + uint (noise i j k))"
    using rcong_diff [OF r(2) rcong_refl, of "dot (nv_abs (unif i j k)) (int_key sk)"] bc
    by (simp add: rcong_def uint_ModEq(1) [OF q0(1)] mod_diff_left_eq)
  ultimately show ?thesis using A uint_ModEq(2) [OF q0(1)] by (simp add: ks_entry_def)
qed

text \<open>A switching key from the integer key \<open>keyN\<close> to \<open>key\<close>, with the noise \<open>e i j k\<close> in entry \<open>i, j, k\<close>.\<close>

definition ks_key :: "NativeInt \<Rightarrow> int list \<Rightarrow> int list \<Rightarrow> nat \<Rightarrow> nat \<Rightarrow> (nat \<Rightarrow> nat \<Rightarrow> nat \<Rightarrow> int) \<Rightarrow> LWESwitchingKey \<Rightarrow> bool" where
  "ks_key Q key keyN B D e K \<longleftrightarrow> (\<exists>F. m_keyA K = map (\<lambda>i. map (\<lambda>j. map (\<lambda>k. fst (F i j k)) [0..<D]) [0..<B]) [0..<length keyN]
     \<and> m_keyB K = map (\<lambda>i. map (\<lambda>j. map (\<lambda>k. snd (F i j k)) [0..<D]) [0..<B]) [0..<length keyN]
     \<and> (\<forall>i<length keyN. \<forall>j<B. \<forall>k<D. ks_entry Q key (keyN ! i * int (j * B ^ k) + e i j k) (fst (F i j k)) (snd (F i j k))))"

lemma KeySwitchGen_correct:
  assumes keys: "nv_wf (m_s sk)" "nv_wf (m_s skN)" "unat (m_n params) = length (int_key sk)" "unat (m_N params) = length (int_key skN)"
    and Q: "lwe_modulus (length (int_key sk)) (m_qKS params)" and D: "unat (m_baseKS params) ^ dcount (m_qKS params) (m_baseKS params) < 2 ^ 64"
    and A: "\<And>i j k. nv_wf (unif i j k) \<and> m_modulus (unif i j k) = m_qKS params \<and> length (m_data (unif i j k)) = length (int_key sk)"
  shows "\<exists>K. LWE_KeySwitchGen dcount noise unif params sk skN = Inr K
    \<and> ks_key (m_qKS params) (int_key sk) (int_key skN) (unat (m_baseKS params)) (dcount (m_qKS params) (m_baseKS params))
        (\<lambda>i j k. uint (noise i j k)) K"
proof -
  let ?Q = "m_qKS params" and ?B = "unat (m_baseKS params)" and ?D = "dcount (m_qKS params) (m_baseKS params)"
  obtain sv where sv: "NV_SwitchModulus (m_s sk) ?Q = Inr sv" "nv_wf sv" "m_modulus sv = ?Q" "length (m_data sv) = length (int_key sk)"
    "\<And>i. i < length (int_key sk) \<Longrightarrow> uint (m_data sv ! i) = int_key sk ! i mod uint ?Q"
    using SwitchModulus_key [OF keys(1) Q] by blast
  obtain svN where svN: "NV_SwitchModulus (m_s skN) ?Q = Inr svN" "length (m_data svN) = length (int_key skN)"
    "\<And>i. i < length (int_key skN) \<Longrightarrow> uint (m_data svN ! i) = int_key skN ! i mod uint ?Q"
    using SwitchModulus_key [OF keys(2) Q] by blast
  let ?E = "\<lambda>i j k. KeySwitchGen_entry ?Q (digitsKS (m_baseKS params) ?D) sv svN (length (int_key sk)) noise unif i j k"
  define F where "F i j k = projr (?E i j k)" for i j k
  have F: "?E i j k = Inr (F i j k)"
    "ks_entry ?Q (int_key sk) (int_key skN ! i * int (j * ?B ^ k) + uint (noise i j k)) (fst (F i j k)) (snd (F i j k))"
    if "i < length (int_key skN)" "j < ?B" "k < ?D" for i j k
    using KeySwitchGen_entry_correct [OF Q sv(2-5), of i svN "int_key skN ! i" unif j k "m_baseKS params" ?D noise] A svN(2,3) that D
    by (auto simp: F_def)
  have "res_map (\<lambda>i. res_map (\<lambda>j. res_map (\<lambda>k. ?E i j k) [0..<?D]) [0..<?B]) [0..<length (int_key skN)]
      = Inr (map (\<lambda>i. map (\<lambda>j. map (\<lambda>k. F i j k) [0..<?D]) [0..<?B]) [0..<length (int_key skN)])"
    using F(1) by (intro res_map_all) auto
  then have "LWE_KeySwitchGen dcount noise unif params sk skN = Inr
      \<lparr>m_keyA = map (\<lambda>i. map (\<lambda>j. map (\<lambda>k. fst (F i j k)) [0..<?D]) [0..<?B]) [0..<length (int_key skN)],
       m_keyB = map (\<lambda>i. map (\<lambda>j. map (\<lambda>k. snd (F i j k)) [0..<?D]) [0..<?B]) [0..<length (int_key skN)]\<rparr>"
    using keys(3,4) sv(1) svN(1) by (simp add: LWE_KeySwitchGen_def Let_def)
  then show ?thesis using F(2) by (auto simp: ks_key_def)
qed

text \<open>Subtracting an entry of the key from the accumulated ciphertext.\<close>

lemma sub_entry:
  assumes "nv_wf a" "nv_wf A" "nv_compatible a A" "length (m_data a) = n"
  shows "\<exists>u. res_range 0 n (\<lambda>k a. res_bind (vec_get a k) (\<lambda>x. res_bind (vec_get A k) (\<lambda>y. vec_set a k (ModSubFastEq x y Q)))) a = Inr u
    \<and> u = a\<lparr>m_data := map2 (\<lambda>x y. ModSubFast x y Q) (m_data a) (m_data A)\<rparr>"
proof -
  let ?P = "\<lambda>k u. m_modulus u = m_modulus a \<and> length (m_data u) = n
    \<and> (\<forall>i<n. m_data u ! i = (if i < k then ModSubFast (m_data a ! i) (m_data A ! i) Q else m_data a ! i))"
  have len: "length (m_data A) = n" using assms(3,4) by (simp add: nv_compatible_def)
  have "\<exists>u. res_range 0 n (\<lambda>k a. res_bind (vec_get a k) (\<lambda>x. res_bind (vec_get A k) (\<lambda>y. vec_set a k (ModSubFastEq x y Q)))) a = Inr u \<and> ?P n u"
    by (rule res_range_invariant [where P = ?P]) (auto simp: assms(4) vec_get_nth vec_set_nth len nth_list_update inplace_eqs(5))
  then obtain u where u: "res_range 0 n (\<lambda>k a. res_bind (vec_get a k) (\<lambda>x. res_bind (vec_get A k) (\<lambda>y. vec_set a k (ModSubFastEq x y Q)))) a = Inr u" "?P n u"
    by blast
  have "m_data u = map2 (\<lambda>x y. ModSubFast x y Q) (m_data a) (m_data A)" using u(2) assms(4) len by (intro nth_equalityI) auto
  then have "u = a\<lparr>m_data := map2 (\<lambda>x y. ModSubFast x y Q) (m_data a) (m_data A)\<rparr>" using u(2) by (cases u; cases a) simp
  then show ?thesis using u(1) by blast
qed

lemma sub_entry_phase:
  assumes ct: "lwe_wf (length key) \<lparr>m_a = a, m_b = b\<rparr>" "m_modulus a = Q" and K: "ks_entry Q key x A B"
    and f: "rcong (uint Q) (uint b - dot (nv_abs a) key) f"
  obtains u where "res_range 0 (length key) (\<lambda>k a. res_bind (vec_get a k) (\<lambda>x. res_bind (vec_get A k) (\<lambda>y. vec_set a k (ModSubFastEq x y Q)))) a = Inr u"
    "lwe_wf (length key) \<lparr>m_a = u, m_b = ModSubFastEq b B Q\<rparr>" "m_modulus u = Q"
    "rcong (uint Q) (uint (ModSubFastEq b B Q) - dot (nv_abs u) key) (f - x)"
proof -
  let ?n = "length key"
  have a: "nv_wf a" "length (m_data a) = ?n" "b < Q" using ct by (simp_all add: lwe_wf_def LWE_GetModulus_def NV_GetModulus_def)
  have A: "nv_wf A" "m_modulus A = Q" "length (m_data A) = ?n" "B < Q" "rcong (uint Q) (uint B - dot (nv_abs A) key) x"
    using K by (simp_all add: ks_entry_def)
  have comp: "nv_compatible a A" using a(2) A(2,3) ct(2) by (simp add: nv_compatible_def)
  obtain u where u: "res_range 0 ?n (\<lambda>k a. res_bind (vec_get a k) (\<lambda>x. res_bind (vec_get A k) (\<lambda>y. vec_set a k (ModSubFastEq x y Q)))) a = Inr u"
    "u = a\<lparr>m_data := map2 (\<lambda>x y. ModSubFast x y Q) (m_data a) (m_data A)\<rparr>"
    using sub_entry [OF a(1) A(1) comp a(2)] by blast
  obtain w where "NV_ModSubEq a A = Inr w" "nv_wf w" "nv_compatible w a"
    "nv_abs w = map2 (\<lambda>x y. (x - y) mod uint Q) (nv_abs a) (nv_abs A)"
    using NV_subEq.vop_total [OF a(1) A(1) comp TrueI] ct(2) by auto
  moreover have "NV_ModSubEq a A = Inr u" using comp ct(2) by (simp add: NV_subEq.vop_eq u(2))
  ultimately have w: "nv_wf u" "nv_compatible u a" "nv_abs u = map2 (\<lambda>x y. (x + - 1 * y) mod uint Q) (nv_abs a) (nv_abs A)" by simp_all
  have q: "Q \<le> 2 ^ 63" using nv_wf_modulus(1) [OF A(1)] A(2) by simp
  have v: "uint (ModSubFastEq b B Q) = (uint b - uint B) mod uint Q" by (simp only: inplace_eqs(5) ModSubFast_value [OF q a(3) A(4)])
  have "rcong (uint Q) (dot (nv_abs u) key) (dot (nv_abs a) key + - 1 * dot (nv_abs A) key)"
    unfolding w(3) using a(2) A(3) by (intro dot_linear) (simp_all add: nv_abs_def)
  then have "rcong (uint Q) (uint (ModSubFastEq b B Q) - dot (nv_abs u) key) ((uint b - uint B) - (dot (nv_abs a) key + - 1 * dot (nv_abs A) key))"
    by (intro rcong_diff) (simp_all add: v)
  moreover have "rcong (uint Q) ((uint b - uint B) - (dot (nv_abs a) key + - 1 * dot (nv_abs A) key)) (f - x)"
    using rcong_diff [OF f A(5)] by (simp add: algebra_simps)
  ultimately have "rcong (uint Q) (uint (ModSubFastEq b B Q) - dot (nv_abs u) key) (f - x)" by (rule rcong_trans)
  moreover have "ModSubFastEq b B Q < Q" using v a(3) uint_pos [of Q] by (cases "Q = 0") (auto simp: word_less_def)
  ultimately show thesis using u(1) w(1,2) a(2) ct(2)
    by (intro that [of u]) (simp_all add: lwe_wf_def nv_compatible_def LWE_GetModulus_def NV_GetModulus_def)
qed

text \<open>The state of the loops: the accumulated ciphertext is well formed and has the phase \<open>f\<close>.\<close>

definition ks_state :: "NativeInt \<Rightarrow> int list \<Rightarrow> int \<Rightarrow> NativeVector \<Rightarrow> NativeInt \<Rightarrow> bool" where
  "ks_state Q key f a b \<longleftrightarrow> lwe_wf (length key) \<lparr>m_a = a, m_b = b\<rparr> \<and> m_modulus a = Q \<and> rcong (uint Q) (uint b - dot (nv_abs a) key) f"

lemma KeySwitch_digit_step:
  assumes K: "ks_key Q key keyN (unat base) D e K" and i: "i < length keyN" and j: "j < D" and B: "base \<noteq> 0"
    and atmp: "unat atmp = x div unat base ^ j" and st: "ks_state Q key f a b"
  shows "\<exists>atmp' a' b'. KeySwitch_digit K Q base (length key) i j (atmp, a, b) = Inr (atmp', a', b')
    \<and> unat atmp' = x div unat base ^ Suc j
    \<and> ks_state Q key (f - (keyN ! i * int (base_digit (unat base) x j * unat base ^ j) + e i (base_digit (unat base) x j) j)) a' b'"
proof -
  let ?d = "base_digit (unat base) x j"
  have B0: "0 < unat base" using B by (simp add: word_ge_0_nat)
  have ub: "unat (ucast base :: NativeInt) = unat base"
    using unat_lt_32 [of base] by (simp add: unsigned_ucast_eq take_bit_nat_eq_self)
  have c0: "(ucast base :: NativeInt) \<noteq> 0" using ub B0 by (simp add: word_ge_0_nat)
  have d: "unat (Mod atmp (ucast base)) = ?d" by (simp add: Mod_def unat_mod ub atmp base_digit_def)
  have lt: "?d < unat base" using B0 by (simp add: base_digit_def)
  obtain F where F: "m_keyA K = map (\<lambda>i. map (\<lambda>j. map (\<lambda>k. fst (F i j k)) [0..<D]) [0..<unat base]) [0..<length keyN]"
    "m_keyB K = map (\<lambda>i. map (\<lambda>j. map (\<lambda>k. snd (F i j k)) [0..<D]) [0..<unat base]) [0..<length keyN]"
    "ks_entry Q key (keyN ! i * int (?d * unat base ^ j) + e i ?d j) (fst (F i ?d j)) (snd (F i ?d j))"
    using K i j lt by (auto simp: ks_key_def)
  have st': "lwe_wf (length key) \<lparr>m_a = a, m_b = b\<rparr>" "m_modulus a = Q" "rcong (uint Q) (uint b - dot (nv_abs a) key) f"
    using st by (simp_all add: ks_state_def)
  obtain u where u: "res_range 0 (length key) (\<lambda>k a. res_bind (vec_get a k) (\<lambda>x. res_bind (vec_get (fst (F i ?d j)) k) (\<lambda>y. vec_set a k (ModSubFastEq x y Q)))) a = Inr u"
    "lwe_wf (length key) \<lparr>m_a = u, m_b = ModSubFastEq b (snd (F i ?d j)) Q\<rparr>" "m_modulus u = Q"
    "rcong (uint Q) (uint (ModSubFastEq b (snd (F i ?d j)) Q) - dot (nv_abs u) key) (f - (keyN ! i * int (?d * unat base ^ j) + e i ?d j))"
    using sub_entry_phase [OF st'(1,2) F(3) st'(3)] by blast
  have "KeySwitch_digit K Q base (length key) i j (atmp, a, b) = Inr (atmp div ucast base, u, ModSubFastEq b (snd (F i ?d j)) Q)"
    using u(1) i j lt c0 d by (simp add: KeySwitch_digit_def elem_at_def F(1,2) DividedByEq_def Let_def)
  moreover have "unat (atmp div ucast base) = x div unat base ^ Suc j"
    unfolding power_Suc2 by (simp add: unat_div ub atmp div_mult2_eq)
  ultimately show ?thesis using u(2-4) by (auto simp: ks_state_def)
qed

lemma KeySwitch_inner:
  assumes K: "ks_key Q key keyN (unat base) D e K" and i: "i < length keyN" and B: "base \<noteq> 0" and st: "ks_state Q key f a b"
    and x: "unat x < unat base ^ D"
  shows "\<exists>atmp' a' b'. res_range 0 D (\<lambda>j st. KeySwitch_digit K Q base (length key) i j st) (x, a, b) = Inr (atmp', a', b')
    \<and> ks_state Q key (f - (keyN ! i * uint x + (\<Sum>j<D. e i (base_digit (unat base) (unat x) j) j))) a' b'"
proof -
  let ?d = "base_digit (unat base) (unat x)"
  let ?f = "\<lambda>j. f - (\<Sum>l<j. keyN ! i * int (?d l * unat base ^ l) + e i (?d l) l)"
  let ?P = "\<lambda>j (atmp :: NativeInt, a, b). unat atmp = unat x div unat base ^ j \<and> ks_state Q key (?f j) a b"
  have "\<exists>st. res_range 0 D (\<lambda>j st. KeySwitch_digit K Q base (length key) i j st) (x, a, b) = Inr st \<and> ?P D st"
  proof (rule res_range_invariant [where P = ?P])
    show "?P 0 (x, a, b)" using st by simp
    fix j and st :: "NativeInt \<times> NativeVector \<times> NativeInt" assume j: "j < D" and P: "?P j st"
    obtain atmp a b where ab: "st = (atmp, a, b)" by (cases st)
    show "\<exists>st'. KeySwitch_digit K Q base (length key) i j st = Inr st' \<and> ?P (Suc j) st'"
      using KeySwitch_digit_step [OF K i j B, of atmp "unat x" "?f j" a b] P by (auto simp: ab algebra_simps)
  qed simp
  then obtain t a' b' where r: "res_range 0 D (\<lambda>j st. KeySwitch_digit K Q base (length key) i j st) (x, a, b) = Inr (t, a', b')"
    "ks_state Q key (?f D) a' b'" by auto
  have "(\<Sum>l<D. keyN ! i * int (?d l * unat base ^ l)) = keyN ! i * int (\<Sum>l<D. ?d l * unat base ^ l)"
    by (simp only: sum_distrib_left of_nat_sum)
  also have "\<dots> = keyN ! i * uint x" using x by (simp only: digits_sum mod_less uint_nat)
  finally show ?thesis using r by (simp add: sum.distrib)
qed

lemma KeySwitch_correct:
  assumes K: "ks_key (m_qKS params) key keyN (unat (m_baseKS params)) (dcount (m_qKS params) (m_baseKS params)) e K"
    and n: "unat (m_n params) = length key" "unat (m_N params) = length keyN" and B: "m_baseKS params \<noteq> 0"
    and D: "unat (m_qKS params) \<le> unat (m_baseKS params) ^ dcount (m_qKS params) (m_baseKS params)"
    and ct: "lwe_wf (length keyN) ct" "LWE_GetModulus ct = m_qKS params"
  shows "\<exists>ct'. LWE_KeySwitch dcount params K ct = Inr ct' \<and> lwe_wf (length key) ct' \<and> LWE_GetModulus ct' = m_qKS params
    \<and> rcong (uint (m_qKS params)) (lwe_phase key ct') (lwe_phase keyN ct
        - (\<Sum>i<length keyN. \<Sum>j<dcount (m_qKS params) (m_baseKS params).
             e i (base_digit (unat (m_baseKS params)) (unat (m_data (m_a ct) ! i)) j) j))"
proof -
  let ?Q = "m_qKS params" and ?B = "m_baseKS params" and ?D = "dcount (m_qKS params) (m_baseKS params)" and ?x = "\<lambda>i. m_data (m_a ct) ! i"
  let ?e = "\<lambda>i. \<Sum>j<?D. e i (base_digit (unat ?B) (unat (?x i)) j) j"
  let ?f = "\<lambda>i. uint (m_b ct) - (\<Sum>l<i. keyN ! l * uint (?x l) + ?e l)"
  let ?body = "\<lambda>i (a, b). res_bind (vec_get (m_a ct) i) (\<lambda>atmp.
     res_bind (res_range 0 ?D (\<lambda>j st. KeySwitch_digit K ?Q ?B (length key) i j st) (atmp, a, b)) (\<lambda>(atmp, a, b). Inr (a, b)))"
  have wf: "nv_wf (m_a ct)" "length (m_data (m_a ct)) = length keyN" "m_b ct < ?Q" "m_modulus (m_a ct) = ?Q"
    using ct by (simp_all add: lwe_wf_def LWE_GetModulus_def NV_GetModulus_def)
  have q: "?Q \<noteq> 0" "GetMSB ?Q \<le> MAX_MODULUS_SIZE" using wf(1,4) by (auto simp: nv_wf_def)
  let ?a0 = "\<lparr>m_data = replicate (length key) 0, m_modulus = ?Q\<rparr>"
  have new: "NV_new (length key) ?Q = Inr ?a0" using q(2) by (simp add: NV_new_def NV_SetModulus_def NV_empty_def)
  have "dot (nv_abs ?a0) key = 0" by (simp add: dot_def nv_abs_def)
  then have init: "ks_state ?Q key (?f 0) ?a0 (m_b ct)"
    using q wf(3) by (simp add: ks_state_def lwe_wf_def nv_wf_def LWE_GetModulus_def NV_GetModulus_def list_all_iff word_gt_0)
  have x: "unat (?x i) < unat ?B ^ ?D" if "i < length keyN" for i
    using nv_wf_nth [OF wf(1), of i] that wf(2,4) D by (simp add: word_less_nat_alt)
  have "\<exists>st. res_range 0 (length keyN) ?body (?a0, m_b ct) = Inr st \<and> (\<lambda>(a, b). ks_state ?Q key (?f (length keyN)) a b) st"
  proof (rule res_range_invariant [where P = "\<lambda>i (a, b). ks_state ?Q key (?f i) a b"])
    show "case (?a0, m_b ct) of (a, b) \<Rightarrow> ks_state ?Q key (?f 0) a b" using init by simp
    fix i st assume i: "i < length keyN" and P: "case st of (a, b) \<Rightarrow> ks_state ?Q key (?f i) a b"
    obtain a b where ab: "st = (a, b)" by (cases st)
    then have s: "ks_state ?Q key (?f i) a b" using P by simp
    obtain t a' b' where r: "res_range 0 ?D (\<lambda>j st. KeySwitch_digit K ?Q ?B (length key) i j st) (?x i, a, b) = Inr (t, a', b')"
      "ks_state ?Q key (?f i - (keyN ! i * uint (?x i) + ?e i)) a' b'"
      using KeySwitch_inner [OF K i B s x [OF i]] by blast
    have "?f i - (keyN ! i * uint (?x i) + ?e i) = ?f (Suc i)" by (simp only: sum.lessThan_Suc diff_diff_eq)
    then have r2: "ks_state ?Q key (?f (Suc i)) a' b'" using r(2) by (simp only:)
    then show "\<exists>st'. ?body i st = Inr st' \<and> (case st' of (a, b) \<Rightarrow> ks_state ?Q key (?f (Suc i)) a b)"
      using r(1) i wf(2) by (simp add: ab vec_get_nth del: sum.lessThan_Suc)
  qed simp
  then obtain a b where r: "res_range 0 (length keyN) ?body (?a0, m_b ct) = Inr (a, b)" "ks_state ?Q key (?f (length keyN)) a b" by auto
  have eq: "LWE_KeySwitch dcount params K ct = Inr \<lparr>m_a = a, m_b = b\<rparr>"
    using r(1) new B by (simp add: LWE_KeySwitch_def n Let_def)
  have "(\<Sum>l<length keyN. keyN ! l * uint (?x l) + ?e l) = dot (nv_abs (m_a ct)) keyN + (\<Sum>l<length keyN. ?e l)"
    using wf(2) by (simp add: sum.distrib dot_def nv_abs_def mult.commute)
  then have f: "?f (length keyN) = uint (m_b ct) - dot (nv_abs (m_a ct)) keyN - (\<Sum>l<length keyN. ?e l)" by simp
  have "rcong (uint ?Q) (lwe_phase key \<lparr>m_a = a, m_b = b\<rparr>) (lwe_phase keyN ct - (\<Sum>l<length keyN. ?e l))"
    using r(2) unfolding f
    by (simp add: ks_state_def lwe_phase_def LWE_GetModulus_def NV_GetModulus_def wf(4) rcong_def mod_diff_left_eq)
  then show ?thesis using r(2) eq by (auto simp: ks_state_def LWE_GetModulus_def NV_GetModulus_def)
qed

section \<open>Properties of the switching operations\<close>

text \<open>
  The rounding \<open>RoundqQ\<close>, computed in doubles with a product, a quotient, a sum and a floor, is the exact scaling
  \<open>v q / Q\<close> rounded to the nearest integer (halves up) modulo \<open>q\<close>, for all residues when \<open>q Q\<close> is at most \<open>2 ^ 50\<close>: no
  floating-point error reaches the result.
\<close>

theorem LWE_RoundqQ_exact:
  assumes "v < Q" "q \<noteq> 0" "uint q * uint Q \<le> 2 ^ 50"
  shows "uint (LWE_RoundqQ v q Q) = (2 * uint v * uint q + uint Q) div (2 * uint Q) mod uint q"
  by (rule RoundqQ_value [OF assms])

theorem LWE_RoundqQ_exact_witness: "uint (LWE_RoundqQ 100 64 1000) = 6"
  using LWE_RoundqQ_exact [of 100 1000 64] by simp

text \<open>
  C23: switching a ciphertext from \<open>Q\<close> to \<open>q\<close> gives a well-formed ciphertext whose phase is the old one scaled by \<open>q / Q\<close>, up to
  half a unit for the body and half a unit times the absolute values of the key for the mask.
\<close>

theorem LWE_ModSwitch_correct:
  assumes "lwe_wf (length (int_key sk)) ct" "q \<noteq> 0" "GetMSB q \<le> MAX_MODULUS_SIZE" "uint q * uint (LWE_GetModulus ct) \<le> 2 ^ 50"
  shows "\<exists>ct' d. LWE_ModSwitch q ct = Inr ct' \<and> lwe_wf (length (int_key sk)) ct' \<and> LWE_GetModulus ct' = q
    \<and> rcong (uint q * uint (LWE_GetModulus ct)) (uint (LWE_GetModulus ct) * lwe_phase (int_key sk) ct') (uint q * lwe_phase (int_key sk) ct + d)
    \<and> 2 * \<bar>d\<bar> \<le> uint (LWE_GetModulus ct) * (1 + (\<Sum>s\<leftarrow>int_key sk. \<bar>s\<bar>))"
  by (rule ModSwitch_noise [OF assms])

text \<open>
  C14: key switching: with a switching key made by \<open>KeySwitchGen\<close> from the long key \<open>skN\<close> to \<open>sk\<close>, \<open>KeySwitch\<close> turns a ciphertext
  under \<open>skN\<close> into a well-formed one under \<open>sk\<close> with the same phase up to the noise of the key entries it subtracts, at most one for every
  digit of every mask element. Both succeed for every choice of samples when \<open>baseKS ^ digitCount\<close> covers \<open>qKS\<close> and fits in 64 bits.
\<close>

theorem LWE_KeySwitch_correct:
  assumes keys: "nv_wf (m_s sk)" "nv_wf (m_s skN)" "unat (m_n params) = length (int_key sk)" "unat (m_N params) = length (int_key skN)"
    and Q: "lwe_modulus (length (int_key sk)) (m_qKS params)"
    and D: "dcount (m_qKS params) (m_baseKS params) = D" "unat (m_baseKS params) ^ D < 2 ^ 64" "unat (m_qKS params) \<le> unat (m_baseKS params) ^ D"
    and A: "\<And>i j k. nv_wf (unif i j k) \<and> m_modulus (unif i j k) = m_qKS params \<and> length (m_data (unif i j k)) = length (int_key sk)"
    and e: "\<And>i j k. noise i j k < m_qKS params \<and> \<bar>centered (m_qKS params) (noise i j k)\<bar> \<le> E" and B: "m_baseKS params \<noteq> 0"
    and ct: "lwe_wf (length (int_key skN)) ct" "LWE_GetModulus ct = m_qKS params"
  shows "\<exists>K ct' d. LWE_KeySwitchGen dcount noise unif params sk skN = Inr K \<and> LWE_KeySwitch dcount params K ct = Inr ct'
    \<and> lwe_wf (length (int_key sk)) ct' \<and> LWE_GetModulus ct' = m_qKS params
    \<and> rcong (uint (m_qKS params)) (lwe_phase (int_key sk) ct') (lwe_phase (int_key skN) ct + d) \<and> \<bar>d\<bar> \<le> int (length (int_key skN) * D) * E"
proof -
  let ?Q = "m_qKS params" and ?N = "length (int_key skN)"
  let ?g = "\<lambda>i j. base_digit (unat (m_baseKS params)) (unat (m_data (m_a ct) ! i)) j"
  define d where "d = - (\<Sum>i<?N. \<Sum>j<D. centered ?Q (noise i (?g i j) j))"
  obtain K where K: "LWE_KeySwitchGen dcount noise unif params sk skN = Inr K"
    "ks_key ?Q (int_key sk) (int_key skN) (unat (m_baseKS params)) D (\<lambda>i j k. uint (noise i j k)) K"
    using KeySwitchGen_correct [where dcount = dcount and unif = unif and noise = noise, OF keys Q _ A] D(1,2) by auto
  obtain ct' where ct': "LWE_KeySwitch dcount params K ct = Inr ct'" "lwe_wf (length (int_key sk)) ct'" "LWE_GetModulus ct' = ?Q"
    "rcong (uint ?Q) (lwe_phase (int_key sk) ct') (lwe_phase (int_key skN) ct - (\<Sum>i<?N. \<Sum>j<D. uint (noise i (?g i j) j)))"
    using KeySwitch_correct [OF _ keys(3,4) B _ ct, where dcount = dcount and K = K and e = "\<lambda>i j k. uint (noise i j k)"] K(2) D(1,3) by auto
  have "rcong (uint ?Q) (\<Sum>i<?N. \<Sum>j<D. uint (noise i (?g i j) j)) (- d)"
    unfolding d_def minus_minus using e by (intro rcong_sum centered_lt) blast
  then have "rcong (uint ?Q) (lwe_phase (int_key sk) ct') (lwe_phase (int_key skN) ct + d)"
    using rcong_trans [OF ct'(4) rcong_diff [OF rcong_refl]] by force
  moreover have "\<bar>d\<bar> \<le> int (?N * D) * E"
  proof -
    have "\<bar>d\<bar> \<le> (\<Sum>i<?N. \<Sum>j<D. \<bar>centered ?Q (noise i (?g i j) j)\<bar>)"
      unfolding d_def abs_minus_cancel by (intro order_trans [OF sum_abs] sum_mono sum_abs)
    also have "\<dots> \<le> (\<Sum>i<?N. \<Sum>j<D. E)" using e by (intro sum_mono) blast
    finally show ?thesis by (simp add: mult.assoc)
  qed
  ultimately show ?thesis using K(1) ct'(1-3) by blast
qed

text \<open>A toy key, masks and ciphertexts on which the hypotheses of the properties hold.\<close>

definition sample_sk :: LWEPrivateKey where
  "sample_sk = \<lparr>m_s = \<lparr>m_data = [1, 16], m_modulus = 17\<rparr>\<rparr>"

definition sample_mask :: NativeVector where
  "sample_mask = \<lparr>m_data = [50, 9], m_modulus = 64\<rparr>"

definition sample_ct1 :: LWECiphertext where
  "sample_ct1 = \<lparr>m_a = sample_mask, m_b = 60\<rparr>"

definition sample_ct2 :: LWECiphertext where
  "sample_ct2 = \<lparr>m_a = \<lparr>m_data = [5, 7], m_modulus = 64\<rparr>, m_b = 45\<rparr>"

definition sample_params :: LWECryptoParams where
  "sample_params = \<lparr>m_n = 2, m_N = 2, m_q = 64, m_Q = 97, m_qKS = 64, m_baseKS = 8\<rparr>"

lemma sample_msb: "GetMSB 64 = 7" "GetMSB 17 = 5" "GetMSB 16 = 5"
  by code_simp+

lemma sample_key [simp]: "int_key sample_sk = [1, - 1]"
  by (simp add: int_key_def sample_sk_def centered_def)

lemma sample_sizes: "nv_wf (m_s sample_sk)" "nv_wf sample_mask" "lwe_modulus (Suc (Suc 0)) 64" "decrypt_ok sample_sk 4 64"
  "lwe_wf (Suc (Suc 0)) sample_ct1" "lwe_wf (Suc (Suc 0)) sample_ct2" "LWE_GetModulus sample_ct1 = 64" "LWE_GetModulus sample_ct2 = 64"
  by (simp_all add: nv_wf_def sample_sk_def sample_mask_def sample_msb MAX_MODULUS_SIZE_def lwe_modulus_def barrett_modulus_def
      decrypt_ok_def lwe_wf_def sample_ct1_def sample_ct2_def LWE_GetModulus_def NV_GetModulus_def int_key_def)

lemma sample_encrypts: "lwe_encrypts sample_sk 4 sample_ct1 1 3" "lwe_encrypts sample_sk 4 sample_ct2 3 (- 1)"
  using sample_sizes
  by (simp_all add: lwe_encrypts_def lwe_phase_def sample_ct1_def sample_ct2_def sample_mask_def dot_def nv_abs_def rcong_def)

theorem LWE_Encrypt_Decrypt_witness:
  "\<exists>ct. LWE_Encrypt 3 sample_mask sample_sk 6 4 64 = Inr ct \<and> LWE_Decrypt sample_sk ct 4 = Inr 2"
  using LWE_Encrypt_Decrypt [of sample_sk 4 64 sample_mask 3 6] sample_sizes
  by (auto simp: noise_ok_def centered_def sample_mask_def)

theorem LWE_homomorphic_witness:
  "\<exists>ct. LWE_EvalAddEq sample_ct1 sample_ct2 = Inr ct \<and> LWE_Decrypt sample_sk ct 4 = Inr 0"
  using LWE_homomorphic [of sample_sk 4 sample_ct1 1 3 sample_ct2 3 "- 1" 5] sample_sizes sample_encrypts
  by (auto simp: noise_ok_def)

theorem LWE_ModSwitch_correct_witness:
  "\<exists>ct' d. LWE_ModSwitch 16 sample_ct1 = Inr ct' \<and> LWE_GetModulus ct' = 16 \<and> 2 * \<bar>d\<bar> \<le> (192 :: int)
    \<and> rcong 1024 (64 * lwe_phase (int_key sample_sk) ct') (16 * lwe_phase (int_key sample_sk) sample_ct1 + d)"
  using LWE_ModSwitch_correct [of sample_sk sample_ct1 16] sample_sizes(5,7) sample_msb(3) by (auto simp: MAX_MODULUS_SIZE_def)

theorem LWE_KeySwitch_correct_witness:
  "\<exists>K ct' d. LWE_KeySwitchGen (\<lambda>_ _. 2) (\<lambda>_ _ _. 1) (\<lambda>_ _ _. sample_mask) sample_params sample_sk sample_sk = Inr K
    \<and> LWE_KeySwitch (\<lambda>_ _. 2) sample_params K sample_ct1 = Inr ct'
    \<and> rcong 64 (lwe_phase (int_key sample_sk) ct') (lwe_phase (int_key sample_sk) sample_ct1 + d) \<and> \<bar>d\<bar> \<le> (4 :: int)"
  using LWE_KeySwitch_correct [of sample_sk sample_sk sample_params "\<lambda>_ _. 2" 2 "\<lambda>_ _ _. sample_mask" "\<lambda>_ _ _. 1" 1 sample_ct1] sample_sizes
  by (auto simp: sample_params_def centered_def sample_mask_def)

end
