(* ===== verification/RGSW.thy ===== *)
theory RGSW
  imports LWE Ring
begin

text \<open>
  The RingGSW accumulators of \<open>src/binfhe\<close>: the parameters with their precomputed tables (\<open>rgsw-cryptoparameters.h\<close> and
  \<open>.cpp\<close>), the signed digit decomposition (\<open>rgsw-acc.cpp\<close>), and key generation and accumulation for the variants of
  Ducas-Micciancio (\<open>rgsw-acc-dm.cpp\<close>) and of Chillotti et al. (\<open>rgsw-acc-cggi.cpp\<close>). The fields of the parameter class, \<open>m_N\<close> and
  so on in the source, have the prefix \<open>rg_\<close> here, because \<open>LWECryptoParams\<close> has fields of the same names.

  Every operation that changes the format of a polynomial takes and returns the table cache \<open>T\<close> of the transform. The samples of the
  generators are arguments. The sources dump the first 1024 entries of many polynomials to text files; the files
  are not modelled, but the reads are: \<open>dump\<close> fails where they run past the end of a vector.
\<close>

section \<open>Element access\<close>

definition poly_get :: "Poly \<Rightarrow> nat \<Rightarrow> NativeInt result" where
  "poly_get p i = res_bind (deref (m_values p)) (\<lambda>v. vec_get v i)"

definition poly_put :: "Poly \<Rightarrow> nat \<Rightarrow> NativeInt \<Rightarrow> Poly result" where
  "poly_put p i x = res_bind (deref (m_values p)) (\<lambda>v. res_bind (vec_set v i x) (\<lambda>v. Inr (p\<lparr>m_values := Some v\<rparr>)))"

definition poly_upd :: "Poly \<Rightarrow> nat \<Rightarrow> (NativeInt \<Rightarrow> NativeInt) \<Rightarrow> Poly result" where
  "poly_upd p i f = res_bind (poly_get p i) (\<lambda>x. poly_put p i (f x))"

definition elem_upd :: "'a list \<Rightarrow> nat \<Rightarrow> ('a \<Rightarrow> 'a result) \<Rightarrow> 'a list result" where
  "elem_upd xs i f = res_bind (elem_at xs i) (\<lambda>x. res_bind (f x) (\<lambda>y. Inr (xs[i := y])))"

definition dump :: "Poly \<Rightarrow> unit result" where
  "dump p = res_bind (deref (m_values p)) (\<lambda>v. if 1024 \<le> length (m_data v) then Inr () else Inl out_of_bounds)"

text \<open>\<open>SetFormat\<close> on all the elements of a vector.\<close>

fun set_formats :: "arb_transform \<Rightarrow> Format \<Rightarrow> Poly list \<Rightarrow> FTTTables \<Rightarrow> (Poly list \<times> FTTTables) result" where
  "set_formats arb format [] T = Inr ([], T)"
| "set_formats arb format (p # ps) T =
     res_bind (Poly_SetFormat arb p format T) (\<lambda>(p, T).
     res_bind (set_formats arb format ps T) (\<lambda>(ps, T). Inr (p # ps, T)))"

section \<open>Parameters\<close>

datatype BINFHE_METHOD = INVALID_METHOD | AP | GINX

record RingGSWCryptoParams =
  rg_N :: usint
  rg_Q :: NativeInt
  rg_q :: NativeInt
  rg_baseG :: usint
  rg_digitsG :: usint
  rg_baseR :: usint
  rg_digitsR :: "NativeInt list"
  rg_Gpower :: "NativeInt list"
  rg_Gpower_map :: "usint \<Rightarrow> NativeInt list option"
  rg_polyParams :: ILParams
  rg_gateConst :: "NativeInt list"
  rg_monomials :: "Poly list"
  rg_method :: BINFHE_METHOD

definition Gpowers :: "usint \<Rightarrow> NativeInt \<Rightarrow> nat \<Rightarrow> NativeInt list" where
  "Gpowers baseG Q count =
     fst (for_range 0 count (\<lambda>i (pows, vTemp). (pows @ [vTemp], ModMul vTemp (ucast baseG) Q)) ([], 1))"

definition gate_constants :: "NativeInt \<Rightarrow> NativeInt list" where
  "gate_constants q = [5 * RShift q 3, 7 * RShift q 3, 1 * RShift q 3, 3 * RShift q 3, 5 * RShift q 3, 1 * RShift q 3]"

text \<open>The polynomials \<open>x ^ i - 1\<close> and \<open>- x ^ i - 1\<close> in evaluation format.\<close>

definition monomial_poly :: "arb_transform \<Rightarrow> ILParams \<Rightarrow> NativeInt \<Rightarrow> bool \<Rightarrow> nat \<Rightarrow> FTTTables \<Rightarrow> (Poly \<times> FTTTables) result" where
  "monomial_poly arb prm Q positive i T =
     res_bind (Poly_new prm COEFFICIENT True) (\<lambda>aPoly.
     res_bind (poly_upd aPoly i (\<lambda>x. if positive then ModAddEq x 1 Q else ModSubEq x 1 Q)) (\<lambda>aPoly.
     res_bind (poly_upd aPoly 0 (\<lambda>x. ModSubEq x 1 Q)) (\<lambda>aPoly.
     Poly_SetFormat arb aPoly EVALUATION T)))"

definition monomials :: "arb_transform \<Rightarrow> ILParams \<Rightarrow> NativeInt \<Rightarrow> nat \<Rightarrow> FTTTables \<Rightarrow> (Poly list \<times> FTTTables) result" where
  "monomials arb prm Q N T =
     res_bind (res_range 0 N (\<lambda>i (ps, T). res_bind (monomial_poly arb prm Q True i T) (\<lambda>(p, T). Inr (ps @ [p], T))) ([], T)) (\<lambda>(ps, T).
     res_range 0 N (\<lambda>i (ps, T). res_bind (monomial_poly arb prm Q False i T) (\<lambda>(p, T). Inr (ps @ [p], T))) (ps, T))"

text \<open>The body the constructor shares with \<open>PreCompute\<close>; \<open>dcount\<close> is the digit count the C library's logarithm gives.\<close>

definition RGSW_PreCompute :: "arb_transform \<Rightarrow> (NativeInt \<Rightarrow> usint \<Rightarrow> nat) \<Rightarrow> bool \<Rightarrow> RingGSWCryptoParams \<Rightarrow> FTTTables \<Rightarrow>
    (RingGSWCryptoParams \<times> FTTTables) result" where
  "RGSW_PreCompute arb dcount signEval prm T =
     (let prm = (if rg_method prm = AP
                 then prm\<lparr>rg_digitsR := rg_digitsR prm @ digitsKS (rg_baseR prm) (dcount (rg_q prm) (rg_baseR prm))\<rparr> else prm);
          prm = (if signEval
                 then for_range 0 3 (\<lambda>j prm.
                        let baseG = [2 ^ 14, 2 ^ 18, 2 ^ 27] ! j;
                            tempvec = Gpowers baseG (rg_Q prm) (dcount (rg_Q prm) baseG);
                            prm = prm\<lparr>rg_Gpower_map := (rg_Gpower_map prm)(baseG \<mapsto> tempvec)\<rparr>
                        in if rg_baseG prm = baseG then prm\<lparr>rg_Gpower := tempvec\<rparr> else prm) prm
                 else prm\<lparr>rg_Gpower := rg_Gpower prm @ Gpowers (rg_baseG prm) (rg_Q prm) (unat (rg_digitsG prm))\<rparr>);
          prm = prm\<lparr>rg_gateConst := gate_constants (rg_q prm)\<rparr>
      in if rg_method prm = GINX
         then res_bind (monomials arb (rg_polyParams prm) (rg_Q prm) (unat (rg_N prm)) T) (\<lambda>(ps, T).
              Inr (prm\<lparr>rg_monomials := rg_monomials prm @ ps\<rparr>, T))
         else Inr (prm, T))"

definition RGSW_new :: "arb_transform \<Rightarrow> (NativeInt \<Rightarrow> usint \<Rightarrow> nat) \<Rightarrow> (usint \<Rightarrow> 'g \<Rightarrow> usint \<times> 'g) \<Rightarrow> nat \<Rightarrow>
    usint \<Rightarrow> NativeInt \<Rightarrow> NativeInt \<Rightarrow> usint \<Rightarrow> usint \<Rightarrow> BINFHE_METHOD \<Rightarrow> bool \<Rightarrow> FTTTables \<Rightarrow> 'g \<Rightarrow>
    ((RingGSWCryptoParams \<times> FTTTables) \<times> 'g) result option" where
  "RGSW_new arb dcount unif fuel N Q q baseG baseR method signEval T g =
     (if \<not> IsPowerOfTwo baseG then Some (Inl config_error)
      else (case RootOfUnity fuel unif fuel (2 * N) Q g of None \<Rightarrow> None
      | Some (Inl e) \<Rightarrow> Some (Inl e)
      | Some (Inr (root0, g)) \<Rightarrow>
     (case FTT_PreCompute root0 (2 * N) Q T of Inl e \<Rightarrow> Some (Inl e)
      | Inr T \<Rightarrow>
     (case ElemParams_new unif fuel (2 * N) Q root0 0 0 g of None \<Rightarrow> None
      | Some (polyParams, g) \<Rightarrow>
          Some (res_bind (RGSW_PreCompute arb dcount signEval
            \<lparr>rg_N = N, rg_Q = Q, rg_q = q, rg_baseG = baseG, rg_digitsG = of_nat (dcount Q baseG), rg_baseR = baseR,
             rg_digitsR = [], rg_Gpower = [], rg_Gpower_map = Map.empty, rg_polyParams = polyParams, rg_gateConst = [],
             rg_monomials = [], rg_method = method\<rparr> T) (\<lambda>r. Inr (r, g)))))))"

definition RGSW_Change_BaseG :: "(NativeInt \<Rightarrow> usint \<Rightarrow> nat) \<Rightarrow> RingGSWCryptoParams \<Rightarrow> usint \<Rightarrow> RingGSWCryptoParams" where
  "RGSW_Change_BaseG dcount prm BaseG =
     (if rg_baseG prm \<noteq> BaseG then
        (let entry = (case rg_Gpower_map prm BaseG of None \<Rightarrow> [] | Some v \<Rightarrow> v)
         in prm\<lparr>rg_baseG := BaseG, rg_Gpower_map := (rg_Gpower_map prm)(BaseG \<mapsto> entry), rg_Gpower := entry,
                rg_digitsG := of_nat (dcount (rg_Q prm) BaseG)\<rparr>)
      else prm)"

section \<open>Signed digit decomposition\<close>

text \<open>The integer part of the logarithm of a number up to \<open>2 ^ 32\<close>.\<close>

definition trunc_log2 :: "usint \<Rightarrow> nat" where
  "trunc_log2 x = floorlog 2 (unat x) - 1"

definition sdd_digit :: "NativeInt \<Rightarrow> nat \<Rightarrow> nat \<Rightarrow> nat \<Rightarrow> nat \<Rightarrow> NativeInt \<times> Poly list \<Rightarrow> (NativeInt \<times> Poly list) result" where
  "sdd_digit Q gBits j k l st =
     (case st of (d, output) \<Rightarrow>
        let gBitsMaxBits = 64 - gBits;
            r = signed_drop_bit gBitsMaxBits (push_bit gBitsMaxBits d);
            d = d - r;
            d = signed_drop_bit gBits d;
            r = (if sint r < 0 then r + Q else r)
        in res_bind (elem_upd output (j + 2 * l) (\<lambda>p. poly_upd p k (\<lambda>x. AddEqFast x r))) (\<lambda>output. Inr (d, output)))"

definition SignedDigitDecompose :: "RingGSWCryptoParams \<Rightarrow> Poly list \<Rightarrow> Poly list \<Rightarrow> Poly list result" where
  "SignedDigitDecompose params input output =
     (let N = unat (rg_N params); digitsG = unat (rg_digitsG params); Q = rg_Q params; QHalf = RShift Q 1;
          gBits = trunc_log2 (rg_baseG params)
      in res_range 0 2 (\<lambda>j output. res_range 0 N (\<lambda>k output.
           res_bind (elem_at input j) (\<lambda>p. res_bind (poly_get p k) (\<lambda>t.
           let d = (if t < QHalf then t else t - Q)
           in res_bind (res_range 0 digitsG (sdd_digit Q gBits j k) (d, output)) (\<lambda>(d, output). Inr output)))) output) output)"

section \<open>Key generation\<close>

text \<open>A RingGSW key: the rows \<open>[a, b]\<close> of \<open>RingGSWEvalKeyImpl\<close>; an RLWE ciphertext is one such row.\<close>

type_synonym RingGSWEvalKey = "Poly list list"

definition key_upd :: "RingGSWEvalKey \<Rightarrow> nat \<Rightarrow> nat \<Rightarrow> (Poly \<Rightarrow> Poly result) \<Rightarrow> RingGSWEvalKey result" where
  "key_upd ek i j f = elem_upd ek i (\<lambda>row. elem_upd row j f)"

definition key_at :: "RingGSWEvalKey \<Rightarrow> nat \<Rightarrow> nat \<Rightarrow> Poly result" where
  "key_at ek i j = res_bind (elem_at ek i) (\<lambda>row. elem_at row j)"

text \<open>\<open>RingGSWEvalKeyImpl::SetFormat\<close>.\<close>

fun key_SetFormat :: "arb_transform \<Rightarrow> Format \<Rightarrow> RingGSWEvalKey \<Rightarrow> FTTTables \<Rightarrow> (RingGSWEvalKey \<times> FTTTables) result" where
  "key_SetFormat arb format [] T = Inr ([], T)"
| "key_SetFormat arb format (row # ek) T =
     res_bind (set_formats arb format row T) (\<lambda>(row, T).
     res_bind (key_SetFormat arb format ek T) (\<lambda>(ek, T). Inr (row # ek, T)))"

text \<open>The rows \<open>[a, e]\<close> from the samples, with the copies \<open>tempA\<close> of \<open>a\<close>.\<close>

definition key_rows :: "arb_transform \<Rightarrow> ILParams \<Rightarrow> (nat \<Rightarrow> NativeVector) \<Rightarrow> (nat \<Rightarrow> NativeVector) \<Rightarrow> nat \<Rightarrow> FTTTables \<Rightarrow>
    (RingGSWEvalKey \<times> Poly list \<times> FTTTables) result" where
  "key_rows arb prm unif noise digitsG2 T =
     res_range 0 digitsG2 (\<lambda>i (ek, tempA, T).
       res_bind (Poly_of_generator arb (unif i) prm COEFFICIENT T) (\<lambda>(a, T).
       res_bind (Poly_of_generator arb (noise i) prm COEFFICIENT T) (\<lambda>(e, T).
       Inr (ek @ [[a, e]], tempA @ [a], T)))) ([], [], T)"

text \<open>\<open>(*result)[i][1] += tempA[i] * skNTT\<close> for all rows.\<close>

definition add_masks :: "arb_transform \<Rightarrow> Poly \<Rightarrow> nat \<Rightarrow> Poly list \<Rightarrow> RingGSWEvalKey \<Rightarrow> FTTTables \<Rightarrow> (RingGSWEvalKey \<times> FTTTables) result" where
  "add_masks arb skNTT digitsG2 tempA ek T =
     res_range 0 digitsG2 (\<lambda>i (ek, T).
       res_bind (elem_at tempA i) (\<lambda>t.
       res_bind (Poly_SetFormat arb t EVALUATION T) (\<lambda>(t, T).
       res_bind (Poly_Times t skNTT) (\<lambda>ts.
       res_bind (key_upd ek i 1 (\<lambda>b. Poly_PlusEq b ts)) (\<lambda>ek. Inr (ek, T)))))) (ek, T)"

definition KeyGenCGGI :: "arb_transform \<Rightarrow> RingGSWCryptoParams \<Rightarrow> Poly \<Rightarrow> int \<Rightarrow> (nat \<Rightarrow> NativeVector) \<Rightarrow> (nat \<Rightarrow> NativeVector) \<Rightarrow> FTTTables \<Rightarrow>
    (RingGSWEvalKey \<times> FTTTables) result" where
  "KeyGenCGGI arb params skNTT m unif noise T =
     (let Q = rg_Q params; digitsG = rg_digitsG params; digitsG2 = unat (push_bit 1 digitsG); Gpow = rg_Gpower params
      in res_bind (key_rows arb (rg_polyParams params) unif noise digitsG2 T) (\<lambda>(ek, tempA, T).
         res_bind (if m > 0 then
             res_range 0 (unat digitsG) (\<lambda>i ek.
               res_bind (elem_at Gpow i) (\<lambda>G.
               res_bind (key_upd ek (2 * i) 0 (\<lambda>p. poly_upd p 0 (\<lambda>x. ModAddEq x G Q))) (\<lambda>ek.
               key_upd ek (2 * i + 1) 1 (\<lambda>p. poly_upd p 0 (\<lambda>x. ModAddEq x G Q))))) ek
           else Inr ek) (\<lambda>ek.
         res_bind (key_SetFormat arb EVALUATION ek T) (\<lambda>(ek, T).
         add_masks arb skNTT digitsG2 tempA ek T))))"

text \<open>
  The exponent \<open>mm\<close> of the Ducas-Micciancio key: \<open>((m % q) + q) % q\<close> in 64-bit unsigned arithmetic, \<open>2 * N / q\<close> with a 32-bit product.
\<close>

definition dm_exponent :: "RingGSWCryptoParams \<Rightarrow> int \<Rightarrow> NativeInt" where
  "dm_exponent params m =
     (let q = rg_q params; N = rg_N params in ((word_of_int m mod q) + q) mod q * (ucast (2 * N) div q))"

definition KeyGenDM :: "arb_transform \<Rightarrow> RingGSWCryptoParams \<Rightarrow> Poly \<Rightarrow> int \<Rightarrow> (nat \<Rightarrow> NativeVector) \<Rightarrow> (nat \<Rightarrow> NativeVector) \<Rightarrow> FTTTables \<Rightarrow>
    (RingGSWEvalKey \<times> FTTTables) result" where
  "KeyGenDM arb params skNTT m unif noise T =
     (let Q = rg_Q params; digitsG = rg_digitsG params; digitsG2 = unat (push_bit 1 digitsG); Gpow = rg_Gpower params;
          mm = dm_exponent params m; isReducedMM = (sint mm \<ge> uint (rg_N params)); mm = (if isReducedMM then mm - ucast (rg_N params) else mm)
      in if rg_q params = 0 then Inl div_by_zero
         else res_bind (key_rows arb (rg_polyParams params) unif noise digitsG2 T) (\<lambda>(ek, tempA, T).
         res_bind (res_range 0 (unat digitsG) (\<lambda>i ek.
               res_bind (elem_at Gpow i) (\<lambda>G.
               let upd = (\<lambda>x. if isReducedMM then ModSubEq x G Q else ModAddEq x G Q)
               in res_bind (key_upd ek (2 * i) 0 (\<lambda>p. poly_upd p (unat mm) upd)) (\<lambda>ek.
                  key_upd ek (2 * i + 1) 1 (\<lambda>p. poly_upd p (unat mm) upd)))) ek) (\<lambda>ek.
         res_bind (key_SetFormat arb EVALUATION ek T) (\<lambda>(ek, T).
         add_masks arb skNTT digitsG2 tempA ek T))))"

text \<open>
  \<open>KeyGenAcc\<close>: the entries of the LWE key as 32-bit signed numbers around 0, and a RingGSW key for each. \<open>unif\<close> and \<open>noise\<close> are the
  samples of the keys, by their indices.
\<close>

definition lwe_key_entry :: "NativeVector \<Rightarrow> nat \<Rightarrow> int result" where
  "lwe_key_entry sv i =
     (let md = signed_take_bit 31 (uint (NV_GetModulus sv)); modHalf = md div 2
      in res_bind (vec_get sv i) (\<lambda>x.
         let s = signed_take_bit 31 (uint x) in Inr (if s > modHalf then s - md else s)))"

definition KeyGenAcc_CGGI :: "arb_transform \<Rightarrow> RingGSWCryptoParams \<Rightarrow> Poly \<Rightarrow> LWEPrivateKey \<Rightarrow>
    (nat \<Rightarrow> nat \<Rightarrow> nat \<Rightarrow> NativeVector) \<Rightarrow> (nat \<Rightarrow> nat \<Rightarrow> nat \<Rightarrow> NativeVector) \<Rightarrow> FTTTables \<Rightarrow> ((RingGSWEvalKey \<times> RingGSWEvalKey) list \<times> FTTTables) result" where
  "KeyGenAcc_CGGI arb params skNTT LWEsk unif noise T =
     (let sv = m_s LWEsk
      in res_range 0 (NV_GetLength sv) (\<lambda>i (ek, T).
           res_bind (lwe_key_entry sv i) (\<lambda>s.
           if s = 0 \<or> s = 1 \<or> s = - 1 then
             res_bind (KeyGenCGGI arb params skNTT (if s = 1 then 1 else 0) (unif i 0) (noise i 0) T) (\<lambda>(k1, T).
             res_bind (KeyGenCGGI arb params skNTT (if s = - 1 then 1 else 0) (unif i 1) (noise i 1) T) (\<lambda>(k2, T).
             Inr (ek @ [(k1, k2)], T)))
           else Inl not_implemented_error)) ([], T))"

definition KeyGenAcc_DM :: "arb_transform \<Rightarrow> RingGSWCryptoParams \<Rightarrow> Poly \<Rightarrow> LWEPrivateKey \<Rightarrow>
    (nat \<Rightarrow> nat \<Rightarrow> nat \<Rightarrow> nat \<Rightarrow> NativeVector) \<Rightarrow> (nat \<Rightarrow> nat \<Rightarrow> nat \<Rightarrow> nat \<Rightarrow> NativeVector) \<Rightarrow> FTTTables \<Rightarrow>
    ((nat \<times> nat \<times> nat \<Rightarrow> RingGSWEvalKey option) \<times> FTTTables) result" where
  "KeyGenAcc_DM arb params skNTT LWEsk unif noise T =
     (let sv = m_s LWEsk; baseR = unat (rg_baseR params); digitsR = rg_digitsR params
      in res_range 0 (NV_GetLength sv) (\<lambda>i st. res_range 1 baseR (\<lambda>j st. res_range 0 (length digitsR) (\<lambda>k (ek, T).
           res_bind (lwe_key_entry sv i) (\<lambda>s.
           res_bind (KeyGenDM arb params skNTT (s * int j * signed_take_bit 31 (uint (digitsR ! k))) (unif i j k) (noise i j k) T)
             (\<lambda>(key, T). Inr (ek((i, j, k) \<mapsto> key), T)))) st) st) (Map.empty, T))"

section \<open>Accumulation\<close>

text \<open>The terms \<open>dct[l] * ev[l][c]\<close> of an external product added to \<open>acc0\<close>; \<open>mult\<close> is \<open>operator*\<close> or \<open>operator*=\<close>.\<close>

definition add_products_poly :: "(Poly \<Rightarrow> Poly \<Rightarrow> Poly result) \<Rightarrow> nat \<Rightarrow> nat \<Rightarrow> Poly list \<Rightarrow> RingGSWEvalKey \<Rightarrow> Poly \<Rightarrow> Poly result" where
  "add_products_poly mult digitsG2 c dct ev acc0 =
     res_range 1 digitsG2 (\<lambda>l acc.
       res_bind (elem_at dct l) (\<lambda>d. res_bind (key_at ev l c) (\<lambda>e.
       res_bind (mult d e) (\<lambda>t. Poly_PlusEq acc t)))) acc0"

definition external_product :: "(Poly \<Rightarrow> Poly \<Rightarrow> Poly result) \<Rightarrow> nat \<Rightarrow> nat \<Rightarrow> Poly list \<Rightarrow> RingGSWEvalKey \<Rightarrow> Poly result" where
  "external_product mult digitsG2 c dct ev =
     res_bind (elem_at dct 0) (\<lambda>d. res_bind (key_at ev 0 c) (\<lambda>e.
     res_bind (Poly_Times d e) (\<lambda>t. add_products_poly mult digitsG2 c dct ev t)))"

text \<open>The digit polynomials of an accumulator, in coefficient format.\<close>

definition acc_digits :: "arb_transform \<Rightarrow> RingGSWCryptoParams \<Rightarrow> Poly list \<Rightarrow> FTTTables \<Rightarrow> (Poly list \<times> Poly list \<times> FTTTables) result" where
  "acc_digits arb params acc T =
     (let digitsG2 = unat (push_bit 1 (rg_digitsG params))
      in res_bind (res_map (\<lambda>i. Poly_new (rg_polyParams params) COEFFICIENT True) [0..<digitsG2]) (\<lambda>dct.
         res_bind (set_formats arb COEFFICIENT (take 2 acc) T) (\<lambda>(ct, T).
         res_bind (SignedDigitDecompose params ct dct) (\<lambda>dct. Inr (ct, dct, T)))))"

definition AddToAccDM :: "arb_transform \<Rightarrow> RingGSWCryptoParams \<Rightarrow> RingGSWEvalKey \<Rightarrow> Poly list \<Rightarrow> FTTTables \<Rightarrow> (Poly list \<times> FTTTables) result" where
  "AddToAccDM arb params ek acc T =
     (let digitsG2 = unat (push_bit 1 (rg_digitsG params))
      in res_bind (acc_digits arb params acc T) (\<lambda>(ct, dct, T).
         res_bind (set_formats arb EVALUATION dct T) (\<lambda>(dct, T).
         res_bind (elem_upd acc 0 (\<lambda>p. res_bind (Poly_SetValuesToZero p) (add_products_poly Poly_Times digitsG2 0 dct ek))) (\<lambda>acc.
         res_bind (elem_upd acc 1 (\<lambda>p. res_bind (Poly_SetValuesToZero p) (add_products_poly Poly_TimesEq digitsG2 1 dct ek))) (\<lambda>acc.
         Inr (acc, T))))))"

text \<open>One digit of an entry in \<open>EvalAcc\<close>; \<open>aI\<close> holds the digits that are left.\<close>

definition EvalAcc_DM_digit :: "arb_transform \<Rightarrow> RingGSWCryptoParams \<Rightarrow> (nat \<times> nat \<times> nat \<Rightarrow> RingGSWEvalKey option) \<Rightarrow> nat \<Rightarrow> nat \<Rightarrow>
    NativeInt \<times> Poly list \<times> FTTTables \<Rightarrow> (NativeInt \<times> Poly list \<times> FTTTables) result" where
  "EvalAcc_DM_digit arb params ek i k st =
     (case st of (aI, acc, T) \<Rightarrow>
        let baseR = ucast (rg_baseR params)
        in if baseR = 0 then Inl div_by_zero
           else let a0 = Mod aI baseR
                in res_bind (if a0 \<noteq> 0 then
                      (case ek (i, unat a0, k) of None \<Rightarrow> Inl null_pointer | Some key \<Rightarrow> AddToAccDM arb params key acc T)
                    else Inr (acc, T)) (\<lambda>(acc, T).
                   res_bind (DividedByEq aI baseR) (\<lambda>aI. Inr (aI, acc, T))))"

definition EvalAcc_DM :: "arb_transform \<Rightarrow> RingGSWCryptoParams \<Rightarrow> (nat \<times> nat \<times> nat \<Rightarrow> RingGSWEvalKey option) \<Rightarrow> Poly list \<Rightarrow> NativeVector \<Rightarrow> FTTTables \<Rightarrow>
    (Poly list \<times> FTTTables) result" where
  "EvalAcc_DM arb params ek acc a T =
     (let digitsR = rg_digitsR params; q = rg_q params
      in res_range 0 (NV_GetLength a) (\<lambda>i (acc, T).
           res_bind (vec_get a i) (\<lambda>x.
           res_bind (res_range 0 (length digitsR) (EvalAcc_DM_digit arb params ek i) (ModSub q x q, acc, T)) (\<lambda>(aI, acc, T).
           Inr (acc, T)))) (acc, T))"

text \<open>
  One of the four products \<open>temp1\<close>, \<open>temp2\<close> of \<open>AddToAccCGGI\<close>, times its monomial, and the dumps of the rows of a key.
\<close>

definition cmux_product :: "(Poly \<Rightarrow> Poly \<Rightarrow> Poly result) \<Rightarrow> nat \<Rightarrow> nat \<Rightarrow> Poly list \<Rightarrow> RingGSWEvalKey \<Rightarrow> Poly \<Rightarrow> Poly result" where
  "cmux_product mult digitsG2 c dct ev monomial =
     res_bind (external_product mult digitsG2 c dct ev) (\<lambda>temp.
     res_bind (dump temp) (\<lambda>_. Poly_TimesEq temp monomial))"

definition dump_rows :: "RingGSWEvalKey \<Rightarrow> unit result" where
  "dump_rows ev = res_range 0 8 (\<lambda>i _. res_bind (key_at ev i 0) (\<lambda>a. res_bind (dump a) (\<lambda>_. res_bind (key_at ev i 1) dump))) ()"

definition dump_polys :: "nat \<Rightarrow> Poly list \<Rightarrow> unit result" where
  "dump_polys n ps = res_range 0 n (\<lambda>i _. res_bind (elem_at ps i) dump) ()"

definition AddToAccCGGI :: "arb_transform \<Rightarrow> RingGSWCryptoParams \<Rightarrow> RingGSWEvalKey \<Rightarrow> RingGSWEvalKey \<Rightarrow> NativeInt \<Rightarrow> Poly list \<Rightarrow> FTTTables \<Rightarrow>
    (Poly list \<times> FTTTables) result" where
  "AddToAccCGGI arb params ek1 ek2 a acc T =
     (let MInt = ucast (2 * rg_N params); M = MInt; digitsG2 = unat (push_bit 1 (rg_digitsG params))
      in res_bind (acc_digits arb params acc T) (\<lambda>(ct, dct, T).
         res_bind (dump_polys 2 ct) (\<lambda>_.
         res_bind (dump_polys 8 dct) (\<lambda>_.
         res_bind (set_formats arb EVALUATION dct T) (\<lambda>(dct, T).
         res_bind (dump_polys 8 dct) (\<lambda>_.
         let aNeg = ModSub M a M;
             indexPos = (if a = MInt then 0 else a);
             indexNeg = (if aNeg = MInt then 0 else aNeg)
         in res_bind (elem_at (rg_monomials params) (unat indexPos)) (\<lambda>monomial.
            res_bind (elem_at (rg_monomials params) (unat indexNeg)) (\<lambda>monomialNeg.
            res_bind (dump_polys 2 [monomial, monomialNeg]) (\<lambda>_.
            res_bind (dump_rows ek1) (\<lambda>_.
            res_bind (cmux_product Poly_Times digitsG2 0 dct ek1 monomial) (\<lambda>acc_inc_a.
            res_bind (cmux_product Poly_Times digitsG2 1 dct ek1 monomial) (\<lambda>acc_inc_b.
            res_bind (dump_rows ek2) (\<lambda>_.
            res_bind (res_bind (cmux_product Poly_Times digitsG2 0 dct ek2 monomialNeg) (Poly_PlusEq acc_inc_a)) (\<lambda>acc_inc_a.
            res_bind (res_bind (cmux_product Poly_TimesEq digitsG2 1 dct ek2 monomialNeg) (Poly_PlusEq acc_inc_b)) (\<lambda>acc_inc_b.
            res_bind (dump_polys 2 [acc_inc_a, acc_inc_b]) (\<lambda>_.
            res_bind (elem_upd acc 0 (\<lambda>p. Poly_PlusEq p acc_inc_a)) (\<lambda>acc.
            res_bind (elem_upd acc 1 (\<lambda>p. Poly_PlusEq p acc_inc_b)) (\<lambda>acc.
            Inr (acc, T)))))))))))))))))))"

definition EvalAcc_CGGI :: "arb_transform \<Rightarrow> RingGSWCryptoParams \<Rightarrow> (RingGSWEvalKey \<times> RingGSWEvalKey) list \<Rightarrow> Poly list \<Rightarrow> NativeVector \<Rightarrow> FTTTables \<Rightarrow>
    (Poly list \<times> FTTTables) result" where
  "EvalAcc_CGGI arb params ek acc a T =
     (let md = NV_GetModulus a; n = NV_GetLength a; M = 2 * rg_N params; modInt = (ucast md :: usint)
      in if modInt = 0 \<and> 0 < n then Inl div_by_zero
         else res_range 0 n (\<lambda>i (acc, T).
           res_bind (elem_at ek i) (\<lambda>(k1, k2). res_bind (vec_get a i) (\<lambda>x.
           AddToAccCGGI arb params k1 k2 (MulFast (ModSub md x md) (ucast (M div modInt))) acc T))) (acc, T))"

end
