(* ===== verification/SignedDigits.thy ===== *)
theory SignedDigits
  imports RGSW
begin

text \<open>
  The signed digit decomposition of \<open>rgsw-acc.cpp\<close>: the digits of an integer to the base \<open>2 ^ g\<close> between \<open>- 2 ^ (g - 1)\<close> and \<open>2 ^ (g - 1) - 1\<close>,
  their computation with shifts of 64-bit words, and the loop of \<open>SignedDigitDecompose\<close> over all coefficients. The loop is analysed for
  every base and digit count (\<open>gadget_sizes\<close>): what the digits of a coefficient miss of it is \<open>2 ^ (g D)\<close> times the rest \<open>srest\<close>. The
  digits of a polynomial add up to it modulo \<open>q\<close> when the digits cover the range of the coefficients (\<open>gadget_ok\<close>), which is the
  condition under which blind rotation is analysed in the later theories. Several parameter sets of \<open>binfhecontext.cpp\<close> do not satisfy it
  (\<open>shipped_gadget_gaps\<close>).
\<close>

section \<open>The digits of an integer\<close>

primrec srest :: "nat \<Rightarrow> nat \<Rightarrow> int \<Rightarrow> int" where
  "srest g 0 d = d"
| "srest g (Suc l) d = (srest g l d - signed_take_bit (g - 1) (srest g l d)) div 2 ^ g"

definition sdig :: "nat \<Rightarrow> nat \<Rightarrow> int \<Rightarrow> int" where
  "sdig g l d = signed_take_bit (g - 1) (srest g l d)"

lemma signed_digit_range:
  assumes "0 < g"
  shows "- (2 ^ (g - 1)) \<le> signed_take_bit (g - 1) (d :: int)" "signed_take_bit (g - 1) d < 2 ^ (g - 1)"
  by (simp_all add: signed_take_bit_int_greater_eq_minus_exp signed_take_bit_int_less_exp)

lemma signed_digit_dvd:
  assumes "0 < g"
  shows "2 ^ g dvd d - signed_take_bit (g - 1) (d :: int)"
proof -
  have "take_bit g (signed_take_bit (g - 1) d) = take_bit g d"
    using take_bit_signed_take_bit [of g "g - 1" d] assms by simp
  then show ?thesis by (simp add: take_bit_eq_mod mod_eq_dvd_iff dvd_diff_commute)
qed

lemma srest_step:
  assumes "0 < g"
  shows "srest g l d = sdig g l d + 2 ^ g * srest g (Suc l) d"
  using signed_digit_dvd [OF assms, of "srest g l d"] by (simp add: sdig_def)

lemma srest_Suc_first: "srest g (Suc l) d = srest g l (srest g 1 d)"
  by (induction l) simp_all

lemma sdig_sum:
  assumes "0 < g"
  shows "(\<Sum>l<D. 2 ^ (g * l) * sdig g l d) + 2 ^ (g * D) * srest g D d = d"
proof (induction D)
  case (Suc D)
  have "2 ^ (g * D) * srest g D d = 2 ^ (g * D) * sdig g D d + 2 ^ (g * Suc D) * srest g (Suc D) d"
    by (subst srest_step [OF assms]) (simp only: distrib_left mult.assoc [symmetric] power_add [symmetric] mult_Suc_right add.commute)
  then show ?case using Suc by simp
qed simp

text \<open>No rest is left of numbers between the smallest and the largest sum of \<open>D\<close> digits.\<close>

lemma srest_zero:
  assumes "0 < g" "- (2 ^ (g - 1)) * (\<Sum>l<D. 2 ^ (g * l)) \<le> d" "d \<le> (2 ^ (g - 1) - 1) * (\<Sum>l<D. 2 ^ (g * l))"
  shows "srest g D d = 0"
  using assms(2,3)
proof (induction D arbitrary: d)
  case (Suc D)
  define H :: int where "H = 2 ^ (g - 1)"
  define S :: int where "S = (\<Sum>l<D. 2 ^ (g * l))"
  define r where "r = signed_take_bit (g - 1) d"
  define d' where "d' = srest g 1 d"
  have B: "(2 :: int) ^ g = 2 * H" unfolding H_def using assms(1) by (cases g) simp_all
  have "(\<Sum>l<Suc D. (2 :: int) ^ (g * l)) = 1 + (\<Sum>l<D. 2 ^ (g * Suc l))" by (subst sum.lessThan_Suc_shift) simp
  also have "(\<Sum>l<D. (2 :: int) ^ (g * Suc l)) = 2 ^ g * S" by (simp add: S_def sum_distrib_left power_add)
  finally have S: "(\<Sum>l<Suc D. (2 :: int) ^ (g * l)) = 1 + 2 * H * S" using B by simp
  have d: "d = r + 2 * H * d'" using srest_step [OF assms(1), of 0 d] B by (simp add: r_def d'_def sdig_def)
  have r: "- H \<le> r" "r \<le> H - 1" using signed_digit_range [OF assms(1), of d] by (simp_all add: r_def H_def)
  have H: "0 < H" by (simp add: H_def)
  have up: "r + 2 * H * d' \<le> (H - 1) * (1 + 2 * H * S)" and lw: "- H * (1 + 2 * H * S) \<le> r + 2 * H * d'"
    using Suc.prems S unfolding d H_def [symmetric] by simp_all
  have "2 * H * d' < 2 * H * ((H - 1) * S + 1)" using up r by (simp add: algebra_simps)
  then have 1: "d' \<le> (H - 1) * S" using H by (simp add: mult_less_cancel_left_pos)
  have "2 * H * (- H * S - 1) < 2 * H * d'" using lw r by (simp add: algebra_simps)
  then have 2: "- H * S \<le> d'" using H by (simp add: mult_less_cancel_left_pos)
  have "srest g D d' = 0" by (rule Suc.IH) (use 1 2 in \<open>simp_all add: H_def S_def\<close>)
  then show ?case by (simp only: srest_Suc_first d'_def)
qed simp

text \<open>Conversely a number without rest is a sum of \<open>D\<close> digits, and the rest is never larger than the number allows.\<close>

lemma srest_zero_iff:
  assumes "0 < g"
  shows "srest g D d = 0 \<longleftrightarrow> - (2 ^ (g - 1)) * (\<Sum>l<D. 2 ^ (g * l)) \<le> d \<and> d \<le> (2 ^ (g - 1) - 1) * (\<Sum>l<D. 2 ^ (g * l))"
proof
  assume "srest g D d = 0"
  then have d: "d = (\<Sum>l<D. 2 ^ (g * l) * sdig g l d)" using sdig_sum [OF assms, of d D] by simp
  have r: "- (2 ^ (g - 1)) \<le> sdig g l d" "sdig g l d \<le> 2 ^ (g - 1) - 1" for l
    using signed_digit_range [OF assms, of "srest g l d"] by (simp_all add: sdig_def)
  have "(\<Sum>l<D. 2 ^ (g * l) * - (2 ^ (g - 1))) \<le> (\<Sum>l<D. 2 ^ (g * l) * sdig g l d)"
    "(\<Sum>l<D. 2 ^ (g * l) * sdig g l d) \<le> (\<Sum>l<D. 2 ^ (g * l) * (2 ^ (g - 1) - 1))"
    by (intro sum_mono mult_left_mono r; simp)+
  then show "- (2 ^ (g - 1)) * (\<Sum>l<D. 2 ^ (g * l)) \<le> d \<and> d \<le> (2 ^ (g - 1) - 1) * (\<Sum>l<D. 2 ^ (g * l))"
    using d by (simp only: sum_distrib_right [symmetric] mult.commute)
qed (use srest_zero [OF assms] in blast)

lemma srest_bound:
  assumes "0 < g" "2 ^ (g - 1) \<le> b" "\<bar>d\<bar> < b"
  shows "\<bar>srest g l d\<bar> < b"
proof (induction l)
  case (Suc l)
  define x where "x = srest g (Suc l) d"
  have s: "2 ^ g * x = srest g l d - sdig g l d" using srest_step [OF assms(1), of l d] by (simp add: x_def)
  have r: "\<bar>sdig g l d\<bar> \<le> b" using signed_digit_range [OF assms(1), of "srest g l d"] assms(2) unfolding sdig_def abs_le_iff by linarith
  have "2 \<le> (2 :: int) ^ g" using assms(1) self_le_power [of "2 :: int" g] by simp
  then have "2 * \<bar>x\<bar> \<le> 2 ^ g * \<bar>x\<bar>" by (intro mult_right_mono) auto
  also have "\<dots> = \<bar>srest g l d - sdig g l d\<bar>" by (simp only: s [symmetric] abs_mult) simp
  also have "\<dots> < b + b" using Suc r by linarith
  finally show ?case by (simp only: x_def)
qed (use assms in simp)

section \<open>The digits at the width of the code\<close>

lemma sint_low_bits:
  assumes "0 < g" "g \<le> 63"
  shows "sint (signed_drop_bit (64 - g) (push_bit (64 - g) (d :: 64 word))) = signed_take_bit (g - 1) (sint d)"
proof (rule bit_eqI)
  fix n
  consider "n < g - 1" | "n = g - 1" | "g \<le> n" by linarith
  then show "bit (sint (signed_drop_bit (64 - g) (push_bit (64 - g) d))) n = bit (signed_take_bit (g - 1) (sint d)) n"
    using assms by cases (auto simp: bit_sint_iff bit_signed_drop_bit_iff bit_push_bit_iff bit_signed_take_bit_iff min_def)
qed

text \<open>Signed words in the range where addition and subtraction do not overflow.\<close>

lemma sint_minus_small:
  assumes "\<bar>sint (a :: 64 word)\<bar> < 2 ^ 62" "\<bar>sint b\<bar> < 2 ^ 62"
  shows "sint (a - b) = sint a - sint b"
proof -
  have "sint (a - b) = signed_take_bit 63 (sint a - sint b)" by (simp add: sint_word_ariths(2))
  also have "\<dots> = sint a - sint b" using assms by (auto simp: signed_take_bit_int_eq_self_iff abs_less_iff)
  finally show ?thesis .
qed

lemma sint_signed_drop: "sint (signed_drop_bit n (w :: 64 word)) = sint w div 2 ^ n"
  by (simp add: sint_signed_drop_bit_eq drop_bit_eq_div)

lemma sint_small: "uint (x :: 64 word) < 2 ^ 62 \<Longrightarrow> sint x = uint x"
  by (auto simp: sint_uint signed_take_bit_int_eq_self_iff intro: order_trans [OF _ uint_ge_0 [of x]])

lemma sdd_word:
  assumes "0 < g" "g \<le> 32" "\<bar>sint (d :: 64 word)\<bar> < 2 ^ 61"
  defines "r \<equiv> signed_drop_bit (64 - g) (push_bit (64 - g) d)"
  shows "sint r = sdig g 0 (sint d)" "sint (signed_drop_bit g (d - r)) = srest g 1 (sint d)" "\<bar>srest g 1 (sint d)\<bar> < 2 ^ 61"
proof -
  show r: "sint r = sdig g 0 (sint d)" unfolding r_def sdig_def using sint_low_bits [of g d] assms(1,2) by simp
  have b: "- (2 ^ (g - 1)) \<le> sint r" "sint r < 2 ^ (g - 1)" using signed_digit_range [OF assms(1), of "sint d"] r by (simp_all add: sdig_def)
  have p: "(2 :: int) ^ (g - 1) \<le> 2 ^ 31" using assms(2) by (intro power_increasing) auto
  have "\<bar>sint d\<bar> < 2 ^ 62" "\<bar>sint r\<bar> < 2 ^ 62" using assms(3) b p by auto
  then have m: "sint (d - r) = sint d - sint r" by (rule sint_minus_small)
  then show "sint (signed_drop_bit g (d - r)) = srest g 1 (sint d)" by (simp add: sint_signed_drop r sdig_def)
  have d: "sint d = sint r + 2 ^ g * srest g 1 (sint d)" using srest_step [OF assms(1), of 0 "sint d"] r by simp
  have "2 \<le> (2 :: int) ^ g" using assms(1) self_le_power [of "2 :: int" g] by simp
  then have "2 * \<bar>srest g 1 (sint d)\<bar> \<le> 2 ^ g * \<bar>srest g 1 (sint d)\<bar>" by (intro mult_right_mono) auto
  also have "\<dots> = \<bar>2 ^ g * srest g 1 (sint d)\<bar>" by (simp only: abs_mult) simp
  also have "2 ^ g * srest g 1 (sint d) = sint d - sint r" using d by linarith
  also have "\<bar>sint d - sint r\<bar> \<le> \<bar>sint d\<bar> + \<bar>sint r\<bar>" by (rule abs_triangle_ineq4)
  also have "\<dots> < 2 * 2 ^ 61" using assms(3) b p by auto
  finally show "\<bar>srest g 1 (sint d)\<bar> < 2 ^ 61" by simp
qed

text \<open>A signed digit is stored as its residue.\<close>

lemma sdd_stored:
  assumes "uint q < 2 ^ 62" "\<bar>sint (r :: 64 word)\<bar> \<le> b" "sint r < b" "b \<le> uint q"
  shows "uint (if sint r < 0 then r + q else r) = sint r mod uint q"
proof (cases "sint r < 0")
  case True
  have "uint (r + q) = (uint r + uint q) mod 2 ^ 64" by (simp add: uint_word_ariths)
  also have "\<dots> = (sint r + uint q) mod 2 ^ 64" by (simp add: uint_sint take_bit_eq_mod mod_add_left_eq)
  also have "\<dots> = sint r + uint q" using assms True by (intro mod_pos_pos_trivial) auto
  also have "\<dots> = (sint r + uint q) mod uint q" using assms True by (intro mod_pos_pos_trivial [symmetric]) auto
  finally show ?thesis using True by simp
next
  case False
  then have "uint r = sint r" using assms by (simp add: uint_sint take_bit_eq_mod)
  then show ?thesis using False assms by simp
qed

section \<open>The digits of a polynomial\<close>

definition balanced :: "NativeInt \<Rightarrow> int \<Rightarrow> int" where
  "balanced q x = (let t = x mod uint q in if t < uint q div 2 then t else t - uint q)"

definition sdd_poly :: "NativeInt \<Rightarrow> nat \<Rightarrow> nat \<Rightarrow> int list \<Rightarrow> int list" where
  "sdd_poly q g l c = map (\<lambda>x. sdig g l (balanced q x)) c"

definition gadget_ok :: "NativeInt \<Rightarrow> nat \<Rightarrow> nat \<Rightarrow> bool" where
  "gadget_ok q g D \<longleftrightarrow> 0 < D \<and> 0 < g \<and> g \<le> 32 \<and> 2 ^ (g - 1) \<le> uint q \<and> uint q < 2 ^ 61
     \<and> uint q div 2 \<le> (2 ^ (g - 1) - 1) * (\<Sum>l<D. 2 ^ (g * l))"

definition gadget_sizes :: "NativeInt \<Rightarrow> nat \<Rightarrow> nat \<Rightarrow> bool" where
  "gadget_sizes q g D \<longleftrightarrow> 0 < D \<and> 0 < g \<and> g \<le> 32 \<and> 2 ^ (g - 1) \<le> uint q \<and> uint q < 2 ^ 61"

lemma gadget_ok_iff: "gadget_ok q g D \<longleftrightarrow> gadget_sizes q g D \<and> uint q div 2 \<le> (2 ^ (g - 1) - 1) * (\<Sum>l<D. 2 ^ (g * l))"
  by (auto simp: gadget_ok_def gadget_sizes_def)

lemma length_sdd_poly [simp]: "length (sdd_poly q g l c) = length c"
  by (simp add: sdd_poly_def)

lemma sdd_poly_bound: "0 < g \<Longrightarrow> rbound (2 ^ (g - 1)) (sdd_poly q g l c)"
  using signed_digit_range [of g] by (auto simp: rbound_def sdd_poly_def list_all_iff sdig_def abs_le_iff minus_le_iff less_imp_le)

lemma balanced_range:
  assumes "0 < uint q"
  shows "- (uint q div 2) - 1 \<le> balanced q x" "balanced q x \<le> uint q div 2" "rcong (uint q) (balanced q x) x" "\<bar>balanced q x\<bar> \<le> uint q"
proof -
  have t: "0 \<le> x mod uint q" "x mod uint q < uint q" using assms by simp_all
  show "- (uint q div 2) - 1 \<le> balanced q x" "balanced q x \<le> uint q div 2" "\<bar>balanced q x\<bar> \<le> uint q"
    using t unfolding balanced_def Let_def by (simp_all only: split: if_split) linarith+
  show "rcong (uint q) (balanced q x) x" by (simp add: balanced_def Let_def rcong_def)
qed

lemma gadget_complete:
  assumes "gadget_ok q g D"
  shows "srest g D (balanced q x) = 0"
proof -
  have g: "0 < g" "uint q div 2 \<le> (2 ^ (g - 1) - 1) * (\<Sum>l<D. 2 ^ (g * l))" "0 < uint q"
    using assms by (auto simp: gadget_ok_def intro: less_le_trans [of 0 "2 ^ (g - 1)"])
  define H :: int where "H = 2 ^ (g - 1)"
  define S :: int where "S = (\<Sum>l<D. 2 ^ (g * l))"
  note b = balanced_range [OF g(3), of x]
  have HS: "uint q div 2 \<le> H * S - S" using g(2) by (simp add: H_def S_def left_diff_distrib)
  have "1 \<le> S"
  proof -
    have "(2 :: int) ^ (g * 0) \<le> S" unfolding S_def by (rule member_le_sum) (use assms in \<open>auto simp: gadget_ok_def\<close>)
    then show ?thesis by simp
  qed
  then have lw: "- H * S \<le> balanced q x" using b(1) HS by simp
  have up: "balanced q x \<le> (H - 1) * S" using b(2) HS by (simp add: left_diff_distrib)
  show ?thesis using lw up by (intro srest_zero g(1)) (simp_all add: H_def S_def)
qed

lemma sdd_poly_sum:
  assumes "gadget_ok q g D" "length c = 2 ^ K"
  shows "ring_cong q K (rsum K (\<lambda>l. map (\<lambda>x. 2 ^ (g * l) * x) (sdd_poly q g l c)) D) c"
proof -
  have g: "0 < g" "0 < uint q" using assms(1) by (auto simp: gadget_ok_def intro: less_le_trans [of 0 "2 ^ (g - 1)"])
  have "(\<Sum>l<D. 2 ^ (g * l) * sdig g l (balanced q x)) = balanced q x" for x
    using sdig_sum [OF g(1), of "balanced q x" D] gadget_complete [OF assms(1), of x] by simp
  then show ?thesis using assms(2) balanced_range(3) [OF g(2)] by (simp add: ring_cong_nth sdd_poly_def)
qed

lemma ring_ok_odd:
  assumes "ring_ok q K psi prm"
  shows "coprime (uint q) 2" "1 < uint q"
proof -
  note n = ring_ok_dest(1) [OF assms]
  have "odd (int (unat q))" using n by (simp only: ntt_params_def even_of_nat) simp
  then have "odd (uint q)" unfolding uint_nat .
  then show "coprime (uint q) 2" by (simp add: coprime_right_2_iff_odd)
  have "4 \<le> q" using n by (simp add: ntt_params_def barrett_exact_def barrett_modulus_def)
  then show "1 < uint q" by (simp add: word_le_def)
qed

text \<open>
  For an odd modulus the digits of one coefficient add up to it modulo \<open>q\<close> exactly when its balanced residue is one of the sums of
  \<open>D\<close> digits: the difference \<open>2 ^ (g D)\<close> times the rest vanishes modulo \<open>q\<close> only with the rest.
\<close>

lemma digits_recompose_iff:
  assumes "gadget_sizes q g D" "coprime (uint q) 2" "1 < uint q"
  shows "rcong (uint q) (\<Sum>l<D. 2 ^ (g * l) * sdig g l (balanced q x)) x \<longleftrightarrow> srest g D (balanced q x) = 0"
proof -
  let ?b = "balanced q x" and ?s = "\<Sum>l<D. 2 ^ (g * l) * sdig g l (balanced q x)" and ?r = "srest g D (balanced q x)"
  have g: "0 < g" "2 ^ (g - 1) \<le> uint q" using assms(1) by (simp_all add: gadget_sizes_def)
  have "\<bar>?b\<bar> < uint q"
    using pos_mod_bound [of "uint q" x] pos_mod_sign [of "uint q" x] assms(3) unfolding balanced_def Let_def by (split if_split) linarith
  then have r: "\<bar>?r\<bar> < uint q" by (rule srest_bound [OF g])
  have b: "rcong (uint q) ?b x" using balanced_range(3) [of q x] assms(3) by simp
  have "rcong (uint q) ?s x \<longleftrightarrow> rcong (uint q) ?s ?b" using b by (simp add: rcong_def)
  also have "\<dots> \<longleftrightarrow> uint q dvd 2 ^ (g * D) * ?r"
    using sdig_sum [OF g(1), of ?b D] by (simp add: rcong_def mod_eq_dvd_iff dvd_diff_commute [of _ ?s]) (metis add_diff_cancel_left')
  also have "\<dots> \<longleftrightarrow> uint q dvd ?r" using assms(2) by (simp add: coprime_dvd_mult_right_iff)
  also have "\<dots> \<longleftrightarrow> ?r = 0" using r dvd_imp_le_int [of ?r "uint q"] by auto
  finally show ?thesis .
qed

section \<open>Updates of polynomials in coefficient format\<close>

lemma elem_upd_nth: "i < length xs \<Longrightarrow> f (xs ! i) = Inr y \<Longrightarrow> elem_upd xs i f = Inr (xs[i := y])"
  by (simp add: elem_upd_def elem_at_def)

lemma poly_is_get:
  assumes "poly_is q K psi prm COEFFICIENT p c" "i < 2 ^ K"
  shows "\<exists>x. poly_get p i = Inr x \<and> uint x = c ! i mod uint q"
proof -
  obtain v where v: "m_values p = Some v" "holds_vector q K v" "nv_abs v = rmod q c" using poly_is_coef [OF assms(1)] .
  have len: "length (m_data v) = 2 ^ K" "length c = 2 ^ K" using v(2) poly_is_len [OF assms(1)] by (simp_all add: holds_vector_def NV_GetLength_def)
  have "uint (m_data v ! i) = c ! i mod uint q"
    using arg_cong [OF v(3), of "\<lambda>xs. xs ! i"] len assms(2) by (simp add: nv_abs_def)
  then show ?thesis using v(1) len assms(2) by (simp add: poly_get_def deref_def vec_get_nth)
qed

lemma poly_is_upd:
  assumes "poly_is q K psi prm COEFFICIENT p c" "i < 2 ^ K" "\<And>x. uint x = c ! i mod uint q \<Longrightarrow> uint (f x) = y mod uint q"
  shows "\<exists>p'. poly_upd p i f = Inr p' \<and> poly_is q K psi prm COEFFICIENT p' (c[i := y])"
proof -
  obtain v where v: "m_values p = Some v" "holds_vector q K v" "nv_abs v = rmod q c" using poly_is_coef [OF assms(1)] .
  have len: "length (m_data v) = 2 ^ K" "length c = 2 ^ K" using v(2) poly_is_len [OF assms(1)] by (simp_all add: holds_vector_def NV_GetLength_def)
  note r = ring_ok_dest [OF poly_is_ok [OF assms(1)]]
  have x: "uint (m_data v ! i) = c ! i mod uint q"
    using arg_cong [OF v(3), of "\<lambda>xs. xs ! i"] len assms(2) by (simp add: nv_abs_def)
  let ?y = "f (m_data v ! i)" and ?v = "v\<lparr>m_data := (m_data v)[i := f (m_data v ! i)]\<rparr>"
  have y: "uint ?y = y mod uint q" by (rule assms(3) [OF x])
  then have "?y < q" using r(4) by (simp add: word_less_def)
  then have h: "holds_vector q K ?v" using v(2) len assms(2) by (auto simp: holds_vector_def nv_wf_def NV_GetLength_def list_all_length nth_list_update)
  have a: "nv_abs ?v = rmod q (c[i := y])" using v(3) y by (simp add: nv_abs_def rmod_def map_update)
  have p: "m_format p = COEFFICIENT" "m_params p = prm" using assms(1) by (simp_all add: poly_is_def)
  have e: "p\<lparr>m_values := Some ?v\<rparr> = \<lparr>m_values = Some ?v, m_format = COEFFICIENT, m_params = prm\<rparr>" using p by (cases p) simp
  have "poly_is q K psi prm COEFFICIENT (p\<lparr>m_values := Some ?v\<rparr>) (c[i := y])"
    unfolding e using h a len by (intro poly_isI_coef poly_is_ok [OF assms(1)]) simp_all
  then show ?thesis using v(1) len assms(2) by (simp add: poly_upd_def poly_get_def poly_put_def deref_def vec_get_nth vec_set_nth)
qed

section \<open>The decomposition loop\<close>

text \<open>The polynomial in row \<open>i\<close> after the digits before \<open>(j, k, l)\<close> of the inputs \<open>c 0\<close>, \<open>c 1\<close> are stored.\<close>

definition sdd_part :: "NativeInt \<Rightarrow> nat \<Rightarrow> nat \<Rightarrow> (nat \<Rightarrow> int list) \<Rightarrow> nat \<Rightarrow> nat \<Rightarrow> nat \<Rightarrow> nat \<Rightarrow> int list" where
  "sdd_part q g K c j k l i = map (\<lambda>k'. if i mod 2 < j \<or> i mod 2 = j \<and> (k' < k \<or> k' = k \<and> i div 2 < l)
     then sdig g (i div 2) (balanced q (c (i mod 2) ! k')) else 0) [0..<2 ^ K]"

definition sdd_rows :: "NativeInt \<Rightarrow> nat \<Rightarrow> NativeInt \<Rightarrow> ILParams \<Rightarrow> nat \<Rightarrow> (nat \<Rightarrow> int list) \<Rightarrow> Poly list \<Rightarrow> bool" where
  "sdd_rows q K psi prm D \<rho> output \<longleftrightarrow> length output = 2 * D \<and> (\<forall>i<2 * D. poly_is q K psi prm COEFFICIENT (output ! i) (\<rho> i))"

lemma sdd_digit_step:
  assumes "gadget_sizes q g D" "sdd_rows q K psi prm D (sdd_part q g K c j k l) output" "j < 2" "k < 2 ^ K" "l < D"
    and "sint d = srest g l (balanced q (c j ! k))" "\<bar>sint d\<bar> < 2 ^ 61"
  shows "\<exists>d' output'. sdd_digit q g j k l (d, output) = Inr (d', output') \<and> sint d' = srest g (Suc l) (balanced q (c j ! k))
    \<and> \<bar>sint d'\<bar> < 2 ^ 61 \<and> sdd_rows q K psi prm D (sdd_part q g K c j k (Suc l)) output'"
proof -
  have g: "0 < g" "g \<le> 32" "2 ^ (g - 1) \<le> uint q" "uint q < 2 ^ 61" using assms(1) by (simp_all add: gadget_sizes_def)
  define r where "r = signed_drop_bit (64 - g) (push_bit (64 - g) d)"
  note w = sdd_word [OF g(1,2) assms(7), folded r_def]
  let ?i = "j + 2 * l"
  have i: "?i < 2 * D" "?i mod 2 = j" "?i div 2 = l" "j mod 2 = j" using assms(3,5) by auto
  have r: "\<bar>sint r\<bar> \<le> 2 ^ (g - 1)" "sint r < 2 ^ (g - 1)"
    using signed_digit_range [OF g(1), of "sint d"] w(1) by (simp_all only: sdig_def srest.simps)
  have st: "uint (if sint r < 0 then r + q else r) = sint r mod uint q"
    using g by (intro sdd_stored [OF _ r]) auto
  have dig: "sint r = sdig g l (balanced q (c j ! k))" using w(1) assms(6) by (simp add: sdig_def)
  have p: "poly_is q K psi prm COEFFICIENT (output ! ?i) (sdd_part q g K c j k l ?i)" and len: "length output = 2 * D"
    using assms(2) i(1) by (simp_all add: sdd_rows_def)
  have z: "sdd_part q g K c j k l ?i ! k = 0" using assms(4) i by (simp add: sdd_part_def)
  have up: "uint (AddEqFast x (if sint r < 0 then r + q else r)) = sint r mod uint q" if "uint x = sdd_part q g K c j k l ?i ! k mod uint q" for x
  proof -
    have "x = 0" using that z by (simp add: word_uint_eq_iff)
    then show ?thesis using st by (simp add: AddEqFast_def)
  qed
  obtain p' where p': "poly_upd (output ! ?i) k (\<lambda>x. AddEqFast x (if sint r < 0 then r + q else r)) = Inr p'"
    "poly_is q K psi prm COEFFICIENT p' ((sdd_part q g K c j k l ?i)[k := sint r])"
    using poly_is_upd [OF p assms(4), of "\<lambda>x. AddEqFast x (if sint r < 0 then r + q else r)" "sint r"] up by blast
  have new: "(sdd_part q g K c j k l ?i)[k := sint r] = sdd_part q g K c j k (Suc l) ?i"
    by (intro nth_equalityI) (auto simp: sdd_part_def nth_list_update i dig)
  have old: "sdd_part q g K c j k (Suc l) i' = sdd_part q g K c j k l i'" if "i' \<noteq> ?i" for i'
  proof -
    have "\<not> (i' mod 2 = j \<and> i' div 2 = l)" using that div_mult_mod_eq [of i' 2] by linarith
    then show ?thesis unfolding sdd_part_def by (intro map_cong refl if_cong) auto
  qed
  have "sdd_rows q K psi prm D (sdd_part q g K c j k (Suc l)) (output[?i := p'])"
    using assms(2) p'(2) i(1) len by (auto simp: sdd_rows_def nth_list_update new old)
  moreover have "sdd_digit q g j k l (d, output) = Inr (signed_drop_bit g (d - r), output[?i := p'])"
    using p'(1) i(1) len by (cases "sint r < 0") (simp_all add: sdd_digit_def r_def [symmetric] Let_def elem_upd_nth)
  moreover have "srest g (Suc l) (balanced q (c j ! k)) = srest g 1 (sint d)" using assms(6) by simp
  ultimately show ?thesis using w(2,3) by auto
qed

lemma sdd_digits_loop:
  assumes "gadget_sizes q g D" "sdd_rows q K psi prm D (sdd_part q g K c j k 0) output" "j < 2" "k < 2 ^ K"
    and "sint d = balanced q (c j ! k)" "\<bar>sint d\<bar> < 2 ^ 61"
  shows "\<exists>d' output'. res_range 0 D (sdd_digit q g j k) (d, output) = Inr (d', output')
    \<and> sdd_rows q K psi prm D (sdd_part q g K c j (Suc k) 0) output'"
proof -
  let ?P = "\<lambda>l (st :: NativeInt \<times> Poly list). sint (fst st) = srest g l (balanced q (c j ! k)) \<and> \<bar>sint (fst st)\<bar> < 2 ^ 61
    \<and> sdd_rows q K psi prm D (sdd_part q g K c j k l) (snd st)"
  have "\<exists>st. res_range 0 D (sdd_digit q g j k) (d, output) = Inr st \<and> ?P D st"
  proof (rule res_range_invariant [where P = ?P])
    fix l st assume l: "l < D" and P: "?P l st"
    obtain d' out where st: "st = (d', out)" by (cases st)
    show "\<exists>t'. sdd_digit q g j k l st = Inr t' \<and> ?P (Suc l) t'"
      using sdd_digit_step [OF assms(1) _ assms(3,4) l, of psi prm c out d'] P unfolding st by auto
  qed (use assms in auto)
  then obtain d' output' where "res_range 0 D (sdd_digit q g j k) (d, output) = Inr (d', output')"
      "sdd_rows q K psi prm D (sdd_part q g K c j k D) output'" by auto
  moreover have "sdd_part q g K c j k D i = sdd_part q g K c j (Suc k) 0 i" if "i < 2 * D" for i
    unfolding sdd_part_def using that by (intro map_cong refl if_cong) auto
  ultimately show ?thesis by (auto simp: sdd_rows_def)
qed

definition rgsw_params :: "NativeInt \<Rightarrow> nat \<Rightarrow> NativeInt \<Rightarrow> nat \<Rightarrow> nat \<Rightarrow> RingGSWCryptoParams \<Rightarrow> bool" where
  "rgsw_params q K psi g D prm \<longleftrightarrow> ring_ok q K psi (rg_polyParams prm) \<and> gadget_ok q g D \<and> g < 32 \<and> D < 2 ^ 31
     \<and> rg_N prm = of_nat (2 ^ K) \<and> rg_Q prm = q \<and> rg_baseG prm = of_nat (2 ^ g) \<and> rg_digitsG prm = of_nat D
     \<and> rg_Gpower prm = map (\<lambda>l. word_of_int (2 ^ (g * l) mod uint q)) [0..<D]"

text \<open>The same without the condition on the range of the coefficients and without the table of powers.\<close>

definition rgsw_sizes :: "NativeInt \<Rightarrow> nat \<Rightarrow> NativeInt \<Rightarrow> nat \<Rightarrow> nat \<Rightarrow> RingGSWCryptoParams \<Rightarrow> bool" where
  "rgsw_sizes q K psi g D prm \<longleftrightarrow> ring_ok q K psi (rg_polyParams prm) \<and> gadget_sizes q g D \<and> g < 32 \<and> D < 2 ^ 31
     \<and> rg_N prm = of_nat (2 ^ K) \<and> rg_Q prm = q \<and> rg_baseG prm = of_nat (2 ^ g) \<and> rg_digitsG prm = of_nat D"

lemma floorlog_exp: "floorlog 2 (2 ^ g) = Suc g"
  by (induction g) (simp_all add: compute_floorlog)

lemma rgsw_sizes_dest:
  assumes "rgsw_sizes q K psi g D prm"
  shows "ring_ok q K psi (rg_polyParams prm)" "gadget_sizes q g D" "unat (rg_N prm) = 2 ^ K" "rg_Q prm = q"
    "trunc_log2 (rg_baseG prm) = g" "unat (rg_digitsG prm) = D" "unat (push_bit 1 (rg_digitsG prm)) = 2 * D" "0 < g" "K \<le> 24"
    "uint (ucast (2 * rg_N prm) :: NativeInt) = 2 ^ Suc K" "uint (2 * rg_N prm) = 2 ^ Suc K"
proof -
  show r: "ring_ok q K psi (rg_polyParams prm)" "gadget_sizes q g D" "rg_Q prm = q" and "0 < g"
    using assms by (simp_all add: rgsw_sizes_def gadget_sizes_def)
  show K: "K \<le> 24" using ring_ok_dest(1) [OF r(1)] by (simp add: ntt_params_def)
  have p: "rg_N prm = of_nat (2 ^ K)" "rg_baseG prm = of_nat (2 ^ g)" "rg_digitsG prm = of_nat D" "g < 32" "D < 2 ^ 31"
    using assms by (simp_all add: rgsw_sizes_def)
  show "unat (rg_N prm) = 2 ^ K" by (simp only: p(1) ring_dims(1) [OF K])
  have "(2 :: nat) ^ g \<le> 2 ^ 31" using p(4) by (intro power_increasing) auto
  then have "unat (of_nat (2 ^ g) :: usint) = 2 ^ g" by (intro unat_of_nat_32) simp
  then show "trunc_log2 (rg_baseG prm) = g" by (simp only: trunc_log2_def p(2) floorlog_exp)
  show "unat (rg_digitsG prm) = D" unfolding p(3) using p(5) by (intro unat_of_nat_32) simp
  have "push_bit 1 (rg_digitsG prm) = of_nat (2 * D)" by (simp add: p(3) push_bit_eq_mult)
  then show "unat (push_bit 1 (rg_digitsG prm)) = 2 * D" using p(5) unat_of_nat_32 [of "2 * D"] by simp
  have "2 * rg_N prm = of_nat (2 ^ Suc K)" by (simp add: p(1))
  then have "unat (2 * rg_N prm) = 2 ^ Suc K" by (simp only: ring_dims(2) [OF K])
  then show "uint (2 * rg_N prm) = 2 ^ Suc K" by (simp only: uint_nat) simp
  moreover have "(2 :: int) ^ Suc K \<le> 2 ^ 25" using K by (intro power_increasing) auto
  ultimately show "uint (ucast (2 * rg_N prm) :: NativeInt) = 2 ^ Suc K"
    by (simp only: unsigned_ucast_eq take_bit_eq_mod) simp
qed

lemma rgsw_params_sizes: "rgsw_params q K psi g D prm \<Longrightarrow> rgsw_sizes q K psi g D prm"
  by (simp add: rgsw_params_def rgsw_sizes_def gadget_ok_iff)

lemma rgsw_params_dest:
  assumes "rgsw_params q K psi g D prm"
  shows "ring_ok q K psi (rg_polyParams prm)" "gadget_ok q g D" "unat (rg_N prm) = 2 ^ K" "rg_Q prm = q"
    "trunc_log2 (rg_baseG prm) = g" "unat (rg_digitsG prm) = D" "unat (push_bit 1 (rg_digitsG prm)) = 2 * D" "0 < g" "K \<le> 24"
    "uint (ucast (2 * rg_N prm) :: NativeInt) = 2 ^ Suc K" "uint (2 * rg_N prm) = 2 ^ Suc K"
  using rgsw_sizes_dest [OF rgsw_params_sizes [OF assms]] assms by (simp_all only: rgsw_params_def)

lemma uint_drop_bit: "uint (drop_bit n (w :: 'a::len word)) = uint w div 2 ^ n"
  by (simp only: uint_nat unat_drop_bit of_nat_div of_nat_power of_nat_numeral)

lemma balanced_word:
  assumes "uint q < 2 ^ 61" "uint t = x mod uint q" "0 < uint q"
  shows "sint (if t < RShift q 1 then t else t - q) = balanced q x"
proof -
  have h: "uint (RShift q 1) = uint q div 2" by (simp add: RShift_def uint_drop_bit)
  have t: "t < RShift q 1 \<longleftrightarrow> x mod uint q < uint q div 2" by (simp only: word_less_def h assms(2))
  have lt: "uint t < 2 ^ 61" using assms pos_mod_bound [of "uint q" x] by linarith
  then have s: "sint t = x mod uint q" "sint q = uint q" using assms by (simp_all add: sint_small)
  have "\<bar>sint t\<bar> < 2 ^ 62" "\<bar>sint q\<bar> < 2 ^ 62" using lt assms(1) s uint_ge_0 [of t] uint_ge_0 [of q] assms(2) by auto
  then have "sint (t - q) = x mod uint q - uint q" using s by (simp add: sint_minus_small)
  then show ?thesis using t s by (simp add: balanced_def)
qed

lemma SignedDigitDecompose_correct:
  assumes prm: "rgsw_sizes q K psi g D params" and len: "length input = 2"
    and inp: "\<And>j. j < 2 \<Longrightarrow> poly_is q K psi (rg_polyParams params) COEFFICIENT (input ! j) (c j)"
    and out: "sdd_rows q K psi (rg_polyParams params) D (\<lambda>_. rzero K) output"
  shows "\<exists>output'. SignedDigitDecompose params input output = Inr output'
    \<and> sdd_rows q K psi (rg_polyParams params) D (\<lambda>i. sdd_poly q g (i div 2) (c (i mod 2))) output'"
proof -
  note p = rgsw_sizes_dest [OF prm]
  let ?rows = "sdd_rows q K psi (rg_polyParams params) D" and ?part = "sdd_part q g K c"
  have q: "uint q < 2 ^ 61" "0 < uint q" using p(2) ring_ok_dest(4) [OF p(1)] by (simp_all add: gadget_sizes_def)
  let ?inner = "\<lambda>j k output. res_bind (elem_at input j) (\<lambda>p. res_bind (poly_get p k) (\<lambda>t.
      let d = (if t < RShift q 1 then t else t - q)
      in res_bind (res_range 0 D (sdd_digit q g j k) (d, output)) (\<lambda>(d, output). Inr output)))"
  have inner: "\<exists>out'. ?inner j k out = Inr out' \<and> ?rows (?part j (Suc k) 0) out'"
    if j: "j < 2" and k: "k < 2 ^ K" and rows: "?rows (?part j k 0) out" for j k out
  proof -
    obtain t where t: "poly_get (input ! j) k = Inr t" "uint t = c j ! k mod uint q" using poly_is_get [OF inp k] j by blast
    let ?d = "if t < RShift q 1 then t else t - q"
    have d: "sint ?d = balanced q (c j ! k)" by (rule balanced_word [OF q(1) t(2) q(2)])
    then have "\<bar>sint ?d\<bar> < 2 ^ 61" using balanced_range(4) [OF q(2), of "c j ! k"] q(1) by linarith
    from sdd_digits_loop [where d = ?d, OF p(2) rows j k d this] show ?thesis using t(1) j len by (auto simp: elem_at_nth Let_def)
  qed
  have middle: "\<exists>out'. res_range 0 (2 ^ K) (?inner j) out = Inr out' \<and> ?rows (?part (Suc j) 0 0) out'"
    if "j < 2" "?rows (?part j 0 0) out" for j out
  proof -
    have "\<exists>out'. res_range 0 (2 ^ K) (?inner j) out = Inr out' \<and> ?rows (?part j (2 ^ K) 0) out'"
      by (rule res_range_invariant [where P = "\<lambda>k. ?rows (?part j k 0)"]) (use that inner in auto)
    moreover have "?part j (2 ^ K) 0 i = ?part (Suc j) 0 0 i" for i
      unfolding sdd_part_def by (intro map_cong refl if_cong) auto
    ultimately show ?thesis by (simp add: sdd_rows_def)
  qed
  have z: "?part 0 0 0 i = rzero K" for i by (intro nth_equalityI) (simp_all add: sdd_part_def)
  have "\<exists>out'. res_range 0 2 (\<lambda>j. res_range 0 (2 ^ K) (?inner j)) output = Inr out' \<and> ?rows (?part 2 0 0) out'"
    by (rule res_range_invariant [where P = "\<lambda>j. ?rows (?part j 0 0)"]) (use out z middle in \<open>auto simp: sdd_rows_def\<close>)
  moreover have "?part 2 0 0 i = sdd_poly q g (i div 2) (c (i mod 2))" for i
    using poly_is_len [OF inp, of "i mod 2"] by (intro nth_equalityI) (simp_all add: sdd_part_def sdd_poly_def)
  ultimately show ?thesis by (simp add: SignedDigitDecompose_def p Let_def sdd_rows_def)
qed

section \<open>Property\<close>

text \<open>
  C19: for every power-of-two base \<open>2 ^ g\<close> and digit count \<open>D\<close> (\<open>rgsw_sizes\<close>: \<open>g < 32\<close>, \<open>2 ^ (g - 1) \<le> q < 2 ^ 61\<close>),
  \<open>SignedDigitDecompose\<close> writes into the zero row \<open>2 l + j\<close> the polynomial of the digits of weight \<open>2 ^ (g l)\<close> of input \<open>j\<close>. Each digit is
  at most \<open>2 ^ (g - 1)\<close> in size. With their weights the digits of a coefficient add up to its balanced residue less
  \<open>2 ^ (g D)\<close> times a rest, and they agree with the coefficient modulo \<open>q\<close> exactly when that residue lies between the smallest and the largest
  sum of \<open>D\<close> digits. Under \<open>gadget_ok\<close> (\<open>q div 2\<close> is at most the largest sum) the whole input is recomposed modulo \<open>q\<close>; \<open>gadget_ok\<close> is false
  of several parameter sets of \<open>binfhecontext.cpp\<close>, where the largest coefficients are not recomposed.
\<close>

theorem SignedDigitDecompose_recomposes:
  fixes c :: "nat \<Rightarrow> int list"
  assumes "rgsw_sizes q K psi g D params" "length input = 2"
    and "\<And>j. j < 2 \<Longrightarrow> poly_is q K psi (rg_polyParams params) COEFFICIENT (input ! j) (c j)"
    and "sdd_rows q K psi (rg_polyParams params) D (\<lambda>_. rzero K) output"
  shows "\<exists>output' \<delta> \<rho>. SignedDigitDecompose params input output = Inr output' \<and> sdd_rows q K psi (rg_polyParams params) D \<delta> output'
    \<and> (\<forall>i. rbound (2 ^ (g - 1)) (\<delta> i))
    \<and> (\<forall>j<2. \<forall>k<2 ^ K. (\<Sum>l<D. 2 ^ (g * l) * \<delta> (2 * l + j) ! k) + 2 ^ (g * D) * \<rho> j k = balanced q (c j ! k)
        \<and> (rcong (uint q) (\<Sum>l<D. 2 ^ (g * l) * \<delta> (2 * l + j) ! k) (c j ! k)
            \<longleftrightarrow> - (2 ^ (g - 1)) * (\<Sum>l<D. 2 ^ (g * l)) \<le> balanced q (c j ! k)
              \<and> balanced q (c j ! k) \<le> (2 ^ (g - 1) - 1) * (\<Sum>l<D. 2 ^ (g * l))))
    \<and> (gadget_ok q g D \<longrightarrow> (\<forall>j<2. ring_cong q K (rsum K (\<lambda>l. map (\<lambda>x. 2 ^ (g * l) * x) (\<delta> (2 * l + j))) D) (c j)))"
proof -
  note p = rgsw_sizes_dest [OF assms(1)]
  let ?\<delta> = "\<lambda>i. sdd_poly q g (i div 2) (c (i mod 2))" and ?\<rho> = "\<lambda>j k. srest g D (balanced q (c j ! k))"
  note len = poly_is_len [OF assms(3)]
  obtain output' where "SignedDigitDecompose params input output = Inr output'" "sdd_rows q K psi (rg_polyParams params) D ?\<delta> output'"
    using SignedDigitDecompose_correct [OF assms] by blast
  moreover have "rbound (2 ^ (g - 1)) (?\<delta> i)" for i by (rule sdd_poly_bound [OF p(8)])
  moreover have "(\<Sum>l<D. 2 ^ (g * l) * ?\<delta> (2 * l + j) ! k) = (\<Sum>l<D. 2 ^ (g * l) * sdig g l (balanced q (c j ! k)))"
    if "j < 2" "k < 2 ^ K" for j k
    using that len by (simp add: sdd_poly_def)
  moreover have "gadget_ok q g D \<Longrightarrow> ring_cong q K (rsum K (\<lambda>l. map (\<lambda>x. 2 ^ (g * l) * x) (?\<delta> (2 * l + j))) D) (c j)" if "j < 2" for j
    using sdd_poly_sum [of q g D "c j" K] len that by simp
  ultimately show ?thesis
    using sdig_sum [OF p(8)] digits_recompose_iff [OF p(2) ring_ok_odd [OF p(1)]] srest_zero_iff [OF p(8)]
    by (intro exI [of _ output'] exI [of _ ?\<delta>] exI [of _ ?\<rho>] conjI allI impI) simp_all
qed

text \<open>
  Three of the parameter sets of \<open>binfhecontext.cpp\<close> whose digits do not cover the coefficients: modulus 134215681 with base \<open>2 ^ 9\<close> (\<open>TOY\<close>, \<open>STD128_AP\<close>),
  268369921 with base \<open>2 ^ 7\<close> (\<open>SIGNED_MOD_TEST\<close>) and 1125899906826241 with base \<open>2 ^ 25\<close> (\<open>STD128Q\<close>). The coefficient 66977536 of the
  first is decomposed into digits whose sum is \<open>2 ^ 27\<close> less.
\<close>

lemma shipped_gadget_gaps:
  "\<not> gadget_ok 134215681 9 3" "\<not> gadget_ok 268369921 7 4" "\<not> gadget_ok 1125899906826241 25 2"
  "srest 9 3 (balanced 134215681 66977536) = 1"
proof -
  have s: "(\<Sum>l<3. (2 :: int) ^ (9 * l)) = 262657" "(\<Sum>l<4. (2 :: int) ^ (7 * l)) = 2113665" "(\<Sum>l<2. (2 :: int) ^ (25 * l)) = 33554433"
    by code_simp+
  show "\<not> gadget_ok 134215681 9 3" "\<not> gadget_ok 268369921 7 4" "\<not> gadget_ok 1125899906826241 25 2"
    by (simp_all add: gadget_ok_def s)
  show "srest 9 3 (balanced 134215681 66977536) = 1" by code_simp
qed

section \<open>Sample parameters\<close>

definition sample_rgsw_il :: ILParams where
  "sample_rgsw_il = ElemParams_of 4 8 17 2 0 0"

definition sample_rgsw :: RingGSWCryptoParams where
  "sample_rgsw = \<lparr>rg_N = 4, rg_Q = 17, rg_q = 8, rg_baseG = 4, rg_digitsG = 3, rg_baseR = 2, rg_digitsR = [1, 2, 4], rg_Gpower = [1, 4, 16],
     rg_Gpower_map = Map.empty, rg_polyParams = sample_rgsw_il, rg_gateConst = [], rg_monomials = [], rg_method = AP\<rparr>"

lemma sample_ring_ok: "ring_ok 17 2 2 sample_rgsw_il"
  using sample_params by (simp add: ring_ok_def ring_params_def sample_rgsw_il_def ElemParams_of_def)

lemma sample_gadget: "gadget_ok 17 2 3"
proof -
  have "(\<Sum>l<3. (2 :: int) ^ (2 * l)) = 21" by (simp add: numeral_3_eq_3)
  then show ?thesis by (simp add: gadget_ok_def)
qed

lemma sample_rgsw_params: "rgsw_params 17 2 2 2 3 sample_rgsw"
proof -
  have "map (\<lambda>l. word_of_int (2 ^ (2 * l) mod uint (17 :: NativeInt))) [0..<3] = [1, 4, 16 :: NativeInt]" by code_simp
  then show ?thesis using sample_ring_ok sample_gadget by (simp add: rgsw_params_def sample_rgsw_def)
qed

lemma sample_rgsw_sizes: "rgsw_sizes 17 2 2 2 3 sample_rgsw"
  by (rule rgsw_params_sizes [OF sample_rgsw_params])

theorem SignedDigitDecompose_recomposes_witness:
  "\<exists>input output output' \<delta>. SignedDigitDecompose sample_rgsw input output = Inr output' \<and> sdd_rows 17 2 2 sample_rgsw_il 3 \<delta> output'
    \<and> (\<forall>i. rbound 2 (\<delta> i)) \<and> ring_cong 17 2 (rsum 2 (\<lambda>l. map (\<lambda>x. 2 ^ (2 * l) * x) (\<delta> (2 * l))) 3) [1, 2, 3, 16]"
proof -
  have il: "rg_polyParams sample_rgsw = sample_rgsw_il" by (simp add: sample_rgsw_def)
  obtain p where p: "poly_is 17 2 2 sample_rgsw_il COEFFICIENT p [1, 2, 3, 16]"
    using poly_is_exists [OF sample_ring_ok, of "[1, 2, 3, 16]" COEFFICIENT] by auto
  obtain z where z: "poly_is 17 2 2 sample_rgsw_il COEFFICIENT z (rzero 2)" using poly_is_exists [OF sample_ring_ok, of "rzero 2" COEFFICIENT] by auto
  have rows: "sdd_rows 17 2 2 (rg_polyParams sample_rgsw) 3 (\<lambda>_. rzero 2) (replicate 6 z)" using z by (simp add: sdd_rows_def il)
  have inp: "poly_is 17 2 2 (rg_polyParams sample_rgsw) COEFFICIENT ([p, p] ! j) [1, 2, 3, 16]" if "j < 2" for j
    using p that by (auto simp: il less_2_cases_iff)
  have "length [p, p] = 2" by simp
  from SignedDigitDecompose_recomposes [OF sample_rgsw_sizes this inp rows] obtain output' \<delta> where
    "SignedDigitDecompose sample_rgsw [p, p] (replicate 6 z) = Inr output'" "sdd_rows 17 2 2 sample_rgsw_il 3 \<delta> output'"
    "\<forall>i. rbound 2 (\<delta> i)" "\<forall>j<2. ring_cong 17 2 (rsum 2 (\<lambda>l. map (\<lambda>x. 2 ^ (2 * l) * x) (\<delta> (2 * l + j))) 3) [1, 2, 3, 16]"
    using sample_gadget unfolding il by auto
  moreover from this(4) have "ring_cong 17 2 (rsum 2 (\<lambda>l. map (\<lambda>x. 2 ^ (2 * l) * x) (\<delta> (2 * l))) 3) [1, 2, 3, 16]"
    by (elim allE [of _ 0]) simp
  ultimately show ?thesis by blast
qed

end
