(* ===== verification/BlindRotation.thy ===== *)
theory BlindRotation
  imports SignedDigits
begin

text \<open>
  What the accumulators of \<open>rgsw-acc-cggi.cpp\<close> and \<open>rgsw-acc-dm.cpp\<close> compute. A RingGSW key is described by the phases of its rows (\<open>rgsw_key\<close>),
  an accumulator by its phase \<open>b - a z\<close> (\<open>rphase\<close>). An external product multiplies the phase by the message of the
  key and adds a noise whose size is bounded; \<open>AddToAccCGGI\<close> and \<open>AddToAccDM\<close> multiply it by a power of \<open>x\<close>, and \<open>EvalAcc\<close> by the power
  the inner product of the ciphertext with the secret gives (\<open>rotated\<close>).
\<close>

section \<open>Phases and external products\<close>

definition rscale :: "int \<Rightarrow> int list \<Rightarrow> int list" where
  "rscale m c = map (\<lambda>x. m * x) c"

lemma length_rscale [simp]: "length (rscale m c) = length c"
  by (simp add: rscale_def)

lemma eval_rscale [eval_simps]: "poly_eval (rscale m c) z = m * poly_eval c z"
  by (simp add: poly_eval_def rscale_def sum_distrib_left mult.assoc)

definition rphase :: "nat \<Rightarrow> int list \<Rightarrow> int list \<Rightarrow> int list \<Rightarrow> int list" where
  "rphase K z a b = rsub b (rmul K a z)"

lemma length_rphase [simp]: "length (rphase K z a b) = min (length b) (2 ^ K)"
  by (simp add: rphase_def)

lemma eval_rphase:
  assumes "length z = 2 ^ K" "length a = 2 ^ K" "length b = 2 ^ K" "rcong q (x ^ 2 ^ K) (- 1)"
  shows "rcong q (poly_eval (rphase K z a b) x) (poly_eval b x - poly_eval a x * poly_eval z x)"
  unfolding rphase_def using assms by (simp add: eval_rsub) (intro rcong_diff rcong_refl eval_rmul)

text \<open>The phase of row \<open>i\<close> of a key for the message \<open>M\<close> with the noise \<open>e\<close>.\<close>

definition row_phase :: "nat \<Rightarrow> nat \<Rightarrow> int list \<Rightarrow> int list \<Rightarrow> int list \<Rightarrow> nat \<Rightarrow> int list" where
  "row_phase K g z M e i =
     (let h = rscale (2 ^ (g * (i div 2))) M in if even i then rsub e (rmul K h z) else radd e h)"

definition rgsw_key :: "NativeInt \<Rightarrow> nat \<Rightarrow> NativeInt \<Rightarrow> ILParams \<Rightarrow> nat \<Rightarrow> nat \<Rightarrow> int list \<Rightarrow> int list \<Rightarrow> (nat \<Rightarrow> int list) \<Rightarrow> RingGSWEvalKey \<Rightarrow> bool" where
  "rgsw_key q K psi prm g D z M e ek \<longleftrightarrow> length ek = 2 * D \<and> length z = 2 ^ K \<and> length M = 2 ^ K
     \<and> (\<forall>i<2 * D. length (ek ! i) = 2 \<and> length (e i) = 2 ^ K
       \<and> (\<exists>a b. poly_is q K psi prm EVALUATION (ek ! i ! 0) a \<and> poly_is q K psi prm EVALUATION (ek ! i ! 1) b
           \<and> ring_cong q K (rphase K z a b) (row_phase K g z M (e i) i)))"

lemma sum_even_odd: "(\<Sum>i<2 * D. f i) = (\<Sum>l<D. f (2 * l) + f (2 * l + 1 :: nat) :: int)"
  by (induction D) (simp_all add: algebra_simps)

lemma external_phase:
  assumes ntt: "ntt_params q K psi" and len: "length z = 2 ^ K" "length M = 2 ^ K" "length c0 = 2 ^ K" "length c1 = 2 ^ K"
    and lens: "\<And>i. i < 2 * D \<Longrightarrow> length (\<delta> i) = 2 ^ K" "\<And>i. i < 2 * D \<Longrightarrow> length (a i) = 2 ^ K"
      "\<And>i. i < 2 * D \<Longrightarrow> length (b i) = 2 ^ K" "\<And>i. i < 2 * D \<Longrightarrow> length (e i) = 2 ^ K"
    and row: "\<And>i. i < 2 * D \<Longrightarrow> ring_cong q K (rphase K z (a i) (b i)) (row_phase K g z M (e i) i)"
    and dig: "ring_cong q K (rsum K (\<lambda>l. rscale (2 ^ (g * l)) (\<delta> (2 * l))) D) c0"
      "ring_cong q K (rsum K (\<lambda>l. rscale (2 ^ (g * l)) (\<delta> (2 * l + 1))) D) c1"
  shows "ring_cong q K (rphase K z (rsum K (\<lambda>i. rmul K (\<delta> i) (a i)) (2 * D)) (rsum K (\<lambda>i. rmul K (\<delta> i) (b i)) (2 * D)))
    (radd (rmul K M (rphase K z c0 c1)) (rsum K (\<lambda>i. rmul K (\<delta> i) (e i)) (2 * D)))"
proof (rule ring_congI [OF ntt])
  fix x assume x: "rcong (uint q) (x ^ 2 ^ K) (- 1)"
  let ?v = "\<lambda>c. poly_eval c x"
  have row': "rcong (uint q) (?v (b i) - ?v (a i) * ?v z)
      (?v (e i) + (if even i then - (2 ^ (g * (i div 2)) * ?v M * ?v z) else 2 ^ (g * (i div 2)) * ?v M))" if i: "i < 2 * D" for i
  proof -
    have "rcong (uint q) (?v (b i) - ?v (a i) * ?v z) (?v (rphase K z (a i) (b i)))"
      using lens i by (intro rcong_sym [OF eval_rphase] len x) auto
    also have "rcong (uint q) \<dots> (?v (row_phase K g z M (e i) i))" by (rule ring_cong_eval [OF row [OF i]])
    also have "rcong (uint q) \<dots> (?v (e i) + (if even i then - (2 ^ (g * (i div 2)) * ?v M * ?v z) else 2 ^ (g * (i div 2)) * ?v M))"
    proof (cases "even i")
      case True
      have "rcong (uint q) (?v (rmul K (rscale (2 ^ (g * (i div 2))) M) z)) (2 ^ (g * (i div 2)) * ?v M * ?v z)"
        using eval_rmul [OF _ len(1) x, of "rscale (2 ^ (g * (i div 2))) M"] len by (simp add: eval_simps)
      then show ?thesis using True lens(4) [OF i] rcong_diff [OF rcong_refl, of "uint q" _ _ "?v (e i)"]
        by (simp add: row_phase_def Let_def eval_simps)
    qed (use lens(4) [OF i] len in \<open>simp add: row_phase_def Let_def eval_simps\<close>)
    finally show ?thesis .
  qed
  have sA: "rcong (uint q) (?v (rsum K (\<lambda>i. rmul K (\<delta> i) (d i)) (2 * D))) (\<Sum>i<2 * D. ?v (\<delta> i) * ?v (d i))"
    if "\<And>i. i < 2 * D \<Longrightarrow> length (d i) = 2 ^ K" for d
    using lens that x by (simp add: eval_simps) (intro rcong_sum eval_rmul, auto)
  let ?c = "\<lambda>i. if even i then - (2 ^ (g * (i div 2)) * ?v M * ?v z) else 2 ^ (g * (i div 2)) * ?v M"
  have "rcong (uint q) (?v (rphase K z (rsum K (\<lambda>i. rmul K (\<delta> i) (a i)) (2 * D)) (rsum K (\<lambda>i. rmul K (\<delta> i) (b i)) (2 * D))))
      ((\<Sum>i<2 * D. ?v (\<delta> i) * ?v (b i)) - (\<Sum>i<2 * D. ?v (\<delta> i) * ?v (a i)) * ?v z)"
    by (rule rcong_trans [OF eval_rphase [OF len(1) _ _ x]]) (auto intro!: rcong_diff rcong_mult sA lens)
  also have "(\<Sum>i<2 * D. ?v (\<delta> i) * ?v (b i)) - (\<Sum>i<2 * D. ?v (\<delta> i) * ?v (a i)) * ?v z
      = (\<Sum>i<2 * D. ?v (\<delta> i) * (?v (b i) - ?v (a i) * ?v z))"
    by (simp add: right_diff_distrib sum_subtractf sum_distrib_right mult.assoc)
  also have "rcong (uint q) \<dots> (\<Sum>i<2 * D. ?v (\<delta> i) * (?v (e i) + ?c i))"
    by (intro rcong_sum rcong_mult rcong_refl row') simp
  also have "(\<Sum>i<2 * D. ?v (\<delta> i) * (?v (e i) + ?c i)) = (\<Sum>i<2 * D. ?v (\<delta> i) * ?v (e i)) + (\<Sum>i<2 * D. ?v (\<delta> i) * ?c i)"
    by (simp add: distrib_left sum.distrib)
  also have "(\<Sum>i<2 * D. ?v (\<delta> i) * ?c i) = ?v M * ((\<Sum>l<D. 2 ^ (g * l) * ?v (\<delta> (2 * l + 1))) - (\<Sum>l<D. 2 ^ (g * l) * ?v (\<delta> (2 * l))) * ?v z)"
    unfolding sum_even_odd sum_distrib_right sum_subtractf [symmetric] sum_distrib_left by (rule sum.cong) (simp_all add: algebra_simps)
  also have "rcong (uint q) ((\<Sum>i<2 * D. ?v (\<delta> i) * ?v (e i)) + \<dots>)
      ((\<Sum>i<2 * D. ?v (\<delta> i) * ?v (e i)) + ?v M * (?v c1 - ?v c0 * ?v z))"
    using ring_cong_eval [OF dig(1), of x] ring_cong_eval [OF dig(2), of x] lens(1)
    by (intro rcong_add rcong_mult rcong_diff rcong_refl) (simp_all add: eval_simps)
  also have "rcong (uint q) \<dots> (?v (radd (rmul K M (rphase K z c0 c1)) (rsum K (\<lambda>i. rmul K (\<delta> i) (e i)) (2 * D))))"
    unfolding add.commute [of "sum _ _"] using len
    by (simp add: eval_radd) (intro rcong_add rcong_sym [OF sA] rcong_sym [OF rcong_trans [OF eval_rmul rcong_mult [OF rcong_refl eval_rphase]]] lens, auto simp: x)
  finally show "rcong (uint q) (?v (rphase K z (rsum K (\<lambda>i. rmul K (\<delta> i) (a i)) (2 * D)) (rsum K (\<lambda>i. rmul K (\<delta> i) (b i)) (2 * D))))
    (?v (radd (rmul K M (rphase K z c0 c1)) (rsum K (\<lambda>i. rmul K (\<delta> i) (e i)) (2 * D))))" .
qed simp_all

section \<open>The operations on the accumulator\<close>

lemma set_formats_correct:
  assumes "\<And>i. i < length ps \<Longrightarrow> poly_is q K psi prm f (ps ! i) (\<rho> i)" "tables_ok q K psi T"
  shows "\<exists>ps' T'. set_formats arb f' ps T = Inr (ps', T') \<and> tables_ok q K psi T' \<and> length ps' = length ps
    \<and> (\<forall>i<length ps. poly_is q K psi prm f' (ps' ! i) (\<rho> i))"
  using assms
proof (induction ps arbitrary: \<rho> T)
  case (Cons p ps)
  obtain p' T1 where p': "Poly_SetFormat arb p f' T = Inr (p', T1)" "tables_ok q K psi T1" "poly_is q K psi prm f' p' (\<rho> 0)"
    using poly_is_SetFormat [OF Cons.prems(1) [of 0, simplified] Cons.prems(2)] by blast
  obtain ps' T2 where ps': "set_formats arb f' ps T1 = Inr (ps', T2)" "tables_ok q K psi T2" "length ps' = length ps"
      "\<And>i. i < length ps \<Longrightarrow> poly_is q K psi prm f' (ps' ! i) (\<rho> (Suc i))"
    using Cons.IH [of "\<lambda>i. \<rho> (Suc i)" T1] Cons.prems(1) [of "Suc _"] p'(2) by auto
  have "poly_is q K psi prm f' ((p' # ps') ! i) (\<rho> i)" if "i < length (p # ps)" for i
    using that p'(3) ps'(4) by (cases i) simp_all
  then show ?case using p'(1) ps'(1-3) by simp
qed simp

lemma dump_ok:
  assumes "poly_is q K psi prm f p c" "10 \<le> K"
  shows "dump p = Inr ()"
proof -
  obtain v where v: "m_values p = Some v" "holds_vector q K v"
    using representsE [of q K psi p "rmod q c"] assms(1) by (auto simp: poly_is_def)
  have "(2 :: nat) ^ 10 \<le> 2 ^ K" using assms(2) by (intro power_increasing) auto
  then show ?thesis using v by (simp add: dump_def deref_def holds_vector_def NV_GetLength_def)
qed

lemma res_range_unit:
  assumes "\<And>i. i < n \<Longrightarrow> f i () = Inr ()"
  shows "res_range 0 n f () = Inr ()"
  using res_range_invariant [of 0 n "\<lambda>_ _. True" "()" f] assms by auto

lemma dump_polys_ok: "(\<And>i. i < n \<Longrightarrow> poly_is q K psi prm f (ps ! i) (\<rho> i)) \<Longrightarrow> n \<le> length ps \<Longrightarrow> 10 \<le> K \<Longrightarrow> dump_polys n ps = Inr ()"
  unfolding dump_polys_def by (rule res_range_unit) (auto simp: elem_at_nth intro: dump_ok)

lemma key_at_nth: "i < length ek \<Longrightarrow> j < length (ek ! i) \<Longrightarrow> key_at ek i j = Inr (ek ! i ! j)"
  by (simp add: key_at_def elem_at_nth)

text \<open>The two columns of a key.\<close>

definition key_cols :: "NativeInt \<Rightarrow> nat \<Rightarrow> NativeInt \<Rightarrow> ILParams \<Rightarrow> Format \<Rightarrow> nat \<Rightarrow> RingGSWEvalKey \<Rightarrow> (nat \<Rightarrow> nat \<Rightarrow> int list) \<Rightarrow> bool" where
  "key_cols q K psi prm f n ek col \<longleftrightarrow> length ek = n \<and> (\<forall>i<n. length (ek ! i) = 2 \<and> (\<forall>j<2. poly_is q K psi prm f (ek ! i ! j) (col j i)))"

lemma rgsw_key_cols:
  assumes "rgsw_key q K psi prm g D z M e ek"
  obtains col where "key_cols q K psi prm EVALUATION (2 * D) ek col"
    "\<And>i. i < 2 * D \<Longrightarrow> ring_cong q K (rphase K z (col 0 i) (col 1 i)) (row_phase K g z M (e i) i)"
proof -
  have "\<forall>i. \<exists>a b. i < 2 * D \<longrightarrow> poly_is q K psi prm EVALUATION (ek ! i ! 0) a \<and> poly_is q K psi prm EVALUATION (ek ! i ! 1) b
      \<and> ring_cong q K (rphase K z a b) (row_phase K g z M (e i) i)"
    using assms by (auto simp: rgsw_key_def)
  then obtain a b where ab: "\<And>i. i < 2 * D \<Longrightarrow> poly_is q K psi prm EVALUATION (ek ! i ! 0) (a i) \<and> poly_is q K psi prm EVALUATION (ek ! i ! 1) (b i)
      \<and> ring_cong q K (rphase K z (a i) (b i)) (row_phase K g z M (e i) i)" by metis
  let ?col = "\<lambda>j. if j = 0 then a else b"
  have "key_cols q K psi prm EVALUATION (2 * D) ek ?col"
    using assms ab by (auto simp: key_cols_def rgsw_key_def less_2_cases_iff)
  then show ?thesis using ab by (intro that [of ?col]) auto
qed

lemma rsum_Suc: "length (f n) = 2 ^ K \<Longrightarrow> radd (rsum K f n) (f n) = rsum K f (Suc n)"
  by (intro nth_equalityI) simp_all

definition ext_sum :: "nat \<Rightarrow> (nat \<Rightarrow> int list) \<Rightarrow> (nat \<Rightarrow> int list) \<Rightarrow> nat \<Rightarrow> int list" where
  "ext_sum K \<delta> c n = rsum K (\<lambda>i. rmul K (\<delta> i) (c i)) n"

lemma length_ext_sum [simp]: "length (ext_sum K \<delta> c n) = 2 ^ K"
  by (simp add: ext_sum_def)

lemma external_product_correct:
  assumes "key_cols q K psi prm EVALUATION n ek col" "j < 2" "length dct = n" "0 < n" "mult = Poly_Times \<or> mult = Poly_TimesEq"
    and dct: "\<And>i. i < n \<Longrightarrow> poly_is q K psi prm EVALUATION (dct ! i) (\<delta> i)"
  shows "\<exists>t. external_product mult n j dct ek = Inr t \<and> poly_is q K psi prm EVALUATION t (ext_sum K \<delta> (col j) n)"
proof -
  let ?f = "\<lambda>i. rmul K (\<delta> i) (col j i)"
  have ek: "length ek = n" "\<And>i. i < n \<Longrightarrow> j < length (ek ! i) \<and> poly_is q K psi prm EVALUATION (ek ! i ! j) (col j i)"
    using assms(1,2) by (auto simp: key_cols_def)
  have prd: "\<exists>s. mult' (dct ! i) (ek ! i ! j) = Inr s \<and> poly_is q K psi prm EVALUATION s (?f i)"
    if "i < n" "mult' = Poly_Times \<or> mult' = Poly_TimesEq" for i mult'
    using poly_is_Times [OF dct [OF that(1)] conjunct2 [OF ek(2) [OF that(1)]]] that(2) by auto
  obtain t0 where t0: "Poly_Times (dct ! 0) (ek ! 0 ! j) = Inr t0" "poly_is q K psi prm EVALUATION t0 (?f 0)"
    using prd [OF assms(4), of Poly_Times] by auto
  have "?f 0 = rsum K ?f 1" by (intro nth_equalityI) simp_all
  then have t0': "poly_is q K psi prm EVALUATION t0 (rsum K ?f 1)" using t0(2) by simp
  have "\<exists>t. add_products_poly mult n j dct ek t0 = Inr t \<and> poly_is q K psi prm EVALUATION t (rsum K ?f n)"
    unfolding add_products_poly_def
  proof (rule res_range_invariant [where P = "\<lambda>i t. poly_is q K psi prm EVALUATION t (rsum K ?f i)"])
    fix i t assume i: "i < n" and t: "poly_is q K psi prm EVALUATION t (rsum K ?f i)"
    obtain s where s: "mult (dct ! i) (ek ! i ! j) = Inr s" "poly_is q K psi prm EVALUATION s (?f i)" using prd [OF i assms(5)] by blast
    obtain t' where "Poly_PlusEq t s = Inr t'" "poly_is q K psi prm EVALUATION t' (radd (rsum K ?f i) (?f i))"
      using poly_is_PlusEq [OF t s(2)] by blast
    moreover have "radd (rsum K ?f i) (?f i) = rsum K ?f (Suc i)" by (rule rsum_Suc) simp
    ultimately show "\<exists>t'. res_bind (elem_at dct i) (\<lambda>d. res_bind (key_at ek i j) (\<lambda>e. res_bind (mult d e) (Poly_PlusEq t))) = Inr t'
        \<and> poly_is q K psi prm EVALUATION t' (rsum K ?f (Suc i))"
      using s(1) i ek assms(3) by (simp add: elem_at_nth key_at_nth)
  qed (use assms(4) t0' in auto)
  then show ?thesis using t0(1) ek assms(3,4) by (simp add: external_product_def elem_at_nth key_at_nth ext_sum_def)
qed

lemma cmux_product_correct:
  assumes "key_cols q K psi prm EVALUATION n ek col" "j < 2" "length dct = n" "0 < n" "mult = Poly_Times \<or> mult = Poly_TimesEq"
    and "\<And>i. i < n \<Longrightarrow> poly_is q K psi prm EVALUATION (dct ! i) (\<delta> i)"
    and "poly_is q K psi prm EVALUATION mn \<mu>" "10 \<le> K"
  shows "\<exists>t. cmux_product mult n j dct ek mn = Inr t \<and> poly_is q K psi prm EVALUATION t (rmul K (ext_sum K \<delta> (col j) n) \<mu>)"
proof -
  obtain t where t: "external_product mult n j dct ek = Inr t" "poly_is q K psi prm EVALUATION t (ext_sum K \<delta> (col j) n)"
    using external_product_correct [OF assms(1-6)] by blast
  show ?thesis using poly_is_Times [OF t(2) assms(7)] dump_ok [OF t(2) assms(8)] t(1) by (auto simp: cmux_product_def)
qed

lemma dump_rows_ok:
  assumes "key_cols q K psi prm EVALUATION n ek col" "8 \<le> n" "10 \<le> K"
  shows "dump_rows ek = Inr ()"
  unfolding dump_rows_def
proof (rule res_range_unit)
  fix i :: nat assume "i < 8"
  then have i: "i < length ek" "length (ek ! i) = 2" "poly_is q K psi prm EVALUATION (ek ! i ! 0) (col 0 i)"
      "poly_is q K psi prm EVALUATION (ek ! i ! 1) (col 1 i)"
    using assms(1,2) by (auto simp: key_cols_def)
  then show "res_bind (key_at ek i 0) (\<lambda>a. res_bind (dump a) (\<lambda>_. res_bind (key_at ek i 1) dump)) = Inr ()"
    using dump_ok [OF i(3) assms(3)] dump_ok [OF i(4) assms(3)] by (simp add: key_at_nth)
qed

definition acc_is :: "NativeInt \<Rightarrow> nat \<Rightarrow> NativeInt \<Rightarrow> ILParams \<Rightarrow> Poly list \<Rightarrow> int list \<Rightarrow> int list \<Rightarrow> bool" where
  "acc_is q K psi prm acc a b \<longleftrightarrow> length acc = 2 \<and> poly_is q K psi prm EVALUATION (acc ! 0) a \<and> poly_is q K psi prm EVALUATION (acc ! 1) b"

definition acc_digit :: "NativeInt \<Rightarrow> nat \<Rightarrow> int list \<Rightarrow> int list \<Rightarrow> nat \<Rightarrow> int list" where
  "acc_digit q g a b i = sdd_poly q g (i div 2) (if even i then a else b)"

lemma acc_digits_correct:
  assumes "rgsw_params q K psi g D params" "acc_is q K psi (rg_polyParams params) acc a b" "tables_ok q K psi T"
  shows "\<exists>ct dct T'. acc_digits arb params acc T = Inr (ct, dct, T') \<and> tables_ok q K psi T'
    \<and> length ct = 2 \<and> (\<forall>i<2. poly_is q K psi (rg_polyParams params) COEFFICIENT (ct ! i) (if i = 0 then a else b))
    \<and> sdd_rows q K psi (rg_polyParams params) D (acc_digit q g a b) dct"
proof -
  note p = rgsw_params_dest [OF assms(1)]
  let ?c = "\<lambda>i :: nat. if i = 0 then a else b"
  have acc: "length acc = 2" "i < length acc \<Longrightarrow> poly_is q K psi (rg_polyParams params) EVALUATION (acc ! i) (?c i)" for i
    using assms(2) by (auto simp: acc_is_def less_2_cases_iff)
  obtain p0 where p0: "Poly_new (rg_polyParams params) COEFFICIENT True = Inr p0" "poly_is q K psi (rg_polyParams params) COEFFICIENT p0 (rzero K)"
    using poly_is_new [OF p(1)] by blast
  have new: "res_map (\<lambda>i. Poly_new (rg_polyParams params) COEFFICIENT True) [0..<2 * D] = Inr (map (\<lambda>_. p0) [0..<2 * D])"
    by (rule res_map_all) (simp add: p0(1))
  obtain ct T' where ct: "set_formats arb COEFFICIENT acc T = Inr (ct, T')" "tables_ok q K psi T'" "length ct = 2"
      "\<And>i. i < 2 \<Longrightarrow> poly_is q K psi (rg_polyParams params) COEFFICIENT (ct ! i) (?c i)"
    using set_formats_correct [OF acc(2) assms(3), of arb COEFFICIENT] acc(1) by auto
  have "sdd_rows q K psi (rg_polyParams params) D (\<lambda>_. rzero K) (map (\<lambda>_. p0) [0..<2 * D])" using p0(2) by (simp add: sdd_rows_def)
  from SignedDigitDecompose_correct [where c = ?c, OF rgsw_params_sizes [OF assms(1)] ct(3,4) this] obtain dct where
    dct: "SignedDigitDecompose params ct (map (\<lambda>_. p0) [0..<2 * D]) = Inr dct"
    and rows: "sdd_rows q K psi (rg_polyParams params) D (\<lambda>i. sdd_poly q g (i div 2) (?c (i mod 2))) dct" by blast
  have d: "sdd_poly q g (i div 2) (?c (i mod 2)) = acc_digit q g a b i" for i by (simp add: acc_digit_def even_iff_mod_2_eq_zero)
  have "acc_digits arb params acc T = Inr (ct, dct, T')"
    unfolding acc_digits_def Let_def p(7) using new ct(1) dct acc(1) by simp
  then show ?thesis using ct(2-4) rows unfolding d by blast
qed

section \<open>The ternary multiplexer\<close>

named_theorems eval_intros "values of the polynomials of the ring modulo q"

lemma eval_radd_cong [eval_intros]:
  "length c = length d \<Longrightarrow> rcong q (poly_eval c z) x \<Longrightarrow> rcong q (poly_eval d z) y \<Longrightarrow> rcong q (poly_eval (radd c d) z) (x + y)"
  by (simp add: eval_radd rcong_add)

lemma eval_rsub_cong [eval_intros]:
  "length c = length d \<Longrightarrow> rcong q (poly_eval c z) x \<Longrightarrow> rcong q (poly_eval d z) y \<Longrightarrow> rcong q (poly_eval (rsub c d) z) (x - y)"
  by (simp add: eval_rsub rcong_diff)

lemma eval_rmul_cong [eval_intros]:
  "length c = 2 ^ K \<Longrightarrow> length d = 2 ^ K \<Longrightarrow> rcong q (z ^ 2 ^ K) (- 1) \<Longrightarrow> rcong q (poly_eval c z) x \<Longrightarrow> rcong q (poly_eval d z) y
    \<Longrightarrow> rcong q (poly_eval (rmul K c d) z) (x * y)"
  by (rule rcong_trans [OF eval_rmul rcong_mult])

lemma eval_rphase_cong [eval_intros]:
  "length s = 2 ^ K \<Longrightarrow> length a = 2 ^ K \<Longrightarrow> length b = 2 ^ K \<Longrightarrow> rcong q (z ^ 2 ^ K) (- 1) \<Longrightarrow> rcong q (poly_eval s z) x
    \<Longrightarrow> rcong q (poly_eval a z) y \<Longrightarrow> rcong q (poly_eval b z) w \<Longrightarrow> rcong q (poly_eval (rphase K s a b) z) (w - y * x)"
  by (rule rcong_trans [OF eval_rphase rcong_diff [OF _ rcong_mult]])

lemma eval_xpow_cong [eval_intros]: "rcong q (z ^ 2 ^ K) (- 1) \<Longrightarrow> rcong q (poly_eval (xpow K e) z) (z ^ e)"
  by (rule eval_xpow)

lemma ring_cong_len: "ring_cong q K c d \<Longrightarrow> length c = 2 ^ K \<and> length d = 2 ^ K"
  by (simp add: ring_cong_def)

lemma cmux_phase:
  assumes ntt: "ntt_params q K psi" and z: "length z = 2 ^ K"
    and len: "length a = 2 ^ K" "length b = 2 ^ K" "length A1 = 2 ^ K" "length A2 = 2 ^ K" "length B1 = 2 ^ K" "length B2 = 2 ^ K"
      "length \<mu>1 = 2 ^ K" "length \<mu>2 = 2 ^ K"
    and P: "ring_cong q K (rphase K z A1 B1) P1" "ring_cong q K (rphase K z A2 B2) P2"
  shows "ring_cong q K (rphase K z (radd a (radd (rmul K A1 \<mu>1) (rmul K A2 \<mu>2))) (radd b (radd (rmul K B1 \<mu>1) (rmul K B2 \<mu>2))))
    (radd (rphase K z a b) (radd (rmul K \<mu>1 P1) (rmul K \<mu>2 P2)))"
proof (rule ring_congI [OF ntt])
  fix x assume x: "rcong (uint q) (x ^ 2 ^ K) (- 1)"
  let ?v = "\<lambda>c. poly_eval c x"
  have "rcong (uint q) (?v (rphase K z (radd a (radd (rmul K A1 \<mu>1) (rmul K A2 \<mu>2))) (radd b (radd (rmul K B1 \<mu>1) (rmul K B2 \<mu>2)))))
      ((?v b + (?v B1 * ?v \<mu>1 + ?v B2 * ?v \<mu>2)) - (?v a + (?v A1 * ?v \<mu>1 + ?v A2 * ?v \<mu>2)) * ?v z)"
    by (intro eval_intros) (simp_all add: len z x)
  also have "\<dots> = (?v b - ?v a * ?v z) + (?v \<mu>1 * (?v B1 - ?v A1 * ?v z) + ?v \<mu>2 * (?v B2 - ?v A2 * ?v z))"
    by (simp add: algebra_simps)
  also have "rcong (uint q) \<dots> ((?v b - ?v a * ?v z) + (?v \<mu>1 * ?v P1 + ?v \<mu>2 * ?v P2))"
    by (intro rcong_add rcong_mult rcong_refl rcong_trans [OF rcong_sym [OF eval_rphase] ring_cong_eval [OF P(1)]]
        rcong_trans [OF rcong_sym [OF eval_rphase] ring_cong_eval [OF P(2)]] z len x)
  also have "rcong (uint q) \<dots> (?v (radd (rphase K z a b) (radd (rmul K \<mu>1 P1) (rmul K \<mu>2 P2))))"
    using ring_cong_len [OF P(1)] ring_cong_len [OF P(2)] by (intro rcong_sym [of _ "?v (radd _ _)"] eval_intros) (simp_all add: len z x)
  finally show "rcong (uint q) (?v (rphase K z (radd a (radd (rmul K A1 \<mu>1) (rmul K A2 \<mu>2))) (radd b (radd (rmul K B1 \<mu>1) (rmul K B2 \<mu>2)))))
      (?v (radd (rphase K z a b) (radd (rmul K \<mu>1 P1) (rmul K \<mu>2 P2))))" .
qed (simp_all add: len z)

definition monomials_ok :: "NativeInt \<Rightarrow> nat \<Rightarrow> NativeInt \<Rightarrow> ILParams \<Rightarrow> Poly list \<Rightarrow> bool" where
  "monomials_ok q K psi prm ms \<longleftrightarrow> length ms = 2 ^ Suc K
     \<and> (\<forall>i<2 ^ Suc K. poly_is q K psi prm EVALUATION (ms ! i) (rsub (xpow K i) (xpow K 0)))"

definition key_noise :: "NativeInt \<Rightarrow> nat \<Rightarrow> nat \<Rightarrow> nat \<Rightarrow> int list \<Rightarrow> int list \<Rightarrow> (nat \<Rightarrow> int list) \<Rightarrow> int list" where
  "key_noise q K g D a b e = ext_sum K (acc_digit q g a b) e (2 * D)"

lemma external_phase_digits:
  fixes col :: "nat \<Rightarrow> nat \<Rightarrow> int list"
  assumes "ntt_params q K psi" "gadget_ok q g D" "length a = 2 ^ K" "length b = 2 ^ K"
    and "rgsw_key q K psi prm g D z M e ek" "key_cols q K psi prm EVALUATION (2 * D) ek col"
    and "\<And>i. i < 2 * D \<Longrightarrow> ring_cong q K (rphase K z (col 0 i) (col 1 i)) (row_phase K g z M (e i) i)"
  shows "ring_cong q K (rphase K z (ext_sum K (acc_digit q g a b) (col 0) (2 * D)) (ext_sum K (acc_digit q g a b) (col 1) (2 * D)))
    (radd (rmul K M (rphase K z a b)) (key_noise q K g D a b e))"
proof -
  have "length (col j i) = 2 ^ K" if "i < 2 * D" "j < 2" for i j using assms(6) that by (auto simp: key_cols_def dest: poly_is_len)
  then show ?thesis unfolding key_noise_def ext_sum_def
    using sdd_poly_sum [OF assms(2,3)] sdd_poly_sum [OF assms(2,4)] assms(3-5,7)
    by (intro external_phase [OF assms(1)]) (simp_all add: acc_digit_def rscale_def rgsw_key_def)
qed

text \<open>One column of \<open>AddToAccCGGI\<close>: the two products and their sum with the accumulator.\<close>

lemma cmux_column:
  assumes "key_cols q K psi prm EVALUATION n ek1 c1" "key_cols q K psi prm EVALUATION n ek2 c2" "j < 2" "length dct = n" "0 < n" "mult = Poly_Times \<or> mult = Poly_TimesEq"
    and dct: "\<And>i. i < n \<Longrightarrow> poly_is q K psi prm EVALUATION (dct ! i) (\<delta> i)"
    and "poly_is q K psi prm EVALUATION mn1 \<mu>1" "poly_is q K psi prm EVALUATION mn2 \<mu>2" "10 \<le> K" "poly_is q K psi prm EVALUATION p a"
  shows "\<exists>t1 t2 s p'. cmux_product Poly_Times n j dct ek1 mn1 = Inr t1 \<and> cmux_product mult n j dct ek2 mn2 = Inr t2
    \<and> Poly_PlusEq t1 t2 = Inr s \<and> dump s = Inr () \<and> Poly_PlusEq p s = Inr p'
    \<and> poly_is q K psi prm EVALUATION p' (radd a (radd (rmul K (ext_sum K \<delta> (c1 j) n) \<mu>1) (rmul K (ext_sum K \<delta> (c2 j) n) \<mu>2)))"
proof -
  obtain t1 where t1: "cmux_product Poly_Times n j dct ek1 mn1 = Inr t1" "poly_is q K psi prm EVALUATION t1 (rmul K (ext_sum K \<delta> (c1 j) n) \<mu>1)"
    using cmux_product_correct [OF assms(1,3-5) disjI1 [OF refl] dct assms(8,10)] by blast
  obtain t2 where t2: "cmux_product mult n j dct ek2 mn2 = Inr t2" "poly_is q K psi prm EVALUATION t2 (rmul K (ext_sum K \<delta> (c2 j) n) \<mu>2)"
    using cmux_product_correct [OF assms(2-6) dct assms(9,10)] by blast
  obtain s where s: "Poly_PlusEq t1 t2 = Inr s" "poly_is q K psi prm EVALUATION s (radd (rmul K (ext_sum K \<delta> (c1 j) n) \<mu>1) (rmul K (ext_sum K \<delta> (c2 j) n) \<mu>2))"
    using poly_is_PlusEq [OF t1(2) t2(2)] by blast
  show ?thesis using poly_is_PlusEq [OF assms(11) s(2)] dump_ok [OF s(2) assms(10)] t1(1) t2(1) s(1) by blast
qed

lemma monomial_index:
  assumes "rgsw_params q K psi g D params" "uint x \<le> 2 ^ Suc K"
  defines "M \<equiv> ucast (2 * rg_N params) :: NativeInt"
  shows "unat (if x = M then 0 else x) = nat (uint x mod 2 ^ Suc K)"
    "unat (if ModSub M x M = M then 0 else ModSub M x M) = nat (- uint x mod 2 ^ Suc K)"
proof -
  note p = rgsw_params_dest [OF assms(1)]
  have M: "uint M = 2 ^ Suc K" unfolding M_def by (rule p(10))
  have "(2 :: int) ^ Suc K \<le> 2 ^ 25" using p(9) by (intro power_increasing) auto
  then have M63: "M \<noteq> 0" "M \<le> 2 ^ 63" using M by (auto simp: word_le_def word_uint_eq_iff)
  have "uint (if x = M then 0 else x) = uint x mod 2 ^ Suc K"
    using assms(2) M by (auto simp: word_uint_eq_iff)
  then show "unat (if x = M then 0 else x) = nat (uint x mod 2 ^ Suc K)" by (simp only: nat_uint_eq [symmetric])
  have u: "uint (ModSub M x M) = - uint x mod 2 ^ Suc K"
    using ModSub_value [OF M63, of M x] by (simp only: M) (simp add: mod_simps)
  have "- uint x mod 2 ^ Suc K < 2 ^ Suc K" by (rule pos_mod_bound) simp
  then have "uint (ModSub M x M) \<noteq> uint M" by (simp only: u M)
  then have "ModSub M x M \<noteq> M" by auto
  then show "unat (if ModSub M x M = M then 0 else ModSub M x M) = nat (- uint x mod 2 ^ Suc K)" using u by (simp only: nat_uint_eq [symmetric] if_False)
qed

definition mono_diff :: "nat \<Rightarrow> int \<Rightarrow> int list" where
  "mono_diff K e = rsub (xpow K (nat (e mod 2 ^ Suc K))) (xpow K 0)"

lemma length_mono_diff [simp]: "length (mono_diff K e) = 2 ^ K"
  by (simp add: mono_diff_def)

lemma AddToAccCGGI_phase:
  assumes prm: "rgsw_params q K psi g D params" and mon: "monomials_ok q K psi (rg_polyParams params) (rg_monomials params)"
    and size: "10 \<le> K" "4 \<le> D" and T: "tables_ok q K psi T"
    and acc: "acc_is q K psi (rg_polyParams params) acc a b" and x: "uint x \<le> 2 ^ Suc K"
    and ek: "rgsw_key q K psi (rg_polyParams params) g D z M1 e1 ek1" "rgsw_key q K psi (rg_polyParams params) g D z M2 e2 ek2"
  shows "\<exists>acc' T' a' b'. AddToAccCGGI arb params ek1 ek2 x acc T = Inr (acc', T') \<and> tables_ok q K psi T'
    \<and> acc_is q K psi (rg_polyParams params) acc' a' b'
    \<and> ring_cong q K (rphase K z a' b') (radd (rphase K z a b) (radd
        (rmul K (mono_diff K (uint x)) (radd (rmul K M1 (rphase K z a b)) (key_noise q K g D a b e1)))
        (rmul K (mono_diff K (- uint x)) (radd (rmul K M2 (rphase K z a b)) (key_noise q K g D a b e2)))))"
proof -
  note p = rgsw_params_dest [OF prm]
  let ?prm = "rg_polyParams params" and ?\<delta> = "acc_digit q g a b" and ?ms = "rg_monomials params"
  let ?i1 = "nat (uint x mod 2 ^ Suc K)" and ?i2 = "nat (- uint x mod 2 ^ Suc K)"
  have ab: "length a = 2 ^ K" "length b = 2 ^ K" "length acc = 2" "poly_is q K psi ?prm EVALUATION (acc ! 0) a"
    "poly_is q K psi ?prm EVALUATION (acc ! 1) b" using acc by (auto simp: acc_is_def dest: poly_is_len)
  obtain c1 where c1: "key_cols q K psi ?prm EVALUATION (2 * D) ek1 c1"
      "ring_cong q K (rphase K z (ext_sum K ?\<delta> (c1 0) (2 * D)) (ext_sum K ?\<delta> (c1 1) (2 * D))) (radd (rmul K M1 (rphase K z a b)) (key_noise q K g D a b e1))"
    by (rule rgsw_key_cols [OF ek(1)]) (use external_phase_digits [OF ring_ok_dest(1) [OF p(1)] p(2) ab(1,2) ek(1)] in blast)
  obtain c2 where c2: "key_cols q K psi ?prm EVALUATION (2 * D) ek2 c2"
      "ring_cong q K (rphase K z (ext_sum K ?\<delta> (c2 0) (2 * D)) (ext_sum K ?\<delta> (c2 1) (2 * D))) (radd (rmul K M2 (rphase K z a b)) (key_noise q K g D a b e2))"
    by (rule rgsw_key_cols [OF ek(2)]) (use external_phase_digits [OF ring_ok_dest(1) [OF p(1)] p(2) ab(1,2) ek(2)] in blast)
  obtain ct dct T1 where d: "acc_digits arb params acc T = Inr (ct, dct, T1)" "tables_ok q K psi T1" "length ct = 2"
      "\<And>i. i < 2 \<Longrightarrow> poly_is q K psi ?prm COEFFICIENT (ct ! i) (if i = 0 then a else b)" "length dct = 2 * D"
      "\<And>i. i < length dct \<Longrightarrow> poly_is q K psi ?prm COEFFICIENT (dct ! i) (?\<delta> i)"
    using acc_digits_correct [OF prm acc T, of arb] by (auto simp: sdd_rows_def)
  obtain dc T2 where dc: "set_formats arb EVALUATION dct T1 = Inr (dc, T2)" "tables_ok q K psi T2" "length dc = 2 * D"
      "\<And>i. i < 2 * D \<Longrightarrow> poly_is q K psi ?prm EVALUATION (dc ! i) (?\<delta> i)"
    using set_formats_correct [OF d(6,2), of arb EVALUATION] d(5) by auto
  have idx: "?i1 < 2 ^ Suc K" "?i2 < 2 ^ Suc K" by (simp_all add: nat_less_iff)
  have m: "elem_at ?ms ?i1 = Inr (?ms ! ?i1)" "poly_is q K psi ?prm EVALUATION (?ms ! ?i1) (mono_diff K (uint x))"
      "elem_at ?ms ?i2 = Inr (?ms ! ?i2)" "poly_is q K psi ?prm EVALUATION (?ms ! ?i2) (mono_diff K (- uint x))"
    using mon idx by (simp_all add: monomials_ok_def elem_at_nth mono_diff_def)
  have D: "0 < 2 * D" "8 \<le> 2 * D" and j: "(0 :: nat) < 2" "(1 :: nat) < 2" using size(2) by simp_all
  obtain t1 t2 ia p0 where A: "cmux_product Poly_Times (2 * D) 0 dc ek1 (?ms ! ?i1) = Inr t1" "cmux_product Poly_Times (2 * D) 0 dc ek2 (?ms ! ?i2) = Inr t2"
      "Poly_PlusEq t1 t2 = Inr ia" "dump ia = Inr ()" "Poly_PlusEq (acc ! 0) ia = Inr p0"
      "poly_is q K psi ?prm EVALUATION p0 (radd a (radd (rmul K (ext_sum K ?\<delta> (c1 0) (2 * D)) (mono_diff K (uint x))) (rmul K (ext_sum K ?\<delta> (c2 0) (2 * D)) (mono_diff K (- uint x)))))"
    using cmux_column [where \<delta> = ?\<delta>, OF c1(1) c2(1) j(1) dc(3) D(1) disjI1 [OF refl] dc(4) m(2,4) size(1) ab(4)] by blast
  obtain t3 t4 ib p1 where B: "cmux_product Poly_Times (2 * D) 1 dc ek1 (?ms ! ?i1) = Inr t3" "cmux_product Poly_TimesEq (2 * D) 1 dc ek2 (?ms ! ?i2) = Inr t4"
      "Poly_PlusEq t3 t4 = Inr ib" "dump ib = Inr ()" "Poly_PlusEq (acc ! 1) ib = Inr p1"
      "poly_is q K psi ?prm EVALUATION p1 (radd b (radd (rmul K (ext_sum K ?\<delta> (c1 1) (2 * D)) (mono_diff K (uint x))) (rmul K (ext_sum K ?\<delta> (c2 1) (2 * D)) (mono_diff K (- uint x)))))"
    using cmux_column [where \<delta> = ?\<delta>, OF c1(1) c2(1) j(2) dc(3) D(1) disjI2 [OF refl] dc(4) m(2,4) size(1) ab(5)] by blast
  have dumps: "dump_polys 2 ct = Inr ()" "dump_polys 8 dct = Inr ()" "dump_polys 8 dc = Inr ()" "dump_rows ek1 = Inr ()" "dump_rows ek2 = Inr ()"
    "dump (?ms ! ?i1) = Inr ()" "dump (?ms ! ?i2) = Inr ()"
    using dump_polys_ok [OF d(4) _ size(1), of 2] dump_polys_ok [OF d(6) _ size(1), of 8] dump_polys_ok [OF dc(4) _ size(1), of 8] d(3,5) dc(3) D(2)
      dump_rows_ok [OF c1(1) D(2) size(1)] dump_rows_ok [OF c2(1) D(2) size(1)] dump_ok [OF m(2) size(1)] dump_ok [OF m(4) size(1)] by simp_all
  have d2: "dump_polys 2 [?ms ! ?i1, ?ms ! ?i2] = Inr ()" "dump_polys 2 [ia, ib] = Inr ()"
    using dumps(6,7) A(4) B(4) by (simp_all add: dump_polys_def res_range_def elem_at_def numeral_2_eq_2)
  have "AddToAccCGGI arb params ek1 ek2 x acc T = Inr (acc[0 := p0, 1 := p1], T2)"
    unfolding AddToAccCGGI_def Let_def p(7) monomial_index [OF prm x]
    using d(1) dc(1) dumps m(1,3) A(1-3,5) B(1-3,5) d2 ab(3) by (simp add: elem_upd_nth)
  moreover have "acc_is q K psi ?prm (acc[0 := p0, 1 := p1])
     (radd a (radd (rmul K (ext_sum K ?\<delta> (c1 0) (2 * D)) (mono_diff K (uint x))) (rmul K (ext_sum K ?\<delta> (c2 0) (2 * D)) (mono_diff K (- uint x)))))
     (radd b (radd (rmul K (ext_sum K ?\<delta> (c1 1) (2 * D)) (mono_diff K (uint x))) (rmul K (ext_sum K ?\<delta> (c2 1) (2 * D)) (mono_diff K (- uint x)))))"
    using A(6) B(6) ab(3) by (simp add: acc_is_def)
  moreover have "length z = 2 ^ K" using ek(1) by (simp add: rgsw_key_def)
  then have "ring_cong q K (rphase K z
     (radd a (radd (rmul K (ext_sum K ?\<delta> (c1 0) (2 * D)) (mono_diff K (uint x))) (rmul K (ext_sum K ?\<delta> (c2 0) (2 * D)) (mono_diff K (- uint x)))))
     (radd b (radd (rmul K (ext_sum K ?\<delta> (c1 1) (2 * D)) (mono_diff K (uint x))) (rmul K (ext_sum K ?\<delta> (c2 1) (2 * D)) (mono_diff K (- uint x))))))
    (radd (rphase K z a b) (radd
        (rmul K (mono_diff K (uint x)) (radd (rmul K M1 (rphase K z a b)) (key_noise q K g D a b e1)))
        (rmul K (mono_diff K (- uint x)) (radd (rmul K M2 (rphase K z a b)) (key_noise q K g D a b e2)))))"
    by (intro cmux_phase [OF ring_ok_dest(1) [OF p(1)] _ ab(1,2) _ _ _ _ _ _ c1(2) c2(2)]) simp_all
  ultimately show ?thesis using dc(2) by blast
qed

lemma rmul_rsub_left:
  assumes "length a = 2 ^ K" "length b = 2 ^ K"
  shows "rmul K (rsub a b) c = rsub (rmul K a c) (rmul K b c)"
proof (intro nth_equalityI)
  fix k assume "k < length (rmul K (rsub a b) c)"
  then have k: "k < 2 ^ K" by simp
  have "negacyclic (2 ^ K) (rsub a b) c k = negacyclic (2 ^ K) a c k - negacyclic (2 ^ K) b c k"
    unfolding negacyclic_def sum_subtractf [symmetric] using assms by (intro sum.cong) (simp_all add: left_diff_distrib)
  then show "rmul K (rsub a b) c ! k = rsub (rmul K a c) (rmul K b c) ! k" using k by simp
qed simp

lemma rbound_mono_diff: "rbound c \<nu> \<Longrightarrow> length \<nu> = 2 ^ K \<Longrightarrow> rbound (2 * c) (rmul K (mono_diff K e) \<nu>)"
  unfolding mono_diff_def mult_2 by (simp only: rmul_rsub_left length_ring) (intro rbound_sub rbound_xpow)

lemma key_noise_bound:
  assumes "0 < g" "length a = 2 ^ K" "length b = 2 ^ K" "\<And>i. i < 2 * D \<Longrightarrow> length (e i) = 2 ^ K \<and> rbound E (e i)"
  shows "rbound (int D * 2 ^ K * 2 ^ g * E) (key_noise q K g D a b e)"
proof -
  have "rbound (2 ^ K * (2 ^ (g - 1) * E)) (rmul K (acc_digit q g a b i) (e i))" if "i < 2 * D" for i
    using assms(2-4) that by (intro rbound_mul) (auto simp: acc_digit_def sdd_poly_bound [OF assms(1), unfolded One_nat_def])
  then have "rbound (int (2 * D) * (2 ^ K * (2 ^ (g - 1) * E))) (key_noise q K g D a b e)"
    unfolding key_noise_def ext_sum_def by (intro rbound_sum) simp
  moreover have "int (2 * D) * (2 ^ K * (2 ^ (g - 1) * E)) = int D * 2 ^ K * 2 ^ g * E" using assms(1) by (cases g) simp_all
  ultimately show ?thesis by (simp only:)
qed

text \<open>The two messages of a ternary secret.\<close>

definition sk_msg :: "nat \<Rightarrow> bool \<Rightarrow> int list" where
  "sk_msg K b = (if b then xpow K 0 else rzero K)"

lemma length_sk_msg [simp]: "length (sk_msg K b) = 2 ^ K"
  by (simp add: sk_msg_def)

lemma eval_sk_msg [eval_intros]: "rcong q (z ^ 2 ^ K) (- 1) \<Longrightarrow> rcong q (poly_eval (sk_msg K b) z) (of_bool b)"
  using eval_xpow [of q z K 0] by (simp add: sk_msg_def eval_rzero)

lemma root_power_period:
  assumes "rcong q (z ^ 2 ^ K) (- 1)" "rcong (2 ^ Suc K) (int e) (int f)"
  shows "rcong q (z ^ e) (z ^ f)"
proof -
  have "rcong q ((z ^ 2 ^ K) ^ 2) ((- 1) ^ 2)" by (rule rcong_power [OF assms(1)])
  then have one: "rcong q (z ^ 2 ^ Suc K) 1" by (simp add: power_mult [symmetric] mult.commute)
  have red: "rcong q (z ^ n) (z ^ (n mod 2 ^ Suc K))" for n
  proof -
    have "z ^ n = z ^ (2 ^ Suc K * (n div 2 ^ Suc K) + n mod 2 ^ Suc K)" by (simp only: mult_div_mod_eq)
    also have "\<dots> = (z ^ 2 ^ Suc K) ^ (n div 2 ^ Suc K) * z ^ (n mod 2 ^ Suc K)" by (simp only: power_add power_mult)
    also have "rcong q \<dots> (1 ^ (n div 2 ^ Suc K) * z ^ (n mod 2 ^ Suc K))" by (intro rcong_mult rcong_power one) auto
    finally show ?thesis by simp
  qed
  have "int (e mod 2 ^ Suc K) = int (f mod 2 ^ Suc K)" using assms(2) by (simp only: rcong_def of_nat_mod of_nat_power of_nat_numeral)
  then have "e mod 2 ^ Suc K = f mod 2 ^ Suc K" by (simp only: of_nat_eq_iff)
  then show ?thesis using red [of e] rcong_sym [OF red [of f]] rcong_trans by metis
qed

text \<open>\<open>x ^ e\<close> for an integer exponent, as an element of the ring.\<close>

definition xrot :: "nat \<Rightarrow> int \<Rightarrow> int list" where
  "xrot K e = xpow K (nat (e mod 2 ^ Suc K))"

lemma length_xrot [simp]: "length (xrot K e) = 2 ^ K"
  by (simp add: xrot_def)

lemma ternary_step:
  assumes "ntt_params q K psi" "s = 0 \<or> s = 1 \<or> s = - 1" "length ph = 2 ^ K" "length n1 = 2 ^ K" "length n2 = 2 ^ K"
  shows "ring_cong q K (radd ph (radd (rmul K (mono_diff K a) (radd (rmul K (sk_msg K (s = 1)) ph) n1))
      (rmul K (mono_diff K (- a)) (radd (rmul K (sk_msg K (s = - 1)) ph) n2))))
    (radd (rmul K (xrot K (a * s)) ph) (radd (rmul K (mono_diff K a) n1) (rmul K (mono_diff K (- a)) n2)))"
proof (rule ring_congI [OF assms(1)])
  fix z assume z: "rcong (uint q) (z ^ 2 ^ K) (- 1)"
  let ?v = "\<lambda>c. poly_eval c z" and ?x = "\<lambda>e. z ^ nat (e mod 2 ^ Suc K)"
  have "rcong (uint q) (?v (radd ph (radd (rmul K (mono_diff K a) (radd (rmul K (sk_msg K (s = 1)) ph) n1))
      (rmul K (mono_diff K (- a)) (radd (rmul K (sk_msg K (s = - 1)) ph) n2)))))
     (?v ph + ((?x a - z ^ 0) * (of_bool (s = 1) * ?v ph + ?v n1) + (?x (- a) - z ^ 0) * (of_bool (s = - 1) * ?v ph + ?v n2)))"
    unfolding mono_diff_def by (intro eval_intros z) (simp_all add: assms z)
  also have "\<dots> = ?x (a * s) * ?v ph + ((?x a - z ^ 0) * ?v n1 + (?x (- a) - z ^ 0) * ?v n2)"
    using assms(2) by (elim disjE) (simp_all add: algebra_simps)
  also have "rcong (uint q) \<dots> (?v (radd (rmul K (xrot K (a * s)) ph) (radd (rmul K (mono_diff K a) n1) (rmul K (mono_diff K (- a)) n2))))"
    unfolding mono_diff_def xrot_def by (intro rcong_sym [of _ "?v (radd _ _)"] eval_intros z) (simp_all add: assms z)
  finally show "rcong (uint q) (?v (radd ph (radd (rmul K (mono_diff K a) (radd (rmul K (sk_msg K (s = 1)) ph) n1))
      (rmul K (mono_diff K (- a)) (radd (rmul K (sk_msg K (s = - 1)) ph) n2)))))
     (?v (radd (rmul K (xrot K (a * s)) ph) (radd (rmul K (mono_diff K a) n1) (rmul K (mono_diff K (- a)) n2))))" .
qed (simp_all add: assms)

definition small_key :: "NativeInt \<Rightarrow> nat \<Rightarrow> NativeInt \<Rightarrow> ILParams \<Rightarrow> nat \<Rightarrow> nat \<Rightarrow> int \<Rightarrow> int list \<Rightarrow> int list \<Rightarrow> RingGSWEvalKey \<Rightarrow> bool" where
  "small_key q K psi prm g D E z M ek \<longleftrightarrow> (\<exists>e. rgsw_key q K psi prm g D z M e ek \<and> (\<forall>i<2 * D. rbound E (e i)))"

lemma small_keyI: "rgsw_key q K psi prm g D z M e ek \<Longrightarrow> (\<And>i. i < 2 * D \<Longrightarrow> rbound E (e i)) \<Longrightarrow> small_key q K psi prm g D E z M ek"
  by (auto simp: small_key_def)

text \<open>
  An accumulator whose phase is \<open>x ^ e\<close> times \<open>ph0\<close>, up to a noise polynomial with coefficients of at most \<open>bound\<close>.
\<close>

definition rotated :: "NativeInt \<Rightarrow> nat \<Rightarrow> NativeInt \<Rightarrow> ILParams \<Rightarrow> int list \<Rightarrow> int \<Rightarrow> int list \<Rightarrow> int \<Rightarrow> Poly list \<Rightarrow> bool" where
  "rotated q K psi prm z e ph0 bound acc \<longleftrightarrow> (\<exists>a b \<nu>. acc_is q K psi prm acc a b \<and> length \<nu> = 2 ^ K \<and> rbound bound \<nu>
     \<and> ring_cong q K (rphase K z a b) (radd (rmul K (xrot K e) ph0) \<nu>))"

lemma rotatedI:
  "acc_is q K psi prm acc a b \<Longrightarrow> length \<nu> = 2 ^ K \<Longrightarrow> rbound bound \<nu> \<Longrightarrow> ring_cong q K (rphase K z a b) (radd (rmul K (xrot K e) ph0) \<nu>)
    \<Longrightarrow> rotated q K psi prm z e ph0 bound acc"
  by (auto simp: rotated_def)

lemma AddToAccCGGI_rotates:
  assumes prm: "rgsw_params q K psi g D params" and mon: "monomials_ok q K psi (rg_polyParams params) (rg_monomials params)"
    and size: "10 \<le> K" "4 \<le> D" and T: "tables_ok q K psi T"
    and acc: "acc_is q K psi (rg_polyParams params) acc a b" and x: "uint x \<le> 2 ^ Suc K" and s: "s = 0 \<or> s = 1 \<or> s = - 1"
    and ek: "small_key q K psi (rg_polyParams params) g D E z (sk_msg K (s = 1)) ek1" "small_key q K psi (rg_polyParams params) g D E z (sk_msg K (s = - 1)) ek2"
  shows "\<exists>acc' T'. AddToAccCGGI arb params ek1 ek2 x acc T = Inr (acc', T') \<and> tables_ok q K psi T'
    \<and> rotated q K psi (rg_polyParams params) z (uint x * s) (rphase K z a b) (4 * int D * 2 ^ K * 2 ^ g * E) acc'"
proof -
  note p = rgsw_params_dest [OF prm]
  obtain e1 e2 where e: "rgsw_key q K psi (rg_polyParams params) g D z (sk_msg K (s = 1)) e1 ek1" "\<And>i. i < 2 * D \<Longrightarrow> rbound E (e1 i)"
     "rgsw_key q K psi (rg_polyParams params) g D z (sk_msg K (s = - 1)) e2 ek2" "\<And>i. i < 2 * D \<Longrightarrow> rbound E (e2 i)"
    using ek by (auto simp: small_key_def)
  have len: "length a = 2 ^ K" "length b = 2 ^ K" "length (rphase K z a b) = 2 ^ K" using acc by (auto simp: acc_is_def dest: poly_is_len)
  let ?n1 = "key_noise q K g D a b e1" and ?n2 = "key_noise q K g D a b e2"
  let ?\<nu> = "radd (rmul K (mono_diff K (uint x)) ?n1) (rmul K (mono_diff K (- uint x)) ?n2)"
  have n: "length ?n1 = 2 ^ K" "length ?n2 = 2 ^ K" by (simp_all add: key_noise_def)
  have "rbound (int D * 2 ^ K * 2 ^ g * E) ?n1" "rbound (int D * 2 ^ K * 2 ^ g * E) ?n2"
    using e by (auto intro!: key_noise_bound len p(8) simp: rgsw_key_def)
  then have "rbound (2 * (int D * 2 ^ K * 2 ^ g * E) + 2 * (int D * 2 ^ K * 2 ^ g * E)) ?\<nu>"
    by (intro rbound_add rbound_mono_diff n)
  then have \<nu>: "rbound (4 * int D * 2 ^ K * 2 ^ g * E) ?\<nu>" "length ?\<nu> = 2 ^ K" by (simp_all add: algebra_simps)
  obtain acc' T' a' b' where A: "AddToAccCGGI arb params ek1 ek2 x acc T = Inr (acc', T')" "tables_ok q K psi T'"
     "acc_is q K psi (rg_polyParams params) acc' a' b'"
     "ring_cong q K (rphase K z a' b') (radd (rphase K z a b) (radd
        (rmul K (mono_diff K (uint x)) (radd (rmul K (sk_msg K (s = 1)) (rphase K z a b)) ?n1))
        (rmul K (mono_diff K (- uint x)) (radd (rmul K (sk_msg K (s = - 1)) (rphase K z a b)) ?n2))))"
    using AddToAccCGGI_phase [OF prm mon size T acc x e(1,3)] by blast
  have "rotated q K psi (rg_polyParams params) z (uint x * s) (rphase K z a b) (4 * int D * 2 ^ K * 2 ^ g * E) acc'"
    by (rule rotatedI [OF A(3) \<nu>(2,1) ring_cong_trans [OF A(4) ternary_step [OF ring_ok_dest(1) [OF p(1)] s len(3) n]]])
  then show ?thesis using A(1,2) by blast
qed

section \<open>Blind rotation\<close>

lemma xrot_cong: "rcong (2 ^ Suc K) e f \<Longrightarrow> xrot K e = xrot K f"
  by (simp add: xrot_def rcong_def)

lemma xrot_compose:
  assumes "ntt_params q K psi" "length c = 2 ^ K" "length n = 2 ^ K"
  shows "ring_cong q K (rmul K (xrot K e) (radd (rmul K (xrot K f) c) n)) (radd (rmul K (xrot K (e + f)) c) (rmul K (xrot K e) n))"
proof (rule ring_congI [OF assms(1)])
  fix z assume z: "rcong (uint q) (z ^ 2 ^ K) (- 1)"
  let ?v = "\<lambda>c. poly_eval c z" and ?x = "\<lambda>e. z ^ nat (e mod 2 ^ Suc K)"
  have "rcong (uint q) (?v (rmul K (xrot K e) (radd (rmul K (xrot K f) c) n))) (?x e * (?x f * ?v c + ?v n))"
    unfolding xrot_def by (intro eval_intros z) (simp_all add: assms z)
  also have "\<dots> = z ^ (nat (e mod 2 ^ Suc K) + nat (f mod 2 ^ Suc K)) * ?v c + ?x e * ?v n" by (simp add: power_add algebra_simps)
  also have "rcong (uint q) \<dots> (?x (e + f) * ?v c + ?x e * ?v n)"
    by (intro rcong_add rcong_mult rcong_refl root_power_period [OF z]) (simp add: rcong_def mod_simps)
  also have "rcong (uint q) \<dots> (?v (radd (rmul K (xrot K (e + f)) c) (rmul K (xrot K e) n)))"
    unfolding xrot_def by (intro rcong_sym [of _ "?v (radd _ _)"] eval_intros z) (simp_all add: assms z)
  finally show "rcong (uint q) (?v (rmul K (xrot K e) (radd (rmul K (xrot K f) c) n))) (?v (radd (rmul K (xrot K (e + f)) c) (rmul K (xrot K e) n)))" .
qed (simp_all add: assms)

lemma ring_cong_radd: "ring_cong q K a b \<Longrightarrow> ring_cong q K c d \<Longrightarrow> ring_cong q K (radd a c) (radd b d)"
  by (simp add: ring_cong_nth rcong_add)

lemma ring_cong_rmul:
  assumes "ntt_params q K psi" "length c = 2 ^ K" "ring_cong q K a b"
  shows "ring_cong q K (rmul K c a) (rmul K c b)"
proof (rule ring_congI [OF assms(1)])
  fix z assume z: "rcong (uint q) (z ^ 2 ^ K) (- 1)"
  have len: "length a = 2 ^ K" "length b = 2 ^ K" using ring_cong_len [OF assms(3)] by simp_all
  have "rcong (uint q) (poly_eval (rmul K c a) z) (poly_eval c z * poly_eval b z)"
    by (intro eval_rmul_cong ring_cong_eval [OF assms(3)] len z assms(2) rcong_refl)
  also have "rcong (uint q) \<dots> (poly_eval (rmul K c b) z)" by (intro rcong_sym [OF eval_rmul] assms(2) len z)
  finally show "rcong (uint q) (poly_eval (rmul K c a) z) (poly_eval (rmul K c b) z)" .
qed simp_all

lemma radd_assoc: "length a = length b \<Longrightarrow> length b = length c \<Longrightarrow> radd (radd a b) c = radd a (radd b c)"
  by (intro nth_equalityI) simp_all

text \<open>The effect of rotations on a phase with noise, one after the other.\<close>

lemma rotation_step:
  assumes "ntt_params q K psi" "length c = 2 ^ K" "length n = 2 ^ K" "length m = 2 ^ K"
    and "ring_cong q K ph (radd (rmul K (xrot K f) c) n)" "ring_cong q K ph' (radd (rmul K (xrot K e) ph) m)"
  shows "ring_cong q K ph' (radd (rmul K (xrot K (e + f)) c) (radd (rmul K (xrot K e) n) m))"
proof -
  note assms(6)
  also have "ring_cong q K (radd (rmul K (xrot K e) ph) m) (radd (rmul K (xrot K e) (radd (rmul K (xrot K f) c) n)) m)"
    by (intro ring_cong_radd ring_cong_rmul [OF assms(1)] assms(5) ring_cong_refl assms(4)) simp
  also have "ring_cong q K \<dots> (radd (radd (rmul K (xrot K (e + f)) c) (rmul K (xrot K e) n)) m)"
    by (intro ring_cong_radd xrot_compose [OF assms(1-3)] ring_cong_refl assms(4))
  also have "radd (radd (rmul K (xrot K (e + f)) c) (rmul K (xrot K e) n)) m = radd (rmul K (xrot K (e + f)) c) (radd (rmul K (xrot K e) n) m)"
    by (rule radd_assoc) (simp_all add: assms(4))
  finally show ?thesis .
qed

text \<open>The exponent that \<open>EvalAcc\<close> computes from an entry of the ciphertext.\<close>

lemma EvalAcc_exponent:
  assumes "uint M = 2 ^ Suc K" "K \<le> 24" "uint md dvd 2 ^ Suc K" "x < md"
  defines "e \<equiv> MulFast (ModSub md x md) (ucast ((M :: usint) div ucast md))"
  shows "uint e \<le> 2 ^ Suc K" "rcong (2 ^ Suc K) (uint e) (- (2 ^ Suc K div uint md) * uint x)" "(ucast md :: usint) \<noteq> 0"
proof -
  have K: "(2 :: int) ^ Suc K \<le> 2 ^ 25" using assms(2) by (intro power_increasing) auto
  have md: "0 < uint md" using assms(4) unfolding word_less_def by (rule le_less_trans [OF uint_ge_0])
  have le: "uint md \<le> 2 ^ Suc K" using assms(3) by (intro zdvd_imp_le) simp_all
  have m63: "md \<noteq> 0" "md \<le> 2 ^ 63" using md le K by (auto simp: word_le_def word_uint_eq_iff)
  have "uint md < 2 ^ 32" by (rule le_less_trans [OF order_trans [OF le K]]) simp
  then have ui: "uint (ucast md :: usint) = uint md" by (simp add: unsigned_ucast_eq take_bit_eq_mod)
  then show "(ucast md :: usint) \<noteq> 0" using md by (auto simp: word_uint_eq_iff)
  define k where "k = 2 ^ Suc K div uint md"
  have k: "2 ^ Suc K = uint md * k" using assms(3) by (simp add: k_def)
  have k0: "0 \<le> k" "k \<le> 2 ^ Suc K" using md zdiv_mono2 [of "2 ^ Suc K" 1 "uint md"] unfolding k_def by (simp_all add: pos_imp_zdiv_nonneg_iff)
  have "uint (M div ucast md) = k" by (simp add: uint_div ui assms(1) k_def)
  then have uk: "uint (ucast (M div ucast md) :: NativeInt) = k" using k0 K by (simp add: unsigned_ucast_eq take_bit_eq_mod)
  define r where "r = - uint x mod uint md"
  have r: "0 \<le> r" "r < uint md" using md by (simp_all add: r_def)
  have us: "uint (ModSub md x md) = r" using ModSub_value [OF m63, of md x] by (simp add: r_def mod_simps)
  have rk: "0 \<le> r * k" "r * k \<le> 2 ^ Suc K" using r k0 k mult_right_mono [of r "uint md" k] by simp_all
  then have ue: "uint e = r * k" unfolding e_def MulFast_def using us uk K by (simp add: uint_word_ariths)
  show "uint e \<le> 2 ^ Suc K" using ue rk by simp
  have "rcong (uint md) r (- uint x)" by (simp add: r_def rcong_def)
  then have "rcong (uint md * k) (k * r) (k * (- uint x))" by (rule rcong_scale)
  then have "rcong (2 ^ Suc K) (r * k) (- k * uint x)" by (simp only: k mult.commute [of k r] mult_minus_left mult_minus_right)
  then show "rcong (2 ^ Suc K) (uint e) (- (2 ^ Suc K div uint md) * uint x)" unfolding ue k_def .
qed

definition cggi_key :: "NativeInt \<Rightarrow> nat \<Rightarrow> NativeInt \<Rightarrow> ILParams \<Rightarrow> nat \<Rightarrow> nat \<Rightarrow> int \<Rightarrow> int list \<Rightarrow> int list \<Rightarrow> (RingGSWEvalKey \<times> RingGSWEvalKey) list \<Rightarrow> bool" where
  "cggi_key q K psi prm g D E z key ek \<longleftrightarrow> length ek = length key
     \<and> (\<forall>i<length key. (key ! i = 0 \<or> key ! i = 1 \<or> key ! i = - 1)
       \<and> small_key q K psi prm g D E z (sk_msg K (key ! i = 1)) (fst (ek ! i))
       \<and> small_key q K psi prm g D E z (sk_msg K (key ! i = - 1)) (snd (ek ! i)))"

lemma rotated_trans:
  assumes "ntt_params q K psi" "length ph0 = 2 ^ K" "rotated q K psi prm z e ph0 B acc"
    and "\<And>a b. acc_is q K psi prm acc a b \<Longrightarrow> rotated q K psi prm z f (rphase K z a b) \<beta> acc'"
  shows "rotated q K psi prm z (f + e) ph0 (B + \<beta>) acc'"
proof -
  obtain a b n where r: "acc_is q K psi prm acc a b" "length n = 2 ^ K" "rbound B n" "ring_cong q K (rphase K z a b) (radd (rmul K (xrot K e) ph0) n)"
    using assms(3) by (auto simp: rotated_def)
  obtain a' b' m where s: "acc_is q K psi prm acc' a' b'" "length m = 2 ^ K" "rbound \<beta> m" "ring_cong q K (rphase K z a' b') (radd (rmul K (xrot K f) (rphase K z a b)) m)"
    using assms(4) [OF r(1)] by (auto simp: rotated_def)
  show ?thesis
  proof (rule rotatedI [OF s(1) _ _ rotation_step [OF assms(1,2) r(2) s(2) r(4) s(4)]])
    show "rbound (B + \<beta>) (radd (rmul K (xrot K f) n) m)" unfolding xrot_def by (intro rbound_add rbound_xpow r(2,3) s(3))
  qed (simp add: s(2))
qed

lemma rotated_cong: "rotated q K psi prm z e ph0 B acc \<Longrightarrow> rcong (2 ^ Suc K) e f \<Longrightarrow> B \<le> B' \<Longrightarrow> rotated q K psi prm z f ph0 B' acc"
  unfolding rotated_def by (metis xrot_cong rbound_mono)

lemma rotated_start:
  assumes "acc_is q K psi prm acc a b" "ntt_params q K psi" "length z = 2 ^ K"
  shows "rotated q K psi prm z 0 (rphase K z a b) 0 acc"
proof -
  have len: "length a = 2 ^ K" "length b = 2 ^ K" using assms(1) by (auto simp: acc_is_def dest: poly_is_len)
  have "ring_cong q K (rphase K z a b) (radd (rmul K (xrot K 0) (rphase K z a b)) (rzero K))"
  proof (rule ring_congI [OF assms(2)])
    fix x assume x: "rcong (uint q) (x ^ 2 ^ K) (- 1)"
    have "rcong (uint q) (poly_eval (radd (rmul K (xrot K 0) (rphase K z a b)) (rzero K)) x) (x ^ nat (0 mod 2 ^ Suc K) * poly_eval (rphase K z a b) x + 0)"
      unfolding xrot_def by (intro eval_intros x) (simp_all add: len eval_simps)
    then show "rcong (uint q) (poly_eval (rphase K z a b) x) (poly_eval (radd (rmul K (xrot K 0) (rphase K z a b)) (rzero K)) x)"
      by (simp add: rcong_sym)
  qed (simp_all add: len)
  then show ?thesis unfolding rotated_def using assms(1) rbound_zero [of 0 K] length_ring(4) by blast
qed

lemma EvalAcc_CGGI_correct:
  assumes prm: "rgsw_params q K psi g D params" and mon: "monomials_ok q K psi (rg_polyParams params) (rg_monomials params)"
    and size: "10 \<le> K" "4 \<le> D" and T: "tables_ok q K psi T" and z: "length z = 2 ^ K"
    and acc: "acc_is q K psi (rg_polyParams params) acc a b"
    and v: "nv_wf v" "length (m_data v) = length key" "uint (m_modulus v) dvd 2 ^ Suc K"
    and ek: "cggi_key q K psi (rg_polyParams params) g D E z key ek"
  shows "\<exists>acc' T'. EvalAcc_CGGI arb params ek acc v T = Inr (acc', T') \<and> tables_ok q K psi T'
    \<and> rotated q K psi (rg_polyParams params) z (- (2 ^ Suc K div uint (m_modulus v)) * dot (nv_abs v) key) (rphase K z a b)
        (int (length key) * (4 * int D * 2 ^ K * 2 ^ g * E)) acc'"
proof -
  note p = rgsw_params_dest [OF prm]
  let ?md = "m_modulus v" and ?n = "length key" and ?prm = "rg_polyParams params" and ?k = "2 ^ Suc K div uint (m_modulus v)"
  let ?\<beta> = "4 * int D * 2 ^ K * 2 ^ g * E" and ?ph = "rphase K z a b"
  note M = p(11)
  have ph: "length ?ph = 2 ^ K" using acc by (auto simp: acc_is_def dest: poly_is_len)
  let ?e = "\<lambda>i. - ?k * (\<Sum>j<i. nv_abs v ! j * key ! j)"
  let ?P = "\<lambda>i st. rotated q K psi ?prm z (?e i) ?ph (int i * ?\<beta>) (fst st) \<and> tables_ok q K psi (snd st)"
  let ?body = "\<lambda>i (acc, T). res_bind (elem_at ek i) (\<lambda>(k1, k2). res_bind (vec_get v i) (\<lambda>x.
      AddToAccCGGI arb params k1 k2 (MulFast (ModSub ?md x ?md) (ucast (2 * rg_N params div ucast ?md))) acc T))"
  have step: "\<exists>st'. ?body i st = Inr st' \<and> ?P (Suc i) st'" if i: "i < ?n" and P: "?P i st" for i st
  proof -
    obtain acc1 T1 where st: "st = (acc1, T1)" by (cases st)
    let ?x = "m_data v ! i"
    let ?c = "MulFast (ModSub ?md ?x ?md) (ucast (2 * rg_N params div ucast ?md))"
    have lt: "?x < ?md" using nv_wf_nth [OF v(1)] v(2) i by simp
    note ex = EvalAcc_exponent [OF M p(9) v(3) lt]
    have r: "rotated q K psi ?prm z (?e i) ?ph (int i * ?\<beta>) acc1" and T1: "tables_ok q K psi T1" using P by (auto simp: st)
    have k: "key ! i = 0 \<or> key ! i = 1 \<or> key ! i = - 1" "small_key q K psi ?prm g D E z (sk_msg K (key ! i = 1)) (fst (ek ! i))"
        "small_key q K psi ?prm g D E z (sk_msg K (key ! i = - 1)) (snd (ek ! i))" "length ek = ?n"
      using ek i by (auto simp: cggi_key_def)
    note add = AddToAccCGGI_rotates [where arb = arb, OF prm mon size T1 _ ex(1) k(1-3)]
    obtain a1 b1 where ab: "acc_is q K psi ?prm acc1 a1 b1" using r by (auto simp: rotated_def)
    obtain acc2 T2 where s: "AddToAccCGGI arb params (fst (ek ! i)) (snd (ek ! i)) ?c acc1 T1 = Inr (acc2, T2)" "tables_ok q K psi T2"
      using add [OF ab] by blast
    have c1: "rotated q K psi ?prm z (uint ?c * key ! i + ?e i) ?ph (int i * ?\<beta> + ?\<beta>) acc2"
      by (rule rotated_trans [OF ring_ok_dest(1) [OF p(1)] ph r]) (use add s(1) in fastforce)
    have c2: "rcong (2 ^ Suc K) (uint ?c * key ! i + ?e i) (- ?k * uint ?x * key ! i + ?e i)" by (intro rcong_add rcong_mult ex(2) rcong_refl)
    have c3: "- ?k * uint ?x * key ! i + ?e i = ?e (Suc i)" using i v(2) by (simp add: nv_abs_def algebra_simps)
    have c4: "int i * ?\<beta> + ?\<beta> = int (Suc i) * ?\<beta>" by (simp add: algebra_simps)
    have "rotated q K psi ?prm z (?e (Suc i)) ?ph (int (Suc i) * ?\<beta>) acc2" using rotated_cong [OF c1 c2 eq_refl [OF c4]] by (simp only: c3)
    moreover have "?body i st = Inr (acc2, T2)" using s(1) i v(2) k(4) by (simp add: st elem_at_nth vec_get_nth split_beta)
    ultimately show ?thesis using s(2) by auto
  qed
  have "\<exists>st. res_range 0 ?n ?body (acc, T) = Inr st \<and> ?P ?n st"
    by (rule res_range_invariant [where P = ?P]) (use step T rotated_start [OF acc ring_ok_dest(1) [OF p(1)] z] in auto)
  then obtain st where st: "res_range 0 ?n ?body (acc, T) = Inr st" "?P ?n st" by blast
  have nz: "0 < ?n \<Longrightarrow> (ucast ?md :: usint) \<noteq> 0"
    using EvalAcc_exponent(3) [OF M p(9) v(3)] nv_wf_nth [OF v(1), of 0] v(2) by auto
  have "EvalAcc_CGGI arb params ek acc v T = Inr st"
    unfolding EvalAcc_CGGI_def Let_def NV_GetModulus_def using nz st(1) v(2) by (auto simp: NV_GetLength_def)
  then show ?thesis using st(2) by (cases st) (auto simp: dot_def)
qed

section \<open>The accumulation of Ducas and Micciancio\<close>

lemma rmul_zero_left: "rmul K (rzero K) c = rzero K"
  by (intro nth_equalityI) (auto simp: negacyclic_def intro!: sum.neutral)

text \<open>The products from row 1 on: the digit of row 0 counts as zero.\<close>

lemma add_products_zero:
  assumes "key_cols q K psi prm EVALUATION n ek col" "j < 2" "length dct = n" "0 < n" "mult = Poly_Times \<or> mult = Poly_TimesEq"
    and dct: "\<And>i. i < n \<Longrightarrow> poly_is q K psi prm EVALUATION (dct ! i) (\<delta> i)" and p: "poly_is q K psi prm EVALUATION p c"
  shows "\<exists>t. res_bind (Poly_SetValuesToZero p) (add_products_poly mult n j dct ek) = Inr t
    \<and> poly_is q K psi prm EVALUATION t (ext_sum K (\<delta>(0 := rzero K)) (col j) n)"
proof -
  let ?f = "\<lambda>i. rmul K ((\<delta>(0 := rzero K)) i) (col j i)"
  have ek: "length ek = n" "\<And>i. i < n \<Longrightarrow> j < length (ek ! i) \<and> poly_is q K psi prm EVALUATION (ek ! i ! j) (col j i)"
    using assms(1,2) by (auto simp: key_cols_def)
  have "m_params p = prm" "m_format p = EVALUATION" using p by (simp_all add: poly_is_def)
  then obtain p0 where p0: "Poly_SetValuesToZero p = Inr p0" "poly_is q K psi prm EVALUATION p0 (rzero K)"
    using poly_is_zero [OF poly_is_ok [OF p], of p] by auto
  have "rsum K ?f 1 = rzero K" by (intro nth_equalityI) (simp_all add: rmul_zero_left)
  then have "poly_is q K psi prm EVALUATION p0 (rsum K ?f 1)" using p0(2) by simp
  then have "\<exists>t. add_products_poly mult n j dct ek p0 = Inr t \<and> poly_is q K psi prm EVALUATION t (rsum K ?f n)"
    unfolding add_products_poly_def
  proof (intro res_range_invariant [where P = "\<lambda>i t. poly_is q K psi prm EVALUATION t (rsum K ?f i)"])
    fix i t assume i: "1 \<le> i" "i < n" and t: "poly_is q K psi prm EVALUATION t (rsum K ?f i)"
    obtain s where s: "mult (dct ! i) (ek ! i ! j) = Inr s" "poly_is q K psi prm EVALUATION s (?f i)"
      using poly_is_Times [OF dct [OF i(2)] conjunct2 [OF ek(2) [OF i(2)]]] assms(5) i(1) by auto
    obtain t' where "Poly_PlusEq t s = Inr t'" "poly_is q K psi prm EVALUATION t' (radd (rsum K ?f i) (?f i))"
      using poly_is_PlusEq [OF t s(2)] by blast
    moreover have "radd (rsum K ?f i) (?f i) = rsum K ?f (Suc i)" by (rule rsum_Suc) simp
    ultimately show "\<exists>t'. res_bind (elem_at dct i) (\<lambda>d. res_bind (key_at ek i j) (\<lambda>e. res_bind (mult d e) (Poly_PlusEq t))) = Inr t'
        \<and> poly_is q K psi prm EVALUATION t' (rsum K ?f (Suc i))"
      using s(1) i ek assms(3) by (simp add: elem_at_nth key_at_nth)
  qed (use assms(4) in auto)
  then show ?thesis using p0(1) by (simp add: ext_sum_def)
qed

lemma dm_phase:
  assumes ok: "ntt_params q K psi" "gadget_ok q g D" and ab: "length a = 2 ^ K" "length b = 2 ^ K"
    and key: "rgsw_key q K psi prm g D z M e ek" and cols: "key_cols q K psi prm EVALUATION (2 * D) ek col"
    and row: "\<And>i. i < 2 * D \<Longrightarrow> ring_cong q K (rphase K z (col 0 i) (col 1 i)) (row_phase K g z M (e i) i)"
  defines "\<delta> \<equiv> (acc_digit q g a b)(0 := rzero K)"
  shows "ring_cong q K (rphase K z (ext_sum K \<delta> (col 0) (2 * D)) (ext_sum K \<delta> (col 1) (2 * D)))
    (radd (rmul K M (rphase K z a b)) (radd (rmul K M (rmul K (sdd_poly q g 0 a) z)) (ext_sum K \<delta> e (2 * D))))"
proof -
  have D: "0 < D" using ok(2) by (simp add: gadget_ok_def)
  have len: "length z = 2 ^ K" "length M = 2 ^ K" "\<And>i. i < 2 * D \<Longrightarrow> length (e i) = 2 ^ K" using key by (simp_all add: rgsw_key_def)
  have cl: "length (col j i) = 2 ^ K" if "i < 2 * D" "j < 2" for i j using cols that by (auto simp: key_cols_def dest: poly_is_len)
  have dl: "length (\<delta> i) = 2 ^ K" for i using ab by (simp add: \<delta>_def acc_digit_def)
  have 0: "ring_cong q K (rsum K (\<lambda>l. rscale (2 ^ (g * l)) (\<delta> (2 * l))) D) (rsub a (sdd_poly q g 0 a))"
  proof -
    have "(\<Sum>l<D. rscale (2 ^ (g * l)) (\<delta> (2 * l)) ! k) = (\<Sum>l<D. 2 ^ (g * l) * sdd_poly q g l a ! k) - sdd_poly q g 0 a ! k" if "k < 2 ^ K" for k
      using that ab D by (cases D) (simp_all add: \<delta>_def acc_digit_def rscale_def sum.lessThan_Suc_shift del: sum.lessThan_Suc)
    then show ?thesis using sdd_poly_sum [OF ok(2) ab(1)] ab by (simp add: ring_cong_nth) (intro allI impI rcong_diff, simp_all)
  qed
  have 1: "ring_cong q K (rsum K (\<lambda>l. rscale (2 ^ (g * l)) (\<delta> (2 * l + 1))) D) b"
    using sdd_poly_sum [OF ok(2) ab(2)] by (simp add: \<delta>_def acc_digit_def rscale_def)
  have "ring_cong q K (rphase K z (ext_sum K \<delta> (col 0) (2 * D)) (ext_sum K \<delta> (col 1) (2 * D)))
      (radd (rmul K M (rphase K z (rsub a (sdd_poly q g 0 a)) b)) (ext_sum K \<delta> e (2 * D)))"
    unfolding ext_sum_def by (rule external_phase [OF ok(1) len(1,2) _ ab(2) dl cl cl len(3) row 0 1]) (simp_all add: ab)
  also have "ring_cong q K \<dots> (radd (rmul K M (rphase K z a b)) (radd (rmul K M (rmul K (sdd_poly q g 0 a) z)) (ext_sum K \<delta> e (2 * D))))"
  proof (rule ring_congI [OF ok(1)])
    fix x assume x: "rcong (uint q) (x ^ 2 ^ K) (- 1)"
    let ?v = "\<lambda>c. poly_eval c x"
    have "rcong (uint q) (?v (radd (rmul K M (rphase K z (rsub a (sdd_poly q g 0 a)) b)) (ext_sum K \<delta> e (2 * D))))
        (?v M * (?v b - (?v a - ?v (sdd_poly q g 0 a)) * ?v z) + ?v (ext_sum K \<delta> e (2 * D)))"
      by (intro eval_intros) (simp_all add: ab len x)
    also have "\<dots> = ?v M * (?v b - ?v a * ?v z) + (?v M * (?v (sdd_poly q g 0 a) * ?v z) + ?v (ext_sum K \<delta> e (2 * D)))" by (simp add: algebra_simps)
    also have "rcong (uint q) \<dots> (?v (radd (rmul K M (rphase K z a b)) (radd (rmul K M (rmul K (sdd_poly q g 0 a) z)) (ext_sum K \<delta> e (2 * D)))))"
      by (intro rcong_sym [of _ "?v (radd _ _)"] eval_intros) (simp_all add: ab len x)
    finally show "rcong (uint q) (?v (radd (rmul K M (rphase K z (rsub a (sdd_poly q g 0 a)) b)) (ext_sum K \<delta> e (2 * D))))
      (?v (radd (rmul K M (rphase K z a b)) (radd (rmul K M (rmul K (sdd_poly q g 0 a) z)) (ext_sum K \<delta> e (2 * D)))))" .
  qed (simp_all add: ab)
  finally show ?thesis .
qed

lemma AddToAccDM_rotates:
  assumes prm: "rgsw_params q K psi g D params" and T: "tables_ok q K psi T"
    and acc: "acc_is q K psi (rg_polyParams params) acc a b" and z: "rbound Z z"
    and ek: "small_key q K psi (rg_polyParams params) g D E z (xrot K r) ek"
  shows "\<exists>acc' T'. AddToAccDM arb params ek acc T = Inr (acc', T') \<and> tables_ok q K psi T'
    \<and> rotated q K psi (rg_polyParams params) z r (rphase K z a b) (2 ^ K * (2 ^ (g - 1) * (2 * int D * E + Z))) acc'"
proof -
  note p = rgsw_params_dest [OF prm]
  let ?prm = "rg_polyParams params" and ?\<delta> = "acc_digit q g a b" and ?d = "(acc_digit q g a b)(0 := rzero K)"
  obtain e where e: "rgsw_key q K psi ?prm g D z (xrot K r) e ek" "\<And>i. i < 2 * D \<Longrightarrow> rbound E (e i)" using ek by (auto simp: small_key_def)
  have len: "length z = 2 ^ K" "\<And>i. i < 2 * D \<Longrightarrow> length (e i) = 2 ^ K" using e(1) by (simp_all add: rgsw_key_def)
  have ab: "length a = 2 ^ K" "length b = 2 ^ K" "length acc = 2" "poly_is q K psi ?prm EVALUATION (acc ! 0) a"
    "poly_is q K psi ?prm EVALUATION (acc ! 1) b" using acc by (auto simp: acc_is_def dest: poly_is_len)
  have D: "0 < 2 * D" and j: "(0 :: nat) < 2" "(1 :: nat) < 2" using p(2) by (simp_all add: gadget_ok_def)
  obtain col where c: "key_cols q K psi ?prm EVALUATION (2 * D) ek col"
      "ring_cong q K (rphase K z (ext_sum K ?d (col 0) (2 * D)) (ext_sum K ?d (col 1) (2 * D)))
        (radd (rmul K (xrot K r) (rphase K z a b)) (radd (rmul K (xrot K r) (rmul K (sdd_poly q g 0 a) z)) (ext_sum K ?d e (2 * D))))"
    by (rule rgsw_key_cols [OF e(1)]) (use dm_phase [OF ring_ok_dest(1) [OF p(1)] p(2) ab(1,2) e(1)] in blast)
  obtain ct dct T1 where d: "acc_digits arb params acc T = Inr (ct, dct, T1)" "tables_ok q K psi T1" "length dct = 2 * D"
      "\<And>i. i < length dct \<Longrightarrow> poly_is q K psi ?prm COEFFICIENT (dct ! i) (?\<delta> i)"
    using acc_digits_correct [OF prm acc T, of arb] by (auto simp: sdd_rows_def)
  obtain dc T2 where dc: "set_formats arb EVALUATION dct T1 = Inr (dc, T2)" "tables_ok q K psi T2" "length dc = 2 * D"
      "\<And>i. i < 2 * D \<Longrightarrow> poly_is q K psi ?prm EVALUATION (dc ! i) (?\<delta> i)"
    using set_formats_correct [OF d(4,2), of arb EVALUATION] d(3) by auto
  obtain t0 where t0: "res_bind (Poly_SetValuesToZero (acc ! 0)) (add_products_poly Poly_Times (2 * D) 0 dc ek) = Inr t0"
      "poly_is q K psi ?prm EVALUATION t0 (ext_sum K ?d (col 0) (2 * D))"
    using add_products_zero [OF c(1) j(1) dc(3) D disjI1 [OF refl] dc(4) ab(4)] by blast
  obtain t1 where t1: "res_bind (Poly_SetValuesToZero (acc ! 1)) (add_products_poly Poly_TimesEq (2 * D) 1 dc ek) = Inr t1"
      "poly_is q K psi ?prm EVALUATION t1 (ext_sum K ?d (col 1) (2 * D))"
    using add_products_zero [OF c(1) j(2) dc(3) D disjI2 [OF refl] dc(4) ab(5)] by blast
  have A: "AddToAccDM arb params ek acc T = Inr (acc[0 := t0, 1 := t1], T2)"
    unfolding AddToAccDM_def Let_def p(7) using d(1) dc(1) t0(1) t1(1) ab(3) by (simp add: elem_upd_nth)
  have "acc_is q K psi ?prm (acc[0 := t0, 1 := t1]) (ext_sum K ?d (col 0) (2 * D)) (ext_sum K ?d (col 1) (2 * D))"
    using t0(2) t1(2) ab(3) by (simp add: acc_is_def)
  moreover have "rbound (2 ^ K * (2 ^ (g - 1) * (2 * int D * E + Z))) (radd (rmul K (xrot K r) (rmul K (sdd_poly q g 0 a) z)) (ext_sum K ?d e (2 * D)))"
  proof -
    have "rbound (2 ^ K * (2 ^ (g - 1) * E)) (rmul K (?d i) (e i))" if "i < 2 * D" for i
      using ab len(2) e(2) that by (intro rbound_mul)
        (auto simp: acc_digit_def sdd_poly_bound [OF p(8), unfolded One_nat_def] intro: rbound_zero)
    then have s: "rbound (int (2 * D) * (2 ^ K * (2 ^ (g - 1) * E))) (ext_sum K ?d e (2 * D))" unfolding ext_sum_def by (intro rbound_sum) simp
    have x: "rbound (2 ^ K * (2 ^ (g - 1) * Z)) (rmul K (xrot K r) (rmul K (sdd_poly q g 0 a) z))"
      unfolding xrot_def by (intro rbound_xpow rbound_mul sdd_poly_bound p(8) z) (simp_all add: ab len)
    have "2 ^ K * (2 ^ (g - 1) * Z) + int (2 * D) * (2 ^ K * (2 ^ (g - 1) * E)) = 2 ^ K * (2 ^ (g - 1) * (2 * int D * E + Z))" by (simp add: algebra_simps)
    then show ?thesis using rbound_add [OF x s] by (simp only:)
  qed
  ultimately have "rotated q K psi ?prm z r (rphase K z a b) (2 ^ K * (2 ^ (g - 1) * (2 * int D * E + Z))) (acc[0 := t0, 1 := t1])"
    by (intro rotatedI [OF _ _ _ c(2)]) simp_all
  then show ?thesis using A dc(2) by blast
qed

text \<open>The keys of the digits \<open>j\<close> at the places \<open>k\<close> of the entries \<open>i\<close>, for a secret \<open>key\<close> and exponents in units of \<open>u\<close>.\<close>

definition dm_key :: "NativeInt \<Rightarrow> nat \<Rightarrow> NativeInt \<Rightarrow> ILParams \<Rightarrow> nat \<Rightarrow> nat \<Rightarrow> int \<Rightarrow> int list \<Rightarrow> nat \<Rightarrow> nat \<Rightarrow> int \<Rightarrow> int list
    \<Rightarrow> (nat \<times> nat \<times> nat \<Rightarrow> RingGSWEvalKey option) \<Rightarrow> bool" where
  "dm_key q K psi prm g D E z R cnt u key ek \<longleftrightarrow> (\<forall>i<length key. \<forall>j. 0 < j \<and> j < R \<longrightarrow> (\<forall>k<cnt. \<exists>ek'. ek (i, j, k) = Some ek'
     \<and> small_key q K psi prm g D E z (xrot K (key ! i * int j * int R ^ k * u)) ek'))"

lemma dm_digit_loop:
  assumes prm: "rgsw_params q K psi g D params" and T: "tables_ok q K psi T" and z: "rbound Z z" "length ph0 = 2 ^ K" and pos: "0 \<le> E" "0 \<le> Z"
    and R: "unat (rg_baseR params) = R" "0 < R" and i: "i < length key"
    and ek: "dm_key q K psi (rg_polyParams params) g D E z R cnt u key ek"
    and acc: "rotated q K psi (rg_polyParams params) z e ph0 B acc"
  defines "\<beta> \<equiv> 2 ^ K * (2 ^ (g - 1) * (2 * int D * E + Z))"
  shows "\<exists>aI acc' T'. res_range 0 cnt (EvalAcc_DM_digit arb params ek i) (a, acc, T) = Inr (aI, acc', T') \<and> tables_ok q K psi T'
    \<and> rotated q K psi (rg_polyParams params) z (key ! i * int (unat a mod R ^ cnt) * u + e) ph0 (B + int cnt * \<beta>) acc'"
proof -
  note p = rgsw_params_dest [OF prm]
  let ?prm = "rg_polyParams params" and ?R = "ucast (rg_baseR params) :: NativeInt"
  let ?P = "\<lambda>k (aI :: NativeInt, acc, T). unat aI = unat a div R ^ k \<and> tables_ok q K psi T
    \<and> rotated q K psi ?prm z (key ! i * int (unat a mod R ^ k) * u + e) ph0 (B + int k * \<beta>) acc"
  have "unat (rg_baseR params) < 2 ^ 64" using unat_lt_32 [of "rg_baseR params"] by simp
  then have "unat ?R = R" using R(1) by (simp add: unsigned_ucast_eq take_bit_nat_eq_self)
  then have R': "unat ?R = R" "?R \<noteq> 0" using R(2) by auto
  have b0: "0 \<le> \<beta>" using pos by (simp add: \<beta>_def)
  have "\<exists>st. res_range 0 cnt (EvalAcc_DM_digit arb params ek i) (a, acc, T) = Inr st \<and> ?P cnt st"
  proof (rule res_range_invariant [where P = ?P])
    fix k st assume k: "k < cnt" and P: "?P k st"
    obtain aI acc T where st: "st = (aI, acc, T)" by (cases st)
    have aI: "unat aI = unat a div R ^ k" and T: "tables_ok q K psi T"
      and rot: "rotated q K psi ?prm z (key ! i * int (unat a mod R ^ k) * u + e) ph0 (B + int k * \<beta>) acc" using P by (simp_all add: st)
    let ?a0 = "Mod aI ?R"
    have a0: "unat ?a0 = unat a div R ^ k mod R" by (simp add: Mod_def unat_mod R'(1) aI)
    have "unat a mod R ^ Suc k = R ^ k * unat ?a0 + unat a mod R ^ k"
      using mod_mult2_eq [of "unat a" "R ^ k" R] by (simp add: a0 mult.commute)
    then have next_: "key ! i * int (unat ?a0) * int R ^ k * u + (key ! i * int (unat a mod R ^ k) * u + e) = key ! i * int (unat a mod R ^ Suc k) * u + e"
      by (simp add: algebra_simps)
    have bnd: "B + int k * \<beta> + \<beta> = B + int (Suc k) * \<beta>" by (simp add: algebra_simps)
    have "\<exists>acc' T'. (if ?a0 \<noteq> 0 then (case ek (i, unat ?a0, k) of None \<Rightarrow> Inl null_pointer | Some key \<Rightarrow> AddToAccDM arb params key acc T) else Inr (acc, T))
        = Inr (acc', T') \<and> tables_ok q K psi T' \<and> rotated q K psi ?prm z (key ! i * int (unat a mod R ^ Suc k) * u + e) ph0 (B + int (Suc k) * \<beta>) acc'"
    proof (cases "?a0 = 0")
      case True
      then have "key ! i * int (unat a mod R ^ k) * u + e = key ! i * int (unat a mod R ^ Suc k) * u + e" using next_ by simp
      moreover have "B + int k * \<beta> \<le> B + int (Suc k) * \<beta>" using b0 by (simp add: algebra_simps)
      ultimately have "rotated q K psi ?prm z (key ! i * int (unat a mod R ^ Suc k) * u + e) ph0 (B + int (Suc k) * \<beta>) acc"
        using rotated_cong [OF rot rcong_refl] by (simp only:)
      then show ?thesis using True T by simp
    next
      case False
      have "0 < unat ?a0" "unat ?a0 < R" using False R(2) a0 by (simp_all add: word_ge_0_nat)
      then obtain ek' where ek': "ek (i, unat ?a0, k) = Some ek'" "small_key q K psi ?prm g D E z (xrot K (key ! i * int (unat ?a0) * int R ^ k * u)) ek'"
        using ek i k unfolding dm_key_def by blast
      note add = AddToAccDM_rotates [where arb = arb, OF prm T _ z(1) ek'(2), folded \<beta>_def]
      obtain a1 b1 where ab: "acc_is q K psi ?prm acc a1 b1" using rot by (auto simp: rotated_def)
      obtain acc2 T2 where s: "AddToAccDM arb params ek' acc T = Inr (acc2, T2)" "tables_ok q K psi T2" using add [OF ab] by blast
      have "rotated q K psi ?prm z (key ! i * int (unat ?a0) * int R ^ k * u + (key ! i * int (unat a mod R ^ k) * u + e)) ph0 (B + int k * \<beta> + \<beta>) acc2"
        by (rule rotated_trans [OF ring_ok_dest(1) [OF p(1)] z(2) rot]) (use add s(1) in fastforce)
      then show ?thesis using False ek'(1) s unfolding next_ bnd by simp
    qed
    moreover have "DividedByEq aI ?R = Inr (aI div ?R)" "unat (aI div ?R) = unat a div R ^ Suc k"
      using R' by (simp_all add: DividedByEq_def unat_div aI div_mult2_eq mult.commute [of R])
    ultimately show "\<exists>st'. EvalAcc_DM_digit arb params ek i k st = Inr st' \<and> ?P (Suc k) st'"
      using R'(2) by (auto simp: EvalAcc_DM_digit_def st Let_def)
  qed (use T acc in auto)
  then show ?thesis by auto
qed

lemma EvalAcc_DM_correct:
  assumes prm: "rgsw_params q K psi g D params" and T: "tables_ok q K psi T" and z: "rbound Z z" "length z = 2 ^ K" and pos: "0 \<le> E" "0 \<le> Z"
    and R: "unat (rg_baseR params) = R" "0 < R" and cnt: "length (rg_digitsR params) = cnt" "unat (rg_q params) \<le> R ^ cnt"
    and acc: "acc_is q K psi (rg_polyParams params) acc a b" and q: "uint (rg_q params) dvd 2 ^ Suc K" "rg_q params \<noteq> 0"
    and v: "length (m_data v) = length key"
    and ek: "dm_key q K psi (rg_polyParams params) g D E z R cnt (2 ^ Suc K div uint (rg_q params)) key ek"
  shows "\<exists>acc' T'. EvalAcc_DM arb params ek acc v T = Inr (acc', T') \<and> tables_ok q K psi T'
    \<and> rotated q K psi (rg_polyParams params) z (- (2 ^ Suc K div uint (rg_q params)) * dot (nv_abs v) key) (rphase K z a b)
        (int (length key * cnt) * (2 ^ K * (2 ^ (g - 1) * (2 * int D * E + Z)))) acc'"
proof -
  note p = rgsw_params_dest [OF prm]
  let ?n = "length key" and ?prm = "rg_polyParams params" and ?r = "uint (rg_q params)" and ?k = "2 ^ Suc K div uint (rg_q params)"
  let ?\<beta> = "2 ^ K * (2 ^ (g - 1) * (2 * int D * E + Z))" and ?ph = "rphase K z a b"
  have ph: "length ?ph = 2 ^ K" using acc by (auto simp: acc_is_def dest: poly_is_len)
  have "?r \<le> 2 ^ Suc K" using q(1) by (intro zdvd_imp_le) simp_all
  also have "(2 :: int) ^ Suc K \<le> 2 ^ 25" using p(9) by (intro power_increasing) auto
  finally have r63: "rg_q params \<le> 2 ^ 63" by (simp add: word_le_def)
  let ?e = "\<lambda>i. - ?k * (\<Sum>j<i. nv_abs v ! j * key ! j)"
  let ?P = "\<lambda>i (acc, T). tables_ok q K psi T \<and> rotated q K psi ?prm z (?e i) ?ph (int (i * cnt) * ?\<beta>) acc"
  let ?body = "\<lambda>i (acc, T). res_bind (vec_get v i) (\<lambda>x. res_bind (res_range 0 cnt (EvalAcc_DM_digit arb params ek i) (ModSub (rg_q params) x (rg_q params), acc, T))
      (\<lambda>(aI, acc, T). Inr (acc, T)))"
  have "\<exists>st. res_range 0 ?n ?body (acc, T) = Inr st \<and> ?P ?n st"
  proof (rule res_range_invariant [where P = ?P])
    fix i st assume i: "i < ?n" and P: "?P i st"
    obtain acc1 T1 where st: "st = (acc1, T1)" by (cases st)
    let ?x = "m_data v ! i" and ?a = "ModSub (rg_q params) (m_data v ! i) (rg_q params)"
    have T1: "tables_ok q K psi T1" and rot: "rotated q K psi ?prm z (?e i) ?ph (int (i * cnt) * ?\<beta>) acc1" using P by (simp_all add: st)
    have a: "uint ?a = - uint ?x mod ?r" using ModSub_value [OF q(2) r63] by (simp add: mod_simps)
    then have "uint ?a < ?r" using uint_pos [OF q(2)] by simp
    then have "unat ?a < unat (rg_q params)" by (simp only: uint_nat of_nat_less_iff)
    then have am: "unat ?a mod R ^ cnt = unat ?a" using cnt(2) by simp
    obtain aI acc2 T2 where s: "res_range 0 cnt (EvalAcc_DM_digit arb params ek i) (?a, acc1, T1) = Inr (aI, acc2, T2)" "tables_ok q K psi T2"
        "rotated q K psi ?prm z (key ! i * int (unat ?a) * ?k + ?e i) ?ph (int (i * cnt) * ?\<beta> + int cnt * ?\<beta>) acc2"
      using dm_digit_loop [OF prm T1 z(1) ph pos R i ek rot, of arb ?a] unfolding am by blast
    have "rcong (?r * ?k) (?k * uint ?a) (?k * (- uint ?x))" unfolding a by (intro rcong_scale) (simp add: rcong_def)
    then have "rcong (2 ^ Suc K) (?k * uint ?a) (?k * (- uint ?x))" using q(1) by simp
    from rcong_add [OF rcong_mult [OF rcong_refl this] rcong_refl]
    have "rcong (2 ^ Suc K) (key ! i * (?k * uint ?a) + ?e i) (key ! i * (?k * (- uint ?x)) + ?e i)" .
    moreover have "key ! i * (?k * uint ?a) + ?e i = key ! i * int (unat ?a) * ?k + ?e i" by (simp only: uint_nat ac_simps)
    moreover have "key ! i * (?k * (- uint ?x)) + ?e i = ?e (Suc i)" using i v by (simp add: nv_abs_def algebra_simps)
    ultimately have c: "rcong (2 ^ Suc K) (key ! i * int (unat ?a) * ?k + ?e i) (?e (Suc i))" by (simp only:)
    have "int (i * cnt) * ?\<beta> + int cnt * ?\<beta> = int (Suc i * cnt) * ?\<beta>" by (simp add: algebra_simps)
    from rotated_cong [OF s(3) c eq_refl [OF this]] show "\<exists>st'. ?body i st = Inr st' \<and> ?P (Suc i) st'"
      using s(1,2) i v by (simp add: st vec_get_nth)
  qed (use T rotated_start [OF acc ring_ok_dest(1) [OF p(1)] z(2)] in auto)
  then obtain acc' T' where "res_range 0 ?n ?body (acc, T) = Inr (acc', T')" "?P ?n (acc', T')" by auto
  then show ?thesis by (simp add: EvalAcc_DM_def Let_def NV_GetLength_def v cnt(1) dot_def)
qed

end
