(* ===== verification/AccKeys.thy ===== *)
theory AccKeys
  imports BlindRotation
begin

text \<open>
  The keys of the accumulators: \<open>KeyGenCGGI\<close> and \<open>KeyGenDM\<close> encrypt their message, \<open>KeyGenAcc\<close> builds the keys of an LWE secret, and
  the precomputation of \<open>rgsw-cryptoparameters.cpp\<close> fills the tables that the accumulation relies on. The last section composes key
  generation and accumulation.
\<close>

section \<open>Key generation encrypts\<close>

lemma key_rows_correct:
  assumes "ring_ok q K psi prm" "tables_ok q K psi T"
    and smp: "\<And>i. i < n \<Longrightarrow> sampled q K (unif i) (\<alpha> i) \<and> sampled q K (noise i) (\<epsilon> i)"
  shows "\<exists>ek tempA. key_rows arb prm unif noise n T = Inr (ek, tempA, T) \<and> key_cols q K psi prm COEFFICIENT n ek (\<lambda>j. if j = 0 then \<alpha> else \<epsilon>)
    \<and> length tempA = n \<and> (\<forall>i<n. poly_is q K psi prm COEFFICIENT (tempA ! i) (\<alpha> i))"
proof -
  let ?P = "\<lambda>n (ek, tempA, T'). T' = T \<and> key_cols q K psi prm COEFFICIENT n ek (\<lambda>j. if j = 0 then \<alpha> else \<epsilon>)
    \<and> length tempA = n \<and> (\<forall>i<n. poly_is q K psi prm COEFFICIENT (tempA ! i) (\<alpha> i))"
  have "\<exists>st. key_rows arb prm unif noise n T = Inr st \<and> ?P n st"
    unfolding key_rows_def
  proof (rule res_range_invariant [where P = ?P])
    fix i st assume i: "i < n" and P: "?P i st"
    obtain ek tempA where st: "st = (ek, tempA, T)" using P by (cases st) auto
    obtain a where a: "Poly_of_generator arb (unif i) prm COEFFICIENT T = Inr (a, T)" "poly_is q K psi prm COEFFICIENT a (\<alpha> i)"
      using poly_is_generator [OF assms(1) _ assms(2)] smp [OF i] by blast
    obtain e where e: "Poly_of_generator arb (noise i) prm COEFFICIENT T = Inr (e, T)" "poly_is q K psi prm COEFFICIENT e (\<epsilon> i)"
      using poly_is_generator [OF assms(1) _ assms(2)] smp [OF i] by blast
    have "?P (Suc i) (ek @ [[a, e]], tempA @ [a], T)"
      using P a(2) e(2) by (auto simp: st key_cols_def nth_append less_Suc_eq less_2_cases_iff)
    then show "\<exists>st'. (case st of (ek, tempA, T) \<Rightarrow> res_bind (Poly_of_generator arb (unif i) prm COEFFICIENT T) (\<lambda>(a, T).
        res_bind (Poly_of_generator arb (noise i) prm COEFFICIENT T) (\<lambda>(e, T). Inr (ek @ [[a, e]], tempA @ [a], T)))) = Inr st' \<and> ?P (Suc i) st'"
      using a(1) e(1) by (auto simp: st)
  qed (auto simp: key_cols_def)
  then show ?thesis by auto
qed

lemma key_upd_cols:
  assumes "key_cols q K psi prm f n ek col" "i < n" "j < 2" "F (ek ! i ! j) = Inr p" "poly_is q K psi prm f p c"
  shows "\<exists>ek'. key_upd ek i j F = Inr ek' \<and> key_cols q K psi prm f n ek' (col(j := (col j)(i := c)))"
proof -
  have "key_upd ek i j F = Inr (ek[i := (ek ! i)[j := p]])"
    using assms by (simp add: key_upd_def key_cols_def elem_upd_nth)
  moreover have "key_cols q K psi prm f n (ek[i := (ek ! i)[j := p]]) (col(j := (col j)(i := c)))"
    using assms by (auto simp: key_cols_def nth_list_update)
  ultimately show ?thesis by blast
qed

text \<open>The gadget \<open>h i\<close> of row \<open>i\<close>, in the mask of the even rows and in the body of the odd ones.\<close>

definition gadget_col :: "nat \<Rightarrow> int list \<Rightarrow> nat \<Rightarrow> (nat \<Rightarrow> nat \<Rightarrow> int list) \<Rightarrow> nat \<Rightarrow> nat \<Rightarrow> int list" where
  "gadget_col g M n col j i = (if i mod 2 = j \<and> i < 2 * n then radd (col j i) (rscale (2 ^ (g * (i div 2))) M) else col j i)"

lemma gadget_entry:
  assumes "length c = 2 ^ K" "t < 2 ^ K"
  shows "radd c (rscale m ((rzero K)[t := \<sigma>])) = c[t := c ! t + m * \<sigma>]"
  using assms by (intro nth_equalityI) (auto simp: rscale_def nth_list_update)

lemma gadget_loop:
  assumes cols: "key_cols q K psi prm COEFFICIENT (2 * D) ek col" and t: "t < 2 ^ K" and M: "M = (rzero K)[t := \<sigma>]"
    and G: "length Gpow = D" and F: "\<And>l x. l < D \<Longrightarrow> uint (F (Gpow ! l) x) = (uint x + 2 ^ (g * l) * \<sigma>) mod uint q"
  shows "\<exists>ek'. res_range 0 D (\<lambda>l ek. res_bind (elem_at Gpow l) (\<lambda>G.
        res_bind (key_upd ek (2 * l) 0 (\<lambda>p. poly_upd p t (F G))) (\<lambda>ek. key_upd ek (2 * l + 1) 1 (\<lambda>p. poly_upd p t (F G))))) ek = Inr ek'
      \<and> key_cols q K psi prm COEFFICIENT (2 * D) ek' (gadget_col g M D col)"
proof (rule res_range_invariant [where P = "\<lambda>l ek. key_cols q K psi prm COEFFICIENT (2 * D) ek (gadget_col g M l col)"])
  show "key_cols q K psi prm COEFFICIENT (2 * D) ek (gadget_col g M 0 col)" using cols by (simp add: key_cols_def gadget_col_def)
next
  fix l ek assume l: "l < D" and P: "key_cols q K psi prm COEFFICIENT (2 * D) ek (gadget_col g M l col)"
  let ?c = "gadget_col g M l col"
  have upd: "\<exists>p'. poly_upd p t (F (Gpow ! l)) = Inr p' \<and> poly_is q K psi prm COEFFICIENT p' (radd c (rscale (2 ^ (g * l)) M))"
    if p: "poly_is q K psi prm COEFFICIENT p c" for p c
  proof -
    have "uint (F (Gpow ! l) x) = (c ! t + 2 ^ (g * l) * \<sigma>) mod uint q" if "uint x = c ! t mod uint q" for x
      using F [OF l, of x] that by (simp add: mod_simps)
    from poly_is_upd [OF p t, of "F (Gpow ! l)", OF this] show ?thesis using gadget_entry [OF poly_is_len [OF p] t] by (simp add: M)
  qed
  have i: "2 * l < 2 * D" "2 * l + 1 < 2 * D" and lt2: "(1 :: nat) < 2" using l by simp_all
  have "poly_is q K psi prm COEFFICIENT (ek ! (2 * l) ! 0) (?c 0 (2 * l))" using P i by (auto simp: key_cols_def)
  then obtain p0 where p0: "poly_upd (ek ! (2 * l) ! 0) t (F (Gpow ! l)) = Inr p0" "poly_is q K psi prm COEFFICIENT p0 (radd (?c 0 (2 * l)) (rscale (2 ^ (g * l)) M))"
    using upd by blast
  then obtain ek1 where ek1: "key_upd ek (2 * l) 0 (\<lambda>p. poly_upd p t (F (Gpow ! l))) = Inr ek1"
     "key_cols q K psi prm COEFFICIENT (2 * D) ek1 (?c(0 := (?c 0)(2 * l := radd (?c 0 (2 * l)) (rscale (2 ^ (g * l)) M))))"
    using key_upd_cols [OF P i(1) zero_less_numeral, where F = "\<lambda>p. poly_upd p t (F (Gpow ! l))", OF p0] by blast
  let ?c1 = "?c(0 := (?c 0)(2 * l := radd (?c 0 (2 * l)) (rscale (2 ^ (g * l)) M)))"
  have "poly_is q K psi prm COEFFICIENT (ek1 ! (2 * l + 1) ! 1) (?c1 1 (2 * l + 1))" using ek1(2) i by (simp only: key_cols_def)
  then obtain p1 where p1: "poly_upd (ek1 ! (2 * l + 1) ! 1) t (F (Gpow ! l)) = Inr p1"
      "poly_is q K psi prm COEFFICIENT p1 (radd (?c1 1 (2 * l + 1)) (rscale (2 ^ (g * l)) M))"
    using upd by blast
  then obtain ek2 where ek2: "key_upd ek1 (2 * l + 1) 1 (\<lambda>p. poly_upd p t (F (Gpow ! l))) = Inr ek2"
     "key_cols q K psi prm COEFFICIENT (2 * D) ek2 (?c1(1 := (?c1 1)(2 * l + 1 := radd (?c1 1 (2 * l + 1)) (rscale (2 ^ (g * l)) M))))"
    using key_upd_cols [OF ek1(2) i(2) lt2, where F = "\<lambda>p. poly_upd p t (F (Gpow ! l))", OF p1] by blast
  have "(?c1(1 := (?c1 1)(2 * l + 1 := radd (?c1 1 (2 * l + 1)) (rscale (2 ^ (g * l)) M)))) j i = gadget_col g M (Suc l) col j i" if "j < 2" for j i
  proof -
    have "i = 2 * l \<or> i = 2 * l + 1 \<or> (i < 2 * l \<longleftrightarrow> i < 2 * Suc l)" by arith
    then show ?thesis using that by (auto simp: gadget_col_def less_2_cases_iff)
  qed
  then have "key_cols q K psi prm COEFFICIENT (2 * D) ek2 (gadget_col g M (Suc l) col)" using ek2(2) by (simp only: key_cols_def) simp
  then show "\<exists>ek'. res_bind (elem_at Gpow l) (\<lambda>G. res_bind (key_upd ek (2 * l) 0 (\<lambda>p. poly_upd p t (F G)))
        (\<lambda>ek. key_upd ek (2 * l + 1) 1 (\<lambda>p. poly_upd p t (F G)))) = Inr ek'
      \<and> key_cols q K psi prm COEFFICIENT (2 * D) ek' (gadget_col g M (Suc l) col)"
    using ek1(1) ek2(1) l G by (simp add: elem_at_nth)
qed simp

lemma key_SetFormat_correct:
  assumes "key_cols q K psi prm f n ek col" "tables_ok q K psi T"
  shows "\<exists>ek' T'. key_SetFormat arb f' ek T = Inr (ek', T') \<and> tables_ok q K psi T' \<and> key_cols q K psi prm f' n ek' col"
  using assms
proof (induction ek arbitrary: n col T)
  case (Cons row ek)
  have row: "length row = 2" "\<And>j. j < length row \<Longrightarrow> poly_is q K psi prm f (row ! j) (col j 0)"
    using Cons.prems(1) by (auto simp: key_cols_def)
  obtain row' T1 where r: "set_formats arb f' row T = Inr (row', T1)" "tables_ok q K psi T1" "length row' = 2"
      "\<And>j. j < 2 \<Longrightarrow> poly_is q K psi prm f' (row' ! j) (col j 0)"
    using set_formats_correct [OF row(2) Cons.prems(2), of arb f'] row(1) by auto
  have "key_cols q K psi prm f (length ek) ek (\<lambda>j i. col j (Suc i))" using Cons.prems(1) by (auto simp: key_cols_def)
  from Cons.IH [OF this r(2)] obtain ek' T2 where e: "key_SetFormat arb f' ek T1 = Inr (ek', T2)" "tables_ok q K psi T2"
      "key_cols q K psi prm f' (length ek) ek' (\<lambda>j i. col j (Suc i))" by blast
  have "key_cols q K psi prm f' n (row' # ek') col"
    using e(3) r(3,4) Cons.prems(1) by (auto simp: key_cols_def nth_Cons split: nat.splits)
  then show ?case using r(1) e(1,2) by auto
qed (auto simp: key_cols_def)

definition masked_col :: "nat \<Rightarrow> (nat \<Rightarrow> int list) \<Rightarrow> int list \<Rightarrow> nat \<Rightarrow> (nat \<Rightarrow> nat \<Rightarrow> int list) \<Rightarrow> nat \<Rightarrow> nat \<Rightarrow> int list" where
  "masked_col K \<alpha> z n col j i = (if j = 1 \<and> i < n then radd (col 1 i) (rmul K (\<alpha> i) z) else col j i)"

lemma add_masks_correct:
  assumes "key_cols q K psi prm EVALUATION n ek col" "tables_ok q K psi T" "poly_is q K psi prm EVALUATION sk z" "length tempA = n"
    and tmp: "\<And>i. i < n \<Longrightarrow> poly_is q K psi prm COEFFICIENT (tempA ! i) (\<alpha> i)"
  shows "\<exists>ek' T'. add_masks arb sk n tempA ek T = Inr (ek', T') \<and> tables_ok q K psi T' \<and> key_cols q K psi prm EVALUATION n ek' (masked_col K \<alpha> z n col)"
proof -
  let ?P = "\<lambda>m (ek, T). tables_ok q K psi T \<and> key_cols q K psi prm EVALUATION n ek (masked_col K \<alpha> z m col)"
  have "\<exists>st. add_masks arb sk n tempA ek T = Inr st \<and> ?P n st"
    unfolding add_masks_def
  proof (rule res_range_invariant [where P = ?P])
    fix i st assume i: "i < n" and P: "?P i st"
    obtain ek T where st: "st = (ek, T)" by (cases st)
    have T: "tables_ok q K psi T" and c: "key_cols q K psi prm EVALUATION n ek (masked_col K \<alpha> z i col)" using P by (simp_all add: st)
    obtain t T1 where t: "Poly_SetFormat arb (tempA ! i) EVALUATION T = Inr (t, T1)" "tables_ok q K psi T1" "poly_is q K psi prm EVALUATION t (\<alpha> i)"
      using poly_is_SetFormat [OF tmp [OF i] T] by blast
    obtain ts where ts: "Poly_Times t sk = Inr ts" "poly_is q K psi prm EVALUATION ts (rmul K (\<alpha> i) z)"
      using poly_is_Times [OF t(3) assms(3)] by blast
    have "poly_is q K psi prm EVALUATION (ek ! i ! 1) (col 1 i)" using c i by (auto simp: key_cols_def masked_col_def)
    from poly_is_PlusEq [OF this ts(2)] obtain s where s: "Poly_PlusEq (ek ! i ! 1) ts = Inr s"
      "poly_is q K psi prm EVALUATION s (radd (col 1 i) (rmul K (\<alpha> i) z))" by blast
    obtain ek' where ek': "key_upd ek i 1 (\<lambda>b. Poly_PlusEq b ts) = Inr ek'"
      "key_cols q K psi prm EVALUATION n ek' ((masked_col K \<alpha> z i col)(1 := (masked_col K \<alpha> z i col 1)(i := radd (col 1 i) (rmul K (\<alpha> i) z))))"
      using key_upd_cols [OF c i, of 1 "\<lambda>b. Poly_PlusEq b ts", OF _ s] by auto
    moreover have "(masked_col K \<alpha> z i col)(1 := (masked_col K \<alpha> z i col 1)(i := radd (col 1 i) (rmul K (\<alpha> i) z))) = masked_col K \<alpha> z (Suc i) col"
      by (auto simp: masked_col_def fun_eq_iff)
    ultimately show "\<exists>st'. (case st of (ek, T) \<Rightarrow> res_bind (elem_at tempA i) (\<lambda>t. res_bind (Poly_SetFormat arb t EVALUATION T) (\<lambda>(t, T).
        res_bind (Poly_Times t sk) (\<lambda>ts. res_bind (key_upd ek i 1 (\<lambda>b. Poly_PlusEq b ts)) (\<lambda>ek. Inr (ek, T)))))) = Inr st' \<and> ?P (Suc i) st'"
      using i assms(4) t(1,2) ts(1) by (simp add: st elem_at_nth)
  qed (use assms in \<open>auto simp: key_cols_def masked_col_def\<close>)
  then show ?thesis by auto
qed

lemma row_phase_masked:
  fixes g :: nat
  assumes "ntt_params q K psi" "length z = 2 ^ K" "length M = 2 ^ K" "length (\<alpha> i) = 2 ^ K" "length (\<epsilon> i) = 2 ^ K" "i < n" "n = 2 * D"
  defines "col \<equiv> masked_col K \<alpha> z n (gadget_col g M D (\<lambda>j. if j = 0 then \<alpha> else \<epsilon>))"
  shows "ring_cong q K (rphase K z (col 0 i) (col 1 i)) (row_phase K g z M (\<epsilon> i) i)"
proof -
  let ?h = "rscale (2 ^ (g * (i div 2))) M"
  have c: "col 0 i = (if even i then radd (\<alpha> i) ?h else \<alpha> i)" "col 1 i = radd (if even i then \<epsilon> i else radd (\<epsilon> i) ?h) (rmul K (\<alpha> i) z)"
    using assms(6,7) by (auto simp: col_def masked_col_def gadget_col_def mod_2_eq_odd)
  show ?thesis
  proof (rule ring_congI [OF assms(1)])
    fix x assume x: "rcong (uint q) (x ^ 2 ^ K) (- 1)"
    let ?v = "\<lambda>c. poly_eval c x"
    have "rcong (uint q) (?v (rphase K z (col 0 i) (col 1 i)))
        (((if even i then ?v (\<epsilon> i) else ?v (\<epsilon> i) + ?v ?h) + ?v (\<alpha> i) * ?v z) - (if even i then ?v (\<alpha> i) + ?v ?h else ?v (\<alpha> i)) * ?v z)"
      unfolding c by (intro eval_intros) (simp_all add: assms(2-5) x eval_radd)
    also have "\<dots> = (if even i then ?v (\<epsilon> i) - ?v ?h * ?v z else ?v (\<epsilon> i) + ?v ?h)" by (simp add: algebra_simps)
    also have "rcong (uint q) \<dots> (?v (row_phase K g z M (\<epsilon> i) i))"
    proof (cases "even i")
      case True
      then show ?thesis by (simp add: row_phase_def Let_def) (intro rcong_sym [OF eval_rsub_cong] eval_rmul_cong, simp_all add: assms(2-5) x)
    qed (simp add: row_phase_def Let_def eval_radd assms(3,5))
    finally show "rcong (uint q) (?v (rphase K z (col 0 i) (col 1 i))) (?v (row_phase K g z M (\<epsilon> i) i))" .
  qed (auto simp: c [unfolded One_nat_def] row_phase_def Let_def assms(2-5))
qed

lemma rgsw_keyI:
  assumes "key_cols q K psi prm EVALUATION (2 * D) ek col" "length z = 2 ^ K" "length M = 2 ^ K" "\<And>i. i < 2 * D \<Longrightarrow> length (e i) = 2 ^ K"
    and "\<And>i. i < 2 * D \<Longrightarrow> ring_cong q K (rphase K z (col 0 i) (col 1 i)) (row_phase K g z M (e i) i)"
  shows "rgsw_key q K psi prm g D z M e ek"
  unfolding rgsw_key_def
proof (intro conjI allI impI)
  fix i assume i: "i < 2 * D"
  have "poly_is q K psi prm EVALUATION (ek ! i ! 0) (col 0 i)" "poly_is q K psi prm EVALUATION (ek ! i ! 1) (col 1 i)"
    using assms(1) i by (simp_all add: key_cols_def)
  then show "\<exists>a b. poly_is q K psi prm EVALUATION (ek ! i ! 0) a \<and> poly_is q K psi prm EVALUATION (ek ! i ! 1) b
      \<and> ring_cong q K (rphase K z a b) (row_phase K g z M (e i) i)" using assms(5) [OF i] by blast
qed (use assms in \<open>simp_all add: key_cols_def\<close>)

text \<open>The tail both key generators share: switch the format and add the masks.\<close>

lemma keygen_tail:
  assumes "ring_ok q K psi prm" "tables_ok q K psi T" "poly_is q K psi prm EVALUATION sk z" "length M = 2 ^ K" "length tempA = 2 * D"
    and tmp: "\<And>i. i < 2 * D \<Longrightarrow> poly_is q K psi prm COEFFICIENT (tempA ! i) (\<alpha> i)" and eps: "\<And>i. i < 2 * D \<Longrightarrow> length (\<epsilon> i) = 2 ^ K"
    and ek: "key_cols q K psi prm COEFFICIENT (2 * D) ek (gadget_col g M D (\<lambda>j. if j = 0 then \<alpha> else \<epsilon>))"
  shows "\<exists>ek' T'. res_bind (key_SetFormat arb EVALUATION ek T) (\<lambda>(ek, T). add_masks arb sk (2 * D) tempA ek T) = Inr (ek', T')
    \<and> tables_ok q K psi T' \<and> rgsw_key q K psi prm g D z M \<epsilon> ek'"
proof -
  let ?col = "masked_col K \<alpha> z (2 * D) (gadget_col g M D (\<lambda>j. if j = 0 then \<alpha> else \<epsilon>))"
  obtain ek1 T1 where 1: "key_SetFormat arb EVALUATION ek T = Inr (ek1, T1)" "tables_ok q K psi T1"
      "key_cols q K psi prm EVALUATION (2 * D) ek1 (gadget_col g M D (\<lambda>j. if j = 0 then \<alpha> else \<epsilon>))"
    using key_SetFormat_correct [OF ek assms(2)] by blast
  obtain ek2 T2 where 2: "add_masks arb sk (2 * D) tempA ek1 T1 = Inr (ek2, T2)" "tables_ok q K psi T2" "key_cols q K psi prm EVALUATION (2 * D) ek2 ?col"
    using add_masks_correct [OF 1(3,2) assms(3,5) tmp] by blast
  have z: "length z = 2 ^ K" using poly_is_len [OF assms(3)] .
  have "ring_cong q K (rphase K z (?col 0 i) (?col 1 i)) (row_phase K g z M (\<epsilon> i) i)" if "i < 2 * D" for i
    using row_phase_masked [where \<alpha> = \<alpha> and \<epsilon> = \<epsilon>, OF ring_ok_dest(1) [OF assms(1)] z assms(4) poly_is_len [OF tmp [OF that]] eps [OF that] that refl] .
  then have "rgsw_key q K psi prm g D z M \<epsilon> ek2"
    by (intro rgsw_keyI [OF 2(3) z assms(4)] eps)
  then show ?thesis using 1(1) 2(1,2) by auto
qed

lemma Gpower_nth:
  assumes "rgsw_params q K psi g D params" "l < D"
  shows "length (rg_Gpower params) = D" "uint (rg_Gpower params ! l) = 2 ^ (g * l) mod uint q"
proof -
  have G: "rg_Gpower params = map (\<lambda>l. word_of_int (2 ^ (g * l) mod uint q)) [0..<D]" using assms(1) by (simp add: rgsw_params_def)
  then show "length (rg_Gpower params) = D" by simp
  have "0 < uint q" using ring_ok_dest(4) [OF rgsw_params_dest(1) [OF assms(1)]] .
  then have "0 \<le> 2 ^ (g * l) mod uint q" "2 ^ (g * l) mod uint q < 2 ^ 64"
    using order.strict_trans [OF pos_mod_bound uint_bounded, of q "2 ^ (g * l)"] by simp_all
  then show "uint (rg_Gpower params ! l) = 2 ^ (g * l) mod uint q" using G assms(2) by (simp add: uint_word_of_int)
qed

lemma sampled_len: "sampled q K v c \<Longrightarrow> length c = 2 ^ K"
  by (simp add: sampled_def)

lemma gadget_col_zero:
  assumes "\<And>j i. i < 2 * D \<Longrightarrow> length (col j i) = 2 ^ K" "i < 2 * D"
  shows "gadget_col g (rzero K) D col j i = col j i"
proof -
  have "rscale m (rzero K) = rzero K" for m by (simp add: rscale_def rzero_def)
  moreover have "radd (col j i) (rzero K) = col j i" using assms by (intro nth_equalityI) simp_all
  ultimately show ?thesis by (simp add: gadget_col_def)
qed

lemma KeyGenCGGI_correct:
  assumes prm: "rgsw_params q K psi g D params" and T: "tables_ok q K psi T"
    and sk: "poly_is q K psi (rg_polyParams params) EVALUATION skNTT z"
    and smp: "\<And>i. i < 2 * D \<Longrightarrow> sampled q K (unif i) (\<alpha> i) \<and> sampled q K (noise i) (\<epsilon> i)"
  shows "\<exists>ek T'. KeyGenCGGI arb params skNTT m unif noise T = Inr (ek, T') \<and> tables_ok q K psi T'
    \<and> rgsw_key q K psi (rg_polyParams params) g D z (sk_msg K (m > 0)) \<epsilon> ek"
proof -
  note p = rgsw_params_dest [OF prm]
  let ?prm = "rg_polyParams params" and ?col = "\<lambda>j :: nat. if j = 0 then \<alpha> else \<epsilon>"
  note r = ring_ok_dest [OF p(1)]
  have D: "0 < D" using p(2) by (simp add: gadget_ok_def)
  have len: "length (?col j i) = 2 ^ K" if "i < 2 * D" for j i using smp [OF that] by (auto dest: sampled_len)
  obtain ek tempA where k: "key_rows arb ?prm unif noise (2 * D) T = Inr (ek, tempA, T)" "key_cols q K psi ?prm COEFFICIENT (2 * D) ek ?col"
      "length tempA = 2 * D" "\<And>i. i < 2 * D \<Longrightarrow> poly_is q K psi ?prm COEFFICIENT (tempA ! i) (\<alpha> i)"
    using key_rows_correct [where n = "2 * D" and unif = unif and noise = noise and \<alpha> = \<alpha> and \<epsilon> = \<epsilon>, OF p(1) T smp] by blast
  have F: "uint (ModAddEq x (rg_Gpower params ! l) q) = (uint x + 2 ^ (g * l) * 1) mod uint q" if "l < D" for l x
    using Gpower_nth(2) [OF prm that] ModAdd_value [OF r(2,3)] by (simp add: inplace_eqs mod_simps)
  have "\<exists>ek1. (if m > 0 then res_range 0 D (\<lambda>l ek. res_bind (elem_at (rg_Gpower params) l) (\<lambda>G.
        res_bind (key_upd ek (2 * l) 0 (\<lambda>p. poly_upd p 0 (\<lambda>x. ModAddEq x G q))) (\<lambda>ek. key_upd ek (2 * l + 1) 1 (\<lambda>p. poly_upd p 0 (\<lambda>x. ModAddEq x G q))))) ek
      else Inr ek) = Inr ek1 \<and> key_cols q K psi ?prm COEFFICIENT (2 * D) ek1 (gadget_col g (sk_msg K (m > 0)) D ?col)"
  proof (cases "m > 0")
    case True
    have "sk_msg K (m > 0) = (rzero K)[0 := 1]" using True by (simp add: sk_msg_def xpow_def)
    from gadget_loop [where F = "\<lambda>G x. ModAddEq x G q" and g = g, OF k(2) _ this Gpower_nth(1) [OF prm D] F] show ?thesis using True by simp
  next
    case False
    then show ?thesis using k(2) gadget_col_zero [OF len, where g = g] by (simp add: key_cols_def sk_msg_def)
  qed
  then obtain ek1 where 1: "(if m > 0 then res_range 0 D (\<lambda>l ek. res_bind (elem_at (rg_Gpower params) l) (\<lambda>G.
        res_bind (key_upd ek (2 * l) 0 (\<lambda>p. poly_upd p 0 (\<lambda>x. ModAddEq x G q))) (\<lambda>ek. key_upd ek (2 * l + 1) 1 (\<lambda>p. poly_upd p 0 (\<lambda>x. ModAddEq x G q))))) ek
      else Inr ek) = Inr ek1" and c: "key_cols q K psi ?prm COEFFICIENT (2 * D) ek1 (gadget_col g (sk_msg K (m > 0)) D ?col)" by blast
  have eps: "length (\<epsilon> i) = 2 ^ K" if "i < 2 * D" for i using len [OF that, of 1] by simp
  from keygen_tail [where arb = arb, OF p(1) T sk length_sk_msg k(3,4) eps c]
  show ?thesis unfolding KeyGenCGGI_def Let_def p(4,6,7) k(1) using 1 by simp
qed

lemma dm_exponent_value:
  assumes prm: "rgsw_params q K psi g D params" and r: "uint (rg_q params) dvd 2 ^ Suc K" "rg_q params \<noteq> 0"
  shows "uint (dm_exponent params m) = m mod uint (rg_q params) * (2 ^ Suc K div uint (rg_q params))"
    "uint (dm_exponent params m) < 2 ^ Suc K"
proof -
  note p = rgsw_params_dest [OF prm]
  let ?r = "uint (rg_q params)" and ?k = "2 ^ Suc K div uint (rg_q params)"
  have K: "(2 :: int) ^ Suc K \<le> 2 ^ 25" using p(9) by (intro power_increasing) auto
  have r0: "0 < ?r" using r(2) by (rule uint_pos)
  have "?r dvd 2 ^ 64" by (rule dvd_trans [OF r(1) le_imp_power_dvd]) (use p(9) in simp)
  then have w: "uint (word_of_int m :: NativeInt) mod ?r = m mod ?r"
    by (simp add: uint_word_of_int mod_mod_cancel)
  have k: "?r * ?k = 2 ^ Suc K" using r(1) by simp
  have k0: "0 \<le> ?k" "?k \<le> 2 ^ Suc K" using r0 zdiv_mono2 [of "2 ^ Suc K" 1 ?r] by (simp_all add: pos_imp_zdiv_nonneg_iff)
  have le: "?r \<le> 2 ^ Suc K" using r(1) by (intro zdvd_imp_le) simp_all
  have a: "0 \<le> m mod ?r" "m mod ?r < ?r" using r0 by simp_all
  have "uint ((word_of_int m :: NativeInt) mod rg_q params + rg_q params) = m mod ?r + ?r"
    using a le K w by (simp add: uint_word_ariths uint_mod)
  then have b: "uint (((word_of_int m :: NativeInt) mod rg_q params + rg_q params) mod rg_q params) = m mod ?r" by (simp add: uint_mod)
  have c: "uint (ucast (2 * rg_N params) div rg_q params) = ?k" by (simp only: uint_div p(10))
  have "m mod ?r * ?k \<le> (?r - 1) * ?k" using a k0 by (intro mult_right_mono) simp_all
  also have "\<dots> < 2 ^ Suc K" using k le r0 k0 by (cases "?k = 0") (simp_all add: left_diff_distrib)
  finally have lt: "m mod ?r * ?k < 2 ^ Suc K" .
  then show "uint (dm_exponent params m) = m mod ?r * ?k"
    unfolding dm_exponent_def Let_def using a k0 K b c by (simp add: uint_word_ariths mult_nonneg_nonneg)
  then show "uint (dm_exponent params m) < 2 ^ Suc K" using lt by simp
qed

lemma dm_position:
  fixes m :: int
  assumes prm: "rgsw_params q K psi g D params" and r: "uint (rg_q params) dvd 2 ^ Suc K" "rg_q params \<noteq> 0"
  defines "mm \<equiv> dm_exponent params m" and "red \<equiv> sint (dm_exponent params m) \<ge> uint (rg_N params)"
  shows "xrot K (m * (2 ^ Suc K div uint (rg_q params))) = (rzero K)[unat (if red then mm - ucast (rg_N params) else mm) := (if red then - 1 else 1)]"
    "unat (if red then mm - ucast (rg_N params) else mm) < 2 ^ K"
proof -
  note p = rgsw_params_dest [OF prm] and e = dm_exponent_value [OF prm r, of m]
  let ?mm = "dm_exponent params m" and ?N = "rg_N params" and ?r = "uint (rg_q params)" and ?k = "2 ^ Suc K div uint (rg_q params)"
  let ?red = "sint ?mm \<ge> uint ?N" and ?M = "xrot K (m * (2 ^ Suc K div uint (rg_q params)))"
  let ?t = "if ?red then ?mm - ucast ?N else ?mm"
  have K: "(2 :: int) ^ Suc K \<le> 2 ^ 25" using p(9) by (intro power_increasing) auto
  have N: "uint ?N = 2 ^ K" using p(3) by (simp only: uint_nat) simp
  then have N64: "uint (ucast ?N :: NativeInt) = 2 ^ K" using K by (simp add: unsigned_ucast_eq take_bit_eq_mod)
  have sm: "sint ?mm = uint ?mm" using e(2) K by (intro sint_small) simp
  have red: "?red \<longleftrightarrow> 2 ^ K \<le> uint ?mm" by (simp only: sm N)
  have ut: "uint ?t = uint ?mm mod 2 ^ K" and ud: "uint ?mm div 2 ^ K = of_bool ?red"
  proof -
    have "uint (?mm - ucast ?N) = uint ?mm - 2 ^ K" if "2 ^ K \<le> uint ?mm"
    proof -
      have "ucast ?N \<le> ?mm" using that by (simp only: word_le_def N64)
      then show ?thesis by (simp only: uint_minus_simple_alt N64)
    qed
    moreover have "uint ?mm mod 2 ^ K = uint ?mm - 2 ^ K \<and> uint ?mm div 2 ^ K = 1" if "2 ^ K \<le> uint ?mm"
      using that e(2) div_pos_geq [of "2 ^ K" "uint ?mm"] minus_div_mult_eq_mod [of "uint ?mm" "2 ^ K"] by simp
    ultimately show "uint ?t = uint ?mm mod 2 ^ K" "uint ?mm div 2 ^ K = of_bool ?red" unfolding red by (simp_all add: not_le)
  qed
  have un: "unat ?mm = nat (m * (2 ^ Suc K div uint (rg_q params)) mod 2 ^ Suc K)"
  proof -
    have "m * ?k mod (?r * ?k) = m mod ?r * ?k" by (rule mod_mult_mult2)
    moreover have "?r * ?k = 2 ^ Suc K" using r(1) by (rule dvd_mult_div_cancel)
    ultimately have "m * ?k mod 2 ^ Suc K = uint ?mm" by (simp only: e(1))
    then show ?thesis by (simp only: nat_uint_eq)
  qed
  have t: "unat ?t = unat ?mm mod 2 ^ K" "unat ?mm div 2 ^ K = of_bool ?red"
  proof -
    show "unat ?t = unat ?mm mod 2 ^ K" using arg_cong [OF ut, of nat] by (simp only: nat_uint_eq nat_mod_distrib uint_ge_0) (simp add: nat_mod_distrib nat_power_eq)
    show "unat ?mm div 2 ^ K = of_bool ?red" using arg_cong [OF ud, of nat] by (simp only: nat_div_distrib uint_ge_0) (simp add: nat_power_eq)
  qed
  show "xrot K (m * ?k) = (rzero K)[unat (if red then mm - ucast (rg_N params) else mm) := (if red then - 1 else 1)]"
    unfolding mm_def red_def xrot_def un [symmetric] xpow_def t by simp
  show "unat (if red then mm - ucast (rg_N params) else mm) < 2 ^ K" unfolding mm_def red_def t(1) by simp
qed

lemma KeyGenDM_correct:
  assumes prm: "rgsw_params q K psi g D params" and T: "tables_ok q K psi T"
    and sk: "poly_is q K psi (rg_polyParams params) EVALUATION skNTT z"
    and smp: "\<And>i. i < 2 * D \<Longrightarrow> sampled q K (unif i) (\<alpha> i) \<and> sampled q K (noise i) (\<epsilon> i)"
    and r: "uint (rg_q params) dvd 2 ^ Suc K" "rg_q params \<noteq> 0"
  shows "\<exists>ek T'. KeyGenDM arb params skNTT m unif noise T = Inr (ek, T') \<and> tables_ok q K psi T'
    \<and> rgsw_key q K psi (rg_polyParams params) g D z (xrot K (m * (2 ^ Suc K div uint (rg_q params)))) \<epsilon> ek"
proof -
  note p = rgsw_params_dest [OF prm]
  let ?prm = "rg_polyParams params" and ?col = "\<lambda>j :: nat. if j = 0 then \<alpha> else \<epsilon>" and ?mm = "dm_exponent params m" and ?N = "rg_N params"
  let ?red = "sint ?mm \<ge> uint ?N" and ?M = "xrot K (m * (2 ^ Suc K div uint (rg_q params)))"
  let ?t = "if ?red then ?mm - ucast ?N else ?mm"
  note rk = ring_ok_dest [OF p(1)]
  have D: "0 < D" using p(2) by (simp add: gadget_ok_def)
  note x = dm_position(1) [OF prm r, of m] and t = dm_position(2) [OF prm r, of m]
  obtain ek tempA where k: "key_rows arb ?prm unif noise (2 * D) T = Inr (ek, tempA, T)" "key_cols q K psi ?prm COEFFICIENT (2 * D) ek ?col"
      "length tempA = 2 * D" "\<And>i. i < 2 * D \<Longrightarrow> poly_is q K psi ?prm COEFFICIENT (tempA ! i) (\<alpha> i)"
    using key_rows_correct [where n = "2 * D" and unif = unif and noise = noise and \<alpha> = \<alpha> and \<epsilon> = \<epsilon>, OF p(1) T smp] by blast
  have F: "uint (if ?red then ModSubEq x (rg_Gpower params ! l) q else ModAddEq x (rg_Gpower params ! l) q)
      = (uint x + 2 ^ (g * l) * (if ?red then - 1 else 1)) mod uint q" if "l < D" for l x
    using Gpower_nth(2) [OF prm that] ModAdd_value [OF rk(2,3)] ModSub_value [OF rk(2,3)] by (simp add: inplace_eqs mod_simps)
  obtain ek1 where 1: "res_range 0 D (\<lambda>l ek. res_bind (elem_at (rg_Gpower params) l) (\<lambda>G.
        res_bind (key_upd ek (2 * l) 0 (\<lambda>p. poly_upd p (unat ?t) (\<lambda>x. if ?red then ModSubEq x G q else ModAddEq x G q)))
          (\<lambda>ek. key_upd ek (2 * l + 1) 1 (\<lambda>p. poly_upd p (unat ?t) (\<lambda>x. if ?red then ModSubEq x G q else ModAddEq x G q))))) ek = Inr ek1"
      "key_cols q K psi ?prm COEFFICIENT (2 * D) ek1 (gadget_col g ?M D ?col)"
    using gadget_loop [where F = "\<lambda>G x. if ?red then ModSubEq x G q else ModAddEq x G q" and g = g, OF k(2) t x Gpower_nth(1) [OF prm D] F] by blast
  have eps: "length (\<epsilon> i) = 2 ^ K" if "i < 2 * D" for i using smp [OF that] by (auto dest: sampled_len)
  from keygen_tail [where arb = arb, OF p(1) T sk _ k(3,4) eps 1(2)]
  show ?thesis unfolding KeyGenDM_def Let_def p(4,6,7) k(1) using 1(1) r(2) by simp
qed

section \<open>The accumulator keys\<close>

lemma lwe_key_entry_value:
  assumes "nv_wf sv" "uint (m_modulus sv) < 2 ^ 31" "i < length (m_data sv)"
  shows "lwe_key_entry sv i = Inr (centered (m_modulus sv) (m_data sv ! i))"
proof -
  have s: "signed_take_bit 31 (uint w) = uint w" if "uint w < 2 ^ 31" for w :: NativeInt
    using that order_trans [OF _ uint_ge_0 [of w], of "- 2147483648"] by (simp add: signed_take_bit_int_eq_self_iff)
  have "m_data sv ! i < m_modulus sv" by (rule nv_wf_nth [OF assms(1,3)])
  then have "uint (m_data sv ! i) < 2 ^ 31" using assms(2) by (simp add: word_less_def)
  then show ?thesis using s assms(2,3) by (simp add: lwe_key_entry_def vec_get_nth NV_GetModulus_def Let_def centered_def)
qed

lemma KeyGenAcc_CGGI_correct:
  assumes prm: "rgsw_params q K psi g D params" and T: "tables_ok q K psi T"
    and sk: "poly_is q K psi (rg_polyParams params) EVALUATION skNTT z"
    and smp: "\<And>i b r. i < length (int_key LWEsk) \<Longrightarrow> b < 2 \<Longrightarrow> r < 2 * D \<Longrightarrow> sampled q K (unif i b r) (\<alpha> i b r) \<and> sampled q K (noise i b r) (\<epsilon> i b r) \<and> rbound E (\<epsilon> i b r)"
    and lwe: "nv_wf (m_s LWEsk)" "uint (m_modulus (m_s LWEsk)) < 2 ^ 31" "set (int_key LWEsk) \<subseteq> {0, 1, - 1}"
  shows "\<exists>ek T'. KeyGenAcc_CGGI arb params skNTT LWEsk unif noise T = Inr (ek, T') \<and> tables_ok q K psi T'
    \<and> cggi_key q K psi (rg_polyParams params) g D E z (int_key LWEsk) ek"
proof -
  let ?n = "length (int_key LWEsk)" and ?prm = "rg_polyParams params" and ?key = "int_key LWEsk"
  have len: "length (m_data (m_s LWEsk)) = ?n" by (simp add: int_key_def)
  let ?P = "\<lambda>n (ek, T). tables_ok q K psi T \<and> cggi_key q K psi ?prm g D E z (take n ?key) ek"
  let ?body = "\<lambda>i (ek, T). res_bind (lwe_key_entry (m_s LWEsk) i) (\<lambda>s.
           if s = 0 \<or> s = 1 \<or> s = - 1 then
             res_bind (KeyGenCGGI arb params skNTT (if s = 1 then 1 else 0) (unif i 0) (noise i 0) T) (\<lambda>(k1, T).
             res_bind (KeyGenCGGI arb params skNTT (if s = - 1 then 1 else 0) (unif i 1) (noise i 1) T) (\<lambda>(k2, T).
             Inr (ek @ [(k1, k2)], T)))
           else Inl not_implemented_error)"
  have "\<exists>st. res_range 0 ?n ?body ([], T) = Inr st \<and> ?P ?n st"
  proof (rule res_range_invariant [where P = ?P])
    fix i st assume i: "i < ?n" and P: "?P i st"
    obtain ek T1 where st: "st = (ek, T1)" by (cases st)
    have T1: "tables_ok q K psi T1" and c: "cggi_key q K psi ?prm g D E z (take i ?key) ek" using P by (simp_all add: st)
    have lt2: "(1 :: nat) < 2" by simp
    have s: "lwe_key_entry (m_s LWEsk) i = Inr (?key ! i)"
      using lwe_key_entry_value [OF lwe(1,2), of i] i by (simp add: int_key_def)
    have "?key ! i \<in> {0, 1, - 1}" using lwe(3) nth_mem [OF i] by (rule subsetD)
    then have tern: "?key ! i = 0 \<or> ?key ! i = 1 \<or> ?key ! i = - 1" by simp
    have gen: "\<exists>k T'. KeyGenCGGI arb params skNTT (if c then 1 else 0) (unif i b) (noise i b) T = Inr (k, T') \<and> tables_ok q K psi T'
        \<and> small_key q K psi ?prm g D E z (sk_msg K c) k" if "b < 2" "tables_ok q K psi T" for b c T
    proof -
      have "sampled q K (unif i b r) (\<alpha> i b r) \<and> sampled q K (noise i b r) (\<epsilon> i b r)" if "r < 2 * D" for r using smp [OF i \<open>b < 2\<close> that] by blast
      from KeyGenCGGI_correct [where unif = "unif i b" and noise = "noise i b", OF prm \<open>tables_ok q K psi T\<close> sk this, of arb "if c then 1 else 0"]
      show ?thesis using smp [OF i \<open>b < 2\<close>] by (cases c) (auto intro: small_keyI)
    qed
    obtain k1 T2 where 1: "KeyGenCGGI arb params skNTT (if ?key ! i = 1 then 1 else 0) (unif i 0) (noise i 0) T1 = Inr (k1, T2)" "tables_ok q K psi T2"
       "small_key q K psi ?prm g D E z (sk_msg K (?key ! i = 1)) k1" using gen [OF pos2 T1, of "?key ! i = 1"] by blast
    obtain k2 T3 where 2: "KeyGenCGGI arb params skNTT (if ?key ! i = - 1 then 1 else 0) (unif i 1) (noise i 1) T2 = Inr (k2, T3)" "tables_ok q K psi T3"
       "small_key q K psi ?prm g D E z (sk_msg K (?key ! i = - 1)) k2" using gen [OF lt2 1(2), of "?key ! i = - 1"] by blast
    have "?P (Suc i) (ek @ [(k1, k2)], T3)"
      using c 1(3) 2(2,3) tern i by (auto simp: cggi_key_def nth_append less_Suc_eq)
    moreover have "?body i st = Inr (ek @ [(k1, k2)], T3)" using s tern 1(1) 2(1) by (simp only: st split_conv res_bind.simps if_True)
    ultimately show "\<exists>st'. ?body i st = Inr st' \<and> ?P (Suc i) st'" by blast
  qed (use T in \<open>auto simp: cggi_key_def\<close>)
  then obtain ek T' where "res_range 0 ?n ?body ([], T) = Inr (ek, T')" "?P ?n (ek, T')" by auto
  then show ?thesis by (simp add: KeyGenAcc_CGGI_def Let_def NV_GetLength_def len)
qed

text \<open>A secret that is not ternary is rejected.\<close>

lemma KeyGenAcc_CGGI_rejects:
  assumes "nv_wf (m_s LWEsk)" "uint (m_modulus (m_s LWEsk)) < 2 ^ 31" "0 < length (int_key LWEsk)" "int_key LWEsk ! 0 \<notin> {0, 1, - 1}"
  shows "KeyGenAcc_CGGI arb params skNTT LWEsk unif noise T = Inl not_implemented_error"
  using assms lwe_key_entry_value [OF assms(1,2), of 0]
  by (simp add: KeyGenAcc_CGGI_def Let_def NV_GetLength_def int_key_def res_range_rec)

section \<open>The precomputed tables\<close>

lemma Gpowers_eq:
  assumes "q \<noteq> 0" "1 < uint q" "uint baseG = 2 ^ g"
  shows "Gpowers baseG q n = map (\<lambda>l. word_of_int (2 ^ (g * l) mod uint q)) [0..<n]"
proof -
  have "uint (ucast baseG :: NativeInt) = 2 ^ g"
    using uint_bounded [of baseG] assms(3) by (simp add: unsigned_ucast_eq take_bit_eq_mod)
  then have mul: "ModMul (word_of_int (2 ^ (g * l) mod uint q)) (ucast baseG) q = word_of_int (2 ^ (g * Suc l) mod uint q)" for l
  proof -
    have b: "0 \<le> y mod uint q" "y mod uint q < 2 ^ 64" for y
      using uint_pos [OF assms(1)] order.strict_trans [OF pos_mod_bound uint_bounded, of q y] by simp_all
    have "uint (ModMul (word_of_int (2 ^ (g * l) mod uint q)) (ucast baseG) q) = 2 ^ (g * Suc l) mod uint q"
      using b [of "2 ^ (g * l)"] ModMul_value [OF assms(1)] \<open>uint (ucast baseG :: NativeInt) = 2 ^ g\<close>
      by (simp add: uint_word_of_int mod_simps power_add mult.commute)
    then show ?thesis by (metis word_of_int_uint)
  qed
  have "for_range 0 n (\<lambda>i (pows, vTemp). (pows @ [vTemp], ModMul vTemp (ucast baseG) q)) ([], 1)
      = (map (\<lambda>l. word_of_int (2 ^ (g * l) mod uint q)) [0..<n], word_of_int (2 ^ (g * n) mod uint q))"
  proof (induction n)
    case 0
    then show ?case using assms(2) by simp
  next
    case (Suc n)
    then show ?case by (simp add: for_range_Suc mul del: mult_Suc_right)
  qed
  then show ?thesis by (simp add: Gpowers_def)
qed

lemma monomial_poly_correct:
  assumes ok: "ring_ok q K psi prm" and T: "tables_ok q K psi T" and i: "i < 2 ^ K"
  shows "\<exists>p T'. monomial_poly arb prm q positive i T = Inr (p, T') \<and> tables_ok q K psi T'
    \<and> poly_is q K psi prm EVALUATION p (rsub (xpow K (if positive then i else 2 ^ K + i)) (xpow K 0))"
proof -
  note r = ring_ok_dest [OF ok]
  let ?\<sigma> = "if positive then 1 else - 1 :: int"
  have K0: "(0 :: nat) < 2 ^ K" by simp
  have up: "uint ((\<lambda>x. if positive then ModAddEq x 1 q else ModSubEq x 1 q) x) = ?\<sigma> mod uint q" if "uint x = rzero K ! i mod uint q" for x
    using that i ModAdd_value [OF r(2,3)] ModSub_value [OF r(2,3)] by (simp add: inplace_eqs)
  have dn: "uint ((\<lambda>x. ModSubEq x 1 q) x) = ((rzero K)[i := ?\<sigma>] ! 0 - 1) mod uint q" if "uint x = (rzero K)[i := ?\<sigma>] ! 0 mod uint q" for x
    using that ModSub_value [OF r(2,3)] by (simp add: inplace_eqs mod_simps)
  obtain p0 where p0: "Poly_new prm COEFFICIENT True = Inr p0" "poly_is q K psi prm COEFFICIENT p0 (rzero K)" using poly_is_new [OF ok] by blast
  obtain p1 where p1: "poly_upd p0 i (\<lambda>x. if positive then ModAddEq x 1 q else ModSubEq x 1 q) = Inr p1"
      "poly_is q K psi prm COEFFICIENT p1 ((rzero K)[i := ?\<sigma>])" using poly_is_upd [where f = "\<lambda>x. if positive then ModAddEq x 1 q else ModSubEq x 1 q", OF p0(2) i up] by blast
  obtain p2 where p2: "poly_upd p1 0 (\<lambda>x. ModSubEq x 1 q) = Inr p2"
      "poly_is q K psi prm COEFFICIENT p2 ((rzero K)[i := ?\<sigma>, 0 := (rzero K)[i := ?\<sigma>] ! 0 - 1])" using poly_is_upd [where f = "\<lambda>x. ModSubEq x 1 q", OF p1(2) K0 dn] by blast
  obtain p3 T' where p3: "Poly_SetFormat arb p2 EVALUATION T = Inr (p3, T')" "tables_ok q K psi T'"
      "poly_is q K psi prm EVALUATION p3 ((rzero K)[i := ?\<sigma>, 0 := (rzero K)[i := ?\<sigma>] ! 0 - 1])" using poly_is_SetFormat [OF p2(2) T] by blast
  have "(rzero K)[i := ?\<sigma>, 0 := (rzero K)[i := ?\<sigma>] ! 0 - 1] = rsub (xpow K (if positive then i else 2 ^ K + i)) (xpow K 0)"
    using i by (intro nth_equalityI) (auto simp: nth_list_update nth_xpow)
  then show ?thesis using p0(1) p1(1) p2(1) p3 by (simp add: monomial_poly_def)
qed

lemma monomial_loop:
  assumes ok: "ring_ok q K psi prm" and T: "tables_ok q K psi T" and base: "length ms = m" "\<And>i. i < m \<Longrightarrow> poly_is q K psi prm EVALUATION (ms ! i) (\<rho> i)"
    and nxt: "\<And>i. i < 2 ^ K \<Longrightarrow> \<rho> (m + i) = rsub (xpow K (if positive then i else 2 ^ K + i)) (xpow K 0)"
  shows "\<exists>ms' T'. res_range 0 (2 ^ K) (\<lambda>i (ps, T). res_bind (monomial_poly arb prm q positive i T) (\<lambda>(p, T). Inr (ps @ [p], T))) (ms, T) = Inr (ms', T')
    \<and> tables_ok q K psi T' \<and> length ms' = m + 2 ^ K \<and> (\<forall>i<m + 2 ^ K. poly_is q K psi prm EVALUATION (ms' ! i) (\<rho> i))"
proof -
  let ?P = "\<lambda>n (ms', T'). tables_ok q K psi T' \<and> length ms' = m + n \<and> (\<forall>i<m + n. poly_is q K psi prm EVALUATION (ms' ! i) (\<rho> i))"
  have "\<exists>st. res_range 0 (2 ^ K) (\<lambda>i (ps, T). res_bind (monomial_poly arb prm q positive i T) (\<lambda>(p, T). Inr (ps @ [p], T))) (ms, T) = Inr st \<and> ?P (2 ^ K) st"
  proof (rule res_range_invariant [where P = ?P])
    fix i st assume i: "i < 2 ^ K" and P: "?P i st"
    obtain ps T1 where st: "st = (ps, T1)" by (cases st)
    obtain p T2 where "monomial_poly arb prm q positive i T1 = Inr (p, T2)" "tables_ok q K psi T2" "poly_is q K psi prm EVALUATION p (\<rho> (m + i))"
      using monomial_poly_correct [OF ok _ i, of T1 arb positive] P nxt [OF i] by (auto simp: st)
    then show "\<exists>st'. (case st of (ps, T) \<Rightarrow> res_bind (monomial_poly arb prm q positive i T) (\<lambda>(p, T). Inr (ps @ [p], T))) = Inr st' \<and> ?P (Suc i) st'"
      using P by (auto simp: st nth_append less_Suc_eq)
  qed (use T base in auto)
  then show ?thesis by auto
qed

lemma monomials_correct:
  assumes ok: "ring_ok q K psi prm" and T: "tables_ok q K psi T"
  shows "\<exists>ms T'. monomials arb prm q (2 ^ K) T = Inr (ms, T') \<and> tables_ok q K psi T' \<and> monomials_ok q K psi prm ms"
proof -
  let ?\<rho> = "\<lambda>i. rsub (xpow K i) (xpow K 0)"
  obtain ms T1 where 1: "res_range 0 (2 ^ K) (\<lambda>i (ps, T). res_bind (monomial_poly arb prm q True i T) (\<lambda>(p, T). Inr (ps @ [p], T))) ([], T) = Inr (ms, T1)"
      "tables_ok q K psi T1" "length ms = 2 ^ K" "\<And>i. i < 2 ^ K \<Longrightarrow> poly_is q K psi prm EVALUATION (ms ! i) (?\<rho> i)"
    using monomial_loop [OF ok T, of "[]" 0 ?\<rho> True arb] by auto
  obtain ms2 T2 where 2: "res_range 0 (2 ^ K) (\<lambda>i (ps, T). res_bind (monomial_poly arb prm q False i T) (\<lambda>(p, T). Inr (ps @ [p], T))) (ms, T1) = Inr (ms2, T2)"
      "tables_ok q K psi T2" "length ms2 = 2 ^ K + 2 ^ K" "\<And>i. i < 2 ^ K + 2 ^ K \<Longrightarrow> poly_is q K psi prm EVALUATION (ms2 ! i) (?\<rho> i)"
    using monomial_loop [OF ok 1(2,3), of ?\<rho> False arb] 1(4) by auto
  show ?thesis using 1(1) 2 by (simp add: monomials_def monomials_ok_def mult_2)
qed

text \<open>Parameters before the precomputation, as the constructor leaves them.\<close>

definition rgsw_fresh :: "NativeInt \<Rightarrow> nat \<Rightarrow> NativeInt \<Rightarrow> nat \<Rightarrow> nat \<Rightarrow> RingGSWCryptoParams \<Rightarrow> bool" where
  "rgsw_fresh q K psi g D prm \<longleftrightarrow> ring_ok q K psi (rg_polyParams prm) \<and> gadget_ok q g D \<and> g < 32 \<and> D < 2 ^ 31
     \<and> rg_N prm = of_nat (2 ^ K) \<and> rg_Q prm = q \<and> rg_baseG prm = of_nat (2 ^ g) \<and> rg_digitsG prm = of_nat D
     \<and> rg_Gpower prm = [] \<and> rg_monomials prm = [] \<and> rg_digitsR prm = []"

lemma PreCompute_correct:
  assumes "rgsw_fresh q K psi g D prm" "tables_ok q K psi T"
  shows "\<exists>prm' T'. RGSW_PreCompute arb dcount False prm T = Inr (prm', T') \<and> tables_ok q K psi T' \<and> rgsw_params q K psi g D prm'
    \<and> rg_polyParams prm' = rg_polyParams prm \<and> rg_gateConst prm' = gate_constants (rg_q prm)
    \<and> rg_q prm' = rg_q prm \<and> rg_baseR prm' = rg_baseR prm
    \<and> (rg_method prm = GINX \<longrightarrow> monomials_ok q K psi (rg_polyParams prm) (rg_monomials prm'))
    \<and> (rg_method prm = AP \<longrightarrow> rg_digitsR prm' = digitsKS (rg_baseR prm) (dcount (rg_q prm) (rg_baseR prm)))"
proof -
  have f: "ring_ok q K psi (rg_polyParams prm)" "gadget_ok q g D" "g < 32" "D < 2 ^ 31" "rg_N prm = of_nat (2 ^ K)" "rg_Q prm = q"
      "rg_baseG prm = of_nat (2 ^ g)" "rg_digitsG prm = of_nat D" "rg_Gpower prm = []" "rg_monomials prm = []" "rg_digitsR prm = []"
    using assms(1) by (simp_all add: rgsw_fresh_def)
  note r = ring_ok_dest [OF f(1)]
  have K: "K \<le> 24" using r(1) by (simp add: ntt_params_def)
  have N: "unat (rg_N prm) = 2 ^ K" by (simp only: f(5) ring_dims(1) [OF K])
  have D: "unat (rg_digitsG prm) = D" unfolding f(8) using f(4) by (intro unat_of_nat_32) simp
  have "(2 :: nat) ^ g \<le> 2 ^ 31" using f(3) by (intro power_increasing) auto
  then have "unat (of_nat (2 ^ g) :: usint) = 2 ^ g" by (intro unat_of_nat_32) simp
  then have "uint (rg_baseG prm) = 2 ^ g" unfolding f(7) by (simp only: uint_nat) simp
  moreover have "1 < uint q" using ntt_params_modulus(1) [OF r(1)] by (simp add: word_less_def)
  ultimately have G: "Gpowers (rg_baseG prm) q D = map (\<lambda>l. word_of_int (2 ^ (g * l) mod uint q)) [0..<D]" using r(2) by (intro Gpowers_eq)
  obtain ms T' where ms: "monomials arb (rg_polyParams prm) q (2 ^ K) T = Inr (ms, T')" "tables_ok q K psi T'" "monomials_ok q K psi (rg_polyParams prm) ms"
    using monomials_correct [OF f(1) assms(2)] by blast
  show ?thesis using f G N D ms assms(2)
    by (cases "rg_method prm") (simp_all add: RGSW_PreCompute_def Let_def rgsw_params_def)
qed

text \<open>The keys of \<open>KeyGenAcc\<close> for a set of indices.\<close>

definition dm_entries :: "NativeInt \<Rightarrow> nat \<Rightarrow> NativeInt \<Rightarrow> ILParams \<Rightarrow> nat \<Rightarrow> nat \<Rightarrow> int \<Rightarrow> int list \<Rightarrow> (nat \<times> nat \<times> nat \<Rightarrow> int) \<Rightarrow> (nat \<times> nat \<times> nat) set
    \<Rightarrow> (nat \<times> nat \<times> nat \<Rightarrow> RingGSWEvalKey option) \<times> FTTTables \<Rightarrow> bool" where
  "dm_entries q K psi prm g D E z ex S st \<longleftrightarrow> tables_ok q K psi (snd st)
     \<and> (\<forall>t\<in>S. \<exists>ek'. fst st t = Some ek' \<and> small_key q K psi prm g D E z (xrot K (ex t)) ek')"

lemma KeyGenAcc_DM_correct:
  assumes prm: "rgsw_params q K psi g D params" and T: "tables_ok q K psi T"
    and sk: "poly_is q K psi (rg_polyParams params) EVALUATION skNTT z"
    and smp: "\<And>i j k r. i < length (int_key LWEsk) \<Longrightarrow> j < R \<Longrightarrow> k < cnt \<Longrightarrow> r < 2 * D \<Longrightarrow>
      sampled q K (unif i j k r) (\<alpha> i j k r) \<and> sampled q K (noise i j k r) (\<epsilon> i j k r) \<and> rbound E (\<epsilon> i j k r)"
    and lwe: "nv_wf (m_s LWEsk)" "uint (m_modulus (m_s LWEsk)) < 2 ^ 31" and q: "uint (rg_q params) dvd 2 ^ Suc K" "rg_q params \<noteq> 0"
    and R: "unat (rg_baseR params) = R" "0 < R" and dig: "rg_digitsR params = digitsKS (rg_baseR params) cnt" "\<And>k. k < cnt \<Longrightarrow> R ^ k < 2 ^ 31"
  shows "\<exists>ek T'. KeyGenAcc_DM arb params skNTT LWEsk unif noise T = Inr (ek, T') \<and> tables_ok q K psi T'
    \<and> dm_key q K psi (rg_polyParams params) g D E z R cnt (2 ^ Suc K div uint (rg_q params)) (int_key LWEsk) ek"
proof -
  let ?n = "length (int_key LWEsk)" and ?prm = "rg_polyParams params" and ?key = "int_key LWEsk" and ?u = "2 ^ Suc K div uint (rg_q params)"
  let ?ex = "\<lambda>(i, j, k). ?key ! i * int j * int R ^ k * ?u"
  let ?I = "dm_entries q K psi ?prm g D E z ?ex"
  have len: "length (m_data (m_s LWEsk)) = ?n" by (simp add: int_key_def)
  have cnt: "length (rg_digitsR params) = cnt" by (simp add: dig(1) digitsKS_eq)
  let ?inner = "\<lambda>i j k (ek, T). res_bind (lwe_key_entry (m_s LWEsk) i) (\<lambda>s.
           res_bind (KeyGenDM arb params skNTT (s * int j * signed_take_bit 31 (uint (rg_digitsR params ! k))) (unif i j k) (noise i j k) T)
             (\<lambda>(key, T). Inr (ek((i, j, k) \<mapsto> key), T)))"
  have step: "\<exists>st'. ?inner i j k st = Inr st' \<and> ?I (insert (i, j, k) S) st'" if i: "i < ?n" and j: "j < R" and k: "k < cnt" and I: "?I S st" for i j k S st
  proof -
    obtain ek T1 where st: "st = (ek, T1)" by (cases st)
    have T1: "tables_ok q K psi T1" using I by (simp add: st dm_entries_def)
    have s: "lwe_key_entry (m_s LWEsk) i = Inr (?key ! i)" using lwe_key_entry_value [OF lwe, of i] i by (simp add: int_key_def)
    have "rg_digitsR params ! k = of_nat (R ^ k)" using k R(1) by (simp add: dig(1) digitsKS_eq)
    moreover have "unat (of_nat (R ^ k) :: NativeInt) = R ^ k" by (rule unat_of_nat_64) (rule less_trans [OF dig(2) [OF k]], simp)
    ultimately have u: "uint (rg_digitsR params ! k) = int (R ^ k)" by (simp only: uint_nat)
    have d: "signed_take_bit 31 (uint (rg_digitsR params ! k)) = int R ^ k"
    proof -
      have "int (R ^ k) < int (2 ^ 31)" using dig(2) [OF k] by (simp only: of_nat_less_iff)
      then show ?thesis using u order_trans [of "- 2147483648" 0 "int R ^ k"] by (simp add: signed_take_bit_int_eq_self_iff)
    qed
    have "sampled q K (unif i j k r) (\<alpha> i j k r) \<and> sampled q K (noise i j k r) (\<epsilon> i j k r)" if "r < 2 * D" for r using smp [OF i j k that] by blast
    from KeyGenDM_correct [where unif = "unif i j k" and noise = "noise i j k", OF prm T1 sk this q, of arb "?key ! i * int j * int R ^ k"]
    obtain key T2 where "KeyGenDM arb params skNTT (?key ! i * int j * int R ^ k) (unif i j k) (noise i j k) T1 = Inr (key, T2)" "tables_ok q K psi T2"
      "rgsw_key q K psi ?prm g D z (xrot K (?ex (i, j, k))) (\<epsilon> i j k) key" by auto
    moreover have "small_key q K psi ?prm g D E z (xrot K (?ex (i, j, k))) key" by (rule small_keyI [OF calculation(3)]) (use smp [OF i j k] in blast)
    ultimately show ?thesis using s d I by (auto simp: st dm_entries_def)
  qed
  have mid: "\<exists>st'. res_range 0 cnt (?inner i j) st = Inr st' \<and> ?I (S \<union> {i} \<times> {j} \<times> {..<cnt}) st'" if "i < ?n" "j < R" "?I S st" for i j S st
  proof (rule res_range_invariant [where P = "\<lambda>k. ?I (S \<union> {i} \<times> {j} \<times> {..<k})"])
    fix k t assume k: "k < cnt" and I: "?I (S \<union> {i} \<times> {j} \<times> {..<k}) t"
    have "insert (i, j, k) (S \<union> {i} \<times> {j} \<times> {..<k}) = S \<union> {i} \<times> {j} \<times> {..<Suc k}" by auto
    then show "\<exists>t'. ?inner i j k t = Inr t' \<and> ?I (S \<union> {i} \<times> {j} \<times> {..<Suc k}) t'" using step [OF that(1,2) k I] by (simp only:)
  qed (use that in simp_all)
  have outer: "\<exists>st'. res_range 1 R (\<lambda>j. res_range 0 cnt (?inner i j)) st = Inr st' \<and> ?I (S \<union> {i} \<times> {1..<R} \<times> {..<cnt}) st'" if "i < ?n" "?I S st" for i S st
  proof (rule res_range_invariant [where P = "\<lambda>j. ?I (S \<union> {i} \<times> {1..<j} \<times> {..<cnt})"])
    fix j t assume j: "1 \<le> j" "j < R" and I: "?I (S \<union> {i} \<times> {1..<j} \<times> {..<cnt}) t"
    have "(S \<union> {i} \<times> {1..<j} \<times> {..<cnt}) \<union> {i} \<times> {j} \<times> {..<cnt} = S \<union> {i} \<times> {1..<Suc j} \<times> {..<cnt}" using j(1) by auto
    then show "\<exists>t'. res_range 0 cnt (?inner i j) t = Inr t' \<and> ?I (S \<union> {i} \<times> {1..<Suc j} \<times> {..<cnt}) t'" using mid [OF that(1) j(2) I] by (simp only:)
  qed (use that R(2) in simp_all)
  have "\<exists>st'. res_range 0 ?n (\<lambda>i. res_range 1 R (\<lambda>j. res_range 0 cnt (?inner i j))) (Map.empty, T) = Inr st' \<and> ?I ({..<?n} \<times> {1..<R} \<times> {..<cnt}) st'"
  proof (rule res_range_invariant [where P = "\<lambda>i. ?I ({..<i} \<times> {1..<R} \<times> {..<cnt})"])
    fix i t assume i: "i < ?n" and I: "?I ({..<i} \<times> {1..<R} \<times> {..<cnt}) t"
    have "{..<i} \<times> {1..<R} \<times> {..<cnt} \<union> {i} \<times> {1..<R} \<times> {..<cnt} = {..<Suc i} \<times> {1..<R} \<times> {..<cnt}" by auto
    then show "\<exists>t'. res_range 1 R (\<lambda>j. res_range 0 cnt (?inner i j)) t = Inr t' \<and> ?I ({..<Suc i} \<times> {1..<R} \<times> {..<cnt}) t'" using outer [OF i I] by (simp only:)
  qed (use T in \<open>simp_all add: dm_entries_def\<close>)
  then obtain ek T' where e: "res_range 0 ?n (\<lambda>i. res_range 1 R (\<lambda>j. res_range 0 cnt (?inner i j))) (Map.empty, T) = Inr (ek, T')"
    and I: "?I ({..<?n} \<times> {1..<R} \<times> {..<cnt}) (ek, T')" by auto
  have "KeyGenAcc_DM arb params skNTT LWEsk unif noise T = Inr (ek, T')"
    using e by (simp only: KeyGenAcc_DM_def Let_def NV_GetLength_def len R(1) cnt)
  moreover have "dm_key q K psi ?prm g D E z R cnt ?u ?key ek"
    unfolding dm_key_def using I by (auto simp: dm_entries_def)
  ultimately show ?thesis using I by (auto simp: dm_entries_def)
qed

section \<open>Key generation and accumulation together\<close>



section \<open>Sample runs\<close>

lemma prime_nat_12289: "prime_nat 12289"
proof -
  have small: "list_all (\<lambda>d. 12289 mod d \<noteq> 0) [2..<(111 :: nat)]" by simp
  have "d = 1 \<or> d = 12289" if "d dvd 12289" for d :: nat
  proof (rule ccontr)
    assume d: "\<not> (d = 1 \<or> d = 12289)"
    obtain e where e: "12289 = d * e" using \<open>d dvd 12289\<close> by (auto simp: dvd_def)
    then have pos: "0 < d" "0 < e" by (auto intro: Nat.gr0I)
    have no: "\<not> (2 \<le> c \<and> c < 111)" if "c dvd 12289" for c :: nat
    proof
      assume c: "2 \<le> c \<and> c < 111"
      then have "c \<in> set [2..<111]" by (simp only: set_upt atLeastLessThan_iff)
      then have "12289 mod c \<noteq> 0" using small unfolding list_all_iff by (rule bspec [rotated])
      then show False using that by (simp only: dvd_eq_mod_eq_0)
    qed
    have "e dvd 12289" unfolding e by (rule dvd_triv_right)
    moreover have "e \<noteq> 1" using e d by auto
    ultimately have "111 \<le> d" "111 \<le> e" using no [OF \<open>d dvd 12289\<close>] no [of e] pos d by linarith+
    then have "111 * 111 \<le> d * e" by (intro mult_mono) simp_all
    then show False using e by simp
  qed
  then show ?thesis by (simp add: prime_nat_def)
qed

lemma big_sample_params: "ntt_params 12289 10 7"
proof -
  have sq: "7 ^ m mod 12289 = y" if "7 ^ n mod 12289 = x" "m = 2 * n" "x * x mod 12289 = y" for m n :: nat and x y :: int
  proof -
    have "(7 :: int) ^ m = 7 ^ n * 7 ^ n" using that(2) by (simp add: power_add [symmetric] mult_2)
    then show ?thesis using that(1,3) by (simp only: mod_mult_eq [symmetric, of "7 ^ n"])
  qed
  have s: "(7 :: int) ^ 2 mod 12289 = 49" by simp
  have s: "(7 :: int) ^ 4 mod 12289 = 2401" by (rule sq [OF s]) simp_all
  have s: "(7 :: int) ^ 8 mod 12289 = 1260" by (rule sq [OF s]) simp_all
  have s: "(7 :: int) ^ 16 mod 12289 = 2319" by (rule sq [OF s]) simp_all
  have s: "(7 :: int) ^ 32 mod 12289 = 7468" by (rule sq [OF s]) simp_all
  have s: "(7 :: int) ^ 64 mod 12289 = 3542" by (rule sq [OF s]) simp_all
  have s: "(7 :: int) ^ 128 mod 12289 = 10984" by (rule sq [OF s]) simp_all
  have s: "(7 :: int) ^ 256 mod 12289 = 7143" by (rule sq [OF s]) simp_all
  have s: "(7 :: int) ^ 512 mod 12289 = 10810" by (rule sq [OF s]) simp_all
  have s: "(7 :: int) ^ 1024 mod 12289 = 12288" by (rule sq [OF s]) simp_all
  have uint_numeral_7: "uint (7 :: NativeInt) = 7" and uint_12289: "uint (12289 :: NativeInt) = 12289" and two_10: "(2 :: nat) ^ 10 = 1024" by simp_all
  have "((7 :: int) ^ 1024 + 1) mod 12289 = (7 ^ 1024 mod 12289 + 1) mod 12289" by (simp only: mod_add_left_eq)
  also have "\<dots> = 0" by (simp only: s) simp
  finally have r: "(uint (7 :: NativeInt) ^ 2 ^ 10 + 1) mod uint (12289 :: NativeInt) = 0" by (simp only: uint_numeral_7 uint_12289 two_10)
  have "primitive_root 12289 10 7" unfolding primitive_root_def by (intro conjI r) simp
  moreover have "GetMSB 12289 = 14" by code_simp
  ultimately show ?thesis using prime_nat_12289 by (simp add: ntt_params_def barrett_exact_def barrett_modulus_def)
qed


definition zero_sample :: "NativeInt \<Rightarrow> nat \<Rightarrow> NativeVector" where
  "zero_sample q K = \<lparr>m_data = replicate (2 ^ K) 0, m_modulus = q\<rparr>"

lemma sampled_zero: "sampled q K (zero_sample q K) (rzero K) \<and> rbound 0 (rzero K)"
  using rbound_zero [of 0 K] by (simp add: sampled_def zero_sample_def nv_abs_def rmod_def) (simp add: rzero_def)

lemma acc_is_exists:
  assumes "ring_ok q K psi prm" "length a = 2 ^ K" "length b = 2 ^ K"
  shows "\<exists>acc. acc_is q K psi prm acc a b"
proof -
  obtain p r where "poly_is q K psi prm EVALUATION p a" "poly_is q K psi prm EVALUATION r b" using poly_is_exists assms by blast
  then have "acc_is q K psi prm [p, r] a b" by (simp add: acc_is_def)
  then show ?thesis by blast
qed

definition sample_lwe_sk :: LWEPrivateKey where
  "sample_lwe_sk = \<lparr>m_s = \<lparr>m_data = [1, 3], m_modulus = 4\<rparr>\<rparr>"

lemma sample_lwe_key: "int_key sample_lwe_sk = [1, - 1]" "nv_wf (m_s sample_lwe_sk)" "uint (m_modulus (m_s sample_lwe_sk)) < 2 ^ 31"
proof -
  have "GetMSB 4 = 3" by code_simp
  then show "nv_wf (m_s sample_lwe_sk)" by (simp add: sample_lwe_sk_def nv_wf_def MAX_MODULUS_SIZE_def)
  show "int_key sample_lwe_sk = [1, - 1]" "uint (m_modulus (m_s sample_lwe_sk)) < 2 ^ 31"
    by (simp_all add: sample_lwe_sk_def int_key_def centered_def)
qed

definition big_rgsw :: RingGSWCryptoParams where
  "big_rgsw = \<lparr>rg_N = 1024, rg_Q = 12289, rg_q = 2048, rg_baseG = 16, rg_digitsG = 4, rg_baseR = 2, rg_digitsR = [], rg_Gpower = [],
     rg_Gpower_map = Map.empty, rg_polyParams = ElemParams_of 1024 2048 12289 7 0 0, rg_gateConst = [], rg_monomials = [], rg_method = GINX\<rparr>"

lemma big_fresh: "rgsw_fresh 12289 10 7 4 4 big_rgsw"
proof -
  have "(\<Sum>l<4. (2 :: int) ^ (4 * l)) = 4369" by (simp add: eval_nat_numeral)
  then have "gadget_ok 12289 4 4" by (simp add: gadget_ok_def)
  moreover have "ring_ok 12289 10 7 (rg_polyParams big_rgsw)"
    using big_sample_params by (simp add: ring_ok_def ring_params_def big_rgsw_def ElemParams_of_def)
  ultimately show ?thesis by (simp add: rgsw_fresh_def big_rgsw_def)
qed

lemma tables_ok_empty: "tables_ok q K psi FTT_empty"
  by (simp add: tables_ok_def FTT_missing_def FTT_empty_def)


definition small_rgsw :: RingGSWCryptoParams where
  "small_rgsw = sample_rgsw\<lparr>rg_digitsR := [], rg_Gpower := []\<rparr>"

lemma small_fresh: "rgsw_fresh 17 2 2 2 3 small_rgsw"
  using sample_ring_ok sample_gadget by (simp add: rgsw_fresh_def small_rgsw_def sample_rgsw_def)


end
