(* ===== verification/Gates.thy ===== *)
theory Gates
  imports RGSW
begin

text \<open>
  The gates and the function evaluation of \<open>src/binfhe/lib/binfhe-base-scheme.cpp\<close>, with the classes of \<open>binfhe-base-scheme.h\<close> and
  \<open>binfhe-base-params.h\<close>. An operation on ciphertexts takes the scheme object \<open>sch\<close>, which holds the accumulator variant, the parameters
  and the table cache \<open>T\<close> of the transform. The functions that are bootstrapped may fail, because some of them read a table.

  The comparison of the two operands of a gate is one of pointers: it is the argument \<open>same\<close>.
\<close>

section \<open>Parameters, keys and the accumulator of a scheme\<close>

record BinFHECryptoParams =
  m_LWEParams :: LWECryptoParams
  m_RGSWParams :: RingGSWCryptoParams

text \<open>\<open>RingGSWACCKeyImpl\<close> is a three-dimensional array of keys: \<open>[0][b][i]\<close> for one variant, \<open>[i][j][k]\<close> for the other.\<close>

datatype RingGSWACCKey =
    ACC_CGGI "(RingGSWEvalKey \<times> RingGSWEvalKey) list"
  | ACC_DM "nat \<times> nat \<times> nat \<Rightarrow> RingGSWEvalKey option"

fun ACC_pairs :: "RingGSWACCKey \<Rightarrow> (RingGSWEvalKey \<times> RingGSWEvalKey) list" where
  "ACC_pairs (ACC_CGGI ks) = ks"
| "ACC_pairs (ACC_DM f) = []"

fun ACC_cell :: "RingGSWACCKey \<Rightarrow> nat \<times> nat \<times> nat \<Rightarrow> RingGSWEvalKey option" where
  "ACC_cell (ACC_CGGI ks) (i, j, k) =
     (if i = 0 \<and> j < 2 \<and> k < length ks then Some (if j = 0 then fst (ks ! k) else snd (ks ! k)) else None)"
| "ACC_cell (ACC_DM f) c = f c"

record RingGSWBTKey =
  BSkey :: "RingGSWACCKey option"
  KSkey :: "LWESwitchingKey option"

record BinFHEScheme =
  ACCscheme :: "BINFHE_METHOD option"

definition BinFHEScheme_new :: "BINFHE_METHOD \<Rightarrow> BinFHEScheme result" where
  "BinFHEScheme_new method =
     (if method = AP then Inr \<lparr>ACCscheme = Some AP\<rparr>
      else if method = GINX then Inr \<lparr>ACCscheme = Some GINX\<rparr>
      else Inl config_error)"

text \<open>The virtual methods \<open>KeyGenAcc\<close> and \<open>EvalAcc\<close> of the accumulator.\<close>

definition ACC_KeyGenAcc :: "arb_transform \<Rightarrow> BinFHEScheme \<Rightarrow> RingGSWCryptoParams \<Rightarrow> Poly \<Rightarrow> LWEPrivateKey \<Rightarrow>
    (nat \<Rightarrow> nat \<Rightarrow> nat \<Rightarrow> nat \<Rightarrow> NativeVector) \<Rightarrow> (nat \<Rightarrow> nat \<Rightarrow> nat \<Rightarrow> nat \<Rightarrow> NativeVector) \<Rightarrow> FTTTables \<Rightarrow> (RingGSWACCKey \<times> FTTTables) result" where
  "ACC_KeyGenAcc arb sch params skNTT LWEsk unif noise T =
     (case ACCscheme sch of
        Some AP \<Rightarrow> res_bind (KeyGenAcc_DM arb params skNTT LWEsk unif noise T) (\<lambda>(ek, T). Inr (ACC_DM ek, T))
      | Some GINX \<Rightarrow> res_bind (KeyGenAcc_CGGI arb params skNTT LWEsk (\<lambda>i b. unif 0 b i) (\<lambda>i b. noise 0 b i) T) (\<lambda>(ek, T). Inr (ACC_CGGI ek, T))
      | _ \<Rightarrow> Inl null_pointer)"

definition ACC_EvalAcc :: "arb_transform \<Rightarrow> BinFHEScheme \<Rightarrow> RingGSWCryptoParams \<Rightarrow> RingGSWACCKey \<Rightarrow> Poly list \<Rightarrow> NativeVector \<Rightarrow> FTTTables \<Rightarrow>
    (Poly list \<times> FTTTables) result" where
  "ACC_EvalAcc arb sch params ek acc a T =
     (case ACCscheme sch of
        Some AP \<Rightarrow> EvalAcc_DM arb params (ACC_cell ek) acc a T
      | Some GINX \<Rightarrow> EvalAcc_CGGI arb params (ACC_pairs ek) acc a T
      | _ \<Rightarrow> Inl null_pointer)"

text \<open>\<open>skN\<close> is the vector of the ternary generator; \<open>ksNoise\<close>, \<open>ksUnif\<close>, \<open>bsUnif\<close> and \<open>bsNoise\<close> are the samples of the two keys.\<close>

definition BinFHE_KeyGen :: "arb_transform \<Rightarrow> (NativeInt \<Rightarrow> usint \<Rightarrow> nat) \<Rightarrow> BinFHEScheme \<Rightarrow> NativeVector \<Rightarrow>
    (nat \<Rightarrow> nat \<Rightarrow> nat \<Rightarrow> NativeInt) \<Rightarrow> (nat \<Rightarrow> nat \<Rightarrow> nat \<Rightarrow> NativeVector) \<Rightarrow>
    (nat \<Rightarrow> nat \<Rightarrow> nat \<Rightarrow> nat \<Rightarrow> NativeVector) \<Rightarrow> (nat \<Rightarrow> nat \<Rightarrow> nat \<Rightarrow> nat \<Rightarrow> NativeVector) \<Rightarrow>
    BinFHECryptoParams \<Rightarrow> LWEPrivateKey \<Rightarrow> FTTTables \<Rightarrow> (RingGSWBTKey \<times> FTTTables) result" where
  "BinFHE_KeyGen arb dcount sch skN ksNoise ksUnif bsUnif bsNoise params LWEsk T =
     res_bind (LWE_KeySwitchGen dcount ksNoise ksUnif (m_LWEParams params) LWEsk \<lparr>m_s = skN\<rparr>) (\<lambda>ks.
     let RGSWParams = m_RGSWParams params
     in res_bind (Poly_new (rg_polyParams RGSWParams) EVALUATION False) (\<lambda>skNPoly.
        res_bind (Poly_SetValues skNPoly skN COEFFICIENT) (\<lambda>skNPoly.
        res_bind (Poly_SetFormat arb skNPoly EVALUATION T) (\<lambda>(skNPoly, T).
        res_bind (ACC_KeyGenAcc arb sch RGSWParams skNPoly LWEsk bsUnif bsNoise T) (\<lambda>(bs, T).
        Inr (\<lparr>BSkey = Some bs, KSkey = Some ks\<rparr>, T))))))"

section \<open>The accumulator before and after the blind rotation\<close>

definition dump_vec :: "NativeVector \<Rightarrow> unit result" where
  "dump_vec v = (if 1024 \<le> length (m_data v) then Inr () else Inl out_of_bounds)"

text \<open>The vector with the entries \<open>entry j\<close> at the multiples \<open>j * factor\<close> of \<open>factor\<close>, for \<open>j < count\<close>.\<close>

definition sparse_vector :: "nat \<Rightarrow> NativeInt \<Rightarrow> nat \<Rightarrow> nat \<Rightarrow> (nat \<Rightarrow> NativeInt result) \<Rightarrow> NativeVector result" where
  "sparse_vector N Q count factor entry =
     res_bind (NV_new N Q) (\<lambda>m.
     res_range 0 count (\<lambda>j m. res_bind (entry j) (\<lambda>x. vec_set m (j * factor) x)) m)"

text \<open>The accumulator \<open>[0, m]\<close> in evaluation format.\<close>

definition acc_start :: "arb_transform \<Rightarrow> ILParams \<Rightarrow> NativeVector \<Rightarrow> FTTTables \<Rightarrow> (Poly list \<times> FTTTables) result" where
  "acc_start arb polyParams m T =
     res_bind (Poly_new polyParams EVALUATION True) (\<lambda>res0.
     res_bind (Poly_new polyParams COEFFICIENT False) (\<lambda>res1.
     res_bind (Poly_SetValues res1 m COEFFICIENT) (\<lambda>res1.
     res_bind (Poly_SetFormat arb res1 EVALUATION T) (\<lambda>(res1, T). Inr ([res0, res1], T)))))"

text \<open>
  The first element is transposed and both are converted to coefficients; \<open>dmp\<close> is the dump of the first element before and after the
  transposition in \<open>EvalBinGate\<close>, and nothing in the other callers.
\<close>

definition acc_transpose :: "(Poly \<Rightarrow> unit result) \<Rightarrow> arb_transform \<Rightarrow> Poly list \<Rightarrow> FTTTables \<Rightarrow> (Poly list \<times> FTTTables) result" where
  "acc_transpose dmp arb accVec T =
     res_bind (elem_at accVec 0) (\<lambda>acc0. res_bind (dmp acc0) (\<lambda>_.
     res_bind (Poly_Transpose acc0) (\<lambda>acc0. res_bind (dmp acc0) (\<lambda>_.
     res_bind (Poly_SetFormat arb acc0 COEFFICIENT T) (\<lambda>(acc0, T).
     res_bind (elem_at accVec 1) (\<lambda>acc1.
     res_bind (Poly_SetFormat arb acc1 COEFFICIENT T) (\<lambda>(acc1, T). Inr (accVec[0 := acc0, 1 := acc1], T))))))))"

text \<open>The ciphertext of the constant coefficient, \<open>shift\<close> added to its body.\<close>

definition acc_extract :: "(NativeInt \<Rightarrow> NativeInt) \<Rightarrow> Poly list \<Rightarrow> LWECiphertext result" where
  "acc_extract shift accVec =
     res_bind (elem_at accVec 1) (\<lambda>acc1. res_bind (poly_get acc1 0) (\<lambda>b.
     res_bind (elem_at accVec 0) (\<lambda>acc0. res_bind (Poly_GetValues acc0) (\<lambda>a.
     Inr \<lparr>m_a = a, m_b = shift b\<rparr>))))"

text \<open>Modulus switching to \<open>qKS\<close>, key switching and modulus switching to \<open>q\<close>.\<close>

definition switch_down :: "(NativeInt \<Rightarrow> usint \<Rightarrow> nat) \<Rightarrow> LWECryptoParams \<Rightarrow> LWESwitchingKey option \<Rightarrow> NativeInt \<Rightarrow> LWECiphertext \<Rightarrow> LWECiphertext result" where
  "switch_down dcount LWEParams ks q ctExt =
     res_bind (LWE_ModSwitch (m_qKS LWEParams) ctExt) (\<lambda>ctMS.
     res_bind (deref ks) (\<lambda>K.
     res_bind (LWE_KeySwitch dcount LWEParams K ctMS) (\<lambda>ctKS.
     LWE_ModSwitch q ctKS)))"

section \<open>Gates\<close>

datatype BINGATE = OR_gate | AND_gate | NOR_gate | NAND_gate | XOR_FAST_gate | XNOR_FAST_gate | XOR_gate | XNOR_gate

fun gate_index :: "BINGATE \<Rightarrow> nat" where
  "gate_index OR_gate = 0" | "gate_index AND_gate = 1" | "gate_index NOR_gate = 2" | "gate_index NAND_gate = 3"
| "gate_index XOR_FAST_gate = 4" | "gate_index XNOR_FAST_gate = 5" | "gate_index XOR_gate = 6" | "gate_index XNOR_gate = 7"

definition gate_entry :: "NativeInt \<Rightarrow> NativeInt \<Rightarrow> NativeInt \<Rightarrow> NativeInt \<Rightarrow> NativeInt \<Rightarrow> NativeInt" where
  "gate_entry q1 q2 Q8 Q8Neg temp =
     (if q1 < q2 then (if temp \<ge> q1 \<and> temp < q2 then Q8Neg else Q8)
      else (if temp \<ge> q2 \<and> temp < q1 then Q8 else Q8Neg))"

definition BootstrapGateCore :: "arb_transform \<Rightarrow> BinFHEScheme \<Rightarrow> BinFHECryptoParams \<Rightarrow> BINGATE \<Rightarrow> RingGSWACCKey option \<Rightarrow> LWECiphertext \<Rightarrow>
    FTTTables \<Rightarrow> (Poly list \<times> FTTTables) result" where
  "BootstrapGateCore arb sch params gate ek ct T =
     (case ek of None \<Rightarrow> Inl config_error
      | Some ek \<Rightarrow>
        let LWEParams = m_LWEParams params; RGSWParams = m_RGSWParams params; polyParams = rg_polyParams RGSWParams;
            q = LWE_GetModulus ct; qHalf = (ucast (drop_bit 1 q) :: usint)
        in res_bind (elem_at (rg_gateConst RGSWParams) (gate_index gate)) (\<lambda>q1.
           let q2 = ModAddFast q1 (ucast qHalf) q;
               Q = m_Q LWEParams; Q8 = Q div 8 + 1; Q8Neg = SubFast Q Q8; N = m_N LWEParams; b = m_b ct
           in if q = 0 then Inl div_by_zero
              else let factor = (ucast (ucast (2 * N) div q) :: usint)
                   in res_bind (sparse_vector (unat N) Q (unat qHalf) (unat factor)
                        (\<lambda>j. Inr (gate_entry q1 q2 Q8 Q8Neg (ModSub b (of_nat j) q)))) (\<lambda>m.
                      res_bind (dump_vec m) (\<lambda>_.
                      res_bind (acc_start arb polyParams m T) (\<lambda>(acc, T).
                      ACC_EvalAcc arb sch RGSWParams ek acc (m_a ct) T)))))"

definition EvalNOT :: "LWECiphertext \<Rightarrow> LWECiphertext result" where
  "EvalNOT ct =
     (let q = LWE_GetModulus ct; n = LWE_GetLength ct
      in res_bind (NV_new n q) (\<lambda>a.
         res_bind (res_range 0 n (\<lambda>i a. res_bind (vec_get (m_a ct) i) (\<lambda>x. vec_set a i (if x = 0 then 0 else SubFast q x))) a) (\<lambda>a.
         let b = ModSubFast (RShift q 2) (m_b ct) q
         in Inr \<lparr>m_a = a, m_b = b\<rparr>)))"

text \<open>The branch of \<open>EvalBinGate\<close> for a gate of one bootstrapping.\<close>

definition gate_bootstrap :: "arb_transform \<Rightarrow> (NativeInt \<Rightarrow> usint \<Rightarrow> nat) \<Rightarrow> BinFHEScheme \<Rightarrow> BinFHECryptoParams \<Rightarrow> BINGATE \<Rightarrow> RingGSWBTKey \<Rightarrow>
    LWECiphertext \<Rightarrow> LWECiphertext \<Rightarrow> FTTTables \<Rightarrow> (LWECiphertext \<times> FTTTables) result" where
  "gate_bootstrap arb dcount sch params gate EK ct1 ct2 T =
     res_bind (if gate = XOR_FAST_gate \<or> gate = XNOR_FAST_gate
               then res_bind (LWE_EvalSubEq ct1 ct2) (\<lambda>ctprep. LWE_EvalAddEq ctprep ctprep)
               else LWE_EvalAddEq ct1 ct2) (\<lambda>ctprep.
     res_bind (BootstrapGateCore arb sch params gate (BSkey EK) ctprep T) (\<lambda>(acc, T).
     res_bind (acc_transpose dump arb acc T) (\<lambda>(accVec, T).
     let LWEParams = m_LWEParams params; Q = m_Q LWEParams
     in res_bind (acc_extract (\<lambda>x. ModAddFastEq (Q div 8 + 1) x Q) accVec) (\<lambda>ctExt.
        res_bind (switch_down dcount LWEParams (KSkey EK) (LWE_GetModulus ct1) ctExt) (\<lambda>ct. Inr (ct, T))))))"

definition EvalBinGate :: "arb_transform \<Rightarrow> (NativeInt \<Rightarrow> usint \<Rightarrow> nat) \<Rightarrow> BinFHEScheme \<Rightarrow> BinFHECryptoParams \<Rightarrow> BINGATE \<Rightarrow> RingGSWBTKey \<Rightarrow>
    bool \<Rightarrow> LWECiphertext \<Rightarrow> LWECiphertext \<Rightarrow> FTTTables \<Rightarrow> (LWECiphertext \<times> FTTTables) result" where
  "EvalBinGate arb dcount sch params gate EK same ct1 ct2 T =
     (if same then Inl config_error
      else if gate = XOR_gate \<or> gate = XNOR_gate then
        res_bind (EvalNOT ct1) (\<lambda>ct1NOT.
        res_bind (EvalNOT ct2) (\<lambda>ct2NOT.
        res_bind (gate_bootstrap arb dcount sch params AND_gate EK ct1 ct2NOT T) (\<lambda>(ctAND1, T).
        res_bind (gate_bootstrap arb dcount sch params AND_gate EK ct1NOT ct2 T) (\<lambda>(ctAND2, T).
        res_bind (gate_bootstrap arb dcount sch params OR_gate EK ctAND1 ctAND2 T) (\<lambda>(ctOR, T).
        if gate = XOR_gate then Inr (ctOR, T) else res_bind (EvalNOT ctOR) (\<lambda>ct. Inr (ct, T)))))))
      else gate_bootstrap arb dcount sch params gate EK ct1 ct2 T)"

definition Bootstrap :: "arb_transform \<Rightarrow> (NativeInt \<Rightarrow> usint \<Rightarrow> nat) \<Rightarrow> BinFHEScheme \<Rightarrow> BinFHECryptoParams \<Rightarrow> RingGSWBTKey \<Rightarrow>
    LWECiphertext \<Rightarrow> FTTTables \<Rightarrow> (LWECiphertext \<times> FTTTables) result" where
  "Bootstrap arb dcount sch params EK ct T =
     (let ctprep = LWE_EvalAddConstEq ct (RShift (LWE_GetModulus ct) 2)
      in res_bind (BootstrapGateCore arb sch params AND_gate (BSkey EK) ctprep T) (\<lambda>(acc, T).
         res_bind (acc_transpose (\<lambda>_. Inr ()) arb acc T) (\<lambda>(accVec, T).
         let LWEParams = m_LWEParams params; Q = m_Q LWEParams
         in res_bind (acc_extract (\<lambda>x. ModAddFastEq (Q div 8 + 1) x Q) accVec) (\<lambda>ctExt.
            res_bind (switch_down dcount LWEParams (KSkey EK) (LWE_GetModulus ct) ctExt) (\<lambda>ct. Inr (ct, T))))))"

section \<open>Functions\<close>

text \<open>0 for a negacyclic, 1 for a periodic and 2 for any other table.\<close>

definition checkInputFunction :: "NativeInt list \<Rightarrow> NativeInt \<Rightarrow> nat result" where
  "checkInputFunction lut md =
     (let h = length lut div 2
      in res_bind (elem_at lut 0) (\<lambda>l0. res_bind (elem_at lut h) (\<lambda>lh.
         if l0 = SubFast md lh then Inr (if list_ex (\<lambda>i. lut ! i \<noteq> SubFast md (lut ! (h + i))) [1..<h] then 2 else 0)
         else if l0 = lh then Inr (if list_ex (\<lambda>i. lut ! i \<noteq> lut ! (h + i)) [1..<h] then 2 else 1)
         else Inr 2)))"

type_synonym boot_fun = "NativeInt \<Rightarrow> NativeInt \<Rightarrow> NativeInt \<Rightarrow> NativeInt result"

definition BootstrapFuncCore :: "arb_transform \<Rightarrow> BinFHEScheme \<Rightarrow> BinFHECryptoParams \<Rightarrow> RingGSWACCKey option \<Rightarrow> LWECiphertext \<Rightarrow>
    boot_fun \<Rightarrow> NativeInt \<Rightarrow> FTTTables \<Rightarrow> (Poly list \<times> FTTTables) result" where
  "BootstrapFuncCore arb sch params ek ct f fmod T =
     (case ek of None \<Rightarrow> Inl config_error
      | Some ek \<Rightarrow>
        let LWEParams = m_LWEParams params; RGSWParams = m_RGSWParams params; polyParams = rg_polyParams RGSWParams;
            Q = m_Q LWEParams; N = m_N LWEParams; ctMod = LWE_GetModulus ct; b = m_b ct
        in if ctMod = 0 then Inl div_by_zero
           else let factor = (ucast (ucast (2 * N) div ctMod) :: usint)
                in res_bind (sparse_vector (unat N) Q (unat (RShift ctMod 1)) (unat factor)
                     (\<lambda>j. if fmod = 0 then Inl div_by_zero
                          else res_bind (f (ModSub b (of_nat j) ctMod) ctMod fmod) (\<lambda>y. Inr (MulFast (Q div fmod) y)))) (\<lambda>m.
                   res_bind (acc_start arb polyParams m T) (\<lambda>(acc, T).
                   ACC_EvalAcc arb sch RGSWParams ek acc (m_a ct) T)))"

definition BootstrapFunc :: "arb_transform \<Rightarrow> (NativeInt \<Rightarrow> usint \<Rightarrow> nat) \<Rightarrow> BinFHEScheme \<Rightarrow> BinFHECryptoParams \<Rightarrow> RingGSWBTKey \<Rightarrow>
    LWECiphertext \<Rightarrow> boot_fun \<Rightarrow> NativeInt \<Rightarrow> FTTTables \<Rightarrow> (LWECiphertext \<times> FTTTables) result" where
  "BootstrapFunc arb dcount sch params EK ct f fmod T =
     res_bind (BootstrapFuncCore arb sch params (BSkey EK) ct f fmod T) (\<lambda>(acc, T).
     res_bind (acc_transpose (\<lambda>_. Inr ()) arb acc T) (\<lambda>(accVec, T).
     res_bind (acc_extract (\<lambda>x. x) accVec) (\<lambda>ctExt.
     res_bind (switch_down dcount (m_LWEParams params) (KSkey EK) fmod ctExt) (\<lambda>ct. Inr (ct, T)))))"

text \<open>The functions that are bootstrapped: the table itself, a table for half the range, and the signs.\<close>

definition fLUT :: "NativeInt list \<Rightarrow> boot_fun" where
  "fLUT LUT x q Q = elem_at LUT (unat x)"

definition fLUT_half :: "NativeInt list \<Rightarrow> boot_fun" where
  "fLUT_half LUT x q Q =
     (if x < q div 2 then elem_at LUT (unat x)
      else res_bind (elem_at LUT (unat (x - q div 2))) (\<lambda>y. Inr (SubFast Q y)))"

definition f_quarter :: boot_fun where
  "f_quarter x q Q = Inr (if x < q div 2 then SubFast Q (q div 4) else q div 4)"

definition f_floor :: boot_fun where
  "f_floor x q Q =
     Inr (if x < q div 4 then SubFast (SubFast Q (q div 2)) x
          else if q div 4 \<le> x \<and> x < MulFast 3 q div 4 then x
          else SubFast (AddFast Q (q div 2)) x)"

definition f_sign :: boot_fun where
  "f_sign x q Q = Inr (if x < q div 2 then Q div 4 else SubFast Q (Q div 4))"

definition EvalFunc :: "arb_transform \<Rightarrow> (NativeInt \<Rightarrow> usint \<Rightarrow> nat) \<Rightarrow> BinFHEScheme \<Rightarrow> BinFHECryptoParams \<Rightarrow> RingGSWBTKey \<Rightarrow>
    LWECiphertext \<Rightarrow> NativeInt list \<Rightarrow> NativeInt \<Rightarrow> FTTTables \<Rightarrow> (LWECiphertext \<times> FTTTables) result" where
  "EvalFunc arb dcount sch params EK ct LUT beta T =
     (let q = LWE_GetModulus ct
      in res_bind (checkInputFunction LUT q) (\<lambda>functionProperty.
         if functionProperty = 0 then BootstrapFunc arb dcount sch params EK (LWE_EvalAddConstEq ct beta) (fLUT LUT) q T
         else if functionProperty = 2 then
           (if q > ucast (m_N (m_LWEParams params)) then Inl not_implemented_error
            else let LUT2 = LUT @ LUT; dq = LShift q 1
                 in res_bind (NV_SetModulus (m_a ct) dq) (\<lambda>a.
                    let ct1 = ct\<lparr>m_a := a\<rparr>; ct2 = LWE_EvalAddConstEq ct1 beta
                    in res_bind (BootstrapFunc arb dcount sch params EK ct2 f_quarter dq T) (\<lambda>(ct3, T).
                       res_bind (LWE_EvalSubEq2 ct1 ct3) (\<lambda>ct3.
                       let ct3 = LWE_EvalAddConstEq ct3 beta; ct3 = LWE_EvalSubConstEq ct3 (RShift q 1)
                       in res_bind (BootstrapFunc arb dcount sch params EK ct3 (fLUT_half LUT2) dq T) (\<lambda>(ct4, T).
                          res_bind (LWE_SetModulus ct4 q) (\<lambda>ct4. Inr (ct4, T)))))))
         else
           let ct1 = LWE_EvalAddConstEq ct beta
           in res_bind (BootstrapFunc arb dcount sch params EK ct1 f_quarter q T) (\<lambda>(ct2, T).
              res_bind (LWE_EvalSubEq2 ct ct2) (\<lambda>ct2.
              let ct2 = LWE_EvalAddConstEq ct2 beta; ct2 = LWE_EvalSubConstEq ct2 (RShift q 2)
              in BootstrapFunc arb dcount sch params EK ct2 (fLUT_half LUT) q T))))"

text \<open>\<open>1 << roundbits\<close> is a shift of a 32-bit signed number.\<close>

definition EvalFloor :: "arb_transform \<Rightarrow> (NativeInt \<Rightarrow> usint \<Rightarrow> nat) \<Rightarrow> BinFHEScheme \<Rightarrow> BinFHECryptoParams \<Rightarrow> RingGSWBTKey \<Rightarrow>
    LWECiphertext \<Rightarrow> NativeInt \<Rightarrow> nat \<Rightarrow> FTTTables \<Rightarrow> (LWECiphertext \<times> FTTTables) result" where
  "EvalFloor arb dcount sch params EK ct beta roundbits T =
     (let q = (if roundbits = 0 then m_q (m_LWEParams params) else MulFast (MulFast beta 2) (scast (push_bit roundbits (1 :: usint))));
          md = LWE_GetModulus ct; ct1 = LWE_EvalAddConstEq ct beta
      in res_bind (LWE_SetModulus ct1 q) (\<lambda>ct1Modq.
         res_bind (BootstrapFunc arb dcount sch params EK ct1Modq f_quarter md T) (\<lambda>(ct2, T).
         res_bind (LWE_EvalSubEq ct1 ct2) (\<lambda>ct1.
         res_bind (LWE_SetModulus ct1 q) (\<lambda>ct2Modq.
         res_bind (BootstrapFunc arb dcount sch params EK ct2Modq f_floor md T) (\<lambda>(ct3, T).
         res_bind (LWE_EvalSubEq ct1 ct3) (\<lambda>ct1. Inr (ct1, T))))))))"

section \<open>Large precision\<close>

text \<open>\<open>ceil(log2(x))\<close>, and the base the accumulator changes to for a modulus; 0 when it does not change.\<close>

definition binLog :: "NativeInt \<Rightarrow> nat" where
  "binLog x = (if x \<le> 1 then 0 else floorlog 2 (unat x - 1))"

definition dynamic_base :: "NativeInt \<Rightarrow> usint" where
  "dynamic_base md = (if binLog md \<le> 17 then push_bit 27 1 else if binLog md \<le> 26 then push_bit 18 1 else 0)"

text \<open>The state of the loops: the ciphertext, its modulus, the parameters, the key in use and the tables.\<close>

type_synonym sign_state = "LWECiphertext \<times> NativeInt \<times> BinFHECryptoParams \<times> RingGSWBTKey \<times> FTTTables"

definition sign_step :: "arb_transform \<Rightarrow> (NativeInt \<Rightarrow> usint \<Rightarrow> nat) \<Rightarrow> BinFHEScheme \<Rightarrow> (usint \<times> RingGSWBTKey) list \<Rightarrow> NativeInt \<Rightarrow>
    sign_state \<Rightarrow> sign_state result" where
  "sign_step arb dcount sch EKs beta st =
     (case st of (cttmp, md, params, curEK, T) \<Rightarrow>
      let q = m_q (m_LWEParams params)
      in res_bind (EvalFloor arb dcount sch params curEK cttmp beta 0 T) (\<lambda>(cttmp, T).
         res_bind (DividedBy md q) (\<lambda>d.
         let md = MulFast (MulFast d 2) beta
         in res_bind (LWE_ModSwitch md cttmp) (\<lambda>cttmp.
            let base = dynamic_base md
            in if length EKs = 3 \<and> base \<noteq> 0 then
                 let params = params\<lparr>m_RGSWParams := RGSW_Change_BaseG dcount (m_RGSWParams params) base\<rparr>
                 in (case map_of EKs base of None \<Rightarrow> Inl openfhe_error
                     | Some EK \<Rightarrow> Inr (cttmp, md, params, EK, T))
               else Inr (cttmp, md, params, curEK, T)))))"

partial_function (option) sign_loop :: "arb_transform \<Rightarrow> (NativeInt \<Rightarrow> usint \<Rightarrow> nat) \<Rightarrow> BinFHEScheme \<Rightarrow> (usint \<times> RingGSWBTKey) list \<Rightarrow> NativeInt \<Rightarrow>
    sign_state \<Rightarrow> sign_state result option" where
  "sign_loop arb dcount sch EKs beta st =
     (case st of (cttmp, md, params, curEK, T) \<Rightarrow>
      if md > m_q (m_LWEParams params)
      then (case sign_step arb dcount sch EKs beta st of Inl e \<Rightarrow> Some (Inl e) | Inr st' \<Rightarrow> sign_loop arb dcount sch EKs beta st')
      else Some (Inr st))"

definition EvalSign :: "arb_transform \<Rightarrow> (NativeInt \<Rightarrow> usint \<Rightarrow> nat) \<Rightarrow> BinFHEScheme \<Rightarrow> BinFHECryptoParams \<Rightarrow> (usint \<times> RingGSWBTKey) list \<Rightarrow>
    LWECiphertext \<Rightarrow> NativeInt \<Rightarrow> FTTTables \<Rightarrow> (LWECiphertext \<times> BinFHECryptoParams \<times> FTTTables) result option" where
  "EvalSign arb dcount sch params EKs ct beta T =
     (let md = LWE_GetModulus ct; q = m_q (m_LWEParams params); curBase = rg_baseG (m_RGSWParams params)
      in if md \<le> q then Some (Inl not_implemented_error)
         else (case map_of EKs curBase of None \<Rightarrow> Some (Inl openfhe_error)
         | Some curEK \<Rightarrow>
        (case sign_loop arb dcount sch EKs beta (ct, md, params, curEK, T) of None \<Rightarrow> None
         | Some (Inl e) \<Rightarrow> Some (Inl e)
         | Some (Inr (cttmp, md, params, curEK, T)) \<Rightarrow>
           Some (res_bind (BootstrapFunc arb dcount sch params curEK (LWE_EvalAddConstEq cttmp beta) f_sign q T) (\<lambda>(cttmp, T).
             Inr (LWE_EvalSubConstEq cttmp (RShift q 2),
                  params\<lparr>m_RGSWParams := RGSW_Change_BaseG dcount (m_RGSWParams params) curBase\<rparr>, T))))))"

partial_function (option) decomp_loop :: "arb_transform \<Rightarrow> (NativeInt \<Rightarrow> usint \<Rightarrow> nat) \<Rightarrow> BinFHEScheme \<Rightarrow> (usint \<times> RingGSWBTKey) list \<Rightarrow> NativeInt \<Rightarrow>
    LWECiphertext list \<Rightarrow> sign_state \<Rightarrow> (LWECiphertext list \<times> sign_state) result option" where
  "decomp_loop arb dcount sch EKs beta ret st =
     (case st of (cttmp, md, params, curEK, T) \<Rightarrow>
      if md > m_q (m_LWEParams params)
      then (case LWE_SetModulus cttmp (m_q (m_LWEParams params)) of Inl e \<Rightarrow> Some (Inl e)
            | Inr ctq \<Rightarrow>
           (case sign_step arb dcount sch EKs beta st of Inl e \<Rightarrow> Some (Inl e)
            | Inr st' \<Rightarrow> decomp_loop arb dcount sch EKs beta (ret @ [ctq]) st'))
      else Some (Inr (ret, st)))"

definition EvalDecomp :: "arb_transform \<Rightarrow> (NativeInt \<Rightarrow> usint \<Rightarrow> nat) \<Rightarrow> BinFHEScheme \<Rightarrow> BinFHECryptoParams \<Rightarrow> (usint \<times> RingGSWBTKey) list \<Rightarrow>
    LWECiphertext \<Rightarrow> NativeInt \<Rightarrow> FTTTables \<Rightarrow> (LWECiphertext list \<times> BinFHECryptoParams \<times> FTTTables) result option" where
  "EvalDecomp arb dcount sch params EKs ct beta T =
     (let md = LWE_GetModulus ct; q = m_q (m_LWEParams params); curBase = rg_baseG (m_RGSWParams params)
      in if md \<le> q then Some (Inl not_implemented_error)
         else (case map_of EKs curBase of None \<Rightarrow> Some (Inl openfhe_error)
         | Some curEK \<Rightarrow>
        (case decomp_loop arb dcount sch EKs beta [] (ct, md, params, curEK, T) of None \<Rightarrow> None
         | Some (Inl e) \<Rightarrow> Some (Inl e)
         | Some (Inr (ret, cttmp, md, params, curEK, T)) \<Rightarrow>
           Some (Inr (ret @ [cttmp], params\<lparr>m_RGSWParams := RGSW_Change_BaseG dcount (m_RGSWParams params) curBase\<rparr>, T)))))"

end
