(* ===== verification/Bootstrapping.thy ===== *)
theory Bootstrapping
  imports Gates AccKeys
begin

text \<open>
  What all operations of \<open>binfhe-base-scheme.cpp\<close> share: the transposition of an accumulator and the extraction of the LWE ciphertext of its constant
  coefficient, the test polynomial of a function that changes its sign after half a period, the contract of an accumulator (the locale \<open>accumulator\<close>,
  interpreted for both variants and for the dispatching scheme object), and the way down to the small modulus with its noise.
\<close>

section \<open>Transposition and the constant coefficient\<close>

text \<open>The polynomial \<open>a (1 / x)\<close>.\<close>

definition rtrans :: "nat \<Rightarrow> int list \<Rightarrow> int list" where
  "rtrans K a = map (\<lambda>i. if i = 0 then a ! 0 else - (a ! (2 ^ K - i))) [0..<2 ^ K]"

lemma length_rtrans [simp]: "length (rtrans K a) = 2 ^ K"
  by (simp add: rtrans_def)

lemma nth_rtrans [simp]: "i < 2 ^ K \<Longrightarrow> rtrans K a ! i = (if i = 0 then a ! 0 else - (a ! (2 ^ K - i)))"
  by (simp add: rtrans_def)

text \<open>A sum over the places of a polynomial, the place 0 apart, read backwards.\<close>

lemma sum_places:
  fixes f :: "nat \<Rightarrow> int"
  shows "(\<Sum>i<2 ^ K. f i) = f 0 + (\<Sum>i\<in>{1..<2 ^ K}. f i)" "(\<Sum>i\<in>{1..<2 ^ K}. f i) = (\<Sum>i\<in>{1..<2 ^ K}. f (2 ^ K - i))"
proof -
  have "{..<2 ^ K} = insert 0 {1..<2 ^ K :: nat}" by (auto simp: Suc_le_eq)
  then show "(\<Sum>i<2 ^ K. f i) = f 0 + (\<Sum>i\<in>{1..<2 ^ K}. f i)" by simp
  show "(\<Sum>i\<in>{1..<2 ^ K}. f i) = (\<Sum>i\<in>{1..<2 ^ K}. f (2 ^ K - i))"
    by (rule sum.reindex_bij_witness [where i = "\<lambda>i. 2 ^ K - i" and j = "\<lambda>i. 2 ^ K - i"]) auto
qed

lemma inverse_power:
  assumes "rcong q (z ^ 2 ^ K) (- 1)" "0 < j" "j < 2 ^ K"
  shows "rcong q ((z ^ (2 ^ Suc K - 1)) ^ j) (- (z ^ (2 ^ K - j)))"
proof -
  obtain i where i: "j = Suc i" using assms(2) by (cases j) auto
  have "(2 ^ Suc K - 1) * j = 2 ^ K * (2 * i + 1) + (2 ^ K - j)"
  proof -
    have "int ((2 ^ Suc K - 1) * j) = (2 * 2 ^ K - 1) * int j" by (simp add: of_nat_diff)
    also have "\<dots> = int (2 ^ K * (2 * i + 1) + (2 ^ K - j))" using assms(3) by (simp add: i of_nat_diff algebra_simps)
    finally show ?thesis by (simp only: of_nat_eq_iff)
  qed
  then have "(z ^ (2 ^ Suc K - 1)) ^ j = (z ^ 2 ^ K) ^ (2 * i + 1) * z ^ (2 ^ K - j)" by (metis power_add power_mult)
  moreover have "rcong q ((z ^ 2 ^ K) ^ (2 * i + 1) * z ^ (2 ^ K - j)) ((- 1) ^ (2 * i + 1) * z ^ (2 ^ K - j))"
    by (intro rcong_mult rcong_power assms(1) rcong_refl)
  ultimately show ?thesis by simp
qed

lemma eval_rtrans:
  assumes "rcong q (z ^ 2 ^ K) (- 1)" "length a = 2 ^ K"
  shows "rcong q (poly_eval (rtrans K a) z) (poly_eval a (z ^ (2 ^ Suc K - 1)))"
proof -
  have "poly_eval (rtrans K a) z = a ! 0 + (\<Sum>i\<in>{1..<2 ^ K}. - (a ! (2 ^ K - i)) * z ^ i)"
    unfolding poly_eval_def length_rtrans sum_places(1) by simp
  also have "(\<Sum>i\<in>{1..<2 ^ K}. - (a ! (2 ^ K - i)) * z ^ i) = (\<Sum>j\<in>{1..<2 ^ K}. a ! j * - (z ^ (2 ^ K - j)))"
    by (subst sum_places(2)) (rule sum.cong, auto)
  also have "rcong q (a ! 0 + \<dots>) (a ! 0 * (z ^ (2 ^ Suc K - 1)) ^ 0 + (\<Sum>j\<in>{1..<2 ^ K}. a ! j * (z ^ (2 ^ Suc K - 1)) ^ j))"
  proof (rule rcong_add)
    show "rcong q (\<Sum>j\<in>{1..<2 ^ K}. a ! j * - (z ^ (2 ^ K - j))) (\<Sum>j\<in>{1..<2 ^ K}. a ! j * (z ^ (2 ^ Suc K - 1)) ^ j)"
      by (intro rcong_sum rcong_mult rcong_refl rcong_sym [OF inverse_power [OF assms(1)]]) auto
  qed simp
  finally show ?thesis unfolding poly_eval_def assms(2) sum_places(1) [of "\<lambda>i. a ! i * (z ^ (2 ^ Suc K - 1)) ^ i"] .
qed

lemma poly_is_Transpose:
  assumes p: "poly_is q K psi prm EVALUATION p a"
  shows "\<exists>s. Poly_Transpose p = Inr s \<and> poly_is q K psi prm EVALUATION s (rtrans K a)"
proof -
  have r: "represents q K psi p (rmod q a)" "length a = 2 ^ K" "m_format p = EVALUATION" "m_params p = prm" using p by (simp_all add: poly_is_def)
  note ok = ring_ok_dest [OF poly_is_ok [OF p]]
  have K: "K \<le> 24" and prm: "cyclotomicOrder prm = of_nat (2 ^ Suc K)" using poly_is_ok [OF p] by (simp_all add: ring_ok_def ntt_params_def ring_params_def)
  have m: "unat (cyclotomicOrder prm - 1) = 2 ^ Suc K - 1"
  proof -
    have "unat (cyclotomicOrder prm) = 2 ^ Suc K" using ring_dims(2) [OF K] prm by simp
    then show ?thesis by (subst unat_sub) (simp_all add: word_le_nat_alt)
  qed
  obtain s where s: "Poly_AutomorphismTransform p (cyclotomicOrder prm - 1) = Inr s"
      "represents q K psi s (auto_poly q K (2 ^ Suc K - 1) (rmod q a))" "m_format s = EVALUATION"
    using Automorphism_eval_represents [OF r(1,3), of "cyclotomicOrder prm - 1"] by (auto simp: m)
  have "m_params s = prm" using s(1) r(4) by (auto simp: Poly_AutomorphismTransform_def Let_def split: if_splits)
  moreover have "ring_cong q K (auto_poly q K (2 ^ Suc K - 1) (rmod q a)) (rtrans K a)"
  proof (rule ring_congI [OF ok(1)])
    fix z assume z: "rcong (uint q) (z ^ 2 ^ K) (- 1)"
    have "rcong (uint q) (poly_eval (auto_poly q K (2 ^ Suc K - 1) (rmod q a)) z) (poly_eval (rmod q a) (z ^ (2 ^ Suc K - 1)))"
      by (rule auto_poly_eval [OF _ z]) (simp add: r(2))
    also have "rcong (uint q) \<dots> (poly_eval a (z ^ (2 ^ Suc K - 1)))" by (rule eval_rmod)
    also have "rcong (uint q) \<dots> (poly_eval (rtrans K a) z)" by (rule rcong_sym [OF eval_rtrans [OF z r(2)]])
    finally show "rcong (uint q) (poly_eval (auto_poly q K (2 ^ Suc K - 1) (rmod q a)) z) (poly_eval (rtrans K a) z)" .
  qed (simp_all add: auto_poly_def)
  moreover have "rmod q (auto_poly q K (2 ^ Suc K - 1) (rmod q a)) = auto_poly q K (2 ^ Suc K - 1) (rmod q a)"
    by (rule rmod_residues [OF residues_auto_poly [OF ok(2)]])
  ultimately have "poly_is q K psi prm EVALUATION s (rtrans K a)" using s(2,3) by (auto simp: poly_is_def ring_cong_rmod)
  then show ?thesis using s(1) r(3,4) by (simp add: Poly_Transpose_def Let_def)
qed

lemma dot_rtrans: "length z = 2 ^ K \<Longrightarrow> dot (rtrans K a) z = rmul K a z ! 0"
proof -
  assume z: "length z = 2 ^ K"
  have "dot (rtrans K a) z = a ! 0 * z ! 0 + (\<Sum>i\<in>{1..<2 ^ K}. - (a ! (2 ^ K - i)) * z ! i)"
    unfolding dot_def z sum_places(1) by simp
  also have "(\<Sum>i\<in>{1..<2 ^ K}. - (a ! (2 ^ K - i)) * z ! i) = (\<Sum>i\<in>{1..<2 ^ K}. - (a ! i * z ! (2 ^ K - i)))"
    by (subst sum_places(2)) (rule sum.cong, auto)
  also have "a ! 0 * z ! 0 + \<dots> = negacyclic (2 ^ K) a z 0" unfolding negacyclic_def sum_places(1) by simp
  finally show ?thesis by simp
qed

text \<open>The ciphertext that the extraction builds from an accumulator has the constant coefficient of its phase.\<close>

lemma dot_cong: "length key \<le> length xs \<Longrightarrow> length key \<le> length ys \<Longrightarrow> (\<And>i. i < length key \<Longrightarrow> rcong q (xs ! i) (ys ! i)) \<Longrightarrow> rcong q (dot xs key) (dot ys key)"
  unfolding dot_def by (intro rcong_sum rcong_mult) auto

lemma extract_phase:
  assumes acc: "acc_is Q K psi prm acc a b" and T: "tables_ok Q K psi T" and z: "length z = 2 ^ K"
    and dmp: "\<And>p c. poly_is Q K psi prm EVALUATION p c \<Longrightarrow> dmp p = Inr ()"
    and shift: "\<And>x. x < Q \<Longrightarrow> shift x < Q \<and> rcong (uint Q) (uint (shift x)) (uint x + c)"
  obtains acc' T' ct where "acc_transpose dmp arb acc T = Inr (acc', T')" "tables_ok Q K psi T'" "acc_extract shift acc' = Inr ct"
    "lwe_wf (2 ^ K) ct" "LWE_GetModulus ct = Q" "rcong (uint Q) (lwe_phase z ct) (rphase K z a b ! 0 + c)"
proof -
  obtain p0 p1 where ac: "acc = [p0, p1]" using acc by (auto simp: acc_is_def numeral_2_eq_2 length_Suc_conv)
  have p: "poly_is Q K psi prm EVALUATION p0 a" "poly_is Q K psi prm EVALUATION p1 b" using acc by (simp_all add: acc_is_def ac)
  have len: "length a = 2 ^ K" "length b = 2 ^ K" using poly_is_len [OF p(1)] poly_is_len [OF p(2)] by auto
  obtain s where s: "Poly_Transpose p0 = Inr s" "poly_is Q K psi prm EVALUATION s (rtrans K a)" using poly_is_Transpose [OF p(1)] by blast
  obtain p0' T1 where p0: "Poly_SetFormat arb s COEFFICIENT T = Inr (p0', T1)" "tables_ok Q K psi T1" "poly_is Q K psi prm COEFFICIENT p0' (rtrans K a)"
    using poly_is_SetFormat [OF s(2) T] by blast
  obtain p1' T2 where p1: "Poly_SetFormat arb p1 COEFFICIENT T1 = Inr (p1', T2)" "tables_ok Q K psi T2" "poly_is Q K psi prm COEFFICIENT p1' b"
    using poly_is_SetFormat [OF p(2) p0(2)] by blast
  obtain v where v: "m_values p0' = Some v" "holds_vector Q K v" "nv_abs v = rmod Q (rtrans K a)" using poly_is_coef [OF p0(3)] .
  obtain w where w: "m_values p1' = Some w" "holds_vector Q K w" "nv_abs w = rmod Q b" using poly_is_coef [OF p1(3)] .
  have vl: "length (m_data v) = 2 ^ K" "nv_wf v" "m_modulus v = Q" using v(2) by (simp_all add: holds_vector_def NV_GetLength_def)
  have wl: "length (m_data w) = 2 ^ K" "nv_wf w" "m_modulus w = Q" using w(2) by (simp_all add: holds_vector_def NV_GetLength_def)
  define x where "x = m_data w ! 0"
  have x: "x < Q" using nv_wf_nth [OF wl(2), of 0] wl by (simp add: x_def)
  have ux: "uint x = b ! 0 mod uint Q" using arg_cong [OF w(3), of "\<lambda>l. l ! 0"] wl(1) len(2) by (simp add: nv_abs_def x_def)
  let ?ct = "\<lparr>m_a = v, m_b = shift x\<rparr>"
  have 1: "acc_transpose dmp arb acc T = Inr ([p0', p1'], T2)"
    using s(1) p0(1) p1(1) dmp [OF p(1)] dmp [OF s(2)] by (simp add: acc_transpose_def ac elem_at_def)
  have 2: "acc_extract shift [p0', p1'] = Inr ?ct"
    using v(1) w(1) wl(1) by (simp add: acc_extract_def elem_at_def poly_get_def deref_def Poly_GetValues_def vec_get_nth x_def)
  have 3: "lwe_wf (2 ^ K) ?ct" "LWE_GetModulus ?ct = Q"
    using vl shift [OF x] by (simp_all add: lwe_wf_def LWE_GetModulus_def NV_GetModulus_def)
  have "rcong (uint Q) (dot (nv_abs v) z) (dot (rtrans K a) z)"
    using z by (intro dot_cong) (simp_all add: v(3))
  then have "rcong (uint Q) (uint (shift x) - dot (nv_abs v) z) (uint x + c - rmul K a z ! 0)"
    unfolding dot_rtrans [OF z] by (intro rcong_diff conjunct2 [OF shift [OF x]])
  also have "rcong (uint Q) (uint x + c - rmul K a z ! 0) (b ! 0 + c - rmul K a z ! 0)" unfolding ux by (intro rcong_diff rcong_add) auto
  also have "b ! 0 + c - rmul K a z ! 0 = rphase K z a b ! 0 + c" using len by (simp add: rphase_def)
  finally have 4: "rcong (uint Q) (lwe_phase z ?ct) (rphase K z a b ! 0 + c)" by (simp add: lwe_phase_def 3(2) LWE_GetModulus_def NV_GetModulus_def vl(3))
  show thesis by (rule that [OF 1 p1(2) 2 3 4])
qed

section \<open>The test polynomial\<close>

lemma sparse_vector_correct:
  assumes entry: "\<And>j. j < count \<Longrightarrow> entry j = Inr (x j) \<and> x j < Q" and size: "0 < factor" "count * factor \<le> N" and Q: "Q \<noteq> 0" "GetMSB Q \<le> MAX_MODULUS_SIZE"
  shows "\<exists>v. sparse_vector N Q count factor entry = Inr v \<and> nv_wf v \<and> m_modulus v = Q \<and> length (m_data v) = N
    \<and> (\<forall>j<count. m_data v ! (j * factor) = x j)"
proof -
  let ?v = "\<lparr>m_data = replicate N 0, m_modulus = Q\<rparr>"
  have new: "NV_new N Q = Inr ?v" using Q(2) by (simp add: NV_new_def NV_SetModulus_def NV_empty_def)
  have place: "j * factor < N" if "j < count" for j
  proof -
    have "j * factor + factor \<le> count * factor" using mult_le_mono1 [of "Suc j" count factor] that by simp
    then show ?thesis using size by simp
  qed
  have "\<exists>r. res_range 0 count (\<lambda>j m. res_bind (entry j) (\<lambda>x. vec_set m (j * factor) x)) ?v = Inr r \<and> m_modulus r = m_modulus ?v
    \<and> NV_GetLength r = NV_GetLength ?v \<and> (\<forall>j. 0 \<le> j \<and> j < count \<longrightarrow> m_data r ! (j * factor) = x j)
    \<and> (\<forall>i. i \<notin> (\<lambda>j. j * factor) ` {0..<count} \<longrightarrow> m_data r ! i = m_data ?v ! i)"
    by (rule res_range_scatter) (use entry place size(1) in \<open>auto simp: inj_on_def NV_GetLength_def\<close>)
  then obtain r where r: "res_range 0 count (\<lambda>j m. res_bind (entry j) (\<lambda>x. vec_set m (j * factor) x)) ?v = Inr r" "m_modulus r = Q"
      "length (m_data r) = N" "\<And>j. j < count \<Longrightarrow> m_data r ! (j * factor) = x j"
      "\<And>i. i \<notin> (\<lambda>j. j * factor) ` {0..<count} \<Longrightarrow> m_data r ! i = replicate N 0 ! i"
    by (auto simp: NV_GetLength_def)
  have "m_data r ! i < Q" if "i < N" for i
  proof (cases "i \<in> (\<lambda>j. j * factor) ` {0..<count}")
    case True
    then show ?thesis using r(4) entry by auto
  next
    case False
    then show ?thesis using r(5) [OF False] that Q(1) by (simp add: word_greater_zero_iff)
  qed
  then have "nv_wf r" using r(2,3) Q by (simp add: nv_wf_def list_all_length)
  then show ?thesis using new r by (auto simp: sparse_vector_def)
qed

lemma rphase_zero: "length m = 2 ^ K \<Longrightarrow> rphase K z (rzero K) m = m"
  by (intro nth_equalityI) (simp_all add: rphase_def negacyclic_def sum.neutral)

lemma acc_start_correct:
  assumes ok: "ring_ok Q K psi prm" and T: "tables_ok Q K psi T" and m: "nv_wf m" "m_modulus m = Q" "length (m_data m) = 2 ^ K"
  shows "\<exists>acc T'. acc_start arb prm m T = Inr (acc, T') \<and> tables_ok Q K psi T' \<and> acc_is Q K psi prm acc (rzero K) (nv_abs m)"
proof -
  note d = ring_ok_dest [OF ok]
  have psi: "rootOfUnity prm \<noteq> 0" using primitive_root_proper [OF d(1)] ok by (simp add: ring_ok_def ring_params_def)
  obtain p0 where p0: "Poly_new prm EVALUATION True = Inr p0" "poly_is Q K psi prm EVALUATION p0 (rzero K)" using poly_is_new [OF ok] by blast
  let ?p = "\<lparr>m_values = Some m, m_format = COEFFICIENT, m_params = prm\<rparr>"
  have abs: "nv_abs m = rmod Q (nv_abs m)"
    using m(1,2) by (intro nth_equalityI) (auto simp: nv_abs_def nv_wf_def list_all_length word_less_def)
  have p: "poly_is Q K psi prm COEFFICIENT ?p (nv_abs m)"
    using m by (intro poly_isI_coef ok abs) (simp_all add: holds_vector_def NV_GetLength_def nv_abs_def)
  obtain p1 T1 where p1: "Poly_SetFormat arb ?p EVALUATION T = Inr (p1, T1)" "tables_ok Q K psi T1" "poly_is Q K psi prm EVALUATION p1 (nv_abs m)"
    using poly_is_SetFormat [OF p T] by blast
  have "acc_start arb prm m T = Inr ([p0, p1], T1)"
    using p0(1) p1(1) psi m d(5,6) by (simp add: acc_start_def Poly_new_def Poly_SetValues_def NV_GetLength_def NV_GetModulus_def)
  moreover have "acc_is Q K psi prm [p0, p1] (rzero K) (nv_abs m)" using p0(2) p1(3) by (simp add: acc_is_def)
  ultimately show ?thesis using p1(2) by blast
qed

lemma constant_rotated:
  "rmul K (xrot K (- w)) c ! 0 = (if nat (w mod 2 ^ Suc K) < 2 ^ K then c ! nat (w mod 2 ^ Suc K) else - (c ! (nat (w mod 2 ^ Suc K) - 2 ^ K)))"
proof -
  define r where "r = nat (w mod 2 ^ Suc K)"
  have r: "r < 2 * 2 ^ K" "w mod 2 ^ Suc K = int r" by (simp_all add: r_def nat_less_iff)
  have d: "2 * 2 ^ K - int r = int (2 * 2 ^ K - r)" using r(1) by (simp add: of_nat_diff)
  have e: "nat ((- w) mod 2 ^ Suc K) = (if r = 0 then 0 else 2 * 2 ^ K - r)"
    unfolding zmod_zminus1_eq_if r(2) by (simp add: d)
  have "(2 * 2 ^ K - r) div 2 ^ K = 1 \<and> (2 * 2 ^ K - r) mod 2 ^ K = 2 ^ K - r" if "0 < r" "r < 2 ^ K"
    using that by (intro conjI div_nat_eqI, simp_all) (simp add: mod_if)
  moreover have "(2 * 2 ^ K - r) div 2 ^ K = 0 \<and> (2 * 2 ^ K - r) mod 2 ^ K = 2 * 2 ^ K - r" if "2 ^ K < r"
    using that r(1) by simp
  moreover have "(2 * 2 ^ K - (2 ^ K :: nat)) div 2 ^ K = 1 \<and> (2 * 2 ^ K - (2 ^ K :: nat)) mod 2 ^ K = 0" by simp
  ultimately show ?thesis
    unfolding xrot_def nth_rmul_xpow [OF zero_less_power [OF zero_less_numeral]] e r_def [symmetric] using r(1)
    by (cases "r = 0"; cases "r < 2 ^ K"; cases "r = 2 ^ K") auto
qed

text \<open>
  The test polynomial holds \<open>F (b - j)\<close> at the place \<open>j factor\<close>, for \<open>j\<close> below half the modulus. Rotated by \<open>- factor u\<close>, its constant
  coefficient is \<open>F (b - u)\<close>, or \<open>- F (b - u + q / 2)\<close>.
\<close>

lemma test_constant:
  assumes c: "\<And>j. j < h \<Longrightarrow> c ! (j * k) = F ((b - int j) mod (2 * int h))" and size: "h * k = 2 ^ K"
  shows "rmul K (xrot K (- (int k * u))) c ! 0 = (if u mod (2 * int h) < int h then F ((b - u) mod (2 * int h)) else - F ((b - u + int h) mod (2 * int h)))"
proof -
  define t where "t = nat (u mod (2 * int h))"
  have pos: "0 < h" "0 < k" using size by (auto intro: Nat.gr0I)
  have t: "t < 2 * h" "u mod (2 * int h) = int t" using pos by (simp_all add: t_def nat_less_iff)
  have "(2 :: int) ^ Suc K = int k * (2 * int h)" using size by (simp add: mult.commute of_nat_mult [symmetric] del: of_nat_mult)
  then have "int k * u mod 2 ^ Suc K = int k * int t" by (simp only: mult_mod_right [symmetric] t(2))
  then have w: "nat (int k * u mod 2 ^ Suc K) = t * k" by (simp add: nat_mult_distrib mult.commute)
  have lt: "t * k < 2 ^ K \<longleftrightarrow> t < h" unfolding size [symmetric] using pos by simp
  have sub: "t * k - 2 ^ K = (t - h) * k" unfolding size [symmetric] by (simp add: diff_mult_distrib)
  have m: "(b - int t) mod (2 * int h) = (b - u) mod (2 * int h)" unfolding t(2) [symmetric] by (simp add: mod_simps)
  have m': "(b - int (t - h)) mod (2 * int h) = (b - u + int h) mod (2 * int h)" if "\<not> t < h"
  proof -
    have "(b - int (t - h)) mod (2 * int h) = (b - u mod (2 * int h) + int h) mod (2 * int h)" using that by (simp only: t(2)) (simp add: of_nat_diff algebra_simps)
    also have "\<dots> = (b - u + int h) mod (2 * int h)" by (intro mod_add_cong mod_diff_cong) simp_all
    finally show ?thesis .
  qed
  show ?thesis
    unfolding constant_rotated w lt sub t(2) of_nat_less_iff using c [of t] c [of "t - h"] m m' t(1) by auto
qed

text \<open>A function that changes its sign after half a period, modulo \<open>Q\<close> and up to \<open>sl\<close>.\<close>

definition negacyclic_fun :: "int \<Rightarrow> int \<Rightarrow> int \<Rightarrow> (int \<Rightarrow> int) \<Rightarrow> bool" where
  "negacyclic_fun Q h sl F \<longleftrightarrow> (\<forall>t. 0 \<le> t \<and> t < 2 * h \<longrightarrow> (\<exists>s. \<bar>s\<bar> \<le> sl \<and> rcong Q (- F ((t + h) mod (2 * h))) (F t + s)))"

lemma negacyclic_constant:
  assumes c: "\<And>j. j < h \<Longrightarrow> c ! (j * k) = F ((b - int j) mod (2 * int h))" and size: "h * k = 2 ^ K"
    and F: "negacyclic_fun Q (int h) sl F" "0 \<le> sl"
  shows "\<exists>s. \<bar>s\<bar> \<le> sl \<and> rcong Q (rmul K (xrot K (- (int k * u))) c ! 0) (F ((b - u) mod (2 * int h)) + s)"
proof (cases "u mod (2 * int h) < int h")
  case True
  then show ?thesis using test_constant [OF c size, of u] F(2) by (intro exI [of _ 0]) simp
next
  case False
  have h: "0 < h" using size by (auto intro: Nat.gr0I)
  have "((b - u) mod (2 * int h) + int h) mod (2 * int h) = (b - u + int h) mod (2 * int h)" by (simp add: mod_simps)
  moreover obtain s where "\<bar>s\<bar> \<le> sl" "rcong Q (- F (((b - u) mod (2 * int h) + int h) mod (2 * int h))) (F ((b - u) mod (2 * int h)) + s)"
    using F(1) h unfolding negacyclic_fun_def by (metis pos_mod_bound pos_mod_sign of_nat_0_less_iff zero_less_mult_iff zero_less_numeral)
  ultimately show ?thesis using test_constant [OF c size, of u] False by auto
qed

section \<open>The contract of an accumulator\<close>

text \<open>
  What bootstrapping relies on: with a key that is \<open>ready\<close> for the ring secret \<open>z\<close>, the LWE secret \<open>key\<close> and vectors of the modulus \<open>md\<close>,
  the accumulation rotates the phase by the inner product with the secret, up to a noise of \<open>\<beta>\<close>.
\<close>

locale accumulator =
  fixes evalacc :: "arb_transform \<Rightarrow> RingGSWCryptoParams \<Rightarrow> 'k \<Rightarrow> Poly list \<Rightarrow> NativeVector \<Rightarrow> FTTTables \<Rightarrow> (Poly list \<times> FTTTables) result"
    and ready :: "NativeInt \<Rightarrow> nat \<Rightarrow> NativeInt \<Rightarrow> RingGSWCryptoParams \<Rightarrow> int list \<Rightarrow> int list \<Rightarrow> NativeInt \<Rightarrow> int \<Rightarrow> 'k \<Rightarrow> bool"
  assumes ready_ring: "ready Q K psi params z key md \<beta> ek \<Longrightarrow> ring_ok Q K psi (rg_polyParams params) \<and> length z = 2 ^ K"
    and rotates: "ready Q K psi params z key md \<beta> ek \<Longrightarrow> nv_wf v \<Longrightarrow> m_modulus v = md \<Longrightarrow> length (m_data v) = length key \<Longrightarrow> uint md dvd 2 ^ Suc K \<Longrightarrow>
      tables_ok Q K psi T \<Longrightarrow> acc_is Q K psi (rg_polyParams params) acc a b \<Longrightarrow>
      \<exists>acc' T'. evalacc arb params ek acc v T = Inr (acc', T') \<and> tables_ok Q K psi T'
        \<and> rotated Q K psi (rg_polyParams params) z (- (2 ^ Suc K div uint md) * dot (nv_abs v) key) (rphase K z a b) \<beta> acc'"
begin

lemma bootstraps:
  assumes ready: "ready Q K psi params z key md \<beta> ek" and T: "tables_ok Q K psi T"
    and ct: "lwe_wf (length key) ct" "LWE_GetModulus ct = md" and md: "uint md = 2 * int h" "h * k = 2 ^ K"
    and entry: "\<And>j. j < h \<Longrightarrow> entry j = Inr (x j) \<and> x j < Q \<and> uint (x j) = F ((uint (m_b ct) - int j) mod (2 * int h))"
    and F: "negacyclic_fun (uint Q) (int h) sl F" "0 \<le> sl"
    and dmp: "\<And>p c. poly_is Q K psi (rg_polyParams params) EVALUATION p c \<Longrightarrow> dmp p = Inr ()"
    and shift: "\<And>x. x < Q \<Longrightarrow> shift x < Q \<and> rcong (uint Q) (uint (shift x)) (uint x + c)"
  obtains m acc0 T0 acc1 T1 acc2 T2 ctE e where "sparse_vector (2 ^ K) Q h k entry = Inr m" "length (m_data m) = 2 ^ K"
    "acc_start arb (rg_polyParams params) m T = Inr (acc0, T0)" "evalacc arb params ek acc0 (m_a ct) T0 = Inr (acc1, T1)"
    "acc_transpose dmp arb acc1 T1 = Inr (acc2, T2)" "tables_ok Q K psi T2" "acc_extract shift acc2 = Inr ctE"
    "lwe_wf (2 ^ K) ctE" "LWE_GetModulus ctE = Q" "\<bar>e\<bar> \<le> \<beta> + sl" "rcong (uint Q) (lwe_phase z ctE) (F (lwe_phase key ct) + c + e)"
proof -
  have ok: "ring_ok Q K psi (rg_polyParams params)" and z: "length z = 2 ^ K" using ready_ring [OF ready] by auto
  note d = ring_ok_dest [OF ok]
  have k: "0 < k" using md(2) by (auto intro: Nat.gr0I)
  have a: "nv_wf (m_a ct)" "m_modulus (m_a ct) = md" "length (m_data (m_a ct)) = length key"
    using ct by (simp_all add: lwe_wf_def LWE_GetModulus_def NV_GetModulus_def)
  have Nk: "(2 :: int) ^ Suc K = uint md * int k" using md(2) by (simp add: md(1) of_nat_mult [symmetric] del: of_nat_mult)
  have mdpos: "0 < uint md" using md by (auto intro: Nat.gr0I)
  obtain m where m: "sparse_vector (2 ^ K) Q h k entry = Inr m" "nv_wf m" "m_modulus m = Q" "length (m_data m) = 2 ^ K" "\<And>j. j < h \<Longrightarrow> m_data m ! (j * k) = x j"
    using sparse_vector_correct [of h entry x Q k "2 ^ K"] entry k md(2) d(2,7) by auto
  obtain acc0 T0 where s: "acc_start arb (rg_polyParams params) m T = Inr (acc0, T0)" "tables_ok Q K psi T0" "acc_is Q K psi (rg_polyParams params) acc0 (rzero K) (nv_abs m)"
    using acc_start_correct [OF ok T m(2-4)] by blast
  obtain acc1 T1 where r: "evalacc arb params ek acc0 (m_a ct) T0 = Inr (acc1, T1)" "tables_ok Q K psi T1"
      "rotated Q K psi (rg_polyParams params) z (- (2 ^ Suc K div uint md) * dot (nv_abs (m_a ct)) key) (rphase K z (rzero K) (nv_abs m)) \<beta> acc1"
    using rotates [OF ready a dvdI [OF Nk] s(2,3), of arb] by blast
  obtain a1 b1 \<nu> where p: "acc_is Q K psi (rg_polyParams params) acc1 a1 b1" "length \<nu> = 2 ^ K" "rbound \<beta> \<nu>"
      "ring_cong Q K (rphase K z a1 b1) (radd (rmul K (xrot K (- (int k * dot (nv_abs (m_a ct)) key))) (nv_abs m)) \<nu>)"
    using r(3) m(4) mdpos Nk unfolding rotated_def by (auto simp: rphase_zero nv_abs_def)
  obtain acc2 T2 ctE where e: "acc_transpose dmp arb acc1 T1 = Inr (acc2, T2)" "tables_ok Q K psi T2" "acc_extract shift acc2 = Inr ctE"
    "lwe_wf (2 ^ K) ctE" "LWE_GetModulus ctE = Q" "rcong (uint Q) (lwe_phase z ctE) (rphase K z a1 b1 ! 0 + c)"
    by (rule extract_phase [where dmp = dmp and shift = shift and c = c and arb = arb, OF p(1) r(2) z dmp shift])
  have cj: "nv_abs m ! (j * k) = F ((uint (m_b ct) - int j) mod (2 * int h))" if "j < h" for j
  proof -
    have "j * k < h * k" using that k by simp
    then show ?thesis using m(4,5) entry [OF that] that by (simp add: nv_abs_def md(2))
  qed
  obtain sv where sv: "\<bar>sv\<bar> \<le> sl" "rcong (uint Q) (rmul K (xrot K (- (int k * dot (nv_abs (m_a ct)) key))) (nv_abs m) ! 0)
      (F ((uint (m_b ct) - dot (nv_abs (m_a ct)) key) mod (2 * int h)) + sv)"
    using negacyclic_constant [OF cj md(2) F] by blast
  have ph: "(uint (m_b ct) - dot (nv_abs (m_a ct)) key) mod (2 * int h) = lwe_phase key ct" by (simp add: lwe_phase_def ct(2) md(1))
  have "rcong (uint Q) (rphase K z a1 b1 ! 0 + c) (F (lwe_phase key ct) + sv + \<nu> ! 0 + c)"
  proof -
    have "rcong (uint Q) (rphase K z a1 b1 ! 0) (rmul K (xrot K (- (int k * dot (nv_abs (m_a ct)) key))) (nv_abs m) ! 0 + \<nu> ! 0)"
      using p(4,2) by (auto simp: ring_cong_nth)
    also have "rcong (uint Q) \<dots> (F (lwe_phase key ct) + sv + \<nu> ! 0)" using sv(2) unfolding ph by (intro rcong_add) auto
    finally show ?thesis by (intro rcong_add) auto
  qed
  then have "rcong (uint Q) (lwe_phase z ctE) (F (lwe_phase key ct) + c + (\<nu> ! 0 + sv))" using rcong_trans [OF e(6)] by (simp add: algebra_simps)
  moreover have "\<bar>\<nu> ! 0 + sv\<bar> \<le> \<beta> + sl"
  proof -
    have "\<bar>\<nu> ! 0\<bar> \<le> \<beta>" using p(2,3) by (simp add: rbound_nth)
    then show ?thesis using sv(1) abs_triangle_ineq [of "\<nu> ! 0" sv] by linarith
  qed
  ultimately show thesis using that [OF m(1,4) s(1) r(1) e(1-5)] by blast
qed

end

definition cggi_ready :: "NativeInt \<Rightarrow> nat \<Rightarrow> NativeInt \<Rightarrow> RingGSWCryptoParams \<Rightarrow> int list \<Rightarrow> int list \<Rightarrow> NativeInt \<Rightarrow> int \<Rightarrow> (RingGSWEvalKey \<times> RingGSWEvalKey) list \<Rightarrow> bool" where
  "cggi_ready Q K psi params z key md \<beta> ek \<longleftrightarrow> (\<exists>g D E. rgsw_params Q K psi g D params \<and> monomials_ok Q K psi (rg_polyParams params) (rg_monomials params)
     \<and> 10 \<le> K \<and> 4 \<le> D \<and> length z = 2 ^ K \<and> cggi_key Q K psi (rg_polyParams params) g D E z key ek
     \<and> \<beta> = int (length key) * (4 * int D * 2 ^ K * 2 ^ g * E))"

definition dm_ready :: "NativeInt \<Rightarrow> nat \<Rightarrow> NativeInt \<Rightarrow> RingGSWCryptoParams \<Rightarrow> int list \<Rightarrow> int list \<Rightarrow> NativeInt \<Rightarrow> int \<Rightarrow> (nat \<times> nat \<times> nat \<Rightarrow> RingGSWEvalKey option) \<Rightarrow> bool" where
  "dm_ready Q K psi params z key md \<beta> ek \<longleftrightarrow> (\<exists>g D E Z R cnt. rgsw_params Q K psi g D params \<and> rbound Z z \<and> length z = 2 ^ K \<and> 0 \<le> E \<and> 0 \<le> Z
     \<and> unat (rg_baseR params) = R \<and> 0 < R \<and> length (rg_digitsR params) = cnt \<and> unat (rg_q params) \<le> R ^ cnt \<and> rg_q params = md
     \<and> dm_key Q K psi (rg_polyParams params) g D E z R cnt (2 ^ Suc K div uint md) key ek
     \<and> \<beta> = int (length key * cnt) * (2 ^ K * (2 ^ (g - 1) * (2 * int D * E + Z))))"

interpretation CGGI: accumulator EvalAcc_CGGI cggi_ready
proof
  fix Q K psi params z key md \<beta> ek
  assume "cggi_ready Q K psi params z key md \<beta> ek"
  then show "ring_ok Q K psi (rg_polyParams params) \<and> length z = 2 ^ K" by (auto simp: cggi_ready_def rgsw_params_def)
next
  fix Q K psi params z key md \<beta> ek v T acc a b arb
  assume "cggi_ready Q K psi params z key md \<beta> ek" and v: "nv_wf v" "m_modulus v = md" "length (m_data v) = length key" "uint md dvd 2 ^ Suc K"
    and T: "tables_ok Q K psi T" and acc: "acc_is Q K psi (rg_polyParams params) acc a b"
  then obtain g D E where r: "rgsw_params Q K psi g D params" "monomials_ok Q K psi (rg_polyParams params) (rg_monomials params)"
      "10 \<le> K" "4 \<le> D" "length z = 2 ^ K" "cggi_key Q K psi (rg_polyParams params) g D E z key ek" "\<beta> = int (length key) * (4 * int D * 2 ^ K * 2 ^ g * E)"
    by (auto simp: cggi_ready_def)
  show "\<exists>acc' T'. EvalAcc_CGGI arb params ek acc v T = Inr (acc', T') \<and> tables_ok Q K psi T'
      \<and> rotated Q K psi (rg_polyParams params) z (- (2 ^ Suc K div uint md) * dot (nv_abs v) key) (rphase K z a b) \<beta> acc'"
    using EvalAcc_CGGI_correct [OF r(1-4) T r(5) acc v(1,3) _ r(6)] v(2,4) by (simp add: r(7))
qed

interpretation DM: accumulator EvalAcc_DM dm_ready
proof
  fix Q K psi params z key md \<beta> ek
  assume "dm_ready Q K psi params z key md \<beta> ek"
  then show "ring_ok Q K psi (rg_polyParams params) \<and> length z = 2 ^ K" by (auto simp: dm_ready_def rgsw_params_def)
next
  fix Q K psi params z key md \<beta> ek v T acc a b arb
  assume "dm_ready Q K psi params z key md \<beta> ek" and v: "nv_wf v" "m_modulus v = md" "length (m_data v) = length key" "uint md dvd 2 ^ Suc K"
    and T: "tables_ok Q K psi T" and acc: "acc_is Q K psi (rg_polyParams params) acc a b"
  then obtain g D E Z R cnt where r: "rgsw_params Q K psi g D params" "rbound Z z" "length z = 2 ^ K" "0 \<le> E" "0 \<le> Z"
      "unat (rg_baseR params) = R" "0 < R" "length (rg_digitsR params) = cnt" "unat (rg_q params) \<le> R ^ cnt" "rg_q params = md"
      "dm_key Q K psi (rg_polyParams params) g D E z R cnt (2 ^ Suc K div uint md) key ek"
      "\<beta> = int (length key * cnt) * (2 ^ K * (2 ^ (g - 1) * (2 * int D * E + Z)))"
    unfolding dm_ready_def by blast
  have md: "uint (rg_q params) dvd 2 ^ Suc K" "rg_q params \<noteq> 0" using v by (auto simp: r(10) nv_wf_def)
  show "\<exists>acc' T'. EvalAcc_DM arb params ek acc v T = Inr (acc', T') \<and> tables_ok Q K psi T'
      \<and> rotated Q K psi (rg_polyParams params) z (- (2 ^ Suc K div uint md) * dot (nv_abs v) key) (rphase K z a b) \<beta> acc'"
    using EvalAcc_DM_correct [OF r(1) T r(2-9) acc md v(3) r(11) [folded r(10)]] unfolding r(10,12) .
qed

text \<open>The accumulator a scheme object dispatches to.\<close>

definition acc_ready :: "NativeInt \<Rightarrow> nat \<Rightarrow> NativeInt \<Rightarrow> RingGSWCryptoParams \<Rightarrow> int list \<Rightarrow> int list \<Rightarrow> NativeInt \<Rightarrow> int \<Rightarrow> BinFHEScheme \<times> RingGSWACCKey \<Rightarrow> bool" where
  "acc_ready Q K psi params z key md \<beta> se \<longleftrightarrow>
     ACCscheme (fst se) = Some GINX \<and> cggi_ready Q K psi params z key md \<beta> (ACC_pairs (snd se))
     \<or> ACCscheme (fst se) = Some AP \<and> dm_ready Q K psi params z key md \<beta> (ACC_cell (snd se))"

interpretation ACC: accumulator "\<lambda>arb params se. ACC_EvalAcc arb (fst se) params (snd se)" acc_ready
proof
  fix Q K psi params z key md \<beta> se
  assume "acc_ready Q K psi params z key md \<beta> se"
  then show "ring_ok Q K psi (rg_polyParams params) \<and> length z = 2 ^ K" unfolding acc_ready_def using CGGI.ready_ring DM.ready_ring by blast
next
  fix Q K psi params z key md \<beta> se v T acc a b arb
  assume "acc_ready Q K psi params z key md \<beta> se" and v: "nv_wf v" "m_modulus v = md" "length (m_data v) = length key" "uint md dvd 2 ^ Suc K"
    "tables_ok Q K psi T" "acc_is Q K psi (rg_polyParams params) acc a b"
  then consider "ACCscheme (fst se) = Some GINX" "cggi_ready Q K psi params z key md \<beta> (ACC_pairs (snd se))"
    | "ACCscheme (fst se) = Some AP" "dm_ready Q K psi params z key md \<beta> (ACC_cell (snd se))" by (auto simp: acc_ready_def)
  then show "\<exists>acc' T'. ACC_EvalAcc arb (fst se) params (snd se) acc v T = Inr (acc', T') \<and> tables_ok Q K psi T'
      \<and> rotated Q K psi (rg_polyParams params) z (- (2 ^ Suc K div uint md) * dot (nv_abs v) key) (rphase K z a b) \<beta> acc'"
  proof cases
    case 1
    then show ?thesis using CGGI.rotates [OF 1(2) v] by (simp only: ACC_EvalAcc_def option.case BINFHE_METHOD.case)
  next
    case 2
    then show ?thesis using DM.rotates [OF 2(2) v] by (simp only: ACC_EvalAcc_def option.case BINFHE_METHOD.case)
  qed
qed

section \<open>Switching down\<close>

text \<open>What key switching relies on: the key switches from \<open>keyN\<close> to \<open>key\<close>, and its noise is at most \<open>E\<close>.\<close>

definition ks_ready :: "(NativeInt \<Rightarrow> usint \<Rightarrow> nat) \<Rightarrow> LWECryptoParams \<Rightarrow> int list \<Rightarrow> int list \<Rightarrow> int \<Rightarrow> LWESwitchingKey option \<Rightarrow> bool" where
  "ks_ready dcount prm key keyN E ks \<longleftrightarrow> unat (m_n prm) = length key \<and> unat (m_N prm) = length keyN \<and> m_baseKS prm \<noteq> 0 \<and> m_qKS prm \<noteq> 0
     \<and> GetMSB (m_qKS prm) \<le> MAX_MODULUS_SIZE \<and> unat (m_qKS prm) \<le> unat (m_baseKS prm) ^ dcount (m_qKS prm) (m_baseKS prm)
     \<and> (\<exists>K e. ks = Some K \<and> ks_key (m_qKS prm) key keyN (unat (m_baseKS prm)) (dcount (m_qKS prm) (m_baseKS prm)) e K \<and> (\<forall>i j k. \<bar>e i j k\<bar> \<le> E))"

text \<open>The noise of the two modulus switchings and of the key switching, times \<open>2 Q qKS\<close>.\<close>

definition switch_noise :: "int \<Rightarrow> int \<Rightarrow> int \<Rightarrow> int list \<Rightarrow> int list \<Rightarrow> nat \<Rightarrow> int \<Rightarrow> int" where
  "switch_noise q qKS Q key keyN D E =
     q * Q * (1 + (\<Sum>s\<leftarrow>keyN. \<bar>s\<bar>)) + 2 * (q * Q * (int (length keyN * D) * E)) + Q * qKS * (1 + (\<Sum>s\<leftarrow>key. \<bar>s\<bar>))"

lemma abs_sum_bound:
  assumes "\<And>i. i < n \<Longrightarrow> \<bar>f i\<bar> \<le> (b :: int)"
  shows "\<bar>\<Sum>i<n. f i\<bar> \<le> int n * b"
proof -
  have "\<bar>\<Sum>i<n. f i\<bar> \<le> (\<Sum>i<n. \<bar>f i\<bar>)" by (rule sum_abs)
  also have "\<dots> \<le> (\<Sum>i<n. b)" using assms by (intro sum_mono) auto
  finally show ?thesis by simp
qed

lemma rcong_scale_left: "rcong q x y \<Longrightarrow> rcong (c * q) (c * x) (c * y)"
  using rcong_scale [of q x y c] by (simp only: mult.commute [of q])

lemma abs_sum3: "2 * \<bar>a\<bar> \<le> (A :: int) \<Longrightarrow> 2 * \<bar>b\<bar> \<le> B \<Longrightarrow> 2 * \<bar>c\<bar> \<le> C \<Longrightarrow> 2 * \<bar>a + b + c\<bar> \<le> A + B + C"
  using abs_triangle_ineq [of "a + b" c] abs_triangle_ineq [of a b] by linarith

lemma abs_scale: "0 \<le> (c :: int) \<Longrightarrow> 2 * \<bar>d\<bar> \<le> A \<Longrightarrow> 2 * \<bar>c * d\<bar> \<le> c * A"
proof -
  assume c: "0 \<le> c" and d: "2 * \<bar>d\<bar> \<le> A"
  have "2 * \<bar>c * d\<bar> = c * (2 * \<bar>d\<bar>)" using c by (simp add: abs_mult)
  also have "\<dots> \<le> c * A" using c d by (rule mult_left_mono [rotated])
  finally show ?thesis .
qed

text \<open>The three steps composed; \<open>f0\<close> to \<open>f3\<close> are the phases on the way.\<close>

lemma compose_switch:
  fixes q p Q :: int
  assumes "rcong (p * Q) (Q * f1) (p * f0 + d1)" "rcong p f2 (f1 + d2)" "rcong (q * p) (p * f3) (q * f2 + d3)"
  shows "rcong (q * (Q * p)) (Q * p * f3) (q * p * f0 + (q * d1 + q * Q * d2 + Q * d3))"
proof -
  have 1: "rcong (q * (Q * p)) (q * (Q * f1)) (q * (p * f0 + d1))" using rcong_scale_left [OF assms(1), of q] by (simp only: mult.commute [of p Q])
  have 2: "rcong (q * (Q * p)) (q * Q * f2) (q * Q * (f1 + d2))" using rcong_scale_left [OF assms(2), of "q * Q"] by (simp only: mult.assoc)
  have 3: "rcong (q * (Q * p)) (Q * (p * f3)) (Q * (q * f2 + d3))" using rcong_scale_left [OF assms(3), of Q] by (simp only: mult.left_commute [of Q q p])
  have "rcong (q * (Q * p)) (Q * p * f3) (q * Q * f2 + Q * d3)" using 3 by (simp add: algebra_simps)
  also have "rcong (q * (Q * p)) \<dots> (q * Q * (f1 + d2) + Q * d3)" by (intro rcong_add 2 rcong_refl)
  also have "q * Q * (f1 + d2) + Q * d3 = q * (Q * f1) + (q * Q * d2 + Q * d3)" by (simp add: algebra_simps)
  also have "rcong (q * (Q * p)) \<dots> (q * (p * f0 + d1) + (q * Q * d2 + Q * d3))" by (intro rcong_add 1 rcong_refl)
  finally show ?thesis by (simp add: algebra_simps)
qed

lemma switch_down_phase:
  assumes ks: "ks_ready dcount prm key keyN E ks" and ct: "lwe_wf (length keyN) ct"
    and q: "q \<noteq> 0" "GetMSB q \<le> MAX_MODULUS_SIZE" "uint q * uint (m_qKS prm) \<le> 2 ^ 50" and Q: "uint (m_qKS prm) * uint (LWE_GetModulus ct) \<le> 2 ^ 50"
  defines "P \<equiv> uint (LWE_GetModulus ct) * uint (m_qKS prm)"
  shows "\<exists>ct' d. switch_down dcount prm ks q ct = Inr ct' \<and> lwe_wf (length key) ct' \<and> LWE_GetModulus ct' = q
    \<and> rcong (uint q * P) (P * lwe_phase key ct') (uint q * uint (m_qKS prm) * lwe_phase keyN ct + d)
    \<and> 2 * \<bar>d\<bar> \<le> switch_noise (uint q) (uint (m_qKS prm)) (uint (LWE_GetModulus ct)) key keyN (dcount (m_qKS prm) (m_baseKS prm)) E"
proof -
  let ?p = "m_qKS prm" and ?Q = "LWE_GetModulus ct" and ?B = "unat (m_baseKS prm)" and ?D = "dcount (m_qKS prm) (m_baseKS prm)"
  have n: "unat (m_n prm) = length key" "unat (m_N prm) = length keyN" "m_baseKS prm \<noteq> 0" "?p \<noteq> 0" "GetMSB ?p \<le> MAX_MODULUS_SIZE" "unat ?p \<le> ?B ^ ?D"
    using ks by (simp_all add: ks_ready_def)
  obtain K e where K: "ks = Some K" "ks_key ?p key keyN ?B ?D e K" "\<And>i j k. \<bar>e i j k\<bar> \<le> E" using ks by (auto simp: ks_ready_def)
  obtain ct1 d1 where c1: "LWE_ModSwitch ?p ct = Inr ct1" "lwe_wf (length keyN) ct1" "LWE_GetModulus ct1 = ?p"
      "rcong (uint ?p * uint ?Q) (uint ?Q * lwe_phase keyN ct1) (uint ?p * lwe_phase keyN ct + d1)" "2 * \<bar>d1\<bar> \<le> uint ?Q * (1 + (\<Sum>s\<leftarrow>keyN. \<bar>s\<bar>))"
    using ModSwitch_noise [OF ct n(4,5) Q] by blast
  define d2 where "d2 = - (\<Sum>i<length keyN. \<Sum>j<?D. e i (base_digit ?B (unat (m_data (m_a ct1) ! i)) j) j)"
  obtain ct2 where c2: "LWE_KeySwitch dcount prm K ct1 = Inr ct2" "lwe_wf (length key) ct2" "LWE_GetModulus ct2 = ?p"
      "rcong (uint ?p) (lwe_phase key ct2) (lwe_phase keyN ct1 + d2)"
    using KeySwitch_correct [where dcount = dcount, OF K(2) n(1-3,6) c1(2,3)] by (auto simp: d2_def)
  have "\<bar>\<Sum>i<length keyN. \<Sum>j<?D. e i (base_digit ?B (unat (m_data (m_a ct1) ! i)) j) j\<bar> \<le> int (length keyN) * (int ?D * E)"
    by (intro abs_sum_bound K(3))
  then have d2: "2 * \<bar>d2\<bar> \<le> 2 * (int (length keyN * ?D) * E)" by (simp add: d2_def mult.assoc)
  obtain ct3 d3 where c3: "LWE_ModSwitch q ct2 = Inr ct3" "lwe_wf (length key) ct3" "LWE_GetModulus ct3 = q"
      "rcong (uint q * uint ?p) (uint ?p * lwe_phase key ct3) (uint q * lwe_phase key ct2 + d3)" "2 * \<bar>d3\<bar> \<le> uint ?p * (1 + (\<Sum>s\<leftarrow>key. \<bar>s\<bar>))"
    using ModSwitch_noise [OF c2(2) q(1,2)] q(3) by (auto simp: c2(3))
  let ?d = "uint q * d1 + uint q * uint ?Q * d2 + uint ?Q * d3"
  have "rcong (uint q * P) (P * lwe_phase key ct3) (uint q * uint ?p * lwe_phase keyN ct + ?d)"
    unfolding P_def by (rule compose_switch [OF c1(4) c2(4) c3(4)])
  moreover have "2 * \<bar>?d\<bar> \<le> switch_noise (uint q) (uint ?p) (uint ?Q) key keyN ?D E"
    using abs_sum3 [OF abs_scale [OF _ c1(5), of "uint q"] abs_scale [OF _ d2, of "uint q * uint ?Q"] abs_scale [OF _ c3(5), of "uint ?Q"]]
    by (simp add: switch_noise_def algebra_simps)
  moreover have "switch_down dcount prm ks q ct = Inr ct3" using c1(1) c2(1) c3(1) by (simp add: switch_down_def K(1) deref_def)
  ultimately show ?thesis using c3(2,3) by blast
qed

end
