(* ===== verification/GateLogic.thy ===== *)
theory GateLogic
  imports Bootstrapping
begin

text \<open>
  The gates of \<open>binfhe-base-scheme.cpp\<close> compute their truth tables: the arithmetic of the ranges \<open>[q1, q2)\<close>, \<open>BootstrapGateCore\<close>, \<open>EvalBinGate\<close>, \<open>EvalNOT\<close>
  and \<open>Bootstrap\<close> on ciphertexts of bits, the key generation, and circuits of gates.
\<close>

section \<open>Gates: the arithmetic\<close>

fun gate_fun :: "BINGATE \<Rightarrow> bool \<Rightarrow> bool \<Rightarrow> bool" where
  "gate_fun OR_gate a b = (a \<or> b)" | "gate_fun AND_gate a b = (a \<and> b)"
| "gate_fun NOR_gate a b = (\<not> (a \<or> b))" | "gate_fun NAND_gate a b = (\<not> (a \<and> b))"
| "gate_fun XOR_FAST_gate a b = (a \<noteq> b)" | "gate_fun XNOR_FAST_gate a b = (a = b)"
| "gate_fun XOR_gate a b = (a \<noteq> b)" | "gate_fun XNOR_gate a b = (a = b)"

abbreviation fast_gate :: "BINGATE \<Rightarrow> bool" where
  "fast_gate gate \<equiv> gate = XOR_FAST_gate \<or> gate = XNOR_FAST_gate"

abbreviation double_gate :: "BINGATE \<Rightarrow> bool" where
  "double_gate gate \<equiv> gate = XOR_gate \<or> gate = XNOR_gate"

definition gate_lin :: "BINGATE \<Rightarrow> int \<Rightarrow> int \<Rightarrow> int" where
  "gate_lin gate x y = (if fast_gate gate then 2 * (x - y) else x + y)"

text \<open>The start \<open>q1\<close> of the range of a gate, in eighths of the modulus.\<close>

fun gate_eighth :: "BINGATE \<Rightarrow> int" where
  "gate_eighth OR_gate = 5" | "gate_eighth AND_gate = 7" | "gate_eighth NOR_gate = 1" | "gate_eighth NAND_gate = 3"
| "gate_eighth XOR_FAST_gate = 5" | "gate_eighth _ = 1"

text \<open>The entry of the test polynomial for the phase \<open>t\<close>.\<close>

definition gate_test :: "int \<Rightarrow> int \<Rightarrow> int \<Rightarrow> int \<Rightarrow> int" where
  "gate_test Q h q1 t = (if (t - q1) mod (2 * h) < h then Q - (Q div 8 + 1) else Q div 8 + 1)"

lemma half_turn: "0 < h \<Longrightarrow> (x + h) mod (2 * h) < h \<longleftrightarrow> \<not> x mod (2 * h) < (h :: int)"
proof -
  assume h: "0 < h"
  define r where "r = x mod (2 * h)"
  have r: "0 \<le> r" "r < 2 * h" using h by (simp_all add: r_def)
  have "(x + h) mod (2 * h) = (r + h) mod (2 * h)" by (simp add: r_def mod_simps)
  also have "\<dots> = (if r < h then r + h else r - h)"
  proof (cases "r < h")
    case True
    then show ?thesis using r by simp
  next
    case False
    have "(r + h) mod (2 * h) = (r - h + 1 * (2 * h)) mod (2 * h)" by (simp add: algebra_simps)
    also have "\<dots> = r - h" unfolding mod_mult_self1 using False r by simp
    finally show ?thesis using False by simp
  qed
  finally show ?thesis using r by (auto simp: r_def [symmetric])
qed

lemma gate_test_negacyclic: "0 < h \<Longrightarrow> negacyclic_fun Q h 0 (gate_test Q h q1)"
proof -
  assume h: "0 < h"
  have "rcong Q (- gate_test Q h q1 ((t + h) mod (2 * h))) (gate_test Q h q1 t)" for t
  proof -
    have "((t + h) mod (2 * h) - q1) mod (2 * h) = (t - q1 + h) mod (2 * h)" by (simp add: mod_simps algebra_simps)
    then have "gate_test Q h q1 ((t + h) mod (2 * h)) = Q - gate_test Q h q1 t" unfolding gate_test_def by (simp add: half_turn [OF h])
    then show ?thesis by (simp add: rcong_iff_dvd)
  qed
  then show ?thesis unfolding negacyclic_fun_def by (metis abs_zero add.right_neutral order_refl)
qed

text \<open>A noise within an eighth of the modulus around a quarter does not leave the half of the circle.\<close>

lemma eighth_range:
  assumes "0 < r" "- r \<le> e" "e < r" "odd (c :: int)"
  shows "(c * r + e) mod (8 * r) < 4 * r \<longleftrightarrow> (c - 1) mod 8 < 4"
proof -
  define m where "m = (c - 1) mod 8"
  have m: "0 \<le> m" "m < 8" "c = 8 * ((c - 1) div 8) + m + 1" by (simp_all add: m_def)
  have "even m" using assms(4) by (simp add: m_def mod_mod_cancel [of 2 8] even_iff_mod_2_eq_zero) (simp add: mod_diff_eq odd_iff_mod_2_eq_one)
  then have "m = 0 \<or> m = 2 \<or> m = 4 \<or> m = 6" using m(1,2) by presburger
  then have b: "0 \<le> m * r + (r + e)" "m * r + (r + e) < 8 * r" and t: "m * r + (r + e) < 4 * r \<longleftrightarrow> m < 4" using assms by auto
  have "c * r + e = m * r + (r + e) + (c - 1) div 8 * (8 * r)" by (subst m(3)) (simp add: algebra_simps)
  then have "(c * r + e) mod (8 * r) = m * r + (r + e)" using b by (simp only: mod_mult_self1) simp
  then show ?thesis by (simp only: t) (simp only: m_def)
qed

lemma gate_range:
  assumes "0 < r" "- r \<le> e" "e < r" "\<not> double_gate gate"
  shows "(gate_lin gate (of_bool a) (of_bool b) * (2 * r) + e - gate_eighth gate * r) mod (2 * (4 * r)) < 4 * r \<longleftrightarrow> \<not> gate_fun gate a b"
proof -
  define c where "c = 2 * gate_lin gate (of_bool a) (of_bool b) - gate_eighth gate"
  have eq: "gate_lin gate (of_bool a) (of_bool b) * (2 * r) + e - gate_eighth gate * r = c * r + e" by (simp add: c_def algebra_simps)
  have "odd c" using assms(4) by (cases gate) (simp_all add: c_def)
  moreover have "(c - 1) mod 8 < 4 \<longleftrightarrow> \<not> gate_fun gate a b"
    using assms(4) by (cases gate; cases a; cases b) (simp_all add: c_def gate_lin_def)
  ultimately show ?thesis using eighth_range [OF assms(1-3), of c] by (simp add: eq)
qed

text \<open>From the scaled phase back to a message and its noise.\<close>

lemma rcong_unscale:
  fixes q P :: int
  assumes "rcong (q * P) (P * x) (P * y + d)" "0 < P"
  obtains e where "rcong q x (y + e)" "P * e = d"
proof -
  obtain k where k: "P * x - (P * y + d) = q * P * k" using assms(1) by (auto simp: rcong_iff_dvd dvd_def)
  define e where "e = x - y - q * k"
  have "P * e = d" using k by (simp add: e_def algebra_simps)
  moreover have "rcong q x (y + e)" unfolding rcong_iff_dvd e_def by simp
  ultimately show thesis using that by blast
qed

lemma gate_decode:
  fixes q p Q :: int
  assumes size: "q = 8 * r" "0 < Q" "0 < p" "0 < r" and f0: "rcong Q f0 (of_bool bt * (2 * (Q div 8 + 1)) + e)"
    and f3: "rcong (q * (Q * p)) (Q * p * f3) (q * p * f0 + d)" and e: "\<bar>e\<bar> \<le> \<beta>" and d: "2 * \<bar>d\<bar> \<le> \<delta>"
  obtains e3 where "rcong q f3 (of_bool bt * (2 * r) + e3)" "2 * (Q * p) * \<bar>e3\<bar> \<le> 2 * q * p * (\<beta> + 2) + \<delta>"
proof -
  define s where "s = 8 - Q mod 8"
  have s: "8 * (Q div 8 + 1) = Q + s" "0 \<le> s" "s \<le> 8" using pos_mod_bound [of 8 Q] pos_mod_sign [of 8 Q] by (auto simp: s_def minus_mod_eq_mult_div [symmetric])
  have "rcong (q * p * Q) (q * p * f0) (q * p * (of_bool bt * (2 * (Q div 8 + 1)) + e))" by (rule rcong_scale_left [OF f0])
  then have "rcong (q * (Q * p)) (q * p * f0) (q * p * (of_bool bt * (2 * (Q div 8 + 1)) + e))" by (simp only: ac_simps)
  from rcong_trans [OF f3 rcong_add [OF this rcong_refl]]
  have 1: "rcong (q * (Q * p)) (Q * p * f3) (q * p * (of_bool bt * (2 * (Q div 8 + 1)) + e) + d)" .
  have "q * p * (of_bool bt * (2 * (Q div 8 + 1)) + e) + d = 2 * r * p * (of_bool bt * (8 * (Q div 8 + 1))) + q * p * e + d"
    by (simp add: size(1) algebra_simps)
  also have "\<dots> = Q * p * (of_bool bt * (2 * r)) + (2 * r * p * of_bool bt * s + q * p * e + d)" unfolding s(1) by (simp add: algebra_simps)
  finally have 2: "rcong (q * (Q * p)) (Q * p * f3) (Q * p * (of_bool bt * (2 * r)) + (2 * r * p * of_bool bt * s + q * p * e + d))" using 1 by (simp only:)
  obtain e3 where e3: "rcong q f3 (of_bool bt * (2 * r) + e3)" "Q * p * e3 = 2 * r * p * of_bool bt * s + q * p * e + d"
    using rcong_unscale [OF 2] size by auto
  have "2 * \<bar>2 * r * p * of_bool bt * s + q * p * e + d\<bar> \<le> 2 * (2 * q * p) + 2 * (q * p * \<beta>) + \<delta>"
  proof (rule abs_sum3 [OF _ _ d])
    have "r * p * s \<le> r * p * 8" using s size by (intro mult_left_mono) auto
    then show "2 * \<bar>2 * r * p * of_bool bt * s\<bar> \<le> 2 * (2 * q * p)" using size s(2) by (cases bt) (simp_all add: abs_mult)
    have "q * p * \<bar>e\<bar> \<le> q * p * \<beta>" using e size by (intro mult_left_mono) auto
    then show "2 * \<bar>q * p * e\<bar> \<le> 2 * (q * p * \<beta>)" using size by (simp add: abs_mult)
  qed
  moreover have "2 * (Q * p) * \<bar>e3\<bar> = 2 * \<bar>Q * p * e3\<bar>" using size by (simp add: abs_mult)
  ultimately have "2 * (Q * p) * \<bar>e3\<bar> \<le> 2 * q * p * (\<beta> + 2) + \<delta>" unfolding e3(2) by (simp add: algebra_simps)
  then show thesis using that e3(1) by blast
qed

section \<open>Gates: the code\<close>

lemma boot_sizes:
  assumes N: "N = of_nat (2 ^ K)" "K \<le> 24" and q: "uint (q :: NativeInt) = 2 * int h" "h * k = 2 ^ K"
  shows "q \<noteq> 0" "q \<le> 2 ^ 63" "unat (N :: usint) = 2 ^ K" "unat (ucast (drop_bit 1 q) :: usint) = h" "unat (drop_bit 1 q) = h"
    "uint (ucast (ucast (drop_bit 1 q) :: usint) :: NativeInt) = int h"
    "unat (ucast (ucast (2 * N) div q :: NativeInt) :: usint) = k"
proof -
  have pos: "0 < h" "0 < k" using q(2) by (auto intro: Nat.gr0I)
  have hN: "h \<le> 2 ^ K" "k \<le> 2 ^ K" using q(2) pos by (metis dvd_imp_le dvd_triv_left zero_less_numeral zero_less_power, metis dvd_imp_le dvd_triv_right zero_less_numeral zero_less_power)
  have "(2 :: nat) ^ K \<le> 2 ^ 24" using N(2) by (intro power_increasing) auto
  then have b: "h \<le> 2 ^ 24" "k \<le> 2 ^ 24" "(2 :: nat) ^ K \<le> 2 ^ 24" using hN by auto
  have u: "unat q = 2 * h" using q(1) by (simp add: uint_nat [symmetric] nat_eq_iff flip: nat_uint_eq)
  show "q \<noteq> 0" using q(1) pos by auto
  show "q \<le> 2 ^ 63" using u b by (simp add: word_le_nat_alt)
  show "unat N = 2 ^ K" by (simp only: N(1) ring_dims(1) [OF N(2)])
  have "uint (drop_bit 1 q) = int h" unfolding uint_drop_bit q(1) by simp
  then show dh: "unat (drop_bit 1 q) = h" by (simp only: unat_eq_nat_uint nat_int)
  have e: "drop_bit 1 q = of_nat h" by (metis dh of_nat_unat ucast_id)
  show c: "unat (ucast (drop_bit 1 q) :: usint) = h" using b(1) dh by (simp add: unsigned_ucast_eq take_bit_eq_mod)
  have up: "unat (ucast x :: NativeInt) = unat x" for x :: usint
  proof -
    have "unat x < 2 ^ 32" by (rule order.strict_trans2 [OF unsigned_less]) simp
    then show ?thesis by (simp add: unsigned_ucast_eq take_bit_eq_mod)
  qed
  have "unat (ucast (ucast (drop_bit 1 q) :: usint) :: NativeInt) = h" by (simp only: up c)
  then show "uint (ucast (ucast (drop_bit 1 q) :: usint) :: NativeInt) = int h" by (simp only: uint_nat)
  have "unat (2 * N) = 2 ^ Suc K" using ring_dims(2) [OF N(2)] by (simp add: N(1))
  then have "unat (ucast (2 * N) :: NativeInt) = 2 ^ Suc K" by (simp only: up)
  then have "unat (ucast (2 * N) div q :: NativeInt) = k" using pos by (simp add: unat_div u q(2) [symmetric])
  moreover have "unat (ucast x :: usint) = unat x" if "unat x < 2 ^ 32" for x :: NativeInt using that by (simp add: unsigned_ucast_eq take_bit_eq_mod)
  ultimately show "unat (ucast (ucast (2 * N) div q :: NativeInt) :: usint) = k" using b(2) by simp
qed

lemma uint_mult_small: "uint (a :: NativeInt) * uint b < 2 ^ 64 \<Longrightarrow> uint (a * b) = uint a * uint b"
  by (simp add: uint_word_ariths)

lemma gate_const:
  assumes "uint q = 8 * r" "0 < r" "\<not> double_gate gate"
  shows "\<exists>q1. elem_at (gate_constants q) (gate_index gate) = Inr q1 \<and> uint q1 = gate_eighth gate * r \<and> q1 < q"
proof -
  define s where "s = RShift q 3"
  have lt: "8 * r < 2 ^ 64" using assms(1) uint_lt2p [of q] by simp
  have s: "uint s = r" unfolding s_def RShift_def uint_drop_bit assms(1) by simp
  have mul: "uint (c * s) = uint c * r \<and> c * s < q" if "uint c < 8" for c :: NativeInt
  proof -
    have "uint c * r \<le> 7 * r" using that assms(2) by (intro mult_right_mono) auto
    then have "uint (c * s) = uint c * r" using lt uint_mult_small [of c s] by (simp add: s)
    then show ?thesis using that assms(2) by (simp add: word_less_def assms(1))
  qed
  show ?thesis
    unfolding gate_constants_def s_def [symmetric] elem_at_def
    using mul [of 1] mul [of 3] mul [of 5] mul [of 7] assms(3) by (cases gate) simp_all
qed

text \<open>The two cases of the range \<open>[q1, q2)\<close> on the circle.\<close>

lemma cyclic_range:
  fixes t a h :: int
  assumes "0 \<le> t" "t < 2 * h" "0 \<le> a" "a < 2 * h"
  shows "(if a < (a + h) mod (2 * h) then a \<le> t \<and> t < (a + h) mod (2 * h) else \<not> ((a + h) mod (2 * h) \<le> t \<and> t < a)) \<longleftrightarrow> (t - a) mod (2 * h) < h"
proof -
  have m: "(t - a) mod (2 * h) = (if a \<le> t then t - a else t - a + 2 * h)"
  proof (cases "a \<le> t")
    case False
    have "(t - a) mod (2 * h) = (t - a + 2 * h) mod (2 * h)" by simp
    also have "\<dots> = t - a + 2 * h" by (rule mod_pos_pos_trivial) (use False assms in linarith)+
    finally show ?thesis using False by simp
  qed (use assms in simp)
  have n: "(a + h) mod (2 * h) = (if a < h then a + h else a - h)" using assms by (auto simp: mod_pos_geq)
  show ?thesis unfolding m n using assms by auto
qed

lemma gate_entry_value:
  assumes q: "uint q = 2 * int h" "q \<le> 2 ^ 63" and q1: "q1 < q" and t: "t < q" and hw: "uint hw = int h" "0 < h" and Q: "8 \<le> Q"
  shows "uint (gate_entry q1 (ModAddFast q1 hw q) (Q div 8 + 1) (SubFast Q (Q div 8 + 1)) t) = gate_test (uint Q) (int h) (uint q1) (uint t)"
    and "gate_entry q1 (ModAddFast q1 hw q) (Q div 8 + 1) (SubFast Q (Q div 8 + 1)) t < Q"
proof -
  let ?Q8 = "Q div 8 + 1"
  have ur: "uint Q div 8 + 1 < uint Q" "8 \<le> uint Q" "uint Q < 2 ^ 64" using Q uint_lt2p [of Q] by (simp_all add: word_le_def)
  have Q8: "uint ?Q8 = uint Q div 8 + 1" using ur by (subst uint_add_lem [THEN iffD1]) (simp_all add: uint_div)
  have Q8n: "uint (SubFast Q ?Q8) = uint Q - (uint Q div 8 + 1)" unfolding SubFast_def using Q8 ur by (subst uint_sub_lem [THEN iffD1]) simp_all
  define q2 where "q2 = ModAddFast q1 hw q"
  have "hw < q" using hw q by (simp add: word_less_def)
  then have u2: "uint q2 = (uint q1 + int h) mod (2 * int h)" using ModAddFast_value [OF q(2) q1] by (simp add: q2_def hw q(1))
  have b: "uint q1 < 2 * int h" "uint t < 2 * int h" "0 \<le> uint q1" "0 \<le> uint t" using q1 t by (simp_all add: word_less_def q(1))
  have in_range: "(if q1 < q2 then q1 \<le> t \<and> t < q2 else \<not> (q2 \<le> t \<and> t < q1)) \<longleftrightarrow> (uint t - uint q1) mod (2 * int h) < int h"
    using cyclic_range [OF b(4,2,3,1)] by (simp only: word_less_def word_le_def u2)
  have e: "gate_entry q1 q2 x y t = (if (uint t - uint q1) mod (2 * int h) < int h then y else x)" for x y
    unfolding gate_entry_def in_range [symmetric] by auto
  show "uint (gate_entry q1 (ModAddFast q1 hw q) ?Q8 (SubFast Q ?Q8) t) = gate_test (uint Q) (int h) (uint q1) (uint t)"
    unfolding q2_def [symmetric] e gate_test_def by (simp add: Q8 Q8n)
  show "gate_entry q1 (ModAddFast q1 hw q) ?Q8 (SubFast Q ?Q8) t < Q"
    unfolding q2_def [symmetric] e using ur Q8 Q8n pos_imp_zdiv_nonneg_iff [of 8 "uint Q"] by (simp add: word_less_def)
qed

text \<open>The keys and parameters bootstrapping works with: \<open>key\<close> is the LWE secret, \<open>z\<close> the ring secret, \<open>md\<close> the modulus of the ciphertexts.\<close>

definition bt_ready :: "(NativeInt \<Rightarrow> usint \<Rightarrow> nat) \<Rightarrow> BinFHEScheme \<Rightarrow> BinFHECryptoParams \<Rightarrow> NativeInt \<Rightarrow> nat \<Rightarrow> NativeInt \<Rightarrow> int list \<Rightarrow> int list \<Rightarrow>
    NativeInt \<Rightarrow> int \<Rightarrow> int \<Rightarrow> RingGSWBTKey \<Rightarrow> bool" where
  "bt_ready dcount sch params Q K psi key z md \<beta> E EK \<longleftrightarrow> m_Q (m_LWEParams params) = Q \<and> m_N (m_LWEParams params) = of_nat (2 ^ K) \<and> 8 \<le> Q
     \<and> 8 dvd uint md \<and> uint md dvd 2 ^ Suc K \<and> md \<noteq> 0 \<and> rg_gateConst (m_RGSWParams params) = gate_constants md
     \<and> uint md * uint (m_qKS (m_LWEParams params)) \<le> 2 ^ 50 \<and> uint (m_qKS (m_LWEParams params)) * uint Q \<le> 2 ^ 50
     \<and> ks_ready dcount (m_LWEParams params) key z E (KSkey EK)
     \<and> (\<exists>ek. BSkey EK = Some ek \<and> acc_ready Q K psi (m_RGSWParams params) z key md \<beta> (sch, ek))"

lemma modulus_split:
  assumes "8 dvd uint md" "uint md dvd 2 ^ Suc K" "md \<noteq> (0 :: NativeInt)"
  obtains r h k where "uint md = 8 * r" "0 < r" "uint md = 2 * int h" "int h = 4 * r" "h * k = 2 ^ K"
proof -
  obtain r where r: "uint md = 8 * r" using assms(1) by (auto simp: dvd_def)
  obtain k where k: "2 ^ Suc K = uint md * k" using assms(2) by (auto simp: dvd_def)
  have pos: "0 < r" using uint_pos [OF assms(3)] r by simp
  have "0 < uint md * k" unfolding k [symmetric] by simp
  then have "0 < k" using pos r by (simp add: zero_less_mult_iff)
  then have "int (nat (4 * r) * nat k) = int (2 ^ K)" using k r pos by simp
  then have "nat (4 * r) * nat k = 2 ^ K" by (simp only: of_nat_eq_iff)
  then show thesis using that [of r "nat (4 * r)" "nat k"] r pos by simp
qed

definition gate_high :: "BINGATE \<Rightarrow> int \<Rightarrow> int \<Rightarrow> bool" where
  "gate_high gate r t \<longleftrightarrow> \<not> (t - gate_eighth gate * r) mod (2 * (4 * r)) < 4 * r"

lemma gate_core:
  assumes bt: "bt_ready dcount sch params Q K psi key z md \<beta> E EK" and T: "tables_ok Q K psi T" and K: "10 \<le> K"
    and ct: "lwe_wf (length key) ct" "LWE_GetModulus ct = md" and gate: "\<not> double_gate gate" and md: "uint md = 8 * r"
    and dmp: "\<And>p c. poly_is Q K psi (rg_polyParams (m_RGSWParams params)) EVALUATION p c \<Longrightarrow> dmp p = Inr ()"
  obtains acc T1 acc2 T2 ctE e where "BootstrapGateCore arb sch params gate (BSkey EK) ct T = Inr (acc, T1)" "acc_transpose dmp arb acc T1 = Inr (acc2, T2)"
    "tables_ok Q K psi T2" "acc_extract (\<lambda>x. ModAddFastEq (Q div 8 + 1) x Q) acc2 = Inr ctE" "lwe_wf (2 ^ K) ctE" "LWE_GetModulus ctE = Q" "\<bar>e\<bar> \<le> \<beta>"
    "rcong (uint Q) (lwe_phase z ctE) (of_bool (gate_high gate r (lwe_phase key ct)) * (2 * (uint Q div 8 + 1)) + e)"
proof -
  have b: "m_Q (m_LWEParams params) = Q" "m_N (m_LWEParams params) = of_nat (2 ^ K)" "8 \<le> Q" "8 dvd uint md" "uint md dvd 2 ^ Suc K" "md \<noteq> 0"
      "rg_gateConst (m_RGSWParams params) = gate_constants md" using bt by (simp_all add: bt_ready_def)
  obtain ek where ek: "BSkey EK = Some ek" "acc_ready Q K psi (m_RGSWParams params) z key md \<beta> (sch, ek)" using bt by (auto simp: bt_ready_def)
  note ring = ring_ok_dest [OF conjunct1 [OF ACC.ready_ring [OF ek(2)]]]
  have K24: "K \<le> 24" using ring(1) by (simp add: ntt_params_def)
  obtain h k where hk: "uint md = 2 * int h" "int h = 4 * r" "h * k = 2 ^ K" "0 < r" using modulus_split [OF b(4-6)] md by (metis mult_cancel_left zero_neq_numeral)
  note sz = boot_sizes [OF b(2) K24 hk(1,3)]
  obtain q1 where q1: "elem_at (gate_constants md) (gate_index gate) = Inr q1" "uint q1 = gate_eighth gate * r" "q1 < md"
    using gate_const [OF md hk(4) gate] by blast
  let ?hw = "ucast (ucast (drop_bit 1 md) :: usint) :: NativeInt"
  let ?x = "\<lambda>j. gate_entry q1 (ModAddFast q1 ?hw md) (Q div 8 + 1) (SubFast Q (Q div 8 + 1)) (ModSub (m_b ct) (of_nat j) md)"
  have h0: "0 < h" using hk by simp
  have hle: "h \<le> 2 ^ 24"
  proof -
    have "h dvd 2 ^ K" unfolding hk(3) [symmetric] by simp
    then have "h \<le> 2 ^ K" by (rule dvd_imp_le) simp
    also have "(2 :: nat) ^ K \<le> 2 ^ 24" using K24 by (intro power_increasing) auto
    finally show ?thesis .
  qed
  have x: "Inr (?x j) = Inr (?x j) \<and> ?x j < Q \<and> uint (?x j) = gate_test (uint Q) (int h) (uint q1) ((uint (m_b ct) - int j) mod (2 * int h))" if j: "j < h" for j
  proof -
    have "unat (of_nat j :: NativeInt) = j" using j hle by (intro unat_of_nat_64) simp
    then have uj: "uint (of_nat j :: NativeInt) = int j" by (simp only: uint_nat)
    have t: "uint (ModSub (m_b ct) (of_nat j) md) = (uint (m_b ct) - int j) mod (2 * int h)" using ModSub_value [OF sz(1,2)] by (simp add: uj hk(1))
    then have "ModSub (m_b ct) (of_nat j) md < md" using h0 by (simp add: word_less_def hk(1))
    from gate_entry_value [OF hk(1) sz(2) q1(3) this sz(6) h0 b(3)] show ?thesis by (simp only: t)
  qed
  have ur: "uint Q div 8 + 1 < uint Q" "uint Q < 2 ^ 64" using b(3) uint_lt2p [of Q] by (simp_all add: word_le_def)
  have Q8: "uint (Q div 8 + 1) = uint Q div 8 + 1" using ur by (subst uint_add_lem [THEN iffD1]) (simp_all add: uint_div)
  have shift: "ModAddFastEq (Q div 8 + 1) x Q < Q \<and> rcong (uint Q) (uint (ModAddFastEq (Q div 8 + 1) x Q)) (uint x + (uint Q div 8 + 1))" if "x < Q" for x
  proof -
    have "uint (ModAddFastEq (Q div 8 + 1) x Q) = (uint (Q div 8 + 1) + uint x) mod uint Q"
      unfolding inplace_eqs using ur Q8 by (intro ModAddFast_value ring(3) that) (simp add: word_less_def)
    then show ?thesis unfolding Q8 using ring(4) by (simp add: word_less_def add.commute)
  qed
  obtain m acc0 T0 acc1 T1 acc2 T2 ctE e where s: "sparse_vector (2 ^ K) Q h k (\<lambda>j. Inr (?x j)) = Inr m" "length (m_data m) = 2 ^ K"
    "acc_start arb (rg_polyParams (m_RGSWParams params)) m T = Inr (acc0, T0)" "ACC_EvalAcc arb (fst (sch, ek)) (m_RGSWParams params) (snd (sch, ek)) acc0 (m_a ct) T0 = Inr (acc1, T1)"
    "acc_transpose dmp arb acc1 T1 = Inr (acc2, T2)" "tables_ok Q K psi T2" "acc_extract (\<lambda>x. ModAddFastEq (Q div 8 + 1) x Q) acc2 = Inr ctE"
    "lwe_wf (2 ^ K) ctE" "LWE_GetModulus ctE = Q" "\<bar>e\<bar> \<le> \<beta> + 0"
    "rcong (uint Q) (lwe_phase z ctE) (gate_test (uint Q) (int h) (uint q1) (lwe_phase key ct) + (uint Q div 8 + 1) + e)"
    by (rule ACC.bootstraps [where dmp = dmp and arb = arb and F = "gate_test (uint Q) (int h) (uint q1)" and sl = 0 and entry = "\<lambda>j. Inr (?x j)" and x = ?x
          and shift = "\<lambda>x. ModAddFastEq (Q div 8 + 1) x Q" and c = "uint Q div 8 + 1", OF ek(2) T ct hk(1,3) x gate_test_negacyclic _ dmp shift]) (use h0 in simp_all)
  have "dump_vec m = Inr ()" using power_increasing [OF K, of "2 :: nat"] by (simp add: dump_vec_def s(2))
  then have core: "BootstrapGateCore arb sch params gate (BSkey EK) ct T = Inr (acc1, T1)"
    using s(1,3,4) q1(1) sz(1) by (simp add: BootstrapGateCore_def ek(1) Let_def b(1,7) ct(2) sz(3,7) sz(4) [unfolded One_nat_def])
  have "gate_test (uint Q) (int h) (uint q1) t + (uint Q div 8 + 1) = (if gate_high gate r t then 2 * (uint Q div 8 + 1) else uint Q)" for t
    by (simp add: gate_test_def gate_high_def q1(2) hk(2))
  then have "rcong (uint Q) (gate_test (uint Q) (int h) (uint q1) t + (uint Q div 8 + 1)) (of_bool (gate_high gate r t) * (2 * (uint Q div 8 + 1)))" for t
    by (simp add: rcong_def)
  from rcong_trans [OF s(11) rcong_add [OF this rcong_refl]]
  show thesis using that [OF core s(5-9)] s(10) by simp
qed

text \<open>The noise after a bootstrapped gate, times \<open>2 Q qKS\<close>.\<close>

definition gate_noise :: "(NativeInt \<Rightarrow> usint \<Rightarrow> nat) \<Rightarrow> LWECryptoParams \<Rightarrow> int list \<Rightarrow> int list \<Rightarrow> NativeInt \<Rightarrow> int \<Rightarrow> int \<Rightarrow> int" where
  "gate_noise dcount prm key z md \<beta> E = 2 * uint md * uint (m_qKS prm) * (\<beta> + 2)
     + switch_noise (uint md) (uint (m_qKS prm)) (uint (m_Q prm)) key z (dcount (m_qKS prm) (m_baseKS prm)) E"

lemma gate_refresh:
  assumes bt: "bt_ready dcount sch params Q K psi key z md \<beta> E EK" and T: "tables_ok Q K psi T" and K: "10 \<le> K"
    and ct: "lwe_wf (length key) ct" "LWE_GetModulus ct = md" and gate: "\<not> double_gate gate" and md: "uint md = 8 * r"
    and dmp: "\<And>p c. poly_is Q K psi (rg_polyParams (m_RGSWParams params)) EVALUATION p c \<Longrightarrow> dmp p = Inr ()"
  obtains acc T1 acc2 T2 ctE ct' e where "BootstrapGateCore arb sch params gate (BSkey EK) ct T = Inr (acc, T1)" "acc_transpose dmp arb acc T1 = Inr (acc2, T2)"
    "tables_ok Q K psi T2" "acc_extract (\<lambda>x. ModAddFastEq (Q div 8 + 1) x Q) acc2 = Inr ctE"
    "switch_down dcount (m_LWEParams params) (KSkey EK) md ctE = Inr ct'" "lwe_wf (length key) ct'" "LWE_GetModulus ct' = md"
    "rcong (uint md) (lwe_phase key ct') (of_bool (gate_high gate r (lwe_phase key ct)) * (2 * r) + e)"
    "2 * (uint Q * uint (m_qKS (m_LWEParams params))) * \<bar>e\<bar> \<le> gate_noise dcount (m_LWEParams params) key z md \<beta> E"
proof -
  let ?p = "m_qKS (m_LWEParams params)"
  have b: "m_Q (m_LWEParams params) = Q" "8 \<le> Q" "md \<noteq> 0" "uint md * uint ?p \<le> 2 ^ 50" "uint ?p * uint Q \<le> 2 ^ 50"
      "ks_ready dcount (m_LWEParams params) key z E (KSkey EK)" using bt by (simp_all add: bt_ready_def)
  obtain ek where ek: "acc_ready Q K psi (m_RGSWParams params) z key md \<beta> (sch, ek)" using bt by (auto simp: bt_ready_def)
  have z: "length z = 2 ^ K" using ACC.ready_ring [OF ek] by simp
  obtain acc T1 acc2 T2 ctE e where c: "BootstrapGateCore arb sch params gate (BSkey EK) ct T = Inr (acc, T1)" "acc_transpose dmp arb acc T1 = Inr (acc2, T2)"
    "tables_ok Q K psi T2" "acc_extract (\<lambda>x. ModAddFastEq (Q div 8 + 1) x Q) acc2 = Inr ctE" "lwe_wf (2 ^ K) ctE" "LWE_GetModulus ctE = Q" "\<bar>e\<bar> \<le> \<beta>"
    "rcong (uint Q) (lwe_phase z ctE) (of_bool (gate_high gate r (lwe_phase key ct)) * (2 * (uint Q div 8 + 1)) + e)"
    by (rule gate_core [where dmp = dmp and arb = arb, OF bt T K ct gate md dmp])
  have msb: "GetMSB md \<le> MAX_MODULUS_SIZE" using ct by (simp add: lwe_wf_def nv_wf_def LWE_GetModulus_def NV_GetModulus_def)
  have p: "0 < uint ?p" using b(6) uint_pos by (auto simp: ks_ready_def)
  have pos: "0 < uint Q" "0 < r" using b(2) md uint_pos [OF b(3)] by (simp_all add: word_le_def)
  obtain ct' d where s: "switch_down dcount (m_LWEParams params) (KSkey EK) md ctE = Inr ct'" "lwe_wf (length key) ct'" "LWE_GetModulus ct' = md"
      "rcong (uint md * (uint Q * uint ?p)) (uint Q * uint ?p * lwe_phase key ct') (uint md * uint ?p * lwe_phase z ctE + d)"
      "2 * \<bar>d\<bar> \<le> switch_noise (uint md) (uint ?p) (uint Q) key z (dcount ?p (m_baseKS (m_LWEParams params))) E"
    using switch_down_phase [OF b(6) _ b(3) msb b(4), of ctE] c(5,6) b(5) z by auto
  obtain e3 where e3: "rcong (uint md) (lwe_phase key ct') (of_bool (gate_high gate r (lwe_phase key ct)) * (2 * r) + e3)"
      "2 * (uint Q * uint ?p) * \<bar>e3\<bar> \<le> 2 * uint md * uint ?p * (\<beta> + 2) + switch_noise (uint md) (uint ?p) (uint Q) key z (dcount ?p (m_baseKS (m_LWEParams params))) E"
    by (rule gate_decode [OF md pos(1) p pos(2) c(8) s(4) c(7) s(5)])
  show thesis using that [OF c(1-4) s(1-3) e3(1)] e3(2) by (simp add: gate_noise_def b(1))
qed

section \<open>Gates on encrypted bits\<close>

lemma EvalNOT_phase:
  assumes ct: "lwe_wf n ct" and key: "length key = n"
  shows "\<exists>ct'. EvalNOT ct = Inr ct' \<and> lwe_wf n ct' \<and> LWE_GetModulus ct' = LWE_GetModulus ct
    \<and> lwe_phase key ct' = (uint (LWE_GetModulus ct) div 4 - lwe_phase key ct) mod uint (LWE_GetModulus ct)"
proof -
  define q where "q = LWE_GetModulus ct"
  define xs where "xs = m_data (m_a ct)"
  define neg where "neg x = (if x = 0 then 0 else q - x)" for x :: NativeInt
  have w: "nv_wf (m_a ct)" "length xs = n" "m_b ct < q" "m_modulus (m_a ct) = q"
    using ct by (simp_all add: lwe_wf_def q_def xs_def LWE_GetModulus_def NV_GetModulus_def)
  have q: "q \<noteq> 0" "GetMSB q \<le> MAX_MODULUS_SIZE" "q \<le> 2 ^ 63" "0 < uint q" using w(1,4) nv_wf_modulus(1) [OF w(1)] uint_pos by (auto simp: nv_wf_def)
  have neg: "uint (neg x) = - uint x mod uint q \<and> neg x < q" if "x < q" for x
  proof (cases "x = 0")
    case True
    then show ?thesis using q(1) by (simp add: neg_def word_greater_zero_iff)
  next
    case False
    have "uint (q - x) = uint q - uint x" using that by (subst uint_sub_lem [THEN iffD1]) (simp_all add: word_less_def)
    moreover have "- uint x mod uint q = uint q - uint x"
      using that False uint_pos [OF False] by (simp add: zmod_zminus1_eq_if word_less_def)
    ultimately show ?thesis using that uint_pos [OF False] by (simp add: neg_def False word_less_def)
  qed
  have new: "NV_new n q = Inr \<lparr>m_data = replicate n 0, m_modulus = q\<rparr>" using q(2) by (simp add: NV_new_def NV_SetModulus_def NV_empty_def)
  let ?P = "\<lambda>k v. m_modulus v = q \<and> length (m_data v) = n \<and> (\<forall>i<k. m_data v ! i = neg (xs ! i))"
  have "\<exists>v. res_range 0 n (\<lambda>i a. res_bind (vec_get (m_a ct) i) (\<lambda>x. vec_set a i (if x = 0 then 0 else SubFast q x))) \<lparr>m_data = replicate n 0, m_modulus = q\<rparr> = Inr v \<and> ?P n v"
    by (rule res_range_invariant [where P = ?P])
      (use w(2) in \<open>auto simp: vec_get_nth vec_set_nth nth_list_update less_Suc_eq SubFast_def neg_def xs_def [symmetric]\<close>)
  then obtain v where v: "res_range 0 n (\<lambda>i a. res_bind (vec_get (m_a ct) i) (\<lambda>x. vec_set a i (if x = 0 then 0 else SubFast q x))) \<lparr>m_data = replicate n 0, m_modulus = q\<rparr> = Inr v" "?P n v" by blast
  let ?b = "ModSubFast (RShift q 2) (m_b ct) q" and ?ct = "\<lparr>m_a = v, m_b = ModSubFast (RShift q 2) (m_b ct) q\<rparr>"
  have q4: "uint (RShift q 2) = uint q div 4" unfolding RShift_def uint_drop_bit by simp
  have "RShift q 2 < q" using q(4) by (simp add: word_less_def q4)
  then have b: "uint ?b = (uint q div 4 - uint (m_b ct)) mod uint q" using ModSubFast_value [OF q(3) _ w(3)] by (simp add: q4)
  have data: "m_data v = map neg xs" using v(2) w(2) by (intro nth_equalityI) auto
  have xlt: "x < q" if "x \<in> set xs" for x using that w(1,4) by (auto simp: nv_wf_def xs_def list_all_iff)
  have wf: "nv_wf v" using v(2) q neg xlt by (auto simp: nv_wf_def data list_all_iff)
  have abs: "nv_abs v = map (\<lambda>x. x * (- 1) mod uint q) (nv_abs (m_a ct))"
    using neg xlt by (auto simp: nv_abs_def data xs_def [symmetric])
  have "rcong (uint q) (dot (nv_abs v) key) (dot (nv_abs (m_a ct)) key * (- 1))"
    unfolding abs by (rule dot_scale) (use w(2) key in \<open>simp add: nv_abs_def xs_def\<close>)
  then have "rcong (uint q) (uint ?b - dot (nv_abs v) key) (uint q div 4 - uint (m_b ct) - dot (nv_abs (m_a ct)) key * (- 1))"
    unfolding b by (intro rcong_diff) auto
  also have "uint q div 4 - uint (m_b ct) - dot (nv_abs (m_a ct)) key * (- 1) = uint q div 4 - (uint (m_b ct) - dot (nv_abs (m_a ct)) key)" by simp
  also have "rcong (uint q) \<dots> (uint q div 4 - lwe_phase key ct)" unfolding lwe_phase_def q_def [symmetric] by (intro rcong_diff) auto
  finally have "lwe_phase key ?ct = (uint q div 4 - lwe_phase key ct) mod uint q"
    using v(2) by (simp add: lwe_phase_def [of key ?ct] LWE_GetModulus_def NV_GetModulus_def rcong_def)
  moreover have "EvalNOT ct = Inr ?ct" using new v(1) w(2)
    by (simp add: EvalNOT_def q_def [symmetric] LWE_GetLength_def NV_GetLength_def xs_def [symmetric])
  moreover have "lwe_wf n ?ct" "LWE_GetModulus ?ct = q"
    using wf v(2) b pos_mod_bound [OF q(4)] by (simp_all add: lwe_wf_def LWE_GetModulus_def NV_GetModulus_def word_less_def)
  ultimately show ?thesis unfolding q_def [symmetric] by blast
qed

text \<open>A ciphertext of a bit with noise \<open>e\<close>.\<close>

definition bit_cipher :: "int list \<Rightarrow> NativeInt \<Rightarrow> LWECiphertext \<Rightarrow> bool \<Rightarrow> int \<Rightarrow> bool" where
  "bit_cipher key md ct a e \<longleftrightarrow> lwe_wf (length key) ct \<and> LWE_GetModulus ct = md \<and> rcong (uint md) (lwe_phase key ct) (of_bool a * (uint md div 4) + e)"

lemma bit_cipher_NOT:
  assumes "bit_cipher key md ct a e" "8 dvd uint md"
  shows "\<exists>ct'. EvalNOT ct = Inr ct' \<and> bit_cipher key md ct' (\<not> a) (- e)"
proof -
  have c: "lwe_wf (length key) ct" "LWE_GetModulus ct = md" "rcong (uint md) (lwe_phase key ct) (of_bool a * (uint md div 4) + e)"
    using assms(1) by (simp_all add: bit_cipher_def)
  obtain ct' where ct': "EvalNOT ct = Inr ct'" "lwe_wf (length key) ct'" "LWE_GetModulus ct' = md" "lwe_phase key ct' = (uint md div 4 - lwe_phase key ct) mod uint md"
    using EvalNOT_phase [OF c(1) refl] c(2) by auto
  have "rcong (uint md) (uint md div 4 - lwe_phase key ct) (uint md div 4 - (of_bool a * (uint md div 4) + e))" by (intro rcong_diff rcong_refl c(3))
  also have "uint md div 4 - (of_bool a * (uint md div 4) + e) = of_bool (\<not> a) * (uint md div 4) + - e" by (cases a) simp_all
  finally show ?thesis using ct' by (auto simp: bit_cipher_def)
qed

lemma gate_prep:
  assumes ct1: "lwe_wf n ct1" and ct2: "lwe_wf n ct2" and md: "LWE_GetModulus ct1 = md" "LWE_GetModulus ct2 = md"
  shows "\<exists>ct. (if fast_gate gate then res_bind (LWE_EvalSubEq ct1 ct2) (\<lambda>ctprep. LWE_EvalAddEq ctprep ctprep) else LWE_EvalAddEq ct1 ct2) = Inr ct
    \<and> lwe_wf n ct \<and> LWE_GetModulus ct = md
    \<and> (\<forall>key. length key = n \<longrightarrow> rcong (uint md) (lwe_phase key ct) (gate_lin gate (lwe_phase key ct1) (lwe_phase key ct2)))"
proof (cases "fast_gate gate")
  case True
  obtain s where s: "LWE_EvalSubEq ct1 ct2 = Inr s" "lwe_wf n s" "LWE_GetModulus s = md"
      "\<And>key. length key = n \<Longrightarrow> lwe_phase key s = (lwe_phase key ct1 + - 1 * lwe_phase key ct2) mod uint md"
    using EvalSub.op2_phase [OF ct1 ct2] md by auto
  obtain t where t: "LWE_EvalAddEq s s = Inr t" "lwe_wf n t" "LWE_GetModulus t = md"
      "\<And>key. length key = n \<Longrightarrow> lwe_phase key t = (lwe_phase key s + 1 * lwe_phase key s) mod uint md"
    using EvalAdd.op2_phase [OF s(2) s(2)] s(3) by auto
  have "rcong (uint md) (lwe_phase key t) (gate_lin gate (lwe_phase key ct1) (lwe_phase key ct2))" if "length key = n" for key
    using s(4) [OF that] t(4) [OF that] True by (simp add: gate_lin_def rcong_def mod_simps algebra_simps)
  then show ?thesis using True s(1) t(1-3) by auto
next
  case False
  obtain t where t: "LWE_EvalAddEq ct1 ct2 = Inr t" "lwe_wf n t" "LWE_GetModulus t = md"
      "\<And>key. length key = n \<Longrightarrow> lwe_phase key t = (lwe_phase key ct1 + 1 * lwe_phase key ct2) mod uint md"
    using EvalAdd.op2_phase [OF ct1 ct2] md by auto
  then show ?thesis using False by (auto simp: gate_lin_def rcong_def)
qed

lemma gate_lin_linear: "gate_lin gate (x * c + e) (y * c + f) = gate_lin gate x y * c + gate_lin gate e f"
  by (simp add: gate_lin_def algebra_simps)

lemma gate_lin_cong: "rcong q x x' \<Longrightarrow> rcong q y y' \<Longrightarrow> rcong q (gate_lin gate x y) (gate_lin gate x' y')"
  by (auto simp: gate_lin_def intro: rcong_mult rcong_diff rcong_add)

lemma gate_high_cong: "rcong (8 * r) t t' \<Longrightarrow> gate_high gate r t = gate_high gate r t'"
  unfolding gate_high_def rcong_def using mod_diff_cong [of t "8 * r" t' "gate_eighth gate * r" "gate_eighth gate * r"] by simp

lemma gate_bootstrap_correct:
  assumes bt: "bt_ready dcount sch params Q K psi key z md \<beta> E EK" and T: "tables_ok Q K psi T" and K: "10 \<le> K" and gate: "\<not> double_gate gate"
    and ct1: "bit_cipher key md ct1 a e1" and ct2: "bit_cipher key md ct2 b e2"
    and e: "- (uint md div 8) \<le> gate_lin gate e1 e2" "gate_lin gate e1 e2 < uint md div 8"
  shows "\<exists>ct T' e3. gate_bootstrap arb dcount sch params gate EK ct1 ct2 T = Inr (ct, T') \<and> tables_ok Q K psi T' \<and> bit_cipher key md ct (gate_fun gate a b) e3
    \<and> 2 * (uint Q * uint (m_qKS (m_LWEParams params))) * \<bar>e3\<bar> \<le> gate_noise dcount (m_LWEParams params) key z md \<beta> E"
proof -
  have c: "lwe_wf (length key) ct1" "lwe_wf (length key) ct2" "LWE_GetModulus ct1 = md" "LWE_GetModulus ct2 = md"
      "rcong (uint md) (lwe_phase key ct1) (of_bool a * (uint md div 4) + e1)" "rcong (uint md) (lwe_phase key ct2) (of_bool b * (uint md div 4) + e2)"
    using ct1 ct2 by (simp_all add: bit_cipher_def)
  obtain r where r: "uint md = 8 * r" "0 < r" using modulus_split [of md K] bt by (auto simp: bt_ready_def)
  have r8: "uint md div 8 = r" "uint md div 4 = 2 * r" using r by simp_all
  have r4: "8 * r div 4 = 2 * r" by simp
  have Q: "m_Q (m_LWEParams params) = Q" using bt by (simp add: bt_ready_def)
  obtain ct where ct: "(if fast_gate gate then res_bind (LWE_EvalSubEq ct1 ct2) (\<lambda>ctprep. LWE_EvalAddEq ctprep ctprep) else LWE_EvalAddEq ct1 ct2) = Inr ct"
      "lwe_wf (length key) ct" "LWE_GetModulus ct = md" "rcong (uint md) (lwe_phase key ct) (gate_lin gate (lwe_phase key ct1) (lwe_phase key ct2))"
    using gate_prep [OF c(1-4)] by blast
  have "rcong (8 * r) (lwe_phase key ct) (gate_lin gate (of_bool a * (2 * r) + e1) (of_bool b * (2 * r) + e2))"
    using rcong_trans [OF ct(4) gate_lin_cong [OF c(5,6)]] unfolding r(1) r4 .
  then have "gate_high gate r (lwe_phase key ct) = gate_high gate r (gate_lin gate (of_bool a) (of_bool b) * (2 * r) + gate_lin gate e1 e2)"
    unfolding gate_lin_linear by (rule gate_high_cong)
  also have "\<dots> = gate_fun gate a b" using gate_range [OF r(2) _ _ gate, of "gate_lin gate e1 e2"] e by (simp add: gate_high_def r8)
  finally have high: "gate_high gate r (lwe_phase key ct) = gate_fun gate a b" .
  obtain acc T1 acc2 T2 ctE ct' e3 where s: "BootstrapGateCore arb sch params gate (BSkey EK) ct T = Inr (acc, T1)" "acc_transpose dump arb acc T1 = Inr (acc2, T2)"
    "tables_ok Q K psi T2" "acc_extract (\<lambda>x. ModAddFastEq (Q div 8 + 1) x Q) acc2 = Inr ctE"
    "switch_down dcount (m_LWEParams params) (KSkey EK) md ctE = Inr ct'" "lwe_wf (length key) ct'" "LWE_GetModulus ct' = md"
    "rcong (uint md) (lwe_phase key ct') (of_bool (gate_high gate r (lwe_phase key ct)) * (2 * r) + e3)"
    "2 * (uint Q * uint (m_qKS (m_LWEParams params))) * \<bar>e3\<bar> \<le> gate_noise dcount (m_LWEParams params) key z md \<beta> E"
    by (rule gate_refresh [where dmp = dump and arb = arb, OF bt T K ct(2,3) gate r(1) dump_ok [OF _ K]])
  have "gate_bootstrap arb dcount sch params gate EK ct1 ct2 T = Inr (ct', T2)"
    unfolding gate_bootstrap_def ct(1) using s(1,2,4,5) by (simp add: Q c(3))
  moreover have "bit_cipher key md ct' (gate_fun gate a b) e3" using s(6-8) by (simp add: bit_cipher_def high r8)
  ultimately show ?thesis using s(3,9) by blast
qed

text \<open>
  The noise of a bootstrapped gate is small when the sizes are chosen well; then every gate accepts the outputs of others.
\<close>

definition noise_fits :: "(NativeInt \<Rightarrow> usint \<Rightarrow> nat) \<Rightarrow> LWECryptoParams \<Rightarrow> int list \<Rightarrow> int list \<Rightarrow> NativeInt \<Rightarrow> int \<Rightarrow> int \<Rightarrow> bool" where
  "noise_fits dcount prm key z md \<beta> E \<longleftrightarrow> 16 * gate_noise dcount prm key z md \<beta> E < uint md * (uint (m_Q prm) * uint (m_qKS prm))"

definition small_cipher :: "int list \<Rightarrow> NativeInt \<Rightarrow> LWECiphertext \<Rightarrow> bool \<Rightarrow> bool" where
  "small_cipher key md ct a \<longleftrightarrow> (\<exists>e. bit_cipher key md ct a e \<and> 32 * \<bar>e\<bar> < uint md)"

lemma fits_small:
  fixes md P :: int
  assumes "2 * P * \<bar>e\<bar> \<le> B" "16 * B < md * P" "0 < P"
  shows "32 * \<bar>e\<bar> < md"
proof -
  have "(32 * \<bar>e\<bar>) * P = 16 * (2 * P * \<bar>e\<bar>)" by simp
  also have "\<dots> \<le> 16 * B" using assms(1) by simp
  also have "\<dots> < md * P" by (rule assms(2))
  finally show ?thesis using assms(3) by (simp add: mult_less_cancel_right)
qed

lemma gate_lin_small:
  fixes md :: int
  assumes "8 dvd md" "32 * \<bar>e1\<bar> < md" "32 * \<bar>e2\<bar> < md"
  shows "- (md div 8) \<le> gate_lin gate e1 e2" "gate_lin gate e1 e2 < md div 8"
proof -
  obtain r where r: "md = 8 * r" using assms(1) by (auto simp: dvd_def)
  then have "4 * \<bar>e1\<bar> < r" "4 * \<bar>e2\<bar> < r" "md div 8 = r" using assms(2,3) by simp_all
  then show "- (md div 8) \<le> gate_lin gate e1 e2" "gate_lin gate e1 e2 < md div 8"
    by (auto simp: gate_lin_def abs_if split: if_splits)
qed

lemma gate_small:
  assumes bt: "bt_ready dcount sch params Q K psi key z md \<beta> E EK" and T: "tables_ok Q K psi T" and K: "10 \<le> K" and gate: "\<not> double_gate gate"
    and fits: "noise_fits dcount (m_LWEParams params) key z md \<beta> E" and ct: "small_cipher key md ct1 a" "small_cipher key md ct2 b"
  shows "\<exists>ct T'. gate_bootstrap arb dcount sch params gate EK ct1 ct2 T = Inr (ct, T') \<and> tables_ok Q K psi T' \<and> small_cipher key md ct (gate_fun gate a b)"
proof -
  obtain e1 e2 where c: "bit_cipher key md ct1 a e1" "32 * \<bar>e1\<bar> < uint md" "bit_cipher key md ct2 b e2" "32 * \<bar>e2\<bar> < uint md"
    using ct by (auto simp: small_cipher_def)
  have b: "8 dvd uint md" "m_Q (m_LWEParams params) = Q" "8 \<le> Q" using bt by (simp_all add: bt_ready_def)
  have pos: "0 < uint Q * uint (m_qKS (m_LWEParams params))"
    using bt b(3) uint_pos [of "m_qKS (m_LWEParams params)"] by (auto simp: bt_ready_def ks_ready_def word_le_def)
  obtain ct T' e3 where g: "gate_bootstrap arb dcount sch params gate EK ct1 ct2 T = Inr (ct, T')" "tables_ok Q K psi T'" "bit_cipher key md ct (gate_fun gate a b) e3"
    "2 * (uint Q * uint (m_qKS (m_LWEParams params))) * \<bar>e3\<bar> \<le> gate_noise dcount (m_LWEParams params) key z md \<beta> E"
    using gate_bootstrap_correct [OF bt T K gate c(1,3) gate_lin_small [OF b(1) c(2,4)]] by blast
  have "32 * \<bar>e3\<bar> < uint md" by (rule fits_small [OF g(4) _ pos]) (use fits in \<open>simp add: noise_fits_def b(2)\<close>)
  then show ?thesis using g(1-3) by (auto simp: small_cipher_def)
qed

lemma NOT_small: "small_cipher key md ct a \<Longrightarrow> 8 dvd uint md \<Longrightarrow> \<exists>ct'. EvalNOT ct = Inr ct' \<and> small_cipher key md ct' (\<not> a)"
  unfolding small_cipher_def using bit_cipher_NOT by (metis abs_minus_cancel)

lemma EvalBinGate_small:
  assumes bt: "bt_ready dcount sch params Q K psi key z md \<beta> E EK" and T: "tables_ok Q K psi T" and K: "10 \<le> K"
    and fits: "noise_fits dcount (m_LWEParams params) key z md \<beta> E" and ct: "small_cipher key md ct1 a" "small_cipher key md ct2 b"
  shows "\<exists>ct T'. EvalBinGate arb dcount sch params gate EK False ct1 ct2 T = Inr (ct, T') \<and> tables_ok Q K psi T' \<and> small_cipher key md ct (gate_fun gate a b)"
proof (cases "double_gate gate")
  case False
  then show ?thesis using gate_small [OF bt T K False fits ct] by (auto simp: EvalBinGate_def)
next
  case True
  have md: "8 dvd uint md" using bt by (simp add: bt_ready_def)
  note small = gate_small [OF bt _ K _ fits]
  obtain n1 n2 where n: "EvalNOT ct1 = Inr n1" "small_cipher key md n1 (\<not> a)" "EvalNOT ct2 = Inr n2" "small_cipher key md n2 (\<not> b)"
    using NOT_small [OF ct(1) md] NOT_small [OF ct(2) md] by blast
  obtain c1 T1 where c1: "gate_bootstrap arb dcount sch params AND_gate EK ct1 n2 T = Inr (c1, T1)" "tables_ok Q K psi T1" "small_cipher key md c1 (a \<and> \<not> b)"
    using small [OF T _ ct(1) n(4), of AND_gate arb] by auto
  obtain c2 T2 where c2: "gate_bootstrap arb dcount sch params AND_gate EK n1 ct2 T1 = Inr (c2, T2)" "tables_ok Q K psi T2" "small_cipher key md c2 (\<not> a \<and> b)"
    using small [OF c1(2) _ n(2) ct(2), of AND_gate arb] by auto
  obtain c3 T3 where c3: "gate_bootstrap arb dcount sch params OR_gate EK c1 c2 T2 = Inr (c3, T3)" "tables_ok Q K psi T3" "small_cipher key md c3 (a \<and> \<not> b \<or> \<not> a \<and> b)"
    using small [OF c2(2) _ c1(3) c2(3), of OR_gate arb] by auto
  obtain c4 where c4: "EvalNOT c3 = Inr c4" "small_cipher key md c4 (\<not> (a \<and> \<not> b \<or> \<not> a \<and> b))" using NOT_small [OF c3(3) md] by blast
  have "(a \<and> \<not> b \<or> \<not> a \<and> b) = (a \<noteq> b)" by blast
  then show ?thesis using True n(1,3) c1(1) c2(1) c3 c4 by (auto simp: EvalBinGate_def)
qed

lemma Bootstrap_small:
  assumes bt: "bt_ready dcount sch params Q K psi key z md \<beta> E EK" and T: "tables_ok Q K psi T" and K: "10 \<le> K"
    and fits: "noise_fits dcount (m_LWEParams params) key z md \<beta> E"
    and ct: "bit_cipher key md ct a e" "- (uint md div 8) \<le> e" "e < uint md div 8"
  shows "\<exists>ct' T'. Bootstrap arb dcount sch params EK ct T = Inr (ct', T') \<and> tables_ok Q K psi T' \<and> small_cipher key md ct' a"
proof -
  have c: "lwe_wf (length key) ct" "LWE_GetModulus ct = md" "rcong (uint md) (lwe_phase key ct) (of_bool a * (uint md div 4) + e)"
    using ct by (simp_all add: bit_cipher_def)
  have b: "8 dvd uint md" "m_Q (m_LWEParams params) = Q" "8 \<le> Q" "md \<noteq> 0" using bt by (simp_all add: bt_ready_def)
  obtain r where r: "uint md = 8 * r" "0 < r" using modulus_split [of md K] bt by (auto simp: bt_ready_def)
  have r8: "uint md div 8 = r" "uint md div 4 = 2 * r" using r by simp_all
  have q4: "uint (RShift md 2) = 2 * r" unfolding RShift_def uint_drop_bit using r by simp
  let ?ct = "LWE_EvalAddConstEq ct (RShift md 2)"
  have "RShift md 2 < LWE_GetModulus ct" using r by (simp add: word_less_def q4 c(2))
  then have p: "lwe_wf (length key) ?ct" "LWE_GetModulus ?ct = md" "lwe_phase key ?ct = (lwe_phase key ct + 2 * r) mod uint md"
    using EvalConst_phase(1) [OF c(1) refl, of "RShift md 2"] by (simp_all add: c(2) q4)
  have r4: "8 * r div 4 = 2 * r" by simp
  have "rcong (8 * r) (lwe_phase key ?ct) (of_bool a * (2 * r) + e + 2 * r)"
    unfolding p(3) r(1) using rcong_add [OF c(3) rcong_refl, of "2 * r"] unfolding r(1) r4 by simp
  moreover have "of_bool a * (2 * r) + e + 2 * r = gate_lin AND_gate (of_bool a) (of_bool True) * (2 * r) + e" by (simp add: gate_lin_def algebra_simps)
  ultimately have "gate_high AND_gate r (lwe_phase key ?ct) = gate_high AND_gate r (gate_lin AND_gate (of_bool a) (of_bool True) * (2 * r) + e)"
    by (simp only: gate_high_cong)
  also have "\<dots> = a" using gate_range [OF r(2), of e AND_gate a True] ct(2,3) by (simp add: gate_high_def r8)
  finally have high: "gate_high AND_gate r (lwe_phase key ?ct) = a" .
  obtain acc T1 acc2 T2 ctE ct' e3 where s: "BootstrapGateCore arb sch params AND_gate (BSkey EK) ?ct T = Inr (acc, T1)" "acc_transpose (\<lambda>_. Inr ()) arb acc T1 = Inr (acc2, T2)"
    "tables_ok Q K psi T2" "acc_extract (\<lambda>x. ModAddFastEq (Q div 8 + 1) x Q) acc2 = Inr ctE"
    "switch_down dcount (m_LWEParams params) (KSkey EK) md ctE = Inr ct'" "lwe_wf (length key) ct'" "LWE_GetModulus ct' = md"
    "rcong (uint md) (lwe_phase key ct') (of_bool (gate_high AND_gate r (lwe_phase key ?ct)) * (2 * r) + e3)"
    "2 * (uint Q * uint (m_qKS (m_LWEParams params))) * \<bar>e3\<bar> \<le> gate_noise dcount (m_LWEParams params) key z md \<beta> E"
    by (rule gate_refresh [where gate = AND_gate and dmp = "\<lambda>_. Inr ()" and arb = arb, OF bt T K p(1,2) _ r(1)]) auto
  have pos: "0 < uint Q * uint (m_qKS (m_LWEParams params))"
    using bt b(3) uint_pos [of "m_qKS (m_LWEParams params)"] by (auto simp: bt_ready_def ks_ready_def word_le_def)
  have "32 * \<bar>e3\<bar> < uint md" by (rule fits_small [OF s(9) _ pos]) (use fits in \<open>simp add: noise_fits_def b(2)\<close>)
  moreover have "bit_cipher key md ct' a e3" using s(6-8) by (simp add: bit_cipher_def high r8)
  moreover have "Bootstrap arb dcount sch params EK ct T = Inr (ct', T2)" unfolding Bootstrap_def c(2) Let_def using s(1,2,4,5) by (simp add: b(2) c(2))
  ultimately show ?thesis using s(3) by (auto simp: small_cipher_def)
qed

section \<open>Key generation\<close>

text \<open>Parameters and keys as the context hands them over: the RingGSW parameters are fresh, \<open>sk\<close> is the LWE key and \<open>skN\<close> the sampled ring key.\<close>

definition binfhe_setup :: "(NativeInt \<Rightarrow> usint \<Rightarrow> nat) \<Rightarrow> NativeInt \<Rightarrow> nat \<Rightarrow> NativeInt \<Rightarrow> nat \<Rightarrow> nat \<Rightarrow> int \<Rightarrow> BinFHECryptoParams \<Rightarrow> LWEPrivateKey \<Rightarrow> NativeVector \<Rightarrow> NativeInt \<Rightarrow> bool" where
  "binfhe_setup dcount Q K psi g D Z params sk skN md \<longleftrightarrow>
     (let rg = m_RGSWParams params; lwe = m_LWEParams params; R = unat (rg_baseR rg); cnt = dcount md (rg_baseR rg); B = unat (m_baseKS lwe); dig = dcount (m_qKS lwe) (m_baseKS lwe)
      in rgsw_fresh Q K psi g D rg \<and> 10 \<le> K \<and> rg_q rg = md
       \<and> (rg_method rg = GINX \<and> 4 \<le> D \<and> set (int_key sk) \<subseteq> {0, 1, - 1} \<or> rg_method rg = AP \<and> 0 < R \<and> unat md \<le> R ^ cnt \<and> (\<forall>k<cnt. R ^ k < 2 ^ 31))
       \<and> m_Q lwe = Q \<and> m_N lwe = of_nat (2 ^ K) \<and> unat (m_n lwe) = length (int_key sk) \<and> 8 \<le> Q \<and> 8 dvd uint md \<and> uint md dvd 2 ^ Suc K \<and> md \<noteq> 0
       \<and> uint md * uint (m_qKS lwe) \<le> 2 ^ 50 \<and> uint (m_qKS lwe) * uint Q \<le> 2 ^ 50
       \<and> lwe_modulus (length (int_key sk)) (m_qKS lwe) \<and> m_baseKS lwe \<noteq> 0 \<and> B ^ dig < 2 ^ 64 \<and> unat (m_qKS lwe) \<le> B ^ dig
       \<and> nv_wf (m_s sk) \<and> uint (m_modulus (m_s sk)) < 2 ^ 31
       \<and> nv_wf skN \<and> m_modulus skN = Q \<and> length (m_data skN) = 2 ^ K \<and> rbound Z (int_key \<lparr>m_s = skN\<rparr>))"

definition binfhe_samples :: "NativeInt \<Rightarrow> nat \<Rightarrow> nat \<Rightarrow> NativeInt \<Rightarrow> int \<Rightarrow> int \<Rightarrow> (nat \<Rightarrow> nat \<Rightarrow> nat \<Rightarrow> NativeInt) \<Rightarrow> (nat \<Rightarrow> nat \<Rightarrow> nat \<Rightarrow> NativeVector) \<Rightarrow>
    (nat \<Rightarrow> nat \<Rightarrow> nat \<Rightarrow> nat \<Rightarrow> NativeVector) \<Rightarrow> (nat \<Rightarrow> nat \<Rightarrow> nat \<Rightarrow> nat \<Rightarrow> NativeVector) \<Rightarrow> bool" where
  "binfhe_samples Q K n qKS E Eks ksNoise ksUnif bsUnif bsNoise \<longleftrightarrow>
     (\<forall>i j k. ksNoise i j k < qKS \<and> \<bar>centered qKS (ksNoise i j k)\<bar> \<le> Eks \<and> nv_wf (ksUnif i j k) \<and> m_modulus (ksUnif i j k) = qKS \<and> length (m_data (ksUnif i j k)) = n)
     \<and> (\<forall>i j k r. \<exists>a e. sampled Q K (bsUnif i j k r) a \<and> sampled Q K (bsNoise i j k r) e \<and> rbound E e)"

text \<open>The noise of an accumulation for the bootstrapping method of the parameters.\<close>

definition acc_noise :: "(NativeInt \<Rightarrow> usint \<Rightarrow> nat) \<Rightarrow> RingGSWCryptoParams \<Rightarrow> nat \<Rightarrow> nat \<Rightarrow> nat \<Rightarrow> nat \<Rightarrow> int \<Rightarrow> int \<Rightarrow> int" where
  "acc_noise dcount rg n K g D E Z =
     (if rg_method rg = GINX then int n * (4 * int D * 2 ^ K * 2 ^ g * E)
      else int (n * dcount (rg_q rg) (rg_baseR rg)) * (2 ^ K * (2 ^ (g - 1) * (2 * int D * E + Z))))"

lemma rbound_nonneg: "rbound b c \<Longrightarrow> length c = 2 ^ K \<Longrightarrow> 0 \<le> b"
  by (metis abs_ge_zero order_trans rbound_nth zero_less_numeral zero_less_power)

lemma ks_key_cong:
  assumes "ks_key Q key keyN B D e K" "\<And>i j k. rcong (uint Q) (e i j k) (e' i j k)"
  shows "ks_key Q key keyN B D e' K"
proof -
  have "ks_entry Q key (x + e i j k) A b \<Longrightarrow> ks_entry Q key (x + e' i j k) A b" for x A b i j k
    unfolding ks_entry_def using rcong_trans [OF _ rcong_add [OF rcong_refl [of _ x] assms(2) [of i j k]]] by simp
  then show ?thesis using assms(1) unfolding ks_key_def by (elim exE conjE) (intro exI conjI allI impI, assumption+, simp)
qed

lemma KeyGenAcc_ready:
  assumes set: "binfhe_setup dcount Q K psi g D Z params sk skN md" and smp: "\<And>i j k r. \<exists>a e. sampled Q K (bsUnif i j k r) a \<and> sampled Q K (bsNoise i j k r) e \<and> rbound E e"
    and rg: "rgsw_params Q K psi g D rg" "rg_polyParams rg = rg_polyParams (m_RGSWParams params)" "rg_q rg = md" "rg_baseR rg = rg_baseR (m_RGSWParams params)"
      "rg_method (m_RGSWParams params) = GINX \<longrightarrow> monomials_ok Q K psi (rg_polyParams rg) (rg_monomials rg)"
      "rg_method (m_RGSWParams params) = AP \<longrightarrow> rg_digitsR rg = digitsKS (rg_baseR rg) (dcount md (rg_baseR rg))"
    and sch: "ACCscheme sch = Some (rg_method (m_RGSWParams params))" and T: "tables_ok Q K psi T"
    and z: "poly_is Q K psi (rg_polyParams rg) EVALUATION skNPoly z" "rbound Z z"
  shows "\<exists>bs T'. ACC_KeyGenAcc arb sch rg skNPoly sk bsUnif bsNoise T = Inr (bs, T') \<and> tables_ok Q K psi T'
    \<and> acc_ready Q K psi rg z (int_key sk) md (acc_noise dcount (m_RGSWParams params) (length (int_key sk)) K g D E Z) (sch, bs)"
proof -
  obtain \<alpha> \<epsilon> where ae: "\<And>i j k r. sampled Q K (bsUnif i j k r) (\<alpha> i j k r) \<and> sampled Q K (bsNoise i j k r) (\<epsilon> i j k r) \<and> rbound E (\<epsilon> i j k r)"
    using smp by metis
  have s: "rg_q (m_RGSWParams params) = md" "nv_wf (m_s sk)" "uint (m_modulus (m_s sk)) < 2 ^ 31" "10 \<le> K" "uint md dvd 2 ^ Suc K" "md \<noteq> 0"
    using set by (simp_all add: binfhe_setup_def Let_def)
  have zl: "length z = 2 ^ K" by (rule poly_is_len [OF z(1)])
  have pos: "0 \<le> Z" "0 \<le> E" using rbound_nonneg [OF z(2) zl] rbound_nonneg [of E "\<epsilon> 0 0 0 0" K] ae [of 0 0 0 0] by (auto simp: sampled_def)
  consider "rg_method (m_RGSWParams params) = GINX" "4 \<le> D" "set (int_key sk) \<subseteq> {0, 1, - 1}"
    | "rg_method (m_RGSWParams params) = AP" "0 < unat (rg_baseR rg)" "unat md \<le> unat (rg_baseR rg) ^ dcount md (rg_baseR rg)"
      "\<And>k. k < dcount md (rg_baseR rg) \<Longrightarrow> unat (rg_baseR rg) ^ k < 2 ^ 31"
    using set unfolding binfhe_setup_def Let_def rg(4) by (elim conjE disjE) simp_all
  then show ?thesis
  proof cases
    case 1
    obtain ek T' where k: "KeyGenAcc_CGGI arb rg skNPoly sk (\<lambda>i b. bsUnif 0 b i) (\<lambda>i b. bsNoise 0 b i) T = Inr (ek, T')" "tables_ok Q K psi T'"
        "cggi_key Q K psi (rg_polyParams rg) g D E z (int_key sk) ek"
      using KeyGenAcc_CGGI_correct [where unif = "\<lambda>i b. bsUnif 0 b i" and noise = "\<lambda>i b. bsNoise 0 b i" and \<alpha> = "\<lambda>i b. \<alpha> 0 b i" and \<epsilon> = "\<lambda>i b. \<epsilon> 0 b i" and arb = arb,
          OF rg(1) T z(1) ae s(2,3) 1(3)] by blast
    have "cggi_ready Q K psi rg z (int_key sk) md (acc_noise dcount (m_RGSWParams params) (length (int_key sk)) K g D E Z) ek"
      unfolding cggi_ready_def acc_noise_def using rg(1,5) 1(1,2) s(4) zl k(3) by auto
    then show ?thesis using k(1,2) 1(1) by (simp add: ACC_KeyGenAcc_def sch acc_ready_def)
  next
    case 2
    obtain ek T' where k: "KeyGenAcc_DM arb rg skNPoly sk bsUnif bsNoise T = Inr (ek, T')" "tables_ok Q K psi T'"
        "dm_key Q K psi (rg_polyParams rg) g D E z (unat (rg_baseR rg)) (dcount md (rg_baseR rg)) (2 ^ Suc K div uint (rg_q rg)) (int_key sk) ek"
      using KeyGenAcc_DM_correct [where unif = bsUnif and noise = bsNoise and \<alpha> = \<alpha> and \<epsilon> = \<epsilon> and arb = arb, OF rg(1) T z(1) ae s(2,3) _ _ refl 2(2) _ 2(4)]
        rg(6) 2(1) s(5,6) unfolding rg(3) by blast
    have cnt: "length (rg_digitsR rg) = dcount md (rg_baseR rg)" using rg(6) 2(1) by (simp add: digitsKS_eq)
    have "dm_ready Q K psi rg z (int_key sk) md (acc_noise dcount (m_RGSWParams params) (length (int_key sk)) K g D E Z) ek"
      unfolding dm_ready_def acc_noise_def
      by (intro exI [of _ g] exI [of _ D] exI [of _ E] exI [of _ Z] exI [of _ "unat (rg_baseR rg)"] exI [of _ "dcount md (rg_baseR rg)"])
        (use rg(1,3) z(2) zl pos 2 cnt k(3) s(1) rg(4) in simp)
    moreover have "ACC_cell (ACC_DM ek) = ek" by (simp add: fun_eq_iff)
    ultimately show ?thesis using k(1,2) 2(1) by (simp add: ACC_KeyGenAcc_def sch acc_ready_def)
  qed
qed

lemma KeyGen_ready:
  assumes set: "binfhe_setup dcount Q K psi g D Z params sk skN md" and sch: "BinFHEScheme_new (rg_method (m_RGSWParams params)) = Inr sch"
    and smp: "binfhe_samples Q K (length (int_key sk)) (m_qKS (m_LWEParams params)) E Eks ksNoise ksUnif bsUnif bsNoise" and T: "tables_ok Q K psi T"
  shows "\<exists>rg T1 EK T2. RGSW_PreCompute arb dcount False (m_RGSWParams params) T = Inr (rg, T1)
    \<and> BinFHE_KeyGen arb dcount sch skN ksNoise ksUnif bsUnif bsNoise (params\<lparr>m_RGSWParams := rg\<rparr>) sk T1 = Inr (EK, T2) \<and> tables_ok Q K psi T2
    \<and> bt_ready dcount sch (params\<lparr>m_RGSWParams := rg\<rparr>) Q K psi (int_key sk) (int_key \<lparr>m_s = skN\<rparr>) md
        (acc_noise dcount (m_RGSWParams params) (length (int_key sk)) K g D E Z) Eks EK"
proof -
  let ?lwe = "m_LWEParams params" and ?rg = "m_RGSWParams params" and ?z = "int_key \<lparr>m_s = skN\<rparr>" and ?p = "m_qKS (m_LWEParams params)"
  have s: "rgsw_fresh Q K psi g D ?rg" "rg_q ?rg = md" "m_Q ?lwe = Q" "m_N ?lwe = of_nat (2 ^ K)" "unat (m_n ?lwe) = length (int_key sk)"
      "lwe_modulus (length (int_key sk)) ?p" "m_baseKS ?lwe \<noteq> 0" "unat (m_baseKS ?lwe) ^ dcount ?p (m_baseKS ?lwe) < 2 ^ 64"
      "unat ?p \<le> unat (m_baseKS ?lwe) ^ dcount ?p (m_baseKS ?lwe)" "nv_wf (m_s sk)" "nv_wf skN" "m_modulus skN = Q" "length (m_data skN) = 2 ^ K" "rbound Z ?z"
    using set by (simp_all add: binfhe_setup_def Let_def)
  have md: "8 \<le> Q" "8 dvd uint md" "uint md dvd 2 ^ Suc K" "md \<noteq> 0" "uint md * uint ?p \<le> 2 ^ 50" "uint ?p * uint Q \<le> 2 ^ 50"
    using set by (simp_all add: binfhe_setup_def Let_def)
  obtain rg T1 where p: "RGSW_PreCompute arb dcount False ?rg T = Inr (rg, T1)" "tables_ok Q K psi T1" "rgsw_params Q K psi g D rg"
      "rg_polyParams rg = rg_polyParams ?rg" "rg_gateConst rg = gate_constants md" "rg_q rg = md" "rg_baseR rg = rg_baseR ?rg"
      "rg_method ?rg = GINX \<longrightarrow> monomials_ok Q K psi (rg_polyParams rg) (rg_monomials rg)"
      "rg_method ?rg = AP \<longrightarrow> rg_digitsR rg = digitsKS (rg_baseR rg) (dcount md (rg_baseR rg))"
    using PreCompute_correct [OF s(1) T, of arb dcount] unfolding s(2) by auto
  have ok: "ring_ok Q K psi (rg_polyParams rg)" using p(3) by (simp add: rgsw_params_def)
  note ring = ring_ok_dest [OF ok]
  have K24: "K \<le> 24" using ring(1) by (simp add: ntt_params_def)
  have smp1: "nv_wf (ksUnif i j k) \<and> m_modulus (ksUnif i j k) = ?p \<and> length (m_data (ksUnif i j k)) = length (int_key sk)" for i j k
    using smp by (simp add: binfhe_samples_def)
  have smp2: "rcong (uint ?p) (uint (ksNoise i j k)) (centered ?p (ksNoise i j k))" "\<bar>centered ?p (ksNoise i j k)\<bar> \<le> Eks" for i j k
    using smp by (simp_all add: binfhe_samples_def centered_lt)
  have smp3: "\<exists>a e. sampled Q K (bsUnif i j k r) a \<and> sampled Q K (bsNoise i j k r) e \<and> rbound E e" for i j k r using smp by (simp add: binfhe_samples_def)
  have zl: "length ?z = 2 ^ K" by (simp add: int_key_def s(13))
  have N: "unat (m_N ?lwe) = length ?z" using ring_dims(1) [OF K24] by (simp add: s(4) zl)
  obtain ks where ks: "LWE_KeySwitchGen dcount ksNoise ksUnif ?lwe sk \<lparr>m_s = skN\<rparr> = Inr ks"
      "ks_key ?p (int_key sk) ?z (unat (m_baseKS ?lwe)) (dcount ?p (m_baseKS ?lwe)) (\<lambda>i j k. uint (ksNoise i j k)) ks"
    using KeySwitchGen_correct [where dcount = dcount and unif = ksUnif and noise = ksNoise and skN = "\<lparr>m_s = skN\<rparr>", OF s(10) _ s(5) N s(6,8) smp1] s(11) by auto
  have ksr: "ks_ready dcount ?lwe (int_key sk) ?z Eks (Some ks)"
    unfolding ks_ready_def using s(5,7,9) N lwe_modulus_size [OF s(6)] ks_key_cong [OF ks(2) smp2(1)] smp2(2) by blast
  have abs: "nv_abs skN = rmod Q ?z"
    using s(11,12) by (intro nth_equalityI) (auto simp: nv_abs_def int_key_def nv_wf_def list_all_length centered_mod word_less_def)
  have skp: "poly_is Q K psi (rg_polyParams rg) COEFFICIENT \<lparr>m_values = Some skN, m_format = COEFFICIENT, m_params = rg_polyParams rg\<rparr> ?z"
    using s(11-13) by (intro poly_isI_coef ok abs zl) (simp add: holds_vector_def NV_GetLength_def)
  obtain skNPoly T2 where sk2: "Poly_SetFormat arb \<lparr>m_values = Some skN, m_format = COEFFICIENT, m_params = rg_polyParams rg\<rparr> EVALUATION T1 = Inr (skNPoly, T2)"
      "tables_ok Q K psi T2" "poly_is Q K psi (rg_polyParams rg) EVALUATION skNPoly ?z"
    using poly_is_SetFormat [OF skp p(2)] by blast
  have psi: "rootOfUnity (rg_polyParams rg) \<noteq> 0" using primitive_root_proper [OF ring(1)] ok by (simp add: ring_ok_def ring_params_def)
  have acs: "ACCscheme sch = Some (rg_method ?rg)" using sch by (auto simp: BinFHEScheme_new_def split: if_splits)
  obtain bs T3 where bs: "ACC_KeyGenAcc arb sch rg skNPoly sk bsUnif bsNoise T2 = Inr (bs, T3)" "tables_ok Q K psi T3"
      "acc_ready Q K psi rg ?z (int_key sk) md (acc_noise dcount ?rg (length (int_key sk)) K g D E Z) (sch, bs)"
    using KeyGenAcc_ready [where bsUnif = bsUnif and bsNoise = bsNoise and arb = arb, OF set smp3 p(3,4,6-9) acs sk2(2,3) s(14)] by blast
  have "BinFHE_KeyGen arb dcount sch skN ksNoise ksUnif bsUnif bsNoise (params\<lparr>m_RGSWParams := rg\<rparr>) sk T1 = Inr (\<lparr>BSkey = Some bs, KSkey = Some ks\<rparr>, T3)"
    using ks(1) sk2(1) bs(1) psi s(12,13) ring(5,6) by (simp add: BinFHE_KeyGen_def Poly_new_def Poly_SetValues_def NV_GetLength_def NV_GetModulus_def)
  moreover have "bt_ready dcount sch (params\<lparr>m_RGSWParams := rg\<rparr>) Q K psi (int_key sk) ?z md (acc_noise dcount ?rg (length (int_key sk)) K g D E Z) Eks \<lparr>BSkey = Some bs, KSkey = Some ks\<rparr>"
    unfolding bt_ready_def using s(3,4) md p(5) ksr bs(3) by simp
  ultimately show ?thesis using p(1) bs(2) by blast
qed

section \<open>Encrypted logic\<close>

lemma small_cipher_decrypts:
  assumes "small_cipher (int_key sk) md ct a" "decrypt_ok sk 4 md" "8 dvd uint md"
  shows "LWE_Decrypt sk ct 4 = Inr (of_bool a)"
proof -
  obtain e where c: "lwe_wf (length (int_key sk)) ct" "LWE_GetModulus ct = md" "rcong (uint md) (lwe_phase (int_key sk) ct) (of_bool a * (uint md div 4) + e)" "32 * \<bar>e\<bar> < uint md"
    using assms(1) by (auto simp: small_cipher_def bit_cipher_def)
  have enc: "lwe_encrypts sk 4 ct (of_bool a) e" using c by (simp add: lwe_encrypts_def)
  obtain r where r: "uint md = 8 * r" using assms(3) by (auto simp: dvd_def)
  have "noise_ok (uint (4 :: NativeInt)) (uint md) e" using c(4) by (simp add: noise_ok_def r abs_if split: if_splits)
  then show ?thesis using lwe_encrypts_decrypts [OF _ _ enc] assms(2) by (cases a) (simp_all add: c(2))
qed

text \<open>
  C1: bootstrapped gates compute the truth table. From fresh parameters of either bootstrapping method the precomputation and \<open>KeyGen\<close> succeed, and
  with the keys they give, \<open>EvalBinGate\<close> on two distinct ciphertext objects of bits with noise below a 32nd of the modulus returns, for every gate, a
  ciphertext of the gate's value that decrypts to it and whose noise is again below a 32nd, so that it can be the input of further gates.
  \<open>noise_fits\<close> is the condition on the sizes: the noise of the accumulation, of the key switching and of the two modulus switchings is, in the worst
  case, small against the modulus. \<open>binfhe_setup\<close> is the condition on the parameters and secrets; it includes \<open>gadget_ok\<close>: the gadget digits cover the coefficients.
\<close>

theorem EvalBinGate_correct:
  assumes set: "binfhe_setup dcount Q K psi g D Z params sk skN md" and sch: "BinFHEScheme_new (rg_method (m_RGSWParams params)) = Inr sch"
    and smp: "binfhe_samples Q K (length (int_key sk)) (m_qKS (m_LWEParams params)) E Eks ksNoise ksUnif bsUnif bsNoise" and T: "tables_ok Q K psi T"
    and fits: "noise_fits dcount (m_LWEParams params) (int_key sk) (int_key \<lparr>m_s = skN\<rparr>) md (acc_noise dcount (m_RGSWParams params) (length (int_key sk)) K g D E Z) Eks"
    and dec: "decrypt_ok sk 4 md"
  shows "\<exists>rg T1 EK T2. RGSW_PreCompute arb dcount False (m_RGSWParams params) T = Inr (rg, T1)
    \<and> BinFHE_KeyGen arb dcount sch skN ksNoise ksUnif bsUnif bsNoise (params\<lparr>m_RGSWParams := rg\<rparr>) sk T1 = Inr (EK, T2) \<and> tables_ok Q K psi T2
    \<and> (\<forall>gate ct1 ct2 a b T. tables_ok Q K psi T \<longrightarrow> small_cipher (int_key sk) md ct1 a \<longrightarrow> small_cipher (int_key sk) md ct2 b \<longrightarrow>
        (\<exists>ct T'. EvalBinGate arb dcount sch (params\<lparr>m_RGSWParams := rg\<rparr>) gate EK False ct1 ct2 T = Inr (ct, T') \<and> tables_ok Q K psi T'
          \<and> small_cipher (int_key sk) md ct (gate_fun gate a b) \<and> LWE_Decrypt sk ct 4 = Inr (of_bool (gate_fun gate a b))))"
proof -
  have K: "10 \<le> K" and md: "8 dvd uint md" using set by (simp_all add: binfhe_setup_def Let_def)
  obtain rg T1 EK T2 where k: "RGSW_PreCompute arb dcount False (m_RGSWParams params) T = Inr (rg, T1)"
      "BinFHE_KeyGen arb dcount sch skN ksNoise ksUnif bsUnif bsNoise (params\<lparr>m_RGSWParams := rg\<rparr>) sk T1 = Inr (EK, T2)" "tables_ok Q K psi T2"
      "bt_ready dcount sch (params\<lparr>m_RGSWParams := rg\<rparr>) Q K psi (int_key sk) (int_key \<lparr>m_s = skN\<rparr>) md
        (acc_noise dcount (m_RGSWParams params) (length (int_key sk)) K g D E Z) Eks EK"
    using KeyGen_ready [OF set sch smp T] by blast
  have "\<exists>ct T'. EvalBinGate arb dcount sch (params\<lparr>m_RGSWParams := rg\<rparr>) gate EK False ct1 ct2 T = Inr (ct, T') \<and> tables_ok Q K psi T'
      \<and> small_cipher (int_key sk) md ct (gate_fun gate a b) \<and> LWE_Decrypt sk ct 4 = Inr (of_bool (gate_fun gate a b))"
    if "tables_ok Q K psi T" "small_cipher (int_key sk) md ct1 a" "small_cipher (int_key sk) md ct2 b" for gate ct1 ct2 a b T
    using EvalBinGate_small [OF k(4) that(1) K _ that(2,3), of arb gate] fits small_cipher_decrypts [OF _ dec md] by fastforce
  then show ?thesis using k(1-3) by blast
qed

text \<open>
  Circuits over the inputs of a program, evaluated with the gates of the scheme. Every input is one ciphertext object and every gate and negation
  returns a new one (\<open>std::make_shared\<close>), so the pointers that \<open>EvalBinGate\<close> compares are equal exactly when both operands are the same input.
\<close>

datatype circuit = Input nat | Not circuit | Gate BINGATE circuit circuit

fun circuit_value :: "(nat \<Rightarrow> bool) \<Rightarrow> circuit \<Rightarrow> bool" where
  "circuit_value env (Input i) = env i"
| "circuit_value env (Not c) = (\<not> circuit_value env c)"
| "circuit_value env (Gate gate c d) = gate_fun gate (circuit_value env c) (circuit_value env d)"

fun same_operand :: "circuit \<Rightarrow> circuit \<Rightarrow> bool" where
  "same_operand (Input i) (Input j) = (i = j)"
| "same_operand _ _ = False"

fun circuit_ok :: "circuit \<Rightarrow> bool" where
  "circuit_ok (Input i) = True"
| "circuit_ok (Not c) = circuit_ok c"
| "circuit_ok (Gate gate c d) = (circuit_ok c \<and> circuit_ok d \<and> \<not> same_operand c d)"

fun circuit_eval :: "arb_transform \<Rightarrow> (NativeInt \<Rightarrow> usint \<Rightarrow> nat) \<Rightarrow> BinFHEScheme \<Rightarrow> BinFHECryptoParams \<Rightarrow> RingGSWBTKey \<Rightarrow> (nat \<Rightarrow> LWECiphertext) \<Rightarrow>
    circuit \<Rightarrow> FTTTables \<Rightarrow> (LWECiphertext \<times> FTTTables) result" where
  "circuit_eval arb dcount sch params EK cts (Input i) T = Inr (cts i, T)"
| "circuit_eval arb dcount sch params EK cts (Not c) T =
     res_bind (circuit_eval arb dcount sch params EK cts c T) (\<lambda>(ct, T). res_bind (EvalNOT ct) (\<lambda>ct. Inr (ct, T)))"
| "circuit_eval arb dcount sch params EK cts (Gate gate c d) T =
     res_bind (circuit_eval arb dcount sch params EK cts c T) (\<lambda>(ct1, T).
     res_bind (circuit_eval arb dcount sch params EK cts d T) (\<lambda>(ct2, T).
     EvalBinGate arb dcount sch params gate EK (same_operand c d) ct1 ct2 T))"

lemma circuit_small:
  assumes bt: "bt_ready dcount sch params Q K psi key z md \<beta> E EK" and K: "10 \<le> K" and fits: "noise_fits dcount (m_LWEParams params) key z md \<beta> E"
    and inp: "\<And>i. small_cipher key md (cts i) (env i)"
  shows "tables_ok Q K psi T \<Longrightarrow> if circuit_ok c
    then \<exists>ct T'. circuit_eval arb dcount sch params EK cts c T = Inr (ct, T') \<and> tables_ok Q K psi T' \<and> small_cipher key md ct (circuit_value env c)
    else circuit_eval arb dcount sch params EK cts c T = Inl config_error"
proof (induction c arbitrary: T)
  case (Input i)
  then show ?case using inp by simp
next
  case (Not c)
  have "8 dvd uint md" using bt by (simp add: bt_ready_def)
  then show ?case using Not.IH [OF Not.prems] NOT_small by (fastforce split: if_splits)
next
  case (Gate gate c d)
  show ?case
  proof (cases "circuit_ok c")
    case True
    then obtain ct1 T1 where 1: "circuit_eval arb dcount sch params EK cts c T = Inr (ct1, T1)" "tables_ok Q K psi T1" "small_cipher key md ct1 (circuit_value env c)"
      using Gate.IH(1) [OF Gate.prems] by auto
    show ?thesis
    proof (cases "circuit_ok d")
      case True
      then obtain ct2 T2 where 2: "circuit_eval arb dcount sch params EK cts d T1 = Inr (ct2, T2)" "tables_ok Q K psi T2" "small_cipher key md ct2 (circuit_value env d)"
        using Gate.IH(2) [OF 1(2)] by auto
      show ?thesis using EvalBinGate_small [OF bt 2(2) K fits 1(3) 2(3), of arb gate] 1(1) 2(1) True \<open>circuit_ok c\<close>
        by (auto simp: EvalBinGate_def)
    qed (use Gate.IH(2) [OF 1(2)] 1(1) in simp)
  qed (use Gate.IH(1) [OF Gate.prems] in simp)
qed

text \<open>
  C2: circuits of any depth. With keys from \<open>PreCompute\<close> and \<open>KeyGen\<close>, parameters as in \<open>binfhe_setup\<close> and the worst-case noise condition
  \<open>noise_fits\<close>, the gates composed along a Boolean circuit in which no gate has the same input as both operands compute its value: the evaluation on ciphertexts of the
  inputs (noise below a 32nd of the modulus) succeeds and its result decrypts to the value of the circuit, however many gates there are, because every gate
  refreshes the noise. A circuit with such a gate ends in the \<open>config_error\<close> of the guard \<open>ct1 == ct2\<close> of \<open>EvalBinGate\<close>.
\<close>

theorem circuit_correct:
  assumes set: "binfhe_setup dcount Q K psi g D Z params sk skN md" and sch: "BinFHEScheme_new (rg_method (m_RGSWParams params)) = Inr sch"
    and smp: "binfhe_samples Q K (length (int_key sk)) (m_qKS (m_LWEParams params)) E Eks ksNoise ksUnif bsUnif bsNoise" and T: "tables_ok Q K psi T"
    and fits: "noise_fits dcount (m_LWEParams params) (int_key sk) (int_key \<lparr>m_s = skN\<rparr>) md (acc_noise dcount (m_RGSWParams params) (length (int_key sk)) K g D E Z) Eks"
    and dec: "decrypt_ok sk 4 md" and inp: "\<And>i. small_cipher (int_key sk) md (cts i) (env i)"
  shows "\<exists>rg T1 EK T2. RGSW_PreCompute arb dcount False (m_RGSWParams params) T = Inr (rg, T1)
    \<and> BinFHE_KeyGen arb dcount sch skN ksNoise ksUnif bsUnif bsNoise (params\<lparr>m_RGSWParams := rg\<rparr>) sk T1 = Inr (EK, T2)
    \<and> (\<forall>c. if circuit_ok c
        then \<exists>ct T3. circuit_eval arb dcount sch (params\<lparr>m_RGSWParams := rg\<rparr>) EK cts c T2 = Inr (ct, T3) \<and> LWE_Decrypt sk ct 4 = Inr (of_bool (circuit_value env c))
        else circuit_eval arb dcount sch (params\<lparr>m_RGSWParams := rg\<rparr>) EK cts c T2 = Inl config_error)"
proof -
  have K: "10 \<le> K" and md: "8 dvd uint md" using set by (simp_all add: binfhe_setup_def Let_def)
  obtain rg T1 EK T2 where k: "RGSW_PreCompute arb dcount False (m_RGSWParams params) T = Inr (rg, T1)"
      "BinFHE_KeyGen arb dcount sch skN ksNoise ksUnif bsUnif bsNoise (params\<lparr>m_RGSWParams := rg\<rparr>) sk T1 = Inr (EK, T2)" "tables_ok Q K psi T2"
      "bt_ready dcount sch (params\<lparr>m_RGSWParams := rg\<rparr>) Q K psi (int_key sk) (int_key \<lparr>m_s = skN\<rparr>) md
        (acc_noise dcount (m_RGSWParams params) (length (int_key sk)) K g D E Z) Eks EK"
    using KeyGen_ready [OF set sch smp T] by blast
  have f: "noise_fits dcount (m_LWEParams (params\<lparr>m_RGSWParams := rg\<rparr>)) (int_key sk) (int_key \<lparr>m_s = skN\<rparr>) md
      (acc_noise dcount (m_RGSWParams params) (length (int_key sk)) K g D E Z) Eks" using fits by simp
  have "if circuit_ok c
      then \<exists>ct T3. circuit_eval arb dcount sch (params\<lparr>m_RGSWParams := rg\<rparr>) EK cts c T2 = Inr (ct, T3) \<and> LWE_Decrypt sk ct 4 = Inr (of_bool (circuit_value env c))
      else circuit_eval arb dcount sch (params\<lparr>m_RGSWParams := rg\<rparr>) EK cts c T2 = Inl config_error" for c
    using circuit_small [where cts = cts and env = env and arb = arb and c = c, OF k(4) K f inp k(3)] small_cipher_decrypts [OF _ dec md] by (cases "circuit_ok c") auto
  then show ?thesis using k(1,2) by blast
qed

text \<open>
  C17: with keys from \<open>PreCompute\<close> and \<open>KeyGen\<close>, parameters as in \<open>binfhe_setup\<close> (which includes \<open>gadget_ok\<close>) and the worst-case noise condition
  \<open>noise_fits\<close>, \<open>Bootstrap\<close> refreshes a ciphertext: a bit with any noise that still decrypts, up to an eighth of the modulus, becomes a ciphertext of the
  same bit with noise below a 32nd. The condition \<open>noise_fits\<close> bounds every error term by its maximum at once: parameter sets of \<open>binfhecontext.cpp\<close>, chosen for
  the probable size of the noise, need not satisfy it with non-zero key noise.
\<close>

theorem Bootstrap_refreshes:
  assumes set: "binfhe_setup dcount Q K psi g D Z params sk skN md" and sch: "BinFHEScheme_new (rg_method (m_RGSWParams params)) = Inr sch"
    and smp: "binfhe_samples Q K (length (int_key sk)) (m_qKS (m_LWEParams params)) E Eks ksNoise ksUnif bsUnif bsNoise" and T: "tables_ok Q K psi T"
    and fits: "noise_fits dcount (m_LWEParams params) (int_key sk) (int_key \<lparr>m_s = skN\<rparr>) md (acc_noise dcount (m_RGSWParams params) (length (int_key sk)) K g D E Z) Eks"
    and ct: "bit_cipher (int_key sk) md ct a e" "- (uint md div 8) \<le> e" "e < uint md div 8"
  shows "\<exists>rg T1 EK T2 ct' T3. RGSW_PreCompute arb dcount False (m_RGSWParams params) T = Inr (rg, T1)
    \<and> BinFHE_KeyGen arb dcount sch skN ksNoise ksUnif bsUnif bsNoise (params\<lparr>m_RGSWParams := rg\<rparr>) sk T1 = Inr (EK, T2)
    \<and> Bootstrap arb dcount sch (params\<lparr>m_RGSWParams := rg\<rparr>) EK ct T2 = Inr (ct', T3) \<and> small_cipher (int_key sk) md ct' a"
proof -
  have K: "10 \<le> K" using set by (simp add: binfhe_setup_def Let_def)
  obtain rg T1 EK T2 where k: "RGSW_PreCompute arb dcount False (m_RGSWParams params) T = Inr (rg, T1)"
      "BinFHE_KeyGen arb dcount sch skN ksNoise ksUnif bsUnif bsNoise (params\<lparr>m_RGSWParams := rg\<rparr>) sk T1 = Inr (EK, T2)" "tables_ok Q K psi T2"
      "bt_ready dcount sch (params\<lparr>m_RGSWParams := rg\<rparr>) Q K psi (int_key sk) (int_key \<lparr>m_s = skN\<rparr>) md
        (acc_noise dcount (m_RGSWParams params) (length (int_key sk)) K g D E Z) Eks EK"
    using KeyGen_ready [OF set sch smp T] by blast
  show ?thesis using Bootstrap_small [OF k(4,3) K _ ct, of arb] fits k(1,2) by auto
qed

section \<open>A sample run\<close>

definition sample_dcount :: "NativeInt \<Rightarrow> usint \<Rightarrow> nat" where
  "sample_dcount q base = 4"

definition sample_skN :: NativeVector where
  "sample_skN = \<lparr>m_data = 1 # replicate 1023 0, m_modulus = 12289\<rparr>"

definition sample_binfhe :: BinFHECryptoParams where
  "sample_binfhe = \<lparr>m_LWEParams = \<lparr>m_n = 2, m_N = 1024, m_q = 2048, m_Q = 12289, m_qKS = 16384, m_baseKS = 16\<rparr>, m_RGSWParams = big_rgsw\<rparr>"

definition sample_ksUnif :: NativeVector where
  "sample_ksUnif = \<lparr>m_data = [77, 1000], m_modulus = 16384\<rparr>"

abbreviation sample_scheme :: BinFHEScheme where
  "sample_scheme \<equiv> \<lparr>ACCscheme = Some GINX\<rparr>"

abbreviation sample_ks_noise :: "nat \<Rightarrow> nat \<Rightarrow> nat \<Rightarrow> NativeInt" where
  "sample_ks_noise \<equiv> \<lambda>_ _ _. 0"

abbreviation sample_ks_unif :: "nat \<Rightarrow> nat \<Rightarrow> nat \<Rightarrow> NativeVector" where
  "sample_ks_unif \<equiv> \<lambda>_ _ _. sample_ksUnif"

abbreviation sample_zeros :: "nat \<Rightarrow> nat \<Rightarrow> nat \<Rightarrow> nat \<Rightarrow> NativeVector" where
  "sample_zeros \<equiv> \<lambda>_ _ _ _. zero_sample 12289 10"

definition sample_bit :: "bool \<Rightarrow> LWECiphertext" where
  "sample_bit a = \<lparr>m_a = \<lparr>m_data = [5, 9], m_modulus = 2048\<rparr>, m_b = (if a then 511 else 2047)\<rparr>"

lemma sample_sizes_msb: "GetMSB 12289 = 14" "GetMSB 16384 = 15" "GetMSB 2048 = 12"
  by code_simp+

lemma sample_ring_key: "int_key \<lparr>m_s = sample_skN\<rparr> = 1 # replicate 1023 0" "nv_wf sample_skN"
  by (simp_all add: sample_skN_def int_key_def centered_def nv_wf_def sample_sizes_msb MAX_MODULUS_SIZE_def list_all_iff)

lemma sample_setup: "binfhe_setup sample_dcount 12289 10 7 4 4 1 sample_binfhe sample_lwe_sk sample_skN 2048"
proof -
  have l: "lwe_modulus 2 16384" by (simp add: lwe_modulus_def barrett_modulus_def sample_sizes_msb)
  have z: "rbound 1 (int_key \<lparr>m_s = sample_skN\<rparr>)" by (simp add: sample_ring_key rbound_def list_all_iff)
  have f: "rgsw_fresh 12289 10 7 4 4 (m_RGSWParams sample_binfhe)" using big_fresh by (simp add: sample_binfhe_def)
  have k: "length (int_key sample_lwe_sk) = 2" "set (int_key sample_lwe_sk) \<subseteq> {0, 1, - 1}" by (simp_all add: sample_lwe_key)
  show ?thesis
    unfolding binfhe_setup_def Let_def k(1) using l z f k(2) sample_lwe_key(2,3) sample_ring_key(2)
    by (simp add: sample_binfhe_def sample_dcount_def big_rgsw_def sample_skN_def)
qed

lemma sample_samples: "binfhe_samples 12289 10 (length (int_key sample_lwe_sk)) (m_qKS (m_LWEParams sample_binfhe)) 0 0 sample_ks_noise sample_ks_unif sample_zeros sample_zeros"
  unfolding binfhe_samples_def using sampled_zero [of 12289 10]
  by (auto simp: sample_lwe_key sample_binfhe_def centered_def sample_ksUnif_def nv_wf_def sample_sizes_msb MAX_MODULUS_SIZE_def)

lemma sample_fits: "noise_fits sample_dcount (m_LWEParams sample_binfhe) (int_key sample_lwe_sk) (int_key \<lparr>m_s = sample_skN\<rparr>) 2048
    (acc_noise sample_dcount (m_RGSWParams sample_binfhe) (length (int_key sample_lwe_sk)) 10 4 4 0 1) 0"
proof -
  have "(\<Sum>s\<leftarrow>int_key \<lparr>m_s = sample_skN\<rparr>. \<bar>s\<bar>) = 1"
    by (simp add: sample_ring_key(1) sum_list_replicate)
  then show ?thesis
    by (simp add: noise_fits_def gate_noise_def switch_noise_def sample_binfhe_def acc_noise_def big_rgsw_def sample_lwe_key)
qed

lemma sample_bits: "bit_cipher (int_key sample_lwe_sk) 2048 (sample_bit a) a 3" "small_cipher (int_key sample_lwe_sk) 2048 (sample_bit a) a"
  "decrypt_ok sample_lwe_sk 4 2048"
proof -
  show b: "bit_cipher (int_key sample_lwe_sk) 2048 (sample_bit a) a 3"
    by (simp add: bit_cipher_def sample_lwe_key lwe_wf_def nv_wf_def sample_bit_def LWE_GetModulus_def NV_GetModulus_def sample_sizes_msb MAX_MODULUS_SIZE_def
        lwe_phase_def dot_def nv_abs_def rcong_def)
  show "small_cipher (int_key sample_lwe_sk) 2048 (sample_bit a) a" unfolding small_cipher_def using b by (intro exI [of _ 3]) simp
  show "decrypt_ok sample_lwe_sk 4 2048"
    using sample_lwe_key(2) by (simp add: decrypt_ok_def sample_lwe_key lwe_modulus_def barrett_modulus_def sample_sizes_msb)
qed

lemma sample_scheme_new: "BinFHEScheme_new (rg_method (m_RGSWParams sample_binfhe)) = Inr sample_scheme"
  by (simp add: BinFHEScheme_new_def sample_binfhe_def big_rgsw_def)

theorem EvalBinGate_correct_witness:
  "\<exists>rg T1 EK T2 ct T3. RGSW_PreCompute sample_arb sample_dcount False (m_RGSWParams sample_binfhe) FTT_empty = Inr (rg, T1)
    \<and> BinFHE_KeyGen sample_arb sample_dcount sample_scheme sample_skN sample_ks_noise sample_ks_unif sample_zeros sample_zeros
        (sample_binfhe\<lparr>m_RGSWParams := rg\<rparr>) sample_lwe_sk T1 = Inr (EK, T2)
    \<and> EvalBinGate sample_arb sample_dcount sample_scheme (sample_binfhe\<lparr>m_RGSWParams := rg\<rparr>) NAND_gate EK False (sample_bit True) (sample_bit True) T2 = Inr (ct, T3)
    \<and> LWE_Decrypt sample_lwe_sk ct 4 = Inr 0"
proof -
  note r = EvalBinGate_correct [where arb = sample_arb, OF sample_setup sample_scheme_new sample_samples tables_ok_empty sample_fits sample_bits(3)]
  show ?thesis
  proof (rule r [THEN exE], elim exE conjE, goal_cases)
    case (1 rg T1 EK T2)
    then show ?case using 1(4) [rule_format, OF 1(3) sample_bits(2) [of True] sample_bits(2) [of True], of NAND_gate] by auto
  qed
qed

theorem circuit_correct_witness:
  "\<exists>rg T1 EK T2 ct T3. RGSW_PreCompute sample_arb sample_dcount False (m_RGSWParams sample_binfhe) FTT_empty = Inr (rg, T1)
    \<and> BinFHE_KeyGen sample_arb sample_dcount sample_scheme sample_skN sample_ks_noise sample_ks_unif sample_zeros sample_zeros
        (sample_binfhe\<lparr>m_RGSWParams := rg\<rparr>) sample_lwe_sk T1 = Inr (EK, T2)
    \<and> circuit_eval sample_arb sample_dcount sample_scheme (sample_binfhe\<lparr>m_RGSWParams := rg\<rparr>) EK (\<lambda>i. sample_bit (i = 0))
        (Gate XOR_gate (Input 0) (Not (Gate AND_gate (Input 0) (Input 1)))) T2 = Inr (ct, T3)
    \<and> LWE_Decrypt sample_lwe_sk ct 4 = Inr 0
    \<and> circuit_eval sample_arb sample_dcount sample_scheme (sample_binfhe\<lparr>m_RGSWParams := rg\<rparr>) EK (\<lambda>i. sample_bit (i = 0))
        (Not (Gate NAND_gate (Input 0) (Input 0))) T2 = Inl config_error"
proof -
  let ?good = "Gate XOR_gate (Input 0) (Not (Gate AND_gate (Input 0) (Input 1)))" and ?bad = "Not (Gate NAND_gate (Input 0) (Input 0))"
  have c: "circuit_ok ?good" "\<not> circuit_ok ?bad" "\<not> circuit_value (\<lambda>i. i = 0) ?good" by simp_all
  note r = circuit_correct [where arb = sample_arb and cts = "\<lambda>i. sample_bit (i = 0)" and env = "\<lambda>i. i = 0",
      OF sample_setup sample_scheme_new sample_samples tables_ok_empty sample_fits sample_bits(3) sample_bits(2)]
  show ?thesis
  proof (rule r [THEN exE], elim exE conjE, goal_cases)
    case (1 rg T1 EK T2)
    then show ?case using 1(3) [rule_format, of ?good] 1(3) [rule_format, of ?bad] c by (auto simp del: circuit_eval.simps circuit_ok.simps circuit_value.simps)
  qed
qed

theorem Bootstrap_refreshes_witness:
  "\<exists>rg T1 EK T2 ct T3. RGSW_PreCompute sample_arb sample_dcount False (m_RGSWParams sample_binfhe) FTT_empty = Inr (rg, T1)
    \<and> BinFHE_KeyGen sample_arb sample_dcount sample_scheme sample_skN sample_ks_noise sample_ks_unif sample_zeros sample_zeros
        (sample_binfhe\<lparr>m_RGSWParams := rg\<rparr>) sample_lwe_sk T1 = Inr (EK, T2)
    \<and> Bootstrap sample_arb sample_dcount sample_scheme (sample_binfhe\<lparr>m_RGSWParams := rg\<rparr>) EK (sample_bit True) T2 = Inr (ct, T3)
    \<and> small_cipher (int_key sample_lwe_sk) 2048 ct True"
  using Bootstrap_refreshes [where arb = sample_arb, OF sample_setup sample_scheme_new sample_samples tables_ok_empty sample_fits sample_bits(1)] by simp

end
