(* ===== verification/FuncEval.thy ===== *)
theory FuncEval
  imports GateLogic
begin

text \<open>
  Functional bootstrapping, \<open>BootstrapFunc\<close> and \<open>EvalFunc\<close> of \<open>binfhe-base-scheme.cpp\<close>: one bootstrapping evaluates a function that changes its sign after
  half a period; tables without that symmetry are evaluated with two bootstrappings, arbitrary ones after doubling the modulus.
\<close>

section \<open>Bootstrapping a function\<close>

text \<open>The keys and parameters of function evaluation; the conditions of the gates without those on the modulus.\<close>

definition func_ready :: "(NativeInt \<Rightarrow> usint \<Rightarrow> nat) \<Rightarrow> BinFHEScheme \<Rightarrow> BinFHECryptoParams \<Rightarrow> NativeInt \<Rightarrow> nat \<Rightarrow> NativeInt \<Rightarrow> int list \<Rightarrow> int list \<Rightarrow>
    NativeInt \<Rightarrow> int \<Rightarrow> int \<Rightarrow> RingGSWBTKey \<Rightarrow> bool" where
  "func_ready dcount sch params Q K psi key z md \<beta> E EK \<longleftrightarrow> m_Q (m_LWEParams params) = Q \<and> m_N (m_LWEParams params) = of_nat (2 ^ K)
     \<and> even (uint md) \<and> uint md dvd 2 ^ Suc K \<and> md \<noteq> 0 \<and> uint (m_qKS (m_LWEParams params)) * uint Q \<le> 2 ^ 50
     \<and> ks_ready dcount (m_LWEParams params) key z E (KSkey EK)
     \<and> (\<exists>ek. BSkey EK = Some ek \<and> acc_ready Q K psi (m_RGSWParams params) z key md \<beta> (sch, ek))"

lemma bt_ready_func: "bt_ready dcount sch params Q K psi key z md \<beta> E EK \<Longrightarrow> func_ready dcount sch params Q K psi key z md \<beta> E EK"
  by (auto simp: bt_ready_def func_ready_def dvd_trans [of 2 8])

text \<open>The values of a function on the residues of \<open>md\<close>, as numbers up to \<open>fmod\<close>, and that it changes its sign after half a period.\<close>

definition fun_values :: "boot_fun \<Rightarrow> NativeInt \<Rightarrow> NativeInt \<Rightarrow> (int \<Rightarrow> int) \<Rightarrow> bool" where
  "fun_values f md fmod fv \<longleftrightarrow> (\<forall>x. x < md \<longrightarrow> (\<exists>y. f x md fmod = Inr y \<and> y \<le> fmod \<and> uint y = fv (uint x)))"

definition fun_negacyclic :: "int \<Rightarrow> int \<Rightarrow> (int \<Rightarrow> int) \<Rightarrow> bool" where
  "fun_negacyclic md fmod fv \<longleftrightarrow> (\<forall>t. 0 \<le> t \<and> t < md \<longrightarrow> fmod dvd fv t + fv ((t + md div 2) mod md))"

text \<open>The output moduli: they do not divide \<open>Q\<close>, which is a prime, so that a scaled value stays below it.\<close>

definition fmod_ok :: "LWECryptoParams \<Rightarrow> NativeInt \<Rightarrow> bool" where
  "fmod_ok prm fmod \<longleftrightarrow> fmod \<noteq> 0 \<and> GetMSB fmod \<le> MAX_MODULUS_SIZE \<and> uint fmod * uint (m_qKS prm) \<le> 2 ^ 50 \<and> \<not> uint fmod dvd uint (m_Q prm)"

definition func_noise :: "(NativeInt \<Rightarrow> usint \<Rightarrow> nat) \<Rightarrow> LWECryptoParams \<Rightarrow> int list \<Rightarrow> int list \<Rightarrow> NativeInt \<Rightarrow> int \<Rightarrow> int \<Rightarrow> int" where
  "func_noise dcount prm key z fmod \<beta> E = 2 * uint fmod * uint (m_qKS prm) * (\<beta> + 3 * (uint (m_Q prm) mod uint fmod))
     + switch_noise (uint fmod) (uint (m_qKS prm)) (uint (m_Q prm)) key z (dcount (m_qKS prm) (m_baseKS prm)) E"

lemma scaled_negacyclic:
  fixes Q fm md :: int
  assumes fv: "fun_negacyclic md fm fv" "\<And>t. 0 \<le> t \<Longrightarrow> t < md \<Longrightarrow> 0 \<le> fv t \<and> fv t \<le> fm" and md: "md = 2 * h" "0 < h" and fm: "0 < fm" "0 < Q"
  shows "negacyclic_fun Q h (2 * (Q mod fm)) (\<lambda>t. Q div fm * fv t)"
  unfolding negacyclic_fun_def
proof (intro allI impI)
  fix t assume t: "0 \<le> t \<and> t < 2 * h"
  let ?s = "(t + h) mod (2 * h)"
  have s: "0 \<le> ?s" "?s < md" using md by simp_all
  obtain k where k: "fv t + fv ?s = fm * k" using fv(1) t md unfolding fun_negacyclic_def by (auto simp: dvd_def)
  have "0 \<le> fm * k" "fm * k \<le> fm * 2" using fv(2) [of t] fv(2) [OF s] t md unfolding k [symmetric] by auto
  then have k2: "0 \<le> k" "k \<le> 2" using fm by (simp_all add: zero_le_mult_iff)
  have q: "Q div fm * fm = Q - Q mod fm" by (simp add: minus_mod_eq_div_mult)
  have fs: "fv ?s = fm * k - fv t" using k by simp
  have "- (Q div fm * fv ?s) = Q div fm * fv t - k * (Q div fm * fm)" unfolding fs by (simp add: algebra_simps)
  also have "\<dots> = Q div fm * fv t + k * (Q mod fm) - k * Q" unfolding q by (simp add: algebra_simps)
  finally have "rcong Q (- (Q div fm * fv ?s)) (Q div fm * fv t + k * (Q mod fm))" by (simp add: rcong_iff_dvd)
  moreover have "\<bar>k * (Q mod fm)\<bar> \<le> 2 * (Q mod fm)" using k2 fm by (simp add: abs_mult mult_right_mono)
  ultimately show "\<exists>s. \<bar>s\<bar> \<le> 2 * (Q mod fm) \<and> rcong Q (- (Q div fm * fv ?s)) (Q div fm * fv t + s)" by blast
qed

lemma func_decode:
  fixes fm p Q :: int
  assumes size: "0 < fm" "0 < Q" "0 < p" and f0: "rcong Q f0 (Q div fm * v + e)" "0 \<le> v" "v \<le> fm"
    and f3: "rcong (fm * (Q * p)) (Q * p * f3) (fm * p * f0 + d)" and e: "\<bar>e\<bar> \<le> \<beta> + 2 * (Q mod fm)" and d: "2 * \<bar>d\<bar> \<le> \<delta>"
  obtains e3 where "rcong fm f3 (v + e3)" "2 * (Q * p) * \<bar>e3\<bar> \<le> 2 * fm * p * (\<beta> + 3 * (Q mod fm)) + \<delta>"
proof -
  have q: "fm * (Q div fm) = Q - Q mod fm" by (simp add: minus_mod_eq_mult_div)
  have "rcong (fm * p * Q) (fm * p * f0) (fm * p * (Q div fm * v + e))" by (rule rcong_scale_left [OF f0(1)])
  then have "rcong (fm * (Q * p)) (fm * p * f0) (fm * p * (Q div fm * v + e))" by (simp only: ac_simps)
  from rcong_trans [OF f3 rcong_add [OF this rcong_refl]]
  have 1: "rcong (fm * (Q * p)) (Q * p * f3) (fm * p * (Q div fm * v + e) + d)" .
  have "fm * p * (Q div fm * v + e) + d = p * v * (fm * (Q div fm)) + fm * p * e + d" by (simp add: algebra_simps)
  also have "\<dots> = Q * p * v + (- (p * v * (Q mod fm)) + fm * p * e + d)" unfolding q by (simp add: algebra_simps)
  finally have 2: "rcong (fm * (Q * p)) (Q * p * f3) (Q * p * v + (- (p * v * (Q mod fm)) + fm * p * e + d))" using 1 by (simp only:)
  obtain e3 where e3: "rcong fm f3 (v + e3)" "Q * p * e3 = - (p * v * (Q mod fm)) + fm * p * e + d"
    using rcong_unscale [OF 2] size by auto
  have m: "0 \<le> Q mod fm" using size by simp
  have "2 * \<bar>- (p * v * (Q mod fm)) + fm * p * e + d\<bar> \<le> 2 * (p * fm * (Q mod fm)) + 2 * (fm * p * (\<beta> + 2 * (Q mod fm))) + \<delta>"
  proof (rule abs_sum3 [OF _ _ d])
    have "p * v * (Q mod fm) \<le> p * fm * (Q mod fm)" using size f0 m by (intro mult_right_mono mult_left_mono) auto
    then show "2 * \<bar>- (p * v * (Q mod fm))\<bar> \<le> 2 * (p * fm * (Q mod fm))" using size f0 m by (simp add: abs_mult)
    have "fm * p * \<bar>e\<bar> \<le> fm * p * (\<beta> + 2 * (Q mod fm))" using e size by (intro mult_left_mono) auto
    then show "2 * \<bar>fm * p * e\<bar> \<le> 2 * (fm * p * (\<beta> + 2 * (Q mod fm)))" using size by (simp add: abs_mult)
  qed
  moreover have "2 * (Q * p) * \<bar>e3\<bar> = 2 * \<bar>Q * p * e3\<bar>" using size by (simp add: abs_mult)
  ultimately have "2 * (Q * p) * \<bar>e3\<bar> \<le> 2 * fm * p * (\<beta> + 3 * (Q mod fm)) + \<delta>" unfolding e3(2) by (simp add: algebra_simps)
  then show thesis using that e3(1) by blast
qed

lemma BootstrapFunc_phase:
  assumes fr: "func_ready dcount sch params Q K psi key z md \<beta> E EK" and T: "tables_ok Q K psi T" and ct: "lwe_wf (length key) ct" "LWE_GetModulus ct = md"
    and f: "fun_values f md fmod fv" "fun_negacyclic (uint md) (uint fmod) fv" and fmod: "fmod_ok (m_LWEParams params) fmod"
  shows "\<exists>ct' T' e. BootstrapFunc arb dcount sch params EK ct f fmod T = Inr (ct', T') \<and> tables_ok Q K psi T' \<and> lwe_wf (length key) ct' \<and> LWE_GetModulus ct' = fmod
    \<and> rcong (uint fmod) (lwe_phase key ct') (fv (lwe_phase key ct) + e)
    \<and> 2 * (uint Q * uint (m_qKS (m_LWEParams params))) * \<bar>e\<bar> \<le> func_noise dcount (m_LWEParams params) key z fmod \<beta> E"
proof -
  let ?p = "m_qKS (m_LWEParams params)" and ?c = "uint Q div uint fmod"
  have b: "m_Q (m_LWEParams params) = Q" "m_N (m_LWEParams params) = of_nat (2 ^ K)" "even (uint md)" "uint md dvd 2 ^ Suc K" "md \<noteq> 0" "uint ?p * uint Q \<le> 2 ^ 50"
      "ks_ready dcount (m_LWEParams params) key z E (KSkey EK)" using fr by (simp_all add: func_ready_def)
  obtain ek where ek: "BSkey EK = Some ek" "acc_ready Q K psi (m_RGSWParams params) z key md \<beta> (sch, ek)" using fr by (auto simp: func_ready_def)
  have fm: "fmod \<noteq> 0" "GetMSB fmod \<le> MAX_MODULUS_SIZE" "uint fmod * uint ?p \<le> 2 ^ 50" "\<not> uint fmod dvd uint Q" using fmod by (simp_all add: fmod_ok_def b(1))
  note ring = ring_ok_dest [OF conjunct1 [OF ACC.ready_ring [OF ek(2)]]]
  have K24: "K \<le> 24" and z: "length z = 2 ^ K" using ring(1) ACC.ready_ring [OF ek(2)] by (simp_all add: ntt_params_def)
  define h where "h = nat (uint md div 2)"
  have h: "uint md = 2 * int h" using b(3) by (auto simp: h_def)
  obtain k' where k': "2 ^ Suc K = uint md * k'" using b(4) by (auto simp: dvd_def)
  have hpos: "0 < h" "0 < uint fmod" "0 < uint ?p" using uint_pos [OF b(5)] uint_pos [OF fm(1)] b(7) uint_pos [of ?p] by (auto simp: h ks_ready_def)
  have "0 < uint md * k'" unfolding k' [symmetric] by simp
  then have "0 < k'" using hpos by (simp add: zero_less_mult_iff h)
  then have "int (h * nat k') = int (2 ^ K)" using k' by (simp add: h)
  then have k: "h * nat k' = 2 ^ K" by (simp only: of_nat_eq_iff)
  note sz = boot_sizes [OF b(2) K24 h k]
  have Qdiv: "?c * uint fmod < uint Q"
  proof -
    have "uint Q mod uint fmod \<noteq> 0" using fm(4) by (simp add: dvd_eq_mod_eq_0)
    then have "0 < uint Q mod uint fmod" using hpos(2) pos_mod_sign [of "uint fmod" "uint Q"] by linarith
    then show ?thesis using div_mult_mod_eq [of "uint Q" "uint fmod"] by linarith
  qed
  have c0: "0 \<le> ?c" using hpos(2) by (simp add: pos_imp_zdiv_nonneg_iff)
  have fv: "0 \<le> fv t \<and> fv t \<le> uint fmod" if t: "0 \<le> t" "t < uint md" for t
  proof -
    have "uint (word_of_int t :: NativeInt) = t" using t uint_lt2p [of md] by (simp add: uint_word_of_int)
    then obtain y where "y \<le> fmod" "uint y = fv t" using f(1) t unfolding fun_values_def by (metis word_less_def)
    then show ?thesis by (simp add: word_le_def) (metis uint_ge_0)
  qed
  define y where "y j = (case f (ModSub (m_b ct) (of_nat j) md) md fmod of Inr y \<Rightarrow> y | Inl _ \<Rightarrow> 0)" for j :: nat
  let ?x = "\<lambda>j. MulFast (Q div fmod) (y j)"
  let ?entry = "\<lambda>j. if fmod = 0 then Inl div_by_zero else res_bind (f (ModSub (m_b ct) (of_nat j) md) md fmod) (\<lambda>y. Inr (MulFast (Q div fmod) y))"
  have "h dvd 2 ^ K" unfolding k [symmetric] by simp
  then have "h \<le> 2 ^ K" by (rule dvd_imp_le) simp
  also have "(2 :: nat) ^ K \<le> 2 ^ 24" using K24 by (intro power_increasing) auto
  finally have hle: "h \<le> 2 ^ 24" .
  have x: "?entry j = Inr (?x j) \<and> ?x j < Q \<and> uint (?x j) = ?c * fv ((uint (m_b ct) - int j) mod (2 * int h))" if j: "j < h" for j
  proof -
    have "unat (of_nat j :: NativeInt) = j" using j hle by (intro unat_of_nat_64) simp
    then have uj: "uint (of_nat j :: NativeInt) = int j" by (simp only: uint_nat)
    have t: "uint (ModSub (m_b ct) (of_nat j) md) = (uint (m_b ct) - int j) mod (2 * int h)" using ModSub_value [OF sz(1,2)] by (simp add: uj h)
    then have "ModSub (m_b ct) (of_nat j) md < md" using hpos by (simp add: word_less_def h)
    then obtain v where v: "f (ModSub (m_b ct) (of_nat j) md) md fmod = Inr v" "v \<le> fmod" "uint v = fv ((uint (m_b ct) - int j) mod (2 * int h))"
      using f(1) unfolding fun_values_def t [symmetric] by blast
    have "?c * uint v \<le> ?c * uint fmod" using v(2) c0 by (intro mult_left_mono) (simp_all add: word_le_def)
    then have lt: "?c * uint v < uint Q" using Qdiv by linarith
    then have "uint (Q div fmod * v) = ?c * uint v" using uint_mult_small [of "Q div fmod" v] uint_lt2p [of Q] by (simp add: uint_div)
    then show ?thesis using fm(1) v lt by (simp add: y_def MulFast_def word_less_def)
  qed
  have neg: "negacyclic_fun (uint Q) (int h) (2 * (uint Q mod uint fmod)) (\<lambda>t. ?c * fv t)"
    using hpos by (intro scaled_negacyclic [OF f(2) fv h] ring(4)) simp_all
  have sl: "0 \<le> 2 * (uint Q mod uint fmod)" using hpos by simp
  obtain m acc0 T0 acc1 T1 acc2 T2 ctE e where s: "sparse_vector (2 ^ K) Q h (nat k') ?entry = Inr m" "length (m_data m) = 2 ^ K"
    "acc_start arb (rg_polyParams (m_RGSWParams params)) m T = Inr (acc0, T0)" "ACC_EvalAcc arb (fst (sch, ek)) (m_RGSWParams params) (snd (sch, ek)) acc0 (m_a ct) T0 = Inr (acc1, T1)"
    "acc_transpose (\<lambda>_. Inr ()) arb acc1 T1 = Inr (acc2, T2)" "tables_ok Q K psi T2" "acc_extract (\<lambda>x. x) acc2 = Inr ctE"
    "lwe_wf (2 ^ K) ctE" "LWE_GetModulus ctE = Q" "\<bar>e\<bar> \<le> \<beta> + 2 * (uint Q mod uint fmod)"
    "rcong (uint Q) (lwe_phase z ctE) (?c * fv (lwe_phase key ct) + 0 + e)"
    by (rule ACC.bootstraps [where dmp = "\<lambda>_. Inr ()" and arb = arb and F = "\<lambda>t. ?c * fv t" and entry = ?entry and x = ?x and shift = "\<lambda>x. x" and c = 0, OF ek(2) T ct h k x neg sl]) auto
  have core: "BootstrapFuncCore arb sch params (BSkey EK) ct f fmod T = Inr (acc1, T1)"
    using s(1,3,4) sz(1) fm(1) by (simp add: BootstrapFuncCore_def ek(1) Let_def b(1) ct(2) sz(3,7) RShift_def sz(5) [unfolded One_nat_def])
  obtain ct' d where w: "switch_down dcount (m_LWEParams params) (KSkey EK) fmod ctE = Inr ct'" "lwe_wf (length key) ct'" "LWE_GetModulus ct' = fmod"
      "rcong (uint fmod * (uint Q * uint ?p)) (uint Q * uint ?p * lwe_phase key ct') (uint fmod * uint ?p * lwe_phase z ctE + d)"
      "2 * \<bar>d\<bar> \<le> switch_noise (uint fmod) (uint ?p) (uint Q) key z (dcount ?p (m_baseKS (m_LWEParams params))) E"
    using switch_down_phase [OF b(7) _ fm(1-3), of ctE] s(8,9) b(6) z by auto
  have ph: "0 \<le> lwe_phase key ct" "lwe_phase key ct < uint md" using uint_pos [OF b(5)] by (simp_all add: lwe_phase_def ct(2))
  obtain e3 where e3: "rcong (uint fmod) (lwe_phase key ct') (fv (lwe_phase key ct) + e3)"
      "2 * (uint Q * uint ?p) * \<bar>e3\<bar> \<le> 2 * uint fmod * uint ?p * (\<beta> + 3 * (uint Q mod uint fmod)) + switch_noise (uint fmod) (uint ?p) (uint Q) key z (dcount ?p (m_baseKS (m_LWEParams params))) E"
    using func_decode [OF hpos(2) ring(4) hpos(3) s(11) [unfolded add_0_right] _ _ w(4) s(10) w(5)] fv [OF ph] by blast
  have "BootstrapFunc arb dcount sch params EK ct f fmod T = Inr (ct', T2)" using core s(5,7) w(1) by (simp add: BootstrapFunc_def)
  then show ?thesis using s(6) w(2,3) e3 by (auto simp: func_noise_def b(1))
qed

section \<open>The functions\<close>

lemma half_place: "0 < h \<Longrightarrow> 0 \<le> t \<Longrightarrow> t < 2 * h \<Longrightarrow> (t + h) mod (2 * h) = (if t < h then t + h else t - (h :: int))"
  by (auto simp: mod_pos_geq)

text \<open>A function whose values at two places half a period apart add up to \<open>fm\<close>.\<close>

lemma fun_negacyclicI:
  assumes "md = 2 * h" "0 < h" "\<And>t. 0 \<le> t \<Longrightarrow> t < h \<Longrightarrow> fv t + fv (t + h) = fm"
  shows "fun_negacyclic md fm fv"
  unfolding fun_negacyclic_def
proof (intro allI impI)
  fix t assume t: "0 \<le> t \<and> t < md"
  then have "fv t + fv ((t + md div 2) mod md) = fm" using assms(3) [of t] assms(3) [of "t - h"] assms(1,2) half_place [of h t] by auto
  then show "fm dvd fv t + fv ((t + md div 2) mod md)" by simp
qed

definition quarter_value :: "int \<Rightarrow> int \<Rightarrow> int \<Rightarrow> int" where
  "quarter_value md fm t = (if t < md div 2 then fm - md div 4 else md div 4)"

lemma uint_sub_le: "x \<le> y \<Longrightarrow> uint (y - x) = uint y - uint (x :: NativeInt)"
  by (subst uint_sub_lem [THEN iffD1]) (simp_all add: word_le_def)

lemma f_quarter_ok:
  assumes "even (uint md)" "md \<noteq> 0" "md div 4 \<le> fmod"
  shows "fun_values f_quarter md fmod (quarter_value (uint md) (uint fmod))" "fun_negacyclic (uint md) (uint fmod) (quarter_value (uint md) (uint fmod))"
proof -
  have le: "uint md div 4 \<le> uint fmod" using assms(3) by (simp add: word_le_def uint_div)
  have "uint (fmod - md div 4) = uint fmod - uint md div 4" using uint_sub_le [OF assms(3)] by (simp add: uint_div)
  moreover have "0 \<le> uint md div 4" by (simp add: pos_imp_zdiv_nonneg_iff)
  ultimately show "fun_values f_quarter md fmod (quarter_value (uint md) (uint fmod))"
    unfolding fun_values_def f_quarter_def quarter_value_def SubFast_def using le by (auto simp: word_less_def word_le_def uint_div)
  obtain h where h: "uint md = 2 * h" using assms(1) by blast
  then have "0 < h" using uint_pos [OF assms(2)] by simp
  then show "fun_negacyclic (uint md) (uint fmod) (quarter_value (uint md) (uint fmod))"
    by (intro fun_negacyclicI [OF h]) (simp_all add: quarter_value_def h)
qed

definition lut_value :: "NativeInt list \<Rightarrow> int \<Rightarrow> int" where
  "lut_value LUT t = uint (LUT ! nat t)"

definition half_value :: "NativeInt list \<Rightarrow> int \<Rightarrow> int \<Rightarrow> int \<Rightarrow> int" where
  "half_value LUT md fm t = (if t < md div 2 then lut_value LUT t else fm - lut_value LUT (t - md div 2))"

lemma fLUT_half_ok:
  assumes "even (uint md)" "md \<noteq> 0" "unat md div 2 \<le> length LUT" "\<And>y. y \<in> set LUT \<Longrightarrow> y \<le> fmod"
  shows "fun_values (fLUT_half LUT) md fmod (half_value LUT (uint md) (uint fmod))" "fun_negacyclic (uint md) (uint fmod) (half_value LUT (uint md) (uint fmod))"
proof -
  obtain h where h: "uint md = 2 * h" using assms(1) by blast
  have h0: "0 < h" using uint_pos [OF assms(2)] h by simp
  have d2: "uint (md div 2) = h" by (simp add: uint_div h)
  have len: "nat h \<le> length LUT" using assms(3) h by (simp add: unat_eq_nat_uint nat_mult_distrib)
  then have leni: "h \<le> int (length LUT)" by (simp add: nat_le_iff)
  show "fun_values (fLUT_half LUT) md fmod (half_value LUT (uint md) (uint fmod))"
    unfolding fun_values_def
  proof (intro allI impI)
    fix x :: NativeInt assume x: "x < md"
    show "\<exists>y. fLUT_half LUT x md fmod = Inr y \<and> y \<le> fmod \<and> uint y = half_value LUT (uint md) (uint fmod) (uint x)"
    proof (cases "x < md div 2")
      case True
      then have lt: "uint x < h" by (simp add: word_less_def d2)
      then have "nat (uint x) < length LUT" using leni by (subst nat_less_iff) auto
      then have "unat x < length LUT" by (simp only: unat_eq_nat_uint)
      then show ?thesis using True lt assms(4) by (simp add: fLUT_half_def elem_at_def half_value_def lut_value_def h)
    next
      case False
      then have ge: "h \<le> uint x" "uint x < 2 * h" using x h by (simp_all add: word_less_def d2)
      have u: "uint (x - md div 2) = uint x - h" using uint_sub_le [of "md div 2" x] False by (simp add: not_less d2)
      then have "nat (uint (x - md div 2)) < length LUT" using leni ge by (subst nat_less_iff) auto
      then have lt: "unat (x - md div 2) < length LUT" by (simp only: unat_eq_nat_uint)
      let ?y = "LUT ! unat (x - md div 2)"
      have y: "?y \<le> fmod" using assms(4) lt by simp
      then have s: "uint (fmod - ?y) = uint fmod - uint ?y" by (rule uint_sub_le)
      have "fLUT_half LUT x md fmod = Inr (fmod - ?y)" using False lt by (simp add: fLUT_half_def elem_at_def SubFast_def)
      moreover have "uint fmod - uint ?y = half_value LUT (uint md) (uint fmod) (uint x)" using ge by (simp add: half_value_def lut_value_def h u [symmetric])
      moreover have "fmod - ?y \<le> fmod" using s y by (simp add: word_le_def)
      ultimately show ?thesis using s by auto
    qed
  qed
  show "fun_negacyclic (uint md) (uint fmod) (half_value LUT (uint md) (uint fmod))"
    by (intro fun_negacyclicI [OF h h0]) (simp_all add: half_value_def h)
qed

lemma fLUT_ok:
  assumes "even (uint md)" "md \<noteq> 0" "length LUT = unat md" "\<And>y. y \<in> set LUT \<Longrightarrow> y \<le> md" "\<And>i. i < unat md div 2 \<Longrightarrow> LUT ! i = md - LUT ! (unat md div 2 + i)"
  shows "fun_values (fLUT LUT) md md (lut_value LUT)" "fun_negacyclic (uint md) (uint md) (lut_value LUT)"
proof -
  show "fun_values (fLUT LUT) md md (lut_value LUT)"
    unfolding fun_values_def using assms(3,4) by (auto simp: fLUT_def elem_at_def lut_value_def word_less_nat_alt unat_eq_nat_uint [symmetric])
  obtain h where h: "uint md = 2 * h" using assms(1) by blast
  have h0: "0 < h" using uint_pos [OF assms(2)] h by simp
  have hn: "unat md div 2 = nat h" using h by (simp add: unat_eq_nat_uint nat_mult_distrib)
  show "fun_negacyclic (uint md) (uint md) (lut_value LUT)"
  proof (rule fun_negacyclicI [OF h h0])
    fix t assume t: "0 \<le> t" "t < h"
    have i: "nat t < nat h" "nat (t + h) = nat h + nat t" using t by (simp_all add: nat_add_distrib)
    have "nat h + nat t < length LUT" using assms(3) i h by (simp add: unat_eq_nat_uint nat_mult_distrib)
    then have "LUT ! (nat h + nat t) \<le> md" using assms(4) by simp
    then have "uint (md - LUT ! (nat h + nat t)) = uint md - uint (LUT ! (nat h + nat t))" by (rule uint_sub_le)
    then show "lut_value LUT t + lut_value LUT (t + h) = uint md"
      using assms(5) [of "nat t"] i unfolding lut_value_def i(2) hn by simp
  qed
qed

text \<open>What \<open>checkInputFunction\<close> recognises.\<close>

lemma checkInputFunction_cases:
  assumes "length lut = 2 * h" "0 < h"
  shows "checkInputFunction lut md = Inr (if \<forall>i<h. lut ! i = md - lut ! (h + i) then 0 else if lut ! 0 = md - lut ! h then 2 else if \<forall>i<h. lut ! i = lut ! (h + i) then 1 else 2)"
proof -
  have split: "(\<forall>i<h. P i) \<longleftrightarrow> P 0 \<and> \<not> list_ex (\<lambda>i. \<not> P i) [1..<h]" for P
    unfolding list_ex_iff using assms(2) by (auto simp: Suc_le_eq neq0_conv)
  show ?thesis
    unfolding checkInputFunction_def Let_def split [of "\<lambda>i. lut ! i = md - lut ! (h + i)"] split [of "\<lambda>i. lut ! i = lut ! (h + i)"]
    using assms by (simp add: elem_at_def SubFast_def)
qed

section \<open>Evaluation of a table\<close>

lemma noise_le:
  fixes P :: int
  assumes "2 * P * \<bar>e\<bar> \<le> N" "N \<le> 2 * P * b" "0 < P"
  shows "\<bar>e\<bar> \<le> b"
proof -
  have "2 * P * \<bar>e\<bar> \<le> 2 * P * b" using assms by linarith
  then show ?thesis using assms(3) by simp
qed

lemma func_ready_pos: "func_ready dcount sch params Q K psi key z md \<beta> E EK \<Longrightarrow> 0 < uint Q * uint (m_qKS (m_LWEParams params))"
proof -
  assume fr: "func_ready dcount sch params Q K psi key z md \<beta> E EK"
  obtain ek where "acc_ready Q K psi (m_RGSWParams params) z key md \<beta> (sch, ek)" using fr by (auto simp: func_ready_def)
  then have "0 < uint Q" using ACC.ready_ring ring_ok_dest(4) by blast
  moreover have "0 < uint (m_qKS (m_LWEParams params))" using fr uint_pos by (auto simp: func_ready_def ks_ready_def)
  ultimately show ?thesis by simp
qed

lemma half_mod:
  fixes u x :: int
  assumes "0 < u" "0 \<le> x" "x < 4 * u"
  shows "x mod (2 * u) = (if x < 2 * u then x else x - 2 * u)"
proof (cases "x < 2 * u")
  case False
  have "x mod (2 * u) = (x - 2 * u) mod (2 * u)" using False assms by (intro mod_pos_geq) linarith+
  also have "\<dots> = x - 2 * u" using False assms by (intro mod_pos_pos_trivial) linarith+
  finally show ?thesis using False by simp
qed (use assms in simp)

text \<open>
  The two bootstrappings of a table for half the range: the first takes half the modulus off the phase when it is in the upper half, the second
  reads the table. \<open>t\<close> is the phase after the shift by \<open>beta\<close>, \<open>b\<close> bounds the noise.
\<close>

lemma half_eval:
  assumes fr: "func_ready dcount sch params Q K psi key z M \<beta> E EK" and T: "tables_ok Q K psi T" and ct: "lwe_wf (length key) ct" "LWE_GetModulus ct = M"
    and M: "uint M = 4 * u" "fmod_ok (m_LWEParams params) M" and beta: "beta < M" and w: "uint w = u"
    and L: "unat M div 2 \<le> length L" "\<And>y. y \<in> set L \<Longrightarrow> y \<le> M"
    and noise: "func_noise dcount (m_LWEParams params) key z M \<beta> E \<le> 2 * (uint Q * uint (m_qKS (m_LWEParams params))) * b"
    and t: "t = (lwe_phase key ct + uint beta) mod uint M mod (2 * u)" "b \<le> t" "t + b < 2 * u"
  obtains ct2 T1 ct3 ct' T2 e1 e2 where "BootstrapFunc arb dcount sch params EK (LWE_EvalAddConstEq ct beta) f_quarter M T = Inr (ct2, T1)"
    "LWE_EvalSubEq2 ct ct2 = Inr ct3" "BootstrapFunc arb dcount sch params EK (LWE_EvalSubConstEq (LWE_EvalAddConstEq ct3 beta) w) (fLUT_half L) M T1 = Inr (ct', T2)"
    "tables_ok Q K psi T2" "lwe_wf (length key) ct'" "LWE_GetModulus ct' = M" "rcong (uint M) (lwe_phase key ct') (lut_value L (t + e1) + e2)" "\<bar>e1\<bar> \<le> b" "\<bar>e2\<bar> \<le> b"
proof -
  note P = func_ready_pos [OF fr]
  have M0: "M \<noteq> 0" "even (uint M)" using M(1) fr by (auto simp: func_ready_def)
  have u: "0 < u" using uint_pos [OF M0(1)] M(1) by simp
  define s where "s = (lwe_phase key ct + uint beta) mod uint M"
  have s: "0 \<le> s" "s < 4 * u" using u by (simp_all add: s_def M(1))
  let ?c1 = "LWE_EvalAddConstEq ct beta"
  have c1: "lwe_wf (length key) ?c1" "LWE_GetModulus ?c1 = M" "lwe_phase key ?c1 = s" using EvalConst_phase(1) [OF ct(1) refl, of beta] beta by (simp_all add: ct(2) s_def)
  have "M div 4 \<le> M" using u by (simp add: word_le_def uint_div M(1))
  note fq = f_quarter_ok [OF M0(2,1) this]
  obtain ct2 T1 e1 where c2: "BootstrapFunc arb dcount sch params EK ?c1 f_quarter M T = Inr (ct2, T1)" "tables_ok Q K psi T1" "lwe_wf (length key) ct2" "LWE_GetModulus ct2 = M"
      "rcong (uint M) (lwe_phase key ct2) (quarter_value (uint M) (uint M) s + e1)"
      "2 * (uint Q * uint (m_qKS (m_LWEParams params))) * \<bar>e1\<bar> \<le> func_noise dcount (m_LWEParams params) key z M \<beta> E"
    using BootstrapFunc_phase [OF fr T c1(1,2) fq M(2), of arb] unfolding c1(3) by blast
  have e1: "\<bar>e1\<bar> \<le> b" by (rule noise_le [OF c2(6) noise P])
  obtain ct3 where c3: "LWE_EvalSubEq2 ct ct2 = Inr ct3" "lwe_wf (length key) ct3" "LWE_GetModulus ct3 = M"
      "lwe_phase key ct3 = (lwe_phase key ct + - 1 * lwe_phase key ct2) mod uint M"
    using EvalSub2.op2_phase [OF ct(1) c2(3)] ct(2) c2(4) by auto
  let ?c4 = "LWE_EvalAddConstEq ct3 beta" and ?c5 = "LWE_EvalSubConstEq (LWE_EvalAddConstEq ct3 beta) w"
  have c4: "lwe_wf (length key) ?c4" "LWE_GetModulus ?c4 = M" "lwe_phase key ?c4 = (lwe_phase key ct3 + uint beta) mod uint M"
    using EvalConst_phase(1) [OF c3(2) refl, of beta] beta by (simp_all add: c3(3))
  have wM: "w < LWE_GetModulus ?c4" unfolding c4(2) using u by (simp add: word_less_def w M(1))
  have c5: "lwe_wf (length key) ?c5" "LWE_GetModulus ?c5 = M" "lwe_phase key ?c5 = (lwe_phase key ?c4 - uint w) mod uint M"
    using EvalConst_phase(2) [OF c4(1) refl wM] unfolding c4(2) by blast+
  have q: "quarter_value (uint M) (uint M) s = (if s < 2 * u then 3 * u else u)" by (simp add: quarter_value_def M(1))
  have ts: "t = (if s < 2 * u then s else s - 2 * u)" unfolding t(1) s_def [symmetric] by (rule half_mod [OF u s])
  have "rcong (4 * u) (lwe_phase key ?c5) (lwe_phase key ct - lwe_phase key ct2 + uint beta - u)"
    unfolding c5(3) c4(3) c3(4) w M(1) by (simp add: rcong_def mod_simps)
  also have "rcong (4 * u) \<dots> (s - (quarter_value (uint M) (uint M) s + e1) - u)"
  proof -
    have "rcong (4 * u) (lwe_phase key ct + uint beta - lwe_phase key ct2 - u) (s - (quarter_value (uint M) (uint M) s + e1) - u)"
      using c2(5) unfolding s_def M(1) by (intro rcong_diff rcong_refl) simp_all
    then show ?thesis by (simp add: algebra_simps)
  qed
  also have "rcong (4 * u) \<dots> (t - e1)" by (simp add: q ts rcong_iff_dvd)
  finally have c: "rcong (4 * u) (lwe_phase key ?c5) (t - e1)" .
  have "0 \<le> lwe_phase key ?c5" "lwe_phase key ?c5 < 4 * u" using u by (simp_all add: lwe_phase_def c5(2) M(1))
  moreover have "0 \<le> t - e1" "t - e1 < 4 * u" using e1 [unfolded abs_le_iff] t(2,3) u by linarith+
  ultimately have ph: "lwe_phase key ?c5 = t + - e1" using rcong_small [OF c] by simp
  note fl = fLUT_half_ok [OF M0(2,1) L]
  obtain ct' T2 e2 where c': "BootstrapFunc arb dcount sch params EK ?c5 (fLUT_half L) M T1 = Inr (ct', T2)" "tables_ok Q K psi T2" "lwe_wf (length key) ct'" "LWE_GetModulus ct' = M"
      "rcong (uint M) (lwe_phase key ct') (half_value L (uint M) (uint M) (t + - e1) + e2)"
      "2 * (uint Q * uint (m_qKS (m_LWEParams params))) * \<bar>e2\<bar> \<le> func_noise dcount (m_LWEParams params) key z M \<beta> E"
    using BootstrapFunc_phase [OF fr c2(2) c5(1,2) fl M(2), of arb] unfolding ph by blast
  have "t - e1 < 2 * u" using e1 [unfolded abs_le_iff] t(3) by linarith
  then have "half_value L (uint M) (uint M) (t + - e1) = lut_value L (t + - e1)" by (simp add: half_value_def M(1))
  then show thesis using that [OF c2(1) c3(1) c'(1-4), of "- e1" e2] c'(5) e1 noise_le [OF c'(6) noise P] by simp
qed


text \<open>Reducing the modulus of a ciphertext to a divisor reduces its phase, and raising it to a multiple keeps the phase up to the old modulus.\<close>

lemma rcong_dvd: "d dvd q \<Longrightarrow> rcong q x y \<Longrightarrow> rcong d x y"
  by (auto simp: rcong_iff_dvd intro: dvd_trans)

lemma rcong_centered: "d dvd uint q \<Longrightarrow> rcong d (centered q x) (uint x)"
  by (simp add: centered_def rcong_iff_dvd)

lemma SetModulus_phase:
  assumes ct: "lwe_wf (length key) ct" "LWE_GetModulus ct = M" and q: "uint q dvd uint M" "q \<noteq> 0" "q \<noteq> 2" "GetMSB q \<le> MAX_MODULUS_SIZE"
  obtains ct' where "LWE_SetModulus ct q = Inr ct'" "lwe_wf (length key) ct'" "LWE_GetModulus ct' = q" "rcong (uint q) (lwe_phase key ct') (lwe_phase key ct)"
proof -
  have M: "m_modulus (m_a ct) = M" and len: "length (m_data (m_a ct)) = length key" using ct by (simp_all add: LWE_GetModulus_def NV_GetModulus_def lwe_wf_def)
  define ct' where "ct' = \<lparr>m_a = \<lparr>m_data = map (mod_entry M q) (m_data (m_a ct)), m_modulus = q\<rparr>, m_b = ModEq (m_b ct) q\<rparr>"
  have e: "uint (mod_entry M q x) = centered M x mod uint q" for x
    using Mod_entry [OF q(2) modulus_size_bound(3) [OF q(4)], of M x] by (simp add: mod_entry_def q(3))
  have lt: "mod_entry M q x < q" for x using uint_pos [OF q(2)] by (simp add: word_less_def e)
  have "LWE_SetModulus ct q = Inr ct'" using q(4) by (simp add: LWE_SetModulus_def NV_SetModulus_def NV_ModEq_eq ct'_def M)
  moreover have "lwe_wf (length key) ct'" using q len lt uint_ModEq [OF q(2)] by (simp add: ct'_def lwe_wf_def nv_wf_def LWE_GetModulus_def NV_GetModulus_def list_all_iff)
  moreover have "LWE_GetModulus ct' = q" by (simp add: ct'_def LWE_GetModulus_def NV_GetModulus_def)
  moreover have "rcong (uint q) (lwe_phase key ct') (lwe_phase key ct)"
  proof -
    have "rcong (uint q) (dot (nv_abs (m_a ct')) key) (dot (nv_abs (m_a ct)) key)"
      using len by (intro dot_cong) (simp_all add: ct'_def nv_abs_def e rcong_centered q(1))
    then have "rcong (uint q) (uint (m_b ct) - dot (nv_abs (m_a ct')) key) (uint (m_b ct) - dot (nv_abs (m_a ct)) key)" by (intro rcong_diff rcong_refl)
    moreover have "rcong (uint q) (lwe_phase key ct') (uint (m_b ct) - dot (nv_abs (m_a ct')) key)"
      using uint_ModEq(1) [OF q(2)] by (simp add: lwe_phase_def ct'_def LWE_GetModulus_def NV_GetModulus_def rcong_def mod_simps)
    moreover have "rcong (uint q) (uint (m_b ct) - dot (nv_abs (m_a ct)) key) (lwe_phase key ct)"
      unfolding lwe_phase_def ct(2) by (rule rcong_dvd [OF q(1)]) simp
    ultimately show ?thesis using rcong_trans by blast
  qed
  ultimately show thesis by (rule that)
qed

lemma raise_modulus:
  assumes ct: "lwe_wf (length key) ct" "LWE_GetModulus ct = q" and M: "uint q dvd uint M" "q \<le> M" "GetMSB M \<le> MAX_MODULUS_SIZE"
  obtains a where "NV_SetModulus (m_a ct) M = Inr a" "lwe_wf (length key) (ct\<lparr>m_a := a\<rparr>)" "LWE_GetModulus (ct\<lparr>m_a := a\<rparr>) = M"
    "lwe_phase key (ct\<lparr>m_a := a\<rparr>) mod uint q = lwe_phase key ct"
proof -
  let ?a = "(m_a ct)\<lparr>m_modulus := M\<rparr>"
  have q: "m_modulus (m_a ct) = q" "q \<noteq> 0" using ct by (simp_all add: LWE_GetModulus_def NV_GetModulus_def lwe_wf_def nv_wf_def)
  have "NV_SetModulus (m_a ct) M = Inr ?a" using M(3) by (simp add: NV_SetModulus_def)
  moreover have "lwe_wf (length key) (ct\<lparr>m_a := ?a\<rparr>)" using ct(1) M q
    by (auto simp: lwe_wf_def nv_wf_def LWE_GetModulus_def NV_GetModulus_def list_all_iff intro: order.strict_trans2)
  moreover have "LWE_GetModulus (ct\<lparr>m_a := ?a\<rparr>) = M" by (simp add: LWE_GetModulus_def NV_GetModulus_def)
  moreover have "lwe_phase key (ct\<lparr>m_a := ?a\<rparr>) mod uint q = lwe_phase key ct"
    using M(1) by (simp add: lwe_phase_def ct(2) LWE_GetModulus_def NV_GetModulus_def q nv_abs_def mod_mod_cancel)
  ultimately show thesis by (rule that)
qed


text \<open>A key of the CGGI accumulator serves every modulus that divides twice the dimension.\<close>

lemma func_ready_modulus:
  assumes "func_ready dcount sch params Q K psi key z md \<beta> E EK" "ACCscheme sch = Some GINX" "even (uint M)" "uint M dvd 2 ^ Suc K" "M \<noteq> 0"
  shows "func_ready dcount sch params Q K psi key z M \<beta> E EK"
  using assms unfolding func_ready_def acc_ready_def by (auto simp: cggi_ready_def)

text \<open>How far the shifted phase \<open>t\<close> has to stay from the ends of the range a table is read in, by the kind of the table.\<close>

definition lut_margin :: "nat \<Rightarrow> int \<Rightarrow> int \<Rightarrow> int \<Rightarrow> bool" where
  "lut_margin kind q b t \<longleftrightarrow> (kind = 1 \<longrightarrow> b \<le> t mod (q div 2) \<and> t mod (q div 2) + b < q div 2) \<and> (kind = 2 \<longrightarrow> b \<le> t \<and> t + b < q)"

lemma kind_choice:
  "(if P then 0 else if a then 2 else if b then 1 else 2) = (0 :: nat) \<Longrightarrow> P" "(if P then 0 else if a then 2 else if b then 1 else 2) = (1 :: nat) \<Longrightarrow> b"
  by (simp_all split: if_splits)

lemma kind_range: "checkInputFunction lut q = Inr kind \<Longrightarrow> kind = 0 \<or> kind = 1 \<or> kind = 2"
  by (auto simp: checkInputFunction_def Let_def split: if_splits)

lemma negacyclic_table:
  assumes "checkInputFunction lut q = Inr 0" "length lut = 2 * h" "0 < h" "i < h"
  shows "lut ! i = q - lut ! (h + i)"
  using assms(4) kind_choice(1) [OF assms(1) [unfolded checkInputFunction_cases [OF assms(2,3)] sum.inject]] by blast

lemma periodic_table:
  assumes "checkInputFunction lut q = Inr 1" "length lut = 2 * h" "0 < h" "i < h"
  shows "lut ! (h + i) = lut ! i"
  using assms(4) kind_choice(2) [OF assms(1) [unfolded checkInputFunction_cases [OF assms(2,3)] sum.inject]] by metis

text \<open>A periodic table at a place and at the place in the lower half it repeats.\<close>

lemma periodic_value:
  fixes h :: int
  assumes lut: "checkInputFunction lut q = Inr 1" "length lut = nat (2 * h)" "0 < h" and t: "0 \<le> t" "t < 2 * h" "b \<le> t mod h" "t mod h + b < h" and e: "\<bar>e\<bar> \<le> b"
  shows "lut_value lut (t mod h + e) = lut_value lut (t + e)"
proof (cases "t < h")
  case False
  have "t mod h = (t - h) mod h" using False lut(3) by (intro mod_pos_geq) linarith+
  also have "\<dots> = t - h" using False t by (intro mod_pos_pos_trivial) linarith+
  finally have m: "t mod h = t - h" .
  have s: "0 \<le> t - h + e" "t - h + e < h" using t(3,4) e [unfolded abs_le_iff] unfolding m by linarith+
  have len: "length lut = 2 * nat h" using lut(2) by (simp add: nat_mult_distrib)
  have "nat (t + e) = nat h + nat (t - h + e)" using s(1) lut(3) by (simp add: nat_add_distrib [symmetric])
  moreover have "nat (t - h + e) < nat h" using s by simp
  ultimately show ?thesis unfolding m lut_value_def using periodic_table [OF lut(1) len, of "nat (t - h + e)"] lut(3) by simp
qed (use t in simp)


text \<open>What evaluating a table promises: the table at a place within \<open>b\<close> of the shifted phase, with noise of at most \<open>b\<close>.\<close>

definition func_evaluated :: "NativeInt \<Rightarrow> nat \<Rightarrow> NativeInt \<Rightarrow> int list \<Rightarrow> NativeInt \<Rightarrow> NativeInt list \<Rightarrow> int \<Rightarrow> int \<Rightarrow> (LWECiphertext \<times> FTTTables) result \<Rightarrow> bool" where
  "func_evaluated Q K psi key q LUT b t r \<longleftrightarrow> (\<exists>ct' T' e1 e2. r = Inr (ct', T') \<and> tables_ok Q K psi T' \<and> lwe_wf (length key) ct' \<and> LWE_GetModulus ct' = q
     \<and> rcong (uint q) (lwe_phase key ct') (lut_value LUT (t + e1) + e2) \<and> \<bar>e1\<bar> \<le> b \<and> \<bar>e2\<bar> \<le> b)"

lemma EvalFunc_negacyclic:
  assumes kind: "checkInputFunction LUT q = Inr 0" and fr: "func_ready dcount sch params Q K psi key z q \<beta> E EK" and T: "tables_ok Q K psi T"
    and ct: "lwe_wf (length key) ct" "LWE_GetModulus ct = q" and q: "fmod_ok (m_LWEParams params) q" and beta: "beta < q"
    and L: "length LUT = unat q" "\<And>y. y \<in> set LUT \<Longrightarrow> y \<le> q"
    and noise: "func_noise dcount (m_LWEParams params) key z q \<beta> E \<le> 2 * (uint Q * uint (m_qKS (m_LWEParams params))) * b"
  shows "func_evaluated Q K psi key q LUT b ((lwe_phase key ct + uint beta) mod uint q) (EvalFunc arb dcount sch params EK ct LUT beta T)"
proof -
  have q0: "even (uint q)" "q \<noteq> 0" using fr by (simp_all add: func_ready_def)
  obtain h where h: "uint q = 2 * h" using q0(1) by blast
  then have "unat q = 2 * nat h" "0 < h" using uint_pos [OF q0(2)] by (simp_all add: unat_eq_nat_uint nat_mult_distrib)
  then have len: "length LUT = 2 * (unat q div 2)" "0 < unat q div 2" using L(1) by simp_all
  have ct1: "lwe_wf (length key) (LWE_EvalAddConstEq ct beta)" "LWE_GetModulus (LWE_EvalAddConstEq ct beta) = q"
      "lwe_phase key (LWE_EvalAddConstEq ct beta) = (lwe_phase key ct + uint beta) mod uint q"
    using EvalConst_phase(1) [OF ct(1) refl, of beta] beta by (simp_all add: ct(2))
  note f = fLUT_ok [OF q0 L negacyclic_table [OF kind len]]
  obtain ct' T' e where r: "BootstrapFunc arb dcount sch params EK (LWE_EvalAddConstEq ct beta) (fLUT LUT) q T = Inr (ct', T')" "tables_ok Q K psi T'"
      "lwe_wf (length key) ct'" "LWE_GetModulus ct' = q" "rcong (uint q) (lwe_phase key ct') (lut_value LUT ((lwe_phase key ct + uint beta) mod uint q) + e)"
      "2 * (uint Q * uint (m_qKS (m_LWEParams params))) * \<bar>e\<bar> \<le> func_noise dcount (m_LWEParams params) key z q \<beta> E"
    using BootstrapFunc_phase [OF fr T ct1(1,2) f q, of arb] unfolding ct1(3) by blast
  have e: "\<bar>e\<bar> \<le> b" by (rule noise_le [OF r(6) noise func_ready_pos [OF fr]])
  have "EvalFunc arb dcount sch params EK ct LUT beta T = Inr (ct', T')" using r(1) by (simp add: EvalFunc_def Let_def ct(2) kind)
  then show ?thesis unfolding func_evaluated_def using r(2-5) e by (intro exI [of _ ct'] exI [of _ T'] exI [of _ 0] exI [of _ e]) auto
qed

lemma EvalFunc_periodic:
  assumes kind: "checkInputFunction LUT q = Inr 1" and fr: "func_ready dcount sch params Q K psi key z q \<beta> E EK" and T: "tables_ok Q K psi T"
    and ct: "lwe_wf (length key) ct" "LWE_GetModulus ct = q" and q: "fmod_ok (m_LWEParams params) q" "uint q = 4 * u" and beta: "beta < q"
    and L: "length LUT = unat q" "\<And>y. y \<in> set LUT \<Longrightarrow> y \<le> q"
    and noise: "func_noise dcount (m_LWEParams params) key z q \<beta> E \<le> 2 * (uint Q * uint (m_qKS (m_LWEParams params))) * b"
    and t: "t = (lwe_phase key ct + uint beta) mod uint q" "b \<le> t mod (2 * u)" "t mod (2 * u) + b < 2 * u"
  shows "func_evaluated Q K psi key q LUT b t (EvalFunc arb dcount sch params EK ct LUT beta T)"
proof -
  have u: "0 < u" using fr uint_pos [of q] q(2) by (simp add: func_ready_def)
  have w: "uint (RShift q 2) = u" by (simp add: RShift_def uint_drop_bit q(2))
  have L2: "unat q div 2 \<le> length LUT" using L(1) by simp
  obtain ct2 T1 ct3 ct' T2 e1 e2 where r: "BootstrapFunc arb dcount sch params EK (LWE_EvalAddConstEq ct beta) f_quarter q T = Inr (ct2, T1)"
      "LWE_EvalSubEq2 ct ct2 = Inr ct3" "BootstrapFunc arb dcount sch params EK (LWE_EvalSubConstEq (LWE_EvalAddConstEq ct3 beta) (RShift q 2)) (fLUT_half LUT) q T1 = Inr (ct', T2)"
      "tables_ok Q K psi T2" "lwe_wf (length key) ct'" "LWE_GetModulus ct' = q" "rcong (uint q) (lwe_phase key ct') (lut_value LUT (t mod (2 * u) + e1) + e2)" "\<bar>e1\<bar> \<le> b" "\<bar>e2\<bar> \<le> b"
    by (rule half_eval [where arb = arb and t = "t mod (2 * u)", OF fr T ct q(2,1) beta w L2 L(2) noise _ t(2,3)]) (auto simp: t(1))
  have "length LUT = nat (2 * (2 * u))" using L(1) q(2) by (simp add: unat_eq_nat_uint)
  moreover have "0 \<le> t" "t < 2 * (2 * u)" using u by (simp_all add: t(1) q(2))
  ultimately have v: "lut_value LUT (t mod (2 * u) + e1) = lut_value LUT (t + e1)" using u t(2,3) r(8) by (intro periodic_value [OF kind]) auto
  have "EvalFunc arb dcount sch params EK ct LUT beta T = Inr (ct', T2)" using r(1-3) by (simp add: EvalFunc_def Let_def ct(2) kind)
  then show ?thesis unfolding func_evaluated_def using r(4-9) v by auto
qed

lemma EvalFunc_arbitrary:
  assumes kind: "checkInputFunction LUT q = Inr 2" and fr: "func_ready dcount sch params Q K psi key z M \<beta> E EK" and T: "tables_ok Q K psi T" and K: "K \<le> 24"
    and ct: "lwe_wf (length key) ct" "LWE_GetModulus ct = q" and M: "fmod_ok (m_LWEParams params) M" "uint M = 2 * uint q" "uint M = 4 * u" "q \<noteq> 2" and beta: "beta < q"
    and L: "length LUT = unat q" "\<And>y. y \<in> set LUT \<Longrightarrow> y \<le> q"
    and noise: "func_noise dcount (m_LWEParams params) key z M \<beta> E \<le> 2 * (uint Q * uint (m_qKS (m_LWEParams params))) * b"
    and t: "t = (lwe_phase key ct + uint beta) mod uint q" "b \<le> t" "t + b < 2 * u"
  shows "func_evaluated Q K psi key q LUT b t (EvalFunc arb dcount sch params EK ct LUT beta T)"
proof -
  have qu: "uint q = 2 * u" using M by simp
  have M0: "M \<noteq> 0" "uint M dvd 2 ^ Suc K" "m_N (m_LWEParams params) = of_nat (2 ^ K)" using fr by (simp_all add: func_ready_def)
  have u: "0 < u" using uint_pos [OF M0(1)] M(3) by simp
  have q: "q \<noteq> 0" "uint q dvd uint M" "q \<le> M" using u qu M(3) by (auto simp: word_le_def)
  have "uint q * 2 mod 2 ^ 64 = uint M" using M(2) uint_lt2p [of M] by (simp add: mult.commute)
  then have dq: "LShift q 1 = M" by (intro word_uint_eq_iff [THEN iffD2]) (simp add: LShift_def push_bit_eq_mult uint_word_ariths(3))
  have N: "\<not> ucast (m_N (m_LWEParams params)) < q"
  proof -
    have "uint M \<le> 2 ^ Suc K" using M0(2) by (rule zdvd_imp_le) simp
    moreover have "(2 :: nat) ^ K < 2 ^ 32" "(2 :: nat) ^ K < 2 ^ 64" using K by (intro power_strict_increasing; simp)+
    then have "unat (of_nat (2 ^ K) :: usint) = 2 ^ K" "(2 :: nat) ^ K < 2 ^ 64" using unat_of_nat_32 by blast+
    then have "unat (ucast (of_nat (2 ^ K) :: usint) :: NativeInt) = 2 ^ K" by (simp only: unsigned_ucast_eq take_bit_eq_mod) simp
    then have "uint (ucast (of_nat (2 ^ K) :: usint) :: NativeInt) = 2 ^ K" by (simp only: uint_nat) simp
    ultimately show ?thesis using M(2) unfolding M0(3) word_less_def by simp
  qed
  have msb: "GetMSB M \<le> MAX_MODULUS_SIZE" "GetMSB q \<le> MAX_MODULUS_SIZE" using M(1) ct by (auto simp: fmod_ok_def lwe_wf_def nv_wf_def LWE_GetModulus_def NV_GetModulus_def)
  obtain a where a: "NV_SetModulus (m_a ct) M = Inr a" "lwe_wf (length key) (ct\<lparr>m_a := a\<rparr>)" "LWE_GetModulus (ct\<lparr>m_a := a\<rparr>) = M"
      "lwe_phase key (ct\<lparr>m_a := a\<rparr>) mod uint q = lwe_phase key ct" by (rule raise_modulus [OF ct q(2,3) msb(1)])
  have tt: "t = (lwe_phase key (ct\<lparr>m_a := a\<rparr>) + uint beta) mod uint M mod (2 * u)"
    unfolding t(1) qu [symmetric] mod_mod_cancel [OF q(2)] a(4) [symmetric] by (rule mod_add_left_eq)
  have w: "uint (RShift q 1) = u" by (simp add: RShift_def uint_drop_bit qu)
  have "int (unat M) = int (2 * unat q)" using M(2) by simp
  then have "unat M = 2 * unat q" by (simp only: of_nat_eq_iff)
  then have L2: "unat M div 2 \<le> length (LUT @ LUT)" using L(1) by simp
  have L3: "y \<le> M" if "y \<in> set (LUT @ LUT)" for y using L(2) that q(3) order_trans by auto
  have bM: "beta < M" using beta q(3) by simp
  obtain ct2 T1 ct3 ct4 T2 e1 e2 where r: "BootstrapFunc arb dcount sch params EK (LWE_EvalAddConstEq (ct\<lparr>m_a := a\<rparr>) beta) f_quarter M T = Inr (ct2, T1)"
      "LWE_EvalSubEq2 (ct\<lparr>m_a := a\<rparr>) ct2 = Inr ct3"
      "BootstrapFunc arb dcount sch params EK (LWE_EvalSubConstEq (LWE_EvalAddConstEq ct3 beta) (RShift q 1)) (fLUT_half (LUT @ LUT)) M T1 = Inr (ct4, T2)"
      "tables_ok Q K psi T2" "lwe_wf (length key) ct4" "LWE_GetModulus ct4 = M" "rcong (uint M) (lwe_phase key ct4) (lut_value (LUT @ LUT) (t + e1) + e2)" "\<bar>e1\<bar> \<le> b" "\<bar>e2\<bar> \<le> b"
    by (rule half_eval [where arb = arb and L = "LUT @ LUT", OF fr T a(2,3) M(3,1) bM w L2 L3 noise tt t(2,3)])
  obtain ct' where s: "LWE_SetModulus ct4 q = Inr ct'" "lwe_wf (length key) ct'" "LWE_GetModulus ct' = q" "rcong (uint q) (lwe_phase key ct') (lwe_phase key ct4)"
    by (rule SetModulus_phase [OF r(5,6) q(2,1) M(4) msb(2)])
  have "0 \<le> t + e1" "t + e1 < 2 * u" using r(8) [unfolded abs_le_iff] t(2,3) by linarith+
  then have "nat (t + e1) < length LUT" using L(1) qu by (simp add: unat_eq_nat_uint)
  then have v: "lut_value (LUT @ LUT) (t + e1) = lut_value LUT (t + e1)" by (simp add: lut_value_def nth_append)
  have "EvalFunc arb dcount sch params EK ct LUT beta T = Inr (ct', T2)" using r(1-3) a(1) s(1) N dq by (simp add: EvalFunc_def Let_def ct(2) kind)
  then show ?thesis unfolding func_evaluated_def using r(4,8,9) s(2,3) rcong_trans [OF s(4) rcong_dvd [OF q(2) r(7)]] v by auto
qed


section \<open>The evaluation of a table, end to end\<close>

text \<open>
  C3: With keys made by \<open>KeyGen\<close> and parameters as in \<open>binfhe_setup\<close>, \<open>EvalFunc\<close> evaluates every table: for a ciphertext of phase \<open>x\<close> modulo \<open>q\<close> the result is a ciphertext modulo \<open>q\<close>
  whose phase is the entry of the table at \<open>x + beta\<close>, up to an error \<open>e1\<close> of the place and an error \<open>e2\<close> of the entry, both within the noise bound
  \<open>b\<close> of a bootstrapping; \<open>e1\<close> is harmless where the table is constant around the place. A negacyclic table needs one bootstrapping
  and no margin; the periodic and the arbitrary ones need the margin \<open>b\<close> to the ends of the range they are read in, the arbitrary ones an accumulator
  of the GINX method and a modulus up to the ring dimension.
\<close>

theorem EvalFunc_correct:
  assumes set: "binfhe_setup dcount Q K psi g D Z params sk skN q" and sch: "BinFHEScheme_new (rg_method (m_RGSWParams params)) = Inr sch"
    and smp: "binfhe_samples Q K (length (int_key sk)) (m_qKS (m_LWEParams params)) E Eks ksNoise ksUnif bsUnif bsNoise" and T: "tables_ok Q K psi T"
    and kind: "checkInputFunction LUT q = Inr kind" and M: "uint M = (if kind = 2 then 2 else 1) * uint q" "fmod_ok (m_LWEParams params) M"
    and arbitrary: "kind = 2 \<longrightarrow> rg_method (m_RGSWParams params) = GINX \<and> uint M dvd 2 ^ Suc K"
    and L: "length LUT = unat q" "\<And>y. y \<in> set LUT \<Longrightarrow> y \<le> q"
    and noise: "func_noise dcount (m_LWEParams params) (int_key sk) (int_key \<lparr>m_s = skN\<rparr>) M (acc_noise dcount (m_RGSWParams params) (length (int_key sk)) K g D E Z) Eks
      \<le> 2 * (uint Q * uint (m_qKS (m_LWEParams params))) * b"
    and ct: "lwe_wf (length (int_key sk)) ct" "LWE_GetModulus ct = q" "beta < q"
    and margin: "lut_margin kind (uint q) b ((lwe_phase (int_key sk) ct + uint beta) mod uint q)"
  shows "\<exists>rg T1 EK T2 ct' T3 e1 e2. RGSW_PreCompute arb dcount False (m_RGSWParams params) T = Inr (rg, T1)
    \<and> BinFHE_KeyGen arb dcount sch skN ksNoise ksUnif bsUnif bsNoise (params\<lparr>m_RGSWParams := rg\<rparr>) sk T1 = Inr (EK, T2)
    \<and> EvalFunc arb dcount sch (params\<lparr>m_RGSWParams := rg\<rparr>) EK ct LUT beta T2 = Inr (ct', T3)
    \<and> lwe_wf (length (int_key sk)) ct' \<and> LWE_GetModulus ct' = q
    \<and> rcong (uint q) (lwe_phase (int_key sk) ct') (uint (LUT ! nat ((lwe_phase (int_key sk) ct + uint beta) mod uint q + e1)) + e2) \<and> \<bar>e1\<bar> \<le> b \<and> \<bar>e2\<bar> \<le> b"
proof -
  let ?key = "int_key sk" and ?z = "int_key \<lparr>m_s = skN\<rparr>" and ?t = "(lwe_phase (int_key sk) ct + uint beta) mod uint q"
  let ?\<beta> = "acc_noise dcount (m_RGSWParams params) (length (int_key sk)) K g D E Z"
  have q8: "8 dvd uint q" "q \<noteq> 0" using set by (simp_all add: binfhe_setup_def Let_def)
  obtain rg T1 EK T2 where k: "RGSW_PreCompute arb dcount False (m_RGSWParams params) T = Inr (rg, T1)"
      "BinFHE_KeyGen arb dcount sch skN ksNoise ksUnif bsUnif bsNoise (params\<lparr>m_RGSWParams := rg\<rparr>) sk T1 = Inr (EK, T2)" "tables_ok Q K psi T2"
      "bt_ready dcount sch (params\<lparr>m_RGSWParams := rg\<rparr>) Q K psi ?key ?z q ?\<beta> Eks EK"
    using KeyGen_ready [OF set sch smp T] by blast
  let ?params = "params\<lparr>m_RGSWParams := rg\<rparr>"
  note fr = bt_ready_func [OF k(4)]
  have fm: "fmod_ok (m_LWEParams ?params) M" and ns: "func_noise dcount (m_LWEParams ?params) ?key ?z M ?\<beta> Eks \<le> 2 * (uint Q * uint (m_qKS (m_LWEParams ?params))) * b"
    using M(2) noise by simp_all
  obtain r where r: "uint q = 8 * r" using q8(1) by (auto simp: dvd_def)
  have "func_evaluated Q K psi ?key q LUT b ?t (EvalFunc arb dcount sch ?params EK ct LUT beta T2)"
  proof -
    consider "kind = 0" | "kind = 1" | "kind = 2" using kind_range [OF kind] by blast
    then show ?thesis
    proof cases
      case 1
      then have "M = q" using M(1) by (simp add: word_uint_eq_iff)
      then show ?thesis using kind 1 fm ns by (intro EvalFunc_negacyclic [OF _ fr k(3) ct(1,2) _ ct(3) L]) simp_all
    next
      case 2
      then have Mq: "M = q" using M(1) by (simp add: word_uint_eq_iff)
      have m: "b \<le> ?t mod (2 * (2 * r))" "?t mod (2 * (2 * r)) + b < 2 * (2 * r)" using margin by (simp_all add: lut_margin_def 2 r)
      have q4: "uint q = 4 * (2 * r)" using r by simp
      show ?thesis using kind 2 by (intro EvalFunc_periodic [OF _ fr k(3) ct(1,2) fm [unfolded Mq] q4 ct(3) L ns [unfolded Mq] refl m]) simp
    next
      case 3
      have Mu: "uint M = 2 * uint q" "uint M = 4 * (4 * r)" using M(1) 3 r by simp_all
      have sG: "ACCscheme sch = Some GINX" using sch arbitrary 3 by (auto simp: BinFHEScheme_new_def)
      have M0: "even (uint M)" "M \<noteq> 0" using Mu(1) uint_pos [OF q8(2)] by auto
      have fM: "func_ready dcount sch ?params Q K psi ?key ?z M ?\<beta> Eks EK" using arbitrary 3 by (intro func_ready_modulus [OF fr sG M0(1) _ M0(2)]) simp
      have m: "b \<le> ?t" "?t + b < 2 * (4 * r)" using margin by (simp_all add: lut_margin_def 3 r)
      have K24: "K \<le> 24" using set by (simp add: binfhe_setup_def Let_def rgsw_fresh_def ring_ok_def ntt_params_def)
      have q2: "q \<noteq> 2" using q8(1) by auto
      show ?thesis using kind 3 by (intro EvalFunc_arbitrary [OF _ fM k(3) K24 ct(1,2) fm Mu q2 ct(3) L ns refl m]) simp
    qed
  qed
  then show ?thesis using k(1,2) unfolding func_evaluated_def lut_value_def by blast
qed


text \<open>A table with two values, each of period 1024.\<close>

definition sample_lut :: "NativeInt list" where
  "sample_lut = replicate 512 100 @ replicate 512 700 @ replicate 512 100 @ replicate 512 700"

lemma sample_lut_at: "i < 2048 \<Longrightarrow> sample_lut ! i = (if i mod 1024 < 512 then 100 else 700)"
proof -
  assume i: "i < 2048"
  consider "i < 512" | "512 \<le> i" "i < 1024" | "1024 \<le> i" "i < 1536" | "1536 \<le> i" using i by linarith
  then show ?thesis using i by cases (auto simp: sample_lut_def nth_append mod_if)
qed

lemma sample_lut_facts: "length sample_lut = 2048" "set sample_lut = {100, 700}" "checkInputFunction sample_lut 2048 = Inr 1"
proof -
  show l: "length sample_lut = 2048" "set sample_lut = {100, 700}" by (auto simp: sample_lut_def)
  have p: "sample_lut ! i = sample_lut ! (1024 + i)" if "i < 1024" for i using that by (simp add: sample_lut_at)
  have z: "sample_lut ! 0 = 100" "sample_lut ! 1024 = 100" by (simp_all add: sample_lut_at)
  have n: "\<not> (\<forall>i<1024. sample_lut ! i = 2048 - sample_lut ! (1024 + i))" using z by (auto intro!: exI [of _ 0])
  have "checkInputFunction sample_lut 2048 = Inr (if \<forall>i<1024. sample_lut ! i = 2048 - sample_lut ! (1024 + i) then 0
      else if sample_lut ! 0 = 2048 - sample_lut ! 1024 then 2 else if \<forall>i<1024. sample_lut ! i = sample_lut ! (1024 + i) then 1 else 2)"
    by (rule checkInputFunction_cases) (simp_all add: l)
  then show "checkInputFunction sample_lut 2048 = Inr 1" using n p z by simp
qed

theorem EvalFunc_correct_witness:
  "\<exists>rg T1 EK T2 ct T3 e. RGSW_PreCompute sample_arb sample_dcount False (m_RGSWParams sample_binfhe) FTT_empty = Inr (rg, T1)
    \<and> BinFHE_KeyGen sample_arb sample_dcount sample_scheme sample_skN sample_ks_noise sample_ks_unif sample_zeros sample_zeros
        (sample_binfhe\<lparr>m_RGSWParams := rg\<rparr>) sample_lwe_sk T1 = Inr (EK, T2)
    \<and> EvalFunc sample_arb sample_dcount sample_scheme (sample_binfhe\<lparr>m_RGSWParams := rg\<rparr>) EK (sample_bit True) sample_lut 100 T2 = Inr (ct, T3)
    \<and> rcong 2048 (lwe_phase (int_key sample_lwe_sk) ct) (700 + e) \<and> \<bar>e\<bar> \<le> 20"
proof -
  have ct: "lwe_wf (length (int_key sample_lwe_sk)) (sample_bit True)" "LWE_GetModulus (sample_bit True) = 2048"
    using sample_bits(1) [of True] by (simp_all add: bit_cipher_def)
  have ph: "lwe_phase (int_key sample_lwe_sk) (sample_bit True) = 515"
    by (simp add: sample_lwe_key sample_bit_def LWE_GetModulus_def NV_GetModulus_def lwe_phase_def dot_def nv_abs_def)
  have fm: "fmod_ok (m_LWEParams sample_binfhe) 2048" by (simp add: fmod_ok_def sample_binfhe_def sample_sizes_msb MAX_MODULUS_SIZE_def)
  have "(\<Sum>s\<leftarrow>int_key \<lparr>m_s = sample_skN\<rparr>. \<bar>s\<bar>) = 1" by (simp add: sample_ring_key(1) sum_list_replicate)
  then have noise: "func_noise sample_dcount (m_LWEParams sample_binfhe) (int_key sample_lwe_sk) (int_key \<lparr>m_s = sample_skN\<rparr>) 2048
      (acc_noise sample_dcount (m_RGSWParams sample_binfhe) (length (int_key sample_lwe_sk)) 10 4 4 0 1) 0 \<le> 2 * (uint (12289 :: NativeInt) * uint (m_qKS (m_LWEParams sample_binfhe))) * 20"
    by (simp add: func_noise_def switch_noise_def sample_binfhe_def acc_noise_def big_rgsw_def sample_lwe_key)
  have y: "y \<le> 2048" if "y \<in> set sample_lut" for y using that by (auto simp: sample_lut_facts)
  obtain rg T1 EK T2 ct T3 e1 e2 where r: "RGSW_PreCompute sample_arb sample_dcount False (m_RGSWParams sample_binfhe) FTT_empty = Inr (rg, T1)"
      "BinFHE_KeyGen sample_arb sample_dcount sample_scheme sample_skN sample_ks_noise sample_ks_unif sample_zeros sample_zeros (sample_binfhe\<lparr>m_RGSWParams := rg\<rparr>) sample_lwe_sk T1 = Inr (EK, T2)"
      "EvalFunc sample_arb sample_dcount sample_scheme (sample_binfhe\<lparr>m_RGSWParams := rg\<rparr>) EK (sample_bit True) sample_lut 100 T2 = Inr (ct, T3)"
      "rcong (uint (2048 :: NativeInt)) (lwe_phase (int_key sample_lwe_sk) ct) (uint (sample_lut ! nat ((515 + uint (100 :: NativeInt)) mod uint (2048 :: NativeInt) + e1)) + e2)" "\<bar>e1\<bar> \<le> 20" "\<bar>e2\<bar> \<le> 20"
    using EvalFunc_correct [where arb = sample_arb and beta = 100 and M = 2048, OF sample_setup sample_scheme_new sample_samples tables_ok_empty sample_lut_facts(3) _ fm _ _ y noise ct]
    unfolding ph by (auto simp: sample_lut_facts lut_margin_def)
  have "512 \<le> nat (615 + e1)" "nat (615 + e1) < 1024" using r(5) [unfolded abs_le_iff] by linarith+
  then have "sample_lut ! nat (615 + e1) = 700" by (simp add: sample_lut_at)
  then show ?thesis using r by auto
qed

end
