(* ===== verification/LargePrecision.thy ===== *)
theory LargePrecision
  imports FuncEval
begin

text \<open>
  The operations of \<open>binfhe-base-scheme.cpp\<close> on ciphertexts with a large modulus: \<open>EvalFloor\<close> clears the low part of a phase, and the loops of
  \<open>EvalSign\<close> and \<open>EvalDecomp\<close> shrink the modulus until one bootstrapping gives the top bit.
\<close>


section \<open>Flooring\<close>

definition floor_value :: "int \<Rightarrow> int \<Rightarrow> int \<Rightarrow> int" where
  "floor_value q fm t = (if t < q div 4 then fm - q div 2 - t else if t < 3 * q div 4 then t else fm + q div 2 - t)"

lemma f_floor_ok:
  assumes q: "uint q = 4 * u" "q \<noteq> 0" and fm: "uint q \<le> uint fmod" "GetMSB fmod \<le> MAX_MODULUS_SIZE"
  shows "fun_values f_floor q fmod (floor_value (uint q) (uint fmod))" "fun_negacyclic (uint q) (uint fmod) (floor_value (uint q) (uint fmod))"
proof -
  have u: "0 < u" using uint_pos [OF q(2)] q(1) by simp
  have "unat fmod < 2 ^ 60" by (rule modulus_size_bound(1) [OF fm(2)])
  then have "int (unat fmod) < int (2 ^ 60)" by (simp only: of_nat_less_iff)
  then have f60: "uint fmod < 2 ^ 60" by simp
  have uq: "uint (MulFast 3 q) = 12 * u" using q(1) fm(1) f60 uint_mult_small [of 3 q] by (simp add: MulFast_def)
  have d: "uint (q div 4) = u" "uint (q div 2) = 2 * u" "uint (MulFast 3 q div 4) = 3 * u" by (simp_all add: uint_div q(1) uq)
  have s2: "uint (fmod - q div 2) = uint fmod - 2 * u" using uint_sub_le [of "q div 2" fmod] fm(1) q(1) u by (simp add: word_le_def d)
  have "uint fmod + 2 * u < 2 ^ 64" "0 \<le> uint fmod + 2 * u" using f60 fm(1) q(1) u by simp_all
  then have a2: "uint (fmod + q div 2) = uint fmod + 2 * u" using mod_pos_pos_trivial [of "uint fmod + 2 * u" "2 ^ 64"] by (simp add: uint_word_ariths(1) d)
  show "fun_values f_floor q fmod (floor_value (uint q) (uint fmod))"
    unfolding fun_values_def
  proof (intro allI impI)
    fix x :: NativeInt assume x: "x < q"
    consider "uint x < u" | "u \<le> uint x" "uint x < 3 * u" | "3 * u \<le> uint x" by linarith
    then show "\<exists>y. f_floor x q fmod = Inr y \<and> y \<le> fmod \<and> uint y = floor_value (uint q) (uint fmod) (uint x)"
    proof cases
      case 1
      have "uint (fmod - q div 2 - x) = uint fmod - 2 * u - uint x" using uint_sub_le [of x "fmod - q div 2"] 1 fm(1) q(1) u by (simp add: word_le_def s2)
      moreover have "- (2 * u) \<le> uint x" using u uint_ge_0 [of x] by linarith
      ultimately show ?thesis using 1 u by (simp add: f_floor_def floor_value_def SubFast_def word_less_def word_le_def d q(1))
    next
      case 2
      then show ?thesis using fm(1) q(1) u by (simp add: f_floor_def floor_value_def word_less_def word_le_def d)
    next
      case 3
      have x4: "uint x < 4 * u" using x q(1) by (simp add: word_less_def)
      have "uint (fmod + q div 2 - x) = uint fmod + 2 * u - uint x" using uint_sub_le [of x "fmod + q div 2"] x4 fm(1) q(1) u by (simp add: word_le_def a2)
      then show ?thesis using 3 u by (simp add: f_floor_def floor_value_def SubFast_def AddFast_def word_less_def word_le_def d q(1))
    qed
  qed
  have h: "uint q = 2 * (2 * u)" "0 < 2 * u" using q(1) u by simp_all
  show "fun_negacyclic (uint q) (uint fmod) (floor_value (uint q) (uint fmod))"
    by (rule fun_negacyclicI [OF h]) (auto simp: floor_value_def q(1))
qed

lemma func_ready_msb: "func_ready dcount sch params Q K psi key z q \<beta> E EK \<Longrightarrow> GetMSB q \<le> MAX_MODULUS_SIZE"
proof -
  assume fr: "func_ready dcount sch params Q K psi key z q \<beta> E EK"
  then obtain ek where ek: "acc_ready Q K psi (m_RGSWParams params) z key q \<beta> (sch, ek)" by (auto simp: func_ready_def)
  have q: "uint q dvd 2 ^ Suc K" "q \<noteq> 0" using fr by (simp_all add: func_ready_def)
  have "K \<le> 24" using ACC.ready_ring [OF ek] by (simp add: ring_ok_def ntt_params_def)
  then have "(2 :: int) ^ Suc K < 2 ^ 32" by (intro power_strict_increasing) simp_all
  then have "uint q < 2 ^ 32" using zdvd_imp_le [OF q(1)] by simp
  then have "int (unat q) < int (2 ^ 32)" by simp
  then have "unat q < 2 ^ 32" by (simp only: of_nat_less_iff)
  then show ?thesis using GetMSB_le_32 [OF q(2)] by (simp add: MAX_MODULUS_SIZE_def)
qed

text \<open>
  The two bootstrappings of \<open>EvalFloor\<close>: the first moves the phase modulo \<open>q\<close> into the middle half of the range, the second takes it off.
  What is left is the multiple of \<open>q\<close> below the shifted phase.
\<close>

lemma EvalFloor_phase:
  assumes fr: "func_ready dcount sch params Q K psi key z q \<beta> E EK" and T: "tables_ok Q K psi T" and ct: "lwe_wf (length key) ct" "LWE_GetModulus ct = md"
    and q: "m_q (m_LWEParams params) = q" "uint q = 4 * u" "uint md = uint q * m" and fm: "fmod_ok (m_LWEParams params) md" and beta: "beta < md"
    and noise: "func_noise dcount (m_LWEParams params) key z md \<beta> E \<le> 2 * (uint Q * uint (m_qKS (m_LWEParams params))) * b"
    and t: "t = (lwe_phase key ct + uint beta) mod uint md" "b \<le> t mod (2 * u)" "t mod (2 * u) + b < 2 * u"
  obtains ct' T' e where "EvalFloor arb dcount sch params EK ct beta 0 T = Inr (ct', T')" "tables_ok Q K psi T'" "lwe_wf (length key) ct'" "LWE_GetModulus ct' = md"
    "rcong (uint md) (lwe_phase key ct') (uint q * (t div uint q) + e)" "\<bar>e\<bar> \<le> b"
proof -
  note P = func_ready_pos [OF fr]
  have q0: "q \<noteq> 0" "even (uint q)" "uint q dvd uint md" using fr q by (auto simp: func_ready_def)
  have u: "0 < u" using uint_pos [OF q0(1)] q(2) by simp
  have md0: "md \<noteq> 0" "GetMSB md \<le> MAX_MODULUS_SIZE" using fm by (simp_all add: fmod_ok_def)
  have qle: "uint q \<le> uint md" using zdvd_imp_le [OF q0(3)] uint_pos [OF md0(1)] by simp
  then have "q \<le> md" by (simp add: word_le_def)
  have q2: "q \<noteq> 2"
  proof
    assume "q = 2"
    then have "4 * u = 2" using q(2) by simp
    then show False by presburger
  qed
  note msb = func_ready_msb [OF fr]
  have t0: "0 \<le> t" "t < uint md" using uint_pos [OF md0(1)] by (simp_all add: t(1))
  let ?c1 = "LWE_EvalAddConstEq ct beta"
  have c1: "lwe_wf (length key) ?c1" "LWE_GetModulus ?c1 = md" "lwe_phase key ?c1 = t" using EvalConst_phase(1) [OF ct(1) refl, of beta] beta by (simp_all add: ct(2) t(1))
  obtain cq where cq: "LWE_SetModulus ?c1 q = Inr cq" "lwe_wf (length key) cq" "LWE_GetModulus cq = q" "rcong (uint q) (lwe_phase key cq) (lwe_phase key ?c1)"
    by (rule SetModulus_phase [OF c1(1,2) q0(3,1) q2 msb])
  have pq: "lwe_phase key cq = t mod uint q" using cq(4) unfolding c1(3) rcong_def by (simp add: lwe_phase_def cq(3))
  have "q div 4 \<le> md" using qle u by (simp add: word_le_def uint_div q(2))
  note fq = f_quarter_ok [OF q0(2,1) this]
  obtain ct2 T1 e1 where c2: "BootstrapFunc arb dcount sch params EK cq f_quarter md T = Inr (ct2, T1)" "tables_ok Q K psi T1" "lwe_wf (length key) ct2" "LWE_GetModulus ct2 = md"
      "rcong (uint md) (lwe_phase key ct2) (quarter_value (uint q) (uint md) (t mod uint q) + e1)"
      "2 * (uint Q * uint (m_qKS (m_LWEParams params))) * \<bar>e1\<bar> \<le> func_noise dcount (m_LWEParams params) key z md \<beta> E"
    using BootstrapFunc_phase [OF fr T cq(2,3) fq fm, of arb] unfolding pq by blast
  have e1: "\<bar>e1\<bar> \<le> b" by (rule noise_le [OF c2(6) noise P])
  obtain c3 where c3: "LWE_EvalSubEq ?c1 ct2 = Inr c3" "lwe_wf (length key) c3" "LWE_GetModulus c3 = md" "lwe_phase key c3 = (lwe_phase key ?c1 + - 1 * lwe_phase key ct2) mod uint md"
    using EvalSub.op2_phase [OF c1(1) c2(3)] c1(2) c2(4) by auto
  obtain c4 where c4: "LWE_SetModulus c3 q = Inr c4" "lwe_wf (length key) c4" "LWE_GetModulus c4 = q" "rcong (uint q) (lwe_phase key c4) (lwe_phase key c3)"
    by (rule SetModulus_phase [OF c3(2,3) q0(3,1) q2 msb])
  define s where "s = (if t mod uint q < 2 * u then t mod uint q + u else t mod uint q - u) - e1"
  have x: "0 \<le> t mod uint q" "t mod uint q < 4 * u" using u by (simp_all add: q(2))
  have "t mod uint q mod (2 * u) = t mod (2 * u)" by (rule mod_mod_cancel) (simp add: q(2))
  then have tq: "t mod (2 * u) = (if t mod uint q < 2 * u then t mod uint q else t mod uint q - 2 * u)" using half_mod [OF u x] by simp
  have s: "u \<le> s" "s < 3 * u" using e1 [unfolded abs_le_iff] t(2,3) unfolding tq s_def by (auto split: if_splits)
  have "quarter_value (uint q) (uint md) (t mod uint q) = (if t mod uint q < 2 * u then uint md - u else u)" by (simp add: quarter_value_def q(2))
  then have "rcong (uint md) (t - (quarter_value (uint q) (uint md) (t mod uint q) + e1)) (t div uint q * uint q + s)"
    unfolding s_def rcong_iff_dvd by (simp add: minus_mod_eq_div_mult [symmetric])
  from rcong_trans [OF rcong_diff [OF rcong_refl c2(5), of t] this]
  have r3: "rcong (uint md) (lwe_phase key c3) (uint q * (t div uint q) + s)" unfolding c3(4) c1(3) by (simp add: mult.commute)
  have p4: "lwe_phase key c4 = s"
  proof (rule rcong_small [of "uint q"])
    have "rcong (uint q) (uint q * (t div uint q) + s) s" by (simp add: rcong_def)
    then show "rcong (uint q) (lwe_phase key c4) s" using rcong_trans [OF c4(4) rcong_dvd [OF q0(3) r3]] rcong_trans by blast
  qed (use s u in \<open>simp_all add: lwe_phase_def c4(3) q(2)\<close>)
  note ff = f_floor_ok [OF q(2) q0(1) qle md0(2)]
  obtain ct5 T2 e2 where c5: "BootstrapFunc arb dcount sch params EK c4 f_floor md T1 = Inr (ct5, T2)" "tables_ok Q K psi T2" "lwe_wf (length key) ct5" "LWE_GetModulus ct5 = md"
      "rcong (uint md) (lwe_phase key ct5) (floor_value (uint q) (uint md) s + e2)"
      "2 * (uint Q * uint (m_qKS (m_LWEParams params))) * \<bar>e2\<bar> \<le> func_noise dcount (m_LWEParams params) key z md \<beta> E"
    using BootstrapFunc_phase [OF fr c2(2) c4(2,3) ff fm, of arb] unfolding p4 by blast
  have e2: "\<bar>- e2\<bar> \<le> b" using noise_le [OF c5(6) noise P] by simp
  have fv: "floor_value (uint q) (uint md) s = s" using s by (simp add: floor_value_def q(2))
  obtain ct' where c': "LWE_EvalSubEq c3 ct5 = Inr ct'" "lwe_wf (length key) ct'" "LWE_GetModulus ct' = md" "lwe_phase key ct' = (lwe_phase key c3 + - 1 * lwe_phase key ct5) mod uint md"
    using EvalSub.op2_phase [OF c3(2) c5(3)] c3(3) c5(4) by auto
  have "rcong (uint md) (lwe_phase key c3 - lwe_phase key ct5) (uint q * (t div uint q) + s - (s + e2))" by (rule rcong_diff [OF r3 c5(5) [unfolded fv]])
  then have "rcong (uint md) (lwe_phase key ct') (uint q * (t div uint q) + - e2)" unfolding c'(4) by simp
  moreover have "EvalFloor arb dcount sch params EK ct beta 0 T = Inr (ct', T2)" using cq(1) c2(1) c3(1) c4(1) c5(1) c'(1) by (simp add: EvalFloor_def Let_def q(1) ct(2))
  ultimately show thesis using that c5(2) c'(2,3) e2 by blast
qed


section \<open>Termination of the sign loop\<close>

text \<open>A pass keeps \<open>q\<close> and replaces the modulus by \<open>md / q * 2 * beta\<close>, which is smaller when \<open>2 * beta < q\<close>.\<close>

lemma sign_step_modulus:
  assumes "sign_step arb dcount sch EKs beta (ct, md, params, EK, T) = Inr (ct', md', params', EK', T')"
  shows "md' = md div m_q (m_LWEParams params) * 2 * beta" "m_LWEParams params' = m_LWEParams params"
  using assms by (auto simp: sign_step_def Let_def DividedBy_def MulFast_def split: if_splits option.splits prod.splits)

lemma shrinks:
  fixes md q beta :: NativeInt
  assumes "2 * unat beta < unat q" "q < md"
  shows "md div q * 2 * beta < md"
proof -
  have q: "0 < unat q" using assms(1) by simp
  have "unat md div unat q * (2 * unat beta) < unat md div unat q * unat q" using assms q by (intro mult_strict_left_mono) (simp_all add: div_greater_zero_iff word_less_nat_alt)
  also have "\<dots> \<le> unat md" by simp
  finally have lt: "unat md div unat q * 2 * unat beta < unat md" by (simp add: ac_simps)
  have "unat (md div q * 2 * beta) \<le> unat md div unat q * 2 * unat beta"
    by (simp add: unat_word_ariths(2) unat_div mod_mult_left_eq)
  then show ?thesis using lt by (simp add: word_less_nat_alt)
qed


lemma sign_loop_returns:
  assumes "2 * unat beta < unat (m_q (m_LWEParams params))"
  shows "\<exists>r. sign_loop arb dcount sch EKs beta (ct, md, params, EK, T) = Some r"
  using assms
proof (induction "unat md" arbitrary: ct md params EK T rule: less_induct)
  case less
  show ?case
  proof (cases "m_q (m_LWEParams params) < md")
    case True
    show ?thesis
    proof (cases "sign_step arb dcount sch EKs beta (ct, md, params, EK, T)")
      case (Inr st)
      obtain ct' md' params' EK' T' where st: "st = (ct', md', params', EK', T')" by (cases st) auto
      note s = sign_step_modulus [OF Inr [unfolded st]]
      have "unat md' < unat md" using shrinks [OF less.prems True] by (simp add: s(1) word_less_nat_alt)
      then show ?thesis using less.hyps [of md' params'] less.prems True Inr s(2) by (subst sign_loop.simps) (simp add: st)
    qed (use True in \<open>subst sign_loop.simps, simp\<close>)
  qed (subst sign_loop.simps, simp)
qed

lemma decomp_loop_returns:
  assumes "2 * unat beta < unat (m_q (m_LWEParams params))"
  shows "\<exists>r. decomp_loop arb dcount sch EKs beta ret (ct, md, params, EK, T) = Some r"
  using assms
proof (induction "unat md" arbitrary: ct md params EK T ret rule: less_induct)
  case less
  show ?case
  proof (cases "m_q (m_LWEParams params) < md")
    case True
    show ?thesis
    proof (cases "LWE_SetModulus ct (m_q (m_LWEParams params))")
      case (Inr ctq)
      show ?thesis
      proof (cases "sign_step arb dcount sch EKs beta (ct, md, params, EK, T)")
        case step: (Inr st)
        obtain ct' md' params' EK' T' where st: "st = (ct', md', params', EK', T')" by (cases st) auto
        note s = sign_step_modulus [OF step [unfolded st]]
        have "unat md' < unat md" using shrinks [OF less.prems True] by (simp add: s(1) word_less_nat_alt)
        then show ?thesis using less.hyps [of md' params'] less.prems True Inr step s(2) by (subst decomp_loop.simps) (simp add: st)
      qed (use True Inr in \<open>subst decomp_loop.simps, simp\<close>)
    qed (use True in \<open>subst decomp_loop.simps, simp\<close>)
  qed (subst decomp_loop.simps, simp)
qed

text \<open>
  C18: The loops of \<open>EvalSign\<close> and \<open>EvalDecomp\<close> end, whatever the ciphertext, the keys and the tables: when twice the noise bound \<open>beta\<close> is below
  the modulus \<open>q\<close> of the parameters, both return a ciphertext or one of the exceptions.
\<close>

theorem EvalSign_terminates:
  assumes "2 * unat beta < unat (m_q (m_LWEParams params))"
  shows "EvalSign arb dcount sch params EKs ct beta T \<noteq> None \<and> EvalDecomp arb dcount sch params EKs ct beta T \<noteq> None"
proof
  let ?md = "LWE_GetModulus ct" and ?base = "rg_baseG (m_RGSWParams params)"
  show "EvalSign arb dcount sch params EKs ct beta T \<noteq> None"
  proof (cases "map_of EKs ?base")
    case (Some EK)
    obtain r where "sign_loop arb dcount sch EKs beta (ct, ?md, params, EK, T) = Some r" using sign_loop_returns [OF assms] by blast
    then show ?thesis using Some by (cases r) (auto simp: EvalSign_def Let_def)
  qed (simp add: EvalSign_def Let_def)
  show "EvalDecomp arb dcount sch params EKs ct beta T \<noteq> None"
  proof (cases "map_of EKs ?base")
    case (Some EK)
    obtain r where "decomp_loop arb dcount sch EKs beta [] (ct, ?md, params, EK, T) = Some r" using decomp_loop_returns [OF assms] by blast
    then show ?thesis using Some by (cases r) (auto simp: EvalDecomp_def Let_def)
  qed (simp add: EvalDecomp_def Let_def)
qed

theorem EvalSign_terminates_witness:
  "EvalSign sample_arb sample_dcount sample_scheme sample_binfhe [(16, \<lparr>BSkey = None, KSkey = None\<rparr>)]
     \<lparr>m_a = \<lparr>m_data = [5, 9], m_modulus = 16384\<rparr>, m_b = 511\<rparr> 128 FTT_empty \<noteq> None"
  using EvalSign_terminates [of 128 sample_binfhe sample_arb sample_dcount sample_scheme "[(16, \<lparr>BSkey = None, KSkey = None\<rparr>)]"
      "\<lparr>m_a = \<lparr>m_data = [5, 9], m_modulus = 16384\<rparr>, m_b = 511\<rparr>" FTT_empty] by (simp add: sample_binfhe_def)


section \<open>The sign\<close>

text \<open>A ciphertext modulo \<open>md\<close> of the number \<open>mu\<close>, which sits at the multiple \<open>2 * beta * mu\<close> with noise of at most \<open>b\<close>.\<close>

definition num_cipher :: "int list \<Rightarrow> NativeInt \<Rightarrow> int \<Rightarrow> int \<Rightarrow> LWECiphertext \<Rightarrow> int \<Rightarrow> bool" where
  "num_cipher key md beta b ct mu \<longleftrightarrow> lwe_wf (length key) ct \<and> LWE_GetModulus ct = md \<and> 0 \<le> mu \<and> 2 * beta * mu < uint md
     \<and> (\<exists>e. \<bar>e\<bar> \<le> b \<and> rcong (uint md) (lwe_phase key ct) (2 * beta * mu + e))"

lemma zdiv_less: "0 < (c :: int) \<Longrightarrow> x div c < n \<longleftrightarrow> x < n * c"
proof
  assume c: "0 < c"
  have x: "x = x div c * c + x mod c" "0 \<le> x mod c" "x mod c < c" using c by simp_all
  show "x < n * c" if "x div c < n"
  proof -
    have "(x div c + 1) * c \<le> n * c" using that c by (intro mult_right_mono) simp_all
    then show ?thesis using x unfolding distrib_right mult_1 by linarith
  qed
  show "x div c < n" if "x < n * c"
  proof (rule ccontr)
    assume "\<not> x div c < n"
    then have "n * c \<le> x div c * c" using c by (intro mult_right_mono) simp_all
    then show False using that x by linarith
  qed
qed

text \<open>The shifted phase of such a ciphertext and the place of it in a window of \<open>c\<close> numbers.\<close>

lemma num_window:
  fixes beta mu e c :: int
  assumes "0 \<le> mu" "\<bar>e\<bar> \<le> b'" "b + b' < beta" "0 \<le> b" "0 < c"
  defines "t \<equiv> 2 * beta * mu + e + beta"
  shows "t div (2 * beta * c) = mu div c" "b \<le> t mod (2 * beta * c)" "t mod (2 * beta * c) + b < 2 * beta * c"
proof -
  have b0: "0 < beta" and r: "b \<le> e + beta" "e + beta + b < 2 * beta" using assms(2-4) unfolding abs_le_iff by linarith+
  have d: "t div (2 * beta) = mu" "t mod (2 * beta) = e + beta"
  proof -
    have t: "t = e + beta + mu * (2 * beta)" by (simp add: t_def)
    have "(e + beta) div (2 * beta) = 0" "(e + beta) mod (2 * beta) = e + beta" using r b0 assms(4) by (simp_all add: div_pos_pos_trivial)
    then show "t div (2 * beta) = mu" "t mod (2 * beta) = e + beta" using b0 by (simp_all add: t)
  qed
  show "t div (2 * beta * c) = mu div c" using assms(5) by (simp add: zdiv_zmult2_eq d)
  have m: "t mod (2 * beta * c) = 2 * beta * (mu mod c) + (e + beta)" using assms(5) by (simp add: zmod_zmult2_eq d)
  have "0 \<le> 2 * beta * (mu mod c)" using b0 assms(5) by simp
  then show "b \<le> t mod (2 * beta * c)" using r(1) unfolding m by linarith
  have "2 * beta * (mu mod c + 1) \<le> 2 * beta * c" using b0 assms(5) by (intro mult_left_mono) (simp_all add: zless_imp_add1_zle)
  then show "t mod (2 * beta * c) + b < 2 * beta * c" using r(2) unfolding m by (simp add: distrib_left)
qed

lemma num_shifted:
  assumes n: "num_cipher key md beta b' ct mu" and beta: "b + b' < beta" "0 \<le> b" "2 * beta dvd uint md"
  obtains e where "\<bar>e\<bar> \<le> b'" "(lwe_phase key ct + beta) mod uint md = 2 * beta * mu + e + beta"
proof -
  obtain e where e: "\<bar>e\<bar> \<le> b'" "rcong (uint md) (lwe_phase key ct) (2 * beta * mu + e)" and mu: "0 \<le> mu" "2 * beta * mu < uint md" using n by (auto simp: num_cipher_def)
  have b0: "0 < beta" and r: "0 \<le> e + beta" "e + beta < 2 * beta" using e(1) beta(1,2) unfolding abs_le_iff by linarith+
  obtain c where c: "uint md = 2 * beta * c" using beta(3) by (auto simp: dvd_def)
  have "mu < c" using mu(2) b0 by (simp add: c)
  then have "2 * beta * (mu + 1) \<le> uint md" unfolding c using b0 by (intro mult_left_mono) simp_all
  then have "2 * beta * mu + e + beta < uint md" "0 \<le> 2 * beta * mu + e + beta" using r mu(1) b0 by (simp_all add: distrib_left add.assoc)
  then have "(2 * beta * mu + e + beta) mod uint md = 2 * beta * mu + e + beta" by simp
  moreover have "rcong (uint md) (lwe_phase key ct + beta) (2 * beta * mu + e + beta)" by (rule rcong_add [OF e(2) rcong_refl])
  ultimately show thesis using that e(1) by (simp add: rcong_def)
qed

text \<open>Scaling the modulus by \<open>2 * beta / q\<close> after the flooring.\<close>

lemma floor_scaled:
  fixes q m beta :: int
  assumes size: "0 < q" "0 < m" "0 < beta" and p: "rcong (q * m) ph (q * x + e)" "\<bar>e\<bar> \<le> b"
    and s: "rcong (2 * beta * m * (q * m)) (q * m * ph') (2 * beta * m * ph + d)" "2 * \<bar>d\<bar> \<le> q * m * S" and b': "4 * beta * b + q * S \<le> 2 * q * b'"
  obtains e' where "rcong (2 * beta * m) ph' (2 * beta * x + e')" "\<bar>e'\<bar> \<le> b'"
proof -
  have "rcong (2 * beta * m * (q * m)) (2 * beta * m * ph + d) (2 * beta * m * (q * x + e) + d)" by (intro rcong_add rcong_scale_left p rcong_refl)
  from rcong_trans [OF s(1) this] have "rcong (2 * beta * m * (q * m)) (q * m * ph') (q * m * (2 * beta * x) + (2 * beta * m * e + d))" by (simp add: algebra_simps)
  then obtain e' where e': "rcong (2 * beta * m) ph' (2 * beta * x + e')" "q * m * e' = 2 * beta * m * e + d" using rcong_unscale size by (metis mult_pos_pos)
  have "2 * beta * m * \<bar>e\<bar> \<le> 2 * beta * m * b" using p(2) size by (intro mult_left_mono) simp_all
  moreover have "\<bar>2 * beta * m * e + d\<bar> \<le> 2 * beta * m * \<bar>e\<bar> + \<bar>d\<bar>" using abs_triangle_ineq [of "2 * beta * m * e" d] size by (simp add: abs_mult)
  ultimately have "2 * \<bar>q * m * e'\<bar> \<le> m * (4 * beta * b + q * S)" using s(2) unfolding e'(2) by (simp add: algebra_simps)
  also have "\<dots> \<le> m * (2 * q * b')" using b' size by (intro mult_left_mono) simp_all
  finally have "(2 * q * m) * \<bar>e'\<bar> \<le> (2 * q * m) * b'" using size by (simp add: abs_mult algebra_simps)
  then have "\<bar>e'\<bar> \<le> b'" using size by simp
  then show thesis using that e'(1) by blast
qed


text \<open>
  The sizes: \<open>q\<close>, the modulus and \<open>2 * beta\<close> are powers of two, the noise \<open>b\<close> of a bootstrapping and the noise \<open>b'\<close> of a number stay below \<open>beta\<close>, and
  \<open>b'\<close> covers what the scaling leaves of \<open>b\<close> and the roundings of the modulus switching.
\<close>

definition sign_sizes :: "(NativeInt \<Rightarrow> usint \<Rightarrow> nat) \<Rightarrow> LWECryptoParams \<Rightarrow> int list \<Rightarrow> int list \<Rightarrow> int \<Rightarrow> int \<Rightarrow> NativeInt \<Rightarrow> nat \<Rightarrow> nat \<Rightarrow> nat \<Rightarrow> int \<Rightarrow> int \<Rightarrow> bool" where
  "sign_sizes dcount prm key z \<beta> E beta t s k b b' \<longleftrightarrow> uint (m_q prm) = 2 ^ s \<and> 2 * uint beta = 2 ^ t \<and> 1 \<le> t \<and> t < s \<and> 2 \<le> s \<and> k \<le> 25
     \<and> 0 \<le> b \<and> b + b' < uint beta \<and> 4 * uint beta * b + 2 ^ s * (1 + (\<Sum>x\<leftarrow>key. \<bar>x\<bar>)) \<le> 2 * 2 ^ s * b'
     \<and> (\<forall>j\<in>{Suc t..k}. fmod_ok prm (2 ^ j) \<and> func_noise dcount prm key z (2 ^ j) \<beta> E \<le> 2 * (uint (m_Q prm) * uint (m_qKS prm)) * b)"

lemma uint_two_power: "k < 64 \<Longrightarrow> uint (2 ^ k :: NativeInt) = 2 ^ k"
proof -
  assume k: "k < 64"
  have "(2 :: nat) ^ k < 2 ^ 64" using k by (intro power_strict_increasing) auto
  then have "unat (of_nat (2 ^ k) :: NativeInt) = 2 ^ k" by (rule unat_of_nat_64)
  then show ?thesis by (simp only: uint_nat of_nat_power of_nat_numeral)
qed

lemma two_power_split: "j \<le> k \<Longrightarrow> (2 :: int) ^ k = 2 ^ j * 2 ^ (k - j)"
  by (simp flip: power_add)

lemma sign_step_phase:
  assumes fr: "func_ready dcount sch params Q K psi key z q \<beta> E EK" and T: "tables_ok Q K psi T"
    and sz: "sign_sizes dcount (m_LWEParams params) key z \<beta> E beta t s k b b'" and q: "m_q (m_LWEParams params) = q"
    and k: "s < j" "j \<le> k" and ct: "num_cipher key (2 ^ j) (uint beta) b' ct mu" and EKs: "length EKs \<noteq> 3"
  obtains ct' T' where "sign_step arb dcount sch EKs beta (ct, 2 ^ j, params, EK, T) = Inr (ct', 2 ^ (j - (s - t)), params, EK, T')" "tables_ok Q K psi T'"
    "num_cipher key (2 ^ (j - (s - t))) (uint beta) b' ct' (mu div 2 ^ (s - t))"
proof -
  define S where "S = 1 + (\<Sum>x\<leftarrow>key. \<bar>x\<bar>)"
  have z: "uint q = 2 ^ s" "2 * uint beta = 2 ^ t" "1 \<le> t" "t < s" "2 \<le> s" "k \<le> 25" "0 \<le> b" "b + b' < uint beta" "4 * uint beta * b + 2 ^ s * S \<le> 2 * 2 ^ s * b'"
    and fm: "fmod_ok (m_LWEParams params) (2 ^ j)" "func_noise dcount (m_LWEParams params) key z (2 ^ j) \<beta> E \<le> 2 * (uint (m_Q (m_LWEParams params)) * uint (m_qKS (m_LWEParams params))) * b"
    using sz q k by (simp_all add: sign_sizes_def S_def)
  have Q: "m_Q (m_LWEParams params) = Q" using fr by (simp add: func_ready_def)
  have j: "uint (2 ^ j :: NativeInt) = 2 ^ j" using k z(6) by (intro uint_two_power) simp
  define j' where "j' = j - (s - t)"
  have j': "uint (2 ^ j' :: NativeInt) = 2 ^ j'" using k z(6) by (intro uint_two_power) (simp add: j'_def)
  define m :: int where "m = 2 ^ (j - s)"
  have mq: "(2 :: int) ^ j = 2 ^ s * m" "(2 :: int) ^ j' = 2 * uint beta * m" using k z(4) unfolding m_def z(2) j'_def by (simp_all flip: power_add)
  have c: "(2 :: int) ^ s = 2 * uint beta * 2 ^ (s - t)" "(2 :: int) ^ s = 4 * 2 ^ (s - 2)" "2 * 2 ^ (s - 2) = 2 * uint beta * 2 ^ (s - 1 - t)"
    using z(4,5) two_power_split [of 2 s] unfolding z(2) by (simp_all flip: power_add power_Suc)
  have dv: "2 * uint beta dvd uint (2 ^ j :: NativeInt)" unfolding j z(2) using k z(4) by (intro le_imp_power_dvd) simp
  obtain e where e: "\<bar>e\<bar> \<le> b'" "(lwe_phase key ct + uint beta) mod uint (2 ^ j :: NativeInt) = 2 * uint beta * mu + e + uint beta"
    by (rule num_shifted [OF ct z(8,7) dv])
  have mu: "0 \<le> mu" and wf: "lwe_wf (length key) ct" "LWE_GetModulus ct = 2 ^ j" using ct by (simp_all add: num_cipher_def)
  have b0: "0 < uint beta" using z(7,8) e(1) by linarith
  have bj: "beta < 2 ^ j"
  proof -
    have "(2 :: int) ^ t < 2 ^ j" using k z(4) by (intro power_strict_increasing) auto
    then show ?thesis unfolding word_less_def j using z(2) b0 by linarith
  qed
  note w = num_window [OF mu e(1) z(8,7), of "2 ^ (s - 1 - t)"] and w2 = num_window(1) [OF mu e(1) z(8,7), of "2 ^ (s - t)"]
  let ?t = "2 * uint beta * mu + e + uint beta"
  have t1: "?t div uint q = mu div 2 ^ (s - t)" using w2 by (simp add: z(1) c(1))
  have t2: "b \<le> ?t mod (2 * 2 ^ (s - 2))" "?t mod (2 * 2 ^ (s - 2)) + b < 2 * 2 ^ (s - 2)" using w(2,3) by (simp_all only: c(3)) simp_all
  have q4: "uint q = 4 * 2 ^ (s - 2)" using z(1) c(2) by simp
  have qm: "uint (2 ^ j :: NativeInt) = uint q * m" by (simp only: j z(1) mq(1))
  obtain ct1 T' e1 where f: "EvalFloor arb dcount sch params EK ct beta 0 T = Inr (ct1, T')" "tables_ok Q K psi T'" "lwe_wf (length key) ct1" "LWE_GetModulus ct1 = 2 ^ j"
      "rcong (uint (2 ^ j :: NativeInt)) (lwe_phase key ct1) (uint q * (?t div uint q) + e1)" "\<bar>e1\<bar> \<le> b"
    by (rule EvalFloor_phase [where arb = arb, OF fr T wf q q4 qm fm(1) bj fm(2) [unfolded Q] e(2) [symmetric] t2])
  have f5: "rcong (2 ^ s * m) (lwe_phase key ct1) (2 ^ s * (mu div 2 ^ (s - t)) + e1)" using f(5) unfolding t1 unfolding z(1) j mq(1) .
  have m0: "0 < m" by (simp add: m_def)
  have md: "(2 ^ j div q) * 2 * beta = (2 ^ j' :: NativeInt)"
  proof -
    have "uint ((2 ^ j div q :: NativeInt)) = m" using m0 by (simp add: uint_div j z(1) mq(1))
    then have "uint (2 ^ j div q * 2 * beta) = m * (2 * uint beta) mod 2 ^ 64" by (simp add: uint_word_ariths(3) mod_mult_left_eq mod_mult_right_eq mult.assoc)
    also have "m * (2 * uint beta) = uint (2 ^ j' :: NativeInt)" unfolding j' mq(2) by (rule mult.commute)
    also have "uint (2 ^ j' :: NativeInt) mod 2 ^ 64 = uint (2 ^ j' :: NativeInt)" using uint_lt2p [of "2 ^ j' :: NativeInt"] by simp
    finally show ?thesis by (simp only: word_uint_eq_iff)
  qed
  have "j' \<in> {Suc t..k}" using k z(4) unfolding j'_def atLeastAtMost_iff by linarith
  then have fj': "fmod_ok (m_LWEParams params) (2 ^ j')" using sz unfolding sign_sizes_def by blast
  have mm: "uint (2 ^ j' :: NativeInt) * uint (LWE_GetModulus ct1) \<le> 2 ^ 50"
  proof -
    have "(2 :: int) ^ (j' + j) \<le> 2 ^ 50" using k z(6) by (intro power_increasing) (simp_all add: j'_def)
    then show ?thesis by (simp add: f(4) j j' power_add)
  qed
  obtain ct' d where sw: "LWE_ModSwitch (2 ^ j') ct1 = Inr ct'" "lwe_wf (length key) ct'" "LWE_GetModulus ct' = 2 ^ j'"
      "rcong (2 ^ j' * 2 ^ j) (2 ^ j * lwe_phase key ct') (2 ^ j' * lwe_phase key ct1 + d)" "2 * \<bar>d\<bar> \<le> 2 ^ j * S"
    using ModSwitch_noise [OF f(3) _ _ mm] fj' by (auto simp: fmod_ok_def f(4) j j' S_def)
  obtain e' where e': "rcong (2 ^ j') (lwe_phase key ct') (2 * uint beta * (mu div 2 ^ (s - t)) + e')" "\<bar>e'\<bar> \<le> b'"
    using floor_scaled [OF _ m0 b0 f5 f(6) sw(4,5) [unfolded mq] z(9)] unfolding mq by auto
  have "2 * uint beta * (mu div 2 ^ (s - t)) < 2 ^ j'"
  proof -
    have "2 * uint beta * mu < 2 ^ s * m" using ct unfolding num_cipher_def j mq(1) by simp
    then have "mu < m * 2 ^ (s - t)" unfolding c(1) using b0 by (simp add: mult.commute mult.left_commute)
    then have "mu div 2 ^ (s - t) < m" by (simp add: zdiv_less)
    then show ?thesis unfolding mq(2) using b0 by simp
  qed
  then have "num_cipher key (2 ^ j') (uint beta) b' ct' (mu div 2 ^ (s - t))"
    unfolding num_cipher_def j' using sw(2,3) mu e' by (auto simp: pos_imp_zdiv_nonneg_iff)
  moreover have "q \<noteq> 0" using z(1) by auto
  then have "sign_step arb dcount sch EKs beta (ct, 2 ^ j, params, EK, T) = Inr (ct', 2 ^ j', params, EK, T')"
    using f(1) sw(1) EKs md by (simp add: sign_step_def Let_def q DividedBy_def MulFast_def)
  ultimately show thesis using that f(2) unfolding j'_def by blast
qed


lemma sign_loop_phase:
  assumes fr: "func_ready dcount sch params Q K psi key z q \<beta> E EK" and sz: "sign_sizes dcount (m_LWEParams params) key z \<beta> E beta t s k b b'"
    and q: "m_q (m_LWEParams params) = q" and EKs: "length EKs \<noteq> 3"
  shows "t < j \<Longrightarrow> j \<le> k \<Longrightarrow> tables_ok Q K psi T \<Longrightarrow> num_cipher key (2 ^ j) (uint beta) b' ct mu \<Longrightarrow>
    \<exists>ct' j' T'. sign_loop arb dcount sch EKs beta (ct, 2 ^ j, params, EK, T) = Some (Inr (ct', 2 ^ j', params, EK, T')) \<and> tables_ok Q K psi T'
      \<and> t < j' \<and> j' \<le> s \<and> j' \<le> j \<and> num_cipher key (2 ^ j') (uint beta) b' ct' (mu div 2 ^ (j - j'))"
proof (induction j arbitrary: ct mu T rule: less_induct)
  case (less j)
  have z: "uint q = 2 ^ s" "t < s" "k \<le> 25" using sz q by (simp_all add: sign_sizes_def)
  have "uint (2 ^ j :: NativeInt) = 2 ^ j" using less.prems(2) z(3) by (intro uint_two_power) simp
  then have gt: "q < 2 ^ j \<longleftrightarrow> s < j" by (simp add: word_less_def z(1))
  show ?case
  proof (cases "s < j")
    case True
    obtain ct1 T1 where st: "sign_step arb dcount sch EKs beta (ct, 2 ^ j, params, EK, T) = Inr (ct1, 2 ^ (j - (s - t)), params, EK, T1)" "tables_ok Q K psi T1"
        "num_cipher key (2 ^ (j - (s - t))) (uint beta) b' ct1 (mu div 2 ^ (s - t))"
      by (rule sign_step_phase [where arb = arb, OF fr less.prems(3) sz q True less.prems(2,4) EKs])
    have lt: "j - (s - t) < j" "t < j - (s - t)" "j - (s - t) \<le> k" using True z(2) less.prems by simp_all
    obtain ct' j' T' where r: "sign_loop arb dcount sch EKs beta (ct1, 2 ^ (j - (s - t)), params, EK, T1) = Some (Inr (ct', 2 ^ j', params, EK, T'))" "tables_ok Q K psi T'"
        "t < j'" "j' \<le> s" "j' \<le> j - (s - t)" "num_cipher key (2 ^ j') (uint beta) b' ct' (mu div 2 ^ (s - t) div 2 ^ (j - (s - t) - j'))"
      using less.IH [OF lt st(2,3)] by blast
    have "mu div 2 ^ (s - t) div 2 ^ (j - (s - t) - j') = mu div (2 ^ (s - t) * 2 ^ (j - (s - t) - j'))" by (simp add: zdiv_zmult2_eq)
    also have "2 ^ (s - t) * 2 ^ (j - (s - t) - j') = (2 :: int) ^ (j - j')" using r(5) True z(2) by (simp flip: power_add)
    finally have "num_cipher key (2 ^ j') (uint beta) b' ct' (mu div 2 ^ (j - j'))" using r(6) by simp
    moreover have "sign_loop arb dcount sch EKs beta (ct, 2 ^ j, params, EK, T) = Some (Inr (ct', 2 ^ j', params, EK, T'))"
      using st(1) r(1) True gt by (subst sign_loop.simps) (simp add: q)
    ultimately show ?thesis using r(2-5) by auto
  next
    case False
    then have "sign_loop arb dcount sch EKs beta (ct, 2 ^ j, params, EK, T) = Some (Inr (ct, 2 ^ j, params, EK, T))" using gt by (subst sign_loop.simps) (simp add: q)
    then show ?thesis using less.prems False by (intro exI [of _ ct] exI [of _ j] exI [of _ T]) simp
  qed
qed

text \<open>The last bootstrapping.\<close>

definition sign_value :: "int \<Rightarrow> int \<Rightarrow> int \<Rightarrow> int" where
  "sign_value md fm t = (if t < md div 2 then fm div 4 else fm - fm div 4)"

lemma f_sign_ok:
  assumes "even (uint md)" "md \<noteq> 0"
  shows "fun_values f_sign md fmod (sign_value (uint md) (uint fmod))" "fun_negacyclic (uint md) (uint fmod) (sign_value (uint md) (uint fmod))"
proof -
  have le: "uint fmod div 4 \<le> uint fmod" "0 \<le> uint fmod div 4" using uint_ge_0 [of fmod] by presburger+
  then have "uint (fmod - fmod div 4) = uint fmod - uint fmod div 4" using uint_sub_le [of "fmod div 4" fmod] by (simp add: uint_div word_le_def)
  then show "fun_values f_sign md fmod (sign_value (uint md) (uint fmod))"
    unfolding fun_values_def f_sign_def sign_value_def SubFast_def using le by (auto simp: word_less_def word_le_def uint_div)
  obtain h where h: "uint md = 2 * h" using assms(1) by blast
  then have "0 < h" using uint_pos [OF assms(2)] by simp
  then show "fun_negacyclic (uint md) (uint fmod) (sign_value (uint md) (uint fmod))"
    by (intro fun_negacyclicI [OF h]) (simp_all add: sign_value_def h)
qed


lemma EvalSign_phase:
  assumes fr: "func_ready dcount sch params Q K psi key z q \<beta> E EK" and sch: "ACCscheme sch = Some GINX" and T: "tables_ok Q K psi T"
    and sz: "sign_sizes dcount (m_LWEParams params) key z \<beta> E beta t s k b b'" and q: "m_q (m_LWEParams params) = q" and k: "s < k"
    and EKs: "length EKs \<noteq> 3" "map_of EKs (rg_baseG (m_RGSWParams params)) = Some EK" and ct: "num_cipher key (2 ^ k) (uint beta) b' ct mu"
  obtains ct' T' e where "EvalSign arb dcount sch params EKs ct beta T = Some (Inr (ct', params, T'))" "tables_ok Q K psi T'" "lwe_wf (length key) ct'" "LWE_GetModulus ct' = q"
    "rcong (uint q) (lwe_phase key ct') ((if mu < 2 ^ (k - t - 1) then 0 else uint q div 2) + e)" "\<bar>e\<bar> \<le> b"
proof -
  have z: "uint q = 2 ^ s" "2 * uint beta = 2 ^ t" "1 \<le> t" "t < s" "2 \<le> s" "k \<le> 25" "0 \<le> b" "b + b' < uint beta" using sz q by (simp_all add: sign_sizes_def)
  have Q: "m_Q (m_LWEParams params) = Q" and qK: "uint q dvd 2 ^ Suc K" using fr by (simp_all add: func_ready_def)
  have tk: "t < k" "k \<le> k" using z(4) k by simp_all
  obtain c1 j T1 where l: "sign_loop arb dcount sch EKs beta (ct, 2 ^ k, params, EK, T) = Some (Inr (c1, 2 ^ j, params, EK, T1))" "tables_ok Q K psi T1"
      "t < j" "j \<le> s" "j \<le> k" "num_cipher key (2 ^ j) (uint beta) b' c1 (mu div 2 ^ (k - j))"
    using sign_loop_phase [OF fr sz q EKs(1) tk T ct, of arb] by blast
  let ?mu = "mu div 2 ^ (k - j)"
  have j: "uint (2 ^ j :: NativeInt) = 2 ^ j" "uint (2 ^ k :: NativeInt) = 2 ^ k" using l(5) z(6) by (intro uint_two_power; simp)+
  have dv: "2 * uint beta dvd uint (2 ^ j :: NativeInt)" unfolding j z(2) using l(3) by (intro le_imp_power_dvd) simp
  obtain e where e: "\<bar>e\<bar> \<le> b'" "(lwe_phase key c1 + uint beta) mod uint (2 ^ j :: NativeInt) = 2 * uint beta * ?mu + e + uint beta"
    by (rule num_shifted [OF l(6) z(8,7) dv])
  have mu: "0 \<le> ?mu" and wf: "lwe_wf (length key) c1" "LWE_GetModulus c1 = 2 ^ j" using l(6) by (simp_all add: num_cipher_def)
  have b0: "0 < uint beta" using z(7,8) e(1) by linarith
  have bj: "beta < 2 ^ j"
  proof -
    have "(2 :: int) ^ t < 2 ^ j" using l(3) by (intro power_strict_increasing) auto
    then show ?thesis unfolding word_less_def j using z(2) b0 by linarith
  qed
  have j0: "even (uint (2 ^ j :: NativeInt))" "(2 ^ j :: NativeInt) \<noteq> 0" "uint (2 ^ j :: NativeInt) dvd 2 ^ Suc K"
  proof -
    show "even (uint (2 ^ j :: NativeInt))" unfolding j using l(3) by simp
    show "(2 ^ j :: NativeInt) \<noteq> 0"
    proof
      assume "(2 ^ j :: NativeInt) = 0"
      then have "uint (2 ^ j :: NativeInt) = 0" by (simp only: unsigned_0)
      then have "(2 :: int) ^ j = 0" unfolding j(1) .
      then show False by simp
    qed
    have "(2 :: int) ^ j dvd 2 ^ s" using l(4) by (rule le_imp_power_dvd)
    then show "uint (2 ^ j :: NativeInt) dvd 2 ^ Suc K" unfolding j(1) using qK z(1) dvd_trans by metis
  qed
  note fj = func_ready_modulus [OF fr sch j0(1,3,2)]
  let ?c2 = "LWE_EvalAddConstEq c1 beta"
  have c2: "lwe_wf (length key) ?c2" "LWE_GetModulus ?c2 = 2 ^ j" "lwe_phase key ?c2 = 2 * uint beta * ?mu + e + uint beta"
    using EvalConst_phase(1) [OF wf(1) refl, of beta] bj e(2) by (simp_all add: wf(2))
  have "s \<in> {Suc t..k}" using z(4) k by simp
  moreover have "(2 ^ s :: NativeInt) = q" using z(1,6) k uint_two_power [of s] by (intro word_uint_eq_iff [THEN iffD2]) simp
  ultimately have fm: "fmod_ok (m_LWEParams params) q" "func_noise dcount (m_LWEParams params) key z q \<beta> E \<le> 2 * (uint Q * uint (m_qKS (m_LWEParams params))) * b"
    using sz Q by (auto simp: sign_sizes_def)
  obtain c3 T' e3 where c3: "BootstrapFunc arb dcount sch params EK ?c2 f_sign q T1 = Inr (c3, T')" "tables_ok Q K psi T'" "lwe_wf (length key) c3" "LWE_GetModulus c3 = q"
      "rcong (uint q) (lwe_phase key c3) (sign_value (uint (2 ^ j :: NativeInt)) (uint q) (2 * uint beta * ?mu + e + uint beta) + e3)"
      "2 * (uint Q * uint (m_qKS (m_LWEParams params))) * \<bar>e3\<bar> \<le> func_noise dcount (m_LWEParams params) key z q \<beta> E"
    using BootstrapFunc_phase [OF fj l(2) c2(1,2) f_sign_ok [OF j0(1,2)] fm(1), of arb] unfolding c2(3) by blast
  have e3: "\<bar>e3\<bar> \<le> b" by (rule noise_le [OF c3(6) fm(2) func_ready_pos [OF fr]])
  have half: "2 * uint beta * ?mu + e + uint beta < 2 ^ j div 2 \<longleftrightarrow> mu < 2 ^ (k - t - 1)"
  proof -
    have jj: "(2 :: int) ^ j div 2 = 2 * uint beta * 2 ^ (j - t - 1)" using l(3) unfolding z(2) by (cases j) (simp_all flip: power_add)
    have "2 * uint beta * ?mu + e + uint beta < 2 ^ j div 2 \<longleftrightarrow> (2 * uint beta * ?mu + e + uint beta) div (2 * uint beta) < 2 ^ (j - t - 1)"
      unfolding jj using b0 by (simp add: zdiv_less mult.commute)
    also have "(2 * uint beta * ?mu + e + uint beta) div (2 * uint beta) = ?mu" using num_window(1) [OF mu e(1) z(8,7), of 1] by simp
    also have "?mu < 2 ^ (j - t - 1) \<longleftrightarrow> mu < 2 ^ (j - t - 1) * 2 ^ (k - j)" by (simp add: zdiv_less)
    also have "(2 :: int) ^ (j - t - 1) * 2 ^ (k - j) = 2 ^ (k - t - 1)" using l(3,5) by (simp flip: power_add)
    finally show ?thesis .
  qed
  have q4: "uint q = 4 * 2 ^ (s - 2)" using two_power_split [OF z(5)] z(1) by simp
  have w: "uint (RShift q 2) = 2 ^ (s - 2)" by (simp add: RShift_def uint_drop_bit q4)
  have wq: "RShift q 2 < LWE_GetModulus c3" unfolding c3(4) word_less_def w q4 by simp
  let ?c4 = "LWE_EvalSubConstEq c3 (RShift q 2)"
  have c4: "lwe_wf (length key) ?c4" "LWE_GetModulus ?c4 = q" "lwe_phase key ?c4 = (lwe_phase key c3 - 2 ^ (s - 2)) mod uint q"
    using EvalConst_phase(2) [OF c3(3) refl wq] unfolding c3(4) w by blast+
  have sv: "sign_value (uint (2 ^ j :: NativeInt)) (uint q) (2 * uint beta * ?mu + e + uint beta) = (if mu < 2 ^ (k - t - 1) then 2 ^ (s - 2) else 3 * 2 ^ (s - 2))"
    unfolding sign_value_def j(1) half q4 by simp
  have "rcong (uint q) (lwe_phase key ?c4) ((if mu < 2 ^ (k - t - 1) then 2 ^ (s - 2) else 3 * 2 ^ (s - 2)) + e3 - 2 ^ (s - 2))"
    unfolding c4(3) using rcong_diff [OF c3(5) [unfolded sv] rcong_refl, of "2 ^ (s - 2)"] by (simp only: rcong_mod)
  moreover have "(if mu < 2 ^ (k - t - 1) then 2 ^ (s - 2) else 3 * 2 ^ (s - 2)) + e3 - 2 ^ (s - 2) = (if mu < 2 ^ (k - t - 1) then 0 else uint q div 2) + e3" by (simp add: q4)
  ultimately have "rcong (uint q) (lwe_phase key ?c4) ((if mu < 2 ^ (k - t - 1) then 0 else uint q div 2) + e3)" by (simp only:)
  moreover have "EvalSign arb dcount sch params EKs ct beta T = Some (Inr (?c4, params, T'))"
  proof -
    have "\<not> 2 ^ k \<le> q" unfolding word_le_def j z(1) using k by simp
    moreover have "LWE_GetModulus ct = 2 ^ k" using ct by (simp add: num_cipher_def)
    ultimately show ?thesis using l(1) c3(1) EKs(2) by (simp add: EvalSign_def Let_def q RGSW_Change_BaseG_def)
  qed
  ultimately show thesis using that c3(2) c4(1,2) e3 by blast
qed


text \<open>
  C5: With a key made by \<open>KeyGen\<close> and parameters as in \<open>binfhe_setup\<close>, \<open>EvalFloor\<close> clears the low part of a phase: the result is a ciphertext of the multiple of \<open>q\<close>
  at or below the phase shifted by \<open>beta\<close>, up to the noise \<open>b\<close> of one bootstrapping, whenever the shifted phase stays \<open>b\<close> away from the multiples
  of \<open>q / 2\<close>.
\<close>

theorem EvalFloor_correct:
  assumes set: "binfhe_setup dcount Q K psi g D Z params sk skN q" and sch: "BinFHEScheme_new (rg_method (m_RGSWParams params)) = Inr sch"
    and smp: "binfhe_samples Q K (length (int_key sk)) (m_qKS (m_LWEParams params)) E Eks ksNoise ksUnif bsUnif bsNoise" and T: "tables_ok Q K psi T"
    and md: "m_q (m_LWEParams params) = q" "uint q dvd uint md" "fmod_ok (m_LWEParams params) md"
    and noise: "func_noise dcount (m_LWEParams params) (int_key sk) (int_key \<lparr>m_s = skN\<rparr>) md (acc_noise dcount (m_RGSWParams params) (length (int_key sk)) K g D E Z) Eks
      \<le> 2 * (uint Q * uint (m_qKS (m_LWEParams params))) * b"
    and ct: "lwe_wf (length (int_key sk)) ct" "LWE_GetModulus ct = md" "beta < md"
    and margin: "lut_margin 1 (uint q) b ((lwe_phase (int_key sk) ct + uint beta) mod uint md)"
  shows "\<exists>rg T1 EK T2 ct' T3 e. RGSW_PreCompute arb dcount False (m_RGSWParams params) T = Inr (rg, T1)
    \<and> BinFHE_KeyGen arb dcount sch skN ksNoise ksUnif bsUnif bsNoise (params\<lparr>m_RGSWParams := rg\<rparr>) sk T1 = Inr (EK, T2)
    \<and> EvalFloor arb dcount sch (params\<lparr>m_RGSWParams := rg\<rparr>) EK ct beta 0 T2 = Inr (ct', T3)
    \<and> lwe_wf (length (int_key sk)) ct' \<and> LWE_GetModulus ct' = md
    \<and> rcong (uint md) (lwe_phase (int_key sk) ct') (uint q * (((lwe_phase (int_key sk) ct + uint beta) mod uint md) div uint q) + e) \<and> \<bar>e\<bar> \<le> b"
proof -
  let ?key = "int_key sk" and ?z = "int_key \<lparr>m_s = skN\<rparr>"
  let ?\<beta> = "acc_noise dcount (m_RGSWParams params) (length (int_key sk)) K g D E Z"
  have "8 dvd uint q" using set by (simp add: binfhe_setup_def Let_def)
  then obtain r where r: "uint q = 8 * r" by (auto simp: dvd_def)
  obtain m where m: "uint md = uint q * m" using md(2) by (auto simp: dvd_def)
  obtain rg T1 EK T2 where k: "RGSW_PreCompute arb dcount False (m_RGSWParams params) T = Inr (rg, T1)"
      "BinFHE_KeyGen arb dcount sch skN ksNoise ksUnif bsUnif bsNoise (params\<lparr>m_RGSWParams := rg\<rparr>) sk T1 = Inr (EK, T2)" "tables_ok Q K psi T2"
      "bt_ready dcount sch (params\<lparr>m_RGSWParams := rg\<rparr>) Q K psi ?key ?z q ?\<beta> Eks EK"
    using KeyGen_ready [OF set sch smp T] by blast
  let ?params = "params\<lparr>m_RGSWParams := rg\<rparr>" and ?t = "(lwe_phase ?key ct + uint beta) mod uint md"
  have pr: "m_q (m_LWEParams ?params) = q" "fmod_ok (m_LWEParams ?params) md" "func_noise dcount (m_LWEParams ?params) ?key ?z md ?\<beta> Eks \<le> 2 * (uint Q * uint (m_qKS (m_LWEParams ?params))) * b"
    using md noise by simp_all
  have u: "uint q = 4 * (2 * r)" "b \<le> ?t mod (2 * (2 * r))" "?t mod (2 * (2 * r)) + b < 2 * (2 * r)" using margin by (simp_all add: lut_margin_def r)
  show ?thesis
    by (rule EvalFloor_phase [where arb = arb, OF bt_ready_func [OF k(4)] k(3) ct(1,2) pr(1) u(1) m pr(2) ct(3) pr(3) refl u(2,3)]) (use k(1,2) in blast)
qed



definition sample_num :: LWECiphertext where
  "sample_num = \<lparr>m_a = \<lparr>m_data = [5, 9], m_modulus = 4096\<rparr>, m_b = 3326\<rparr>"

lemma sample_num_phase: "lwe_phase (int_key sample_lwe_sk) sample_num = 3330" "lwe_wf (length (int_key sample_lwe_sk)) sample_num" "LWE_GetModulus sample_num = 4096"
proof -
  have "GetMSB 4096 = 13" by code_simp
  then show "lwe_phase (int_key sample_lwe_sk) sample_num = 3330" "lwe_wf (length (int_key sample_lwe_sk)) sample_num" "LWE_GetModulus sample_num = 4096"
    by (simp_all add: sample_lwe_key sample_num_def LWE_GetModulus_def NV_GetModulus_def lwe_phase_def dot_def nv_abs_def lwe_wf_def nv_wf_def MAX_MODULUS_SIZE_def)
qed

lemma sample_func_noise:
  assumes "fm \<in> {512, 1024, 2048, 4096}"
  shows "fmod_ok (m_LWEParams sample_binfhe) fm"
    "func_noise sample_dcount (m_LWEParams sample_binfhe) (int_key sample_lwe_sk) (int_key \<lparr>m_s = sample_skN\<rparr>) fm
      (acc_noise sample_dcount (m_RGSWParams sample_binfhe) (length (int_key sample_lwe_sk)) 10 4 4 0 1) 0 \<le> 2 * (uint (12289 :: NativeInt) * uint (m_qKS (m_LWEParams sample_binfhe))) * 20"
proof -
  have "GetMSB 512 = 10" "GetMSB 1024 = 11" "GetMSB 2048 = 12" "GetMSB 4096 = 13" by code_simp+
  then show "fmod_ok (m_LWEParams sample_binfhe) fm" using assms by (auto simp: fmod_ok_def sample_binfhe_def MAX_MODULUS_SIZE_def)
  have "(\<Sum>s\<leftarrow>int_key \<lparr>m_s = sample_skN\<rparr>. \<bar>s\<bar>) = 1" by (simp add: sample_ring_key(1) sum_list_replicate)
  then show "func_noise sample_dcount (m_LWEParams sample_binfhe) (int_key sample_lwe_sk) (int_key \<lparr>m_s = sample_skN\<rparr>) fm
      (acc_noise sample_dcount (m_RGSWParams sample_binfhe) (length (int_key sample_lwe_sk)) 10 4 4 0 1) 0 \<le> 2 * (uint (12289 :: NativeInt) * uint (m_qKS (m_LWEParams sample_binfhe))) * 20"
    using assms by (auto simp: func_noise_def switch_noise_def sample_binfhe_def acc_noise_def big_rgsw_def sample_lwe_key)
qed

theorem EvalFloor_correct_witness:
  "\<exists>rg T1 EK T2 ct T3 e. RGSW_PreCompute sample_arb sample_dcount False (m_RGSWParams sample_binfhe) FTT_empty = Inr (rg, T1)
    \<and> BinFHE_KeyGen sample_arb sample_dcount sample_scheme sample_skN sample_ks_noise sample_ks_unif sample_zeros sample_zeros
        (sample_binfhe\<lparr>m_RGSWParams := rg\<rparr>) sample_lwe_sk T1 = Inr (EK, T2)
    \<and> EvalFloor sample_arb sample_dcount sample_scheme (sample_binfhe\<lparr>m_RGSWParams := rg\<rparr>) EK sample_num 128 0 T2 = Inr (ct, T3)
    \<and> rcong 4096 (lwe_phase (int_key sample_lwe_sk) ct) (2048 + e) \<and> \<bar>e\<bar> \<le> 20"
proof -
  have md: "m_q (m_LWEParams sample_binfhe) = 2048" "uint (2048 :: NativeInt) dvd uint (4096 :: NativeInt)" by (simp_all add: sample_binfhe_def)
  have bm: "(128 :: NativeInt) < 4096" "lut_margin 1 (uint (2048 :: NativeInt)) 20 ((lwe_phase (int_key sample_lwe_sk) sample_num + uint (128 :: NativeInt)) mod uint (4096 :: NativeInt))"
    by (simp_all add: sample_num_phase lut_margin_def)
  show ?thesis
    using EvalFloor_correct [where arb = sample_arb and md = 4096, OF sample_setup sample_scheme_new sample_samples tables_ok_empty md
        sample_func_noise(1) [of 4096] sample_func_noise(2) [of 4096] sample_num_phase(2,3) bm] by (simp add: sample_num_phase(1)) blast
qed

lemma sample_sign: "sign_sizes sample_dcount (m_LWEParams sample_binfhe) (int_key sample_lwe_sk) (int_key \<lparr>m_s = sample_skN\<rparr>)
    (acc_noise sample_dcount (m_RGSWParams sample_binfhe) (length (int_key sample_lwe_sk)) 10 4 4 0 1) 0 128 8 11 12 20 10"
proof -
  have "{Suc 8..12} = {9, 10, 11, 12 :: nat}" by auto
  moreover have "(2 :: NativeInt) ^ j \<in> {512, 1024, 2048, 4096}" if "j \<in> {9, 10, 11, 12}" for j using that by auto
  moreover have "uint (m_Q (m_LWEParams sample_binfhe)) = uint (12289 :: NativeInt)" by (simp add: sample_binfhe_def)
  moreover have "uint (m_q (m_LWEParams sample_binfhe)) = 2 ^ 11" "(\<Sum>x\<leftarrow>int_key sample_lwe_sk. \<bar>x\<bar>) = 2" by (simp_all add: sample_binfhe_def sample_lwe_key)
  ultimately show ?thesis unfolding sign_sizes_def using sample_func_noise by simp
qed


end
