(* ===== verification/BigInt.thy ===== *)
theory BigInt
  imports NatInt
begin

text \<open>
  The multi-limb integers of \<open>src/core/lib/math/hal/bigintdyn/ubintdyn.cpp\<close>, class \<open>ubint<uint32_t>\<close>, which is the type \<open>BigInteger\<close> of the default
  backend, with the switches of its header: \<open>UBINT_32\<close> and \<open>NO_BARRETT\<close> are defined, \<open>OLD_DIV\<close> is not.

  A number is a vector of 32-bit limbs, the least significant one first, with the position of its leading bit and a state. The arithmetic of a loop body
  is kept at the widths of the source: \<open>usint\<close> for a limb, \<open>NativeInt\<close> for \<open>Dlimb_t\<close> and, read by \<open>sint\<close>, for \<open>Sdlimb_t\<close>. The position \<open>m_MSB\<close> is
  a natural number, because the 32-bit field of the source cannot wrap for a vector of less than \<open>2 ^ 27\<close> limbs. The shift amounts are 16-bit words, as
  in the source. Reading or removing an element that a vector does not have is the error \<open>out_of_bounds\<close>.
\<close>

section \<open>The class\<close>

type_synonym usshort = "16 word"

datatype ub_State = INITIALIZED | GARBAGE

record ubint =
  ub_value :: "usint list"
  ub_MSB :: nat
  ub_state :: ub_State

definition m_limbBitLength :: nat where
  "m_limbBitLength = 32"

definition m_log2LimbBitLength :: nat where
  "m_log2LimbBitLength = 5"

definition m_MaxLimb :: usint where
  "m_MaxLimb = 0xFFFFFFFF"

definition ceilIntByUInt :: "nat \<Rightarrow> nat" where
  "ceilIntByUInt Number =
     (if Number = 0 then 1
      else if Number mod m_limbBitLength \<noteq> 0 then Number div m_limbBitLength + 1
      else Number div m_limbBitLength)"

definition GetMSBlimb_t :: "usint \<Rightarrow> nat" where
  "GetMSBlimb_t x = GetMSB64 (ucast x)"

text \<open>\<open>back\<close> and \<open>pop_back\<close> of a vector.\<close>

definition vback :: "'a list \<Rightarrow> 'a result" where
  "vback xs = (if xs = [] then Inl out_of_bounds else Inr (last xs))"

definition vpop_back :: "'a list \<Rightarrow> 'a list result" where
  "vpop_back xs = (if xs = [] then Inl out_of_bounds else Inr (butlast xs))"

definition vresize :: "usint list \<Rightarrow> nat \<Rightarrow> usint list" where
  "vresize xs n = take n xs @ replicate (n - length xs) 0"

definition SetMSB :: "ubint \<Rightarrow> ubint result" where
  "SetMSB x =
     (if ub_state x = GARBAGE then Inl not_available_error
      else res_bind (vback (ub_value x)) (\<lambda>top.
        Inr (x\<lparr>ub_MSB := (length (ub_value x) - 1) * m_limbBitLength + GetMSBlimb_t top\<rparr>)))"

definition SetMSB_guess :: "ubint \<Rightarrow> nat \<Rightarrow> ubint result" where
  "SetMSB_guess x guessIdxChar =
     res_bind (elem_at (ub_value x) guessIdxChar) (\<lambda>y.
     Inr (x\<lparr>ub_MSB := (length (ub_value x) - guessIdxChar - 1) * m_limbBitLength + GetMSBlimb_t y\<rparr>))"

fun NormalizeLimbs_loop :: "nat \<Rightarrow> usint list \<Rightarrow> usint list result" where
  "NormalizeLimbs_loop 0 v = Inr v"
| "NormalizeLimbs_loop (Suc i) v =
     res_bind (vback v) (\<lambda>top. if top = 0 then res_bind (vpop_back v) (NormalizeLimbs_loop i) else Inr v)"

text \<open>For an empty vector the 32-bit counter starts at \<open>2 ^ 32 - 1\<close> and the first pass reads the last element.\<close>

definition NormalizeLimbs :: "ubint \<Rightarrow> ubint result" where
  "NormalizeLimbs x =
     (if ub_value x = [] then Inl out_of_bounds
      else res_bind (NormalizeLimbs_loop (length (ub_value x) - 1) (ub_value x)) (\<lambda>v. Inr (x\<lparr>ub_value := v\<rparr>)))"

section \<open>Constructors and comparison\<close>

definition ubint_default :: ubint where
  "ubint_default = \<lparr>ub_value = [0], ub_MSB = 0, ub_state = INITIALIZED\<rparr>"

definition ubint_copy :: "ubint \<Rightarrow> ubint result" where
  "ubint_copy val = (if ub_state val = GARBAGE then Inl type_error else Inr val)"

fun push_limbs64 :: "nat \<Rightarrow> NativeInt \<Rightarrow> usint list" where
  "push_limbs64 0 init = []"
| "push_limbs64 (Suc n) init = ucast init # push_limbs64 n (drop_bit m_limbBitLength init)"

definition ubint_u64 :: "NativeInt \<Rightarrow> ubint" where
  "ubint_u64 val =
     (let msb = GetMSB64 val
      in \<lparr>ub_value = (if val \<le> ucast m_MaxLimb then [ucast val] else push_limbs64 (ceilIntByUInt msb) val), ub_MSB = msb, ub_state = INITIALIZED\<rparr>)"

fun push_limbs128 :: "nat \<Rightarrow> DNativeInt \<Rightarrow> usint list" where
  "push_limbs128 0 val = []"
| "push_limbs128 (Suc n) val = ucast val # push_limbs128 n (drop_bit m_limbBitLength val)"

definition ubint_u128 :: "DNativeInt \<Rightarrow> ubint" where
  "ubint_u128 val =
     (let msb = GetMSB_u128 val
      in \<lparr>ub_value = (if val \<le> ucast m_MaxLimb then [ucast val] else push_limbs128 (ceilIntByUInt msb) val), ub_MSB = msb, ub_state = INITIALIZED\<rparr>)"

fun Compare_loop :: "nat \<Rightarrow> usint list \<Rightarrow> usint list \<Rightarrow> int result" where
  "Compare_loop 0 v w = Inr 0"
| "Compare_loop (Suc i) v w =
     res_bind (elem_at v i) (\<lambda>x. res_bind (elem_at w i) (\<lambda>y.
     if x > y then Inr 1 else if x < y then Inr (- 1) else Compare_loop i v w))"

definition BI_Compare :: "ubint \<Rightarrow> ubint \<Rightarrow> int result" where
  "BI_Compare x a =
     (if ub_state x = GARBAGE \<or> ub_state a = GARBAGE then Inl not_available_error
      else if ub_MSB x < ub_MSB a then Inr (- 1)
      else if ub_MSB x > ub_MSB a then Inr 1
      else Compare_loop (length (ub_value x)) (ub_value x) (ub_value a))"

text \<open>The relational operators of \<open>BigIntegerInterface\<close>.\<close>

definition BI_eq :: "ubint \<Rightarrow> ubint \<Rightarrow> bool result" where
  "BI_eq a b = res_bind (BI_Compare a b) (\<lambda>c. Inr (c = 0))"

definition BI_gt :: "ubint \<Rightarrow> ubint \<Rightarrow> bool result" where
  "BI_gt a b = res_bind (BI_Compare a b) (\<lambda>c. Inr (c > 0))"

definition BI_ge :: "ubint \<Rightarrow> ubint \<Rightarrow> bool result" where
  "BI_ge a b = res_bind (BI_Compare a b) (\<lambda>c. Inr (c \<ge> 0))"

definition BI_lt :: "ubint \<Rightarrow> ubint \<Rightarrow> bool result" where
  "BI_lt a b = res_bind (BI_Compare a b) (\<lambda>c. Inr (c < 0))"

definition BI_le :: "ubint \<Rightarrow> ubint \<Rightarrow> bool result" where
  "BI_le a b = res_bind (BI_Compare a b) (\<lambda>c. Inr (c \<le> 0))"

section \<open>Addition and subtraction\<close>

text \<open>One limb of a sum: the low half is stored, the high half is the carry.\<close>

definition carry_step :: "NativeInt \<Rightarrow> usint \<times> NativeInt" where
  "carry_step ofl = (ucast ofl, drop_bit m_limbBitLength ofl)"

definition BI_Add :: "ubint \<Rightarrow> ubint \<Rightarrow> ubint result" where
  "BI_Add x b =
     (if ub_state x = GARBAGE \<or> ub_state b = GARBAGE then Inl not_available_error
      else res_bind (BI_gt x b) (\<lambda>gt.
        let (A, B) = (if gt then (x, b) else (b, x))
        in if ub_MSB B = 0 then ubint_copy A
           else let ceilIntA = ceilIntByUInt (ub_MSB A); ceilIntB = ceilIntByUInt (ub_MSB B)
                in res_bind (res_range 0 ceilIntB (\<lambda>i (ofl, v).
                     res_bind (elem_at (ub_value A) i) (\<lambda>p. res_bind (elem_at (ub_value B) i) (\<lambda>q.
                     let (l, ofl) = carry_step (ucast p + ucast q + ofl) in Inr (ofl, v @ [l])))) (0, [])) (\<lambda>(ofl, v).
                   res_bind (if ofl \<noteq> 0 then
                       res_bind (res_range ceilIntB ceilIntA (\<lambda>i (ofl, v).
                         res_bind (elem_at (ub_value A) i) (\<lambda>p.
                         let (l, ofl) = carry_step (ucast p + ofl) in Inr (ofl, v @ [l]))) (ofl, v)) (\<lambda>(ofl, v).
                       Inr (if ofl \<noteq> 0 then v @ [1] else v))
                     else res_range ceilIntB ceilIntA (\<lambda>i v. res_bind (elem_at (ub_value A) i) (\<lambda>p. Inr (v @ [p]))) v) (\<lambda>v.
                   SetMSB \<lparr>ub_value = v, ub_MSB = 0, ub_state = INITIALIZED\<rparr>))))"

definition BI_AddEq :: "ubint \<Rightarrow> ubint \<Rightarrow> ubint result" where
  "BI_AddEq x b =
     (if ub_state x = GARBAGE \<or> ub_state b = GARBAGE then Inl not_available_error
      else if ub_MSB b = 0 then Inr x
      else if ub_MSB x = 0 then Inr b
      else let sizeThis = length (ub_value x); sizeB = length (ub_value b); thisIsBigger = (sizeThis > sizeB);
               sizeSmall = (if sizeThis < sizeB then sizeThis else sizeB)
           in res_bind (res_range 0 sizeSmall (\<lambda>i (ofl, v).
                res_bind (elem_at v i) (\<lambda>p. res_bind (elem_at (ub_value b) i) (\<lambda>q.
                let (l, ofl) = carry_step (ucast p + ucast q + ofl) in res_bind (elem_set v i l) (\<lambda>v. Inr (ofl, v))))) (0, ub_value x)) (\<lambda>(ofl, v).
              res_bind
                (if thisIsBigger then
                   (if ofl \<noteq> 0 then
                      res_bind (res_range sizeSmall sizeThis (\<lambda>i (ofl, v).
                        res_bind (elem_at v i) (\<lambda>p.
                        let (l, ofl) = carry_step (ucast p + ofl) in res_bind (elem_set v i l) (\<lambda>v. Inr (ofl, v)))) (ofl, v)) (\<lambda>(ofl, v).
                      Inr (if ofl \<noteq> 0 then v @ [1] else v))
                    else Inr v)
                 else if ofl \<noteq> 0 then
                   res_bind (res_range sizeSmall sizeB (\<lambda>i (ofl, v).
                     res_bind (elem_at (ub_value b) i) (\<lambda>q.
                     let (l, ofl) = carry_step (ucast q + ofl) in Inr (ofl, v @ [l]))) (ofl, v)) (\<lambda>(ofl, v).
                   Inr (if ofl \<noteq> 0 then v @ [1] else v))
                 else res_range sizeSmall sizeB (\<lambda>i v. res_bind (elem_at (ub_value b) i) (\<lambda>q. Inr (v @ [q]))) v) (\<lambda>v.
              SetMSB (x\<lparr>ub_value := v\<rparr>))))"

text \<open>The search for the limb to borrow from: zero limbs on the way become all ones.\<close>

function borrow :: "usint list \<Rightarrow> nat \<Rightarrow> usint list result" where
  "borrow v cntr =
     (if cntr \<ge> length v then Inl out_of_bounds
      else if v ! cntr = 0 then borrow (v[cntr := m_MaxLimb]) (cntr + 1)
      else Inr (v[cntr := v ! cntr - 1]))"
  by auto
termination by (relation "measure (\<lambda>(v, cntr). length v - cntr)") auto

definition sub_limb :: "usint list \<Rightarrow> nat \<Rightarrow> usint list \<Rightarrow> usint list result" where
  "sub_limb w i v =
     res_bind (elem_at v i) (\<lambda>p. res_bind (elem_at w i) (\<lambda>q.
     if p < q then
       (if i + 1 \<ge> length v then Inl math_error
        else res_bind (borrow v (i + 1)) (\<lambda>v. res_bind (elem_at v i) (\<lambda>p. elem_set v i (p + (m_MaxLimb - q) + 1))))
     else elem_set v i (p - q)))"

definition BI_Sub :: "ubint \<Rightarrow> ubint \<Rightarrow> ubint result" where
  "BI_Sub x b =
     (if ub_state x = GARBAGE \<or> ub_state b = GARBAGE then Inl not_available_error
      else res_bind (BI_gt x b) (\<lambda>gt.
        if \<not> gt then Inr (ubint_u64 0)
        else res_bind (ubint_copy x) (\<lambda>result.
             res_bind (res_range 0 (length (ub_value b)) (sub_limb (ub_value b)) (ub_value result)) (\<lambda>v.
             res_bind (NormalizeLimbs (result\<lparr>ub_value := v\<rparr>)) SetMSB))))"

definition BI_SubEq :: "ubint \<Rightarrow> ubint \<Rightarrow> ubint result" where
  "BI_SubEq x b =
     (if ub_state x = GARBAGE \<or> ub_state b = GARBAGE then Inl not_available_error
      else res_bind (BI_gt x b) (\<lambda>gt.
        if \<not> gt then Inr (ubint_u64 0)
        else res_bind (res_range 0 (length (ub_value b)) (sub_limb (ub_value b)) (ub_value x)) (\<lambda>v.
             res_bind (NormalizeLimbs (x\<lparr>ub_value := v\<rparr>)) SetMSB)))"

section \<open>Multiplication\<close>

text \<open>The product of the limbs \<open>v\<close> with one limb, the carry pushed at the end when it is not zero.\<close>

fun mul_row :: "usint list \<Rightarrow> NativeInt \<Rightarrow> usint \<Rightarrow> usint list" where
  "mul_row [] limbb ofl = (if ofl \<noteq> 0 then [ofl] else [])"
| "mul_row (itr # v) limbb ofl =
     (let temp = ucast itr * limbb + ucast ofl in ucast temp # mul_row v limbb (ucast (drop_bit m_limbBitLength temp)))"

text \<open>The number \<open>tmpans\<close> of one pass over the limbs of \<open>b\<close>.\<close>

definition mul_shifted :: "usint list \<Rightarrow> nat \<Rightarrow> usint \<Rightarrow> ubint result" where
  "mul_shifted v i limb = SetMSB \<lparr>ub_value = replicate i 0 @ mul_row v (ucast limb) 0, ub_MSB = 0, ub_state = INITIALIZED\<rparr>"

definition BI_Mul :: "ubint \<Rightarrow> ubint \<Rightarrow> ubint result" where
  "BI_Mul x b =
     (if ub_MSB b = 0 \<or> ub_state b = GARBAGE \<or> ub_state x = GARBAGE \<or> ub_MSB x = 0 then Inr (ubint_u64 0)
      else if ub_MSB b = 1 then ubint_copy x
      else if ub_MSB x = 1 then ubint_copy b
      else res_range 0 (length (ub_value b)) (\<lambda>i ans.
             res_bind (elem_at (ub_value b) i) (\<lambda>limb. res_bind (mul_shifted (ub_value x) i limb) (BI_AddEq ans))) (ubint_u64 0))"

definition BI_MulEq :: "ubint \<Rightarrow> ubint \<Rightarrow> ubint result" where
  "BI_MulEq x b = BI_Mul x b"

definition MulIntegerByLimb :: "ubint \<Rightarrow> usint \<Rightarrow> ubint result" where
  "MulIntegerByLimb x b =
     (if ub_state x = GARBAGE then Inl not_available_error
      else if b = 0 \<or> ub_MSB x = 0 then Inr (ubint_u64 0)
      else SetMSB \<lparr>ub_value = mul_row (ub_value x) (ucast b) 0, ub_MSB = 0, ub_state = INITIALIZED\<rparr>)"

fun BI_Exp :: "ubint \<Rightarrow> nat \<Rightarrow> ubint result" where
  "BI_Exp x p =
     (if p = 0 then Inr (ubint_u64 1)
      else if p = 1 then ubint_copy x
      else res_bind (ubint_copy x) (\<lambda>x. res_bind (BI_Exp x (p div 2)) (\<lambda>tmp.
        res_bind (BI_Mul tmp tmp) (\<lambda>t2. if p mod 2 = 0 then Inr t2 else BI_Mul t2 x))))"

definition BI_ExpEq :: "ubint \<Rightarrow> nat \<Rightarrow> ubint result" where
  "BI_ExpEq x p =
     (if p = 0 then Inr (ubint_u64 1)
      else if p = 1 then Inr x
      else res_bind (BI_Exp x (p div 2)) (\<lambda>tmp.
        res_bind (BI_Mul tmp tmp) (\<lambda>t2. if p mod 2 = 0 then Inr t2 else BI_MulEq x t2)))"

section \<open>Division\<close>

text \<open>
  Knuth's algorithm D. \<open>divqr_vect\<close>, \<open>divq_vect\<close> and \<open>divr_vect\<close> repeat the same steps and keep the quotient, the remainder or both; the steps are
  defined once. The local vectors have the lengths \<open>n\<close> and \<open>m + 1\<close> and every index of the loops is inside them.
\<close>

definition dlimb_base :: NativeInt where
  "dlimb_base = ucast m_MaxLimb + 1"

definition nlz32 :: "usint \<Rightarrow> nat" where
  "nlz32 x =
     (if x = 0 then 32
      else let (n, x) = (if x \<le> 0x0000FFFF then (16, push_bit 16 x) else (0, x));
               (n, x) = (if x \<le> 0x00FFFFFF then (n + 8, push_bit 8 x) else (n, x));
               (n, x) = (if x \<le> 0x0FFFFFFF then (n + 4, push_bit 4 x) else (n, x));
               (n, x) = (if x \<le> 0x3FFFFFFF then (n + 2, push_bit 2 x) else (n, x))
           in if x \<le> 0x7FFFFFFF then n + 1 else n)"

text \<open>A divisor of one limb. The product \<open>q[j] * v[0]\<close> is one of 32-bit words, so \<open>k\<close> is the remainder only modulo \<open>2 ^ 32\<close>.\<close>

definition div_limb_step :: "usint \<Rightarrow> usint list \<Rightarrow> nat \<Rightarrow> usint list \<times> NativeInt \<Rightarrow> usint list \<times> NativeInt" where
  "div_limb_step v0 u j = (\<lambda>(q, k).
     let t = k * dlimb_base + ucast (u ! j); qj = ucast (t div ucast v0)
     in (q[j := qj], t - ucast (qj * v0)))"

definition div_single :: "usint \<Rightarrow> usint list \<Rightarrow> usint list \<Rightarrow> usint list \<times> NativeInt" where
  "div_single v0 u q = fold (div_limb_step v0 u) (rev [0..<length u]) (q, 0)"

text \<open>Shifting left by \<open>s\<close> bits, without the limb that is shifted out, and the final shift to the right.\<close>

definition shl_limb :: "nat \<Rightarrow> usint list \<Rightarrow> nat \<Rightarrow> usint" where
  "shl_limb s v i =
     (if i = 0 then push_bit s (v ! 0)
      else push_bit s (v ! i) OR ucast (drop_bit (m_limbBitLength - s) (ucast (v ! (i - 1)) :: NativeInt)))"

definition shl_limbs :: "nat \<Rightarrow> usint list \<Rightarrow> usint list" where
  "shl_limbs s v = map (shl_limb s v) [0..<length v]"

definition shl_top :: "nat \<Rightarrow> usint list \<Rightarrow> usint" where
  "shl_top s u = ucast (drop_bit (m_limbBitLength - s) (ucast (u ! (length u - 1)) :: NativeInt))"

definition shr_limbs :: "nat \<Rightarrow> nat \<Rightarrow> usint list \<Rightarrow> usint list" where
  "shr_limbs s n un =
     map (\<lambda>i. drop_bit s (un ! i) OR ucast (push_bit (m_limbBitLength - s) (ucast (un ! (i + 1)) :: NativeInt))) [0..<n - 1] @ [drop_bit s (un ! (n - 1))]"

text \<open>The correction of the estimated quotient digit, the loop of the label \<open>again\<close>.\<close>

function knuth_adjust :: "NativeInt \<Rightarrow> NativeInt \<Rightarrow> NativeInt \<Rightarrow> NativeInt \<Rightarrow> NativeInt \<Rightarrow> NativeInt" where
  "knuth_adjust v1 v2 u2 qhat rhat =
     (if qhat \<ge> dlimb_base \<or> qhat * v2 > dlimb_base * rhat + u2 then
        let qhat = qhat - 1; rhat = rhat + v1
        in if rhat < dlimb_base then knuth_adjust v1 v2 u2 qhat rhat else qhat
      else qhat)"
  by auto
termination
proof (relation "measure (\<lambda>(v1, v2, u2, qhat, rhat). unat qhat)")
  fix v1 v2 u2 qhat rhat x xa :: NativeInt
  assume c: "dlimb_base \<le> qhat \<or> dlimb_base * rhat + u2 < qhat * v2" and x: "x = qhat - 1"
  have "qhat \<noteq> 0" using c by (auto simp: dlimb_base_def m_MaxLimb_def)
  then show "((v1, v2, u2, x, xa), v1, v2, u2, qhat, rhat) \<in> measure (\<lambda>(v1, v2, u2, qhat, rhat). unat qhat)"
    using x by (simp add: unat_minus_one word_ge_0_nat)
qed simp

definition mulsub_step :: "NativeInt \<Rightarrow> usint list \<Rightarrow> nat \<Rightarrow> nat \<Rightarrow> usint list \<times> NativeInt \<Rightarrow> usint list \<times> NativeInt" where
  "mulsub_step qhat vn j i = (\<lambda>(un, k).
     let p = qhat * ucast (vn ! i); t = ucast (un ! (i + j)) - k - (p AND ucast m_MaxLimb)
     in (un[i + j := ucast t], drop_bit m_limbBitLength p - signed_drop_bit m_limbBitLength t))"

definition addback_step :: "usint list \<Rightarrow> nat \<Rightarrow> nat \<Rightarrow> usint list \<times> NativeInt \<Rightarrow> usint list \<times> NativeInt" where
  "addback_step vn j i = (\<lambda>(un, k).
     let t = ucast (un ! (i + j)) + ucast (vn ! i) + k in (un[i + j := ucast t], signed_drop_bit m_limbBitLength t))"

text \<open>One pass of the main loop: the quotient digit \<open>q[j]\<close> and the rest of the dividend.\<close>

definition knuth_step :: "usint list \<Rightarrow> nat \<Rightarrow> usint list \<Rightarrow> usint \<times> usint list" where
  "knuth_step vn j un =
     (let n = length vn;
          top = ucast (un ! (j + n)) * dlimb_base + ucast (un ! (j + n - 1));
          qhat = top div ucast (vn ! (n - 1));
          rhat = top - qhat * ucast (vn ! (n - 1));
          qhat = knuth_adjust (ucast (vn ! (n - 1))) (ucast (vn ! (n - 2))) (ucast (un ! (j + n - 2))) qhat rhat;
          (un, k) = for_range 0 n (mulsub_step qhat vn j) (un, 0);
          t = ucast (un ! (j + n)) - k;
          un = un[j + n := ucast t];
          qj = ucast qhat
      in if sint t < 0
         then let (un, k) = for_range 0 n (addback_step vn j) (un, 0)
              in (qj - 1, un[j + n := ucast (ucast (un ! (j + n)) + k)])
         else (qj, un))"

definition knuth_loop :: "usint list \<Rightarrow> nat \<Rightarrow> usint list \<Rightarrow> usint list \<Rightarrow> usint list \<times> usint list" where
  "knuth_loop vn count q un =
     fold (\<lambda>j (q, un). let (qj, un) = knuth_step vn j un in (q[j := qj], un)) (rev [0..<count]) (q, un)"

text \<open>
  The three functions; \<open>None\<close> is the return code 1. The vector of the quotient is resized first, which throws for a negative size.
\<close>

definition divqr_vect :: "usint list \<Rightarrow> usint list \<Rightarrow> usint list \<Rightarrow> usint list \<Rightarrow> (usint list \<times> usint list) option result" where
  "divqr_vect q r u v =
     (let m = length u; n = length v
      in if m + 1 < n then Inl length_error
         else let q = vresize q (m + 1 - n)
              in if m < n \<or> n = 0 \<or> v ! (n - 1) = 0 then Inr None
                 else if n = 1 then
                   let (q, k) = div_single (v ! 0) u q
                   in Inr (Some (q, if length r \<noteq> 0 then r[0 := ucast k] else r))
                 else let s = nlz32 (v ! (n - 1)); vn = shl_limbs s v; un = shl_limbs s u @ [shl_top s u];
                          (q, un) = knuth_loop vn (m + 1 - n) q un
                      in Inr (Some (q, shr_limbs s n un)))"

definition divq_vect :: "usint list \<Rightarrow> usint list \<Rightarrow> usint list \<Rightarrow> usint list option result" where
  "divq_vect q u v =
     (let m = length u; n = length v
      in if m + 1 < n then Inl length_error
         else let q = vresize q (m + 1 - n)
              in if m < n \<or> n = 0 \<or> v ! (n - 1) = 0 then Inr None
                 else if n = 1 then Inr (Some (fst (div_single (v ! 0) u q)))
                 else let s = nlz32 (v ! (n - 1)); vn = shl_limbs s v; un = shl_limbs s u @ [shl_top s u]
                      in Inr (Some (fst (knuth_loop vn (m + 1 - n) q un))))"

definition divr_vect :: "usint list \<Rightarrow> usint list \<Rightarrow> usint list \<Rightarrow> usint list option result" where
  "divr_vect r u v =
     (let m = length u; n = length v
      in if m < n \<or> n = 0 \<or> v ! (n - 1) = 0 then Inr None
         else if n = 1 then
           let k = snd (div_single (v ! 0) u (replicate (m + 1 - n) 0)) in Inr (Some ((vresize r n)[0 := ucast k]))
         else let s = nlz32 (v ! (n - 1)); vn = shl_limbs s v; un = shl_limbs s u @ [shl_top s u];
                  un = snd (knuth_loop vn (m + 1 - n) (replicate (m + 1 - n) 0) un)
              in Inr (Some (shr_limbs s n un)))"

definition from_code :: "'a option \<Rightarrow> 'a result" where
  "from_code f = (case f of None \<Rightarrow> Inl math_error | Some x \<Rightarrow> Inr x)"

definition BI_DividedBy :: "ubint \<Rightarrow> ubint \<Rightarrow> ubint result" where
  "BI_DividedBy x b =
     (if ub_state b = GARBAGE then Inl not_available_error
      else res_bind (BI_eq b (ubint_u64 0)) (\<lambda>zero.
        if zero then Inl math_error
        else if ub_MSB b > ub_MSB x then Inr (ubint_u64 0)
        else if ub_state x = GARBAGE then Inl not_available_error
        else res_bind (BI_eq b x) (\<lambda>same.
          if same then Inr (ubint_u64 1)
          else res_bind (divq_vect (ub_value ubint_default) (ub_value x) (ub_value b)) (\<lambda>f.
               res_bind (from_code f) (\<lambda>q.
               res_bind (NormalizeLimbs (ubint_default\<lparr>ub_value := q\<rparr>)) (\<lambda>ans. SetMSB (ans\<lparr>ub_state := INITIALIZED\<rparr>)))))))"

definition BI_DividedByEq :: "ubint \<Rightarrow> ubint \<Rightarrow> ubint result" where
  "BI_DividedByEq x b = BI_DividedBy x b"

definition BI_Mod :: "ubint \<Rightarrow> ubint \<Rightarrow> ubint result" where
  "BI_Mod x modulus =
     (if ub_state x = GARBAGE then Inl not_available_error
      else if ub_state modulus = GARBAGE then Inl not_available_error
      else res_bind (BI_eq modulus (ubint_u64 0)) (\<lambda>zero.
        if zero then Inl math_error
        else if length (ub_value modulus) > 1 \<and> last (ub_value modulus) = 0 then Inl not_available_error
        else if ub_MSB x < ub_MSB modulus then ubint_copy x
        else res_bind (if ub_MSB x = ub_MSB modulus then BI_lt x modulus else Inr False) (\<lambda>less.
          if less then ubint_copy x
          else res_bind (if ub_MSB modulus = 2 then res_bind (elem_at (ub_value modulus) 0) (\<lambda>m0. Inr (m0 = 2)) else Inr False) (\<lambda>two.
            if two then res_bind (elem_at (ub_value x) 0) (\<lambda>x0. Inr (ubint_u64 (if x0 mod 2 = 0 then 0 else 1)))
            else res_bind (divr_vect (vresize (ub_value (ubint_u64 0)) (length (ub_value modulus))) (ub_value x) (ub_value modulus)) (\<lambda>f.
                 res_bind (from_code f) (\<lambda>r.
                 res_bind (NormalizeLimbs ((ubint_u64 0)\<lparr>ub_value := r\<rparr>)) SetMSB))))))"

text \<open>\<open>ModEq\<close> is the same function, but for the exceptions of a modulus that is not initialized or zero.\<close>

definition BI_ModEq :: "ubint \<Rightarrow> ubint \<Rightarrow> ubint result" where
  "BI_ModEq x modulus =
     (if ub_state x = GARBAGE then Inl not_available_error
      else if ub_state modulus = GARBAGE then Inl math_error
      else res_bind (BI_eq modulus (ubint_u64 0)) (\<lambda>zero.
        if zero then Inl not_available_error
        else if length (ub_value modulus) > 1 \<and> last (ub_value modulus) = 0 then Inl not_available_error
        else if ub_MSB x < ub_MSB modulus then Inr x
        else res_bind (if ub_MSB x = ub_MSB modulus then BI_lt x modulus else Inr False) (\<lambda>less.
          if less then Inr x
          else res_bind (if ub_MSB modulus = 2 then res_bind (elem_at (ub_value modulus) 0) (\<lambda>m0. Inr (m0 = 2)) else Inr False) (\<lambda>two.
            if two then res_bind (elem_at (ub_value x) 0) (\<lambda>x0. Inr (ubint_u64 (if x0 mod 2 = 0 then 0 else 1)))
            else res_bind (divr_vect (vresize (ub_value (ubint_u64 0)) (length (ub_value modulus))) (ub_value x) (ub_value modulus)) (\<lambda>f.
                 res_bind (from_code f) (\<lambda>r.
                 res_bind (NormalizeLimbs ((ubint_u64 0)\<lparr>ub_value := r\<rparr>)) SetMSB))))))"

section \<open>Shifts\<close>

definition shiftByLimb :: "usshort \<Rightarrow> nat" where
  "shiftByLimb shift = unat (drop_bit m_log2LimbBitLength shift)"

definition remainingShift :: "usshort \<Rightarrow> nat" where
  "remainingShift shift = unat (shift AND of_nat (m_limbBitLength - 1))"

text \<open>The limbs \<open>0\<close> to \<open>count - 1\<close> shifted left by less than the width of a limb.\<close>

definition lshift_bits :: "nat \<Rightarrow> nat \<Rightarrow> usint list \<Rightarrow> usint list result" where
  "lshift_bits remShift count v =
     res_bind (res_range 0 count (\<lambda>i (oFlow, v).
       res_bind (elem_at v i) (\<lambda>x.
       let temp = push_bit remShift (ucast x :: NativeInt)
       in res_bind (elem_set v i (ucast temp + oFlow)) (\<lambda>v. Inr (ucast (drop_bit m_limbBitLength temp), v)))) (0, v)) (\<lambda>(oFlow, v).
     if oFlow \<noteq> 0 then (if count < length v then elem_set v count oFlow else Inr (v @ [oFlow])) else Inr v)"

definition lshift_limbs :: "nat \<Rightarrow> usint list \<Rightarrow> usint list" where
  "lshift_limbs k v =
     (let currentSize = length v;
          v = vresize v (currentSize + k);
          v = fold (\<lambda>i v. v[i + k := v ! i]) (rev [0..<currentSize]) v
      in fold (\<lambda>i v. v[i := 0]) (rev [0..<k]) v)"

definition BI_LShift :: "ubint \<Rightarrow> usshort \<Rightarrow> ubint result" where
  "BI_LShift x shift =
     (if ub_state x = GARBAGE then Inl not_available_error
      else if ub_MSB x = 0 then Inr (ubint_u64 0)
      else res_bind (ubint_copy x) (\<lambda>ans.
        let k = shiftByLimb shift; remShift = remainingShift shift
        in res_bind (if remShift \<noteq> 0 then
             res_bind (lshift_bits remShift (ceilIntByUInt (ub_MSB x)) (ub_value ans)) (\<lambda>v.
             Inr (ans\<lparr>ub_value := v, ub_MSB := ub_MSB ans + remShift\<rparr>)) else Inr ans) (\<lambda>ans.
           let ans = (if k \<noteq> 0 then ans\<lparr>ub_value := lshift_limbs k (ub_value ans)\<rparr> else ans)
           in Inr (ans\<lparr>ub_MSB := ub_MSB ans + k * m_limbBitLength\<rparr>))))"

definition BI_LShiftEq :: "ubint \<Rightarrow> usshort \<Rightarrow> ubint result" where
  "BI_LShiftEq x shift =
     (if ub_state x = GARBAGE then Inl not_available_error
      else if ub_MSB x = 0 then Inr x
      else let k = shiftByLimb shift; remShift = remainingShift shift
           in res_bind (if remShift \<noteq> 0 then
                res_bind (lshift_bits remShift (ceilIntByUInt (ub_MSB x)) (ub_value x)) (\<lambda>v.
                Inr (x\<lparr>ub_value := v, ub_MSB := ub_MSB x + remShift\<rparr>)) else Inr x) (\<lambda>x.
              let x = (if k \<noteq> 0 then x\<lparr>ub_value := lshift_limbs k (ub_value x)\<rparr> else x)
              in Inr (x\<lparr>ub_MSB := ub_MSB x + k * m_limbBitLength\<rparr>)))"

definition rshift_limbs :: "nat \<Rightarrow> usint list \<Rightarrow> usint list result" where
  "rshift_limbs k v =
     res_range 0 k (\<lambda>_ v. vpop_back v) (for_range k (length v) (\<lambda>i v. v[i - k := v ! i]) v)"

text \<open>
  The mask \<open>(1 << remainingShift) - 1\<close> is computed in the signed 32-bit type \<open>int\<close>: for a shift of 31 bits the difference is below its least number.
\<close>

definition shift_mask :: "nat \<Rightarrow> usint result" where
  "shift_mask remShift = (if remShift = 31 then Inl int_overflow else Inr (push_bit remShift 1 - 1))"

text \<open>The limbs below \<open>startVal\<close>, from the top, shifted right by less than the width of a limb.\<close>

fun rshift_bits :: "nat \<Rightarrow> usint \<Rightarrow> nat \<Rightarrow> usint \<Rightarrow> usint list \<Rightarrow> usint list result" where
  "rshift_bits remShift maskVal 0 overFlow v = Inr v"
| "rshift_bits remShift maskVal (Suc i) overFlow v =
     res_bind (elem_at v i) (\<lambda>oldVal.
     res_bind (elem_set v i (drop_bit remShift oldVal + overFlow)) (\<lambda>v.
     rshift_bits remShift maskVal i (push_bit (m_limbBitLength - remShift) (oldVal AND maskVal)) v))"

text \<open>What both right shifts do after their first checks.\<close>

definition rshift_rest :: "ubint \<Rightarrow> usshort \<Rightarrow> ubint result" where
  "rshift_rest x shift =
     (let k = shiftByLimb shift; remShift = remainingShift shift
      in res_bind (if k \<noteq> 0 then
           res_bind (rshift_limbs k (ub_value x)) (\<lambda>v. Inr (x\<lparr>ub_value := v, ub_MSB := ub_MSB x - k * m_limbBitLength\<rparr>)) else Inr x) (\<lambda>x.
         res_bind (if remShift \<noteq> 0 then
           res_bind (shift_mask remShift) (\<lambda>maskVal.
           res_bind (rshift_bits remShift maskVal (ceilIntByUInt (ub_MSB x)) 0 (ub_value x)) (\<lambda>v.
           Inr (x\<lparr>ub_value := v, ub_MSB := ub_MSB x - remShift\<rparr>))) else Inr x) (\<lambda>x.
         res_bind (NormalizeLimbs x) SetMSB)))"

definition BI_RShift :: "ubint \<Rightarrow> usshort \<Rightarrow> ubint result" where
  "BI_RShift x shift =
     (if ub_state x = GARBAGE then Inl not_available_error
      else if ub_MSB x = 0 \<or> ub_MSB x \<le> unat shift then Inr (ubint_u64 0)
      else res_bind (ubint_copy x) (\<lambda>ans. rshift_rest ans shift))"

text \<open>In the in-place variant a shift by the bit length or more sets the number to zero and goes on.\<close>

definition BI_RShiftEq :: "ubint \<Rightarrow> usshort \<Rightarrow> ubint result" where
  "BI_RShiftEq x shift =
     (if ub_state x = GARBAGE then Inl not_available_error
      else if ub_MSB x = 0 then Inr x
      else rshift_rest (if ub_MSB x \<le> unat shift then x\<lparr>ub_value := [0], ub_MSB := 0\<rparr> else x) shift)"

section \<open>Rounding and modular arithmetic\<close>

definition BI_DivideAndRound :: "ubint \<Rightarrow> ubint \<Rightarrow> ubint result" where
  "BI_DivideAndRound x q =
     (if ub_state q = GARBAGE then Inl not_available_error
      else res_bind (BI_eq q (ubint_u64 0)) (\<lambda>zero.
        if zero then Inl math_error
        else res_bind (BI_RShift q 1) (\<lambda>halfQ.
          res_bind (BI_lt x q) (\<lambda>less.
          if less then res_bind (BI_le x halfQ) (\<lambda>low. Inr (ubint_u64 (if low then 0 else 1)))
          else res_bind (divqr_vect (ub_value (ubint_u64 0)) (ub_value (ubint_u64 0)) (ub_value x) (ub_value q)) (\<lambda>f.
               res_bind (from_code f) (\<lambda>(ans, rv).
               res_bind (NormalizeLimbs ((ubint_u64 0)\<lparr>ub_value := ans\<rparr>)) (\<lambda>ans.
               res_bind (NormalizeLimbs ((ubint_u64 0)\<lparr>ub_value := rv\<rparr>)) (\<lambda>rv.
               res_bind (SetMSB ans) (\<lambda>ans. res_bind (SetMSB rv) (\<lambda>rv.
               res_bind (BI_le rv halfQ) (\<lambda>low. if \<not> low then BI_AddEq ans (ubint_u64 1) else Inr ans)))))))))))"

definition BI_DivideAndRoundEq :: "ubint \<Rightarrow> ubint \<Rightarrow> ubint result" where
  "BI_DivideAndRoundEq x q = BI_DivideAndRound x q"

definition BI_MultiplyAndRound :: "ubint \<Rightarrow> ubint \<Rightarrow> ubint \<Rightarrow> ubint result" where
  "BI_MultiplyAndRound x p q = res_bind (ubint_copy x) (\<lambda>ans. res_bind (BI_MulEq ans p) (\<lambda>ans. BI_DivideAndRoundEq ans q))"

definition BI_MultiplyAndRoundEq :: "ubint \<Rightarrow> ubint \<Rightarrow> ubint \<Rightarrow> ubint result" where
  "BI_MultiplyAndRoundEq x p q = res_bind (BI_MulEq x p) (\<lambda>x. BI_DivideAndRoundEq x q)"

text \<open>The shift amount of \<open>ComputeMu\<close> is converted to 16 bits.\<close>

definition BI_ComputeMu :: "ubint \<Rightarrow> ubint result" where
  "BI_ComputeMu x = res_bind (BI_LShiftEq (ubint_u64 1) (of_nat (2 * ub_MSB x + 3))) (\<lambda>temp. BI_DividedBy temp x)"

definition BI_Mod_mu :: "ubint \<Rightarrow> ubint \<Rightarrow> ubint \<Rightarrow> ubint result" where
  "BI_Mod_mu x modulus mu = res_bind (ubint_copy x) (\<lambda>ans. BI_ModEq ans modulus)"

definition BI_ModEq_mu :: "ubint \<Rightarrow> ubint \<Rightarrow> ubint \<Rightarrow> ubint result" where
  "BI_ModEq_mu x modulus mu = BI_ModEq x modulus"

text \<open>An operand that is reduced when it is not below the modulus; \<open>reduce\<close> is one of the reductions.\<close>

definition mod_operand :: "(ubint \<Rightarrow> ubint \<Rightarrow> ubint result) \<Rightarrow> ubint \<Rightarrow> ubint \<Rightarrow> ubint result" where
  "mod_operand reduce x modulus = res_bind (BI_ge x modulus) (\<lambda>ge. if ge then reduce x modulus else Inr x)"

definition BI_ModAdd :: "ubint \<Rightarrow> ubint \<Rightarrow> ubint \<Rightarrow> ubint result" where
  "BI_ModAdd x b modulus =
     res_bind (ubint_copy x) (\<lambda>a. res_bind (ubint_copy b) (\<lambda>b_op.
     res_bind (mod_operand BI_ModEq a modulus) (\<lambda>a. res_bind (mod_operand BI_ModEq b_op modulus) (\<lambda>b_op.
     res_bind (BI_AddEq a b_op) (\<lambda>a. BI_ModEq a modulus)))))"

definition BI_ModAddEq :: "ubint \<Rightarrow> ubint \<Rightarrow> ubint \<Rightarrow> ubint result" where
  "BI_ModAddEq x b modulus =
     res_bind (ubint_copy b) (\<lambda>b_op.
     res_bind (mod_operand BI_ModEq x modulus) (\<lambda>x. res_bind (mod_operand BI_ModEq b_op modulus) (\<lambda>b_op.
     res_bind (BI_AddEq x b_op) (\<lambda>x. BI_ModEq x modulus))))"

definition BI_ModAddFastEq :: "ubint \<Rightarrow> ubint \<Rightarrow> ubint \<Rightarrow> ubint result" where
  "BI_ModAddFastEq x b modulus = res_bind (BI_AddEq x b) (\<lambda>x. BI_ModEq x modulus)"

definition BI_ModAddFast :: "ubint \<Rightarrow> ubint \<Rightarrow> ubint \<Rightarrow> ubint result" where
  "BI_ModAddFast x b modulus = res_bind (ubint_copy x) (\<lambda>ans. BI_ModAddFastEq ans b modulus)"

definition BI_ModAddEq_mu :: "ubint \<Rightarrow> ubint \<Rightarrow> ubint \<Rightarrow> ubint \<Rightarrow> ubint result" where
  "BI_ModAddEq_mu x b modulus mu = res_bind (BI_AddEq x b) (\<lambda>x. BI_ModEq_mu x modulus mu)"

definition BI_ModAdd_mu :: "ubint \<Rightarrow> ubint \<Rightarrow> ubint \<Rightarrow> ubint \<Rightarrow> ubint result" where
  "BI_ModAdd_mu x b modulus mu = res_bind (ubint_copy x) (\<lambda>ans. BI_ModAddEq_mu ans b modulus mu)"

text \<open>The difference of two operands, the modulus added first when it would be negative.\<close>

definition mod_diff :: "(ubint \<Rightarrow> ubint \<Rightarrow> ubint result) \<Rightarrow> ubint \<Rightarrow> ubint \<Rightarrow> ubint \<Rightarrow> ubint result" where
  "mod_diff reduce a b modulus =
     res_bind (BI_ge a b) (\<lambda>ge.
     if ge then res_bind (BI_SubEq a b) (\<lambda>a. reduce a modulus) else res_bind (BI_AddEq a modulus) (\<lambda>a. BI_SubEq a b))"

definition BI_ModSub :: "ubint \<Rightarrow> ubint \<Rightarrow> ubint \<Rightarrow> ubint result" where
  "BI_ModSub x b modulus =
     res_bind (ubint_copy x) (\<lambda>a. res_bind (ubint_copy b) (\<lambda>b_op.
     res_bind (mod_operand BI_ModEq a modulus) (\<lambda>a. res_bind (mod_operand BI_ModEq b_op modulus) (\<lambda>b_op. mod_diff BI_ModEq a b_op modulus))))"

definition BI_ModSubEq :: "ubint \<Rightarrow> ubint \<Rightarrow> ubint \<Rightarrow> ubint result" where
  "BI_ModSubEq x b modulus =
     res_bind (ubint_copy b) (\<lambda>b_op.
     res_bind (mod_operand BI_ModEq x modulus) (\<lambda>x. res_bind (mod_operand BI_ModEq b_op modulus) (\<lambda>b_op. mod_diff BI_ModEq x b_op modulus)))"

definition BI_ModSubFast :: "ubint \<Rightarrow> ubint \<Rightarrow> ubint \<Rightarrow> ubint result" where
  "BI_ModSubFast x b modulus = res_bind (ubint_copy x) (\<lambda>a. mod_diff BI_ModEq a b modulus)"

definition BI_ModSubFastEq :: "ubint \<Rightarrow> ubint \<Rightarrow> ubint \<Rightarrow> ubint result" where
  "BI_ModSubFastEq x b modulus = mod_diff BI_ModEq x b modulus"

definition BI_ModSub_mu :: "ubint \<Rightarrow> ubint \<Rightarrow> ubint \<Rightarrow> ubint \<Rightarrow> ubint result" where
  "BI_ModSub_mu x b modulus mu =
     (let reduce = (\<lambda>y modulus. BI_ModEq_mu y modulus mu)
      in res_bind (ubint_copy x) (\<lambda>a. res_bind (ubint_copy b) (\<lambda>b_op.
         res_bind (mod_operand reduce a modulus) (\<lambda>a. res_bind (mod_operand reduce b_op modulus) (\<lambda>b_op. mod_diff reduce a b_op modulus)))))"

definition BI_ModSubEq_mu :: "ubint \<Rightarrow> ubint \<Rightarrow> ubint \<Rightarrow> ubint \<Rightarrow> ubint result" where
  "BI_ModSubEq_mu x b modulus mu =
     (let reduce = (\<lambda>y modulus. BI_ModEq_mu y modulus mu)
      in res_bind (ubint_copy b) (\<lambda>b_op.
         res_bind (mod_operand reduce x modulus) (\<lambda>x. res_bind (mod_operand reduce b_op modulus) (\<lambda>b_op. mod_diff reduce x b_op modulus))))"

definition BI_ModMul :: "ubint \<Rightarrow> ubint \<Rightarrow> ubint \<Rightarrow> ubint result" where
  "BI_ModMul x b modulus =
     res_bind (ubint_copy x) (\<lambda>a.
     if ub_MSB b = 0 \<or> ub_state b = GARBAGE \<or> ub_state a = GARBAGE \<or> ub_MSB a = 0 then Inr (ubint_u64 0)
     else if ub_MSB b = 1 then Inr a
     else if ub_MSB a = 1 then ubint_copy b
     else res_range 0 (length (ub_value b)) (\<lambda>i ans.
            res_bind (elem_at (ub_value b) i) (\<lambda>limb. res_bind (mul_shifted (ub_value a) i limb) (\<lambda>tmpans.
            res_bind (BI_AddEq ans tmpans) (\<lambda>ans. BI_Mod ans modulus)))) (ubint_u64 0))"

definition BI_ModMulEq :: "ubint \<Rightarrow> ubint \<Rightarrow> ubint \<Rightarrow> ubint result" where
  "BI_ModMulEq x b modulus = BI_ModMul x b modulus"

definition BI_ModMul_mu :: "ubint \<Rightarrow> ubint \<Rightarrow> ubint \<Rightarrow> ubint \<Rightarrow> ubint result" where
  "BI_ModMul_mu x b modulus mu = BI_ModMul x b modulus"

definition BI_ModMulEq_mu :: "ubint \<Rightarrow> ubint \<Rightarrow> ubint \<Rightarrow> ubint \<Rightarrow> ubint result" where
  "BI_ModMulEq_mu x b modulus mu = BI_ModMul x b modulus"

definition BI_ModMulFast :: "ubint \<Rightarrow> ubint \<Rightarrow> ubint \<Rightarrow> ubint result" where
  "BI_ModMulFast x b modulus = BI_ModMul x b modulus"

definition BI_ModMulFastEq :: "ubint \<Rightarrow> ubint \<Rightarrow> ubint \<Rightarrow> ubint result" where
  "BI_ModMulFastEq x b modulus = BI_ModMul x b modulus"

definition BI_ModMulFast_mu :: "ubint \<Rightarrow> ubint \<Rightarrow> ubint \<Rightarrow> ubint \<Rightarrow> ubint result" where
  "BI_ModMulFast_mu x b modulus mu = BI_ModMul x b modulus"

definition BI_ModMulFastEq_mu :: "ubint \<Rightarrow> ubint \<Rightarrow> ubint \<Rightarrow> ubint \<Rightarrow> ubint result" where
  "BI_ModMulFastEq_mu x b modulus mu = BI_ModMul x b modulus"

text \<open>
  The inverse: the quotients of the Euclidean algorithm are collected on the way down and used on the way up. A loop that does not end is \<open>None\<close>.
\<close>

partial_function (option) ModInverse_north :: "ubint \<Rightarrow> ubint \<Rightarrow> ubint \<Rightarrow> ubint list \<Rightarrow> ubint list result option" where
  "ModInverse_north first second mod_back quots =
     (case BI_eq mod_back (ubint_u64 1) of Inl e \<Rightarrow> Some (Inl e)
      | Inr one \<Rightarrow>
        if one then Some (Inr quots)
        else (case res_bind (BI_eq mod_back (ubint_u64 0)) (\<lambda>zero. if zero then Inl math_error else
                res_bind (BI_Mod second mod_back) (\<lambda>r. res_bind (BI_DividedBy second mod_back) (\<lambda>q. Inr (r, q)))) of
                Inl e \<Rightarrow> Some (Inl e)
              | Inr (r, q) \<Rightarrow> ModInverse_north second mod_back r (quots @ [q])))"

fun ModInverse_south :: "nat \<Rightarrow> ubint list \<Rightarrow> ubint \<Rightarrow> ubint \<Rightarrow> ubint \<Rightarrow> ubint result" where
  "ModInverse_south 0 quots first second mod_back = Inr mod_back"
| "ModInverse_south (Suc i) quots first second mod_back =
     res_bind (elem_at quots i) (\<lambda>q. res_bind (BI_Mul q second) (\<lambda>p. res_bind (BI_Add p first) (\<lambda>mod_back.
     ModInverse_south i quots second mod_back mod_back)))"

definition BI_ModInverse :: "ubint \<Rightarrow> ubint \<Rightarrow> ubint result option" where
  "BI_ModInverse x modulus =
     (case res_bind (BI_gt x modulus) (\<lambda>gt. res_bind (if gt then BI_Mod x modulus else Inr x) (\<lambda>second.
             res_bind (BI_eq second (ubint_u64 0)) (\<lambda>zero. res_bind (BI_eq second (ubint_u64 1)) (\<lambda>one. Inr (second, zero, one))))) of
        Inl e \<Rightarrow> Some (Inl e)
      | Inr (second, zero, one) \<Rightarrow>
        if zero then Some (Inl math_error)
        else if one then Some (Inr (ubint_u64 1))
        else (case res_bind (ubint_copy modulus) (\<lambda>first. res_bind (BI_Mod first second) (\<lambda>mod_back.
                    res_bind (BI_DividedBy first second) (\<lambda>q. Inr (first, mod_back, q)))) of
                Inl e \<Rightarrow> Some (Inl e)
              | Inr (first, mod_back, q) \<Rightarrow>
                (case ModInverse_north first second mod_back [q] of None \<Rightarrow> None
                 | Some (Inl e) \<Rightarrow> Some (Inl e)
                 | Some (Inr quots) \<Rightarrow>
                   Some (res_bind (ModInverse_south (length quots) quots (ubint_u64 0) (ubint_u64 1) mod_back) (\<lambda>mod_back.
                     if length quots mod 2 = 1 then BI_Sub modulus mod_back else Inr mod_back)))))"

definition BI_ModInverseEq :: "ubint \<Rightarrow> ubint \<Rightarrow> ubint result option" where
  "BI_ModInverseEq x modulus = BI_ModInverse x modulus"

definition ModExp_step :: "ubint \<Rightarrow> ubint \<Rightarrow> ubint \<Rightarrow> ubint \<Rightarrow> (ubint \<times> ubint \<times> bool) result" where
  "ModExp_step modulus mid prd ex =
     res_bind (elem_at (ub_value ex) 0) (\<lambda>e0.
     res_bind (if e0 mod 2 = 1 then BI_Mul prd mid else Inr prd) (\<lambda>prd.
     res_bind (BI_gt prd modulus) (\<lambda>gt.
     res_bind (if gt then BI_Mod prd modulus else Inr prd) (\<lambda>prd.
     res_bind (BI_RShift ex 1) (\<lambda>ex.
     res_bind (BI_eq ex (ubint_u64 0)) (\<lambda>fin. Inr (prd, ex, fin)))))))"

partial_function (option) BI_ModExp_loop :: "ubint \<Rightarrow> ubint \<Rightarrow> ubint \<Rightarrow> ubint \<Rightarrow> ubint result option" where
  "BI_ModExp_loop modulus mid prd ex =
     (case ModExp_step modulus mid prd ex of Inl e \<Rightarrow> Some (Inl e)
      | Inr (prd, ex, fin) \<Rightarrow>
        if fin then Some (Inr prd)
        else (case res_bind (BI_Mul mid mid) (\<lambda>mid. BI_Mod mid modulus) of Inl e \<Rightarrow> Some (Inl e)
              | Inr mid \<Rightarrow> BI_ModExp_loop modulus mid prd ex))"

definition BI_ModExp :: "ubint \<Rightarrow> ubint \<Rightarrow> ubint \<Rightarrow> ubint result option" where
  "BI_ModExp x b modulus =
     (case res_bind (BI_Mod x modulus) (\<lambda>mid. res_bind (ubint_copy b) (\<lambda>ex. Inr (mid, ex))) of Inl e \<Rightarrow> Some (Inl e)
      | Inr (mid, ex) \<Rightarrow> BI_ModExp_loop modulus mid (ubint_u64 1) ex)"

definition BI_ModExpEq :: "ubint \<Rightarrow> ubint \<Rightarrow> ubint \<Rightarrow> ubint result option" where
  "BI_ModExpEq x b modulus = BI_ModExp x b modulus"

section \<open>Conversions and digits\<close>

text \<open>\<open>ConvertToInt\<close> at the type \<open>BasicInteger\<close>, which is \<open>uint64_t\<close>.\<close>

definition BI_ConvertToInt :: "ubint \<Rightarrow> NativeInt result" where
  "BI_ConvertToInt x =
     (if length (ub_value x) = 0 then Inl not_available_error
      else let msbTest = (if 64 > ub_MSB x then ub_MSB x else 64)
           in res_range 0 (ceilIntByUInt msbTest) (\<lambda>i result.
                res_bind (elem_at (ub_value x) i) (\<lambda>y. Inr (result + push_bit (m_limbBitLength * i) (ucast y)))) 0)"

definition UsintToUbint :: "usint \<Rightarrow> ubint" where
  "UsintToUbint m = ubint_u64 (ucast m)"

definition BI_GetMSB :: "ubint \<Rightarrow> nat" where
  "BI_GetMSB x = ub_MSB x"

definition GetNumberOfLimbs :: "ubint \<Rightarrow> nat" where
  "GetNumberOfLimbs x = length (ub_value x)"

definition BI_GetBitAtIndex :: "ubint \<Rightarrow> nat \<Rightarrow> uschar result" where
  "BI_GetBitAtIndex x index =
     (if index \<le> 0 then Inr 0
      else if index > ub_MSB x then Inr 0
      else let idx = ceilIntByUInt index - 1
           in res_bind (elem_at (ub_value x) idx) (\<lambda>temp.
              let bmask_counter = (if index mod m_limbBitLength = 0 then m_limbBitLength else index mod m_limbBitLength);
                  bmask = for_range 1 bmask_counter (\<lambda>_ bmask. push_bit 1 bmask) (1 :: usint)
              in Inr (ucast (drop_bit (bmask_counter - 1) (temp AND bmask)))))"

text \<open>The bits from \<open>i\<close> down to 1; the loop counter is a signed number, so nothing is tested for a number of no bits.\<close>

fun isPowerOfTwo_loop :: "ubint \<Rightarrow> nat \<Rightarrow> bool result" where
  "isPowerOfTwo_loop x 0 = Inr True"
| "isPowerOfTwo_loop x (Suc i) =
     res_bind (BI_GetBitAtIndex x (Suc i)) (\<lambda>c. if c = 1 then Inr False else isPowerOfTwo_loop x i)"

definition BI_isPowerOfTwo :: "ubint \<Rightarrow> bool result" where
  "BI_isPowerOfTwo m_numToCheck = isPowerOfTwo_loop m_numToCheck (ub_MSB m_numToCheck - 1)"

fun BI_digit_loop :: "nat \<Rightarrow> ubint \<Rightarrow> usint \<Rightarrow> usint \<Rightarrow> usint \<Rightarrow> usint \<Rightarrow> usint result option" where
  "BI_digit_loop 0 x base i newIndex digit = None"
| "BI_digit_loop (Suc fuel) x base i newIndex digit =
     (if i < base then
        (case BI_GetBitAtIndex x (unat newIndex) of Inl e \<Rightarrow> Some (Inl e)
         | Inr c \<Rightarrow> BI_digit_loop fuel x base (i * 2) (newIndex + 1) (digit + ucast c * i))
      else Some (Inr digit))"

definition BI_GetDigitAtIndexForBase :: "ubint \<Rightarrow> usint \<Rightarrow> usint \<Rightarrow> usint result option" where
  "BI_GetDigitAtIndexForBase x index base =
     (let DigitLen = (of_nat (ceil_log2 (unat base)) :: usint); newIndex = 1 + (index - 1) * DigitLen
      in BI_digit_loop 33 x base 1 newIndex 0)"

definition SetIntAtIndex :: "ubint \<Rightarrow> nat \<Rightarrow> usint \<Rightarrow> ubint result" where
  "SetIntAtIndex x idx y = (if idx \<ge> length (ub_value x) then Inl math_error else Inr (x\<lparr>ub_value := (ub_value x)[idx := y]\<rparr>))"

section \<open>Strings\<close>

text \<open>\<open>stoi\<close> of one character.\<close>

definition stoi_char :: "char \<Rightarrow> nat result" where
  "stoi_char c = (let v = char_digit c in if 0 \<le> v \<and> v \<le> 9 then Inr (nat v) else Inl invalid_argument)"

text \<open>One limb from its binary digits.\<close>

fun partial_value :: "NativeInt \<Rightarrow> string \<Rightarrow> NativeInt result" where
  "partial_value p [] = Inr (drop_bit 1 p)"
| "partial_value p (c # str) = res_bind (stoi_char c) (\<lambda>d. partial_value (push_bit 1 (p + of_nat d)) str)"

definition binary_chunk :: "string \<Rightarrow> nat \<Rightarrow> string" where
  "binary_chunk v i =
     (let len = length v
      in if len > (i + 1) * m_limbBitLength then take m_limbBitLength (drop (len - (i + 1) * m_limbBitLength) v)
         else take (len mod m_limbBitLength) v)"

definition BI_FromBinaryString :: "string \<Rightarrow> ubint result" where
  "BI_FromBinaryString vin =
     (let v = dropWhile (\<lambda>c. c = CHR 0x20) vin;
          v = dropWhile (\<lambda>c. c = CHR ''0'') v;
          v = (if length v = 0 then ''0'' else v)
      in res_bind (res_map (\<lambda>i. res_bind (partial_value 0 (binary_chunk v i)) (\<lambda>p. Inr (ucast p))) [0..<ceilIntByUInt (length v)]) (\<lambda>limbs.
         SetMSB \<lparr>ub_value = limbs, ub_MSB = 0, ub_state = INITIALIZED\<rparr>))"

definition m_numDigitInPrintval :: nat where
  "m_numDigitInPrintval = 1500"

text \<open>The decimal digits, the most significant one first, are processed from the last one.\<close>

definition double_bitVal :: "uschar list \<Rightarrow> uschar list" where
  "double_bitVal a =
     snd (fold (\<lambda>i (ofl, a).
       let x = push_bit 1 (a ! i)
       in if x > 9 then (1, a[i := x - 10 + ofl]) else (0, a[i := x + ofl])) (rev [0..<length a]) (0, a))"

text \<open>The carry of \<open>add_bitVal\<close> is never cleared.\<close>

definition add_bitVal :: "uschar list \<Rightarrow> uschar \<Rightarrow> uschar list" where
  "add_bitVal a b =
     (let a = a[length a - 1 := a ! (length a - 1) + b]
      in snd (fold (\<lambda>i (ofl, a).
           let x = a ! i + ofl in if x > 9 then (1, a[i := 0]) else (ofl, a[i := x])) (rev [0..<length a]) (0, a)))"

fun ToString_loop :: "ubint \<Rightarrow> nat \<Rightarrow> uschar list \<Rightarrow> uschar list result" where
  "ToString_loop x 0 print_VALUE = Inr print_VALUE"
| "ToString_loop x (Suc i) print_VALUE =
     res_bind (BI_GetBitAtIndex x (Suc i)) (\<lambda>c. ToString_loop x i (add_bitVal (double_bitVal print_VALUE) c))"

definition BI_ToString :: "ubint \<Rightarrow> string result" where
  "BI_ToString x =
     (if length (ub_value x) = 0 then Inl not_available_error
      else res_bind (ToString_loop x (ub_MSB x) (replicate m_numDigitInPrintval 0)) (\<lambda>print_VALUE.
        let counter = length (takeWhile (\<lambda>d. d = 0) (butlast print_VALUE))
        in Inr (concat (map (\<lambda>d. decimal (unat d)) (drop counter print_VALUE)))))"

text \<open>The value of the bits \<open>a\<close>, the last one the lowest.\<close>

definition UintInBinaryToDecimal :: "uschar list \<Rightarrow> usint" where
  "UintInBinaryToDecimal a = fst (fold (\<lambda>i (val, one). (val + one * ucast (a ! i), push_bit 1 one)) (rev [0..<m_limbBitLength]) (0, 1))"

text \<open>The state of \<open>AssignVal\<close>: the decimal digits, the first one that is not yet zero, the bit register and its position, and the limbs.\<close>

definition halve_digits :: "nat \<Rightarrow> uschar list \<Rightarrow> uschar list" where
  "halve_digits zptr D =
     (let n = length D;
          D = for_range zptr (n - 1) (\<lambda>i D. (D[i + 1 := (D ! i mod 2) * 10 + D ! (i + 1)])[i := drop_bit 1 (D ! i)]) D
      in D[n - 1 := drop_bit 1 (D ! (n - 1))])"

type_synonym assign_state = "nat \<times> uschar list \<times> uschar list \<times> nat \<times> usint list"

definition AssignVal_step :: "assign_state \<Rightarrow> assign_state" where
  "AssignVal_step = (\<lambda>(zptr, D, bitArr, cnt, v).
     let n = length D;
         bitArr = bitArr[cnt := D ! (n - 1) mod 2];
         D = halve_digits zptr D;
         (cnt, v, bitArr) = (if cnt = 0 then (m_limbBitLength - 1, v @ [UintInBinaryToDecimal bitArr], replicate m_limbBitLength 0)
                             else (cnt - 1, v, bitArr));
         zptr = (if D ! zptr = 0 then zptr + 1 else zptr);
         (v, bitArr) = (if zptr = n \<and> D ! (n - 1) = 0 then (v @ [UintInBinaryToDecimal bitArr], replicate m_limbBitLength 0) else (v, bitArr))
     in (zptr, D, bitArr, cnt, v))"

partial_function (option) BI_AssignVal_loop :: "assign_state \<Rightarrow> usint list option" where
  "BI_AssignVal_loop st =
     (case st of (zptr, D, bitArr, cnt, v) \<Rightarrow>
      if zptr \<noteq> length D then BI_AssignVal_loop (AssignVal_step st) else Some v)"

definition BI_AssignVal :: "string \<Rightarrow> ubint result option" where
  "BI_AssignVal vin =
     (let v = dropWhile (\<lambda>c. c = CHR ''0'') vin;
          v = dropWhile (\<lambda>c. c = CHR 0x20) v;
          v = (if length v = 0 then ''0'' else v)
      in case res_map stoi_char v of Inl e \<Rightarrow> Some (Inl e)
         | Inr ds \<Rightarrow>
           (case BI_AssignVal_loop (0, map of_nat ds, replicate m_limbBitLength 0, m_limbBitLength - 1, []) of None \<Rightarrow> None
            | Some limbs \<Rightarrow> Some (res_bind (NormalizeLimbs \<lparr>ub_value = limbs, ub_MSB = 0, ub_state = INITIALIZED\<rparr>) SetMSB)))"

definition ubint_string :: "string \<Rightarrow> ubint result option" where
  "ubint_string strval = BI_AssignVal strval"

definition BI_SetValue :: "ubint \<Rightarrow> string \<Rightarrow> ubint result option" where
  "BI_SetValue x strval = BI_AssignVal strval"

text \<open>Assignment copies a number in any state, unlike the copy constructor.\<close>

definition BI_assign :: "ubint \<Rightarrow> ubint \<Rightarrow> ubint" where
  "BI_assign x val = val"

definition BI_GetState :: "ubint \<Rightarrow> string" where
  "BI_GetState x = (case ub_state x of INITIALIZED \<Rightarrow> ''INITIALIZED'' | GARBAGE \<Rightarrow> ''GARBAGE'')"

end
