(* ===== verification/BigNat.thy ===== *)
theory BigNat
  imports BigInt
begin

text \<open>
  The multi-limb integers of \<open>BigInt\<close> as natural numbers. A number has exactly one representation that the methods produce, \<open>ub_of n\<close>: no zero limb
  at the top, the bit length in \<open>m_MSB\<close>, the state \<open>INITIALIZED\<close>. The lemmas \<open>BI_Add_of\<close> to \<open>BI_ConvertToInt_of\<close> compute the operations on that representation,
  so that the theories above rewrite with them and never look at limbs again.
\<close>

section \<open>Limb vectors as natural numbers\<close>

abbreviation LB :: nat where
  "LB \<equiv> 4294967296"

fun limbs_nat :: "usint list \<Rightarrow> nat" where
  "limbs_nat [] = 0"
| "limbs_nat (x # xs) = unat x + LB * limbs_nat xs"

fun nat_limbs :: "nat \<Rightarrow> usint list" where
  "nat_limbs n = (if n < LB then [of_nat n] else of_nat n # nat_limbs (n div LB))"

declare nat_limbs.simps [simp del]

definition normalized :: "usint list \<Rightarrow> bool" where
  "normalized v \<longleftrightarrow> v \<noteq> [] \<and> (last v = 0 \<longrightarrow> length v = 1)"

fun nbits :: "nat \<Rightarrow> nat" where
  "nbits n = (if n = 0 then 0 else Suc (nbits (n div 2)))"

declare nbits.simps [simp del]

text \<open>The only object that stands for a number, and what the methods require of one.\<close>

definition ub_of :: "nat \<Rightarrow> ubint" where
  "ub_of n = \<lparr>ub_value = nat_limbs n, ub_MSB = nbits n, ub_state = INITIALIZED\<rparr>"

definition ub_nat :: "ubint \<Rightarrow> nat" where
  "ub_nat x = limbs_nat (ub_value x)"

definition ub_wf :: "ubint \<Rightarrow> bool" where
  "ub_wf x \<longleftrightarrow> ub_state x = INITIALIZED \<and> normalized (ub_value x) \<and> ub_MSB x = nbits (ub_nat x)"

lemma limbs_nat_append: "limbs_nat (xs @ ys) = limbs_nat xs + LB ^ length xs * limbs_nat ys"
  by (induction xs) (simp_all add: algebra_simps)

lemma limbs_nat_less: "limbs_nat xs < LB ^ length xs"
proof (induction xs)
  case (Cons x xs)
  have "unat x + LB * limbs_nat xs < LB * (limbs_nat xs + 1)" using unat_lt_32 [of x] by simp
  also have "\<dots> \<le> LB * LB ^ length xs" using Cons by (intro mult_le_mono2) simp
  finally show ?case by simp
qed simp

lemma limbs_nat_zeros [simp]: "limbs_nat (replicate n 0) = 0"
  by (induction n) simp_all

lemma limbs_nat_take_drop: "limbs_nat (take i xs) + LB ^ min i (length xs) * limbs_nat (drop i xs) = limbs_nat xs"
  using limbs_nat_append [of "take i xs" "drop i xs"] by (simp add: min.commute)

lemma limbs_nat_take_Suc: "i < length xs \<Longrightarrow> limbs_nat (take (Suc i) xs) = limbs_nat (take i xs) + LB ^ i * unat (xs ! i)"
  by (simp add: take_Suc_conv_app_nth limbs_nat_append min_def)

lemma limbs_nat_update:
  "i < length xs \<Longrightarrow> limbs_nat (xs[i := y]) + LB ^ i * unat (xs ! i) = limbs_nat xs + LB ^ i * unat y"
proof (induction xs arbitrary: i)
  case (Cons x xs)
  show ?case
  proof (cases i)
    case (Suc j)
    then have "LB * (limbs_nat (xs[j := y]) + LB ^ j * unat (xs ! j)) = LB * (limbs_nat xs + LB ^ j * unat y)"
      using Cons by simp
    then show ?thesis using Suc by (simp add: algebra_simps)
  qed simp
qed simp

lemma limbs_nat_inj: "length xs = length ys \<Longrightarrow> limbs_nat xs = limbs_nat ys \<Longrightarrow> xs = ys"
proof (induction xs ys rule: list_induct2)
  case (Cons x xs y ys)
  have "unat x = (unat x + LB * limbs_nat xs) mod LB" using unat_lt_32 [of x] by simp
  also have "\<dots> = (unat y + LB * limbs_nat ys) mod LB" using Cons.prems by simp
  also have "\<dots> = unat y" using unat_lt_32 [of y] by simp
  finally have "unat x = unat y" .
  then show ?case using Cons by (simp add: word_unat_eq_iff)
qed simp

lemma limbs_nat_last:
  assumes "v \<noteq> []"
  shows "limbs_nat v = limbs_nat (butlast v) + LB ^ (length v - 1) * unat (last v)"
  using limbs_nat_append [of "butlast v" "[last v]"] assms by simp

lemma limbs_nat_lower: "v \<noteq> [] \<Longrightarrow> last v \<noteq> 0 \<Longrightarrow> LB ^ (length v - 1) \<le> limbs_nat v"
proof -
  assume v: "v \<noteq> []" "last v \<noteq> 0"
  then have "1 \<le> unat (last v)" using word_ge_0_nat [of "last v"] by simp
  then have "LB ^ (length v - 1) * 1 \<le> LB ^ (length v - 1) * unat (last v)" by (intro mult_le_mono2)
  then show ?thesis using limbs_nat_last [OF v(1)] by linarith
qed

lemma normalized_iff: "v \<noteq> [] \<Longrightarrow> normalized v \<longleftrightarrow> length v = 1 \<or> LB ^ (length v - 1) \<le> limbs_nat v"
proof -
  assume v: "v \<noteq> []"
  have "limbs_nat v < LB ^ (length v - 1)" if "last v = 0"
    using limbs_nat_last [OF v] limbs_nat_less [of "butlast v"] that by simp
  then show ?thesis using v limbs_nat_lower [OF v] by (auto simp: normalized_def)
qed

lemma nat_limbs_nonempty [simp]: "nat_limbs n \<noteq> []"
  by (subst nat_limbs.simps) simp

lemma unat_of_nat_limb: "unat (of_nat n :: usint) = n mod LB"
  by (simp add: unat_of_nat)

lemma limbs_nat_limbs [simp]: "limbs_nat (nat_limbs n) = n"
proof (induction n rule: nat_limbs.induct)
  case (1 n)
  then show ?case by (subst nat_limbs.simps) (auto simp: unat_of_nat_limb)
qed

lemma last_nat_limbs: "0 < n \<Longrightarrow> last (nat_limbs n) \<noteq> 0"
proof (induction n rule: nat_limbs.induct)
  case (1 n)
  show ?case
  proof (cases "n < LB")
    case True
    then have "unat (of_nat n :: usint) = n" by (simp add: unat_of_nat_limb)
    then show ?thesis using True 1 by (subst nat_limbs.simps) (auto simp del: unat_of_nat)
  next
    case False
    then have "0 < n div LB" by (simp add: div_greater_zero_iff)
    then show ?thesis using False 1 by (subst nat_limbs.simps) simp
  qed
qed

lemma nat_limbs_0 [simp]: "nat_limbs 0 = [0]"
  by (simp add: nat_limbs.simps)

lemma normalized_nat_limbs [simp]: "normalized (nat_limbs n)"
  using last_nat_limbs [of n] by (cases "n = 0") (auto simp: normalized_def)

lemma limbs_length_unique:
  assumes "normalized v" "normalized w" "limbs_nat v = limbs_nat w"
  shows "length v \<le> length w"
proof (rule ccontr)
  assume l: "\<not> length v \<le> length w"
  then have "length v \<noteq> 1" using assms(2) by (cases w) (auto simp: normalized_def)
  then have "LB ^ (length v - 1) \<le> limbs_nat v" using assms(1) normalized_iff [of v] by (auto simp: normalized_def)
  also have "\<dots> < LB ^ length w" using assms(3) limbs_nat_less [of w] by simp
  also have "\<dots> \<le> LB ^ (length v - 1)" using l by (intro power_increasing) auto
  finally show False by simp
qed

lemma nat_limbs_unique: "normalized v \<Longrightarrow> nat_limbs (limbs_nat v) = v"
  using limbs_length_unique [of v "nat_limbs (limbs_nat v)"] limbs_length_unique [of "nat_limbs (limbs_nat v)" v]
  by (intro limbs_nat_inj) auto

lemma nat_limbs_eqI: "normalized v \<Longrightarrow> limbs_nat v = n \<Longrightarrow> nat_limbs n = v"
  using nat_limbs_unique by blast

lemma length_nat_limbs: "length (nat_limbs n) = 1 \<or> LB ^ (length (nat_limbs n) - 1) \<le> n"
  using normalized_iff [of "nat_limbs n"] by simp

lemma length_nat_limbs_le: "0 < k \<Longrightarrow> length (nat_limbs n) \<le> k \<longleftrightarrow> n < LB ^ k"
proof
  assume "0 < k" "length (nat_limbs n) \<le> k"
  then have "LB ^ length (nat_limbs n) \<le> LB ^ k" by (intro power_increasing) auto
  then show "n < LB ^ k" by (rule less_le_trans [OF limbs_nat_less [of "nat_limbs n", unfolded limbs_nat_limbs]])
next
  assume k: "0 < k" "n < LB ^ k"
  show "length (nat_limbs n) \<le> k"
  proof (rule ccontr)
    assume l: "\<not> length (nat_limbs n) \<le> k"
    then have "LB ^ (length (nat_limbs n) - 1) \<le> n" using length_nat_limbs [of n] k(1) by auto
    moreover have "LB ^ k \<le> LB ^ (length (nat_limbs n) - 1)" using l by (intro power_increasing) auto
    ultimately show False using k(2) by linarith
  qed
qed

section \<open>The bit length\<close>

lemma nbits_0 [simp]: "nbits 0 = 0"
  by (simp add: nbits.simps)

lemma nbits_le_iff: "nbits n \<le> k \<longleftrightarrow> n < 2 ^ k"
proof (induction n arbitrary: k rule: nbits.induct)
  case (1 n)
  show ?case
  proof (cases "n = 0")
    case False
    show ?thesis
    proof (cases k)
      case 0
      then show ?thesis using False by (simp add: nbits.simps [of n])
    next
      case (Suc j)
      have "nbits n \<le> k \<longleftrightarrow> nbits (n div 2) \<le> j" using False by (subst nbits.simps) (simp add: Suc)
      also have "\<dots> \<longleftrightarrow> n div 2 < 2 ^ j" using 1 False by blast
      also have "\<dots> \<longleftrightarrow> n < 2 ^ k" by (simp add: Suc div_less_iff_less_mult mult.commute)
      finally show ?thesis .
    qed
  qed simp
qed

lemma nbits_bounds: "n < 2 ^ nbits n"
  by (simp flip: nbits_le_iff)

lemma nbits_lower: "0 < n \<Longrightarrow> 2 ^ (nbits n - 1) \<le> n"
  using nbits_le_iff [of n "nbits n - 1"] by (cases "nbits n") (auto simp: nbits_le_iff [of n 0, simplified])

lemma nbits_eq_0 [simp]: "nbits n = 0 \<longleftrightarrow> n = 0"
  using nbits_le_iff [of n 0] by auto

lemma nbits_eqI: "n < 2 ^ k \<Longrightarrow> k = 0 \<or> 2 ^ (k - 1) \<le> n \<Longrightarrow> nbits n = k"
  using nbits_le_iff [of n k] nbits_le_iff [of n "k - 1"] by (cases k) auto

lemma nbits_mono: "a \<le> b \<Longrightarrow> nbits a \<le> nbits b"
  using nbits_bounds [of b] by (simp add: nbits_le_iff)

lemma nbits_1 [simp]: "nbits 1 = 1" "nbits (Suc 0) = 1"
  by (simp_all add: nbits.simps)

lemma nbits_eq_1: "nbits n = 1 \<longleftrightarrow> n = 1"
proof
  assume "nbits n = 1"
  then show "n = 1" using nbits_lower [of n] nbits_bounds [of n] by (cases "n = 0") auto
qed simp

lemma nbits_shift: "0 < m \<Longrightarrow> a < 2 ^ k \<Longrightarrow> nbits (a + 2 ^ k * m) = k + nbits m"
proof (rule nbits_eqI)
  assume m: "0 < m" and a: "a < 2 ^ k"
  have "a + 2 ^ k * m < 2 ^ k * (m + 1)" using a by simp
  also have "\<dots> \<le> 2 ^ k * 2 ^ nbits m" using nbits_bounds [of m] by (intro mult_le_mono2) simp
  finally show "a + 2 ^ k * m < 2 ^ (k + nbits m)" by (simp add: power_add)
  have "2 ^ (k + nbits m - 1) = 2 ^ k * (2 :: nat) ^ (nbits m - 1)" using m by (cases "nbits m") (simp_all flip: power_add)
  also have "\<dots> \<le> 2 ^ k * m" using nbits_lower [OF m] by (intro mult_le_mono2)
  finally show "k + nbits m = 0 \<or> 2 ^ (k + nbits m - 1) \<le> a + 2 ^ k * m" by simp
qed

lemma GetMSBlimb_nbits: "GetMSBlimb_t x = nbits (unat x)"
proof (cases "x = 0")
  case True
  then show ?thesis by (simp add: GetMSBlimb_t_def GetMSB64_def GetMSB_def)
next
  case False
  have u: "unat (ucast x :: NativeInt) = unat x" using unat_lt_32 [of x] by (simp add: unsigned_ucast_eq take_bit_eq_mod)
  then have "(ucast x :: NativeInt) \<noteq> 0" using False by (auto simp: word_ge_0_nat)
  from GetMSB_bounds [OF this] show ?thesis unfolding u
    by (intro nbits_eqI [symmetric]) (auto simp: GetMSBlimb_t_def GetMSB64_def)
qed

lemma LB_power: "LB ^ k = 2 ^ (32 * k)"
  by (simp add: power_mult)

lemma msb_limbs:
  assumes "normalized v"
  shows "(length v - 1) * 32 + nbits (unat (last v)) = nbits (limbs_nat v)"
proof (cases "last v = 0")
  case True
  then have "v = [0]" using assms by (cases v) (auto simp: normalized_def)
  then show ?thesis by simp
next
  case False
  have v: "v \<noteq> []" using assms by (simp add: normalized_def)
  have "0 < unat (last v)" using False by (simp add: word_ge_0_nat)
  moreover have "limbs_nat (butlast v) < 2 ^ (32 * (length v - 1))"
    using limbs_nat_less [of "butlast v"] by (simp add: LB_power)
  ultimately show ?thesis using nbits_shift [of "unat (last v)" "limbs_nat (butlast v)" "32 * (length v - 1)"] limbs_nat_last [OF v]
    by (simp add: LB_power mult.commute)
qed

lemma SetMSB_normalized: "normalized v \<Longrightarrow> SetMSB \<lparr>ub_value = v, ub_MSB = m, ub_state = INITIALIZED\<rparr> = Inr (ub_of (limbs_nat v))"
  using msb_limbs [of v]
  by (simp add: SetMSB_def vback_def normalized_def m_limbBitLength_def GetMSBlimb_nbits ub_of_def nat_limbs_unique)

lemma NormalizeLimbs_loop_value:
  "length v = Suc i \<Longrightarrow> \<exists>w. NormalizeLimbs_loop i v = Inr w \<and> normalized w \<and> limbs_nat w = limbs_nat v"
proof (induction i arbitrary: v)
  case 0
  then show ?case by (auto simp: normalized_def)
next
  case (Suc i)
  have v: "v \<noteq> []" using Suc.prems by auto
  show ?case
  proof (cases "last v = 0")
    case True
    have "length (butlast v) = Suc i" using Suc.prems by simp
    from Suc.IH [OF this] show ?thesis using True v limbs_nat_last [OF v] by (simp add: vback_def vpop_back_def)
  next
    case False
    then show ?thesis using v by (simp add: vback_def normalized_def)
  qed
qed

lemma NormalizeLimbs_SetMSB:
  assumes "v \<noteq> []"
  shows "res_bind (NormalizeLimbs \<lparr>ub_value = v, ub_MSB = m, ub_state = INITIALIZED\<rparr>) SetMSB = Inr (ub_of (limbs_nat v))"
proof -
  obtain w where "NormalizeLimbs_loop (length v - 1) v = Inr w" "normalized w" "limbs_nat w = limbs_nat v"
    using NormalizeLimbs_loop_value [of v "length v - 1"] assms by auto
  then show ?thesis using assms SetMSB_normalized [of w m] by (simp add: NormalizeLimbs_def del: res_bind_eq_Inr)
qed

lemma NormalizeLimbs_value:
  assumes "v \<noteq> []"
  obtains w where "NormalizeLimbs \<lparr>ub_value = v, ub_MSB = m, ub_state = s\<rparr> = Inr \<lparr>ub_value = w, ub_MSB = m, ub_state = s\<rparr>"
    "normalized w" "limbs_nat w = limbs_nat v"
proof -
  obtain w where "NormalizeLimbs_loop (length v - 1) v = Inr w" "normalized w" "limbs_nat w = limbs_nat v"
    using NormalizeLimbs_loop_value [of v "length v - 1"] assms by auto
  then show thesis using assms by (intro that [of w]) (simp_all add: NormalizeLimbs_def)
qed

lemma ub_of_simps [simp]: "ub_value (ub_of n) = nat_limbs n" "ub_MSB (ub_of n) = nbits n" "ub_state (ub_of n) = INITIALIZED"
  by (simp_all add: ub_of_def)

lemma ub_nat_of [simp]: "ub_nat (ub_of n) = n"
  by (simp add: ub_nat_def)

lemma ub_wf_of [simp]: "ub_wf (ub_of n)"
  by (simp add: ub_wf_def)

lemma ub_of_nat: "ub_wf x \<Longrightarrow> ub_of (ub_nat x) = x"
  by (simp add: ub_wf_def ub_of_def ub_nat_def nat_limbs_unique)

lemma ub_wfE: "ub_wf x \<Longrightarrow> (\<And>n. x = ub_of n \<Longrightarrow> thesis) \<Longrightarrow> thesis"
  using ub_of_nat [of x] by metis

lemma ub_of_eq_iff [simp]: "ub_of m = ub_of n \<longleftrightarrow> m = n"
  using ub_nat_of by metis

lemma ub_copy [simp]: "ubint_copy (ub_of n) = Inr (ub_of n)"
  by (simp add: ubint_copy_def)

lemma ceilIntByUInt_eqI: "0 < k \<Longrightarrow> n \<le> 32 * k \<Longrightarrow> k = 1 \<or> 32 * (k - 1) < n \<Longrightarrow> ceilIntByUInt n = k"
proof -
  assume k: "0 < k" "n \<le> 32 * k" "k = 1 \<or> 32 * (k - 1) < n"
  define q r where "q = n div 32" and "r = n mod 32"
  then have "n = 32 * q + r" "r < 32" by simp_all
  then show ?thesis using k unfolding ceilIntByUInt_def m_limbBitLength_def q_def [symmetric] r_def [symmetric] by auto
qed

lemma nbits_gt_iff: "k < nbits n \<longleftrightarrow> 2 ^ k \<le> n"
  using nbits_le_iff [of n k] by linarith

lemma ceil_nbits [simp]: "ceilIntByUInt (nbits n) = length (nat_limbs n)"
proof (rule ceilIntByUInt_eqI)
  show "nbits n \<le> 32 * length (nat_limbs n)" using limbs_nat_less [of "nat_limbs n"] by (simp add: nbits_le_iff LB_power)
  show "length (nat_limbs n) = 1 \<or> 32 * (length (nat_limbs n) - 1) < nbits n"
    using length_nat_limbs [of n] by (simp only: nbits_gt_iff LB_power)
qed simp

section \<open>Constructors\<close>

lemma nat_limbs_small: "n < LB \<Longrightarrow> nat_limbs n = [of_nat n]"
  by (simp add: nat_limbs.simps)

lemma nat_limbs_large: "LB \<le> n \<Longrightarrow> nat_limbs n = of_nat n # nat_limbs (n div LB)"
  by (subst nat_limbs.simps) simp

lemma unat_ucast_32_64 [simp]: "unat (ucast (x :: 32 word) :: 64 word) = unat x"
  using unat_lt_32 [of x] by (simp add: unsigned_ucast_eq take_bit_eq_mod)

lemma unat_ucast_64_32: "unat (ucast (x :: 64 word) :: 32 word) = unat x mod LB"
  by (simp add: unsigned_ucast_eq take_bit_eq_mod)

lemma unat_ucast_128_32: "unat (ucast (x :: 128 word) :: 32 word) = unat x mod LB"
  by (simp add: unsigned_ucast_eq take_bit_eq_mod)

lemma limbs_nat_push64: "limbs_nat (push_limbs64 n v) = unat v mod LB ^ n"
proof (induction n arbitrary: v)
  case (Suc n)
  then show ?case by (simp add: m_limbBitLength_def unat_ucast_64_32 unat_drop_bit mod_mult2_eq)
qed simp

lemma limbs_nat_push128: "limbs_nat (push_limbs128 n v) = unat v mod LB ^ n"
proof (induction n arbitrary: v)
  case (Suc n)
  then show ?case by (simp add: m_limbBitLength_def unat_ucast_128_32 unat_drop_bit mod_mult2_eq)
qed simp

lemma length_push_limbs [simp]: "length (push_limbs64 n v) = n" "length (push_limbs128 n w) = n"
  by (induction n arbitrary: v w) simp_all

lemma GetMSB64_nbits: "GetMSB64 x = nbits (unat x)"
proof (cases "x = 0")
  case False
  from GetMSB_bounds [OF this] show ?thesis by (intro nbits_eqI [symmetric]) (auto simp: GetMSB64_def)
qed (simp add: GetMSB64_def GetMSB_def)

lemma limbs_of_length:
  assumes "length v = length (nat_limbs n)" "limbs_nat v = n mod LB ^ length v"
  shows "v = nat_limbs n"
  using assms limbs_nat_less [of "nat_limbs n"] by (intro limbs_nat_inj) simp_all

lemma ubint_u64_of: "ubint_u64 x = ub_of (unat x)"
proof -
  have "(if x \<le> ucast m_MaxLimb then [ucast x] else push_limbs64 (ceilIntByUInt (GetMSB64 x)) x) = nat_limbs (unat x)"
  proof (cases "x \<le> ucast m_MaxLimb")
    case True
    then have "unat x < LB" by (simp add: m_MaxLimb_def word_le_nat_alt)
    then show ?thesis using True by (simp add: nat_limbs_small unat_ucast_64_32 word_unat_eq_iff unat_of_nat_limb)
  next
    case False
    then show ?thesis by (simp add: GetMSB64_nbits limbs_nat_push64) (intro limbs_of_length; simp add: limbs_nat_push64)
  qed
  then show ?thesis unfolding ubint_u64_def Let_def ub_of_def by (simp only:) (simp add: GetMSB64_nbits)
qed

lemma ubint_u64_small [simp]: "ubint_u64 0 = ub_of 0" "ubint_u64 1 = ub_of 1"
  by (simp_all add: ubint_u64_of)

lemma ubint_default_of: "ubint_default = ub_of 0"
  by (simp add: ubint_default_def ub_of_def)

section \<open>Comparison\<close>

definition cmp_nat :: "nat \<Rightarrow> nat \<Rightarrow> int" where
  "cmp_nat a b = (if a < b then - 1 else if b < a then 1 else 0)"

lemma high_limb_less:
  assumes "a < p" "x < y"
  shows "a + p * x < (b :: nat) + p * y"
proof -
  have "a + p * x < p * (x + 1)" using assms(1) by simp
  also have "\<dots> \<le> p * y" using assms(2) by (intro mult_le_mono2) simp
  finally show ?thesis by simp
qed

lemma Compare_loop_value:
  "i \<le> length v \<Longrightarrow> i \<le> length w \<Longrightarrow> Compare_loop i v w = Inr (cmp_nat (limbs_nat (take i v)) (limbs_nat (take i w)))"
proof (induction i)
  case (Suc i)
  have b: "limbs_nat (take i u) < LB ^ i" if "i < length u" for u :: "usint list"
    using limbs_nat_less [of "take i u"] that by (simp add: min_def)
  consider "v ! i > w ! i" | "v ! i < w ! i" | "v ! i = w ! i" by fastforce
  then show ?case
  proof cases
    case 1
    then have "limbs_nat (take i w) + LB ^ i * unat (w ! i) < limbs_nat (take i v) + LB ^ i * unat (v ! i)"
      using Suc.prems b [of w] by (intro high_limb_less) (auto simp: word_less_nat_alt)
    then show ?thesis using 1 Suc.prems by (simp add: elem_at_nth limbs_nat_take_Suc cmp_nat_def)
  next
    case 2
    then have "limbs_nat (take i v) + LB ^ i * unat (v ! i) < limbs_nat (take i w) + LB ^ i * unat (w ! i)"
      using Suc.prems b [of v] by (intro high_limb_less) (auto simp: word_less_nat_alt)
    then show ?thesis using 2 Suc.prems by (simp add: elem_at_nth limbs_nat_take_Suc cmp_nat_def)
  next
    case 3
    then show ?thesis using Suc by (simp add: elem_at_nth limbs_nat_take_Suc cmp_nat_def)
  qed
qed (simp add: cmp_nat_def)

lemma nbits_less_imp: "nbits a < nbits b \<Longrightarrow> a < b"
  using nbits_mono [of b a] by linarith

lemma length_nat_limbs_nbits: "nbits a = nbits b \<Longrightarrow> length (nat_limbs a) = length (nat_limbs b)"
  by (simp flip: ceil_nbits)

lemma BI_Compare_of: "BI_Compare (ub_of a) (ub_of b) = Inr (cmp_nat a b)"
proof -
  consider "nbits a < nbits b" | "nbits b < nbits a" | "nbits a = nbits b" by linarith
  then show ?thesis
  proof cases
    case 1
    then show ?thesis using nbits_less_imp [OF 1] by (simp add: BI_Compare_def cmp_nat_def)
  next
    case 2
    then show ?thesis using nbits_less_imp [OF 2] by (simp add: BI_Compare_def cmp_nat_def)
  next
    case 3
    then show ?thesis using length_nat_limbs_nbits [OF 3] Compare_loop_value [of "length (nat_limbs a)" "nat_limbs a" "nat_limbs b"]
      by (simp add: BI_Compare_def)
  qed
qed

lemma BI_relations [simp]:
  "BI_eq (ub_of a) (ub_of b) = Inr (a = b)" "BI_gt (ub_of a) (ub_of b) = Inr (a > b)" "BI_ge (ub_of a) (ub_of b) = Inr (a \<ge> b)"
  "BI_lt (ub_of a) (ub_of b) = Inr (a < b)" "BI_le (ub_of a) (ub_of b) = Inr (a \<le> b)"
  by (simp_all add: BI_eq_def BI_gt_def BI_ge_def BI_lt_def BI_le_def BI_Compare_of cmp_nat_def)

section \<open>Addition\<close>

text \<open>The three kinds of passes over limbs: both operands, the longer one with the carry, and the longer one copied.\<close>

lemma carry_step_value:
  assumes "unat p + unat q + unat ofl < 18446744073709551616" "carry_step (ucast (p :: usint) + ucast (q :: usint) + ofl) = (l, c)"
  shows "unat l + LB * unat c = unat p + unat q + unat ofl"
proof -
  have "unat (ucast p + ucast q + ofl :: NativeInt) = unat p + unat q + unat ofl"
    using assms(1) by (simp add: unat_word_ariths)
  then show ?thesis using assms(2) by (auto simp: carry_step_def unat_ucast_64_32 unat_drop_bit m_limbBitLength_def)
qed

lemma carry_step_value1:
  assumes "unat ofl \<le> 1" "carry_step (ucast (p :: usint) + ofl) = (l, c)"
  shows "unat l + LB * unat c = unat p + unat ofl" "unat c \<le> 1"
proof -
  show a: "unat l + LB * unat c = unat p + unat ofl"
    using carry_step_value [of p 0 ofl l c] assms unat_lt_32 [of p] by simp
  show "unat c \<le> 1" using a assms(1) unat_lt_32 [of p] by linarith
qed

lemma carry_step_value2:
  assumes "unat ofl \<le> 1" "carry_step (ucast (p :: usint) + ucast (q :: usint) + ofl) = (l, c)"
  shows "unat l + LB * unat c = unat p + unat q + unat ofl" "unat c \<le> 1"
proof -
  show a: "unat l + LB * unat c = unat p + unat q + unat ofl"
    using carry_step_value [of p q ofl l c] assms unat_lt_32 [of p] unat_lt_32 [of q] by simp
  show "unat c \<le> 1" using a assms(1) unat_lt_32 [of p] unat_lt_32 [of q] by linarith
qed

lemma res_range_ex:
  assumes "res_range i j f s = Inr t" "res_range i j f s = r" shows "r = Inr t"
  using assms by simp

text \<open>The sum of the limbs below \<open>k\<close>, pushed one by one.\<close>

lemma add_pass:
  assumes "k \<le> length v" "k \<le> length w"
  obtains ofl r where
    "res_range 0 k (\<lambda>i (ofl, r). res_bind (elem_at v i) (\<lambda>p. res_bind (elem_at w i) (\<lambda>q.
       let (l, ofl) = carry_step (ucast p + ucast q + ofl) in Inr (ofl, r @ [l])))) (0, []) = Inr (ofl, r)"
    "length r = k" "unat ofl \<le> 1" "limbs_nat r + LB ^ k * unat ofl = limbs_nat (take k v) + limbs_nat (take k w)"
proof -
  let ?P = "\<lambda>i (ofl, r). length r = i \<and> unat ofl \<le> 1 \<and> limbs_nat r + LB ^ i * unat ofl = limbs_nat (take i v) + limbs_nat (take i w)"
  have "\<exists>s. res_range 0 k (\<lambda>i (ofl, r). res_bind (elem_at v i) (\<lambda>p. res_bind (elem_at w i) (\<lambda>q.
       let (l, ofl) = carry_step (ucast p + ucast q + ofl) in Inr (ofl, r @ [l])))) (0, []) = Inr s \<and> ?P k s"
  proof (rule res_range_invariant)
    fix i and s :: "NativeInt \<times> usint list"
    assume i: "i < k" and P: "?P i s"
    obtain ofl r where s: "s = (ofl, r)" by fastforce
    obtain l c where lc: "carry_step (ucast (v ! i) + ucast (w ! i) + ofl) = (l, c)" by fastforce
    have c: "unat l + LB * unat c = unat (v ! i) + unat (w ! i) + unat ofl" "unat c \<le> 1"
      using carry_step_value2 [OF _ lc] P by (auto simp: s)
    have "limbs_nat (r @ [l]) + LB ^ Suc i * unat c = limbs_nat r + LB ^ i * (unat l + LB * unat c)"
      using P by (simp add: s limbs_nat_append algebra_simps)
    also have "\<dots> = limbs_nat r + LB ^ i * unat ofl + LB ^ i * unat (v ! i) + LB ^ i * unat (w ! i)"
      by (simp only: c) (simp only: algebra_simps)
    also have "\<dots> = limbs_nat (take (Suc i) v) + limbs_nat (take (Suc i) w)"
      using P i assms by (simp add: s limbs_nat_take_Suc)
    finally show "\<exists>t. (case s of (ofl, r) \<Rightarrow> res_bind (elem_at v i) (\<lambda>p. res_bind (elem_at w i) (\<lambda>q.
       let (l, ofl) = carry_step (ucast p + ucast q + ofl) in Inr (ofl, r @ [l])))) = Inr t \<and> ?P (Suc i) t"
      using P i assms c lc by (simp add: s elem_at_nth)
  qed simp_all
  then show thesis using that by auto
qed

text \<open>The same sums written over the first operand.\<close>

lemma add_pass_inplace:
  assumes "k \<le> length v" "k \<le> length w"
  obtains ofl r where
    "res_range 0 k (\<lambda>i (ofl, v). res_bind (elem_at v i) (\<lambda>p. res_bind (elem_at w i) (\<lambda>q.
       let (l, ofl) = carry_step (ucast p + ucast q + ofl) in res_bind (elem_set v i l) (\<lambda>v. Inr (ofl, v))))) (0, v) = Inr (ofl, r @ drop k v)"
    "length r = k" "unat ofl \<le> 1" "limbs_nat r + LB ^ k * unat ofl = limbs_nat (take k v) + limbs_nat (take k w)"
proof -
  let ?P = "\<lambda>i (ofl, u). \<exists>r. u = r @ drop i v \<and> length r = i \<and> unat ofl \<le> 1 \<and> limbs_nat r + LB ^ i * unat ofl = limbs_nat (take i v) + limbs_nat (take i w)"
  have "\<exists>s. res_range 0 k (\<lambda>i (ofl, v). res_bind (elem_at v i) (\<lambda>p. res_bind (elem_at w i) (\<lambda>q.
       let (l, ofl) = carry_step (ucast p + ucast q + ofl) in res_bind (elem_set v i l) (\<lambda>v. Inr (ofl, v))))) (0, v) = Inr s \<and> ?P k s"
  proof (rule res_range_invariant)
    fix i and s :: "NativeInt \<times> usint list"
    assume i: "i < k" and P: "?P i s"
    obtain ofl r where s: "s = (ofl, r @ drop i v)" and r: "length r = i" "unat ofl \<le> 1"
      "limbs_nat r + LB ^ i * unat ofl = limbs_nat (take i v) + limbs_nat (take i w)" using P by (cases s) auto
    have d: "drop i v = v ! i # drop (Suc i) v" using i assms by (simp add: Cons_nth_drop_Suc)
    obtain l c where lc: "carry_step (ucast (v ! i) + ucast (w ! i) + ofl) = (l, c)" by fastforce
    have c: "unat l + LB * unat c = unat (v ! i) + unat (w ! i) + unat ofl" "unat c \<le> 1"
      using carry_step_value2 [OF r(2) lc] by auto
    have "limbs_nat (r @ [l]) + LB ^ Suc i * unat c = limbs_nat r + LB ^ i * (unat l + LB * unat c)"
      using r by (simp add: limbs_nat_append algebra_simps)
    also have "\<dots> = limbs_nat r + LB ^ i * unat ofl + LB ^ i * unat (v ! i) + LB ^ i * unat (w ! i)"
      by (simp only: c) (simp only: algebra_simps)
    also have "\<dots> = limbs_nat (take (Suc i) v) + limbs_nat (take (Suc i) w)"
      using r i assms by (simp add: limbs_nat_take_Suc)
    finally have v: "limbs_nat (r @ [l]) + LB ^ Suc i * unat c = limbs_nat (take (Suc i) v) + limbs_nat (take (Suc i) w)" .
    then have "?P (Suc i) (c, r @ l # drop (Suc i) v)" using r c by (intro case_prodI exI [of _ "r @ [l]"]) simp
    then show "\<exists>t. (case s of (ofl, v) \<Rightarrow> res_bind (elem_at v i) (\<lambda>p. res_bind (elem_at w i) (\<lambda>q.
       let (l, ofl) = carry_step (ucast p + ucast q + ofl) in res_bind (elem_set v i l) (\<lambda>v. Inr (ofl, v))))) = Inr t \<and> ?P (Suc i) t"
      using i assms lc r by (simp add: s elem_at_def elem_set_def d nth_append list_update_append)
  qed simp_all
  then show thesis using that by auto
qed

text \<open>The carry run through the rest of the longer operand, which starts at position \<open>k\<close>.\<close>

lemma carry_pass:
  assumes "k \<le> length v" "length r0 = k" "unat ofl0 \<le> 1"
  obtains ofl r where
    "res_range k (length v) (\<lambda>i (ofl, r). res_bind (elem_at v i) (\<lambda>p.
       let (l, ofl) = carry_step (ucast p + ofl) in Inr (ofl, r @ [l]))) (ofl0, r0) = Inr (ofl, r)"
    "length r = length v" "unat ofl \<le> 1"
    "limbs_nat r + LB ^ length v * unat ofl + limbs_nat (take k v) = limbs_nat r0 + LB ^ k * unat ofl0 + limbs_nat v"
proof -
  let ?P = "\<lambda>i (ofl, r). length r = i \<and> unat ofl \<le> 1 \<and> limbs_nat r + LB ^ i * unat ofl + limbs_nat (take k v) = limbs_nat r0 + LB ^ k * unat ofl0 + limbs_nat (take i v)"
  have "\<exists>s. res_range k (length v) (\<lambda>i (ofl, r). res_bind (elem_at v i) (\<lambda>p.
       let (l, ofl) = carry_step (ucast p + ofl) in Inr (ofl, r @ [l]))) (ofl0, r0) = Inr s \<and> ?P (length v) s"
  proof (rule res_range_invariant)
    fix i and s :: "NativeInt \<times> usint list"
    assume i: "i < length v" and P: "?P i s"
    obtain ofl r where s: "s = (ofl, r)" by fastforce
    obtain l c where lc: "carry_step (ucast (v ! i) + ofl) = (l, c)" by fastforce
    have c: "unat l + LB * unat c = unat (v ! i) + unat ofl" "unat c \<le> 1"
      using carry_step_value1 [OF _ lc] P by (auto simp: s)
    have "limbs_nat (r @ [l]) + LB ^ Suc i * unat c + limbs_nat (take k v) = limbs_nat r + LB ^ i * (unat l + LB * unat c) + limbs_nat (take k v)"
      using P by (simp add: s limbs_nat_append algebra_simps)
    also have "\<dots> = limbs_nat r + LB ^ i * unat ofl + limbs_nat (take k v) + LB ^ i * unat (v ! i)"
      by (simp only: c) (simp only: algebra_simps)
    also have "\<dots> = limbs_nat r0 + LB ^ k * unat ofl0 + limbs_nat (take (Suc i) v)"
      using P i by (simp add: s limbs_nat_take_Suc)
    finally show "\<exists>t. (case s of (ofl, r) \<Rightarrow> res_bind (elem_at v i) (\<lambda>p.
       let (l, ofl) = carry_step (ucast p + ofl) in Inr (ofl, r @ [l]))) = Inr t \<and> ?P (Suc i) t"
      using P i c lc by (simp add: s elem_at_nth)
  qed (use assms in simp_all)
  then show thesis using that by auto
qed

lemma carry_pass_inplace:
  assumes "k \<le> length v" "length r0 = k" "unat ofl0 \<le> 1"
  obtains ofl r where
    "res_range k (length v) (\<lambda>i (ofl, u). res_bind (elem_at u i) (\<lambda>p.
       let (l, ofl) = carry_step (ucast p + ofl) in res_bind (elem_set u i l) (\<lambda>u. Inr (ofl, u)))) (ofl0, r0 @ drop k v) = Inr (ofl, r)"
    "length r = length v" "unat ofl \<le> 1"
    "limbs_nat r + LB ^ length v * unat ofl + limbs_nat (take k v) = limbs_nat r0 + LB ^ k * unat ofl0 + limbs_nat v"
proof -
  let ?P = "\<lambda>i (ofl, u). \<exists>r. u = r @ drop i v \<and> length r = i \<and> unat ofl \<le> 1 \<and>
    limbs_nat r + LB ^ i * unat ofl + limbs_nat (take k v) = limbs_nat r0 + LB ^ k * unat ofl0 + limbs_nat (take i v)"
  have "\<exists>s. res_range k (length v) (\<lambda>i (ofl, u). res_bind (elem_at u i) (\<lambda>p.
       let (l, ofl) = carry_step (ucast p + ofl) in res_bind (elem_set u i l) (\<lambda>u. Inr (ofl, u)))) (ofl0, r0 @ drop k v) = Inr s \<and> ?P (length v) s"
  proof (rule res_range_invariant)
    fix i and s :: "NativeInt \<times> usint list"
    assume i: "i < length v" and P: "?P i s"
    obtain ofl r where s: "s = (ofl, r @ drop i v)" and r: "length r = i" "unat ofl \<le> 1"
      "limbs_nat r + LB ^ i * unat ofl + limbs_nat (take k v) = limbs_nat r0 + LB ^ k * unat ofl0 + limbs_nat (take i v)"
      using P by (cases s) auto
    have d: "drop i v = v ! i # drop (Suc i) v" using i by (simp add: Cons_nth_drop_Suc)
    obtain l c where lc: "carry_step (ucast (v ! i) + ofl) = (l, c)" by fastforce
    have c: "unat l + LB * unat c = unat (v ! i) + unat ofl" "unat c \<le> 1"
      using carry_step_value1 [OF r(2) lc] by auto
    have "limbs_nat (r @ [l]) + LB ^ Suc i * unat c + limbs_nat (take k v) = limbs_nat r + LB ^ i * (unat l + LB * unat c) + limbs_nat (take k v)"
      using r by (simp add: limbs_nat_append algebra_simps)
    also have "\<dots> = limbs_nat r + LB ^ i * unat ofl + limbs_nat (take k v) + LB ^ i * unat (v ! i)"
      by (simp only: c) (simp only: algebra_simps)
    also have "\<dots> = limbs_nat r0 + LB ^ k * unat ofl0 + limbs_nat (take (Suc i) v)"
      using r i by (simp add: limbs_nat_take_Suc)
    finally have "?P (Suc i) (c, r @ l # drop (Suc i) v)" using r c by (intro case_prodI exI [of _ "r @ [l]"]) simp
    then show "\<exists>t. (case s of (ofl, u) \<Rightarrow> res_bind (elem_at u i) (\<lambda>p.
       let (l, ofl) = carry_step (ucast p + ofl) in res_bind (elem_set u i l) (\<lambda>u. Inr (ofl, u)))) = Inr t \<and> ?P (Suc i) t"
      using i lc r by (simp add: s elem_at_def elem_set_def d nth_append list_update_append)
  qed (use assms in auto)
  then show thesis using that by auto
qed

lemma copy_pass:
  assumes "k \<le> length v"
  shows "res_range k (length v) (\<lambda>i u. res_bind (elem_at v i) (\<lambda>p. Inr (u @ [p]))) r0 = Inr (r0 @ drop k v)"
proof -
  have "\<exists>s. res_range k (length v) (\<lambda>i u. res_bind (elem_at v i) (\<lambda>p. Inr (u @ [p]))) r0 = Inr s \<and> s @ drop (length v) v = r0 @ drop k v"
  proof (rule res_range_invariant [where P = "\<lambda>i u. u @ drop i v = r0 @ drop k v"])
    fix i u
    assume "i < length v" "u @ drop i v = r0 @ drop k v"
    then show "\<exists>t. res_bind (elem_at v i) (\<lambda>p. Inr (u @ [p])) = Inr t \<and> t @ drop (Suc i) v = r0 @ drop k v"
      by (simp add: elem_at_nth Cons_nth_drop_Suc)
  qed (use assms in simp_all)
  then show ?thesis by simp
qed

lemma last_carry:
  "unat ofl \<le> 1 \<Longrightarrow> limbs_nat (if ofl \<noteq> 0 then r @ [1] else r) = limbs_nat r + LB ^ length r * unat (ofl :: NativeInt)"
proof -
  assume "unat ofl \<le> 1"
  then have "ofl \<noteq> 0 \<Longrightarrow> unat ofl = 1" by (simp add: word_ge_0_nat)
  then show ?thesis by (auto simp: limbs_nat_append)
qed

lemma sum_normalized:
  assumes "normalized v" "length w \<le> length v" "limbs_nat u = limbs_nat v + limbs_nat w" "length u = length v \<or> last u = 1" "u \<noteq> []"
  shows "normalized u"
proof (cases "length u = length v")
  case True
  then show ?thesis using assms normalized_iff [of v] normalized_iff [of u] by (auto simp: normalized_def)
next
  case False
  then show ?thesis using assms by (auto simp: normalized_def)
qed

text \<open>The limbs of a sum, in the form in which \<open>Add\<close> computes them.\<close>

definition add_limbs :: "usint list \<Rightarrow> usint list \<Rightarrow> usint list result" where
  "add_limbs v w =
     res_bind (res_range 0 (length w) (\<lambda>i (ofl, r).
       res_bind (elem_at v i) (\<lambda>p. res_bind (elem_at w i) (\<lambda>q.
       let (l, ofl) = carry_step (ucast p + ucast q + ofl) in Inr (ofl, r @ [l])))) (0, [])) (\<lambda>(ofl, r).
     if ofl \<noteq> 0 then
       res_bind (res_range (length w) (length v) (\<lambda>i (ofl, r).
         res_bind (elem_at v i) (\<lambda>p. let (l, ofl) = carry_step (ucast p + ofl) in Inr (ofl, r @ [l]))) (ofl, r)) (\<lambda>(ofl, r).
       Inr (if ofl \<noteq> 0 then r @ [1] else r))
     else res_range (length w) (length v) (\<lambda>i r. res_bind (elem_at v i) (\<lambda>p. Inr (r @ [p]))) r)"

lemma add_limbs_value:
  assumes "length w \<le> length v"
  obtains r where "add_limbs v w = Inr r" "limbs_nat r = limbs_nat v + limbs_nat w" "length r = length v \<or> length r = Suc (length v) \<and> last r = 1"
proof -
  obtain ofl r where p: "res_range 0 (length w) (\<lambda>i (ofl, r). res_bind (elem_at v i) (\<lambda>p. res_bind (elem_at w i) (\<lambda>q.
       let (l, ofl) = carry_step (ucast p + ucast q + ofl) in Inr (ofl, r @ [l])))) (0, []) = Inr (ofl, r)"
    and r: "length r = length w" "unat ofl \<le> 1" "limbs_nat r + LB ^ length w * unat ofl = limbs_nat (take (length w) v) + limbs_nat w"
    using add_pass [OF assms, of w] by auto
  show thesis
  proof (cases "ofl = 0")
    case True
    have "limbs_nat (r @ drop (length w) v) = limbs_nat v + limbs_nat w"
      using r True limbs_nat_take_drop [of "length w" v] assms by (simp add: limbs_nat_append min_def)
    then show thesis using that [of "r @ drop (length w) v"] p r True assms by (simp add: add_limbs_def copy_pass)
  next
    case False
    obtain c s where q: "res_range (length w) (length v) (\<lambda>i (ofl, r). res_bind (elem_at v i) (\<lambda>p.
       let (l, ofl) = carry_step (ucast p + ofl) in Inr (ofl, r @ [l]))) (ofl, r) = Inr (c, s)"
      and s: "length s = length v" "unat c \<le> 1"
      "limbs_nat s + LB ^ length v * unat c + limbs_nat (take (length w) v) = limbs_nat r + LB ^ length w * unat ofl + limbs_nat v"
      using carry_pass [OF assms r(1,2)] by blast
    have "limbs_nat (if c \<noteq> 0 then s @ [1] else s) = limbs_nat v + limbs_nat w" using s r by (simp only: last_carry [OF s(2)])
    then show thesis using that [of "if c \<noteq> 0 then s @ [1] else s"] p q s False by (simp add: add_limbs_def)
  qed
qed

lemma res_bind_case_assoc: "res_bind (res_bind x (\<lambda>(a, b). f a b)) g = res_bind x (\<lambda>(a, b). res_bind (f a b) g)"
  by (cases x) auto

lemma BI_Add_of: "BI_Add (ub_of a) (ub_of b) = Inr (ub_of (a + b))"
proof -
  have main: "(if nbits d = 0 then ubint_copy (ub_of c) else res_bind (add_limbs (nat_limbs c) (nat_limbs d)) (\<lambda>v.
      SetMSB \<lparr>ub_value = v, ub_MSB = 0, ub_state = INITIALIZED\<rparr>)) = Inr (ub_of (c + d))" if "d \<le> c" for c d
  proof (cases "d = 0")
    case False
    have l: "length (nat_limbs d) \<le> length (nat_limbs c)"
      using that limbs_nat_less [of "nat_limbs c"] by (subst length_nat_limbs_le) auto
    obtain r where r: "add_limbs (nat_limbs c) (nat_limbs d) = Inr r" "limbs_nat r = c + d"
      "length r = length (nat_limbs c) \<or> length r = Suc (length (nat_limbs c)) \<and> last r = 1"
      using add_limbs_value [OF l] by auto
    have "r \<noteq> []" using r(3) by auto
    then have "normalized r" using sum_normalized [of "nat_limbs c" "nat_limbs d" r] l r by auto
    then show ?thesis using False r SetMSB_normalized [of r 0] by (simp del: res_bind_eq_Inr)
  qed simp
  have "BI_Add (ub_of a) (ub_of b) = (let (c, d) = (if a > b then (a, b) else (b, a)) in
     if nbits d = 0 then ubint_copy (ub_of c) else res_bind (add_limbs (nat_limbs c) (nat_limbs d)) (\<lambda>v.
      SetMSB \<lparr>ub_value = v, ub_MSB = 0, ub_state = INITIALIZED\<rparr>))"
    unfolding BI_Add_def add_limbs_def by (simp add: Let_def res_bind_case_assoc cong: if_cong)
  also have "\<dots> = Inr (ub_of (a + b))" using main [of b a] main [of a b] by (simp add: add.commute)
  finally show ?thesis .
qed

text \<open>
  The in-place sum is also used on vectors with zero limbs at the top, for which \<open>m_MSB\<close> is not the position of the leading bit.
\<close>

definition msb_set :: "ubint \<Rightarrow> bool" where
  "msb_set x \<longleftrightarrow> ub_state x = INITIALIZED \<and> ub_value x \<noteq> [] \<and> ub_MSB x = (length (ub_value x) - 1) * 32 + nbits (unat (last (ub_value x)))"

lemma msb_set_of [simp]: "msb_set (ub_of n)"
  using msb_limbs [of "nat_limbs n"] by (simp add: msb_set_def)

lemma msb_set_normalized: "msb_set x \<Longrightarrow> normalized (ub_value x) \<Longrightarrow> x = ub_of (ub_nat x)"
  using msb_limbs [of "ub_value x"] by (intro ubint.equality) (simp_all add: msb_set_def ub_nat_def nat_limbs_unique)

lemma SetMSB_raw: "ub_state x = INITIALIZED \<Longrightarrow> ub_value x \<noteq> [] \<Longrightarrow> \<exists>m. SetMSB x = Inr (x\<lparr>ub_MSB := m\<rparr>) \<and> msb_set (x\<lparr>ub_MSB := m\<rparr>)"
  by (simp add: SetMSB_def vback_def msb_set_def GetMSBlimb_nbits m_limbBitLength_def)

lemma msb_set_zero: "msb_set x \<Longrightarrow> ub_MSB x = 0 \<Longrightarrow> ub_value x = [0]"
proof -
  assume x: "msb_set x" "ub_MSB x = 0"
  then have "length (ub_value x) \<le> 1" "last (ub_value x) = 0" by (auto simp: msb_set_def unat_eq_0)
  then show ?thesis using x(1) by (cases "ub_value x") (auto simp: msb_set_def)
qed

definition AddEq_limbs :: "usint list \<Rightarrow> usint list \<Rightarrow> (usint list \<Rightarrow> ubint result) \<Rightarrow> ubint result" where
  "AddEq_limbs v w F =
     (let sizeThis = length v; sizeB = length w; thisIsBigger = (sizeThis > sizeB); sizeSmall = (if sizeThis < sizeB then sizeThis else sizeB)
       in res_bind (res_range 0 sizeSmall (\<lambda>i (ofl, v).
            res_bind (elem_at v i) (\<lambda>p. res_bind (elem_at w i) (\<lambda>q.
            let (l, ofl) = carry_step (ucast p + ucast q + ofl) in res_bind (elem_set v i l) (\<lambda>v. Inr (ofl, v))))) (0, v)) (\<lambda>(ofl, v).
          res_bind
            (if thisIsBigger then
               (if ofl \<noteq> 0 then
                  res_bind (res_range sizeSmall sizeThis (\<lambda>i (ofl, v).
                    res_bind (elem_at v i) (\<lambda>p.
                    let (l, ofl) = carry_step (ucast p + ofl) in res_bind (elem_set v i l) (\<lambda>v. Inr (ofl, v)))) (ofl, v)) (\<lambda>(ofl, v).
                  Inr (if ofl \<noteq> 0 then v @ [1] else v))
                else Inr v)
             else if ofl \<noteq> 0 then
               res_bind (res_range sizeSmall sizeB (\<lambda>i (ofl, v).
                 res_bind (elem_at w i) (\<lambda>q.
                 let (l, ofl) = carry_step (ucast q + ofl) in Inr (ofl, v @ [l]))) (ofl, v)) (\<lambda>(ofl, v).
               Inr (if ofl \<noteq> 0 then v @ [1] else v))
             else res_range sizeSmall sizeB (\<lambda>i v. res_bind (elem_at w i) (\<lambda>q. Inr (v @ [q]))) v) F))"

lemma AddEq_limbs_value:
  obtains r where "AddEq_limbs v w F = F r"
    "limbs_nat r = limbs_nat v + limbs_nat w"
    "length r = max (length v) (length w) \<or> length r = Suc (max (length v) (length w)) \<and> last r = 1"
proof (cases "length v > length w")
  case big: True
  then have l: "length w \<le> length v" by simp
  obtain ofl r where p: "res_range 0 (length w) (\<lambda>i (ofl, v). res_bind (elem_at v i) (\<lambda>p. res_bind (elem_at w i) (\<lambda>q.
       let (l, ofl) = carry_step (ucast p + ucast q + ofl) in res_bind (elem_set v i l) (\<lambda>v. Inr (ofl, v))))) (0, v) = Inr (ofl, r @ drop (length w) v)"
    and r: "length r = length w" "unat ofl \<le> 1" "limbs_nat r + LB ^ length w * unat ofl = limbs_nat (take (length w) v) + limbs_nat w"
    using add_pass_inplace [OF l, of w] by auto
  show thesis
  proof (cases "ofl = 0")
    case True
    have "limbs_nat (r @ drop (length w) v) = limbs_nat v + limbs_nat w"
      using r True limbs_nat_take_drop [of "length w" v] l by (simp add: limbs_nat_append min_def)
    then show thesis using that [of "r @ drop (length w) v"] p r True big by (simp add: AddEq_limbs_def)
  next
    case False
    obtain c s where q: "res_range (length w) (length v) (\<lambda>i (ofl, u). res_bind (elem_at u i) (\<lambda>p.
       let (l, ofl) = carry_step (ucast p + ofl) in res_bind (elem_set u i l) (\<lambda>u. Inr (ofl, u)))) (ofl, r @ drop (length w) v) = Inr (c, s)"
      and s: "length s = length v" "unat c \<le> 1"
      "limbs_nat s + LB ^ length v * unat c + limbs_nat (take (length w) v) = limbs_nat r + LB ^ length w * unat ofl + limbs_nat v"
      using carry_pass_inplace [OF l r(1,2)] by blast
    have "limbs_nat (if c \<noteq> 0 then s @ [1] else s) = limbs_nat v + limbs_nat w" using s r by (simp only: last_carry [OF s(2)])
    then show thesis using that [of "if c \<noteq> 0 then s @ [1] else s"] p q s False big by (simp add: AddEq_limbs_def max_def)
  qed
next
  case small: False
  then have l: "length v \<le> length w" and m: "(if length v < length w then length v else length w) = length v" by simp_all
  obtain ofl r where p: "res_range 0 (length v) (\<lambda>i (ofl, v). res_bind (elem_at v i) (\<lambda>p. res_bind (elem_at w i) (\<lambda>q.
       let (l, ofl) = carry_step (ucast p + ucast q + ofl) in res_bind (elem_set v i l) (\<lambda>v. Inr (ofl, v))))) (0, v) = Inr (ofl, r)"
    and r: "length r = length v" "unat ofl \<le> 1" "limbs_nat r + LB ^ length v * unat ofl = limbs_nat v + limbs_nat (take (length v) w)"
    using add_pass_inplace [OF order_refl l] by auto
  show thesis
  proof (cases "ofl = 0")
    case True
    have "limbs_nat (r @ drop (length v) w) = limbs_nat v + limbs_nat w"
      using r True limbs_nat_take_drop [of "length v" w] l by (simp add: limbs_nat_append min_def)
    then show thesis using that [of "r @ drop (length v) w"] p r True small l unfolding AddEq_limbs_def m Let_def by (simp add: copy_pass max_def)
  next
    case False
    obtain c s where q: "res_range (length v) (length w) (\<lambda>i (ofl, r). res_bind (elem_at w i) (\<lambda>p.
       let (l, ofl) = carry_step (ucast p + ofl) in Inr (ofl, r @ [l]))) (ofl, r) = Inr (c, s)"
      and s: "length s = length w" "unat c \<le> 1"
      "limbs_nat s + LB ^ length w * unat c + limbs_nat (take (length v) w) = limbs_nat r + LB ^ length v * unat ofl + limbs_nat w"
      using carry_pass [OF l r(1,2)] by blast
    have "limbs_nat (if c \<noteq> 0 then s @ [1] else s) = limbs_nat v + limbs_nat w" using s r by (simp only: last_carry [OF s(2)])
    then show thesis using that [of "if c \<noteq> 0 then s @ [1] else s"] p q s False small l unfolding AddEq_limbs_def m Let_def by (simp add: max_def)
  qed
qed

lemma BI_AddEq_raw:
  assumes "msb_set x" "msb_set b"
  obtains c where "BI_AddEq x b = Inr c" "msb_set c" "ub_nat c = ub_nat x + ub_nat b"
    "length (ub_value c) = max (length (ub_value x)) (length (ub_value b)) \<or>
     length (ub_value c) = Suc (max (length (ub_value x)) (length (ub_value b))) \<and> last (ub_value c) = 1"
proof -
  have g: "ub_state x = INITIALIZED" "ub_state b = INITIALIZED" using assms by (auto simp: msb_set_def)
  have ne: "ub_value x \<noteq> []" "ub_value b \<noteq> []" using assms by (auto simp: msb_set_def)
  consider "ub_MSB b = 0" | "ub_MSB b \<noteq> 0" "ub_MSB x = 0" | "ub_MSB b \<noteq> 0" "ub_MSB x \<noteq> 0" by blast
  then show thesis
  proof cases
    case 1
    then show thesis using that [of x] msb_set_zero [OF assms(2) 1] g assms ne by (cases "ub_value x") (auto simp: BI_AddEq_def ub_nat_def)
  next
    case 2
    then show thesis using that [of b] msb_set_zero [OF assms(1) 2(2)] g assms ne by (cases "ub_value b") (auto simp: BI_AddEq_def ub_nat_def)
  next
    case 3
    have "BI_AddEq x b = AddEq_limbs (ub_value x) (ub_value b) (\<lambda>v. SetMSB (x\<lparr>ub_value := v\<rparr>))"
      unfolding BI_AddEq_def AddEq_limbs_def using 3 g by (simp only: ub_State.distinct simp_thms if_False)
    then obtain r where r: "BI_AddEq x b = SetMSB (x\<lparr>ub_value := r\<rparr>)" "limbs_nat r = limbs_nat (ub_value x) + limbs_nat (ub_value b)"
      "length r = max (length (ub_value x)) (length (ub_value b)) \<or> length r = Suc (max (length (ub_value x)) (length (ub_value b))) \<and> last r = 1"
      using AddEq_limbs_value [of "ub_value x" "ub_value b" "\<lambda>v. SetMSB (x\<lparr>ub_value := v\<rparr>)"] by metis
    have "r \<noteq> []" using r(3) ne by (cases "ub_value x"; cases "ub_value b") auto
    then show thesis using SetMSB_raw [of "x\<lparr>ub_value := r\<rparr>"] r g that by (auto simp: ub_nat_def)
  qed
qed

lemma BI_AddEq_of: "BI_AddEq (ub_of a) (ub_of b) = Inr (ub_of (a + b))"
proof -
  obtain c where c: "BI_AddEq (ub_of a) (ub_of b) = Inr c" "msb_set c" "ub_nat c = a + b"
    "length (ub_value c) = max (length (nat_limbs a)) (length (nat_limbs b)) \<or>
     length (ub_value c) = Suc (max (length (nat_limbs a)) (length (nat_limbs b))) \<and> last (ub_value c) = 1"
    using BI_AddEq_raw [of "ub_of a" "ub_of b"] by auto
  have n: "limbs_nat (ub_value c) = a + b" "ub_value c \<noteq> []" using c(2,3) by (simp_all add: ub_nat_def msb_set_def)
  have "normalized (ub_value c)"
  proof (cases "length (nat_limbs b) \<le> length (nat_limbs a)")
    case True
    then have "length (ub_value c) = length (nat_limbs a) \<or> last (ub_value c) = 1" using c(4) by (auto simp: max_def)
    then show ?thesis by (rule sum_normalized [OF normalized_nat_limbs True, rotated]) (simp_all add: n)
  next
    case False
    then have l: "length (nat_limbs a) \<le> length (nat_limbs b)" by simp
    have "length (ub_value c) = length (nat_limbs b) \<or> last (ub_value c) = 1" using c(4) False by (auto simp: max_def)
    then show ?thesis by (rule sum_normalized [OF normalized_nat_limbs l, rotated]) (simp_all add: n)
  qed
  then show ?thesis using c(1) msb_set_normalized [OF c(2)] c(3) by simp
qed

section \<open>Subtraction\<close>

declare borrow.simps [simp del]

lemma borrow_value:
  assumes "0 < limbs_nat (drop cntr v)"
  shows "\<exists>u. borrow v cntr = Inr u \<and> length u = length v \<and> take cntr u = take cntr v \<and> limbs_nat u + LB ^ cntr = limbs_nat v"
  using assms
proof (induction v cntr rule: borrow.induct)
  case (1 v cntr)
  have l: "cntr < length v" using "1.prems" by (cases "cntr < length v") auto
  have d: "drop cntr v = v ! cntr # drop (Suc cntr) v" using l by (simp add: Cons_nth_drop_Suc)
  show ?case
  proof (cases "v ! cntr = 0")
    case True
    have "0 < limbs_nat (drop (cntr + 1) (v[cntr := m_MaxLimb]))" using "1.prems" True d by simp
    with "1.IH" l True obtain u where u: "borrow (v[cntr := m_MaxLimb]) (cntr + 1) = Inr u" "length u = length v"
      "take (Suc cntr) u = take (Suc cntr) (v[cntr := m_MaxLimb])" "limbs_nat u + LB ^ Suc cntr = limbs_nat (v[cntr := m_MaxLimb])" by auto
    have "take cntr (take (Suc cntr) u) = take cntr (take (Suc cntr) (v[cntr := m_MaxLimb]))" using u(3) by simp
    then have t: "take cntr u = take cntr v" by simp
    have "limbs_nat u + LB ^ Suc cntr = limbs_nat v + LB ^ cntr * 4294967295"
      using u(4) limbs_nat_update [OF l, of m_MaxLimb] True by (simp add: m_MaxLimb_def)
    then have "limbs_nat u + LB ^ cntr = limbs_nat v" by simp
    then show ?thesis using u t l True by (subst borrow.simps) simp
  next
    case False
    then have "unat (v ! cntr) = Suc (unat (v ! cntr - 1))" by (simp add: unat_minus_one word_ge_0_nat)
    then have "limbs_nat (v[cntr := v ! cntr - 1]) + LB ^ cntr = limbs_nat v"
      using limbs_nat_update [OF l, of "v ! cntr - 1"] by simp
    then show ?thesis using l False by (subst borrow.simps) simp
  qed
qed

lemma sub_limb_value:
  assumes i: "i < length w" "length w \<le> length u" and le: "limbs_nat (take (Suc i) w) \<le> limbs_nat u + limbs_nat (take i w)"
    and high: "limbs_nat w \<le> limbs_nat u + limbs_nat (take i w)"
  shows "\<exists>u'. sub_limb w i u = Inr u' \<and> length u' = length u \<and> limbs_nat u' + LB ^ i * unat (w ! i) = limbs_nat u"
proof (cases "u ! i < w ! i")
  case False
  then have "w ! i \<le> u ! i" by simp
  from unat_sub_nowrap [OF this] this have "unat (u ! i - w ! i) + unat (w ! i) = unat (u ! i)" by (simp add: word_le_nat_alt)
  then have "LB ^ i * unat (u ! i) = LB ^ i * unat (u ! i - w ! i) + LB ^ i * unat (w ! i)" by (metis distrib_left)
  then have "limbs_nat (u[i := u ! i - w ! i]) + LB ^ i * unat (w ! i) = limbs_nat u"
    using limbs_nat_update [of i u "u ! i - w ! i"] i by simp
  then show ?thesis using False i by (simp add: sub_limb_def elem_at_nth elem_set_update)
next
  case True
  have lu: "i < length u" using i by simp
  have pos: "0 < limbs_nat (drop (Suc i) u)"
  proof (rule ccontr)
    assume "\<not> 0 < limbs_nat (drop (Suc i) u)"
    then have "limbs_nat u = limbs_nat (take (Suc i) u)" using limbs_nat_take_drop [of "Suc i" u] by simp
    also have "\<dots> < LB ^ i * unat (w ! i)"
    proof -
      have "limbs_nat (take i u) + LB ^ i * unat (u ! i) < 0 + LB ^ i * unat (w ! i)"
        using limbs_nat_less [of "take i u"] lu True by (intro high_limb_less) (simp_all add: min_def word_less_nat_alt)
      then show ?thesis using lu by (simp add: limbs_nat_take_Suc)
    qed
    finally show False using le i by (simp add: limbs_nat_take_Suc)
  qed
  then have "Suc i < length u" by (cases "Suc i < length u") auto
  from borrow_value [OF pos] obtain b where b: "borrow u (Suc i) = Inr b" "length b = length u" "take (Suc i) b = take (Suc i) u"
    "limbs_nat b + LB ^ Suc i = limbs_nat u" by auto
  have n: "b ! i = u ! i" using nth_take [of i "Suc i" b] nth_take [of i "Suc i" u] b(3) by simp
  let ?x = "u ! i + (m_MaxLimb - w ! i) + 1"
  have e: "?x = u ! i - w ! i" by (simp add: m_MaxLimb_def)
  have "uint (u ! i - w ! i) = uint (u ! i) - uint (w ! i) + 4294967296"
    using True by (simp add: uint_sub_if' word_le_def not_le word_less_def)
  then have "int (unat ?x) + int (unat (w ! i)) = int (unat (u ! i)) + 4294967296" unfolding e by simp
  then have x: "unat ?x + unat (w ! i) = unat (u ! i) + LB" by linarith
  have "LB ^ i * unat ?x + LB ^ i * unat (w ! i) = LB ^ i * unat (u ! i) + LB ^ Suc i"
    using arg_cong [OF x, of "\<lambda>z. LB ^ i * z"] by (simp only: distrib_left power_Suc2)
  then have "limbs_nat (b[i := ?x]) + LB ^ i * unat (w ! i) = limbs_nat u"
    using limbs_nat_update [of i b ?x] b lu n by simp
  moreover have "sub_limb w i u = Inr (b[i := ?x])"
    using True i lu b n \<open>Suc i < length u\<close> by (simp add: sub_limb_def elem_at_nth elem_set_update)
  ultimately show ?thesis using b by auto
qed

lemma sub_limbs_value:
  assumes "length w \<le> length v" "limbs_nat w \<le> limbs_nat v"
  obtains u where "res_range 0 (length w) (sub_limb w) v = Inr u" "length u = length v" "limbs_nat u = limbs_nat v - limbs_nat w"
proof -
  have "\<exists>u. res_range 0 (length w) (sub_limb w) v = Inr u \<and> length u = length v \<and> limbs_nat u + limbs_nat (take (length w) w) = limbs_nat v"
  proof (rule res_range_invariant [where P = "\<lambda>i u. length u = length v \<and> limbs_nat u + limbs_nat (take i w) = limbs_nat v"])
    fix i u
    assume i: "i < length w" and u: "length u = length v \<and> limbs_nat u + limbs_nat (take i w) = limbs_nat v"
    have "limbs_nat (take (Suc i) w) \<le> limbs_nat w" using limbs_nat_take_drop [of "Suc i" w] by linarith
    then obtain t where "sub_limb w i u = Inr t" "length t = length u" "limbs_nat t + LB ^ i * unat (w ! i) = limbs_nat u"
      using sub_limb_value [of i w u] i u assms by auto
    then show "\<exists>t. sub_limb w i u = Inr t \<and> length t = length v \<and> limbs_nat t + limbs_nat (take (Suc i) w) = limbs_nat v"
      using u i by (simp add: limbs_nat_take_Suc)
  qed simp_all
  then show thesis using that by auto
qed

lemma length_nat_limbs_mono: "a \<le> b \<Longrightarrow> length (nat_limbs a) \<le> length (nat_limbs b)"
  using limbs_nat_less [of "nat_limbs b"] by (subst length_nat_limbs_le) auto

lemma sub_of:
  assumes "b < a"
  shows "res_bind (res_range 0 (length (nat_limbs b)) (sub_limb (nat_limbs b)) (nat_limbs a)) (\<lambda>v.
    res_bind (NormalizeLimbs ((ub_of a)\<lparr>ub_value := v\<rparr>)) SetMSB) = Inr (ub_of (a - b))"
proof -
  obtain u where u: "res_range 0 (length (nat_limbs b)) (sub_limb (nat_limbs b)) (nat_limbs a) = Inr u"
    "length u = length (nat_limbs a)" "limbs_nat u = a - b"
    using sub_limbs_value [OF length_nat_limbs_mono [of b a]] assms by auto
  then have "u \<noteq> []" by auto
  then show ?thesis using u NormalizeLimbs_SetMSB [of u] by (simp add: ub_of_def del: res_bind_eq_Inr)
qed

lemma BI_Sub_of: "BI_Sub (ub_of a) (ub_of b) = Inr (ub_of (a - b))"
  using sub_of [of b a] by (simp add: BI_Sub_def del: res_bind_eq_Inr)

lemma BI_SubEq_of: "BI_SubEq (ub_of a) (ub_of b) = Inr (ub_of (a - b))"
  using sub_of [of b a] by (simp add: BI_SubEq_def del: res_bind_eq_Inr)

section \<open>Multiplication\<close>

lemma limb_product_bound: "unat (x :: usint) * unat (y :: usint) + unat (z :: usint) < 18446744073709551616"
proof -
  have "unat x * unat y \<le> 4294967295 * 4294967295" using unat_lt_32 [of x] unat_lt_32 [of y] by (intro mult_mono) auto
  then show ?thesis using unat_lt_32 [of z] by simp
qed

lemma mul_row_value: "limbs_nat (mul_row v (ucast limb) ofl) = limbs_nat v * unat (limb :: usint) + unat ofl"
proof (induction v arbitrary: ofl)
  case (Cons x v)
  let ?t = "ucast x * ucast limb + ucast ofl :: NativeInt"
  have t: "unat ?t = unat x * unat limb + unat ofl"
    using limb_product_bound [of x limb ofl] by (simp add: unat_word_ariths)
  have "unat (ucast (drop_bit 32 ?t) :: usint) = unat ?t div LB"
    using unat_lt_64 [of ?t] by (simp add: unat_ucast_64_32 unat_drop_bit)
  then have "limbs_nat (mul_row (x # v) (ucast limb) ofl) = unat ?t mod LB + LB * (limbs_nat v * unat limb + unat ?t div LB)"
    by (simp add: Let_def m_limbBitLength_def unat_ucast_64_32 Cons.IH)
  also have "\<dots> = unat ?t + LB * (limbs_nat v * unat limb)" by simp
  also have "\<dots> = limbs_nat (x # v) * unat limb + unat ofl" unfolding t by (simp add: algebra_simps)
  finally show ?case .
qed simp

lemma mul_row_length: "length (mul_row v limbb ofl) = length v \<or> length (mul_row v limbb ofl) = Suc (length v) \<and> last (mul_row v limbb ofl) \<noteq> 0"
proof (induction v arbitrary: ofl)
  case (Cons x v)
  show ?case using Cons.IH [of "ucast (drop_bit m_limbBitLength (ucast x * limbb + ucast ofl))"]
    by (cases "mul_row v limbb (ucast (drop_bit m_limbBitLength (ucast x * limbb + ucast ofl)))") (simp_all add: Let_def)
qed simp

lemma mul_row_normalized:
  assumes "normalized v" "0 < limbs_nat v" "(limb :: usint) \<noteq> 0"
  shows "normalized (mul_row v (ucast limb) 0)"
proof -
  have v: "v \<noteq> []" using assms(1) by (simp add: normalized_def)
  then have ne: "mul_row v (ucast limb) 0 \<noteq> []" by (cases v) (simp_all add: Let_def)
  have "limbs_nat v * 1 \<le> limbs_nat v * unat limb" using assms(3) word_ge_0_nat [of limb] by (intro mult_le_mono2) simp
  then have "limbs_nat v \<le> limbs_nat (mul_row v (ucast limb) 0)" unfolding mul_row_value by linarith
  then show ?thesis
    using mul_row_length [of v "ucast limb" 0] normalized_iff [OF ne] normalized_iff [OF v] assms(1) ne
    by (elim disjE) (auto simp: normalized_def [of "mul_row v (ucast limb) 0"])
qed

lemma normalized_top: "normalized v \<Longrightarrow> 0 < limbs_nat v \<Longrightarrow> last v \<noteq> 0"
proof
  assume v: "normalized v" "0 < limbs_nat v" "last v = 0"
  then obtain x where "v = [x]" by (auto simp: normalized_def length_Suc_conv)
  then show False using v by simp
qed

lemma mul_shifted_value:
  assumes "v \<noteq> []"
  obtains t where "mul_shifted v i limb = Inr t" "msb_set t" "ub_value t = replicate i 0 @ mul_row v (ucast limb) 0"
    "ub_nat t = LB ^ i * (limbs_nat v * unat limb)"
proof -
  have "mul_row v (ucast limb) 0 \<noteq> []" using assms by (cases v) (simp_all add: Let_def)
  then show thesis using that SetMSB_raw [of "\<lparr>ub_value = replicate i 0 @ mul_row v (ucast limb) 0, ub_MSB = 0, ub_state = INITIALIZED\<rparr>"]
    by (auto simp: mul_shifted_def ub_nat_def limbs_nat_append mul_row_value)
qed

text \<open>What holds of the sum \<open>ans\<close> after the limbs below \<open>i\<close>; it may have zero limbs at the top, but no more limbs than the pass adds.\<close>

definition mul_inv :: "usint list \<Rightarrow> usint list \<Rightarrow> nat \<Rightarrow> ubint \<Rightarrow> bool" where
  "mul_inv v w i ans \<longleftrightarrow> msb_set ans \<and> ub_nat ans = limbs_nat v * limbs_nat (take i w) \<and> length (ub_value ans) \<le> length v + i"

lemma mul_step:
  assumes v: "v \<noteq> []" and i: "i < length w" and inv: "mul_inv v w i ans"
  obtains t r where "mul_shifted v i (w ! i) = Inr t" "BI_AddEq ans t = Inr r" "mul_inv v w (Suc i) r"
    "normalized v \<Longrightarrow> 0 < limbs_nat v \<Longrightarrow> w ! i \<noteq> 0 \<Longrightarrow> normalized (ub_value r)"
proof -
  obtain t where t: "mul_shifted v i (w ! i) = Inr t" "msb_set t" "ub_value t = replicate i 0 @ mul_row v (ucast (w ! i)) 0"
    "ub_nat t = LB ^ i * (limbs_nat v * unat (w ! i))" using mul_shifted_value [OF v] by blast
  have a: "msb_set ans" "ub_nat ans = limbs_nat v * limbs_nat (take i w)" "length (ub_value ans) \<le> length v + i"
    using inv by (simp_all add: mul_inv_def)
  obtain r where r: "BI_AddEq ans t = Inr r" "msb_set r" "ub_nat r = ub_nat ans + ub_nat t"
    and lr: "length (ub_value r) = max (length (ub_value ans)) (length (ub_value t)) \<or>
     length (ub_value r) = Suc (max (length (ub_value ans)) (length (ub_value t))) \<and> last (ub_value r) = 1"
    using BI_AddEq_raw [OF a(1) t(2)] by blast
  have ne: "ub_value r \<noteq> []" using r(2) by (simp add: msb_set_def)
  have m: "length (ub_value t) = i + length v \<or> length (ub_value t) = Suc (i + length v) \<and> last (ub_value t) \<noteq> 0"
    using mul_row_length [of v "ucast (w ! i)" 0] v by (auto simp: t(3) last_append)
  then have tl: "length (ub_value ans) \<le> length (ub_value t)" using a(3) by auto
  have val: "ub_nat r = limbs_nat v * limbs_nat (take (Suc i) w)"
    by (simp add: r(3) a(2) t(4) limbs_nat_take_Suc [OF i] algebra_simps)
  have "limbs_nat (take (Suc i) w) < LB ^ Suc i" using limbs_nat_less [of "take (Suc i) w"] i by (simp add: min_absorb2 del: power_Suc)
  then have "limbs_nat v * limbs_nat (take (Suc i) w) < LB ^ length v * LB ^ Suc i"
    using limbs_nat_less [of v] by (intro mult_strict_mono) (simp_all del: power_Suc)
  then have bound: "ub_nat r < LB ^ (length v + Suc i)" unfolding val by (simp only: power_add)
  have "length (ub_value r) \<le> length v + Suc i"
  proof (cases "length (ub_value r) = max (length (ub_value ans)) (length (ub_value t))")
    case True
    then show ?thesis using tl m by auto
  next
    case False
    then have "LB ^ (length (ub_value r) - 1) \<le> ub_nat r" using lr limbs_nat_lower [OF ne] by (simp add: ub_nat_def)
    then have "LB ^ (length (ub_value r) - 1) < LB ^ (length v + Suc i)" using bound by (rule le_less_trans)
    then have "length (ub_value r) - 1 < length v + Suc i" by (rule power_less_imp_less_exp [rotated]) simp
    then show ?thesis by simp
  qed
  then have "mul_inv v w (Suc i) r" using r val by (simp add: mul_inv_def)
  moreover have "normalized (ub_value r)" if n: "normalized v" "0 < limbs_nat v" "w ! i \<noteq> 0"
  proof (rule sum_normalized)
    have "normalized (mul_row v (ucast (w ! i)) 0)" by (rule mul_row_normalized [OF n])
    moreover have "0 < limbs_nat (mul_row v (ucast (w ! i)) 0)" using n by (simp add: mul_row_value word_ge_0_nat)
    ultimately have "last (mul_row v (ucast (w ! i)) 0) \<noteq> 0" "mul_row v (ucast (w ! i)) 0 \<noteq> []"
      using normalized_top by (auto simp: normalized_def)
    then show "normalized (ub_value t)" by (simp add: t(3) normalized_def)
    show "length (ub_value ans) \<le> length (ub_value t)" by (rule tl)
    show "limbs_nat (ub_value r) = limbs_nat (ub_value t) + limbs_nat (ub_value ans)" using r(3) by (simp add: ub_nat_def)
    show "length (ub_value r) = length (ub_value t) \<or> last (ub_value r) = 1" using lr tl by auto
  qed (rule ne)
  ultimately show thesis by (rule that [OF t(1) r(1)])
qed

lemma mul_loop:
  assumes v: "normalized v" "0 < limbs_nat v" and w: "normalized w" "0 < limbs_nat w"
  shows "res_range 0 (length w) (\<lambda>i ans. res_bind (elem_at w i) (\<lambda>limb. res_bind (mul_shifted v i limb) (BI_AddEq ans))) (ub_of 0)
    = Inr (ub_of (limbs_nat v * limbs_nat w))"
proof -
  let ?P = "\<lambda>i ans. mul_inv v w i ans \<and> (i = length w \<longrightarrow> normalized (ub_value ans))"
  have vn: "v \<noteq> []" and wn: "w \<noteq> []" using v(1) w(1) by (auto simp: normalized_def)
  have top: "w ! (length w - 1) \<noteq> 0" using normalized_top [OF w] wn by (simp add: last_conv_nth)
  have "\<exists>r. res_range 0 (length w) (\<lambda>i ans. res_bind (elem_at w i) (\<lambda>limb. res_bind (mul_shifted v i limb) (BI_AddEq ans))) (ub_of 0) = Inr r \<and> ?P (length w) r"
  proof (rule res_range_invariant [where P = ?P])
    have "Suc 0 \<le> length v" using vn by (cases v) auto
    then show "?P 0 (ub_of 0)" using wn by (simp add: mul_inv_def)
    fix i ans
    assume i: "i < length w" and P: "?P i ans"
    then obtain t r where s: "mul_shifted v i (w ! i) = Inr t" "BI_AddEq ans t = Inr r" "mul_inv v w (Suc i) r"
      "normalized v \<Longrightarrow> 0 < limbs_nat v \<Longrightarrow> w ! i \<noteq> 0 \<Longrightarrow> normalized (ub_value r)" using mul_step [OF vn i] by blast
    have "normalized (ub_value r)" if "Suc i = length w" using s(4) [OF v] top that by (metis diff_Suc_1)
    then show "\<exists>r. res_bind (elem_at w i) (\<lambda>limb. res_bind (mul_shifted v i limb) (BI_AddEq ans)) = Inr r \<and> ?P (Suc i) r"
      using s i by (simp add: elem_at_nth)
  qed simp
  then obtain r where "res_range 0 (length w) (\<lambda>i ans. res_bind (elem_at w i) (\<lambda>limb. res_bind (mul_shifted v i limb) (BI_AddEq ans))) (ub_of 0) = Inr r"
    "msb_set r" "ub_nat r = limbs_nat v * limbs_nat w" "normalized (ub_value r)" by (auto simp: mul_inv_def)
  then show ?thesis using msb_set_normalized [of r] by simp
qed

lemma BI_Mul_of: "BI_Mul (ub_of a) (ub_of b) = Inr (ub_of (a * b))"
proof -
  consider "a = 0" | "b = 0" | "a > 0" "b > 0" "nbits b = 1" | "a > 0" "b > 0" "nbits b \<noteq> 1" "nbits a = 1" | "a > 0" "b > 0" "nbits b \<noteq> 1" "nbits a \<noteq> 1" by blast
  then show ?thesis
  proof cases
    case 5
    then show ?thesis using mul_loop [of "nat_limbs a" "nat_limbs b"] by (simp add: BI_Mul_def del: res_bind_eq_Inr)
  next
    case 3
    then show ?thesis using nbits_eq_1 [of b] by (simp add: BI_Mul_def)
  next
    case 4
    then show ?thesis using nbits_eq_1 [of a] by (simp add: BI_Mul_def)
  qed (simp_all add: BI_Mul_def)
qed

lemma BI_MulEq_of: "BI_MulEq (ub_of a) (ub_of b) = Inr (ub_of (a * b))"
  by (simp add: BI_MulEq_def BI_Mul_of)

lemma MulIntegerByLimb_of: "MulIntegerByLimb (ub_of a) b = Inr (ub_of (a * unat b))"
proof (cases "b = 0 \<or> a = 0")
  case False
  then have "normalized (mul_row (nat_limbs a) (ucast b) 0)" by (intro mul_row_normalized) auto
  then show ?thesis using False SetMSB_normalized by (simp add: MulIntegerByLimb_def mul_row_value)
qed (auto simp: MulIntegerByLimb_def)

declare BI_Exp.simps [simp del]

lemma BI_Exp_of: "BI_Exp (ub_of a) p = Inr (ub_of (a ^ p))"
proof (induction "ub_of a" p rule: BI_Exp.induct)
  case (1 p)
  have h: "a ^ p = a ^ (p div 2) * a ^ (p div 2) * (if p mod 2 = 0 then 1 else a)"
  proof -
    have "p = p div 2 + p div 2 + p mod 2" by presburger
    then have "a ^ p = a ^ (p div 2) * a ^ (p div 2) * a ^ (p mod 2)" by (metis power_add)
    then show ?thesis by (cases "p mod 2 = 0") (auto simp: mod_2_eq_odd)
  qed
  show ?case
  proof (cases "p = 0 \<or> p = 1")
    case False
    then have "BI_Exp (ub_of a) (p div 2) = Inr (ub_of (a ^ (p div 2)))" using 1 by auto
    then show ?thesis using False by (subst BI_Exp.simps, subst h) (simp add: BI_Mul_of del: res_bind_eq_Inr)
  next
    case True
    then show ?thesis by (elim disjE) (simp_all add: BI_Exp.simps [of "ub_of a" 0] BI_Exp.simps [of "ub_of a" "Suc 0"])
  qed
qed

lemma BI_ExpEq_of: "BI_ExpEq (ub_of a) p = Inr (ub_of (a ^ p))"
proof -
  have "BI_ExpEq (ub_of a) p = BI_Exp (ub_of a) p"
    by (subst BI_Exp.simps) (auto simp: BI_ExpEq_def BI_Exp_of BI_Mul_of BI_MulEq_of mult.commute)
  then show ?thesis by (simp add: BI_Exp_of)
qed

section \<open>Shifts\<close>

lemma shift_parts: "shiftByLimb s = unat s div 32" "remainingShift s = unat s mod 32"
proof -
  show "shiftByLimb s = unat s div 32" by (simp add: shiftByLimb_def m_log2LimbBitLength_def unat_drop_bit)
  have "s AND 31 = take_bit 5 s" by (simp add: take_bit_eq_mask mask_eq_exp_minus_1)
  then have "s AND 31 = s mod 32" by (simp add: take_bit_eq_mod)
  then show "remainingShift s = unat s mod 32" by (simp add: remainingShift_def m_limbBitLength_def unat_mod_distrib)
qed

lemma unat_push_bit_nowrap: "unat x * 2 ^ s < 2 ^ LENGTH('a) \<Longrightarrow> unat (push_bit s (x :: 'a::len word)) = unat x * 2 ^ s"
  by (subst unsigned_push_bit_eq) (simp add: take_bit_eq_mod push_bit_eq_mult)

lemma lshift_limb:
  fixes x ofl :: usint
  assumes "s < 32" "unat ofl < 2 ^ s"
  defines "t \<equiv> push_bit s (ucast x :: NativeInt)"
  shows "unat (ucast t + ofl) + LB * unat (ucast (drop_bit 32 t) :: usint) = unat x * 2 ^ s + unat ofl"
    and "unat (ucast (drop_bit 32 t) :: usint) < 2 ^ s"
proof -
  have p: "2 ^ s * 2 ^ (32 - s) = LB" using assms(1) by (simp flip: power_add)
  have "unat x * 2 ^ s < LB * 2 ^ s" using unat_lt_32 [of x] by simp
  also have "\<dots> \<le> LB * 2 ^ 32" using assms(1) by (intro mult_le_mono2 power_increasing) auto
  finally have t: "unat t = unat x * 2 ^ s" unfolding t_def by (subst unat_push_bit_nowrap) simp_all
  have m: "unat t mod LB = unat x mod 2 ^ (32 - s) * 2 ^ s" unfolding t p [symmetric] by (simp add: mult.commute)
  have "unat x mod 2 ^ (32 - s) < 2 ^ (32 - s)" by simp
  then have "Suc (unat x mod 2 ^ (32 - s)) * 2 ^ s \<le> 2 ^ (32 - s) * 2 ^ s" by (intro mult_le_mono1 Suc_leI)
  then have lt: "unat t mod LB + unat ofl < LB" using assms(2) p unfolding m by (simp add: mult.commute)
  have lo: "unat (ucast t + ofl) = unat t mod LB + unat ofl"
    using lt by (subst unat_add_nowrap) (simp_all add: unat_ucast_64_32)
  have hi: "unat (ucast (drop_bit 32 t) :: usint) = unat t div LB"
    using unat_lt_64 [of t] by (simp add: unat_ucast_64_32 unat_drop_bit)
  show "unat (ucast t + ofl) + LB * unat (ucast (drop_bit 32 t) :: usint) = unat x * 2 ^ s + unat ofl"
    unfolding lo hi t [symmetric] by simp
  show "unat (ucast (drop_bit 32 t) :: usint) < 2 ^ s" unfolding hi t
    using unat_lt_32 [of x] by (simp add: div_less_iff_less_mult mult.commute)
qed

lemma lshift_bits_value:
  assumes "0 < s" "s < 32" "v \<noteq> []"
  obtains u where "lshift_bits s (length v) v = Inr u" "limbs_nat u = limbs_nat v * 2 ^ s" "length u = length v \<or> last u \<noteq> 0" "u \<noteq> []"
proof -
  let ?f = "\<lambda>i (oFlow, v). res_bind (elem_at v i) (\<lambda>x. let temp = push_bit s (ucast x :: NativeInt)
       in res_bind (elem_set v i (ucast temp + oFlow)) (\<lambda>v. Inr (ucast (drop_bit m_limbBitLength temp), v)))"
  let ?P = "\<lambda>i (ofl :: usint, u). \<exists>r. u = r @ drop i v \<and> length r = i \<and> unat ofl < 2 ^ s \<and> limbs_nat r + LB ^ i * unat ofl = limbs_nat (take i v) * 2 ^ s"
  have "\<exists>t. res_range 0 (length v) ?f (0, v) = Inr t \<and> ?P (length v) t"
  proof (rule res_range_invariant [where P = ?P])
    fix i and t :: "usint \<times> usint list"
    assume i: "i < length v" and P: "?P i t"
    obtain ofl r where t: "t = (ofl, r @ drop i v)" and r: "length r = i" "unat ofl < 2 ^ s"
      "limbs_nat r + LB ^ i * unat ofl = limbs_nat (take i v) * 2 ^ s" using P by (cases t) auto
    have d: "drop i v = v ! i # drop (Suc i) v" using i by (simp add: Cons_nth_drop_Suc)
    define x where "x = push_bit s (ucast (v ! i) :: NativeInt)"
    define l c where "l = (ucast x + ofl :: usint)" and "c = (ucast (drop_bit 32 x) :: usint)"
    have lc: "unat l + LB * unat c = unat (v ! i) * 2 ^ s + unat ofl" "unat c < 2 ^ s"
      using lshift_limb [OF assms(2) r(2), of "v ! i"] by (simp_all add: l_def c_def x_def)
    have "limbs_nat (r @ [l]) + LB ^ Suc i * unat c = limbs_nat r + LB ^ i * (unat l + LB * unat c)"
      using r by (simp add: limbs_nat_append algebra_simps)
    also have "\<dots> = limbs_nat r + LB ^ i * unat ofl + LB ^ i * unat (v ! i) * 2 ^ s"
      by (simp only: lc) (simp only: algebra_simps)
    also have "\<dots> = limbs_nat (take (Suc i) v) * 2 ^ s" using r i by (simp add: limbs_nat_take_Suc distrib_right)
    finally have "?P (Suc i) (c, r @ l # drop (Suc i) v)" using r lc by (intro case_prodI exI [of _ "r @ [l]"]) simp
    moreover have "?f i t = Inr (c, r @ l # drop (Suc i) v)"
      using i r by (simp add: t elem_at_def elem_set_def d nth_append list_update_append l_def c_def x_def m_limbBitLength_def Let_def)
    ultimately show "\<exists>t'. ?f i t = Inr t' \<and> ?P (Suc i) t'" by blast
  qed simp_all
  then obtain ofl r where r: "res_range 0 (length v) ?f (0, v) = Inr (ofl, r)" "length r = length v" "limbs_nat r + LB ^ length v * unat ofl = limbs_nat v * 2 ^ s" by auto
  show thesis
    using r assms(3) by (intro that [of "if ofl \<noteq> 0 then r @ [ofl] else r"]) (auto simp: lshift_bits_def limbs_nat_append)
qed

lemma fold_move_up:
  assumes "n + k \<le> length u"
  shows "length (fold (\<lambda>i v. v[i + k := v ! i]) (rev [0..<n]) u) = length u \<and>
    (\<forall>j<length u. fold (\<lambda>i v. v[i + k := v ! i]) (rev [0..<n]) u ! j = (if k \<le> j \<and> j < n + k then u ! (j - k) else u ! j))"
  using assms
proof (induction n arbitrary: u)
  case (Suc n)
  have "n + k \<le> length (u[n + k := u ! n])" using Suc.prems by simp
  from Suc.IH [OF this] show ?case using Suc.prems by (auto simp: nth_list_update less_Suc_eq)
qed auto

lemma fold_clear:
  assumes "k \<le> length u"
  shows "fold (\<lambda>i v. v[i := 0]) (rev [0..<k]) u = replicate k 0 @ drop k u"
  using assms
proof (induction k arbitrary: u)
  case (Suc k)
  have "replicate k 0 @ drop k (u[k := 0]) = replicate (Suc k) 0 @ drop (Suc k) u"
    using Suc.prems by (intro nth_equalityI) (auto simp: nth_append nth_Cons' nth_list_update)
  then show ?case using Suc by simp
qed simp

lemma lshift_limbs_eq: "lshift_limbs k v = replicate k 0 @ v"
proof -
  let ?u = "v @ replicate k 0"
  have "drop k (fold (\<lambda>i v. v[i + k := v ! i]) (rev [0..<length v]) ?u) = v"
    using fold_move_up [of "length v" k ?u] by (intro nth_equalityI) (auto simp: nth_append)
  then show ?thesis using fold_move_up [of "length v" k ?u] by (simp add: lshift_limbs_def Let_def vresize_def fold_clear)
qed

lemma nbits_mult_power: "0 < n \<Longrightarrow> nbits (n * 2 ^ s) = nbits n + s"
  using nbits_shift [of n 0 s] by (simp add: mult.commute)

lemma lshift_of:
  assumes "0 < n"
  shows "res_bind (if remainingShift shift \<noteq> 0 then
      res_bind (lshift_bits (remainingShift shift) (ceilIntByUInt (nbits n)) (nat_limbs n)) (\<lambda>v.
      Inr ((ub_of n)\<lparr>ub_value := v, ub_MSB := nbits n + remainingShift shift\<rparr>)) else Inr (ub_of n)) (\<lambda>x.
    let x = (if shiftByLimb shift \<noteq> 0 then x\<lparr>ub_value := lshift_limbs (shiftByLimb shift) (ub_value x)\<rparr> else x)
    in Inr (x\<lparr>ub_MSB := ub_MSB x + shiftByLimb shift * m_limbBitLength\<rparr>)) = Inr (ub_of (n * 2 ^ unat shift))"
proof -
  define r k where "r = remainingShift shift" and "k = shiftByLimb shift"
  have rk: "r < 32" "unat shift = r + 32 * k" by (simp_all add: r_def k_def shift_parts)
  have low: "(if r \<noteq> 0 then res_bind (lshift_bits r (ceilIntByUInt (nbits n)) (nat_limbs n)) (\<lambda>v.
      Inr ((ub_of n)\<lparr>ub_value := v, ub_MSB := nbits n + r\<rparr>)) else Inr (ub_of n)) = Inr (ub_of (n * 2 ^ r))"
  proof (cases "r = 0")
    case False
    obtain u where u: "lshift_bits r (length (nat_limbs n)) (nat_limbs n) = Inr u" "limbs_nat u = n * 2 ^ r"
      "length u = length (nat_limbs n) \<or> last u \<noteq> 0" "u \<noteq> []" using lshift_bits_value [of r "nat_limbs n"] False rk by auto
    have "normalized u"
    proof (cases "last u = 0")
      case True
      then have l: "length u = length (nat_limbs n)" using u(3) by simp
      have "n * 1 \<le> n * 2 ^ r" by (intro mult_le_mono2) simp
      then show ?thesis using normalized_iff [OF u(4)] length_nat_limbs [of n] unfolding l u(2) by linarith
    qed (use u in \<open>simp add: normalized_def\<close>)
    then have "nat_limbs (n * 2 ^ r) = u" using u(2) by (intro nat_limbs_eqI)
    then show ?thesis using u False assms by (simp add: ub_of_def nbits_mult_power)
  qed simp
  have "normalized (replicate k 0 @ nat_limbs (n * 2 ^ r))" using last_nat_limbs [of "n * 2 ^ r"] assms by (simp add: normalized_def)
  then have "nat_limbs (n * 2 ^ unat shift) = replicate k 0 @ nat_limbs (n * 2 ^ r)"
    by (rule nat_limbs_eqI) (simp add: limbs_nat_append rk LB_power power_add mult.commute)
  moreover have "nbits (n * 2 ^ unat shift) = nbits (n * 2 ^ r) + k * 32" using assms by (simp add: nbits_mult_power rk(2))
  ultimately show ?thesis unfolding r_def [symmetric] k_def [symmetric] low
    by (simp add: Let_def lshift_limbs_eq ub_of_def m_limbBitLength_def)
qed

lemma BI_LShift_of: "BI_LShift (ub_of n) s = Inr (ub_of (n * 2 ^ unat s))"
  using lshift_of [of n s] by (cases "n = 0") (simp_all add: BI_LShift_def Let_def del: res_bind_eq_Inr cong: if_cong)

lemma BI_LShiftEq_of: "BI_LShiftEq (ub_of n) s = Inr (ub_of (n * 2 ^ unat s))"
  using lshift_of [of n s] by (cases "n = 0") (simp_all add: BI_LShiftEq_def Let_def del: res_bind_eq_Inr cong: if_cong)

lemma pop_limbs: "k \<le> length v \<Longrightarrow> res_range 0 k (\<lambda>_ v. vpop_back v) v = Inr (take (length v - k) v)"
proof -
  assume k: "k \<le> length v"
  have "\<exists>t. res_range 0 k (\<lambda>_ v. vpop_back v) v = Inr t \<and> t = take (length v - k) v"
  proof (rule res_range_invariant [where P = "\<lambda>i t. t = take (length v - i) v"])
    fix i t
    assume "i < k" "t = take (length v - i) v"
    then show "\<exists>t'. vpop_back t = Inr t' \<and> t' = take (length v - Suc i) v"
      using k by (auto simp: vpop_back_def butlast_take)
  qed simp_all
  then show ?thesis by simp
qed

lemma rshift_limbs_eq:
  assumes "k \<le> length v"
  shows "rshift_limbs k v = Inr (drop k v)"
proof -
  let ?u = "for_range k (length v) (\<lambda>i u. u[i - k := u ! i]) v"
  have "length ?u = length v \<and> (\<forall>j<length v. ?u ! j = (if j < length v - k then v ! (j + k) else v ! j))"
  proof (rule for_range_invariant [where P = "\<lambda>i u. length u = length v \<and> (\<forall>j<length v. u ! j = (if j < i - k then v ! (j + k) else v ! j))"])
    fix i u
    assume "k \<le> i" "i < length v" "length u = length v \<and> (\<forall>j<length v. u ! j = (if j < i - k then v ! (j + k) else v ! j))"
    then show "length (u[i - k := u ! i]) = length v \<and> (\<forall>j<length v. u[i - k := u ! i] ! j = (if j < Suc i - k then v ! (j + k) else v ! j))"
      by (auto simp: nth_list_update)
  qed (use assms in simp_all)
  then have "length ?u = length v" "take (length v - k) ?u = drop k v" by (auto intro!: nth_equalityI simp: add.commute)
  then show ?thesis using pop_limbs [of k ?u] assms by (simp add: rshift_limbs_def)
qed

lemma div_power_split:
  fixes T x c b :: nat
  assumes "p * r = LB"
  shows "(T + b * x + b * LB * c) div p = b * (x div p + r * c) + (T + b * (x mod p)) div p"
proof -
  have "p \<noteq> 0" using assms by (intro notI) simp
  have eq: "T + b * x + b * LB * c = (T + b * (x mod p)) + p * (b * (x div p + r * c))"
  proof -
    have "b * (x mod p) + b * (p * (x div p)) = b * x" unfolding distrib_left [symmetric] by simp
    then show ?thesis unfolding assms [symmetric] by (simp add: algebra_simps)
  qed
  show ?thesis unfolding eq using \<open>p \<noteq> 0\<close> by simp
qed

lemma rshift_limb:
  fixes x :: usint
  assumes "0 < s" "s < 32" "c < 2 ^ s" "unat ov = c * 2 ^ (32 - s)"
  shows "unat (drop_bit s x + ov) = unat x div 2 ^ s + 2 ^ (32 - s) * c"
    and "unat (push_bit (32 - s) (x AND (push_bit s 1 - 1))) = unat x mod 2 ^ s * 2 ^ (32 - s)"
proof -
  have p: "2 ^ s * 2 ^ (32 - s) = LB" using assms(2) by (simp flip: power_add)
  have "unat x div 2 ^ s < 2 ^ (32 - s)" using unat_lt_32 [of x] p by (simp add: div_less_iff_less_mult mult.commute)
  moreover have "(c + 1) * 2 ^ (32 - s) \<le> 2 ^ s * 2 ^ (32 - s)" using assms(3) by (intro mult_le_mono1) simp
  ultimately have "unat (drop_bit s x) + unat ov < LB" unfolding p unat_drop_bit assms(4) by simp
  then show "unat (drop_bit s x + ov) = unat x div 2 ^ s + 2 ^ (32 - s) * c"
    using assms(4) by (subst unat_add_nowrap) (simp_all add: unat_drop_bit mult.commute)
  have "x AND (push_bit s 1 - 1) = take_bit s x" by (simp add: take_bit_eq_mask mask_eq_exp_minus_1 push_bit_eq_mult)
  then have m: "unat (x AND (push_bit s 1 - 1)) = unat x mod 2 ^ s" by (simp add: unsigned_take_bit_eq flip: take_bit_eq_mod)
  have "unat x mod 2 ^ s * 2 ^ (32 - s) < 2 ^ s * 2 ^ (32 - s)" by (intro mult_strict_right_mono) simp_all
  then show "unat (push_bit (32 - s) (x AND (push_bit s 1 - 1))) = unat x mod 2 ^ s * 2 ^ (32 - s)"
    unfolding p by (subst unat_push_bit_nowrap) (simp_all only: m len_num0 len_num1 len_bit0 len_bit1, simp)
qed

lemma rshift_bits_value:
  assumes "0 < s" "s < 32" "n \<le> length v" "c < 2 ^ s" "unat ov = c * 2 ^ (32 - s)"
  shows "\<exists>u. rshift_bits s (push_bit s 1 - 1) n ov v = Inr u \<and> length u = length v \<and> drop n u = drop n v \<and> limbs_nat (take n u) = (limbs_nat (take n v) + LB ^ n * c) div 2 ^ s"
  using assms(3-)
proof (induction n arbitrary: ov v c)
  case 0
  then show ?case by simp
next
  case (Suc n)
  have p: "2 ^ s * 2 ^ (32 - s) = LB" using assms(2) by (simp flip: power_add)
  let ?y = "drop_bit s (v ! n) + ov" and ?ov = "push_bit (32 - s) (v ! n AND (push_bit s 1 - 1))"
  have y: "unat ?y = unat (v ! n) div 2 ^ s + 2 ^ (32 - s) * c" and o: "unat ?ov = unat (v ! n) mod 2 ^ s * 2 ^ (32 - s)"
    using rshift_limb [OF assms(1,2) Suc.prems(2,3)] by blast+
  have "n \<le> length (v[n := ?y])" using Suc.prems(1) by simp
  from Suc.IH [OF this _ o] obtain u where u: "rshift_bits s (push_bit s 1 - 1) n ?ov (v[n := ?y]) = Inr u" "length u = length v" "drop n u = drop n (v[n := ?y])"
    "limbs_nat (take n u) = (limbs_nat (take n v) + LB ^ n * (unat (v ! n) mod 2 ^ s)) div 2 ^ s" by auto
  have un: "u ! n = ?y" "drop (Suc n) u = drop (Suc n) v"
    using u(2,3) Suc.prems(1) by (auto simp: Cons_nth_drop_Suc [symmetric, of n u] Cons_nth_drop_Suc [symmetric, of n "v[n := ?y]"])
  have "limbs_nat (take (Suc n) u) = (limbs_nat (take n v) + LB ^ n * unat (v ! n) + LB ^ n * LB * c) div 2 ^ s"
    unfolding div_power_split [OF p] using u(2,4) un(1) y Suc.prems(1) by (simp add: limbs_nat_take_Suc)
  also have "\<dots> = (limbs_nat (take (Suc n) v) + LB ^ Suc n * c) div 2 ^ s" using Suc.prems(1) by (simp add: limbs_nat_take_Suc power_Suc2 del: power_Suc)
  finally show ?case using u(1,2) un(2) Suc.prems(1) by (simp add: elem_at_nth elem_set_update m_limbBitLength_def)
qed

lemma nbits_div_power: "nbits (n div 2 ^ s) = nbits n - s"
proof (cases "n div 2 ^ s = 0")
  case True
  then show ?thesis using nbits_le_iff [of n s] by (simp add: div_eq_0_iff)
next
  case False
  have "n = n mod 2 ^ s + 2 ^ s * (n div 2 ^ s)" by simp
  then have "nbits n = s + nbits (n div 2 ^ s)" using nbits_shift [of "n div 2 ^ s" "n mod 2 ^ s" s] False by simp
  then show ?thesis by simp
qed

lemma drop_nat_limbs:
  assumes "k < length (nat_limbs n)"
  shows "drop k (nat_limbs n) = nat_limbs (n div LB ^ k)"
proof -
  have "limbs_nat (take k (nat_limbs n)) < LB ^ k" using limbs_nat_less [of "take k (nat_limbs n)"] assms by (simp add: min_absorb2)
  moreover have "n = limbs_nat (take k (nat_limbs n)) + LB ^ k * limbs_nat (drop k (nat_limbs n))"
    using limbs_nat_take_drop [of k "nat_limbs n"] assms by (simp add: min_absorb1)
  ultimately have "n div LB ^ k = limbs_nat (drop k (nat_limbs n))" by (intro div_nat_eqI) auto
  then have "limbs_nat (drop k (nat_limbs n)) = n div LB ^ k" by simp
  moreover have "normalized (drop k (nat_limbs n))"
    using normalized_nat_limbs [of n] assms by (auto simp: normalized_def last_drop)
  ultimately show ?thesis using nat_limbs_eqI by metis
qed

lemma rshift_rest_of:
  assumes "unat s < nbits n"
  shows "rshift_rest (ub_of n) s = (if unat s mod 32 = 31 then Inl int_overflow else Inr (ub_of (n div 2 ^ unat s)))"
proof -
  define k r where "k = shiftByLimb s" and "r = remainingShift s"
  have kr: "r < 32" "unat s = 32 * k + r" by (simp_all add: k_def r_def shift_parts)
  have r31: "unat s mod 32 = 31 \<longleftrightarrow> r = 31" using kr by simp
  define m where "m = n div LB ^ k"
  have "32 * k < nbits n" using assms kr by simp
  then have "LB ^ k \<le> n" by (simp add: nbits_gt_iff LB_power)
  then have kl: "k < length (nat_limbs n)" using limbs_nat_less [of "nat_limbs n"] length_nat_limbs_le [of k n] by (cases "k = 0") auto
  have s1: "(if k \<noteq> 0 then res_bind (rshift_limbs k (ub_value (ub_of n))) (\<lambda>v. Inr ((ub_of n)\<lparr>ub_value := v, ub_MSB := ub_MSB (ub_of n) - k * m_limbBitLength\<rparr>))
      else Inr (ub_of n)) = Inr (ub_of m)"
    using kl by (simp add: rshift_limbs_eq drop_nat_limbs ub_of_def m_def LB_power nbits_div_power m_limbBitLength_def mult.commute)
  have s2: "\<exists>v b. (if r \<noteq> 0 then res_bind (shift_mask r) (\<lambda>maskVal. res_bind (rshift_bits r maskVal (ceilIntByUInt (ub_MSB (ub_of m))) 0 (ub_value (ub_of m))) (\<lambda>v.
      Inr ((ub_of m)\<lparr>ub_value := v, ub_MSB := ub_MSB (ub_of m) - r\<rparr>))) else Inr (ub_of m)) = Inr \<lparr>ub_value = v, ub_MSB = b, ub_state = INITIALIZED\<rparr>
      \<and> v \<noteq> [] \<and> limbs_nat v = m div 2 ^ r" if "r \<noteq> 31"
  proof (cases "r = 0")
    case True
    then show ?thesis by (auto simp: ub_of_def)
  next
    case False
    then obtain u where "rshift_bits r (push_bit r 1 - 1) (length (nat_limbs m)) 0 (nat_limbs m) = Inr u" "length u = length (nat_limbs m)" "limbs_nat u = m div 2 ^ r"
      using rshift_bits_value [of r "length (nat_limbs m)" "nat_limbs m" 0 0] kr by auto
    moreover from this have "u \<noteq> []" by auto
    ultimately show ?thesis using False that by (simp add: ub_of_def shift_mask_def)
  qed
  have d: "n div 2 ^ unat s = m div 2 ^ r" by (simp add: m_def kr LB_power power_add div_mult2_eq)
  show ?thesis
  proof (cases "r = 31")
    case True
    then show ?thesis unfolding r31 rshift_rest_def Let_def k_def [symmetric] r_def [symmetric] s1 by (simp add: shift_mask_def)
  next
    case False
    then show ?thesis using s2 unfolding r31 d rshift_rest_def Let_def k_def [symmetric] r_def [symmetric] s1
      by (auto simp: NormalizeLimbs_SetMSB simp del: res_bind_eq_Inr)
  qed
qed

lemma BI_RShift_of:
  "BI_RShift (ub_of n) s = (if unat s < nbits n \<and> unat s mod 32 = 31 then Inl int_overflow else Inr (ub_of (n div 2 ^ unat s)))"
proof (cases "unat s < nbits n")
  case True
  then have "0 < n" by (cases "n = 0") simp_all
  then show ?thesis using True rshift_rest_of [OF True] by (simp add: BI_RShift_def)
next
  case False
  then show ?thesis using nbits_le_iff [of n "unat s"] by (simp add: BI_RShift_def)
qed

lemma rshift_limbs_zero: "1 < k \<Longrightarrow> rshift_limbs k [0] = Inl out_of_bounds"
  by (simp add: rshift_limbs_def res_range_rec [of 0 k] res_range_rec [of "Suc 0" k] vpop_back_def)

lemma rshift_rest_zero:
  "rshift_rest (ub_of 0) s = (if 64 \<le> unat s then Inl out_of_bounds else if unat s mod 32 = 31 then Inl int_overflow
     else if 32 \<le> unat s then Inl out_of_bounds else Inr (ub_of 0))"
proof -
  define k r where "k = shiftByLimb s" and "r = remainingShift s"
  have kr: "r < 32" "unat s = 32 * k + r" by (simp_all add: k_def r_def shift_parts)
  consider "k = 0" | "k = 1" | "1 < k" by linarith
  then show ?thesis
  proof cases
    case 1
    have "rshift_rest (ub_of 0) s = (if r = 31 then Inl int_overflow else res_bind (NormalizeLimbs \<lparr>ub_value = [0], ub_MSB = 0, ub_state = INITIALIZED\<rparr>) SetMSB)"
      using 1 by (simp add: rshift_rest_def k_def [symmetric] r_def [symmetric] ub_of_def ceilIntByUInt_def elem_at_def elem_set_def shift_mask_def)
    then show ?thesis using 1 kr by (simp add: NormalizeLimbs_SetMSB del: res_bind_eq_Inr)
  next
    case 2
    then show ?thesis using kr rshift_limbs_eq [of 1 "[0]"]
      by (simp add: rshift_rest_def k_def [symmetric] r_def [symmetric] ceilIntByUInt_def elem_at_def NormalizeLimbs_def shift_mask_def)
  next
    case 3
    then show ?thesis using kr by (simp add: rshift_rest_def k_def [symmetric] r_def [symmetric] rshift_limbs_zero)
  qed
qed

lemma BI_RShiftEq_of:
  "BI_RShiftEq (ub_of n) s =
     (if n = 0 then Inr (ub_of 0)
      else if nbits n \<le> unat s \<and> 64 \<le> unat s then Inl out_of_bounds
      else if unat s mod 32 = 31 then Inl int_overflow
      else if nbits n \<le> unat s \<and> 32 \<le> unat s then Inl out_of_bounds
      else Inr (ub_of (n div 2 ^ unat s)))"
proof -
  consider "n = 0" | "0 < n" "nbits n \<le> unat s" | "0 < n" "unat s < nbits n" by linarith
  then show ?thesis
  proof cases
    case 2
    then have "BI_RShiftEq (ub_of n) s = rshift_rest (ub_of 0) s" "n div 2 ^ unat s = 0"
      using nbits_le_iff [of n "unat s"] by (simp_all add: BI_RShiftEq_def ub_of_def)
    then show ?thesis using 2 by (simp add: rshift_rest_zero)
  next
    case 3
    then show ?thesis by (simp add: BI_RShiftEq_def rshift_rest_of)
  qed (simp add: BI_RShiftEq_def)
qed

section \<open>Bits and conversions\<close>

lemma nth_nat_limbs:
  assumes "i < length (nat_limbs n)"
  shows "nat_limbs n ! i = of_nat (n div LB ^ i)"
proof -
  have "nat_limbs n ! i = hd (drop i (nat_limbs n))" using assms by (simp add: hd_drop_conv_nth)
  then show ?thesis using drop_nat_limbs [OF assms] by (subst (asm) (2) nat_limbs.simps) (simp split: if_splits)
qed

lemma bit_nat_limb:
  assumes "i < length (nat_limbs n)" "j < 32"
  shows "bit (nat_limbs n ! i) j \<longleftrightarrow> bit n (32 * i + j)"
proof -
  have "bit (nat_limbs n ! i) j \<longleftrightarrow> bit (n div LB ^ i) j"
    using assms by (simp add: nth_nat_limbs bit_of_nat_iff)
  also have "\<dots> \<longleftrightarrow> bit n (32 * i + j)" by (simp add: LB_power bit_drop_bit_eq add.commute flip: drop_bit_eq_div)
  finally show ?thesis .
qed

lemma bit_above_nbits: "nbits n \<le> i \<Longrightarrow> \<not> bit n i"
proof -
  assume "nbits n \<le> i"
  then have "n < 2 ^ i" by (simp flip: nbits_le_iff)
  then show ?thesis by (simp add: bit_iff_odd)
qed

lemma bmask_loop: "for_range 1 (Suc k) (\<lambda>_ bmask. push_bit 1 bmask) (1 :: usint) = push_bit k 1"
proof (induction k)
  case (Suc k)
  then show ?case by (simp add: for_range_Suc [of 1 "Suc k", simplified] flip: push_bit_push_bit)
qed simp

lemma drop_bit_mask: "drop_bit j (x AND push_bit j 1) = (of_bool (bit x j) :: 'a::len word)" if "j < LENGTH('a)"
  by (rule bit_word_eqI) (use that in \<open>auto simp: bit_simps\<close>)

lemma BI_GetBitAtIndex_of: "BI_GetBitAtIndex (ub_of n) index = Inr (of_bool (0 < index \<and> bit n (index - 1)))"
proof -
  consider "index = 0" | "nbits n < index" | "0 < index" "index \<le> nbits n" by linarith
  then show ?thesis
  proof cases
    case 1
    then show ?thesis by (simp add: BI_GetBitAtIndex_def)
  next
    case 2
    then show ?thesis using bit_above_nbits [of n "index - 1"] by (simp add: BI_GetBitAtIndex_def)
  next
    case 3
    define i j where "i = (index - 1) div 32" and "j = (index - 1) mod 32"
    have ij: "index = 32 * i + j + 1" "j < 32" using 3(1) by (simp_all add: i_def j_def)
    have c: "ceilIntByUInt index - 1 = i" using ij ceilIntByUInt_eqI [of "Suc i" index] by auto
    have b: "(if index mod 32 = 0 then 32 else index mod 32) = Suc j"
    proof (cases "j = 31")
      case True
      then have "index = 32 * Suc i" using ij by simp
      then show ?thesis using True by simp
    next
      case False
      then have "(32 * i + (j + 1)) mod 32 = j + 1" using ij(2) by simp
      then show ?thesis by (simp add: ij(1) add.assoc)
    qed
    have "32 * i < nbits n" using 3 ij by simp
    then have "LB ^ i \<le> n" by (simp add: nbits_gt_iff LB_power)
    then have l: "i < length (nat_limbs n)" using limbs_nat_less [of "nat_limbs n"] length_nat_limbs_le [of i n] by (cases "i = 0") auto
    have "drop_bit j (nat_limbs n ! i AND push_bit j 1) = of_bool (bit (nat_limbs n ! i) j)" by (rule drop_bit_mask) (simp add: ij)
    then have d: "drop_bit (Suc j - 1) (nat_limbs n ! i AND push_bit j 1) = of_bool (bit n (index - 1))"
      unfolding bit_nat_limb [OF l ij(2)] diff_Suc_1 by (simp only: ij(1) diff_add_inverse2)
    show ?thesis unfolding BI_GetBitAtIndex_def Let_def m_limbBitLength_def c b ub_of_simps elem_at_nth [OF l] res_bind.simps bmask_loop d using 3 by simp
  qed
qed

lemma isPowerOfTwo_loop_of: "isPowerOfTwo_loop (ub_of n) i = Inr (\<forall>j<i. \<not> bit n j)"
  by (induction i) (auto simp: BI_GetBitAtIndex_of less_Suc_eq)

lemma no_low_bits: "(\<forall>j<i. \<not> bit (n :: nat) j) \<longleftrightarrow> n mod 2 ^ i = 0"
proof -
  have "(\<forall>j<i. \<not> bit n j) \<longleftrightarrow> take_bit i n = 0" by (auto simp: bit_eq_iff bit_take_bit_iff)
  then show ?thesis by (simp add: take_bit_eq_mod)
qed

lemma power_of_two_iff: "0 < n \<Longrightarrow> n mod 2 ^ (nbits n - 1) = 0 \<longleftrightarrow> (\<exists>k. n = 2 ^ k)"
proof
  assume n: "0 < n" "n mod 2 ^ (nbits n - 1) = 0"
  have "nbits (n div 2 ^ (nbits n - 1)) = 1" using n by (simp add: nbits_div_power Suc_le_eq) (cases "nbits n"; simp)
  then have "n div 2 ^ (nbits n - 1) = 1" by (simp only: nbits_eq_1)
  then have "n = 2 ^ (nbits n - 1)" using n(2) div_mult_mod_eq [of n "2 ^ (nbits n - 1)"] by simp
  then show "\<exists>k. n = 2 ^ k" by blast
next
  assume "\<exists>k. n = 2 ^ k"
  then obtain k where k: "n = 2 ^ k" by blast
  then have "nbits n = Suc k" by (intro nbits_eqI) auto
  then show "n mod 2 ^ (nbits n - 1) = 0" using k by simp
qed

lemma BI_isPowerOfTwo_of: "BI_isPowerOfTwo (ub_of n) = Inr (n = 0 \<or> (\<exists>k. n = 2 ^ k))"
  using power_of_two_iff [of n] by (cases "n = 0") (simp_all add: BI_isPowerOfTwo_def isPowerOfTwo_loop_of no_low_bits)

lemma BI_ConvertToInt_of: "BI_ConvertToInt (ub_of n) = Inr (of_nat n)"
proof -
  define c where "c = min 2 (length (nat_limbs n))"
  have c: "ceilIntByUInt (if 64 > nbits n then nbits n else 64) = c"
  proof (cases "64 > nbits n")
    case True
    then have "n < LB ^ 2" using nbits_le_iff [of n 64] by simp
    then have "length (nat_limbs n) \<le> 2" using length_nat_limbs_le [of 2 n] by simp
    then show ?thesis using True by (simp add: c_def)
  next
    case False
    then have "2 ^ 32 \<le> n" using nbits_gt_iff [of 32 n] by simp
    then have "\<not> length (nat_limbs n) \<le> 1" using length_nat_limbs_le [of 1 n] by simp
    then show ?thesis using False by (simp add: c_def min_def ceilIntByUInt_def m_limbBitLength_def)
  qed
  have "\<exists>r. res_range 0 c (\<lambda>i result. res_bind (elem_at (nat_limbs n) i) (\<lambda>y. Inr (result + push_bit (32 * i) (ucast y)))) 0 = Inr r
      \<and> r = (of_nat (limbs_nat (take c (nat_limbs n))) :: NativeInt)"
  proof (rule res_range_invariant [where P = "\<lambda>i r. r = of_nat (limbs_nat (take i (nat_limbs n)))"])
    fix i and r :: NativeInt
    assume i: "i < c" and r: "r = of_nat (limbs_nat (take i (nat_limbs n)))"
    have l: "i < length (nat_limbs n)" using i by (simp add: c_def)
    have "push_bit (32 * i) (ucast (nat_limbs n ! i)) = (of_nat (LB ^ i * unat (nat_limbs n ! i)) :: NativeInt)"
      by (simp add: push_bit_eq_mult power_mult)
    then show "\<exists>r'. res_bind (elem_at (nat_limbs n) i) (\<lambda>y. Inr (r + push_bit (32 * i) (ucast y))) = Inr r' \<and> r' = of_nat (limbs_nat (take (Suc i) (nat_limbs n)))"
      using l r by (simp add: elem_at_nth limbs_nat_take_Suc)
  qed simp_all
  moreover have "of_nat (limbs_nat (take c (nat_limbs n))) = (of_nat n :: NativeInt)"
  proof (cases "length (nat_limbs n) \<le> 2")
    case False
    have z: "(of_nat (LB ^ 2) :: NativeInt) = 0" by (simp add: power2_eq_square)
    have "n = limbs_nat (take 2 (nat_limbs n)) + LB ^ 2 * limbs_nat (drop 2 (nat_limbs n))"
      using limbs_nat_take_drop [of 2 "nat_limbs n"] False by simp
    then have e: "(of_nat n :: NativeInt) = of_nat (limbs_nat (take 2 (nat_limbs n))) + of_nat (LB ^ 2) * of_nat (limbs_nat (drop 2 (nat_limbs n)))"
      by (metis of_nat_add of_nat_mult)
    show ?thesis using False unfolding e z by (simp add: c_def)
  qed (simp add: c_def)
  ultimately show ?thesis unfolding BI_ConvertToInt_def by (simp add: c m_limbBitLength_def cong: if_cong del: res_bind_eq_Inr)
qed

lemma GetMSB_nbits: "GetMSB x = nbits (unat x)"
  using GetMSB64_nbits [of x] by (simp add: GetMSB64_def)

lemma GetMSB_u128_nbits: "GetMSB_u128 u = nbits (unat u)"
proof (cases "u = 0")
  case False
  define h l where "h = (ucast (drop_bit 64 u) :: NativeInt)" and "l = (ucast u :: NativeInt)"
  have "unat u div 18446744073709551616 < 18446744073709551616" using unat_lt_128 [of u] by (simp add: div_less_iff_less_mult)
  then have hv: "unat h = unat u div 18446744073709551616" by (simp add: h_def unat_ucast_128_64_small unat_drop_bit)
  have lv: "unat l = unat u mod 18446744073709551616" by (simp add: l_def unat_ucast_128_64)
  have c: "0 < x \<Longrightarrow> x \<le> 64 \<Longrightarrow> 64 - y = x \<Longrightarrow> 128 - y = 64 + x" for x y :: nat by linarith
  show ?thesis
  proof (cases "h = 0")
    case True
    then have "unat u < 18446744073709551616" using hv by (simp add: div_eq_0_iff)
    then have "unat l = unat u" using lv by simp
    moreover from this have "l \<noteq> 0" using False by (auto simp: word_ge_0_nat)
    moreover have "GetMSB_u128 u = 64 - builtin_clzll l" using False True \<open>l \<noteq> 0\<close>
      by (simp add: GetMSB_u128_def clz_u128_def Let_def h_def [symmetric] l_def [symmetric])
    ultimately show ?thesis using GetMSB_nbits [of l] by (simp add: GetMSB_def)
  next
    case h0: False
    have "GetMSB h = 64 - builtin_clzll h" using h0 by (simp add: GetMSB_def)
    moreover have "GetMSB_u128 u = 128 - builtin_clzll h" using False h0
      by (simp add: GetMSB_u128_def clz_u128_def Let_def h_def [symmetric] l_def [symmetric])
    ultimately have "GetMSB_u128 u = 64 + nbits (unat h)" using c [OF GetMSB_bounds(1,4) [OF h0], of "builtin_clzll h"] by (simp only: GetMSB_nbits)
    moreover have "unat u = unat l + 2 ^ 64 * unat h" unfolding hv lv by simp
    moreover have "unat l < 2 ^ 64" using unat_lt_64 [of l] by simp
    ultimately show ?thesis using nbits_shift [of "unat h" "unat l" 64] h0 by (simp add: word_ge_0_nat)
  qed
qed (simp add: GetMSB_u128_def)

lemma ubint_u128_of: "ubint_u128 x = ub_of (unat x)"
proof -
  have "(if x \<le> ucast m_MaxLimb then [ucast x] else push_limbs128 (ceilIntByUInt (GetMSB_u128 x)) x) = nat_limbs (unat x)"
  proof (cases "x \<le> ucast m_MaxLimb")
    case True
    then have "unat x < LB" by (simp add: m_MaxLimb_def word_le_nat_alt)
    then show ?thesis using True by (simp add: nat_limbs_small unat_ucast_128_32 word_unat_eq_iff unat_of_nat_limb)
  next
    case False
    then show ?thesis by (simp add: GetMSB_u128_nbits limbs_nat_push128) (intro limbs_of_length; simp add: limbs_nat_push128)
  qed
  then show ?thesis unfolding ubint_u128_def Let_def ub_of_def by (simp only:) (simp add: GetMSB_u128_nbits)
qed

end
