(* ===== verification/BigDiv.thy ===== *)
theory BigDiv
  imports BigNat
begin

text \<open>
  The division of \<open>BigInt\<close>: \<open>divqr_vect\<close>, \<open>divq_vect\<close> and \<open>divr_vect\<close> of \<open>ubintdyn.cpp\<close>, Knuth's algorithm D on 32-bit limbs. The digit that is estimated from the
  leading limbs is the digit of the quotient or one more (\<open>knuth_digit\<close>), the signed 64-bit arithmetic of the multiply-and-subtract pass does not overflow
  (\<open>mulsub_limb\<close>), and the digit is corrected exactly when the borrow is negative (\<open>knuth_step_value\<close>). The division of the class, its remainder and its rounded quotient follow.
\<close>

section \<open>A divisor of one limb\<close>

lemma fold_rev_invariant:
  assumes "P n s" and step: "\<And>i t. i < n \<Longrightarrow> P (Suc i) t \<Longrightarrow> P i (f i t)"
  shows "P (0 :: nat) (fold f (rev [0..<n]) s)"
  using assms
proof (induction n arbitrary: s)
  case (Suc n)
  have "P n (f n s)" using Suc.prems by blast
  then show ?case using Suc.IH [of "f n s"] Suc.prems(2) by simp
qed simp

lemma drop_limbs: "i < length v \<Longrightarrow> limbs_nat (drop i v) = unat (v ! i) + LB * limbs_nat (drop (Suc i) v)"
  by (simp add: Cons_nth_drop_Suc [symmetric])

lemma div_digit_bound: "r < v \<Longrightarrow> (unat (x :: usint) + LB * r) div v < LB" for r v :: nat
proof -
  assume "r < v"
  then have "unat x + LB * r < LB * (r + 1)" using unat_lt_32 [of x] by simp
  also have "\<dots> \<le> LB * v" using \<open>r < v\<close> by (intro mult_le_mono2) simp
  finally show ?thesis using \<open>r < v\<close> by (simp add: div_less_iff_less_mult)
qed

lemma dlimb_base_value: "unat dlimb_base = LB"
  by (simp add: dlimb_base_def m_MaxLimb_def)

definition div_inv :: "usint \<Rightarrow> usint list \<Rightarrow> nat \<Rightarrow> usint list \<times> NativeInt \<Rightarrow> bool" where
  "div_inv v0 u i = (\<lambda>(q, k). length q = length u \<and> limbs_nat (drop i q) = limbs_nat (drop i u) div unat v0 \<and>
     unat k mod LB = limbs_nat (drop i u) mod unat v0)"

lemma div_limb_step_inv:
  assumes "v0 \<noteq> 0" "i < length u" "div_inv v0 u (Suc i) s"
  shows "div_inv v0 u i (div_limb_step v0 u i s)"
proof -
  obtain q k where s: "s = (q, k)" by fastforce
  define v D R where "v = unat v0" and "D = limbs_nat (drop (Suc i) u)" and "R = D mod v"
  have q: "length q = length u" "limbs_nat (drop (Suc i) q) = D div v" "unat k mod LB = R"
    using assms(3) by (simp_all add: s div_inv_def v_def D_def R_def)
  have v: "0 < v" "v < LB" using assms(1) unat_lt_32 [of v0] by (simp_all add: v_def word_ge_0_nat)
  then have R: "R < v" by (simp add: R_def)
  define t where "t = k * dlimb_base + ucast (u ! i)"
  have b: "(unat (u ! i) + LB * R) div v < LB" using div_digit_bound [OF R, of "u ! i"] .
  have "unat (u ! i) + LB * R < LB * (R + 1)" using unat_lt_32 [of "u ! i"] by simp
  also have "\<dots> \<le> LB * LB" using R v by (intro mult_le_mono2) simp
  finally have small: "unat (u ! i) + LB * R < 18446744073709551616" by simp
  have "unat (k * dlimb_base) = LB * R"
  proof -
    have "unat (k * dlimb_base) = unat k * LB mod (LB * LB)" by (simp add: unat_word_ariths dlimb_base_value)
    also have "\<dots> = LB * R" unfolding q(3) [symmetric] mult_mod_right by (simp only: mult.commute)
    finally show ?thesis .
  qed
  then have t: "unat t = unat (u ! i) + LB * R" using small unfolding t_def by (subst unat_add_nowrap) simp_all
  define qj where "qj = (ucast (t div ucast v0) :: usint)"
  have qj: "unat qj = (unat (u ! i) + LB * R) div v"
    using b by (simp add: qj_def unat_ucast_64_32 unat_div_distrib t v_def)
  have qv: "unat (qj * v0) = unat qj * v mod LB" by (simp add: unat_word_ariths v_def)
  have le: "unat qj * v \<le> unat t" unfolding qj t by simp
  have "ucast (qj * v0) \<le> t" using le qv by (simp add: word_le_nat_alt le_trans [OF mod_less_eq_dividend])
  then have "unat (t - ucast (qj * v0)) = unat t - unat qj * v mod LB" by (simp add: unat_sub_nowrap qv)
  then have "int (unat (t - ucast (qj * v0))) = int (unat t) - int (unat qj * v) mod int LB"
    using le by (simp add: of_nat_diff le_trans [OF mod_less_eq_dividend] zmod_int del: of_nat_mult)
  then have "int (unat (t - ucast (qj * v0))) mod int LB = (int (unat t) - int (unat qj * v)) mod int LB"
    by (simp only: mod_diff_right_eq)
  also have "\<dots> = int ((unat t - unat qj * v) mod LB)" using le by (simp only: of_nat_diff zmod_int)
  finally have "unat (t - ucast (qj * v0)) mod LB = (unat t - unat qj * v) mod LB" by (simp only: of_nat_eq_iff zmod_int [symmetric])
  also have "unat t - unat qj * v = (unat (u ! i) + LB * R) mod v" unfolding qj t by (simp add: minus_div_mult_eq_mod)
  also have "\<dots> mod LB = (unat (u ! i) + LB * R) mod v" using v by (intro mod_less less_trans [OF mod_less_divisor]) simp_all
  finally have k: "unat (t - ucast (qj * v0)) mod LB = (unat (u ! i) + LB * R) mod v" .
  have D: "limbs_nat (drop i u) = (unat (u ! i) + LB * R) + v * (LB * (D div v))"
  proof -
    have e: "R + v * (D div v) = D" by (simp add: R_def)
    have "LB * R + v * (LB * (D div v)) = LB * (R + v * (D div v))" by (simp add: algebra_simps)
    then have "LB * D = LB * R + v * (LB * (D div v))" unfolding e by simp
    then show ?thesis using drop_limbs [OF assms(2)] by (simp add: D_def)
  qed
  have "limbs_nat (drop i (q[i := qj])) = unat qj + LB * (D div v)" using assms(2) q by (simp add: drop_limbs)
  also have "\<dots> = limbs_nat (drop i u) div v" unfolding D qj using v by simp
  finally have "limbs_nat (drop i (q[i := qj])) = limbs_nat (drop i u) div v" .
  moreover have "limbs_nat (drop i u) mod v = (unat (u ! i) + LB * R) mod v" unfolding D by simp
  ultimately show ?thesis using k q by (simp add: s div_limb_step_def div_inv_def Let_def t_def [symmetric] qj_def [symmetric] v_def [symmetric])
qed

lemma div_single_value:
  assumes "v0 \<noteq> 0" "length q = length u" "div_single v0 u q = (q', k)"
  shows "length q' = length u" "limbs_nat q' = limbs_nat u div unat v0" "unat (ucast k :: usint) = limbs_nat u mod unat v0"
proof -
  have "div_inv v0 u 0 (div_single v0 u q)" unfolding div_single_def
    by (rule fold_rev_invariant) (use assms div_limb_step_inv in \<open>auto simp: div_inv_def\<close>)
  then show "length q' = length u" "limbs_nat q' = limbs_nat u div unat v0" "unat (ucast k :: usint) = limbs_nat u mod unat v0"
    using assms(3) by (simp_all add: div_inv_def unat_ucast_64_32)
qed

section \<open>Normalization\<close>

lemma nlz_stage:
  fixes x :: usint
  assumes "unat x0 * 2 ^ n = unat x" "2 ^ (32 - 2 * k) \<le> unat x" "0 < k" "k \<le> 16" "unat T = 2 ^ (32 - k) - 1"
    "(if x \<le> T then (n + k, push_bit k x) else (n, x)) = (n', x')"
  shows "unat x0 * 2 ^ n' = unat x' \<and> 2 ^ (32 - k) \<le> unat x'"
proof (cases "x \<le> T")
  case True
  then have "unat x \<le> 2 ^ (32 - k) - 1" using assms(5) by (simp add: word_le_nat_alt)
  moreover have pk: "2 ^ (32 - k) * 2 ^ k = LB" using assms(4) by (simp flip: power_add)
  ultimately have "unat x * 2 ^ k < 2 ^ (32 - k) * 2 ^ k" by (intro mult_strict_right_mono) (simp_all add: le_eq_less_or_eq less_diff_conv2, auto simp: less_eq_Suc_le)
  then have p: "unat (push_bit k x) = unat x * 2 ^ k" unfolding pk by (intro unat_push_bit_nowrap) simp
  have "2 ^ (32 - 2 * k) * 2 ^ k \<le> unat x * 2 ^ k" using assms(2) by (intro mult_le_mono1)
  moreover have "2 ^ (32 - 2 * k) * 2 ^ k = (2 :: nat) ^ (32 - k)" using assms(4) by (simp flip: power_add)
  ultimately show ?thesis using True assms(6) p by (auto simp: power_add mult.assoc [symmetric] assms(1))
next
  case False
  then have "2 ^ (32 - k) - 1 < unat x" using assms(5) by (simp add: word_le_nat_alt)
  then show ?thesis using False assms(1,6) by auto
qed

lemma nlz32_value:
  assumes "x \<noteq> 0"
  shows "2 ^ 31 \<le> unat x * 2 ^ nlz32 x" "unat x * 2 ^ nlz32 x < 2 ^ 32"
proof -
  obtain n1 x1 where s1: "(if x \<le> 0x0000FFFF then (16, push_bit 16 x) else (0, x)) = (n1 :: nat, x1)" by fastforce
  obtain n2 x2 where s2: "(if x1 \<le> 0x00FFFFFF then (n1 + 8, push_bit 8 x1) else (n1, x1)) = (n2, x2)" by fastforce
  obtain n3 x3 where s3: "(if x2 \<le> 0x0FFFFFFF then (n2 + 4, push_bit 4 x2) else (n2, x2)) = (n3, x3)" by fastforce
  obtain n4 x4 where s4: "(if x3 \<le> 0x3FFFFFFF then (n3 + 2, push_bit 2 x3) else (n3, x3)) = (n4, x4)" by fastforce
  obtain n5 x5 where s5: "(if x4 \<le> 0x7FFFFFFF then (n4 + 1, push_bit 1 x4) else (n4, x4)) = (n5, x5)" by fastforce
  have "1 \<le> unat x" using assms by (simp add: word_ge_0_nat Suc_le_eq)
  then have r1: "unat x * 2 ^ n1 = unat x1 \<and> 2 ^ (32 - 16) \<le> unat x1"
    using nlz_stage [of x 0 x 16 "0x0000FFFF" n1 x1, unfolded add_0] s1 by simp
  then have r2: "unat x * 2 ^ n2 = unat x2 \<and> 2 ^ (32 - 8) \<le> unat x2" using nlz_stage [of x n1 x1 8 "0x00FFFFFF" n2 x2] s2 by simp
  then have r3: "unat x * 2 ^ n3 = unat x3 \<and> 2 ^ (32 - 4) \<le> unat x3" using nlz_stage [of x n2 x2 4 "0x0FFFFFFF" n3 x3] s3 by simp
  then have r4: "unat x * 2 ^ n4 = unat x4 \<and> 2 ^ (32 - 2) \<le> unat x4" using nlz_stage [of x n3 x3 2 "0x3FFFFFFF" n4 x4] s4 by simp
  then have r5: "unat x * 2 ^ n5 = unat x5 \<and> 2 ^ (32 - 1) \<le> unat x5" using nlz_stage [of x n4 x4 1 "0x7FFFFFFF" n5 x5] s5 by simp
  have "nlz32 x = (if x4 \<le> 0x7FFFFFFF then n4 + 1 else n4)" using assms unfolding nlz32_def Let_def s1 split_conv s2 s3 s4 by simp
  then have "nlz32 x = n5" using s5 by (auto split: if_splits)
  then show "2 ^ 31 \<le> unat x * 2 ^ nlz32 x" "unat x * 2 ^ nlz32 x < 2 ^ 32" using r5 unat_lt_32 [of x5] by simp_all
qed

lemma nlz32_less: "x \<noteq> 0 \<Longrightarrow> nlz32 x < 32"
proof (rule ccontr)
  assume x: "x \<noteq> 0" "\<not> nlz32 x < 32"
  then have "1 * 2 ^ 32 \<le> unat x * 2 ^ nlz32 x" by (intro mult_le_mono power_increasing) (simp_all add: word_ge_0_nat Suc_le_eq)
  then show False using nlz32_value(2) [OF x(1)] by simp
qed

lemma or_disjoint_limb:
  fixes x y :: usint
  assumes "s < 32"
  shows "unat (push_bit s x OR ucast (drop_bit (32 - s) (ucast y :: NativeInt))) = unat x * 2 ^ s mod LB + unat y div 2 ^ (32 - s)"
proof -
  have p: "2 ^ s * 2 ^ (32 - s) = LB" using assms by (simp flip: power_add)
  let ?h = "ucast (drop_bit (32 - s) (ucast y :: NativeInt)) :: usint"
  have h: "?h = drop_bit (32 - s) y" by (rule bit_word_eqI) (use assms in \<open>auto simp: bit_simps\<close>)
  have hv: "unat ?h = unat y div 2 ^ (32 - s)" unfolding h by (rule unat_drop_bit)
  have l: "unat (push_bit s x) = unat x * 2 ^ s mod LB" by (subst unsigned_push_bit_eq) (simp add: take_bit_eq_mod push_bit_eq_mult)
  have "push_bit s x AND ?h = 0" unfolding h
    by (rule bit_word_eqI) (use assms in \<open>auto simp: bit_simps dest: bit_imp_le_length\<close>)
  then have "push_bit s x OR ?h = push_bit s x + ?h" by (simp add: disjunctive_add_eq_or)
  moreover have "unat x * 2 ^ s mod LB = unat x mod 2 ^ (32 - s) * 2 ^ s" unfolding p [symmetric] by (simp add: mult.commute)
  moreover have "unat y div 2 ^ (32 - s) < 2 ^ s" using unat_lt_32 [of y] p by (simp add: div_less_iff_less_mult)
  moreover have "Suc (unat x mod 2 ^ (32 - s)) * 2 ^ s \<le> 2 ^ (32 - s) * 2 ^ s" by (intro mult_le_mono1 Suc_leI) simp
  ultimately show ?thesis using p by (simp only: l hv) (subst unat_add_nowrap, simp_all add: l hv mult.commute)
qed

lemma limbs_nat_shl:
  assumes "s < 32" "i < length v"
  shows "limbs_nat (take (Suc i) (shl_limbs s v)) + LB ^ Suc i * (unat (v ! i) div 2 ^ (32 - s)) = limbs_nat (take (Suc i) v) * 2 ^ s"
  using assms(2)
proof (induction i)
  case 0
  have p: "2 ^ s * 2 ^ (32 - s) = LB" using assms by (simp flip: power_add)
  have "unat (push_bit s (v ! 0)) = unat (v ! 0) * 2 ^ s mod LB" by (subst unsigned_push_bit_eq) (simp add: take_bit_eq_mod push_bit_eq_mult)
  moreover have "unat (v ! 0) * 2 ^ s div LB = unat (v ! 0) div 2 ^ (32 - s)" unfolding p [symmetric] by (simp add: mult.commute)
  ultimately show ?case using 0 div_mult_mod_eq [of "unat (v ! 0) * 2 ^ s" LB]
    by (simp add: shl_limbs_def shl_limb_def limbs_nat_take_Suc mult.commute)
next
  case (Suc i)
  have p: "2 ^ s * 2 ^ (32 - s) = LB" using assms by (simp flip: power_add)
  let ?x = "v ! Suc i" and ?y = "v ! i"
  have n: "unat (shl_limbs s v ! Suc i) = unat ?x * 2 ^ s mod LB + unat ?y div 2 ^ (32 - s)"
    using Suc.prems or_disjoint_limb [OF assms(1), of ?x ?y] by (simp add: shl_limbs_def shl_limb_def m_limbBitLength_def)
  have "unat ?x * 2 ^ s div LB = unat ?x div 2 ^ (32 - s)" unfolding p [symmetric] by (simp add: mult.commute)
  then have x: "unat ?x * 2 ^ s = unat ?x * 2 ^ s mod LB + LB * (unat ?x div 2 ^ (32 - s))"
    using div_mult_mod_eq [of "unat ?x * 2 ^ s" LB] by simp
  have "limbs_nat (take (Suc (Suc i)) (shl_limbs s v)) + LB ^ Suc (Suc i) * (unat ?x div 2 ^ (32 - s))
      = limbs_nat (take (Suc i) (shl_limbs s v)) + LB ^ Suc i * (unat ?y div 2 ^ (32 - s)) + LB ^ Suc i * (unat ?x * 2 ^ s mod LB + LB * (unat ?x div 2 ^ (32 - s)))"
    using Suc.prems by (simp add: limbs_nat_take_Suc [of "Suc i"] n shl_limbs_def [of s v, THEN arg_cong [of _ _ length]] algebra_simps del: take_Suc)
  also have "\<dots> = limbs_nat (take (Suc i) v) * 2 ^ s + LB ^ Suc i * (unat ?x * 2 ^ s)" using Suc x by simp
  also have "\<dots> = limbs_nat (take (Suc (Suc i)) v) * 2 ^ s" using Suc.prems by (simp add: limbs_nat_take_Suc [of "Suc i"] distrib_right)
  finally show ?case .
qed

lemma length_shl_limbs [simp]: "length (shl_limbs s v) = length v"
  by (simp add: shl_limbs_def)

lemma unat_shl_top: "unat (shl_top s u) = unat (u ! (length u - 1)) div 2 ^ (32 - s)"
  using unat_lt_32 [of "u ! (length u - 1)"]
  by (simp add: shl_top_def m_limbBitLength_def unat_ucast_64_32 unat_drop_bit le_less_trans [OF div_le_dividend])

lemma limbs_nat_shl_top: "s < 32 \<Longrightarrow> v \<noteq> [] \<Longrightarrow> limbs_nat (shl_limbs s v @ [shl_top s v]) = limbs_nat v * 2 ^ s"
  using limbs_nat_shl [of s "length v - 1" v] by (cases v) (simp_all add: limbs_nat_append unat_shl_top)

lemma limbs_nat_shl_exact:
  assumes "s < 32" "v \<noteq> []" "unat (last v) * 2 ^ s < LB"
  shows "limbs_nat (shl_limbs s v) = limbs_nat v * 2 ^ s"
proof -
  have p: "2 ^ s * 2 ^ (32 - s) = LB" using assms by (simp flip: power_add)
  have "2 ^ s * unat (last v) < 2 ^ s * 2 ^ (32 - s)" unfolding p using assms(3) by (simp only: mult.commute)
  then have "unat (last v) < 2 ^ (32 - s)" by simp
  then have "unat (shl_top s v) = 0" using assms(2) by (simp add: unat_shl_top last_conv_nth)
  then show ?thesis using limbs_nat_shl_top [OF assms(1,2)] by (simp add: limbs_nat_append)
qed

lemma shr_limb_value:
  fixes x y :: usint
  assumes "s < 32"
  shows "unat (drop_bit s x OR ucast (push_bit (32 - s) (ucast y :: NativeInt))) = unat x div 2 ^ s + unat y mod 2 ^ s * 2 ^ (32 - s)"
proof -
  have p: "2 ^ s * 2 ^ (32 - s) = LB" using assms by (simp flip: power_add)
  let ?h = "ucast (push_bit (32 - s) (ucast y :: NativeInt)) :: usint"
  have "unat y * 2 ^ (32 - s) \<le> unat y * 2 ^ 32" by (intro mult_le_mono2 power_increasing) simp_all
  also have "\<dots> < LB * 2 ^ 32" using unat_lt_32 [of y] by simp
  finally have "unat y * 2 ^ (32 - s) < 2 ^ 64" by simp
  then have "unat (push_bit (32 - s) (ucast y :: NativeInt)) = unat y * 2 ^ (32 - s)" by (subst unat_push_bit_nowrap) simp_all
  then have "unat ?h = unat y * 2 ^ (32 - s) mod LB" by (simp add: unat_ucast_64_32)
  also have "\<dots> = unat y mod 2 ^ s * 2 ^ (32 - s)" unfolding p [symmetric] by (simp add: mult.commute)
  finally have h: "unat ?h = unat y mod 2 ^ s * 2 ^ (32 - s)" .
  have "drop_bit s x AND ?h = 0"
    by (rule bit_word_eqI) (use assms in \<open>auto simp: bit_simps dest: bit_imp_le_length\<close>)
  then have o: "drop_bit s x OR ?h = drop_bit s x + ?h" by (simp add: disjunctive_add_eq_or)
  have "unat x div 2 ^ s < 2 ^ (32 - s)" using unat_lt_32 [of x] p by (simp add: div_less_iff_less_mult mult.commute)
  moreover have "Suc (unat y mod 2 ^ s) * 2 ^ (32 - s) \<le> 2 ^ s * 2 ^ (32 - s)" by (intro mult_le_mono1 Suc_leI) simp
  ultimately have "unat x div 2 ^ s + unat y mod 2 ^ s * 2 ^ (32 - s) < LB" unfolding p by simp
  then show ?thesis unfolding o by (subst unat_add_nowrap) (simp_all only: h unat_drop_bit, simp_all)
qed

lemma limbs_nat_mod_low:
  assumes "s \<le> 32" "v \<noteq> []"
  shows "limbs_nat v mod 2 ^ s = unat (v ! 0) mod 2 ^ s"
proof -
  have p: "2 ^ s * 2 ^ (32 - s) = LB" using assms by (simp flip: power_add)
  obtain a u where "v = a # u" using assms(2) by (cases v) auto
  then show ?thesis by (simp add: p [symmetric] mult.assoc)
qed

lemma limbs_nat_shr:
  assumes "s < 32" "length un = n" "i < n"
  shows "limbs_nat (map (\<lambda>i. drop_bit s (un ! i) OR ucast (push_bit (32 - s) (ucast (un ! (i + 1)) :: NativeInt))) [i..<n - 1] @ [drop_bit s (un ! (n - 1))])
    = limbs_nat (drop i un) div 2 ^ s"
  using assms(3)
proof (induction "n - 1 - i" arbitrary: i)
  case 0
  then have "i = n - 1" by simp
  then show ?case using 0 assms(2) by (simp add: drop_limbs unat_drop_bit)
next
  case (Suc d)
  have p: "2 ^ s * 2 ^ (32 - s) = LB" using assms by (simp flip: power_add)
  let ?D = "limbs_nat (drop (Suc i) un)"
  have "[i..<n - 1] = i # [Suc i..<n - 1]" using Suc.hyps(2) by (simp add: upt_conv_Cons)
  moreover have "unat (un ! (i + 1)) mod 2 ^ s = ?D mod 2 ^ s"
    using limbs_nat_mod_low [of s "drop (Suc i) un"] assms Suc.hyps(2) by (simp add: nth_drop)
  moreover have "limbs_nat (map (\<lambda>i. drop_bit s (un ! i) OR ucast (push_bit (32 - s) (ucast (un ! (i + 1)) :: NativeInt))) [Suc i..<n - 1] @ [drop_bit s (un ! (n - 1))])
    = ?D div 2 ^ s" using Suc.hyps by (intro Suc.hyps(1)) simp_all
  ultimately have "limbs_nat (map (\<lambda>i. drop_bit s (un ! i) OR ucast (push_bit (32 - s) (ucast (un ! (i + 1)) :: NativeInt))) [i..<n - 1] @ [drop_bit s (un ! (n - 1))])
    = unat (un ! i) div 2 ^ s + ?D mod 2 ^ s * 2 ^ (32 - s) + LB * (?D div 2 ^ s)"
    by (simp add: shr_limb_value [OF assms(1)])
  also have "\<dots> = unat (un ! i) div 2 ^ s + 2 ^ (32 - s) * (2 ^ s * (?D div 2 ^ s) + ?D mod 2 ^ s)"
    unfolding p [symmetric] by (simp only: distrib_left mult.commute mult.left_commute add.commute add.left_commute)
  also have "\<dots> = (unat (un ! i) + 2 ^ s * (2 ^ (32 - s) * ?D)) div 2 ^ s" by simp
  also have "\<dots> = limbs_nat (drop i un) div 2 ^ s" using drop_limbs [of i un] Suc.prems assms(2) by (simp add: mult.assoc [symmetric] p)
  finally show ?case .
qed

lemma limbs_nat_shr_limbs:
  assumes "s < 32" "0 < n" "n \<le> length un"
  shows "limbs_nat (shr_limbs s n un) = limbs_nat (take n un) div 2 ^ s"
proof -
  have "shr_limbs s n un = map (\<lambda>i. drop_bit s (take n un ! i) OR ucast (push_bit (32 - s) (ucast (take n un ! (i + 1)) :: NativeInt))) [0..<n - 1] @ [drop_bit s (take n un ! (n - 1))]"
    using assms by (simp add: shr_limbs_def m_limbBitLength_def)
  then show ?thesis using limbs_nat_shr [of s "take n un" n 0] assms by simp
qed

section \<open>The quotient digit\<close>

lemma quotient_digit_over:
  fixes U V :: nat
  assumes "V = v * P + vl" "U = u * P + ul" "ul < P" "u < h * v"
  shows "U div V < h"
proof -
  have "U < Suc u * P" using assms(2,3) by simp
  also have "\<dots> \<le> h * v * P" using assms(4) by (intro mult_le_mono1) simp
  also have "\<dots> \<le> h * V" using assms(1) by (simp add: mult.assoc distrib_left)
  finally show ?thesis by (simp add: less_mult_imp_div_less)
qed

lemma quotient_digit_under:
  fixes U V :: nat
  assumes "V = v * P + vl" "vl < P" "U = u * P + ul" "h * v \<le> u" "h < LB" "LB * P \<le> V"
  shows "h \<le> Suc (U div V)"
proof (cases "h = 0")
  case False
  have "h * vl < LB * P" using assms(2,5) by (intro mult_strict_mono) auto
  moreover have "h * v * P \<le> u * P" using assms(4) by (intro mult_le_mono1)
  moreover have "h * V = h * v * P + h * vl" by (simp add: assms(1) distrib_left mult.assoc)
  ultimately have "h * V < U + V" using assms(3,6) by linarith
  then have "(h - 1) * V < U" using False by (cases h) simp_all
  moreover have "0 < V" using assms(1,2,5,6) by (cases V) auto
  ultimately have "h - 1 \<le> U div V" by (simp add: less_eq_div_iff_mult_less_eq)
  then show ?thesis by simp
qed simp

declare knuth_adjust.simps [simp del]

lemma knuth_adjust_value:
  fixes v1 v2 u2 qhat rhat :: NativeInt
  defines "B2 \<equiv> unat v1 * LB + unat v2"
  assumes small: "0 < unat v1" "unat v1 < LB" "unat v2 < LB" "unat u2 < LB"
    and tp: "tp < unat v1 * LB + LB" and q: "q < LB" "\<And>h. tp * LB + unat u2 < h * B2 \<Longrightarrow> q < h"
    and inv: "unat qhat * unat v1 + unat rhat = tp" "unat rhat < LB" "unat qhat \<le> LB + 1" "q \<le> unat qhat"
  shows "unat (knuth_adjust v1 v2 u2 qhat rhat) < LB \<and> q \<le> unat (knuth_adjust v1 v2 u2 qhat rhat) \<and>
    unat (knuth_adjust v1 v2 u2 qhat rhat) * B2 \<le> tp * LB + unat u2"
  using inv small tp q unfolding B2_def
proof (induction v1 v2 u2 qhat rhat rule: knuth_adjust.induct)
  case (1 v1 v2 u2 qhat rhat)
  note inv = 1(2-5) and small = 1(6-9) and tp = 1(10) and q = 1(11,12)
  let ?c = "qhat \<ge> dlimb_base \<or> qhat * v2 > dlimb_base * rhat + u2"
  have base: "qhat \<ge> dlimb_base \<longleftrightarrow> LB \<le> unat qhat" by (simp add: word_le_nat_alt dlimb_base_value)
  have test: "qhat * v2 > dlimb_base * rhat + u2 \<longleftrightarrow> tp * LB + unat u2 < unat qhat * (unat v1 * LB + unat v2)" if "unat qhat < LB"
  proof -
    have "unat qhat * unat v2 \<le> 4294967295 * 4294967295" using that small(3) by (intro mult_mono) auto
    then have a: "unat (qhat * v2) = unat qhat * unat v2" by (intro unat_mult_nowrap) simp
    have "LB * unat rhat \<le> LB * 4294967295" using inv(2) by simp
    then have b: "unat (dlimb_base * rhat + u2) = LB * unat rhat + unat u2"
      using small(4) by (simp add: unat_word_ariths dlimb_base_value)
    have "tp * LB = unat qhat * unat v1 * LB + LB * unat rhat" unfolding inv(1) [symmetric] by (simp add: algebra_simps)
    then show ?thesis unfolding word_less_nat_alt a b by (simp add: distrib_left mult.assoc)
  qed
  show ?case
  proof (cases ?c)
    case False
    then have "unat qhat < LB" using base by simp
    moreover have k: "knuth_adjust v1 v2 u2 qhat rhat = qhat" using False by (subst knuth_adjust.simps) (simp only: if_False)
    ultimately show ?thesis unfolding k using False test inv by (auto simp: not_less)
  next
    case True
    have qlt: "q < unat qhat"
    proof (cases "unat qhat < LB")
      case True
      then show ?thesis using \<open>?c\<close> base test q(2) by auto
    qed (use q(1) in simp)
    then have "qhat \<noteq> 0" by auto
    then have q1: "unat (qhat - 1) = unat qhat - 1" by (simp add: unat_minus_one)
    have r1: "unat (rhat + v1) = unat rhat + unat v1" using inv(2) small(2) by (intro unat_add_nowrap) simp
    have inv': "unat (qhat - 1) * unat v1 + unat (rhat + v1) = tp" using inv(1) qlt
      by (cases "unat qhat") (simp_all add: q1 r1)
    have le: "q \<le> unat (qhat - 1)" "unat (qhat - 1) \<le> LB + 1" using qlt inv(3) q1 by simp_all
    have rb: "rhat + v1 < dlimb_base \<longleftrightarrow> unat (rhat + v1) < LB" by (simp add: word_less_nat_alt dlimb_base_value)
    show ?thesis
    proof (cases "rhat + v1 < dlimb_base")
      case True
      then have "knuth_adjust v1 v2 u2 qhat rhat = knuth_adjust v1 v2 u2 (qhat - 1) (rhat + v1)"
        using \<open>?c\<close> by (subst knuth_adjust.simps) (simp add: Let_def)
      then show ?thesis using "1.IH" [OF \<open>?c\<close> refl refl True inv' _ le(2,1) small tp q] True rb by simp
    next
      case False
      then have k: "knuth_adjust v1 v2 u2 qhat rhat = qhat - 1"
        using \<open>?c\<close> by (subst knuth_adjust.simps) (simp add: Let_def)
      have rl: "LB \<le> unat (rhat + v1)" using False rb by simp
      have "unat (qhat - 1) * unat v1 < unat v1 * LB" using inv' rl tp by linarith
      then have ql: "unat (qhat - 1) < LB" by (simp only: mult.commute [of "unat (qhat - 1)"] nat_mult_less_cancel1 [OF small(1)])
      have "unat (qhat - 1) * unat v2 \<le> LB * LB" using ql small(3) by (intro mult_mono) auto
      also have "\<dots> \<le> unat (rhat + v1) * LB" using rl by (intro mult_le_mono1)
      finally have "unat (qhat - 1) * (unat v1 * LB + unat v2) \<le> (unat (qhat - 1) * unat v1 + unat (rhat + v1)) * LB"
        by (simp add: algebra_simps)
      then show ?thesis unfolding k inv' using ql le(1) by simp
    qed
  qed
qed

section \<open>Multiply and subtract\<close>

lemma sint_word_of_int: "- 9223372036854775808 \<le> I \<Longrightarrow> I < 9223372036854775808 \<Longrightarrow> sint (word_of_int I :: NativeInt) = I"
  by (simp add: signed_of_int signed_take_bit_int_eq_self)

lemma uint_word_of_int_64: "0 \<le> I \<Longrightarrow> I < 18446744073709551616 \<Longrightarrow> uint (word_of_int I :: NativeInt) = I"
  by (simp add: uint_word_of_int)

lemma ucast_of_int: "ucast (word_of_int I :: NativeInt) = (word_of_int I :: usint)"
  by (simp add: unsigned_ucast_eq ucast_eq uint_word_of_int) (simp add: word_of_int_eq_iff take_bit_eq_mod mod_mod_cancel)

lemma mulsub_limb:
  fixes u v :: usint and q k :: NativeInt
  assumes "unat q < LB" "unat k \<le> LB"
  defines "p \<equiv> q * ucast v"
  defines "t \<equiv> ucast u - k - (p AND ucast m_MaxLimb)"
  defines "k' \<equiv> drop_bit 32 p - signed_drop_bit 32 t"
  shows "int (unat (ucast t :: usint)) = int (unat u) - int (unat k) - int (unat q * unat v) + 4294967296 * int (unat k')" "unat k' \<le> LB"
proof -
  have "unat q * unat v \<le> 4294967295 * 4294967295" using assms(1) unat_lt_32 [of v] by (intro mult_mono) auto
  then have p: "unat p = unat q * unat v" "unat p \<le> 4294967295 * 4294967295"
    unfolding p_def by (subst unat_mult_nowrap; simp)+
  have pl: "unat (p AND ucast m_MaxLimb) = unat p mod LB"
  proof -
    have "(ucast m_MaxLimb :: NativeInt) = mask 32" by (simp add: m_MaxLimb_def mask_eq_exp_minus_1)
    then have "p AND ucast m_MaxLimb = p mod 4294967296" by (simp add: take_bit_eq_mod flip: take_bit_eq_mask)
    then show ?thesis by (simp add: unat_mod_distrib)
  qed
  define I where "I = int (unat u) - int (unat k) - int (unat p) mod 4294967296"
  have "int (unat (p AND ucast m_MaxLimb)) = int (unat p) mod 4294967296" unfolding pl by (simp only: zmod_int of_nat_numeral)
  then have "p AND ucast m_MaxLimb = word_of_int (int (unat p) mod 4294967296)" by (metis word_of_int_uint int_nat_eq uint_nat)
  then have t: "t = word_of_int I" by (simp add: t_def I_def)
  have m: "0 \<le> int (unat p) mod 4294967296" "int (unat p) mod 4294967296 < 4294967296" by (simp_all add: pos_mod_bound)
  have Ib: "- 2 * 4294967296 < I" "I < 4294967296" using assms(2) unat_lt_32 [of u] m unfolding I_def by linarith+
  then have st: "sint t = I" unfolding t by (intro sint_word_of_int) simp_all
  define K where "K = int (unat p) div 4294967296 - I div 4294967296"
  have "sint (signed_drop_bit 32 t) = I div 4294967296" using st by (simp add: sint_signed_drop_bit_eq drop_bit_eq_div)
  then have "signed_drop_bit 32 t = word_of_int (I div 4294967296)" by (metis of_int_sint scast_id)
  moreover have "int (unat (drop_bit 32 p)) = int (unat p) div 4294967296" unfolding unat_drop_bit by (simp only: zdiv_int) simp
  then have "drop_bit 32 p = word_of_int (int (unat p) div 4294967296)" by (metis word_of_int_uint uint_nat)
  ultimately have k: "k' = word_of_int K" by (simp add: k'_def K_def)
  have "int (unat p) div 4294967296 \<le> 4294967294" using p(2) by linarith
  moreover have "0 \<le> int (unat p) div 4294967296" by (rule pos_imp_zdiv_nonneg_iff [THEN iffD2]) simp_all
  moreover have "- 2 \<le> I div 4294967296" "I div 4294967296 \<le> 0" using Ib by linarith+
  ultimately have Kb: "0 \<le> K" "K \<le> 4294967296" unfolding K_def by linarith+
  then have ku: "int (unat k') = K" unfolding k using uint_word_of_int_64 [of K] by simp
  then show "unat k' \<le> LB" using Kb by linarith
  have "int (unat (ucast t :: usint)) = I mod 4294967296" unfolding t ucast_of_int by (simp add: uint_word_of_int)
  also have "\<dots> = I - 4294967296 * (I div 4294967296)" by (simp add: minus_mult_div_eq_mod)
  also have "\<dots> = int (unat u) - int (unat k) - int (unat p) + 4294967296 * K"
    using minus_mult_div_eq_mod [of "int (unat p)" 4294967296] unfolding I_def [THEN trans [OF refl]] K_def by (simp add: I_def algebra_simps)
  finally show "int (unat (ucast t :: usint)) = int (unat u) - int (unat k) - int (unat q * unat v) + 4294967296 * int (unat k')"
    unfolding ku p(1) .
qed

lemma mulsub_loop:
  assumes "unat q < LB" "length lo = j" "n \<le> length w" "length vn = n"
  obtains r k where "for_range 0 n (mulsub_step q vn j) (lo @ w @ hi, 0) = (lo @ r @ drop n w @ hi, k)" "length r = n" "unat k \<le> LB"
    "int (limbs_nat r) = int (limbs_nat (take n w)) - int (unat q * limbs_nat vn) + int (LB ^ n * unat k)"
proof -
  let ?P = "\<lambda>i (un, k). \<exists>r. un = lo @ r @ drop i w @ hi \<and> length r = i \<and> unat (k :: NativeInt) \<le> LB \<and>
    int (limbs_nat r) = int (limbs_nat (take i w)) - int (unat q * limbs_nat (take i vn)) + int (LB ^ i * unat k)"
  have "?P n (for_range 0 n (mulsub_step q vn j) (lo @ w @ hi, 0))"
  proof (rule for_range_invariant [where P = ?P])
    fix i and s :: "usint list \<times> NativeInt"
    assume i: "i < n" and P: "?P i s"
    obtain r k where s: "s = (lo @ r @ drop i w @ hi, k)" and r: "length r = i" "unat k \<le> LB"
      "int (limbs_nat r) = int (limbs_nat (take i w)) - int (unat q * limbs_nat (take i vn)) + int (LB ^ i * unat k)" using P by (cases s) auto
    have d: "drop i w = w ! i # drop (Suc i) w" using i assms by (simp add: Cons_nth_drop_Suc)
    define p where "p = q * ucast (vn ! i)"
    define t where "t = ucast (w ! i) - k - (p AND ucast m_MaxLimb)"
    define k' where "k' = drop_bit 32 p - signed_drop_bit 32 t"
    have l: "int (unat (ucast t :: usint)) = int (unat (w ! i)) - int (unat k) - int (unat q * unat (vn ! i)) + 4294967296 * int (unat k')" "unat k' \<le> LB"
      using mulsub_limb [OF assms(1) r(2), where u = "w ! i" and v = "vn ! i"] unfolding p_def t_def k'_def by blast+
    have "mulsub_step q vn j i s = (lo @ (r @ [ucast t]) @ drop (Suc i) w @ hi, k')"
      using r(1) assms(2) by (simp add: s mulsub_step_def Let_def d nth_append list_update_append m_limbBitLength_def p_def t_def k'_def)
    moreover have "int (limbs_nat (r @ [ucast t])) = int (limbs_nat r) + int (LB ^ i) * int (unat (ucast t :: usint))"
      using r(1) by (simp add: limbs_nat_append)
    then have "int (limbs_nat (r @ [ucast t])) = int (limbs_nat (take (Suc i) w)) - int (unat q * limbs_nat (take (Suc i) vn)) + int (LB ^ Suc i * unat k')"
      unfolding l(1) r(3) using i assms by (simp add: limbs_nat_take_Suc algebra_simps)
    ultimately show "?P (Suc i) (mulsub_step q vn j i s)" using r l(2) by (simp only: split_conv) (intro exI [of _ "r @ [ucast t]"], simp)
  qed simp_all
  then show thesis using that assms by auto
qed

lemma addback_limb:
  fixes u v :: usint
  assumes "unat k \<le> 1"
  defines "t \<equiv> ucast u + ucast v + k :: NativeInt"
  shows "unat (ucast t :: usint) + LB * unat (signed_drop_bit 32 t) = unat u + unat v + unat k" "unat (signed_drop_bit 32 t) \<le> 1"
proof -
  have t: "unat t = unat u + unat v + unat k" unfolding t_def
    using assms(1) unat_lt_32 [of u] unat_lt_32 [of v] by (simp add: unat_word_ariths)
  have b: "unat t < 2 * LB" using t assms(1) unat_lt_32 [of u] unat_lt_32 [of v] by simp
  have "t = word_of_int (int (unat t))" by simp
  moreover have "- 9223372036854775808 \<le> int (unat t)" "int (unat t) < 9223372036854775808" using b by linarith+
  ultimately have "sint t = int (unat t)" using sint_word_of_int [of "int (unat t)"] by simp
  then have "sint (signed_drop_bit 32 t) = int (unat t div LB)" by (simp add: sint_signed_drop_bit_eq drop_bit_eq_div zdiv_int)
  then have "signed_drop_bit 32 t = word_of_int (int (unat t div LB))" by (metis of_int_sint scast_id)
  moreover have "unat t div LB \<le> 1" using b by linarith
  ultimately have k: "unat (signed_drop_bit 32 t) = unat t div LB" by (simp add: unat_of_nat_64)
  show "unat (ucast t :: usint) + LB * unat (signed_drop_bit 32 t) = unat u + unat v + unat k"
    unfolding k t [symmetric] by (simp add: unat_ucast_64_32)
  show "unat (signed_drop_bit 32 t) \<le> 1" unfolding k using b by linarith
qed

lemma addback_loop:
  assumes "length lo = j" "n \<le> length w" "length vn = n"
  obtains r k where "for_range 0 n (addback_step vn j) (lo @ w @ hi, 0) = (lo @ r @ drop n w @ hi, k)" "length r = n" "unat k \<le> 1"
    "limbs_nat r + LB ^ n * unat k = limbs_nat (take n w) + limbs_nat vn"
proof -
  let ?P = "\<lambda>i (un, k). \<exists>r. un = lo @ r @ drop i w @ hi \<and> length r = i \<and> unat (k :: NativeInt) \<le> 1 \<and>
    limbs_nat r + LB ^ i * unat k = limbs_nat (take i w) + limbs_nat (take i vn)"
  have "?P n (for_range 0 n (addback_step vn j) (lo @ w @ hi, 0))"
  proof (rule for_range_invariant [where P = ?P])
    fix i and s :: "usint list \<times> NativeInt"
    assume i: "i < n" and P: "?P i s"
    obtain r k where s: "s = (lo @ r @ drop i w @ hi, k)" and r: "length r = i" "unat k \<le> 1"
      "limbs_nat r + LB ^ i * unat k = limbs_nat (take i w) + limbs_nat (take i vn)" using P by (cases s) auto
    have d: "drop i w = w ! i # drop (Suc i) w" using i assms by (simp add: Cons_nth_drop_Suc)
    define t where "t = (ucast (w ! i) + ucast (vn ! i) + k :: NativeInt)"
    define k' where "k' = signed_drop_bit 32 t"
    have l: "unat (ucast t :: usint) + LB * unat k' = unat (w ! i) + unat (vn ! i) + unat k" "unat k' \<le> 1"
      using addback_limb [OF r(2), of "w ! i" "vn ! i"] unfolding t_def k'_def by simp_all
    have "addback_step vn j i s = (lo @ (r @ [ucast t]) @ drop (Suc i) w @ hi, k')"
      using r(1) assms(1) by (simp add: s addback_step_def Let_def d nth_append list_update_append m_limbBitLength_def t_def k'_def)
    moreover have "limbs_nat (r @ [ucast t]) + LB ^ Suc i * unat k' = limbs_nat r + LB ^ i * (unat (ucast t :: usint) + LB * unat k')"
      using r(1) by (simp add: limbs_nat_append algebra_simps)
    then have "limbs_nat (r @ [ucast t]) + LB ^ Suc i * unat k' = limbs_nat r + LB ^ i * unat k + LB ^ i * unat (w ! i) + LB ^ i * unat (vn ! i)"
      unfolding l(1) by (simp only: algebra_simps)
    then have "limbs_nat (r @ [ucast t]) + LB ^ Suc i * unat k' = limbs_nat (take (Suc i) w) + limbs_nat (take (Suc i) vn)"
      unfolding r(3) using i assms by (simp add: limbs_nat_take_Suc)
    ultimately show "?P (Suc i) (addback_step vn j i s)" using r l(2) by (simp only: split_conv) (intro exI [of _ "r @ [ucast t]"], simp)
  qed simp_all
  then show thesis using that assms by auto
qed

section \<open>One step of algorithm D\<close>

lemma limbs_nat_top2:
  assumes "length v = Suc (Suc m)"
  shows "limbs_nat v = (unat (v ! Suc m) * LB + unat (v ! m)) * LB ^ m + limbs_nat (take m v)"
proof -
  have "limbs_nat v = limbs_nat (take (Suc (Suc m)) v)" using assms by simp
  also have "\<dots> = (unat (v ! Suc m) * LB + unat (v ! m)) * LB ^ m + limbs_nat (take m v)"
    using assms by (subst limbs_nat_take_Suc; simp) (subst limbs_nat_take_Suc; simp add: algebra_simps)
  finally show ?thesis .
qed

lemma limbs_nat_take_less: "m \<le> length v \<Longrightarrow> limbs_nat (take m v) < LB ^ m"
  using limbs_nat_less [of "take m v"] by (simp add: min_absorb2)

lemma estimate_word:
  fixes a b v :: usint
  assumes "v \<noteq> 0"
  defines "tp \<equiv> ucast a * dlimb_base + ucast b"
  shows "unat (tp div ucast v) = (unat a * LB + unat b) div unat v"
    "unat (tp - tp div ucast v * ucast v) = (unat a * LB + unat b) mod unat v"
proof -
  have "unat a * LB + unat b < 18446744073709551616" using unat_lt_32 [of a] unat_lt_32 [of b] by simp
  then have t: "unat tp = unat a * LB + unat b" unfolding tp_def by (simp add: unat_word_ariths dlimb_base_value)
  show d: "unat (tp div ucast v) = (unat a * LB + unat b) div unat v" by (simp add: unat_div_distrib t)
  have m: "unat (tp div ucast v * ucast v) = (unat tp div unat v) * unat v"
    using unat_lt_64 [of tp] le_less_trans [OF div_times_less_eq_dividend [of "unat tp" "unat v"]] by (subst unat_mult_nowrap) (simp_all add: d t)
  then have "tp div ucast v * ucast v \<le> tp" by (simp add: word_le_nat_alt)
  then show "unat (tp - tp div ucast v * ucast v) = (unat a * LB + unat b) mod unat v"
    unfolding t [symmetric] by (simp add: minus_div_mult_eq_mod unat_mod_distrib)
qed

text \<open>The corrected digit is the quotient or one more.\<close>

lemma knuth_digit:
  assumes vn: "length vn = Suc (Suc m)" "2 ^ 31 \<le> unat (vn ! Suc m)" and w: "length w = Suc (Suc (Suc m))" "limbs_nat w < limbs_nat vn * LB"
  defines "tp \<equiv> ucast (w ! Suc (Suc m)) * dlimb_base + ucast (w ! Suc m)"
  defines "qhat \<equiv> tp div ucast (vn ! Suc m)"
  defines "h \<equiv> knuth_adjust (ucast (vn ! Suc m)) (ucast (vn ! m)) (ucast (w ! m)) qhat (tp - qhat * ucast (vn ! Suc m))"
  shows "unat h < LB" "limbs_nat w div limbs_nat vn \<le> unat h" "unat h \<le> Suc (limbs_nat w div limbs_nat vn)"
proof -
  define P V U v1 T where "P = LB ^ m" and "V = limbs_nat vn" and "U = limbs_nat w" and "v1 = unat (vn ! Suc m)"
    and "T = unat (w ! Suc (Suc m)) * LB + unat (w ! Suc m)"
  have v1: "2147483648 \<le> v1" "v1 < LB" using vn(2) unat_lt_32 [of "vn ! Suc m"] by (simp_all add: v1_def)
  have V: "V = (v1 * LB + unat (vn ! m)) * P + limbs_nat (take m vn)" "limbs_nat (take m vn) < P"
    using limbs_nat_top2 [OF vn(1)] limbs_nat_take_less [of m vn] vn(1) by (simp_all add: V_def v1_def P_def)
  have "U = unat (w ! Suc (Suc m)) * LB ^ Suc (Suc m) + limbs_nat (take (Suc (Suc m)) w)"
    using limbs_nat_take_Suc [of "Suc (Suc m)" w] w(1) by (simp add: U_def)
  also have "limbs_nat (take (Suc (Suc m)) w) = (unat (w ! Suc m) * LB + unat (w ! m)) * P + limbs_nat (take m w)"
    using limbs_nat_top2 [of "take (Suc (Suc m)) w" m] w(1) by (simp add: P_def)
  finally have U: "U = (T * LB + unat (w ! m)) * P + limbs_nat (take m w)" by (simp add: T_def P_def algebra_simps)
  have wl: "limbs_nat (take m w) < P" using limbs_nat_take_less [of m w] w(1) by (simp add: P_def)
  have UV: "U < V * LB" using w(2) by (simp add: U_def V_def)
  have top: "T < v1 * LB + LB"
  proof (rule ccontr)
    assume "\<not> T < v1 * LB + LB"
    then have "(v1 + 1) * LB * (LB * P) \<le> T * (LB * P)" by (intro mult_le_mono1) simp
    also have "\<dots> \<le> U" using U by (simp add: algebra_simps)
    also have "\<dots> < V * LB" by (rule UV)
    finally have "(v1 + 1) * (LB * P) < V" by (simp add: algebra_simps)
    moreover have "V < (v1 * LB + unat (vn ! m) + 1) * P" using V by simp
    moreover have "(v1 * LB + unat (vn ! m) + 1) * P \<le> (v1 * LB + LB) * P" using unat_lt_32 [of "vn ! m"] by (intro mult_le_mono1) simp
    moreover have "(v1 * LB + LB) * P = (v1 + 1) * (LB * P)" by (simp add: algebra_simps)
    ultimately show False by linarith
  qed
  have ne: "vn ! Suc m \<noteq> 0" using v1(1) by (auto simp: v1_def)
  have q: "unat qhat = T div v1" "unat (tp - qhat * ucast (vn ! Suc m)) = T mod v1"
    using estimate_word [OF ne, of "w ! Suc (Suc m)" "w ! Suc m"] by (simp_all add: qhat_def tp_def T_def v1_def)
  have "T div v1 < LB + 2"
  proof (rule less_mult_imp_div_less)
    have "v1 * LB + LB \<le> v1 * LB + 2 * v1" using v1(1) by simp
    then show "T < (LB + 2) * v1" using top by (simp add: algebra_simps)
  qed
  then have q2: "unat qhat \<le> LB + 1" using q(1) by simp
  have "U div V < Suc (T div v1)"
  proof (rule quotient_digit_over)
    show "V = v1 * (LB * P) + (unat (vn ! m) * P + limbs_nat (take m vn))" using V(1) by (simp add: algebra_simps)
    show "U = T * (LB * P) + (unat (w ! m) * P + limbs_nat (take m w))" using U by (simp add: algebra_simps)
    have "(unat (w ! m) + 1) * P \<le> LB * P" using unat_lt_32 [of "w ! m"] by (intro mult_le_mono1) simp
    then show "unat (w ! m) * P + limbs_nat (take m w) < LB * P" using wl unfolding distrib_right mult_1 by linarith
    show "T < Suc (T div v1) * v1" using v1(1) by (simp add: dividend_less_div_times)
  qed
  then have q3: "U div V \<le> unat qhat" using q(1) by simp
  have q4: "U div V < LB" using UV by (simp add: less_mult_imp_div_less mult.commute)
  have q5: "U div V < g" if "T * LB + unat (w ! m) < g * (v1 * LB + unat (vn ! m))" for g
    using quotient_digit_over [OF V(1) U wl that] .
  have r: "T mod v1 < LB" using v1 by (intro less_trans [OF mod_less_divisor]) simp_all
  have hh: "unat h < LB \<and> U div V \<le> unat h \<and> unat h * (v1 * LB + unat (vn ! m)) \<le> T * LB + unat (w ! m)"
    unfolding h_def using knuth_adjust_value [of "ucast (vn ! Suc m)" "ucast (vn ! m)" "ucast (w ! m)" T "U div V" qhat "tp - qhat * ucast (vn ! Suc m)"]
    using v1 top q q2 q3 q4 q5 r unat_lt_32 [of "vn ! m"] unat_lt_32 [of "w ! m"] by (simp add: v1_def)
  have "1 * (LB * P) \<le> v1 * (LB * P)" using v1(1) by (intro mult_le_mono1) simp
  moreover have "V = v1 * (LB * P) + (unat (vn ! m) * P + limbs_nat (take m vn))" using V(1) by (simp add: algebra_simps)
  ultimately have "LB * P \<le> V" by linarith
  then show "unat h < LB" "limbs_nat w div limbs_nat vn \<le> unat h" "unat h \<le> Suc (limbs_nat w div limbs_nat vn)"
    using hh quotient_digit_under [OF V(1,2) U, of "unat h"] by (simp_all add: U_def V_def)
qed

lemma signed_borrow:
  fixes x y R B :: int
  assumes "x + B * d = y" "0 \<le> x" "x < B" "- B < y" "y < B"
  shows "d = (if 0 \<le> y then 0 else - 1)"
proof -
  have "0 < B" using assms by linarith
  have "\<not> d \<ge> 1" proof assume "d \<ge> 1" then have "B * 1 \<le> B * d" using \<open>0 < B\<close> by (intro mult_left_mono) auto then show False using assms by linarith qed
  moreover have "\<not> d \<le> - 2" proof assume "d \<le> - 2" then have "B * d \<le> B * - 2" using \<open>0 < B\<close> by (intro mult_left_mono) auto then show False using assms by linarith qed
  moreover have "d = 0 \<Longrightarrow> 0 \<le> y" "d = - 1 \<Longrightarrow> y < 0" using assms by auto
  ultimately show ?thesis by (cases "d = 0") auto
qed

lemma knuth_step_value:
  assumes vn: "length vn = Suc (Suc m)" "2 ^ 31 \<le> unat (vn ! Suc m)" and w: "length w = Suc (Suc (Suc m))" "limbs_nat w < limbs_nat vn * LB"
    and lo: "length lo = j"
  obtains qj r where "knuth_step vn j (lo @ w @ hi) = (qj, lo @ r @ [0] @ hi)" "length r = Suc (Suc m)"
    "limbs_nat w = unat qj * limbs_nat vn + limbs_nat r" "limbs_nat r < limbs_nat vn"
proof -
  let ?n = "Suc (Suc m)"
  define V U where "V = limbs_nat vn" and "U = limbs_nat w"
  have Vpos: "0 < V" using w(2) by (simp add: V_def)
  define tp where "tp = ucast (w ! ?n) * dlimb_base + ucast (w ! Suc m)"
  define qhat where "qhat = tp div ucast (vn ! Suc m)"
  define h where "h = knuth_adjust (ucast (vn ! Suc m)) (ucast (vn ! m)) (ucast (w ! m)) qhat (tp - qhat * ucast (vn ! Suc m))"
  have h: "unat h < LB" "U div V \<le> unat h" "unat h \<le> Suc (U div V)"
    using knuth_digit [OF vn w] unfolding tp_def qhat_def h_def V_def U_def by blast+
  obtain r k where r: "for_range 0 ?n (mulsub_step h vn j) (lo @ w @ hi, 0) = (lo @ r @ drop ?n w @ hi, k)" "length r = ?n" "unat k \<le> LB"
    "int (limbs_nat r) = int (limbs_nat (take ?n w)) - int (unat h * V) + int (LB ^ ?n * unat k)"
    using mulsub_loop [OF h(1) lo, of ?n w vn hi] w(1) vn(1) unfolding V_def by auto
  have dw: "drop ?n w = [w ! ?n]" using w(1) by (simp add: Cons_nth_drop_Suc [symmetric])
  define t where "t = ucast (w ! ?n) - k"
  define d where "d = int (unat (w ! ?n)) - int (unat k)"
  have t: "t = word_of_int d" by (simp add: t_def d_def)
  have db: "- 4294967296 \<le> d" "d < 4294967296" using r(3) unat_lt_32 [of "w ! ?n"] unfolding d_def by linarith+
  then have st: "sint t = d" unfolding t by (intro sint_word_of_int) simp_all
  have "int U = int (limbs_nat (take ?n w)) + int (LB ^ ?n) * int (unat (w ! ?n))"
    using limbs_nat_take_Suc [of ?n w] w(1) by (simp add: U_def)
  then have main: "int (limbs_nat r) + int (LB ^ ?n) * d = int U - int (unat h * V)"
    unfolding r(4) d_def by (simp add: algebra_simps)
  have Vl: "V < LB ^ ?n" using limbs_nat_less [of vn] vn(1) by (simp add: V_def)
  have R: "int U = int (U div V * V) + int (U mod V)" by (simp only: of_nat_add [symmetric] div_mult_mod_eq)
  have Rl: "U mod V < V" using Vpos by simp
  have bl: "int (limbs_nat u) < int (LB ^ ?n)" if "length u = ?n" for u
    using limbs_nat_less [of u] that by (simp only: of_nat_less_iff)
  have bR: "- int (LB ^ ?n) < int (U mod V)" "int (U mod V) < int (LB ^ ?n)" "- int (LB ^ ?n) < int (U mod V) - int V"
    "int (U mod V) - int V < 0" "int (U mod V) - int V < int (LB ^ ?n)"
    using of_nat_less_iff [of V "LB ^ ?n", where 'a = int] Vl of_nat_less_iff [of "U mod V" V, where 'a = int] Rl of_nat_0_le_iff [of "U mod V", where 'a = int]
    by linarith+
  have step: "knuth_step vn j (lo @ w @ hi) = (if sint t < 0
      then let (un, k) = for_range 0 ?n (addback_step vn j) (lo @ r @ [ucast t] @ hi, 0)
           in (ucast h - 1, un[j + ?n := ucast (ucast (un ! (j + ?n)) + k)])
      else (ucast h, lo @ r @ [ucast t] @ hi))"
    using r(1,2) lo w(1) vn(1) unfolding knuth_step_def
    by (simp add: Let_def nth_append dw list_update_append tp_def [symmetric] qhat_def [symmetric] h_def [symmetric] t_def [symmetric] del: for_range_empty)
  show thesis
  proof (cases "unat h = U div V")
    case True
    have e: "int (limbs_nat r) + int (LB ^ ?n) * d = int (U mod V)" unfolding main True using R by linarith
    have d0: "d = 0" using signed_borrow [OF e of_nat_0_le_iff bl [OF r(2)] bR(1,2)] by simp
    then have "t = 0" "limbs_nat r = U mod V" using t e by simp_all
    moreover from this have "knuth_step vn j (lo @ w @ hi) = (ucast h, lo @ r @ [0] @ hi)" using step by simp
    moreover have "unat (ucast h :: usint) = U div V" using h(1) True by (simp add: unat_ucast_64_32)
    ultimately show thesis using that [of "ucast h" r] r(2) Rl by (simp add: U_def V_def)
  next
    case False
    then have h1: "unat h = Suc (U div V)" using h by simp
    have e: "int (limbs_nat r) + int (LB ^ ?n) * d = int (U mod V) - int V" unfolding main h1 using R by (simp add: algebra_simps)
    have d1: "d = - 1" using signed_borrow [OF e of_nat_0_le_iff bl [OF r(2)] bR(3,5)] bR(4) by simp
    obtain s c where s: "for_range 0 ?n (addback_step vn j) (lo @ (r @ [ucast t]) @ hi, 0) = (lo @ s @ drop ?n (r @ [ucast t]) @ hi, c)" "length s = ?n" "unat c \<le> 1"
      "limbs_nat s + LB ^ ?n * unat c = limbs_nat (take ?n (r @ [ucast t])) + V"
      using addback_loop [OF lo, of ?n "r @ [ucast t]" vn hi] r(2) vn(1) unfolding V_def by auto
    have "int (limbs_nat s) + int (LB ^ ?n) * int (unat c) = int (limbs_nat r) + int V"
      using arg_cong [OF s(4), of int] r(2) by (simp only: of_nat_add of_nat_mult take_append take_all diff_self_eq_0 take0 append_Nil2 order_refl)
    then have f: "int (limbs_nat s) + int (LB ^ ?n) * (int (unat c) - 1) = int (U mod V)" using e unfolding d1 by (simp add: algebra_simps)
    have c1: "int (unat c) - 1 = 0" using signed_borrow [OF f of_nat_0_le_iff bl [OF s(2)] bR(1,2)] by simp
    then have sR: "int (limbs_nat s) = int (U mod V)" using f by (simp only: c1 mult_zero_right add_0_right)
    have "unat c = 1" using c1 by linarith
    then have c: "c = 1" by (simp add: word_unat_eq_iff)
    have tm: "(ucast t :: usint) = - 1" unfolding t d1 ucast_of_int by simp
    have "(- 1 :: usint) = 0xFFFFFFFF" by simp
    then have wrap: "(ucast (ucast (- 1 :: usint) + 1 :: NativeInt) :: usint) = 0" by (simp only:) simp
    have "knuth_step vn j (lo @ w @ hi) = (ucast h - 1, lo @ s @ [0] @ hi)"
      using step st d1 s(1,2) r(2) lo c by (simp add: Let_def nth_append list_update_append tm wrap del: for_range_empty)
    moreover have "unat (ucast h - 1 :: usint) = U div V"
    proof -
      have "unat (ucast h :: usint) = Suc (U div V)" using h(1) h1 by (simp add: unat_ucast_64_32)
      moreover from this have "(ucast h :: usint) \<noteq> 0" by auto
      ultimately show ?thesis by (simp add: unat_minus_one)
    qed
    ultimately show thesis using that [of "ucast h - 1" s] s(2) sR Rl by (simp add: U_def V_def)
  qed
qed

section \<open>Algorithm D\<close>

definition knuth_inv :: "usint list \<Rightarrow> nat \<Rightarrow> nat \<Rightarrow> nat \<Rightarrow> usint list \<times> usint list \<Rightarrow> bool" where
  "knuth_inv vn N count j = (\<lambda>(q, un). length q = count \<and> length un = count + length vn \<and> limbs_nat (drop j un) < limbs_nat vn \<and>
     N = limbs_nat vn * (LB ^ j * limbs_nat (drop j q)) + limbs_nat un)"

lemma knuth_loop_step:
  assumes vn: "length vn = Suc (Suc m)" "2 ^ 31 \<le> unat (vn ! Suc m)" and j: "j < count" and inv: "knuth_inv vn N count (Suc j) s"
  shows "knuth_inv vn N count j (case s of (q, un) \<Rightarrow> let (qj, un) = knuth_step vn j un in (q[j := qj], un))"
proof -
  let ?n = "Suc (Suc m)"
  obtain q un where s: "s = (q, un)" by fastforce
  define V where "V = limbs_nat vn"
  have i: "length q = count" "length un = count + ?n" "limbs_nat (drop (Suc j) un) < V" "N = V * (LB ^ Suc j * limbs_nat (drop (Suc j) q)) + limbs_nat un"
    using inv vn by (simp_all add: s knuth_inv_def V_def)
  define lo w hi where "lo = take j un" and "w = take (Suc ?n) (drop j un)" and "hi = drop (Suc ?n) (drop j un)"
  have "drop j un = w @ hi" unfolding w_def hi_def by (simp only: append_take_drop_id)
  then have un: "un = lo @ w @ hi" unfolding lo_def by (metis append_take_drop_id)
  have len: "length lo = j" "length w = Suc ?n" using i(2) j by (simp_all add: lo_def w_def)
  have "limbs_nat (drop j un) = unat (un ! j) + LB * limbs_nat (drop (Suc j) un)" using i(2) j by (intro drop_limbs) simp
  also have "\<dots> < LB * (limbs_nat (drop (Suc j) un) + 1)" using unat_lt_32 [of "un ! j"] by simp
  also have "\<dots> \<le> LB * V" using i(3) by (intro mult_le_mono2) simp
  finally have D: "limbs_nat w + LB ^ Suc ?n * limbs_nat hi < V * LB"
    using len by (simp add: \<open>drop j un = w @ hi\<close> limbs_nat_append mult.commute)
  have "V * LB < LB ^ Suc ?n" using limbs_nat_less [of vn] vn(1) by (simp add: V_def)
  then have "LB ^ Suc ?n * limbs_nat hi < LB ^ Suc ?n * 1" using D by linarith
  then have hi: "limbs_nat hi = 0" by (simp only: nat_mult_less_cancel_disj less_one)
  have wV: "limbs_nat w < limbs_nat vn * LB" using D by (simp add: V_def)
  obtain qj r where r: "knuth_step vn j (lo @ w @ hi) = (qj, lo @ r @ [0] @ hi)" "length r = ?n"
    "limbs_nat w = unat qj * limbs_nat vn + limbs_nat r" "limbs_nat r < limbs_nat vn"
    using knuth_step_value [OF vn len(2) wV len(1)] by blast
  have "limbs_nat (drop j (q[j := qj])) = unat qj + LB * limbs_nat (drop (Suc j) q)" using i(1) j by (simp add: drop_limbs)
  then have "V * (LB ^ j * limbs_nat (drop j (q[j := qj]))) = V * (LB ^ Suc j * limbs_nat (drop (Suc j) q)) + LB ^ j * (unat qj * V)"
    by (simp add: algebra_simps)
  moreover have "limbs_nat un = limbs_nat (lo @ r @ [0] @ hi) + LB ^ j * (unat qj * V)"
    using hi len r(2,3) by (simp add: un limbs_nat_append V_def algebra_simps)
  moreover have "limbs_nat (drop j (lo @ r @ [0] @ hi)) < V" using hi len(1) r(2,4) by (simp add: limbs_nat_append V_def)
  moreover have "length (lo @ r @ [0] @ hi) = length un" using len r(2) by (simp add: un)
  ultimately have "knuth_inv vn N count j (q[j := qj], lo @ r @ [0] @ hi)"
    using i vn(1) by (simp only: knuth_inv_def split_conv V_def length_list_update) simp
  then show ?thesis using r(1) by (simp add: s un)
qed

lemma knuth_loop_value:
  assumes vn: "length vn = Suc (Suc m)" "2 ^ 31 \<le> unat (vn ! Suc m)" and "length q = count" "length un = count + length vn"
    "limbs_nat (drop count un) < limbs_nat vn" "knuth_loop vn count q un = (q', un')"
  shows "length q' = count" "length un' = length un" "limbs_nat un' < limbs_nat vn" "limbs_nat un = limbs_nat vn * limbs_nat q' + limbs_nat un'"
proof -
  have "knuth_inv vn (limbs_nat un) count 0 (knuth_loop vn count q un)" unfolding knuth_loop_def
  proof (rule fold_rev_invariant)
    show "knuth_inv vn (limbs_nat un) count count (q, un)" using assms by (simp add: knuth_inv_def)
  qed (rule knuth_loop_step [OF vn])
  then show "length q' = count" "length un' = length un" "limbs_nat un' < limbs_nat vn" "limbs_nat un = limbs_nat vn * limbs_nat q' + limbs_nat un'"
    using assms by (simp_all add: knuth_inv_def)
qed

lemma scaled_division:
  fixes N D P :: nat
  assumes "N * P = D * P * q + r" "r < D * P" "0 < P"
  shows "q = N div D" "r div P = N mod D"
proof -
  have e: "r = (N mod D) * P \<and> q = N div D"
  proof -
    have "D * q \<le> N"
    proof (rule ccontr)
      assume "\<not> D * q \<le> N"
      then have "N * P < D * q * P" using assms(3) by simp
      then show False using assms(1) by (simp add: algebra_simps)
    qed
    then have r: "r = (N - D * q) * P" using assms(1) by (simp add: algebra_simps diff_mult_distrib)
    then have l: "N - D * q < D" using assms(2,3) by simp
    have "N div D = q" using \<open>D * q \<le> N\<close> l by (intro div_nat_eqI) (simp_all add: algebra_simps)
    then show ?thesis using r by (simp add: minus_mult_div_eq_mod flip: \<open>N div D = q\<close>)
  qed
  then show "q = N div D" "r div P = N mod D" using assms(3) by simp_all
qed

lemma knuth_value:
  assumes v: "length v = Suc (Suc m)" "v ! Suc m \<noteq> 0" and u: "length v \<le> length u" and q: "length q = length u + 1 - length v"
  defines "s \<equiv> nlz32 (v ! Suc m)"
  assumes loop: "knuth_loop (shl_limbs s v) (length u + 1 - length v) q (shl_limbs s u @ [shl_top s u]) = (q', un')"
  shows "length q' = length u + 1 - length v" "limbs_nat q' = limbs_nat u div limbs_nat v" "limbs_nat (shr_limbs s (length v) un') = limbs_nat u mod limbs_nat v"
proof -
  let ?vn = "shl_limbs s v" and ?un = "shl_limbs s u @ [shl_top s u]" and ?c = "length u + 1 - length v"
  have s: "s < 32" using nlz32_less [OF v(2)] by (simp add: s_def)
  have vs: "2 ^ 31 \<le> unat (v ! Suc m) * 2 ^ s" "unat (v ! Suc m) * 2 ^ s < LB" using nlz32_value [OF v(2)] by (simp_all add: s_def)
  have "?vn ! Suc m = shl_limb s v (Suc m)" unfolding shl_limbs_def using v(1) by (simp del: upt_Suc)
  then have "unat (?vn ! Suc m) = unat (v ! Suc m) * 2 ^ s mod LB + unat (v ! m) div 2 ^ (32 - s)"
    using or_disjoint_limb [OF s, of "v ! Suc m" "v ! m"] by (simp add: shl_limb_def m_limbBitLength_def)
  then have vtop: "2 ^ 31 \<le> unat (?vn ! Suc m)" using vs by simp
  have ne: "v \<noteq> []" "u \<noteq> []" using v(1) u by auto
  have lv: "last v = v ! Suc m" using v(1) ne by (simp add: last_conv_nth)
  have V: "limbs_nat ?vn = limbs_nat v * 2 ^ s" using limbs_nat_shl_exact [OF s ne(1)] vs(2) lv by simp
  have U: "limbs_nat ?un = limbs_nat u * 2 ^ s" by (rule limbs_nat_shl_top [OF s ne(2)])
  have init: "limbs_nat (drop ?c ?un) < limbs_nat ?vn"
  proof -
    have d: "drop ?c ?un = drop ?c (shl_limbs s u) @ [shl_top s u]" using v(1) u by simp
    have l: "length (drop ?c (shl_limbs s u)) = Suc m" using v(1) u by simp
    have "unat (u ! (length u - 1)) div 2 ^ (32 - s) < 2 ^ s"
    proof (rule less_mult_imp_div_less)
      have "2 ^ s * 2 ^ (32 - s) = LB" using s by (simp flip: power_add)
      then show "unat (u ! (length u - 1)) < 2 ^ s * 2 ^ (32 - s)" using unat_lt_32 by simp
    qed
    also have "(2 :: nat) ^ s \<le> 2 ^ 31" using s by (intro power_increasing) simp_all
    finally have "unat (shl_top s u) < unat (?vn ! Suc m)" using vtop by (simp add: unat_shl_top)
    moreover have "limbs_nat (drop ?c (shl_limbs s u)) < LB ^ Suc m" using limbs_nat_less [of "drop ?c (shl_limbs s u)"] l by simp
    ultimately have "limbs_nat (drop ?c (shl_limbs s u)) + LB ^ Suc m * unat (shl_top s u) < limbs_nat (take (Suc m) ?vn) + LB ^ Suc m * unat (?vn ! Suc m)"
      by (intro high_limb_less)
    also have "\<dots> = limbs_nat ?vn" using limbs_nat_take_Suc [of "Suc m" ?vn] v(1) by simp
    finally show ?thesis unfolding d using l by (simp add: limbs_nat_append)
  qed
  have lens: "length ?vn = Suc (Suc m)" "length ?un = ?c + length ?vn" using v(1) u by simp_all
  note r = knuth_loop_value [OF lens(1) vtop q lens(2) init loop]
  show "length q' = ?c" by (rule r(1))
  have e: "limbs_nat u * 2 ^ s = limbs_nat v * 2 ^ s * limbs_nat q' + limbs_nat un'" "limbs_nat un' < limbs_nat v * 2 ^ s"
    using r(3,4) by (simp_all add: U V)
  note sd = scaled_division [OF e]
  show "limbs_nat q' = limbs_nat u div limbs_nat v" using sd(1) by simp
  have "limbs_nat (take (length v) un') = limbs_nat un'"
  proof -
    have lu: "length v \<le> length un'" using r(2) lens v(1) by simp
    have "limbs_nat (take (length v) un') + LB ^ length v * limbs_nat (drop (length v) un') = limbs_nat un'"
      using limbs_nat_take_drop [of "length v" un'] lu by (simp add: min_absorb1)
    moreover have "limbs_nat un' < LB ^ length v" using r(3) limbs_nat_less [of ?vn] by simp
    ultimately have "LB ^ length v * limbs_nat (drop (length v) un') < LB ^ length v * 1" by linarith
    then have "limbs_nat (drop (length v) un') = 0" by (simp only: nat_mult_less_cancel_disj less_one)
    then show ?thesis using limbs_nat_take_drop [of "length v" un'] by simp
  qed
  then show "limbs_nat (shr_limbs s (length v) un') = limbs_nat u mod limbs_nat v"
    using limbs_nat_shr_limbs [OF s, of "length v" un'] v(1) r(2) lens sd(2) by simp
qed

section \<open>Quotients and remainders\<close>

lemma length_vresize [simp]: "length (vresize q n) = n"
  by (simp add: vresize_def)

text \<open>A divisor without zero limbs at the top is one limb long or the case of algorithm D.\<close>

lemma divisor_cases:
  assumes "normalized v" "0 < limbs_nat v"
  obtains v0 where "v = [v0]" "v0 \<noteq> 0" | m where "length v = Suc (Suc m)" "v ! Suc m \<noteq> 0"
proof -
  have l: "last v \<noteq> 0" "v \<noteq> []" using normalized_top [OF assms] assms(1) by (auto simp: normalized_def)
  show thesis
  proof (cases "length v = 1")
    case True
    then obtain v0 where "v = [v0]" by (auto simp: length_Suc_conv)
    then show thesis using that(1) l by simp
  next
    case False
    then obtain m where m: "length v = Suc (Suc m)" using l(2) by (cases v; cases "tl v") auto
    then show thesis using that(2) [OF m] l by (simp add: last_conv_nth)
  qed
qed

lemma div_vectors:
  assumes v: "normalized v" "0 < limbs_nat v" and u: "length v \<le> length u"
  shows "\<exists>q'. divq_vect q u v = Inr (Some q') \<and> q' \<noteq> [] \<and> limbs_nat q' = limbs_nat u div limbs_nat v"
    and "\<exists>r'. divr_vect r u v = Inr (Some r') \<and> r' \<noteq> [] \<and> limbs_nat r' = limbs_nat u mod limbs_nat v"
    and "length r0 = 1 \<Longrightarrow> \<exists>q' r'. divqr_vect q r0 u v = Inr (Some (q', r')) \<and> q' \<noteq> [] \<and> limbs_nat q' = limbs_nat u div limbs_nat v \<and>
      r' \<noteq> [] \<and> limbs_nat r' = limbs_nat u mod limbs_nat v"
proof (atomize (full), rule divisor_cases [OF v], goal_cases)
  case (1 v0)
  define q1 k1 where "q1 = fst (div_single v0 u (vresize q (length u)))" and "k1 = snd (div_single v0 u (vresize q (length u)))"
  define k2 where "k2 = snd (div_single v0 u (replicate (length u) 0))"
  have d1: "div_single v0 u (vresize q (length u)) = (q1, k1)" by (simp add: q1_def k1_def)
  have d2: "div_single v0 u (replicate (length u) 0) = (fst (div_single v0 u (replicate (length u) 0)), k2)" by (simp add: k2_def)
  note a = div_single_value [OF 1(2) length_vresize d1] and b = div_single_value [OF 1(2) length_replicate d2]
  have ne: "q1 \<noteq> []" using u 1(1) a(1) by (cases q1; cases u) auto
  have "vresize r (Suc 0) \<noteq> []" by (metis length_vresize length_0_conv nat.distinct(1))
  then obtain x where x: "vresize r (Suc 0) = [x]" by (metis length_vresize length_Suc_conv length_0_conv)
  have r0: "r0[0 := ucast k1] = [ucast k1]" if "length r0 = 1" using that by (cases r0) auto
  have g: "\<not> length u + 1 < length v" "\<not> (length u < length v \<or> length v = 0 \<or> v ! (length v - 1) = 0)" "length v = 1" "v ! 0 = v0" "length u + 1 - length v = length u"
    using u 1 by (cases u; simp)+
  have "divq_vect q u v = Inr (Some q1)" using g(1-4) d1 unfolding divq_vect_def Let_def g(5) by simp
  moreover have "divr_vect r u v = Inr (Some [ucast k2])" using g(1-4) x k2_def unfolding divr_vect_def Let_def g(5) by simp
  moreover have "divqr_vect q r0 u v = Inr (Some (q1, [ucast k1]))" if "length r0 = 1"
    using g(1-4) d1 r0 [OF that] that unfolding divqr_vect_def Let_def g(5) by auto
  ultimately show ?case using a b ne 1(1) by auto
next
  case (2 m)
  define s where "s = nlz32 (v ! Suc m)"
  let ?c = "length u + 1 - length v" and ?vn = "shl_limbs s v" and ?un = "shl_limbs s u @ [shl_top s u]"
  obtain q1 u1 where l1: "knuth_loop ?vn ?c (vresize q ?c) ?un = (q1, u1)" by fastforce
  obtain q2 u2 where l2: "knuth_loop ?vn ?c (replicate ?c 0) ?un = (q2, u2)" by fastforce
  note a = knuth_value [OF 2 u length_vresize, folded s_def, OF l1] and b = knuth_value [OF 2 u length_replicate, folded s_def, OF l2]
  have ne: "q1 \<noteq> []" using a(1) u by auto
  have nr: "shr_limbs s n w \<noteq> []" for n w by (simp add: shr_limbs_def)
  have g: "\<not> length u + 1 < length v" "\<not> (length u < length v \<or> length v = 0 \<or> v ! (length v - 1) = 0)" "length v \<noteq> 1" "v ! (length v - 1) = v ! Suc m"
    using u 2 by simp_all
  have "divq_vect q u v = Inr (Some q1)" using g(1-3) l1 unfolding divq_vect_def Let_def g(4) s_def [symmetric] by simp
  moreover have "divr_vect r u v = Inr (Some (shr_limbs s (length v) u2))" using g(1-3) l2 unfolding divr_vect_def Let_def g(4) s_def [symmetric] by simp
  moreover have "divqr_vect q r0 u v = Inr (Some (q1, shr_limbs s (length v) u1))" using g(1-3) l1 unfolding divqr_vect_def Let_def g(4) s_def [symmetric] by simp
  ultimately show ?case using a b ne nr by auto
qed

lemma length_nat_limbs_nbits_mono: "nbits b \<le> nbits a \<Longrightarrow> length (nat_limbs b) \<le> length (nat_limbs a)"
proof -
  assume "nbits b \<le> nbits a"
  also have "nbits a \<le> 32 * length (nat_limbs a)" using limbs_nat_less [of "nat_limbs a"] by (simp add: nbits_le_iff LB_power)
  finally have "b < LB ^ length (nat_limbs a)" by (simp add: nbits_le_iff LB_power)
  then show ?thesis using length_nat_limbs_le [of "length (nat_limbs a)" b] by simp
qed

lemma BI_DividedBy_of: "BI_DividedBy (ub_of a) (ub_of b) = (if b = 0 then Inl math_error else Inr (ub_of (a div b)))"
proof -
  consider "b = 0" | "0 < b" "nbits a < nbits b" | "0 < b" "nbits b \<le> nbits a" "a = b" | "0 < b" "nbits b \<le> nbits a" "a \<noteq> b" by linarith
  then show ?thesis
  proof cases
    case 2
    then show ?thesis using nbits_less_imp [of a b] by (simp add: BI_DividedBy_def)
  next
    case 4
    then obtain q where q: "divq_vect (nat_limbs 0) (nat_limbs a) (nat_limbs b) = Inr (Some q)" "q \<noteq> []" "limbs_nat q = a div b"
      using div_vectors(1) [of "nat_limbs b" "nat_limbs a" "nat_limbs 0"] length_nat_limbs_nbits_mono [of b a] by auto
    obtain w where w: "NormalizeLimbs \<lparr>ub_value = q, ub_MSB = 0, ub_state = INITIALIZED\<rparr> = Inr \<lparr>ub_value = w, ub_MSB = 0, ub_state = INITIALIZED\<rparr>"
      "normalized w" "limbs_nat w = limbs_nat q" using NormalizeLimbs_value [OF q(2)] .
    show ?thesis using 4 q w SetMSB_normalized [OF w(2), of 0] by (simp add: BI_DividedBy_def ubint_default_def from_code_def)
  qed (simp_all add: BI_DividedBy_def)
qed

lemma BI_DividedByEq_of: "BI_DividedByEq (ub_of a) (ub_of b) = (if b = 0 then Inl math_error else Inr (ub_of (a div b)))"
  by (simp add: BI_DividedByEq_def BI_DividedBy_of)

text \<open>What \<open>Mod\<close> and \<open>ModEq\<close> do with a modulus that is not larger than the number.\<close>

lemma mod_by_two: "(if (of_nat a :: usint) mod 2 = 0 then 0 else 1 :: NativeInt) = of_nat (a mod 2)"
proof -
  have "unat ((of_nat a :: usint) mod 2) = a mod 2" by (simp add: unat_mod_distrib unat_of_nat_limb mod_mod_cancel)
  then have "(of_nat a :: usint) mod 2 = 0 \<longleftrightarrow> a mod 2 = 0" by (metis unat_0 word_unat_eq_iff)
  then show ?thesis by (auto simp: mod_2_eq_odd)
qed

lemma mod_rest_of:
  assumes "0 < b" "b \<le> a"
  shows "res_bind (if nbits b = 2 then res_bind (elem_at (nat_limbs b) 0) (\<lambda>m0. Inr (m0 = 2)) else Inr False) (\<lambda>two.
     if two then res_bind (elem_at (nat_limbs a) 0) (\<lambda>x0. Inr (ubint_u64 (if x0 mod 2 = 0 then 0 else 1)))
     else res_bind (divr_vect (vresize (ub_value (ubint_u64 0)) (length (nat_limbs b))) (nat_limbs a) (nat_limbs b)) (\<lambda>f.
          res_bind (from_code f) (\<lambda>r. res_bind (NormalizeLimbs ((ubint_u64 0)\<lparr>ub_value := r\<rparr>)) SetMSB))) = Inr (ub_of (a mod b))"
proof -
  obtain r where r: "divr_vect (vresize (ub_value (ubint_u64 0)) (length (nat_limbs b))) (nat_limbs a) (nat_limbs b) = Inr (Some r)" "r \<noteq> []" "limbs_nat r = a mod b"
    using div_vectors(2) [of "nat_limbs b" "nat_limbs a"] length_nat_limbs_mono [OF assms(2)] assms(1) by auto
  have n: "res_bind (NormalizeLimbs ((ub_of 0)\<lparr>ub_value := r\<rparr>)) SetMSB = Inr (ub_of (a mod b))"
    using NormalizeLimbs_SetMSB [OF r(2), of 0] r(3) by (simp add: ub_of_def del: res_bind_eq_Inr)
  have two: "(nat_limbs b ! 0 = 2) = (b = 2)" if "nbits b = 2"
  proof -
    have "b < 2 ^ 2" using nbits_bounds [of b] that by simp
    then show ?thesis by (simp add: nat_limbs_small) (simp add: word_unat_eq_iff unat_of_nat_limb)
  qed
  have "nat_limbs a ! 0 = of_nat a" using nth_nat_limbs [of 0 a] by simp
  then have even: "ubint_u64 (if nat_limbs a ! 0 mod 2 = 0 then 0 else 1) = ub_of (a mod 2)"
    by (simp only: mod_by_two ubint_u64_of) (simp add: unat_of_nat mod_less_eq_dividend less_le_trans [OF mod_less_divisor])
  show ?thesis using r two even n
    by (auto simp: elem_at_nth from_code_def simp del: res_bind_eq_Inr)
qed

lemma mod_small: "nbits a < nbits b \<or> nbits a = nbits b \<and> a < b \<Longrightarrow> a mod b = a"
  using nbits_less_imp [of a b] by auto

lemma BI_Mod_of: "BI_Mod (ub_of a) (ub_of b) = (if b = 0 then Inl math_error else Inr (ub_of (a mod b)))"
proof -
  consider "b = 0" | "0 < b" "nbits a < nbits b" | "0 < b" "nbits a = nbits b" "a < b" | "0 < b" "b \<le> a"
    using nbits_mono [of a b] by force
  then show ?thesis
  proof cases
    case 4
    then have "\<not> nbits a < nbits b" "(if nbits a = nbits b then Inr (a < b) else Inr False) = (Inr False :: bool result)" using nbits_mono [of b a] by auto
    moreover have "BI_eq (ub_of b) (ubint_u64 0) = Inr False" using 4 by simp
    ultimately show ?thesis using 4 mod_rest_of [OF 4] last_nat_limbs [OF 4(1)] by (simp add: BI_Mod_def del: res_bind_eq_Inr ubint_u64_small cong: if_cong)
  next
    case 2
    then show ?thesis using mod_small [of a b] last_nat_limbs [of b] by (auto simp: BI_Mod_def)
  next
    case 3
    then show ?thesis using last_nat_limbs [of b] by (auto simp: BI_Mod_def)
  qed (simp_all add: BI_Mod_def)
qed

lemma BI_ModEq_of: "BI_ModEq (ub_of a) (ub_of b) = (if b = 0 then Inl not_available_error else Inr (ub_of (a mod b)))"
proof -
  consider "b = 0" | "0 < b" "nbits a < nbits b" | "0 < b" "nbits a = nbits b" "a < b" | "0 < b" "b \<le> a"
    using nbits_mono [of a b] by force
  then show ?thesis
  proof cases
    case 4
    then have "\<not> nbits a < nbits b" "(if nbits a = nbits b then Inr (a < b) else Inr False) = (Inr False :: bool result)" using nbits_mono [of b a] by auto
    moreover have "BI_eq (ub_of b) (ubint_u64 0) = Inr False" using 4 by simp
    ultimately show ?thesis using 4 mod_rest_of [OF 4] last_nat_limbs [OF 4(1)] by (simp add: BI_ModEq_def del: res_bind_eq_Inr ubint_u64_small cong: if_cong)
  next
    case 2
    then show ?thesis using mod_small [of a b] last_nat_limbs [of b] by (auto simp: BI_ModEq_def)
  next
    case 3
    then show ?thesis using last_nat_limbs [of b] by (auto simp: BI_ModEq_def)
  qed (simp_all add: BI_ModEq_def)
qed

section \<open>Rounded quotients\<close>

definition round_div :: "nat \<Rightarrow> nat \<Rightarrow> nat" where
  "round_div a b = (if a mod b \<le> b div 2 then a div b else a div b + 1)"

lemma BI_DivideAndRound_of: "BI_DivideAndRound (ub_of a) (ub_of b) = (if b = 0 then Inl math_error else Inr (ub_of (round_div a b)))"
proof -
  consider "b = 0" | "0 < b" "a < b" | "0 < b" "b \<le> a" by linarith
  then show ?thesis
  proof cases
    case 2
    then show ?thesis by (simp add: BI_DivideAndRound_def BI_RShift_of round_div_def)
  next
    case 3
    obtain q r where qr: "divqr_vect [0] [0] (nat_limbs a) (nat_limbs b) = Inr (Some (q, r))"
      "q \<noteq> []" "limbs_nat q = a div b" "r \<noteq> []" "limbs_nat r = a mod b"
      using div_vectors(3) [of "nat_limbs b" "nat_limbs a" "[0]" "[0]"] length_nat_limbs_mono [OF 3(2)] 3(1) by auto
    obtain x where x: "NormalizeLimbs \<lparr>ub_value = q, ub_MSB = 0, ub_state = INITIALIZED\<rparr> = Inr \<lparr>ub_value = x, ub_MSB = 0, ub_state = INITIALIZED\<rparr>"
      "normalized x" "limbs_nat x = limbs_nat q" using NormalizeLimbs_value [OF qr(2)] .
    obtain y where y: "NormalizeLimbs \<lparr>ub_value = r, ub_MSB = 0, ub_state = INITIALIZED\<rparr> = Inr \<lparr>ub_value = y, ub_MSB = 0, ub_state = INITIALIZED\<rparr>"
      "normalized y" "limbs_nat y = limbs_nat r" using NormalizeLimbs_value [OF qr(4)] .
    have z: "(ub_of 0)\<lparr>ub_value := v\<rparr> = \<lparr>ub_value = v, ub_MSB = 0, ub_state = INITIALIZED\<rparr>" for v by (simp add: ub_of_def)
    have "BI_DivideAndRound (ub_of a) (ub_of b) = (if a mod b \<le> b div 2 then Inr (ub_of (a div b)) else BI_AddEq (ub_of (a div b)) (ub_of 1))"
      using 3 qr x y SetMSB_normalized [OF x(2), of 0] SetMSB_normalized [OF y(2), of 0]
      by (simp add: BI_DivideAndRound_def BI_RShift_of from_code_def z)
    then show ?thesis using 3 by (simp add: round_div_def BI_AddEq_of del: One_nat_def)
  qed (simp add: BI_DivideAndRound_def)
qed

lemma BI_MultiplyAndRound_of:
  "BI_MultiplyAndRound (ub_of a) (ub_of p) (ub_of q) = (if q = 0 then Inl math_error else Inr (ub_of (round_div (a * p) q)))"
  "BI_MultiplyAndRoundEq (ub_of a) (ub_of p) (ub_of q) = (if q = 0 then Inl math_error else Inr (ub_of (round_div (a * p) q)))"
  by (simp_all add: BI_MultiplyAndRound_def BI_MultiplyAndRoundEq_def BI_DivideAndRoundEq_def BI_MulEq_of BI_DivideAndRound_of)

text \<open>\<open>round_div\<close> is the quotient of a division whose remainder is at most half the divisor in absolute value, up to the half of an odd divisor.\<close>

lemma round_div_error:
  assumes "0 < b"
  shows "\<bar>2 * (int a - int b * int (round_div a b))\<bar> \<le> int b"
proof -
  have e: "int a = int b * int (a div b) + int (a mod b)" by (simp flip: of_nat_mult of_nat_add)
  have "a mod b < b" using assms by simp
  then show ?thesis unfolding round_div_def e by (auto simp: algebra_simps abs_le_iff)
qed

end
