(* ===== verification/BigMod.thy ===== *)
theory BigMod
  imports BigDiv
begin

text \<open>
  The modular methods of \<open>BigInt\<close>: sums, differences and products of residues, powers by repeated squaring and the inverse by the Euclidean algorithm, together with the
  properties of the arithmetic of \<open>BigNat\<close> and \<open>BigDiv\<close>. The two loops, of \<open>ModExp\<close> and of \<open>ModInverse\<close>, are partial functions; they are shown to return.
\<close>

section \<open>Sums and differences modulo a number\<close>

lemmas BI_of = BI_Add_of BI_AddEq_of BI_Sub_of BI_SubEq_of BI_Mul_of BI_MulEq_of BI_DividedBy_of BI_Mod_of BI_ModEq_of

lemma reduced_of: "0 < m \<Longrightarrow> mod_operand BI_ModEq (ub_of a) (ub_of m) = Inr (ub_of (a mod m))"
  by (simp add: mod_operand_def BI_of)

lemma reduced_zero: "mod_operand BI_ModEq (ub_of a) (ub_of 0) = Inl not_available_error"
  by (simp add: mod_operand_def BI_of)

lemma BI_ModEq_mu_of: "(\<lambda>y modulus. BI_ModEq_mu y modulus mu) = BI_ModEq"
  by (simp add: BI_ModEq_mu_def fun_eq_iff)

lemma ModAdd_of:
  "0 < m \<Longrightarrow> BI_ModAdd (ub_of a) (ub_of b) (ub_of m) = Inr (ub_of ((a + b) mod m))"
  "0 < m \<Longrightarrow> BI_ModAddEq (ub_of a) (ub_of b) (ub_of m) = Inr (ub_of ((a + b) mod m))"
  "0 < m \<Longrightarrow> BI_ModAddFast (ub_of a) (ub_of b) (ub_of m) = Inr (ub_of ((a + b) mod m))"
  "0 < m \<Longrightarrow> BI_ModAddFastEq (ub_of a) (ub_of b) (ub_of m) = Inr (ub_of ((a + b) mod m))"
  "0 < m \<Longrightarrow> BI_ModAdd_mu (ub_of a) (ub_of b) (ub_of m) mu = Inr (ub_of ((a + b) mod m))"
  "0 < m \<Longrightarrow> BI_ModAddEq_mu (ub_of a) (ub_of b) (ub_of m) mu = Inr (ub_of ((a + b) mod m))"
  by (simp_all add: BI_ModAdd_def BI_ModAddEq_def BI_ModAddFast_def BI_ModAddFastEq_def BI_ModAdd_mu_def BI_ModAddEq_mu_def BI_ModEq_mu_def
      reduced_of BI_of mod_add_eq)

text \<open>The difference as a residue.\<close>

definition sub_mod :: "nat \<Rightarrow> nat \<Rightarrow> nat \<Rightarrow> nat" where
  "sub_mod a b m = nat ((int a - int b) mod int m)"

lemma sub_mod_ge: "b \<le> a \<Longrightarrow> (a - b) mod m = sub_mod a b m"
  by (simp add: sub_mod_def nat_mod_distrib flip: of_nat_diff)

lemma sub_mod_less: "a < b \<Longrightarrow> b \<le> a + m \<Longrightarrow> a + m - b = sub_mod a b m"
proof -
  assume ab: "a < b" "b \<le> a + m"
  have "(int a - int b) mod int m = (int a - int b + int m) mod int m" by simp
  also have "int a - int b + int m = int (a + m - b)" using ab by simp
  also have "int (a + m - b) mod int m = int (a + m - b)" using ab by simp
  finally show ?thesis by (simp only: sub_mod_def nat_int)
qed

lemma mod_diff_of: "0 < m \<Longrightarrow> b \<le> a + m \<Longrightarrow> mod_diff BI_ModEq (ub_of a) (ub_of b) (ub_of m) = Inr (ub_of (sub_mod a b m))"
  by (simp add: mod_diff_def BI_of sub_mod_ge sub_mod_less)

lemma sub_mod_reduced: "0 < m \<Longrightarrow> sub_mod (a mod m) (b mod m) m = sub_mod a b m"
  by (simp add: sub_mod_def zmod_int mod_diff_eq)

lemma mod_diff_reduced: "0 < m \<Longrightarrow> mod_diff BI_ModEq (ub_of (a mod m)) (ub_of (b mod m)) (ub_of m) = Inr (ub_of (sub_mod a b m))"
  by (subst mod_diff_of) (simp_all add: sub_mod_reduced less_imp_le trans_le_add2)

lemma ModSub_of:
  "0 < m \<Longrightarrow> BI_ModSub (ub_of a) (ub_of b) (ub_of m) = Inr (ub_of (sub_mod a b m))"
  "0 < m \<Longrightarrow> BI_ModSubEq (ub_of a) (ub_of b) (ub_of m) = Inr (ub_of (sub_mod a b m))"
  "0 < m \<Longrightarrow> BI_ModSub_mu (ub_of a) (ub_of b) (ub_of m) mu = Inr (ub_of (sub_mod a b m))"
  "0 < m \<Longrightarrow> BI_ModSubEq_mu (ub_of a) (ub_of b) (ub_of m) mu = Inr (ub_of (sub_mod a b m))"
  "0 < m \<Longrightarrow> b \<le> a + m \<Longrightarrow> BI_ModSubFast (ub_of a) (ub_of b) (ub_of m) = Inr (ub_of (sub_mod a b m))"
  "0 < m \<Longrightarrow> b \<le> a + m \<Longrightarrow> BI_ModSubFastEq (ub_of a) (ub_of b) (ub_of m) = Inr (ub_of (sub_mod a b m))"
  by (simp_all add: BI_ModSub_def BI_ModSubEq_def BI_ModSub_mu_def BI_ModSubEq_mu_def BI_ModSubFast_def BI_ModSubFastEq_def Let_def BI_ModEq_mu_of
      reduced_of mod_diff_reduced mod_diff_of)

section \<open>Products modulo a number\<close>

lemma mul_shifted_of:
  assumes "0 < a" "limb \<noteq> 0"
  shows "mul_shifted (nat_limbs a) i limb = Inr (ub_of (LB ^ i * (a * unat limb)))"
proof -
  have n: "normalized (mul_row (nat_limbs a) (ucast limb) 0)" using assms by (intro mul_row_normalized) simp_all
  moreover have "0 < limbs_nat (mul_row (nat_limbs a) (ucast limb) 0)" using assms by (simp add: mul_row_value word_ge_0_nat)
  ultimately have "last (mul_row (nat_limbs a) (ucast limb) 0) \<noteq> 0" "mul_row (nat_limbs a) (ucast limb) 0 \<noteq> []"
    using normalized_top by (auto simp: normalized_def)
  then have "normalized (replicate i 0 @ mul_row (nat_limbs a) (ucast limb) 0)" by (simp add: normalized_def)
  then show ?thesis using SetMSB_normalized by (simp add: mul_shifted_def limbs_nat_append mul_row_value)
qed

lemma mod_mul_loop:
  assumes "0 < a" "0 < m" "0 \<notin> set (nat_limbs b)"
  shows "res_range 0 (length (nat_limbs b)) (\<lambda>i ans. res_bind (elem_at (nat_limbs b) i) (\<lambda>limb. res_bind (mul_shifted (nat_limbs a) i limb) (\<lambda>tmpans.
      res_bind (BI_AddEq ans tmpans) (\<lambda>ans. BI_Mod ans (ub_of m))))) (ub_of 0) = Inr (ub_of (a * b mod m))"
proof -
  let ?f = "\<lambda>i ans. res_bind (elem_at (nat_limbs b) i) (\<lambda>limb. res_bind (mul_shifted (nat_limbs a) i limb) (\<lambda>tmpans.
      res_bind (BI_AddEq ans tmpans) (\<lambda>ans. BI_Mod ans (ub_of m))))"
  let ?P = "\<lambda>i ans. ans = ub_of (a * limbs_nat (take i (nat_limbs b)) mod m)"
  have "\<exists>r. res_range 0 (length (nat_limbs b)) ?f (ub_of 0) = Inr r \<and> ?P (length (nat_limbs b)) r"
  proof (rule res_range_invariant [where P = ?P])
    fix i ans
    assume i: "i < length (nat_limbs b)" and ans: "?P i ans"
    have "nat_limbs b ! i \<noteq> 0" using assms(3) i by (metis nth_mem)
    then have "?f i ans = Inr (ub_of ((a * limbs_nat (take i (nat_limbs b)) mod m + LB ^ i * (a * unat (nat_limbs b ! i))) mod m))"
      using i ans assms by (simp add: elem_at_nth mul_shifted_of BI_of)
    also have "(a * limbs_nat (take i (nat_limbs b)) mod m + LB ^ i * (a * unat (nat_limbs b ! i))) mod m = a * limbs_nat (take (Suc i) (nat_limbs b)) mod m"
      using i by (simp add: mod_add_left_eq limbs_nat_take_Suc algebra_simps)
    finally show "\<exists>r. ?f i ans = Inr r \<and> ?P (Suc i) r" by blast
  qed simp_all
  then show ?thesis by simp
qed

lemma BI_ModMul_of:
  assumes "a < m" "b < m" "0 \<notin> set (nat_limbs b) \<or> b = 0"
  shows "BI_ModMul (ub_of a) (ub_of b) (ub_of m) = Inr (ub_of (a * b mod m))"
proof -
  consider "a = 0 \<or> b = 0" | "a \<noteq> 0" "b \<noteq> 0" "nbits b = 1" | "a \<noteq> 0" "b \<noteq> 0" "nbits b \<noteq> 1" "nbits a = 1"
    | "a \<noteq> 0" "b \<noteq> 0" "nbits b \<noteq> 1" "nbits a \<noteq> 1" by blast
  then show ?thesis
  proof cases
    case 1
    then show ?thesis by (auto simp: BI_ModMul_def)
  next
    case 2
    then show ?thesis using assms nbits_eq_1 [of b] by (simp add: BI_ModMul_def)
  next
    case 3
    then show ?thesis using assms nbits_eq_1 [of a] by (simp add: BI_ModMul_def)
  next
    case 4
    then show ?thesis using assms mod_mul_loop [of a m b] by (simp add: BI_ModMul_def del: res_bind_eq_Inr)
  qed
qed

section \<open>Powers modulo a number\<close>

definition exp_step :: "nat \<Rightarrow> nat \<Rightarrow> nat \<Rightarrow> nat \<Rightarrow> nat" where
  "exp_step m mid prd ex = (let p = (if odd ex then prd * mid else prd) in if p > m then p mod m else p)"

lemma first_limb_odd: "(nat_limbs n ! 0) mod 2 = 1 \<longleftrightarrow> odd n"
proof -
  have e: "nat_limbs n ! 0 = of_nat n" using nth_nat_limbs [of 0 n] by simp
  have "unat ((of_nat n :: usint) mod 2) = n mod 2" by (simp add: unat_mod_distrib unat_of_nat_limb mod_mod_cancel)
  then have "(of_nat n :: usint) mod 2 = 1 \<longleftrightarrow> n mod 2 = 1" by (metis unat_1 word_unat_eq_iff)
  then show ?thesis unfolding e by (simp only: odd_iff_mod_2_eq_one)
qed

lemma ModExp_step_of: "0 < m \<Longrightarrow> ModExp_step (ub_of m) (ub_of mid) (ub_of prd) (ub_of ex) = Inr (ub_of (exp_step m mid prd ex), ub_of (ex div 2), ex div 2 = 0)"
  by (simp add: ModExp_step_def elem_at_nth first_limb_odd BI_of BI_RShift_of exp_step_def Let_def)

lemma exp_step_le: "0 < m \<Longrightarrow> exp_step m mid prd ex \<le> m"
  by (auto simp: exp_step_def Let_def less_imp_le)

lemma exp_step_cong: "exp_step m mid prd ex mod m = prd * mid ^ (ex mod 2) mod m"
  by (cases "even ex") (auto simp: exp_step_def Let_def even_iff_mod_2_eq_zero odd_iff_mod_2_eq_one)

lemma exp_halving: "mid ^ (ex mod 2) * (mid * mid mod m) ^ (ex div 2) mod m = mid ^ ex mod (m :: nat)"
proof -
  have "ex = ex mod 2 + 2 * (ex div 2)" by simp
  then have "mid ^ ex = mid ^ (ex mod 2) * (mid * mid) ^ (ex div 2)" by (metis power_add power_mult power2_eq_square)
  moreover have "mid ^ (ex mod 2) * (mid * mid mod m) ^ (ex div 2) mod m = mid ^ (ex mod 2) * ((mid * mid mod m) ^ (ex div 2) mod m) mod m"
    by (simp only: mod_mult_right_eq)
  ultimately show ?thesis by (simp only: power_mod mod_mult_right_eq)
qed

lemma BI_ModExp_loop_of:
  assumes "0 < m"
  shows "\<exists>r. BI_ModExp_loop (ub_of m) (ub_of mid) (ub_of prd) (ub_of ex) = Some (Inr (ub_of r)) \<and> r mod m = prd * mid ^ ex mod m \<and> r \<le> m"
proof (induction ex arbitrary: mid prd rule: less_induct)
  case (less ex)
  let ?p = "exp_step m mid prd ex"
  show ?case
  proof (cases "ex div 2 = 0")
    case True
    then have "ex mod 2 = ex" by (cases "ex = 0") (auto simp: div_eq_0_iff)
    then show ?thesis using True assms exp_step_cong [of m mid prd ex] exp_step_le [OF assms]
      by (subst BI_ModExp_loop.simps) (simp add: ModExp_step_of)
  next
    case False
    then have "ex div 2 < ex" by (cases "ex = 0") auto
    from less.IH [OF this, of "mid * mid mod m" ?p] obtain r where
      r: "BI_ModExp_loop (ub_of m) (ub_of (mid * mid mod m)) (ub_of ?p) (ub_of (ex div 2)) = Some (Inr (ub_of r))"
        "r mod m = ?p * (mid * mid mod m) ^ (ex div 2) mod m" "r \<le> m" by blast
    have "?p * (mid * mid mod m) ^ (ex div 2) mod m = (?p mod m) * (mid * mid mod m) ^ (ex div 2) mod m" by (simp only: mod_mult_left_eq)
    also have "\<dots> = prd * (mid ^ (ex mod 2) * (mid * mid mod m) ^ (ex div 2) mod m) mod m"
      unfolding exp_step_cong mod_mult_left_eq mod_mult_right_eq by (simp only: mult.assoc)
    also have "\<dots> = prd * mid ^ ex mod m" by (simp only: exp_halving mod_mult_right_eq)
    finally have "r mod m = prd * mid ^ ex mod m" using r(2) by simp
    moreover have "BI_ModExp_loop (ub_of m) (ub_of mid) (ub_of prd) (ub_of ex) = Some (Inr (ub_of r))"
      using False assms r(1) by (subst BI_ModExp_loop.simps) (simp add: ModExp_step_of BI_of)
    ultimately show ?thesis using r(3) by blast
  qed
qed

lemma BI_ModExp_of:
  assumes "0 < m"
  obtains r where "BI_ModExp (ub_of a) (ub_of e) (ub_of m) = Some (Inr (ub_of r))" "r mod m = a ^ e mod m" "r \<le> m"
proof -
  obtain r where "BI_ModExp_loop (ub_of m) (ub_of (a mod m)) (ub_of 1) (ub_of e) = Some (Inr (ub_of r))" "r mod m = 1 * (a mod m) ^ e mod m" "r \<le> m"
    using BI_ModExp_loop_of [OF assms] by blast
  then show thesis using that assms by (simp add: BI_ModExp_def BI_of power_mod)
qed

section \<open>The inverse modulo a number\<close>

text \<open>The quotients of the Euclidean algorithm from two consecutive remainders down to the remainder 1.\<close>

fun euclid_quots :: "nat \<Rightarrow> nat \<Rightarrow> nat list \<Rightarrow> bool" where
  "euclid_quots a b [] \<longleftrightarrow> b = 1 \<and> 0 < a"
| "euclid_quots a b (q # qs) \<longleftrightarrow> 0 < b \<and> q = a div b \<and> euclid_quots b (a mod b) qs"

definition south_step :: "nat \<Rightarrow> nat \<times> nat \<Rightarrow> nat \<times> nat" where
  "south_step q = (\<lambda>(f, s). (s, q * s + f))"

lemma south_step_pair [simp]: "south_step q (f, s) = (s, q * s + f)"
  by (simp add: south_step_def)

lemma south_steps:
  assumes "euclid_quots a b qs" "foldr south_step qs (0, 1) = (f, s)"
  shows "int s * int b - int f * int a = (- 1) ^ length qs \<and> s \<le> a \<and> f \<le> b"
  using assms
proof (induction qs arbitrary: a b f s)
  case Nil
  then show ?case by auto
next
  case (Cons q qs)
  obtain f0 s0 where fs: "foldr south_step qs (0, 1) = (f0, s0)" by fastforce
  have c: "0 < b" "q = a div b" "euclid_quots b (a mod b) qs" using Cons.prems(1) by auto
  have n: "f = s0" "s = q * s0 + f0" using Cons.prems(2) fs by auto
  have ih: "int s0 * int (a mod b) - int f0 * int b = (- 1) ^ length qs" "s0 \<le> b" "f0 \<le> a mod b" using Cons.IH [OF c(3) fs] by auto
  have a: "a = q * b + a mod b" by (simp add: c(2))
  have "s \<le> a"
  proof -
    have "q * s0 \<le> q * b" using ih(2) by (intro mult_le_mono2)
    then show ?thesis unfolding n using a ih(3) by linarith
  qed
  moreover have "int s * int b - int f * int a = - (int s0 * int (a mod b) - int f0 * int b)"
  proof -
    have "int a = int q * int b + int (a mod b)" using a by (metis of_nat_add of_nat_mult)
    then show ?thesis unfolding n by (simp add: algebra_simps)
  qed
  ultimately show ?case using ih n by simp
qed

declare ModInverse_south.simps [simp del]

lemma ModInverse_south_of:
  "i \<le> length ns \<Longrightarrow> ModInverse_south i (map ub_of ns) (ub_of f) (ub_of s) (ub_of s) = Inr (ub_of (snd (foldr south_step (take i ns) (f, s))))"
proof (induction i arbitrary: f s)
  case 0
  then show ?case by (simp add: ModInverse_south.simps)
next
  case (Suc i)
  then show ?case by (subst ModInverse_south.simps) (simp add: elem_at_nth BI_of take_Suc_conv_app_nth)
qed

lemma ModInverse_south_start:
  assumes "ns \<noteq> []"
  shows "ModInverse_south (length ns) (map ub_of ns) (ub_of 0) (ub_of 1) mod_back = Inr (ub_of (snd (foldr south_step ns (0, 1))))"
proof -
  obtain i where i: "length ns = Suc i" using assms by (cases ns) auto
  have "ModInverse_south (length ns) (map ub_of ns) (ub_of 0) (ub_of 1) mod_back = ModInverse_south (length ns) (map ub_of ns) (ub_of 0) (ub_of 1) (ub_of 1)"
    unfolding i ModInverse_south.simps by simp
  then show ?thesis using ModInverse_south_of [of "length ns" ns 0 1] by simp
qed

lemma ModInverse_north_of:
  assumes "r < s" "coprime s r" "1 < s"
  shows "\<exists>qs. ModInverse_north first (ub_of s) (ub_of r) Q = Some (Inr (Q @ map ub_of qs)) \<and> euclid_quots s r qs"
  using assms
proof (induction r arbitrary: first s Q rule: less_induct)
  case (less r)
  consider "r = 1" | "r = 0" | "1 < r" by linarith
  then show ?case
  proof cases
    case 1
    then show ?thesis using less.prems by (subst ModInverse_north.simps) (auto intro!: exI [of _ "[]"] simp del: One_nat_def)
  next
    case 2
    then show ?thesis using less.prems by simp
  next
    case 3
    have "coprime r (s mod r)" using less.prems(2) 3 by (simp add: coprime_iff_gcd_eq_1 gcd.commute [of r] flip: gcd_red_nat)
    then obtain qs where qs: "ModInverse_north (ub_of s) (ub_of r) (ub_of (s mod r)) (Q @ [ub_of (s div r)]) = Some (Inr ((Q @ [ub_of (s div r)]) @ map ub_of qs))"
      "euclid_quots r (s mod r) qs" using less.IH [of "s mod r" r] 3 by fastforce
    then show ?thesis using 3 by (subst ModInverse_north.simps) (auto intro!: exI [of _ "s div r # qs"] simp: BI_of)
  qed
qed

lemma ModInverse_north_error:
  assumes "r < s" "\<not> coprime s r"
  shows "ModInverse_north first (ub_of s) (ub_of r) Q = Some (Inl math_error)"
  using assms
proof (induction r arbitrary: first s Q rule: less_induct)
  case (less r)
  show ?case
  proof (cases "r = 0")
    case True
    then show ?thesis by (subst ModInverse_north.simps) simp
  next
    case False
    have "r \<noteq> 1" using less.prems(2) by auto
    moreover have "\<not> coprime r (s mod r)" using less.prems(2) False by (simp add: coprime_iff_gcd_eq_1 gcd.commute [of r] flip: gcd_red_nat)
    ultimately show ?thesis using less.IH [of "s mod r" r] False by (subst ModInverse_north.simps) (simp add: BI_of)
  qed
qed

lemma inverse_of_south:
  fixes S F s m L :: nat
  assumes e: "int S * int s - int F * int m = (- 1) ^ L" and "S \<le> m" "1 < m"
  defines "y \<equiv> if odd L then m - S else S"
  shows "y < m \<and> s * y mod m = 1"
proof -
  have "S \<noteq> m" "S \<noteq> 0"
  proof -
    have "\<not> int m dvd (- 1) ^ L" using assms(3) by (cases "even L") (auto simp: zdvd1_eq)
    moreover have "S = m \<or> S = 0 \<Longrightarrow> int m dvd int S * int s - int F * int m" by auto
    ultimately show "S \<noteq> m" "S \<noteq> 0" using e by auto
  qed
  then have "y < m" using assms(2) by (simp add: y_def)
  moreover have "(int s * int y) mod int m = 1"
  proof (cases "odd L")
    case True
    have "int s * int y = 1 + int m * (int s - int F)" using e True assms(2) by (simp add: y_def of_nat_diff algebra_simps)
    then show ?thesis using assms(3) by simp
  next
    case False
    have "int s * int y = 1 + int m * int F" using e False by (simp add: y_def algebra_simps)
    then show ?thesis using assms(3) by simp
  qed
  then have "int (s * y mod m) = int 1" by (simp add: zmod_int)
  then have "s * y mod m = 1" by (simp only: of_nat_eq_iff)
  ultimately show ?thesis by blast
qed

lemma BI_ModInverse_of:
  assumes "1 < m" "coprime x m"
  shows "\<exists>y. BI_ModInverse (ub_of x) (ub_of m) = Some (Inr (ub_of y)) \<and> y < m \<and> x * y mod m = 1"
proof -
  define s where "s = (if x > m then x mod m else x)"
  have c: "coprime s m" using assms(2) by (simp add: s_def coprime_iff_gcd_eq_1 gcd.commute [of _ m] flip: gcd_red_nat)
  have sx: "s * y mod m = x * y mod m" for y by (simp add: s_def mod_mult_left_eq)
  have "s \<noteq> 0" using c assms(1) by (intro notI) simp
  moreover have "s \<noteq> m" using c assms(1) by (intro notI) simp
  moreover have "s \<le> m" using assms(1) by (auto simp: s_def less_imp_le)
  ultimately have sm: "s < m" "0 < s" by simp_all
  have start: "res_bind (BI_gt (ub_of x) (ub_of m)) (\<lambda>gt. res_bind (if gt then BI_Mod (ub_of x) (ub_of m) else Inr (ub_of x)) (\<lambda>second.
      res_bind (BI_eq second (ubint_u64 0)) (\<lambda>zero. res_bind (BI_eq second (ubint_u64 1)) (\<lambda>one. Inr (second, zero, one))))) = Inr (ub_of s, s = 0, s = 1)"
    using assms(1) by (simp add: BI_of s_def)
  show ?thesis
  proof (cases "s = 1")
    case True
    then have "BI_ModInverse (ub_of x) (ub_of m) = Some (Inr (ub_of 1))" unfolding BI_ModInverse_def start by simp
    moreover have "x * 1 mod m = 1" unfolding sx [symmetric] True using assms(1) by simp
    ultimately show ?thesis using assms(1) by blast
  next
    case False
    have "coprime s (m mod s)" using c sm by (simp add: coprime_iff_gcd_eq_1 gcd.commute [of s] flip: gcd_red_nat)
    then obtain qs where qs: "ModInverse_north (ub_of m) (ub_of s) (ub_of (m mod s)) [ub_of (m div s)] = Some (Inr ([ub_of (m div s)] @ map ub_of qs))"
      "euclid_quots s (m mod s) qs" using ModInverse_north_of [of "m mod s" s] sm False by fastforce
    define ns where "ns = m div s # qs"
    have en: "euclid_quots m s ns" using qs(2) sm by (simp add: ns_def)
    obtain F S where FS: "foldr south_step ns (0, 1) = (F, S)" by fastforce
    define y where "y = (if odd (length ns) then m - S else S)"
    have y: "y < m" "s * y mod m = 1" using south_steps [OF en FS] inverse_of_south [of S s F m "length ns"] assms(1) by (auto simp: y_def)
    have north: "ModInverse_north (ub_of m) (ub_of s) (ub_of (m mod s)) [ub_of (m div s)] = Some (Inr (map ub_of ns))" using qs(1) by (simp add: ns_def)
    have south: "ModInverse_south (length (map ub_of ns)) (map ub_of ns) (ubint_u64 0) (ubint_u64 1) mb = Inr (ub_of S)" for mb
      using ModInverse_south_start [of ns mb] FS by (simp add: ns_def)
    have "BI_ModInverse (ub_of x) (ub_of m) = Some (Inr (ub_of y))"
      unfolding BI_ModInverse_def start using False sm north south by (simp add: BI_of y_def odd_iff_mod_2_eq_one)
    then show ?thesis using y sx by auto
  qed
qed

lemma BI_ModInverse_error:
  assumes "\<not> coprime x m"
  shows "BI_ModInverse (ub_of x) (ub_of m) = Some (Inl math_error)"
proof (cases "m = 0")
  case True
  then show ?thesis by (cases "x = 0") (simp_all add: BI_ModInverse_def BI_of)
next
  case False
  define s where "s = (if x > m then x mod m else x)"
  have c: "\<not> coprime s m" using assms by (simp add: s_def coprime_iff_gcd_eq_1 gcd.commute [of _ m] flip: gcd_red_nat)
  then have s1: "s \<noteq> 1" by auto
  have start: "res_bind (BI_gt (ub_of x) (ub_of m)) (\<lambda>gt. res_bind (if gt then BI_Mod (ub_of x) (ub_of m) else Inr (ub_of x)) (\<lambda>second.
      res_bind (BI_eq second (ubint_u64 0)) (\<lambda>zero. res_bind (BI_eq second (ubint_u64 1)) (\<lambda>one. Inr (second, zero, one))))) = Inr (ub_of s, s = 0, s = 1)"
    using False by (simp add: BI_of s_def)
  show ?thesis
  proof (cases "s = 0")
    case True
    then show ?thesis unfolding BI_ModInverse_def start by simp
  next
    case False
    have "\<not> coprime s (m mod s)" using c False by (simp add: coprime_iff_gcd_eq_1 gcd.commute [of s] flip: gcd_red_nat)
    then show ?thesis unfolding BI_ModInverse_def start using False s1 ModInverse_north_error [of "m mod s" s] by (simp add: BI_of)
  qed
qed

section \<open>The contract of the integer classes\<close>

text \<open>
  What \<open>BigIntegerInterface\<close> promises of an unsigned type without overflow: every natural number has one representation, and the operations compute on it.
  The laws of arithmetic hold for any implementation of the contract.
\<close>

locale unsigned_integers =
  fixes rep :: "nat \<Rightarrow> 'a" and add sub mul quo rest :: "'a \<Rightarrow> 'a \<Rightarrow> 'a result"
  assumes add_rep: "add (rep a) (rep b) = Inr (rep (a + b))"
    and sub_rep: "sub (rep a) (rep b) = Inr (rep (a - b))"
    and mul_rep: "mul (rep a) (rep b) = Inr (rep (a * b))"
    and quo_rep: "b \<noteq> 0 \<Longrightarrow> quo (rep a) (rep b) = Inr (rep (a div b))"
    and rest_rep: "b \<noteq> 0 \<Longrightarrow> rest (rep a) (rep b) = Inr (rep (a mod b))"
begin

lemma euclid:
  "b \<noteq> 0 \<Longrightarrow> res_bind (quo (rep a) (rep b)) (\<lambda>q. res_bind (rest (rep a) (rep b)) (\<lambda>r. res_bind (mul q (rep b)) (\<lambda>p. add p r))) = Inr (rep a)"
  by (simp add: quo_rep rest_rep mul_rep add_rep)

lemma add_sub_cancel: "res_bind (add (rep a) (rep b)) (\<lambda>s. sub s (rep b)) = Inr (rep a)"
  by (simp add: add_rep sub_rep)

lemma mul_quo_cancel: "b \<noteq> 0 \<Longrightarrow> res_bind (mul (rep a) (rep b)) (\<lambda>p. quo p (rep b)) = Inr (rep a)"
  by (simp add: mul_rep quo_rep)

lemma distributes:
  "res_bind (add (rep a) (rep b)) (\<lambda>s. mul s (rep c)) = res_bind (mul (rep a) (rep c)) (\<lambda>p. res_bind (mul (rep b) (rep c)) (\<lambda>q. add p q))"
  by (simp add: add_rep mul_rep distrib_right)

end

interpretation bi: unsigned_integers ub_of BI_Add BI_Sub BI_Mul BI_DividedBy BI_Mod
  by unfold_locales (simp_all add: BI_of)

interpretation bi_eq: unsigned_integers ub_of BI_AddEq BI_SubEq BI_MulEq BI_DividedByEq BI_ModEq
  by unfold_locales (simp_all add: BI_of BI_DividedByEq_of)

section \<open>Properties\<close>

text \<open>
  C9: The multi-limb integers compute with natural numbers of any size. On well-formed numbers addition, subtraction (which stops at 0) and multiplication, with or
  without assignment, return the well-formed number of the sum, difference and product.
\<close>

theorem BigInteger_arithmetic:
  assumes "ub_wf x" "ub_wf y"
  shows "\<exists>s d p. BI_Add x y = Inr s \<and> BI_AddEq x y = Inr s \<and> BI_Sub x y = Inr d \<and> BI_SubEq x y = Inr d \<and> BI_Mul x y = Inr p \<and> BI_MulEq x y = Inr p \<and>
    ub_wf s \<and> ub_wf d \<and> ub_wf p \<and> ub_nat s = ub_nat x + ub_nat y \<and> ub_nat d = ub_nat x - ub_nat y \<and> ub_nat p = ub_nat x * ub_nat y"
proof -
  obtain a b where "x = ub_of a" "y = ub_of b" using assms by (auto elim!: ub_wfE)
  then show ?thesis by (simp add: BI_of)
qed

theorem BigInteger_arithmetic_witness:
  "\<exists>s d p. BI_Add (ubint_u64 0xFFFFFFFFFFFFFFFF) (ubint_u64 1) = Inr s \<and> BI_Sub (ubint_u64 0xFFFFFFFFFFFFFFFF) (ubint_u64 1) = Inr d \<and>
    BI_Mul (ubint_u64 0xFFFFFFFFFFFFFFFF) (ubint_u64 1) = Inr p \<and> ub_nat s = 2 ^ 64 \<and> ub_nat d = 2 ^ 64 - 2 \<and> ub_nat p = 2 ^ 64 - 1"
  using BigInteger_arithmetic [of "ubint_u64 0xFFFFFFFFFFFFFFFF" "ubint_u64 1"] by (auto simp: ubint_u64_of)

text \<open>
  C8: Division is exact. On well-formed numbers \<open>DividedBy\<close> and \<open>Mod\<close> return quotient and remainder, for a divisor of one limb and by Knuth's algorithm D for a longer one;
  the quotient times the divisor plus the remainder is the dividend again. A divisor 0 is an exception, which for \<open>ModEq\<close> is one of another class.
\<close>

theorem BigInteger_division:
  assumes "ub_wf x" "ub_wf y"
  shows "if ub_nat y = 0
    then BI_DividedBy x y = Inl math_error \<and> BI_DividedByEq x y = Inl math_error \<and> BI_Mod x y = Inl math_error \<and> BI_ModEq x y = Inl not_available_error
    else \<exists>q r. BI_DividedBy x y = Inr q \<and> BI_DividedByEq x y = Inr q \<and> BI_Mod x y = Inr r \<and> BI_ModEq x y = Inr r \<and> ub_wf q \<and> ub_wf r \<and>
      ub_nat q = ub_nat x div ub_nat y \<and> ub_nat r = ub_nat x mod ub_nat y \<and> res_bind (BI_Mul q y) (\<lambda>p. BI_Add p r) = Inr x"
proof -
  obtain a b where ab: "x = ub_of a" "y = ub_of b" using assms by (auto elim!: ub_wfE)
  then show ?thesis using bi.euclid [of b a] by (auto simp: BI_of BI_DividedByEq_of)
qed

theorem BigInteger_division_witness:
  "\<exists>q r. BI_DividedBy (ubint_u64 1000000000000000000) (ubint_u64 7000000000) = Inr q \<and> BI_Mod (ubint_u64 1000000000000000000) (ubint_u64 7000000000) = Inr r \<and>
    ub_nat q = 142857142 \<and> ub_nat r = 6000000000"
  using BigInteger_division [of "ubint_u64 1000000000000000000" "ubint_u64 7000000000"] by (auto simp: ubint_u64_of)

text \<open>
  C24: Shifts by any amount that the 16-bit parameter can hold multiply by and divide by a power of two, with two exceptions. A shift to the right by 31 more than a multiple of 32 bits
  overflows the type \<open>int\<close> in which the mask of the bits between two limbs is computed, unless it clears the number and is not the in-place one. The in-place shift to the right by 32 or more bits that
  clears a number reads and removes limbs of an empty vector.
\<close>

theorem BigInteger_shifts:
  assumes "ub_wf x"
  shows "\<exists>l r. BI_LShift x s = Inr l \<and> BI_LShiftEq x s = Inr l \<and> ub_wf l \<and> ub_nat l = ub_nat x * 2 ^ unat s \<and>
    ub_wf r \<and> ub_nat r = ub_nat x div 2 ^ unat s \<and>
    BI_RShift x s = (if 0 < ub_nat r \<and> unat s mod 32 = 31 then Inl int_overflow else Inr r) \<and>
    BI_RShiftEq x s =
      (if ub_nat x = 0 then Inr r
       else if ub_nat r = 0 \<and> 64 \<le> unat s then Inl out_of_bounds
       else if unat s mod 32 = 31 then Inl int_overflow
       else if ub_nat r = 0 \<and> 32 \<le> unat s then Inl out_of_bounds
       else Inr r)"
proof -
  obtain a where x: "x = ub_of a" using assms by (auto elim!: ub_wfE)
  have "nbits a \<le> unat s \<longleftrightarrow> a div 2 ^ unat s = 0" by (simp add: nbits_le_iff div_eq_0_iff)
  moreover from this have "unat s < nbits a \<longleftrightarrow> 0 < a div 2 ^ unat s" by linarith
  ultimately show ?thesis
    by (intro exI [of _ "ub_of (a * 2 ^ unat s)"] exI [of _ "ub_of (a div 2 ^ unat s)"]) (simp add: x BI_LShift_of BI_LShiftEq_of BI_RShift_of BI_RShiftEq_of)
qed

theorem BigInteger_shifts_witness:
  "(\<exists>l r. BI_LShift (ubint_u64 5) 33 = Inr l \<and> ub_nat l = 42949672960 \<and> BI_RShift (ubint_u64 5) 33 = Inr r \<and> ub_nat r = 0) \<and> BI_RShiftEq (ubint_u64 5) 33 = Inl out_of_bounds"
  using BigInteger_shifts [of "ubint_u64 5" 33] by (auto simp: ubint_u64_of)

text \<open>
  C25: \<open>DivideAndRound\<close> and \<open>MultiplyAndRound\<close> return the nearest integer: twice the distance to the exact quotient is at most the divisor.
\<close>

theorem BigInteger_rounding:
  assumes "ub_wf x" "ub_wf p" "ub_wf q" "0 < ub_nat q"
  shows "\<exists>y z. BI_DivideAndRound x q = Inr y \<and> ub_wf y \<and> \<bar>2 * (int (ub_nat x) - int (ub_nat q) * int (ub_nat y))\<bar> \<le> int (ub_nat q) \<and>
    BI_MultiplyAndRound x p q = Inr z \<and> BI_MultiplyAndRoundEq x p q = Inr z \<and> ub_wf z \<and>
    \<bar>2 * (int (ub_nat x * ub_nat p) - int (ub_nat q) * int (ub_nat z))\<bar> \<le> int (ub_nat q)"
proof -
  obtain a b c where e: "x = ub_of a" "p = ub_of b" "q = ub_of c" using assms by (auto elim!: ub_wfE)
  have "0 < c" using assms(4) by (simp add: e)
  then show ?thesis using round_div_error [of c a] round_div_error [of c "a * b"]
    by (intro exI [of _ "ub_of (round_div a c)"] exI [of _ "ub_of (round_div (a * b) c)"]) (simp add: e BI_DivideAndRound_of BI_MultiplyAndRound_of)
qed

theorem BigInteger_rounding_witness:
  "\<exists>y z. BI_DivideAndRound (ubint_u64 99) (ubint_u64 10) = Inr y \<and> BI_MultiplyAndRound (ubint_u64 99) (ubint_u64 3) (ubint_u64 10) = Inr z \<and>
    \<bar>2 * (99 - 10 * int (ub_nat y))\<bar> \<le> 10 \<and> \<bar>2 * (297 - 10 * int (ub_nat z))\<bar> \<le> 10"
  using BigInteger_rounding [of "ubint_u64 99" "ubint_u64 3" "ubint_u64 10"] by (auto simp: ubint_u64_of)

text \<open>
  C26: Modular addition and subtraction of any operands, in all their variants, return the residue of the sum and of the difference; the fast subtraction does so when the
  second operand is at most the first plus the modulus. Modular multiplication of reduced operands returns the residue of the product when no limb of the second factor is 0.
\<close>

theorem BigInteger_modular:
  assumes "ub_wf x" "ub_wf y" "ub_wf m" "0 < ub_nat m"
  shows "\<exists>s d. BI_ModAdd x y m = Inr s \<and> BI_ModAddEq x y m = Inr s \<and> BI_ModAddFast x y m = Inr s \<and> BI_ModAddFastEq x y m = Inr s \<and>
    BI_ModAdd_mu x y m mu = Inr s \<and> BI_ModAddEq_mu x y m mu = Inr s \<and>
    BI_ModSub x y m = Inr d \<and> BI_ModSubEq x y m = Inr d \<and> BI_ModSub_mu x y m mu = Inr d \<and> BI_ModSubEq_mu x y m mu = Inr d \<and>
    (ub_nat y \<le> ub_nat x + ub_nat m \<longrightarrow> BI_ModSubFast x y m = Inr d \<and> BI_ModSubFastEq x y m = Inr d) \<and>
    ub_wf s \<and> ub_wf d \<and> ub_nat s = (ub_nat x + ub_nat y) mod ub_nat m \<and> int (ub_nat d) = (int (ub_nat x) - int (ub_nat y)) mod int (ub_nat m) \<and>
    (ub_nat x < ub_nat m \<and> ub_nat y < ub_nat m \<and> (0 \<notin> set (ub_value y) \<or> ub_nat y = 0) \<longrightarrow>
      (\<exists>p. BI_ModMul x y m = Inr p \<and> BI_ModMulEq x y m = Inr p \<and> BI_ModMulFast x y m = Inr p \<and> BI_ModMulFastEq x y m = Inr p \<and>
        ub_wf p \<and> ub_nat p = ub_nat x * ub_nat y mod ub_nat m))"
proof -
  obtain a b c where e: "x = ub_of a" "y = ub_of b" "m = ub_of c" using assms(1-3) by (auto elim!: ub_wfE)
  have c: "0 < c" using assms(4) by (simp add: e)
  have d: "int (sub_mod a b c) = (int a - int b) mod int c" using c by (simp add: sub_mod_def)
  show ?thesis using c d BI_ModMul_of [of a c b]
    by (intro exI [of _ "ub_of ((a + b) mod c)"] exI [of _ "ub_of (sub_mod a b c)"])
      (simp add: e ModAdd_of ModSub_of BI_ModMulEq_def BI_ModMulFast_def BI_ModMulFastEq_def)
qed

theorem BigInteger_modular_witness:
  "\<exists>s d. BI_ModAdd (ubint_u64 5) (ubint_u64 6) (ubint_u64 7) = Inr s \<and> BI_ModSub (ubint_u64 5) (ubint_u64 6) (ubint_u64 7) = Inr d \<and>
    (\<exists>p. BI_ModMul (ubint_u64 5) (ubint_u64 6) (ubint_u64 7) = Inr p \<and> ub_nat s = 4 \<and> ub_nat d = 6 \<and> ub_nat p = 2)"
  using BigInteger_modular [of "ubint_u64 5" "ubint_u64 6" "ubint_u64 7" "ubint_u64 0"] by (auto simp: ubint_u64_of nat_limbs_small)

text \<open>
  C10: The modular inverse. For a modulus above 1 the Euclidean loop of \<open>ModInverse\<close> always ends: on an operand that is coprime to the modulus with the inverse in the range of the modulus,
  on any other operand with an exception.
\<close>

theorem BigInteger_ModInverse:
  assumes "ub_wf x" "ub_wf m" "1 < ub_nat m"
  shows "if coprime (ub_nat x) (ub_nat m)
    then \<exists>y. BI_ModInverse x m = Some (Inr y) \<and> BI_ModInverseEq x m = Some (Inr y) \<and> ub_wf y \<and> ub_nat y < ub_nat m \<and> ub_nat x * ub_nat y mod ub_nat m = 1
    else BI_ModInverse x m = Some (Inl math_error) \<and> BI_ModInverseEq x m = Some (Inl math_error)"
proof -
  obtain a b where e: "x = ub_of a" "m = ub_of b" using assms(1,2) by (auto elim!: ub_wfE)
  show ?thesis using assms(3) BI_ModInverse_of [of b a] BI_ModInverse_error [of a b] by (auto simp: e BI_ModInverseEq_def)
qed

theorem BigInteger_ModInverse_witness:
  "(\<exists>y. BI_ModInverse (ubint_u64 3) (ubint_u64 10) = Some (Inr y) \<and> ub_nat y < 10 \<and> 3 * ub_nat y mod 10 = 1) \<and> BI_ModInverse (ubint_u64 4) (ubint_u64 10) = Some (Inl math_error)"
proof -
  have "coprime (3 :: nat) 10" "\<not> coprime (4 :: nat) 10" by code_simp+
  then show ?thesis using BigInteger_ModInverse [of "ubint_u64 3" "ubint_u64 10"] BigInteger_ModInverse [of "ubint_u64 4" "ubint_u64 10"] by (auto simp: ubint_u64_of)
qed

text \<open>
  C11: Modular exponentiation always returns, and its result is congruent to the power. It is the residue itself unless the power is a multiple of the modulus: then it may be the modulus,
  because the product is only reduced when it is above the modulus.
\<close>

theorem BigInteger_ModExp:
  assumes "ub_wf x" "ub_wf e" "ub_wf m" "0 < ub_nat m"
  shows "\<exists>y. BI_ModExp x e m = Some (Inr y) \<and> BI_ModExpEq x e m = Some (Inr y) \<and> ub_wf y \<and> ub_nat y mod ub_nat m = ub_nat x ^ ub_nat e mod ub_nat m \<and>
    ub_nat y \<le> ub_nat m \<and> (\<not> ub_nat m dvd ub_nat x ^ ub_nat e \<longrightarrow> ub_nat y = ub_nat x ^ ub_nat e mod ub_nat m)"
proof -
  obtain a b c where e: "x = ub_of a" "e = ub_of b" "m = ub_of c" using assms(1-3) by (auto elim!: ub_wfE)
  have c: "0 < c" using assms(4) by (simp add: e)
  obtain r where r: "BI_ModExp (ub_of a) (ub_of b) (ub_of c) = Some (Inr (ub_of r))" "r mod c = a ^ b mod c" "r \<le> c" using BI_ModExp_of [OF c] .
  moreover have "r = a ^ b mod c" if "\<not> c dvd a ^ b"
  proof -
    have "r \<noteq> c" using r(2) that by (auto simp: dvd_eq_mod_eq_0)
    then show ?thesis using r(2,3) by simp
  qed
  ultimately show ?thesis by (intro exI [of _ "ub_of r"]) (simp add: e BI_ModExpEq_def)
qed

theorem BigInteger_ModExp_witness:
  "\<exists>y. BI_ModExp (ubint_u64 3) (ubint_u64 5) (ubint_u64 7) = Some (Inr y) \<and> ub_nat y = 5"
  using BigInteger_ModExp [of "ubint_u64 3" "ubint_u64 5" "ubint_u64 7"] by (auto simp: ubint_u64_of)

text \<open>The result that is not reduced, on the smallest example, the unreduced operand of a product by 1, and the read past the end of a modulus.\<close>

lemma ModExp_not_reduced: "BI_ModExp (ub_of 2) (ub_of 3) (ub_of 8) = Some (Inr (ub_of 8))"
proof -
  have "BI_ModExp_loop (ub_of 8) (ub_of 4) (ub_of 2) (ub_of 1) = Some (Inr (ub_of 8))"
    by (subst BI_ModExp_loop.simps) (simp add: ModExp_step_of exp_step_def)
  moreover have "BI_ModExp_loop (ub_of 8) (ub_of 2) (ub_of 1) (ub_of 3) = BI_ModExp_loop (ub_of 8) (ub_of 4) (ub_of 2) (ub_of 1)"
    by (subst BI_ModExp_loop.simps) (simp add: ModExp_step_of exp_step_def BI_of del: One_nat_def)
  ultimately show ?thesis by (simp add: BI_ModExp_def BI_of del: One_nat_def)
qed

lemma ModMul_by_one_not_reduced: "BI_ModMul (ub_of 9) (ub_of 1) (ub_of 7) = Inr (ub_of 9)"
  by (simp add: BI_ModMul_def)

lemma ModMul_zero_limb:
  "BI_ModMul \<lparr>ub_value = [1, 2, 3], ub_MSB = 66, ub_state = INITIALIZED\<rparr> \<lparr>ub_value = [5, 0, 6], ub_MSB = 67, ub_state = INITIALIZED\<rparr>
     \<lparr>ub_value = [5, 0, 0x80000000], ub_MSB = 96, ub_state = INITIALIZED\<rparr> = Inl out_of_bounds"
  by code_simp

end
