(* ===== verification/BigStr.thy ===== *)
theory BigStr
  imports BigMod
begin

text \<open>
  Conversions of the multi-limb integers of \<open>BigInt\<close>: the decimal printer \<open>ToString\<close>, the decimal parser \<open>AssignVal\<close>, whose loop is shown to end, the binary parser
  \<open>FromBinaryString\<close>, and the bits and digits of a number.
\<close>

section \<open>Lists of digits\<close>

text \<open>The number of a list of digits, the most significant one first.\<close>

fun dig_nat :: "nat \<Rightarrow> uschar list \<Rightarrow> nat" where
  "dig_nat b [] = 0"
| "dig_nat b (d # ds) = unat d * b ^ length ds + dig_nat b ds"

lemma dig_nat_append: "dig_nat b (xs @ ys) = dig_nat b xs * b ^ length ys + dig_nat b ys"
  by (induction xs) (simp_all add: power_add algebra_simps)

lemma dig_nat_zeros [simp]: "dig_nat b (replicate n 0) = 0"
  by (induction n) simp_all

lemma dig_nat_all_zero: "\<forall>d\<in>set ds. d = 0 \<Longrightarrow> dig_nat b ds = 0"
  by (induction ds) simp_all

lemma dig_nat_zero_iff: "0 < b \<Longrightarrow> dig_nat b ds = 0 \<longleftrightarrow> (\<forall>d\<in>set ds. d = 0)"
  by (induction ds) (auto simp: unat_eq_0)

lemma dig_nat_less: "0 < b \<Longrightarrow> \<forall>d\<in>set ds. unat d < b \<Longrightarrow> dig_nat b ds < b ^ length ds"
proof (induction ds)
  case (Cons d ds)
  have "unat d * b ^ length ds + dig_nat b ds < (unat d + 1) * b ^ length ds" using Cons by simp
  also have "\<dots> \<le> b * b ^ length ds" using Cons.prems by (intro mult_le_mono1) simp
  finally show ?case by simp
qed simp

lemma dig_nat_update:
  "i < length ds \<Longrightarrow> dig_nat b (ds[i := y]) + unat (ds ! i) * b ^ (length ds - 1 - i) = dig_nat b ds + unat y * b ^ (length ds - 1 - i)"
proof (induction ds arbitrary: i)
  case (Cons d ds)
  show ?case using Cons by (cases i) (simp_all add: algebra_simps)
qed simp

lemma unat_lt_256: "unat (x :: uschar) < 256"
  using unsigned_less [of x] by simp

section \<open>The decimal string of a number\<close>

lemma double_step:
  fixes d ofl :: uschar
  assumes "unat d \<le> 9" "unat ofl \<le> 1"
  defines "x \<equiv> push_bit 1 d"
  shows "x > 9 \<Longrightarrow> unat (x - 10 + ofl) + 10 = 2 * unat d + unat ofl \<and> unat (x - 10 + ofl) \<le> 9"
    and "\<not> x > 9 \<Longrightarrow> unat (x + ofl) = 2 * unat d + unat ofl \<and> unat (x + ofl) \<le> 9"
proof -
  have x: "unat x = 2 * unat d" unfolding x_def using assms(1) by (subst unat_push_bit_nowrap) simp_all
  show "unat (x - 10 + ofl) + 10 = 2 * unat d + unat ofl \<and> unat (x - 10 + ofl) \<le> 9" if "x > 9"
  proof -
    have g: "10 \<le> unat x" using that by (simp add: word_less_nat_alt)
    then have "(10 :: uschar) \<le> x" by (simp add: word_le_nat_alt)
    then have "unat (x - 10) = unat x - 10" by (simp add: unat_sub_nowrap)
    moreover from this have "unat (x - 10 + ofl) = unat (x - 10) + unat ofl" using x assms by (intro unat_add_nowrap) simp
    ultimately show ?thesis using g x assms by simp
  qed
  show "unat (x + ofl) = 2 * unat d + unat ofl \<and> unat (x + ofl) \<le> 9" if "\<not> x > 9"
  proof -
    have g: "unat x \<le> 9" using that by (simp add: word_less_nat_alt)
    have "unat (x + ofl) = unat x + unat ofl" using x assms by (intro unat_add_nowrap) simp
    moreover have "unat x \<le> 8" using g x by presburger
    ultimately show ?thesis using x assms(2) by simp
  qed
qed

lemma double_bitVal_value:
  assumes "\<forall>d\<in>set a. unat d \<le> 9"
  shows "length (double_bitVal a) = length a \<and> (\<forall>d\<in>set (double_bitVal a). unat d \<le> 9) \<and> dig_nat 10 (double_bitVal a) = 2 * dig_nat 10 a mod 10 ^ length a"
proof -
  let ?f = "\<lambda>i (ofl, u). let x = push_bit 1 (u ! i) in if x > 9 then (1, u[i := x - 10 + ofl]) else (0, u[i := x + ofl])"
  let ?P = "\<lambda>i (ofl :: uschar, u). \<exists>t. u = take i a @ t \<and> length t = length a - i \<and> unat ofl \<le> 1 \<and> (\<forall>d\<in>set t. unat d \<le> 9) \<and>
    dig_nat 10 t + 10 ^ length t * unat ofl = 2 * dig_nat 10 (drop i a)"
  have "?P 0 (fold ?f (rev [0..<length a]) (0, a))"
  proof (rule fold_rev_invariant [where P = ?P])
    fix i and s :: "uschar \<times> uschar list"
    assume i: "i < length a" and P: "?P (Suc i) s"
    obtain ofl t where s: "s = (ofl, take (Suc i) a @ t)" and t: "length t = length a - Suc i" "unat ofl \<le> 1" "\<forall>d\<in>set t. unat d \<le> 9"
      "dig_nat 10 t + 10 ^ length t * unat ofl = 2 * dig_nat 10 (drop (Suc i) a)" using P by (cases s) auto
    have d: "take (Suc i) a @ t = take i a @ a ! i # t" "drop i a = a ! i # drop (Suc i) a" using i by (simp_all add: take_Suc_conv_app_nth Cons_nth_drop_Suc)
    have ai: "unat (a ! i) \<le> 9" using assms i by simp
    define x where "x = push_bit 1 (a ! i)"
    define l c where "l = (if x > 9 then x - 10 + ofl else x + ofl)" and "c = (if x > 9 then 1 else 0 :: uschar)"
    have lc: "unat l + 10 * unat c = 2 * unat (a ! i) + unat ofl" "unat l \<le> 9" "unat c \<le> 1"
      using double_step [OF ai t(2)] by (auto simp: l_def c_def x_def)
    have "?f i s = (c, take i a @ l # t)"
      using i t(1) by (simp add: s d(1) nth_append list_update_append Let_def l_def c_def x_def)
    moreover have "dig_nat 10 (l # t) + 10 ^ length (l # t) * unat c = 2 * dig_nat 10 (drop i a)"
    proof -
      have "dig_nat 10 (l # t) + 10 ^ length (l # t) * unat c = 10 ^ length t * (unat l + 10 * unat c) + dig_nat 10 t" by (simp add: algebra_simps)
      also have "\<dots> = 2 * (unat (a ! i) * 10 ^ length t) + (dig_nat 10 t + 10 ^ length t * unat ofl)" unfolding lc(1) by (simp add: algebra_simps)
      also have "\<dots> = 2 * dig_nat 10 (drop i a)" unfolding t(4) using t(1) by (simp add: d(2))
      finally show ?thesis .
    qed
    ultimately show "?P i (?f i s)" using t lc i by (simp only: split_conv) (intro exI [of _ "l # t"], auto)
  qed simp
  then obtain ofl t where t: "fold ?f (rev [0..<length a]) (0, a) = (ofl, t)" "length t = length a" "\<forall>d\<in>set t. unat d \<le> 9"
    "dig_nat 10 t + 10 ^ length t * unat ofl = 2 * dig_nat 10 a" by auto
  then have "dig_nat 10 t < 10 ^ length a" using dig_nat_less [of 10 t] by fastforce
  moreover have "2 * dig_nat 10 a mod 10 ^ length a = dig_nat 10 t mod 10 ^ length a" unfolding t(4) [symmetric] t(2) by simp
  ultimately show ?thesis using t by (simp add: double_bitVal_def)
qed

lemma add_bitVal_value:
  assumes "a \<noteq> []" "\<forall>d\<in>set a. unat d \<le> 9" "even (dig_nat 10 a)" "unat b \<le> 1"
  shows "length (add_bitVal a b) = length a \<and> (\<forall>d\<in>set (add_bitVal a b). unat d \<le> 9) \<and> dig_nat 10 (add_bitVal a b) = dig_nat 10 a + unat b"
proof -
  define n where "n = length a - 1"
  have n: "n < length a" using assms(1) by (simp add: n_def)
  have "a = butlast a @ [a ! n]" using assms(1) using append_butlast_last_id [OF assms(1)] by (simp add: n_def last_conv_nth)
  then have "dig_nat 10 a = dig_nat 10 (butlast a) * 10 + unat (a ! n)" by (metis dig_nat_append One_nat_def list.size(3,4) dig_nat.simps power_0 power_one_right mult.right_neutral add.right_neutral add_0)
  then have "even (unat (a ! n))" using assms(3) by simp
  moreover have an: "unat (a ! n) \<le> 9" using assms(2) n by simp
  ultimately have l: "unat (a ! n) \<le> 8" by presburger
  have s: "unat (a ! n + b) = unat (a ! n) + unat b" using an assms(4) by (intro unat_add_nowrap) simp
  let ?a = "a[n := a ! n + b]"
  have ok: "\<forall>d\<in>set ?a. unat d \<le> 9" using assms(2,4) l s set_update_subset_insert [of a n "a ! n + b"] by auto
  have "fold (\<lambda>i (ofl, u). let x = u ! i + ofl in if x > 9 then (1, u[i := 0]) else (ofl, u[i := x])) (rev [0..<length a]) (0, ?a) = (0, ?a)"
  proof (rule fold_rev_invariant [where P = "\<lambda>_ s. s = (0, ?a)"])
    fix i and s :: "uschar \<times> uschar list"
    assume "i < length a" "s = (0, ?a)"
    moreover from this have "\<not> ?a ! i > 9" using ok by (simp add: word_less_nat_alt not_less)
    ultimately show "(case s of (ofl, u) \<Rightarrow> let x = u ! i + ofl in if x > 9 then (1, u[i := 0]) else (ofl, u[i := x])) = (0, ?a)"
      by (simp add: Let_def)
  qed simp
  then have "add_bitVal a b = ?a" by (simp add: add_bitVal_def Let_def n_def)
  moreover have "dig_nat 10 ?a = dig_nat 10 a + unat b" using dig_nat_update [OF n, of 10 "a ! n + b"] s by (simp add: n_def)
  ultimately show ?thesis using ok by simp
qed

lemma ToString_loop_of:
  assumes "a \<noteq> []" "\<forall>d\<in>set a. unat d \<le> 9" "dig_nat 10 a = (n div 2 ^ i) mod 10 ^ length a"
  shows "\<exists>r. ToString_loop (ub_of n) i a = Inr r \<and> length r = length a \<and> (\<forall>d\<in>set r. unat d \<le> 9) \<and> dig_nat 10 r = n mod 10 ^ length a"
  using assms
proof (induction i arbitrary: a)
  case 0
  then show ?case by simp
next
  case (Suc i)
  define b where "b = (of_bool (bit n i) :: uschar)"
  have b1: "unat b \<le> 1" and bv: "unat b = n div 2 ^ i mod 2" by (simp_all add: b_def bit_iff_odd odd_iff_mod_2_eq_one)
  let ?M = "10 ^ length a :: nat" and ?d = "double_bitVal a"
  have d: "length ?d = length a" "\<forall>d\<in>set ?d. unat d \<le> 9" "dig_nat 10 ?d = 2 * dig_nat 10 a mod ?M" using double_bitVal_value [OF Suc.prems(2)] by auto
  have "even ?M" using Suc.prems(1) by (cases a) simp_all
  then have e: "even (dig_nat 10 ?d)" unfolding d(3) by (metis dvd_mod_iff dvd_triv_left)
  have ne: "?d \<noteq> []" using d(1) Suc.prems(1) by auto
  define r where "r = add_bitVal ?d b"
  have r: "length r = length a" "\<forall>d\<in>set r. unat d \<le> 9" "dig_nat 10 r = dig_nat 10 ?d + unat b"
    using add_bitVal_value [OF ne d(2) e b1] d(1) by (auto simp: r_def)
  have "dig_nat 10 r < ?M" using dig_nat_less [of 10 r] r(1,2) by fastforce
  then have "dig_nat 10 r = (2 * dig_nat 10 a + unat b) mod ?M" unfolding r(3) d(3) by (metis mod_add_left_eq mod_less)
  also have "\<dots> = (2 * (n div 2 ^ Suc i) + n div 2 ^ i mod 2) mod ?M" unfolding Suc.prems(3) bv by (metis mod_add_left_eq mod_mult_right_eq)
  also have "2 * (n div 2 ^ Suc i) + n div 2 ^ i mod 2 = n div 2 ^ i" by (simp add: div_mult2_eq mult.commute [of 2] power_Suc2 del: power_Suc)
  finally have "dig_nat 10 r = n div 2 ^ i mod 10 ^ length r" using r(1) by simp
  moreover have "r \<noteq> []" using r(1) Suc.prems(1) by auto
  ultimately show ?case using Suc.IH [of r] r by (simp add: BI_GetBitAtIndex_of b_def [symmetric] r_def [symmetric])
qed

lemma decimal_digits:
  assumes "ds \<noteq> []" "\<forall>d\<in>set ds. unat d \<le> 9" "length ds = 1 \<or> hd ds \<noteq> 0"
  shows "concat (map (\<lambda>d. decimal (unat d)) ds) = decimal (dig_nat 10 ds)"
  using assms
proof (induction ds rule: rev_induct)
  case (snoc d ds)
  show ?case
  proof (cases "ds = []")
    case False
    then have h: "hd ds \<noteq> 0" using snoc.prems(3) by simp
    then have "0 < dig_nat 10 ds" using False dig_nat_zero_iff [of 10 ds] by (cases ds) auto
    then have "\<not> dig_nat 10 (ds @ [d]) < 10" by (simp add: dig_nat_append)
    moreover have "dig_nat 10 (ds @ [d]) div 10 = dig_nat 10 ds" "dig_nat 10 (ds @ [d]) mod 10 = unat d" using snoc.prems(2) by (simp_all add: dig_nat_append)
    moreover have "decimal (unat d) = [char_of (48 + unat d)]" using snoc.prems(2) by (subst decimal.simps) simp
    ultimately have "decimal (dig_nat 10 (ds @ [d])) = decimal (dig_nat 10 ds) @ decimal (unat d)" by (subst decimal.simps) simp
    then show ?thesis using snoc False h by simp
  qed simp
qed simp

lemma strip_digits:
  assumes "a \<noteq> []"
  defines "k \<equiv> length (takeWhile (\<lambda>d. d = 0) (butlast a))"
  shows "drop k a \<noteq> [] \<and> dig_nat 10 (drop k a) = dig_nat 10 a \<and> (length (drop k a) = 1 \<or> hd (drop k a) \<noteq> 0)"
proof -
  have kl: "k \<le> length (butlast a)" unfolding k_def by (rule length_takeWhile_le)
  then have k: "k < length a" using assms(1) by (cases a rule: rev_cases) auto
  have z: "take k a = takeWhile (\<lambda>d. d = 0) (butlast a)" 
  proof -
    have "take k (butlast a) = takeWhile (\<lambda>d. d = 0) (butlast a)" unfolding k_def by (metis takeWhile_eq_take)
    then show ?thesis using kl by (metis butlast_conv_take take_take min.absorb1 length_butlast)
  qed
  have "dig_nat 10 (take k a) = 0" unfolding z by (intro dig_nat_all_zero ballI) (auto dest: set_takeWhileD)
  then have v: "dig_nat 10 (drop k a) = dig_nat 10 a" using dig_nat_append [of 10 "take k a" "drop k a"] by simp
  have "length (drop k a) = 1 \<or> hd (drop k a) \<noteq> 0"
  proof (cases "k < length (butlast a)")
    case True
    then have "butlast a ! k \<noteq> 0" unfolding k_def by (rule nth_length_takeWhile)
    then show ?thesis using True k by (simp add: nth_butlast hd_drop_conv_nth)
  next
    case False
    then show ?thesis using kl k by simp
  qed
  then show ?thesis using v k by simp
qed

lemma BI_ToString_of: "BI_ToString (ub_of n) = Inr (decimal (n mod 10 ^ m_numDigitInPrintval))"
proof -
  let ?a = "replicate m_numDigitInPrintval (0 :: uschar)"
  have ne: "?a \<noteq> []" by (simp add: m_numDigitInPrintval_def)
  have "n div 2 ^ nbits n = 0" using nbits_bounds [of n] by simp
  then obtain r where r: "ToString_loop (ub_of n) (nbits n) ?a = Inr r" "length r = m_numDigitInPrintval" "\<forall>d\<in>set r. unat d \<le> 9"
    "dig_nat 10 r = n mod 10 ^ m_numDigitInPrintval" using ToString_loop_of [OF ne, of n "nbits n"] by auto
  define k where "k = length (takeWhile (\<lambda>d. d = 0) (butlast r))"
  have "r \<noteq> []" using r(2) by (auto simp: m_numDigitInPrintval_def)
  note s = strip_digits [OF this, folded k_def]
  have "\<forall>d\<in>set (drop k r). unat d \<le> 9" using r(3) by (meson in_set_dropD)
  then have "concat (map (\<lambda>d. decimal (unat d)) (drop k r)) = decimal (n mod 10 ^ m_numDigitInPrintval)"
    using decimal_digits [of "drop k r"] s r(4) by simp
  then show ?thesis using r(1) by (simp add: BI_ToString_def k_def [symmetric] Let_def)
qed

section \<open>Parsing a decimal string\<close>

text \<open>One pass of the division of the digits by two.\<close>

lemma halve_digit:
  fixes x y :: uschar
  assumes "unat x \<le> 19" "unat y \<le> 9"
  shows "unat (x mod 2 * 10 + y) = unat x mod 2 * 10 + unat y" "unat (drop_bit 1 x) = unat x div 2" "unat (drop_bit 1 x) \<le> 9"
proof -
  have m: "unat (x mod 2) = unat x mod 2" by (simp add: unat_mod_distrib)
  have "unat x mod 2 * 10 \<le> 10" by simp
  then have "unat (x mod 2 * 10) = unat x mod 2 * 10" by (subst unat_mult_nowrap) (simp_all add: m)
  moreover have "unat x mod 2 \<le> 1" by simp
  ultimately show "unat (x mod 2 * 10 + y) = unat x mod 2 * 10 + unat y" using assms(2) by (subst unat_add_nowrap) simp_all
  show "unat (drop_bit 1 x) = unat x div 2" "unat (drop_bit 1 x) \<le> 9" using assms(1) unat_drop_bit [of 1 x] by simp_all
qed

lemma halve_loop:
  assumes "\<forall>d\<in>set D. unat d \<le> 9" "zptr < length D" "\<forall>i<zptr. D ! i = 0"
  defines "n \<equiv> length D"
  obtains h x where "for_range zptr (n - 1) (\<lambda>i D. (D[i + 1 := (D ! i mod 2) * 10 + D ! (i + 1)])[i := drop_bit 1 (D ! i)]) D = h @ [x]"
    "length h = n - 1" "\<forall>d\<in>set h. unat d \<le> 9" "unat x \<le> 19" "20 * dig_nat 10 h + unat x = dig_nat 10 D" "take zptr (h @ [x]) = take zptr D"
proof -
  let ?f = "\<lambda>i D. (D[i + 1 := (D ! i mod 2) * 10 + D ! (i + 1)])[i := drop_bit 1 (D ! i)]"
  let ?P = "\<lambda>i E. \<exists>h x. E = h @ x # drop (Suc i) D \<and> length h = i \<and> (\<forall>d\<in>set h. unat d \<le> 9) \<and> unat x \<le> 19 \<and>
    20 * dig_nat 10 h + unat x = dig_nat 10 (take (Suc i) D) \<and> take zptr E = take zptr D"
  have z: "dig_nat 10 (take zptr D) = 0" using assms(2,3) by (intro dig_nat_all_zero ballI) (auto simp: in_set_conv_nth)
  have "?P (n - 1) (for_range zptr (n - 1) ?f D)"
  proof (rule for_range_invariant [where P = ?P])
    have "D = take zptr D @ D ! zptr # drop (Suc zptr) D" using assms(2) by (simp add: Cons_nth_drop_Suc)
    moreover have "unat (D ! zptr) \<le> 19" using assms(1,2) by (meson le_trans nth_mem numeral_le_iff semiring_norm)
    moreover have "\<forall>d\<in>set (take zptr D). unat d \<le> 9" using assms(1) by (meson in_set_takeD)
    moreover have "dig_nat 10 (take (Suc zptr) D) = unat (D ! zptr)" using assms(2) z by (simp add: take_Suc_conv_app_nth dig_nat_append)
    ultimately show "?P zptr D" using z assms(2) by (intro exI [of _ "take zptr D"] exI [of _ "D ! zptr"]) simp
    fix i E
    assume i: "zptr \<le> i" "i < n - 1" and P: "?P i E"
    obtain h x where E: "E = h @ x # drop (Suc i) D" and h: "length h = i" "\<forall>d\<in>set h. unat d \<le> 9" "unat x \<le> 19"
      "20 * dig_nat 10 h + unat x = dig_nat 10 (take (Suc i) D)" "take zptr E = take zptr D" using P by blast
    have il: "Suc i < length D" using i by (simp add: n_def)
    have d: "drop (Suc i) D = D ! Suc i # drop (Suc (Suc i)) D" using il by (simp add: Cons_nth_drop_Suc)
    have y: "unat (D ! Suc i) \<le> 9" using assms(1) il by simp
    note hd = halve_digit [OF h(3) y]
    define x' where "x' = x mod 2 * 10 + D ! Suc i"
    have x': "unat x' = unat x mod 2 * 10 + unat (D ! Suc i)" by (simp only: x'_def hd(1))
    have e: "?f i E = (h @ [drop_bit 1 x]) @ x' # drop (Suc (Suc i)) D"
      using h(1) by (simp add: E d nth_append list_update_append x'_def)
    have "20 * dig_nat 10 (h @ [drop_bit 1 x]) + unat x' = 10 * (20 * dig_nat 10 h + unat x) + unat (D ! Suc i)"
      by (simp add: dig_nat_append hd(2) [unfolded One_nat_def] x' algebra_simps) presburger
    also have "\<dots> = dig_nat 10 (take (Suc (Suc i)) D)" unfolding h(4) using il by (simp add: take_Suc_conv_app_nth [of "Suc i"] dig_nat_append)
    finally have v: "20 * dig_nat 10 (h @ [drop_bit 1 x]) + unat x' = dig_nat 10 (take (Suc (Suc i)) D)" .
    have t: "take zptr (?f i E) = take zptr D" using h(5) i(1) by simp
    have "unat x' \<le> 19" using x' y by simp
    then show "?P (Suc i) (?f i E)" using e h(1,2) hd(3) v t by (intro exI [of _ "h @ [drop_bit 1 x]"] exI [of _ x']) auto
  qed (use assms(2) in \<open>simp add: n_def\<close>)
  then obtain h x where "for_range zptr (n - 1) ?f D = h @ [x]" "length h = n - 1" "\<forall>d\<in>set h. unat d \<le> 9" "unat x \<le> 19"
    "20 * dig_nat 10 h + unat x = dig_nat 10 D" "take zptr (h @ [x]) = take zptr D" using assms(2) by (auto simp: n_def)
  then show thesis by (rule that)
qed

lemma halve_digits_value:
  assumes "\<forall>d\<in>set D. unat d \<le> 9" "zptr < length D" "\<forall>i<zptr. D ! i = 0"
  shows "length (halve_digits zptr D) = length D \<and> (\<forall>d\<in>set (halve_digits zptr D). unat d \<le> 9) \<and> (\<forall>i<zptr. halve_digits zptr D ! i = 0) \<and>
    dig_nat 10 (halve_digits zptr D) = dig_nat 10 D div 2"
proof -
  obtain h x where h: "for_range zptr (length D - 1) (\<lambda>i D. (D[i + 1 := (D ! i mod 2) * 10 + D ! (i + 1)])[i := drop_bit 1 (D ! i)]) D = h @ [x]"
    "length h = length D - 1" "\<forall>d\<in>set h. unat d \<le> 9" "unat x \<le> 19" "20 * dig_nat 10 h + unat x = dig_nat 10 D" "take zptr (h @ [x]) = take zptr D"
    using halve_loop [OF assms] .
  have e: "halve_digits zptr D = h @ [drop_bit 1 x]"
    unfolding halve_digits_def Let_def h(1) using h(2) by (simp add: nth_append list_update_append)
  have hd: "unat (drop_bit 1 x) = unat x div 2" "unat (drop_bit 1 x) \<le> 9" using halve_digit [OF h(4), of 0] by simp_all
  have "dig_nat 10 (h @ [drop_bit 1 x]) = (20 * dig_nat 10 h + unat x) div 2" by (simp add: dig_nat_append hd(1) [unfolded One_nat_def])
  then have v: "dig_nat 10 (h @ [drop_bit 1 x]) = dig_nat 10 D div 2" unfolding h(5) .
  have "h ! i = 0" if "i < zptr" for i
  proof -
    have "i < length h" using that assms(2) h(2) by simp
    then have "h ! i = take zptr (h @ [x]) ! i" using that by (simp add: nth_append)
    then show ?thesis unfolding h(6) using that assms(2,3) by simp
  qed
  then show ?thesis unfolding e using h(2,3) hd(2) v assms(2) by (auto simp: nth_append)
qed

lemma bin_register:
  assumes "n \<le> length a"
  shows "fold (\<lambda>i (val, one). (val + one * ucast (a ! i), push_bit 1 one)) (rev [0..<n]) (x, y) = (x + y * (of_nat (dig_nat 2 (take n a)) :: usint), y * 2 ^ n)"
  using assms
proof (induction n arbitrary: x y)
  case (Suc n)
  have "ucast (a ! n) = (of_nat (unat (a ! n)) :: usint)" by simp
  then show ?case using Suc by (simp add: push_bit_eq_mult take_Suc_conv_app_nth dig_nat_append algebra_simps)
qed simp

lemma UintInBinaryToDecimal_value:
  assumes "length a = 32" "\<forall>d\<in>set a. unat d \<le> 1"
  shows "unat (UintInBinaryToDecimal a) = dig_nat 2 a"
proof -
  have "\<forall>d\<in>set a. unat d < 2" using assms(2) by fastforce
  then have "dig_nat 2 a < 2 ^ 32" using dig_nat_less [of 2 a] assms(1) by simp
  moreover have "UintInBinaryToDecimal a = of_nat (dig_nat 2 a)"
    using bin_register [of 32 a 0 1] assms(1) by (simp add: UintInBinaryToDecimal_def m_limbBitLength_def)
  ultimately show ?thesis by (simp add: unat_of_nat_limb)
qed

text \<open>The limbs pushed so far, the bits in the register and the digits that are left make up the number.\<close>

definition assign_inv :: "nat \<Rightarrow> assign_state \<Rightarrow> bool" where
  "assign_inv N = (\<lambda>(zptr, D, bitArr, cnt, v). zptr < length D \<and> (\<forall>d\<in>set D. unat d \<le> 9) \<and> (\<forall>i<zptr. D ! i = 0) \<and>
     length bitArr = 32 \<and> cnt < 32 \<and> (\<forall>i\<le>cnt. bitArr ! i = 0) \<and> (\<forall>d\<in>set bitArr. unat d \<le> 1) \<and>
     N = limbs_nat v + LB ^ length v * (dig_nat 2 bitArr + 2 ^ (31 - cnt) * dig_nat 10 D))"

definition assign_measure :: "assign_state \<Rightarrow> nat" where
  "assign_measure = (\<lambda>(zptr, D, bitArr, cnt, v). dig_nat 10 D + (length D - zptr))"

lemma digits_parity:
  assumes "D \<noteq> []"
  shows "unat (D ! (length D - 1) mod 2) = dig_nat 10 D mod 2"
proof -
  obtain E d where D: "D = E @ [d]" using assms by (cases D rule: rev_cases) auto
  have "(dig_nat 10 E * 10 + unat d) mod 2 = unat d mod 2" by presburger
  then show ?thesis by (simp add: D dig_nat_append unat_mod_distrib)
qed

lemma register_set:
  assumes "length bitArr = 32" "cnt < 32" "\<forall>i\<le>cnt. bitArr ! i = 0" "\<forall>d\<in>set bitArr. unat d \<le> 1" "unat b \<le> 1"
  shows "dig_nat 2 (bitArr[cnt := b]) = dig_nat 2 bitArr + unat b * 2 ^ (31 - cnt)" "\<forall>d\<in>set (bitArr[cnt := b]). unat d \<le> 1"
    "length (bitArr[cnt := b]) = 32"
proof -
  show "dig_nat 2 (bitArr[cnt := b]) = dig_nat 2 bitArr + unat b * 2 ^ (31 - cnt)"
    using dig_nat_update [of cnt bitArr 2 b] assms(1-3) by simp
  show "\<forall>d\<in>set (bitArr[cnt := b]). unat d \<le> 1" using assms(4,5) set_update_subset_insert [of bitArr cnt b] by auto
qed (simp add: assms(1))

lemma AssignVal_step_value:
  assumes inv: "assign_inv N st"
  obtains zptr D bitArr cnt v where "AssignVal_step st = (zptr, D, bitArr, cnt, v)"
    "zptr = length D \<Longrightarrow> v \<noteq> [] \<and> limbs_nat v = N"
    "zptr \<noteq> length D \<Longrightarrow> assign_inv N (zptr, D, bitArr, cnt, v) \<and> assign_measure (zptr, D, bitArr, cnt, v) < assign_measure st"
proof -
  obtain z D0 a c v where st: "st = (z, D0, a, c, v)" using prod_cases5 by blast
  have i: "z < length D0" "\<forall>d\<in>set D0. unat d \<le> 9" "\<forall>i<z. D0 ! i = 0" "length a = 32" "c < 32" "\<forall>i\<le>c. a ! i = 0" "\<forall>d\<in>set a. unat d \<le> 1"
    "N = limbs_nat v + LB ^ length v * (dig_nat 2 a + 2 ^ (31 - c) * dig_nat 10 D0)" using inv by (simp_all add: st assign_inv_def)
  define V where "V = dig_nat 10 D0"
  define D where "D = halve_digits z D0"
  have D: "length D = length D0" "\<forall>d\<in>set D. unat d \<le> 9" "\<forall>i<z. D ! i = 0" "dig_nat 10 D = V div 2"
    using halve_digits_value [OF i(2,1,3)] by (simp_all add: D_def V_def)
  have ne: "D0 \<noteq> []" using i(1) by auto
  define b where "b = D0 ! (length D0 - 1) mod 2"
  have b: "unat b = V mod 2" unfolding b_def V_def by (rule digits_parity [OF ne])
  define a1 where "a1 = a[c := b]"
  have a1: "dig_nat 2 a1 = dig_nat 2 a + unat b * 2 ^ (31 - c)" "\<forall>d\<in>set a1. unat d \<le> 1" "length a1 = 32"
    using register_set [OF i(4-7), of b] b by (simp_all add: a1_def)
  define c2 v2 a2 where "c2 = (if c = 0 then 31 else c - 1)" and "v2 = (if c = 0 then v @ [UintInBinaryToDecimal a1] else v)"
    and "a2 = (if c = 0 then replicate 32 0 else a1)"
  have a2: "length a2 = 32" "\<forall>i\<le>c2. a2 ! i = 0" "\<forall>d\<in>set a2. unat d \<le> 1" "c2 < 32"
    using a1 i(5,6) by (auto simp: a2_def c2_def a1_def nth_list_update)
  have sum: "dig_nat 2 a + 2 ^ (31 - c) * V = dig_nat 2 a1 + 2 ^ (32 - c) * (V div 2)"
  proof -
    have "32 - c = Suc (31 - c)" using i(5) by simp
    then have p: "(2 :: nat) ^ (32 - c) = 2 ^ (31 - c) * 2" by simp
    have "dig_nat 2 a1 + 2 ^ (32 - c) * (V div 2) = dig_nat 2 a + 2 ^ (31 - c) * (2 * (V div 2) + V mod 2)"
      unfolding a1(1) b p by (simp only: distrib_left mult.commute mult.left_commute add.commute add.left_commute)
    then show ?thesis by simp
  qed
  have N: "N = limbs_nat v2 + LB ^ length v2 * (dig_nat 2 a2 + 2 ^ (31 - c2) * (V div 2))"
  proof (cases "c = 0")
    case True
    then show ?thesis using sum i(8) UintInBinaryToDecimal_value [OF a1(3,2)]
      by (simp add: v2_def a2_def c2_def V_def [symmetric] limbs_nat_append algebra_simps)
  next
    case False
    then have "31 - c2 = 32 - c" using i(5) by (simp add: c2_def)
    then show ?thesis using sum i(8) False by (simp add: v2_def a2_def V_def [symmetric])
  qed
  define z2 where "z2 = (if D ! z = 0 then z + 1 else z)"
  have z2: "\<forall>i<z2. D ! i = 0" "z2 \<le> length D" using D(1,3) i(1) by (auto simp: z2_def less_Suc_eq)
  show thesis
  proof (cases "z2 = length D")
    case True
    have "\<forall>d\<in>set D. d = 0" using z2(1) True by (auto simp: in_set_conv_nth)
    then have "V div 2 = 0" using dig_nat_all_zero [of D 10] D(4) by simp
    then have "limbs_nat (v2 @ [UintInBinaryToDecimal a2]) = N"
      using N UintInBinaryToDecimal_value [OF a2(1,3)] by (simp add: limbs_nat_append)
    moreover have "D ! (length D0 - 1) = 0" using \<open>\<forall>d\<in>set D. d = 0\<close> D(1) ne by (simp add: nth_mem)
    then have "AssignVal_step st = (z2, D, replicate 32 0, c2, v2 @ [UintInBinaryToDecimal a2])"
      using True D(1) unfolding AssignVal_step_def st Let_def split_conv b_def [symmetric] a1_def [symmetric] D_def [symmetric]
      by (simp add: m_limbBitLength_def z2_def c2_def v2_def a2_def)
    ultimately show thesis using that True by blast
  next
    case False
    then have s: "AssignVal_step st = (z2, D, a2, c2, v2)"
      using D(1) unfolding AssignVal_step_def st Let_def split_conv b_def [symmetric] a1_def [symmetric] D_def [symmetric]
      by (simp add: m_limbBitLength_def z2_def c2_def v2_def a2_def)
    have "assign_inv N (z2, D, a2, c2, v2)" using False z2 D a2 N by (simp add: assign_inv_def)
    moreover have "assign_measure (z2, D, a2, c2, v2) < assign_measure st"
    proof (cases "V = 0")
      case True
      then have "\<forall>d\<in>set D. d = 0" using D(4) dig_nat_zero_iff [of 10 D] by simp
      then have "D ! z = 0" using i(1) D(1) by simp
      then show ?thesis using True D(1,4) i(1) by (simp add: assign_measure_def st z2_def V_def [symmetric])
    next
      case False
      then show ?thesis using D(1,4) by (simp add: assign_measure_def st z2_def V_def [symmetric]) linarith
    qed
    ultimately show thesis using that s False by blast
  qed
qed

lemma BI_AssignVal_loop_value: "assign_inv N st \<Longrightarrow> \<exists>v. BI_AssignVal_loop st = Some v \<and> v \<noteq> [] \<and> limbs_nat v = N"
proof (induction "assign_measure st" arbitrary: st rule: less_induct)
  case less
  obtain z0 D0 a0 c0 v0 where st: "st = (z0, D0, a0, c0, v0)" using prod_cases5 by blast
  have "z0 \<noteq> length D0" using less.prems by (simp add: st assign_inv_def)
  then have loop: "BI_AssignVal_loop st = BI_AssignVal_loop (AssignVal_step st)" by (subst BI_AssignVal_loop.simps) (simp add: st)
  obtain z D a c v where s: "AssignVal_step st = (z, D, a, c, v)" "z = length D \<Longrightarrow> v \<noteq> [] \<and> limbs_nat v = N"
    "z \<noteq> length D \<Longrightarrow> assign_inv N (z, D, a, c, v) \<and> assign_measure (z, D, a, c, v) < assign_measure st"
    using AssignVal_step_value [OF less.prems] by blast
  show ?case
  proof (cases "z = length D")
    case True
    then have "BI_AssignVal_loop (AssignVal_step st) = Some v" by (subst BI_AssignVal_loop.simps) (simp add: s(1))
    then show ?thesis using s(2) [OF True] loop by simp
  next
    case False
    then show ?thesis using less.hyps s(3) [OF False] loop s(1) by metis
  qed
qed

text \<open>A string of digits, given by the numbers they stand for.\<close>

definition digit_string :: "nat list \<Rightarrow> string" where
  "digit_string ds = map (\<lambda>d. char_of (48 + d)) ds"

fun radix_nat :: "nat \<Rightarrow> nat list \<Rightarrow> nat" where
  "radix_nat b [] = 0"
| "radix_nat b (d # ds) = d * b ^ length ds + radix_nat b ds"

lemma radix_nat_append: "radix_nat b (xs @ ys) = radix_nat b xs * b ^ length ys + radix_nat b ys"
  by (induction xs) (simp_all add: power_add algebra_simps)

lemma digit_char_zero: "(d :: nat) < 10 \<Longrightarrow> (char_of (48 + d) :: char) = CHR ''0'' \<longleftrightarrow> d = 0"
proof -
  assume d: "d < 10"
  have "char_digit (CHR ''0'') = 0" by (simp add: char_digit_def)
  then have "(char_of (48 + d) :: char) = CHR ''0'' \<Longrightarrow> d = 0" using char_digit_decimal [OF d] by simp
  then show ?thesis by auto
qed

lemma digit_char_space: "(d :: nat) < 10 \<Longrightarrow> (char_of (48 + d) :: char) \<noteq> CHR 0x20"
proof -
  assume d: "d < 10"
  have "char_digit (CHR 0x20) = - 16" by (simp add: char_digit_def)
  then show ?thesis using char_digit_decimal [OF d] by auto
qed

lemma dropWhile_digits:
  "\<forall>d\<in>set ds. d < 10 \<Longrightarrow> dropWhile (\<lambda>c. c = CHR ''0'') (digit_string ds) = digit_string (dropWhile (\<lambda>d. d = 0) ds)"
  by (induction ds) (auto simp: digit_string_def digit_char_zero)

lemma dropWhile_spaces: "\<forall>d\<in>set ds. d < 10 \<Longrightarrow> dropWhile (\<lambda>c. c = CHR 0x20) (digit_string ds) = digit_string ds"
  by (cases ds) (auto simp: digit_string_def digit_char_space)

lemma radix_nat_strip: "radix_nat 10 (dropWhile (\<lambda>d. d = 0) ds) = radix_nat 10 ds"
  by (induction ds) simp_all

lemma stoi_digits: "\<forall>d\<in>set ds. d < 10 \<Longrightarrow> res_map stoi_char (digit_string ds) = Inr ds"
  by (induction ds) (auto simp: digit_string_def stoi_char_def char_digit_decimal Let_def)

lemma dig_nat_of_digits: "\<forall>d\<in>set ds. d < 10 \<Longrightarrow> dig_nat 10 (map of_nat ds) = radix_nat 10 ds"
  by (induction ds) (simp_all add: unat_of_nat)

lemma digit_string_empty [simp]: "digit_string ds = [] \<longleftrightarrow> ds = []"
  by (simp add: digit_string_def)

lemma BI_AssignVal_digits:
  assumes "\<forall>d\<in>set ds. d < 10"
  shows "BI_AssignVal (digit_string ds) = Some (Inr (ub_of (radix_nat 10 ds)))"
proof -
  define es where "es = (let e = dropWhile (\<lambda>d. d = 0) ds in if e = [] then [0] else e)"
  have d: "\<forall>d\<in>set (dropWhile (\<lambda>d. d = 0) ds). d < 10" using assms by (meson set_dropWhileD)
  then have es: "\<forall>d\<in>set es. d < 10" "es \<noteq> []" "radix_nat 10 es = radix_nat 10 ds"
    using radix_nat_strip [of ds] by (auto simp: es_def Let_def simp del: dropWhile_eq_Nil_conv)
  have "(let v = dropWhile (\<lambda>c. c = CHR ''0'') (digit_string ds); v = dropWhile (\<lambda>c. c = CHR 0x20) v in if length v = 0 then ''0'' else v) = digit_string es"
    unfolding Let_def dropWhile_digits [OF assms] dropWhile_spaces [OF d] by (simp add: es_def Let_def digit_string_def del: dropWhile_eq_Nil_conv)
  moreover have "assign_inv (radix_nat 10 ds) (0, map of_nat es, replicate 32 0, 31, [])"
    using es by (auto simp: assign_inv_def dig_nat_of_digits unat_of_nat)
  then obtain v where v: "BI_AssignVal_loop (0, map of_nat es, replicate 32 0, 31, []) = Some v" "v \<noteq> []" "limbs_nat v = radix_nat 10 ds"
    using BI_AssignVal_loop_value by blast
  ultimately show ?thesis using stoi_digits [OF es(1)] NormalizeLimbs_SetMSB [OF v(2), of 0]
    by (simp add: BI_AssignVal_def Let_def m_limbBitLength_def del: res_bind_eq_Inr)
qed

lemma decimal_digit_string: "\<exists>ds. decimal n = digit_string ds \<and> (\<forall>d\<in>set ds. d < 10) \<and> radix_nat 10 ds = n"
proof (induction n rule: decimal.induct)
  case (1 n)
  show ?case
  proof (cases "n < 10")
    case True
    then show ?thesis by (intro exI [of _ "[n]"]) (simp add: decimal.simps [of n] digit_string_def)
  next
    case False
    then obtain ds where "decimal (n div 10) = digit_string ds" "\<forall>d\<in>set ds. d < 10" "radix_nat 10 ds = n div 10" using 1 by blast
    then show ?thesis using False
      by (intro exI [of _ "ds @ [n mod 10]"]) (auto simp: decimal.simps [of n] digit_string_def radix_nat_append)
  qed
qed

lemma BI_AssignVal_decimal: "BI_AssignVal (decimal n) = Some (Inr (ub_of n))"
  using decimal_digit_string [of n] BI_AssignVal_digits by auto

section \<open>Parsing a binary string\<close>

lemma radix_nat_less: "0 < b \<Longrightarrow> \<forall>d\<in>set ds. d < b \<Longrightarrow> radix_nat b ds < b ^ length ds"
proof (induction ds)
  case (Cons d ds)
  have "d * b ^ length ds + radix_nat b ds < (d + 1) * b ^ length ds" using Cons by simp
  also have "\<dots> \<le> b * b ^ length ds" using Cons.prems by (intro mult_le_mono1) simp
  finally show ?case by simp
qed simp

lemma stoi_digit: "d < 10 \<Longrightarrow> stoi_char (char_of (48 + d)) = Inr d"
  by (simp add: stoi_char_def char_digit_decimal Let_def)

lemma partial_value_bits:
  assumes "\<forall>d\<in>set ds. d < 2" "j + length ds \<le> 62" "q < 2 ^ j"
  shows "partial_value (of_nat (2 * q)) (digit_string ds) = Inr (of_nat (q * 2 ^ length ds + radix_nat 2 ds))"
  using assms
proof (induction ds arbitrary: q j)
  case Nil
  have "2 * q < 2 * 2 ^ j" using Nil by simp
  also have "(2 :: nat) * 2 ^ j \<le> 2 * 2 ^ 62" using Nil by (intro mult_le_mono2 power_increasing) simp_all
  finally have "2 * q < 2 ^ 64" by simp
  then have "unat (of_nat (2 * q) :: NativeInt) = 2 * q" by (rule unat_of_nat_64)
  then have "drop_bit 1 (of_nat (2 * q) :: NativeInt) = of_nat q"
    using \<open>2 * q < 2 ^ 64\<close> by (intro word_unat_eq_iff [THEN iffD2]) (simp only: unat_drop_bit, simp add: unat_of_nat_64)
  then show ?case by (simp add: digit_string_def del: of_nat_mult)
next
  case (Cons d ds)
  have "push_bit 1 (of_nat (2 * q) + of_nat d) = (of_nat (2 * (2 * q + d)) :: NativeInt)" by (simp add: push_bit_eq_mult algebra_simps)
  moreover have "stoi_char (char_of (48 + d)) = Inr d" using Cons.prems(1) by (intro stoi_digit) simp
  moreover have "2 * q + d < 2 ^ Suc j" using Cons.prems(1,3) by simp
  then have "partial_value (of_nat (2 * (2 * q + d))) (digit_string ds) = Inr (of_nat ((2 * q + d) * 2 ^ length ds + radix_nat 2 ds))"
    using Cons.IH [of "Suc j" "2 * q + d"] Cons.prems by simp
  moreover have "(2 * q + d) * 2 ^ length ds + radix_nat 2 ds = q * 2 ^ length (d # ds) + radix_nat 2 (d # ds)" by (simp add: algebra_simps)
  ultimately show ?case by (simp only: digit_string_def list.map partial_value.simps res_bind.simps)
qed

lemma limb_of_bits:
  assumes "\<forall>d\<in>set ds. d < 2" "length ds \<le> 32"
  shows "res_bind (partial_value 0 (digit_string ds)) (\<lambda>p. Inr (ucast p)) = Inr (of_nat (radix_nat 2 ds) :: usint)"
proof -
  have "radix_nat 2 ds < 2 ^ length ds" using assms(1) by (intro radix_nat_less) simp_all
  also have "(2 :: nat) ^ length ds \<le> 2 ^ 32" using assms(2) by (intro power_increasing) simp_all
  finally have "(ucast (of_nat (radix_nat 2 ds) :: NativeInt) :: usint) = of_nat (radix_nat 2 ds)"
    by (simp add: word_unat_eq_iff unat_ucast_64_32 unat_of_nat_limb unat_of_nat_64)
  then show ?thesis using partial_value_bits [of ds 0 0] assms by simp
qed

text \<open>The bits that go into limb \<open>i\<close>: all of them but for the top limb of a string whose length is a multiple of 32.\<close>

lemma binary_chunk_digits: "binary_chunk (digit_string ds) i = digit_string
    (if length ds > (i + 1) * 32 then take 32 (drop (length ds - (i + 1) * 32) ds) else take (length ds mod 32) ds)"
  by (simp add: binary_chunk_def digit_string_def m_limbBitLength_def take_map drop_map)

lemma chunk_value:
  assumes "\<forall>d\<in>set ds. d < 2" "(i + 1) * 32 < length ds"
  shows "radix_nat 2 (take 32 (drop (length ds - (i + 1) * 32) ds)) = radix_nat 2 ds div LB ^ i mod LB"
proof -
  define k where "k = length ds - (i + 1) * 32"
  define A M C where "A = take k ds" and "M = take 32 (drop k ds)" and "C = drop 32 (drop k ds)"
  have "ds = A @ M @ C" unfolding A_def M_def C_def by (simp only: append_take_drop_id)
  have len: "length M = 32" "length C = 32 * i" using assms(2) by (simp_all add: M_def C_def k_def)
  have "set M \<subseteq> set ds" "set C \<subseteq> set ds" by (auto simp: M_def C_def dest: in_set_takeD in_set_dropD)
  then have b: "radix_nat 2 M < LB" "radix_nat 2 C < LB ^ i"
    using radix_nat_less [of 2 M] radix_nat_less [of 2 C] assms(1) len by (auto simp: LB_power)
  have "radix_nat 2 ds = radix_nat 2 C + LB ^ i * (radix_nat 2 M + LB * radix_nat 2 A)"
    by (simp add: \<open>ds = A @ M @ C\<close> radix_nat_append len LB_power power_add algebra_simps)
  then have "radix_nat 2 ds div LB ^ i = radix_nat 2 M + LB * radix_nat 2 A" using b(2) by simp
  then show ?thesis using b(1) by (simp add: M_def k_def)
qed

lemma top_chunk_value:
  assumes "\<forall>d\<in>set ds. d < 2" "length ds = 32 * i + r" "r < 32"
  shows "radix_nat 2 (take r ds) = radix_nat 2 ds div LB ^ i"
proof -
  have "radix_nat 2 (drop r ds) < 2 ^ length (drop r ds)" using assms(1) by (intro radix_nat_less) (auto dest: in_set_dropD)
  then have "radix_nat 2 (drop r ds) < LB ^ i" using assms(2) by (simp add: LB_power)
  moreover have "radix_nat 2 ds = radix_nat 2 (drop r ds) + LB ^ i * radix_nat 2 (take r ds)"
    using radix_nat_append [of 2 "take r ds" "drop r ds"] assms(2) by (simp add: LB_power algebra_simps)
  ultimately show ?thesis by simp
qed

lemma nbits_bits: "ds \<noteq> [] \<Longrightarrow> \<forall>d\<in>set ds. d < 2 \<Longrightarrow> hd ds = 1 \<Longrightarrow> nbits (radix_nat 2 ds) = length ds"
  using radix_nat_less [of 2 ds] by (intro nbits_eqI) (cases ds; simp)+

lemma FromBinaryString_limbs:
  assumes ds: "ds \<noteq> []" "\<forall>d\<in>set ds. d < 2" "hd ds = 1"
  defines "n \<equiv> ceilIntByUInt (length ds)" and "V \<equiv> radix_nat 2 ds"
  defines "limbs \<equiv> (if length ds mod 32 \<noteq> 0 then nat_limbs V else butlast (nat_limbs V) @ [0])"
  shows "BI_FromBinaryString (digit_string ds) = SetMSB \<lparr>ub_value = limbs, ub_MSB = 0, ub_state = INITIALIZED\<rparr>"
proof -
  have len: "length (nat_limbs V) = n" using ceil_nbits [of V] nbits_bits [OF ds] by (simp add: n_def V_def)
  then have ll: "length limbs = n" "0 < n" by (auto simp: limbs_def)
  define q r where "q = length ds div 32" and "r = length ds mod 32"
  have qr: "length ds = 32 * q + r" "r < 32" by (simp_all add: q_def r_def)
  have n: "n = (if r = 0 then q else q + 1)" using ds(1) by (simp add: n_def ceilIntByUInt_def m_limbBitLength_def q_def r_def)
  have chunk: "res_bind (partial_value 0 (binary_chunk (digit_string ds) i)) (\<lambda>p. Inr (ucast p)) = Inr (limbs ! i)" if i: "i < n" for i
  proof (cases "(i + 1) * 32 < length ds")
    case True
    then have "i + 1 < n" using n qr by (cases "r = 0") auto
    then have "limbs ! i = nat_limbs V ! i" using len by (auto simp: limbs_def nth_append nth_butlast)
    then have l: "limbs ! i = of_nat (V div LB ^ i)" using nth_nat_limbs [of i V] len i by simp
    have "res_bind (partial_value 0 (binary_chunk (digit_string ds) i)) (\<lambda>p. Inr (ucast p)) = Inr (of_nat (V div LB ^ i mod LB) :: usint)"
    proof -
      have "\<forall>d\<in>set (take 32 (drop (length ds - (i + 1) * 32) ds)). d < 2" using ds(2) by (meson in_set_takeD in_set_dropD)
      then show ?thesis unfolding binary_chunk_digits if_P [OF True]
        using limb_of_bits [of "take 32 (drop (length ds - (i + 1) * 32) ds)"] unfolding chunk_value [OF ds(2) True] V_def by simp
    qed
    moreover have "(of_nat (V div LB ^ i mod LB) :: usint) = of_nat (V div LB ^ i)" by (simp add: word_unat_eq_iff unat_of_nat_limb)
    ultimately show ?thesis using l by simp
  next
    case False
    have s: "res_bind (partial_value 0 (binary_chunk (digit_string ds) i)) (\<lambda>p. Inr (ucast p)) = Inr (of_nat (radix_nat 2 (take r ds)) :: usint)"
    proof -
      have "\<forall>d\<in>set (take r ds). d < 2" "length (take r ds) \<le> 32" using ds(2) by (auto simp: r_def min_le_iff_disj less_imp_le dest: in_set_takeD)
      then show ?thesis unfolding binary_chunk_digits if_not_P [OF False] r_def [symmetric] by (rule limb_of_bits)
    qed
    have i1: "i = n - 1" using False i n qr by (cases "r = 0") auto
    show ?thesis
    proof (cases "r = 0")
      case True
      then show ?thesis using s i1 len ll by (simp add: limbs_def r_def nth_append)
    next
      case False
      then have "length ds = 32 * i + r" using i1 n qr by simp
      then have "radix_nat 2 (take r ds) = V div LB ^ i" using top_chunk_value [OF ds(2)] by (simp add: r_def V_def)
      then show ?thesis using s False nth_nat_limbs [of i V] len i by (simp add: limbs_def r_def)
    qed
  qed
  have m: "res_map (\<lambda>i. res_bind (partial_value 0 (binary_chunk (digit_string ds) i)) (\<lambda>p. Inr (ucast p))) [0..<n] = Inr limbs"
    unfolding res_map_Inr_iff using ll chunk by simp
  have "\<forall>d\<in>set ds. d < 10" using ds(2) by fastforce
  then have "dropWhile (\<lambda>c. c = CHR 0x20) (digit_string ds) = digit_string ds" "dropWhile (\<lambda>c. c = CHR ''0'') (digit_string ds) = digit_string ds"
    using ds(1,3) by (simp_all add: dropWhile_spaces dropWhile_digits) (cases ds; simp)
  moreover have "length (digit_string ds) = length ds" by (simp add: digit_string_def)
  ultimately show ?thesis using m ds(1) unfolding BI_FromBinaryString_def Let_def by (simp add: n_def)
qed

lemma BI_FromBinaryString_of:
  assumes "ds \<noteq> []" "\<forall>d\<in>set ds. d < 2" "hd ds = 1" "length ds mod 32 \<noteq> 0"
  shows "BI_FromBinaryString (digit_string ds) = Inr (ub_of (radix_nat 2 ds))"
  unfolding FromBinaryString_limbs [OF assms(1-3)] using SetMSB_normalized [of "nat_limbs (radix_nat 2 ds)" 0] assms(4) by simp

lemma limbs_nat_butlast: "limbs_nat (butlast (nat_limbs n)) = n mod LB ^ (length (nat_limbs n) - 1)"
proof -
  have "n = limbs_nat (butlast (nat_limbs n)) + LB ^ (length (nat_limbs n) - 1) * unat (last (nat_limbs n))"
    using limbs_nat_last [of "nat_limbs n"] by simp
  moreover have "limbs_nat (butlast (nat_limbs n)) < LB ^ (length (nat_limbs n) - 1)" using limbs_nat_less [of "butlast (nat_limbs n)"] by simp
  ultimately show ?thesis by (metis mod_mult_self2 mod_less)
qed

lemma BI_FromBinaryString_lost:
  assumes "ds \<noteq> []" "\<forall>d\<in>set ds. d < 2" "hd ds = 1" "length ds mod 32 = 0"
  shows "\<exists>x. BI_FromBinaryString (digit_string ds) = Inr x \<and> ub_nat x = radix_nat 2 ds mod 2 ^ (length ds - 32)"
proof -
  let ?V = "radix_nat 2 ds"
  have "length (nat_limbs ?V) = length ds div 32"
    using ceil_nbits [of ?V] nbits_bits [OF assms(1-3)] assms(1,4) by (simp add: ceilIntByUInt_def m_limbBitLength_def)
  moreover have "32 * (length ds div 32) = length ds" using mult_div_mod_eq [of 32 "length ds"] unfolding assms(4) by simp
  then have "32 * (length ds div 32 - 1) = length ds - 32" by (simp only: diff_mult_distrib2 mult_1_right)
  ultimately have "limbs_nat (butlast (nat_limbs ?V) @ [0]) = ?V mod 2 ^ (length ds - 32)"
    by (simp add: limbs_nat_append limbs_nat_butlast LB_power)
  then show ?thesis unfolding FromBinaryString_limbs [OF assms(1-3)]
    using SetMSB_raw [of "\<lparr>ub_value = butlast (nat_limbs ?V) @ [0], ub_MSB = 0, ub_state = INITIALIZED\<rparr>"] assms(4) by (auto simp: ub_nat_def)
qed

section \<open>Digits in a base that is a power of two\<close>

lemma ceil_log2_power: "ceil_log2 (2 ^ k) = k"
proof (cases k)
  case (Suc j)
  have "floorlog 2 (2 ^ k - 1 :: nat) = k"
  proof (rule antisym)
    have "(2 :: nat) ^ (k - 1) \<le> 2 ^ k - 1" 
    proof -
      have "(1 :: nat) \<le> 2 ^ j" by simp
      then show ?thesis using Suc by (simp only: power_Suc diff_Suc_1)
    qed
    then show "k \<le> floorlog 2 (2 ^ k - 1)" by (intro floorlog_geI) simp_all
    show "floorlog 2 (2 ^ k - 1) \<le> k" by (intro floorlog_leI) simp_all
  qed
  moreover have "\<not> (2 :: nat) ^ k \<le> 1" using Suc one_less_power [of "2 :: nat" k] by simp
  ultimately show ?thesis by (simp only: ceil_log2_def if_False)
qed (simp add: ceil_log2_def)

lemma unat_power_two: "k < 32 \<Longrightarrow> unat (2 ^ k :: usint) = 2 ^ k"
proof -
  assume "k < 32"
  then have "(2 :: nat) ^ k < 2 ^ 32" by (intro power_strict_increasing) simp_all
  then show ?thesis using unat_of_nat_limb [of "2 ^ k"] by simp
qed

lemma of_nat_power_less: "j < 32 \<Longrightarrow> k < 32 \<Longrightarrow> (2 ^ j :: usint) < 2 ^ k \<longleftrightarrow> j < k"
  by (simp add: word_less_nat_alt unat_power_two)

lemma digit_loop_of:
  assumes "k < 32" "j \<le> k" "k - j < fuel" "0 < s" "s + k \<le> 4294967296"
  shows "BI_digit_loop fuel (ub_of n) (2 ^ k) (2 ^ j) (of_nat (s + j)) (of_nat (n div 2 ^ (s - 1) mod 2 ^ j)) = Some (Inr (of_nat (n div 2 ^ (s - 1) mod 2 ^ k)))"
  using assms(2,3)
proof (induction fuel arbitrary: j)
  case (Suc fuel)
  show ?case
  proof (cases "j = k")
    case True
    then show ?thesis by simp
  next
    case False
    then have j: "j < k" using Suc.prems(1) by simp
    let ?m = "n div 2 ^ (s - 1)"
    have u: "unat (of_nat (s + j) :: usint) = s + j" unfolding unat_of_nat_limb using j assms(5) by simp
    have b: "bit n (s + j - 1) = bit ?m j" using assms(4) by (simp add: bit_drop_bit_eq flip: drop_bit_eq_div)
    have "?m mod 2 ^ Suc j = ?m mod 2 ^ j + of_bool (bit ?m j) * 2 ^ j"
      using take_bit_Suc_from_most [of j ?m] by (simp add: take_bit_eq_mod)
    then have "of_nat (?m mod 2 ^ j) + of_bool (bit ?m j) * 2 ^ j = (of_nat (?m mod 2 ^ Suc j) :: usint)" by (simp del: power_Suc)
    moreover have "ucast (of_bool (bit ?m j) :: uschar) = (of_bool (bit ?m j) :: usint)" by simp
    moreover have "(2 ^ j * 2 :: usint) = 2 ^ Suc j" "of_nat (s + j) + 1 = (of_nat (s + Suc j) :: usint)" by simp_all
    moreover have "(2 ^ j :: usint) < 2 ^ k" using j assms(1) by (simp add: of_nat_power_less)
    moreover have "BI_GetBitAtIndex (ub_of n) (unat (of_nat (s + j) :: usint)) = Inr (of_bool (bit ?m j))"
      using assms(4) b by (simp only: u BI_GetBitAtIndex_of) simp
    ultimately show ?thesis using Suc.IH [of "Suc j"] j Suc.prems(2) by (simp only: BI_digit_loop.simps if_True sum.case)
  qed
qed simp

lemma BI_GetDigitAtIndexForBase_of:
  assumes "k < 32" "0 < unat index" "unat index * k < 4294967296"
  shows "BI_GetDigitAtIndexForBase (ub_of n) index (2 ^ k) = Some (Inr (of_nat (n div 2 ^ ((unat index - 1) * k) mod 2 ^ k)))"
proof -
  let ?s = "1 + (unat index - 1) * k"
  have "(unat index - 1) * k + k = unat index * k" using assms(2) by (cases "unat index") simp_all
  then have s: "?s + k \<le> 4294967296" using assms(3) by simp
  have "index - 1 = of_nat (unat index - 1)" using assms(2) by (simp add: of_nat_diff)
  then have "1 + (index - 1) * of_nat k = (of_nat (?s + 0) :: usint)" by simp
  moreover have "unat (2 ^ k :: usint) = 2 ^ k" using assms(1) by (simp add: unat_power_two)
  ultimately show ?thesis using digit_loop_of [of k 0 33 ?s n] assms(1) s
    by (simp add: BI_GetDigitAtIndexForBase_def Let_def ceil_log2_power)
qed

section \<open>Properties\<close>

text \<open>
  C27: Every constructor from a number or a string makes a well-formed number with the value it is given: from a 64-bit, a 128-bit and a 32-bit integer, from a string of
  decimal digits, the default one, which is 0, and the copy of a well-formed number. A 64-bit value converts back to itself. A well-formed number is the only one of its value,
  so that comparing limbs compares the numbers: the relational operators decide order and equality.
\<close>

theorem BigInteger_type:
  "ub_wf (ubint_u64 a) \<and> ub_nat (ubint_u64 a) = unat a \<and> BI_ConvertToInt (ubint_u64 a) = Inr a \<and>
   ub_wf (ubint_u128 w) \<and> ub_nat (ubint_u128 w) = unat w \<and> ub_wf (UsintToUbint u) \<and> ub_nat (UsintToUbint u) = unat u \<and> ub_wf ubint_default \<and> ub_nat ubint_default = 0 \<and>
   ((\<forall>d\<in>set ds. d < 10) \<longrightarrow> (\<exists>z. ubint_string (digit_string ds) = Some (Inr z) \<and> ub_wf z \<and> ub_nat z = radix_nat 10 ds)) \<and>
   (ub_wf x \<longrightarrow> ubint_copy x = Inr x) \<and>
   (ub_wf x \<and> ub_wf y \<longrightarrow> (ub_nat x = ub_nat y \<longrightarrow> x = y) \<and> BI_eq x y = Inr (x = y) \<and> BI_lt x y = Inr (ub_nat x < ub_nat y) \<and>
      BI_le x y = Inr (ub_nat x \<le> ub_nat y) \<and> BI_gt x y = Inr (ub_nat x > ub_nat y) \<and> BI_ge x y = Inr (ub_nat x \<ge> ub_nat y))"
proof (intro conjI impI)
  assume "\<forall>d\<in>set ds. d < 10"
  from BI_AssignVal_digits [OF this] show "\<exists>z. ubint_string (digit_string ds) = Some (Inr z) \<and> ub_wf z \<and> ub_nat z = radix_nat 10 ds"
    by (simp add: ubint_string_def)
qed (auto simp: ubint_u64_of ubint_u128_of UsintToUbint_def ubint_default_of BI_ConvertToInt_of elim!: ub_wfE)

theorem BigInteger_type_witness:
  "(\<exists>z. ubint_string (digit_string [0, 4, 2]) = Some (Inr z) \<and> ub_wf z \<and> ub_nat z = 42) \<and> ubint_copy (ubint_u64 7) = Inr (ubint_u64 7) \<and>
   BI_eq (ubint_u64 7) (ubint_u64 8) = Inr False \<and> BI_lt (ubint_u64 7) (ubint_u64 8) = Inr True"
  using BigInteger_type [of 7 0 0 "[0, 4, 2]" "ubint_u64 7" "ubint_u64 8"] by (auto simp: ubint_u64_of)

text \<open>
  C28: A number read bit by bit. \<open>GetBitAtIndex\<close> returns the bits counted from 1, \<open>GetDigitAtIndexForBase\<close> for a base \<open>2 ^ k\<close> the digits counted from 1, not
  from 0 as in the example of its documentation, and \<open>isPowerOfTwo\<close> holds
  exactly of the powers of two and of 0.
\<close>

theorem BigInteger_bits:
  assumes "ub_wf x" "k < 32" "0 < unat index" "unat index * k < 2 ^ 32"
  shows "BI_GetBitAtIndex x i = Inr (of_bool (0 < i \<and> bit (ub_nat x) (i - 1))) \<and>
    BI_GetDigitAtIndexForBase x index (2 ^ k) = Some (Inr (of_nat (ub_nat x div 2 ^ ((unat index - 1) * k) mod 2 ^ k))) \<and>
    BI_isPowerOfTwo x = Inr (ub_nat x = 0 \<or> (\<exists>j. ub_nat x = 2 ^ j))"
proof -
  obtain a where x: "x = ub_of a" using assms(1) by (auto elim!: ub_wfE)
  show ?thesis using assms(2-) by (simp add: x BI_GetBitAtIndex_of BI_GetDigitAtIndexForBase_of BI_isPowerOfTwo_of)
qed

theorem BigInteger_bits_witness:
  "BI_GetDigitAtIndexForBase (ubint_u64 0x123456789) 3 (2 ^ 8) = Some (Inr 0x45) \<and> BI_GetBitAtIndex (ubint_u64 0x123456789) 33 = Inr 1 \<and>
    BI_isPowerOfTwo (ubint_u64 0) = Inr True"
  using BigInteger_bits [of "ubint_u64 0x123456789" 8 3 33] BigInteger_bits [of "ubint_u64 0" 8 3 33] by (simp add: ubint_u64_of bit_iff_odd)

text \<open>
  C12: Decimal strings. The parser ends on every string of digits, leading zeros included, with the number it denotes. \<open>ToString\<close> writes the decimal digits of the number modulo
  \<open>10 ^ m_numDigitInPrintval\<close>, for numbers of any size, so that a number below that bound, and only such a one, is parsed back from its string.
\<close>

theorem BigInteger_decimal_roundtrip:
  assumes "ub_wf x" "\<forall>d\<in>set ds. d < 10"
  shows "BI_ToString x = Inr (decimal (ub_nat x mod 10 ^ m_numDigitInPrintval)) \<and>
    ubint_string (digit_string ds) = Some (Inr (ub_of (radix_nat 10 ds))) \<and> ubint_string (decimal (ub_nat x)) = Some (Inr x) \<and>
    (\<exists>str. BI_ToString x = Inr str \<and> (ubint_string str = Some (Inr x) \<longleftrightarrow> ub_nat x < 10 ^ m_numDigitInPrintval))"
proof -
  obtain a where x: "x = ub_of a" using assms(1) by (auto elim!: ub_wfE)
  define B :: nat where "B = 10 ^ m_numDigitInPrintval"
  have "0 < B" by (simp add: B_def)
  then have "a mod B = a \<longleftrightarrow> a < B" by (metis mod_less mod_less_divisor)
  then show ?thesis using BI_AssignVal_digits [OF assms(2)]
    unfolding B_def [symmetric] x BI_ToString_of ubint_string_def ub_nat_of by (simp add: BI_AssignVal_decimal)
qed

theorem BigInteger_decimal_roundtrip_witness:
  "BI_ToString (ubint_u64 12345) = Inr (decimal 12345) \<and> ubint_string (decimal 12345) = Some (Inr (ubint_u64 12345)) \<and> ubint_string ''0042'' = Some (Inr (ub_of 42))"
proof -
  have v: "ub_wf (ubint_u64 12345)" "ub_nat (ubint_u64 12345) = 12345" by (simp_all add: ubint_u64_of)
  have "(12345 :: nat) < 10 ^ 5" by simp
  also have "(10 :: nat) ^ 5 \<le> 10 ^ m_numDigitInPrintval" by (rule power_increasing) (simp_all add: m_numDigitInPrintval_def)
  finally have b: "12345 mod 10 ^ m_numDigitInPrintval = (12345 :: nat)" by (rule mod_less)
  have ds: "digit_string [0, 0, 4, 2] = ''0042''" by code_simp
  have r: "radix_nat 10 [0, 0, 4, 2] = 42" "\<forall>d\<in>set [0, 0, 4, 2]. d < (10 :: nat)" by simp_all
  show ?thesis using BigInteger_decimal_roundtrip [OF v(1) r(2)] unfolding v ds r(1) b by blast
qed

text \<open>
  C29: Binary strings. \<open>FromBinaryString\<close> returns the number of a string of bits with a leading 1, unless its length is a multiple of 32: then the 32 leading bits are lost.
\<close>

theorem BigInteger_FromBinaryString:
  assumes "ds \<noteq> []" "\<forall>d\<in>set ds. d < 2" "hd ds = 1"
  shows "if length ds mod 32 \<noteq> 0 then BI_FromBinaryString (digit_string ds) = Inr (ub_of (radix_nat 2 ds))
    else \<exists>x. BI_FromBinaryString (digit_string ds) = Inr x \<and> ub_nat x = radix_nat 2 ds mod 2 ^ (length ds - 32)"
  using BI_FromBinaryString_of [OF assms] BI_FromBinaryString_lost [OF assms] by simp

theorem BigInteger_FromBinaryString_witness:
  "BI_FromBinaryString (digit_string [1, 0, 1]) = Inr (ub_of 5) \<and> (\<exists>x. BI_FromBinaryString (digit_string (replicate 32 1)) = Inr x \<and> ub_nat x = 0)"
  using BigInteger_FromBinaryString [of "[1, 0, 1]"] BigInteger_FromBinaryString [of "replicate 32 1"] by simp

end
