(* ===== verification/Spec2Isabelle.thy ===== *)
theory Spec2Isabelle
  imports Prelude NbBits NatInt NatMod NatVec NTT NbTheory NbPoly Poly Ring Double LWE RGSW SignedDigits BlindRotation
    AccKeys Gates Bootstrapping GateLogic FuncEval LargePrecision BigInt BigNat BigDiv BigMod BigStr
begin

text \<open>
  A verification library for the arithmetic core of OpenFHE, a C++ library for fully homomorphic encryption.

  \<^bold>\<open>The program.\<close> OpenFHE is layered. At the bottom \<open>src/core\<close> has machine and multi-limb integers, vectors of
  residues, the number theoretic transform, number theory and lattice polynomials; \<open>src/binfhe\<close> builds the LWE and RGSW
  schemes for Boolean circuits on them, and \<open>src/pke\<close> the schemes BFV, BGV and CKKS. Every ciphertext operation of the
  upper layers is a sequence of operations of \<open>src/core\<close>. This library models that core for the native backend with
  \<open>NATIVEINT = 64\<close> and without \<open>NATIVEINT_DO_CHECKS\<close>, the default build, the multi-limb integers of the default backend \<open>bigintdyn\<close>, and on top of it the Boolean scheme of
  \<open>src/binfhe\<close>: LWE, the RingGSW accumulators, the gates and functional bootstrapping.

  \<^bold>\<open>The theories\<close>, in the order of their dependency:

  \<^item> \<open>Prelude\<close>: the types \<open>NativeInt\<close> (\<open>uint64_t\<close>), \<open>DNativeInt\<close> (\<open>unsigned __int128\<close>) and \<open>usint\<close> (\<open>uint32_t\<close>) as words, the
    exceptions \<open>ofhe_error\<close>, the result type and its bind, the loop combinators \<open>for_range\<close> and \<open>res_range\<close> with
    their invariant rules, and generic lemmas on words, residues and lists.
  \<^item> \<open>NbBits\<close> (\<open>nbtheory.h\<close>, \<open>utilities.h\<close>): \<open>GetMSB\<close> in three widths, the byte table and \<open>ReverseBits\<close>, \<open>GetDigits\<close>, carries.
    \<open>GetMSB\<close> is the bit length; \<open>ReverseBits\<close> is the reversal \<open>brv\<close> of the transform's index order.
  \<^item> \<open>NatInt\<close> (\<open>ubintnat.h\<close>): the plain arithmetic of \<open>NativeIntegerT\<close>, with the \<open>Eq\<close>, \<open>Fast\<close> and \<open>Check\<close> variants,
    rounding division, digits, and decimal strings with their round trip.
  \<^item> \<open>NatMod\<close> (\<open>ubintnat.h\<close>): modular arithmetic. The Barrett and the Shoup multiplication are equal to the
    multiplication of residues under the modulus sizes the code allows; the locale \<open>modular_ring\<close> states the contract and is
    interpreted for the plain, the fast and the Barrett family. \<open>ModExp\<close> and \<open>ModInverse\<close> terminate with the right result.
  \<^item> \<open>NatVec\<close> (\<open>mubintvecnat.cpp\<close>): \<open>NativeVectorT\<close> as a record of data and modulus. The locales \<open>pointwise_op\<close> and
    \<open>scalar_op\<close> state what an element-wise operation promises, and every modular operation of the class interprets one.
    \<open>SwitchModulus\<close> keeps the centred residues.
  \<^item> \<open>NTT\<close> (\<open>transformnat-impl.h\<close>): the in-place butterflies of \<open>NumberTheoreticTransformNat\<close> and the cached tables of
    \<open>ChineseRemainderTransformFTTNat\<close>. The locale \<open>twiddle\<close> abstracts from the multiplication (Barrett, Shoup). The forward
    transform evaluates a polynomial at the odd powers of the root in bit-reversed order, the inverse one
    undoes it, and the product of two transforms is the transform of the negacyclic product.
  \<^item> \<open>NbTheory\<close> (\<open>nbtheory.cpp\<close>, \<open>nbtheory2.cpp\<close>): random numbers, gcd, Miller-Rabin, Pollard's rho, factorisation,
    generators, roots of unity, prime searches.
  \<^item> \<open>NbPoly\<close> (the same files): polynomial arithmetic modulo \<open>q\<close>, cyclotomic polynomials, automorphism indices.
  \<^item> \<open>Poly\<close> (\<open>poly.cpp\<close>, \<open>poly.h\<close>, \<open>elemparams.h\<close>, \<open>ilparams.h\<close>): \<open>PolyImpl\<close> over the native vector. The relation \<open>represents\<close>
    says which ring element an object stands for in either format; the class implements the ring of integers modulo \<open>q\<close> and
    \<open>x ^ n + 1\<close>, and its automorphisms. The locale \<open>linear_op\<close> is the contract of the additive operations.
  \<^item> \<open>Double\<close>: the IEEE double arithmetic the sources round with, as exact rational operations followed by a rounding to 53
    bits; scaling a residue from one modulus to another is exact for moduli whose product has at most 50 bits.
  \<^item> \<open>LWE\<close> (\<open>src/binfhe/lib/lwe-pke.cpp\<close> and its headers): encryption, decryption, homomorphic operations, modulus and key
    switching. Every operation is described by its effect on the phase \<open>b - <a, s>\<close> of a ciphertext; the locale \<open>lwe_linear\<close>
    is the contract of the operations on two ciphertexts. Decryption inverts encryption up to the stated noise.
  \<^item> \<open>Ring\<close>: the ring of integer polynomials modulo \<open>q\<close> and \<open>x ^ N + 1\<close> the accumulators compute in, as coefficient lists. An identity holds
    in it when it holds at all the roots (\<open>ring_congI\<close>); \<open>poly_is\<close> says which ring element a \<open>PolyImpl\<close> object stands for.
  \<^item> \<open>RGSW\<close> (\<open>rgsw-cryptoparameters.h\<close>, \<open>rgsw-cryptoparameters.cpp\<close>, \<open>rgsw-acc.cpp\<close>, \<open>rgsw-acc-cggi.cpp\<close>, \<open>rgsw-acc-dm.cpp\<close>): the parameters,
    the signed digit decomposition, key generation and accumulation of both bootstrapping methods.
  \<^item> \<open>SignedDigits\<close>: the digits of \<open>SignedDigitDecompose\<close> are small; a coefficient is recomposed from them exactly when its balanced residue is in the range of
    \<open>D\<close> digits, and every coefficient is when \<open>gadget_ok\<close> holds.
  \<^item> \<open>BlindRotation\<close>: an external product multiplies the phase of an accumulator by the message of the key, and \<open>EvalAcc\<close> rotates it by the
    inner product of a ciphertext with the secret, both with a bound of the noise.
  \<^item> \<open>AccKeys\<close>: the precomputation and the key generation provide what \<open>BlindRotation\<close> relies on, and all of it composed.
  \<^item> \<open>Gates\<close> (\<open>binfhe-base-scheme.cpp\<close>): the scheme object with its accumulator, key generation, gates, bootstrapping, the evaluation of tables,
    flooring, sign and digit decomposition.
  \<^item> \<open>Bootstrapping\<close>: the locale \<open>accumulator\<close> states what an accumulator promises and is interpreted for both variants and for the dispatching scheme
    object; in it a bootstrapping evaluates a function that changes its sign after half a period. Extraction and switching down with their noise.
  \<^item> \<open>GateLogic\<close>: a gate on encrypted bits encrypts its truth table, and so does a circuit of gates, from key generation to decryption. \<open>EvalBinGate\<close> compares the
    pointers of its operands; a circuit (\<open>circuit_eval\<close>) is a tree over the ciphertext objects of its inputs, and the operands of a gate are the same object when both are the same input.
  \<^item> \<open>FuncEval\<close>: \<open>EvalFunc\<close> evaluates negacyclic, periodic and arbitrary tables.
  \<^item> \<open>LargePrecision\<close>: \<open>EvalFloor\<close> and \<open>EvalSign\<close> on numbers larger than a table, and the termination of their loops.
  \<^item> \<open>BigInt\<close> (\<open>bigintdyn/ubintdyn.cpp\<close>, \<open>ubintdyn.h\<close>): the multi-limb integers \<open>ubint<uint32_t>\<close> as a record of limbs, leading bit and state, with every
    operation of the class that computes with integers or strings.
  \<^item> \<open>BigNat\<close>: the numbers \<open>ub_of a\<close> are the canonical representations of the natural numbers and \<open>ub_wf\<close> is the invariant of the class. Construction, comparison,
    addition, subtraction with its borrows, multiplication, powers, shifts and bits compute on them what they promise.
  \<^item> \<open>BigDiv\<close>: Knuth's algorithm D, limb by limb. The quotient digit is estimated at most 2 too high, the correction leaves at most 1, and the step that adds the divisor back
    makes it exact, so that quotient, remainder and the rounding division are right.
  \<^item> \<open>BigMod\<close>: the locale \<open>unsigned_integers\<close> is the contract of an implementation of the natural numbers; both the plain operations and those with assignment interpret it.
    Modular arithmetic, the Euclidean inverse and exponentiation with their termination, and the properties of the class.
  \<^item> \<open>BigStr\<close>: decimal and binary strings, and the digits of a number in a base.

  \<^bold>\<open>How state and effects are modelled.\<close> An object is a record with the fields of its class; a method that changes it returns
  the new record, and an in-place method keeps the suffix \<open>Eq\<close> of the source. The static table caches of the transform are
  an explicit argument and result. An exception is \<open>Inl\<close> of an \<open>ofhe_error\<close>; reads out of range, a null pointer and a
  division by zero, which are undefined behaviour in C++, are further constructors of that type where an ordinary input
  can reach them, and so is the signed overflow of the shift mask of \<open>ubint::RShift\<close> (\<open>int_overflow\<close>). A template over the integer type is modelled at \<open>NativeInteger\<close>.

  \<^bold>\<open>Bounds and fuel.\<close> A Barrett modulus has at most 60 bits (\<open>MAX_MODULUS_SIZE\<close>); \<open>barrett_exact\<close> is the class of moduli for
  which the reduction is exact, and \<open>barrett_limits\<close> shows why the restriction is needed. Transforms have length \<open>2 ^ K\<close>
  with \<open>K\<close> at most 24, so that the 32-bit indices of the source cannot wrap (the round trip of the butterflies alone is stated for the indices as
  natural numbers, which agree with the source for these \<open>K\<close>). An LWE inner product of \<open>n\<close> terms is summed up without a
  reduction, so its theorems ask for \<open>(n + 2) q < 2 ^ 64\<close>. Modulus switching is analysed for moduli whose product has at most 50 bits, where the double arithmetic is exact.
  The noise of the accumulators is bounded in the worst case, not by its variance: \<open>noise_fits\<close>, a hypothesis of the theorems on gates, circuits and \<open>Bootstrap\<close>, bounds the sum of the
  largest possible errors, and the parameter sets of \<open>binfhecontext.cpp\<close>, which are chosen for the probable size, need not satisfy it with non-zero noise (\<open>STD128\<close> does not).
  The theorems on blind rotation and on everything above it also assume \<open>gadget_ok\<close> (in \<open>rgsw_fresh\<close> and \<open>binfhe_setup\<close>): half the modulus is at most the largest sum of \<open>D\<close> gadget digits. It is false of
  the sets \<open>TOY\<close>, \<open>STD128_AP\<close>, \<open>STD128_APOPT\<close>, \<open>STD128Q\<close>, \<open>STD128Q_OPT\<close> and \<open>SIGNED_MOD_TEST\<close> and of the bases \<open>2 ^ 18\<close> and \<open>2 ^ 27\<close> of large precision; the theorem on
  \<open>SignedDigitDecompose\<close> does not assume it and says which coefficients these sets do not recompose (\<open>shipped_gadget_gaps\<close>). \<open>AddToAccCGGI\<close> writes
  1024 entries of eight digit polynomials to files, so its theorems ask for \<open>N\<close> of at least 1024 and at least four digits. Loops that repeat until a
  random candidate is accepted (\<open>RNG\<close>, \<open>PollardRhoFactorization\<close>, \<open>FindGenerator\<close>, the prime searches) carry fuel and return
  \<open>None\<close> when it runs out; the theorems state how much fuel is enough for the result, for instance \<open>n + 1\<close>
  rounds for Pollard's rho, whose sequence must repeat by then. The loops of the multi-limb integers that are not counted are partial functions, and their theorems state that
  they return. The position of the leading bit of such an integer is a natural number: its 32-bit field cannot wrap below \<open>2 ^ 27\<close> limbs.

  \<^bold>\<open>Parameters.\<close> The uniform distribution of the C++ library and the engine behind it are a function \<open>unif\<close>. Sampled vectors and noise are
  arguments. The digit counts of key switching and of the gadget, computed with the C library's logarithm, are the function \<open>dcount\<close>. \<open>ChineseRemainderTransformArb\<close> is the argument \<open>arb\<close> of the polynomial methods that reach it.

  \<^bold>\<open>Not modelled.\<close> The conversions of multi-limb integers to floating point, the backend \<open>bigintfxd\<close> with a fixed number of limbs, and the vectors of
  multi-limb integers, whose operations and transforms repeat the native ones; the \<open>NATIVEINT = 128\<close> and 32-bit branches; the NTL backend, a wrapper of a library that is not part of
  the sources; \<open>DCRTPolyImpl\<close> and the schemes on top of it; the
  context of \<open>src/binfhe\<close>, which chooses parameters and forwards to the scheme; Bluestein's transform for orders that are not powers of
  two; sampling, trapdoors and the complex Fourier transform, which compute with floating-point numbers;
  serialisation, allocation and threading.
\<close>

end
